(* ===== verification/Squid_Prelude.thy ===== *)
theory Squid_Prelude
  imports Main "HOL-Library.Word"
begin

text \<open>
  Shared vocabulary of the Squid development: the ways a routine of the program can stop
  (a failed \<^verbatim>\<open>assert()\<close>, a failed \<^verbatim>\<open>Must()\<close>, \<^verbatim>\<open>fatal()\<close>, a thrown object) as values of a
  sum type, reachability for step relations with an interface (a locale) for inductive
  invariants, and lemmas on counting processes and on list updates that several components use.
\<close>

section \<open>Outcomes of routines\<close>

datatype fault =
    AssertFault          \<comment> \<open>\<^verbatim>\<open>assert(c)\<close> with \<^verbatim>\<open>c\<close> false\<close>
  | MustFault            \<comment> \<open>\<^verbatim>\<open>Must(c)\<close> with \<^verbatim>\<open>c\<close> false, a thrown TextException\<close>
  | FatalFault           \<comment> \<open>a call of \<^verbatim>\<open>fatal()\<close>\<close>
  | OutOfBounds          \<comment> \<open>an array access outside its allocation\<close>
  | LoopBound            \<comment> \<open>a modelled loop ran more often than its bound\<close>
  | ThrowItemTooLarge
  | ThrowFull
  | ThrowText string     \<comment> \<open>\<^verbatim>\<open>throw TexcHere(s)\<close>\<close>

type_synonym 'a outcome = "fault + 'a"

text \<open>The address of an object in an explicit memory.\<close>

type_synonym addr = nat

fun bindE :: "'e + 'a \<Rightarrow> ('a \<Rightarrow> 'e + 'b) \<Rightarrow> 'e + 'b" where
  "bindE (Inl e) k = Inl e"
| "bindE (Inr x) k = k x"

definition guardE :: "bool \<Rightarrow> 'e \<Rightarrow> 'e + 'a \<Rightarrow> 'e + 'a" where
  "guardE c e k = (if c then k else Inl e)"

named_theorems outcome_simps \<open>unfolding and inverting outcome combinators\<close>

lemma bindE_Inr_iff [outcome_simps]: "bindE m k = Inr y \<longleftrightarrow> (\<exists>x. m = Inr x \<and> k x = Inr y)"
  by (cases m) auto

lemma bindE_Inl_iff [outcome_simps]:
  "bindE m k = Inl e \<longleftrightarrow> m = Inl e \<or> (\<exists>x. m = Inr x \<and> k x = Inl e)"
  by (cases m) auto

lemma bindE_assoc: "bindE (bindE m f) g = bindE m (\<lambda>x. bindE (f x) g)"
  by (cases m) auto

lemma guardE_Inr_iff [outcome_simps]: "guardE c e k = Inr y \<longleftrightarrow> c \<and> k = Inr y"
  by (simp add: guardE_def)

lemma guardE_Inl_iff [outcome_simps]:
  "guardE c e k = Inl e' \<longleftrightarrow> (\<not> c \<and> e' = e) \<or> (c \<and> k = Inl e')"
  by (auto simp: guardE_def)

lemma guardE_True [simp]: "guardE True e k = k"
  by (simp add: guardE_def)

lemma guardE_False [simp]: "guardE False e k = Inl e"
  by (simp add: guardE_def)

lemma bindE_cong: "m = m' \<Longrightarrow> (\<And>x. m' = Inr x \<Longrightarrow> k x = k' x) \<Longrightarrow> bindE m k = bindE m' k'"
  by (cases m') auto

lemma guardE_cong: "c = c' \<Longrightarrow> e = e' \<Longrightarrow> (c' \<Longrightarrow> k = k') \<Longrightarrow> guardE c e k = guardE c' e' k'"
  by (simp add: guardE_def)

text \<open>A loop over a list whose body may fault.\<close>

fun foldE :: "('s \<Rightarrow> 'a \<Rightarrow> 's outcome) \<Rightarrow> 'a list \<Rightarrow> 's \<Rightarrow> 's outcome" where
  "foldE f [] s = Inr s"
| "foldE f (x # xs) s = bindE (f s x) (foldE f xs)"

lemma foldE_total: "(\<And>s x. x \<in> set xs \<Longrightarrow> f s x = Inr (g x s)) \<Longrightarrow> foldE f xs s = Inr (fold g xs s)"
  by (induction xs arbitrary: s) auto

section \<open>Reachable states and inductive invariants\<close>

inductive reach :: "('s \<Rightarrow> bool) \<Rightarrow> ('s \<Rightarrow> 's \<Rightarrow> bool) \<Rightarrow> 's \<Rightarrow> bool"
  for start :: "'s \<Rightarrow> bool" and step :: "'s \<Rightarrow> 's \<Rightarrow> bool" where
  reach_start: "start s \<Longrightarrow> reach start step s"
| reach_step: "reach start step s \<Longrightarrow> step s t \<Longrightarrow> reach start step t"

text \<open>
  The interface of a component that is a step relation: a predicate that holds at the start and
  that every step keeps. The client's fact is that it holds in every reachable state.
\<close>

locale invariant_system =
  fixes start :: "'s \<Rightarrow> bool"
    and step :: "'s \<Rightarrow> 's \<Rightarrow> bool"
    and inv :: "'s \<Rightarrow> bool"
  assumes inv_start: "start s \<Longrightarrow> inv s"
    and inv_step: "inv s \<Longrightarrow> step s t \<Longrightarrow> inv t"
begin

lemma reach_inv: "reach start step s \<Longrightarrow> inv s"
  by (induction rule: reach.induct) (auto intro: inv_start inv_step)

lemma reach_steps_inv: "inv s \<Longrightarrow> step\<^sup>*\<^sup>* s t \<Longrightarrow> inv t"
  by (rotate_tac, induction rule: rtranclp_induct) (auto intro: inv_step)

end

section \<open>Counting the processes in a set of control points\<close>

definition at_count :: "('p \<Rightarrow> 'c) \<Rightarrow> 'c set \<Rightarrow> int" where
  "at_count pcs S = int (card {p. pcs p \<in> S})"

lemma at_count_nonneg [simp]: "0 \<le> at_count pcs S"
  by (simp add: at_count_def)

lemma at_count_update:
  assumes "finite {p. pcs p \<in> S}"
  shows "at_count (pcs(q := c)) S =
    at_count pcs S + (if c \<in> S then 1 else 0) - (if pcs q \<in> S then 1 else 0)"
proof -
  define A where "A = {p. pcs p \<in> S} - {q}"
  have fin: "finite A" and q: "q \<notin> A" using assms by (auto simp: A_def)
  have "{p. (pcs(q := c)) p \<in> S} = (if c \<in> S then insert q A else A)"
    and "{p. pcs p \<in> S} = (if pcs q \<in> S then insert q A else A)"
    by (auto simp: A_def)
  then show ?thesis
    using fin q by (simp add: at_count_def)
qed

lemma at_count_pos:
  assumes "finite {p. pcs p \<in> S}" and "pcs q \<in> S"
  shows "0 < at_count pcs S"
  using assms by (auto simp: at_count_def card_gt_0_iff)

lemma at_count_zero_iff:
  assumes "finite {p. pcs p \<in> S}"
  shows "at_count pcs S = 0 \<longleftrightarrow> (\<forall>p. pcs p \<notin> S)"
  using assms by (auto simp: at_count_def)

lemma finite_update:
  "finite {p. pcs p \<noteq> c} \<Longrightarrow> finite {p. (pcs(q := d)) p \<noteq> c}"
  by (rule finite_subset [where B = "insert q {p. pcs p \<noteq> c}"]) auto

lemma finite_at:
  "finite {p. pcs p \<noteq> c} \<Longrightarrow> c \<notin> S \<Longrightarrow> finite {p. pcs p \<in> S}"
  by (rule finite_subset [where B = "{p. pcs p \<noteq> c}"]) auto

section \<open>Counting list elements after an indexed update\<close>

lemma length_filter_update:
  "i < length xs \<Longrightarrow>
   int (length (filter P (xs[i := y]))) =
   int (length (filter P xs)) + (if P y then 1 else 0) - (if P (xs ! i) then 1 else 0)"
proof (induction xs arbitrary: i)
  case Nil
  then show ?case by simp
next
  case (Cons x xs)
  show ?case
  proof (cases i)
    case 0
    then show ?thesis by simp
  next
    case (Suc j)
    with Cons.prems Cons.IH [of j] show ?thesis by (simp split: if_splits)
  qed
qed

lemma list_all_update:
  "list_all P xs \<Longrightarrow> P y \<Longrightarrow> list_all P (xs[i := y])"
  by (auto simp: list_all_iff dest!: subsetD [OF set_update_subset_insert])

lemma list_all_at: "list_all P xs \<Longrightarrow> i < length xs \<Longrightarrow> P (xs ! i)"
  by (simp add: list_all_length)

section \<open>Byte buffers\<close>

type_synonym byte = "8 word"
type_synonym bytes = "8 word list"

definition bytes_at :: "'b list \<Rightarrow> nat \<Rightarrow> nat \<Rightarrow> 'b list" where
  "bytes_at buf pos n = take n (drop pos buf)"

definition memcpy_at :: "'b list \<Rightarrow> nat \<Rightarrow> 'b list \<Rightarrow> 'b list" where
  "memcpy_at buf pos v = take pos buf @ v @ drop (pos + length v) buf"

lemma length_bytes_at [simp]: "length (bytes_at buf pos n) = min n (length buf - pos)"
  by (simp add: bytes_at_def min.commute)

lemma length_memcpy_at [simp]:
  "pos + length v \<le> length buf \<Longrightarrow> length (memcpy_at buf pos v) = length buf"
  by (simp add: memcpy_at_def)

lemma memcpy_at_same:
  "pos + length v \<le> length buf \<Longrightarrow> bytes_at (memcpy_at buf pos v) pos (length v) = v"
  by (simp add: memcpy_at_def bytes_at_def)

lemma nth_memcpy_at_other:
  "pos + length v \<le> length buf \<Longrightarrow> i < length buf \<Longrightarrow> i < pos \<or> pos + length v \<le> i \<Longrightarrow>
   memcpy_at buf pos v ! i = buf ! i"
  by (auto simp: memcpy_at_def nth_append min_def)

lemma memcpy_at_disjoint:
  assumes "pos + length v \<le> length buf" and "p + n \<le> length buf"
    and "p + n \<le> pos \<or> pos + length v \<le> p"
  shows "bytes_at (memcpy_at buf pos v) p n = bytes_at buf p n"
  using assms by (intro nth_equalityI) (auto simp: bytes_at_def nth_memcpy_at_other)

lemma chunk_disjoint:
  fixes i j w :: nat
  assumes "i \<noteq> j" shows "i * w + w \<le> j * w \<or> j * w + w \<le> i * w"
proof (cases "i < j")
  case True
  then have "Suc i * w \<le> j * w" by (intro mult_le_mono1) simp
  then show ?thesis by simp
next
  case False
  with assms have "Suc j * w \<le> i * w" by (intro mult_le_mono1) simp
  then show ?thesis by simp
qed

lemma chunk_in_range:
  fixes i c w :: nat
  assumes "i < c" shows "i * w + w \<le> c * w"
proof -
  have "Suc i * w \<le> c * w" using assms by (intro mult_le_mono1) simp
  then show ?thesis by simp
qed

text \<open>Reading and writing an allocation of a fixed size.\<close>

definition read_octets :: "bytes \<Rightarrow> nat \<Rightarrow> nat \<Rightarrow> bytes outcome" where
  "read_octets buf off n = (if off + n \<le> length buf then Inr (bytes_at buf off n) else Inl OutOfBounds)"

definition write_octets :: "bytes \<Rightarrow> nat \<Rightarrow> bytes \<Rightarrow> bytes outcome" where
  "write_octets buf off v = (if off + length v \<le> length buf then Inr (memcpy_at buf off v) else Inl OutOfBounds)"

text \<open>A sequence of \<^verbatim>\<open>memcpy(buf + off, ...); off += ...\<close>.\<close>

fun write_all :: "bytes \<Rightarrow> nat \<Rightarrow> bytes list \<Rightarrow> bytes outcome" where
  "write_all buf off [] = Inr buf"
| "write_all buf off (v # vs) = bindE (write_octets buf off v) (\<lambda>buf. write_all buf (off + length v) vs)"

lemma bytes_at_1: "off < length buf \<Longrightarrow> bytes_at buf off (Suc 0) = [buf ! off]"
  by (simp add: bytes_at_def take_Suc_conv_app_nth hd_drop_conv_nth take_Suc)

lemma bytes_at_append: "bytes_at buf off (m + n) = bytes_at buf off m @ bytes_at buf (off + m) n"
  by (simp add: bytes_at_def take_add add.commute)

lemma take_memcpy_at: "pos + length v \<le> length buf \<Longrightarrow> take (pos + length v) (memcpy_at buf pos v) = take pos buf @ v"
  by (simp add: memcpy_at_def)

lemma memcpy_at_twice:
  "pos + length v + length w \<le> length buf \<Longrightarrow>
   memcpy_at (memcpy_at buf pos v) (pos + length v) w = memcpy_at buf pos (v @ w)"
  by (simp add: memcpy_at_def ac_simps)

lemma write_all_memcpy:
  "off + length (concat vs) \<le> length buf \<Longrightarrow> vs \<noteq> [] \<Longrightarrow> write_all buf off vs = Inr (memcpy_at buf off (concat vs))"
proof (induction vs arbitrary: buf off)
  case (Cons v vs)
  show ?case
  proof (cases "vs = []")
    case False
    then have "write_all (memcpy_at buf off v) (off + length v) vs = Inr (memcpy_at (memcpy_at buf off v) (off + length v) (concat vs))"
      using Cons.prems(1) by (intro Cons.IH) simp_all
    then show ?thesis using Cons.prems(1) by (simp add: write_octets_def memcpy_at_twice)
  qed (use Cons.prems in \<open>simp add: write_octets_def\<close>)
qed simp

section \<open>Indices that wrap at a multiple of the capacity\<close>

lemma unat_of_nat_mod:
  assumes "c dvd 2 ^ LENGTH('a)"
  shows "unat (of_nat k :: 'a :: len word) mod c = k mod c"
  using assms by (simp add: unat_of_nat mod_mod_cancel)

lemma mod_window_distinct:
  fixes a b i c :: nat
  assumes "a \<le> i" "i < b" "b < a + c"
  shows "i mod c \<noteq> b mod c"
proof
  assume "i mod c = b mod c"
  then have "c dvd b - i" using assms by (metis mod_eq_dvd_iff_nat nat_less_le)
  then show False using assms by (auto dest: dvd_imp_le)
qed

section \<open>Sums over a list with one element replaced\<close>

lemma sum_list_update_add:
  fixes f :: "'a \<Rightarrow> 'b :: comm_monoid_add"
  assumes "i < length xs"
  shows "sum_list (map f (xs[i := y])) + f (xs ! i) = sum_list (map f xs) + f y"
  using assms
proof (induction xs arbitrary: i)
  case Nil
  then show ?case by simp
next
  case (Cons x xs)
  show ?case
  proof (cases i)
    case 0
    then show ?thesis by (simp add: ac_simps)
  next
    case (Suc j)
    with Cons.prems Cons.IH [of j] show ?thesis by (simp add: ac_simps)
  qed
qed

lemma sum_list_at_le:
  fixes f :: "'a \<Rightarrow> nat"
  assumes "i < length xs"
  shows "f (xs ! i) \<le> sum_list (map f xs)"
  using assms by (intro member_le_sum_list) (auto intro: nth_mem)

lemma sum_list_two_le:
  fixes f :: "'a \<Rightarrow> nat"
  assumes "i < length xs" "j < length xs" "i \<noteq> j"
  shows "f (xs ! i) + f (xs ! j) \<le> sum_list (map f xs)"
  using assms
proof (induction xs arbitrary: i j)
  case (Cons x xs)
  then show ?case
    using sum_list_at_le [of _ xs f]
    by (cases i; cases j) (auto simp: add.commute intro: le_SucI trans_le_add2 add_mono)
qed simp

section \<open>Decimal numerals\<close>

definition is_digit :: "char \<Rightarrow> bool" where
  "is_digit c = (48 \<le> (of_char c :: nat) \<and> (of_char c :: nat) \<le> 57)"

text \<open>The decimal digits of a number, as \<^verbatim>\<open>printf("%u")\<close> writes them.\<close>

fun decimal :: "nat \<Rightarrow> string" where
  "decimal n = (if n < 10 then [char_of (48 + n)] else decimal (n div 10) @ [char_of (48 + n mod 10)])"

declare decimal.simps [simp del]

lemma decimal_digits: "list_all is_digit (decimal n)"
proof (induction n rule: decimal.induct)
  case (1 n)
  moreover have "is_digit (char_of (48 + m :: nat))" if "m < 10" for m
    using that by (simp add: is_digit_def of_char_of)
  ultimately show ?case by (subst decimal.simps) auto
qed

lemma decimal_not_Nil [simp]: "decimal n \<noteq> []"
  by (subst decimal.simps) auto

end
