(* ===== verification/Read_Write_Lock.thy ===== *)
theory Read_Write_Lock
  imports Squid_Prelude
begin

text \<open>
  The shared-memory lock of \<^verbatim>\<open>src/ipc/ReadWriteLock.cc\<close>, twice.  First as the routines run to
  completion by one process (\<open>lockShared\<close>, \<open>lockExclusive\<close>, \<dots>), over the two atomic counters
  of the class.  Then as a step relation in which every atomic instruction of every process is a
  step of its own, so that all interleavings of any number of processes are runs: mutual exclusion
  and the safety of the \<^verbatim>\<open>assert()\<close>s are invariants of that relation.
\<close>

section \<open>The routines\<close>

record rw_lock =
  readers :: int
  writers :: int

definition new_lock :: rw_lock where
  "new_lock = \<lparr>readers = 0, writers = 0\<rparr>"

definition lockShared :: "rw_lock \<Rightarrow> bool \<times> rw_lock" where
  "lockShared l =
     (let l1 = l\<lparr>readers := readers l + 1\<rparr>
      in if writers l1 = 0 then (True, l1)
         else (False, l1\<lparr>readers := readers l1 - 1\<rparr>))"

definition lockExclusive :: "rw_lock \<Rightarrow> bool \<times> rw_lock" where
  "lockExclusive l =
     (let old = writers l; l1 = l\<lparr>writers := writers l + 1\<rparr>
      in if old = 0 \<and> readers l1 = 0 then (True, l1)
         else (False, l1\<lparr>writers := writers l1 - 1\<rparr>))"

definition unlockShared :: "rw_lock \<Rightarrow> rw_lock outcome" where
  "unlockShared l = guardE (readers l > 0) AssertFault (Inr (l\<lparr>readers := readers l - 1\<rparr>))"

definition unlockExclusive :: "rw_lock \<Rightarrow> rw_lock outcome" where
  "unlockExclusive l = guardE (writers l > 0) AssertFault (Inr (l\<lparr>writers := writers l - 1\<rparr>))"

definition switchExclusiveToShared :: "rw_lock \<Rightarrow> rw_lock outcome" where
  "switchExclusiveToShared l = unlockExclusive (l\<lparr>readers := readers l + 1\<rparr>)"

record lock_stats =
  st_count :: int
  st_readable :: int
  st_writeable :: int
  st_idle :: int
  st_readers :: int
  st_writers :: int

definition zero_stats :: lock_stats where
  "zero_stats = \<lparr>st_count = 0, st_readable = 0, st_writeable = 0, st_idle = 0,
     st_readers = 0, st_writers = 0\<rparr>"

definition lock_updateStats :: "rw_lock \<Rightarrow> lock_stats \<Rightarrow> lock_stats" where
  "lock_updateStats l st =
     (let st1 =
        (if readers l \<noteq> 0 then
           st\<lparr>st_readable := st_readable st + 1, st_readers := st_readers st + readers l\<rparr>
         else if writers l \<noteq> 0 then
           st\<lparr>st_writeable := st_writeable st + 1, st_writers := st_writers st + writers l\<rparr>
         else st\<lparr>st_idle := st_idle st + 1\<rparr>)
      in st1\<lparr>st_count := st_count st1 + 1\<rparr>)"

lemmas lock_defs = lockShared_def lockExclusive_def unlockShared_def unlockExclusive_def
  switchExclusiveToShared_def Let_def

text \<open>
  What the routines promise a caller that runs them one after the other: a lock that is free
  (\<open>writers = 0\<close>, \<open>readers = 0\<close>), read-held or write-held.
\<close>

definition lock_ok :: "rw_lock \<Rightarrow> bool" where
  "lock_ok l \<longleftrightarrow> 0 \<le> readers l \<and> (writers l = 0 \<or> (writers l = 1 \<and> readers l = 0))"

lemma lock_ok_new [simp]: "lock_ok new_lock"
  by (simp add: lock_ok_def new_lock_def)

lemma lockShared_spec:
  "lockShared l = (if writers l = 0 then (True, l\<lparr>readers := readers l + 1\<rparr>) else (False, l))"
  by (simp add: lock_defs)

lemma lockExclusive_spec:
  "lockExclusive l =
     (if writers l = 0 \<and> readers l = 0 then (True, l\<lparr>writers := 1\<rparr>) else (False, l))"
  by (simp add: lock_defs)

lemma unlockShared_spec:
  "0 < readers l \<Longrightarrow> unlockShared l = Inr (l\<lparr>readers := readers l - 1\<rparr>)"
  by (simp add: lock_defs)

lemma unlockExclusive_spec:
  "0 < writers l \<Longrightarrow> unlockExclusive l = Inr (l\<lparr>writers := writers l - 1\<rparr>)"
  by (simp add: lock_defs)

lemma switchExclusiveToShared_spec:
  "0 < writers l \<Longrightarrow>
   switchExclusiveToShared l = Inr (l\<lparr>readers := readers l + 1, writers := writers l - 1\<rparr>)"
  by (simp add: lock_defs)

lemmas lock_specs = lockShared_spec lockExclusive_spec unlockShared_spec unlockExclusive_spec
  switchExclusiveToShared_spec

section \<open>The lock as an interface\<close>

text \<open>
  What a user of the lock relies on when calls do not overlap: \<open>rd\<close> shared holders or one
  exclusive holder, attempts that either succeed or change nothing, and releases that undo them.
  The shared-memory map is such a user.
\<close>

locale shared_exclusive_lock =
  fixes ok :: "'l \<Rightarrow> bool" and rd :: "'l \<Rightarrow> int" and wr :: "'l \<Rightarrow> bool"
    and lockS :: "'l \<Rightarrow> bool \<times> 'l" and lockX :: "'l \<Rightarrow> bool \<times> 'l"
    and unlockS :: "'l \<Rightarrow> 'l outcome" and unlockX :: "'l \<Rightarrow> 'l outcome"
    and switchXS :: "'l \<Rightarrow> 'l outcome"
  assumes rd_nonneg: "ok l \<Longrightarrow> 0 \<le> rd l"
    and wr_alone: "ok l \<Longrightarrow> wr l \<Longrightarrow> rd l = 0"
    and lockS_law: "ok l \<Longrightarrow> (\<exists>l'. lockS l = (\<not> wr l, l') \<and> ok l' \<and> wr l' = wr l \<and>
        rd l' = (if wr l then rd l else rd l + 1) \<and> (wr l \<longrightarrow> l' = l) \<and> (\<not> wr l \<longrightarrow> unlockS l' = Inr l))"
    and lockX_law: "ok l \<Longrightarrow> (\<exists>l'. lockX l = (\<not> wr l \<and> rd l = 0, l') \<and> ok l' \<and> rd l' = rd l \<and>
        wr l' = (wr l \<or> rd l = 0) \<and> (\<not> (\<not> wr l \<and> rd l = 0) \<longrightarrow> l' = l))"
    and unlockS_law: "ok l \<Longrightarrow> 0 < rd l \<Longrightarrow>
        (\<exists>l'. unlockS l = Inr l' \<and> ok l' \<and> rd l' = rd l - 1 \<and> \<not> wr l')"
    and unlockX_law: "ok l \<Longrightarrow> wr l \<Longrightarrow> (\<exists>l'. unlockX l = Inr l' \<and> ok l' \<and> rd l' = 0 \<and> \<not> wr l')"
    and switchXS_law: "ok l \<Longrightarrow> wr l \<Longrightarrow> (\<exists>l'. switchXS l = Inr l' \<and> ok l' \<and> rd l' = 1 \<and> \<not> wr l')"
begin

lemma lockS_cases:
  assumes "ok l" and "lockS l = (b, l')"
  shows "b = (\<not> wr l)" and "ok l'" and "wr l' = wr l" and "\<not> b \<Longrightarrow> l' = l"
    and "b \<Longrightarrow> rd l' = rd l + 1" and "b \<Longrightarrow> unlockS l' = Inr l"
  using lockS_law [OF assms(1)] assms(2) by auto

lemma lockX_cases:
  assumes "ok l" and "lockX l = (b, l')"
  shows "b = (\<not> wr l \<and> rd l = 0)" and "ok l'" and "rd l' = rd l" and "\<not> b \<Longrightarrow> l' = l"
    and "b \<Longrightarrow> wr l'"
  using lockX_law [OF assms(1)] assms(2) by auto

text \<open>An exclusive attempt while the lock is held in any way fails and leaves no trace.\<close>

lemma lockX_busy: "ok l \<Longrightarrow> 0 < rd l \<or> wr l \<Longrightarrow> lockX l = (False, l)"
  using lockX_law [of l] by auto

lemma lockX_free: "ok l \<Longrightarrow> rd l = 0 \<Longrightarrow> \<not> wr l \<Longrightarrow>
    \<exists>l'. lockX l = (True, l') \<and> ok l' \<and> wr l' \<and> rd l' = 0"
  using lockX_law [of l] by auto

end

interpretation rwl: shared_exclusive_lock lock_ok readers "\<lambda>l. writers l = 1"
  lockShared lockExclusive unlockShared unlockExclusive switchExclusiveToShared
proof unfold_locales
  fix l :: rw_lock
  assume ok: "lock_ok l"
  then show "0 \<le> readers l" and "writers l = 1 \<Longrightarrow> readers l = 0"
    by (auto simp: lock_ok_def)
  show "\<exists>l'. lockShared l = (writers l \<noteq> 1, l') \<and> lock_ok l' \<and> (writers l' = 1) = (writers l = 1) \<and>
      readers l' = (if writers l = 1 then readers l else readers l + 1) \<and>
      (writers l = 1 \<longrightarrow> l' = l) \<and> (writers l \<noteq> 1 \<longrightarrow> unlockShared l' = Inr l)"
    using ok by (auto simp: lock_ok_def lock_defs)
  show "\<exists>l'. lockExclusive l = (writers l \<noteq> 1 \<and> readers l = 0, l') \<and> lock_ok l' \<and>
      readers l' = readers l \<and> (writers l' = 1) = (writers l = 1 \<or> readers l = 0) \<and>
      (\<not> (writers l \<noteq> 1 \<and> readers l = 0) \<longrightarrow> l' = l)"
    using ok by (auto simp: lock_ok_def lockExclusive_spec)
  show "\<exists>l'. unlockShared l = Inr l' \<and> lock_ok l' \<and> readers l' = readers l - 1 \<and> writers l' \<noteq> 1"
    if "0 < readers l"
    using ok that by (auto simp: lock_ok_def unlockShared_spec)
  show "\<exists>l'. unlockExclusive l = Inr l' \<and> lock_ok l' \<and> readers l' = 0 \<and> writers l' \<noteq> 1"
    and "\<exists>l'. switchExclusiveToShared l = Inr l' \<and> lock_ok l' \<and> readers l' = 1 \<and> writers l' \<noteq> 1"
    if "writers l = 1"
    using ok that by (auto simp: lock_ok_def unlockExclusive_spec switchExclusiveToShared_spec)
qed

section \<open>All interleavings of the atomic instructions\<close>

text \<open>
  Where a process stands: outside (\<open>Idle\<close>), inside a routine between two atomic instructions, or
  between routines holding the lock.
\<close>

datatype pc =
    Idle
  | LS1      \<comment> \<open>lockShared, after \<^verbatim>\<open>++readers\<close>\<close>
  | LS2      \<comment> \<open>lockShared, after reading \<^verbatim>\<open>writers\<close> as nonzero\<close>
  | HoldS    \<comment> \<open>lockShared returned true\<close>
  | LX1      \<comment> \<open>lockExclusive, after \<^verbatim>\<open>writers++\<close> returned zero\<close>
  | LX2      \<comment> \<open>lockExclusive, about to do \<^verbatim>\<open>--writers\<close>\<close>
  | HoldX    \<comment> \<open>lockExclusive returned true\<close>
  | SW1      \<comment> \<open>switchExclusiveToShared, after \<^verbatim>\<open>++readers\<close>\<close>
  | Crashed  \<comment> \<open>an \<^verbatim>\<open>assert()\<close> failed\<close>

record rw_sys =
  lk :: rw_lock
  pcs :: "nat \<Rightarrow> pc"

definition init_rw_sys :: rw_sys where
  "init_rw_sys = \<lparr>lk = new_lock, pcs = (\<lambda>_. Idle)\<rparr>"

definition goto :: "rw_sys \<Rightarrow> nat \<Rightarrow> pc \<Rightarrow> rw_sys" where
  "goto s p c = s\<lparr>pcs := (pcs s)(p := c)\<rparr>"

definition add_readers :: "int \<Rightarrow> rw_sys \<Rightarrow> rw_sys" where
  "add_readers d s = s\<lparr>lk := (lk s)\<lparr>readers := readers (lk s) + d\<rparr>\<rparr>"

definition add_writers :: "int \<Rightarrow> rw_sys \<Rightarrow> rw_sys" where
  "add_writers d s = s\<lparr>lk := (lk s)\<lparr>writers := writers (lk s) + d\<rparr>\<rparr>"

inductive rw_step :: "rw_sys \<Rightarrow> rw_sys \<Rightarrow> bool" where
  ls_incr: "pcs s p = Idle \<Longrightarrow> rw_step s (add_readers 1 (goto s p LS1))"
| ls_test: "pcs s p = LS1 \<Longrightarrow>
     rw_step s (goto s p (if writers (lk s) = 0 then HoldS else LS2))"
| ls_undo: "pcs s p = LS2 \<Longrightarrow> rw_step s (add_readers (- 1) (goto s p Idle))"
| lx_incr: "pcs s p = Idle \<Longrightarrow>
     rw_step s (add_writers 1 (goto s p (if writers (lk s) = 0 then LX1 else LX2)))"
| lx_test: "pcs s p = LX1 \<Longrightarrow>
     rw_step s (goto s p (if readers (lk s) = 0 then HoldX else LX2))"
| lx_undo: "pcs s p = LX2 \<Longrightarrow> rw_step s (add_writers (- 1) (goto s p Idle))"
| us: "pcs s p = HoldS \<Longrightarrow>
     rw_step s (add_readers (- 1) (goto s p (if readers (lk s) > 0 then Idle else Crashed)))"
| ux: "pcs s p = HoldX \<Longrightarrow>
     rw_step s (add_writers (- 1) (goto s p (if writers (lk s) > 0 then Idle else Crashed)))"
| sw_incr: "pcs s p = HoldX \<Longrightarrow> rw_step s (add_readers 1 (goto s p SW1))"
| sw_decr: "pcs s p = SW1 \<Longrightarrow>
     rw_step s (add_writers (- 1) (goto s p (if writers (lk s) > 0 then HoldS else Crashed)))"

text \<open>The control points whose process is counted in \<open>readers\<close>, in \<open>writers\<close>, and as first writer.\<close>

definition counted_reader :: "pc set" where
  "counted_reader = {LS1, LS2, HoldS, SW1}"

definition counted_writer :: "pc set" where
  "counted_writer = {LX1, LX2, HoldX, SW1}"

definition first_writer :: "pc set" where
  "first_writer = {LX1, HoldX, SW1}"

lemmas control_sets = counted_reader_def counted_writer_def first_writer_def

definition rw_inv :: "rw_sys \<Rightarrow> bool" where
  "rw_inv s \<longleftrightarrow>
     finite {p. pcs s p \<noteq> Idle} \<and>
     readers (lk s) = at_count (pcs s) counted_reader \<and>
     writers (lk s) = at_count (pcs s) counted_writer \<and>
     (\<forall>p q. pcs s p \<in> first_writer \<longrightarrow> pcs s q \<in> first_writer \<longrightarrow> p = q) \<and>
     (\<forall>p q. pcs s p \<in> {HoldX, SW1} \<longrightarrow> pcs s q \<noteq> HoldS) \<and>
     (\<forall>p. pcs s p \<noteq> Crashed)"

lemma sys_simps [simp]:
  "pcs (goto s p c) = (pcs s)(p := c)"
  "lk (goto s p c) = lk s"
  "pcs (add_readers d s) = pcs s"
  "pcs (add_writers d s) = pcs s"
  "readers (lk (add_readers d s)) = readers (lk s) + d"
  "writers (lk (add_readers d s)) = writers (lk s)"
  "readers (lk (add_writers d s)) = readers (lk s)"
  "writers (lk (add_writers d s)) = writers (lk s) + d"
  by (simp_all add: goto_def add_readers_def add_writers_def)

lemma sys_moves [simp]:
  "goto (goto s p c) p d = goto s p d"
  "goto (add_readers e s) p d = add_readers e (goto s p d)"
  "goto (add_writers e s) p d = add_writers e (goto s p d)"
  "add_readers f (add_readers e s) = add_readers (e + f) s"
  "add_writers f (add_writers e s) = add_writers (e + f) s"
  "add_readers 0 s = s" "add_writers 0 s = s"
  by (simp_all add: goto_def add_readers_def add_writers_def add.assoc)

lemma rw_inv_finite:
  assumes "rw_inv s"
  shows "finite {p. pcs s p \<in> counted_reader}" and "finite {p. pcs s p \<in> counted_writer}"
proof -
  have "finite {p. pcs s p \<noteq> Idle}"
    using assms by (simp add: rw_inv_def)
  then show "finite {p. pcs s p \<in> counted_reader}" and "finite {p. pcs s p \<in> counted_writer}"
    by (rule finite_at, simp add: control_sets)+
qed

lemma rw_inv_readers_pos: "rw_inv s \<Longrightarrow> pcs s p \<in> counted_reader \<Longrightarrow> 0 < readers (lk s)"
  using rw_inv_finite(1) [of s] by (simp add: rw_inv_def at_count_pos)

lemma rw_inv_writers_pos: "rw_inv s \<Longrightarrow> pcs s p \<in> counted_writer \<Longrightarrow> 0 < writers (lk s)"
  using rw_inv_finite(2) [of s] by (simp add: rw_inv_def at_count_pos)

lemma rw_inv_init: "rw_inv init_rw_sys"
  by (simp add: rw_inv_def init_rw_sys_def new_lock_def at_count_def control_sets)

text \<open>A move of one process: the counters follow, and the two exclusion clauses are checked locally.\<close>

lemma rw_inv_move:
  assumes inv: "rw_inv s" and moved: "pcs t = (pcs s)(p := c)" and ok: "c \<noteq> Crashed"
    and rd: "readers (lk t) = readers (lk s) +
       (if c \<in> counted_reader then 1 else 0) - (if pcs s p \<in> counted_reader then 1 else 0)"
    and wr: "writers (lk t) = writers (lk s) +
       (if c \<in> counted_writer then 1 else 0) - (if pcs s p \<in> counted_writer then 1 else 0)"
    and first: "c \<in> first_writer \<Longrightarrow> \<forall>q. q \<noteq> p \<longrightarrow> pcs s q \<notin> first_writer"
    and excl: "c \<in> {HoldX, SW1} \<Longrightarrow> \<forall>q. q \<noteq> p \<longrightarrow> pcs s q \<noteq> HoldS"
    and shared: "c = HoldS \<Longrightarrow> \<forall>q. q \<noteq> p \<longrightarrow> pcs s q \<notin> {HoldX, SW1}"
  shows "rw_inv t"
  unfolding rw_inv_def moved
proof (intro conjI)
  note fin = rw_inv_finite [OF inv]
  show "finite {q. ((pcs s)(p := c)) q \<noteq> Idle}"
    using inv by (intro finite_update) (simp add: rw_inv_def)
  show "readers (lk t) = at_count ((pcs s)(p := c)) counted_reader"
    using inv by (simp add: rw_inv_def rd at_count_update [OF fin(1)])
  show "writers (lk t) = at_count ((pcs s)(p := c)) counted_writer"
    using inv by (simp add: rw_inv_def wr at_count_update [OF fin(2)])
  show "\<forall>q r. ((pcs s)(p := c)) q \<in> first_writer \<longrightarrow>
      ((pcs s)(p := c)) r \<in> first_writer \<longrightarrow> q = r"
    using inv first by (auto simp: rw_inv_def)
  show "\<forall>q r. ((pcs s)(p := c)) q \<in> {HoldX, SW1} \<longrightarrow> ((pcs s)(p := c)) r \<noteq> HoldS"
    using inv excl shared by (auto simp: rw_inv_def)
  show "\<forall>q. ((pcs s)(p := c)) q \<noteq> Crashed"
    using inv ok by (simp add: rw_inv_def)
qed

text \<open>What the two tests of the routines tell about the other processes.\<close>

lemma no_writers: "rw_inv s \<Longrightarrow> writers (lk s) = 0 \<Longrightarrow> pcs s q \<notin> counted_writer"
  using rw_inv_writers_pos [of s q] by auto

lemma no_readers: "rw_inv s \<Longrightarrow> readers (lk s) = 0 \<Longrightarrow> pcs s q \<notin> counted_reader"
  using rw_inv_readers_pos [of s q] by auto

lemma only_first: "rw_inv s \<Longrightarrow> pcs s p \<in> first_writer \<Longrightarrow> q \<noteq> p \<Longrightarrow> pcs s q \<notin> first_writer"
  unfolding rw_inv_def by blast

lemma only_exclusive: "rw_inv s \<Longrightarrow> pcs s p = HoldX \<or> pcs s p = SW1 \<Longrightarrow> pcs s q \<noteq> HoldS"
  unfolding rw_inv_def by blast

lemma rw_step_inv:
  assumes inv: "rw_inv s" and step: "rw_step s t"
  shows "rw_inv t"
  using step
proof cases
  case (ls_incr p)
  show ?thesis by (rule rw_inv_move [OF inv, of _ p LS1]) (simp_all add: ls_incr control_sets)
next
  case (ls_test p)
  then show ?thesis
    using no_writers [OF inv]
    by (intro rw_inv_move [OF inv, of _ p "if writers (lk s) = 0 then HoldS else LS2"])
      (auto simp: control_sets split: if_splits)
next
  case (ls_undo p)
  show ?thesis by (rule rw_inv_move [OF inv, of _ p Idle]) (simp_all add: ls_undo control_sets)
next
  case (lx_incr p)
  then show ?thesis
    using no_writers [OF inv]
    by (intro rw_inv_move [OF inv, of _ p "if writers (lk s) = 0 then LX1 else LX2"])
      (auto simp: control_sets split: if_splits)
next
  case (lx_test p)
  then show ?thesis
    using no_readers [OF inv] only_first [OF inv, of p]
    by (intro rw_inv_move [OF inv, of _ p "if readers (lk s) = 0 then HoldX else LX2"])
      (auto simp: control_sets split: if_splits)
next
  case (lx_undo p)
  show ?thesis by (rule rw_inv_move [OF inv, of _ p Idle]) (simp_all add: lx_undo control_sets)
next
  case (us p)
  then have "0 < readers (lk s)"
    by (intro rw_inv_readers_pos [OF inv, of p]) (simp add: control_sets)
  then show ?thesis by (intro rw_inv_move [OF inv, of _ p Idle]) (simp_all add: us control_sets)
next
  case (ux p)
  then have "0 < writers (lk s)"
    by (intro rw_inv_writers_pos [OF inv, of p]) (simp add: control_sets)
  then show ?thesis by (intro rw_inv_move [OF inv, of _ p Idle]) (simp_all add: ux control_sets)
next
  case (sw_incr p)
  then show ?thesis
    using only_first [OF inv, of p] only_exclusive [OF inv, of p]
    by (intro rw_inv_move [OF inv, of _ p SW1]) (auto simp: control_sets)
next
  case (sw_decr p)
  then have "0 < writers (lk s)"
    by (intro rw_inv_writers_pos [OF inv, of p]) (simp add: control_sets)
  then show ?thesis
    using sw_decr only_first [OF inv, of p]
    by (intro rw_inv_move [OF inv, of _ p HoldS]) (auto simp: control_sets)
qed

interpretation rwsys: invariant_system "\<lambda>s. s = init_rw_sys" rw_step rw_inv
  by unfold_locales (auto simp: rw_inv_init intro: rw_step_inv)

section \<open>Properties\<close>

text \<open>
  C1. In every state that any number of processes can reach by interleaving the atomic instructions
  of the lock's routines, a process that holds the lock exclusively (also in the middle of
  switching to shared) is the only holder: no other process holds it exclusively, and none holds
  it shared.
\<close>

theorem rw_mutual_exclusion:
  assumes "reach (\<lambda>s. s = init_rw_sys) rw_step s"
    and "pcs s p = HoldX \<or> pcs s p = SW1" and "q \<noteq> p"
  shows "pcs s q \<noteq> HoldX \<and> pcs s q \<noteq> SW1 \<and> pcs s q \<noteq> HoldS"
proof -
  have inv: "rw_inv s" using assms(1) by (rule rwsys.reach_inv)
  have "pcs s p \<in> first_writer" using assms(2) by (auto simp: control_sets)
  from only_first [OF inv this assms(3)] only_exclusive [OF inv assms(2), of q]
  show ?thesis by (simp add: control_sets)
qed

lemma two_step_run:
  "rw_step s t \<Longrightarrow> rw_step t u \<Longrightarrow> reach (\<lambda>s. s = init_rw_sys) rw_step s \<Longrightarrow>
   reach (\<lambda>s. s = init_rw_sys) rw_step u"
  by (blast intro: reach.intros)

definition one_writer :: rw_sys where
  "one_writer = \<lparr>lk = \<lparr>readers = 0, writers = 1\<rparr>, pcs = (\<lambda>_. Idle)(0 := HoldX)\<rparr>"

lemma reach_one_writer: "reach (\<lambda>s. s = init_rw_sys) rw_step one_writer"
proof (rule two_step_run)
  show "rw_step init_rw_sys (add_writers 1 (goto init_rw_sys 0 LX1))"
    using lx_incr [of init_rw_sys 0] by (simp add: init_rw_sys_def new_lock_def)
  show "rw_step (add_writers 1 (goto init_rw_sys 0 LX1)) one_writer"
    using lx_test [of "add_writers 1 (goto init_rw_sys 0 LX1)" 0]
    by (simp add: init_rw_sys_def new_lock_def one_writer_def add_writers_def goto_def)
qed (simp add: reach.reach_start)

theorem rw_mutual_exclusion_witness:
  "reach (\<lambda>s. s = init_rw_sys) rw_step one_writer \<and> pcs one_writer 0 = HoldX \<and>
   pcs one_writer 1 \<noteq> HoldS"
proof -
  have "pcs one_writer 0 = HoldX" by (simp add: one_writer_def)
  then show ?thesis
    using reach_one_writer rw_mutual_exclusion [of one_writer 0 1] by simp
qed

text \<open>
  No interleaving makes an \<^verbatim>\<open>assert()\<close> of the unlock routines fail, and the two counters are
  exact: \<^verbatim>\<open>readers\<close> and \<^verbatim>\<open>writers\<close> are the numbers of processes counted in them, so both are zero
  whenever every process is outside the lock.
\<close>

theorem rw_counters_exact:
  assumes "reach (\<lambda>s. s = init_rw_sys) rw_step s"
  shows "pcs s p \<noteq> Crashed \<and>
    readers (lk s) = at_count (pcs s) {LS1, LS2, HoldS, SW1} \<and>
    writers (lk s) = at_count (pcs s) {LX1, LX2, HoldX, SW1} \<and>
    ((\<forall>q. pcs s q = Idle) \<longrightarrow> lk s = new_lock)"
proof -
  have "rw_inv s" using assms by (rule rwsys.reach_inv)
  then have "pcs s p \<noteq> Crashed" and "readers (lk s) = at_count (pcs s) {LS1, LS2, HoldS, SW1}"
    and "writers (lk s) = at_count (pcs s) {LX1, LX2, HoldX, SW1}"
    by (simp_all add: rw_inv_def control_sets)
  then show ?thesis
    by (auto simp: new_lock_def at_count_def)
qed

theorem rw_counters_exact_witness:
  "pcs one_writer 0 \<noteq> Crashed \<and> writers (lk one_writer) = at_count (pcs one_writer) {LX1, LX2, HoldX, SW1}"
  using rw_counters_exact [OF reach_one_writer] by blast

text \<open>An uninterrupted run of each locking routine.\<close>

lemma lockShared_run:
  assumes "pcs s p = Idle"
  shows "rw_step\<^sup>*\<^sup>* s (s\<lparr>pcs := (pcs s)(p := if fst (lockShared (lk s)) then HoldS else Idle),
           lk := snd (lockShared (lk s))\<rparr>)"
proof -
  let ?a = "\<lambda>c. add_readers 1 (goto s p c)"
  have 1: "rw_step s (?a LS1)" using assms by (rule ls_incr)
  have 2: "rw_step (?a LS1) (?a (if writers (lk s) = 0 then HoldS else LS2))"
    using ls_test [of "?a LS1" p] by simp
  have undo: "rw_step (?a LS2) (goto s p Idle)"
    using ls_undo [of "?a LS2" p] by simp
  from 1 2 have "rw_step\<^sup>*\<^sup>* s (?a (if writers (lk s) = 0 then HoldS else LS2))"
    by auto
  with undo show ?thesis
    by (auto simp: lockShared_spec add_readers_def goto_def intro: rtranclp.rtrancl_into_rtrancl
        split: if_splits)
qed

lemma lockExclusive_run:
  assumes "pcs s p = Idle"
  shows "rw_step\<^sup>*\<^sup>* s (s\<lparr>pcs := (pcs s)(p := if fst (lockExclusive (lk s)) then HoldX else Idle),
           lk := snd (lockExclusive (lk s))\<rparr>)"
proof -
  let ?a = "\<lambda>c. add_writers 1 (goto s p c)"
  have 1: "rw_step s (?a (if writers (lk s) = 0 then LX1 else LX2))"
    using assms by (rule lx_incr)
  have 2: "rw_step (?a LX1) (?a (if readers (lk s) = 0 then HoldX else LX2))"
    using lx_test [of "?a LX1" p] by simp
  have undo: "rw_step (?a LX2) (goto s p Idle)"
    using lx_undo [of "?a LX2" p] by simp
  show ?thesis
  proof (cases "writers (lk s) = 0")
    case True
    with 1 have "rw_step\<^sup>*\<^sup>* s (?a (if readers (lk s) = 0 then HoldX else LX2))"
      using 2 by auto
    with undo True show ?thesis
      by (auto simp: lockExclusive_spec add_writers_def goto_def intro: rtranclp.rtrancl_into_rtrancl
          split: if_splits)
  next
    case False
    with 1 undo have "rw_step\<^sup>*\<^sup>* s (goto s p Idle)"
      by (auto intro: converse_rtranclp_into_rtranclp)
    with False show ?thesis
      by (simp add: lockExclusive_spec goto_def)
  qed
qed

text \<open>
  The routines as functions are uninterrupted runs of the step relation: a process that
  calls \<^verbatim>\<open>lockShared()\<close> or \<^verbatim>\<open>lockExclusive()\<close> outside the lock can run it to the end, with exactly
  the function's result and effect on the counters.
\<close>

theorem lock_routines_are_runs:
  assumes "pcs s p = Idle"
  shows "rw_step\<^sup>*\<^sup>* s (s\<lparr>pcs := (pcs s)(p := if fst (lockShared (lk s)) then HoldS else Idle),
           lk := snd (lockShared (lk s))\<rparr>) \<and>
         rw_step\<^sup>*\<^sup>* s (s\<lparr>pcs := (pcs s)(p := if fst (lockExclusive (lk s)) then HoldX else Idle),
           lk := snd (lockExclusive (lk s))\<rparr>)"
  using lockShared_run [OF assms] lockExclusive_run [OF assms] by blast

theorem lock_routines_are_runs_witness:
  "rw_step\<^sup>*\<^sup>* init_rw_sys \<lparr>lk = \<lparr>readers = 1, writers = 0\<rparr>, pcs = (\<lambda>_. Idle)(3 := HoldS)\<rparr>"
  using lock_routines_are_runs [of init_rw_sys 3]
  by (simp add: init_rw_sys_def new_lock_def lockShared_spec)

end
