(* ===== verification/Store_Map.thy ===== *)
theory Store_Map
  imports Read_Write_Lock
begin

text \<open>
  The shared map of cached entries, \<^verbatim>\<open>src/ipc/StoreMap.cc\<close>: slots indexed by a hash of the key,
  each with a lock, a state and a mark to be freed, and a counter of used slots.  Every routine of
  the class is one definition; a failed \<^verbatim>\<open>assert()\<close> is the outcome \<open>Inl AssertFault\<close>.  The calls a
  process makes under the class's rules (only a holder closes, only a writer aborts) are a step
  relation, whose invariant ties the counter, the states and the locks together.
\<close>

section \<open>Data\<close>

datatype slot_state = Empty | Writeable | Readable

record slot_basics =
  timestamp :: int
  lastref :: int
  expires :: int
  lastmod :: int
  swap_file_sz :: "64 word"
  refcount :: "16 word"
  flags :: "16 word"

type_synonym cache_key = "64 word \<times> 64 word"

record store_slot =
  lock :: rw_lock
  waitingToBeFreed :: bool
  key :: cache_key
  basics :: slot_basics
  state :: slot_state

record store_entry =
  se_key :: cache_key
  se_basics :: slot_basics

record store_map =
  limit :: int
  count :: int
  slots :: "store_slot list"
  cleaner :: bool          \<comment> \<open>whether a cleaner is registered\<close>
  cleaned :: "int list"    \<comment> \<open>the calls \<^verbatim>\<open>cleaner->cleanReadable(fileno)\<close> so far\<close>

definition zero_basics :: slot_basics where
  "zero_basics = \<lparr>timestamp = 0, lastref = 0, expires = 0, lastmod = 0, swap_file_sz = 0,
     refcount = 0, flags = 0\<rparr>"

definition new_slot :: store_slot where
  "new_slot = \<lparr>lock = new_lock, waitingToBeFreed = False, key = (0, 0), basics = zero_basics,
     state = Empty\<rparr>"

definition new_map :: "int \<Rightarrow> bool \<Rightarrow> store_map outcome" where
  "new_map lim cl = guardE (lim > 0) AssertFault
     (Inr \<lparr>limit = lim, count = 0, slots = replicate (nat lim) new_slot, cleaner = cl, cleaned = []\<rparr>)"

section \<open>Routines\<close>

definition entryLimit :: "store_map \<Rightarrow> int" where
  "entryLimit m = limit m"

definition entryCount :: "store_map \<Rightarrow> int" where
  "entryCount m = count m"

definition map_full :: "store_map \<Rightarrow> bool" where
  "map_full m \<longleftrightarrow> entryCount m \<ge> entryLimit m"

definition valid :: "store_map \<Rightarrow> int \<Rightarrow> bool" where
  "valid m pos \<longleftrightarrow> 0 \<le> pos \<and> pos < entryLimit m"

definition slotIndexByKey :: "store_map \<Rightarrow> cache_key \<Rightarrow> int" where
  "slotIndexByKey m k = uint (fst k + snd k) mod limit m"

definition slot_at :: "store_map \<Rightarrow> int \<Rightarrow> store_slot" where
  "slot_at m f = slots m ! nat f"

definition put_slot :: "store_map \<Rightarrow> int \<Rightarrow> store_slot \<Rightarrow> store_map" where
  "put_slot m f s = m\<lparr>slots := (slots m)[nat f := s]\<rparr>"

definition slotByKey :: "store_map \<Rightarrow> cache_key \<Rightarrow> store_slot" where
  "slotByKey m k = slot_at m (slotIndexByKey m k)"

definition setKey :: "cache_key \<Rightarrow> store_slot \<Rightarrow> store_slot" where
  "setKey k s = s\<lparr>key := k\<rparr>"

definition sameKey :: "cache_key \<Rightarrow> store_slot \<Rightarrow> bool" where
  "sameKey k s \<longleftrightarrow> fst k = fst (key s) \<and> snd k = snd (key s)"

definition slot_set :: "store_entry \<Rightarrow> store_slot \<Rightarrow> store_slot" where
  "slot_set e s = s\<lparr>key := se_key e, basics := se_basics e\<rparr>"

definition freeLocked :: "store_map \<Rightarrow> int \<Rightarrow> bool \<Rightarrow> store_map outcome" where
  "freeLocked m f keepLocked =
     (let s = slot_at m f;
          m1 = (if state s = Readable \<and> cleaner m then m\<lparr>cleaned := cleaned m @ [f]\<rparr> else m);
          s1 = s\<lparr>waitingToBeFreed := False, state := Empty\<rparr>
      in bindE (if keepLocked then Inr (lock s1) else unlockExclusive (lock s1))
           (\<lambda>l. Inr ((put_slot m1 f (s1\<lparr>lock := l\<rparr>))\<lparr>count := count m - 1\<rparr>)))"

definition openForWriting :: "store_map \<Rightarrow> cache_key \<Rightarrow> (int option \<times> store_map) outcome" where
  "openForWriting m k =
     (let idx = slotIndexByKey m k; s = slot_at m idx; (ok, l) = lockExclusive (lock s);
          m1 = put_slot m idx (s\<lparr>lock := l\<rparr>)
      in if ok then
           guardE (state s \<noteq> Writeable) AssertFault
             (bindE (if waitingToBeFreed s \<or> state s = Readable then freeLocked m1 idx True
                     else Inr m1)
               (\<lambda>m2. guardE (state (slot_at m2 idx) = Empty) AssertFault
                 (Inr (Some idx,
                   (put_slot m2 idx ((slot_at m2 idx)\<lparr>state := Writeable\<rparr>))
                     \<lparr>count := count m2 + 1\<rparr>))))
         else Inr (None, m1))"

definition closeForWriting :: "store_map \<Rightarrow> int \<Rightarrow> bool \<Rightarrow> store_map outcome" where
  "closeForWriting m f lockForReading =
     guardE (valid m f) AssertFault
       (let s = slot_at m f
        in guardE (state s = Writeable) AssertFault
             (bindE (if lockForReading then switchExclusiveToShared (lock s)
                     else unlockExclusive (lock s))
               (\<lambda>l. Inr (put_slot m f (s\<lparr>state := Readable, lock := l\<rparr>)))))"

definition abortWriting :: "store_map \<Rightarrow> int \<Rightarrow> store_map outcome" where
  "abortWriting m f =
     guardE (valid m f) AssertFault
       (guardE (state (slot_at m f) = Writeable) AssertFault (freeLocked m f False))"

definition closeForReading :: "store_map \<Rightarrow> int \<Rightarrow> store_map outcome" where
  "closeForReading m f =
     guardE (valid m f) AssertFault
       (let s = slot_at m f
        in guardE (state s = Readable) AssertFault
             (bindE (unlockShared (lock s)) (\<lambda>l. Inr (put_slot m f (s\<lparr>lock := l\<rparr>)))))"

definition abortIo :: "store_map \<Rightarrow> int \<Rightarrow> store_map outcome" where
  "abortIo m f =
     guardE (valid m f) AssertFault
       (if state (slot_at m f) = Writeable then abortWriting m f else closeForReading m f)"

definition peekAtReader :: "store_map \<Rightarrow> int \<Rightarrow> store_slot option outcome" where
  "peekAtReader m f =
     guardE (valid m f) AssertFault
       (case state (slot_at m f) of
          Readable \<Rightarrow> Inr (Some (slot_at m f))
        | Writeable \<Rightarrow> Inr None
        | Empty \<Rightarrow> Inl AssertFault)"

definition free :: "store_map \<Rightarrow> int \<Rightarrow> store_map outcome" where
  "free m f =
     guardE (valid m f) AssertFault
       (let s = slot_at m f; (ok, l) = lockExclusive (lock s); m1 = put_slot m f (s\<lparr>lock := l\<rparr>)
        in if ok then freeLocked m1 f False
           else Inr (put_slot m1 f (s\<lparr>lock := l, waitingToBeFreed := True\<rparr>)))"

definition openForReadingAt :: "store_map \<Rightarrow> int \<Rightarrow> (bool \<times> store_map) outcome" where
  "openForReadingAt m f =
     guardE (valid m f) AssertFault
       (let s = slot_at m f; (ok, l) = lockShared (lock s); m1 = put_slot m f (s\<lparr>lock := l\<rparr>)
        in if \<not> ok then Inr (False, m1)
           else if state s = Empty \<or> waitingToBeFreed s then
             bindE (unlockShared l) (\<lambda>l'. Inr (False, put_slot m1 f (s\<lparr>lock := l'\<rparr>)))
           else guardE (state s = Readable) AssertFault (Inr (True, m1)))"

definition openForReading :: "store_map \<Rightarrow> cache_key \<Rightarrow> (int option \<times> store_map) outcome" where
  "openForReading m k =
     (let idx = slotIndexByKey m k
      in bindE (openForReadingAt m idx) (\<lambda>(opened, m1).
           if opened then
             if sameKey k (slot_at m1 idx) then Inr (Some idx, m1)
             else bindE (unlockShared (lock (slot_at m1 idx)))
                    (\<lambda>l. Inr (None, put_slot m1 idx ((slot_at m1 idx)\<lparr>lock := l\<rparr>)))
           else Inr (None, m1)))"

definition map_updateStats :: "store_map \<Rightarrow> lock_stats \<Rightarrow> lock_stats" where
  "map_updateStats m st = fold (\<lambda>s. lock_updateStats (lock s)) (slots m) st"

section \<open>Invariant\<close>

definition slot_ok :: "store_slot \<Rightarrow> bool" where
  "slot_ok s \<longleftrightarrow> lock_ok (lock s) \<and> (state s = Writeable \<longleftrightarrow> writers (lock s) = 1) \<and>
     (0 < readers (lock s) \<longrightarrow> state s = Readable) \<and> (waitingToBeFreed s \<longrightarrow> state s \<noteq> Empty)"

definition used :: "store_slot \<Rightarrow> bool" where
  "used s \<longleftrightarrow> state s \<noteq> Empty"

definition map_ok :: "store_map \<Rightarrow> bool" where
  "map_ok m \<longleftrightarrow> 0 < limit m \<and> int (length (slots m)) = limit m \<and> list_all slot_ok (slots m) \<and>
     count m = int (length (filter used (slots m)))"

lemma map_simps [simp]:
  "limit (put_slot m f s) = limit m" "count (put_slot m f s) = count m"
  "cleaner (put_slot m f s) = cleaner m" "cleaned (put_slot m f s) = cleaned m"
  "valid (put_slot m f s) = valid m" "valid (m\<lparr>count := c\<rparr>) = valid m"
  "valid (m\<lparr>cleaned := cs\<rparr>) = valid m"
  "put_slot (put_slot m f s) f t = put_slot m f t"
  "slot_at (m\<lparr>count := c\<rparr>) f = slot_at m f" "slot_at (m\<lparr>cleaned := cs\<rparr>) f = slot_at m f"
  by (auto simp: put_slot_def valid_def entryLimit_def slot_at_def)

lemma valid_index: "map_ok m \<Longrightarrow> valid m f \<Longrightarrow> nat f < length (slots m)"
  by (auto simp: map_ok_def valid_def entryLimit_def)

lemma slot_at_put [simp]: "map_ok m \<Longrightarrow> valid m f \<Longrightarrow> slot_at (put_slot m f s) f = s"
  using valid_index [of m f] by (simp add: slot_at_def put_slot_def)

lemma slot_at_put_other:
  "valid m f \<Longrightarrow> valid m g \<Longrightarrow> g \<noteq> f \<Longrightarrow> slot_at (put_slot m f s) g = slot_at m g"
  by (simp add: slot_at_def put_slot_def valid_def nat_eq_iff2)

lemma map_ok_slot: "map_ok m \<Longrightarrow> valid m f \<Longrightarrow> slot_ok (slot_at m f)"
  using valid_index [of m f] by (simp add: map_ok_def slot_at_def list_all_length)

lemma map_ok_index: "map_ok m \<Longrightarrow> valid m (slotIndexByKey m k)"
  by (simp add: map_ok_def valid_def entryLimit_def slotIndexByKey_def)

text \<open>Replacing one slot by a well-formed one keeps the map well formed when the counter follows.\<close>

lemma map_ok_put:
  assumes "map_ok m" "valid m f" "slot_ok s"
    and "c = count m + (if used s then 1 else 0) - (if used (slot_at m f) then 1 else 0)"
  shows "map_ok ((put_slot m f s)\<lparr>count := c\<rparr>)"
  using assms length_filter_update [OF valid_index [OF assms(1,2)], of used s]
  by (simp add: map_ok_def put_slot_def slot_at_def list_all_update)

lemma map_ok_put_same:
  assumes "map_ok m" "valid m f" "slot_ok s" "used s = used (slot_at m f)"
  shows "map_ok (put_slot m f s)"
proof -
  have "(put_slot m f s)\<lparr>count := count m\<rparr> = put_slot m f s"
    by (simp add: put_slot_def)
  with map_ok_put [of m f s "count m"] assms show ?thesis by simp
qed

lemma map_ok_cleaned [simp]: "map_ok (m\<lparr>cleaned := cs\<rparr>) = map_ok m"
  by (simp add: map_ok_def)

lemma put_slot_self [simp]: "put_slot m f ((slot_at m f)\<lparr>lock := lock (slot_at m f)\<rparr>) = m"
  by (simp add: put_slot_def slot_at_def)

lemma put_slot_at [simp]: "put_slot m f (slot_at m f) = m"
  by (simp add: put_slot_def slot_at_def)

lemma unmarked_slot:
  "\<not> waitingToBeFreed s \<Longrightarrow> s\<lparr>lock := l, waitingToBeFreed := False, state := x\<rparr> = s\<lparr>lock := l, state := x\<rparr>"
  by (cases s) simp

section \<open>What each routine does to a well-formed map\<close>

definition note_clean :: "store_map \<Rightarrow> int \<Rightarrow> store_map" where
  "note_clean m f =
     (if state (slot_at m f) = Readable \<and> cleaner m then m\<lparr>cleaned := cleaned m @ [f]\<rparr> else m)"

lemma note_clean_simps [simp]:
  "map_ok (note_clean m f) = map_ok m" "valid (note_clean m f) = valid m"
  "count (note_clean m f) = count m" "slot_at (note_clean m f) g = slot_at m g"
  "limit (note_clean m f) = limit m"
  by (simp_all add: note_clean_def)

lemma slot_okD:
  assumes "slot_ok s"
  shows "lock_ok (lock s)" "state s = Writeable \<longleftrightarrow> writers (lock s) = 1"
    "0 < readers (lock s) \<Longrightarrow> state s = Readable" "waitingToBeFreed s \<Longrightarrow> state s \<noteq> Empty"
  using assms by (auto simp: slot_ok_def)

definition slot_busy :: "store_slot \<Rightarrow> bool" where
  "slot_busy s \<longleftrightarrow> 0 < readers (lock s) \<or> state s = Writeable"

lemma slot_busy_lock:
  "slot_ok s \<Longrightarrow> slot_busy s \<Longrightarrow> lockExclusive (lock s) = (False, lock s)"
  by (rule rwl.lockX_busy) (auto simp: slot_ok_def slot_busy_def)

lemma slot_idle_lock:
  "slot_ok s \<Longrightarrow> \<not> slot_busy s \<Longrightarrow>
   lockExclusive (lock s) = (True, (lock s)\<lparr>writers := 1\<rparr>) \<and> readers (lock s) = 0 \<and> writers (lock s) = 0"
  by (auto simp: slot_ok_def slot_busy_def lock_ok_def lockExclusive_spec)

lemma openForWriting_busy:
  assumes "map_ok m" and "slot_busy (slot_at m (slotIndexByKey m k))"
  shows "openForWriting m k = Inr (None, m)"
  using slot_busy_lock [OF map_ok_slot [OF assms(1) map_ok_index [OF assms(1)]] assms(2)]
  by (simp add: openForWriting_def Let_def)

definition opened_slot :: "store_slot \<Rightarrow> store_slot" where
  "opened_slot s = s\<lparr>lock := (lock s)\<lparr>writers := 1\<rparr>, waitingToBeFreed := False, state := Writeable\<rparr>"

lemma openForWriting_idle:
  assumes ok: "map_ok m" and idle: "\<not> slot_busy (slot_at m (slotIndexByKey m k))"
  defines "idx \<equiv> slotIndexByKey m k"
  shows "openForWriting m k =
    Inr (Some idx, (put_slot (note_clean m idx) idx (opened_slot (slot_at m idx)))
      \<lparr>count := count m + (if used (slot_at m idx) then 0 else 1)\<rparr>)"
proof -
  have v: "valid m idx" unfolding idx_def using ok by (rule map_ok_index)
  note sok = map_ok_slot [OF ok v]
  from slot_idle_lock [OF sok] idle slot_okD(4) [OF sok]
  show ?thesis
    using ok v valid_index [OF ok v] unfolding idx_def [symmetric]
    by (cases "state (slot_at m idx)"; cases "waitingToBeFreed (slot_at m idx)")
      (auto simp: openForWriting_def idx_def [symmetric] freeLocked_def Let_def note_clean_def
        opened_slot_def used_def slot_busy_def put_slot_def slot_at_def unmarked_slot)
qed

definition freed_slot :: "store_slot \<Rightarrow> store_slot" where
  "freed_slot s = s\<lparr>waitingToBeFreed := False, state := Empty, lock := new_lock\<rparr>"

lemma writer_lock: "slot_ok s \<Longrightarrow> state s = Writeable \<Longrightarrow> lock s = \<lparr>readers = 0, writers = 1\<rparr>"
  by (cases "lock s") (auto simp: slot_ok_def lock_ok_def)

lemma closeForWriting_writer:
  assumes "map_ok m" "valid m f" "state (slot_at m f) = Writeable"
  shows "closeForWriting m f b = Inr (put_slot m f ((slot_at m f)\<lparr>state := Readable,
     lock := \<lparr>readers = (if b then 1 else 0), writers = 0\<rparr>\<rparr>))"
  using writer_lock [OF map_ok_slot [OF assms(1,2)] assms(3)] assms
  by (simp add: closeForWriting_def Let_def lock_specs)

lemma abortWriting_writer:
  assumes "map_ok m" "valid m f" "state (slot_at m f) = Writeable"
  shows "abortWriting m f = Inr ((put_slot m f (freed_slot (slot_at m f)))\<lparr>count := count m - 1\<rparr>)"
  using writer_lock [OF map_ok_slot [OF assms(1,2)] assms(3)] assms
  by (cases "slot_at m f")
    (simp add: abortWriting_def freeLocked_def Let_def lock_specs freed_slot_def new_lock_def)

lemma closeForReading_reader:
  assumes "map_ok m" "valid m f" "0 < readers (lock (slot_at m f))"
  shows "closeForReading m f = Inr (put_slot m f ((slot_at m f)
     \<lparr>lock := (lock (slot_at m f))\<lparr>readers := readers (lock (slot_at m f)) - 1\<rparr>\<rparr>))"
  using slot_okD(3) [OF map_ok_slot [OF assms(1,2)] assms(3)] assms
  by (simp add: closeForReading_def Let_def lock_specs)

lemma free_busy:
  assumes "map_ok m" "valid m f" "slot_busy (slot_at m f)"
  shows "free m f = Inr (put_slot m f ((slot_at m f)\<lparr>waitingToBeFreed := True\<rparr>))"
  using slot_busy_lock [OF map_ok_slot [OF assms(1,2)] assms(3)] assms
  by (simp add: free_def Let_def)

lemma free_idle:
  assumes "map_ok m" "valid m f" "\<not> slot_busy (slot_at m f)"
  shows "free m f = Inr ((put_slot (note_clean m f) f (freed_slot (slot_at m f)))\<lparr>count := count m - 1\<rparr>)"
proof -
  have "(lock (slot_at m f))\<lparr>writers := 0\<rparr> = new_lock"
    using slot_idle_lock [OF map_ok_slot [OF assms(1,2)] assms(3)]
    by (cases "lock (slot_at m f)") (simp add: new_lock_def)
  then show ?thesis
    using slot_idle_lock [OF map_ok_slot [OF assms(1,2)] assms(3)] assms valid_index [OF assms(1,2)]
    by (auto simp: free_def freeLocked_def Let_def lock_specs freed_slot_def note_clean_def
        put_slot_def slot_at_def)
qed

definition readable_now :: "store_slot \<Rightarrow> bool" where
  "readable_now s \<longleftrightarrow> state s = Readable \<and> \<not> waitingToBeFreed s"

definition one_more_reader :: "store_slot \<Rightarrow> store_slot" where
  "one_more_reader s = s\<lparr>lock := (lock s)\<lparr>readers := readers (lock s) + 1\<rparr>\<rparr>"

lemma openForReadingAt_ok:
  assumes "map_ok m" "valid m f"
  shows "openForReadingAt m f =
    (if readable_now (slot_at m f) then Inr (True, put_slot m f (one_more_reader (slot_at m f)))
     else Inr (False, m))"
  using map_ok_slot [OF assms] assms
  by (cases "state (slot_at m f)")
    (auto simp: openForReadingAt_def Let_def lock_specs slot_ok_def lock_ok_def readable_now_def
      one_more_reader_def)

lemma openForReading_ok:
  fixes k :: cache_key
  assumes ok: "map_ok m"
  defines "idx \<equiv> slotIndexByKey m k"
  shows "openForReading m k =
    (if readable_now (slot_at m idx) \<and> sameKey k (slot_at m idx)
     then Inr (Some idx, put_slot m idx (one_more_reader (slot_at m idx))) else Inr (None, m))"
proof -
  have v: "valid m idx" unfolding idx_def using ok by (rule map_ok_index)
  have "0 \<le> readers (lock (slot_at m idx))"
    using map_ok_slot [OF ok v] by (simp add: slot_ok_def lock_ok_def)
  then show ?thesis
    using ok v by (simp add: openForReading_def idx_def [symmetric] Let_def openForReadingAt_ok
        one_more_reader_def sameKey_def lock_specs)
qed

lemmas slot_transitions = slot_ok_def lock_ok_def opened_slot_def freed_slot_def one_more_reader_def
  used_def new_lock_def slot_busy_def readable_now_def

section \<open>The calls processes make, as a step relation\<close>

inductive sm_step :: "store_map \<Rightarrow> store_map \<Rightarrow> bool" where
  open_writing: "openForWriting m k = Inr (r, m') \<Longrightarrow> sm_step m m'"
| store_entry: "valid m f \<Longrightarrow> state (slot_at m f) = Writeable \<Longrightarrow>
     sm_step m (put_slot m f (slot_set e (slot_at m f)))"
| close_writing: "valid m f \<Longrightarrow> state (slot_at m f) = Writeable \<Longrightarrow>
     closeForWriting m f b = Inr m' \<Longrightarrow> sm_step m m'"
| open_reading: "openForReading m k = Inr (r, m') \<Longrightarrow> sm_step m m'"
| open_reading_at: "valid m f \<Longrightarrow> openForReadingAt m f = Inr (r, m') \<Longrightarrow> sm_step m m'"
| close_reading: "valid m f \<Longrightarrow> 0 < readers (lock (slot_at m f)) \<Longrightarrow>
     closeForReading m f = Inr m' \<Longrightarrow> sm_step m m'"
| abort_io: "valid m f \<Longrightarrow> slot_busy (slot_at m f) \<Longrightarrow> abortIo m f = Inr m' \<Longrightarrow> sm_step m m'"
| free_used: "valid m f \<Longrightarrow> used (slot_at m f) \<Longrightarrow> free m f = Inr m' \<Longrightarrow> sm_step m m'"

inductive_cases sm_stepE: "sm_step m m'"

lemma map_ok_openForWriting:
  assumes "map_ok m" "openForWriting m k = Inr (r, m')"
  shows "map_ok m'"
proof (cases "slot_busy (slot_at m (slotIndexByKey m k))")
  case True
  with assms openForWriting_busy show ?thesis by simp
next
  case False
  let ?i = "slotIndexByKey m k"
  have v: "valid m ?i" using assms(1) by (rule map_ok_index)
  have "slot_ok (opened_slot (slot_at m ?i))"
    using map_ok_slot [OF assms(1) v] False by (auto simp: slot_transitions)
  then show ?thesis
    using assms openForWriting_idle [OF assms(1) False] v
    by (auto simp: slot_transitions intro!: map_ok_put)
qed

lemma map_ok_closeForWriting:
  "map_ok m \<Longrightarrow> valid m f \<Longrightarrow> state (slot_at m f) = Writeable \<Longrightarrow>
   closeForWriting m f b = Inr m' \<Longrightarrow> map_ok m'"
  using map_ok_slot [of m f]
  by (auto simp: closeForWriting_writer slot_transitions intro!: map_ok_put_same)

lemma map_ok_abortWriting:
  "map_ok m \<Longrightarrow> valid m f \<Longrightarrow> state (slot_at m f) = Writeable \<Longrightarrow>
   abortWriting m f = Inr m' \<Longrightarrow> map_ok m'"
  by (auto simp: abortWriting_writer slot_transitions intro!: map_ok_put)

lemma map_ok_closeForReading:
  "map_ok m \<Longrightarrow> valid m f \<Longrightarrow> 0 < readers (lock (slot_at m f)) \<Longrightarrow>
   closeForReading m f = Inr m' \<Longrightarrow> map_ok m'"
  using map_ok_slot [of m f]
  by (auto simp: closeForReading_reader slot_transitions intro!: map_ok_put_same)

lemma map_ok_abortIo:
  assumes "map_ok m" "valid m f" "slot_busy (slot_at m f)" "abortIo m f = Inr m'"
  shows "map_ok m'"
proof (cases "state (slot_at m f) = Writeable")
  case True
  with assms have "abortWriting m f = Inr m'" by (simp add: abortIo_def)
  with assms True show ?thesis by (blast intro: map_ok_abortWriting)
next
  case False
  with assms have "closeForReading m f = Inr m'" "0 < readers (lock (slot_at m f))"
    by (simp_all add: abortIo_def slot_busy_def)
  with assms show ?thesis by (blast intro: map_ok_closeForReading)
qed

lemma map_ok_free:
  assumes "map_ok m" "valid m f" "used (slot_at m f)" "free m f = Inr m'"
  shows "map_ok m'"
  using assms map_ok_slot [OF assms(1,2)]
  by (cases "slot_busy (slot_at m f)")
    (auto simp: free_busy free_idle slot_transitions intro!: map_ok_put map_ok_put_same)

lemma map_ok_one_more_reader:
  "map_ok m \<Longrightarrow> valid m f \<Longrightarrow> readable_now (slot_at m f) \<Longrightarrow>
   map_ok (put_slot m f (one_more_reader (slot_at m f)))"
  using map_ok_slot [of m f] by (auto simp: slot_transitions intro!: map_ok_put_same)

lemma sm_step_ok:
  assumes "map_ok m" "sm_step m m'"
  shows "map_ok m'"
  using assms(2)
proof cases
  case (open_writing k r)
  then show ?thesis using assms(1) map_ok_openForWriting by blast
next
  case (store_entry f e)
  then show ?thesis
    using assms(1) map_ok_slot [of m f]
    by (auto simp: slot_set_def slot_transitions intro!: map_ok_put_same)
next
  case (close_writing f b)
  then show ?thesis using assms(1) map_ok_closeForWriting by blast
next
  case (open_reading k r)
  then show ?thesis
    using assms(1) by (auto simp: openForReading_ok map_ok_one_more_reader map_ok_index split: if_splits)
next
  case (open_reading_at f r)
  then show ?thesis
    using assms(1) by (auto simp: openForReadingAt_ok map_ok_one_more_reader split: if_splits)
next
  case (close_reading f)
  then show ?thesis using assms(1) map_ok_closeForReading by blast
next
  case (abort_io f)
  then show ?thesis using assms(1) map_ok_abortIo by blast
next
  case (free_used f)
  then show ?thesis using assms(1) map_ok_free by blast
qed

lemma map_ok_new: "new_map lim cl = Inr m \<Longrightarrow> map_ok m"
  by (auto simp: new_map_def outcome_simps map_ok_def list_all_length new_slot_def slot_transitions)

interpretation smap: invariant_system "\<lambda>m. new_map lim cl = Inr m" sm_step map_ok
  by unfold_locales (auto simp: map_ok_new intro: sm_step_ok)

section \<open>Properties\<close>


definition demo_map :: store_map where
  "demo_map = \<lparr>limit = 2, count = 0, slots = [new_slot, new_slot], cleaner = True, cleaned = []\<rparr>"

lemma new_map_demo: "new_map 2 True = Inr demo_map"
  by (simp add: new_map_def demo_map_def numeral_2_eq_2)

definition demo_written :: store_map where
  "demo_written = demo_map\<lparr>count := 1, slots := [new_slot\<lparr>lock := \<lparr>readers = 0, writers = 1\<rparr>,
     state := Writeable\<rparr>, new_slot]\<rparr>"

lemma demo_open: "openForWriting demo_map (0, 0) = Inr (Some 0, demo_written)"
  by (simp add: demo_map_def demo_written_def openForWriting_def slotIndexByKey_def slot_at_def
      put_slot_def new_slot_def new_lock_def lockExclusive_spec Let_def)

lemma reach_demo_written: "reach (\<lambda>m. new_map 2 True = Inr m) sm_step demo_written"
  using new_map_demo demo_open by (blast intro: reach.intros sm_step.open_writing)


text \<open>
  C3. None of the routines' \<^verbatim>\<open>assert()\<close>s fails when the caller keeps to the rules: in a well-formed map
  opening always returns, a writer can close or abort, a reader can close, a holder can abort
  and any valid slot can be freed.
\<close>

theorem store_map_no_assert:
  assumes "map_ok m" and "valid m f"
  shows "(\<exists>r. openForWriting m k = Inr r) \<and> (\<exists>r. openForReading m k = Inr r) \<and>
    (\<exists>r. openForReadingAt m f = Inr r) \<and> (\<exists>r. free m f = Inr r) \<and>
    (state (slot_at m f) = Writeable \<longrightarrow>
       (\<exists>r. closeForWriting m f b = Inr r) \<and> (\<exists>r. abortIo m f = Inr r)) \<and>
    (0 < readers (lock (slot_at m f)) \<longrightarrow>
       (\<exists>r. closeForReading m f = Inr r) \<and> (\<exists>r. abortIo m f = Inr r) \<and>
       (\<exists>r. peekAtReader m f = Inr (Some r)))"
proof -
  have "\<exists>r. openForWriting m k = Inr r"
    using openForWriting_busy [OF assms(1)] openForWriting_idle [OF assms(1)] by blast
  moreover have "\<exists>r. openForReading m k = Inr r" "\<exists>r. openForReadingAt m f = Inr r"
    using assms by (auto simp: openForReading_ok openForReadingAt_ok)
  moreover have "\<exists>r. free m f = Inr r"
    using free_busy [OF assms] free_idle [OF assms] by blast
  moreover have "state (slot_at m f) = Readable" if "0 < readers (lock (slot_at m f))"
    using slot_okD(3) [OF map_ok_slot [OF assms] that] .
  ultimately show ?thesis
    using assms by (auto simp: closeForWriting_writer abortWriting_writer closeForReading_reader
        abortIo_def peekAtReader_def)
qed

theorem store_map_no_assert_witness:
  "\<exists>r. closeForWriting demo_written 0 True = Inr r"
proof -
  have "map_ok demo_written"
    using reach_demo_written by (rule smap.reach_inv)
  moreover have "valid demo_written 0" "state (slot_at demo_written 0) = Writeable"
    by (simp_all add: valid_def entryLimit_def demo_written_def demo_map_def slot_at_def)
  ultimately show ?thesis
    using store_map_no_assert [of demo_written 0 "(0, 0)" True] by simp
qed

text \<open>
  Storing and finding an entry: after a process opened the slot of a key for writing, stored the
  entry there and closed it, \<^verbatim>\<open>openForReading()\<close> with that key opens that slot and the slot holds the
  stored data; with a different key of the same slot it returns nothing and leaves the map as it was.
\<close>

theorem store_map_write_read:
  assumes ok: "map_ok m" and opened: "openForWriting m k = Inr (Some f, m1)"
    and stored: "m2 = put_slot m1 f (slot_set e (slot_at m1 f))" and ke: "se_key e = k"
    and closed: "closeForWriting m2 f b = Inr m3"
  shows "(\<exists>m4. openForReading m3 k = Inr (Some f, m4) \<and> basics (slot_at m4 f) = se_basics e) \<and>
    (k' \<noteq> k \<and> slotIndexByKey m k' = f \<longrightarrow> openForReading m3 k' = Inr (None, m3))"
proof -
  have idle: "\<not> slot_busy (slot_at m (slotIndexByKey m k))"
    using openForWriting_busy [OF ok, of k] opened by auto
  have f: "f = slotIndexByKey m k" and v: "valid m1 f" and w: "state (slot_at m1 f) = Writeable"
    and unmarked: "\<not> waitingToBeFreed (slot_at m1 f)" and lim: "limit m1 = limit m"
    using openForWriting_idle [OF ok idle] opened ok map_ok_index [OF ok, of k]
    by (auto simp: opened_slot_def)
  have ok1: "map_ok m1" using ok opened by (rule map_ok_openForWriting)
  have ok2: "map_ok m2"
    using ok1 sm_step.store_entry [OF v w] stored by (blast intro: sm_step_ok)
  have at2: "valid m2 f" "state (slot_at m2 f) = Writeable"
    using ok1 v w by (simp_all add: stored slot_set_def)
  have ok3: "map_ok m3" using ok2 at2 closed by (rule map_ok_closeForWriting)
  have m3: "readable_now (slot_at m3 f)" "key (slot_at m3 f) = k" "basics (slot_at m3 f) = se_basics e"
    "valid m3 f" "limit m3 = limit m"
    using closeForWriting_writer [OF ok2 at2, of b] closed ok2 at2 ok1 v unmarked lim ke
    by (auto simp: readable_now_def stored slot_set_def)
  have i3: "slotIndexByKey m3 = slotIndexByKey m"
    using m3(5) by (simp add: slotIndexByKey_def fun_eq_iff)
  show ?thesis
    using ok3 m3 f
    by (auto simp: openForReading_ok i3 sameKey_def one_more_reader_def prod_eq_iff)
qed

definition demo_entry :: store_entry where
  "demo_entry = \<lparr>se_key = (0, 0), se_basics = zero_basics\<lparr>swap_file_sz := 42\<rparr>\<rparr>"

theorem store_map_write_read_witness:
  "\<exists>m3 m4. closeForWriting (put_slot demo_written 0 (slot_set demo_entry (slot_at demo_written 0)))
     0 False = Inr m3 \<and> openForReading m3 (0, 0) = Inr (Some 0, m4) \<and>
     openForReading m3 (2, 0) = Inr (None, m3)"
proof -
  let ?m2 = "put_slot demo_written 0 (slot_set demo_entry (slot_at demo_written 0))"
  have ok: "map_ok demo_map" using new_map_demo by (rule map_ok_new)
  obtain m3 where c: "closeForWriting ?m2 0 False = Inr m3"
    by (simp add: closeForWriting_def demo_written_def demo_map_def put_slot_def slot_at_def slot_set_def
        valid_def entryLimit_def lock_specs Let_def new_slot_def)
  have "se_key demo_entry = (0, 0)" "slotIndexByKey demo_map (2, 0) = 0"
    by (simp_all add: demo_entry_def slotIndexByKey_def demo_map_def)
  then show ?thesis
    using c store_map_write_read [OF ok demo_open refl _ c, of "(2, 0)"] by auto
qed

text \<open>
  Freeing a slot that is already empty makes the counter wrong: \<^verbatim>\<open>free()\<close> does not look at the
  state before it subtracts one, so after two readers of one entry have both closed it and both
  called \<^verbatim>\<open>free()\<close> (what \<^verbatim>\<open>MemStore::get()\<close> does when it cannot copy an entry), \<^verbatim>\<open>entryCount()\<close> is one
  less than the number of used slots.
\<close>

theorem store_map_double_free:
  assumes "map_ok m" and "valid m f" and "used (slot_at m f)" and "\<not> slot_busy (slot_at m f)"
    and "free m f = Inr m1" and "free m1 f = Inr m2"
  shows "entryCount m2 = int (length (filter (\<lambda>s. state s \<noteq> Empty) (slots m2))) - 1"
proof -
  have used_eq: "used = (\<lambda>s. state s \<noteq> Empty)" by (simp add: used_def fun_eq_iff)
  have ok1: "map_ok m1" using assms(1,2,3,5) by (rule map_ok_free)
  have m1: "slot_at m1 f = freed_slot (slot_at m f)" "valid m1 f"
    using free_idle [OF assms(1,2,4)] assms by auto
  have m2: "m2 = (put_slot (note_clean m1 f) f (freed_slot (slot_at m1 f)))\<lparr>count := count m1 - 1\<rparr>"
    using free_idle [OF ok1 m1(2)] assms(6) m1(1) by (auto simp: slot_transitions)
  have "freed_slot (slot_at m1 f) = slot_at m1 f" and "note_clean m1 f = m1"
    using m1(1) by (simp_all add: freed_slot_def note_clean_def)
  then have "m2 = m1\<lparr>count := count m1 - 1\<rparr>"
    using m2 by simp
  then show ?thesis
    using ok1 by (simp add: entryCount_def map_ok_def used_eq)
qed

definition demo_readable :: store_map where
  "demo_readable = demo_map\<lparr>count := 1, slots := [new_slot\<lparr>state := Readable\<rparr>, new_slot]\<rparr>"

theorem store_map_double_free_witness:
  "\<exists>m1 m2. free demo_readable 0 = Inr m1 \<and> free m1 0 = Inr m2 \<and> entryCount m2 = - 1"
proof -
  have ok: "map_ok demo_readable"
    by (simp add: map_ok_def demo_readable_def demo_map_def new_slot_def slot_transitions)
  have at: "valid demo_readable 0" "used (slot_at demo_readable 0)" "\<not> slot_busy (slot_at demo_readable 0)"
    by (simp_all add: valid_def entryLimit_def demo_readable_def demo_map_def slot_at_def new_slot_def
        slot_transitions)
  obtain m1 where f1: "free demo_readable 0 = Inr m1"
    using free_idle [OF ok at(1,3)] by blast
  then have ok1: "map_ok m1" and v1: "valid m1 0"
    using map_ok_free [OF ok at(1,2)] free_idle [OF ok at(1,3)] at by auto
  obtain m2 where f2: "free m1 0 = Inr m2"
    using free_idle [OF ok1 v1] free_busy [OF ok1 v1] by blast
  have "slots m2 = [new_slot, new_slot]"
    using f1 f2 by (auto simp: free_def freeLocked_def demo_readable_def demo_map_def slot_at_def valid_def
        entryLimit_def new_slot_def new_lock_def lock_specs put_slot_def Let_def)
  then show ?thesis
    using f1 f2 store_map_double_free [OF ok at f1 f2] by (auto simp: new_slot_def)
qed

end
