(* ===== verification/Ipc_Queue.thy ===== *)
theory Ipc_Queue
  imports Squid_Prelude
begin

text \<open>
  The lockless queues of \<^verbatim>\<open>src/ipc/Queue.h\<close> and \<^verbatim>\<open>src/ipc/Queue.cc\<close>: the reader's notification state
  (\<open>queue_reader\<close>), the single-writer single-reader ring buffer (\<open>uni_queue\<close>, over bytes, with
  32-bit indices that wrap) and the bidirectional queue between two groups of processes
  (\<open>bi_queue\<close>).  The ring buffer is shown to implement a bounded FIFO when calls do not overlap,
  and then again when one writer and one reader interleave their memory accesses.
\<close>

section \<open>The reader's notification state\<close>

record queue_reader =
  popBlocked :: int
  popSignal :: int
  rateLimit :: int
  balance :: int

definition new_reader :: queue_reader where
  "new_reader = \<lparr>popBlocked = 1, popSignal = 0, rateLimit = 0, balance = 0\<rparr>"

definition swap_if :: "int \<Rightarrow> int \<Rightarrow> int \<Rightarrow> bool \<times> int" where
  "swap_if comparand replacement value =
     (if value = comparand then (True, replacement) else (False, value))"

definition blocked :: "queue_reader \<Rightarrow> bool" where
  "blocked r \<longleftrightarrow> popBlocked r = 1"

definition block :: "queue_reader \<Rightarrow> queue_reader" where
  "block r = r\<lparr>popBlocked := snd (swap_if 0 1 (popBlocked r))\<rparr>"

definition unblock :: "queue_reader \<Rightarrow> queue_reader" where
  "unblock r = r\<lparr>popBlocked := snd (swap_if 1 0 (popBlocked r))\<rparr>"

definition raiseSignal :: "queue_reader \<Rightarrow> bool \<times> queue_reader" where
  "raiseSignal r =
     (if blocked r
      then let (done, v) = swap_if 0 1 (popSignal r) in (done, r\<lparr>popSignal := v\<rparr>)
      else (False, r))"

definition clearSignal :: "queue_reader \<Rightarrow> queue_reader" where
  "clearSignal r = (let r1 = unblock r in r1\<lparr>popSignal := snd (swap_if 1 0 (popSignal r1))\<rparr>)"

section \<open>The ring buffer\<close>

record uni_queue =
  theIn :: "32 word"
  theOut :: "32 word"
  theSize :: int
  theMaxItemSize :: nat
  theCapacity :: nat
  theBuffer :: bytes

definition new_queue :: "nat \<Rightarrow> nat \<Rightarrow> uni_queue outcome" where
  "new_queue maxItemSize capacity =
     guardE (maxItemSize > 0) MustFault (guardE (capacity > 0) MustFault
       (Inr \<lparr>theIn = 0, theOut = 0, theSize = 0, theMaxItemSize = maxItemSize,
          theCapacity = capacity, theBuffer = replicate (capacity * maxItemSize) 0\<rparr>))"

text \<open>Sizes in shared memory; \<open>hdr\<close> is \<^verbatim>\<open>sizeof(OneToOneUniQueue)\<close>.\<close>

definition Bytes2Items :: "int \<Rightarrow> int \<Rightarrow> int \<Rightarrow> int outcome" where
  "Bytes2Items hdr maxItemSize bytes =
     guardE (maxItemSize > 0) AssertFault
       (Inr (let left = bytes - hdr in if left \<ge> 0 then left div maxItemSize else 0))"

definition Items2Bytes :: "int \<Rightarrow> int \<Rightarrow> int \<Rightarrow> int outcome" where
  "Items2Bytes hdr maxItemSize items =
     guardE (items \<ge> 0) AssertFault (Inr (hdr + maxItemSize * items))"

definition queue_empty :: "uni_queue \<Rightarrow> bool" where
  "queue_empty q \<longleftrightarrow> theSize q = 0"

definition queue_full :: "uni_queue \<Rightarrow> bool" where
  "queue_full q \<longleftrightarrow> theSize q = int (theCapacity q)"

text \<open>The byte position of an index, \<^verbatim>\<open>(index % theCapacity) * theMaxItemSize\<close> as unsigned int.\<close>

definition item_pos :: "uni_queue \<Rightarrow> 32 word \<Rightarrow> nat" where
  "item_pos q i = (unat i mod theCapacity q) * theMaxItemSize q mod 2 ^ 32"

definition take_item :: "nat \<Rightarrow> uni_queue \<Rightarrow> bytes \<times> uni_queue" where
  "take_item sz q = (bytes_at (theBuffer q) (item_pos q (theOut q)) sz, q\<lparr>theOut := theOut q + 1\<rparr>)"

definition put_item :: "bytes \<Rightarrow> uni_queue \<Rightarrow> uni_queue" where
  "put_item v q = q\<lparr>theBuffer := memcpy_at (theBuffer q) (item_pos q (theIn q)) v, theIn := theIn q + 1\<rparr>"

definition resize :: "int \<Rightarrow> uni_queue \<Rightarrow> uni_queue" where
  "resize d q = q\<lparr>theSize := theSize q + d\<rparr>"

definition pop :: "nat \<Rightarrow> uni_queue \<Rightarrow> queue_reader option \<Rightarrow>
    (bytes option \<times> uni_queue \<times> queue_reader option) outcome" where
  "pop sz q rd =
     guardE (sz \<le> theMaxItemSize q) ThrowItemTooLarge
       (let rd1 = (if queue_empty q then map_option block rd else rd)
        in if queue_empty q then Inr (None, q, rd1)
           else let (v, q1) = take_item sz q
                in Inr (Some v, resize (- 1) q1, map_option unblock rd1))"

definition peek :: "nat \<Rightarrow> uni_queue \<Rightarrow> bytes option outcome" where
  "peek sz q =
     guardE (sz \<le> theMaxItemSize q) ThrowItemTooLarge
       (if queue_empty q then Inr None
        else Inr (Some (bytes_at (theBuffer q) (item_pos q (theOut q)) sz)))"

definition push :: "bytes \<Rightarrow> uni_queue \<Rightarrow> queue_reader option \<Rightarrow>
    (bool \<times> uni_queue \<times> queue_reader option) outcome" where
  "push v q rd =
     guardE (length v \<le> theMaxItemSize q) ThrowItemTooLarge
       (guardE (\<not> queue_full q) ThrowFull
         (let wasEmpty = queue_empty q; q1 = resize 1 (put_item v q)
          in if wasEmpty then
               (case rd of
                  None \<Rightarrow> Inr (True, q1, None)
                | Some r \<Rightarrow> let (raised, r1) = raiseSignal r in Inr (raised, q1, Some r1))
             else Inr (False, q1, rd)))"

section \<open>The contents of a ring buffer\<close>

text \<open>
  \<open>slot_value sz q k\<close> is the item with the running number \<open>k\<close> (counted from the queue's creation).
  The geometry that makes positions meaningful: the buffer holds \<open>theCapacity\<close> chunks, all byte
  positions fit an unsigned int, and the capacity divides \<open>2^32\<close>, so that a wrapping index keeps
  its position.
\<close>

definition geometry :: "nat \<Rightarrow> uni_queue \<Rightarrow> bool" where
  "geometry sz q \<longleftrightarrow> 0 < sz \<and> sz \<le> theMaxItemSize q \<and> 0 < theCapacity q \<and>
     theCapacity q dvd 2 ^ 32 \<and> theCapacity q * theMaxItemSize q < 2 ^ 32 \<and>
     length (theBuffer q) = theCapacity q * theMaxItemSize q"

definition slot_value :: "nat \<Rightarrow> uni_queue \<Rightarrow> nat \<Rightarrow> bytes" where
  "slot_value sz q k = bytes_at (theBuffer q) (item_pos q (of_nat k)) sz"

lemma item_pos_of_nat:
  assumes "geometry sz q"
  shows "item_pos q (of_nat k) = (k mod theCapacity q) * theMaxItemSize q"
proof -
  have "unat (of_nat k :: 32 word) mod theCapacity q = k mod theCapacity q"
    using assms by (intro unat_of_nat_mod) (simp add: geometry_def)
  moreover have "(k mod theCapacity q) * theMaxItemSize q < 2 ^ 32"
    using assms chunk_in_range [of "k mod theCapacity q" "theCapacity q" "theMaxItemSize q"]
    by (auto simp: geometry_def)
  ultimately show ?thesis by (simp add: item_pos_def)
qed

lemma item_pos_range:
  assumes "geometry sz q"
  shows "item_pos q (of_nat k) + theMaxItemSize q \<le> length (theBuffer q)"
  using assms chunk_in_range [of "k mod theCapacity q" "theCapacity q" "theMaxItemSize q"]
  by (simp add: item_pos_of_nat [OF assms]) (simp add: geometry_def)

lemma queue_fields [simp]:
  "theIn (resize d q) = theIn q" "theOut (resize d q) = theOut q"
  "theSize (resize d q) = theSize q + d" "theCapacity (resize d q) = theCapacity q"
  "theMaxItemSize (resize d q) = theMaxItemSize q" "theBuffer (resize d q) = theBuffer q"
  "theIn (put_item v q) = theIn q + 1" "theOut (put_item v q) = theOut q"
  "theSize (put_item v q) = theSize q" "theCapacity (put_item v q) = theCapacity q"
  "theMaxItemSize (put_item v q) = theMaxItemSize q"
  "snd (take_item sz q) = q\<lparr>theOut := theOut q + 1\<rparr>"
  by (simp_all add: resize_def put_item_def take_item_def)

lemma geometry_keep [simp]:
  "geometry sz (resize d q) = geometry sz q"
  "geometry sz (q\<lparr>theOut := i\<rparr>) = geometry sz q"
  by (simp_all add: geometry_def resize_def)

lemma geometry_put:
  assumes "geometry sz q" "length v = sz" "theIn q = of_nat k"
  shows "geometry sz (put_item v q)"
  using assms item_pos_range [OF assms(1), of k]
  by (simp add: geometry_def put_item_def)

lemma slot_value_keep [simp]:
  "slot_value sz (resize d q) k = slot_value sz q k"
  "slot_value sz (q\<lparr>theOut := i\<rparr>) k = slot_value sz q k"
  by (simp_all add: slot_value_def resize_def item_pos_def)

lemma slot_value_put_same:
  assumes "geometry sz q" "length v = sz" "theIn q = of_nat k"
  shows "slot_value sz (put_item v q) k = v"
proof -
  have "item_pos q (of_nat k) + length v \<le> length (theBuffer q)"
    using item_pos_range [OF assms(1), of k] assms by (auto simp: geometry_def)
  from memcpy_at_same [OF this] show ?thesis
    using assms by (simp add: slot_value_def put_item_def item_pos_def)
qed

lemma slot_value_put_other:
  assumes "geometry sz q" "length v = sz" "theIn q = of_nat k"
    and "j mod theCapacity q \<noteq> k mod theCapacity q"
  shows "slot_value sz (put_item v q) j = slot_value sz q j"
proof -
  let ?p = "\<lambda>i. item_pos q (of_nat i)"
  have "?p j + theMaxItemSize q \<le> ?p k \<or> ?p k + theMaxItemSize q \<le> ?p j"
    unfolding item_pos_of_nat [OF assms(1)] using assms(4) by (rule chunk_disjoint)
  then have "bytes_at (memcpy_at (theBuffer q) (?p k) v) (?p j) sz = bytes_at (theBuffer q) (?p j) sz"
    using assms(1,2) item_pos_range [OF assms(1), of k] item_pos_range [OF assms(1), of j]
    by (intro memcpy_at_disjoint) (auto simp: geometry_def)
  then show ?thesis
    using assms(3) by (simp add: slot_value_def put_item_def item_pos_def)
qed

lemma take_item_value: "theOut q = of_nat k \<Longrightarrow> fst (take_item sz q) = slot_value sz q k"
  by (simp add: take_item_def slot_value_def)

section \<open>A bounded FIFO, as an interface\<close>

locale bounded_fifo =
  fixes invar :: "'q \<Rightarrow> bool" and items :: "'q \<Rightarrow> 'v list" and cap :: "'q \<Rightarrow> nat"
    and okv :: "'v \<Rightarrow> bool"
    and enq :: "'v \<Rightarrow> 'q \<Rightarrow> 'q outcome" and deq :: "'q \<Rightarrow> ('v option \<times> 'q) outcome"
  assumes bound: "invar q \<Longrightarrow> length (items q) \<le> cap q"
    and enq_room: "invar q \<Longrightarrow> okv v \<Longrightarrow> length (items q) < cap q \<Longrightarrow>
       \<exists>q'. enq v q = Inr q' \<and> invar q' \<and> items q' = items q @ [v] \<and> cap q' = cap q"
    and enq_full: "invar q \<Longrightarrow> okv v \<Longrightarrow> length (items q) = cap q \<Longrightarrow> enq v q = Inl ThrowFull"
    and deq_nil: "invar q \<Longrightarrow> items q = [] \<Longrightarrow> deq q = Inr (None, q)"
    and deq_cons: "invar q \<Longrightarrow> items q = v # vs \<Longrightarrow>
       \<exists>q'. deq q = Inr (Some v, q') \<and> invar q' \<and> items q' = vs \<and> cap q' = cap q"
begin

fun enq_all :: "'v list \<Rightarrow> 'q \<Rightarrow> 'q outcome" where
  "enq_all [] q = Inr q"
| "enq_all (v # vs) q = bindE (enq v q) (enq_all vs)"

fun deq_n :: "nat \<Rightarrow> 'q \<Rightarrow> ('v list \<times> 'q) outcome" where
  "deq_n 0 q = Inr ([], q)"
| "deq_n (Suc n) q = bindE (deq q) (\<lambda>(r, q1). case r of None \<Rightarrow> Inr ([], q1)
     | Some v \<Rightarrow> bindE (deq_n n q1) (\<lambda>(vs, q2). Inr (v # vs, q2)))"

lemma enq_all_room:
  assumes "invar q" "\<forall>v \<in> set vs. okv v" "length (items q) + length vs \<le> cap q"
  shows "\<exists>q'. enq_all vs q = Inr q' \<and> invar q' \<and> items q' = items q @ vs \<and> cap q' = cap q"
  using assms
proof (induction vs arbitrary: q)
  case Nil
  then show ?case by simp
next
  case (Cons v vs)
  from Cons.prems obtain q1 where "enq v q = Inr q1" "invar q1" "items q1 = items q @ [v]" "cap q1 = cap q"
    using enq_room [of q v] by auto
  with Cons.IH [of q1] Cons.prems show ?case by auto
qed

lemma deq_n_items:
  assumes "invar q" "n \<le> length (items q)"
  shows "\<exists>q'. deq_n n q = Inr (take n (items q), q') \<and> invar q' \<and> items q' = drop n (items q)"
  using assms
proof (induction n arbitrary: q)
  case 0
  then show ?case by simp
next
  case (Suc n)
  then obtain v vs where c: "items q = v # vs" by (cases "items q") auto
  from deq_cons [OF Suc.prems(1) c] obtain q1
    where q1: "deq q = Inr (Some v, q1)" "invar q1" "items q1 = vs" by blast
  with Suc.IH [of q1] Suc.prems(2) c show ?case by auto
qed

text \<open>What goes in comes out, in the same order.\<close>

lemma fifo_order:
  assumes "invar q" "items q = []" "\<forall>v \<in> set vs. okv v" "length vs \<le> cap q"
  shows "\<exists>q1 q2. enq_all vs q = Inr q1 \<and> deq_n (length vs) q1 = Inr (vs, q2) \<and> invar q2 \<and> items q2 = []"
proof -
  from enq_all_room [OF assms(1,3)] assms(2,4) obtain q1
    where "enq_all vs q = Inr q1" "invar q1" "items q1 = vs" by auto
  with deq_n_items [of q1 "length vs"] show ?thesis by auto
qed

end

section \<open>The ring buffer is a bounded FIFO\<close>

definition uq_items :: "nat \<Rightarrow> uni_queue \<Rightarrow> bytes list" where
  "uq_items sz q = map (\<lambda>i. slot_value sz q (unat (theOut q) + i)) [0..<nat (theSize q)]"

definition uq_invar :: "nat \<Rightarrow> uni_queue \<Rightarrow> bool" where
  "uq_invar sz q \<longleftrightarrow> geometry sz q \<and> 0 \<le> theSize q \<and> theSize q \<le> int (theCapacity q) \<and>
     theIn q = theOut q + of_nat (nat (theSize q))"

lemma slot_value_cong:
  "(of_nat j :: 32 word) = of_nat k \<Longrightarrow> slot_value sz q j = slot_value sz q k"
  by (simp add: slot_value_def)

lemma uq_in: "uq_invar sz q \<Longrightarrow> theIn q = of_nat (unat (theOut q) + nat (theSize q))"
  by (simp add: uq_invar_def)

lemma uq_length: "length (uq_items sz q) = nat (theSize q)"
  by (simp add: uq_items_def)

lemma uq_push:
  assumes inv: "uq_invar sz q" and len: "length v = sz" and room: "theSize q < int (theCapacity q)"
  shows "uq_invar sz (resize 1 (put_item v q)) \<and>
         uq_items sz (resize 1 (put_item v q)) = uq_items sz q @ [v]"
proof -
  let ?k = "unat (theOut q)" and ?n = "nat (theSize q)"
  have g: "geometry sz q" using inv by (simp add: uq_invar_def)
  note i = uq_in [OF inv]
  have n: "nat (theSize q + 1) = Suc ?n" and below: "?n < theCapacity q"
    using inv room by (auto simp: uq_invar_def)
  have keep: "slot_value sz (put_item v q) (?k + j) = slot_value sz q (?k + j)" if "j < ?n" for j
  proof (rule slot_value_put_other [OF g len i])
    show "(?k + j) mod theCapacity q \<noteq> (?k + ?n) mod theCapacity q"
      using that below by (intro mod_window_distinct [of ?k]) auto
  qed
  have new: "slot_value sz (put_item v q) (?k + ?n) = v"
    using g len i by (rule slot_value_put_same)
  have "uq_items sz (resize 1 (put_item v q)) =
      map (\<lambda>j. slot_value sz (put_item v q) (?k + j)) [0..<Suc ?n]"
    by (simp add: uq_items_def n del: upt_Suc)
  also have "\<dots> = uq_items sz q @ [v]"
    using keep by (simp add: uq_items_def new)
  finally have items: "uq_items sz (resize 1 (put_item v q)) = uq_items sz q @ [v]" .
  have "uq_invar sz (resize 1 (put_item v q))"
    using inv room geometry_put [OF g len i] n by (auto simp: uq_invar_def)
  with items show ?thesis by simp
qed

lemma uq_pop:
  assumes inv: "uq_invar sz q" and nonempty: "0 < theSize q"
  shows "uq_invar sz (resize (- 1) (snd (take_item sz q))) \<and>
         uq_items sz q = fst (take_item sz q) # uq_items sz (resize (- 1) (snd (take_item sz q)))"
proof -
  let ?k = "unat (theOut q)" and ?q = "resize (- 1) (snd (take_item sz q))"
  obtain m where m: "nat (theSize q) = Suc m" "nat (theSize ?q) = m"
    using nonempty by (cases "nat (theSize q)") auto
  then have m2: "nat (theSize q - 1) = m" by simp
  have q': "theOut ?q = theOut q + 1" and sv: "slot_value sz ?q = slot_value sz q"
    by (auto simp: fun_eq_iff)
  have "slot_value sz q (unat (theOut q + 1) + j) = slot_value sz q (?k + Suc j)" for j
    by (rule slot_value_cong) simp
  then have "uq_items sz ?q = map (\<lambda>j. slot_value sz q (?k + Suc j)) [0..<m]"
    by (simp add: uq_items_def m2 sv)
  moreover have "uq_items sz q = slot_value sz q ?k # map (\<lambda>j. slot_value sz q (?k + Suc j)) [0..<m]"
    by (simp add: uq_items_def m map_upt_Suc del: upt_Suc)
  moreover have "fst (take_item sz q) = slot_value sz q ?k"
    by (rule take_item_value) simp
  moreover have "theIn q = theOut q + 1 + of_nat m"
    using inv m by (simp add: uq_invar_def del: word_of_nat_eq_0_iff)
  then have "uq_invar sz ?q"
    using inv nonempty m by (simp add: uq_invar_def)
  ultimately show ?thesis by simp
qed

lemma uq_empty_size: "uq_invar sz q \<Longrightarrow> uq_items sz q = [] \<Longrightarrow> theSize q = 0"
  using uq_length [of sz q] by (simp add: uq_invar_def)

definition uq_enq :: "bytes \<Rightarrow> uni_queue \<Rightarrow> uni_queue outcome" where
  "uq_enq v q = bindE (push v q None) (\<lambda>(_, q1, _). Inr q1)"

definition uq_deq :: "nat \<Rightarrow> uni_queue \<Rightarrow> (bytes option \<times> uni_queue) outcome" where
  "uq_deq sz q = bindE (pop sz q None) (\<lambda>(r, q1, _). Inr (r, q1))"

interpretation uq: bounded_fifo "uq_invar sz" "uq_items sz" theCapacity "\<lambda>v. length v = sz" uq_enq "uq_deq sz"
proof unfold_locales
  fix q :: uni_queue and v :: bytes and vs :: "bytes list"
  assume inv: "uq_invar sz q"
  then have fits: "sz \<le> theMaxItemSize q" and sz: "0 \<le> theSize q"
    by (auto simp: uq_invar_def geometry_def)
  show "length (uq_items sz q) \<le> theCapacity q"
    using inv by (auto simp: uq_length uq_invar_def)
  show "\<exists>q'. uq_enq v q = Inr q' \<and> uq_invar sz q' \<and> uq_items sz q' = uq_items sz q @ [v] \<and>
      theCapacity q' = theCapacity q"
    if "length v = sz" "length (uq_items sz q) < theCapacity q"
  proof -
    have "theSize q < int (theCapacity q)" using that(2) sz by (simp add: uq_length)
    with uq_push [OF inv that(1)] that(1) fits show ?thesis
      by (simp add: uq_enq_def push_def queue_full_def Let_def)
  qed
  show "uq_enq v q = Inl ThrowFull" if "length v = sz" "length (uq_items sz q) = theCapacity q"
  proof -
    have "theSize q = int (theCapacity q)" using that(2) sz by (simp add: uq_length)
    with that(1) fits show ?thesis by (simp add: uq_enq_def push_def queue_full_def)
  qed
  show "uq_deq sz q = Inr (None, q)" if "uq_items sz q = []"
    using that fits sz uq_length [of sz q] by (auto simp: uq_deq_def pop_def queue_empty_def)
  show "\<exists>q'. uq_deq sz q = Inr (Some v, q') \<and> uq_invar sz q' \<and> uq_items sz q' = vs \<and>
      theCapacity q' = theCapacity q"
    if "uq_items sz q = v # vs"
    using that fits sz uq_length [of sz q] uq_pop [OF inv]
    by (auto simp: uq_deq_def pop_def queue_empty_def Let_def split_beta)
qed

section \<open>One writer and one reader, interleaved\<close>

text \<open>
  Every access of \<^verbatim>\<open>push()\<close> and \<^verbatim>\<open>pop()\<close> to shared memory is a step of its own.  \<open>msgs\<close> counts the
  out-of-band notifications sent (\<^verbatim>\<open>push()\<close> returned true) and not yet received; \<open>pushed\<close> and
  \<open>popped\<close> record the values of the completed calls.
\<close>

datatype wpc =
    WIdle
  | WRoom bytes           \<comment> \<open>\<^verbatim>\<open>full()\<close> was false\<close>
  | WTested bytes bool    \<comment> \<open>\<^verbatim>\<open>wasEmpty\<close> read\<close>
  | WCopied bytes bool    \<comment> \<open>value copied, \<^verbatim>\<open>theIn\<close> incremented\<close>
  | WSized bool           \<comment> \<open>\<^verbatim>\<open>++theSize\<close> done\<close>
  | WSawBlocked           \<comment> \<open>\<^verbatim>\<open>blocked()\<close> was true\<close>

datatype rpc =
    RIdle
  | REmpty                \<comment> \<open>the first \<^verbatim>\<open>empty()\<close> was true\<close>
  | RMarked               \<comment> \<open>\<^verbatim>\<open>block()\<close> done\<close>
  | RFound                \<comment> \<open>an \<^verbatim>\<open>empty()\<close> was false\<close>
  | RUnblocked            \<comment> \<open>\<^verbatim>\<open>unblock()\<close> done\<close>
  | RCopied bytes         \<comment> \<open>value copied, \<^verbatim>\<open>theOut\<close> incremented\<close>
  | RAsleep               \<comment> \<open>\<^verbatim>\<open>pop()\<close> returned false: waiting for a notification\<close>
  | RWoken                \<comment> \<open>notified, in \<^verbatim>\<open>clearSignal()\<close>\<close>
  | RCleared              \<comment> \<open>in \<^verbatim>\<open>clearSignal()\<close> after \<^verbatim>\<open>unblock()\<close>\<close>

record queue_sys =
  uq :: uni_queue
  qr :: queue_reader
  wpc :: wpc
  rpc :: rpc
  msgs :: nat
  pushed :: "bytes list"
  popped :: "bytes list"

definition init_queue_sys :: "uni_queue \<Rightarrow> queue_sys" where
  "init_queue_sys q = \<lparr>uq = q, qr = new_reader, wpc = WIdle, rpc = RAsleep, msgs = 0,
     pushed = [], popped = []\<rparr>"

fun writer_step :: "bytes \<Rightarrow> queue_sys \<Rightarrow> queue_sys option" where
  "writer_step v s =
     (case wpc s of
        WIdle \<Rightarrow> if queue_full (uq s) then None else Some (s\<lparr>wpc := WRoom v\<rparr>)
      | WRoom w \<Rightarrow> Some (s\<lparr>wpc := WTested w (queue_empty (uq s))\<rparr>)
      | WTested w e \<Rightarrow> Some (s\<lparr>uq := put_item w (uq s), wpc := WCopied w e\<rparr>)
      | WCopied w e \<Rightarrow>
          Some (s\<lparr>uq := resize 1 (uq s), pushed := pushed s @ [w], wpc := WSized e\<rparr>)
      | WSized e \<Rightarrow> Some (s\<lparr>wpc := if e \<and> blocked (qr s) then WSawBlocked else WIdle\<rparr>)
      | WSawBlocked \<Rightarrow>
          (let (raised, x) = swap_if 0 1 (popSignal (qr s))
           in Some (s\<lparr>qr := (qr s)\<lparr>popSignal := x\<rparr>, msgs := msgs s + (if raised then 1 else 0),
                wpc := WIdle\<rparr>)))"

fun reader_step :: "nat \<Rightarrow> queue_sys \<Rightarrow> queue_sys option" where
  "reader_step sz s =
     (case rpc s of
        RIdle \<Rightarrow> Some (s\<lparr>rpc := if queue_empty (uq s) then REmpty else RFound\<rparr>)
      | REmpty \<Rightarrow> Some (s\<lparr>qr := block (qr s), rpc := RMarked\<rparr>)
      | RMarked \<Rightarrow> Some (s\<lparr>rpc := if queue_empty (uq s) then RAsleep else RFound\<rparr>)
      | RFound \<Rightarrow> Some (s\<lparr>qr := unblock (qr s), rpc := RUnblocked\<rparr>)
      | RUnblocked \<Rightarrow>
          Some (s\<lparr>uq := snd (take_item sz (uq s)), rpc := RCopied (fst (take_item sz (uq s)))\<rparr>)
      | RCopied w \<Rightarrow> Some (s\<lparr>uq := resize (- 1) (uq s), popped := popped s @ [w], rpc := RIdle\<rparr>)
      | RAsleep \<Rightarrow> if msgs s > 0 then Some (s\<lparr>msgs := msgs s - 1, rpc := RWoken\<rparr>) else None
      | RWoken \<Rightarrow> Some (s\<lparr>qr := unblock (qr s), rpc := RCleared\<rparr>)
      | RCleared \<Rightarrow> Some (s\<lparr>qr := (qr s)\<lparr>popSignal := snd (swap_if 1 0 (popSignal (qr s)))\<rparr>,
            rpc := RIdle\<rparr>))"

inductive q_step :: "nat \<Rightarrow> queue_sys \<Rightarrow> queue_sys \<Rightarrow> bool" for sz :: nat where
  by_writer: "length v = sz \<Longrightarrow> writer_step v s = Some t \<Longrightarrow> q_step sz s t"
| by_reader: "reader_step sz s = Some t \<Longrightarrow> q_step sz s t"

fun ahead_in :: "wpc \<Rightarrow> nat" where
  "ahead_in (WCopied w e) = 1"
| "ahead_in _ = 0"

fun ahead_out :: "rpc \<Rightarrow> nat" where
  "ahead_out (RCopied w) = 1"
| "ahead_out _ = 0"

fun w_local :: "nat \<Rightarrow> queue_sys \<Rightarrow> wpc \<Rightarrow> bool" where
  "w_local sz s (WRoom w) \<longleftrightarrow> length w = sz \<and> theSize (uq s) < int (theCapacity (uq s))"
| "w_local sz s (WTested w e) \<longleftrightarrow> length w = sz \<and> theSize (uq s) < int (theCapacity (uq s))"
| "w_local sz s (WCopied w e) \<longleftrightarrow> slot_value sz (uq s) (length (pushed s)) = w \<and>
     theSize (uq s) < int (theCapacity (uq s))"
| "w_local sz s _ \<longleftrightarrow> True"

fun r_local :: "nat \<Rightarrow> queue_sys \<Rightarrow> rpc \<Rightarrow> bool" where
  "r_local sz s RFound \<longleftrightarrow> 0 < theSize (uq s)"
| "r_local sz s RUnblocked \<longleftrightarrow> 0 < theSize (uq s)"
| "r_local sz s (RCopied w) \<longleftrightarrow> 0 < theSize (uq s) \<and> w = pushed s ! length (popped s)"
| "r_local sz s _ \<longleftrightarrow> True"

definition q_inv :: "nat \<Rightarrow> queue_sys \<Rightarrow> bool" where
  "q_inv sz s \<longleftrightarrow>
     geometry sz (uq s) \<and>
     theIn (uq s) = of_nat (length (pushed s) + ahead_in (wpc s)) \<and>
     theOut (uq s) = of_nat (length (popped s) + ahead_out (rpc s)) \<and>
     theSize (uq s) = int (length (pushed s)) - int (length (popped s)) \<and>
     0 \<le> theSize (uq s) \<and> theSize (uq s) \<le> int (theCapacity (uq s)) \<and>
     popped s = take (length (popped s)) (pushed s) \<and>
     (\<forall>k. length (popped s) \<le> k \<longrightarrow> k < length (pushed s) \<longrightarrow> slot_value sz (uq s) k = pushed s ! k) \<and>
     w_local sz s (wpc s) \<and> r_local sz s (rpc s)"

lemma local_cong:
  assumes "uq t = uq s" "pushed t = pushed s" "popped t = popped s"
  shows "w_local sz t w = w_local sz s w" and "r_local sz t r = r_local sz s r"
  using assms by (cases w; simp) (cases r; simp add: assms)

lemma q_inv_frame:
  assumes "q_inv sz s" and "uq t = uq s" "pushed t = pushed s" "popped t = popped s"
    and "ahead_in (wpc t) = ahead_in (wpc s)" "ahead_out (rpc t) = ahead_out (rpc s)"
    and "w_local sz s (wpc t)" "r_local sz s (rpc t)"
  shows "q_inv sz t"
  using assms by (simp add: q_inv_def local_cong [OF assms(2-4)])

lemma q_inv_locals:
  "q_inv sz s \<Longrightarrow> w_local sz s (wpc s) \<and> r_local sz s (rpc s) \<and> 0 \<le> theSize (uq s)"
  by (simp add: q_inv_def)

lemma q_inv_slot:
  "q_inv sz s \<Longrightarrow> length (popped s) \<le> k \<Longrightarrow> k < length (pushed s) \<Longrightarrow> slot_value sz (uq s) k = pushed s ! k"
  by (simp add: q_inv_def)

text \<open>Copying the value in: the cell written is none of the occupied ones.\<close>

lemma q_inv_put:
  assumes inv: "q_inv sz s" and at: "wpc s = WTested w e"
  shows "q_inv sz (s\<lparr>uq := put_item w (uq s), wpc := WCopied w e\<rparr>)"
proof -
  have g: "geometry sz (uq s)" and len: "length w = sz"
    and i: "theIn (uq s) = of_nat (length (pushed s))"
    and sz: "int (length (pushed s)) < int (length (popped s)) + int (theCapacity (uq s))"
    using inv at by (auto simp: q_inv_def)
  have room: "length (pushed s) < length (popped s) + theCapacity (uq s)" using sz by linarith
  have keep: "slot_value sz (put_item w (uq s)) k = slot_value sz (uq s) k"
    if "length (popped s) \<le> k" "k < length (pushed s)" for k
    by (rule slot_value_put_other [OF g len i]) (rule mod_window_distinct [OF that room])
  have "slot_value sz (put_item w (uq s)) (length (pushed s)) = w"
    using g len i by (rule slot_value_put_same)
  moreover have "r_local sz (s\<lparr>uq := put_item w (uq s), wpc := WCopied w e\<rparr>) (rpc s)"
    using inv by (cases "rpc s") (auto simp: q_inv_def)
  ultimately show ?thesis
    using inv at geometry_put [OF g len i] keep by (simp add: q_inv_def)
qed

text \<open>Publishing the value: \<^verbatim>\<open>++theSize\<close>.\<close>

lemma q_inv_publish:
  assumes inv: "q_inv sz s" and at: "wpc s = WCopied w e"
  shows "q_inv sz (s\<lparr>uq := resize 1 (uq s), pushed := pushed s @ [w], wpc := WSized e\<rparr>)"
proof -
  have le: "length (popped s) \<le> length (pushed s)"
    and pre: "popped s = take (length (popped s)) (pushed s)"
    and new: "slot_value sz (uq s) (length (pushed s)) = w"
    using inv at by (auto simp: q_inv_def)
  have old: "slot_value sz (uq s) k = (pushed s @ [w]) ! k"
    if "length (popped s) \<le> k" "k < Suc (length (pushed s))" for k
    using that new q_inv_slot [OF inv, of k] by (cases "k = length (pushed s)") (auto simp: nth_append)
  have "r_local sz (s\<lparr>uq := resize 1 (uq s), pushed := pushed s @ [w], wpc := WSized e\<rparr>) (rpc s)"
    using inv by (cases "rpc s") (auto simp: q_inv_def nth_append)
  then show ?thesis
    using inv at old le pre by (simp add: q_inv_def)
qed

text \<open>Copying the value out, and giving its cell back with \<^verbatim>\<open>--theSize\<close>.\<close>

lemma q_inv_take:
  assumes inv: "q_inv sz s" and at: "rpc s = RUnblocked"
  shows "q_inv sz (s\<lparr>uq := snd (take_item sz (uq s)), rpc := RCopied (fst (take_item sz (uq s)))\<rparr>)"
proof -
  have out: "theOut (uq s) = of_nat (length (popped s))" and pos: "0 < theSize (uq s)"
    using inv at by (auto simp: q_inv_def)
  have "length (popped s) < length (pushed s)" using inv pos by (simp add: q_inv_def)
  then have "fst (take_item sz (uq s)) = pushed s ! length (popped s)"
    using inv by (simp add: take_item_value [OF out] q_inv_def)
  moreover have "w_local sz (s\<lparr>uq := snd (take_item sz (uq s)), rpc := r\<rparr>) (wpc s)" for r
    using inv by (cases "wpc s") (auto simp: q_inv_def)
  ultimately show ?thesis
    using inv at pos by (simp add: q_inv_def)
qed

lemma q_inv_release:
  assumes inv: "q_inv sz s" and at: "rpc s = RCopied w"
  shows "q_inv sz (s\<lparr>uq := resize (- 1) (uq s), popped := popped s @ [w], rpc := RIdle\<rparr>)"
proof -
  have pos: "0 < theSize (uq s)" and w: "w = pushed s ! length (popped s)"
    and pre: "popped s = take (length (popped s)) (pushed s)"
    using inv at by (auto simp: q_inv_def)
  have lt: "length (popped s) < length (pushed s)" using inv pos by (simp add: q_inv_def)
  have "popped s @ [w] = take (Suc (length (popped s))) (pushed s)"
    using pre w lt by (metis take_Suc_conv_app_nth)
  moreover have "w_local sz (s\<lparr>uq := resize (- 1) (uq s), popped := popped s @ [w], rpc := RIdle\<rparr>) (wpc s)"
    using inv by (cases "wpc s") (auto simp: q_inv_def)
  ultimately show ?thesis
    using inv at pos by (simp add: q_inv_def)
qed

lemma writer_step_inv:
  assumes "q_inv sz s" "length v = sz" "writer_step v s = Some t"
  shows "q_inv sz t"
proof (cases "wpc s")
  case WIdle
  then have "theSize (uq s) < int (theCapacity (uq s))" "t = s\<lparr>wpc := WRoom v\<rparr>"
    using assms by (auto simp: q_inv_def queue_full_def split: if_splits)
  with assms WIdle show ?thesis
    by (intro q_inv_frame [OF assms(1)]) (auto simp: q_inv_def)
next
  case (WRoom w)
  with assms(3) q_inv_locals [OF assms(1)] show ?thesis
    by (intro q_inv_frame [OF assms(1)]) auto
next
  case (WTested w e)
  with assms q_inv_put [OF assms(1) WTested] show ?thesis by simp
next
  case (WCopied w e)
  with assms q_inv_publish [OF assms(1) WCopied] show ?thesis by simp
qed (use assms(3) q_inv_locals [OF assms(1)] in
      \<open>auto simp: Let_def split_beta intro!: q_inv_frame [OF assms(1)]\<close>)

lemma reader_step_inv:
  assumes "q_inv sz s" "reader_step sz s = Some t"
  shows "q_inv sz t"
proof (cases "rpc s")
  case RUnblocked
  with assms q_inv_take [OF assms(1) RUnblocked] show ?thesis by simp
next
  case (RCopied w)
  with assms q_inv_release [OF assms(1) RCopied] show ?thesis by simp
qed (use assms q_inv_locals [OF assms(1)] in
      \<open>auto simp: queue_empty_def split: if_splits intro!: q_inv_frame [OF assms(1)]\<close>)

lemma q_step_inv: "q_inv sz s \<Longrightarrow> q_step sz s t \<Longrightarrow> q_inv sz t"
  by (auto elim!: q_step.cases intro: writer_step_inv reader_step_inv simp del: writer_step.simps reader_step.simps)

definition fresh_queue :: "nat \<Rightarrow> uni_queue \<Rightarrow> bool" where
  "fresh_queue sz q \<longleftrightarrow> (\<exists>m c. new_queue m c = Inr q \<and> 0 < sz \<and> sz \<le> m \<and> c dvd 2 ^ 32 \<and> c * m < 2 ^ 32)"

lemma fresh_queue_inv: "fresh_queue sz q \<Longrightarrow> q_inv sz (init_queue_sys q)"
  by (auto simp: fresh_queue_def new_queue_def outcome_simps q_inv_def init_queue_sys_def geometry_def)

interpretation qsys: invariant_system "\<lambda>s. \<exists>q. fresh_queue sz q \<and> s = init_queue_sys q" "q_step sz" "q_inv sz"
  by unfold_locales (auto intro: fresh_queue_inv q_step_inv)

section \<open>Properties of the ring buffer\<close>

fun push_all :: "bytes list \<Rightarrow> uni_queue \<Rightarrow> uni_queue outcome" where
  "push_all [] q = Inr q"
| "push_all (v # vs) q = bindE (push v q None) (\<lambda>(_, q1, _). push_all vs q1)"

fun pop_times :: "nat \<Rightarrow> nat \<Rightarrow> uni_queue \<Rightarrow> (bytes list \<times> uni_queue) outcome" where
  "pop_times sz 0 q = Inr ([], q)"
| "pop_times sz (Suc n) q = bindE (pop sz q None) (\<lambda>(r, q1, _). case r of None \<Rightarrow> Inr ([], q1)
     | Some v \<Rightarrow> bindE (pop_times sz n q1) (\<lambda>(vs, q2). Inr (v # vs, q2)))"

lemma push_all_enq: "push_all vs q = uq.enq_all vs q"
  by (induction vs arbitrary: q) (simp_all add: uq_enq_def bindE_assoc case_prod_unfold)

lemma pop_times_deq: "pop_times sz n q = uq.deq_n sz n q"
proof (induction n arbitrary: q)
  case (Suc n)
  then show ?case
    by (cases "pop sz q None") (auto simp: uq_deq_def [of sz q] split: option.split)
qed simp

text \<open>
  \<^verbatim>\<open>push()\<close> and \<^verbatim>\<open>pop()\<close> implement a bounded FIFO, also after the 32-bit indices have wrapped: from
  any consistent empty queue whose capacity divides \<open>2^32\<close>, pushing up to \<open>theCapacity\<close> items
  succeeds and popping as many returns the same items in the same order and empties the queue.
\<close>

theorem uni_queue_fifo:
  assumes "uq_invar sz q" and "theSize q = 0" and "\<forall>v \<in> set vs. length v = sz"
    and "length vs \<le> theCapacity q"
  shows "\<exists>q1 q2. push_all vs q = Inr q1 \<and> pop_times sz (length vs) q1 = Inr (vs, q2) \<and> theSize q2 = 0"
proof -
  have "uq_items sz q = []" using assms(2) by (simp add: uq_items_def)
  from uq.fifo_order [OF assms(1) this assms(3,4)] show ?thesis
    by (auto simp: push_all_enq pop_times_deq uq_empty_size)
qed

definition demo_queue :: uni_queue where
  "demo_queue = \<lparr>theIn = - 1, theOut = - 1, theSize = 0, theMaxItemSize = 2, theCapacity = 4,
     theBuffer = replicate 8 0\<rparr>"

theorem uni_queue_fifo_witness:
  "\<exists>q1 q2. push_all [[1, 2], [3, 4], [5, 6]] demo_queue = Inr q1 \<and>
     pop_times 2 (length [[1, 2], [3, 4], [5, 6 :: byte]]) q1 = Inr ([[1, 2], [3, 4], [5, 6]], q2) \<and>
     theSize q2 = 0"
proof -
  have "uq_invar 2 demo_queue" "theSize demo_queue = 0" "theCapacity demo_queue = 4"
    by (simp_all add: uq_invar_def geometry_def demo_queue_def)
  then show ?thesis
    by (intro uni_queue_fifo) auto
qed

text \<open>
  C4. Under every interleaving of one writer and one reader over a freshly created queue, what the
  reader has got so far is a prefix of what the writer has put in, in order, with nothing lost,
  repeated or overwritten; \<^verbatim>\<open>theSize\<close> is exactly the number of items in between and never exceeds
  the capacity.
\<close>

theorem uni_queue_concurrent_fifo:
  assumes "reach (\<lambda>s. \<exists>q. fresh_queue sz q \<and> s = init_queue_sys q) (q_step sz) s"
  shows "\<exists>rest. pushed s = popped s @ rest \<and> theSize (uq s) = int (length rest) \<and>
     length rest \<le> theCapacity (uq s)"
proof -
  have inv: "q_inv sz s" using assms by (rule qsys.reach_inv)
  let ?n = "length (popped s)"
  have pre: "take ?n (pushed s) = popped s" and le: "?n \<le> length (pushed s)"
    and sz: "theSize (uq s) = int (length (pushed s)) - int ?n"
    and cap: "theSize (uq s) \<le> int (theCapacity (uq s))"
    using inv by (auto simp: q_inv_def)
  have "pushed s = popped s @ drop ?n (pushed s)"
    using pre append_take_drop_id [of ?n "pushed s"] by simp
  moreover have "theSize (uq s) = int (length (drop ?n (pushed s)))"
    using sz le by simp
  moreover have "length (drop ?n (pushed s)) \<le> theCapacity (uq s)"
    using sz le cap by simp
  ultimately show ?thesis by blast
qed

text \<open>A run given as a list of moves, each by the writer (with the value of the push) or the reader.\<close>

datatype mover = W bytes | R

fun run_moves :: "nat \<Rightarrow> mover list \<Rightarrow> queue_sys \<Rightarrow> queue_sys option" where
  "run_moves sz [] s = Some s"
| "run_moves sz (W v # ms) s =
     (if length v = sz then Option.bind (writer_step v s) (run_moves sz ms) else None)"
| "run_moves sz (R # ms) s = Option.bind (reader_step sz s) (run_moves sz ms)"

lemma run_moves_reach:
  assumes "run_moves sz ms s = Some t" and "reach start (q_step sz) s"
  shows "reach start (q_step sz) t"
  using assms
proof (induction sz ms s rule: run_moves.induct)
  case (1 sz s)
  then show ?case by simp
next
  case (2 sz v ms s)
  from "2.prems"(1) obtain u where u: "writer_step v s = Some u" "run_moves sz ms u = Some t" "length v = sz"
    by (simp add: bind_eq_Some_conv del: writer_step.simps split: if_splits) blast
  with "2.prems" have "reach start (q_step sz) u"
    by (blast intro: reach.reach_step q_step.by_writer)
  with "2.IH" u show ?case by (simp add: u)
next
  case (3 sz ms s)
  from "3.prems"(1) obtain u where u: "reader_step sz s = Some u" "run_moves sz ms u = Some t"
    by (simp add: bind_eq_Some_conv del: reader_step.simps) blast
  with "3.prems" have "reach start (q_step sz) u"
    by (blast intro: reach.reach_step q_step.by_reader)
  with "3.IH" u show ?case by (simp add: u)
qed

definition small_queue :: uni_queue where
  "small_queue = \<lparr>theIn = 0, theOut = 0, theSize = 0, theMaxItemSize = 1, theCapacity = 2,
     theBuffer = [0, 0]\<rparr>"

lemma fresh_small: "fresh_queue 1 small_queue"
proof -
  have "new_queue 1 2 = Inr small_queue"
    by (simp add: new_queue_def small_queue_def numeral_2_eq_2)
  then show ?thesis unfolding fresh_queue_def by (intro exI [of _ 1] exI [of _ 2]) simp
qed

lemma reach_small:
  "reach (\<lambda>s. \<exists>q. fresh_queue 1 q \<and> s = init_queue_sys q) (q_step 1) (init_queue_sys small_queue)"
  using fresh_small by (blast intro: reach.reach_start)

text \<open>
  A first push that wakes the reader, and a second one that reads \<^verbatim>\<open>wasEmpty\<close> as false just before the
  reader takes the only item and goes to sleep.
\<close>

definition race :: "mover list" where
  "race = [W [1], W [1], W [1], W [1], W [1], W [1], R, R, R, W [2], W [2],
           R, R, R, R, R, R, R, W [2], W [2], W [2]]"

definition race_end :: queue_sys where
  "race_end = \<lparr>uq = \<lparr>theIn = 2, theOut = 1, theSize = 1, theMaxItemSize = 1, theCapacity = 2,
      theBuffer = [1, 2]\<rparr>, qr = \<lparr>popBlocked = 1, popSignal = 0, rateLimit = 0, balance = 0\<rparr>,
      wpc = WIdle, rpc = RAsleep, msgs = 0, pushed = [[1], [2]], popped = [[1]]\<rparr>"

lemma race_run: "run_moves 1 race (init_queue_sys small_queue) = Some race_end"
  by (simp add: race_def race_end_def init_queue_sys_def small_queue_def new_reader_def queue_full_def
      queue_empty_def put_item_def take_item_def resize_def item_pos_def memcpy_at_def bytes_at_def
      blocked_def block_def unblock_def swap_if_def)

lemma reach_race: "reach (\<lambda>s. \<exists>q. fresh_queue 1 q \<and> s = init_queue_sys q) (q_step 1) race_end"
  using run_moves_reach [OF race_run reach_small] .

theorem uni_queue_concurrent_fifo_witness:
  "\<exists>rest. pushed race_end = popped race_end @ rest \<and> theSize (uq race_end) = int (length rest)"
  using uni_queue_concurrent_fifo [OF reach_race] by blast

text \<open>A sleeping reader that nobody is going to notify.\<close>

definition stranded :: "queue_sys \<Rightarrow> bool" where
  "stranded s \<longleftrightarrow> rpc s = RAsleep \<and> msgs s = 0 \<and> 0 < theSize (uq s) \<and>
     (case wpc s of WTested w e \<Rightarrow> \<not> e | WCopied w e \<Rightarrow> \<not> e | WSized e \<Rightarrow> \<not> e
      | WSawBlocked \<Rightarrow> False | _ \<Rightarrow> True)"

lemma stranded_step: "stranded s \<Longrightarrow> q_step sz s t \<Longrightarrow> stranded t \<and> popped t = popped s"
  by (erule q_step.cases) (auto simp: stranded_def queue_empty_def split: wpc.splits if_splits)

lemma stranded_run: "(q_step sz)\<^sup>*\<^sup>* s t \<Longrightarrow> stranded s \<Longrightarrow> stranded t \<and> popped t = popped s"
  by (induction rule: rtranclp_induct) (auto dest: stranded_step)



section \<open>Queues between two groups of processes\<close>

datatype group = groupA | groupB

record bi_metadata =
  theGroupASize :: int
  theGroupAIdOffset :: int
  theGroupBSize :: int
  theGroupBIdOffset :: int

text \<open>
  One end of the bidirectional queue: the shared segments (metadata, queues, readers) and the local
  data of the process that attached to them.
\<close>

record bi_queue =
  metadata :: bi_metadata
  queues :: "uni_queue list"
  readers :: "queue_reader list"
  theLocalGroup :: group
  theLocalProcessId :: int
  theLastPopProcessId :: int

definition new_metadata :: "int \<Rightarrow> int \<Rightarrow> int \<Rightarrow> int \<Rightarrow> bi_metadata outcome" where
  "new_metadata aSize aOff bSize bOff =
     guardE (aSize > 0) MustFault (guardE (bSize > 0) MustFault
       (Inr \<lparr>theGroupASize = aSize, theGroupAIdOffset = aOff, theGroupBSize = bSize,
          theGroupBIdOffset = bOff\<rparr>))"

definition new_readers :: "int \<Rightarrow> queue_reader list outcome" where
  "new_readers capacity = guardE (capacity > 0) MustFault (Inr (replicate (nat capacity) new_reader))"

definition new_queues :: "int \<Rightarrow> nat \<Rightarrow> nat \<Rightarrow> uni_queue list outcome" where
  "new_queues capacity maxItemSize queueCapacity =
     guardE (capacity > 0) MustFault
       (bindE (new_queue maxItemSize queueCapacity) (\<lambda>q. Inr (replicate (nat capacity) q)))"

definition queues_at :: "uni_queue list \<Rightarrow> int \<Rightarrow> uni_queue outcome" where
  "queues_at qs index =
     guardE (0 \<le> index \<and> index < int (length qs)) MustFault (Inr (qs ! nat index))"

definition MaxItemsCount :: "int \<Rightarrow> int \<Rightarrow> int \<Rightarrow> int" where
  "MaxItemsCount groupASize groupBSize capacity = capacity * groupASize * groupBSize * 2"

fun validProcessId :: "bi_metadata \<Rightarrow> group \<Rightarrow> int \<Rightarrow> bool" where
  "validProcessId md groupA pid \<longleftrightarrow>
     theGroupAIdOffset md \<le> pid \<and> pid < theGroupAIdOffset md + theGroupASize md"
| "validProcessId md groupB pid \<longleftrightarrow>
     theGroupBIdOffset md \<le> pid \<and> pid < theGroupBIdOffset md + theGroupBSize md"

definition oneToOneQueueIndex :: "bi_metadata \<Rightarrow> group \<Rightarrow> int \<Rightarrow> group \<Rightarrow> int \<Rightarrow> int outcome" where
  "oneToOneQueueIndex md fromGroup fromPid toGroup toPid =
     guardE (fromGroup \<noteq> toGroup) MustFault
      (guardE (validProcessId md fromGroup fromPid) AssertFault
       (guardE (validProcessId md toGroup toPid) AssertFault
         (let (index1, index2, offset) =
            (if fromGroup = groupA
             then (fromPid - theGroupAIdOffset md, toPid - theGroupBIdOffset md, 0)
             else (toPid - theGroupAIdOffset md, fromPid - theGroupBIdOffset md,
                   theGroupASize md * theGroupBSize md))
          in Inr (offset + index1 * theGroupBSize md + index2))))"

definition readerIndex :: "bi_metadata \<Rightarrow> group \<Rightarrow> int \<Rightarrow> int outcome" where
  "readerIndex md g pid =
     guardE (validProcessId md g pid) MustFault
       (Inr (if g = groupA then pid - theGroupAIdOffset md
             else theGroupASize md + pid - theGroupBIdOffset md))"

definition remoteGroup :: "bi_queue \<Rightarrow> group" where
  "remoteGroup b = (if theLocalGroup b = groupA then groupB else groupA)"

definition remoteGroupSize :: "bi_queue \<Rightarrow> int" where
  "remoteGroupSize b =
     (if theLocalGroup b = groupA then theGroupBSize (metadata b) else theGroupASize (metadata b))"

definition remoteGroupIdOffset :: "bi_queue \<Rightarrow> int" where
  "remoteGroupIdOffset b =
     (if theLocalGroup b = groupA then theGroupBIdOffset (metadata b) else theGroupAIdOffset (metadata b))"

definition reader_index :: "bi_queue \<Rightarrow> group \<Rightarrow> int \<Rightarrow> nat outcome" where
  "reader_index b g pid = bindE (readerIndex (metadata b) g pid) (\<lambda>i.
     guardE (0 \<le> i \<and> i < int (length (readers b))) OutOfBounds (Inr (nat i)))"

definition bi_attach :: "bi_metadata \<Rightarrow> uni_queue list \<Rightarrow> queue_reader list \<Rightarrow> group \<Rightarrow> int \<Rightarrow> bi_queue outcome" where
  "bi_attach md qs rs g pid =
     guardE (int (length qs) = theGroupASize md * theGroupBSize md * 2) MustFault
      (guardE (int (length rs) = theGroupASize md + theGroupBSize md) MustFault
        (let b = \<lparr>metadata = md, queues = qs, readers = rs, theLocalGroup = g, theLocalProcessId = pid,
                  theLastPopProcessId = int (length rs)\<rparr>
         in bindE (reader_index b g pid) (\<lambda>_. Inr b)))"

definition bi_init :: "int \<Rightarrow> int \<Rightarrow> int \<Rightarrow> int \<Rightarrow> nat \<Rightarrow> nat \<Rightarrow>
    (bi_metadata \<times> uni_queue list \<times> queue_reader list) outcome" where
  "bi_init aSize aOff bSize bOff maxItemSize capacity =
     bindE (new_metadata aSize aOff bSize bOff) (\<lambda>md.
     bindE (new_queues (aSize * bSize * 2) maxItemSize capacity) (\<lambda>qs.
     bindE (new_readers (aSize + bSize)) (\<lambda>rs. Inr (md, qs, rs))))"

definition bi_clearReaderSignal :: "int \<Rightarrow> bi_queue \<Rightarrow> bi_queue outcome" where
  "bi_clearReaderSignal remotePid b =
     bindE (reader_index b (theLocalGroup b) (theLocalProcessId b)) (\<lambda>i.
       guardE (validProcessId (metadata b) (remoteGroup b) remotePid) MustFault
         (Inr (b\<lparr>readers := (readers b)[i := clearSignal (readers b ! i)]\<rparr>)))"

definition in_index :: "bi_queue \<Rightarrow> int \<Rightarrow> int outcome" where
  "in_index b pid =
     oneToOneQueueIndex (metadata b) (remoteGroup b) pid (theLocalGroup b) (theLocalProcessId b)"

definition out_index :: "bi_queue \<Rightarrow> int \<Rightarrow> int outcome" where
  "out_index b pid =
     oneToOneQueueIndex (metadata b) (theLocalGroup b) (theLocalProcessId b) (remoteGroup b) pid"

definition inQueue :: "bi_queue \<Rightarrow> int \<Rightarrow> uni_queue outcome" where
  "inQueue b pid = bindE (in_index b pid) (queues_at (queues b))"

definition outQueue :: "bi_queue \<Rightarrow> int \<Rightarrow> uni_queue outcome" where
  "outQueue b pid = bindE (out_index b pid) (queues_at (queues b))"

definition next_pid :: "bi_queue \<Rightarrow> int \<Rightarrow> int" where
  "next_pid b pid =
     (if pid + 1 \<ge> remoteGroupIdOffset b + remoteGroupSize b then remoteGroupIdOffset b else pid + 1)"

fun bi_pop_loop :: "nat \<Rightarrow> nat \<Rightarrow> nat \<Rightarrow> bi_queue \<Rightarrow> ((int \<times> bytes) option \<times> bi_queue) outcome" where
  "bi_pop_loop sz r 0 b = Inr (None, b)"
| "bi_pop_loop sz r (Suc n) b =
     (let pid = next_pid b (theLastPopProcessId b)
      in bindE (in_index b pid) (\<lambda>i.
         bindE (queues_at (queues b) i) (\<lambda>q.
         bindE (pop sz q (Some (readers b ! r))) (\<lambda>(v, q1, rd).
           let b1 = b\<lparr>queues := (queues b)[nat i := q1], readers := (readers b)[r := the rd],
                      theLastPopProcessId := pid\<rparr>
           in case v of Some x \<Rightarrow> Inr (Some (pid, x), b1) | None \<Rightarrow> bi_pop_loop sz r n b1))))"

definition bi_pop :: "nat \<Rightarrow> bi_queue \<Rightarrow> ((int \<times> bytes) option \<times> bi_queue) outcome" where
  "bi_pop sz b =
     bindE (reader_index b (theLocalGroup b) (theLocalProcessId b)) (\<lambda>r.
       bi_pop_loop sz r (nat (remoteGroupSize b)) b)"

definition bi_push :: "int \<Rightarrow> bytes \<Rightarrow> bi_queue \<Rightarrow> (bool \<times> bi_queue) outcome" where
  "bi_push remotePid v b =
     bindE (out_index b remotePid) (\<lambda>i.
     bindE (queues_at (queues b) i) (\<lambda>q.
     bindE (reader_index b (remoteGroup b) remotePid) (\<lambda>r.
     bindE (push v q (Some (readers b ! r))) (\<lambda>(notify, q1, rd).
       Inr (notify, b\<lparr>queues := (queues b)[nat i := q1], readers := (readers b)[r := the rd]\<rparr>)))))"

definition bi_findOldest :: "nat \<Rightarrow> int \<Rightarrow> bi_queue \<Rightarrow> bytes option outcome" where
  "bi_findOldest sz remotePid b =
     (if \<not> validProcessId (metadata b) (remoteGroup b) remotePid then Inr None
      else bindE (inQueue b remotePid) (\<lambda>inq.
           bindE (peek sz inq) (\<lambda>v. case v of Some x \<Rightarrow> Inr (Some x)
             | None \<Rightarrow> bindE (outQueue b remotePid) (peek sz))))"

fun bi_peek_loop :: "nat \<Rightarrow> nat \<Rightarrow> int \<Rightarrow> bi_queue \<Rightarrow> (int \<times> bytes) option outcome" where
  "bi_peek_loop sz 0 pid b = Inr None"
| "bi_peek_loop sz (Suc n) pid b =
     (let pid1 = next_pid b pid
      in bindE (inQueue b pid1) (\<lambda>q. bindE (peek sz q) (\<lambda>v.
           case v of Some x \<Rightarrow> Inr (Some (pid1, x)) | None \<Rightarrow> bi_peek_loop sz n pid1 b)))"

definition bi_peek :: "nat \<Rightarrow> bi_queue \<Rightarrow> (int \<times> bytes) option outcome" where
  "bi_peek sz b = bi_peek_loop sz (nat (remoteGroupSize b)) (theLastPopProcessId b) b"

section \<open>The addressing of the queues\<close>

definition md_ok :: "bi_metadata \<Rightarrow> bool" where
  "md_ok md \<longleftrightarrow> 0 < theGroupASize md \<and> 0 < theGroupBSize md"

lemma row_major_bound:
  fixes i j m n :: int
  assumes "0 \<le> i" "i < m" "0 \<le> j" "j < n"
  shows "0 \<le> i * n + j \<and> i * n + j < m * n"
proof -
  have "(i + 1) * n \<le> m * n" using assms by (intro mult_right_mono) auto
  then show ?thesis using assms by (simp add: algebra_simps)
qed

lemma row_major_div:
  fixes i j n :: int
  assumes "0 \<le> j" "j < n"
  shows "(i * n + j) div n = i"
  using assms by simp

lemma row_major_inj:
  fixes i j i' j' n :: int
  assumes "i * n + j = i' * n + j'" "0 \<le> j" "j < n" "0 \<le> j'" "j' < n"
  shows "i = i' \<and> j = j'"
  using row_major_div [OF assms(2,3), of i] row_major_div [OF assms(4,5), of i'] assms(1) by simp

text \<open>Where each direction of traffic lives: the A-to-B queues first, then the B-to-A queues.\<close>

lemma queue_index_AB:
  "oneToOneQueueIndex md groupA fp groupB tp =
     (if validProcessId md groupA fp \<and> validProcessId md groupB tp
      then Inr ((fp - theGroupAIdOffset md) * theGroupBSize md + (tp - theGroupBIdOffset md))
      else Inl AssertFault)"
  by (simp add: oneToOneQueueIndex_def guardE_def del: validProcessId.simps)

lemma queue_index_BA:
  "oneToOneQueueIndex md groupB fp groupA tp =
     (if validProcessId md groupB fp \<and> validProcessId md groupA tp
      then Inr (theGroupASize md * theGroupBSize md +
                ((tp - theGroupAIdOffset md) * theGroupBSize md + (fp - theGroupBIdOffset md)))
      else Inl AssertFault)"
  by (simp add: oneToOneQueueIndex_def guardE_def del: validProcessId.simps)

lemma queue_cell_bound:
  assumes "validProcessId md groupA p" "validProcessId md groupB q"
  shows "0 \<le> (p - theGroupAIdOffset md) * theGroupBSize md + (q - theGroupBIdOffset md)"
    "(p - theGroupAIdOffset md) * theGroupBSize md + (q - theGroupBIdOffset md)
       < theGroupASize md * theGroupBSize md"
  using assms row_major_bound [of "p - theGroupAIdOffset md" "theGroupASize md"
      "q - theGroupBIdOffset md" "theGroupBSize md"] by auto

lemma queue_cell_inj:
  assumes "validProcessId md groupB q" "validProcessId md groupB q'"
    and "(p - theGroupAIdOffset md) * theGroupBSize md + (q - theGroupBIdOffset md) =
         (p' - theGroupAIdOffset md) * theGroupBSize md + (q' - theGroupBIdOffset md)"
  shows "p = p' \<and> q = q'"
  using row_major_inj [OF assms(3)] assms(1,2) by simp

lemma queue_index_range:
  assumes "validProcessId md fg fp" "validProcessId md tg tp" "fg \<noteq> tg"
  shows "\<exists>i. oneToOneQueueIndex md fg fp tg tp = Inr i \<and> 0 \<le> i \<and>
     i < theGroupASize md * theGroupBSize md * 2"
proof (cases fg)
  case groupA
  with assms have tg: "tg = groupB" by (cases tg) auto
  note c = queue_cell_bound [OF assms(1) [unfolded groupA] assms(2) [unfolded tg]]
  then have "oneToOneQueueIndex md fg fp tg tp =
      Inr ((fp - theGroupAIdOffset md) * theGroupBSize md + (tp - theGroupBIdOffset md))"
    using assms groupA tg by (simp add: queue_index_AB)
  with c show ?thesis by auto
next
  case groupB
  with assms have tg: "tg = groupA" by (cases tg) auto
  note c = queue_cell_bound [OF assms(2) [unfolded tg] assms(1) [unfolded groupB]]
  then have "oneToOneQueueIndex md fg fp tg tp = Inr (theGroupASize md * theGroupBSize md +
                ((tp - theGroupAIdOffset md) * theGroupBSize md + (fp - theGroupBIdOffset md)))"
    using assms groupB tg by (simp add: queue_index_BA)
  with c show ?thesis by auto
qed

lemma queue_index_groups: "oneToOneQueueIndex md fg fp tg tp = Inr i \<Longrightarrow> fg \<noteq> tg"
  by (auto simp: oneToOneQueueIndex_def)

lemma queue_index_inj:
  assumes "oneToOneQueueIndex md fg fp tg tp = Inr i" "oneToOneQueueIndex md fg' fp' tg' tp' = Inr i"
  shows "fg = fg' \<and> fp = fp' \<and> tg = tg' \<and> tp = tp'"
proof -
  consider (aa) "fg = groupA" "tg = groupB" "fg' = groupA" "tg' = groupB"
    | (ab) "fg = groupA" "tg = groupB" "fg' = groupB" "tg' = groupA"
    | (ba) "fg = groupB" "tg = groupA" "fg' = groupA" "tg' = groupB"
    | (bb) "fg = groupB" "tg = groupA" "fg' = groupB" "tg' = groupA"
    using queue_index_groups [OF assms(1)] queue_index_groups [OF assms(2)]
    by (cases fg; cases tg; cases fg'; cases tg') auto
  then show ?thesis
  proof cases
    case aa
    with assms queue_cell_inj [of md tp tp' fp fp'] show ?thesis
      by (simp add: queue_index_AB split: if_splits del: validProcessId.simps)
  next
    case ab
    with assms queue_cell_bound [of md fp tp] queue_cell_bound [of md tp' fp'] show ?thesis
      by (simp add: queue_index_AB queue_index_BA split: if_splits del: validProcessId.simps)
  next
    case ba
    with assms queue_cell_bound [of md tp fp] queue_cell_bound [of md fp' tp'] show ?thesis
      by (simp add: queue_index_AB queue_index_BA split: if_splits del: validProcessId.simps)
  next
    case bb
    with assms queue_cell_inj [of md fp fp' tp tp'] show ?thesis
      by (simp add: queue_index_BA split: if_splits del: validProcessId.simps)
  qed
qed

section \<open>The round-robin pop\<close>

definition bi_ok :: "nat \<Rightarrow> bi_queue \<Rightarrow> bool" where
  "bi_ok sz b \<longleftrightarrow> md_ok (metadata b) \<and>
     int (length (queues b)) = theGroupASize (metadata b) * theGroupBSize (metadata b) * 2 \<and>
     int (length (readers b)) = theGroupASize (metadata b) + theGroupBSize (metadata b) \<and>
     validProcessId (metadata b) (theLocalGroup b) (theLocalProcessId b) \<and>
     remoteGroupIdOffset b \<le> theLastPopProcessId b + 1 \<and>
     (\<forall>q \<in> set (queues b). sz \<le> theMaxItemSize q)"

lemma remote_valid_iff:
  "validProcessId (metadata b) (remoteGroup b) pid \<longleftrightarrow>
     remoteGroupIdOffset b \<le> pid \<and> pid < remoteGroupIdOffset b + remoteGroupSize b"
  by (cases "theLocalGroup b") (auto simp: remoteGroup_def remoteGroupIdOffset_def remoteGroupSize_def)

lemma remote_size_pos: "bi_ok sz b \<Longrightarrow> 0 < remoteGroupSize b"
  by (simp add: bi_ok_def md_ok_def remoteGroupSize_def)

lemma next_pid_valid:
  assumes "bi_ok sz b"
  shows "validProcessId (metadata b) (remoteGroup b) (next_pid b (theLastPopProcessId b))"
  using assms remote_size_pos [OF assms] by (auto simp: remote_valid_iff next_pid_def bi_ok_def)

lemma in_index_ok:
  assumes "bi_ok sz b" "validProcessId (metadata b) (remoteGroup b) pid"
  shows "\<exists>i. in_index b pid = Inr i \<and> 0 \<le> i \<and> i < int (length (queues b))"
proof -
  have "remoteGroup b \<noteq> theLocalGroup b" by (simp add: remoteGroup_def)
  from queue_index_range [OF assms(2) _ this] assms(1) show ?thesis
    unfolding in_index_def bi_ok_def by simp
qed

lemma reader_index_ok:
  assumes "bi_ok sz b" "validProcessId (metadata b) g pid"
  shows "\<exists>r. reader_index b g pid = Inr r \<and> r < length (readers b)"
  using assms by (cases g) (auto simp: reader_index_def readerIndex_def bi_ok_def md_ok_def)

text \<open>The processes visited by one call, in order: \<open>visit b k\<close> is the one tried in iteration \<open>k\<close>.\<close>

definition visit :: "bi_queue \<Rightarrow> nat \<Rightarrow> int" where
  "visit b k = (next_pid b ^^ k) (next_pid b (theLastPopProcessId b))"

lemma next_pid_mod:
  assumes "0 < remoteGroupSize b"
  shows "next_pid b (remoteGroupIdOffset b + x mod remoteGroupSize b) =
         remoteGroupIdOffset b + (x + 1) mod remoteGroupSize b"
proof -
  let ?s = "remoteGroupSize b"
  have m: "0 \<le> x mod ?s" "x mod ?s < ?s" using assms by simp_all
  have e: "(x + 1) mod ?s = (x mod ?s + 1) mod ?s" by presburger
  show ?thesis
  proof (cases "x mod ?s + 1 = ?s")
    case True
    with e show ?thesis by (simp add: next_pid_def)
  next
    case False
    with m have "(x mod ?s + 1) mod ?s = x mod ?s + 1" by (intro mod_pos_pos_trivial) auto
    with e m False show ?thesis by (simp add: next_pid_def)
  qed
qed

lemma visit_mod:
  assumes "bi_ok sz b"
  shows "visit b k = remoteGroupIdOffset b +
    (next_pid b (theLastPopProcessId b) - remoteGroupIdOffset b + int k) mod remoteGroupSize b"
proof (induction k)
  case 0
  from next_pid_valid [OF assms] show ?case by (simp add: visit_def remote_valid_iff)
next
  case (Suc k)
  have "visit b (Suc k) = next_pid b (visit b k)" by (simp add: visit_def)
  with Suc next_pid_mod [OF remote_size_pos [OF assms]] show ?case by (simp add: algebra_simps)
qed

lemma visit_valid: "bi_ok sz b \<Longrightarrow> validProcessId (metadata b) (remoteGroup b) (visit b k)"
  using remote_size_pos [of sz b] by (simp add: visit_mod remote_valid_iff)

lemma visit_all:
  assumes "bi_ok sz b" "validProcessId (metadata b) (remoteGroup b) pid"
  shows "\<exists>k < nat (remoteGroupSize b). visit b k = pid"
proof -
  let ?s = "remoteGroupSize b" and ?o = "remoteGroupIdOffset b"
  let ?j = "next_pid b (theLastPopProcessId b) - ?o" and ?t = "pid - ?o"
  let ?k = "nat ((?t - ?j) mod ?s)"
  have s: "0 < ?s" using assms(1) by (rule remote_size_pos)
  have "(?j + (?t - ?j) mod ?s) mod ?s = ?t mod ?s" by (metis add.commute diff_add_cancel mod_add_left_eq)
  also have "\<dots> = ?t" using assms(2) by (simp add: remote_valid_iff)
  finally have "visit b ?k = pid" using s by (simp add: visit_mod [OF assms(1)])
  moreover have "?k < nat ?s" using s by simp
  ultimately show ?thesis by blast
qed

definition same_end :: "bi_queue \<Rightarrow> bi_queue \<Rightarrow> bool" where
  "same_end b b' \<longleftrightarrow> metadata b' = metadata b \<and> theLocalGroup b' = theLocalGroup b \<and>
     theLocalProcessId b' = theLocalProcessId b \<and> length (readers b') = length (readers b)"

lemma same_end_simps:
  assumes "same_end b b'"
  shows "remoteGroup b' = remoteGroup b" "remoteGroupSize b' = remoteGroupSize b"
    "remoteGroupIdOffset b' = remoteGroupIdOffset b" "in_index b' = in_index b" "next_pid b' = next_pid b"
  using assms by (auto simp: same_end_def remoteGroup_def remoteGroupSize_def remoteGroupIdOffset_def
      in_index_def next_pid_def)

text \<open>What one iteration that finds its queue empty leaves behind.\<close>

lemma empty_iteration:
  assumes "bi_ok sz b" "b1 = b\<lparr>readers := (readers b)[r := rd], theLastPopProcessId := visit b 0\<rparr>"
  shows "bi_ok sz b1" "same_end b b1" "queues b1 = queues b" "visit b1 k = visit b (Suc k)"
proof -
  show se: "same_end b b1" and "queues b1 = queues b" using assms(2) by (simp_all add: same_end_def)
  show "bi_ok sz b1"
    using assms(1,2) visit_valid [OF assms(1), of 0] same_end_simps(3) [OF se]
    by (simp add: bi_ok_def remote_valid_iff)
  show "visit b1 k = visit b (Suc k)"
    unfolding visit_def same_end_simps(5) [OF se]
    using assms(2) by (simp add: visit_def funpow_swap1)
qed

lemma bi_pop_loop_spec:
  assumes "bi_ok sz b" "r < length (readers b)"
  shows "\<exists>v b'. bi_pop_loop sz r n b = Inr (v, b') \<and> same_end b b' \<and>
    (case v of
       None \<Rightarrow> bi_ok sz b' \<and> queues b' = queues b \<and>
               (\<forall>k < n. \<exists>q. inQueue b (visit b k) = Inr q \<and> queue_empty q)
     | Some (p, x) \<Rightarrow> \<exists>k i q. k < n \<and> p = visit b k \<and> in_index b p = Inr i \<and> queues_at (queues b) i = Inr q \<and>
         \<not> queue_empty q \<and> x = fst (take_item sz q) \<and>
         queues b' = (queues b)[nat i := resize (- 1) (snd (take_item sz q))])"
  using assms
proof (induction n arbitrary: b)
  case 0
  then show ?case by (simp add: same_end_def)
next
  case (Suc n)
  note v0 = visit_valid [OF Suc.prems(1), of 0]
  have nx: "next_pid b (theLastPopProcessId b) = visit b 0" by (simp add: visit_def)
  obtain i where i: "in_index b (visit b 0) = Inr i" "0 \<le> i" "i < int (length (queues b))"
    using in_index_ok [OF Suc.prems(1) v0] by blast
  define q where "q = queues b ! nat i"
  have q: "queues_at (queues b) i = Inr q" "inQueue b (visit b 0) = Inr q"
    using i by (simp_all add: queues_at_def q_def inQueue_def)
  have fit: "sz \<le> theMaxItemSize q"
  proof -
    have "q \<in> set (queues b)" using i(2,3) by (simp add: q_def nat_less_iff)
    with Suc.prems(1) show ?thesis by (simp add: bi_ok_def)
  qed
  show ?case
  proof (cases "queue_empty q")
    case True
    define b1 where "b1 = b\<lparr>readers := (readers b)[r := block (readers b ! r)], theLastPopProcessId := visit b 0\<rparr>"
    note e = empty_iteration [OF Suc.prems(1) b1_def]
    have upd: "(queues b)[nat i := q] = queues b" using q_def by simp
    have loop: "bi_pop_loop sz r (Suc n) b = bi_pop_loop sz r n b1"
      using True fit i(1) q(1) by (simp add: nx pop_def b1_def upd)
    have "r < length (readers b1)" using Suc.prems(2) by (simp add: b1_def)
    from Suc.IH [OF e(1) this] obtain v b' where ih: "bi_pop_loop sz r n b1 = Inr (v, b')" "same_end b1 b'"
      "case v of
       None \<Rightarrow> bi_ok sz b' \<and> queues b' = queues b1 \<and>
               (\<forall>k < n. \<exists>q. inQueue b1 (visit b1 k) = Inr q \<and> queue_empty q)
     | Some (p, x) \<Rightarrow> \<exists>k i q. k < n \<and> p = visit b1 k \<and> in_index b1 p = Inr i \<and> queues_at (queues b1) i = Inr q \<and>
         \<not> queue_empty q \<and> x = fst (take_item sz q) \<and>
         queues b' = (queues b1)[nat i := resize (- 1) (snd (take_item sz q))]" by blast
    have inq: "inQueue b1 = inQueue b" using e(2,3) by (simp add: inQueue_def same_end_simps fun_eq_iff)
    have "same_end b b'" using e(2) ih(2) by (simp add: same_end_def)
    with loop ih q(2) True inq show ?thesis
      by (auto simp: e(3,4) same_end_simps(4) [OF e(2)] All_less_Suc2 split: option.splits)
  next
    case False
    then have "bi_pop_loop sz r (Suc n) b = Inr (Some (visit b 0, fst (take_item sz q)),
       b\<lparr>queues := (queues b)[nat i := resize (- 1) (snd (take_item sz q))],
         readers := (readers b)[r := unblock (readers b ! r)], theLastPopProcessId := visit b 0\<rparr>)"
      using fit i(1) q(1) by (simp add: nx pop_def case_prod_unfold Let_def)
    then show ?thesis using False i(1) q(1) by (auto simp: same_end_def)
  qed
qed

section \<open>Properties of the two-group queue\<close>

text \<open>
  The addressing of the two-group queue is sound: for any two processes of different groups with valid
  identifiers \<^verbatim>\<open>oneToOneQueueIndex()\<close> raises nothing and stays within the \<open>2 * A * B\<close> queues, and two
  different (sender, receiver) pairs never share a queue, which is what makes every queue
  single-writer and single-reader.
\<close>

theorem bi_queue_addressing:
  assumes "fg \<noteq> tg" "validProcessId md fg fp" "validProcessId md tg tp"
    and "fg' \<noteq> tg'" "validProcessId md fg' fp'" "validProcessId md tg' tp'"
  shows "\<exists>i j. oneToOneQueueIndex md fg fp tg tp = Inr i \<and> oneToOneQueueIndex md fg' fp' tg' tp' = Inr j \<and>
     0 \<le> i \<and> i < theGroupASize md * theGroupBSize md * 2 \<and>
     (i = j \<longleftrightarrow> (fg, fp, tg, tp) = (fg', fp', tg', tp'))"
proof -
  obtain i where i: "oneToOneQueueIndex md fg fp tg tp = Inr i" "0 \<le> i"
      "i < theGroupASize md * theGroupBSize md * 2"
    using queue_index_range [OF assms(2,3,1)] by blast
  obtain j where j: "oneToOneQueueIndex md fg' fp' tg' tp' = Inr j"
    using queue_index_range [OF assms(5,6,4)] by blast
  have "i = j \<longleftrightarrow> (fg, fp, tg, tp) = (fg', fp', tg', tp')"
    using i(1) j queue_index_inj by auto
  with i j show ?thesis by blast
qed

definition demo_metadata :: bi_metadata where
  "demo_metadata = \<lparr>theGroupASize = 3, theGroupAIdOffset = 1, theGroupBSize = 2, theGroupBIdOffset = 4\<rparr>"

theorem bi_queue_addressing_witness:
  "oneToOneQueueIndex demo_metadata groupA 3 groupB 4 \<noteq> oneToOneQueueIndex demo_metadata groupB 4 groupA 3"
proof -
  have v: "validProcessId demo_metadata groupA 3" "validProcessId demo_metadata groupB 4"
    by (simp_all add: demo_metadata_def)
  have "groupA \<noteq> groupB" "groupB \<noteq> groupA" by simp_all
  from bi_queue_addressing [OF this(1) v this(2) v(2,1)] show ?thesis by auto
qed

text \<open>
  \<^verbatim>\<open>FewToFewBiQueue::pop()\<close> misses nothing and disturbs nothing: on a well-formed queue it raises nothing;
  when it returns false, the incoming queue from every remote process is empty and no queue
  has changed; when it returns true, the value is the head of the non-empty queue of the process it
  reports, and only that queue changes, by losing that item.
\<close>

theorem bi_queue_pop_complete:
  assumes "bi_ok sz b"
  shows "\<exists>v b'. bi_pop sz b = Inr (v, b') \<and>
    (case v of
       None \<Rightarrow> queues b' = queues b \<and>
         (\<forall>p. validProcessId (metadata b) (remoteGroup b) p \<longrightarrow> (\<exists>q. inQueue b p = Inr q \<and> queue_empty q))
     | Some (p, x) \<Rightarrow> validProcessId (metadata b) (remoteGroup b) p \<and>
         (\<exists>i q. in_index b p = Inr i \<and> queues_at (queues b) i = Inr q \<and> \<not> queue_empty q \<and>
            x = fst (take_item sz q) \<and>
            queues b' = (queues b)[nat i := resize (- 1) (snd (take_item sz q))]))"
proof -
  have "validProcessId (metadata b) (theLocalGroup b) (theLocalProcessId b)"
    using assms by (simp add: bi_ok_def)
  from reader_index_ok [OF assms this] obtain r
    where r: "reader_index b (theLocalGroup b) (theLocalProcessId b) = Inr r" "r < length (readers b)" by blast
  from bi_pop_loop_spec [OF assms r(2), of "nat (remoteGroupSize b)"] obtain v b'
    where loop: "bi_pop_loop sz r (nat (remoteGroupSize b)) b = Inr (v, b')"
      "case v of
       None \<Rightarrow> bi_ok sz b' \<and> queues b' = queues b \<and>
               (\<forall>k < nat (remoteGroupSize b). \<exists>q. inQueue b (visit b k) = Inr q \<and> queue_empty q)
     | Some (p, x) \<Rightarrow> \<exists>k i q. k < nat (remoteGroupSize b) \<and> p = visit b k \<and> in_index b p = Inr i \<and>
         queues_at (queues b) i = Inr q \<and> \<not> queue_empty q \<and> x = fst (take_item sz q) \<and>
         queues b' = (queues b)[nat i := resize (- 1) (snd (take_item sz q))]" by blast
  have "bi_pop sz b = Inr (v, b')" using r(1) loop(1) by (simp add: bi_pop_def)
  moreover have "validProcessId (metadata b) (remoteGroup b) (visit b k)" for k
    using assms by (rule visit_valid)
  moreover have "\<exists>q. inQueue b p = Inr q \<and> queue_empty q"
    if "v = None" "validProcessId (metadata b) (remoteGroup b) p" for p
    using visit_all [OF assms that(2)] loop(2) that(1) by auto
  ultimately show ?thesis using loop(2) by (auto split: option.splits)
qed

definition demo_bi_queue :: bi_queue where
  "demo_bi_queue = \<lparr>metadata = demo_metadata,
     queues = (replicate 12 small_queue)[1 := small_queue\<lparr>theIn := 1, theSize := 1, theBuffer := [7, 0]\<rparr>],
     readers = replicate 5 new_reader, theLocalGroup = groupB, theLocalProcessId = 5,
     theLastPopProcessId = 5\<rparr>"

theorem bi_queue_pop_complete_witness:
  "bi_ok 1 demo_bi_queue \<and> (\<exists>p x b'. bi_pop 1 demo_bi_queue = Inr (Some (p, x), b'))"
proof -
  have ok: "bi_ok 1 demo_bi_queue"
    by (simp add: bi_ok_def md_ok_def demo_bi_queue_def demo_metadata_def small_queue_def
        remoteGroupIdOffset_def numeral_eq_Suc)
  have one: "validProcessId (metadata demo_bi_queue) (remoteGroup demo_bi_queue) 1"
    "\<exists>q. inQueue demo_bi_queue 1 = Inr q \<and> \<not> queue_empty q"
    by (simp_all add: demo_bi_queue_def demo_metadata_def remoteGroup_def inQueue_def in_index_def
        oneToOneQueueIndex_def queues_at_def queue_empty_def)
  from bi_queue_pop_complete [OF ok] obtain v b' where r: "bi_pop 1 demo_bi_queue = Inr (v, b')"
    "v = None \<Longrightarrow> \<exists>q. inQueue demo_bi_queue 1 = Inr q \<and> queue_empty q"
    using one(1) by (auto split: option.splits)
  have "v \<noteq> None"
  proof
    assume "v = None"
    from r(2) [OF this] one(2) show False by auto
  qed
  then obtain p x where "v = Some (p, x)" by auto
  with r(1) ok show ?thesis by auto
qed

text \<open>Sizing of a queue from a memory budget: the items that fit are as many as the bytes allow.\<close>

lemma Bytes2Items_Items2Bytes:
  assumes "0 < m" "0 \<le> n" "Items2Bytes hdr m n = Inr b"
  shows "Bytes2Items hdr m b = Inr n"
proof -
  have b: "b = hdr + m * n" using assms by (simp add: Items2Bytes_def guardE_def split: if_splits)
  have "0 \<le> m * n" using assms by simp
  with b assms(1) show ?thesis by (simp add: Bytes2Items_def)
qed

lemma Bytes2Items_fits:
  assumes "0 < m" "hdr \<le> b" "Bytes2Items hdr m b = Inr n" "Items2Bytes hdr m n = Inr b'"
  shows "b' \<le> b \<and> b < b' + m"
proof -
  have n: "n = (b - hdr) div m" and "b' = hdr + m * n"
    using assms by (auto simp: Items2Bytes_def Bytes2Items_def guardE_def split: if_splits)
  then have "b' = hdr + m * ((b - hdr) div m)" by simp
  moreover have "m * ((b - hdr) div m) + (b - hdr) mod m = b - hdr" by simp
  moreover have "0 \<le> (b - hdr) mod m" "(b - hdr) mod m < m" using assms(1) by simp_all
  ultimately show ?thesis by arith
qed

end
