(* ===== verification/Page_Stack.thy ===== *)
theory Page_Stack
  imports Squid_Prelude
begin

text \<open>
  The index of free shared-memory pages of \<^verbatim>\<open>src/ipc/mem/PageStack.cc\<close> and the pool of
  \<^verbatim>\<open>src/ipc/mem/PagePool.cc\<close> on top of it.  Any number of processes call \<^verbatim>\<open>pop()\<close> and \<^verbatim>\<open>push()\<close> at
  once; \<open>ps_step\<close> has one transition per atomic access of those loops.
\<close>

section \<open>The stack\<close>

record page_stack =
  theCapacity :: nat
  theSize :: int
  theLastReadable :: nat
  theFirstWritable :: nat
  theItems :: "nat list"

definition next_idx :: "nat \<Rightarrow> nat \<Rightarrow> nat" where
  "next_idx cap idx = (idx + 1) mod cap"

definition prev_idx :: "nat \<Rightarrow> nat \<Rightarrow> nat" where
  "prev_idx cap idx = (cap + idx - 1) mod cap"

definition new_stack :: "nat \<Rightarrow> page_stack" where
  "new_stack cap = \<lparr>theCapacity = cap, theSize = int cap, theLastReadable = prev_idx cap cap,
     theFirstWritable = next_idx cap (prev_idx cap cap), theItems = map Suc [0..<cap]\<rparr>"

definition ps_size :: "page_stack \<Rightarrow> int" where
  "ps_size s = max 0 (theSize s)"

section \<open>Processes inside the two loops\<close>

text \<open>
  Where a process stands: the constructor names the access it performs next, with the local
  variables of the routine.  \<open>PushFault\<close> is the \<^verbatim>\<open>Must(false)\<close> at the end of \<^verbatim>\<open>push()\<close>.
\<close>

datatype pspc =
    Idle
  | PopTest | PopRead | PopFetch nat | PopSwap nat nat | PopHint nat nat | PopUndo
  | PushTest nat | PushRead nat | PushItem nat nat | PushSwap nat nat bool | PushHint nat | PushInc
  | PushFault nat

record ps_proc =
  pc :: pspc
  held :: "nat list"

record ps_sys =
  stk :: page_stack
  procs :: "ps_proc list"

definition swap_hint :: "nat \<Rightarrow> nat \<Rightarrow> nat \<Rightarrow> nat" where
  "swap_hint comparand replacement v = (if v = comparand then replacement else v)"

text \<open>The next access of \<^verbatim>\<open>pop()\<close>; \<^verbatim>\<open>Must(!page)\<close> holds because the caller passes a fresh page identifier.\<close>

fun pop_access :: "pspc \<Rightarrow> nat list \<Rightarrow> page_stack \<Rightarrow> (pspc \<times> nat list \<times> page_stack) option" where
  "pop_access Idle h s = Some (PopTest, h, s\<lparr>theSize := theSize s - 1\<rparr>)"
| "pop_access PopTest h s = Some (if theSize s \<ge> 0 then PopRead else PopUndo, h, s)"
| "pop_access PopRead h s = Some (PopFetch (theLastReadable s), h, s)"
| "pop_access (PopFetch idx) h s =
     Some (PopSwap idx (theItems s ! idx), h, s\<lparr>theItems := (theItems s)[idx := 0]\<rparr>)"
| "pop_access (PopSwap idx v) h s =
     Some (if v \<noteq> 0 then PopHint idx v else PopTest, h,
           s\<lparr>theLastReadable := swap_hint idx (prev_idx (theCapacity s) idx) (theLastReadable s)\<rparr>)"
| "pop_access (PopHint idx v) h s = Some (Idle, v # h, s\<lparr>theFirstWritable := idx\<rparr>)"
| "pop_access PopUndo h s = Some (Idle, h, s\<lparr>theSize := theSize s + 1\<rparr>)"
| "pop_access _ h s = None"

text \<open>The next access of \<^verbatim>\<open>push()\<close>, which starts with a page the process holds.\<close>

fun push_access :: "pspc \<Rightarrow> nat list \<Rightarrow> page_stack \<Rightarrow> (pspc \<times> nat list \<times> page_stack) option" where
  "push_access (PushTest n) h s =
     Some (if theSize s < int (theCapacity s) then PushRead n else PushFault n, h, s)"
| "push_access (PushRead n) h s = Some (PushItem (theFirstWritable s) n, h, s)"
| "push_access (PushItem idx n) h s =
     (if theItems s ! idx = 0
      then Some (PushSwap idx n True, h, s\<lparr>theItems := (theItems s)[idx := n]\<rparr>)
      else Some (PushSwap idx n False, h, s))"
| "push_access (PushSwap idx n pushed) h s =
     Some (if pushed then PushHint idx else PushTest n, h,
           s\<lparr>theFirstWritable := swap_hint idx (next_idx (theCapacity s) idx) (theFirstWritable s)\<rparr>)"
| "push_access (PushHint idx) h s = Some (PushInc, h, s\<lparr>theLastReadable := idx\<rparr>)"
| "push_access PushInc h s = Some (Idle, h, s\<lparr>theSize := theSize s + 1\<rparr>)"
| "push_access _ h s = None"

inductive ps_step :: "ps_sys \<Rightarrow> ps_sys \<Rightarrow> bool" where
  popping: "i < length (procs w) \<Longrightarrow>
     pop_access (pc (procs w ! i)) (held (procs w ! i)) (stk w) = Some (c, h, s) \<Longrightarrow>
     ps_step w (w\<lparr>stk := s, procs := (procs w)[i := \<lparr>pc = c, held = h\<rparr>]\<rparr>)"
| pushing: "i < length (procs w) \<Longrightarrow>
     push_access (pc (procs w ! i)) (held (procs w ! i)) (stk w) = Some (c, h, s) \<Longrightarrow>
     ps_step w (w\<lparr>stk := s, procs := (procs w)[i := \<lparr>pc = c, held = h\<rparr>]\<rparr>)"
| giving: "i < length (procs w) \<Longrightarrow> pc (procs w ! i) = Idle \<Longrightarrow> n \<in> set (held (procs w ! i)) \<Longrightarrow>
     ps_step w (w\<lparr>procs := (procs w)[i := \<lparr>pc = PushTest n, held = remove1 n (held (procs w ! i))\<rparr>]\<rparr>)"

definition init_sys :: "nat \<Rightarrow> nat \<Rightarrow> ps_sys" where
  "init_sys cap n = \<lparr>stk = new_stack cap, procs = replicate n \<lparr>pc = Idle, held = []\<rparr>\<rparr>"

section \<open>Where a page is\<close>

definition here :: "nat \<Rightarrow> nat \<Rightarrow> nat" where
  "here k v = (if v = k then 1 else 0)"

fun in_transit :: "nat \<Rightarrow> pspc \<Rightarrow> nat" where
  "in_transit k (PopSwap idx v) = here k v"
| "in_transit k (PopHint idx v) = here k v"
| "in_transit k (PushTest n) = here k n"
| "in_transit k (PushRead n) = here k n"
| "in_transit k (PushItem idx n) = here k n"
| "in_transit k (PushSwap idx n True) = 0"
| "in_transit k (PushSwap idx n False) = here k n"
| "in_transit k (PushFault n) = here k n"
| "in_transit k _ = 0"

definition carried :: "nat \<Rightarrow> ps_proc \<Rightarrow> nat" where
  "carried k p = in_transit k (pc p) + sum_list (map (here k) (held p))"

definition stored :: "nat \<Rightarrow> page_stack \<Rightarrow> nat" where
  "stored k s = sum_list (map (here k) (theItems s))"

text \<open>What a process owes to \<^verbatim>\<open>theSize\<close>: the pages it holds and the operation it is in.\<close>

definition debt :: "ps_proc \<Rightarrow> nat" where
  "debt p = length (held p) + (if pc p = Idle then 0 else 1)"

fun pc_ok :: "nat \<Rightarrow> pspc \<Rightarrow> bool" where
  "pc_ok cap (PopFetch idx) \<longleftrightarrow> idx < cap"
| "pc_ok cap (PopSwap idx v) \<longleftrightarrow> idx < cap"
| "pc_ok cap (PopHint idx v) \<longleftrightarrow> idx < cap \<and> v \<noteq> 0"
| "pc_ok cap (PushTest n) \<longleftrightarrow> n \<noteq> 0"
| "pc_ok cap (PushRead n) \<longleftrightarrow> n \<noteq> 0"
| "pc_ok cap (PushItem idx n) \<longleftrightarrow> idx < cap \<and> n \<noteq> 0"
| "pc_ok cap (PushSwap idx n pushed) \<longleftrightarrow> idx < cap \<and> n \<noteq> 0"
| "pc_ok cap (PushHint idx) \<longleftrightarrow> idx < cap"
| "pc_ok cap (PushFault n) \<longleftrightarrow> False"
| "pc_ok cap _ \<longleftrightarrow> True"

definition ps_inv :: "nat \<Rightarrow> ps_sys \<Rightarrow> bool" where
  "ps_inv cap w \<longleftrightarrow> 0 < cap \<and> theCapacity (stk w) = cap \<and> length (theItems (stk w)) = cap \<and>
     theLastReadable (stk w) < cap \<and> theFirstWritable (stk w) < cap \<and>
     (\<forall>p \<in> set (procs w). pc_ok cap (pc p) \<and> 0 \<notin> set (held p)) \<and>
     theSize (stk w) + int (sum_list (map debt (procs w))) = int cap \<and>
     (\<forall>k. k \<noteq> 0 \<longrightarrow> stored k (stk w) + sum_list (map (carried k) (procs w)) = (if k \<le> cap then 1 else 0))"

section \<open>Every access keeps the accounts\<close>

text \<open>What an access must guarantee for the invariant, about the one process and the stack only.\<close>

definition fair_trade :: "nat \<Rightarrow> ps_proc \<Rightarrow> page_stack \<Rightarrow> ps_proc \<Rightarrow> page_stack \<Rightarrow> bool" where
  "fair_trade cap p s p' s' \<longleftrightarrow>
     theCapacity s' = cap \<and> length (theItems s') = cap \<and> theLastReadable s' < cap \<and>
     theFirstWritable s' < cap \<and> pc_ok cap (pc p') \<and> 0 \<notin> set (held p') \<and>
     theSize s' + int (debt p') = theSize s + int (debt p) \<and>
     (\<forall>k. k \<noteq> 0 \<longrightarrow> stored k s' + carried k p' = stored k s + carried k p)"

lemma fair_trade_inv:
  assumes "ps_inv cap w" "i < length (procs w)" "fair_trade cap (procs w ! i) (stk w) p' s'"
  shows "ps_inv cap (w\<lparr>stk := s', procs := (procs w)[i := p']\<rparr>)"
proof -
  let ?ps = "procs w" and ?ps' = "(procs w)[i := p']"
  have "\<forall>p \<in> set ?ps'. pc_ok cap (pc p) \<and> 0 \<notin> set (held p)"
    using assms set_update_subset_insert [of ?ps i p'] by (auto simp: ps_inv_def fair_trade_def)
  moreover have "theSize s' + int (sum_list (map debt ?ps')) = int cap"
    using assms sum_list_update_add [OF assms(2), of debt p'] by (simp add: ps_inv_def fair_trade_def)
  moreover have "stored k s' + sum_list (map (carried k) ?ps') = (if k \<le> cap then 1 else 0)" if "k \<noteq> 0" for k
  proof -
    have "stored k s' + carried k p' = stored k (stk w) + carried k (?ps ! i)"
      and "stored k (stk w) + sum_list (map (carried k) ?ps) = (if k \<le> cap then 1 else 0)"
      using assms that by (auto simp: ps_inv_def fair_trade_def)
    with sum_list_update_add [OF assms(2), of "carried k" p'] show ?thesis by linarith
  qed
  ultimately show ?thesis using assms by (simp add: ps_inv_def fair_trade_def)
qed

lemma stored_update:
  "idx < length (theItems s) \<Longrightarrow>
   stored k (s\<lparr>theItems := (theItems s)[idx := v]\<rparr>) + here k (theItems s ! idx) = stored k s + here k v"
  using sum_list_update_add [of idx "theItems s" "here k" v] by (simp add: stored_def)

lemma stored_keep [simp]:
  "stored k (s\<lparr>theSize := a\<rparr>) = stored k s" "stored k (s\<lparr>theLastReadable := b\<rparr>) = stored k s"
  "stored k (s\<lparr>theFirstWritable := b\<rparr>) = stored k s"
  by (simp_all add: stored_def)

lemma here_zero [simp]: "k \<noteq> 0 \<Longrightarrow> here k 0 = 0" "0 < k \<Longrightarrow> here k 0 = 0"
  by (simp_all add: here_def)

lemma stored_put:
  assumes "idx < length (theItems s)" "theItems s ! idx = 0" "0 < k"
  shows "stored k (s\<lparr>theItems := (theItems s)[idx := v]\<rparr>) = stored k s + here k v"
  using stored_update [OF assms(1), of k v] assms by simp

lemma idx_range [simp]: "0 < cap \<Longrightarrow> next_idx cap i < cap" "0 < cap \<Longrightarrow> prev_idx cap i < cap"
  by (simp_all add: next_idx_def prev_idx_def)

lemma swap_hint_range [simp]: "a < cap \<Longrightarrow> b < cap \<Longrightarrow> swap_hint c a b < cap"
  by (simp add: swap_hint_def)

definition stack_ok :: "nat \<Rightarrow> page_stack \<Rightarrow> bool" where
  "stack_ok cap s \<longleftrightarrow> 0 < cap \<and> theCapacity s = cap \<and> length (theItems s) = cap \<and>
     theLastReadable s < cap \<and> theFirstWritable s < cap"

lemma pop_access_fair:
  assumes "stack_ok cap s" "pc_ok cap (pc p)" "0 \<notin> set (held p)"
    and "pop_access (pc p) (held p) s = Some (c, h, s')"
  shows "fair_trade cap p s \<lparr>pc = c, held = h\<rparr> s'"
proof (cases "pc p")
  case (PopFetch idx)
  with assms stored_update [of idx s _ 0] show ?thesis
    by (auto simp: fair_trade_def stack_ok_def debt_def carried_def)
qed (use assms in \<open>auto simp: fair_trade_def stack_ok_def debt_def carried_def split: if_splits\<close>)

lemma push_access_fair:
  assumes "stack_ok cap s" "pc_ok cap (pc p)" "0 \<notin> set (held p)" "pc p \<noteq> Idle \<Longrightarrow> theSize s < int cap"
    and "push_access (pc p) (held p) s = Some (c, h, s')"
  shows "fair_trade cap p s \<lparr>pc = c, held = h\<rparr> s'"
proof (cases "pc p")
  case (PushItem idx n)
  with assms show ?thesis
    by (auto simp: fair_trade_def stack_ok_def debt_def carried_def stored_put split: if_splits)
qed (use assms in \<open>auto simp: fair_trade_def stack_ok_def debt_def carried_def split: if_splits\<close>)

lemma sum_here_remove1:
  "n \<in> set h \<Longrightarrow> sum_list (map (here k) (remove1 n h)) + here k n = sum_list (map (here k) h)"
  by (induction h) (auto simp: ac_simps)

lemma giving_fair:
  assumes "stack_ok cap s" "pc p = Idle" "n \<in> set (held p)" "0 \<notin> set (held p)"
  shows "fair_trade cap p s \<lparr>pc = PushTest n, held = remove1 n (held p)\<rparr> s"
proof -
  have "n \<noteq> 0" using assms by metis
  moreover have "0 < length (held p)" using assms by (cases "held p") auto
  ultimately show ?thesis
    using assms sum_here_remove1 [OF assms(3)]
    by (auto simp: fair_trade_def stack_ok_def debt_def carried_def length_remove1 ac_simps
        dest: notin_set_remove1)
qed

lemma busy_size:
  assumes "ps_inv cap w" "i < length (procs w)" "pc (procs w ! i) \<noteq> Idle"
  shows "theSize (stk w) < int cap"
  using assms sum_list_at_le [OF assms(2), of debt] by (auto simp: ps_inv_def debt_def)

lemma ps_step_inv:
  assumes "ps_inv cap w" "ps_step w w'"
  shows "ps_inv cap w'"
proof -
  have ok: "stack_ok cap (stk w)" using assms(1) by (simp add: ps_inv_def stack_ok_def)
  have pr: "pc_ok cap (pc (procs w ! i))" "0 \<notin> set (held (procs w ! i))" if "i < length (procs w)" for i
    using assms(1) that by (auto simp: ps_inv_def)
  from assms(2) show ?thesis
  proof cases
    case (popping i c h s)
    with pop_access_fair [OF ok pr] fair_trade_inv [OF assms(1)] show ?thesis by blast
  next
    case (pushing i c h s)
    with push_access_fair [OF ok pr busy_size [OF assms(1)]] fair_trade_inv [OF assms(1)]
    show ?thesis by blast
  next
    case (giving i n)
    with giving_fair [OF ok _ _ pr(2)] fair_trade_inv [OF assms(1), of i _ "stk w"]
    show ?thesis by simp
  qed
qed

lemma stored_new: "stored k (new_stack cap) = (if 0 < k \<and> k \<le> cap then 1 else 0)"
proof (induction cap)
  case (Suc n)
  then show ?case by (auto simp: stored_def new_stack_def here_def)
qed (auto simp: stored_def new_stack_def)

lemma init_sys_inv: "0 < cap \<Longrightarrow> ps_inv cap (init_sys cap n)"
  by (auto simp: ps_inv_def init_sys_def new_stack_def debt_def stored_new [unfolded new_stack_def]
      carried_def sum_list_replicate)

interpretation pstk: invariant_system "\<lambda>w. \<exists>n. 0 < cap \<and> w = init_sys cap n" ps_step "ps_inv cap"
  by unfold_locales (auto intro: init_sys_inv ps_step_inv)

section \<open>Consequences of the accounts\<close>

lemma sum_here_pos: "k \<in> set h \<Longrightarrow> 0 < sum_list (map (here k) h)"
  by (induction h) (auto simp: here_def)

lemma sum_here_count: "sum_list (map (here k) h) = count_list h k"
  by (induction h) (auto simp: here_def)

lemma carried_held: "k \<in> set (held p) \<Longrightarrow> 0 < carried k p"
  by (simp add: carried_def sum_here_pos)

lemma one_place:
  assumes "ps_inv cap w" "0 < k" "k \<le> cap"
  shows "stored k (stk w) + sum_list (map (carried k) (procs w)) = 1"
  using assms by (simp add: ps_inv_def)

lemma held_in_range:
  assumes "ps_inv cap w" "i < length (procs w)" "k \<in> set (held (procs w ! i))"
  shows "0 < k \<and> k \<le> cap"
proof -
  have nz: "0 < k" using assms by (auto simp: ps_inv_def intro: Suc_leI dest!: nth_mem intro!: gr0I)
  have "0 < carried k (procs w ! i)" using assms(3) by (rule carried_held)
  with sum_list_at_le [OF assms(2), of "carried k"] have "0 < sum_list (map (carried k) (procs w))" by simp
  moreover have "stored k (stk w) + sum_list (map (carried k) (procs w)) = (if k \<le> cap then 1 else 0)"
    using assms(1) nz unfolding ps_inv_def by blast
  ultimately show ?thesis using nz by (auto split: if_splits simp del: sum_list_eq_0_iff add_is_0)
qed

lemma held_exclusive:
  assumes "ps_inv cap w" "i < length (procs w)" "k \<in> set (held (procs w ! i))"
  shows "stored k (stk w) = 0" "j < length (procs w) \<Longrightarrow> j \<noteq> i \<Longrightarrow> carried k (procs w ! j) = 0"
    "carried k (procs w ! i) = 1"
proof -
  have k: "0 < carried k (procs w ! i)" using assms(3) by (rule carried_held)
  have one: "stored k (stk w) + sum_list (map (carried k) (procs w)) = 1"
    using one_place [OF assms(1)] held_in_range [OF assms] by simp
  note le = sum_list_at_le [OF assms(2), of "carried k"]
  from k one le show "stored k (stk w) = 0" "carried k (procs w ! i) = 1" by linarith+
  show "carried k (procs w ! j) = 0" if "j < length (procs w)" "j \<noteq> i"
    using sum_list_two_le [OF that(1) assms(2) that(2), of "carried k"] k one by linarith
qed

text \<open>The number of free pages, summed over the page numbers.\<close>

lemma sum_stored:
  "(\<Sum>k = 1..cap. stored k s) = length (filter (\<lambda>v. 0 < v \<and> v \<le> cap) (theItems s))"
proof -
  have "(\<Sum>k = 1..cap. sum_list (map (here k) vs)) = length (filter (\<lambda>v. 0 < v \<and> v \<le> cap) vs)" for vs
  proof (induction vs)
    case (Cons v vs)
    have "(\<Sum>k = 1..cap. here k v) = (if 0 < v \<and> v \<le> cap then 1 else 0)"
      by (simp add: here_def sum.delta' Suc_le_eq)
    with Cons show ?case by (simp add: sum.distrib)
  qed simp
  then show ?thesis by (simp add: stored_def)
qed

lemma sum_in_transit: "(\<Sum>k = 1..cap. in_transit k c) \<le> (if c = Idle then 0 else 1)"
proof -
  have "(\<Sum>k = 1..cap. here k v) \<le> 1" for v by (simp add: here_def sum.delta')
  then show ?thesis by (cases "(1::nat, c)" rule: in_transit.cases) auto
qed

lemma sum_carried: "(\<Sum>k = 1..cap. carried k p) \<le> debt p"
proof -
  have "(\<Sum>k = 1..cap. sum_list (map (here k) h)) \<le> length h" for h
  proof (induction h)
    case (Cons v h)
    have "(\<Sum>k = 1..cap. here k v) \<le> 1" by (simp add: here_def sum.delta')
    with Cons show ?case by (simp add: sum.distrib)
  qed simp
  from add_mono [OF sum_in_transit this] show ?thesis
    unfolding carried_def debt_def sum.distrib by (simp add: add.commute)
qed

lemma sum_carried_list: "(\<Sum>k = 1..cap. sum_list (map (carried k) ps)) \<le> sum_list (map debt ps)"
proof (induction ps)
  case (Cons p ps)
  with sum_carried [where p = p and cap = cap] show ?case by (simp add: sum.distrib)
qed simp

lemma filter_length_mono:
  "(\<And>v. P v \<Longrightarrow> Q v) \<Longrightarrow> length (filter P vs) \<le> length (filter Q vs)"
  by (induction vs) (auto intro: le_SucI)

lemma free_pages_bound:
  assumes "ps_inv cap w"
  shows "theSize (stk w) \<le> int (length (filter (\<lambda>v. v \<noteq> 0) (theItems (stk w))))"
proof -
  let ?f = "\<Sum>k = 1..cap. stored k (stk w)" and ?c = "\<Sum>k = 1..cap. sum_list (map (carried k) (procs w))"
  have "?f + ?c = (\<Sum>k = 1..cap. 1)"
    unfolding sum.distrib [symmetric] using one_place [OF assms] by (intro sum.cong) auto
  then have "?f + ?c = cap" by simp
  moreover have "theSize (stk w) + int (sum_list (map debt (procs w))) = int cap"
    using assms by (simp add: ps_inv_def)
  moreover have "?f \<le> length (filter (\<lambda>v. v \<noteq> 0) (theItems (stk w)))"
    unfolding sum_stored by (rule filter_length_mono) simp
  ultimately show ?thesis using sum_carried_list [of "procs w" cap] by linarith
qed

section \<open>The routines without interference\<close>

text \<open>The loops of \<^verbatim>\<open>pop()\<close> and \<^verbatim>\<open>push()\<close> run by one process alone, with the number of iterations as fuel.\<close>

fun pop_loop :: "nat \<Rightarrow> page_stack \<Rightarrow> (nat option \<times> page_stack) option" where
  "pop_loop 0 s = None"
| "pop_loop (Suc fuel) s =
     (if theSize s \<ge> 0 then
        let idx = theLastReadable s; v = theItems s ! idx;
            s1 = s\<lparr>theItems := (theItems s)[idx := 0],
                   theLastReadable := swap_hint idx (prev_idx (theCapacity s) idx) (theLastReadable s)\<rparr>
        in if v \<noteq> 0 then Some (Some v, s1\<lparr>theFirstWritable := idx\<rparr>) else pop_loop fuel s1
      else Some (None, s\<lparr>theSize := theSize s + 1\<rparr>))"

definition ps_pop :: "nat \<Rightarrow> page_stack \<Rightarrow> (nat option \<times> page_stack) option" where
  "ps_pop fuel s = pop_loop fuel (s\<lparr>theSize := theSize s - 1\<rparr>)"

fun push_loop :: "nat \<Rightarrow> nat \<Rightarrow> page_stack \<Rightarrow> page_stack outcome option" where
  "push_loop 0 n s = None"
| "push_loop (Suc fuel) n s =
     (if theSize s < int (theCapacity s) then
        let idx = theFirstWritable s; pushed = (theItems s ! idx = 0);
            s1 = s\<lparr>theItems := (if pushed then (theItems s)[idx := n] else theItems s),
                   theFirstWritable := swap_hint idx (next_idx (theCapacity s) idx) (theFirstWritable s)\<rparr>
        in if pushed then Some (Inr (s1\<lparr>theLastReadable := idx, theSize := theSize s + 1\<rparr>))
           else push_loop fuel n s1
      else Some (Inl MustFault))"

definition pageIdIsValid :: "nat \<Rightarrow> page_stack \<Rightarrow> nat \<Rightarrow> nat \<Rightarrow> bool" where
  "pageIdIsValid thePoolId s pool number \<longleftrightarrow> pool = thePoolId \<and> number \<noteq> 0 \<and> number \<le> theCapacity s"

definition ps_push :: "nat \<Rightarrow> nat \<Rightarrow> nat \<Rightarrow> nat \<Rightarrow> page_stack \<Rightarrow> page_stack outcome option" where
  "ps_push fuel thePoolId pool number s =
     (if pool = 0 \<or> number = 0 then Some (Inr s)
      else if \<not> pageIdIsValid thePoolId s pool number then Some (Inl MustFault)
      else push_loop fuel number s)"

text \<open>A scan to the left reaches every slot.\<close>

lemma prev_idx_0 [simp]: "0 < cap \<Longrightarrow> prev_idx cap 0 = cap - 1"
  by (simp add: prev_idx_def)

lemma prev_idx_Suc: "Suc i < cap \<Longrightarrow> prev_idx cap (Suc i) = i"
  by (simp add: prev_idx_def)

lemma prev_down: "i < cap \<Longrightarrow> d \<le> i \<Longrightarrow> (prev_idx cap ^^ d) i = i - d"
proof (induction d)
  case (Suc d)
  then have "(prev_idx cap ^^ Suc d) i = prev_idx cap (i - d)" by simp
  also have "i - d = Suc (i - Suc d)" using Suc.prems by simp
  finally show ?case using Suc.prems prev_idx_Suc [of "i - Suc d" cap] by simp
qed simp

lemma prev_reaches:
  assumes "i < cap" "t < cap"
  shows "\<exists>d < cap. (prev_idx cap ^^ d) i = t"
proof (cases "t \<le> i")
  case True
  then have "(prev_idx cap ^^ (i - t)) i = t" using prev_down [of i cap "i - t"] assms by simp
  then show ?thesis using assms by (intro exI [of _ "i - t"]) simp
next
  case False
  let ?d = "cap - 1 - t"
  have "(prev_idx cap ^^ (?d + (1 + i))) i = (prev_idx cap ^^ ?d) (prev_idx cap ((prev_idx cap ^^ i) i))"
    by (simp only: funpow_add o_apply) (simp add: funpow_swap1)
  also have "\<dots> = t"
    using prev_down [of i cap i] prev_down [of "cap - 1" cap ?d] assms by simp
  finally show ?thesis using assms False by (intro exI [of _ "?d + (1 + i)"]) simp
qed

lemma pop_loop_hit:
  assumes "stack_ok cap s" "0 \<le> theSize s" "theItems s ! theLastReadable s \<noteq> 0"
  shows "\<exists>v s'. pop_loop (Suc fuel) s = Some (Some v, s') \<and> v \<noteq> 0 \<and>
     theSize s' = theSize s \<and> stack_ok cap s' \<and>
     (\<exists>idx < cap. theItems s ! idx = v \<and> theItems s' = (theItems s)[idx := 0])"
  using assms by (auto simp: stack_ok_def Let_def)

lemma pop_loop_finds:
  assumes "stack_ok cap s" "0 \<le> theSize s" "d < fuel"
    and "theItems s ! ((prev_idx cap ^^ d) (theLastReadable s)) \<noteq> 0"
  shows "\<exists>v s'. pop_loop fuel s = Some (Some v, s') \<and> v \<noteq> 0 \<and>
     theSize s' = theSize s \<and> stack_ok cap s' \<and>
     (\<exists>idx < cap. theItems s ! idx = v \<and> theItems s' = (theItems s)[idx := 0])"
  using assms
proof (induction d arbitrary: s fuel)
  case 0
  then obtain f where "fuel = Suc f" by (cases fuel) auto
  with 0 pop_loop_hit show ?case by simp
next
  case (Suc d)
  then obtain f where f: "fuel = Suc f" by (cases fuel) auto
  let ?i = "theLastReadable s"
  show ?case
  proof (cases "theItems s ! ?i = 0")
    case True
    let ?s1 = "s\<lparr>theItems := (theItems s)[?i := 0], theLastReadable := prev_idx cap ?i\<rparr>"
    have same: "(theItems s)[?i := 0] = theItems s" using True by (metis list_update_id)
    have "stack_ok cap ?s1" using Suc.prems(1) by (simp add: stack_ok_def)
    moreover have "theItems ?s1 ! ((prev_idx cap ^^ d) (theLastReadable ?s1)) \<noteq> 0"
      using Suc.prems(4) same by (simp add: funpow_swap1)
    ultimately have "\<exists>v s'. pop_loop f ?s1 = Some (Some v, s') \<and> v \<noteq> 0 \<and>
     theSize s' = theSize ?s1 \<and> stack_ok cap s' \<and>
     (\<exists>idx < cap. theItems ?s1 ! idx = v \<and> theItems s' = (theItems ?s1)[idx := 0])"
      using Suc.prems f by (intro Suc.IH) auto
    moreover have "pop_loop fuel s = pop_loop f ?s1"
      using True Suc.prems(1,2) f by (simp add: stack_ok_def swap_hint_def Let_def)
    ultimately show ?thesis using same by simp
  next
    case False
    with pop_loop_hit [OF Suc.prems(1,2)] f show ?thesis by simp
  qed
qed

section \<open>Properties\<close>

lemma reach_idle: "0 < cap \<Longrightarrow> reach (\<lambda>w. \<exists>n. 0 < cap \<and> w = init_sys cap n) ps_step (init_sys cap n)"
  by (rule reach.reach_start) auto

text \<open>
  C6. Under every interleaving of any number of processes that \<^verbatim>\<open>pop()\<close> and \<^verbatim>\<open>push()\<close>, no page number is lost
  or duplicated: each of \<open>1..theCapacity\<close> is in exactly one place (a slot of the stack, a process
  holding it, or an operation in progress); so a page a process has got is held once, by nobody
  else, and is not on the stack; and the \<^verbatim>\<open>Must(false)\<close> of \<^verbatim>\<open>push()\<close> is never reached.
\<close>

theorem page_stack_exclusive:
  assumes "reach (\<lambda>w. \<exists>n. 0 < cap \<and> w = init_sys cap n) ps_step w"
  shows "(\<forall>k. 0 < k \<and> k \<le> cap \<longrightarrow> stored k (stk w) + sum_list (map (carried k) (procs w)) = 1) \<and>
    (\<forall>i < length (procs w). (\<forall>k. pc (procs w ! i) \<noteq> PushFault k) \<and>
       (\<forall>k \<in> set (held (procs w ! i)). 0 < k \<and> k \<le> cap \<and> k \<notin> set (theItems (stk w)) \<and>
          count_list (held (procs w ! i)) k = 1 \<and>
          (\<forall>j < length (procs w). j \<noteq> i \<longrightarrow> k \<notin> set (held (procs w ! j)))))"
proof (intro conjI allI impI ballI)
  have inv: "ps_inv cap w" using assms by (rule pstk.reach_inv)
  show "stored k (stk w) + sum_list (map (carried k) (procs w)) = 1" if "0 < k \<and> k \<le> cap" for k
    using one_place [OF inv] that by blast
  fix i assume i: "i < length (procs w)"
  show "pc (procs w ! i) \<noteq> PushFault k" for k using inv i by (auto simp: ps_inv_def dest!: nth_mem)
  fix k assume k: "k \<in> set (held (procs w ! i))"
  show "0 < k" "k \<le> cap" using held_in_range [OF inv i k] by simp_all
  show "k \<notin> set (theItems (stk w))"
    using held_exclusive(1) [OF inv i k] sum_here_pos [of k "theItems (stk w)"]
    unfolding stored_def by linarith
  show "count_list (held (procs w ! i)) k = 1"
    using held_exclusive(3) [OF inv i k] sum_here_pos [OF k] by (simp add: carried_def sum_here_count)
  show "k \<notin> set (held (procs w ! j))" if "j < length (procs w)" "j \<noteq> i" for j
    using held_exclusive(2) [OF inv i k that] carried_held [of k "procs w ! j"] by auto
qed

text \<open>
  \<^verbatim>\<open>PageStack::size()\<close> is what its comment says, in every reachable state: a lower bound on the number
  of free pages, that is, of slots that hold a page number.
\<close>

theorem page_stack_size_lower_bound:
  assumes "reach (\<lambda>w. \<exists>n. 0 < cap \<and> w = init_sys cap n) ps_step w"
  shows "ps_size (stk w) \<le> int (length (filter (\<lambda>v. v \<noteq> 0) (theItems (stk w))))"
  using free_pages_bound [OF pstk.reach_inv [OF assms]] by (simp add: ps_size_def)

text \<open>Executable runs, for concrete schedules of pops.\<close>

fun pops_by :: "nat list \<Rightarrow> ps_sys \<Rightarrow> ps_sys option" where
  "pops_by [] w = Some w"
| "pops_by (i # is) w =
     (if i < length (procs w)
      then case pop_access (pc (procs w ! i)) (held (procs w ! i)) (stk w) of
             Some (c, h, s) \<Rightarrow> pops_by is (w\<lparr>stk := s, procs := (procs w)[i := \<lparr>pc = c, held = h\<rparr>]\<rparr>)
           | None \<Rightarrow> None
      else None)"

lemma pops_by_reach: "pops_by is w = Some v \<Longrightarrow> reach start ps_step w \<Longrightarrow> reach start ps_step v"
proof (induction "is" w rule: pops_by.induct)
  case (2 i "is" w)
  from "2.prems"(1) obtain c h s where m: "i < length (procs w)"
      "pop_access (pc (procs w ! i)) (held (procs w ! i)) (stk w) = Some (c, h, s)"
      "pops_by is (w\<lparr>stk := s, procs := (procs w)[i := \<lparr>pc = c, held = h\<rparr>]\<rparr>) = Some v"
    by (auto split: if_splits option.splits simp del: pop_access.simps)
  with "2.prems"(2) have "reach start ps_step (w\<lparr>stk := s, procs := (procs w)[i := \<lparr>pc = c, held = h\<rparr>]\<rparr>)"
    by (blast intro: reach.reach_step ps_step.popping)
  from "2.IH" [OF m(1,2) refl refl m(3) this] show ?case .
qed simp

definition two_pops :: ps_sys where
  "two_pops = \<lparr>stk = \<lparr>theCapacity = 3, theSize = 1, theLastReadable = 0, theFirstWritable = 1,
     theItems = [1, 0, 0]\<rparr>, procs = [\<lparr>pc = Idle, held = [3]\<rparr>, \<lparr>pc = Idle, held = [2]\<rparr>]\<rparr>"

lemma two_pops_run: "pops_by [0, 1, 0, 0, 1, 0, 0, 0, 1, 1, 1, 1] (init_sys 3 2) = Some two_pops"
  by code_simp

lemma two_pops_reach: "reach (\<lambda>w. \<exists>n. 0 < (3::nat) \<and> w = init_sys 3 n) ps_step two_pops"
  using pops_by_reach [OF two_pops_run reach_idle] by simp

theorem page_stack_exclusive_witness:
  "3 \<notin> set (held (procs two_pops ! 1)) \<and> 3 \<notin> set (theItems (stk two_pops))"
  using page_stack_exclusive [OF two_pops_reach, THEN conjunct2]
  by (auto simp: two_pops_def dest: spec [of _ 0])

theorem page_stack_size_lower_bound_witness:
  "ps_size (stk two_pops) = 1 \<and>
   ps_size (stk two_pops) \<le> int (length (filter (\<lambda>v. v \<noteq> 0) (theItems (stk two_pops))))"
  using page_stack_size_lower_bound [OF two_pops_reach] by (simp add: ps_size_def two_pops_def)

text \<open>
  C7. Run without interference, \<^verbatim>\<open>pop()\<close> terminates within \<^verbatim>\<open>theCapacity\<close> iterations and finds a page whenever
  \<^verbatim>\<open>theSize\<close> promises one: wherever the hint \<^verbatim>\<open>theLastReadable\<close> points, it returns the number of some
  free page and empties exactly that slot; with nothing promised it returns false and changes nothing.
\<close>

theorem page_stack_pop_finds:
  assumes "stack_ok cap s" "theSize s \<le> int (length (filter (\<lambda>v. v \<noteq> 0) (theItems s)))"
  shows "if 0 < theSize s
     then \<exists>idx v s'. ps_pop cap s = Some (Some v, s') \<and> v \<noteq> 0 \<and> idx < cap \<and> theItems s ! idx = v \<and>
            theItems s' = (theItems s)[idx := 0] \<and> theSize s' = theSize s - 1
     else ps_pop cap s = Some (None, s)"
proof (cases "0 < theSize s")
  case True
  let ?s = "s\<lparr>theSize := theSize s - 1\<rparr>"
  have "filter (\<lambda>v. v \<noteq> 0) (theItems s) \<noteq> []" using True assms(2) by auto
  then obtain t where t: "t < cap" "theItems s ! t \<noteq> 0"
    using assms(1) by (auto simp: filter_empty_conv in_set_conv_nth stack_ok_def)
  obtain d where "d < cap" "(prev_idx cap ^^ d) (theLastReadable s) = t"
    using prev_reaches [OF _ t(1)] assms(1) by (auto simp: stack_ok_def)
  with pop_loop_finds [of cap ?s d cap] t(2) True assms(1) show ?thesis
    by (auto simp: ps_pop_def stack_ok_def)
next
  case False
  then show ?thesis using assms(1) by (cases cap) (auto simp: ps_pop_def stack_ok_def)
qed

theorem page_stack_pop_finds_witness:
  "\<exists>v s'. ps_pop 3 (stk two_pops) = Some (Some v, s') \<and> v \<noteq> 0"
  using page_stack_pop_finds [of 3 "stk two_pops"] by (auto simp: two_pops_def stack_ok_def)

section \<open>The page pool\<close>

datatype purpose = cachePage | ioPage | maxPurpose

record page_id =
  page_pool_id :: nat
  page_number :: nat
  page_purpose :: purpose

definition no_page :: page_id where
  "no_page = \<lparr>page_pool_id = 0, page_number = 0, page_purpose = maxPurpose\<rparr>"

definition page_set :: "page_id \<Rightarrow> bool" where
  "page_set p \<longleftrightarrow> page_pool_id p \<noteq> 0 \<and> page_number p \<noteq> 0"

record page_pool =
  poolId :: nat
  pageSize :: nat
  pageIndex :: page_stack
  theLevels :: "purpose \<Rightarrow> int"

definition pool_level :: "purpose \<Rightarrow> page_pool \<Rightarrow> int outcome" where
  "pool_level u pl = guardE (u \<noteq> maxPurpose) MustFault (Inr (theLevels pl u))"

definition pool_get :: "nat \<Rightarrow> purpose \<Rightarrow> page_id \<Rightarrow> page_pool \<Rightarrow> (bool \<times> page_id \<times> page_pool) outcome option" where
  "pool_get fuel u p pl =
     (if u = maxPurpose \<or> page_set p then Some (Inl MustFault)
      else case ps_pop fuel (pageIndex pl) of
             None \<Rightarrow> None
           | Some (None, s) \<Rightarrow> Some (Inr (False, p, pl\<lparr>pageIndex := s\<rparr>))
           | Some (Some n, s) \<Rightarrow> Some (Inr (True, \<lparr>page_pool_id = poolId pl, page_number = n, page_purpose = u\<rparr>,
               pl\<lparr>pageIndex := s, theLevels := (theLevels pl)(u := theLevels pl u + 1)\<rparr>)))"

definition pool_put :: "nat \<Rightarrow> page_id \<Rightarrow> page_pool \<Rightarrow> (page_id \<times> page_pool) outcome option" where
  "pool_put fuel p pl =
     (if \<not> page_set p then Some (Inr (p, pl))
      else if page_purpose p = maxPurpose then Some (Inl MustFault)
      else case ps_push fuel (poolId pl) (page_pool_id p) (page_number p) (pageIndex pl) of
             None \<Rightarrow> None
           | Some (Inl f) \<Rightarrow> Some (Inl f)
           | Some (Inr s) \<Rightarrow> Some (Inr (no_page, pl\<lparr>pageIndex := s,
               theLevels := (theLevels pl)(page_purpose p := theLevels pl (page_purpose p) - 1)\<rparr>)))"

text \<open>The byte offset of a page in the pool's storage.\<close>

definition pagePointer :: "page_id \<Rightarrow> page_pool \<Rightarrow> nat outcome" where
  "pagePointer p pl =
     guardE (pageIdIsValid (poolId pl) (pageIndex pl) (page_pool_id p) (page_number p)) MustFault
       (Inr (pageSize pl * (page_number p - 1)))"

lemma next_up: "i + d < cap \<Longrightarrow> (next_idx cap ^^ d) i = i + d"
  by (induction d) (simp_all add: next_idx_def)

lemma next_reaches:
  assumes "i < cap" "t < cap"
  shows "\<exists>d < cap. (next_idx cap ^^ d) i = t"
proof (cases "i \<le> t")
  case True
  then have "(next_idx cap ^^ (t - i)) i = t" using next_up [of i "t - i" cap] assms by simp
  then show ?thesis using assms by (intro exI [of _ "t - i"]) simp
next
  case False
  let ?e = "cap - 1 - i"
  have "(next_idx cap ^^ (t + (1 + ?e))) i = (next_idx cap ^^ t) (next_idx cap ((next_idx cap ^^ ?e) i))"
    by (simp only: funpow_add o_apply) (simp add: funpow_swap1)
  also have "\<dots> = t"
    using next_up [of i ?e cap] next_up [of 0 t cap] assms by (simp add: next_idx_def)
  finally show ?thesis using assms False by (intro exI [of _ "t + (1 + ?e)"]) simp
qed

lemma push_loop_finds:
  assumes "stack_ok cap s" "theSize s < int cap" "d < fuel"
    and "theItems s ! ((next_idx cap ^^ d) (theFirstWritable s)) = 0"
  shows "\<exists>s' idx. push_loop fuel n s = Some (Inr s') \<and> stack_ok cap s' \<and> theSize s' = theSize s + 1 \<and>
     idx < cap \<and> theItems s ! idx = 0 \<and> theItems s' = (theItems s)[idx := n]"
  using assms
proof (induction d arbitrary: s fuel)
  case 0
  then obtain f where "fuel = Suc f" by (cases fuel) auto
  with 0 show ?case by (auto simp: stack_ok_def Let_def)
next
  case (Suc d)
  then obtain f where f: "fuel = Suc f" by (cases fuel) auto
  let ?i = "theFirstWritable s"
  show ?case
  proof (cases "theItems s ! ?i = 0")
    case True
    with Suc.prems f show ?thesis by (auto simp: stack_ok_def Let_def)
  next
    case False
    let ?s1 = "s\<lparr>theItems := theItems s, theFirstWritable := next_idx cap ?i\<rparr>"
    have "push_loop fuel n s = push_loop f n ?s1"
      using False Suc.prems(1,2) f by (simp add: stack_ok_def swap_hint_def Let_def)
    moreover have "\<exists>s' idx. push_loop f n ?s1 = Some (Inr s') \<and> stack_ok cap s' \<and> theSize s' = theSize ?s1 + 1 \<and>
       idx < cap \<and> theItems ?s1 ! idx = 0 \<and> theItems s' = (theItems ?s1)[idx := n]"
      using Suc.prems f by (intro Suc.IH) (auto simp: stack_ok_def funpow_swap1)
    ultimately show ?thesis by simp
  qed
qed

lemma some_writable:
  assumes "stack_ok cap s" "int (length (filter (\<lambda>v. v \<noteq> 0) (theItems s))) < int cap"
  shows "\<exists>t < cap. theItems s ! t = 0"
proof (rule ccontr)
  assume "\<not> ?thesis"
  then have "\<forall>v \<in> set (theItems s). v \<noteq> 0" using assms(1) by (auto simp: in_set_conv_nth stack_ok_def)
  then have "filter (\<lambda>v. v \<noteq> 0) (theItems s) = theItems s" by (simp add: filter_id_conv)
  with assms show False by (simp add: stack_ok_def)
qed

text \<open>
  A page taken from the pool can always be put back: after a successful \<^verbatim>\<open>get()\<close> the page is valid, and
  \<^verbatim>\<open>put()\<close> of it terminates within \<^verbatim>\<open>theCapacity\<close> iterations without a \<^verbatim>\<open>Must\<close> failure, clears the caller's identifier and
  restores \<^verbatim>\<open>theSize\<close>, the number of free pages and the per-purpose level.
\<close>

theorem page_pool_get_put:
  assumes "stack_ok cap (pageIndex pl)" "poolId pl \<noteq> 0" "u \<noteq> maxPurpose"
    and "\<forall>v \<in> set (theItems (pageIndex pl)). v \<le> cap"
    and "theSize (pageIndex pl) = int (length (filter (\<lambda>v. v \<noteq> 0) (theItems (pageIndex pl))))"
    and "0 < theSize (pageIndex pl)"
  shows "\<exists>p pl1 pl2. pool_get cap u no_page pl = Some (Inr (True, p, pl1)) \<and>
     pageIdIsValid (poolId pl) (pageIndex pl1) (page_pool_id p) (page_number p) \<and>
     theLevels pl1 u = theLevels pl u + 1 \<and>
     pool_put cap p pl1 = Some (Inr (no_page, pl2)) \<and> theLevels pl2 = theLevels pl \<and>
     theSize (pageIndex pl2) = theSize (pageIndex pl) \<and>
     length (filter (\<lambda>v. v \<noteq> 0) (theItems (pageIndex pl2))) = length (filter (\<lambda>v. v \<noteq> 0) (theItems (pageIndex pl)))"
proof -
  let ?s = "pageIndex pl" and ?free = "\<lambda>s. int (length (filter (\<lambda>v. v \<noteq> 0) (theItems s)))"
  have "filter (\<lambda>v. v \<noteq> 0) (theItems ?s) \<noteq> []" using assms(5,6) by auto
  then obtain t where t: "t < cap" "theItems ?s ! t \<noteq> 0"
    using assms(1) by (auto simp: filter_empty_conv in_set_conv_nth stack_ok_def)
  obtain d where d: "d < cap" "(prev_idx cap ^^ d) (theLastReadable ?s) = t"
    using prev_reaches [OF _ t(1)] assms(1) by (auto simp: stack_ok_def)
  have "stack_ok cap (?s\<lparr>theSize := theSize ?s - 1\<rparr>)" using assms(1) by (simp add: stack_ok_def)
  from pop_loop_finds [OF this, of d cap] d t(2) assms(6)
  obtain v s1 i where pop: "ps_pop cap ?s = Some (Some v, s1)" "v \<noteq> 0" "theSize s1 = theSize ?s - 1"
      "stack_ok cap s1" "i < cap" "theItems ?s ! i = v" "theItems s1 = (theItems ?s)[i := 0]"
    by (auto simp: ps_pop_def)
  have len: "length (theItems ?s) = cap" using assms(1) by (simp add: stack_ok_def)
  then have vcap: "v \<le> cap" using pop(5,6) assms(4) by auto
  have f1: "?free s1 = ?free ?s - 1"
    using length_filter_update [of i "theItems ?s" "\<lambda>v. v \<noteq> 0" 0] pop len by simp
  have "?free ?s \<le> int cap" using len length_filter_le [of _ "theItems ?s"] by simp
  then have room: "?free s1 < int cap" "theSize s1 < int cap" using f1 pop(3) assms(5) by simp_all
  obtain t' where t': "t' < cap" "theItems s1 ! t' = 0" using some_writable [OF pop(4) room(1)] by blast
  obtain e where "e < cap" "(next_idx cap ^^ e) (theFirstWritable s1) = t'"
    using next_reaches [OF _ t'(1)] pop(4) by (auto simp: stack_ok_def)
  with push_loop_finds [OF pop(4) room(2), of e cap v] t'(2)
  obtain s2 j where push: "push_loop cap v s1 = Some (Inr s2)" "theSize s2 = theSize s1 + 1"
      "j < cap" "theItems s1 ! j = 0" "theItems s2 = (theItems s1)[j := v]" by auto
  have f2: "?free s2 = ?free ?s"
    using length_filter_update [of j "theItems s1" "\<lambda>v. v \<noteq> 0" v] push pop(2,7) len f1 by simp
  let ?p = "\<lparr>page_pool_id = poolId pl, page_number = v, page_purpose = u\<rparr>"
  let ?pl1 = "pl\<lparr>pageIndex := s1, theLevels := (theLevels pl)(u := theLevels pl u + 1)\<rparr>"
  have get: "pool_get cap u no_page pl = Some (Inr (True, ?p, ?pl1))"
    using pop(1) assms(3) by (simp add: pool_get_def page_set_def no_page_def)
  have valid: "pageIdIsValid (poolId pl) s1 (poolId pl) v"
    using pop(2,4) vcap by (simp add: pageIdIsValid_def stack_ok_def)
  then have "pool_put cap ?p ?pl1 = Some (Inr (no_page, ?pl1\<lparr>pageIndex := s2, theLevels := theLevels pl\<rparr>))"
    using push(1) assms(2,3) pop(2) by (simp add: pool_put_def page_set_def ps_push_def)
  with get valid f2 push(2) pop(3) show ?thesis by (intro exI) auto
qed

definition demo_pool :: page_pool where
  "demo_pool = \<lparr>poolId = 1, pageSize = 4096, pageIndex = stk two_pops, theLevels = \<lambda>_. 2\<rparr>"

theorem page_pool_get_put_witness:
  "\<exists>p pl1. pool_get 3 ioPage no_page demo_pool = Some (Inr (True, p, pl1)) \<and> theLevels pl1 ioPage = 3"
  using page_pool_get_put [of 3 demo_pool ioPage]
  by (fastforce simp: demo_pool_def two_pops_def stack_ok_def)

end
