(* ===== verification/File_Map.thy ===== *)
theory File_Map
  imports Squid_Prelude
begin

text \<open>
  The bitmap of used swap file numbers of \<^verbatim>\<open>src/filemap.cc\<close> (64-bit words, doubling up to \<open>2^24\<close> bits)
  and its use by a UFS cache directory, \<^verbatim>\<open>mapBitAllocate()\<close> and \<^verbatim>\<open>mapBitReset()\<close> of
  \<^verbatim>\<open>src/fs/ufs/UFSSwapDir.cc\<close>.  The pair implements an allocator of distinct numbers.
\<close>

unbundle bit_operations_syntax

section \<open>The bitmap\<close>

record file_map =
  capacity :: nat
  usedSlots :: nat
  nwords :: nat
  bitmap :: "64 word list"

definition ALL_ONES :: "64 word" where
  "ALL_ONES = 0xFFFFFFFFFFFFFFFF"

definition new_file_map :: file_map where
  "new_file_map = \<lparr>capacity = 2 ^ 14, usedSlots = 0, nwords = drop_bit 6 (2 ^ 14),
     bitmap = replicate (drop_bit 6 (2 ^ 14)) 0\<rparr>"

definition grow :: "file_map \<Rightarrow> file_map outcome" where
  "grow m =
     (let cap = push_bit 1 (capacity m); n = drop_bit 6 cap
      in guardE (cap \<le> 2 ^ 24) AssertFault
           (Inr (m\<lparr>capacity := cap, nwords := n,
                   bitmap := take (nwords m) (bitmap m) @ replicate (n - nwords m) 0\<rparr>)))"

definition bitmask :: "nat \<Rightarrow> 64 word" where
  "bitmask file_number = push_bit (file_number AND 63) 1"

text \<open>The loop \<^verbatim>\<open>while (file_number >= capacity_) grow();\<close> with the number of calls as fuel.\<close>

fun grow_until :: "nat \<Rightarrow> nat \<Rightarrow> file_map \<Rightarrow> file_map outcome option" where
  "grow_until 0 file_number m = (if file_number \<ge> capacity m then None else Some (Inr m))"
| "grow_until (Suc fuel) file_number m =
     (if file_number \<ge> capacity m
      then case grow m of Inl f \<Rightarrow> Some (Inl f) | Inr m1 \<Rightarrow> grow_until fuel file_number m1
      else Some (Inr m))"

definition setBit :: "nat \<Rightarrow> file_map \<Rightarrow> file_map outcome" where
  "setBit file_number m =
     (case grow_until 25 file_number m of
        None \<Rightarrow> Inl FatalFault
      | Some r \<Rightarrow> bindE r (\<lambda>m1.
          let w = drop_bit 6 file_number
          in guardE (w < length (bitmap m1)) OutOfBounds
               (Inr (m1\<lparr>bitmap := (bitmap m1)[w := bitmap m1 ! w OR bitmask file_number],
                        usedSlots := usedSlots m1 + 1\<rparr>))))"

definition clearBit :: "nat \<Rightarrow> file_map \<Rightarrow> file_map outcome" where
  "clearBit file_number m =
     (let w = drop_bit 6 file_number
      in guardE (w < length (bitmap m)) OutOfBounds
           (Inr (m\<lparr>bitmap := (bitmap m)[w := bitmap m ! w AND NOT (bitmask file_number)],
                   usedSlots := usedSlots m - 1\<rparr>)))"

definition testBit :: "nat \<Rightarrow> file_map \<Rightarrow> bool" where
  "testBit file_number m \<longleftrightarrow>
     \<not> file_number \<ge> capacity m \<and> bitmap m ! drop_bit 6 file_number AND bitmask file_number \<noteq> 0"

fun scan_words :: "nat \<Rightarrow> nat \<Rightarrow> file_map \<Rightarrow> nat" where
  "scan_words 0 word m = word"
| "scan_words (Suc count) word m =
     (if bitmap m ! word \<noteq> ALL_ONES then word else scan_words count ((word + 1) mod nwords m) m)"

fun scan_bits :: "nat \<Rightarrow> nat \<Rightarrow> nat \<Rightarrow> file_map \<Rightarrow> nat option" where
  "scan_bits 0 word b m = None"
| "scan_bits (Suc n) word b m =
     (let suggestion = push_bit 6 word OR b
      in if \<not> testBit suggestion m then Some suggestion else scan_bits n word (Suc b) m)"

text \<open>\<^verbatim>\<open>allocate()\<close> calls itself after growing; the fuel bounds the depth of that recursion.\<close>

fun allocate :: "nat \<Rightarrow> nat \<Rightarrow> file_map \<Rightarrow> (nat \<times> file_map) outcome option" where
  "allocate 0 suggestion m = None"
| "allocate (Suc fuel) suggestion m =
     (let s = (if suggestion \<ge> capacity m then 0 else suggestion)
      in if \<not> testBit s m then Some (Inr (s, m))
         else case scan_bits 64 (scan_words (nwords m) (drop_bit 6 s) m) 0 m of
                Some b \<Rightarrow> Some (Inr (b, m))
              | None \<Rightarrow> (case grow m of
                    Inl f \<Rightarrow> Some (Inl f)
                  | Inr m1 \<Rightarrow> allocate fuel (drop_bit 1 (capacity m1)) m1))"

section \<open>A cache directory's use of the map\<close>

record ufs_dir =
  dir_map :: file_map
  suggest :: nat

definition mapBitTest :: "nat \<Rightarrow> ufs_dir \<Rightarrow> bool" where
  "mapBitTest filn d = testBit filn (dir_map d)"

definition mapBitSet :: "nat \<Rightarrow> ufs_dir \<Rightarrow> ufs_dir outcome" where
  "mapBitSet filn d = bindE (setBit filn (dir_map d)) (\<lambda>m. Inr (d\<lparr>dir_map := m\<rparr>))"

definition mapBitReset :: "nat \<Rightarrow> ufs_dir \<Rightarrow> ufs_dir outcome" where
  "mapBitReset filn d =
     (if testBit filn (dir_map d)
      then bindE (clearBit filn (dir_map d)) (\<lambda>m. Inr (d\<lparr>dir_map := m\<rparr>))
      else Inr d)"

definition mapBitAllocate :: "ufs_dir \<Rightarrow> (nat \<times> ufs_dir) outcome" where
  "mapBitAllocate d =
     (case allocate 2 (suggest d) (dir_map d) of
        None \<Rightarrow> Inl FatalFault
      | Some r \<Rightarrow> bindE r (\<lambda>(fn, m). bindE (setBit fn m) (\<lambda>m1.
          Inr (fn, d\<lparr>dir_map := m1, suggest := fn + 1\<rparr>))))"

section \<open>The set of used numbers\<close>

definition used :: "file_map \<Rightarrow> nat set" where
  "used m = {n. n < capacity m \<and> bit (bitmap m ! (n div 64)) (n mod 64)}"

definition fm_ok :: "file_map \<Rightarrow> bool" where
  "fm_ok m \<longleftrightarrow> 0 < capacity m \<and> 64 dvd capacity m \<and> nwords m = capacity m div 64 \<and>
     length (bitmap m) = nwords m \<and> (\<exists>k \<le> 10. capacity m = 16384 * 2 ^ k) \<and> usedSlots m = card (used m)"

lemma and_63 [simp]: "(n :: nat) AND 63 = n mod 64"
proof -
  have "n AND mask 6 = n mod 2 ^ 6" by (simp only: take_bit_eq_mask [symmetric] take_bit_eq_mod)
  then show ?thesis by (simp add: mask_eq_exp_minus_1)
qed

lemma drop_6 [simp]: "drop_bit 6 (n :: nat) = n div 64"
  by (simp add: drop_bit_eq_div)

lemma word_or_bit:
  assumes "b < 64"
  shows "push_bit 6 (w :: nat) OR b = w * 64 + b"
proof -
  have "push_bit 6 w AND b = 0"
  proof (rule bit_eqI)
    fix n
    have "\<not> bit b n" if "6 \<le> n"
    proof -
      have "b < 2 ^ n" using assms power_increasing [OF that, of "2 :: nat"] by simp
      then show ?thesis by (simp add: bit_iff_odd)
    qed
    then show "bit (push_bit 6 w AND b) n \<longleftrightarrow> bit (0 :: nat) n"
      by (auto simp: bit_and_iff bit_push_bit_iff)
  qed
  then have "push_bit 6 w OR b = push_bit 6 w + b" by (simp add: disjunctive_add_eq_or)
  then show ?thesis by (simp add: push_bit_eq_mult)
qed

lemma bitmask_bit: "bit (bitmask n) i \<longleftrightarrow> i = n mod 64"
proof -
  have "n mod 64 < 64" by simp
  then show ?thesis by (auto simp: bitmask_def bit_simps)
qed

lemma testBit_used: "testBit n m \<longleftrightarrow> n \<in> used m"
proof -
  have "w AND push_bit (n mod 64) 1 \<noteq> 0 \<longleftrightarrow> bit w (n mod 64)" for w :: "64 word"
    by (simp add: bit_iff_and_push_bit_not_eq_0)
  then show ?thesis by (auto simp: testBit_def used_def bitmask_def)
qed

lemma used_below: "n \<in> used m \<Longrightarrow> n < capacity m"
  by (simp add: used_def)

lemma finite_used [simp]: "finite (used m)"
  by (rule finite_subset [of _ "{..<capacity m}"]) (auto simp: used_def)

lemma new_file_map_ok: "fm_ok new_file_map" "used new_file_map = {}"
proof -
  show empty: "used new_file_map = {}" by (auto simp: used_def new_file_map_def)
  then show "fm_ok new_file_map"
    by (auto simp: fm_ok_def intro: exI [of _ 0]) (simp_all add: new_file_map_def exI [of _ 0])
qed

section \<open>Effect of each operation on the set of used numbers\<close>

lemma grown_nth:
  assumes "length ws = n" "i < 2 * n"
  shows "(take n ws @ replicate (2 * n - n) 0) ! i = (if i < n then ws ! i else 0)"
  using assms by (simp add: nth_append)

lemma div_64_less: "64 dvd c \<Longrightarrow> i div 64 < c div 64 \<longleftrightarrow> i < (c :: nat)"
  by (auto simp: div_less_iff_less_mult)

lemma grow_spec:
  assumes "fm_ok m" "capacity m < 2 ^ 24"
  shows "\<exists>m'. grow m = Inr m' \<and> fm_ok m' \<and> capacity m' = 2 * capacity m \<and> used m' = used m"
proof -
  from assms(1) obtain k where k: "k \<le> 10" "capacity m = 16384 * 2 ^ k" by (auto simp: fm_ok_def)
  have "k \<noteq> 10" using k(2) assms(2) by auto
  then have k9: "Suc k \<le> 10" "2 * capacity m = 16384 * 2 ^ Suc k" using k by simp_all
  then have le: "2 * capacity m \<le> 2 ^ 24" using power_increasing [of "Suc k" 10 "2 :: nat"] by simp
  let ?n = "capacity m div 64"
  have dv: "64 dvd capacity m" "length (bitmap m) = ?n" "nwords m = ?n" using assms(1) by (auto simp: fm_ok_def)
  have dbl: "2 * capacity m div 64 = 2 * ?n" using dv(1) by auto
  let ?m = "m\<lparr>capacity := 2 * capacity m, nwords := 2 * ?n,
             bitmap := take ?n (bitmap m) @ replicate (2 * ?n - ?n) 0\<rparr>"
  have g: "grow m = Inr ?m"
    using le dv(3) dbl by (simp add: grow_def push_bit_eq_mult Let_def mult.commute [of _ 2])
  have "n \<in> used ?m \<longleftrightarrow> n \<in> used m" for n
  proof (cases "n < 2 * capacity m")
    case True
    then have "n div 64 < 2 * ?n" using div_64_less [of "2 * capacity m" n] dv(1) dbl by simp
    from grown_nth [OF dv(2) this] True div_64_less [OF dv(1), of n] show ?thesis
      by (auto simp: used_def)
  qed (auto simp: used_def)
  then have u: "used ?m = used m" by blast
  have "\<exists>j \<le> 10. 2 * capacity m = 16384 * 2 ^ j" using k9 by blast
  moreover have "usedSlots m = card (used m)" "0 < capacity m" using assms(1) by (simp_all add: fm_ok_def)
  ultimately have "fm_ok ?m" unfolding fm_ok_def u using dv dbl by simp
  with g u show ?thesis by auto
qed

lemma grow_until_spec:
  assumes "fm_ok m" "n < 2 ^ 24" "2 ^ 24 \<le> capacity m * 2 ^ fuel"
  shows "\<exists>m'. grow_until fuel n m = Some (Inr m') \<and> fm_ok m' \<and> n < capacity m' \<and>
     capacity m \<le> capacity m' \<and> used m' = used m"
  using assms
proof (induction fuel arbitrary: m)
  case (Suc fuel)
  show ?case
  proof (cases "n < capacity m")
    case False
    with Suc.prems(2) have "capacity m < 2 ^ 24" by simp
    from grow_spec [OF Suc.prems(1) this] obtain m1
      where m1: "grow m = Inr m1" "fm_ok m1" "capacity m1 = 2 * capacity m" "used m1 = used m" by blast
    from Suc.IH [OF m1(2) Suc.prems(2)] Suc.prems(3) m1(3) obtain m'
      where "grow_until fuel n m1 = Some (Inr m')" "fm_ok m'" "n < capacity m'" "capacity m1 \<le> capacity m'"
        "used m' = used m1" by auto
    with m1 False show ?thesis by auto
  qed (use Suc.prems in auto)
qed auto

text \<open>The word that holds bit \<open>n\<close> is replaced; what that does to the set.\<close>

lemma used_update:
  assumes "fm_ok m" "n < capacity m"
    and "\<And>i. i < 64 \<Longrightarrow> bit v i \<longleftrightarrow> (if i = n mod 64 then b else bit (bitmap m ! (n div 64)) i)"
  shows "used (m\<lparr>bitmap := (bitmap m)[n div 64 := v], usedSlots := u\<rparr>) =
         (if b then insert n (used m) else used m - {n})"
proof -
  have len: "length (bitmap m) = capacity m div 64" "64 dvd capacity m" using assms(1) by (auto simp: fm_ok_def)
  have n: "n div 64 < length (bitmap m)" using assms(2) div_64_less len by simp
  have same: "j div 64 = n div 64 \<and> j mod 64 = n mod 64 \<longleftrightarrow> j = n" for j
    by (metis div_mult_mod_eq)
  have "bit ((bitmap m)[n div 64 := v] ! (j div 64)) (j mod 64) \<longleftrightarrow>
      (if j = n then b else bit (bitmap m ! (j div 64)) (j mod 64))" for j
    using n assms(3) [of "j mod 64"] same [of j] by (auto simp: nth_list_update)
  then show ?thesis using assms(2) by (auto simp: used_def)
qed

lemma setBit_spec:
  assumes "fm_ok m" "n < 2 ^ 24" "n \<notin> used m"
  shows "\<exists>m'. setBit n m = Inr m' \<and> fm_ok m' \<and> used m' = insert n (used m) \<and> capacity m \<le> capacity m'"
proof -
  have "2 ^ 24 \<le> capacity m * 2 ^ 25" using assms(1) by (simp add: fm_ok_def Suc_le_eq)
  from grow_until_spec [OF assms(1,2) this] obtain m1 where m1: "grow_until 25 n m = Some (Inr m1)"
    "fm_ok m1" "n < capacity m1" "capacity m \<le> capacity m1" "used m1 = used m" by blast
  let ?m = "m1\<lparr>bitmap := (bitmap m1)[n div 64 := bitmap m1 ! (n div 64) OR bitmask n],
               usedSlots := usedSlots m1 + 1\<rparr>"
  have "n div 64 < length (bitmap m1)" using m1(2,3) div_64_less by (simp add: fm_ok_def)
  then have s: "setBit n m = Inr ?m" using m1(1) by (simp add: setBit_def Let_def)
  have u: "used ?m = insert n (used m1)"
    using used_update [OF m1(2,3), of "bitmap m1 ! (n div 64) OR bitmask n" True]
    by (auto simp: bit_or_iff bitmask_bit)
  have "fm_ok ?m" using m1(2,5) assms(3) u unfolding fm_ok_def u by simp
  with s u m1 show ?thesis by auto
qed

lemma clearBit_spec:
  assumes "fm_ok m" "n \<in> used m"
  shows "\<exists>m'. clearBit n m = Inr m' \<and> fm_ok m' \<and> used m' = used m - {n} \<and> capacity m' = capacity m"
proof -
  have n: "n < capacity m" using assms(2) by (rule used_below)
  let ?m = "m\<lparr>bitmap := (bitmap m)[n div 64 := bitmap m ! (n div 64) AND NOT (bitmask n)],
              usedSlots := usedSlots m - 1\<rparr>"
  have "n div 64 < length (bitmap m)" using assms(1) n div_64_less by (simp add: fm_ok_def)
  then have s: "clearBit n m = Inr ?m" by (simp add: clearBit_def Let_def)
  have u: "used ?m = used m - {n}"
    using used_update [OF assms(1) n, of "bitmap m ! (n div 64) AND NOT (bitmask n)" False]
    by (auto simp: bit_and_iff bit_not_iff bitmask_bit)
  have "fm_ok ?m" using assms u unfolding fm_ok_def u by simp
  with s u show ?thesis by auto
qed

section \<open>The search for a free number\<close>

lemma not_full_bit:
  assumes "w \<noteq> ALL_ONES"
  shows "\<exists>i < 64. \<not> bit w i"
proof (rule ccontr)
  assume a: "\<not> ?thesis"
  have ones: "ALL_ONES = - 1" by (simp add: ALL_ONES_def)
  have "w = ALL_ONES" unfolding ones
    by (rule bit_word_eqI) (use a in \<open>auto\<close>)
  with assms show False by simp
qed

lemma full_bit:
  assumes "i < 64"
  shows "bit ALL_ONES i"
proof -
  have ones: "ALL_ONES = - 1" by (simp add: ALL_ONES_def)
  show ?thesis unfolding ones using assms by simp
qed

lemma scan_words_range: "w < nwords m \<Longrightarrow> scan_words c w m < nwords m"
  by (induction c w m rule: scan_words.induct) auto

lemma scan_words_finds:
  assumes "d < c" "bitmap m ! ((w + d) mod nwords m) \<noteq> ALL_ONES" "w < nwords m"
  shows "bitmap m ! scan_words c w m \<noteq> ALL_ONES"
  using assms
proof (induction c w m arbitrary: d rule: scan_words.induct)
  case (2 count w m)
  show ?case
  proof (cases "bitmap m ! w = ALL_ONES")
    case True
    with "2.prems" obtain e where "d = Suc e" by (cases d) auto
    with "2.IH" [of e] "2.prems" True show ?thesis by (simp add: mod_simps)
  qed simp
qed simp

lemma cycle_reaches:
  assumes "t < n" "w < n"
  shows "\<exists>d < n. (w + d) mod n = (t :: nat)"
proof (cases "w \<le> t")
  case True
  with assms show ?thesis by (intro exI [of _ "t - w"]) simp
next
  case False
  with assms show ?thesis by (intro exI [of _ "n - w + t"]) simp
qed

lemma scan_bits_spec:
  assumes "b + n \<le> 64"
  shows "case scan_bits n w b m of
     Some s \<Rightarrow> s \<notin> used m \<and> (\<exists>i < 64. s = w * 64 + i)
   | None \<Rightarrow> \<forall>i. b \<le> i \<and> i < b + n \<longrightarrow> w * 64 + i \<in> used m"
  using assms
proof (induction n w b m rule: scan_bits.induct)
  case (2 n w b m)
  then have b: "b < 64" by simp
  show ?case
  proof (cases "w * 64 + b \<in> used m")
    case True
    with 2 b show ?thesis
      by (auto simp: word_or_bit testBit_used Let_def split: option.splits) (metis Suc_leI le_neq_implies_less)
  next
    case False
    with b show ?thesis by (auto simp: word_or_bit testBit_used)
  qed
qed auto

lemma search_spec:
  assumes "fm_ok m" "w < nwords m"
  shows "case scan_bits 64 (scan_words (nwords m) w m) 0 m of
     Some s \<Rightarrow> s \<notin> used m \<and> s < capacity m
   | None \<Rightarrow> used m = {..<capacity m}"
proof -
  let ?w = "scan_words (nwords m) w m"
  have len: "length (bitmap m) = nwords m" "capacity m = nwords m * 64"
    using assms(1) by (auto simp: fm_ok_def)
  have w: "?w < nwords m" using assms(2) by (rule scan_words_range)
  note spec = scan_bits_spec [of 0 64 ?w m]
  show ?thesis
  proof (cases "scan_bits 64 ?w 0 m")
    case (Some s)
    then obtain i where "i < 64" "s = ?w * 64 + i" "s \<notin> used m" using spec by auto
    moreover have "?w * 64 + i < nwords m * 64"
      using chunk_in_range [OF w, of 64] \<open>i < 64\<close> by linarith
    ultimately show ?thesis using Some len by simp
  next
    case None
    then have allbits: "i < 64 \<Longrightarrow> ?w * 64 + i \<in> used m" for i using spec by simp
    have full: "bitmap m ! ?w = ALL_ONES"
    proof (rule ccontr)
      assume "bitmap m ! ?w \<noteq> ALL_ONES"
      from not_full_bit [OF this] obtain i where "i < 64" "\<not> bit (bitmap m ! ?w) i" by blast
      with allbits [of i] show False by (simp add: used_def)
    qed
    have "bitmap m ! t = ALL_ONES" if t: "t < nwords m" for t
    proof (rule ccontr)
      assume a: "bitmap m ! t \<noteq> ALL_ONES"
      obtain d where "d < nwords m" "(w + d) mod nwords m = t" using cycle_reaches [OF t assms(2)] by blast
      with scan_words_finds [of d "nwords m" m w] a assms(2) full show False by simp
    qed
    then have "n \<in> used m" if "n < capacity m" for n
      using that full_bit [of "n mod 64"] len by (simp add: used_def div_less_iff_less_mult)
    with None used_below show ?thesis by auto
  qed
qed

lemma allocate_direct:
  assumes "s < capacity m" "s \<notin> used m"
  shows "allocate (Suc f) s m = Some (Inr (s, m))"
  using assms by (simp add: testBit_used)

lemma room_left:
  assumes "n \<notin> used m" "n < capacity m" "capacity m \<le> l"
  shows "used m \<noteq> {..<l}"
proof
  assume "used m = {..<l}"
  then have "n \<in> used m" using assms(2,3) by simp
  with assms(1) show False by blast
qed

lemma fm_capacity:
  assumes "fm_ok m"
  shows "capacity m \<le> 2 ^ 24"
proof -
  obtain k where "k \<le> 10" "capacity m = 16384 * 2 ^ k" using assms by (auto simp: fm_ok_def)
  then show ?thesis using power_increasing [of k 10 "2 :: nat"] by simp
qed

lemma allocate_spec:
  assumes "fm_ok m"
  shows "if used m = {..<2 ^ 24} then allocate (Suc (Suc f)) s m = Some (Inl AssertFault)
     else \<exists>n m'. allocate (Suc (Suc f)) s m = Some (Inr (n, m')) \<and> n < capacity m' \<and> n \<notin> used m \<and>
            fm_ok m' \<and> used m' = used m"
proof -
  let ?s = "if s \<ge> capacity m then 0 else s"
  have cap: "0 < capacity m" "capacity m \<le> 2 ^ 24" "nwords m = capacity m div 64" "64 dvd capacity m"
    using assms fm_capacity [OF assms] by (auto simp: fm_ok_def)
  have s: "?s < capacity m" using cap by simp
  then have w: "?s div 64 < nwords m" using cap div_64_less by simp
  note found = search_spec [OF assms w]
  consider (direct) "?s \<notin> used m"
    | (scan) n where "?s \<in> used m" "scan_bits 64 (scan_words (nwords m) (?s div 64) m) 0 m = Some n"
    | (full) "?s \<in> used m" "scan_bits 64 (scan_words (nwords m) (?s div 64) m) 0 m = None"
    by fastforce
  then show ?thesis
  proof cases
    case direct
    then have "allocate (Suc (Suc f)) s m = Some (Inr (?s, m))" by (simp add: testBit_used Let_def)
    moreover have "used m \<noteq> {..<2 ^ 24}" using direct s cap(2) by (rule room_left)
    ultimately show ?thesis using direct s assms by simp
  next
    case (scan n)
    then have "allocate (Suc (Suc f)) s m = Some (Inr (n, m))" by (simp add: testBit_used Let_def)
    moreover have "n \<notin> used m" "n < capacity m" using found scan(2) by auto
    moreover from this have "used m \<noteq> {..<2 ^ 24}" using cap(2) by (rule room_left)
    ultimately show ?thesis using assms by simp
  next
    case full
    then have used: "used m = {..<capacity m}" using found by simp
    show ?thesis
    proof (cases "capacity m = 2 ^ 24")
      case True
      with full used show ?thesis
        by (simp add: testBit_used Let_def grow_def push_bit_eq_mult)
    next
      case False
      with cap have "capacity m < 2 ^ 24" by simp
      from grow_spec [OF assms this] obtain m1 where m1: "grow m = Inr m1" "fm_ok m1"
        "capacity m1 = 2 * capacity m" "used m1 = used m" by blast
      have "drop_bit 1 (capacity m1) = capacity m" using m1(3) by (simp add: drop_bit_eq_div)
      moreover have "allocate (Suc f) (capacity m) m1 = Some (Inr (capacity m, m1))"
        using m1 used cap by (intro allocate_direct) auto
      ultimately have "allocate (Suc (Suc f)) s m = Some (Inr (capacity m, m1))"
        using full m1(1) by (simp add: testBit_used Let_def)
      moreover have "used m \<noteq> {..<2 ^ 24}" using used False by (metis lessThan_eq_iff)
      ultimately show ?thesis using m1 used cap by auto
    qed
  qed
qed

section \<open>An allocator of distinct numbers, as an interface\<close>

locale number_allocator =
  fixes invar :: "'s \<Rightarrow> bool" and taken :: "'s \<Rightarrow> nat set" and limit :: nat
    and alloc :: "'s \<Rightarrow> (nat \<times> 's) outcome" and release :: "nat \<Rightarrow> 's \<Rightarrow> 's outcome"
  assumes taken_range: "invar s \<Longrightarrow> taken s \<subseteq> {..<limit}"
    and alloc_room: "invar s \<Longrightarrow> taken s \<noteq> {..<limit} \<Longrightarrow>
      \<exists>n s'. alloc s = Inr (n, s') \<and> n < limit \<and> n \<notin> taken s \<and> invar s' \<and> taken s' = insert n (taken s)"
    and alloc_full: "invar s \<Longrightarrow> taken s = {..<limit} \<Longrightarrow> alloc s = Inl AssertFault"
    and release_drops: "invar s \<Longrightarrow> \<exists>s'. release n s = Inr s' \<and> invar s' \<and> taken s' = taken s - {n}"
begin

fun alloc_many :: "nat \<Rightarrow> 's \<Rightarrow> (nat list \<times> 's) outcome" where
  "alloc_many 0 s = Inr ([], s)"
| "alloc_many (Suc k) s = bindE (alloc s) (\<lambda>(n, s1). bindE (alloc_many k s1) (\<lambda>(ns, s2). Inr (n # ns, s2)))"

lemma card_taken: "invar s \<Longrightarrow> card (taken s) \<le> limit"
  using card_mono [OF _ taken_range, of s] by simp

lemma not_full: "card (taken s) < limit \<Longrightarrow> taken s \<noteq> {..<limit}"
  using card_lessThan [of limit] by (metis less_irrefl)

lemma alloc_many_distinct:
  assumes "invar s" "card (taken s) + k \<le> limit"
  shows "\<exists>ns s'. alloc_many k s = Inr (ns, s') \<and> invar s' \<and> length ns = k \<and> distinct ns \<and>
     set ns \<inter> taken s = {} \<and> taken s' = taken s \<union> set ns"
  using assms
proof (induction k arbitrary: s)
  case (Suc k)
  have fin: "finite (taken s)" using finite_subset [OF taken_range [OF Suc.prems(1)]] by simp
  obtain n s1 where n: "alloc s = Inr (n, s1)" "n \<notin> taken s" "invar s1" "taken s1 = insert n (taken s)"
    using alloc_room [OF Suc.prems(1)] not_full [of s] Suc.prems(2) by auto
  have "card (taken s1) + k \<le> limit" using n fin Suc.prems(2) by simp
  from Suc.IH [OF n(3) this] n show ?case by auto
qed auto

end

definition dir_ok :: "ufs_dir \<Rightarrow> bool" where
  "dir_ok d \<longleftrightarrow> fm_ok (dir_map d)"

definition dir_used :: "ufs_dir \<Rightarrow> nat set" where
  "dir_used d = used (dir_map d)"

lemma mapBitAllocate_spec:
  assumes "dir_ok d"
  shows "if dir_used d = {..<2 ^ 24} then mapBitAllocate d = Inl AssertFault
     else \<exists>n d'. mapBitAllocate d = Inr (n, d') \<and> n < 2 ^ 24 \<and> n \<notin> dir_used d \<and> dir_ok d' \<and>
            dir_used d' = insert n (dir_used d)"
proof (cases "dir_used d = {..<2 ^ 24}")
  case True
  with allocate_spec [of "dir_map d" 0 "suggest d"] assms show ?thesis
    by (simp add: dir_ok_def dir_used_def mapBitAllocate_def numeral_2_eq_2 del: allocate.simps)
next
  case False
  with allocate_spec [of "dir_map d" 0 "suggest d"] assms obtain n m
    where al: "allocate 2 (suggest d) (dir_map d) = Some (Inr (n, m))" "n < capacity m" "fm_ok m"
      "used m = dir_used d" "n \<notin> used m"
    by (auto simp: dir_ok_def dir_used_def numeral_2_eq_2 simp del: allocate.simps)
  have n: "n < 2 ^ 24" using al(2) fm_capacity [OF al(3)] by (rule less_le_trans)
  from setBit_spec [OF al(3) n al(5)] obtain m1 where "setBit n m = Inr m1" "fm_ok m1" "used m1 = insert n (used m)"
    by blast
  then show ?thesis unfolding if_not_P [OF False]
    using al n by (intro exI [of _ n] exI [of _ "d\<lparr>dir_map := m1, suggest := n + 1\<rparr>"] conjI)
      (simp_all add: mapBitAllocate_def dir_ok_def dir_used_def)
qed

lemma mapBitReset_spec:
  assumes "dir_ok d"
  shows "\<exists>d'. mapBitReset n d = Inr d' \<and> dir_ok d' \<and> dir_used d' = dir_used d - {n}"
proof (cases "n \<in> used (dir_map d)")
  case True
  with clearBit_spec [of "dir_map d" n] assms show ?thesis
    by (auto simp: mapBitReset_def testBit_used dir_ok_def dir_used_def)
next
  case False
  with assms show ?thesis by (simp add: mapBitReset_def testBit_used dir_used_def)
qed

interpretation ufs: number_allocator dir_ok dir_used "2 ^ 24" mapBitAllocate mapBitReset
proof unfold_locales
  fix d n assume ok: "dir_ok d"
  show "dir_used d \<subseteq> {..<2 ^ 24}"
    using ok fm_capacity [of "dir_map d"] used_below less_le_trans
    unfolding dir_ok_def dir_used_def by blast
  show "\<exists>n s'. mapBitAllocate d = Inr (n, s') \<and> n < 2 ^ 24 \<and> n \<notin> dir_used d \<and> dir_ok s' \<and>
      dir_used s' = insert n (dir_used d)" if "dir_used d \<noteq> {..<2 ^ 24}"
    using mapBitAllocate_spec [OF ok] that by presburger
  show "mapBitAllocate d = Inl AssertFault" if "dir_used d = {..<2 ^ 24}"
    using mapBitAllocate_spec [OF ok] that by presburger
  show "\<exists>s'. mapBitReset n d = Inr s' \<and> dir_ok s' \<and> dir_used s' = dir_used d - {n}"
    using ok by (rule mapBitReset_spec)
qed

section \<open>Properties\<close>

definition new_dir :: ufs_dir where
  "new_dir = \<lparr>dir_map = new_file_map, suggest = 0\<rparr>"

lemma new_dir_ok: "dir_ok new_dir" "dir_used new_dir = {}"
  using new_file_map_ok by (simp_all add: new_dir_def dir_ok_def dir_used_def)

fun allocate_many :: "nat \<Rightarrow> ufs_dir \<Rightarrow> (nat list \<times> ufs_dir) outcome" where
  "allocate_many 0 d = Inr ([], d)"
| "allocate_many (Suc k) d =
     bindE (mapBitAllocate d) (\<lambda>(n, d1). bindE (allocate_many k d1) (\<lambda>(ns, d2). Inr (n # ns, d2)))"

lemma allocate_many_alloc: "allocate_many k d = ufs.alloc_many k d"
  by (induction k arbitrary: d) simp_all

text \<open>
  C8. A cache directory can always allocate as many file numbers as are left below \<open>2^24\<close>: the search and the
  growing terminate without a failed assertion and without touching memory outside the bitmap, the
  numbers are distinct and none was in use before, exactly they become used, and \<^verbatim>\<open>numFilesInMap()\<close>
  counts them.
\<close>

theorem ufs_allocate_distinct:
  assumes "dir_ok d" "usedSlots (dir_map d) + k \<le> 2 ^ 24"
  shows "\<exists>ns d'. allocate_many k d = Inr (ns, d') \<and> length ns = k \<and> distinct ns \<and>
     (\<forall>n \<in> set ns. \<not> mapBitTest n d) \<and> (\<forall>n. mapBitTest n d' \<longleftrightarrow> mapBitTest n d \<or> n \<in> set ns) \<and>
     usedSlots (dir_map d') = usedSlots (dir_map d) + k"
proof -
  have "card (dir_used d) + k \<le> 2 ^ 24" using assms by (simp add: dir_ok_def dir_used_def fm_ok_def)
  from ufs.alloc_many_distinct [OF assms(1) this] obtain ns d'
    where al: "allocate_many k d = Inr (ns, d')" "dir_ok d'" "length ns = k" "distinct ns"
      "set ns \<inter> dir_used d = {}" "dir_used d' = dir_used d \<union> set ns"
    unfolding allocate_many_alloc by blast
  have "card (dir_used d \<union> set ns) = card (dir_used d) + length ns"
    using al by (subst card_Un_disjoint) (auto simp: dir_used_def distinct_card)
  then have "usedSlots (dir_map d') = usedSlots (dir_map d) + k"
    using al assms(1) by (simp add: dir_ok_def dir_used_def fm_ok_def)
  with al show ?thesis by (auto simp: mapBitTest_def testBit_used dir_used_def)
qed

theorem ufs_allocate_distinct_witness:
  "\<exists>ns d'. allocate_many 20000 new_dir = Inr (ns, d') \<and> distinct ns \<and> usedSlots (dir_map d') = 20000"
proof -
  have u: "usedSlots (dir_map new_dir) = 0" by (simp add: new_dir_def new_file_map_def)
  have "usedSlots (dir_map new_dir) + 20000 \<le> 2 ^ 24" unfolding u by simp
  from ufs_allocate_distinct [OF new_dir_ok(1) this] u show ?thesis by auto
qed

text \<open>
  \<^verbatim>\<open>mapBitReset()\<close> is safe for every number, in range or not, used or not, and keeps the count exact; a
  number just released can be set again, and when all \<open>2^24\<close> numbers are in use \<^verbatim>\<open>mapBitAllocate()\<close> fails
  the assertion of \<^verbatim>\<open>grow()\<close> instead of returning a number twice.
\<close>

theorem ufs_release_exact:
  assumes "dir_ok d"
  shows "\<exists>d'. mapBitReset n d = Inr d' \<and> dir_ok d' \<and> \<not> mapBitTest n d' \<and>
     (\<forall>i. i \<noteq> n \<longrightarrow> mapBitTest i d' = mapBitTest i d) \<and>
     usedSlots (dir_map d') = (if mapBitTest n d then usedSlots (dir_map d) - 1 else usedSlots (dir_map d)) \<and>
     (dir_used d = {..<2 ^ 24} \<longrightarrow> mapBitAllocate d = Inl AssertFault)"
proof -
  from mapBitReset_spec [OF assms] obtain d'
    where d': "mapBitReset n d = Inr d'" "dir_ok d'" "dir_used d' = dir_used d - {n}" by blast
  have "usedSlots (dir_map d') = (if mapBitTest n d then usedSlots (dir_map d) - 1 else usedSlots (dir_map d))"
    using d'(2,3) assms by (simp add: dir_ok_def dir_used_def fm_ok_def mapBitTest_def testBit_used)
  moreover have "dir_used d = {..<2 ^ 24} \<longrightarrow> mapBitAllocate d = Inl AssertFault"
    using ufs.alloc_full [OF assms] by (rule impI)
  moreover have "\<not> mapBitTest n d'" "\<forall>i. i \<noteq> n \<longrightarrow> mapBitTest i d' = mapBitTest i d"
    using d'(3) by (auto simp: mapBitTest_def testBit_used dir_used_def)
  ultimately show ?thesis using d'(1,2) by blast
qed

theorem ufs_release_exact_witness:
  "\<exists>d'. mapBitReset 99999999 new_dir = Inr d' \<and> \<not> mapBitTest 99999999 d'"
  using ufs_release_exact [OF new_dir_ok(1), of 99999999] by blast

end
