(* ===== verification/Event_Scheduler.thy ===== *)
theory Event_Scheduler
  imports Complex_Main Squid_Prelude "HOL-Library.Multiset"
begin

text \<open>
  The time-based event queue of \<^verbatim>\<open>src/event.cc\<close>: a singly linked list of events kept in order of time,
  drained by \<^verbatim>\<open>checkEvents()\<close> into the asynchronous call queue.  Time stamps are rational numbers
  (rounding of doubles is not modelled), handlers and arguments are addresses with 0 as the null
  pointer, and the validity of callback data is a parameter.
\<close>

section \<open>Events\<close>

record ev_entry =
  ev_name :: string
  func :: nat
  arg :: nat
  ev_when :: rat
  weight :: int
  cbdata :: bool

text \<open>What \<^verbatim>\<open>asyncCall(41, 5, name, EventDialer(func, arg, cbdata))\<close> records.\<close>

record event_dialer =
  call_name :: string
  theHandler :: nat
  theArg :: nat
  isLockedArg :: bool

record scheduler =
  tasks :: "ev_entry list"
  async_calls :: "event_dialer list"
  current_dtime :: rat
  last_event_ran :: string

definition canDial :: "(nat \<Rightarrow> bool) \<Rightarrow> event_dialer \<Rightarrow> bool" where
  "canDial valid d \<longleftrightarrow> \<not> (isLockedArg d \<and> \<not> valid (theArg d))"

section \<open>Operations\<close>

fun insert_event :: "ev_entry \<Rightarrow> ev_entry list \<Rightarrow> ev_entry list" where
  "insert_event e [] = [e]"
| "insert_event e (x # xs) = (if ev_when x > ev_when e then e # x # xs else x # insert_event e xs)"

definition new_event :: "string \<Rightarrow> nat \<Rightarrow> nat \<Rightarrow> rat \<Rightarrow> int \<Rightarrow> bool \<Rightarrow> rat \<Rightarrow> ev_entry" where
  "new_event name fn a when w cb now =
     \<lparr>ev_name = name, func = fn, arg = a, ev_when = (if when > 0 then now + when else 0), weight = w, cbdata = cb\<rparr>"

definition schedule :: "string \<Rightarrow> nat \<Rightarrow> nat \<Rightarrow> rat \<Rightarrow> int \<Rightarrow> bool \<Rightarrow> scheduler \<Rightarrow> scheduler" where
  "schedule name fn a when w cb s =
     s\<lparr>tasks := insert_event (new_event name fn a when w cb (current_dtime s)) (tasks s)\<rparr>"

text \<open>\<^verbatim>\<open>eventAddIsh()\<close>; the value of \<^verbatim>\<open>drand48()\<close> is the parameter \<open>rnd\<close>, from \<open>[0, 1)\<close>.\<close>

definition ish_delay :: "rat \<Rightarrow> rat \<Rightarrow> rat" where
  "ish_delay rnd delta_ish =
     (if delta_ish \<ge> 3 then let two_third = 2 * delta_ish / 3 in two_third + rnd * two_third else delta_ish)"

definition eventAddIsh :: "rat \<Rightarrow> string \<Rightarrow> nat \<Rightarrow> nat \<Rightarrow> rat \<Rightarrow> int \<Rightarrow> scheduler \<Rightarrow> scheduler" where
  "eventAddIsh rnd name fn a delta_ish w s = schedule name fn a (ish_delay rnd delta_ish) w True s"

text \<open>
  \<^verbatim>\<open>cancel()\<close>; the flag tells whether the loop ended by the \<^verbatim>\<open>return\<close> after a deletion.  After deleting an
  event for a null argument the \<^verbatim>\<open>for\<close> statement still advances, past the event that followed it.
\<close>

fun cancel_loop :: "nat \<Rightarrow> nat \<Rightarrow> ev_entry list \<Rightarrow> ev_entry list \<times> bool" where
  "cancel_loop fn a [] = ([], False)"
| "cancel_loop fn a (e # es) =
     (if func e \<noteq> fn \<or> (a \<noteq> 0 \<and> arg e \<noteq> a)
      then let (es', returned) = cancel_loop fn a es in (e # es', returned)
      else if a \<noteq> 0 then (es, True)
      else case es of
             [] \<Rightarrow> ([], False)
           | x # xs \<Rightarrow> let (xs', returned) = cancel_loop fn a xs in (x # xs', returned))"

text \<open>The second component is the call of \<^verbatim>\<open>debug_trap("eventDelete: event not found")\<close>.\<close>

definition cancel :: "nat \<Rightarrow> nat \<Rightarrow> scheduler \<Rightarrow> scheduler \<times> bool" where
  "cancel fn a s =
     (let (es, returned) = cancel_loop fn a (tasks s)
      in (s\<lparr>tasks := es\<rparr>, a \<noteq> 0 \<and> \<not> returned))"

definition trunc :: "rat \<Rightarrow> int" where
  "trunc r = (if r \<ge> 0 then floor r else ceiling r)"

definition EVENT_IDLE :: int where
  "EVENT_IDLE = - 1"

definition checkDelay :: "scheduler \<Rightarrow> int" where
  "checkDelay s =
     (case tasks s of
        [] \<Rightarrow> EVENT_IDLE
      | e # _ \<Rightarrow> let result = trunc ((ev_when e - current_dtime s) * 1000) in if result < 0 then 0 else result)"

definition event_call :: "ev_entry \<Rightarrow> event_dialer" where
  "event_call e = \<lparr>call_name = ev_name e, theHandler = func e, theArg = arg e, isLockedArg = cbdata e\<rparr>"

definition heavy :: "(nat \<Rightarrow> bool) \<Rightarrow> ev_entry \<Rightarrow> bool" where
  "heavy valid e \<longleftrightarrow> weight e \<noteq> 0 \<and> (\<not> cbdata e \<or> valid (arg e))"

function check_loop :: "(nat \<Rightarrow> bool) \<Rightarrow> scheduler \<Rightarrow> scheduler" where
  "check_loop valid s =
     (case tasks s of
        [] \<Rightarrow> s
      | e # es \<Rightarrow>
          if ev_when e > current_dtime s then s
          else let s1 = s\<lparr>tasks := es, async_calls := async_calls s @ [event_call e], last_event_ran := ev_name e\<rparr>
               in if heavy valid e then s1 else check_loop valid s1)"
  by auto
termination by (relation "measure (\<lambda>(_, s). length (tasks s))") auto

declare check_loop.simps [simp del]

definition checkEvents :: "(nat \<Rightarrow> bool) \<Rightarrow> scheduler \<Rightarrow> int \<times> scheduler" where
  "checkEvents valid s =
     (if tasks s = [] then (checkDelay s, s)
      else if ev_when (hd (tasks s)) > current_dtime s then (checkDelay s, s)
      else let s1 = check_loop valid s in (checkDelay s1, s1))"

definition clean :: "scheduler \<Rightarrow> scheduler" where
  "clean s = s\<lparr>tasks := []\<rparr>"

fun event_find :: "nat \<Rightarrow> nat \<Rightarrow> ev_entry list \<Rightarrow> bool" where
  "event_find fn a [] = False"
| "event_find fn a (e # es) = ((func e = fn \<and> arg e = a) \<or> event_find fn a es)"

section \<open>Order\<close>

lemma insert_event_mset: "mset (insert_event e es) = add_mset e (mset es)"
  by (induction es) auto

lemma insert_event_set: "set (insert_event e es) = insert e (set es)"
  by (metis insert_event_mset set_mset_add_mset_insert set_mset_mset)

lemma insert_event_sorted: "sorted (map ev_when es) \<Longrightarrow> sorted (map ev_when (insert_event e es))"
  by (induction es) (auto simp: insert_event_set)

lemma insert_event_stable:
  assumes "sorted (map ev_when es)"
  shows "filter (\<lambda>x. t = ev_when x) (insert_event e es) =
     filter (\<lambda>x. t = ev_when x) es @ (if t = ev_when e then [e] else [])"
  using assms
proof (induction es)
  case (Cons x xs)
  show ?case
  proof (cases "ev_when x > ev_when e")
    case True
    then have "filter (\<lambda>y. ev_when e = ev_when y) (x # xs) = []"
      using Cons.prems by (auto simp: filter_empty_conv)
    with True show ?thesis by auto
  qed (use Cons in auto)
qed simp

lemma insert_events_sort: "foldl (\<lambda>es e. insert_event e es) [] evs = sort_key ev_when evs"
proof (rule sym, rule properties_for_sort_key)
  show "mset (foldl (\<lambda>es e. insert_event e es) [] evs) = mset evs"
    by (induction evs rule: rev_induct) (simp_all add: insert_event_mset)
  have sorted: "sorted (map ev_when (foldl (\<lambda>es e. insert_event e es) [] evs))" for evs
    by (induction evs rule: rev_induct) (simp_all add: insert_event_sorted)
  then show "sorted (map ev_when (foldl (\<lambda>es e. insert_event e es) [] evs))" .
  show "filter (\<lambda>x. ev_when k = ev_when x) (foldl (\<lambda>es e. insert_event e es) [] evs) =
      filter (\<lambda>x. ev_when k = ev_when x) evs" for k
    by (induction evs rule: rev_induct) (simp_all add: insert_event_stable [OF sorted])
qed

section \<open>Dispatch\<close>

text \<open>
  \<open>dispatched\<close>: from \<open>s\<close> to \<open>s'\<close> exactly the events \<open>fired\<close>, a prefix of the queue, went to the call queue
  in order; all were due, none but the last was heavy, and the next one is not due unless the last
  one was heavy.
\<close>

definition dispatched :: "(nat \<Rightarrow> bool) \<Rightarrow> scheduler \<Rightarrow> scheduler \<Rightarrow> ev_entry list \<Rightarrow> ev_entry list \<Rightarrow> bool" where
  "dispatched valid s s' fired rest \<longleftrightarrow> tasks s = fired @ rest \<and> tasks s' = rest \<and>
     async_calls s' = async_calls s @ map event_call fired \<and> current_dtime s' = current_dtime s \<and>
     (\<forall>e \<in> set fired. ev_when e \<le> current_dtime s) \<and> (\<forall>e \<in> set (butlast fired). \<not> heavy valid e) \<and>
     (rest = [] \<or> ev_when (hd rest) > current_dtime s \<or> (fired \<noteq> [] \<and> heavy valid (last fired)))"

lemma dispatched_Cons:
  assumes "dispatched valid (s\<lparr>tasks := es, async_calls := async_calls s @ [event_call e],
      last_event_ran := ev_name e\<rparr>) s' fired rest"
    and "tasks s = e # es" "ev_when e \<le> current_dtime s" "\<not> heavy valid e"
  shows "dispatched valid s s' (e # fired) rest"
  using assms by (auto simp: dispatched_def)

lemma check_loop_spec: "\<exists>fired rest. dispatched valid s (check_loop valid s) fired rest"
proof (induction valid s rule: check_loop.induct)
  case (1 valid s)
  show ?case
  proof (cases "tasks s")
    case Nil
    then show ?thesis by (simp add: check_loop.simps dispatched_def)
  next
    case (Cons e es)
    let ?s1 = "s\<lparr>tasks := es, async_calls := async_calls s @ [event_call e], last_event_ran := ev_name e\<rparr>"
    consider (later) "ev_when e > current_dtime s" | (stop) "\<not> ev_when e > current_dtime s" "heavy valid e"
      | (go) "\<not> ev_when e > current_dtime s" "\<not> heavy valid e" by blast
    then show ?thesis
    proof cases
      case later
      with Cons show ?thesis
        by (intro exI [of _ "[]"] exI [of _ "e # es"]) (simp add: check_loop.simps dispatched_def)
    next
      case stop
      with Cons show ?thesis
        by (intro exI [of _ "[e]"] exI [of _ es]) (simp add: check_loop.simps [of valid s] dispatched_def)
    next
      case go
      with 1 Cons obtain fired rest where "dispatched valid ?s1 (check_loop valid ?s1) fired rest" by blast
      with go Cons have "dispatched valid s (check_loop valid ?s1) (e # fired) rest"
        by (intro dispatched_Cons) auto
      moreover have "check_loop valid s = check_loop valid ?s1"
        using go Cons by (simp add: check_loop.simps [of valid s])
      ultimately show ?thesis by metis
    qed
  qed
qed

lemma checkEvents_loop: "snd (checkEvents valid s) = check_loop valid s"
  by (auto simp: checkEvents_def Let_def check_loop.simps [of valid s] split: list.splits)

lemma checkEvents_delay: "fst (checkEvents valid s) = checkDelay (snd (checkEvents valid s))"
  by (simp add: checkEvents_def Let_def)

section \<open>Cancellation\<close>

definition matches :: "nat \<Rightarrow> nat \<Rightarrow> ev_entry \<Rightarrow> bool" where
  "matches fn a e \<longleftrightarrow> func e = fn \<and> (a = 0 \<or> arg e = a)"

lemma cancel_with_arg:
  assumes "a \<noteq> 0"
  shows "cancel_loop fn a es =
     (takeWhile (\<lambda>e. \<not> matches fn a e) es @ tl (dropWhile (\<lambda>e. \<not> matches fn a e) es),
      \<exists>e \<in> set es. matches fn a e)"
  using assms by (induction es) (auto simp: matches_def)

fun no_two_adjacent :: "('a \<Rightarrow> bool) \<Rightarrow> 'a list \<Rightarrow> bool" where
  "no_two_adjacent P (x # y # ys) \<longleftrightarrow> \<not> (P x \<and> P y) \<and> no_two_adjacent P (y # ys)"
| "no_two_adjacent P _ \<longleftrightarrow> True"

lemma no_two_adjacent_Cons: "no_two_adjacent P (x # xs) \<Longrightarrow> no_two_adjacent P xs"
  by (cases xs) auto

lemma cancel_all_separate:
  "no_two_adjacent (matches fn 0) es \<Longrightarrow>
   fst (cancel_loop fn 0 es) = filter (\<lambda>e. \<not> matches fn 0 e) es"
proof (induction fn "0 :: nat" es rule: cancel_loop.induct)
  case (2 fn e es)
  show ?case
  proof (cases "matches fn 0 e")
    case False
    with 2 no_two_adjacent_Cons [OF "2.prems"] show ?thesis by (simp add: matches_def case_prod_unfold)
  next
    case True
    show ?thesis
    proof (cases es)
      case (Cons x xs)
      with True "2.prems" have "\<not> matches fn 0 x" "no_two_adjacent (matches fn 0) xs"
        by (auto dest: no_two_adjacent_Cons)
      with True Cons "2.hyps"(2) [of x xs] show ?thesis by (simp add: matches_def case_prod_unfold)
    qed (use True in \<open>simp add: matches_def\<close>)
  qed
qed simp

lemma cancel_skips:
  assumes "\<forall>e \<in> set es. \<not> matches fn 0 e" "matches fn 0 x" "matches fn 0 y"
  shows "fst (cancel_loop fn 0 (es @ x # y # ys)) = es @ y # fst (cancel_loop fn 0 ys)"
  using assms by (induction es) (auto simp: matches_def case_prod_unfold Let_def)

section \<open>Properties\<close>

fun schedule_all :: "(string \<times> nat \<times> nat \<times> rat \<times> int \<times> bool) list \<Rightarrow> scheduler \<Rightarrow> scheduler" where
  "schedule_all [] s = s"
| "schedule_all ((n, f, a, t, w, c) # evs) s = schedule_all evs (schedule n f a t w c s)"

definition events_of :: "rat \<Rightarrow> (string \<times> nat \<times> nat \<times> rat \<times> int \<times> bool) list \<Rightarrow> ev_entry list" where
  "events_of now evs = map (\<lambda>(n, f, a, t, w, c). new_event n f a t w c now) evs"

lemma schedule_all_foldl:
  "tasks (schedule_all evs s) = foldl (\<lambda>es e. insert_event e es) (tasks s) (events_of (current_dtime s) evs)"
proof (induction evs arbitrary: s)
  case (Cons ev evs)
  then show ?case by (cases ev) (simp add: schedule_def events_of_def)
qed (simp add: events_of_def)


definition idle_scheduler :: scheduler where
  "idle_scheduler = \<lparr>tasks = [], async_calls = [], current_dtime = 100, last_event_ran = []\<rparr>"


text \<open>
  \<^verbatim>\<open>checkEvents()\<close> on a sorted queue dispatches due events only, in queue order, each exactly once, and
  stops only at an event that is not due, at the end of the queue, or after a heavy event; the queue
  keeps the rest and stays sorted, and unless a heavy event stopped it no due event is left behind.
  The returned delay is that of the new head: 0 when it is due, never negative except for \<^verbatim>\<open>EVENT_IDLE\<close>.
\<close>

theorem event_dispatch:
  assumes "sorted (map ev_when (tasks s))" "checkEvents valid s = (delay, s')"
  shows "\<exists>fired rest. dispatched valid s s' fired rest \<and> sorted (map ev_when (tasks s')) \<and>
     ((\<exists>e \<in> set rest. ev_when e \<le> current_dtime s) \<longrightarrow> fired \<noteq> [] \<and> heavy valid (last fired)) \<and>
     delay = checkDelay s' \<and> (delay = EVENT_IDLE \<longleftrightarrow> rest = []) \<and> (rest \<noteq> [] \<longrightarrow> 0 \<le> delay)"
proof -
  have s': "s' = check_loop valid s" and d: "delay = checkDelay s'"
    using checkEvents_loop [of valid s] checkEvents_delay [of valid s] assms(2) by simp_all
  obtain fired rest where f: "dispatched valid s s' fired rest" using check_loop_spec s' by blast
  then have srt: "sorted (map ev_when rest)" and t: "tasks s' = rest"
    using assms(1) by (auto simp: dispatched_def sorted_append)
  have late: "(\<exists>e \<in> set rest. ev_when e \<le> current_dtime s) \<longrightarrow> fired \<noteq> [] \<and> heavy valid (last fired)"
    using f srt by (cases rest) (fastforce simp: dispatched_def)+
  have "(delay = EVENT_IDLE \<longleftrightarrow> rest = []) \<and> (rest \<noteq> [] \<longrightarrow> 0 \<le> delay)"
    using d t by (cases rest) (auto simp: checkDelay_def EVENT_IDLE_def Let_def)
  with f srt t late d show ?thesis by blast
qed

theorem event_dispatch_witness:
  "\<exists>fired rest. dispatched (\<lambda>_. True) (schedule ''b'' 2 0 0 1 False idle_scheduler)
     (snd (checkEvents (\<lambda>_. True) (schedule ''b'' 2 0 0 1 False idle_scheduler))) fired rest"
proof -
  let ?s = "schedule ''b'' 2 0 0 1 False idle_scheduler"
  have "sorted (map ev_when (tasks ?s))" by (simp add: schedule_def idle_scheduler_def)
  from event_dispatch [OF this, of "\<lambda>_. True"] show ?thesis by (metis prod.collapse)
qed

text \<open>
  \<^verbatim>\<open>cancel()\<close>: with an argument it removes exactly the first event of that handler and argument and traps
  iff there is none.  With a null argument, documented to delete multiple events, it deletes all
  events of the handler only when no two of them are adjacent; of two adjacent ones the second
  survives.
\<close>

theorem event_cancel:
  "cancel fn a s = (s', trapped) \<Longrightarrow>
   (a \<noteq> 0 \<longrightarrow> tasks s' = takeWhile (\<lambda>e. \<not> matches fn a e) (tasks s) @ tl (dropWhile (\<lambda>e. \<not> matches fn a e) (tasks s)) \<and>
      (trapped \<longleftrightarrow> \<not> event_find fn a (tasks s))) \<and>
   (a = 0 \<longrightarrow> \<not> trapped \<and>
      (no_two_adjacent (matches fn 0) (tasks s) \<longrightarrow> tasks s' = filter (\<lambda>e. func e \<noteq> fn) (tasks s)) \<and>
      (\<forall>es x y ys. tasks s = es @ x # y # ys \<and> (\<forall>e \<in> set es. func e \<noteq> fn) \<and> func x = fn \<and> func y = fn \<longrightarrow>
         y \<in> set (tasks s')))"
proof -
  assume c: "cancel fn a s = (s', trapped)"
  then have t: "tasks s' = fst (cancel_loop fn a (tasks s))"
    "trapped \<longleftrightarrow> a \<noteq> 0 \<and> \<not> snd (cancel_loop fn a (tasks s))"
    by (auto simp: cancel_def case_prod_unfold Let_def)
  have find: "event_find fn a es \<longleftrightarrow> (\<exists>e \<in> set es. matches fn a e)" if "a \<noteq> 0" for es
    using that by (induction es) (auto simp: matches_def)
  have skip: "y \<in> set (tasks s')"
    if "a = 0" "tasks s = es @ x # y # ys \<and> (\<forall>e \<in> set es. func e \<noteq> fn) \<and> func x = fn \<and> func y = fn"
    for es x y ys
    using that t(1) cancel_skips [of es fn x y ys] by (auto simp: matches_def)
  have all: "tasks s' = filter (\<lambda>e. func e \<noteq> fn) (tasks s)"
    if "a = 0" "no_two_adjacent (matches fn 0) (tasks s)"
    using t(1) that cancel_all_separate [OF that(2)] by (simp add: matches_def)
  show ?thesis using t find skip all by (auto simp: cancel_with_arg)
qed

definition twin_events :: scheduler where
  "twin_events = schedule_all [(''e'', 7, 1, 1, 0, False), (''e'', 7, 2, 2, 0, False)] idle_scheduler"

theorem event_cancel_witness:
  "cancel 7 2 twin_events = (twin_events\<lparr>tasks := [hd (tasks twin_events)]\<rparr>, False) \<and>
   tl (tasks twin_events) = tasks (fst (cancel 7 0 twin_events))"
proof -
  obtain s' tr where c: "cancel 7 0 twin_events = (s', tr)" by fastforce
  from event_cancel [OF c] have "\<not> tr" by simp
  then show ?thesis
    by (simp add: twin_events_def idle_scheduler_def schedule_def new_event_def cancel_def)
qed

end
