(* ===== verification/Splay_Tree.thy ===== *)
theory Splay_Tree
  imports Squid_Prelude "HOL-Library.Tree"
begin

text \<open>
  The splay trees of \<^verbatim>\<open>include/splay.h\<close>.  \<^verbatim>\<open>SplayNode\<close> is the library's binary tree, a null pointer its
  leaf.  The comparison function applied to the searched value is the parameter \<open>cmp\<close> (negative:
  the searched value comes first); the global \<^verbatim>\<open>splayLastResult\<close> is returned beside the tree.
  The tree is shown to implement a sorted list with search, insertion and removal.
\<close>

section \<open>Top-down splaying\<close>

text \<open>
  The trees hanging under the local node \<^verbatim>\<open>N\<close>: \<open>l\<close> lists, last linked first, the nodes linked left with their
  left subtrees, \<open>r\<close> the nodes linked right with their right subtrees.
\<close>

fun hang_left :: "('a tree \<times> 'a) list \<Rightarrow> 'a tree \<Rightarrow> 'a tree" where
  "hang_left [] t = t"
| "hang_left ((lt, a) # l) t = hang_left l (Node lt a t)"

fun hang_right :: "('a \<times> 'a tree) list \<Rightarrow> 'a tree \<Rightarrow> 'a tree" where
  "hang_right [] t = t"
| "hang_right ((a, rt) # r) t = hang_right r (Node t a rt)"

fun splay_assemble :: "('a tree \<times> 'a) list \<Rightarrow> ('a \<times> 'a tree) list \<Rightarrow> 'a tree \<Rightarrow> 'a tree" where
  "splay_assemble l r Leaf = Leaf"
| "splay_assemble l r (Node tL td tR) = Node (hang_left l tL) td (hang_right r tR)"

text \<open>The loop of \<^verbatim>\<open>SplayNode::splay()\<close>.\<close>

function splay_loop :: "('a \<Rightarrow> int) \<Rightarrow> ('a tree \<times> 'a) list \<Rightarrow> ('a \<times> 'a tree) list \<Rightarrow> 'a tree \<Rightarrow> 'a tree \<times> int" where
  "splay_loop cmp l r Leaf = (Leaf, - 1)"
| "splay_loop cmp l r (Node tL td tR) =
     (let c = cmp td in
      if c < 0 then
        case tL of
          Leaf \<Rightarrow> (splay_assemble l r (Node tL td tR), c)
        | Node yl yd yr \<Rightarrow>
            (let c2 = cmp yd in
             if c2 < 0 then
               case yl of
                 Leaf \<Rightarrow> (splay_assemble l r (Node yl yd (Node yr td tR)), c2)
               | Node _ _ _ \<Rightarrow> splay_loop cmp l ((yd, Node yr td tR) # r) yl
             else splay_loop cmp l ((td, tR) # r) tL)
      else if c > 0 then
        case tR of
          Leaf \<Rightarrow> (splay_assemble l r (Node tL td tR), c)
        | Node yl yd yr \<Rightarrow>
            (let c2 = cmp yd in
             if c2 > 0 then
               case yr of
                 Leaf \<Rightarrow> (splay_assemble l r (Node (Node tL td yl) yd yr), c2)
               | Node _ _ _ \<Rightarrow> splay_loop cmp ((Node tL td yl, yd) # l) r yr
             else splay_loop cmp ((tL, td) # l) r tR)
      else (splay_assemble l r (Node tL td tR), c))"
  by pat_completeness auto
termination by (relation "measure (\<lambda>(_, _, _, t). size t)") auto

declare splay_loop.simps(2) [simp del]

definition splay :: "('a \<Rightarrow> int) \<Rightarrow> 'a tree \<Rightarrow> 'a tree \<times> int" where
  "splay cmp t = splay_loop cmp [] [] t"

section \<open>Node operations\<close>

fun node_start :: "'a tree \<Rightarrow> 'a option" where
  "node_start Leaf = None"
| "node_start (Node l a r) = (if l \<noteq> Leaf then node_start l else Some a)"

fun node_finish :: "'a tree \<Rightarrow> 'a option" where
  "node_finish Leaf = None"
| "node_finish (Node l a r) = (if r \<noteq> Leaf then node_finish r else Some a)"

fun node_walk :: "('a \<Rightarrow> 's \<Rightarrow> 's) \<Rightarrow> 'a tree \<Rightarrow> 's \<Rightarrow> 's" where
  "node_walk walkee Leaf s = s"
| "node_walk walkee (Node l a r) s = node_walk walkee r (walkee a (node_walk walkee l s))"

definition node_remove :: "('a \<Rightarrow> int) \<Rightarrow> 'a tree \<Rightarrow> 'a tree" where
  "node_remove cmp t =
     (case t of
        Leaf \<Rightarrow> Leaf
      | Node _ _ _ \<Rightarrow>
          (case splay cmp t of
             (Leaf, _) \<Rightarrow> Leaf
           | (Node rl ra rr, res) \<Rightarrow>
               if res = 0 then
                 (if rl = Leaf then rr
                  else case fst (splay cmp rl) of Leaf \<Rightarrow> rr | Node nl na _ \<Rightarrow> Node nl na rr)
               else Node rl ra rr))"

definition node_insert :: "('a \<Rightarrow> int) \<Rightarrow> 'a \<Rightarrow> 'a tree \<Rightarrow> 'a tree \<times> int" where
  "node_insert cmp x t =
     (case splay cmp t of
        (Leaf, res) \<Rightarrow> (Node Leaf x Leaf, res)
      | (Node tL td tR, res) \<Rightarrow>
          if res < 0 then (Node tL x (Node Leaf td tR), res)
          else if res > 0 then (Node (Node tL td Leaf) x tR, res)
          else (Node tL td tR, res))"

section \<open>The container\<close>

record 'a splay_set =
  head :: "'a tree"
  elements :: nat

definition new_splay :: "'a splay_set" where
  "new_splay = \<lparr>head = Leaf, elements = 0\<rparr>"

fun node_data :: "'a tree \<Rightarrow> 'a option" where
  "node_data Leaf = None"
| "node_data (Node l a r) = Some a"

definition splay_find :: "('a \<Rightarrow> int) \<Rightarrow> 'a splay_set \<Rightarrow> 'a option \<times> 'a splay_set" where
  "splay_find cmp s =
     (let (t, res) = splay cmp (head s)
      in (if res \<noteq> 0 then None else node_data t, s\<lparr>head := t\<rparr>))"

definition splay_insert :: "('a \<Rightarrow> int) \<Rightarrow> 'a \<Rightarrow> 'a splay_set \<Rightarrow> 'a splay_set outcome" where
  "splay_insert cmp x s =
     (let (r, s1) = splay_find cmp s
      in guardE (r = None) AssertFault
           (Inr (s1\<lparr>head := fst (node_insert cmp x (head s1)), elements := elements s1 + 1\<rparr>)))"

definition splay_remove :: "('a \<Rightarrow> int) \<Rightarrow> 'a splay_set \<Rightarrow> 'a splay_set outcome" where
  "splay_remove cmp s =
     (let (r, s1) = splay_find cmp s
      in guardE (r \<noteq> None) AssertFault
           (Inr (s1\<lparr>head := node_remove cmp (head s1), elements := elements s1 - 1\<rparr>)))"

definition splay_start :: "'a splay_set \<Rightarrow> 'a option" where
  "splay_start s = node_start (head s)"

definition splay_finish :: "'a splay_set \<Rightarrow> 'a option" where
  "splay_finish s = node_finish (head s)"

definition splay_size :: "'a splay_set \<Rightarrow> nat" where
  "splay_size s = elements s"

definition splay_destroy :: "'a splay_set \<Rightarrow> 'a splay_set" where
  "splay_destroy s = s\<lparr>head := Leaf, elements := 0\<rparr>"

text \<open>The iterator: its stack \<^verbatim>\<open>toVisit\<close> with the top first.\<close>

fun addLeftPath :: "'a tree \<Rightarrow> 'a tree list \<Rightarrow> 'a tree list" where
  "addLeftPath Leaf toVisit = toVisit"
| "addLeftPath (Node l a r) toVisit = addLeftPath l (Node l a r # toVisit)"

fun advance :: "'a tree list \<Rightarrow> 'a tree list" where
  "advance [] = []"
| "advance [_] = []"
| "advance (_ # cur # toVisit) = cur # addLeftPath (right cur) toVisit"

fun visited :: "nat \<Rightarrow> 'a tree list \<Rightarrow> 'a list" where
  "visited n [] = []"
| "visited 0 (t # ts) = []"
| "visited (Suc n) (t # ts) = value t # visited n (advance (t # ts))"

section \<open>Splaying rearranges nothing in order\<close>

definition seq_left :: "('a tree \<times> 'a) list \<Rightarrow> 'a list" where
  "seq_left l = concat (map (\<lambda>(t, a). inorder t @ [a]) (rev l))"

definition seq_right :: "('a \<times> 'a tree) list \<Rightarrow> 'a list" where
  "seq_right r = concat (map (\<lambda>(a, t). a # inorder t) r)"

lemma seq_Cons [simp]:
  "seq_left [] = []" "seq_left ((t, a) # l) = seq_left l @ inorder t @ [a]"
  "seq_right [] = []" "seq_right ((a, t) # r) = a # inorder t @ seq_right r"
  by (simp_all add: seq_left_def seq_right_def)

lemma inorder_hang_left: "inorder (hang_left l t) = seq_left l @ inorder t"
  by (induction l t rule: hang_left.induct) simp_all

lemma inorder_hang_right: "inorder (hang_right r t) = inorder t @ seq_right r"
  by (induction r t rule: hang_right.induct) simp_all

text \<open>
  What \<^verbatim>\<open>splay()\<close> achieves on a non-empty tree whose elements are in order with respect to the
  searched value: the root separates what comes before the value from what comes after it.
\<close>

definition in_order :: "('a \<Rightarrow> int) \<Rightarrow> 'a list \<Rightarrow> bool" where
  "in_order cmp xs \<longleftrightarrow> sorted_wrt (\<lambda>x y. (cmp x \<le> 0 \<longrightarrow> cmp y < 0)) xs"

text \<open>The weaker order of a search that several elements may match.\<close>

definition weak_order :: "('a \<Rightarrow> int) \<Rightarrow> 'a list \<Rightarrow> bool" where
  "weak_order cmp xs \<longleftrightarrow> sorted_wrt (\<lambda>x y. (cmp x \<le> 0 \<longrightarrow> cmp y \<le> 0) \<and> (cmp x < 0 \<longrightarrow> cmp y < 0)) xs"

definition separates :: "('a \<Rightarrow> int) \<Rightarrow> 'a tree \<times> int \<Rightarrow> 'a list \<Rightarrow> bool" where
  "separates cmp p xs \<longleftrightarrow>
     (\<exists>l a r. fst p = Node l a r \<and> xs = inorder l @ a # inorder r \<and> snd p = cmp a \<and>
        (cmp a \<noteq> 0 \<longrightarrow> (\<forall>x \<in> set (inorder l). 0 < cmp x) \<and> (\<forall>x \<in> set (inorder r). cmp x < 0)))"

lemma in_order_append:
  "in_order cmp (xs @ ys) \<longleftrightarrow> in_order cmp xs \<and> in_order cmp ys \<and>
     (\<forall>x \<in> set xs. \<forall>y \<in> set ys. cmp x \<le> 0 \<longrightarrow> cmp y < 0)"
  by (simp add: in_order_def sorted_wrt_append)

lemma in_order_Cons:
  "in_order cmp (x # xs) \<longleftrightarrow> (cmp x \<le> 0 \<longrightarrow> (\<forall>y \<in> set xs. cmp y < 0)) \<and> in_order cmp xs"
  by (auto simp: in_order_def)

lemma in_order_Nil [simp]: "in_order cmp []" "weak_order cmp []"
  by (simp_all add: in_order_def weak_order_def)

lemma weak_order_append:
  "weak_order cmp (xs @ ys) \<longleftrightarrow> weak_order cmp xs \<and> weak_order cmp ys \<and>
     (\<forall>x \<in> set xs. \<forall>y \<in> set ys. (cmp x \<le> 0 \<longrightarrow> cmp y \<le> 0) \<and> (cmp x < 0 \<longrightarrow> cmp y < 0))"
  by (simp add: weak_order_def sorted_wrt_append)

lemma weak_order_Cons:
  "weak_order cmp (x # xs) \<longleftrightarrow> (\<forall>y \<in> set xs. (cmp x \<le> 0 \<longrightarrow> cmp y \<le> 0) \<and> (cmp x < 0 \<longrightarrow> cmp y < 0)) \<and>
     weak_order cmp xs"
  by (auto simp: weak_order_def)

lemma in_order_weak: "in_order cmp xs \<Longrightarrow> weak_order cmp xs"
  unfolding in_order_def weak_order_def by (erule sorted_wrt_mono_rel [rotated]) auto

lemma separates_assemble:
  assumes "\<forall>x \<in> set (seq_left l). 0 < cmp x" "\<forall>x \<in> set (seq_right r). cmp x < 0"
    and "cmp td \<noteq> 0 \<longrightarrow> (\<forall>x \<in> set (inorder tL). 0 < cmp x) \<and> (\<forall>x \<in> set (inorder tR). cmp x < 0)"
  shows "separates cmp (splay_assemble l r (Node tL td tR), cmp td)
    (seq_left l @ inorder (Node tL td tR) @ seq_right r)"
  using assms
  by (auto simp: separates_def inorder_hang_left inorder_hang_right simp del: set_inorder simp flip: set_inorder)

lemma before_pos:
  assumes "weak_order cmp (xs @ a # ys)"
  shows "0 < cmp a \<Longrightarrow> \<forall>x \<in> set xs. 0 < cmp x" "cmp a < 0 \<Longrightarrow> \<forall>y \<in> set ys. cmp y < 0"
  using assms by (force simp: weak_order_append weak_order_Cons)+

lemma splay_loop_separates:
  assumes "t \<noteq> Leaf" "weak_order cmp (inorder t)"
    and "\<forall>x \<in> set (seq_left l). 0 < cmp x" "\<forall>x \<in> set (seq_right r). cmp x < 0"
  shows "separates cmp (splay_loop cmp l r t) (seq_left l @ inorder t @ seq_right r)"
  using assms
proof (induction cmp l r t rule: splay_loop.induct)
  case (2 cmp l r tL td tR)
  note io = "2.prems"(2) [simplified]
  note lr = "2.prems"(3,4)
  consider (lt) "cmp td < 0" | (gt) "cmp td > 0" | (eq) "cmp td = 0" by linarith
  then show ?case
  proof cases
    case lt
    then have right: "\<forall>x \<in> set (inorder tR). cmp x < 0" using before_pos(2) [OF io] by simp
    show ?thesis
    proof (cases tL)
      case Leaf
      with lt right lr separates_assemble [of l cmp r td Leaf tR] show ?thesis
        by (simp add: splay_loop.simps(2))
    next
      case (Node yl yd yr)
      have io': "weak_order cmp (inorder yl @ yd # (inorder yr @ td # inorder tR))" using io Node by simp
      show ?thesis
      proof (cases "cmp yd < 0")
        case True
        then have r2: "\<forall>x \<in> set (inorder (Node yr td tR)). cmp x < 0" using before_pos(2) [OF io'] by simp
        show ?thesis
        proof (cases "yl = Leaf")
          case yl: True
          with lt True Node r2 lr separates_assemble [of l cmp r yd Leaf "Node yr td tR"] show ?thesis
            by (simp add: splay_loop.simps(2))
        next
          case False
          then obtain a b c where yl: "yl = Node a b c" by (cases yl) auto
          have "weak_order cmp (inorder yl)" using io' by (simp add: weak_order_append)
          then have "separates cmp (splay_loop cmp l ((yd, Node yr td tR) # r) yl)
              (seq_left l @ inorder yl @ seq_right ((yd, Node yr td tR) # r))"
            using "2.IH"(1) [OF refl lt Node refl True yl] False lr True r2 yl by auto
          with lt Node True yl show ?thesis by (simp add: splay_loop.simps(2))
        qed
      next
        case False
        have "weak_order cmp (inorder tL)" using io by (simp add: weak_order_append)
        then have "separates cmp (splay_loop cmp l ((td, tR) # r) tL)
            (seq_left l @ inorder tL @ seq_right ((td, tR) # r))"
          using "2.IH"(2) [OF refl lt Node refl False] lr lt right Node by auto
        with lt Node False show ?thesis by (simp add: splay_loop.simps(2))
      qed
    qed
  next
    case gt
    then have left: "\<forall>x \<in> set (inorder tL). 0 < cmp x" using before_pos(1) [OF io] by simp
    show ?thesis
    proof (cases tR)
      case Leaf
      with gt left lr separates_assemble [of l cmp r td tL Leaf] show ?thesis
        by (simp add: splay_loop.simps(2))
    next
      case (Node yl yd yr)
      have io': "weak_order cmp ((inorder tL @ td # inorder yl) @ yd # inorder yr)" using io Node by simp
      show ?thesis
      proof (cases "cmp yd > 0")
        case True
        then have l2: "\<forall>x \<in> set (inorder (Node tL td yl)). 0 < cmp x" using before_pos(1) [OF io'] by simp
        show ?thesis
        proof (cases "yr = Leaf")
          case yr: True
          with gt True Node l2 lr separates_assemble [of l cmp r yd "Node tL td yl" Leaf] show ?thesis
            by (simp add: splay_loop.simps(2))
        next
          case False
          then obtain a b c where yr: "yr = Node a b c" by (cases yr) auto
          have "weak_order cmp (inorder yr)" using io' by (simp add: weak_order_append weak_order_Cons)
          then have "separates cmp (splay_loop cmp ((Node tL td yl, yd) # l) r yr)
              (seq_left ((Node tL td yl, yd) # l) @ inorder yr @ seq_right r)"
            using "2.IH"(3) [OF refl _ gt Node refl True yr] False gt lr True l2 yr by auto
          with gt Node True yr show ?thesis by (simp add: splay_loop.simps(2))
        qed
      next
        case False
        have "weak_order cmp (inorder tR)" using io by (simp add: weak_order_append weak_order_Cons)
        then have "separates cmp (splay_loop cmp ((tL, td) # l) r tR)
            (seq_left ((tL, td) # l) @ inorder tR @ seq_right r)"
          using "2.IH"(4) [OF refl _ gt Node refl False] gt lr left Node by auto
        with gt Node False show ?thesis by (simp add: splay_loop.simps(2))
      qed
    qed
  next
    case eq
    with lr separates_assemble [of l cmp r td tL tR] show ?thesis
      by (simp add: splay_loop.simps(2))
  qed
qed simp

lemma splay_separates:
  "t \<noteq> Leaf \<Longrightarrow> weak_order cmp (inorder t) \<Longrightarrow> separates cmp (splay cmp t) (inorder t)"
  using splay_loop_separates [of t cmp "[]" "[]"] by (simp add: splay_def)

section \<open>The container as a sorted list\<close>

definition splay_items :: "'a splay_set \<Rightarrow> 'a list" where
  "splay_items s = inorder (head s)"

text \<open>The three ways a list in order can stand to the searched value.\<close>

lemma splay_separates_pair:
  assumes "splay cmp t = (t', res)" "t \<noteq> Leaf" "weak_order cmp (inorder t)"
  obtains l a r where "t' = Node l a r" "inorder t = inorder l @ a # inorder r" "res = cmp a"
    "\<And>x. cmp a \<noteq> 0 \<Longrightarrow> x \<in> set (inorder l) \<Longrightarrow> 0 < cmp x" "\<And>x. cmp a \<noteq> 0 \<Longrightarrow> x \<in> set (inorder r) \<Longrightarrow> cmp x < 0"
  using splay_separates [OF assms(2,3)] unfolding assms(1) separates_def by auto

lemma splay_cases:
  assumes "splay cmp t = (t', res)" "t \<noteq> Leaf" "in_order cmp (inorder t)"
  obtains l a r where "t' = Node l a r" "inorder t = inorder l @ a # inorder r" "res = cmp a"
    "\<And>x. x \<in> set (inorder l) \<Longrightarrow> 0 < cmp x" "\<And>x. x \<in> set (inorder r) \<Longrightarrow> cmp x < 0"
proof (rule splay_separates_pair [OF assms(1,2) in_order_weak [OF assms(3)]])
  fix l a r
  assume n: "t' = Node l a r" "inorder t = inorder l @ a # inorder r" "res = cmp a"
    "\<And>x. cmp a \<noteq> 0 \<Longrightarrow> x \<in> set (inorder l) \<Longrightarrow> 0 < cmp x" "\<And>x. cmp a \<noteq> 0 \<Longrightarrow> x \<in> set (inorder r) \<Longrightarrow> cmp x < 0"
  have zero: "cmp a = 0 \<Longrightarrow> x \<in> set (inorder l) \<Longrightarrow> 0 < cmp x" "cmp a = 0 \<Longrightarrow> x \<in> set (inorder r) \<Longrightarrow> cmp x < 0" for x
    using assms(3) n(2) by (force simp: in_order_append in_order_Cons)+
  show thesis
  proof (rule that [OF n(1-3)])
    show "0 < cmp x" if "x \<in> set (inorder l)" for x using n(4) zero(1) that by blast
    show "cmp x < 0" if "x \<in> set (inorder r)" for x using n(5) zero(2) that by blast
  qed
qed

lemma splay_Leaf [simp]: "splay cmp Leaf = (Leaf, - 1)"
  by (simp add: splay_def)

lemma takeWhile_split:
  assumes "\<And>x. x \<in> set xs \<Longrightarrow> P x" "ys \<noteq> [] \<Longrightarrow> \<not> P (hd ys)"
  shows "takeWhile P (xs @ ys) = xs" "dropWhile P (xs @ ys) = ys"
  using assms by (induction xs) (auto, (cases ys, auto)+)

lemma find_zero:
  assumes "\<And>x. x \<in> set xs \<Longrightarrow> 0 < cmp x" "\<And>x. x \<in> set ys \<Longrightarrow> cmp x < (0 :: int)"
  shows "find (\<lambda>x. cmp x = 0) (xs @ a # ys) = (if cmp a = 0 then Some a else None)"
  using assms by (induction xs) (force simp: find_None_iff)+

lemma splay_find_spec:
  assumes "in_order cmp (splay_items s)" "splay_find cmp s = (r, s')"
  shows "r = find (\<lambda>x. cmp x = 0) (splay_items s) \<and> splay_items s' = splay_items s \<and> elements s' = elements s"
proof (cases "head s = Leaf")
  case True
  with assms(2) show ?thesis by (auto simp: splay_find_def splay_items_def)
next
  case False
  obtain t res where t: "splay cmp (head s) = (t, res)" by fastforce
  show ?thesis
  proof (rule splay_cases [OF t False assms(1) [unfolded splay_items_def]])
    fix l a r' assume n: "t = Node l a r'" "inorder (head s) = inorder l @ a # inorder r'" "res = cmp a"
      "\<And>x. x \<in> set (inorder l) \<Longrightarrow> 0 < cmp x" "\<And>x. x \<in> set (inorder r') \<Longrightarrow> cmp x < 0"
    have "find (\<lambda>x. cmp x = 0) (splay_items s) = (if cmp a = 0 then Some a else None)"
      unfolding splay_items_def n(2) by (rule find_zero) (use n(4,5) in auto)
    with n(1,2,3) t assms(2) show ?thesis
      by (auto simp: splay_find_def splay_items_def split: if_splits)
  qed
qed

text \<open>A search that several elements may match: some match is found, if there is one.\<close>

lemma splay_find_weak:
  assumes "weak_order cmp (splay_items s)" "splay_find cmp s = (r, s')"
  shows "splay_items s' = splay_items s \<and> elements s' = elements s \<and>
    (r = None \<longleftrightarrow> (\<forall>x \<in> set (splay_items s). cmp x \<noteq> 0)) \<and> (\<forall>x. r = Some x \<longrightarrow> x \<in> set (splay_items s) \<and> cmp x = 0)"
proof (cases "head s = Leaf")
  case True
  with assms(2) show ?thesis by (auto simp: splay_find_def splay_items_def)
next
  case False
  obtain t res where t: "splay cmp (head s) = (t, res)" by fastforce
  show ?thesis
  proof (rule splay_separates_pair [OF t False assms(1) [unfolded splay_items_def]])
    fix l a r'
    assume n: "t = Node l a r'" "inorder (head s) = inorder l @ a # inorder r'" "res = cmp a"
      "\<And>x. cmp a \<noteq> 0 \<Longrightarrow> x \<in> set (inorder l) \<Longrightarrow> 0 < cmp x" "\<And>x. cmp a \<noteq> 0 \<Longrightarrow> x \<in> set (inorder r') \<Longrightarrow> cmp x < 0"
    have s': "splay_items s' = splay_items s" "elements s' = elements s" "r = (if cmp a \<noteq> 0 then None else Some a)"
      using n(1-3) t assms(2) by (auto simp: splay_find_def splay_items_def)
    have "\<forall>x \<in> set (inorder (head s)). cmp x \<noteq> 0" if "cmp a \<noteq> 0"
      unfolding n(2) using n(4,5) that by fastforce
    with s' n(2) show ?thesis by (auto simp: splay_items_def simp del: set_inorder)
  qed
qed

lemma node_insert_spec:
  assumes "in_order cmp (inorder t)" "\<forall>x \<in> set (inorder t). cmp x \<noteq> 0"
  shows "inorder (fst (node_insert cmp x t)) =
    takeWhile (\<lambda>y. 0 < cmp y) (inorder t) @ x # dropWhile (\<lambda>y. 0 < cmp y) (inorder t)"
proof (cases "t = Leaf")
  case False
  obtain t' res where t': "splay cmp t = (t', res)" by fastforce
  show ?thesis
  proof (rule splay_cases [OF t' False assms(1)])
    fix l a r assume n: "t' = Node l a r" "inorder t = inorder l @ a # inorder r" "res = cmp a"
      "\<And>x. x \<in> set (inorder l) \<Longrightarrow> 0 < cmp x" "\<And>x. x \<in> set (inorder r) \<Longrightarrow> cmp x < 0"
    have "cmp a \<noteq> 0" using assms(2) n(2) by simp
    then consider (lt) "cmp a < 0" | (gt) "cmp a > 0" by linarith
    then show ?thesis
    proof cases
      case lt
      with n t' takeWhile_split [of "inorder l" "\<lambda>y. 0 < cmp y" "a # inorder r"] show ?thesis
        by (simp add: node_insert_def)
    next
      case gt
      have "inorder r \<noteq> [] \<Longrightarrow> \<not> 0 < cmp (hd (inorder r))"
        using n(5) [of "hd (inorder r)"] by (meson hd_in_set less_asym)
      moreover have "0 < cmp y" if "y \<in> set (inorder l @ [a])" for y using that gt n(4) by auto
      ultimately have "takeWhile (\<lambda>y. 0 < cmp y) (inorder t) = inorder l @ [a]"
          "dropWhile (\<lambda>y. 0 < cmp y) (inorder t) = inorder r"
        using takeWhile_split [of "inorder l @ [a]" "\<lambda>y. 0 < cmp y" "inorder r"] n(2) by simp_all
      moreover have "fst (node_insert cmp x t) = Node (Node l a Leaf) x r"
        using gt n(1,3) t' by (simp add: node_insert_def)
      ultimately show ?thesis by simp
    qed
  qed
qed (simp add: node_insert_def)

lemma in_order_before: "in_order cmp (xs @ ys) \<Longrightarrow> in_order cmp xs"
  by (simp add: in_order_append)

lemma node_remove_spec:
  assumes "in_order cmp (inorder t)" "\<exists>x \<in> set (inorder t). cmp x = 0"
  shows "inorder (node_remove cmp t) = filter (\<lambda>y. cmp y \<noteq> 0) (inorder t)"
proof -
  have "t \<noteq> Leaf" using assms(2) by auto
  obtain t' res where t': "splay cmp t = (t', res)" by fastforce
  show ?thesis
  proof (rule splay_cases [OF t' \<open>t \<noteq> Leaf\<close> assms(1)])
    fix l a r assume n: "t' = Node l a r" "inorder t = inorder l @ a # inorder r" "res = cmp a"
      "\<And>x. x \<in> set (inorder l) \<Longrightarrow> 0 < cmp x" "\<And>x. x \<in> set (inorder r) \<Longrightarrow> cmp x < 0"
    have a: "cmp a = 0" using assms(2) n(2) n(4,5) by fastforce
    have "filter (\<lambda>y. cmp y \<noteq> 0) (inorder l) = inorder l" "filter (\<lambda>y. cmp y \<noteq> 0) (inorder r) = inorder r"
      using n(4,5) by (auto simp: filter_id_conv simp del: set_inorder simp flip: set_inorder) fastforce+
    then have f: "filter (\<lambda>y. cmp y \<noteq> 0) (inorder t) = inorder l @ inorder r" using n(2) a by simp
    show ?thesis
    proof (cases "l = Leaf")
      case True
      with t' n a f \<open>t \<noteq> Leaf\<close> show ?thesis by (auto simp: node_remove_def split: tree.splits)
    next
      case False
      obtain u res' where u: "splay cmp l = (u, res')" by fastforce
      have "in_order cmp (inorder l)" using assms(1) n(2) in_order_before by metis
      from u False this show ?thesis
      proof (rule splay_cases)
        fix nl na nr assume v: "u = Node nl na nr" "inorder l = inorder nl @ na # inorder nr"
          "\<And>x. x \<in> set (inorder nr) \<Longrightarrow> cmp x < 0"
        have "inorder nr = []"
        proof (rule ccontr)
          assume ne: "inorder nr \<noteq> []"
          then have "hd (inorder nr) \<in> set (inorder nr)" by (rule hd_in_set)
          then have "cmp (hd (inorder nr)) < 0" "0 < cmp (hd (inorder nr))"
            using v(2,3) n(4) [of "hd (inorder nr)"] by auto
          then show False by simp
        qed
        with t' n a f u v False \<open>t \<noteq> Leaf\<close> show ?thesis
          by (auto simp: node_remove_def split: tree.splits)
      qed
    qed
  qed
qed

section \<open>An ordered container, as an interface\<close>

lemma dropWhile_after:
  "in_order cmp xs \<Longrightarrow> \<forall>x \<in> set xs. cmp x \<noteq> 0 \<Longrightarrow> y \<in> set (dropWhile (\<lambda>y. 0 < cmp y) xs) \<Longrightarrow> cmp y < 0"
  by (induction xs) (auto simp: in_order_Cons not_less split: if_splits)

lemma in_order_insert:
  assumes "\<And>y. y \<in> set xs \<Longrightarrow> 0 < cmp y" "\<And>y. y \<in> set ys \<Longrightarrow> cmp y < 0" "in_order cmp (xs @ ys)"
  shows "in_order cmp (xs @ x # ys)"
  using assms by (fastforce simp: in_order_append in_order_Cons)

locale ordered_container =
  fixes items :: "'s \<Rightarrow> 'a list" and look :: "('a \<Rightarrow> int) \<Rightarrow> 's \<Rightarrow> 'a option \<times> 's"
    and put :: "('a \<Rightarrow> int) \<Rightarrow> 'a \<Rightarrow> 's \<Rightarrow> 's outcome" and drop_it :: "('a \<Rightarrow> int) \<Rightarrow> 's \<Rightarrow> 's outcome"
  assumes look_law: "in_order cmp (items s) \<Longrightarrow>
      fst (look cmp s) = find (\<lambda>x. cmp x = 0) (items s) \<and> items (snd (look cmp s)) = items s"
    and put_law: "in_order cmp (items s) \<Longrightarrow> \<forall>x \<in> set (items s). cmp x \<noteq> 0 \<Longrightarrow>
      \<exists>s'. put cmp x s = Inr s' \<and>
        items s' = takeWhile (\<lambda>y. 0 < cmp y) (items s) @ x # dropWhile (\<lambda>y. 0 < cmp y) (items s)"
    and put_dup: "in_order cmp (items s) \<Longrightarrow> \<exists>x \<in> set (items s). cmp x = 0 \<Longrightarrow> put cmp x s = Inl AssertFault"
    and drop_law: "in_order cmp (items s) \<Longrightarrow> \<exists>x \<in> set (items s). cmp x = 0 \<Longrightarrow>
      \<exists>s'. drop_it cmp s = Inr s' \<and> items s' = filter (\<lambda>y. cmp y \<noteq> 0) (items s)"
    and drop_none: "in_order cmp (items s) \<Longrightarrow> \<forall>x \<in> set (items s). cmp x \<noteq> 0 \<Longrightarrow> drop_it cmp s = Inl AssertFault"
begin

lemma put_then_look:
  assumes "in_order cmp (items s)" "\<forall>x \<in> set (items s). cmp x \<noteq> 0" "cmp x = 0"
  shows "\<exists>s'. put cmp x s = Inr s' \<and> set (items s') = insert x (set (items s)) \<and> fst (look cmp s') = Some x \<and>
    (\<exists>s''. drop_it cmp s' = Inr s'' \<and> items s'' = items s)"
proof -
  obtain s' where s': "put cmp x s = Inr s'"
    "items s' = takeWhile (\<lambda>y. 0 < cmp y) (items s) @ x # dropWhile (\<lambda>y. 0 < cmp y) (items s)"
    using put_law [OF assms(1,2)] by blast
  let ?a = "takeWhile (\<lambda>y. 0 < cmp y) (items s)" and ?b = "dropWhile (\<lambda>y. 0 < cmp y) (items s)"
  have ab: "?a @ ?b = items s" by simp
  have pos: "0 < cmp y" if "y \<in> set ?a" for y using that by (auto dest: set_takeWhileD)
  note neg = dropWhile_after [OF assms(1,2)]
  have io: "in_order cmp (items s')"
    unfolding s'(2) using pos neg assms(1) by (intro in_order_insert) auto
  have "find (\<lambda>x. cmp x = 0) (items s') = Some x"
    unfolding s'(2) using find_zero [of ?a cmp ?b x] pos neg assms(3) by simp
  then have "fst (look cmp s') = Some x" using look_law [OF io] by simp
  moreover have "set ?a \<union> set ?b = set (items s)" using ab by (metis set_append)
  then have "set (items s') = insert x (set (items s))" unfolding s'(2) by auto
  moreover have "filter (\<lambda>y. cmp y \<noteq> 0) (?a @ ?b) = ?a @ ?b" using assms(2) unfolding ab by (rule filter_True)
  then have "filter (\<lambda>y. cmp y \<noteq> 0) (items s') = items s" unfolding s'(2) filter_append using assms(3) ab by simp
  then obtain s'' where "drop_it cmp s' = Inr s''" "items s'' = items s"
    using drop_law [OF io] assms(3) s'(2) by auto
  ultimately show ?thesis using s'(1) by blast
qed

end

lemma splay_find_snd: "in_order cmp (splay_items s) \<Longrightarrow> splay_items (snd (splay_find cmp s)) = splay_items s"
  using splay_find_spec [of cmp s] by (metis prod.collapse)

lemma splay_insert_spec:
  assumes "in_order cmp (splay_items s)" "\<forall>x \<in> set (splay_items s). cmp x \<noteq> 0"
  shows "\<exists>s'. splay_insert cmp x s = Inr s' \<and> elements s' = elements s + 1 \<and>
    splay_items s' = takeWhile (\<lambda>y. 0 < cmp y) (splay_items s) @ x # dropWhile (\<lambda>y. 0 < cmp y) (splay_items s)"
proof -
  obtain r s1 where f: "splay_find cmp s = (r, s1)" by fastforce
  from splay_find_spec [OF assms(1) f] have s1: "splay_items s1 = splay_items s" "elements s1 = elements s"
    "r = find (\<lambda>x. cmp x = 0) (splay_items s)" by simp_all
  then have "r = None" using assms(2) by (simp add: find_None_iff)
  with f s1 node_insert_spec [of cmp "head s1" x] assms show ?thesis
    by (simp add: splay_insert_def splay_items_def)
qed

lemma splay_remove_spec:
  assumes "in_order cmp (splay_items s)" "\<exists>x \<in> set (splay_items s). cmp x = 0"
  shows "\<exists>s'. splay_remove cmp s = Inr s' \<and> elements s' = elements s - 1 \<and>
    splay_items s' = filter (\<lambda>y. cmp y \<noteq> 0) (splay_items s)"
proof -
  obtain r s1 where f: "splay_find cmp s = (r, s1)" by fastforce
  from splay_find_spec [OF assms(1) f] have s1: "splay_items s1 = splay_items s" "elements s1 = elements s"
    "r = find (\<lambda>x. cmp x = 0) (splay_items s)" by simp_all
  then have "r \<noteq> None" using assms(2) by (auto simp: find_None_iff)
  with f s1 node_remove_spec [of cmp "head s1"] assms show ?thesis
    by (auto simp: splay_remove_def splay_items_def)
qed

interpretation spl: ordered_container splay_items splay_find splay_insert splay_remove
proof unfold_locales
  fix cmp and s :: "'a splay_set" and x
  assume io: "in_order cmp (splay_items s)"
  show "fst (splay_find cmp s) = find (\<lambda>x. cmp x = 0) (splay_items s) \<and>
      splay_items (snd (splay_find cmp s)) = splay_items s"
    using splay_find_spec [OF io, of "fst (splay_find cmp s)" "snd (splay_find cmp s)"] by simp
  show "\<exists>s'. splay_insert cmp x s = Inr s' \<and>
        splay_items s' = takeWhile (\<lambda>y. 0 < cmp y) (splay_items s) @ x # dropWhile (\<lambda>y. 0 < cmp y) (splay_items s)"
    if "\<forall>x \<in> set (splay_items s). cmp x \<noteq> 0"
    using splay_insert_spec [OF io that] by blast
  show "\<exists>s'. splay_remove cmp s = Inr s' \<and> splay_items s' = filter (\<lambda>y. cmp y \<noteq> 0) (splay_items s)"
    if "\<exists>x \<in> set (splay_items s). cmp x = 0"
    using splay_remove_spec [OF io that] by blast
  obtain r s1 where f: "splay_find cmp s = (r, s1)" by fastforce
  have r: "r = find (\<lambda>x. cmp x = 0) (splay_items s)" using splay_find_spec [OF io f] by simp
  show "splay_insert cmp x s = Inl AssertFault" if "\<exists>x \<in> set (splay_items s). cmp x = 0"
    using f r that by (auto simp: splay_insert_def find_None_iff guardE_def)
  show "splay_remove cmp s = Inl AssertFault" if "\<forall>x \<in> set (splay_items s). cmp x \<noteq> 0"
    using f r that by (auto simp: splay_remove_def find_None_iff guardE_def)
qed

section \<open>Traversal\<close>

lemma node_start_hd: "node_start t = (if t = Leaf then None else Some (hd (inorder t)))"
  by (induction t rule: node_start.induct) (auto simp: hd_append)

lemma node_finish_last: "node_finish t = (if t = Leaf then None else Some (last (inorder t)))"
  by (induction t rule: node_finish.induct) auto

lemma node_walk_fold: "node_walk w t s = fold w (inorder t) s"
  by (induction t arbitrary: s) auto

text \<open>
  The sequence a stack stands for when the right subtrees of all its nodes are still to be visited.
\<close>

definition pending :: "'a tree list \<Rightarrow> 'a list" where
  "pending ts = concat (map (\<lambda>t. value t # inorder (right t)) ts)"

lemma pending_addLeftPath: "pending (addLeftPath t ts) = inorder t @ pending ts"
  by (induction t ts rule: addLeftPath.induct) (simp_all add: pending_def)

lemma visited_pending: "visited n (t # ts) = take n (value t # pending ts)"
proof (induction n arbitrary: t ts)
  case (Suc n)
  show ?case
  proof (cases ts)
    case (Cons c rest)
    then have "visited (Suc n) (t # ts) = value t # visited n (c # addLeftPath (right c) rest)" by simp
    also have "\<dots> = value t # take n (value c # inorder (right c) @ pending rest)"
      by (simp only: Suc.IH pending_addLeftPath)
    finally show ?thesis using Cons by (simp add: pending_def)
  qed (simp add: pending_def)
qed simp

fun leftmost :: "'a tree \<Rightarrow> 'a tree" where
  "leftmost Leaf = Leaf"
| "leftmost (Node l a r) = (if l = Leaf then Node l a r else leftmost l)"

lemma addLeftPath_top: "t \<noteq> Leaf \<Longrightarrow> \<exists>ts'. addLeftPath t ts = leftmost t # ts'"
proof (induction t ts rule: addLeftPath.induct)
  case (2 l a r toVisit)
  then show ?case by (cases l) auto
qed simp

section \<open>Properties\<close>

text \<open>
  C10. The splay tree behaves as a sorted list.  If its elements are in order with respect to the comparison
  function, a search returns the element that compares equal, if any, and keeps the elements and
  their order; insertion of a value that is not there puts it at its place and makes it the one found;
  removal takes out exactly the matching element; \<^verbatim>\<open>insert()\<close> of a duplicate and \<^verbatim>\<open>remove()\<close> of an absent
  value fail their assertions.
\<close>

theorem splay_is_sorted_list:
  assumes "in_order cmp (splay_items s)"
  shows "fst (splay_find cmp s) = find (\<lambda>y. cmp y = 0) (splay_items s) \<and>
    splay_items (snd (splay_find cmp s)) = splay_items s \<and>
    (if find (\<lambda>y. cmp y = 0) (splay_items s) = None
     then splay_remove cmp s = Inl AssertFault \<and>
          (\<exists>s'. splay_insert cmp x s = Inr s' \<and> elements s' = elements s + 1 \<and>
             splay_items s' = takeWhile (\<lambda>y. 0 < cmp y) (splay_items s) @ x # dropWhile (\<lambda>y. 0 < cmp y) (splay_items s) \<and>
             (cmp x = 0 \<longrightarrow> fst (splay_find cmp s') = Some x))
     else splay_insert cmp x s = Inl AssertFault \<and>
          (\<exists>s'. splay_remove cmp s = Inr s' \<and> elements s' = elements s - 1 \<and>
             splay_items s' = filter (\<lambda>y. cmp y \<noteq> 0) (splay_items s)))"
proof (cases "find (\<lambda>y. cmp y = 0) (splay_items s) = None")
  case True
  then have none: "\<forall>y \<in> set (splay_items s). cmp y \<noteq> 0" by (auto simp: find_None_iff)
  obtain s' where s': "splay_insert cmp x s = Inr s'" "elements s' = elements s + 1"
    "splay_items s' = takeWhile (\<lambda>y. 0 < cmp y) (splay_items s) @ x # dropWhile (\<lambda>y. 0 < cmp y) (splay_items s)"
    using splay_insert_spec [OF assms none] by blast
  moreover have "cmp x = 0 \<longrightarrow> fst (splay_find cmp s') = Some x"
    using spl.put_then_look [OF assms none, of x] s'(1) by auto
  ultimately show ?thesis
    using True spl.look_law [OF assms] spl.drop_none [OF assms none] by auto
next
  case False
  then have some: "\<exists>y \<in> set (splay_items s). cmp y = 0" by (auto simp: find_None_iff)
  show ?thesis
    using False spl.look_law [OF assms] spl.put_dup [OF assms some] splay_remove_spec [OF assms some] by auto
qed

definition demo_splay :: "int splay_set" where
  "demo_splay = \<lparr>head = Node (Node Leaf 1 Leaf) 5 (Node Leaf 9 Leaf), elements = 3\<rparr>"

theorem splay_is_sorted_list_witness:
  "\<exists>s'. splay_insert (\<lambda>y. 7 - y) 7 demo_splay = Inr s' \<and> splay_items s' = [1, 5, 7, 9] \<and>
     fst (splay_find (\<lambda>y. 7 - y) s') = Some 7"
proof -
  have "in_order (\<lambda>y. 7 - y) (splay_items demo_splay)"
    by (simp add: in_order_def splay_items_def demo_splay_def)
  from splay_is_sorted_list [OF this, of 7] show ?thesis
    by (auto simp: splay_items_def demo_splay_def)
qed

text \<open>
  The iterator of the container is incomplete.  \<^verbatim>\<open>begin()\<close> to \<^verbatim>\<open>end()\<close> visits the elements in order except
  that the whole right subtree of the leftmost node is left out, because \<^verbatim>\<open>init()\<close> does not push it and
  \<^verbatim>\<open>advance()\<close> pops that first node without looking at its right child.
\<close>

theorem splay_iterator_skips:
  assumes "t \<noteq> Leaf"
  shows "\<exists>rest. inorder t = value (leftmost t) # inorder (right (leftmost t)) @ rest \<and>
     visited (size t) (addLeftPath t []) = value (leftmost t) # rest"
proof -
  obtain ts where ts: "addLeftPath t [] = leftmost t # ts" using addLeftPath_top [OF assms] by blast
  have io: "inorder t = value (leftmost t) # inorder (right (leftmost t)) @ pending ts"
    using pending_addLeftPath [of t "[]"] ts by (simp add: pending_def)
  then have "length (value (leftmost t) # pending ts) \<le> size t"
    using length_inorder [of t] by simp
  then have "visited (size t) (addLeftPath t []) = value (leftmost t) # pending ts"
    unfolding ts visited_pending by simp
  with io show ?thesis by blast
qed

theorem splay_iterator_skips_witness:
  "inorder (Node (Node Leaf 1 (Node Leaf 2 Leaf)) (3 :: int) Leaf) = [1, 2, 3] \<and>
   visited 3 (addLeftPath (Node (Node Leaf 1 (Node Leaf 2 Leaf)) (3 :: int) Leaf) []) = [1, 3]"
  using splay_iterator_skips [of "Node (Node Leaf 1 (Node Leaf 2 Leaf)) (3 :: int) Leaf"]
  by (auto simp: numeral_3_eq_3)

end
