(* ===== verification/Byte_Range.thy ===== *)
theory Byte_Range
  imports Squid_Prelude
begin

text \<open>
  Half-open ranges of byte offsets: the template \<^verbatim>\<open>Range<C, S>\<close> of \<^verbatim>\<open>include/Range.h\<close>, which both the
  in-memory store and the HTTP Range header use, and 64-bit signed arithmetic with its wrap-around.
\<close>

section \<open>Ranges\<close>

record range =
  range_start :: int
  range_end :: int

definition intersection :: "range \<Rightarrow> range \<Rightarrow> range" where
  "intersection a b = \<lparr>range_start = max (range_start a) (range_start b), range_end = min (range_end a) (range_end b)\<rparr>"

definition range_size :: "range \<Rightarrow> nat" where
  "range_size r = (if range_end r > range_start r then nat (range_end r - range_start r) else 0)"

lemma mem_intersection:
  "{range_start (intersection a b)..<range_end (intersection a b)} =
   {range_start a..<range_end a} \<inter> {range_start b..<range_end b}"
  by (auto simp: intersection_def)

section \<open>Signed 64-bit arithmetic\<close>

text \<open>
  The program keeps offsets and lengths in \<^verbatim>\<open>int64_t\<close>.  The model keeps them in \<^typ>\<open>int\<close> and applies
  \<^verbatim>\<open>wrap64\<close> after each addition and subtraction, which is what the compiled code does where the
  C++ standard leaves the overflow undefined.
\<close>

definition int64_max :: int where
  "int64_max = 9223372036854775807"

definition int64_min :: int where
  "int64_min = - 9223372036854775808"

definition wrap64 :: "int \<Rightarrow> int" where
  "wrap64 x = (x + 9223372036854775808) mod 18446744073709551616 - 9223372036854775808"

lemma wrap64_id [simp]: "int64_min \<le> x \<Longrightarrow> x \<le> int64_max \<Longrightarrow> wrap64 x = x"
  by (simp add: wrap64_def int64_min_def int64_max_def)

lemma wrap64_bounds: "int64_min \<le> wrap64 x \<and> wrap64 x \<le> int64_max"
proof -
  have "0 \<le> (x + 9223372036854775808) mod 18446744073709551616"
    and "(x + 9223372036854775808) mod 18446744073709551616 < 18446744073709551616"
    by simp_all
  then show ?thesis unfolding wrap64_def int64_min_def int64_max_def by linarith
qed

end
