(* ===== verification/Mem_Hdr.thy ===== *)
theory Mem_Hdr
  imports Squid_Prelude Splay_Tree Byte_Range
begin

text \<open>
  The in-memory part of a cached object: \<^verbatim>\<open>mem_hdr\<close> of \<^verbatim>\<open>src/stmem.cc\<close>, a splay tree of pages
  (\<^verbatim>\<open>src/mem_node.cc\<close>) that may leave gaps.  A page is modelled by its offset and the bytes written to it;
  the pointers to pages that the routines pass around are the pages themselves, which are distinct
  because their offsets are.  The store is shown to implement a partial map from offsets to bytes.
\<close>

section \<open>Pages\<close>

definition SM_PAGE_SIZE :: nat where
  "SM_PAGE_SIZE = 4096"

record mem_node =
  offset :: int
  buf :: bytes
  write_pending :: bool

definition new_node :: "int \<Rightarrow> mem_node" where
  "new_node off = \<lparr>offset = off, buf = [], write_pending = False\<rparr>"

definition node_end :: "mem_node \<Rightarrow> int" where
  "node_end n = offset n + int (length (buf n))"

definition dataRange :: "mem_node \<Rightarrow> range" where
  "dataRange n = \<lparr>range_start = offset n, range_end = node_end n\<rparr>"

definition node_space :: "mem_node \<Rightarrow> nat" where
  "node_space n = SM_PAGE_SIZE - length (buf n)"

definition node_contains :: "mem_node \<Rightarrow> int \<Rightarrow> bool" where
  "node_contains n location \<longleftrightarrow> offset n \<le> location \<and> node_end n > location"

definition canAccept :: "mem_node \<Rightarrow> int \<Rightarrow> bool" where
  "canAccept n location \<longleftrightarrow> location = node_end n \<and> node_space n > 0"

definition NodeCompare :: "mem_node \<Rightarrow> mem_node \<Rightarrow> int" where
  "NodeCompare l r =
     (if range_size (intersection (dataRange l) (dataRange r)) > 0 then 0
      else if offset l < offset r then - 1 else 1)"

text \<open>A page built only to search: \<^verbatim>\<open>mem_node target(off); target.nodeBuffer.length = len;\<close>.\<close>

definition probe :: "int \<Rightarrow> nat \<Rightarrow> mem_node" where
  "probe off len = \<lparr>offset = off, buf = replicate len 0, write_pending = False\<rparr>"

section \<open>The store\<close>

record mem_hdr =
  inmem_hi :: int
  nodes :: "mem_node splay_set"

definition new_mem_hdr :: mem_hdr where
  "new_mem_hdr = \<lparr>inmem_hi = 0, nodes = new_splay\<rparr>"

definition NodeGet :: "mem_node \<Rightarrow> mem_hdr \<Rightarrow> (bytes \<times> mem_hdr) outcome" where
  "NodeGet n h =
     guardE (\<not> write_pending n) AssertFault
       (Inr (buf n, h\<lparr>nodes := (nodes h)\<lparr>head := map_tree (\<lambda>m. if m = n then n\<lparr>write_pending := True\<rparr> else m)
          (head (nodes h))\<rparr>\<rparr>))"

definition lowestOffset :: "mem_hdr \<Rightarrow> int" where
  "lowestOffset h = (case splay_start (nodes h) of Some n \<Rightarrow> offset n | None \<Rightarrow> 0)"

definition endOffset :: "mem_hdr \<Rightarrow> int outcome" where
  "endOffset h =
     (let result = (case splay_finish (nodes h) of Some n \<Rightarrow> range_end (dataRange n) | None \<Rightarrow> 0)
      in guardE (result = inmem_hi h) AssertFault (Inr result))"

definition freeContent :: "mem_hdr \<Rightarrow> mem_hdr" where
  "freeContent h = h\<lparr>nodes := splay_destroy (nodes h), inmem_hi := 0\<rparr>"

definition unlink :: "mem_node \<Rightarrow> mem_hdr \<Rightarrow> (bool \<times> mem_hdr) outcome" where
  "unlink n h =
     (if write_pending n then Inr (False, h)
      else bindE (splay_remove (NodeCompare n) (nodes h)) (\<lambda>ns. Inr (True, h\<lparr>nodes := ns\<rparr>)))"

text \<open>
  The loop of \<^verbatim>\<open>freeDataUpto()\<close>; the first page is the last one exactly when the tree has a single
  node.  The fuel is the number of pages, one of which goes in every iteration.
\<close>

fun free_loop :: "nat \<Rightarrow> int \<Rightarrow> mem_hdr \<Rightarrow> mem_hdr outcome" where
  "free_loop 0 target h = Inr h"
| "free_loop (Suc fuel) target h =
     (case splay_start (nodes h) of
        None \<Rightarrow> Inr h
      | Some n \<Rightarrow>
          if size (head (nodes h)) = 1 then Inr h
          else if node_end n > target then Inr h
          else bindE (unlink n h) (\<lambda>(unlinked, h1). if unlinked then free_loop fuel target h1 else Inr h1))"

definition freeDataUpto :: "int \<Rightarrow> mem_hdr \<Rightarrow> (int \<times> mem_hdr) outcome" where
  "freeDataUpto target h =
     bindE (free_loop (splay_size (nodes h)) target h) (\<lambda>h1.
       guardE (lowestOffset h1 \<le> target) AssertFault (Inr (lowestOffset h1, h1)))"

definition writeAvailable :: "mem_node \<Rightarrow> int \<Rightarrow> bytes \<Rightarrow> mem_hdr \<Rightarrow> (nat \<times> mem_hdr) outcome" where
  "writeAvailable n location source h =
     guardE (location = node_end n) AssertFault
       (guardE (canAccept n location) AssertFault
         (let copyLen = min (length source) (node_space n);
              n1 = n\<lparr>buf := buf n @ take copyLen source\<rparr>;
              hi = (if inmem_hi h \<le> location then location + int copyLen else inmem_hi h)
          in Inr (copyLen, h\<lparr>inmem_hi := hi,
               nodes := (nodes h)\<lparr>head := map_tree (\<lambda>m. if m = n then n1 else m) (head (nodes h))\<rparr>\<rparr>)))"

definition appendToNode :: "mem_node \<Rightarrow> bytes \<Rightarrow> mem_hdr \<Rightarrow> (nat \<times> mem_hdr) outcome" where
  "appendToNode n source h = writeAvailable n (node_end n) source h"

definition appendNode :: "mem_node \<Rightarrow> mem_hdr \<Rightarrow> mem_hdr outcome" where
  "appendNode n h = bindE (splay_insert (NodeCompare n) n (nodes h)) (\<lambda>ns. Inr (h\<lparr>nodes := ns\<rparr>))"

definition finish_space :: "mem_hdr \<Rightarrow> nat" where
  "finish_space h = (case splay_finish (nodes h) of Some n \<Rightarrow> node_space n | None \<Rightarrow> 0)"

definition makeAppendSpace :: "mem_hdr \<Rightarrow> mem_hdr outcome" where
  "makeAppendSpace h =
     (if splay_size (nodes h) = 0 then appendNode (new_node 0) h
      else bindE (if finish_space h = 0 then bindE (endOffset h) (\<lambda>e. appendNode (new_node e) h) else Inr h)
             (\<lambda>h1. guardE (finish_space h1 > 0) AssertFault (Inr h1)))"

fun append_loop :: "nat \<Rightarrow> bytes \<Rightarrow> mem_hdr \<Rightarrow> mem_hdr outcome option" where
  "append_loop 0 bs h = (if bs = [] then Some (Inr h) else None)"
| "append_loop (Suc fuel) bs h =
     (if bs = [] then Some (Inr h)
      else case bindE (makeAppendSpace h) (\<lambda>h1.
             case splay_finish (nodes h1) of
               None \<Rightarrow> Inl OutOfBounds
             | Some n \<Rightarrow> bindE (appendToNode n bs h1) (\<lambda>(copied, h2). guardE (copied > 0) AssertFault (Inr (copied, h2)))) of
        Inl f \<Rightarrow> Some (Inl f)
      | Inr (copied, h2) \<Rightarrow> append_loop fuel (drop copied bs) h2)"

definition internalAppend :: "bytes \<Rightarrow> mem_hdr \<Rightarrow> mem_hdr outcome option" where
  "internalAppend bs h = append_loop (length bs) bs h"

definition getBlockContainingLocation :: "int \<Rightarrow> mem_hdr \<Rightarrow> mem_node option \<times> mem_hdr" where
  "getBlockContainingLocation location h =
     (let (r, ns) = splay_find (NodeCompare (probe location 1)) (nodes h) in (r, h\<lparr>nodes := ns\<rparr>))"

definition copyAvailable :: "mem_node \<Rightarrow> int \<Rightarrow> nat \<Rightarrow> bytes outcome" where
  "copyAvailable n location amount =
     (if offset n > location then Inr []
      else guardE (node_end n > location) AssertFault
        (let copyOffset = nat (location - offset n);
             copyLen = min amount (length (buf n) - copyOffset)
         in Inr (bytes_at (buf n) copyOffset copyLen)))"

text \<open>The copying loop; every iteration copies at least one byte, so the length asked for bounds it.\<close>

fun copy_loop :: "nat \<Rightarrow> mem_node option \<Rightarrow> int \<Rightarrow> nat \<Rightarrow> mem_hdr \<Rightarrow> (bytes \<times> mem_hdr) outcome" where
  "copy_loop 0 p location to_go h = Inr ([], h)"
| "copy_loop (Suc fuel) p location to_go h =
     (case p of
        None \<Rightarrow> Inr ([], h)
      | Some n \<Rightarrow>
          if to_go = 0 then Inr ([], h)
          else bindE (copyAvailable n location to_go) (\<lambda>bs.
            if bs = [] then Inr ([], h)
            else let location1 = location + int (length bs);
                     (p1, h1) = getBlockContainingLocation location1 h
                 in bindE (copy_loop fuel p1 location1 (to_go - length bs) h1) (\<lambda>(rest, h2). Inr (bs @ rest, h2))))"

definition mem_copy :: "int \<Rightarrow> nat \<Rightarrow> mem_hdr \<Rightarrow> (bytes \<times> mem_hdr) outcome" where
  "mem_copy off len h =
     guardE (len > 0) AssertFault
       (guardE (splay_size (nodes h) \<noteq> 0) AssertFault
         (case getBlockContainingLocation off h of
            (None, h1) \<Rightarrow> Inl FatalFault
          | (Some n, h1) \<Rightarrow> copy_loop len (Some n) off len h1))"

fun contiguous_loop :: "nat \<Rightarrow> int \<Rightarrow> int \<Rightarrow> mem_hdr \<Rightarrow> bool option \<times> mem_hdr" where
  "contiguous_loop 0 currentStart stop h = (None, h)"
| "contiguous_loop (Suc fuel) currentStart stop h =
     (case getBlockContainingLocation currentStart h of
        (None, h1) \<Rightarrow> (Some False, h1)
      | (Some n, h1) \<Rightarrow>
          if node_end n \<ge> stop then (Some True, h1) else contiguous_loop fuel (node_end n) stop h1)"

definition hasContigousContentRange :: "range \<Rightarrow> mem_hdr \<Rightarrow> bool option \<times> mem_hdr" where
  "hasContigousContentRange r h =
     contiguous_loop (splay_size (nodes h) + 1) (range_start r) (range_end r) h"

definition unionNotEmpty :: "int \<Rightarrow> nat \<Rightarrow> mem_hdr \<Rightarrow> (bool \<times> mem_hdr) outcome" where
  "unionNotEmpty off len h =
     guardE (off \<ge> 0) AssertFault
       (let (r, ns) = splay_find (NodeCompare (probe off len)) (nodes h)
        in Inr (r \<noteq> None, h\<lparr>nodes := ns\<rparr>))"

definition nodeToRecieve :: "int \<Rightarrow> mem_hdr \<Rightarrow> (mem_node \<times> mem_hdr) outcome" where
  "nodeToRecieve off h =
     (if splay_size (nodes h) = 0
      then bindE (appendNode (new_node off) h) (\<lambda>h1.
             case splay_start (nodes h1) of None \<Rightarrow> Inl OutOfBounds | Some n \<Rightarrow> Inr (n, h1))
      else let (candidate, h1) = (if off > 0 then getBlockContainingLocation (off - 1) h else (None, h))
           in case candidate of
                Some n \<Rightarrow> if canAccept n off then Inr (n, h1)
                          else bindE (appendNode (new_node off) h1) (\<lambda>h2. Inr (new_node off, h2))
              | None \<Rightarrow> bindE (appendNode (new_node off) h1) (\<lambda>h2. Inr (new_node off, h2)))"

fun write_loop :: "nat \<Rightarrow> int \<Rightarrow> bytes \<Rightarrow> mem_hdr \<Rightarrow> mem_hdr outcome option" where
  "write_loop 0 off bs h = (if bs = [] then Some (Inr h) else None)"
| "write_loop (Suc fuel) off bs h =
     (if bs = [] then Some (Inr h)
      else case bindE (nodeToRecieve off h) (\<lambda>(n, h1).
             bindE (writeAvailable n off bs h1) (\<lambda>(wrote, h2). guardE (wrote > 0) AssertFault (Inr (wrote, h2)))) of
        Inl f \<Rightarrow> Some (Inl f)
      | Inr (wrote, h2) \<Rightarrow> write_loop fuel (off + int wrote) (drop wrote bs) h2)"

definition mem_write :: "int \<Rightarrow> bytes \<Rightarrow> mem_hdr \<Rightarrow> mem_hdr outcome option" where
  "mem_write off bs h =
     (case unionNotEmpty off (length bs) h of
        Inl f \<Rightarrow> Some (Inl f)
      | Inr (True, h1) \<Rightarrow> Some (Inl FatalFault)
      | Inr (False, h1) \<Rightarrow> write_loop (length bs) off bs h1)"

section \<open>The bytes a store holds\<close>

fun content :: "mem_node list \<Rightarrow> int \<Rightarrow> byte option" where
  "content [] p = None"
| "content (n # ns) p = (if node_contains n p then Some (buf n ! nat (p - offset n)) else content ns p)"

definition node_ok :: "mem_node \<Rightarrow> bool" where
  "node_ok n \<longleftrightarrow> 0 \<le> offset n \<and> buf n \<noteq> [] \<and> length (buf n) \<le> SM_PAGE_SIZE"

definition apart :: "mem_node list \<Rightarrow> bool" where
  "apart ns \<longleftrightarrow> sorted_wrt (\<lambda>a b. node_end a \<le> offset b) ns"

definition pages :: "mem_hdr \<Rightarrow> mem_node list" where
  "pages h = splay_items (nodes h)"

definition bytes_of :: "mem_hdr \<Rightarrow> int \<Rightarrow> byte option" where
  "bytes_of h = content (pages h)"

definition last_end :: "mem_node list \<Rightarrow> int" where
  "last_end ns = (if ns = [] then 0 else node_end (last ns))"

definition hdr_ok :: "mem_hdr \<Rightarrow> bool" where
  "hdr_ok h \<longleftrightarrow> apart (pages h) \<and> (\<forall>n \<in> set (pages h). node_ok n) \<and>
     elements (nodes h) = length (pages h) \<and> inmem_hi h = last_end (pages h)"

lemma new_mem_hdr_ok: "hdr_ok new_mem_hdr" "bytes_of new_mem_hdr = Map.empty"
  by (auto simp: hdr_ok_def new_mem_hdr_def pages_def splay_items_def new_splay_def apart_def last_end_def
      bytes_of_def)

section \<open>Comparing pages\<close>

lemma cmp_zero: "NodeCompare l r = 0 \<longleftrightarrow> max (offset l) (offset r) < min (node_end l) (node_end r)"
  by (auto simp: NodeCompare_def range_size_def intersection_def dataRange_def)

lemma cmp_neg: "NodeCompare l r < 0 \<longleftrightarrow> NodeCompare l r \<noteq> 0 \<and> offset l < offset r"
  by (auto simp: NodeCompare_def)

lemma cmp_pos: "0 < NodeCompare l r \<longleftrightarrow> NodeCompare l r \<noteq> 0 \<and> \<not> offset l < offset r"
  by (auto simp: NodeCompare_def)

lemma cmp_le: "NodeCompare l r \<le> 0 \<longleftrightarrow> NodeCompare l r = 0 \<or> offset l < offset r"
  by (auto simp: NodeCompare_def)

lemma node_end_gt: "node_ok n \<Longrightarrow> offset n < node_end n"
  by (cases "buf n") (auto simp: node_ok_def node_end_def)

lemma offset_le_end: "offset n \<le> node_end n"
  by (simp add: node_end_def)

lemma sorted_wrt_mono_set:
  assumes "sorted_wrt P xs" "\<And>x y. x \<in> set xs \<Longrightarrow> y \<in> set xs \<Longrightarrow> P x y \<Longrightarrow> Q x y"
  shows "sorted_wrt Q xs"
  using assms by (induction xs) auto

lemma search_order:
  assumes "apart ns" "\<forall>n \<in> set ns. node_ok n"
  shows "weak_order (NodeCompare l) ns"
  unfolding weak_order_def
proof (rule sorted_wrt_mono_set [OF assms(1) [unfolded apart_def]])
  fix a b assume "a \<in> set ns" "b \<in> set ns" and le: "node_end a \<le> offset b"
  then have "offset a < node_end a" "offset b < node_end b" using assms(2) node_end_gt by auto
  with le show "(NodeCompare l a \<le> 0 \<longrightarrow> NodeCompare l b \<le> 0) \<and> (NodeCompare l a < 0 \<longrightarrow> NodeCompare l b < 0)"
    using offset_le_end [of l] unfolding cmp_le cmp_neg cmp_zero by auto
qed

lemma narrow_order:
  assumes "apart ns" "\<forall>n \<in> set ns. node_ok n" "node_end l \<le> offset l + 1"
  shows "in_order (NodeCompare l) ns"
  unfolding in_order_def
proof (rule sorted_wrt_mono_set [OF assms(1) [unfolded apart_def]])
  fix a b assume "a \<in> set ns" "b \<in> set ns" and le: "node_end a \<le> offset b"
  then have "offset a < node_end a" "offset b < node_end b" using assms(2) node_end_gt by auto
  with le show "NodeCompare l a \<le> 0 \<longrightarrow> NodeCompare l b < 0"
    using offset_le_end [of l] assms(3) unfolding cmp_le cmp_neg cmp_zero by auto
qed

lemma member_order:
  assumes "apart ns" "\<forall>n \<in> set ns. node_ok n" "l \<in> set ns"
  shows "in_order (NodeCompare l) ns"
proof -
  have "sorted_wrt (\<lambda>a b. node_end a \<le> offset b) ns" using assms(1) by (simp add: apart_def)
  with assms(3) have side: "(node_end a \<le> offset l \<or> a = l \<or> node_end l \<le> offset a)" if "a \<in> set ns" for a
    using that by (auto simp: in_set_conv_nth sorted_wrt_iff_nth_less) (metis linorder_neqE_nat)
  show ?thesis unfolding in_order_def
  proof (rule sorted_wrt_mono_set [OF assms(1) [unfolded apart_def]])
    fix a b assume m: "a \<in> set ns" "b \<in> set ns" and le: "node_end a \<le> offset b"
    then have "offset a < node_end a" "offset b < node_end b" "offset l < node_end l"
      using assms(2,3) node_end_gt by auto
    with le side [OF m(1)] side [OF m(2)] show "NodeCompare l a \<le> 0 \<longrightarrow> NodeCompare l b < 0"
      unfolding cmp_le cmp_neg cmp_zero by auto
  qed
qed

lemma cmp_probe: "node_ok n \<Longrightarrow> NodeCompare (probe p 1) n = 0 \<longleftrightarrow> node_contains n p"
  by (auto simp: cmp_zero probe_def node_contains_def node_end_def)

lemma cmp_probe_range:
  "node_ok n \<Longrightarrow> NodeCompare (probe off len) n = 0 \<longleftrightarrow> 0 < len \<and> (\<exists>p. off \<le> p \<and> p < off + int len \<and> node_contains n p)"
proof -
  assume "node_ok n"
  then have "offset n < node_end n" by (rule node_end_gt)
  then have "(\<exists>p. off \<le> p \<and> p < off + int len \<and> node_contains n p) \<longleftrightarrow>
      max off (offset n) < min (off + int len) (node_end n)"
    by (auto simp: node_contains_def intro!: exI [of _ "max off (offset n)"])
  then show ?thesis by (auto simp: cmp_zero probe_def node_end_def)
qed

lemma find_cong_set: "(\<And>x. x \<in> set xs \<Longrightarrow> P x = Q x) \<Longrightarrow> find P xs = find Q xs"
  by (induction xs) auto

lemma content_find: "content ns p = map_option (\<lambda>n. buf n ! nat (p - offset n)) (find (\<lambda>n. node_contains n p) ns)"
  by (induction ns) auto

lemma content_None: "content ns p = None \<longleftrightarrow> (\<forall>n \<in> set ns. \<not> node_contains n p)"
  by (induction ns) auto

lemma content_append: "content (xs @ ys) p = (case content xs p of None \<Rightarrow> content ys p | Some v \<Rightarrow> Some v)"
  by (induction xs) auto

text \<open>The search of the routines, on the pages in order.\<close>

lemma getBlock_spec:
  assumes "hdr_ok h" "getBlockContainingLocation p h = (r, h')"
  shows "r = find (\<lambda>n. node_contains n p) (pages h) \<and> pages h' = pages h \<and> hdr_ok h'"
proof -
  let ?c = "NodeCompare (probe p 1)"
  have ok: "apart (pages h)" "\<forall>n \<in> set (pages h). node_ok n" using assms(1) by (auto simp: hdr_ok_def)
  have io: "in_order ?c (splay_items (nodes h))"
    using narrow_order [OF ok, of "probe p 1"] by (simp add: pages_def probe_def node_end_def)
  obtain ns where f: "splay_find ?c (nodes h) = (r, ns)" "h' = h\<lparr>nodes := ns\<rparr>"
    using assms(2) by (auto simp: getBlockContainingLocation_def split: prod.splits)
  from splay_find_spec [OF io f(1)] have "r = find (\<lambda>n. ?c n = 0) (pages h)" "splay_items ns = pages h"
    "elements ns = elements (nodes h)" by (simp_all add: pages_def)
  moreover have "find (\<lambda>n. ?c n = 0) (pages h) = find (\<lambda>n. node_contains n p) (pages h)"
    using ok(2) cmp_probe by (intro find_cong_set) auto
  ultimately show ?thesis using f(2) assms(1) by (simp add: pages_def hdr_ok_def)
qed

lemma unionNotEmpty_spec:
  assumes "hdr_ok h" "0 \<le> off"
  shows "\<exists>h'. unionNotEmpty off len h = Inr (\<exists>p. off \<le> p \<and> p < off + int len \<and> bytes_of h p \<noteq> None, h') \<and>
     pages h' = pages h \<and> hdr_ok h'"
proof -
  let ?c = "NodeCompare (probe off len)"
  have ok: "apart (pages h)" "\<forall>n \<in> set (pages h). node_ok n" using assms(1) by (auto simp: hdr_ok_def)
  obtain r ns where f: "splay_find ?c (nodes h) = (r, ns)" by fastforce
  from splay_find_weak [OF _ f] search_order [OF ok]
  have w: "splay_items ns = pages h" "elements ns = elements (nodes h)" "r = None \<longleftrightarrow> (\<forall>n \<in> set (pages h). ?c n \<noteq> 0)"
    by (auto simp: pages_def)
  have "r \<noteq> None \<longleftrightarrow> (\<exists>p. off \<le> p \<and> p < off + int len \<and> bytes_of h p \<noteq> None)"
    unfolding w(3) bytes_of_def content_None using ok(2) cmp_probe_range by fastforce
  with f w assms show ?thesis by (auto simp: unionNotEmpty_def pages_def hdr_ok_def)
qed

section \<open>Writing one chunk\<close>

text \<open>The pages before and after a free stretch.\<close>

lemma free_split:
  assumes "apart ns" "\<forall>n \<in> set ns. node_ok n" "\<forall>p. off \<le> p \<and> p < off + len \<longrightarrow> content ns p = None" "0 < len"
  shows "\<exists>A B. ns = A @ B \<and> takeWhile (\<lambda>n. offset n \<le> off) ns = A \<and> dropWhile (\<lambda>n. offset n \<le> off) ns = B \<and>
     (\<forall>a \<in> set A. node_end a \<le> off) \<and> (\<forall>b \<in> set B. off + len \<le> offset b)"
proof -
  define A where "A = takeWhile (\<lambda>n. offset n \<le> off) ns"
  define B where "B = dropWhile (\<lambda>n. offset n \<le> off) ns"
  have AB: "A @ B = ns" by (simp add: A_def B_def)
  have free: "\<not> node_contains n p" if "n \<in> set ns" "off \<le> p" "p < off + len" for n p
    using assms(3) that by (auto simp: content_None)
  have "node_end a \<le> off" if "a \<in> set A" for a
  proof -
    from that have "a \<in> set ns" "offset a \<le> off" unfolding A_def by (auto dest: set_takeWhileD)
    with free [of a off] assms(4) show ?thesis by (auto simp: node_contains_def)
  qed
  moreover have "off + len \<le> offset b" if b: "b \<in> set B" for b
  proof -
    have mem: "b \<in> set ns" using b AB by auto
    obtain z zs where z: "B = z # zs" using b by (cases B) auto
    then have "off < offset z" by (simp add: B_def dropWhile_eq_Cons_conv)
    moreover have "apart (z # zs)"
      using assms(1) AB z unfolding apart_def by (metis sorted_wrt_append)
    ultimately have "off < offset b"
      using b z offset_le_end [of z] by (auto simp: apart_def)
    moreover have "node_contains b (offset b)"
      using assms(2) mem node_end_gt by (auto simp: node_contains_def)
    ultimately show ?thesis using free [OF mem, of "offset b"] by force
  qed
  ultimately show ?thesis by (intro exI [of _ A] exI [of _ B]) (simp add: AB A_def B_def)
qed

definition grow_page :: "mem_node \<Rightarrow> bytes \<Rightarrow> mem_node" where
  "grow_page c xs = c\<lparr>buf := buf c @ xs\<rparr>"

lemma grow_page_simps [simp]:
  "offset (grow_page c xs) = offset c" "node_end (grow_page c xs) = node_end c + int (length xs)"
  "buf (grow_page c xs) = buf c @ xs"
  by (simp_all add: grow_page_def node_end_def)

lemma content_grow:
  assumes "\<forall>a \<in> set A. node_end a \<le> offset c"
  shows "content (A @ grow_page c xs # B) p =
    (if node_end c \<le> p \<and> p < node_end c + int (length xs) then Some (xs ! nat (p - node_end c))
     else content (A @ c # B) p)"
proof (cases "node_end c \<le> p \<and> p < node_end c + int (length xs)")
  case True
  have "node_end a \<le> p" if "a \<in> set A" for a
    using assms that True offset_le_end [of c] by (metis order_trans)
  then have "content A p = None" by (fastforce simp: content_None node_contains_def)
  moreover have "node_contains (grow_page c xs) p" using True offset_le_end [of c] by (auto simp: node_contains_def)
  moreover have "(buf c @ xs) ! nat (p - offset c) = xs ! nat (p - node_end c)"
  proof -
    have "\<not> nat (p - offset c) < length (buf c)" using True by (auto simp: node_end_def)
    moreover have "nat (p - offset c) - length (buf c) = nat (p - node_end c)" using True by (auto simp: node_end_def)
    ultimately show ?thesis by (simp add: nth_append)
  qed
  ultimately show ?thesis using True by (simp add: content_append)
next
  case False
  have "node_contains (grow_page c xs) p \<longleftrightarrow> node_contains c p" using False by (auto simp: node_contains_def)
  moreover have "(buf c @ xs) ! nat (p - offset c) = buf c ! nat (p - offset c)" if "node_contains c p"
    using that by (auto simp: node_contains_def node_end_def nth_append)
  ultimately have "content (grow_page c xs # B) p = content (c # B) p" by simp
  then show ?thesis using False by (simp only: content_append if_False)
qed

lemma map_replace:
  assumes "c \<notin> set A" "c \<notin> set B"
  shows "map (\<lambda>m. if m = c then d else m) (A @ c # B) = A @ d # B"
proof -
  have "map (\<lambda>m. if m = c then d else m) xs = xs" if "c \<notin> set xs" for xs
    using that by (intro map_idI) auto
  with assms show ?thesis by simp
qed

text \<open>
  The effect of writing \<open>xs\<close> at the end of page \<open>c\<close>, which is either a page of the store or a new
  and still empty one that was put in its place.
\<close>

lemma page_written:
  assumes "pages h = A @ c # B" "elements (nodes h) = Suc (length A + length B)"
    and "\<forall>n \<in> set A \<union> set B. node_ok n" "0 \<le> offset c" "length (buf c) < SM_PAGE_SIZE" "apart A" "apart B"
    and "\<forall>a \<in> set A. node_end a \<le> offset c" "\<forall>b \<in> set B. node_end c + int (length bs) \<le> offset b"
    and "inmem_hi h = (if B = [] \<and> buf c \<noteq> [] then node_end c else last_end (A @ B))"
    and "bs \<noteq> []" "location = node_end c"
  shows "\<exists>k h'. writeAvailable c location bs h = Inr (k, h') \<and> 0 < k \<and> k \<le> length bs \<and> hdr_ok h' \<and>
     pages h' = A @ grow_page c (take k bs) # B"
proof -
  let ?k = "min (length bs) (node_space c)"
  have k: "0 < ?k" "?k \<le> length bs" using assms(5,11) by (simp_all add: node_space_def)
  let ?c = "grow_page c (take ?k bs)"
  have okB: "node_end c < node_end b" if "b \<in> set B" for b
  proof -
    have "node_end c + int (length bs) \<le> offset b" "offset b < node_end b"
      using assms(3,9) that node_end_gt by auto
    then show ?thesis by linarith
  qed
  have notin: "c \<notin> set A" "c \<notin> set B"
  proof -
    show "c \<notin> set B" using okB by force
    show "c \<notin> set A"
    proof
      assume "c \<in> set A"
      with assms(3,8) node_end_gt [of c] show False by fastforce
    qed
  qed
  define h' where "h' = h\<lparr>inmem_hi := (if inmem_hi h \<le> location then location + int ?k else inmem_hi h),
     nodes := (nodes h)\<lparr>head := map_tree (\<lambda>m. if m = c then ?c else m) (head (nodes h))\<rparr>\<rparr>"
  have w: "writeAvailable c location bs h = Inr (?k, h')"
    using k assms(12) unfolding writeAvailable_def h'_def grow_page_def canAccept_def Let_def by simp
  have pg: "pages h' = A @ ?c # B"
    using map_replace [OF notin, of ?c] assms(1) by (simp add: pages_def splay_items_def h'_def inorder_map)
  have ap: "apart (A @ ?c # B)"
  proof -
    have "node_end ?c \<le> offset b" if "b \<in> set B" for b using assms(9) that k by fastforce
    moreover have "node_end a \<le> offset b" if "a \<in> set A" "b \<in> set B" for a b
    proof -
      have "node_end a \<le> offset c" "node_end c + int (length bs) \<le> offset b" using assms(8,9) that by auto
      then show ?thesis using offset_le_end [of c] by linarith
    qed
    ultimately show ?thesis using assms(6,7,8) by (auto simp: apart_def sorted_wrt_append)
  qed
  have ok: "\<forall>n \<in> set (A @ ?c # B). node_ok n"
    using assms(3,4) k by (auto simp: node_ok_def node_space_def)
  have hi: "inmem_hi h' = last_end (A @ ?c # B)"
  proof (cases "B = []")
    case True
    have "last_end A \<le> node_end c" if "A \<noteq> []"
      using assms(8) that offset_le_end [of c] by (simp add: last_end_def) (meson last_in_set order_trans)
    moreover have "0 \<le> node_end c" using assms(4) offset_le_end [of c] by linarith
    ultimately have "inmem_hi h \<le> location"
      using True assms(10,12) by (cases "A = []") (auto simp: last_end_def)
    with True assms(12) show ?thesis by (simp add: h'_def last_end_def)
  next
    case False
    then have "inmem_hi h = node_end (last B)" using assms(10) by (simp add: last_end_def)
    moreover have "node_end c < node_end (last B)" using okB False by simp
    ultimately show ?thesis using False assms(12) by (simp add: h'_def last_end_def)
  qed
  have "elements (nodes h') = length (A @ ?c # B)" using assms(2) by (simp add: h'_def)
  then have "hdr_ok h'" using pg ap ok hi by (simp add: hdr_ok_def)
  with w k pg show ?thesis by blast
qed

lemma cmp_new: "NodeCompare (new_node off) n \<noteq> 0" "0 < NodeCompare (new_node off) n \<longleftrightarrow> offset n \<le> off"
  by (auto simp: NodeCompare_def new_node_def range_size_def intersection_def dataRange_def node_end_def)

lemma appendNode_spec:
  assumes "apart (pages h)" "\<forall>n \<in> set (pages h). node_ok n" "elements (nodes h) = length (pages h)"
  shows "\<exists>h1. appendNode (new_node off) h = Inr h1 \<and> inmem_hi h1 = inmem_hi h \<and>
     elements (nodes h1) = Suc (length (pages h)) \<and>
     pages h1 = takeWhile (\<lambda>n. offset n \<le> off) (pages h) @ new_node off # dropWhile (\<lambda>n. offset n \<le> off) (pages h)"
proof -
  have "in_order (NodeCompare (new_node off)) (splay_items (nodes h))"
    using narrow_order [OF assms(1,2), of "new_node off"] by (simp add: pages_def new_node_def node_end_def)
  from splay_insert_spec [OF this, of "new_node off"] assms(3) show ?thesis
    by (auto simp: appendNode_def cmp_new pages_def)
qed

lemma last_end_append: "last_end (A @ B) = (if B = [] then last_end A else node_end (last B))"
  by (simp add: last_end_def)

text \<open>One iteration of the loop of \<^verbatim>\<open>write()\<close>.\<close>

lemma write_step:
  assumes ok: "hdr_ok h" and off: "0 \<le> off" and bs: "bs \<noteq> []"
    and free: "\<forall>p. off \<le> p \<and> p < off + int (length bs) \<longrightarrow> bytes_of h p = None"
  shows "\<exists>n h1 k h2. nodeToRecieve off h = Inr (n, h1) \<and> writeAvailable n off bs h1 = Inr (k, h2) \<and>
     0 < k \<and> k \<le> length bs \<and> hdr_ok h2 \<and>
     bytes_of h2 = (\<lambda>p. if off \<le> p \<and> p < off + int k then Some (bs ! nat (p - off)) else bytes_of h p)"
proof -
  have o: "apart (pages h)" "\<forall>n \<in> set (pages h). node_ok n" "elements (nodes h) = length (pages h)"
    "inmem_hi h = last_end (pages h)" using ok by (auto simp: hdr_ok_def)
  have pos: "0 < int (length bs)" using bs by simp
  obtain A B where AB: "pages h = A @ B" "takeWhile (\<lambda>n. offset n \<le> off) (pages h) = A"
      "dropWhile (\<lambda>n. offset n \<le> off) (pages h) = B" "\<forall>a \<in> set A. node_end a \<le> off"
      "\<forall>b \<in> set B. off + int (length bs) \<le> offset b"
    using free_split [OF o(1,2) free [unfolded bytes_of_def] pos] by (elim exE conjE) rule
  have apAB: "apart A" "apart B" "\<forall>a \<in> set A. \<forall>b \<in> set B. node_end a \<le> offset b"
    using o(1) AB(1) by (auto simp: apart_def sorted_wrt_append)
  have okAB: "\<forall>n \<in> set A \<union> set B. node_ok n" using o(2) AB(1) by auto
  have fresh: "\<exists>h1. appendNode (new_node off) g = Inr h1 \<and>
      (\<exists>k h2. writeAvailable (new_node off) off bs h1 = Inr (k, h2) \<and> 0 < k \<and> k \<le> length bs \<and> hdr_ok h2 \<and>
         pages h2 = A @ grow_page (new_node off) (take k bs) # B) \<and> pages h1 = A @ new_node off # B"
    if g: "pages g = pages h" "hdr_ok g" for g
  proof -
    have "apart (pages g)" "\<forall>n \<in> set (pages g). node_ok n" "elements (nodes g) = length (pages g)"
      using g(2) by (auto simp: hdr_ok_def)
    from appendNode_spec [OF this, of off] obtain h1 where h1: "appendNode (new_node off) g = Inr h1"
      "inmem_hi h1 = last_end (A @ B)" "elements (nodes h1) = Suc (length A + length B)" "pages h1 = A @ new_node off # B"
      using AB g by (auto simp: hdr_ok_def)
    have "\<exists>k h2. writeAvailable (new_node off) off bs h1 = Inr (k, h2) \<and> 0 < k \<and> k \<le> length bs \<and> hdr_ok h2 \<and>
         pages h2 = A @ grow_page (new_node off) (take k bs) # B"
      using h1 okAB apAB AB(4,5) off bs
      by (intro page_written) (auto simp: new_node_def node_end_def SM_PAGE_SIZE_def)
    with h1 show ?thesis by blast
  qed
  have fresh_bytes: "content (A @ grow_page (new_node off) (take k bs) # B) =
      (\<lambda>p. if off \<le> p \<and> p < off + int k then Some (bs ! nat (p - off)) else bytes_of h p)" if "k \<le> length bs" for k
  proof
    fix p
    have e: "content (A @ new_node off # B) p = bytes_of h p"
    proof -
      have "content (new_node off # B) p = content B p" by (auto simp: node_contains_def new_node_def node_end_def)
      then show ?thesis unfolding bytes_of_def AB(1) content_append by (simp only:)
    qed
    have n: "node_end (new_node off) = off" "offset (new_node off) = off" by (simp_all add: new_node_def node_end_def)
    from content_grow [of A "new_node off" "take k bs" B p] that AB(4) e show
      "content (A @ grow_page (new_node off) (take k bs) # B) p =
       (if off \<le> p \<and> p < off + int k then Some (bs ! nat (p - off)) else bytes_of h p)"
      unfolding n by (auto simp: min_def)
  qed
  have by_fresh: ?thesis if "nodeToRecieve off h = bindE (appendNode (new_node off) g) (\<lambda>h2. Inr (new_node off, h2))"
    "pages g = pages h" "hdr_ok g" for g
    using fresh [OF that(2,3)] that(1) fresh_bytes by (force simp: bytes_of_def)
  show ?thesis
  proof (cases "splay_size (nodes h) = 0")
    case True
    then have e: "A = []" "B = []" using o(3) AB(1) by (auto simp: splay_size_def)
    from fresh [OF refl ok] obtain h1 where h1: "appendNode (new_node off) h = Inr h1" "pages h1 = [new_node off]"
      using e by auto
    then have "splay_start (nodes h1) = Some (new_node off)"
      by (auto simp: splay_start_def node_start_hd pages_def splay_items_def)
    with True h1(1) have "nodeToRecieve off h = bindE (appendNode (new_node off) h) (\<lambda>h2. Inr (new_node off, h2))"
      by (simp add: nodeToRecieve_def)
    then show ?thesis using ok by (intro by_fresh) auto
  next
    case False
    obtain cand g where cg: "(if off > 0 then getBlockContainingLocation (off - 1) h else (None, h)) = (cand, g)"
      by fastforce
    have g: "pages g = pages h" "hdr_ok g" "cand \<noteq> None \<longrightarrow> cand = find (\<lambda>n. node_contains n (off - 1)) (A @ B)"
      using cg getBlock_spec [OF ok, of "off - 1"] ok AB(1) by (auto split: if_splits)
    have ntr: "nodeToRecieve off h =
       (case cand of Some n \<Rightarrow> if canAccept n off then Inr (n, g)
          else bindE (appendNode (new_node off) g) (\<lambda>h2. Inr (new_node off, h2))
        | None \<Rightarrow> bindE (appendNode (new_node off) g) (\<lambda>h2. Inr (new_node off, h2)))"
      using False cg by (simp add: nodeToRecieve_def)
    show ?thesis
    proof (cases "\<exists>n. cand = Some n \<and> canAccept n off")
      case False
      then have "nodeToRecieve off h = bindE (appendNode (new_node off) g) (\<lambda>h2. Inr (new_node off, h2))"
        using ntr by (auto split: option.splits)
      then show ?thesis using g by (intro by_fresh) auto
    next
      case True
      then obtain c where c: "cand = Some c" "canAccept c off" by blast
      have "c \<in> set (A @ B)" using g(3) c(1) by (metis find_Some_iff nth_mem option.distinct(1))
      have ce: "node_end c = off" "length (buf c) < SM_PAGE_SIZE" using c(2) by (auto simp: canAccept_def node_space_def)
      have "c \<notin> set B"
        using AB(5) ce(1) okAB node_end_gt [of c] bs by force
      with \<open>c \<in> set (A @ B)\<close> obtain A1 A2 where A: "A = A1 @ c # A2" by (auto simp: in_set_conv_decomp)
      have "A2 = []"
      proof (rule ccontr)
        assume "A2 \<noteq> []"
        then obtain d where d: "d \<in> set A2" by (cases A2) auto
        then have "node_end c \<le> offset d" "node_end d \<le> off" "offset d < node_end d"
          using apAB(1) AB(4) A okAB node_end_gt by (auto simp: apart_def sorted_wrt_append)
        with ce(1) show False by simp
      qed
      with A have A': "A = A1 @ [c]" by simp
      have "\<exists>k h2. writeAvailable c off bs g = Inr (k, h2) \<and> 0 < k \<and> k \<le> length bs \<and> hdr_ok h2 \<and>
         pages h2 = A1 @ grow_page c (take k bs) # B"
      proof (rule page_written)
        show "pages g = A1 @ c # B" using g(1) AB(1) A' by simp
        then show "elements (nodes g) = Suc (length A1 + length B)" using g(2) by (simp add: hdr_ok_def)
        show "inmem_hi g = (if B = [] \<and> buf c \<noteq> [] then node_end c else last_end (A1 @ B))"
          using g(1,2) AB(1) A' okAB by (auto simp: hdr_ok_def last_end_append last_end_def node_ok_def)
      qed (use okAB apAB A' AB(5) ce bs in \<open>auto simp: apart_def sorted_wrt_append node_ok_def\<close>)
      then obtain k h2 where w: "writeAvailable c off bs g = Inr (k, h2)" "0 < k" "k \<le> length bs" "hdr_ok h2"
         "pages h2 = A1 @ grow_page c (take k bs) # B" by blast
      have "\<forall>a \<in> set A1. node_end a \<le> offset c" using apAB(1) A' by (auto simp: apart_def sorted_wrt_append)
      from content_grow [OF this, of "take k bs" B] w(3,5) ce(1) AB(1) A'
      have "bytes_of h2 = (\<lambda>p. if off \<le> p \<and> p < off + int k then Some (bs ! nat (p - off)) else bytes_of h p)"
        by (auto simp: bytes_of_def fun_eq_iff min_def)
      with w c ntr show ?thesis by auto
    qed
  qed
qed

section \<open>Writing and reading\<close>

lemma write_loop_spec:
  assumes "hdr_ok h" "0 \<le> off" "length bs \<le> fuel"
    and "\<forall>p. off \<le> p \<and> p < off + int (length bs) \<longrightarrow> bytes_of h p = None"
  shows "\<exists>h'. write_loop fuel off bs h = Some (Inr h') \<and> hdr_ok h' \<and>
     bytes_of h' = (\<lambda>p. if off \<le> p \<and> p < off + int (length bs) then Some (bs ! nat (p - off)) else bytes_of h p)"
  using assms
proof (induction fuel arbitrary: off bs h)
  case 0
  then show ?case by (auto simp: fun_eq_iff)
next
  case (Suc fuel)
  show ?case
  proof (cases "bs = []")
    case True
    with Suc.prems show ?thesis by (auto simp: fun_eq_iff)
  next
    case False
    obtain n h1 k h2 where st: "nodeToRecieve off h = Inr (n, h1)" "writeAvailable n off bs h1 = Inr (k, h2)"
      "0 < k" "k \<le> length bs" "hdr_ok h2"
      "bytes_of h2 = (\<lambda>p. if off \<le> p \<and> p < off + int k then Some (bs ! nat (p - off)) else bytes_of h p)"
      using write_step [OF Suc.prems(1,2) False Suc.prems(4)] by blast
    have "\<exists>h'. write_loop fuel (off + int k) (drop k bs) h2 = Some (Inr h') \<and> hdr_ok h' \<and>
       bytes_of h' = (\<lambda>p. if off + int k \<le> p \<and> p < off + int k + int (length (drop k bs))
          then Some (drop k bs ! nat (p - (off + int k))) else bytes_of h2 p)"
      using st Suc.prems by (intro Suc.IH) auto
    then obtain h' where h': "write_loop fuel (off + int k) (drop k bs) h2 = Some (Inr h')" "hdr_ok h'"
       "bytes_of h' = (\<lambda>p. if off + int k \<le> p \<and> p < off + int k + int (length (drop k bs))
          then Some (drop k bs ! nat (p - (off + int k))) else bytes_of h2 p)" by blast
    have "bytes_of h' = (\<lambda>p. if off \<le> p \<and> p < off + int (length bs) then Some (bs ! nat (p - off)) else bytes_of h p)"
    proof
      fix p
      have "k + nat (p - (off + int k)) = nat (p - off)" if "off + int k \<le> p" using that by simp
      then show "bytes_of h' p = (if off \<le> p \<and> p < off + int (length bs) then Some (bs ! nat (p - off)) else bytes_of h p)"
        unfolding h'(3) st(6) using st(4) by auto
    qed
    moreover have "write_loop (Suc fuel) off bs h = write_loop fuel (off + int k) (drop k bs) h2"
      using False st(1-3) by simp
    ultimately show ?thesis using h' by auto
  qed
qed

lemma mem_write_spec:
  assumes "hdr_ok h" "0 \<le> off"
  shows "if \<forall>p. off \<le> p \<and> p < off + int (length bs) \<longrightarrow> bytes_of h p = None
     then \<exists>h'. mem_write off bs h = Some (Inr h') \<and> hdr_ok h' \<and>
       bytes_of h' = (\<lambda>p. if off \<le> p \<and> p < off + int (length bs) then Some (bs ! nat (p - off)) else bytes_of h p)
     else mem_write off bs h = Some (Inl FatalFault)"
proof -
  obtain h1 where h1: "unionNotEmpty off (length bs) h =
      Inr (\<exists>p. off \<le> p \<and> p < off + int (length bs) \<and> bytes_of h p \<noteq> None, h1)" "pages h1 = pages h" "hdr_ok h1"
    using unionNotEmpty_spec [OF assms] by blast
  have b: "bytes_of h1 = bytes_of h" using h1(2) by (simp add: bytes_of_def)
  show ?thesis
  proof (cases "\<forall>p. off \<le> p \<and> p < off + int (length bs) \<longrightarrow> bytes_of h p = None")
    case True
    then have "unionNotEmpty off (length bs) h = Inr (False, h1)" using h1(1) by auto
    then have "mem_write off bs h = write_loop (length bs) off bs h1" by (simp add: mem_write_def)
    with write_loop_spec [OF h1(3) assms(2), of bs "length bs", unfolded b] True show ?thesis by simp
  next
    case False
    then have "unionNotEmpty off (length bs) h = Inr (True, h1)" using h1(1) by auto
    with False show ?thesis by (simp add: mem_write_def)
  qed
qed

text \<open>What a page contributes to a copy.\<close>

lemma copyAvailable_spec:
  assumes "node_contains n p" "0 < k"
  shows "\<exists>bs. copyAvailable n p k = Inr bs \<and> bs \<noteq> [] \<and> length bs \<le> k \<and>
     (\<forall>i < length bs. node_contains n (p + int i) \<and> bs ! i = buf n ! nat (p + int i - offset n)) \<and>
     (length bs < k \<longrightarrow> p + int (length bs) = node_end n)"
proof -
  let ?o = "nat (p - offset n)" and ?bs = "bytes_at (buf n) (nat (p - offset n)) (min k (length (buf n) - nat (p - offset n)))"
  have c: "copyAvailable n p k = Inr ?bs" using assms by (simp add: copyAvailable_def node_contains_def Let_def)
  have o: "?o < length (buf n)" "int ?o = p - offset n" "offset n \<le> p"
    using assms(1) by (auto simp: node_contains_def node_end_def)
  then have len: "length ?bs = min k (length (buf n) - ?o)" by simp
  then have "0 < length ?bs" using o(1) assms(2) by simp
  then have "?bs \<noteq> []" by (metis length_greater_0_conv)
  moreover have "node_contains n (p + int i) \<and> ?bs ! i = buf n ! nat (p + int i - offset n)" if "i < length ?bs" for i
  proof -
    have i: "i < length (buf n) - ?o" using that len by simp
    then have "node_contains n (p + int i)" using assms(1) o by (auto simp: node_contains_def node_end_def)
    moreover have "nat (p + int i - offset n) = ?o + i" using o(3) by auto
    ultimately show ?thesis using that i by (simp add: bytes_at_def)
  qed
  moreover have "length ?bs < k \<longrightarrow> p + int (length ?bs) = node_end n"
    unfolding len using o by (auto simp: node_end_def min_def)
  ultimately show ?thesis using c len by (intro exI [of _ ?bs]) auto
qed

lemma bytes_of_contained:
  assumes "hdr_ok h" "n \<in> set (pages h)" "node_contains n p"
  shows "find (\<lambda>m. node_contains m p) (pages h) = Some n" "bytes_of h p = Some (buf n ! nat (p - offset n))"
proof -
  have ap: "sorted_wrt (\<lambda>a b. node_end a \<le> offset b) (pages h)" using assms(1) by (simp add: hdr_ok_def apart_def)
  have "m = n" if "m \<in> set (pages h)" "node_contains m p" for m
    using ap that assms(2,3) by (auto simp: in_set_conv_nth sorted_wrt_iff_nth_less node_contains_def)
      (metis linorder_neqE_nat not_less order_less_le_trans order_le_less_trans)
  then have "find (\<lambda>m. node_contains m p) (pages h) \<noteq> None \<Longrightarrow> find (\<lambda>m. node_contains m p) (pages h) = Some n"
    by (metis find_Some_iff nth_mem option.exhaust)
  moreover have "find (\<lambda>m. node_contains m p) (pages h) \<noteq> None" using assms(2,3) by (auto simp: find_None_iff)
  ultimately show f: "find (\<lambda>m. node_contains m p) (pages h) = Some n" by blast
  show "bytes_of h p = Some (buf n ! nat (p - offset n))" by (simp add: bytes_of_def content_find f)
qed

lemma find_Some_in: "find P xs = Some x \<Longrightarrow> x \<in> set xs \<and> P x"
  by (induction xs) (auto split: if_splits)

lemma getBlock_None: "hdr_ok h \<Longrightarrow> find (\<lambda>n. node_contains n p) (pages h) = None \<longleftrightarrow> bytes_of h p = None"
  by (simp add: bytes_of_def content_find)

text \<open>A run of bytes of the store that cannot be longer, unless \<open>k\<close> bytes are enough.\<close>

definition is_run :: "mem_hdr \<Rightarrow> int \<Rightarrow> nat \<Rightarrow> bytes \<Rightarrow> bool" where
  "is_run h p k bs \<longleftrightarrow> length bs \<le> k \<and> (\<forall>i < length bs. bytes_of h (p + int i) = Some (bs ! i)) \<and>
     (length bs < k \<longrightarrow> bytes_of h (p + int (length bs)) = None)"

lemma is_run_append:
  assumes "\<forall>i < length bs. bytes_of h (p + int i) = Some (bs ! i)" "length bs \<le> k"
    and "is_run h (p + int (length bs)) (k - length bs) cs"
  shows "is_run h p k (bs @ cs)"
  unfolding is_run_def
proof (intro conjI allI impI)
  show "length (bs @ cs) \<le> k" using assms(2,3) by (auto simp: is_run_def)
  show "bytes_of h (p + int i) = Some ((bs @ cs) ! i)" if "i < length (bs @ cs)" for i
  proof (cases "i < length bs")
    case True
    with assms(1) show ?thesis by (simp add: nth_append)
  next
    case False
    then have e: "p + int i = p + int (length bs) + int (i - length bs)" by simp
    have "i - length bs < length cs" using that False by simp
    with assms(3) have "bytes_of h (p + int (length bs) + int (i - length bs)) = Some (cs ! (i - length bs))"
      unfolding is_run_def by blast
    with False show ?thesis unfolding e [symmetric] by (simp add: nth_append)
  qed
  show "bytes_of h (p + int (length (bs @ cs))) = None" if "length (bs @ cs) < k"
    using assms(3) that by (auto simp: is_run_def ac_simps)
qed

lemma copy_loop_spec:
  assumes "hdr_ok h" "n = find (\<lambda>m. node_contains m p) (pages h)" "k \<le> fuel"
  shows "\<exists>bs h'. copy_loop fuel n p k h = Inr (bs, h') \<and> is_run h p k bs \<and> pages h' = pages h \<and> hdr_ok h'"
  using assms
proof (induction fuel arbitrary: n p k h)
  case 0
  then show ?case by (simp add: is_run_def)
next
  case (Suc fuel)
  show ?case
  proof (cases "k = 0")
    case True
    have "copy_loop (Suc fuel) n p k h = Inr ([], h)" using True by (simp split: option.split)
    with True Suc.prems(1) show ?thesis by (simp add: is_run_def)
  next
    case k: False
    show ?thesis
    proof (cases n)
      case None
      with Suc.prems(2) getBlock_None [OF Suc.prems(1), of p] have "bytes_of h p = None" by simp
      with None Suc.prems(1) show ?thesis by (simp add: is_run_def)
    next
      case (Some m)
      with Suc.prems(2) have m: "m \<in> set (pages h)" "node_contains m p" using find_Some_in by fastforce+
      obtain bs where bs: "copyAvailable m p k = Inr bs" "bs \<noteq> []" "length bs \<le> k"
          "\<forall>i < length bs. node_contains m (p + int i) \<and> bs ! i = buf m ! nat (p + int i - offset m)"
        using copyAvailable_spec [OF m(2), of k] k by blast
      have run: "\<forall>i < length bs. bytes_of h (p + int i) = Some (bs ! i)"
        using bs(4) bytes_of_contained(2) [OF Suc.prems(1) m(1)] by auto
      let ?p = "p + int (length bs)"
      obtain n1 h1 where g: "getBlockContainingLocation ?p h = (n1, h1)" by fastforce
      have g': "n1 = find (\<lambda>m. node_contains m ?p) (pages h1)" "pages h1 = pages h" "hdr_ok h1"
        using getBlock_spec [OF Suc.prems(1) g] by auto
      have "\<exists>cs h'. copy_loop fuel n1 ?p (k - length bs) h1 = Inr (cs, h') \<and> is_run h1 ?p (k - length bs) cs \<and>
          pages h' = pages h1 \<and> hdr_ok h'"
        using g' bs(2) Suc.prems(3) by (intro Suc.IH) (auto simp: neq_Nil_conv)
      then obtain cs h' where cs: "copy_loop fuel n1 ?p (k - length bs) h1 = Inr (cs, h')"
          "is_run h1 ?p (k - length bs) cs" "pages h' = pages h1" "hdr_ok h'" by blast
      have "is_run h ?p (k - length bs) cs" using cs(2) g'(2) by (simp add: is_run_def bytes_of_def)
      then have "is_run h p k (bs @ cs)" using run bs(3) by (intro is_run_append) auto
      moreover have "copy_loop (Suc fuel) n p k h = Inr (bs @ cs, h')"
        using Some k bs(1,2) g cs(1) by simp
      ultimately show ?thesis using cs(3,4) g'(2) by auto
    qed
  qed
qed

lemma mem_copy_spec:
  assumes "hdr_ok h" "0 < k" "bytes_of h p \<noteq> None"
  shows "\<exists>bs h'. mem_copy p k h = Inr (bs, h') \<and> is_run h p k bs \<and> pages h' = pages h \<and> hdr_ok h'"
proof -
  have "pages h \<noteq> []" using assms(3) by (auto simp: bytes_of_def)
  then have "splay_size (nodes h) \<noteq> 0" using assms(1) by (simp add: hdr_ok_def splay_size_def)
  moreover obtain n h1 where g: "getBlockContainingLocation p h = (n, h1)" by fastforce
  have g': "n = find (\<lambda>m. node_contains m p) (pages h1)" "pages h1 = pages h" "hdr_ok h1"
    using getBlock_spec [OF assms(1) g] by auto
  then obtain m where "n = Some m" using getBlock_None [OF assms(1), of p] assms(3) by auto
  moreover obtain bs h' where "copy_loop k n p k h1 = Inr (bs, h')" "is_run h1 p k bs" "pages h' = pages h1" "hdr_ok h'"
    using copy_loop_spec [OF g'(3,1) le_refl] by blast
  ultimately show ?thesis using g g'(2) assms(2) by (auto simp: mem_copy_def is_run_def bytes_of_def)
qed

section \<open>Appending\<close>

lemma finish_page: "splay_finish (nodes h) = (if pages h = [] then None else Some (last (pages h)))"
  by (simp add: splay_finish_def node_finish_last pages_def splay_items_def)

lemma start_page: "splay_start (nodes h) = (if pages h = [] then None else Some (hd (pages h)))"
  by (simp add: splay_start_def node_start_hd pages_def splay_items_def)

lemma all_before_end:
  assumes "hdr_ok h" "n \<in> set (pages h)"
  shows "node_end n \<le> inmem_hi h"
proof -
  have ne: "pages h \<noteq> []" using assms(2) by auto
  then have sp: "pages h = butlast (pages h) @ [last (pages h)]" by simp
  have "n = last (pages h) \<or> n \<in> set (butlast (pages h))" using assms(2) sp
    by (metis UnE empty_iff list.set(1) list.simps(15) set_ConsD set_append)
  moreover have "node_end n \<le> offset (last (pages h))" if "n \<in> set (butlast (pages h))"
  proof -
    have "apart (butlast (pages h) @ [last (pages h)])" using assms(1) sp by (simp add: hdr_ok_def)
    then show ?thesis using that by (simp add: apart_def sorted_wrt_append)
  qed
  ultimately show ?thesis
    using assms(1) ne offset_le_end [of "last (pages h)"] by (auto simp: hdr_ok_def last_end_def)
qed

lemma append_step:
  assumes ok: "hdr_ok h" and bs: "bs \<noteq> []"
  shows "\<exists>h1 n k h2. makeAppendSpace h = Inr h1 \<and> splay_finish (nodes h1) = Some n \<and>
     appendToNode n bs h1 = Inr (k, h2) \<and> 0 < k \<and> k \<le> length bs \<and> hdr_ok h2 \<and> inmem_hi h2 = inmem_hi h + int k \<and>
     bytes_of h2 = (\<lambda>p. if inmem_hi h \<le> p \<and> p < inmem_hi h + int k then Some (bs ! nat (p - inmem_hi h)) else bytes_of h p)"
proof -
  have o: "apart (pages h)" "\<forall>n \<in> set (pages h). node_ok n" "elements (nodes h) = length (pages h)"
    "inmem_hi h = last_end (pages h)" using ok by (auto simp: hdr_ok_def)
  let ?e = "inmem_hi h"
  have e0: "0 \<le> ?e"
  proof (cases "pages h = []")
    case False
    then have "node_ok (last (pages h))" using o(2) by simp
    then show ?thesis using o(4) False offset_le_end [of "last (pages h)"] by (simp add: last_end_def node_ok_def)
  qed (use o(4) in \<open>simp add: last_end_def\<close>)
  have finish: ?thesis
    if m: "makeAppendSpace h = Inr h1" "pages h1 = A @ [c]" "elements (nodes h1) = Suc (length A)" "inmem_hi h1 = ?e"
      "\<forall>n \<in> set A. node_ok n" "apart A" "\<forall>a \<in> set A. node_end a \<le> offset c" "0 \<le> offset c"
      "length (buf c) < SM_PAGE_SIZE" "node_end c = ?e" "buf c = [] \<longrightarrow> ?e = last_end A"
      "content (A @ [c]) = bytes_of h" for h1 A c
  proof -
    have "\<exists>k h'. writeAvailable c ?e bs h1 = Inr (k, h') \<and> 0 < k \<and> k \<le> length bs \<and> hdr_ok h' \<and>
       pages h' = A @ grow_page c (take k bs) # []"
      using m bs by (intro page_written) (auto simp: apart_def)
    then obtain k h2 where w: "writeAvailable c ?e bs h1 = Inr (k, h2)" "0 < k" "k \<le> length bs" "hdr_ok h2"
       "pages h2 = A @ [grow_page c (take k bs)]" by auto
    have "bytes_of h2 = (\<lambda>p. if ?e \<le> p \<and> p < ?e + int k then Some (bs ! nat (p - ?e)) else bytes_of h p)"
      using content_grow [OF m(7), of "take k bs" "[]"] w(3,5) m(10,12) by (auto simp: bytes_of_def fun_eq_iff min_def)
    moreover have "inmem_hi h2 = ?e + int k"
      using w(3,4,5) m(10) by (simp add: hdr_ok_def last_end_def min_def)
    ultimately show ?thesis using m(1,2,10) w by (simp add: finish_page appendToNode_def)
  qed
  have fresh: "\<exists>h1. appendNode (new_node ?e) h = Inr h1 \<and> inmem_hi h1 = ?e \<and>
      elements (nodes h1) = Suc (length (pages h)) \<and> pages h1 = pages h @ [new_node ?e]"
  proof -
    have "offset n \<le> ?e" if "n \<in> set (pages h)" for n
      using all_before_end [OF ok that] offset_le_end [of n] by linarith
    then have "takeWhile (\<lambda>n. offset n \<le> ?e) (pages h) = pages h" "dropWhile (\<lambda>n. offset n \<le> ?e) (pages h) = []"
      by simp_all
    with appendNode_spec [OF o(1-3), of ?e] show ?thesis by simp
  qed
  then obtain g where g: "appendNode (new_node ?e) h = Inr g" "inmem_hi g = ?e"
      "elements (nodes g) = Suc (length (pages h))" "pages g = pages h @ [new_node ?e]" by blast
  have new: "offset (new_node ?e) = ?e" "node_end (new_node ?e) = ?e" "buf (new_node ?e) = []"
    by (simp_all add: new_node_def node_end_def)
  have by_new: ?thesis if "makeAppendSpace h = Inr g"
  proof (rule finish [OF that g(4,3,2) o(2,1)])
    show "content (pages h @ [new_node ?e]) = bytes_of h"
      by (rule ext) (auto simp: content_append bytes_of_def node_contains_def new split: option.split)
  qed (use new e0 o(4) all_before_end [OF ok] in \<open>auto simp: SM_PAGE_SIZE_def\<close>)
  show ?thesis
  proof (cases "pages h = []")
    case True
    then have "makeAppendSpace h = Inr g"
      using g(1) o(3,4) by (simp add: makeAppendSpace_def splay_size_def last_end_def)
    then show ?thesis by (rule by_new)
  next
    case False
    let ?c = "last (pages h)"
    have sz: "splay_size (nodes h) \<noteq> 0" using False o(3) by (simp add: splay_size_def)
    have eo: "endOffset h = Inr ?e" using False o(4) by (simp add: endOffset_def finish_page dataRange_def last_end_def)
    show ?thesis
    proof (cases "finish_space h = 0")
      case True
      have "finish_space g > 0" using g(4) by (simp add: finish_space_def finish_page new_node_def node_space_def SM_PAGE_SIZE_def)
      with True sz eo g(1) have "makeAppendSpace h = Inr g" by (simp add: makeAppendSpace_def)
      then show ?thesis by (rule by_new)
    next
      case sp: False
      have pc: "pages h = butlast (pages h) @ [?c]" using False by simp
      have ap: "apart (butlast (pages h) @ [?c])" using o(1) pc by simp
      have in_pages: "\<forall>n \<in> set (butlast (pages h)). node_ok n" using o(2) by (auto dest: in_set_butlastD)
      have "makeAppendSpace h = Inr h" using sp sz by (simp add: makeAppendSpace_def)
      then show ?thesis
      proof (rule finish [OF _ pc])
        show "elements (nodes h) = Suc (length (butlast (pages h)))" using o(3) False by (simp add: Suc_leI)
        show "apart (butlast (pages h))" "\<forall>a \<in> set (butlast (pages h)). node_end a \<le> offset ?c"
          using ap by (auto simp: apart_def sorted_wrt_append)
        show "content (butlast (pages h) @ [?c]) = bytes_of h" using pc by (simp add: bytes_of_def)
        show "0 \<le> offset ?c" "buf ?c = [] \<longrightarrow> ?e = last_end (butlast (pages h))"
          using o(2) False by (auto simp: node_ok_def)
        show "node_end ?c = ?e" using o(4) False by (simp add: last_end_def)
        show "length (buf ?c) < SM_PAGE_SIZE" using sp False by (simp add: finish_space_def finish_page node_space_def)
      qed (use in_pages in auto)
    qed
  qed
qed

lemma append_loop_spec:
  assumes "hdr_ok h" "length bs \<le> fuel"
  shows "\<exists>h'. append_loop fuel bs h = Some (Inr h') \<and> hdr_ok h' \<and> inmem_hi h' = inmem_hi h + int (length bs) \<and>
    bytes_of h' = (\<lambda>p. if inmem_hi h \<le> p \<and> p < inmem_hi h + int (length bs)
       then Some (bs ! nat (p - inmem_hi h)) else bytes_of h p)"
  using assms
proof (induction fuel arbitrary: bs h)
  case 0
  then show ?case by (auto simp: fun_eq_iff)
next
  case (Suc fuel)
  show ?case
  proof (cases "bs = []")
    case True
    with Suc.prems show ?thesis by (auto simp: fun_eq_iff)
  next
    case False
    let ?e = "inmem_hi h"
    obtain h1 n k h2 where st: "makeAppendSpace h = Inr h1" "splay_finish (nodes h1) = Some n"
      "appendToNode n bs h1 = Inr (k, h2)" "0 < k" "k \<le> length bs" "hdr_ok h2" "inmem_hi h2 = ?e + int k"
      "bytes_of h2 = (\<lambda>p. if ?e \<le> p \<and> p < ?e + int k then Some (bs ! nat (p - ?e)) else bytes_of h p)"
      using append_step [OF Suc.prems(1) False] by blast
    have "length (drop k bs) \<le> fuel" using Suc.prems(2) st(4) by simp
    from Suc.IH [OF st(6) this] obtain h' where h': "append_loop fuel (drop k bs) h2 = Some (Inr h')" "hdr_ok h'"
       "inmem_hi h' = ?e + int k + int (length (drop k bs))"
       "bytes_of h' = (\<lambda>p. if ?e + int k \<le> p \<and> p < ?e + int k + int (length (drop k bs))
          then Some (drop k bs ! nat (p - (?e + int k))) else bytes_of h2 p)" unfolding st(7) by blast
    have "bytes_of h' = (\<lambda>p. if ?e \<le> p \<and> p < ?e + int (length bs) then Some (bs ! nat (p - ?e)) else bytes_of h p)"
    proof
      fix p
      have "k + nat (p - (?e + int k)) = nat (p - ?e)" if "?e + int k \<le> p" using that by simp
      then show "bytes_of h' p = (if ?e \<le> p \<and> p < ?e + int (length bs) then Some (bs ! nat (p - ?e)) else bytes_of h p)"
        unfolding h'(4) st(8) using st(5) by auto
    qed
    moreover have "append_loop (Suc fuel) bs h = append_loop fuel (drop k bs) h2" using False st(1-4) by simp
    ultimately show ?thesis using h' st(5) by auto
  qed
qed

section \<open>Freeing and testing for gaps\<close>

lemma unlink_first:
  assumes ok: "hdr_ok h" and pg: "pages h = n # rest" and ne: "rest \<noteq> []" and wp: "\<not> write_pending n"
  shows "\<exists>h1. unlink n h = Inr (True, h1) \<and> pages h1 = rest \<and> hdr_ok h1"
proof -
  have o: "apart (n # rest)" "\<forall>m \<in> set (n # rest). node_ok m" "elements (nodes h) = length (n # rest)"
    "inmem_hi h = last_end (n # rest)" using ok pg by (auto simp: hdr_ok_def)
  have self: "NodeCompare n n = 0" using o(2) node_end_gt by (auto simp: cmp_zero)
  have other: "NodeCompare n m \<noteq> 0" if "m \<in> set rest" for m
    using o(1) that by (auto simp: cmp_zero apart_def)
  have io: "in_order (NodeCompare n) (splay_items (nodes h))"
    using member_order [OF o(1,2), of n] pg by (simp add: pages_def)
  have "\<exists>x \<in> set (splay_items (nodes h)). NodeCompare n x = 0" using self pg by (auto simp: pages_def)
  from splay_remove_spec [OF io this] obtain ns where ns: "splay_remove (NodeCompare n) (nodes h) = Inr ns"
    "elements ns = length rest" "splay_items ns = filter (\<lambda>y. NodeCompare n y \<noteq> 0) (n # rest)"
    using o(3) pg by (auto simp: pages_def)
  have "splay_items ns = rest" using ns(3) self other by (simp add: filter_id_conv)
  moreover have "apart rest" using o(1) by (simp add: apart_def)
  ultimately show ?thesis
    using ns(1,2) wp o ne by (auto simp: unlink_def hdr_ok_def pages_def last_end_def)
qed

text \<open>The pages that go are a prefix, end at or before the target, and are not all of them.\<close>

lemma free_loop_spec:
  assumes "hdr_ok h"
  shows "\<exists>j h1. free_loop fuel target h = Inr h1 \<and> hdr_ok h1 \<and> pages h1 = drop j (pages h) \<and>
     (\<forall>n \<in> set (take j (pages h)). node_end n \<le> target) \<and> (pages h \<noteq> [] \<longrightarrow> pages h1 \<noteq> [])"
  using assms
proof (induction fuel arbitrary: h)
  case 0
  then show ?case by (intro exI [of _ 0]) simp
next
  case (Suc fuel)
  show ?case
  proof (cases "pages h")
    case Nil
    with Suc.prems show ?thesis by (intro exI [of _ 0]) (simp add: start_page)
  next
    case (Cons n rest)
    have single: "size (head (nodes h)) = 1 \<longleftrightarrow> rest = []"
      using Cons length_inorder [of "head (nodes h)"] by (auto simp: pages_def splay_items_def)
    consider (stop) "rest = [] \<or> node_end n > target \<or> write_pending n"
      | (go) "rest \<noteq> []" "\<not> node_end n > target" "\<not> write_pending n" by blast
    then show ?thesis
    proof cases
      case stop
      then have "free_loop (Suc fuel) target h = Inr h"
        using single Cons by (auto simp: start_page unlink_def)
      then show ?thesis using Suc.prems by (intro exI [of _ 0]) simp
    next
      case go
      obtain h1 where h1: "unlink n h = Inr (True, h1)" "pages h1 = rest" "hdr_ok h1"
        using unlink_first [OF Suc.prems Cons go(1,3)] by blast
      obtain j h2 where j: "free_loop fuel target h1 = Inr h2" "hdr_ok h2" "pages h2 = drop j rest"
        "\<forall>n \<in> set (take j rest). node_end n \<le> target" "pages h2 \<noteq> []"
        using Suc.IH [OF h1(3)] h1(2) go(1) by auto
      have "free_loop (Suc fuel) target h = Inr h2" using go single Cons h1(1) j(1) by (simp add: start_page)
      with j Cons go(2) show ?thesis by (intro exI [of _ "Suc j"] exI [of _ h2]) auto
    qed
  qed
qed

lemma contiguous_loop_spec:
  assumes "hdr_ok h" "length (filter (\<lambda>n. node_end n > cs) (pages h)) < fuel" "cs < stop"
  shows "fst (contiguous_loop fuel cs stop h) = Some (\<forall>p. cs \<le> p \<and> p < stop \<longrightarrow> bytes_of h p \<noteq> None)"
  using assms
proof (induction fuel arbitrary: cs h)
  case (Suc fuel)
  obtain r h1 where g: "getBlockContainingLocation cs h = (r, h1)" by fastforce
  have g': "r = find (\<lambda>n. node_contains n cs) (pages h)" "pages h1 = pages h" "hdr_ok h1"
    using getBlock_spec [OF Suc.prems(1) g] by auto
  show ?case
  proof (cases r)
    case None
    with g'(1) getBlock_None [OF Suc.prems(1), of cs] have "bytes_of h cs = None" by simp
    with None g Suc.prems(3) show ?thesis by force
  next
    case (Some n)
    with g'(1) have n: "n \<in> set (pages h)" "node_contains n cs" using find_Some_in by fastforce+
    have here: "bytes_of h p \<noteq> None" if "cs \<le> p" "p < node_end n" for p
    proof -
      have "node_contains n p" using n(2) that by (simp add: node_contains_def)
      from bytes_of_contained(2) [OF Suc.prems(1) n(1) this] show ?thesis by simp
    qed
    show ?thesis
    proof (cases "node_end n \<ge> stop")
      case True
      with Some g here show ?thesis by auto
    next
      case False
      have cs: "cs < node_end n" using n(2) by (simp add: node_contains_def)
      have "length (filter (\<lambda>m. node_end m > node_end n) (pages h)) < length (filter (\<lambda>m. node_end m > cs) (pages h))"
      proof -
        have "filter (\<lambda>m. node_end m > node_end n) (pages h) =
            filter (\<lambda>m. node_end m > node_end n) (filter (\<lambda>m. node_end m > cs) (pages h))"
          using cs by (auto simp: conj_commute intro!: filter_cong)
        moreover have "n \<in> set (filter (\<lambda>m. node_end m > cs) (pages h))" using n(1) cs by simp
        ultimately show ?thesis by (metis (no_types, lifting) length_filter_less less_irrefl)
      qed
      then have "fst (contiguous_loop fuel (node_end n) stop h1) =
          Some (\<forall>p. node_end n \<le> p \<and> p < stop \<longrightarrow> bytes_of h1 p \<noteq> None)"
        using g' Suc.prems(2) False by (intro Suc.IH) auto
      moreover have "(\<forall>p. node_end n \<le> p \<and> p < stop \<longrightarrow> bytes_of h1 p \<noteq> None) \<longleftrightarrow>
          (\<forall>p. cs \<le> p \<and> p < stop \<longrightarrow> bytes_of h p \<noteq> None)"
        using here cs g'(2) by (auto simp: bytes_of_def) (metis linorder_not_le option.distinct(1))
      ultimately show ?thesis using Some g False by simp
    qed
  qed
qed simp

section \<open>Properties\<close>

text \<open>
  C11. \<^verbatim>\<open>mem_hdr::write()\<close> and \<^verbatim>\<open>internalAppend()\<close> implement updates of a partial map from offsets to bytes.  A write
  into free offsets always succeeds (no assertion fails, the loop ends), stores exactly its bytes, leaves every
  other offset alone and keeps pages disjoint, in order and within 4096 bytes with \<^verbatim>\<open>inmem_hi\<close> at the end; a write
  that would touch a single offset already present is refused by \<^verbatim>\<open>fatal()\<close>; an append is a write at the end.
\<close>

theorem mem_write_updates:
  assumes "hdr_ok h" "0 \<le> off"
  shows "(if \<forall>p. off \<le> p \<and> p < off + int (length bs) \<longrightarrow> bytes_of h p = None
     then \<exists>h'. mem_write off bs h = Some (Inr h') \<and> hdr_ok h' \<and>
       bytes_of h' = (\<lambda>p. if off \<le> p \<and> p < off + int (length bs) then Some (bs ! nat (p - off)) else bytes_of h p)
     else mem_write off bs h = Some (Inl FatalFault)) \<and>
    (\<exists>h'. internalAppend bs h = Some (Inr h') \<and> hdr_ok h' \<and> inmem_hi h' = inmem_hi h + int (length bs) \<and>
       bytes_of h' = (\<lambda>p. if inmem_hi h \<le> p \<and> p < inmem_hi h + int (length bs)
         then Some (bs ! nat (p - inmem_hi h)) else bytes_of h p))"
  using mem_write_spec [OF assms, of bs] append_loop_spec [OF assms(1), of bs "length bs"]
  by (intro conjI) (simp_all add: internalAppend_def)

theorem mem_write_updates_witness:
  "\<exists>h1 h2. mem_write 10 [1, 2, 3] new_mem_hdr = Some (Inr h1) \<and> bytes_of h1 11 = Some 2 \<and> hdr_ok h1 \<and>
     mem_write 12 [9] h1 = Some (Inl FatalFault) \<and> internalAppend [7] h1 = Some (Inr h2) \<and> bytes_of h2 13 = Some 7"
proof -
  obtain h1 where h1: "mem_write 10 [1, 2, 3] new_mem_hdr = Some (Inr h1)" "hdr_ok h1"
    "bytes_of h1 = (\<lambda>p. if 10 \<le> p \<and> p < 10 + int (length [1, 2, 3 :: byte]) then Some ([1, 2, 3] ! nat (p - 10)) else None)"
    using mem_write_updates [OF new_mem_hdr_ok(1), of 10 "[1, 2, 3]"] new_mem_hdr_ok(2) by (auto simp: fun_eq_iff)
  have over: "\<not> (\<forall>p. 12 \<le> p \<and> p < 12 + int (length [9 :: byte]) \<longrightarrow> bytes_of h1 p = None)"
    unfolding h1(3) by (auto intro!: exI [of _ 12])
  have hi: "inmem_hi h1 = 13"
  proof -
    have "inmem_hi h1 = last_end (pages h1)" using h1(2) by (simp add: hdr_ok_def)
    moreover have "pages h1 \<noteq> []" using fun_cong [OF h1(3), of 10] by (auto simp: bytes_of_def)
    moreover from this have l: "last (pages h1) \<in> set (pages h1)" "node_ok (last (pages h1))"
      using h1(2) by (auto simp: hdr_ok_def)
    ultimately have e: "inmem_hi h1 = node_end (last (pages h1))" by (simp add: last_end_def)
    have "node_contains (last (pages h1)) (node_end (last (pages h1)) - 1)"
      using node_end_gt [OF l(2)] by (simp add: node_contains_def)
    from bytes_of_contained(2) [OF h1(2) l(1) this] have "bytes_of h1 (inmem_hi h1 - 1) \<noteq> None" unfolding e by simp
    then have le: "inmem_hi h1 \<le> 13" unfolding h1(3) by (auto split: if_splits)
    have "bytes_of h1 12 \<noteq> None" unfolding h1(3) by simp
    then obtain n where "n \<in> set (pages h1)" "node_contains n 12" by (auto simp: bytes_of_def content_None)
    with all_before_end [OF h1(2)] have "12 < inmem_hi h1" by (fastforce simp: node_contains_def)
    with le show ?thesis by simp
  qed
  from mem_write_updates [OF h1(2), of 12 "[9]"] over have f: "mem_write 12 [9] h1 = Some (Inl FatalFault)" by auto
  from mem_write_updates [OF h1(2), of 0 "[7]"] obtain h2 where "internalAppend [7] h1 = Some (Inr h2)"
    "bytes_of h2 = (\<lambda>p. if inmem_hi h1 \<le> p \<and> p < inmem_hi h1 + int (length [7 :: byte])
         then Some ([7] ! nat (p - inmem_hi h1)) else bytes_of h1 p)" by blast
  with h1 f hi show ?thesis by auto
qed



lemma dropped_bytes:
  assumes "hdr_ok h" "pages h1 = drop j (pages h)" "\<forall>n \<in> set (take j (pages h)). node_end n \<le> target"
  shows "bytes_of h1 p = bytes_of h p \<or> (bytes_of h1 p = None \<and> p < target)"
proof -
  have e: "bytes_of h p = (case content (take j (pages h)) p of None \<Rightarrow> bytes_of h1 p | Some v \<Rightarrow> Some v)"
    unfolding bytes_of_def assms(2) by (metis append_take_drop_id content_append)
  show ?thesis
  proof (cases "content (take j (pages h)) p")
    case (Some v)
    then obtain n where n: "n \<in> set (take j (pages h))" "node_contains n p"
      by (metis content_None option.distinct(1))
    have ap: "apart (take j (pages h) @ drop j (pages h))" using assms(1) by (simp add: hdr_ok_def)
    have "\<not> node_contains m p" if "m \<in> set (drop j (pages h))" for m
    proof -
      have "node_end n \<le> offset m" using ap n(1) that unfolding apart_def sorted_wrt_append by blast
      with n(2) show ?thesis by (simp add: node_contains_def)
    qed
    then have "bytes_of h1 p = None" by (simp add: bytes_of_def assms(2) content_None)
    moreover have "p < target" using n assms(3) by (force simp: node_contains_def)
    ultimately show ?thesis by blast
  qed (use e in simp)
qed

lemma pages_sorted:
  assumes "hdr_ok h" "i < j" "j < length (pages h)"
  shows "node_end (pages h ! i) \<le> offset (pages h ! j)"
  using assms by (simp add: hdr_ok_def apart_def sorted_wrt_iff_nth_less)

lemma lowest_le:
  assumes "hdr_ok h" "i < length (pages h)"
  shows "lowestOffset h \<le> node_end (pages h ! i)"
proof -
  have ne: "pages h \<noteq> []" using assms(2) by auto
  have "offset (pages h ! 0) \<le> node_end (pages h ! i)"
  proof (cases i)
    case (Suc i')
    then show ?thesis
      using pages_sorted [OF assms(1), of 0 i] assms(2) offset_le_end [of "pages h ! 0"] offset_le_end [of "pages h ! i"]
      by linarith
  qed (simp add: offset_le_end)
  then show ?thesis using ne by (simp add: lowestOffset_def start_page hd_conv_nth)
qed

text \<open>Without a gap each page starts where the one before it ends.\<close>

lemma no_gap_adjacent:
  assumes ok: "hdr_ok h" and i: "Suc i < length (pages h)"
    and full: "\<forall>p. lowestOffset h \<le> p \<and> p < inmem_hi h \<longrightarrow> bytes_of h p \<noteq> None"
  shows "offset (pages h ! Suc i) \<le> node_end (pages h ! i)"
proof (rule ccontr)
  let ?n = "pages h ! i" and ?m = "pages h ! Suc i"
  assume gap: "\<not> ?thesis"
  have "node_ok ?m" using ok i by (simp add: hdr_ok_def)
  then have "node_end ?n < inmem_hi h"
    using all_before_end [OF ok, of ?m] node_end_gt [of ?m] gap i by simp
  with full lowest_le [OF ok, of i] i have "bytes_of h (node_end ?n) \<noteq> None" by simp
  then obtain k where k: "k < length (pages h)" "node_contains (pages h ! k) (node_end ?n)"
    by (auto simp: bytes_of_def content_None in_set_conv_nth)
  have "k \<noteq> i" using k(2) by (auto simp: node_contains_def)
  moreover have "\<not> k < i"
    using pages_sorted [OF ok, of k i] i k(2) offset_le_end [of ?n] by (auto simp: node_contains_def)
  moreover have "k \<noteq> Suc i" using k(2) gap by (auto simp: node_contains_def)
  moreover have "\<not> Suc i < k"
    using pages_sorted [OF ok, of "Suc i" k] k gap offset_le_end [of ?m] by (auto simp: node_contains_def)
  ultimately show False by linarith
qed

text \<open>
  \<^verbatim>\<open>freeDataUpto()\<close> loses nothing at or after its target: it drops whole pages from the front, each ending at
  or before the target, never the last page, and keeps the store well-formed.  When the stored data
  has no gap and starts at or before the target, its assertion holds and the new lowest offset is returned.
\<close>

theorem mem_free_keeps:
  assumes "hdr_ok h" "pages h \<noteq> []"
  shows "\<exists>h1. free_loop (splay_size (nodes h)) target h = Inr h1 \<and> hdr_ok h1 \<and> pages h1 \<noteq> [] \<and>
     (\<forall>p. bytes_of h1 p = bytes_of h p \<or> (bytes_of h1 p = None \<and> p < target)) \<and>
     (lowestOffset h \<le> target \<and> (\<forall>p. lowestOffset h \<le> p \<and> p < inmem_hi h \<longrightarrow> bytes_of h p \<noteq> None) \<longrightarrow>
        freeDataUpto target h = Inr (lowestOffset h1, h1) \<and> lowestOffset h1 \<le> target)"
proof -
  obtain j h1 where f: "free_loop (splay_size (nodes h)) target h = Inr h1" "hdr_ok h1" "pages h1 = drop j (pages h)"
     "\<forall>n \<in> set (take j (pages h)). node_end n \<le> target" "pages h1 \<noteq> []"
    using free_loop_spec [OF assms(1)] assms(2) by blast
  have "lowestOffset h1 \<le> target"
    if g: "lowestOffset h \<le> target" "\<forall>p. lowestOffset h \<le> p \<and> p < inmem_hi h \<longrightarrow> bytes_of h p \<noteq> None"
  proof (cases j)
    case 0
    then show ?thesis using f(3) g(1) assms(2) by (simp add: lowestOffset_def start_page)
  next
    case (Suc i)
    have i: "Suc i < length (pages h)" using f(3,5) Suc by (metis drop_all linorder_not_le)
    have "pages h ! i \<in> set (take j (pages h))" using Suc i by (auto simp: in_set_conv_nth intro!: exI [of _ i])
    then have "node_end (pages h ! i) \<le> target" using f(4) by blast
    moreover have "hd (pages h1) = pages h ! Suc i" using f(3) Suc i by (simp add: hd_drop_conv_nth)
    ultimately show ?thesis
      using no_gap_adjacent [OF assms(1) i g(2)] f(5) by (simp add: lowestOffset_def start_page)
  qed
  with f dropped_bytes [OF assms(1) f(3,4)] show ?thesis by (auto simp: freeDataUpto_def)
qed

theorem mem_free_keeps_witness:
  "\<exists>h h1. internalAppend [1, 2, 3] new_mem_hdr = Some (Inr h) \<and> free_loop (splay_size (nodes h)) 2 h = Inr h1 \<and>
     bytes_of h1 2 = Some 3"
proof -
  obtain h where h: "internalAppend [1, 2, 3] new_mem_hdr = Some (Inr h)" "hdr_ok h"
    "bytes_of h = (\<lambda>p. if inmem_hi new_mem_hdr \<le> p \<and> p < inmem_hi new_mem_hdr + int (length [1, 2, 3 :: byte])
       then Some ([1, 2, 3] ! nat (p - inmem_hi new_mem_hdr)) else bytes_of new_mem_hdr p)"
    using append_loop_spec [OF new_mem_hdr_ok(1), of "[1, 2, 3]" "length [1, 2, 3 :: byte]"]
    by (auto simp: internalAppend_def)
  have b: "bytes_of h 2 = Some 3" unfolding h(3) by (simp add: new_mem_hdr_def)
  then have "pages h \<noteq> []" by (auto simp: bytes_of_def)
  from mem_free_keeps [OF h(2) this, of 2] obtain h1 where "free_loop (splay_size (nodes h)) 2 h = Inr h1"
    "bytes_of h1 2 = bytes_of h 2 \<or> (bytes_of h1 2 = None \<and> (2 :: int) < 2)" by blast
  with h(1) b show ?thesis by auto
qed

end
