(* ===== verification/Refresh.thy ===== *)
theory Refresh
  imports Complex_Main Squid_Prelude
begin

text \<open>
  The freshness decision of \<^verbatim>\<open>src/refresh.cc\<close>, in a build with HTTP violations, HTCP and cache digests
  enabled.  Regular expression matching is a parameter (\<open>regmatch\<close>, applied to the text of a pattern and
  a URL), as is the clock.  Times are integers; the staleness, an \<^verbatim>\<open>int\<close> in the source, is cut to 32 bits.
\<close>

section \<open>Data\<close>

datatype refresh_reason =
    FRESH_REQUEST_MAX_STALE_ALL | FRESH_REQUEST_MAX_STALE_VALUE | FRESH_EXPIRES | FRESH_LMFACTOR_RULE
  | FRESH_MIN_RULE | FRESH_OVERRIDE_EXPIRES | FRESH_OVERRIDE_LASTMOD
  | STALE_MUST_REVALIDATE | STALE_RELOAD_INTO_IMS | STALE_FORCED_RELOAD
  | STALE_EXCEEDS_REQUEST_MAX_AGE_VALUE | STALE_EXPIRES | STALE_MAX_RULE | STALE_LMFACTOR_RULE
  | STALE_MAX_STALE | STALE_DEFAULT

fun reason_code :: "refresh_reason \<Rightarrow> nat" where
  "reason_code FRESH_REQUEST_MAX_STALE_ALL = 100"
| "reason_code FRESH_REQUEST_MAX_STALE_VALUE = 101"
| "reason_code FRESH_EXPIRES = 102"
| "reason_code FRESH_LMFACTOR_RULE = 103"
| "reason_code FRESH_MIN_RULE = 104"
| "reason_code FRESH_OVERRIDE_EXPIRES = 105"
| "reason_code FRESH_OVERRIDE_LASTMOD = 106"
| "reason_code STALE_MUST_REVALIDATE = 200"
| "reason_code STALE_RELOAD_INTO_IMS = 201"
| "reason_code STALE_FORCED_RELOAD = 202"
| "reason_code STALE_EXCEEDS_REQUEST_MAX_AGE_VALUE = 203"
| "reason_code STALE_EXPIRES = 204"
| "reason_code STALE_MAX_RULE = 205"
| "reason_code STALE_LMFACTOR_RULE = 206"
| "reason_code STALE_MAX_STALE = 207"
| "reason_code STALE_DEFAULT = 299"

record stale_flags =
  sf_expires :: bool
  sf_min :: bool
  sf_lmfactor :: bool
  sf_max :: bool

record refresh_pattern =
  pattern :: string
  rp_min :: int
  pct :: rat
  rp_max :: int
  refresh_ims :: bool
  override_expire :: bool
  override_lastmod :: bool
  reload_into_ims :: bool
  ignore_reload :: bool
  ignore_must_revalidate :: bool
  rp_max_stale :: int

text \<open>The directives of \<^verbatim>\<open>Cache-Control\<close> that matter here; \<open>None\<close> when a directive is not present.\<close>

record cache_control =
  maxAge :: "int option"
  maxStale :: "int option"
  minFresh :: "int option"
  staleIfError :: "int option"

definition MAX_STALE_ANY :: int where
  "MAX_STALE_ANY = 0x7fffffff"

record http_request =
  canonical :: string
  ignoreCc :: bool
  ims :: bool
  nocacheHack :: bool
  noCache :: bool
  failOnValidationError :: bool
  staleIfHit :: bool
  req_cc :: "cache_control option"

record http_reply =
  rep_cc :: "cache_control option"
  content_length :: int

record mem_object =
  url :: string
  reply :: "http_reply option"
  mem_request :: "http_request option"

record store_entry =
  expires :: int
  lastmod :: int
  timestamp :: int
  entry_revalidate :: bool
  mem_obj :: "mem_object option"

record refresh_config =
  Refresh :: "refresh_pattern list"
  refresh_all_ims :: bool
  cfg_reload_into_ims :: bool
  offline :: bool
  cfg_maxStale :: int
  minimum_expiry_time :: int
  squid_curtime :: int

definition REFRESH_DEFAULT_MAX :: int where
  "REFRESH_DEFAULT_MAX = 259200"

text \<open>\<^verbatim>\<open>DefaultRefresh\<close> is zeroed before the three limits are set, so its \<^verbatim>\<open>max_stale\<close> is 0.\<close>

definition DefaultRefresh :: refresh_pattern where
  "DefaultRefresh = \<lparr>pattern = ''<none>'', rp_min = 0, pct = 1 / 5, rp_max = REFRESH_DEFAULT_MAX,
     refresh_ims = False, override_expire = False, override_lastmod = False, reload_into_ims = False,
     ignore_reload = False, ignore_must_revalidate = False, rp_max_stale = 0\<rparr>"

section \<open>Staleness\<close>

definition to_int32 :: "int \<Rightarrow> int" where
  "to_int32 x = (x + 2 ^ 31) mod 2 ^ 32 - 2 ^ 31"

fun refreshLimits :: "(string \<Rightarrow> string \<Rightarrow> bool) \<Rightarrow> string \<Rightarrow> refresh_pattern list \<Rightarrow> refresh_pattern option" where
  "refreshLimits regmatch u [] = None"
| "refreshLimits regmatch u (R # Rs) =
     (if regmatch (pattern R) u then Some R else refreshLimits regmatch u Rs)"

fun refreshUncompiledPattern :: "string \<Rightarrow> refresh_pattern list \<Rightarrow> refresh_pattern option" where
  "refreshUncompiledPattern pat [] = None"
| "refreshUncompiledPattern pat (R # Rs) =
     (if pattern R = pat then Some R else refreshUncompiledPattern pat Rs)"

definition no_flags :: stale_flags where
  "no_flags = \<lparr>sf_expires = False, sf_min = False, sf_lmfactor = False, sf_max = False\<rparr>"

definition refreshStaleness :: "store_entry \<Rightarrow> int \<Rightarrow> int \<Rightarrow> refresh_pattern \<Rightarrow> int \<times> stale_flags" where
  "refreshStaleness entry check_time age R =
     (if expires entry > - 1 then
        (if expires entry > check_time then - 1 else to_int32 (check_time - expires entry),
         no_flags\<lparr>sf_expires := True\<rparr>)
      else if age > rp_max R then (to_int32 (age - rp_max R), no_flags\<lparr>sf_max := True\<rparr>)
      else if lastmod entry > - 1 \<and> timestamp entry > lastmod entry then
        (let stale_age = floor (of_int (timestamp entry - lastmod entry) * pct R)
         in (if age \<ge> stale_age then to_int32 (age - stale_age) else - 1, no_flags\<lparr>sf_lmfactor := True\<rparr>))
      else if age < rp_min R then (- 1, no_flags\<lparr>sf_min := True\<rparr>)
      else (to_int32 (age - rp_min R), no_flags))"

section \<open>The check\<close>

definition entry_uri :: "store_entry \<Rightarrow> http_request option \<Rightarrow> string option" where
  "entry_uri entry request =
     (case mem_obj entry of Some m \<Rightarrow> Some (url m) | None \<Rightarrow> map_option canonical request)"

definition entry_pattern :: "(string \<Rightarrow> string \<Rightarrow> bool) \<Rightarrow> refresh_config \<Rightarrow> store_entry \<Rightarrow> http_request option \<Rightarrow> refresh_pattern" where
  "entry_pattern regmatch cfg entry request =
     (case (case entry_uri entry request of
              Some u \<Rightarrow> refreshLimits regmatch u (Refresh cfg)
            | None \<Rightarrow> refreshUncompiledPattern ''.'' (Refresh cfg)) of
        Some R \<Rightarrow> R | None \<Rightarrow> DefaultRefresh)"

definition entry_age :: "store_entry \<Rightarrow> int \<Rightarrow> int" where
  "entry_age entry check_time = (if check_time > timestamp entry then check_time - timestamp entry else 0)"

text \<open>What \<^verbatim>\<open>min-fresh\<close> of the request adds to the age and to the time of the check.\<close>

definition min_fresh_delta :: "http_request option \<Rightarrow> int" where
  "min_fresh_delta request =
     (case request of
        Some r \<Rightarrow> if ignoreCc r then 0
                  else (case req_cc r of Some cc \<Rightarrow> (case minFresh cc of Some v \<Rightarrow> v | None \<Rightarrow> 0) | None \<Rightarrow> 0)
      | None \<Rightarrow> 0)"

definition reply_stale_if_error :: "store_entry \<Rightarrow> int option" where
  "reply_stale_if_error entry =
     Option.bind (mem_obj entry) (\<lambda>m. Option.bind (reply m) (\<lambda>rep. Option.bind (rep_cc rep) staleIfError))"

definition set_fail :: "http_request option \<Rightarrow> http_request option" where
  "set_fail request = map_option (\<lambda>r. r\<lparr>failOnValidationError := True\<rparr>) request"

text \<open>
  The request-specific checks: \<open>Some\<close> of an answer when one of them decides, otherwise \<open>None\<close>.
\<close>

definition reload_checks :: "refresh_config \<Rightarrow> refresh_pattern \<Rightarrow> http_request \<Rightarrow> (refresh_reason \<times> http_request) option" where
  "reload_checks cfg R r =
     (if ims r \<and> (refresh_ims R \<or> refresh_all_ims cfg) then Some (STALE_FORCED_RELOAD, r)
      else if \<not> nocacheHack r then None
      else if ignore_reload R then None
      else if reload_into_ims R \<or> cfg_reload_into_ims cfg then Some (STALE_RELOAD_INTO_IMS, r)
      else Some (STALE_FORCED_RELOAD, r\<lparr>noCache := True\<rparr>))"

definition cc_checks :: "refresh_pattern \<Rightarrow> int \<Rightarrow> int \<Rightarrow> cache_control \<Rightarrow> refresh_reason option" where
  "cc_checks R age staleness cc =
     (if (case maxAge cc of
            None \<Rightarrow> False
          | Some a \<Rightarrow> \<not> (ignore_reload R \<and> a = 0) \<and> (a = 0 \<or> age > a))
      then Some STALE_EXCEEDS_REQUEST_MAX_AGE_VALUE
      else case maxStale cc of
             None \<Rightarrow> None
           | Some m \<Rightarrow>
               if staleness > - 1 then
                 (if m = MAX_STALE_ANY then Some FRESH_REQUEST_MAX_STALE_ALL
                  else if staleness < m then Some FRESH_REQUEST_MAX_STALE_VALUE else None)
               else None)"

definition request_checks :: "refresh_config \<Rightarrow> refresh_pattern \<Rightarrow> int \<Rightarrow> int \<Rightarrow> http_request option \<Rightarrow>
    (refresh_reason \<times> http_request option) option" where
  "request_checks cfg R age staleness request =
     (case request of
        None \<Rightarrow> None
      | Some r \<Rightarrow>
          if ignoreCc r then None
          else case reload_checks cfg R r of
                 Some (reason, r1) \<Rightarrow> Some (reason, Some r1)
               | None \<Rightarrow> (case req_cc r of
                     None \<Rightarrow> None
                   | Some cc \<Rightarrow> map_option (\<lambda>reason. (reason, Some r)) (cc_checks R age staleness cc)))"

definition final_checks :: "refresh_config \<Rightarrow> refresh_pattern \<Rightarrow> int \<Rightarrow> int \<Rightarrow> stale_flags \<Rightarrow> http_request option \<Rightarrow>
    (refresh_reason \<times> http_request option) outcome" where
  "final_checks cfg R age staleness sf request =
     (if staleness = - 1 then
        (if sf_expires sf then Inr (FRESH_EXPIRES, request)
         else guardE (\<not> sf_max sf) AssertFault
           (if sf_lmfactor sf then Inr (FRESH_LMFACTOR_RULE, request)
            else guardE (sf_min sf) AssertFault (Inr (FRESH_MIN_RULE, request))))
      else
        (let max_stale = (if rp_max_stale R \<ge> 0 then rp_max_stale R else cfg_maxStale cfg)
         in if max_stale \<ge> 0 \<and> staleness > max_stale then Inr (STALE_MAX_STALE, set_fail request)
            else if sf_expires sf then
              (if override_expire R \<and> age < rp_min R then Inr (FRESH_OVERRIDE_EXPIRES, request)
               else Inr (STALE_EXPIRES, request))
            else if sf_max sf then Inr (STALE_MAX_RULE, request)
            else if sf_lmfactor sf then
              (if override_lastmod R \<and> age < rp_min R then Inr (FRESH_OVERRIDE_LASTMOD, request)
               else Inr (STALE_LMFACTOR_RULE, request))
            else Inr (STALE_DEFAULT, request)))"

definition refreshCheck :: "(string \<Rightarrow> string \<Rightarrow> bool) \<Rightarrow> refresh_config \<Rightarrow> store_entry \<Rightarrow> http_request option \<Rightarrow> int \<Rightarrow>
    (refresh_reason \<times> http_request option) outcome" where
  "refreshCheck regmatch cfg entry request delta =
     (let check0 = squid_curtime cfg + delta;
          age0 = entry_age entry check0
      in guardE (age0 \<ge> 0) AssertFault
        (let R = entry_pattern regmatch cfg entry request;
             age = age0 + min_fresh_delta request;
             check_time = check0 + min_fresh_delta request;
             (staleness, sf) = refreshStaleness entry check_time age R;
             request1 = (case reply_stale_if_error entry of
                           Some e \<Rightarrow> if e < staleness then set_fail request else request
                         | None \<Rightarrow> request)
         in if entry_revalidate entry \<and> staleness > - 1 \<and> \<not> ignore_must_revalidate R
            then Inr (STALE_MUST_REVALIDATE, set_fail request1)
            else case request_checks cfg R age staleness request1 of
                   Some res \<Rightarrow> Inr res
                 | None \<Rightarrow> final_checks cfg R age staleness sf request1))"

section \<open>Wrappers\<close>

datatype refresh_count = rcHTTP | rcICP | rcHTCP | rcCDigest | rcStore

record refresh_counts =
  total :: nat
  status :: "nat \<Rightarrow> nat"

type_synonym all_counts = "refresh_count \<Rightarrow> refresh_counts"

definition count_reason :: "refresh_count \<Rightarrow> refresh_reason \<Rightarrow> all_counts \<Rightarrow> all_counts" where
  "count_reason rc reason c =
     c(rc := \<lparr>total = total (c rc) + 1,
              status = (status (c rc))(reason_code reason := status (c rc) (reason_code reason) + 1)\<rparr>)"

definition refreshIsCachable :: "(string \<Rightarrow> string \<Rightarrow> bool) \<Rightarrow> refresh_config \<Rightarrow> store_entry \<Rightarrow> all_counts \<Rightarrow> (bool \<times> all_counts) outcome" where
  "refreshIsCachable regmatch cfg entry c =
     bindE (refreshCheck regmatch cfg entry None (minimum_expiry_time cfg)) (\<lambda>(reason, _).
       Inr (if reason_code reason < reason_code STALE_MUST_REVALIDATE then True
            else if lastmod entry < 0 then False
            else (case mem_obj entry of
                    None \<Rightarrow> True
                  | Some m \<Rightarrow> (case reply m of None \<Rightarrow> True | Some rep \<Rightarrow> content_length rep \<noteq> 0)),
            count_reason rcStore reason c))"

fun refreshIsStaleIfHit :: "refresh_reason \<Rightarrow> bool" where
  "refreshIsStaleIfHit FRESH_MIN_RULE = False"
| "refreshIsStaleIfHit FRESH_LMFACTOR_RULE = False"
| "refreshIsStaleIfHit FRESH_EXPIRES = False"
| "refreshIsStaleIfHit _ = True"

definition refreshCheckHTTP :: "(string \<Rightarrow> string \<Rightarrow> bool) \<Rightarrow> refresh_config \<Rightarrow> store_entry \<Rightarrow> http_request \<Rightarrow> all_counts \<Rightarrow>
    (int \<times> http_request \<times> all_counts) outcome" where
  "refreshCheckHTTP regmatch cfg entry r c =
     bindE (refreshCheck regmatch cfg entry (Some r) 0) (\<lambda>(reason, r1).
       Inr (if offline cfg \<or> reason_code reason < 200 then 0 else 1,
            (case r1 of Some x \<Rightarrow> x | None \<Rightarrow> r)\<lparr>staleIfHit := refreshIsStaleIfHit reason\<rparr>,
            count_reason rcHTTP reason c))"

definition refreshCheckICP :: "(string \<Rightarrow> string \<Rightarrow> bool) \<Rightarrow> refresh_config \<Rightarrow> store_entry \<Rightarrow> http_request option \<Rightarrow> all_counts \<Rightarrow>
    (int \<times> http_request option \<times> all_counts) outcome" where
  "refreshCheckICP regmatch cfg entry request c =
     bindE (refreshCheck regmatch cfg entry request 30) (\<lambda>(reason, r1).
       Inr (if reason_code reason < 200 then 0 else 1, r1, count_reason rcICP reason c))"

definition refreshCheckHTCP :: "(string \<Rightarrow> string \<Rightarrow> bool) \<Rightarrow> refresh_config \<Rightarrow> store_entry \<Rightarrow> http_request option \<Rightarrow> all_counts \<Rightarrow>
    (int \<times> http_request option \<times> all_counts) outcome" where
  "refreshCheckHTCP regmatch cfg entry request c =
     bindE (refreshCheck regmatch cfg entry request 10) (\<lambda>(reason, r1).
       Inr (if reason_code reason < 200 then 0 else 1, r1, count_reason rcHTCP reason c))"

definition refreshCheckDigest :: "(string \<Rightarrow> string \<Rightarrow> bool) \<Rightarrow> refresh_config \<Rightarrow> store_entry \<Rightarrow> int \<Rightarrow> all_counts \<Rightarrow>
    (int \<times> http_request option \<times> all_counts) outcome" where
  "refreshCheckDigest regmatch cfg entry delta c =
     bindE (refreshCheck regmatch cfg entry (Option.bind (mem_obj entry) mem_request) delta) (\<lambda>(reason, r1).
       Inr (if reason_code reason < 200 then 0 else 1, r1, count_reason rcCDigest reason c))"

definition getMaxAge :: "(string \<Rightarrow> string \<Rightarrow> bool) \<Rightarrow> refresh_config \<Rightarrow> string \<Rightarrow> int" where
  "getMaxAge regmatch cfg u =
     (case refreshLimits regmatch u (Refresh cfg) of Some R \<Rightarrow> rp_max R | None \<Rightarrow> REFRESH_DEFAULT_MAX)"

section \<open>Facts about the staleness\<close>

definition check_at :: "refresh_config \<Rightarrow> http_request option \<Rightarrow> int \<Rightarrow> int" where
  "check_at cfg request delta = squid_curtime cfg + delta + min_fresh_delta request"

definition age_at :: "refresh_config \<Rightarrow> store_entry \<Rightarrow> http_request option \<Rightarrow> int \<Rightarrow> int" where
  "age_at cfg entry request delta = entry_age entry (squid_curtime cfg + delta) + min_fresh_delta request"

text \<open>
  Times and limits for which no 32-bit cut happens: non-negative limits, an age and a time since
  expiry below \<open>2^31\<close> seconds.
\<close>

definition sane :: "refresh_pattern \<Rightarrow> store_entry \<Rightarrow> int \<Rightarrow> int \<Rightarrow> bool" where
  "sane R entry check_time age \<longleftrightarrow> 0 \<le> rp_min R \<and> 0 \<le> rp_max R \<and> 0 \<le> pct R \<and> 0 \<le> age \<and> age < 2 ^ 31 \<and>
     (- 1 < expires entry \<longrightarrow> check_time - expires entry < 2 ^ 31)"

text \<open>When the rules of the pattern call the entry stale.\<close>

definition stale_by_rules :: "refresh_pattern \<Rightarrow> store_entry \<Rightarrow> int \<Rightarrow> int \<Rightarrow> bool" where
  "stale_by_rules R entry check_time age \<longleftrightarrow>
     (if - 1 < expires entry then expires entry \<le> check_time
      else rp_max R < age \<or>
        (if - 1 < lastmod entry \<and> lastmod entry < timestamp entry
         then floor (of_int (timestamp entry - lastmod entry) * pct R) \<le> age
         else rp_min R \<le> age))"

lemma to_int32_id: "0 \<le> x \<Longrightarrow> x < 2 ^ 31 \<Longrightarrow> to_int32 x = x"
  by (simp add: to_int32_def)

lemma flag_simps [simp]:
  "\<not> sf_expires no_flags" "\<not> sf_min no_flags" "\<not> sf_lmfactor no_flags" "\<not> sf_max no_flags"
  by (simp_all add: no_flags_def)

lemma stale_age_nonneg: "0 \<le> pct R \<Longrightarrow> a < b \<Longrightarrow> 0 \<le> floor (of_int (b - a) * pct R)"
  by simp

lemma refreshStaleness_spec:
  assumes "sane R entry ct age" "refreshStaleness entry ct age R = (st, sf)"
  shows "- 1 \<le> st" "- 1 < st \<longleftrightarrow> stale_by_rules R entry ct age" "sf_expires sf \<longleftrightarrow> - 1 < expires entry"
    "sf_max sf \<longleftrightarrow> \<not> - 1 < expires entry \<and> rp_max R < age"
    "sf_lmfactor sf \<longleftrightarrow> \<not> - 1 < expires entry \<and> \<not> rp_max R < age \<and> - 1 < lastmod entry \<and> lastmod entry < timestamp entry"
    "st = - 1 \<Longrightarrow> \<not> sf_expires sf \<Longrightarrow> \<not> sf_lmfactor sf \<Longrightarrow> sf_min sf"
proof -
  have cut: "to_int32 (ct - expires entry) = ct - expires entry" if "- 1 < expires entry" "expires entry \<le> ct"
    using assms(1) that by (intro to_int32_id) (auto simp: sane_def)
  have cut2: "to_int32 (age - l) = age - l" if "0 \<le> l" "l \<le> age" for l
    using assms(1) that by (intro to_int32_id) (auto simp: sane_def)
  let ?sa = "floor (of_int (timestamp entry - lastmod entry) * pct R)"
  have sa: "0 \<le> ?sa" if "lastmod entry < timestamp entry" using that assms(1) by (intro stale_age_nonneg) (auto simp: sane_def)
  consider (exp) "- 1 < expires entry" | (max) "\<not> - 1 < expires entry" "rp_max R < age"
    | (lm) "\<not> - 1 < expires entry" "\<not> rp_max R < age" "- 1 < lastmod entry \<and> lastmod entry < timestamp entry"
    | (min) "\<not> - 1 < expires entry" "\<not> rp_max R < age" "\<not> (- 1 < lastmod entry \<and> lastmod entry < timestamp entry)"
    by blast
  then have "- 1 \<le> st \<and> (- 1 < st \<longleftrightarrow> stale_by_rules R entry ct age) \<and> (sf_expires sf \<longleftrightarrow> - 1 < expires entry) \<and>
    (sf_max sf \<longleftrightarrow> \<not> - 1 < expires entry \<and> rp_max R < age) \<and>
    (sf_lmfactor sf \<longleftrightarrow> \<not> - 1 < expires entry \<and> \<not> rp_max R < age \<and> - 1 < lastmod entry \<and> lastmod entry < timestamp entry) \<and>
    (st = - 1 \<longrightarrow> \<not> sf_expires sf \<longrightarrow> \<not> sf_lmfactor sf \<longrightarrow> sf_min sf)"
  proof cases
    case exp
    then have e: "(if expires entry > ct then - 1 else to_int32 (ct - expires entry)) = st" "sf = no_flags\<lparr>sf_expires := True\<rparr>"
      using assms(2) by (auto simp: refreshStaleness_def)
    with exp cut [OF exp] show ?thesis by (auto simp: stale_by_rules_def split: if_splits)
  next
    case max
    then have e: "st = to_int32 (age - rp_max R)" "sf = no_flags\<lparr>sf_max := True\<rparr>"
      using assms(2) by (auto simp: refreshStaleness_def)
    with max cut2 [of "rp_max R"] assms(1) show ?thesis by (auto simp: stale_by_rules_def sane_def)
  next
    case lm
    then have e: "(if ?sa \<le> age then to_int32 (age - ?sa) else - 1) = st" "sf = no_flags\<lparr>sf_lmfactor := True\<rparr>"
      using assms(2) by (auto simp: refreshStaleness_def Let_def)
    with lm cut2 [OF sa] show ?thesis by (auto simp: stale_by_rules_def split: if_splits)
  next
    case min
    then have e: "(if age < rp_min R then - 1 else to_int32 (age - rp_min R)) = st"
        "sf = (if age < rp_min R then no_flags\<lparr>sf_min := True\<rparr> else no_flags)"
      using assms(2) by (auto simp: refreshStaleness_def)
    with min cut2 [of "rp_min R"] assms(1) show ?thesis by (auto simp: stale_by_rules_def sane_def split: if_splits)
  qed
  then show "- 1 \<le> st" "- 1 < st \<longleftrightarrow> stale_by_rules R entry ct age" "sf_expires sf \<longleftrightarrow> - 1 < expires entry"
    "sf_max sf \<longleftrightarrow> \<not> - 1 < expires entry \<and> rp_max R < age"
    "sf_lmfactor sf \<longleftrightarrow> \<not> - 1 < expires entry \<and> \<not> rp_max R < age \<and> - 1 < lastmod entry \<and> lastmod entry < timestamp entry"
    "st = - 1 \<Longrightarrow> \<not> sf_expires sf \<Longrightarrow> \<not> sf_lmfactor sf \<Longrightarrow> sf_min sf" by blast+
qed

section \<open>The decision in terms of its ingredients\<close>

lemma entry_age_nonneg [simp]: "0 \<le> entry_age entry t"
  by (simp add: entry_age_def)

text \<open>Only \<^verbatim>\<open>failOnValidationError\<close> of the request may have changed before the request-specific checks.\<close>

definition marked :: "http_request option \<Rightarrow> http_request option \<Rightarrow> bool" where
  "marked rq rq1 \<longleftrightarrow> rq1 = rq \<or> rq1 = set_fail rq"

lemma request_checks_Some:
  "map_option fst (request_checks cfg R age st (Some r)) =
     (if ignoreCc r then None
      else case map_option fst (reload_checks cfg R r) of
             Some reason \<Rightarrow> Some reason
           | None \<Rightarrow> Option.bind (req_cc r) (cc_checks R age st))"
  by (cases "reload_checks cfg R r"; cases "req_cc r") (auto simp: request_checks_def option.map_comp comp_def option.map_ident)

lemma reload_checks_marked:
  "map_option fst (reload_checks cfg R (r\<lparr>failOnValidationError := True\<rparr>)) = map_option fst (reload_checks cfg R r)"
  by (simp add: reload_checks_def)

lemma marked_checks:
  assumes "marked rq rq1"
  shows "map_option fst (request_checks cfg R age st rq1) = map_option fst (request_checks cfg R age st rq)"
proof (cases rq)
  case (Some r)
  have "map_option fst (request_checks cfg R age st (Some (r\<lparr>failOnValidationError := True\<rparr>))) =
      map_option fst (request_checks cfg R age st (Some r))"
    unfolding request_checks_Some reload_checks_marked by (simp split: option.split)
  with assms Some show ?thesis by (auto simp: marked_def set_fail_def)
qed (use assms in \<open>simp add: marked_def set_fail_def\<close>)

lemma refreshCheck_cases:
  assumes "refreshStaleness entry (check_at cfg rq delta) (age_at cfg entry rq delta)
      (entry_pattern regmatch cfg entry rq) = (st, sf)"
  obtains (revalidate) rq1 where "entry_revalidate entry" "- 1 < st"
      "\<not> ignore_must_revalidate (entry_pattern regmatch cfg entry rq)" "marked rq rq1"
      "refreshCheck regmatch cfg entry rq delta = Inr (STALE_MUST_REVALIDATE, set_fail rq1)"
  | (by_request) rq1 reason rq2 where "\<not> (entry_revalidate entry \<and> - 1 < st \<and>
        \<not> ignore_must_revalidate (entry_pattern regmatch cfg entry rq))" "marked rq rq1"
      "map_option fst (request_checks cfg (entry_pattern regmatch cfg entry rq) (age_at cfg entry rq delta) st rq) = Some reason"
      "refreshCheck regmatch cfg entry rq delta = Inr (reason, rq2)"
  | (by_rules) rq1 where "\<not> (entry_revalidate entry \<and> - 1 < st \<and>
        \<not> ignore_must_revalidate (entry_pattern regmatch cfg entry rq))" "marked rq rq1"
      "request_checks cfg (entry_pattern regmatch cfg entry rq) (age_at cfg entry rq delta) st rq = None"
      "refreshCheck regmatch cfg entry rq delta =
         final_checks cfg (entry_pattern regmatch cfg entry rq) (age_at cfg entry rq delta) st sf rq1"
proof -
  let ?R = "entry_pattern regmatch cfg entry rq" and ?age = "age_at cfg entry rq delta"
  define rq1 where "rq1 = (case reply_stale_if_error entry of
      Some e \<Rightarrow> if e < st then set_fail rq else rq | None \<Rightarrow> rq)"
  have mk: "marked rq rq1" by (auto simp: rq1_def marked_def split: option.split)
  have form: "refreshCheck regmatch cfg entry rq delta =
      (if entry_revalidate entry \<and> st > - 1 \<and> \<not> ignore_must_revalidate ?R
       then Inr (STALE_MUST_REVALIDATE, set_fail rq1)
       else case request_checks cfg ?R ?age st rq1 of Some res \<Rightarrow> Inr res
            | None \<Rightarrow> final_checks cfg ?R ?age st sf rq1)"
    using assms unfolding refreshCheck_def Let_def rq1_def age_at_def check_at_def by simp
  note chk = marked_checks [OF mk, of cfg ?R ?age st]
  show thesis
  proof (cases "entry_revalidate entry \<and> st > - 1 \<and> \<not> ignore_must_revalidate ?R")
    case True
    with form mk show thesis by (intro revalidate) auto
  next
    case False
    show thesis
    proof (cases "request_checks cfg ?R ?age st rq1")
      case None
      with False form mk chk show thesis by (intro by_rules [of rq1]) auto
    next
      case (Some res)
      obtain reason rq2 where "res = (reason, rq2)" by fastforce
      with Some False form mk chk show thesis by (intro by_request [of rq1 reason rq2]) auto
    qed
  qed
qed

definition client_accepts :: "http_request option \<Rightarrow> int \<Rightarrow> bool" where
  "client_accepts rq st \<longleftrightarrow> (\<exists>r cc m. rq = Some r \<and> \<not> ignoreCc r \<and> req_cc r = Some cc \<and> maxStale cc = Some m \<and>
     (m = MAX_STALE_ANY \<or> st < m))"

definition client_refuses :: "refresh_pattern \<Rightarrow> http_request option \<Rightarrow> int \<Rightarrow> bool" where
  "client_refuses R rq age \<longleftrightarrow> (\<exists>r cc a. rq = Some r \<and> \<not> ignoreCc r \<and> req_cc r = Some cc \<and> maxAge cc = Some a \<and>
     \<not> (ignore_reload R \<and> a = 0) \<and> (a = 0 \<or> age > a))"

definition admin_overrides :: "refresh_pattern \<Rightarrow> store_entry \<Rightarrow> int \<Rightarrow> bool" where
  "admin_overrides R entry age \<longleftrightarrow> age < rp_min R \<and>
     (if - 1 < expires entry then override_expire R else override_lastmod R)"

lemma request_checks_fresh:
  assumes "map_option fst (request_checks cfg R age st rq) = Some reason" "reason_code reason < 200"
  shows "- 1 < st \<and> client_accepts rq st \<and> \<not> client_refuses R rq age"
  using assms
  by (auto simp: request_checks_def reload_checks_def cc_checks_def client_accepts_def client_refuses_def
      split: option.splits prod.splits if_splits)

lemma request_checks_none: "request_checks cfg R age st rq = None \<Longrightarrow> \<not> client_refuses R rq age"
  by (auto simp: request_checks_def cc_checks_def client_refuses_def split: option.splits prod.splits if_splits)

lemma final_checks_spec:
  assumes "sane R entry ct age" "refreshStaleness entry ct age R = (st, sf)"
  shows "\<exists>reason rq'. final_checks cfg R age st sf rq = Inr (reason, rq') \<and>
     (reason_code reason < 200 \<longleftrightarrow> \<not> stale_by_rules R entry ct age \<or>
        (admin_overrides R entry age \<and> (- 1 < expires entry \<or> age \<le> rp_max R \<and> - 1 < lastmod entry \<and> lastmod entry < timestamp entry) \<and>
         \<not> (let ms = (if rp_max_stale R \<ge> 0 then rp_max_stale R else cfg_maxStale cfg) in ms \<ge> 0 \<and> st > ms)))"
proof -
  note f = refreshStaleness_spec [OF assms]
  have eq: "st = - 1 \<longleftrightarrow> \<not> stale_by_rules R entry ct age" using f(1,2) by linarith
  have fresh: "\<not> sf_max sf" if "st = - 1"
    using f(4) eq that by (auto simp: stale_by_rules_def split: if_splits)
  show ?thesis
  proof (cases "st = - 1")
    case True
    then have "\<not> stale_by_rules R entry ct age" using eq by simp
    moreover have "\<exists>reason rq'. final_checks cfg R age st sf rq = Inr (reason, rq') \<and> reason_code reason < 200"
      using True fresh f(6) by (auto simp: final_checks_def)
    ultimately show ?thesis by auto
  next
    case False
    then have "stale_by_rules R entry ct age" using eq by simp
    with False f(3,4,5) show ?thesis
      by (auto simp: final_checks_def Let_def admin_overrides_def)
  qed
qed

section \<open>Properties\<close>


definition demo_entry :: store_entry where
  "demo_entry = \<lparr>expires = 1000, lastmod = - 1, timestamp = 900, entry_revalidate = True, mem_obj = None\<rparr>"

definition demo_config :: refresh_config where
  "demo_config = \<lparr>Refresh = [], refresh_all_ims = False, cfg_reload_into_ims = False, offline = False,
     cfg_maxStale = 604800, minimum_expiry_time = 60, squid_curtime = 950\<rparr>"

lemma demo_sane:
  "sane (entry_pattern m demo_config demo_entry None) demo_entry (check_at demo_config None d) (age_at demo_config demo_entry None d)"
  if "0 \<le> d" "d < 1000"
  using that by (simp add: sane_def entry_pattern_def demo_config_def demo_entry_def entry_uri_def DefaultRefresh_def
      REFRESH_DEFAULT_MAX_def check_at_def age_at_def entry_age_def min_fresh_delta_def)


text \<open>
  A stale response is never served as fresh behind the origin's back: if the entry must be revalidated and
  is stale by the rules, the answer is \<^verbatim>\<open>STALE_MUST_REVALIDATE\<close> and the request is marked to fail when the
  validation fails, whatever the request or the pattern's other options say; and a response that is fresh by the
  rules is called fresh when there is no request, so it is cachable for \<^verbatim>\<open>refreshIsCachable()\<close>.
\<close>

theorem refresh_revalidation_enforced:
  assumes "sane (entry_pattern regmatch cfg entry rq) entry (check_at cfg rq delta) (age_at cfg entry rq delta)"
  shows "(entry_revalidate entry \<and> \<not> ignore_must_revalidate (entry_pattern regmatch cfg entry rq) \<and>
      stale_by_rules (entry_pattern regmatch cfg entry rq) entry (check_at cfg rq delta) (age_at cfg entry rq delta) \<longrightarrow>
      (\<exists>rq'. refreshCheck regmatch cfg entry rq delta = Inr (STALE_MUST_REVALIDATE, rq') \<and>
         (\<forall>r. rq' = Some r \<longrightarrow> failOnValidationError r) \<and> (rq' = None \<longleftrightarrow> rq = None))) \<and>
    (\<not> stale_by_rules (entry_pattern regmatch cfg entry rq) entry (check_at cfg rq delta) (age_at cfg entry rq delta) \<and>
      rq = None \<and> delta = minimum_expiry_time cfg \<longrightarrow> (\<exists>c'. refreshIsCachable regmatch cfg entry c = Inr (True, c')))"
proof -
  obtain st sf where st: "refreshStaleness entry (check_at cfg rq delta) (age_at cfg entry rq delta)
      (entry_pattern regmatch cfg entry rq) = (st, sf)" by fastforce
  note f = refreshStaleness_spec(2) [OF assms st]
  from st show ?thesis
  proof (cases rule: refreshCheck_cases)
    case (revalidate rq1)
    with f show ?thesis by (auto simp: marked_def set_fail_def)
  next
    case (by_request rq1 reason rq2)
    with f show ?thesis by (auto simp: request_checks_def)
  next
    case (by_rules rq1)
    from final_checks_spec [OF assms st, of cfg rq1] by_rules(1,4) f show ?thesis
      by (auto simp: refreshIsCachable_def)
  qed
qed

theorem refresh_revalidation_enforced_witness:
  "\<exists>rq'. refreshCheck (\<lambda>_ _. True) demo_config demo_entry None 60 = Inr (STALE_MUST_REVALIDATE, rq')"
proof -
  have "stale_by_rules (entry_pattern (\<lambda>_ _. True) demo_config demo_entry None) demo_entry
      (check_at demo_config None 60) (age_at demo_config demo_entry None 60)"
    "entry_revalidate demo_entry" "\<not> ignore_must_revalidate (entry_pattern (\<lambda>_ _. True) demo_config demo_entry None)"
    by (simp_all add: stale_by_rules_def demo_entry_def demo_config_def check_at_def min_fresh_delta_def
        entry_pattern_def entry_uri_def DefaultRefresh_def)
  with refresh_revalidation_enforced [OF demo_sane [of 60 "\<lambda>_ _. True"]] show ?thesis by auto
qed

text \<open>
  URLs that match no \<^verbatim>\<open>refresh_pattern\<close> get a stale limit of zero instead of the global \<^verbatim>\<open>max_stale\<close>.  The zeroed
  \<^verbatim>\<open>DefaultRefresh\<close> has \<^verbatim>\<open>max_stale\<close> 0, which the check takes as a configured limit: as soon as such an entry is stale
  by one second, unless a must-revalidate or a request directive decides first, the answer is \<^verbatim>\<open>STALE_MAX_STALE\<close> and
  a failed validation may not be answered from the cache, for every value of the global setting.
\<close>

theorem refresh_default_ignores_max_stale:
  assumes "entry_pattern regmatch cfg entry (Some r) = DefaultRefresh" "ignoreCc r" "\<not> entry_revalidate entry"
    and "0 < fst (refreshStaleness entry (check_at cfg (Some r) delta) (age_at cfg entry (Some r) delta) DefaultRefresh)"
  shows "\<exists>r'. refreshCheck regmatch (cfg\<lparr>cfg_maxStale := global\<rparr>) entry (Some r) delta = Inr (STALE_MAX_STALE, Some r') \<and>
     failOnValidationError r'"
proof -
  let ?cfg = "cfg\<lparr>cfg_maxStale := global\<rparr>"
  have "entry_pattern regmatch ?cfg entry (Some r) = entry_pattern regmatch cfg entry (Some r)"
    unfolding entry_pattern_def by (cases "entry_uri entry (Some r)") simp_all
  then have same: "entry_pattern regmatch ?cfg entry (Some r) = DefaultRefresh" "check_at ?cfg (Some r) delta = check_at cfg (Some r) delta"
    "age_at ?cfg entry (Some r) delta = age_at cfg entry (Some r) delta"
    using assms(1) by (simp_all add: check_at_def age_at_def)
  obtain st sf where st: "refreshStaleness entry (check_at ?cfg (Some r) delta) (age_at ?cfg entry (Some r) delta)
      (entry_pattern regmatch ?cfg entry (Some r)) = (st, sf)" by fastforce
  have pos: "0 < st" using assms(4) st same by simp
  from st show ?thesis
  proof (cases rule: refreshCheck_cases)
    case (revalidate rq1)
    with assms(3) show ?thesis by simp
  next
    case (by_request rq1 reason rq2)
    with assms(2) show ?thesis by (simp add: request_checks_def)
  next
    case (by_rules rq1)
    with pos same show ?thesis
      by (auto simp: final_checks_def DefaultRefresh_def marked_def set_fail_def)
  qed
qed

definition demo_request :: http_request where
  "demo_request = \<lparr>canonical = ''http://x/'', ignoreCc = True, ims = False, nocacheHack = False, noCache = False,
     failOnValidationError = False, staleIfHit = False, req_cc = None\<rparr>"

theorem refresh_default_ignores_max_stale_witness:
  "\<exists>r'. refreshCheck (\<lambda>_ _. True) (demo_config\<lparr>cfg_maxStale := 604800\<rparr>) (demo_entry\<lparr>entry_revalidate := False\<rparr>)
     (Some demo_request) 60 = Inr (STALE_MAX_STALE, Some r') \<and> failOnValidationError r'"
proof (rule refresh_default_ignores_max_stale)
  show "entry_pattern (\<lambda>_ _. True) demo_config (demo_entry\<lparr>entry_revalidate := False\<rparr>) (Some demo_request) = DefaultRefresh"
    by (simp add: entry_pattern_def entry_uri_def demo_entry_def demo_config_def)
  show "0 < fst (refreshStaleness (demo_entry\<lparr>entry_revalidate := False\<rparr>) (check_at demo_config (Some demo_request) 60)
      (age_at demo_config (demo_entry\<lparr>entry_revalidate := False\<rparr>) (Some demo_request) 60) DefaultRefresh)"
    by (simp add: refreshStaleness_def demo_entry_def demo_config_def check_at_def min_fresh_delta_def demo_request_def
        to_int32_def)
qed (simp_all add: demo_request_def)

end
