(* ===== verification/Http_Range.thy ===== *)
theory Http_Range
  imports Squid_Prelude Byte_Range
begin

text \<open>
  The HTTP Range request header: \<^verbatim>\<open>src/HttpHdrRange.cc\<close>, with the list splitter of \<^verbatim>\<open>src/StrList.cc\<close>
  and the number parser of \<^verbatim>\<open>src/HttpHeaderTools.cc\<close> it is built on.  A pointer into a
  zero-terminated string is the list of the characters from it up to the terminator; the
  difference of two such pointers is the difference of their lengths.  The parameter \<^verbatim>\<open>einval\<close> says
  whether the C library's \<^verbatim>\<open>strtoll()\<close> sets \<^verbatim>\<open>errno\<close> to \<^verbatim>\<open>EINVAL\<close> when there is no digit, which the
  standard leaves open.
\<close>

section \<open>Numbers and comma-separated lists\<close>

definition xisspace :: "char \<Rightarrow> bool" where
  "xisspace c = (c \<in> {CHR 0x20, CHR 0x09, CHR 0x0A, CHR 0x0B, CHR 0x0C, CHR 0x0D})"

definition digits_value :: "string \<Rightarrow> int" where
  "digits_value ds = foldl (\<lambda>a c. 10 * a + (int (of_char c) - 48)) 0 ds"

definition strtoll :: "string \<Rightarrow> (int \<times> bool)" where
  "strtoll s =
     (let t = dropWhile xisspace s;
          neg = (t \<noteq> [] \<and> hd t = CHR ''-'');
          u = (if t \<noteq> [] \<and> (hd t = CHR ''-'' \<or> hd t = CHR ''+'') then tl t else t);
          ds = takeWhile is_digit u
      in (max int64_min (min int64_max (if neg then - digits_value ds else digits_value ds)), ds \<noteq> []))"

definition httpHeaderParseOffset :: "bool \<Rightarrow> string \<Rightarrow> int option" where
  "httpHeaderParseOffset einval start =
     (let (res, converted) = strtoll start
      in if res = 0 \<and> einval \<and> \<not> converted then None else Some res)"

definition list_delims :: "char \<Rightarrow> bool \<Rightarrow> char set" where
  "list_delims del quoted = (if quoted then {CHR 0x22, CHR 0x5C} else {CHR 0x22, del, CHR '',''})"

definition skip_delims :: "char \<Rightarrow> char set" where
  "skip_delims del = {CHR '' '', del, CHR '','', CHR 0x09, CHR 0x0D, CHR 0x0A}"

function item_scan :: "char \<Rightarrow> bool \<Rightarrow> string \<Rightarrow> string" where
  "item_scan del quoted pos =
     (case dropWhile (\<lambda>c. c \<notin> list_delims del quoted) pos of
        [] \<Rightarrow> []
      | c # r \<Rightarrow>
          if c = CHR 0x22 then (if r = [] then [] else item_scan del (\<not> quoted) r)
          else if quoted \<and> c = CHR 0x5C then
            (case r of [] \<Rightarrow> [] | _ # r' \<Rightarrow> if r' = [] then [] else item_scan del quoted r')
          else c # r)"
  by pat_completeness auto

lemma dropWhile_Cons_length: "dropWhile P xs = c # r \<Longrightarrow> length r < length xs"
  by (metis length_dropWhile_le length_Cons Suc_le_eq)

termination item_scan
  by (relation "measure (\<lambda>(_, _, pos). length pos)") (auto dest!: dropWhile_Cons_length)

declare item_scan.simps [simp del]

definition strListGetItem :: "char \<Rightarrow> string \<Rightarrow> (bool \<times> string \<times> nat \<times> string)" where
  "strListGetItem del pos =
     (let item = dropWhile (\<lambda>c. c \<in> skip_delims del) pos;
          pos' = item_scan del False item;
          len = length (dropWhile xisspace (rev (take (length item - length pos') item)))
      in (len > 0, item, len, pos'))"

lemma strListGetItem_progress:
  "strListGetItem del pos = (True, item, len, pos') \<Longrightarrow> length pos' < length pos"
proof -
  assume a: "strListGetItem del pos = (True, item, len, pos')"
  then have "length pos' < length item"
    by (cases "length item - length pos'") (auto simp: strListGetItem_def Let_def)
  also have "length item \<le> length pos"
    using a by (auto simp: strListGetItem_def Let_def length_dropWhile_le)
  finally show ?thesis .
qed

section \<open>Range specifications\<close>

definition UnknownPosition :: int where
  "UnknownPosition = - 1"

definition known_spec :: "int \<Rightarrow> bool" where
  "known_spec s = (s > UnknownPosition)"

record range_spec =
  offset :: int
  len :: int

definition new_range_spec :: range_spec where
  "new_range_spec = \<lparr>offset = UnknownPosition, len = UnknownPosition\<rparr>"

definition http_range :: "int \<Rightarrow> int \<Rightarrow> range" where
  "http_range a b = \<lparr>range_start = a, range_end = b\<rparr>"

definition spec_size :: "range \<Rightarrow> int" where
  "spec_size r = wrap64 (int (range_size r))"

definition spec_parseInit :: "bool \<Rightarrow> string \<Rightarrow> nat \<Rightarrow> range_spec \<Rightarrow> range_spec option" where
  "spec_parseInit einval field flen spec =
     (if flen < 2 then None
      else if field \<noteq> [] \<and> hd field = CHR ''-'' then
        map_option (\<lambda>l. spec\<lparr>len := l\<rparr>) (httpHeaderParseOffset einval (tl field))
      else
        (let p = length (takeWhile (\<lambda>c. c \<noteq> CHR ''-'') field)
         in if \<not> (CHR ''-'' \<in> set field \<and> p < flen) then None
            else case httpHeaderParseOffset einval field of
              None \<Rightarrow> None
            | Some off \<Rightarrow>
                if p + 1 < flen then
                  (case httpHeaderParseOffset einval (drop (p + 1) field) of
                     None \<Rightarrow> None
                   | Some last_pos \<Rightarrow>
                       if last_pos < off then None
                       else Some (spec\<lparr>offset := off, len := spec_size (http_range off (wrap64 (last_pos + 1)))\<rparr>))
                else Some (spec\<lparr>offset := off\<rparr>)))"

definition spec_Create :: "bool \<Rightarrow> string \<Rightarrow> nat \<Rightarrow> range_spec option" where
  "spec_Create einval field flen = spec_parseInit einval field flen new_range_spec"

definition print_int64 :: "int \<Rightarrow> string" where
  "print_int64 i = (if i < 0 then CHR ''-'' # decimal (nat (- i)) else decimal (nat i))"

definition spec_packInto :: "range_spec \<Rightarrow> string" where
  "spec_packInto s =
     (if \<not> known_spec (offset s) then CHR ''-'' # print_int64 (len s)
      else if \<not> known_spec (len s) then print_int64 (offset s) @ ''-''
      else print_int64 (offset s) @ ''-'' @ print_int64 (wrap64 (wrap64 (offset s + len s) - 1)))"

definition adjust_length :: "int \<Rightarrow> range_spec \<Rightarrow> (bool \<times> range_spec) outcome" where
  "adjust_length clen s =
     guardE (known_spec (len s)) AssertFault
       (guardE (known_spec (offset s)) AssertFault
         (let newRange = intersection (http_range 0 clen) (http_range (offset s) (wrap64 (offset s + len s)));
              l = spec_size newRange
          in Inr (l > 0, s\<lparr>len := l\<rparr>)))"

definition spec_canonize :: "int \<Rightarrow> range_spec \<Rightarrow> (bool \<times> range_spec) outcome" where
  "spec_canonize clen s =
     (if \<not> known_spec (offset s) then
        guardE (known_spec (len s)) AssertFault
          (adjust_length clen
            (s\<lparr>offset := range_start (intersection (http_range 0 clen) (http_range (wrap64 (clen - len s)) clen))\<rparr>))
      else if \<not> known_spec (len s) then
        guardE (known_spec (offset s)) AssertFault
          (adjust_length clen
            (s\<lparr>len := spec_size (intersection (http_range 0 clen) (http_range (offset s) clen))\<rparr>))
      else adjust_length clen s)"

definition mergeWith :: "range_spec \<Rightarrow> range_spec \<Rightarrow> (bool \<times> range_spec)" where
  "mergeWith recipient donor = (False, recipient)"

section \<open>Lists of range specifications\<close>

function parse_items :: "bool \<Rightarrow> string \<Rightarrow> range_spec list \<Rightarrow> range_spec list" where
  "parse_items einval pos specs =
     (case strListGetItem (CHR '','') pos of
        (found, item, ilen, pos') \<Rightarrow>
          if \<not> found then specs
          else case spec_Create einval item ilen of
            None \<Rightarrow> []
          | Some spec \<Rightarrow> parse_items einval pos' (specs @ [spec]))"
  by pat_completeness auto

termination parse_items
  by (relation "measure (\<lambda>(_, pos, _). length pos)") (auto dest!: strListGetItem_progress [OF sym])

declare parse_items.simps [simp del]

definition to_lower :: "char \<Rightarrow> char" where
  "to_lower c = (if (65::nat) \<le> of_char c \<and> (of_char c :: nat) \<le> 90 then char_of ((of_char c :: nat) + 32) else c)"

definition parseInit :: "bool \<Rightarrow> string \<Rightarrow> (bool \<times> range_spec list)" where
  "parseInit einval range_spec =
     (if map to_lower (take 6 range_spec) \<noteq> ''bytes='' then (False, [])
      else let specs = parse_items einval (takeWhile (\<lambda>c. c \<noteq> CHR 0x00) (drop 6 range_spec)) []
           in (specs \<noteq> [], specs))"

definition ParseCreate :: "bool \<Rightarrow> string \<Rightarrow> range_spec list option" where
  "ParseCreate einval range_spec =
     (case parseInit einval range_spec of (ok, r) \<Rightarrow> if ok then Some r else None)"

fun pack_rest :: "range_spec list \<Rightarrow> string" where
  "pack_rest [] = []"
| "pack_rest (s # ss) = '','' @ spec_packInto s @ pack_rest ss"

fun packInto :: "range_spec list \<Rightarrow> string" where
  "packInto [] = []"
| "packInto (s # ss) = spec_packInto s @ pack_rest ss"

function merge_loop :: "range_spec list \<Rightarrow> range_spec list \<Rightarrow> range_spec list" where
  "merge_loop [] specs = specs"
| "merge_loop (i # basis) specs =
     (if specs \<noteq> [] \<and> fst (mergeWith i (last specs))
      then merge_loop (snd (mergeWith i (last specs)) # basis) (butlast specs)
      else merge_loop basis (specs @ [i]))"
  by pat_completeness auto

termination merge_loop
  by (relation "measures [\<lambda>(basis, _). length basis, \<lambda>(_, specs). length specs]") auto

definition merge :: "range_spec list \<Rightarrow> range_spec list" where
  "merge basis = merge_loop basis []"

fun getCanonizedSpecs :: "int \<Rightarrow> range_spec list \<Rightarrow> range_spec list outcome" where
  "getCanonizedSpecs clen [] = Inr []"
| "getCanonizedSpecs clen (s # ss) =
     bindE (spec_canonize clen s) (\<lambda>(ok, s').
     bindE (getCanonizedSpecs clen ss) (\<lambda>copy. Inr (if ok then s' # copy else copy)))"

record http_hdr_range =
  range_specs :: "range_spec list"
  range_clen :: int

definition canonize_clen :: "int \<Rightarrow> http_hdr_range \<Rightarrow> (bool \<times> http_hdr_range) outcome" where
  "canonize_clen newClen r =
     bindE (getCanonizedSpecs newClen (range_specs r)) (\<lambda>goods.
       let r' = r\<lparr>range_clen := newClen, range_specs := merge goods\<rparr>
       in Inr (range_specs r' \<noteq> [], r'))"

text \<open>The reply supplies the length of its Content-Range header, if it has one, and its Content-Length.\<close>

definition canonize_reply :: "int option \<Rightarrow> int \<Rightarrow> http_hdr_range \<Rightarrow> (bool \<times> http_hdr_range) outcome" where
  "canonize_reply content_range_elength content_length r =
     canonize_clen (case content_range_elength of Some e \<Rightarrow> e | None \<Rightarrow> content_length) r"

fun complex_loop :: "range_spec list \<Rightarrow> int \<Rightarrow> bool outcome" where
  "complex_loop [] off = Inr False"
| "complex_loop (s # ss) off =
     guardE (offset s \<ge> 0) AssertFault
       (if offset s < off then Inr True
        else complex_loop ss (wrap64 (offset s + len s)))"

definition isComplex :: "http_hdr_range \<Rightarrow> bool outcome" where
  "isComplex r = complex_loop (range_specs r) 0"

fun will_complex_loop :: "range_spec list \<Rightarrow> int \<Rightarrow> bool outcome" where
  "will_complex_loop [] off = Inr False"
| "will_complex_loop (s # ss) off =
     (if \<not> known_spec (offset s) then will_complex_loop ss off
      else guardE (offset s \<ge> 0) AssertFault
        (if offset s < off then Inr True
         else will_complex_loop ss (if known_spec (len s) then wrap64 (offset s + len s) else offset s)))"

definition willBeComplex :: "http_hdr_range \<Rightarrow> bool outcome" where
  "willBeComplex r = will_complex_loop (range_specs r) 0"

definition firstOffset :: "http_hdr_range \<Rightarrow> int" where
  "firstOffset r =
     foldl (\<lambda>off s. if offset s < off \<or> \<not> known_spec off then offset s else off) UnknownPosition (range_specs r)"

fun lowest_loop :: "int \<Rightarrow> range_spec list \<Rightarrow> int \<Rightarrow> int" where
  "lowest_loop sz [] off = (if known_spec off then off else 0)"
| "lowest_loop sz (s # ss) off =
     (if \<not> known_spec (offset s) \<and> (len s > sz \<or> \<not> known_spec (len s)) then 0
      else let current = (if known_spec (offset s) then offset s else wrap64 (sz - len s))
           in lowest_loop sz ss (if current < off \<or> \<not> known_spec off then current else off))"

definition lowestOffset :: "int \<Rightarrow> http_hdr_range \<Rightarrow> int" where
  "lowestOffset sz r = lowest_loop sz (range_specs r) UnknownPosition"

text \<open>The object may be absent (\<^verbatim>\<open>NULL == this\<close>): then the request is not a range request.\<close>

definition offsetLimitExceeded :: "int \<Rightarrow> http_hdr_range option \<Rightarrow> bool" where
  "offsetLimitExceeded limit this =
     (case this of
        None \<Rightarrow> False
      | Some r \<Rightarrow>
          if limit = 0 then True
          else if limit = - 1 then False
          else if firstOffset r = - 1 then True
          else if limit \<ge> firstOffset r then False
          else True)"

definition range_contains :: "http_hdr_range \<Rightarrow> range_spec \<Rightarrow> bool outcome" where
  "range_contains h r =
     guardE (len r \<ge> 0) AssertFault
       (let rrange = http_range (offset r) (wrap64 (offset r + len r))
        in Inr (list_ex (\<lambda>i.
             let irange = http_range (offset i) (wrap64 (offset i + len i));
                 inter = intersection rrange irange
             in range_start inter = range_start irange \<and> range_size inter = range_size irange) (range_specs h)))"

section \<open>Iterating over the ranges of a reply\<close>

record range_iter =
  iter_specs :: "range_spec list"
  iter_pos :: nat
  debt_size :: int
  iter_valid :: bool

definition currentSpec :: "range_iter \<Rightarrow> range_spec option" where
  "currentSpec i = (if iter_pos i \<noteq> length (iter_specs i) then Some (iter_specs i ! iter_pos i) else None)"

definition updateSpec :: "range_iter \<Rightarrow> range_iter outcome" where
  "updateSpec i =
     guardE (debt_size i = 0) AssertFault
       (guardE (iter_valid i) AssertFault
         (Inr (case currentSpec i of Some s \<Rightarrow> i\<lparr>debt_size := len s\<rparr> | None \<Rightarrow> i)))"

section \<open>Canonization\<close>

definition spec_sane :: "range_spec \<Rightarrow> bool" where
  "spec_sane s \<longleftrightarrow>
     offset s \<le> int64_max \<and> len s \<le> int64_max \<and> (known_spec (offset s) \<or> known_spec (len s)) \<and>
     (known_spec (offset s) \<and> known_spec (len s) \<longrightarrow> offset s + len s \<le> int64_max)"

text \<open>The bytes of an object of length \<^verbatim>\<open>clen\<close> that a specification asks for, as in RFC 2616 section 14.35.1.\<close>

definition requested :: "int \<Rightarrow> range_spec \<Rightarrow> int set" where
  "requested clen s =
     (if \<not> known_spec (offset s) then {clen - len s..}
      else if \<not> known_spec (len s) then {offset s..}
      else {offset s..<offset s + len s}) \<inter> {0..<clen}"

definition spec_bytes :: "range_spec \<Rightarrow> int set" where
  "spec_bytes s = {offset s..<offset s + len s}"

lemmas spec_defs = known_spec_def UnknownPosition_def http_range_def spec_size_def intersection_def range_size_def

lemma ray_Int_interval [simp]: "{a..} \<inter> {0..<b} = {max a 0..<b :: int}"
  by auto

lemma adjust_length_ok:
  assumes "0 \<le> offset s" "0 \<le> len s" "offset s + len s \<le> int64_max" "0 \<le> clen" "clen \<le> int64_max"
  shows "adjust_length clen s =
    Inr (0 < max 0 (min clen (offset s + len s) - offset s), s\<lparr>len := max 0 (min clen (offset s + len s) - offset s)\<rparr>)"
proof -
  have w: "wrap64 (offset s + len s) = offset s + len s"
    using assms by (intro wrap64_id) (auto simp: int64_min_def)
  have "wrap64 (max 0 (min clen (offset s + len s) - offset s)) = max 0 (min clen (offset s + len s) - offset s)"
    using assms by (intro wrap64_id) (auto simp: int64_min_def)
  moreover have "int (range_size (intersection (http_range 0 clen) (http_range (offset s) (offset s + len s)))) =
      max 0 (min clen (offset s + len s) - offset s)"
    using assms by (auto simp: spec_defs)
  ultimately show ?thesis
    using assms by (simp add: adjust_length_def w spec_size_def Let_def known_spec_def UnknownPosition_def)
qed

lemma spec_canonize_ok:
  assumes "spec_sane s" "0 \<le> clen" "clen \<le> int64_max"
  shows "\<exists>s'. spec_canonize clen s = Inr (requested clen s \<noteq> {}, s') \<and> spec_bytes s' = requested clen s \<and>
           0 \<le> offset s' \<and> 0 \<le> len s' \<and> (0 < len s' \<longrightarrow> offset s' + len s' \<le> clen)"
proof -
  consider (suffix) "offset s < 0" "0 \<le> len s" | (trailer) "0 \<le> offset s" "len s < 0"
    | (both) "0 \<le> offset s" "0 \<le> len s" "offset s + len s \<le> int64_max"
    using assms by (force simp: spec_sane_def known_spec_def UnknownPosition_def)
  then show ?thesis
  proof cases
    case suffix
    have "len s \<le> int64_max" using assms(1) by (simp add: spec_sane_def)
    then have w: "wrap64 (clen - len s) = clen - len s"
      using assms suffix by (intro wrap64_id) (auto simp: int64_min_def int64_max_def)
    define t where "t = s\<lparr>offset := max 0 (clen - len s)\<rparr>"
    have c: "spec_canonize clen s = adjust_length clen t"
      using suffix by (simp add: spec_canonize_def w t_def known_spec_def UnknownPosition_def http_range_def intersection_def)
    have "0 \<le> offset t" "0 \<le> len t" "offset t + len t \<le> int64_max"
      using suffix assms \<open>len s \<le> int64_max\<close> by (auto simp: t_def)
    note a = adjust_length_ok [OF this assms(2,3)]
    show ?thesis
      unfolding c a using suffix assms(2)
      by (auto simp: t_def requested_def spec_bytes_def known_spec_def UnknownPosition_def)
  next
    case trailer
    define t where "t = s\<lparr>len := max 0 (clen - offset s)\<rparr>"
    have "offset s \<le> int64_max" using assms(1) by (simp add: spec_sane_def)
    have "int (range_size (intersection (http_range 0 clen) (http_range (offset s) clen))) = max 0 (clen - offset s)"
      using trailer by (auto simp: spec_defs)
    moreover have "wrap64 (max 0 (clen - offset s)) = max 0 (clen - offset s)"
      using assms trailer by (intro wrap64_id) (auto simp: int64_min_def)
    ultimately have c: "spec_canonize clen s = adjust_length clen t"
      using trailer by (simp add: spec_canonize_def t_def spec_size_def known_spec_def UnknownPosition_def)
    have "0 \<le> offset t" "0 \<le> len t" "offset t + len t \<le> int64_max"
      using trailer assms \<open>offset s \<le> int64_max\<close> by (auto simp: t_def)
    note a = adjust_length_ok [OF this assms(2,3)]
    show ?thesis
      unfolding c a using trailer assms(2)
      by (auto simp: t_def requested_def spec_bytes_def known_spec_def UnknownPosition_def)
  next
    case both
    then show ?thesis
      using assms by (auto simp: spec_canonize_def adjust_length_ok known_spec_def UnknownPosition_def requested_def spec_bytes_def)
  qed
qed

lemma spec_canonize_fault:
  "\<not> known_spec (offset s) \<Longrightarrow> \<not> known_spec (len s) \<Longrightarrow> spec_canonize clen s = Inl AssertFault"
  by (simp add: spec_canonize_def)

lemma merge_loop_append: "merge_loop basis acc = acc @ basis"
  by (induction basis acc rule: merge_loop.induct) (simp_all add: mergeWith_def)

lemma merge_id [simp]: "merge basis = basis"
  by (simp add: merge_def merge_loop_append)

text \<open>Ranges that lie within the object and are not empty.\<close>

definition canonical :: "int \<Rightarrow> range_spec \<Rightarrow> bool" where
  "canonical clen s \<longleftrightarrow> 0 \<le> offset s \<and> 0 < len s \<and> offset s + len s \<le> clen"

lemma getCanonizedSpecs_ok:
  assumes "list_all spec_sane ss" "0 \<le> clen" "clen \<le> int64_max"
  shows "\<exists>goods. getCanonizedSpecs clen ss = Inr goods \<and> list_all (canonical clen) goods \<and>
           map spec_bytes goods = filter (\<lambda>B. B \<noteq> {}) (map (requested clen) ss)"
  using assms(1)
proof (induction ss)
  case (Cons s ss)
  then obtain goods where g: "getCanonizedSpecs clen ss = Inr goods" "list_all (canonical clen) goods"
    "map spec_bytes goods = filter (\<lambda>B. B \<noteq> {}) (map (requested clen) ss)" by auto
  obtain s' where s': "spec_canonize clen s = Inr (requested clen s \<noteq> {}, s')" "spec_bytes s' = requested clen s"
    "0 \<le> offset s'" "0 \<le> len s'" "0 < len s' \<longrightarrow> offset s' + len s' \<le> clen"
    using spec_canonize_ok [of s clen] Cons.prems assms by auto
  have "requested clen s \<noteq> {} \<longleftrightarrow> 0 < len s'"
    unfolding s'(2) [symmetric] by (simp add: spec_bytes_def)
  then show ?case using g s' by (auto simp: canonical_def [of clen s'])
qed simp

text \<open>
  C14.  Given specifications that the parser accepts with at least one known position and the length
  of the object, \<^verbatim>\<open>HttpHdrRange::canonize()\<close> fails no assertion and leaves, in the order of the request,
  exactly one range for each specification that selects some byte of the object; that range lies
  within the object and is the set of bytes the specification asks for.  The result tells whether
  any range is left.
\<close>
theorem range_canonize_exact:
  assumes "list_all spec_sane (range_specs r)" "0 \<le> newClen" "newClen \<le> int64_max"
  shows "\<exists>r'. canonize_clen newClen r = Inr (range_specs r' \<noteq> [], r') \<and> range_clen r' = newClen \<and>
           list_all (canonical newClen) (range_specs r') \<and>
           map spec_bytes (range_specs r') = filter (\<lambda>B. B \<noteq> {}) (map (requested newClen) (range_specs r))"
  using getCanonizedSpecs_ok [OF assms] by (auto simp: canonize_clen_def)

theorem range_canonize_exact_witness:
  "\<exists>r'. canonize_clen 100 \<lparr>range_specs = [\<lparr>offset = 10, len = 5\<rparr>, \<lparr>offset = 200, len = -1\<rparr>, \<lparr>offset = -1, len = 30\<rparr>],
            range_clen = -1\<rparr> = Inr (range_specs r' \<noteq> [], r') \<and>
     map spec_bytes (range_specs r') = [{10..<15}, {70..<100}]"
proof -
  let ?r = "\<lparr>range_specs = [\<lparr>offset = 10, len = 5\<rparr>, \<lparr>offset = 200, len = -1\<rparr>, \<lparr>offset = -1, len = 30\<rparr>], range_clen = -1\<rparr>"
  have "map (requested 100) (range_specs ?r) = [{10..<15}, {}, {70..<100}]"
    by (auto simp: requested_def known_spec_def UnknownPosition_def)
  moreover have "list_all spec_sane (range_specs ?r)"
    by (simp add: spec_sane_def known_spec_def UnknownPosition_def int64_max_def)
  ultimately show ?thesis
    using range_canonize_exact [of ?r 100] by (auto simp: int64_max_def)
qed

section \<open>What the parser accepts\<close>

lemma strtoll_bounds: "int64_min \<le> fst (strtoll s) \<and> fst (strtoll s) \<le> int64_max"
  by (auto simp: strtoll_def Let_def int64_min_def int64_max_def)

lemma parseOffset_bounds: "httpHeaderParseOffset einval s = Some v \<Longrightarrow> int64_min \<le> v \<and> v \<le> int64_max"
  using strtoll_bounds [of s] by (auto simp: httpHeaderParseOffset_def case_prod_unfold Let_def split: if_splits)

definition spec_blank :: "range_spec \<Rightarrow> bool" where
  "spec_blank s \<longleftrightarrow> \<not> known_spec (offset s) \<and> \<not> known_spec (len s)"

lemma spec_size_le_max: "spec_size r \<le> int64_max"
  using wrap64_bounds by (simp add: spec_size_def)

lemma spec_size_sum:
  assumes "0 \<le> off" "off \<le> lst" "lst \<le> int64_max"
  shows "0 \<le> spec_size (http_range off (wrap64 (lst + 1))) \<and> off + spec_size (http_range off (wrap64 (lst + 1))) \<le> int64_max"
proof (cases "lst = int64_max")
  case True
  then have "wrap64 (lst + 1) < 0" by (simp add: int64_max_def wrap64_def)
  then have "range_size (http_range off (wrap64 (lst + 1))) = 0"
    using assms by (simp add: http_range_def range_size_def)
  then show ?thesis using assms by (simp add: spec_size_def int64_min_def int64_max_def)
next
  case False
  then have w: "wrap64 (lst + 1) = lst + 1"
    using assms by (intro wrap64_id) (auto simp: int64_min_def)
  have "int (range_size (http_range off (lst + 1))) = lst + 1 - off"
    using assms by (simp add: http_range_def range_size_def)
  moreover have "wrap64 (lst + 1 - off) = lst + 1 - off"
    using assms False by (intro wrap64_id) (auto simp: int64_min_def)
  ultimately show ?thesis using assms False by (simp add: spec_size_def w)
qed

lemma spec_pair_sane:
  assumes "off \<le> lst" "off \<le> int64_max" "lst \<le> int64_max"
  shows "spec_sane \<lparr>offset = off, len = spec_size (http_range off (wrap64 (lst + 1)))\<rparr> \<or>
         spec_blank \<lparr>offset = off, len = spec_size (http_range off (wrap64 (lst + 1)))\<rparr>"
proof (cases "0 \<le> off")
  case True
  with assms spec_size_sum [of off lst] spec_size_le_max show ?thesis
    by (simp add: spec_sane_def known_spec_def UnknownPosition_def)
next
  case False
  with assms spec_size_le_max show ?thesis
    by (auto simp: spec_sane_def spec_blank_def known_spec_def UnknownPosition_def)
qed

lemma spec_Create_cases:
  assumes "spec_Create einval field flen = Some s"
  obtains (suffix) a where "a \<le> int64_max" "s = \<lparr>offset = -1, len = a\<rparr>"
  | (trailer) a where "a \<le> int64_max" "s = \<lparr>offset = a, len = -1\<rparr>"
  | (pair) off lst where "off \<le> lst" "lst \<le> int64_max"
      "s = \<lparr>offset = off, len = spec_size (http_range off (wrap64 (lst + 1)))\<rparr>"
  using assms
  by (auto simp: spec_Create_def spec_parseInit_def new_range_spec_def Let_def UnknownPosition_def not_less
      dest!: parseOffset_bounds split: if_splits option.splits)

lemma spec_Create_sane: "spec_Create einval field flen = Some s \<Longrightarrow> spec_sane s \<or> spec_blank s"
proof (erule spec_Create_cases)
  fix off lst
  assume "off \<le> lst" "lst \<le> int64_max" "s = \<lparr>offset = off, len = spec_size (http_range off (wrap64 (lst + 1)))\<rparr>"
  then show ?thesis using spec_pair_sane [of off lst] by simp
qed (auto simp: spec_sane_def spec_blank_def known_spec_def UnknownPosition_def int64_max_def)

lemma parse_items_sane:
  "list_all (\<lambda>s. spec_sane s \<or> spec_blank s) acc \<Longrightarrow> list_all (\<lambda>s. spec_sane s \<or> spec_blank s) (parse_items einval pos acc)"
proof (induction einval pos acc rule: parse_items.induct)
  case (1 einval pos acc)
  show ?case
    by (subst parse_items.simps)
      (use 1 spec_Create_sane in \<open>auto split: prod.split option.split\<close>)
qed

lemma ParseCreate_sane:
  "ParseCreate einval h = Some ss \<Longrightarrow> list_all (\<lambda>s. spec_sane s \<or> spec_blank s) ss"
  using parse_items_sane [of "[]"]
  by (auto simp: ParseCreate_def parseInit_def Let_def split: if_splits)

lemma getCanonizedSpecs_fault:
  assumes "list_all (\<lambda>s. spec_sane s \<or> spec_blank s) ss" "0 \<le> clen" "clen \<le> int64_max"
  shows "(\<exists>e. getCanonizedSpecs clen ss = Inl e) \<longleftrightarrow> list_ex spec_blank ss"
  using assms(1)
proof (induction ss)
  case (Cons s ss)
  show ?case
  proof (cases "spec_blank s")
    case True
    then show ?thesis using spec_canonize_fault [of s clen] by (auto simp: spec_blank_def)
  next
    case False
    with Cons.prems obtain ok s' where "spec_canonize clen s = Inr (ok, s')"
      using spec_canonize_ok [of s clen] assms by auto
    then show ?thesis using Cons False by (auto simp: outcome_simps)
  qed
qed simp

section \<open>Printed items are read back\<close>

definition item_char :: "char \<Rightarrow> bool" where
  "item_char c \<longleftrightarrow> is_digit c \<or> c = CHR ''-''"

lemma item_char_plain:
  "item_char c \<Longrightarrow> \<not> xisspace c \<and> c \<notin> skip_delims (CHR '','') \<and> c \<notin> list_delims (CHR '','') False \<and> c \<noteq> CHR 0x00"
  by (auto simp: item_char_def is_digit_def xisspace_def skip_delims_def list_delims_def)

lemma strListGetItem_clean:
  assumes "w \<noteq> []" "list_all item_char w" "rest = [] \<or> hd rest = CHR '',''" "set pre \<subseteq> skip_delims (CHR '','')"
  shows "strListGetItem (CHR '','') (pre @ w @ rest) = (True, w @ rest, length w, rest)"
proof -
  have plain: "c \<in> set w \<Longrightarrow> \<not> xisspace c \<and> c \<notin> skip_delims (CHR '','') \<and> c \<notin> list_delims (CHR '','') False" for c
    using assms(2) item_char_plain by (auto simp: list_all_iff)
  have "dropWhile (\<lambda>c. c \<in> skip_delims (CHR '','')) (pre @ w @ rest) = dropWhile (\<lambda>c. c \<in> skip_delims (CHR '','')) (w @ rest)"
    using assms(4) by (subst dropWhile_append2) auto
  also have "\<dots> = w @ rest"
    using assms(1) plain by (cases w) auto
  finally have item: "dropWhile (\<lambda>c. c \<in> skip_delims (CHR '','')) (pre @ w @ rest) = w @ rest" .
  have "dropWhile (\<lambda>c. c \<notin> list_delims (CHR '','') False) (w @ rest) = dropWhile (\<lambda>c. c \<notin> list_delims (CHR '','') False) rest"
    using plain by (subst dropWhile_append2) auto
  also have "\<dots> = rest"
    using assms(3) by (cases rest) (auto simp: list_delims_def)
  finally have scan: "item_scan (CHR '','') False (w @ rest) = rest"
    using assms(3) by (subst item_scan.simps) (auto split: list.split)
  have trim: "dropWhile xisspace (rev w) = rev w"
    using assms(1) plain by (cases w rule: rev_cases) auto
  show ?thesis
    unfolding strListGetItem_def Let_def item scan by (simp add: trim assms(1))
qed

lemma strListGetItem_end [simp]: "strListGetItem del [] = (False, [], 0, [])"
  by (simp add: strListGetItem_def item_scan.simps)

lemma blank_header: "ParseCreate einval ''bytes=--1'' = Some [\<lparr>offset = -1, len = -1\<rparr>]"
proof -
  have "strListGetItem (CHR '','') ''--1'' = (True, ''--1'', 3, [])"
    using strListGetItem_clean [of "''--1''" "[]" "[]"] by (simp add: item_char_def is_digit_def)
  moreover have "spec_Create einval ''--1'' 3 = Some \<lparr>offset = -1, len = -1\<rparr>"
    by (simp add: spec_Create_def spec_parseInit_def httpHeaderParseOffset_def strtoll_def xisspace_def
        is_digit_def digits_value_def int64_min_def int64_max_def new_range_spec_def UnknownPosition_def)
  ultimately have "parse_items einval ''--1'' [] = [\<lparr>offset = -1, len = -1\<rparr>]"
    by (simp add: parse_items.simps)
  then show ?thesis
    by (simp add: ParseCreate_def parseInit_def to_lower_def)
qed

text \<open>
  For every Range header that the parser accepts and every object length, \<^verbatim>\<open>canonize()\<close> fails an
  assertion, which ends the process, exactly when some parsed specification has neither position
  known.  Such headers exist: \<^verbatim>\<open>bytes=--1\<close> is accepted, since the suffix length goes through
  \<^verbatim>\<open>strtoll()\<close>, which reads \<^verbatim>\<open>-1\<close>, the code for an unknown position.
\<close>
theorem range_parse_canonize_fault:
  "(0 \<le> newClen \<and> newClen \<le> int64_max \<and> ParseCreate einval h = Some ss \<longrightarrow>
      (\<exists>e. canonize_clen newClen \<lparr>range_specs = ss, range_clen = c\<rparr> = Inl e) = list_ex spec_blank ss) \<and>
   ParseCreate einval ''bytes=--1'' = Some [\<lparr>offset = -1, len = -1\<rparr>] \<and>
   canonize_clen newClen \<lparr>range_specs = [\<lparr>offset = -1, len = -1\<rparr>], range_clen = c\<rparr> = Inl AssertFault"
  using ParseCreate_sane [of einval h ss] getCanonizedSpecs_fault [of ss newClen] blank_header
  by (auto simp: canonize_clen_def outcome_simps spec_canonize_fault known_spec_def UnknownPosition_def)

theorem range_parse_canonize_fault_witness:
  "ParseCreate False ''bytes=--1'' = Some [\<lparr>offset = -1, len = -1\<rparr>] \<and>
   (\<exists>e. canonize_clen 1000 \<lparr>range_specs = [\<lparr>offset = -1, len = -1\<rparr>], range_clen = -1\<rparr> = Inl e)"
proof -
  have "list_ex spec_blank [\<lparr>offset = -1, len = -1\<rparr>]"
    by (simp add: spec_blank_def known_spec_def UnknownPosition_def)
  then show ?thesis
    using range_parse_canonize_fault [of 1000 False "''bytes=--1''" "[\<lparr>offset = -1, len = -1\<rparr>]" "-1"]
    by (simp add: int64_max_def)
qed

lemma digits_value_snoc: "digits_value (ds @ [c]) = 10 * digits_value ds + (int (of_char c) - 48)"
  by (simp add: digits_value_def)

lemma digits_value_decimal [simp]: "digits_value (decimal n) = int n"
proof (induction n rule: decimal.induct)
  case (1 n)
  show ?case
  proof (cases "n < 10")
    case True
    then show ?thesis by (subst decimal.simps) (simp add: digits_value_def of_char_of)
  next
    case False
    then have "digits_value (decimal n) = 10 * int (n div 10) + int (n mod 10)"
      using 1 by (subst decimal.simps) (simp add: digits_value_snoc of_char_of)
    also have "\<dots> = int n" by (simp flip: of_nat_add of_nat_mult add: zdiv_int zmod_int)
    finally show ?thesis .
  qed
qed

lemma takeWhile_decimal:
  "rest = [] \<or> \<not> is_digit (hd rest) \<Longrightarrow> takeWhile is_digit (decimal n @ rest) = decimal n"
  using decimal_digits [of n] by (cases rest) (auto simp: list_all_iff takeWhile_tail)

lemma digit_plain: "is_digit c \<Longrightarrow> \<not> xisspace c \<and> c \<noteq> CHR ''-'' \<and> c \<noteq> CHR ''+''"
  by (auto simp: is_digit_def xisspace_def)

lemma hd_decimal: "is_digit (hd (decimal n))"
  using decimal_digits [of n] by (cases "decimal n") auto

lemma strtoll_decimal:
  assumes "rest = [] \<or> \<not> is_digit (hd rest)" "int n \<le> int64_max"
  shows "strtoll (decimal n @ rest) = (int n, True)"
proof -
  have h: "\<not> xisspace (hd (decimal n))" "hd (decimal n) \<noteq> CHR ''-''" "hd (decimal n) \<noteq> CHR ''+''"
    using digit_plain [OF hd_decimal] by auto
  then have "dropWhile xisspace (decimal n @ rest) = decimal n @ rest"
    by (cases "decimal n") auto
  then show ?thesis
    unfolding strtoll_def Let_def using h assms takeWhile_decimal [OF assms(1), of n]
    by (simp add: int64_min_def)
qed

lemma parseOffset_decimal:
  "rest = [] \<or> \<not> is_digit (hd rest) \<Longrightarrow> int n \<le> int64_max \<Longrightarrow>
   httpHeaderParseOffset einval (decimal n @ rest) = Some (int n)"
  by (simp add: httpHeaderParseOffset_def strtoll_decimal)

text \<open>The specifications that have a printed form: a suffix, a trailer, or a non-empty range.\<close>

definition printable :: "range_spec \<Rightarrow> bool" where
  "printable s \<longleftrightarrow>
     (offset s = -1 \<and> 0 \<le> len s \<and> len s \<le> int64_max) \<or>
     (0 \<le> offset s \<and> offset s \<le> int64_max \<and> len s = -1) \<or>
     (0 \<le> offset s \<and> 0 < len s \<and> offset s + len s \<le> int64_max)"

lemma printable_cases:
  assumes "printable s"
  obtains (suffix) n where "s = \<lparr>offset = -1, len = int n\<rparr>" "int n \<le> int64_max" "spec_packInto s = CHR ''-'' # decimal n"
  | (trailer) n where "s = \<lparr>offset = int n, len = -1\<rparr>" "int n \<le> int64_max" "spec_packInto s = decimal n @ ''-''"
  | (pair) m n where "s = \<lparr>offset = int m, len = int n + 1 - int m\<rparr>" "m \<le> n" "int n < int64_max"
      "spec_packInto s = decimal m @ ''-'' @ decimal n"
proof -
  consider "offset s = -1" "0 \<le> len s" "len s \<le> int64_max"
    | "0 \<le> offset s" "offset s \<le> int64_max" "len s = -1"
    | "0 \<le> offset s" "0 < len s" "offset s + len s \<le> int64_max"
    using assms by (auto simp: printable_def)
  then show ?thesis
  proof cases
    case 1
    then show ?thesis
      by (intro suffix [of "nat (len s)"]) (auto simp: spec_packInto_def print_int64_def known_spec_def UnknownPosition_def)
  next
    case 2
    then show ?thesis
      by (intro trailer [of "nat (offset s)"]) (auto simp: spec_packInto_def print_int64_def known_spec_def UnknownPosition_def)
  next
    case 3
    have "wrap64 (offset s + len s) = offset s + len s" "wrap64 (offset s + len s - 1) = offset s + len s - 1"
      using 3 by (auto intro!: wrap64_id simp: int64_min_def)
    with 3 show ?thesis
      by (intro pair [of "nat (offset s)" "nat (offset s + len s - 1)"])
        (auto simp: spec_packInto_def print_int64_def known_spec_def UnknownPosition_def)
  qed
qed

lemma takeWhile_dash: "takeWhile (\<lambda>c. c \<noteq> CHR ''-'') (decimal n @ CHR ''-'' # rest) = decimal n"
  using decimal_digits [of n] digit_plain by (subst takeWhile_append2) (auto simp: list_all_iff)

lemma item_decimal: "list_all item_char (decimal n)"
  using decimal_digits [of n] by (auto simp: item_char_def list_all_iff)

lemma spec_packInto_item: "printable s \<Longrightarrow> list_all item_char (spec_packInto s) \<and> spec_packInto s \<noteq> []"
  by (erule printable_cases) (auto simp: item_decimal item_char_def)

lemma length_decimal_pos: "0 < length (decimal n)"
  by simp

lemma hd_decimal_append: "hd (decimal n @ rest) \<noteq> CHR ''-''"
  using digit_plain [OF hd_decimal, of n] by simp

lemma spec_size_pair:
  assumes "m \<le> n" "int n < int64_max"
  shows "spec_size (http_range (int m) (wrap64 (int n + 1))) = int n + 1 - int m"
proof -
  have "wrap64 (int n + 1) = int n + 1" "wrap64 (int n + 1 - int m) = int n + 1 - int m"
    using assms by (auto intro!: wrap64_id simp: int64_min_def)
  moreover have "int (range_size (http_range (int m) (int n + 1))) = int n + 1 - int m"
    using assms by (simp add: http_range_def range_size_def)
  ultimately show ?thesis by (simp add: spec_size_def)
qed

lemma spec_Create_pack:
  assumes "printable s" "rest = [] \<or> hd rest = CHR '',''"
  shows "spec_Create einval (spec_packInto s @ rest) (length (spec_packInto s)) = Some s"
proof -
  have rest: "rest = [] \<or> \<not> is_digit (hd rest)" using assms(2) by (auto simp: is_digit_def)
  have len: "Suc 0 \<le> length (decimal n)" for n using length_decimal_pos [of n] by linarith
  have dash: "CHR ''-'' # xs = [] \<or> \<not> is_digit (hd (CHR ''-'' # xs))" for xs by (simp add: is_digit_def)
  show ?thesis
    using assms(1)
  proof (cases rule: printable_cases)
    case (suffix n)
    have "spec_Create einval (CHR ''-'' # decimal n @ rest) (Suc (length (decimal n))) = Some s"
      using len [of n] parseOffset_decimal [OF rest suffix(2)]
      by (simp add: spec_Create_def spec_parseInit_def new_range_spec_def UnknownPosition_def suffix(1))
    then show ?thesis by (simp add: suffix(3))
  next
    case (trailer n)
    have "spec_Create einval (decimal n @ CHR ''-'' # rest) (Suc (length (decimal n))) = Some s"
      using len [of n] hd_decimal_append [of n "CHR ''-'' # rest"] parseOffset_decimal [OF dash trailer(2)]
      by (simp add: spec_Create_def spec_parseInit_def new_range_spec_def UnknownPosition_def trailer(1) takeWhile_dash)
    then show ?thesis by (simp add: trailer(3))
  next
    case (pair m n)
    have "spec_Create einval (decimal m @ CHR ''-'' # decimal n @ rest) (Suc (length (decimal m) + length (decimal n))) = Some s"
      using len [of m] len [of n] pair(2,3) hd_decimal_append [of m "CHR ''-'' # decimal n @ rest"]
        parseOffset_decimal [OF dash, of m] parseOffset_decimal [OF rest, of n]
      by (simp add: spec_Create_def spec_parseInit_def new_range_spec_def UnknownPosition_def pair(1) takeWhile_dash spec_size_pair)
    then show ?thesis by (simp add: pair(4))
  qed
qed

lemma parse_items_pack:
  assumes "list_all printable ss"
  shows "parse_items einval (pack_rest ss) acc = acc @ ss"
  using assms
proof (induction ss arbitrary: acc)
  case Nil
  then show ?case by (simp add: parse_items.simps)
next
  case (Cons s ss)
  have "pack_rest ss = [] \<or> hd (pack_rest ss) = CHR '',''" by (cases ss) auto
  moreover from this have "strListGetItem (CHR '','') (pack_rest (s # ss)) =
      (True, spec_packInto s @ pack_rest ss, length (spec_packInto s), pack_rest ss)"
    using strListGetItem_clean [of "spec_packInto s" "pack_rest ss" "'',''"] spec_packInto_item Cons.prems
    by (simp add: skip_delims_def)
  ultimately show ?case
    using Cons by (subst parse_items.simps) (simp add: spec_Create_pack)
qed

lemma parse_items_packInto:
  assumes "list_all printable ss"
  shows "parse_items einval (packInto ss) [] = ss"
proof (cases ss)
  case Nil
  then show ?thesis by (simp add: parse_items.simps)
next
  case (Cons s ts)
  have "pack_rest ts = [] \<or> hd (pack_rest ts) = CHR '',''" by (cases ts) auto
  moreover from this have "strListGetItem (CHR '','') (packInto ss) =
      (True, spec_packInto s @ pack_rest ts, length (spec_packInto s), pack_rest ts)"
    using strListGetItem_clean [of "spec_packInto s" "pack_rest ts" "[]"] spec_packInto_item assms Cons
    by simp
  ultimately show ?thesis
    using assms Cons by (subst parse_items.simps) (simp add: spec_Create_pack parse_items_pack)
qed

lemma pack_no_nul:
  assumes "list_all printable ss" shows "CHR 0x00 \<notin> set (packInto ss)"
proof -
  have "CHR 0x00 \<notin> set (spec_packInto s)" if "printable s" for s
    using spec_packInto_item [OF that] item_char_plain by (auto simp: list_all_iff)
  then have "list_all printable ts \<Longrightarrow> CHR 0x00 \<notin> set (pack_rest ts)" for ts
    by (induction ts) auto
  with \<open>\<And>s. printable s \<Longrightarrow> CHR 0x00 \<notin> set (spec_packInto s)\<close> assms show ?thesis by (cases ss) auto
qed

text \<open>
  Round trip: the header that \<^verbatim>\<open>packInto()\<close> prints for a list of suffixes, trailers and non-empty
  ranges parses, for either behaviour of the C library, to the same list.
\<close>
theorem range_pack_parse:
  assumes "ss \<noteq> []" "list_all printable ss"
  shows "ParseCreate einval (''bytes='' @ packInto ss) = Some ss"
proof -
  have "takeWhile (\<lambda>c. c \<noteq> CHR 0x00) (packInto ss) = packInto ss"
    using pack_no_nul [OF assms(2)] by (auto simp: takeWhile_eq_all_conv)
  then show ?thesis
    using assms parse_items_packInto [OF assms(2), of einval]
    unfolding ParseCreate_def parseInit_def Let_def by (simp add: to_lower_def del: takeWhile_eq_all_conv)
qed

theorem range_pack_parse_witness:
  "ParseCreate True ''bytes=0-499,-20,9500-'' = Some [\<lparr>offset = 0, len = 500\<rparr>, \<lparr>offset = -1, len = 20\<rparr>, \<lparr>offset = 9500, len = -1\<rparr>]"
proof -
  let ?ss = "[\<lparr>offset = 0, len = 500\<rparr>, \<lparr>offset = -1, len = 20\<rparr>, \<lparr>offset = 9500, len = -1\<rparr>]"
  have "packInto ?ss = ''0-499,-20,9500-''"
    by (simp add: spec_packInto_def print_int64_def known_spec_def UnknownPosition_def decimal.simps wrap64_def char_of_def bit_Suc_0_iff)
  moreover have "list_all printable ?ss" by (simp add: printable_def int64_max_def)
  ultimately show ?thesis using range_pack_parse [of ?ss True] by simp
qed

section \<open>Decisions on the order and the lowest offset of ranges\<close>

lemma complex_loop_iff:
  assumes "list_all (canonical clen) ss" "clen \<le> int64_max"
  shows "complex_loop ss off =
    Inr (\<not> (list_all (\<lambda>s. off \<le> offset s) ss \<and> sorted_wrt (\<lambda>s t. offset s + len s \<le> offset t) ss))"
  using assms(1)
proof (induction ss arbitrary: off)
  case (Cons s ss)
  then have s: "0 \<le> offset s" "0 < len s" "offset s + len s \<le> clen" by (simp_all add: canonical_def)
  then have "wrap64 (offset s + len s) = offset s + len s"
    using assms(2) by (intro wrap64_id) (auto simp: int64_min_def)
  then show ?case
    using Cons s by (fastforce simp: list_all_iff)
qed simp

text \<open>
  On canonized specifications \<^verbatim>\<open>isComplex()\<close> fails no assertion and is false exactly when the
  ranges come in increasing order without overlap, so that one pass over the object can send them.
\<close>
lemma range_isComplex_iff:
  assumes "list_all (canonical (range_clen r)) (range_specs r)" "range_clen r \<le> int64_max"
  shows "isComplex r = Inr (\<not> sorted_wrt (\<lambda>s t. offset s + len s \<le> offset t) (range_specs r))"
  using assms complex_loop_iff [OF assms, of 0]
  by (auto simp: isComplex_def canonical_def list_all_iff)

definition lower_offset :: "int \<Rightarrow> range_spec \<Rightarrow> int" where
  "lower_offset off s = (if offset s < off \<or> \<not> known_spec off then offset s else off)"

lemma firstOffset_fold: "firstOffset r = foldl lower_offset UnknownPosition (range_specs r)"
  unfolding firstOffset_def lower_offset_def ..

lemma lower_offset_fold:
  assumes "list_all (\<lambda>s. known_spec (offset s)) ss" "known_spec off"
  shows "foldl lower_offset off ss = Min (insert off (offset ` set ss))"
  using assms
proof (induction ss arbitrary: off)
  case (Cons s ss)
  have "lower_offset off s = min (offset s) off"
    using Cons.prems by (simp add: lower_offset_def min_def)
  moreover have "known_spec (min (offset s) off)"
    using Cons.prems by (simp add: min_def)
  ultimately show ?case
    using Cons by (cases ss) (auto simp: Min_insert ac_simps)
qed simp

lemma lower_offset_fold_unknown:
  assumes "ss \<noteq> []" "list_all (\<lambda>s. known_spec (offset s)) ss" "\<not> known_spec off"
  shows "foldl lower_offset off ss = Min (offset ` set ss)"
  using assms lower_offset_fold [of "tl ss" "offset (hd ss)"]
  by (cases ss) (auto simp: lower_offset_def)

lemma lower_offset_unknown: "\<not> known_spec (offset s) \<Longrightarrow> \<not> known_spec (lower_offset off s)"
  by (auto simp: lower_offset_def known_spec_def)

text \<open>
  \<^verbatim>\<open>firstOffset()\<close> returns the lowest offset only of the specifications after the last suffix
  specification: a suffix in the middle of the header hides every offset before it, although the
  comment promises the lowest known offset.  With a limit of 100, the header
  \<^verbatim>\<open>bytes=0-9,-5,500-599\<close> therefore exceeds the limit while \<^verbatim>\<open>bytes=0-9,500-599\<close> does not.
\<close>
theorem range_firstOffset_after_suffix:
  assumes "range_specs r = before @ after" "after \<noteq> []" "list_all (\<lambda>s. known_spec (offset s)) after"
    and "before = [] \<or> \<not> known_spec (offset (last before))"
  shows "firstOffset r = Min (offset ` set after)"
proof -
  have "\<not> known_spec (foldl lower_offset UnknownPosition before)"
  proof (cases before rule: rev_cases)
    case Nil
    then show ?thesis by (simp add: known_spec_def)
  next
    case (snoc ys y)
    then show ?thesis using assms(4) by (simp add: lower_offset_unknown)
  qed
  then show ?thesis
    using lower_offset_fold_unknown [OF assms(2,3)] by (simp add: firstOffset_fold assms(1))
qed

theorem range_firstOffset_after_suffix_witness:
  "offsetLimitExceeded 100 (Some \<lparr>range_specs = [\<lparr>offset = 0, len = 10\<rparr>, \<lparr>offset = -1, len = 5\<rparr>, \<lparr>offset = 500, len = 100\<rparr>],
      range_clen = -1\<rparr>) \<and>
   \<not> offsetLimitExceeded 100 (Some \<lparr>range_specs = [\<lparr>offset = 0, len = 10\<rparr>, \<lparr>offset = 500, len = 100\<rparr>], range_clen = -1\<rparr>)"
  using range_firstOffset_after_suffix
      [of "\<lparr>range_specs = [\<lparr>offset = 0, len = 10\<rparr>, \<lparr>offset = -1, len = 5\<rparr>, \<lparr>offset = 500, len = 100\<rparr>], range_clen = -1\<rparr>"
        "[\<lparr>offset = 0, len = 10\<rparr>, \<lparr>offset = -1, len = 5\<rparr>]" "[\<lparr>offset = 500, len = 100\<rparr>]"]
    range_firstOffset_after_suffix
      [of "\<lparr>range_specs = [\<lparr>offset = 0, len = 10\<rparr>, \<lparr>offset = 500, len = 100\<rparr>], range_clen = -1\<rparr>"
        "[]" "[\<lparr>offset = 0, len = 10\<rparr>, \<lparr>offset = 500, len = 100\<rparr>]"]
  by (simp add: offsetLimitExceeded_def known_spec_def UnknownPosition_def)

end
