(* ===== verification/Mem_Buf.thy ===== *)
theory Mem_Buf
  imports Squid_Prelude
begin

text \<open>
  The auto-growing memory buffer \<^verbatim>\<open>MemBuf\<close> of \<^verbatim>\<open>src/MemBuf.cc\<close>, with the allocation sizes of
  \<^verbatim>\<open>src/mem.cc\<close> that determine its capacity.  A buffer is its content, its capacity, the limit on the
  capacity and whether it was given away; the memory pointer is null exactly when the capacity is 0.
  The terminating zero octet after the content is not part of it, but every routine that writes it checks
  that there is room for it.
\<close>

section \<open>State and sizes\<close>

record mem_buf =
  content :: "char list"
  max_capacity :: nat
  capacity :: nat
  stolen :: bool

definition new_mem_buf :: mem_buf where
  "new_mem_buf = \<lparr>content = [], max_capacity = 0, capacity = 0, stolen = False\<rparr>"

definition MEM_BUF_INIT_SIZE :: nat where
  "MEM_BUF_INIT_SIZE = 2 * 1024"

definition MEM_BUF_MAX_SIZE :: nat where
  "MEM_BUF_MAX_SIZE = 2 * 1000 * 1024 * 1024"

definition contentSize :: "mem_buf \<Rightarrow> nat" where
  "contentSize b = length (content b)"

definition hasContent :: "mem_buf \<Rightarrow> bool" where
  "hasContent b = (contentSize b > 0)"

definition hasSpace :: "mem_buf \<Rightarrow> bool" where
  "hasSpace b = (contentSize b + 1 < capacity b)"

definition spaceSize :: "mem_buf \<Rightarrow> nat" where
  "spaceSize b =
     (let terminatedSize = contentSize b + 1
      in if terminatedSize < capacity b then capacity b - terminatedSize else 0)"

definition potentialSpaceSize :: "mem_buf \<Rightarrow> nat" where
  "potentialSpaceSize b =
     (let terminatedSize = contentSize b + 1
      in if terminatedSize < max_capacity b then max_capacity b - terminatedSize else 0)"

definition hasPotentialSpace :: "mem_buf \<Rightarrow> bool" where
  "hasPotentialSpace b = (potentialSpaceSize b > 0)"

definition isNull :: "mem_buf \<Rightarrow> bool outcome" where
  "isNull b =
     (if max_capacity b = 0 \<and> capacity b = 0 \<and> contentSize b = 0 then Inr True
      else guardE (capacity b \<noteq> 0 \<and> max_capacity b \<noteq> 0) AssertFault (Inr False))"

section \<open>Growth\<close>

text \<open>The gross size of a pooled buffer, and the net size itself above 64 KB.\<close>

definition memFindBufSizeType :: "nat \<Rightarrow> nat" where
  "memFindBufSizeType net_size =
     (if net_size \<le> 2 * 1024 then 2 * 1024
      else if net_size \<le> 4 * 1024 then 4 * 1024
      else if net_size \<le> 8 * 1024 then 8 * 1024
      else if net_size \<le> 16 * 1024 then 16 * 1024
      else if net_size \<le> 32 * 1024 then 32 * 1024
      else if net_size \<le> 64 * 1024 then 64 * 1024
      else net_size)"

text \<open>Reallocation returns the gross size of the new buffer and keeps the bytes that fit both sizes.\<close>

definition memReallocBuf :: "char list \<Rightarrow> nat \<Rightarrow> nat \<Rightarrow> char list \<times> nat" where
  "memReallocBuf oldbuf net_size gross_size =
     (take (min gross_size net_size) oldbuf, memFindBufSizeType net_size)"

function grow_steps :: "nat \<Rightarrow> nat \<Rightarrow> nat" where
  "grow_steps min_cap new_cap = (if new_cap < min_cap then grow_steps min_cap (new_cap + 64 * 1024) else new_cap)"
  by pat_completeness auto

termination grow_steps
  by (relation "measure (\<lambda>(min_cap, new_cap). min_cap - new_cap)") auto

declare grow_steps.simps [simp del]

definition next_capacity :: "nat \<Rightarrow> nat \<Rightarrow> nat" where
  "next_capacity min_cap limit =
     (let new_cap = (if min_cap > 64 * 1024 then grow_steps min_cap (64 * 1024) else min_cap)
      in if new_cap > limit then limit else new_cap)"

definition grow :: "nat \<Rightarrow> mem_buf \<Rightarrow> mem_buf outcome" where
  "grow min_cap b =
     guardE (\<not> stolen b) AssertFault
       (guardE (capacity b < min_cap) AssertFault
         (let new_cap = next_capacity min_cap (max_capacity b)
          in guardE (new_cap \<le> max_capacity b) AssertFault
               (guardE (new_cap > capacity b) AssertFault
                 (let (buf', buf_cap) = memReallocBuf (content b) new_cap (capacity b)
                  in Inr (b\<lparr>content := buf', capacity := buf_cap\<rparr>)))))"

section \<open>Operations\<close>

definition init_sizes :: "nat \<Rightarrow> nat \<Rightarrow> mem_buf \<Rightarrow> mem_buf outcome" where
  "init_sizes szInit szMax b =
     guardE (szInit > 0 \<and> szMax > 0) AssertFault
       (grow szInit \<lparr>content = [], max_capacity = szMax, capacity = 0, stolen = False\<rparr>)"

definition init_default :: "mem_buf \<Rightarrow> mem_buf outcome" where
  "init_default b = init_sizes MEM_BUF_INIT_SIZE MEM_BUF_MAX_SIZE b"

definition clean :: "mem_buf \<Rightarrow> mem_buf outcome" where
  "clean b =
     bindE (isNull b) (\<lambda>n.
       if n then Inr b
       else guardE (capacity b \<noteq> 0) AssertFault
              (guardE (\<not> stolen b) AssertFault
                (Inr (b\<lparr>content := [], capacity := 0, max_capacity := 0\<rparr>))))"

definition reset :: "mem_buf \<Rightarrow> mem_buf outcome" where
  "reset b =
     bindE (isNull b) (\<lambda>n.
       if n then init_default b
       else guardE (\<not> stolen b) AssertFault (Inr (b\<lparr>content := []\<rparr>)))"

definition terminate :: "mem_buf \<Rightarrow> mem_buf outcome" where
  "terminate b = guardE (contentSize b < capacity b) AssertFault (Inr b)"

definition consume :: "nat \<Rightarrow> mem_buf \<Rightarrow> mem_buf outcome" where
  "consume shiftSize b =
     guardE (shiftSize \<le> contentSize b) AssertFault
       (guardE (\<not> stolen b) AssertFault
         (if shiftSize > 0 then terminate (b\<lparr>content := drop shiftSize (content b)\<rparr>) else Inr b))"

definition truncate :: "nat \<Rightarrow> mem_buf \<Rightarrow> mem_buf outcome" where
  "truncate tailSize b =
     guardE (tailSize \<le> contentSize b) AssertFault
       (guardE (\<not> stolen b) AssertFault
         (Inr (b\<lparr>content := take (contentSize b - tailSize) (content b)\<rparr>)))"

text \<open>The argument is the data an external writer put into the space after the content.\<close>

definition appended :: "char list \<Rightarrow> mem_buf \<Rightarrow> mem_buf outcome" where
  "appended written b =
     guardE (contentSize b + length written \<le> capacity b) AssertFault
       (terminate (b\<lparr>content := content b @ written\<rparr>))"

definition mem_append :: "char list \<Rightarrow> mem_buf \<Rightarrow> mem_buf outcome" where
  "mem_append newContent b =
     guardE (capacity b \<noteq> 0 \<or> contentSize b = 0) AssertFault
       (guardE (\<not> stolen b) AssertFault
         (let sz = length newContent
          in if sz > 0 then
               bindE (if contentSize b + sz + 1 > capacity b then grow (contentSize b + sz + 1) b else Inr b) (\<lambda>b'.
                 guardE (contentSize b' + sz \<le> capacity b') AssertFault (appended newContent b'))
             else Inr b))"

definition freeFunc :: "mem_buf \<Rightarrow> mem_buf outcome" where
  "freeFunc b =
     guardE (capacity b \<noteq> 0) AssertFault
       (guardE (\<not> stolen b) AssertFault (Inr (b\<lparr>stolen := True\<rparr>)))"

section \<open>The buffer invariant\<close>

text \<open>An initialised buffer that was not given away: the content and its terminator fit.\<close>

definition mem_buf_ok :: "mem_buf \<Rightarrow> bool" where
  "mem_buf_ok b \<longleftrightarrow> \<not> stolen b \<and> contentSize b < capacity b \<and> 0 < max_capacity b"

lemma gross_ge: "n \<le> memFindBufSizeType n"
  by (simp add: memFindBufSizeType_def)

lemma gross_pos: "0 < memFindBufSizeType n"
  by (simp add: memFindBufSizeType_def)

lemma grow_steps_ge: "min_cap \<le> grow_steps min_cap new_cap"
proof (induction min_cap new_cap rule: grow_steps.induct)
  case (1 min_cap new_cap)
  then show ?case by (subst grow_steps.simps) simp
qed

lemma next_capacity_bounds: "min_cap \<le> limit \<Longrightarrow> min_cap \<le> next_capacity min_cap limit \<and> next_capacity min_cap limit \<le> limit"
  using grow_steps_ge [of min_cap "64 * 1024"] by (simp add: next_capacity_def Let_def)

lemma next_capacity_le: "next_capacity min_cap limit \<le> limit"
  by (simp add: next_capacity_def Let_def)

lemma grow_ok:
  assumes "\<not> stolen b" "capacity b < min_cap" "min_cap \<le> max_capacity b" "contentSize b \<le> capacity b"
  shows "\<exists>cap. grow min_cap b = Inr (b\<lparr>capacity := cap\<rparr>) \<and> min_cap \<le> cap"
proof -
  note nc = next_capacity_bounds [OF assms(3)]
  have "take (min (capacity b) (next_capacity min_cap (max_capacity b))) (content b) = content b"
    using assms nc by (simp add: contentSize_def)
  moreover have "min_cap \<le> memFindBufSizeType (next_capacity min_cap (max_capacity b))"
    using nc gross_ge order_trans by blast
  ultimately show ?thesis
    using assms nc by (auto simp: grow_def Let_def memReallocBuf_def)
qed

lemma append_ok:
  assumes "mem_buf_ok b" "length xs \<le> max (spaceSize b) (potentialSpaceSize b)"
  shows "\<exists>cap. mem_append xs b = Inr (b\<lparr>content := content b @ xs, capacity := cap\<rparr>) \<and>
    contentSize b + length xs < cap \<and> (length xs \<le> spaceSize b \<longrightarrow> cap = capacity b)"
proof (cases "xs = [] \<or> contentSize b + length xs + 1 \<le> capacity b")
  case True
  then have "mem_append xs b = Inr (b\<lparr>content := content b @ xs, capacity := capacity b\<rparr>)"
    using assms(1) by (auto simp: mem_append_def mem_buf_ok_def appended_def terminate_def contentSize_def Let_def not_less guardE_def)
  then show ?thesis using True assms(1) by (intro exI [of _ "capacity b"]) (auto simp: mem_buf_ok_def)
next
  case False
  then have l: "length xs \<le> potentialSpaceSize b" "\<not> length xs \<le> spaceSize b" and nonempty: "0 < length xs"
    using assms by (auto simp: spaceSize_def Let_def mem_buf_ok_def split: if_splits)
  then have "contentSize b + length xs + 1 \<le> max_capacity b"
    using False by (auto simp: potentialSpaceSize_def Let_def split: if_splits)
  then obtain cap where g: "grow (contentSize b + length xs + 1) b = Inr (b\<lparr>capacity := cap\<rparr>)"
    "contentSize b + length xs + 1 \<le> cap"
    using grow_ok [of b "contentSize b + length xs + 1"] assms(1) False by (auto simp: mem_buf_ok_def)
  then show ?thesis
    using assms(1) False l
    by (intro exI [of _ cap]) (auto simp: mem_append_def mem_buf_ok_def appended_def terminate_def contentSize_def Let_def guardE_def)
qed

lemma consume_ok:
  assumes "mem_buf_ok b" "n \<le> contentSize b"
  shows "consume n b = Inr (b\<lparr>content := drop n (content b)\<rparr>)"
  using assms by (auto simp: consume_def terminate_def mem_buf_ok_def contentSize_def guardE_def)

lemma init_sizes_ok:
  assumes "0 < szInit" "0 < szMax"
  shows "\<exists>b'. init_sizes szInit szMax b = Inr b' \<and> mem_buf_ok b' \<and> content b' = [] \<and> max_capacity b' = szMax"
proof -
  have "0 < next_capacity szInit szMax"
    using assms grow_steps_ge [of szInit "64 * 1024"] by (auto simp: next_capacity_def Let_def)
  with assms show ?thesis
    by (simp add: init_sizes_def grow_def Let_def memReallocBuf_def next_capacity_le mem_buf_ok_def contentSize_def gross_pos)
qed

section \<open>The interface of an output buffer\<close>

text \<open>
  What a parser relies on when it copies into an output buffer: as many bytes as the buffer
  announces can be appended, and nothing else changes.
\<close>

locale byte_sink =
  fixes good :: "'s \<Rightarrow> bool"
    and stored :: "'s \<Rightarrow> char list"
    and room :: "'s \<Rightarrow> nat"
    and put :: "char list \<Rightarrow> 's \<Rightarrow> 's outcome"
  assumes put_ok: "good s \<Longrightarrow> length xs \<le> room s \<Longrightarrow>
    \<exists>s'. put xs s = Inr s' \<and> good s' \<and> stored s' = stored s @ xs \<and> room s' = room s - length xs"
begin

lemma put_what_fits:
  assumes "good s"
  shows "\<exists>s'. put (take (min n (room s)) xs) s = Inr s' \<and> good s' \<and>
    stored s' = stored s @ take (min n (room s)) xs \<and>
    (room s < min n (length xs) \<longrightarrow> room s' = 0)"
  using put_ok [OF assms, of "take (min n (room s)) xs"] by fastforce

end

lemma append_potential:
  assumes "mem_buf_ok b" "length xs \<le> potentialSpaceSize b"
  shows "\<exists>b'. mem_append xs b = Inr b' \<and> mem_buf_ok b' \<and> content b' = content b @ xs \<and>
    potentialSpaceSize b' = potentialSpaceSize b - length xs"
proof -
  obtain cap where "mem_append xs b = Inr (b\<lparr>content := content b @ xs, capacity := cap\<rparr>)"
    "contentSize b + length xs < cap"
    using append_ok [OF assms(1) le_trans [OF assms(2) max.cobounded2]] by blast
  then show ?thesis
    using assms by (auto simp: mem_buf_ok_def contentSize_def potentialSpaceSize_def Let_def split: if_splits)
qed

interpretation mb: byte_sink mem_buf_ok content potentialSpaceSize mem_append
  by unfold_locales (rule append_potential)

text \<open>
  An initialised buffer takes, without failing an assertion, any data that fits the space it
  announces, with or without growth: the data follows the old content, the invariant (content and
  terminator fit the capacity) holds again, and an append within \<^verbatim>\<open>spaceSize()\<close> never grows the
  buffer.  \<^verbatim>\<open>init()\<close> establishes the invariant for every pair of positive sizes.
\<close>
theorem mem_buf_append_safe:
  "(mem_buf_ok b \<and> length xs \<le> max (spaceSize b) (potentialSpaceSize b) \<longrightarrow>
      (\<exists>b'. mem_append xs b = Inr b' \<and> mem_buf_ok b' \<and> content b' = content b @ xs \<and> max_capacity b' = max_capacity b \<and>
        (length xs \<le> spaceSize b \<longrightarrow> capacity b' = capacity b))) \<and>
   (0 < szInit \<and> 0 < szMax \<longrightarrow>
      (\<exists>b'. init_sizes szInit szMax b = Inr b' \<and> mem_buf_ok b' \<and> content b' = [] \<and> max_capacity b' = szMax))"
proof (intro conjI impI, goal_cases)
  case 1
  then show ?case
    using append_ok [of b xs] by (auto simp: mem_buf_ok_def contentSize_def)
next
  case 2
  then show ?case by (intro init_sizes_ok) auto
qed

theorem mem_buf_append_safe_witness:
  "\<exists>b'. mem_append ''squid'' \<lparr>content = ''hello '', max_capacity = 12, capacity = 8, stolen = False\<rparr> = Inr b' \<and>
     content b' = ''hello squid''"
  using mem_buf_append_safe [of "\<lparr>content = ''hello '', max_capacity = 12, capacity = 8, stolen = False\<rparr>" "''squid''" 0 0]
  by (fastforce simp: mem_buf_ok_def contentSize_def potentialSpaceSize_def spaceSize_def)

end
