(* ===== verification/Chunked_Parser.thy ===== *)
theory Chunked_Parser
  imports Squid_Prelude Http_Range Mem_Buf
begin

text \<open>
  The incremental parser of the chunked transfer coding, \<^verbatim>\<open>src/ChunkedCodingParser.cc\<close>, with the number
  parser of \<^verbatim>\<open>src/Parsing.cc\<close>.  The member function pointer \<^verbatim>\<open>theStep\<close> is a datatype; input and output are the
  buffers of \<^verbatim>\<open>MemBuf\<close>.  Pointers into the input buffer are the list of the characters from there to the
  end of the content; reading one past the content yields the terminating zero that the buffer keeps there.
\<close>

section \<open>Numbers\<close>

definition xisxdigit :: "char \<Rightarrow> bool" where
  "xisxdigit c = (is_digit c \<or> ((97::nat) \<le> of_char c \<and> (of_char c :: nat) \<le> 102) \<or> ((65::nat) \<le> of_char c \<and> (of_char c :: nat) \<le> 70))"

definition digit_value :: "char \<Rightarrow> int" where
  "digit_value c =
     (if is_digit c then int (of_char c) - 48
      else if (97::nat) \<le> of_char c then int (of_char c) - 87 else int (of_char c) - 55)"

definition base_digit :: "nat \<Rightarrow> char \<Rightarrow> bool" where
  "base_digit base c = (xisxdigit c \<and> digit_value c < int base)"

definition base_value :: "nat \<Rightarrow> string \<Rightarrow> int" where
  "base_value base ds = foldl (\<lambda>a c. int base * a + digit_value c) 0 ds"

text \<open>
  The C library's \<^verbatim>\<open>strtoll(s, &ptr, base)\<close> for bases 10 and 16: the saturated value and the rest of the
  string at \<^verbatim>\<open>ptr\<close>, which is the whole string when there is no digit.
\<close>

definition skip_hex_prefix :: "nat \<Rightarrow> string \<Rightarrow> string" where
  "skip_hex_prefix base s =
     (case s of
        a # b # c # r \<Rightarrow>
          if base = 16 \<and> a = CHR ''0'' \<and> (b = CHR ''x'' \<or> b = CHR ''X'') \<and> xisxdigit c then c # r else s
      | _ \<Rightarrow> s)"

definition strtoll_base :: "nat \<Rightarrow> string \<Rightarrow> (int \<times> string)" where
  "strtoll_base base s =
     (let t = dropWhile xisspace s;
          neg = (t \<noteq> [] \<and> hd t = CHR ''-'');
          u = skip_hex_prefix base (if t \<noteq> [] \<and> (hd t = CHR ''-'' \<or> hd t = CHR ''+'') then tl t else t);
          ds = takeWhile (base_digit base) u;
          v = base_value base ds
      in if ds = [] then (0, s)
         else (max int64_min (min int64_max (if neg then - v else v)), dropWhile (base_digit base) u))"

definition StringToInt64 :: "nat \<Rightarrow> string \<Rightarrow> (int \<times> string) option" where
  "StringToInt64 base s =
     (let (h, ptr) = strtoll_base base s in if ptr \<noteq> s then Some (h, ptr) else None)"

section \<open>State\<close>

datatype chunk_step =
    psChunkSize | psUnusedChunkExtension | psLastChunkExtension | psChunkBody | psChunkEnd | psTrailer | psMessageEnd

record chunked_parser =
  theIn :: mem_buf
  theOut :: mem_buf
  theStep :: chunk_step
  theChunkSize :: nat
  theLeftBodySize :: nat
  doNeedMoreData :: bool
  inQuoted :: bool
  inSlashed :: bool
  useOriginBody :: int

definition parser_reset :: chunked_parser where
  "parser_reset = \<lparr>theIn = new_mem_buf, theOut = new_mem_buf, theStep = psChunkSize, theChunkSize = 0, theLeftBodySize = 0,
     doNeedMoreData = False, inQuoted = False, inSlashed = False, useOriginBody = -1\<rparr>"

definition needsMoreData :: "chunked_parser \<Rightarrow> bool" where
  "needsMoreData st = doNeedMoreData st"

definition needsMoreSpace :: "chunked_parser \<Rightarrow> bool" where
  "needsMoreSpace st = (theStep st = psChunkBody \<and> \<not> hasPotentialSpace (theOut st))"

definition mayContinue :: "chunked_parser \<Rightarrow> bool" where
  "mayContinue st = (\<not> needsMoreData st \<and> \<not> needsMoreSpace st \<and> theStep st \<noteq> psMessageEnd)"

section \<open>Finding the end of a line\<close>

text \<open>
  The scanning loop: position, offset of a pending CR, quoting state and the rest of the input;
  the result has the start and the end of the line break, if one was found, and the quoting state.
\<close>

fun crlf_loop :: "nat \<Rightarrow> nat option \<Rightarrow> bool \<Rightarrow> bool \<Rightarrow> string \<Rightarrow> ((nat \<times> nat) option \<times> bool \<times> bool)" where
  "crlf_loop i crOff quoted slashed [] = (None, quoted, slashed)"
| "crlf_loop i crOff quoted slashed (c # r) =
     (if slashed then crlf_loop (i + 1) crOff quoted False r
      else if quoted then
        (if c = CHR 0x5C then crlf_loop (i + 1) crOff quoted True r
         else if c = CHR 0x22 then crlf_loop (i + 1) crOff False slashed r
         else crlf_loop (i + 1) crOff quoted slashed r)
      else if c = CHR 0x22 then crlf_loop (i + 1) None True slashed r
      else case crOff of
        None \<Rightarrow>
          if c = CHR 0x0A then (Some (i, i + 1), quoted, slashed)
          else crlf_loop (i + 1) (if c = CHR 0x0D then Some i else None) quoted slashed r
      | Some k \<Rightarrow>
          if c = CHR 0x0A then (Some (k, i + 1), quoted, slashed)
          else crlf_loop (i + 1) (if c \<noteq> CHR 0x0D then None else Some k) quoted slashed r)"

definition findCrlf_state :: "chunked_parser \<Rightarrow> bool \<Rightarrow> bool \<Rightarrow> ((nat \<times> nat) option \<times> bool \<times> bool)" where
  "findCrlf_state st quoted slashed = crlf_loop 0 None quoted slashed (content (theIn st))"

definition findCrlf :: "chunked_parser \<Rightarrow> (nat \<times> nat) option" where
  "findCrlf st = fst (findCrlf_state st False False)"

definition consume_in :: "nat \<Rightarrow> chunked_parser \<Rightarrow> chunked_parser outcome" where
  "consume_in n st = bindE (consume n (theIn st)) (\<lambda>b. Inr (st\<lparr>theIn := b\<rparr>))"

section \<open>Parsing steps\<close>

definition parseChunkSize :: "chunked_parser \<Rightarrow> chunked_parser outcome" where
  "parseChunkSize st =
     guardE (theChunkSize st \<le> 0) MustFault
       (let p = dropWhile xisxdigit (content (theIn st))
        in if p = [] then Inr (st\<lparr>doNeedMoreData := True\<rparr>)
           else case StringToInt64 16 (content (theIn st)) of
             None \<Rightarrow> Inl (ThrowText ''corrupted chunk size'')
           | Some (sz, p') \<Rightarrow>
               if sz < 0 then Inl (ThrowText ''negative chunk size'')
               else let st' = st\<lparr>theChunkSize := nat sz, theLeftBodySize := nat sz\<rparr>
                    in if nat sz \<noteq> 0 then Inr (st'\<lparr>theStep := psUnusedChunkExtension\<rparr>)
                       else bindE (consume_in (contentSize (theIn st) - length p') st')
                              (\<lambda>st''. Inr (st''\<lparr>theStep := psLastChunkExtension\<rparr>)))"

definition parseUnusedChunkExtension :: "chunked_parser \<Rightarrow> chunked_parser outcome" where
  "parseUnusedChunkExtension st =
     (case findCrlf_state st (inQuoted st) (inSlashed st) of
        (Some (crlfBeg, crlfEnd), _, _) \<Rightarrow>
          bindE (consume_in crlfEnd (st\<lparr>inQuoted := False, inSlashed := False\<rparr>)) (\<lambda>st'.
            Inr (st'\<lparr>theStep := if theChunkSize st' \<noteq> 0 then psChunkBody else psTrailer\<rparr>))
      | (None, quoted, slashed) \<Rightarrow>
          bindE (consume_in (contentSize (theIn st)) (st\<lparr>inQuoted := quoted, inSlashed := slashed\<rparr>)) (\<lambda>st'.
            Inr (st'\<lparr>doNeedMoreData := True\<rparr>)))"

definition parseChunkBody :: "chunked_parser \<Rightarrow> chunked_parser outcome" where
  "parseChunkBody st =
     guardE (theLeftBodySize st > 0) MustFault
       (let availSize = min (theLeftBodySize st) (contentSize (theIn st));
            safeSize = min availSize (potentialSpaceSize (theOut st));
            st' = st\<lparr>doNeedMoreData := (availSize < theLeftBodySize st)\<rparr>
        in bindE (mem_append (take safeSize (content (theIn st'))) (theOut st')) (\<lambda>out.
           bindE (consume_in safeSize (st'\<lparr>theOut := out\<rparr>)) (\<lambda>st2.
             let st3 = st2\<lparr>theLeftBodySize := theLeftBodySize st2 - safeSize\<rparr>
             in if theLeftBodySize st3 = 0 then Inr (st3\<lparr>theStep := psChunkEnd\<rparr>)
                else guardE (needsMoreData st3 \<or> needsMoreSpace st3) MustFault (Inr st3))))"

definition parseChunkEnd :: "chunked_parser \<Rightarrow> chunked_parser outcome" where
  "parseChunkEnd st =
     guardE (theLeftBodySize st = 0) MustFault
       (case findCrlf st of
          Some (crlfBeg, crlfEnd) \<Rightarrow>
            if crlfBeg \<noteq> 0 then Inl (ThrowText ''found data between chunk end and CRLF'')
            else bindE (consume_in crlfEnd st) (\<lambda>st'. Inr (st'\<lparr>theChunkSize := 0, theStep := psChunkSize\<rparr>))
        | None \<Rightarrow> Inr (st\<lparr>doNeedMoreData := True\<rparr>))"

definition parseTrailerHeader :: "chunked_parser \<Rightarrow> chunked_parser outcome" where
  "parseTrailerHeader st =
     (case findCrlf st of
        Some (crlfBeg, crlfEnd) \<Rightarrow>
          bindE (consume_in crlfEnd st) (\<lambda>st'. Inr (if crlfBeg = 0 then st'\<lparr>theStep := psMessageEnd\<rparr> else st'))
      | None \<Rightarrow> Inr (st\<lparr>doNeedMoreData := True\<rparr>))"

definition peek :: "string \<Rightarrow> char" where
  "peek p = (case p of [] \<Rightarrow> CHR 0x00 | c # _ \<Rightarrow> c)"

definition skip_blanks :: "string \<Rightarrow> string" where
  "skip_blanks p = dropWhile (\<lambda>c. c = CHR '' '' \<or> c = CHR 0x09) p"

text \<open>
  The loop over the extensions of the last chunk: \<^verbatim>\<open>left\<close> is the number of characters from \<^verbatim>\<open>endExt\<close> to the end of the
  content, so that \<^verbatim>\<open>p < endExt\<close> reads \<^verbatim>\<open>length p > left\<close>.
\<close>

function ext_loop :: "nat \<Rightarrow> string \<Rightarrow> int \<Rightarrow> int" where
  "ext_loop left p uob =
     (if \<not> left < length p then uob
      else let q = skip_blanks p
           in if peek q \<noteq> CHR '';'' then uob
              else let n = skip_blanks (drop 1 q)
                   in if length n \<le> left then uob
                      else if length n - left > 18 \<and> take 18 n = ''use-original-body='' then
                        (case StringToInt64 10 (drop 18 n) of Some (v, _) \<Rightarrow> v | None \<Rightarrow> uob)
                      else ext_loop left (drop (length (takeWhile (\<lambda>c. c \<noteq> CHR '';'') (take (length n - left) n))) n) uob)"
  by pat_completeness auto

lemma skip_blanks_length: "length (skip_blanks p) \<le> length p"
  by (simp add: skip_blanks_def length_dropWhile_le)

termination ext_loop
proof (relation "measure (\<lambda>(_, p, _). length p)", goal_cases)
  case (2 left p uob q n)
  then have "q \<noteq> []" by (auto simp: peek_def)
  then have "length n < length p"
    using 2 skip_blanks_length [of p] skip_blanks_length [of "drop 1 q"] by (cases q) auto
  then show ?case by simp
qed simp

declare ext_loop.simps [simp del]

definition parseLastChunkExtension :: "chunked_parser \<Rightarrow> chunked_parser outcome" where
  "parseLastChunkExtension st =
     (case findCrlf st of
        None \<Rightarrow> Inr (st\<lparr>doNeedMoreData := True\<rparr>)
      | Some (crlfBeg, crlfEnd) \<Rightarrow>
          let uob = ext_loop (contentSize (theIn st) - crlfBeg) (content (theIn st)) (useOriginBody st)
          in bindE (consume_in crlfEnd (st\<lparr>useOriginBody := uob\<rparr>)) (\<lambda>st'.
               Inr (st'\<lparr>theStep := if theChunkSize st' \<noteq> 0 then psChunkBody else psTrailer\<rparr>)))"

section \<open>The parsing loops\<close>

definition parse_measure :: "chunked_parser \<Rightarrow> nat" where
  "parse_measure st =
     (if doNeedMoreData st then 0
      else Suc (2 * length (content (theIn st)) + (if theStep st = psChunkSize then 1 else 0)))"

lemma crlf_loop_bounds:
  "crlf_loop i crOff quoted slashed xs = (Some (b, e), q, s) \<Longrightarrow> i < e \<and> e \<le> i + length xs"
proof (induction i crOff quoted slashed xs rule: crlf_loop.induct)
  case (2 i crOff quoted slashed c r)
  then show ?case by (cases crOff) (simp split: if_splits; force)+
qed simp

lemma findCrlf_bounds: "findCrlf st = Some (b, e) \<Longrightarrow> 0 < e \<and> e \<le> length (content (theIn st))"
  using crlf_loop_bounds [of 0 None False False "content (theIn st)" b e]
  by (auto simp: findCrlf_def findCrlf_state_def prod_eq_iff)

lemma findCrlf_state_bounds: "findCrlf_state st q s = (Some (b, e), q', s') \<Longrightarrow> 0 < e \<and> e \<le> length (content (theIn st))"
  using crlf_loop_bounds [of 0 None q s "content (theIn st)" b e] by (auto simp: findCrlf_state_def)

lemma consume_in_Inr:
  "consume_in n st = Inr st' \<Longrightarrow>
   n \<le> length (content (theIn st)) \<and> st' = st\<lparr>theIn := (theIn st)\<lparr>content := drop n (content (theIn st))\<rparr>\<rparr>"
  by (auto simp: consume_in_def consume_def terminate_def contentSize_def outcome_simps split: if_splits)

lemma consume_in_shrinks:
  "consume_in n st = Inr st' \<Longrightarrow> 0 < n \<Longrightarrow> length (content (theIn st')) < length (content (theIn st))"
  by (auto dest: consume_in_Inr)

lemma measure_shrinks:
  "mayContinue st \<Longrightarrow> length (content (theIn st')) < length (content (theIn st)) \<Longrightarrow> parse_measure st' < parse_measure st"
  by (simp add: parse_measure_def mayContinue_def needsMoreData_def)

lemma measure_stops: "mayContinue st \<Longrightarrow> doNeedMoreData st' \<Longrightarrow> parse_measure st' < parse_measure st"
  by (simp add: parse_measure_def mayContinue_def needsMoreData_def)

lemma parseTrailerHeader_progress:
  assumes "mayContinue st" "parseTrailerHeader st = Inr st'"
  shows "parse_measure st' < parse_measure st"
proof (cases "findCrlf st")
  case None
  with assms show ?thesis by (auto simp: parseTrailerHeader_def intro: measure_stops)
next
  case (Some be)
  with assms obtain t where "consume_in (snd be) st = Inr t" "theIn st' = theIn t"
    by (auto simp: parseTrailerHeader_def outcome_simps split: prod.splits)
  with Some assms(1) show ?thesis
    using findCrlf_bounds [of st "fst be" "snd be"] consume_in_shrinks by (auto intro!: measure_shrinks)
qed

function trailer_loop :: "chunked_parser \<Rightarrow> chunked_parser outcome" where
  "trailer_loop st =
     (if mayContinue st
      then (case parseTrailerHeader st of Inl e \<Rightarrow> Inl e | Inr st' \<Rightarrow> trailer_loop st')
      else Inr st)"
  by pat_completeness auto

termination trailer_loop
  by (relation "measure parse_measure") (auto dest: parseTrailerHeader_progress)

declare trailer_loop.simps [simp del]

definition parseTrailer :: "chunked_parser \<Rightarrow> chunked_parser outcome" where
  "parseTrailer st = guardE (theChunkSize st = 0) MustFault (trailer_loop st)"

definition parseMessageEnd :: "chunked_parser \<Rightarrow> chunked_parser outcome" where
  "parseMessageEnd st = Inl MustFault"

definition parse_step :: "chunked_parser \<Rightarrow> chunked_parser outcome" where
  "parse_step st =
     (case theStep st of
        psChunkSize \<Rightarrow> parseChunkSize st
      | psUnusedChunkExtension \<Rightarrow> parseUnusedChunkExtension st
      | psLastChunkExtension \<Rightarrow> parseLastChunkExtension st
      | psChunkBody \<Rightarrow> parseChunkBody st
      | psChunkEnd \<Rightarrow> parseChunkEnd st
      | psTrailer \<Rightarrow> parseTrailer st
      | psMessageEnd \<Rightarrow> parseMessageEnd st)"

lemma trailer_loop_progress:
  "trailer_loop st = Inr st' \<Longrightarrow> (mayContinue st \<longrightarrow> parse_measure st' < parse_measure st) \<and> parse_measure st' \<le> parse_measure st"
proof (induction st rule: trailer_loop.induct)
  case (1 st)
  show ?case
  proof (cases "mayContinue st")
    case True
    with 1(2) obtain t where t: "parseTrailerHeader st = Inr t" "trailer_loop t = Inr st'"
      by (subst (asm) trailer_loop.simps) (auto split: sum.splits)
    then show ?thesis using 1(1) [OF True] parseTrailerHeader_progress [OF True] by fastforce
  next
    case False
    with 1(2) show ?thesis by (simp add: trailer_loop.simps)
  qed
qed

lemma StringToInt64_shorter:
  assumes "StringToInt64 base s = Some (v, p)"
  shows "length p < length s"
proof -
  have pre: "length (skip_hex_prefix base u) \<le> length u" for u
    by (auto simp: skip_hex_prefix_def split: list.splits)
  define t where "t = dropWhile xisspace s"
  define u where "u = skip_hex_prefix base (if t \<noteq> [] \<and> (hd t = CHR ''-'' \<or> hd t = CHR ''+'') then tl t else t)"
  have "length u \<le> length s"
    using pre [of "tl t"] pre [of t] length_dropWhile_le [of xisspace s] by (auto simp: u_def t_def)
  moreover have "length (dropWhile (base_digit base) u) < length u" if "takeWhile (base_digit base) u \<noteq> []"
  proof -
    have "length (takeWhile (base_digit base) u) + length (dropWhile (base_digit base) u) = length u"
      by (metis length_append takeWhile_dropWhile_id)
    moreover have "0 < length (takeWhile (base_digit base) u)" using that by simp
    ultimately show ?thesis by linarith
  qed
  ultimately show ?thesis
    using assms
    by (auto simp: StringToInt64_def strtoll_base_def Let_def t_def [symmetric] u_def [symmetric] split: if_splits)
qed

lemma parseChunkSize_progress:
  assumes "mayContinue st" "theStep st = psChunkSize" "parseChunkSize st = Inr st'"
  shows "parse_measure st' < parse_measure st"
proof (cases "StringToInt64 16 (content (theIn st))")
  case None
  with assms show ?thesis
    by (auto simp: parseChunkSize_def Let_def outcome_simps intro: measure_stops split: if_splits)
next
  case (Some vp)
  obtain v p where vp: "vp = (v, p)" by (cases vp)
  have short: "length p < length (content (theIn st))" using StringToInt64_shorter Some vp by blast
  consider "doNeedMoreData st'"
    | "st' = st\<lparr>theChunkSize := nat v, theLeftBodySize := nat v, theStep := psUnusedChunkExtension\<rparr>"
    | t where "consume_in (contentSize (theIn st) - length p) (st\<lparr>theChunkSize := nat v, theLeftBodySize := nat v\<rparr>) = Inr t"
        "theIn st' = theIn t"
    using assms(3) Some vp by (auto simp: parseChunkSize_def Let_def outcome_simps split: if_splits)
  then show ?thesis
  proof cases
    case 2
    with assms show ?thesis by (simp add: parse_measure_def mayContinue_def needsMoreData_def)
  next
    case (3 t)
    then have "length (content (theIn st')) < length (content (theIn st))"
      using short consume_in_shrinks [OF 3(1)] by (simp add: contentSize_def)
    with assms(1) show ?thesis by (rule measure_shrinks)
  qed (use assms(1) in \<open>rule measure_stops\<close>)
qed

lemma parseUnusedChunkExtension_progress:
  assumes "mayContinue st" "parseUnusedChunkExtension st = Inr st'"
  shows "parse_measure st' < parse_measure st"
proof (cases "findCrlf_state st (inQuoted st) (inSlashed st)")
  case (fields be q s)
  show ?thesis
  proof (cases be)
    case None
    with assms fields show ?thesis
      by (auto simp: parseUnusedChunkExtension_def outcome_simps intro: measure_stops)
  next
    case (Some x)
    with assms fields obtain t where "consume_in (snd x) (st\<lparr>inQuoted := False, inSlashed := False\<rparr>) = Inr t" "theIn st' = theIn t"
      by (auto simp: parseUnusedChunkExtension_def outcome_simps split: prod.splits)
    with Some fields assms(1) show ?thesis
      using findCrlf_state_bounds [of st "inQuoted st" "inSlashed st" "fst x" "snd x" q s]
        consume_in_shrinks [of "snd x" "st\<lparr>inQuoted := False, inSlashed := False\<rparr>" t]
      by (auto intro!: measure_shrinks)
  qed
qed

lemma parseLastChunkExtension_progress:
  assumes "mayContinue st" "parseLastChunkExtension st = Inr st'"
  shows "parse_measure st' < parse_measure st"
proof (cases "findCrlf st")
  case None
  with assms show ?thesis by (auto simp: parseLastChunkExtension_def intro: measure_stops)
next
  case (Some be)
  with assms obtain u t where t: "consume_in (snd be) (st\<lparr>useOriginBody := u\<rparr>) = Inr t" "theIn st' = theIn t"
    by (auto simp: parseLastChunkExtension_def outcome_simps Let_def split: prod.splits)
  with Some assms(1) show ?thesis
    using findCrlf_bounds [of st "fst be" "snd be"] consume_in_shrinks [OF t(1)] by (auto intro!: measure_shrinks)
qed

lemma parseChunkEnd_progress:
  assumes "mayContinue st" "parseChunkEnd st = Inr st'"
  shows "parse_measure st' < parse_measure st"
proof (cases "findCrlf st")
  case None
  with assms show ?thesis by (auto simp: parseChunkEnd_def outcome_simps intro: measure_stops)
next
  case (Some be)
  with assms obtain t where "consume_in (snd be) st = Inr t" "theIn st' = theIn t"
    by (auto simp: parseChunkEnd_def outcome_simps split: prod.splits if_splits)
  with Some assms(1) show ?thesis
    using findCrlf_bounds [of st "fst be" "snd be"] consume_in_shrinks by (auto intro!: measure_shrinks)
qed

lemma parseChunkBody_Inr:
  assumes "parseChunkBody st = Inr st'"
  shows "0 < theLeftBodySize st \<and>
    (\<exists>t out. consume_in (min (min (theLeftBodySize st) (contentSize (theIn st))) (potentialSpaceSize (theOut st)))
         (st\<lparr>doNeedMoreData := min (theLeftBodySize st) (contentSize (theIn st)) < theLeftBodySize st, theOut := out\<rparr>) = Inr t \<and>
       theIn st' = theIn t \<and> doNeedMoreData st' = doNeedMoreData t)"
  using assms unfolding parseChunkBody_def Let_def outcome_simps
  by (elim conjE exE) (auto simp: outcome_simps split: if_splits)

lemma parseChunkBody_progress:
  assumes "mayContinue st" "theStep st = psChunkBody" "parseChunkBody st = Inr st'"
  shows "parse_measure st' < parse_measure st"
proof -
  from parseChunkBody_Inr [OF assms(3)] obtain t out where t: "0 < theLeftBodySize st"
    "consume_in (min (min (theLeftBodySize st) (contentSize (theIn st))) (potentialSpaceSize (theOut st)))
       (st\<lparr>doNeedMoreData := min (theLeftBodySize st) (contentSize (theIn st)) < theLeftBodySize st, theOut := out\<rparr>) = Inr t"
    "theIn st' = theIn t" "doNeedMoreData st' = doNeedMoreData t" by blast
  have space: "0 < potentialSpaceSize (theOut st)"
    using assms(1,2) by (simp add: mayContinue_def needsMoreSpace_def hasPotentialSpace_def)
  show ?thesis
  proof (cases "contentSize (theIn st) = 0")
    case True
    then have "doNeedMoreData st'" using t consume_in_Inr [OF t(2)] by simp
    with assms(1) show ?thesis by (rule measure_stops)
  next
    case False
    then have "length (content (theIn st')) < length (content (theIn st))"
      using t(1,3) space consume_in_shrinks [OF t(2)] by simp
    with assms(1) show ?thesis by (rule measure_shrinks)
  qed
qed

lemma parse_step_progress:
  assumes "mayContinue st" "parse_step st = Inr st'"
  shows "parse_measure st' < parse_measure st"
  using assms trailer_loop_progress [of st st'] parseChunkSize_progress [of st st'] parseChunkBody_progress [of st st']
    parseUnusedChunkExtension_progress [of st st'] parseLastChunkExtension_progress [of st st'] parseChunkEnd_progress [of st st']
  by (cases "theStep st") (auto simp: parse_step_def parseTrailer_def parseMessageEnd_def outcome_simps)

function parse_loop :: "chunked_parser \<Rightarrow> chunked_parser outcome" where
  "parse_loop st =
     (if mayContinue st
      then (case parse_step st of Inl e \<Rightarrow> Inl e | Inr st' \<Rightarrow> parse_loop st')
      else Inr st)"
  by pat_completeness auto

termination parse_loop
  by (relation "measure parse_measure") (auto dest: parse_step_progress)

declare parse_loop.simps [simp del]

text \<open>\<^verbatim>\<open>parse()\<close> is called with the caller's buffers and leaves them changed in the state.\<close>

definition parse :: "mem_buf \<Rightarrow> mem_buf \<Rightarrow> chunked_parser \<Rightarrow> (bool \<times> chunked_parser) outcome" where
  "parse rawData parsedContent st =
     bindE (parse_loop (st\<lparr>theIn := rawData, theOut := parsedContent, doNeedMoreData := \<not> hasContent rawData\<rparr>))
       (\<lambda>st'. Inr (theStep st' = psMessageEnd, st'))"

end
