(* ===== verification/Chunked_Decoding.thy ===== *)
theory Chunked_Decoding
  imports Chunked_Parser
begin

text \<open>
  Correctness of the chunked coding parser: for every well-formed body, cut into segments in any way,
  feeding the segments to the parser yields exactly the data of the chunks and leaves what follows the
  body in the input buffer.
\<close>

section \<open>The grammar of a chunked body\<close>

text \<open>
  A chunk is a size line (hexadecimal digits, then an extension that is empty or starts with a
  semicolon and has no quoted string) and its data; the last chunk has size zero and is followed by
  trailer lines and an empty line.
\<close>

abbreviation CRLF :: string where
  "CRLF \<equiv> [CHR 0x0D, CHR 0x0A]"

definition line_ok :: "string \<Rightarrow> bool" where
  "line_ok l \<longleftrightarrow> CHR 0x0A \<notin> set l \<and> CHR 0x22 \<notin> set l"

record data_chunk =
  size_digits :: string
  chunk_ext :: string
  chunk_data :: string

definition chunk_ok :: "data_chunk \<Rightarrow> bool" where
  "chunk_ok c \<longleftrightarrow>
     size_digits c \<noteq> [] \<and> list_all xisxdigit (size_digits c) \<and>
     base_value 16 (size_digits c) = int (length (chunk_data c)) \<and> int (length (chunk_data c)) \<le> int64_max \<and>
     line_ok (chunk_ext c) \<and> (chunk_ext c = [] \<or> hd (chunk_ext c) = CHR '';'')"

definition trailer_ok :: "string \<Rightarrow> bool" where
  "trailer_ok t \<longleftrightarrow> t \<noteq> [] \<and> hd t \<noteq> CHR 0x0D \<and> line_ok t"

definition encode_chunk :: "data_chunk \<Rightarrow> string" where
  "encode_chunk c = size_digits c @ chunk_ext c @ CRLF @ chunk_data c @ CRLF"

definition encode_chunks :: "data_chunk list \<Rightarrow> string" where
  "encode_chunks cs = concat (map encode_chunk cs)"

definition encode_trailers :: "string list \<Rightarrow> string" where
  "encode_trailers ts = concat (map (\<lambda>t. t @ CRLF) ts) @ CRLF"

text \<open>The whole body: data chunks, the last chunk (whose data is empty) and the trailer.\<close>

definition encode_body :: "data_chunk list \<Rightarrow> data_chunk \<Rightarrow> string list \<Rightarrow> string" where
  "encode_body cs z ts = encode_chunks cs @ size_digits z @ chunk_ext z @ CRLF @ encode_trailers ts"

definition body_ok :: "data_chunk list \<Rightarrow> data_chunk \<Rightarrow> string list \<Rightarrow> bool" where
  "body_ok cs z ts \<longleftrightarrow>
     list_all (\<lambda>c. chunk_ok c \<and> chunk_data c \<noteq> []) cs \<and> chunk_ok z \<and> chunk_data z = [] \<and> list_all trailer_ok ts"

definition body_data :: "data_chunk list \<Rightarrow> string" where
  "body_data cs = concat (map chunk_data cs)"

section \<open>What each step finds at the front of the input\<close>

lemma crlf_plain_none: "line_ok xs \<Longrightarrow> crlf_loop i cr False False xs = (None, False, False)"
  by (induction xs arbitrary: i cr) (auto simp: line_ok_def split: option.splits)

lemma crlf_plain:
  "line_ok l \<Longrightarrow> \<exists>b. crlf_loop i cr False False (l @ CHR 0x0A # r) = (Some (b, i + length l + 1), False, False) \<and>
     (i \<le> b \<or> cr = Some b)"
proof (induction l arbitrary: i cr)
  case Nil
  then show ?case by (cases cr) auto
next
  case (Cons c l)
  then have c: "c \<noteq> CHR 0x0A" "c \<noteq> CHR 0x22" and l: "line_ok l" by (auto simp: line_ok_def)
  define cr' where "cr' = (case cr of None \<Rightarrow> if c = CHR 0x0D then Some i else None
    | Some k \<Rightarrow> if c \<noteq> CHR 0x0D then None else Some k)"
  have step: "crlf_loop i cr False False ((c # l) @ CHR 0x0A # r) = crlf_loop (i + 1) cr' False False (l @ CHR 0x0A # r)"
    using c by (simp add: cr'_def split: option.split)
  obtain b where b: "crlf_loop (i + 1) cr' False False (l @ CHR 0x0A # r) = (Some (b, i + 1 + length l + 1), False, False)"
    "i + 1 \<le> b \<or> cr' = Some b" using Cons.IH [OF l] by blast
  then have "i \<le> b \<or> cr = Some b"
    by (auto simp: cr'_def split: option.splits if_splits)
  with b step show ?case by simp
qed

lemma line_ok_simps [simp]:
  "line_ok []" "line_ok (c # l) \<longleftrightarrow> c \<noteq> CHR 0x0A \<and> c \<noteq> CHR 0x22 \<and> line_ok l"
  "line_ok (l @ l') \<longleftrightarrow> line_ok l \<and> line_ok l'"
  by (auto simp: line_ok_def)

lemma xdigit_not: "xisxdigit c \<Longrightarrow> c \<noteq> CHR 0x0A \<and> c \<noteq> CHR 0x0D \<and> c \<noteq> CHR 0x22 \<and> c \<noteq> CHR '';'' \<and> c \<noteq> CHR ''-'' \<and> c \<noteq> CHR ''+''
    \<and> c \<noteq> CHR ''x'' \<and> c \<noteq> CHR ''X'' \<and> \<not> xisspace c"
  by (auto simp: xisxdigit_def is_digit_def xisspace_def)

lemma xdigits_line_ok: "list_all xisxdigit ds \<Longrightarrow> line_ok ds"
  by (induction ds) (auto dest: xdigit_not)

lemma base_digit_16: "base_digit 16 = xisxdigit"
  by (auto simp: fun_eq_iff base_digit_def digit_value_def xisxdigit_def is_digit_def)

lemma xdigits_takeWhile:
  "list_all xisxdigit ds \<Longrightarrow> r = [] \<or> \<not> xisxdigit (hd r) \<Longrightarrow>
   takeWhile xisxdigit (ds @ r) = ds \<and> dropWhile xisxdigit (ds @ r) = r"
  by (induction ds) (cases r; auto)+

text \<open>A number that starts with a digit and is not written with a prefix is read up to its last digit.\<close>

lemma StringToInt64_hex:
  assumes ds: "ds \<noteq> []" "list_all xisxdigit ds" "base_value 16 ds = int n" "int n \<le> int64_max"
    and r: "r \<noteq> []" "\<not> xisxdigit (hd r)" "hd r \<noteq> CHR ''x''" "hd r \<noteq> CHR ''X''"
  shows "StringToInt64 16 (ds @ r) = Some (int n, r)"
proof -
  obtain d ds' where d: "ds = d # ds'" using ds(1) by (cases ds) auto
  have t: "dropWhile xisspace (ds @ r) = ds @ r" "hd (ds @ r) \<noteq> CHR ''-''" "hd (ds @ r) \<noteq> CHR ''+''"
    using ds(2) xdigit_not [of d] by (auto simp: d)
  have "skip_hex_prefix 16 (ds @ r) = ds @ r"
  proof (cases ds')
    case Nil
    then show ?thesis using r by (cases r) (auto simp: d skip_hex_prefix_def split: list.splits)
  next
    case (Cons e es)
    then show ?thesis using ds(2) xdigit_not [of e] by (auto simp: d skip_hex_prefix_def split: list.splits)
  qed
  then show ?thesis
    using t ds xdigits_takeWhile [OF ds(2), of r] r
    by (simp add: StringToInt64_def strtoll_base_def Let_def base_digit_16 int64_min_def)
qed

section \<open>The state of the parser and the input it awaits\<close>

text \<open>
  \<open>awaits st inp body rest\<close>: the parser in state \<open>st\<close> has still to see \<open>inp\<close> (in its buffer or later), of which the
  suffix \<open>rest\<close> does not belong to the body, and has still to output \<open>body\<close>.
\<close>

definition quiet :: "chunked_parser \<Rightarrow> bool" where
  "quiet st \<longleftrightarrow> \<not> inQuoted st \<and> \<not> inSlashed st"

inductive awaits :: "chunked_parser \<Rightarrow> string \<Rightarrow> string \<Rightarrow> string \<Rightarrow> bool" where
  at_size: "theStep st = psChunkSize \<Longrightarrow> quiet st \<Longrightarrow> theChunkSize st = 0 \<Longrightarrow> body_ok cs z ts \<Longrightarrow>
    awaits st (encode_body cs z ts @ rest) (body_data cs) rest"
| at_extension: "theStep st = psUnusedChunkExtension \<Longrightarrow> quiet st \<Longrightarrow> theChunkSize st = length data \<Longrightarrow> data \<noteq> [] \<Longrightarrow>
    theLeftBodySize st = length data \<Longrightarrow> line_ok l \<Longrightarrow> body_ok cs z ts \<Longrightarrow>
    awaits st (l @ CHR 0x0A # data @ CRLF @ encode_body cs z ts @ rest) (data @ body_data cs) rest"
| at_data: "theStep st = psChunkBody \<Longrightarrow> quiet st \<Longrightarrow> data \<noteq> [] \<Longrightarrow>
    theLeftBodySize st = length data \<Longrightarrow> body_ok cs z ts \<Longrightarrow>
    awaits st (data @ CRLF @ encode_body cs z ts @ rest) (data @ body_data cs) rest"
| at_end: "theStep st = psChunkEnd \<Longrightarrow> quiet st \<Longrightarrow> theLeftBodySize st = 0 \<Longrightarrow> body_ok cs z ts \<Longrightarrow>
    awaits st (CRLF @ encode_body cs z ts @ rest) (body_data cs) rest"
| at_last: "theStep st = psLastChunkExtension \<Longrightarrow> quiet st \<Longrightarrow> theChunkSize st = 0 \<Longrightarrow> line_ok l \<Longrightarrow> list_all trailer_ok ts \<Longrightarrow>
    awaits st (l @ CHR 0x0A # encode_trailers ts @ rest) [] rest"
| at_trailer: "theStep st = psTrailer \<Longrightarrow> quiet st \<Longrightarrow> theChunkSize st = 0 \<Longrightarrow> list_all trailer_ok ts \<Longrightarrow>
    awaits st (encode_trailers ts @ rest) [] rest"
| at_message_end: "theStep st = psMessageEnd \<Longrightarrow> awaits st rest [] rest"

inductive_cases awaitsE: "awaits st inp body rest"

text \<open>
  The parser's buffers and its position in the input: \<open>fut\<close> is the input that has not arrived yet.
\<close>

definition tracks :: "chunked_parser \<Rightarrow> string \<Rightarrow> string \<Rightarrow> string \<Rightarrow> string \<Rightarrow> bool" where
  "tracks st fut total_out rest body \<longleftrightarrow>
     awaits st (content (theIn st) @ fut) body rest \<and> content (theOut st) @ body = total_out \<and>
     mem_buf_ok (theIn st) \<and> mem_buf_ok (theOut st) \<and> (doNeedMoreData st \<longrightarrow> fut \<noteq> [] \<or> theStep st = psMessageEnd)"

section \<open>Each step keeps track\<close>

definition eaten :: "nat \<Rightarrow> chunked_parser \<Rightarrow> chunked_parser" where
  "eaten n st = st\<lparr>theIn := (theIn st)\<lparr>content := drop n (content (theIn st))\<rparr>\<rparr>"

lemma eaten_simps [simp]:
  "content (theIn (eaten n st)) = drop n (content (theIn st))" "theOut (eaten n st) = theOut st" "theStep (eaten n st) = theStep st"
  "theChunkSize (eaten n st) = theChunkSize st" "theLeftBodySize (eaten n st) = theLeftBodySize st"
  "doNeedMoreData (eaten n st) = doNeedMoreData st" "quiet (eaten n st) = quiet st"
  "max_capacity (theIn (eaten n st)) = max_capacity (theIn st)"
  by (simp_all add: eaten_def quiet_def)

lemma quiet_update [simp]:
  "quiet (st\<lparr>theStep := p\<rparr>) = quiet st" "quiet (st\<lparr>theChunkSize := n\<rparr>) = quiet st" "quiet (st\<lparr>theLeftBodySize := n\<rparr>) = quiet st"
  "quiet (st\<lparr>doNeedMoreData := b\<rparr>) = quiet st" "quiet (st\<lparr>theOut := ob\<rparr>) = quiet st" "quiet (st\<lparr>useOriginBody := u\<rparr>) = quiet st"
  "quiet (st\<lparr>theIn := ib\<rparr>) = quiet st"
  by (simp_all add: quiet_def)

lemma mem_buf_ok_eaten [simp]: "mem_buf_ok (theIn st) \<Longrightarrow> mem_buf_ok (theIn (eaten n st))"
  by (auto simp: eaten_def mem_buf_ok_def contentSize_def)

lemma consume_in_ok: "mem_buf_ok (theIn st) \<Longrightarrow> n \<le> length (content (theIn st)) \<Longrightarrow> consume_in n st = Inr (eaten n st)"
  by (simp add: consume_in_def consume_ok contentSize_def eaten_def)

lemma line_cases:
  assumes "buf @ fut = l @ c # tail"
  obtains (whole) buf' where "buf = l @ c # buf'" "buf' @ fut = tail"
  | (part) l' where "l = buf @ l'" "fut = l' @ c # tail"
  using assms by (auto simp: append_eq_append_conv2 append_eq_Cons_conv Cons_eq_append_conv)

text \<open>What a step establishes: the same stream, the same buffer limits and no new input.\<close>

definition kept :: "chunked_parser \<Rightarrow> chunked_parser \<Rightarrow> bool" where
  "kept st st' \<longleftrightarrow>
     max_capacity (theIn st') = max_capacity (theIn st) \<and> max_capacity (theOut st') = max_capacity (theOut st) \<and>
     length (content (theIn st')) \<le> length (content (theIn st))"

lemma kept_trans: "kept st st' \<Longrightarrow> kept st' st'' \<Longrightarrow> kept st st''"
  by (auto simp: kept_def)

lemma kept_refl [simp]: "kept st st"
  by (simp add: kept_def)

lemma body_ok_Cons: "body_ok (c # cs) z ts \<longleftrightarrow> chunk_ok c \<and> chunk_data c \<noteq> [] \<and> body_ok cs z ts"
  by (auto simp: body_ok_def)

lemma encode_body_Cons:
  "encode_body (c # cs) z ts = size_digits c @ chunk_ext c @ CRLF @ chunk_data c @ CRLF @ encode_body cs z ts"
  by (simp add: encode_body_def encode_chunks_def encode_chunk_def)

lemma encode_body_Nil: "encode_body [] z ts = size_digits z @ chunk_ext z @ CRLF @ encode_trailers ts"
  by (simp add: encode_body_def encode_chunks_def)

lemma body_data_Cons: "body_data (c # cs) = chunk_data c @ body_data cs"
  by (simp add: body_data_def)

lemma ext_front:
  assumes "chunk_ok c"
  obtains e es where "chunk_ext c @ CHR 0x0D # tail = e # es" "\<not> xisxdigit e" "e \<noteq> CHR ''x''" "e \<noteq> CHR ''X''"
  using assms by (cases "chunk_ext c") (auto simp: chunk_ok_def xisxdigit_def is_digit_def)

lemma parseChunkSize_reads:
  assumes "theChunkSize st = 0" "chunk_ok c" "content (theIn st) @ fut = size_digits c @ chunk_ext c @ CRLF @ tail"
  shows "(\<exists>d. size_digits c = content (theIn st) @ d \<and> parseChunkSize st = Inr (st\<lparr>doNeedMoreData := True\<rparr>)) \<or>
    (\<exists>r. content (theIn st) = size_digits c @ r \<and>
       parseChunkSize st =
         (let st' = st\<lparr>theChunkSize := length (chunk_data c), theLeftBodySize := length (chunk_data c)\<rparr>
          in if chunk_data c \<noteq> [] then Inr (st'\<lparr>theStep := psUnusedChunkExtension\<rparr>)
             else bindE (consume_in (length (size_digits c)) st') (\<lambda>st''. Inr (st''\<lparr>theStep := psLastChunkExtension\<rparr>))))"
proof -
  obtain e es where e: "chunk_ext c @ CHR 0x0D # CHR 0x0A # tail = e # es" "\<not> xisxdigit e" "e \<noteq> CHR ''x''" "e \<noteq> CHR ''X''"
    using ext_front [OF assms(2)] by blast
  have ds: "size_digits c \<noteq> []" "list_all xisxdigit (size_digits c)" "base_value 16 (size_digits c) = int (length (chunk_data c))"
    "int (length (chunk_data c)) \<le> int64_max" using assms(2) by (auto simp: chunk_ok_def)
  have "content (theIn st) @ fut = size_digits c @ e # es" using assms(3) e(1) by simp
  then show ?thesis
  proof (cases rule: line_cases)
    case (whole buf')
    have "StringToInt64 16 (content (theIn st)) = Some (int (length (chunk_data c)), e # buf')"
      using StringToInt64_hex [OF ds, of "e # buf'"] e whole(1) by simp
    moreover have "dropWhile xisxdigit (content (theIn st)) = e # buf'"
      using xdigits_takeWhile [OF ds(2), of "e # buf'"] e whole(1) by simp
    ultimately show ?thesis
      using whole assms(1) by (intro disjI2 exI [of _ "e # buf'"]) (simp add: parseChunkSize_def Let_def contentSize_def)
  next
    case (part l')
    have "dropWhile xisxdigit (content (theIn st)) = []"
      using ds(2) part(1) by (simp add: list_all_iff)
    then show ?thesis
      using part assms(1) by (intro disjI1 exI [of _ l']) (simp add: parseChunkSize_def)
  qed
qed

lemma awaits_mono:
  assumes "awaits st inp body rest"
    and "theStep st' = theStep st" "quiet st' = quiet st" "theChunkSize st' = theChunkSize st" "theLeftBodySize st' = theLeftBodySize st"
  shows "awaits st' inp body rest"
  using assms by (cases rule: awaits.cases) (auto intro: awaits.intros [unfolded append_Cons append_Nil])

lemma track_wait:
  assumes "tracks st fut out rest body" "parse_step st = Inr (st\<lparr>doNeedMoreData := True\<rparr>)" "fut \<noteq> []"
  shows "\<exists>st' body'. parse_step st = Inr st' \<and> tracks st' fut out rest body' \<and> kept st st'"
  using assms awaits_mono [of st _ body rest "st\<lparr>doNeedMoreData := True\<rparr>"]
  by (intro exI [of _ "st\<lparr>doNeedMoreData := True\<rparr>"] exI [of _ body]) (auto simp: tracks_def kept_def)

lemma track_size:
  assumes t: "tracks st fut out rest body" and s: "theStep st = psChunkSize" "\<not> doNeedMoreData st"
  shows "\<exists>st' body'. parse_step st = Inr st' \<and> tracks st' fut out rest body' \<and> kept st st'"
proof -
  obtain cs z ts where a: "quiet st" "theChunkSize st = 0" "body_ok cs z ts"
    "content (theIn st) @ fut = encode_body cs z ts @ rest" "body = body_data cs"
    using t s unfolding tracks_def by (auto elim!: awaits.cases)
  define c where "c = (case cs of [] \<Rightarrow> z | c # _ \<Rightarrow> c)"
  obtain tail where tail: "content (theIn st) @ fut = size_digits c @ chunk_ext c @ CRLF @ tail" and c: "chunk_ok c"
    using a(3,4) by (cases cs) (auto simp: c_def encode_body_Cons encode_body_Nil body_ok_def)
  then have line: "line_ok (size_digits c @ chunk_ext c @ [CHR 0x0D])"
    by (simp add: chunk_ok_def xdigits_line_ok)
  have step: "parse_step st = parseChunkSize st" using s by (simp add: parse_step_def)
  from parseChunkSize_reads [OF a(2) c tail] show ?thesis
  proof (elim disjE exE conjE)
    fix d assume "size_digits c = content (theIn st) @ d" "parseChunkSize st = Inr (st\<lparr>doNeedMoreData := True\<rparr>)"
    then show ?thesis using track_wait [OF t] step tail by auto
  next
    fix r
    assume r: "content (theIn st) = size_digits c @ r"
      and p: "parseChunkSize st =
         (let st' = st\<lparr>theChunkSize := length (chunk_data c), theLeftBodySize := length (chunk_data c)\<rparr>
          in if chunk_data c \<noteq> [] then Inr (st'\<lparr>theStep := psUnusedChunkExtension\<rparr>)
             else bindE (consume_in (length (size_digits c)) st') (\<lambda>st''. Inr (st''\<lparr>theStep := psLastChunkExtension\<rparr>)))"
    show ?thesis
    proof (cases cs)
      case (Cons c' cs')
      then have ok: "c = c'" "chunk_data c \<noteq> []" "body_ok cs' z ts" using a(3) by (auto simp: c_def body_ok_Cons)
      let ?st = "st\<lparr>theChunkSize := length (chunk_data c), theLeftBodySize := length (chunk_data c), theStep := psUnusedChunkExtension\<rparr>"
      have "awaits ?st ((size_digits c @ chunk_ext c @ [CHR 0x0D]) @ CHR 0x0A # chunk_data c @ CRLF @ encode_body cs' z ts @ rest)
          (chunk_data c @ body_data cs') rest"
        using ok line a(1) by (intro awaits.at_extension) auto
      then show ?thesis
        using t p step ok a(4,5) Cons s
        by (intro exI [of _ ?st] exI [of _ body]) (auto simp: tracks_def kept_def encode_body_Cons body_data_Cons)
    next
      case Nil
      then have ok: "c = z" "chunk_data c = []" "list_all trailer_ok ts" using a(3) by (auto simp: c_def body_ok_def)
      let ?st = "(eaten (length (size_digits c)) (st\<lparr>theChunkSize := 0, theLeftBodySize := 0\<rparr>))\<lparr>theStep := psLastChunkExtension\<rparr>"
      have "awaits ?st ((chunk_ext c @ [CHR 0x0D]) @ CHR 0x0A # encode_trailers ts @ rest) [] rest"
        using ok line a(1) by (intro awaits.at_last) auto
      moreover have "consume_in (length (size_digits c)) (st\<lparr>theChunkSize := 0, theLeftBodySize := 0\<rparr>) =
          Inr (eaten (length (size_digits c)) (st\<lparr>theChunkSize := 0, theLeftBodySize := 0\<rparr>))"
        using t r by (intro consume_in_ok) (auto simp: tracks_def)
      moreover have "r @ fut = chunk_ext c @ CRLF @ encode_trailers ts @ rest"
        using a(4) r Nil ok by (auto simp: encode_body_Nil)
      ultimately show ?thesis
        using t p step ok a(5) Nil s r
        by (intro exI [of _ ?st] exI [of _ "[]"]) (auto simp: tracks_def kept_def body_data_def)
    qed
  qed
qed

lemma findCrlf_line:
  assumes "content (theIn st) = l @ CHR 0x0A # r" "line_ok l"
  shows "\<exists>b. findCrlf st = Some (b, length l + 1)"
    and "\<exists>b. findCrlf_state st False False = (Some (b, length l + 1), False, False)"
  using crlf_plain [OF assms(2), of 0 None r] assms(1) by (auto simp: findCrlf_def findCrlf_state_def)

lemma findCrlf_none:
  assumes "line_ok (content (theIn st))"
  shows "findCrlf st = None" "findCrlf_state st False False = (None, False, False)"
  using crlf_plain_none [OF assms] by (simp_all add: findCrlf_def findCrlf_state_def)

lemma track_extension:
  assumes t: "tracks st fut out rest body" and s: "theStep st = psUnusedChunkExtension" "\<not> doNeedMoreData st"
  shows "\<exists>st' body'. parse_step st = Inr st' \<and> tracks st' fut out rest body' \<and> kept st st'"
proof -
  obtain dat l cs z ts where a: "quiet st" "theChunkSize st = length dat" "dat \<noteq> []" "theLeftBodySize st = length dat"
    "line_ok l" "body_ok cs z ts" "body = dat @ body_data cs"
    "content (theIn st) @ fut = l @ CHR 0x0A # dat @ CRLF @ encode_body cs z ts @ rest"
    using t s unfolding tracks_def by (auto elim!: awaits.cases)
  have q: "inQuoted st = False" "inSlashed st = False" "st\<lparr>inQuoted := False, inSlashed := False\<rparr> = st"
    using a(1) by (auto simp: quiet_def)
  have step: "parse_step st = parseUnusedChunkExtension st" using s by (simp add: parse_step_def)
  have ok: "mem_buf_ok (theIn st)" using t by (simp add: tracks_def)
  from a(8) show ?thesis
  proof (cases rule: line_cases)
    case (whole buf')
    let ?st = "(eaten (length l + 1) st)\<lparr>theStep := psChunkBody\<rparr>"
    have "parse_step st = Inr ?st"
      using findCrlf_line(2) [OF whole(1) a(5)] consume_in_ok [OF ok, of "length l + 1"] whole(1) a(2,3)
      by (auto simp: step parseUnusedChunkExtension_def q)
    moreover have "awaits ?st (dat @ CRLF @ encode_body cs z ts @ rest) (dat @ body_data cs) rest"
      using a by (intro awaits.at_data) auto
    ultimately show ?thesis
      using t whole a(7) s by (intro exI [of _ ?st] exI [of _ body]) (auto simp: tracks_def kept_def)
  next
    case (part l')
    let ?st = "(eaten (length (content (theIn st))) st)\<lparr>doNeedMoreData := True\<rparr>"
    have "line_ok (content (theIn st))" using a(5) part by simp
    then have "parse_step st = Inr ?st"
      using findCrlf_none(2) consume_in_ok [OF ok, of "length (content (theIn st))"]
      by (simp add: step parseUnusedChunkExtension_def q contentSize_def)
    moreover have "awaits ?st (l' @ CHR 0x0A # dat @ CRLF @ encode_body cs z ts @ rest) (dat @ body_data cs) rest"
      using a part s by (intro awaits.at_extension) auto
    ultimately show ?thesis
      using t part a(7) by (intro exI [of _ ?st] exI [of _ body]) (auto simp: tracks_def kept_def)
  qed
qed

lemma track_end:
  assumes t: "tracks st fut out rest body" and s: "theStep st = psChunkEnd" "\<not> doNeedMoreData st"
  shows "\<exists>st' body'. parse_step st = Inr st' \<and> tracks st' fut out rest body' \<and> kept st st'"
proof -
  obtain cs z ts where a: "quiet st" "theLeftBodySize st = 0" "body_ok cs z ts" "body = body_data cs"
    "content (theIn st) @ fut = [CHR 0x0D] @ CHR 0x0A # encode_body cs z ts @ rest"
    using t s unfolding tracks_def by (auto elim!: awaits.cases)
  have step: "parse_step st = parseChunkEnd st" using s by (simp add: parse_step_def)
  have ok: "mem_buf_ok (theIn st)" using t by (simp add: tracks_def)
  from a(5) show ?thesis
  proof (cases rule: line_cases)
    case (whole buf')
    let ?st = "(eaten 2 st)\<lparr>theChunkSize := 0, theStep := psChunkSize\<rparr>"
    have "parse_step st = Inr ?st"
      using whole(1) a(2) consume_in_ok [OF ok, of 2] by (simp add: step parseChunkEnd_def numeral_2_eq_2 findCrlf_def findCrlf_state_def)
    moreover have "awaits ?st (encode_body cs z ts @ rest) (body_data cs) rest"
      using a by (intro awaits.at_size) auto
    ultimately show ?thesis
      using t whole a(4) s by (intro exI [of _ ?st] exI [of _ body]) (auto simp: tracks_def kept_def)
  next
    case (part l')
    then have "line_ok (content (theIn st))" by (cases "content (theIn st)") auto
    then show ?thesis
      using track_wait [OF t] findCrlf_none(1) a(2) part by (simp add: step parseChunkEnd_def)
  qed
qed

lemma track_last:
  assumes t: "tracks st fut out rest body" and s: "theStep st = psLastChunkExtension" "\<not> doNeedMoreData st"
  shows "\<exists>st' body'. parse_step st = Inr st' \<and> tracks st' fut out rest body' \<and> kept st st'"
proof -
  obtain l ts where a: "quiet st" "theChunkSize st = 0" "line_ok l" "list_all trailer_ok ts" "body = []"
    "content (theIn st) @ fut = l @ CHR 0x0A # encode_trailers ts @ rest"
    using t s unfolding tracks_def by (auto elim!: awaits.cases)
  have step: "parse_step st = parseLastChunkExtension st" using s by (simp add: parse_step_def)
  have ok: "mem_buf_ok (theIn st)" using t by (simp add: tracks_def)
  from a(6) show ?thesis
  proof (cases rule: line_cases)
    case (whole buf')
    obtain b where b: "findCrlf st = Some (b, length l + 1)" using findCrlf_line(1) [OF whole(1) a(3)] by blast
    define u where "u = ext_loop (contentSize (theIn st) - b) (content (theIn st)) (useOriginBody st)"
    let ?st = "(eaten (length l + 1) (st\<lparr>useOriginBody := u\<rparr>))\<lparr>theStep := psTrailer\<rparr>"
    have "parse_step st = Inr ?st"
      using b consume_in_ok [of "st\<lparr>useOriginBody := u\<rparr>" "length l + 1"] ok whole(1) a(2)
      by (simp add: step parseLastChunkExtension_def Let_def u_def)
    moreover have "awaits ?st (encode_trailers ts @ rest) [] rest"
      using a by (intro awaits.at_trailer) auto
    ultimately show ?thesis
      using t whole a(5) s by (intro exI [of _ ?st] exI [of _ body]) (auto simp: tracks_def kept_def)
  next
    case (part l')
    then have "line_ok (content (theIn st))" using a(3) by simp
    then show ?thesis
      using track_wait [OF t] findCrlf_none(1) part by (simp add: step parseLastChunkExtension_def)
  qed
qed

lemma common_prefix:
  assumes "xs @ ys = us @ vs" "n \<le> length xs" "n \<le> length us"
  shows "take n xs = take n us" "drop n xs @ ys = drop n us @ vs"
  using assms(2,3) arg_cong [OF assms(1), of "take n"] arg_cong [OF assms(1), of "drop n"] by simp_all

lemma parseChunkBody_copies:
  assumes "mem_buf_ok (theIn st)" "mem_buf_ok (theOut st)" "theStep st = psChunkBody" "0 < theLeftBodySize st"
  defines "avail \<equiv> min (theLeftBodySize st) (length (content (theIn st)))"
  defines "safe \<equiv> min avail (potentialSpaceSize (theOut st))"
  shows "\<exists>ob. mem_buf_ok ob \<and> content ob = content (theOut st) @ take safe (content (theIn st)) \<and> max_capacity ob = max_capacity (theOut st) \<and>
    parseChunkBody st = Inr ((eaten safe st)\<lparr>theOut := ob, doNeedMoreData := (avail < theLeftBodySize st),
      theLeftBodySize := theLeftBodySize st - safe, theStep := if safe = theLeftBodySize st then psChunkEnd else psChunkBody\<rparr>)"
proof -
  have len: "length (take safe (content (theIn st))) = safe" by (simp add: safe_def avail_def)
  obtain ob where ob: "mem_append (take safe (content (theIn st))) (theOut st) = Inr ob" "mem_buf_ok ob"
      "content ob = content (theOut st) @ take safe (content (theIn st))" "potentialSpaceSize ob = potentialSpaceSize (theOut st) - safe"
    using mb.put_ok [OF assms(2), of "take safe (content (theIn st))"] len by (auto simp: safe_def)
  have cap: "max_capacity ob = max_capacity (theOut st)"
    using append_ok [OF assms(2), of "take safe (content (theIn st))"] ob(1) len
    unfolding len by (auto simp: safe_def [THEN meta_eq_to_obj_eq] le_max_iff_disj)
  let ?s = "st\<lparr>doNeedMoreData := avail < theLeftBodySize st, theOut := ob\<rparr>"
  have "consume_in safe ?s = Inr (eaten safe ?s)"
    using assms(1) by (intro consume_in_ok) (auto simp: safe_def avail_def)
  moreover have "avail < theLeftBodySize st \<or> potentialSpaceSize ob = 0" if "safe < theLeftBodySize st"
    using that ob(4) by (auto simp: safe_def)
  moreover have "safe \<le> theLeftBodySize st" by (simp add: safe_def avail_def)
  ultimately have "parseChunkBody st = Inr ((eaten safe ?s)\<lparr>theLeftBodySize := theLeftBodySize st - safe,
      theStep := if safe = theLeftBodySize st then psChunkEnd else psChunkBody\<rparr>)"
    using assms(3,4) ob(1)
    unfolding parseChunkBody_def Let_def contentSize_def avail_def [symmetric] safe_def [symmetric]
    by (cases "safe = theLeftBodySize st")
      (auto simp: guardE_def needsMoreData_def needsMoreSpace_def hasPotentialSpace_def eaten_def)
  then show ?thesis using ob cap by (intro exI [of _ ob]) (simp add: eaten_def)
qed

lemma track_data:
  assumes t: "tracks st fut out rest body" and s: "theStep st = psChunkBody" "\<not> doNeedMoreData st"
  shows "\<exists>st' body'. parse_step st = Inr st' \<and> tracks st' fut out rest body' \<and> kept st st'"
proof -
  obtain dat cs z ts where a: "quiet st" "dat \<noteq> []" "theLeftBodySize st = length dat" "body_ok cs z ts" "body = dat @ body_data cs"
    "content (theIn st) @ fut = dat @ CRLF @ encode_body cs z ts @ rest"
    using t s unfolding tracks_def by (auto elim!: awaits.cases)
  define avail where "avail = min (theLeftBodySize st) (length (content (theIn st)))"
  define safe where "safe = min avail (potentialSpaceSize (theOut st))"
  have bounds: "safe \<le> length (content (theIn st))" "safe \<le> length dat" by (auto simp: safe_def avail_def a(3))
  note split = common_prefix [OF a(6) bounds]
  obtain ob where ob: "mem_buf_ok ob" "content ob = content (theOut st) @ take safe (content (theIn st))"
      "max_capacity ob = max_capacity (theOut st)"
    and p: "parseChunkBody st = Inr ((eaten safe st)\<lparr>theOut := ob, doNeedMoreData := (avail < theLeftBodySize st),
      theLeftBodySize := theLeftBodySize st - safe, theStep := if safe = theLeftBodySize st then psChunkEnd else psChunkBody\<rparr>)"
    using parseChunkBody_copies [of st] t s(1) a(2,3) unfolding tracks_def avail_def [symmetric] safe_def [symmetric] by auto
  let ?st = "(eaten safe st)\<lparr>theOut := ob, doNeedMoreData := (avail < theLeftBodySize st),
      theLeftBodySize := theLeftBodySize st - safe, theStep := if safe = theLeftBodySize st then psChunkEnd else psChunkBody\<rparr>"
  have aw: "awaits ?st (drop safe dat @ CRLF @ encode_body cs z ts @ rest) (drop safe dat @ body_data cs) rest"
  proof (cases "safe = length dat")
    case True
    then show ?thesis using awaits.at_end [of ?st cs z ts rest] a by simp
  next
    case False
    then show ?thesis using bounds a by (intro awaits.at_data) auto
  qed
  have fu: "fut \<noteq> []" if "avail < theLeftBodySize st"
    using that a(3,6) arg_cong [OF a(6), of length] by (auto simp: avail_def)
  have co: "content ob @ drop safe dat @ body_data cs = out"
  proof -
    have "take safe dat @ drop safe dat @ body_data cs = body" unfolding a(5) by (simp flip: append.assoc)
    then show ?thesis using t unfolding ob(2) split(1) append.assoc by (simp add: tracks_def)
  qed
  have "tracks ?st fut out rest (drop safe dat @ body_data cs)"
    unfolding tracks_def using aw fu co t ob(1) split(2) by (auto simp: tracks_def)
  moreover have "kept st ?st" using ob(3) by (simp add: kept_def)
  moreover have "parse_step st = Inr ?st" using p s by (simp add: parse_step_def)
  ultimately show ?thesis by blast
qed

lemma track_trailer_header:
  assumes t: "tracks st fut out rest body" and s: "theStep st = psTrailer" "\<not> doNeedMoreData st"
  shows "\<exists>st' body'. parseTrailerHeader st = Inr st' \<and> tracks st' fut out rest body' \<and> kept st st' \<and>
    theStep st' \<in> {psTrailer, psMessageEnd}"
proof -
  obtain ts where a: "quiet st" "theChunkSize st = 0" "list_all trailer_ok ts" "body = []"
    "content (theIn st) @ fut = encode_trailers ts @ rest"
    using t s unfolding tracks_def by (auto elim!: awaits.cases)
  have ok: "mem_buf_ok (theIn st)" using t by (simp add: tracks_def)
  define l where "l = (case ts of [] \<Rightarrow> [CHR 0x0D] | t # _ \<Rightarrow> t @ [CHR 0x0D])"
  define tail where "tail = (case ts of [] \<Rightarrow> rest | _ # ts' \<Rightarrow> encode_trailers ts' @ rest)"
  have l: "line_ok l" "content (theIn st) @ fut = l @ CHR 0x0A # tail"
    using a(3,5) by (auto simp: l_def tail_def trailer_ok_def encode_trailers_def split: list.split)
  from l(2) show ?thesis
  proof (cases rule: line_cases)
    case (whole buf')
    obtain b where b: "findCrlf st = Some (b, length l + 1)" "b = 0 \<longleftrightarrow> ts = []"
    proof (cases ts)
      case Nil
      then show ?thesis using whole that by (simp add: findCrlf_def findCrlf_state_def l_def)
    next
      case (Cons u us)
      then obtain c u' where u: "u = c # u'" "c \<noteq> CHR 0x0D" "c \<noteq> CHR 0x0A" "c \<noteq> CHR 0x22" "line_ok u'"
        using a(3) by (cases u) (auto simp: trailer_ok_def)
      then obtain b where "crlf_loop 1 None False False ((u' @ [CHR 0x0D]) @ CHR 0x0A # buf') =
          (Some (b, 1 + length (u' @ [CHR 0x0D]) + 1), False, False)" "1 \<le> b"
        using crlf_plain [of "u' @ [CHR 0x0D]" 1 None buf'] by auto
      then show ?thesis using whole that [of b] u Cons by (simp add: findCrlf_def findCrlf_state_def l_def)
    qed
    let ?st = "if b = 0 then (eaten (length l + 1) st)\<lparr>theStep := psMessageEnd\<rparr> else eaten (length l + 1) st"
    have "parseTrailerHeader st = Inr ?st"
      using b consume_in_ok [OF ok, of "length l + 1"] whole(1) by (simp add: parseTrailerHeader_def)
    moreover have "awaits ?st tail [] rest"
    proof (cases ts)
      case Nil
      then show ?thesis using b by (auto simp: tail_def intro: awaits.at_message_end)
    next
      case (Cons u us)
      then show ?thesis using a s b by (auto simp: tail_def intro!: awaits.at_trailer)
    qed
    ultimately show ?thesis
      using t whole s a(4) by (intro exI [of _ ?st] exI [of _ "[]"]) (auto simp: tracks_def kept_def)
  next
    case (part l')
    then have "line_ok (content (theIn st))" using l(1) by simp
    moreover have "awaits (st\<lparr>doNeedMoreData := True\<rparr>) (content (theIn st) @ fut) body rest"
      using t awaits_mono by (fastforce simp: tracks_def)
    ultimately show ?thesis
      using t findCrlf_none(1) part s
      by (intro exI [of _ "st\<lparr>doNeedMoreData := True\<rparr>"] exI [of _ body]) (auto simp: tracks_def kept_def parseTrailerHeader_def)
  qed
qed

lemma mayContinueD: "mayContinue st \<Longrightarrow> \<not> doNeedMoreData st \<and> theStep st \<noteq> psMessageEnd"
  by (simp add: mayContinue_def needsMoreData_def)

lemma track_trailer_loop:
  "tracks st fut out rest body \<Longrightarrow> theStep st \<in> {psTrailer, psMessageEnd} \<Longrightarrow>
   \<exists>st' body'. trailer_loop st = Inr st' \<and> tracks st' fut out rest body' \<and> kept st st'"
proof (induction st arbitrary: body rule: trailer_loop.induct)
  case (1 st)
  show ?case
  proof (cases "mayContinue st")
    case True
    then obtain st1 b1 where h: "parseTrailerHeader st = Inr st1" "tracks st1 fut out rest b1" "kept st st1"
        "theStep st1 \<in> {psTrailer, psMessageEnd}"
      using track_trailer_header [OF 1(2)] 1(3) by (auto dest: mayContinueD)
    then obtain st2 b2 where "trailer_loop st1 = Inr st2" "tracks st2 fut out rest b2" "kept st1 st2"
      using 1(1) [OF True] by blast
    with h True show ?thesis
      by (intro exI [of _ st2] exI [of _ b2]) (simp add: trailer_loop.simps [of st] kept_trans)
  next
    case False
    with 1(2) show ?thesis by (intro exI [of _ st] exI [of _ body]) (simp add: trailer_loop.simps)
  qed
qed

lemma track_step:
  assumes "tracks st fut out rest body" "mayContinue st"
  shows "\<exists>st' body'. parse_step st = Inr st' \<and> tracks st' fut out rest body' \<and> kept st st'"
proof (cases "theStep st")
  case psTrailer
  moreover have "theChunkSize st = 0" using assms(1) psTrailer by (auto simp: tracks_def elim: awaits.cases)
  ultimately show ?thesis
    using track_trailer_loop [OF assms(1)] by (simp add: parse_step_def parseTrailer_def)
qed (use assms mayContinueD [OF assms(2)] track_size [OF assms(1)] track_extension [OF assms(1)] track_last [OF assms(1)]
    track_data [OF assms(1)] track_end [OF assms(1)] in \<open>simp_all\<close>)

lemma track_loop:
  "tracks st fut out rest body \<Longrightarrow>
   \<exists>st' body'. parse_loop st = Inr st' \<and> tracks st' fut out rest body' \<and> kept st st' \<and> \<not> mayContinue st'"
proof (induction st arbitrary: body rule: parse_loop.induct)
  case (1 st)
  show ?case
  proof (cases "mayContinue st")
    case True
    then obtain st1 b1 where h: "parse_step st = Inr st1" "tracks st1 fut out rest b1" "kept st st1"
      using track_step [OF 1(2)] by blast
    then obtain st2 b2 where "parse_loop st1 = Inr st2" "tracks st2 fut out rest b2" "kept st1 st2" "\<not> mayContinue st2"
      using 1(1) [OF True] by blast
    with h True show ?thesis
      by (intro exI [of _ st2] exI [of _ b2]) (simp add: parse_loop.simps [of st] kept_trans)
  next
    case False
    with 1(2) show ?thesis by (intro exI [of _ st] exI [of _ body]) (simp add: parse_loop.simps)
  qed
qed

section \<open>Feeding a body in segments\<close>

text \<open>
  The callers append what they read to the input buffer and call \<^verbatim>\<open>parse()\<close>, until it reports the end of
  the message (\<^verbatim>\<open>HttpStateData::decodeAndWriteReplyBody()\<close>, \<^verbatim>\<open>ConnStateData::handleChunkedRequestBody()\<close>).
\<close>

fun feed :: "string list \<Rightarrow> chunked_parser \<Rightarrow> (bool \<times> chunked_parser) outcome" where
  "feed [] st = Inr (False, st)"
| "feed (seg # segs) st =
     bindE (mem_append seg (theIn st)) (\<lambda>inb.
     bindE (parse inb (theOut st) st) (\<lambda>(complete, st').
       if complete then Inr (True, st') else feed segs st'))"

lemma parse_tracks:
  assumes "tracks st (seg @ fut) out rest body" "theStep st \<noteq> psMessageEnd"
    and "length (content (theIn st)) + length seg < max_capacity (theIn st)" "length out < max_capacity (theOut st)"
  shows "\<exists>inb st' body'. mem_append seg (theIn st) = Inr inb \<and> parse inb (theOut st) st = Inr (theStep st' = psMessageEnd, st') \<and>
    tracks st' fut out rest body' \<and> max_capacity (theIn st') = max_capacity (theIn st) \<and>
    max_capacity (theOut st') = max_capacity (theOut st) \<and>
    length (content (theIn st')) \<le> length (content (theIn st)) + length seg \<and>
    (theStep st' \<noteq> psMessageEnd \<longrightarrow> fut \<noteq> [])"
proof -
  have ok: "mem_buf_ok (theIn st)" "mem_buf_ok (theOut st)" using assms(1) by (auto simp: tracks_def)
  have fits: "length seg \<le> max (spaceSize (theIn st)) (potentialSpaceSize (theIn st))"
    using assms(3) by (auto simp: potentialSpaceSize_def contentSize_def Let_def le_max_iff_disj)
  obtain cap where inb: "mem_append seg (theIn st) = Inr ((theIn st)\<lparr>content := content (theIn st) @ seg, capacity := cap\<rparr>)"
    "contentSize (theIn st) + length seg < cap"
    using append_ok [OF ok(1) fits] by blast
  define ib where "ib = (theIn st)\<lparr>content := content (theIn st) @ seg, capacity := cap\<rparr>"
  define st0 where "st0 = st\<lparr>theIn := ib, theOut := theOut st, doNeedMoreData := \<not> hasContent ib\<rparr>"
  have "awaits st0 (content ib @ fut) body rest"
    using assms(1) awaits_mono [of st _ body rest st0] by (simp add: tracks_def st0_def ib_def quiet_def)
  moreover have "fut \<noteq> []" if "content ib = []"
    using that calculation assms(2) by (auto simp: st0_def encode_body_def encode_trailers_def elim: awaits.cases)
  ultimately have t0: "tracks st0 fut out rest body"
    using assms(1) inb(2) ok by (auto simp: tracks_def st0_def ib_def mem_buf_ok_def contentSize_def hasContent_def)
  obtain st' body' where l: "parse_loop st0 = Inr st'" "tracks st' fut out rest body'" "kept st0 st'" "\<not> mayContinue st'"
    using track_loop [OF t0] by blast
  have "fut \<noteq> []" if n: "theStep st' \<noteq> psMessageEnd"
  proof (cases "doNeedMoreData st'")
    case True
    then show ?thesis using l(2) n by (simp add: tracks_def)
  next
    case False
    then have "theStep st' = psChunkBody" "potentialSpaceSize (theOut st') = 0"
      using l(4) n by (auto simp: mayContinue_def needsMoreData_def needsMoreSpace_def hasPotentialSpace_def)
    moreover have "content (theOut st') @ body' = out" "body' \<noteq> []"
      using l(2) calculation(1) by (auto simp: tracks_def elim: awaits.cases)
    then have "Suc (length (content (theOut st'))) \<le> length out" by (cases body') auto
    ultimately show ?thesis
      using l(3) assms(4) by (auto simp: kept_def st0_def potentialSpaceSize_def contentSize_def Let_def split: if_splits)
  qed
  then show ?thesis
    using inb l unfolding ib_def [symmetric]
    by (intro exI [of _ ib] exI [of _ st'] exI [of _ body'])
      (auto simp: parse_def st0_def [symmetric] kept_def, simp_all add: st0_def ib_def)
qed

lemma feed_tracks:
  assumes "tracks st (concat segs) out rest body" "theStep st \<noteq> psMessageEnd" "segs \<noteq> []"
    and "length (content (theIn st)) + length (concat segs) < max_capacity (theIn st)" "length out < max_capacity (theOut st)"
  shows "\<exists>st' k. feed segs st = Inr (True, st') \<and> content (theOut st') = out \<and> content (theIn st') @ concat (drop k segs) = rest"
  using assms
proof (induction segs arbitrary: st body)
  case (Cons seg segs)
  obtain inb st' body' where p: "mem_append seg (theIn st) = Inr inb" "parse inb (theOut st) st = Inr (theStep st' = psMessageEnd, st')"
      "tracks st' (concat segs) out rest body'" "max_capacity (theIn st') = max_capacity (theIn st)"
      "max_capacity (theOut st') = max_capacity (theOut st)"
      "length (content (theIn st')) \<le> length (content (theIn st)) + length seg" "theStep st' \<noteq> psMessageEnd \<longrightarrow> concat segs \<noteq> []"
    using parse_tracks [of st seg "concat segs" out rest body] Cons.prems by auto
  show ?case
  proof (cases "theStep st' = psMessageEnd")
    case True
    then have "body' = [] \<and> content (theIn st') @ concat segs = rest" using p(3) by (auto simp: tracks_def elim: awaits.cases)
    then show ?thesis using p(1,2,3) True by (intro exI [of _ st'] exI [of _ 1]) (simp add: tracks_def)
  next
    case False
    then have "segs \<noteq> []" using p(7) by auto
    then obtain st'' k where "feed segs st' = Inr (True, st'')" "content (theOut st'') = out"
        "content (theIn st'') @ concat (drop k segs) = rest"
      using Cons.IH [OF p(3) False] p(4,5,6) Cons.prems(4,5) by auto
    then show ?thesis using p(1,2) False by (intro exI [of _ st''] exI [of _ "Suc k"]) simp
  qed
qed simp

lemma reset_tracks:
  assumes "body_ok cs z ts" "mem_buf_ok ib" "mem_buf_ok ob" "content ib = []" "content ob = []"
  shows "tracks (parser_reset\<lparr>theIn := ib, theOut := ob\<rparr>) (encode_body cs z ts @ rest) (body_data cs) rest (body_data cs)"
  using assms awaits.at_size [OF _ _ _ assms(1), of "parser_reset\<lparr>theIn := ib, theOut := ob\<rparr>" rest]
  by (simp add: tracks_def parser_reset_def quiet_def)

text \<open>
  C15.  A fresh parser that is fed a well-formed chunked body, cut into segments at arbitrary
  places (within numbers, line ends and data) and followed by anything, reports the end of the message;
  by then it has output exactly the data of the chunks, in order, and consumed exactly the body.  No
  assertion fails and no exception is thrown on the way.
\<close>
theorem chunked_segments_decode:
  assumes "body_ok cs z ts" "segs \<noteq> []" "concat segs = encode_body cs z ts @ rest"
    and "mem_buf_ok ib" "mem_buf_ok ob" "content ib = []" "content ob = []"
    and "length (concat segs) < max_capacity ib" "length (body_data cs) < max_capacity ob"
  shows "\<exists>st' k. feed segs (parser_reset\<lparr>theIn := ib, theOut := ob\<rparr>) = Inr (True, st') \<and>
    content (theOut st') = body_data cs \<and> content (theIn st') @ concat (drop k segs) = rest"
proof -
  have "tracks (parser_reset\<lparr>theIn := ib, theOut := ob\<rparr>) (concat segs) (body_data cs) rest (body_data cs)"
    unfolding assms(3) using assms by (intro reset_tracks)
  then show ?thesis
    using assms by (intro feed_tracks) (auto simp: parser_reset_def)
qed

theorem chunked_segments_decode_witness:
  "\<exists>st' k. feed [''5'' @ [CHR 0x0D], CHR 0x0A # ''hel'', ''lo'' @ CRLF @ ''0'' @ CRLF, CRLF @ ''GET'']
      (parser_reset\<lparr>theIn := \<lparr>content = [], max_capacity = 100, capacity = 10, stolen = False\<rparr>,
        theOut := \<lparr>content = [], max_capacity = 100, capacity = 10, stolen = False\<rparr>\<rparr>) = Inr (True, st') \<and>
    content (theOut st') = ''hello'' \<and>
    content (theIn st') @ concat (drop k [''5'' @ [CHR 0x0D], CHR 0x0A # ''hel'', ''lo'' @ CRLF @ ''0'' @ CRLF, CRLF @ ''GET'']) = ''GET''"
proof -
  let ?c = "\<lparr>size_digits = ''5'', chunk_ext = [], chunk_data = ''hello''\<rparr>"
  let ?z = "\<lparr>size_digits = ''0'', chunk_ext = [], chunk_data = []\<rparr>"
  let ?b = "\<lparr>content = [], max_capacity = 100, capacity = 10, stolen = False\<rparr>"
  let ?segs = "[''5'' @ [CHR 0x0D], CHR 0x0A # ''hel'', ''lo'' @ CRLF @ ''0'' @ CRLF, CRLF @ ''GET'']"
  have "body_ok [?c] ?z []"
    by (simp add: body_ok_def chunk_ok_def xisxdigit_def is_digit_def base_value_def digit_value_def int64_max_def)
  moreover have "concat ?segs = encode_body [?c] ?z [] @ ''GET''"
    by (simp add: encode_body_def encode_chunks_def encode_chunk_def encode_trailers_def)
  moreover have "mem_buf_ok ?b" by (simp add: mem_buf_ok_def contentSize_def)
  moreover have "body_data [?c] = ''hello''" by (simp add: body_data_def)
  ultimately show ?thesis
    using chunked_segments_decode [of "[?c]" ?z "[]" ?segs "''GET''" ?b ?b] by simp
qed

section \<open>Size lines that do not start with a digit\<close>

lemma strtoll_base_space:
  "xisspace c \<Longrightarrow> strtoll_base b s = (v, p) \<Longrightarrow> p \<noteq> s \<Longrightarrow> strtoll_base b (c # s) = (v, p)"
proof -
  assume "xisspace c" and v: "strtoll_base b s = (v, p)" "p \<noteq> s"
  then have d: "dropWhile xisspace (c # s) = dropWhile xisspace s" by simp
  show ?thesis using v unfolding strtoll_base_def Let_def d by (metis Pair_inject)
qed

lemma StringToInt64_skips_LF:
  assumes "StringToInt64 16 s = Some (v, p)"
  shows "StringToInt64 16 (CHR 0x0A # s) = Some (v, p)"
proof -
  have "strtoll_base 16 s = (v, p)" "p \<noteq> s"
    using assms by (auto simp: StringToInt64_def split: if_splits prod.splits)
  then have "strtoll_base 16 (CHR 0x0A # s) = (v, p)"
    by (intro strtoll_base_space) (simp add: xisspace_def)
  moreover have "p \<noteq> CHR 0x0A # s" using StringToInt64_shorter [OF assms] by auto
  ultimately show ?thesis by (simp add: StringToInt64_def)
qed

text \<open>
  The number parser skips white space, the line scanner does not.  When a size line is preceded by a
  line feed, the parser reads the size from the line after it but ends the size line at that line feed:
  it goes on to copy the digits themselves, and what follows them, as the data of the chunk.
\<close>
theorem chunked_leading_LF_desync:
  assumes "theStep st = psChunkSize" "theChunkSize st = 0" "mayContinue st" "quiet st" "mem_buf_ok (theIn st)"
    and "content (theIn st) = CHR 0x0A # ds @ r"
    and "ds \<noteq> []" "list_all xisxdigit ds" "base_value 16 ds = int n" "0 < n" "int n \<le> int64_max"
    and "r \<noteq> []" "\<not> xisxdigit (hd r)" "hd r \<noteq> CHR ''x''" "hd r \<noteq> CHR ''X''"
  shows "parse_loop st = parse_loop (st\<lparr>theIn := (theIn st)\<lparr>content := ds @ r\<rparr>, theChunkSize := n, theLeftBodySize := n, theStep := psChunkBody\<rparr>)"
proof -
  let ?a = "st\<lparr>theChunkSize := n, theLeftBodySize := n, theStep := psUnusedChunkExtension\<rparr>"
  let ?b = "st\<lparr>theIn := (theIn st)\<lparr>content := ds @ r\<rparr>, theChunkSize := n, theLeftBodySize := n, theStep := psChunkBody\<rparr>"
  have "StringToInt64 16 (content (theIn st)) = Some (int n, r)"
    unfolding assms(6) using StringToInt64_hex assms(7-15) by (intro StringToInt64_skips_LF) auto
  moreover have "dropWhile xisxdigit (content (theIn st)) \<noteq> []"
    by (simp add: assms(6) xisxdigit_def is_digit_def)
  ultimately have a: "parse_step st = Inr ?a"
    using assms(1,2,10) by (simp add: parse_step_def parseChunkSize_def Let_def del: dropWhile_eq_Nil_conv)
  have may: "mayContinue ?a" using assms(3) by (simp add: mayContinue_def needsMoreData_def needsMoreSpace_def)
  have "findCrlf_state ?a False False = (Some (0, 1), False, False)"
    by (simp add: findCrlf_state_def assms(6))
  then have "parse_step ?a = Inr ?b"
    using assms(4,5,10) consume_in_ok [of "?a\<lparr>inQuoted := False, inSlashed := False\<rparr>" 1]
    by (simp add: parse_step_def parseUnusedChunkExtension_def quiet_def assms(6) eaten_def)
  then show ?thesis
    using a may assms(3) by (simp add: parse_loop.simps [of st] parse_loop.simps [of ?a])
qed

theorem chunked_leading_LF_desync_witness:
  "\<exists>st'. parse_loop (parser_reset\<lparr>theIn := \<lparr>content = CHR 0x0A # ''3'' @ CRLF @ ''abc'', max_capacity = 30, capacity = 20, stolen = False\<rparr>,
        theOut := \<lparr>content = [], max_capacity = 30, capacity = 10, stolen = False\<rparr>\<rparr>) = Inr st' \<and>
     content (theOut st') = ''3'' @ CRLF"
proof -
  let ?i = "\<lparr>content = CHR 0x0A # ''3'' @ CRLF @ ''abc'', max_capacity = 30, capacity = 20, stolen = False\<rparr>"
  let ?o = "\<lparr>content = [], max_capacity = 30, capacity = 10, stolen = False\<rparr>"
  let ?s = "parser_reset\<lparr>theIn := ?i, theOut := ?o\<rparr>"
  let ?t = "?s\<lparr>theIn := ?i\<lparr>content := ''3'' @ CRLF @ ''abc''\<rparr>, theChunkSize := 3, theLeftBodySize := 3, theStep := psChunkBody\<rparr>"
  have "parse_loop ?s = parse_loop ?t"
    using chunked_leading_LF_desync [of ?s "''3''" "CRLF @ ''abc''" 3]
    by (simp add: parser_reset_def mayContinue_def needsMoreData_def needsMoreSpace_def quiet_def mem_buf_ok_def contentSize_def
        xisxdigit_def is_digit_def base_value_def digit_value_def int64_max_def)
  moreover have "case parse_loop ?t of Inr st' \<Rightarrow> content (theOut st') = ''3'' @ CRLF | Inl _ \<Rightarrow> False"
    by code_simp
  ultimately show ?thesis by (auto split: sum.splits)
qed

end
