(* ===== verification/Body_Pipe.thy ===== *)
theory Body_Pipe
  imports Squid_Prelude Byte_Range Mem_Buf
begin

text \<open>
  The pipe that passes a message body from its producer to its consumer, \<^verbatim>\<open>src/BodyPipe.cc\<close>, on top of the
  buffers of \<^verbatim>\<open>MemBuf\<close>.  Producers and consumers are jobs, known to the pipe by identifiers; a job that has
  been destroyed is invalid, which the pipe finds out through \<^verbatim>\<open>CbcPointer\<close>: \<open>alive\<close> is the set of the
  jobs that are still valid.  The calls that the pipe schedules for its producer and consumer are collected in
  order.
\<close>

section \<open>State\<close>

text \<open>A consumer is a job of the program or the pipe's own \<^verbatim>\<open>BodySink\<close>, which discards the data.\<close>

datatype job = Job nat | BodySink

datatype body_call =
    noteMoreBodySpaceAvailable "nat option"
  | noteBodyConsumerAborted "nat option"
  | noteMoreBodyDataAvailable job
  | noteBodyProductionEnded job
  | noteBodyProducerAborted job

record body_pipe =
  theBodySize :: int
  theProducer :: "nat option"
  theConsumer :: "job option"
  thePutSize :: nat
  theGetSize :: nat
  theBuf :: mem_buf
  mustAutoConsume :: bool
  abortedConsumption :: bool
  isCheckedOut :: bool
  calls :: "body_call list"

definition MaxCapacity :: nat where
  "MaxCapacity = 64 * 1024"

definition job_valid :: "nat set \<Rightarrow> job option \<Rightarrow> bool" where
  "job_valid alive j = (case j of None \<Rightarrow> False | Some BodySink \<Rightarrow> True | Some (Job n) \<Rightarrow> n \<in> alive)"

definition producer_valid :: "nat set \<Rightarrow> body_pipe \<Rightarrow> bool" where
  "producer_valid alive p = (case theProducer p of None \<Rightarrow> False | Some n \<Rightarrow> n \<in> alive)"

definition new_body_pipe :: "nat \<Rightarrow> body_pipe outcome" where
  "new_body_pipe aProducer =
     bindE (init_sizes (2 * 1024) MaxCapacity new_mem_buf) (\<lambda>b.
       Inr \<lparr>theBodySize = - 1, theProducer = Some aProducer, theConsumer = None, thePutSize = 0, theGetSize = 0,
            theBuf = b, mustAutoConsume = False, abortedConsumption = False, isCheckedOut = False, calls = []\<rparr>)"

section \<open>Sizes\<close>

definition bodySizeKnown :: "body_pipe \<Rightarrow> bool" where
  "bodySizeKnown p = (theBodySize p \<ge> 0)"

definition bodySize :: "body_pipe \<Rightarrow> nat outcome" where
  "bodySize p = guardE (bodySizeKnown p) AssertFault (Inr (nat (theBodySize p)))"

definition unproducedSize :: "body_pipe \<Rightarrow> nat outcome" where
  "unproducedSize p = bindE (bodySize p) (\<lambda>n. Inr (nat ((int n - int (thePutSize p)) mod 18446744073709551616)))"

definition needsMoreData :: "body_pipe \<Rightarrow> bool outcome" where
  "needsMoreData p = (if bodySizeKnown p then bindE (unproducedSize p) (\<lambda>n. Inr (n > 0)) else Inr False)"

definition mayNeedMoreData :: "body_pipe \<Rightarrow> bool outcome" where
  "mayNeedMoreData p = (if \<not> bodySizeKnown p then Inr True else needsMoreData p)"

definition productionEnded :: "nat set \<Rightarrow> body_pipe \<Rightarrow> bool" where
  "productionEnded alive p = (\<not> producer_valid alive p)"

definition expectMoreAfter :: "nat set \<Rightarrow> nat \<Rightarrow> body_pipe \<Rightarrow> bool outcome" where
  "expectMoreAfter alive offset p =
     guardE (theGetSize p \<le> offset) AssertFault
       (if offset < thePutSize p then Inr True
        else if productionEnded alive p then Inr False
        else mayNeedMoreData p)"

definition exhausted :: "nat set \<Rightarrow> body_pipe \<Rightarrow> bool outcome" where
  "exhausted alive p = bindE (expectMoreAfter alive (theGetSize p) p) (\<lambda>b. Inr (\<not> b))"

definition setBodySize :: "nat set \<Rightarrow> nat \<Rightarrow> body_pipe \<Rightarrow> body_pipe outcome" where
  "setBodySize alive aBodySize p =
     guardE (\<not> bodySizeKnown p) AssertFault
       (guardE (thePutSize p \<le> aBodySize) AssertFault
         (guardE (\<not> job_valid alive (theConsumer p)) AssertFault
           (Inr (p\<lparr>theBodySize := wrap64 (int aBodySize)\<rparr>))))"

definition expectProductionEndAfter :: "nat \<Rightarrow> body_pipe \<Rightarrow> body_pipe outcome" where
  "expectProductionEndAfter sz p =
     (let expectedSize = thePutSize p + sz
      in if bodySizeKnown p then bindE (bodySize p) (\<lambda>n. guardE (n = expectedSize) MustFault (Inr p))
         else Inr (p\<lparr>theBodySize := wrap64 (int expectedSize)\<rparr>))"

section \<open>Notifications\<close>

definition schedule_call :: "body_call \<Rightarrow> body_pipe \<Rightarrow> body_pipe" where
  "schedule_call c p = p\<lparr>calls := calls p @ [c]\<rparr>"

definition scheduleBodyDataNotification :: "nat set \<Rightarrow> body_pipe \<Rightarrow> body_pipe" where
  "scheduleBodyDataNotification alive p =
     (if job_valid alive (theConsumer p)
      then schedule_call (noteMoreBodyDataAvailable (the (theConsumer p))) p else p)"

definition scheduleBodyEndNotification :: "nat set \<Rightarrow> body_pipe \<Rightarrow> body_pipe outcome" where
  "scheduleBodyEndNotification alive p =
     (if job_valid alive (theConsumer p) then
        (if bodySizeKnown p then
           bindE (bodySize p) (\<lambda>n.
             Inr (schedule_call
               (if n = thePutSize p then noteBodyProductionEnded (the (theConsumer p))
                else noteBodyProducerAborted (the (theConsumer p))) p))
         else Inr (schedule_call (noteBodyProducerAborted (the (theConsumer p))) p))
      else Inr p)"

text \<open>Whether a scheduled call is delivered when its turn comes.\<close>

definition canDial :: "nat set \<Rightarrow> body_pipe \<Rightarrow> body_call \<Rightarrow> bool" where
  "canDial alive p c =
     (case c of
        noteMoreBodySpaceAvailable j \<Rightarrow> producer_valid alive (p\<lparr>theProducer := j\<rparr>) \<and> theProducer p = j
      | noteBodyConsumerAborted j \<Rightarrow> producer_valid alive (p\<lparr>theProducer := j\<rparr>) \<and> theProducer p = j
      | noteMoreBodyDataAvailable j \<Rightarrow> job_valid alive (Some j) \<and> theConsumer p = Some j
      | noteBodyProductionEnded j \<Rightarrow> job_valid alive (Some j) \<and> theConsumer p = Some j
      | noteBodyProducerAborted j \<Rightarrow> job_valid alive (Some j) \<and> theConsumer p = Some j)"

section \<open>Operations of the producer\<close>

definition clearProducer :: "nat set \<Rightarrow> bool \<Rightarrow> body_pipe \<Rightarrow> body_pipe outcome" where
  "clearProducer alive atEof p =
     (if theProducer p \<noteq> None then
        (let p1 = p\<lparr>theProducer := None\<rparr>
         in bindE
              (if atEof then
                 (if \<not> bodySizeKnown p1 then Inr (p1\<lparr>theBodySize := wrap64 (int (thePutSize p1))\<rparr>)
                  else bindE (bodySize p1) (\<lambda>n. Inr p1))
               else if bodySizeKnown p1 then
                 bindE (bodySize p1) (\<lambda>n. guardE (n \<noteq> thePutSize p1) AssertFault (Inr p1))
               else Inr p1)
              (scheduleBodyEndNotification alive))
      else Inr p)"

definition startAutoConsumption :: "nat set \<Rightarrow> body_pipe \<Rightarrow> body_pipe outcome" where
  "startAutoConsumption alive p =
     guardE (mustAutoConsume p) MustFault
       (guardE (\<not> job_valid alive (theConsumer p)) MustFault
         (Inr (scheduleBodyDataNotification alive (p\<lparr>theConsumer := Some BodySink\<rparr>))))"

definition postAppend :: "nat set \<Rightarrow> nat \<Rightarrow> body_pipe \<Rightarrow> body_pipe outcome" where
  "postAppend alive sz p =
     guardE (\<not> isCheckedOut p) AssertFault
       (let p1 = p\<lparr>thePutSize := thePutSize p + sz\<rparr>
        in bindE (if mustAutoConsume p1 \<and> \<not> job_valid alive (theConsumer p1) \<and> sz > 0
                  then startAutoConsumption alive p1 else Inr p1) (\<lambda>p2.
           let p3 = scheduleBodyDataNotification alive p2
           in bindE (mayNeedMoreData p3) (\<lambda>more.
                if \<not> more then clearProducer alive True p3 else Inr p3)))"

definition putMoreData :: "nat set \<Rightarrow> string \<Rightarrow> body_pipe \<Rightarrow> (nat \<times> body_pipe) outcome" where
  "putMoreData alive aBuffer p =
     bindE (if bodySizeKnown p then bindE (unproducedSize p) (\<lambda>u. Inr (min (length aBuffer) u))
            else Inr (length aBuffer)) (\<lambda>sz.
       let n = min sz (potentialSpaceSize (theBuf p))
       in if n \<noteq> 0 then
            bindE (mem_append (take n aBuffer) (theBuf p)) (\<lambda>b.
            bindE (postAppend alive n (p\<lparr>theBuf := b\<rparr>)) (\<lambda>p'. Inr (n, p')))
          else Inr (0, p))"

section \<open>Operations of the consumer\<close>

definition setConsumerIfNotLate :: "nat set \<Rightarrow> nat \<Rightarrow> body_pipe \<Rightarrow> (bool \<times> body_pipe) outcome" where
  "setConsumerIfNotLate alive aConsumer p =
     guardE (\<not> job_valid alive (theConsumer p)) AssertFault
       (if theGetSize p > 0 then guardE (mustAutoConsume p) AssertFault (Inr (False, p))
        else guardE (\<not> abortedConsumption p) MustFault
          (let p1 = p\<lparr>theConsumer := Some (Job aConsumer)\<rparr>;
               p2 = (if hasContent (theBuf p1) then scheduleBodyDataNotification alive p1 else p1)
           in bindE (if \<not> producer_valid alive p2 then scheduleBodyEndNotification alive p2 else Inr p2)
                (\<lambda>p3. Inr (True, p3))))"

definition expectNoConsumption :: "nat set \<Rightarrow> body_pipe \<Rightarrow> body_pipe outcome" where
  "expectNoConsumption alive p =
     bindE (if abortedConsumption p then Inr True else exhausted alive p) (\<lambda>over.
       if \<not> over then
         guardE (\<not> job_valid alive (theConsumer p)) MustFault
           (let p1 = (schedule_call (noteBodyConsumerAborted (theProducer p)) p)\<lparr>abortedConsumption := True\<rparr>
            in if mustAutoConsume p1 then startAutoConsumption alive p1 else Inr p1)
       else Inr p)"

definition clearConsumer :: "nat set \<Rightarrow> body_pipe \<Rightarrow> body_pipe outcome" where
  "clearConsumer alive p =
     (if theConsumer p \<noteq> None then
        (let p1 = p\<lparr>theConsumer := None\<rparr>
         in if theGetSize p1 \<noteq> 0 then expectNoConsumption alive p1 else Inr p1)
      else Inr p)"

definition postConsume :: "nat \<Rightarrow> body_pipe \<Rightarrow> body_pipe outcome" where
  "postConsume sz p =
     guardE (\<not> isCheckedOut p) AssertFault
       (let p1 = p\<lparr>theGetSize := theGetSize p + sz\<rparr>
        in bindE (mayNeedMoreData p1) (\<lambda>more.
             Inr (if more then schedule_call (noteMoreBodySpaceAvailable (theProducer p1)) p1 else p1)))"

definition getMoreData :: "mem_buf \<Rightarrow> body_pipe \<Rightarrow> (nat \<times> mem_buf \<times> body_pipe) outcome" where
  "getMoreData aMemBuffer p =
     (if \<not> hasContent (theBuf p) then Inr (0, aMemBuffer, p)
      else bindE (isNull aMemBuffer) (\<lambda>null.
           bindE (if null then init_default aMemBuffer else Inr aMemBuffer) (\<lambda>mb.
             let sz = min (contentSize (theBuf p)) (potentialSpaceSize mb)
             in bindE (mem_append (take sz (content (theBuf p))) mb) (\<lambda>mb'.
                bindE (consume sz (theBuf p)) (\<lambda>b.
                bindE (postConsume sz (p\<lparr>theBuf := b\<rparr>)) (\<lambda>p'. Inr (sz, mb', p')))))))"

definition pipe_consume :: "nat \<Rightarrow> body_pipe \<Rightarrow> body_pipe outcome" where
  "pipe_consume sz p = bindE (consume sz (theBuf p)) (\<lambda>b. postConsume sz (p\<lparr>theBuf := b\<rparr>))"

definition enableAutoConsumption :: "nat set \<Rightarrow> body_pipe \<Rightarrow> body_pipe outcome" where
  "enableAutoConsumption alive p =
     (let p1 = p\<lparr>mustAutoConsume := True\<rparr>
      in if \<not> job_valid alive (theConsumer p1) \<and> hasContent (theBuf p1) then startAutoConsumption alive p1 else Inr p1)"

text \<open>The handlers of the sink.\<close>

definition sink_noteMoreBodyDataAvailable :: "body_pipe \<Rightarrow> body_pipe outcome" where
  "sink_noteMoreBodyDataAvailable p = pipe_consume (contentSize (theBuf p)) p"

definition sink_stopConsuming :: "nat set \<Rightarrow> body_pipe \<Rightarrow> body_pipe outcome" where
  "sink_stopConsuming alive p = clearConsumer alive p"

section \<open>Direct access to the buffer\<close>

text \<open>A checkout remembers the size of the content when the buffer was handed out.\<close>

record checkout =
  co_offset :: nat
  checkedOutSize :: nat

definition checkOut :: "body_pipe \<Rightarrow> (checkout \<times> body_pipe) outcome" where
  "checkOut p =
     guardE (\<not> isCheckedOut p) AssertFault
       (Inr (\<lparr>co_offset = theGetSize p, checkedOutSize = contentSize (theBuf p)\<rparr>, p\<lparr>isCheckedOut := True\<rparr>))"

definition checkIn :: "nat set \<Rightarrow> checkout \<Rightarrow> body_pipe \<Rightarrow> body_pipe outcome" where
  "checkIn alive co p =
     guardE (isCheckedOut p) AssertFault
       (let p1 = p\<lparr>isCheckedOut := False\<rparr>; currentSize = contentSize (theBuf p1)
        in if checkedOutSize co > currentSize then postConsume (checkedOutSize co - currentSize) p1
           else if checkedOutSize co < currentSize then postAppend alive (currentSize - checkedOutSize co) p1
           else Inr p1)"

definition undoCheckOut :: "checkout \<Rightarrow> body_pipe \<Rightarrow> body_pipe outcome" where
  "undoCheckOut co p =
     guardE (isCheckedOut p) AssertFault
       (guardE (checkedOutSize co = contentSize (theBuf p)) MustFault (Inr p))"

definition destroy :: "nat set \<Rightarrow> body_pipe \<Rightarrow> unit outcome" where
  "destroy alive p =
     guardE (\<not> producer_valid alive p) AssertFault
       (guardE (\<not> job_valid alive (theConsumer p)) AssertFault
         (bindE (Mem_Buf.clean (theBuf p)) (\<lambda>_. Inr ())))"

section \<open>The pipe invariant\<close>

definition size_ok :: "body_pipe \<Rightarrow> bool" where
  "size_ok p \<longleftrightarrow> theBodySize p \<le> int64_max \<and> int (thePutSize p) \<le> int64_max \<and>
     (bodySizeKnown p \<longrightarrow> int (thePutSize p) \<le> theBodySize p)"

text \<open>The end of production has been announced to the consumer \<open>j\<close>.\<close>

definition end_noted :: "job \<Rightarrow> body_pipe \<Rightarrow> bool" where
  "end_noted j p \<longleftrightarrow> noteBodyProductionEnded j \<in> set (calls p) \<or> noteBodyProducerAborted j \<in> set (calls p)"

definition ends_told :: "nat set \<Rightarrow> body_pipe \<Rightarrow> bool" where
  "ends_told alive p \<longleftrightarrow>
     (\<forall>j\<in>alive. theProducer p = None \<and> theConsumer p = Some (Job j) \<longrightarrow> end_noted (Job j) p)"

definition complete :: "body_pipe \<Rightarrow> bool" where
  "complete p \<longleftrightarrow> theBodySize p = int (thePutSize p)"

definition pipe_ok :: "nat set \<Rightarrow> body_pipe \<Rightarrow> bool" where
  "pipe_ok alive p \<longleftrightarrow>
     mem_buf_ok (theBuf p) \<and> max_capacity (theBuf p) = MaxCapacity \<and> \<not> isCheckedOut p \<and>
     thePutSize p = theGetSize p + contentSize (theBuf p) \<and> size_ok p \<and> ends_told alive p"

lemma unproducedSize_ok:
  "size_ok p \<Longrightarrow> bodySizeKnown p \<Longrightarrow> unproducedSize p = Inr (nat (theBodySize p - int (thePutSize p)))"
  by (simp add: unproducedSize_def bodySize_def size_ok_def bodySizeKnown_def int64_max_def)

lemma mayNeedMoreData_ok:
  "size_ok p \<Longrightarrow> mayNeedMoreData p = Inr (\<not> bodySizeKnown p \<or> int (thePutSize p) < theBodySize p)"
  by (simp add: mayNeedMoreData_def needsMoreData_def unproducedSize_ok)

definition end_note :: "nat set \<Rightarrow> body_pipe \<Rightarrow> body_call list" where
  "end_note alive p =
     (if job_valid alive (theConsumer p)
      then [if complete p then noteBodyProductionEnded (the (theConsumer p)) else noteBodyProducerAborted (the (theConsumer p))]
      else [])"

definition data_note :: "nat set \<Rightarrow> body_pipe \<Rightarrow> body_call list" where
  "data_note alive p = (if job_valid alive (theConsumer p) then [noteMoreBodyDataAvailable (the (theConsumer p))] else [])"

lemma scheduleEnd_eq: "scheduleBodyEndNotification alive p = Inr (p\<lparr>calls := calls p @ end_note alive p\<rparr>)"
  by (auto simp: scheduleBodyEndNotification_def end_note_def schedule_call_def bodySize_def bodySizeKnown_def complete_def)

lemma scheduleData_eq: "scheduleBodyDataNotification alive p = p\<lparr>calls := calls p @ data_note alive p\<rparr>"
  by (simp add: scheduleBodyDataNotification_def data_note_def schedule_call_def)

text \<open>Two states of a pipe with the same data, sizes and flags: only jobs, announcements and promises differ.\<close>

definition same_data :: "body_pipe \<Rightarrow> body_pipe \<Rightarrow> bool" where
  "same_data p p' \<longleftrightarrow> theBuf p' = theBuf p \<and> thePutSize p' = thePutSize p \<and> theGetSize p' = theGetSize p \<and>
     isCheckedOut p' = isCheckedOut p"

lemma same_data_refl [simp]: "same_data p p"
  by (simp add: same_data_def)

lemma same_data_trans: "same_data p q \<Longrightarrow> same_data q r \<Longrightarrow> same_data p r"
  by (auto simp: same_data_def)

lemma pipe_ok_same_data:
  "pipe_ok alive p \<Longrightarrow> same_data p p' \<Longrightarrow> theBodySize p' = theBodySize p \<Longrightarrow> ends_told alive p' \<Longrightarrow> pipe_ok alive p'"
  by (auto simp: pipe_ok_def same_data_def size_ok_def bodySizeKnown_def)

lemma end_noted_mono: "end_noted j p \<Longrightarrow> set (calls p) \<subseteq> set (calls p') \<Longrightarrow> end_noted j p'"
  by (auto simp: end_noted_def)

lemma ends_told_mono:
  "ends_told alive p \<Longrightarrow> theProducer p' = theProducer p \<Longrightarrow> theConsumer p' = theConsumer p \<Longrightarrow>
   set (calls p) \<subseteq> set (calls p') \<Longrightarrow> ends_told alive p'"
  by (auto simp: ends_told_def intro: end_noted_mono)

lemma clearProducer_ok:
  assumes "size_ok p" "ends_told alive p" "theProducer p \<noteq> None \<Longrightarrow> atEof \<or> \<not> complete p"
  shows "\<exists>p'. clearProducer alive atEof p = Inr p' \<and> same_data p p' \<and> size_ok p' \<and> ends_told alive p' \<and> theProducer p' = None \<and>
    theConsumer p' = theConsumer p \<and> set (calls p) \<subseteq> set (calls p') \<and>
    (bodySizeKnown p \<longrightarrow> theBodySize p' = theBodySize p)"
proof (cases "theProducer p")
  case None
  then show ?thesis using assms by (intro exI [of _ p]) (auto simp: clearProducer_def)
next
  case (Some n)
  define p1 where "p1 = p\<lparr>theProducer := None,
      theBodySize := if atEof \<and> \<not> bodySizeKnown p then int (thePutSize p) else theBodySize p\<rparr>"
  have w: "wrap64 (int (thePutSize p)) = int (thePutSize p)"
    using assms(1) by (intro wrap64_id) (auto simp: size_ok_def int64_min_def)
  have "\<not> atEof \<Longrightarrow> bodySizeKnown p \<Longrightarrow> nat (theBodySize p) \<noteq> thePutSize p"
    using assms(3) Some by (auto simp: complete_def bodySizeKnown_def)
  then have "clearProducer alive atEof p = scheduleBodyEndNotification alive p1"
    using Some w by (auto simp: clearProducer_def p1_def Let_def bodySize_def bodySizeKnown_def)
  also have "\<dots> = Inr (p1\<lparr>calls := calls p1 @ end_note alive p1\<rparr>)" by (rule scheduleEnd_eq)
  finally show ?thesis
    using assms(1) by (intro exI [of _ "p1\<lparr>calls := calls p1 @ end_note alive p1\<rparr>"])
      (auto simp: p1_def same_data_def size_ok_def bodySizeKnown_def ends_told_def end_noted_def end_note_def job_valid_def)
qed

lemma startAutoConsumption_ok:
  assumes "mustAutoConsume p" "\<not> job_valid alive (theConsumer p)"
  shows "startAutoConsumption alive p =
    Inr (p\<lparr>theConsumer := Some BodySink, calls := calls p @ [noteMoreBodyDataAvailable BodySink]\<rparr>)"
  using assms by (simp add: startAutoConsumption_def scheduleData_eq data_note_def job_valid_def)

lemma job_valid_Sink [simp]: "job_valid alive (Some BodySink)" "\<not> job_valid alive None"
  by (simp_all add: job_valid_def)

lemma postAppend_ok:
  assumes "mem_buf_ok (theBuf p)" "max_capacity (theBuf p) = MaxCapacity" "\<not> isCheckedOut p" "ends_told alive p"
    and "thePutSize p + n = theGetSize p + contentSize (theBuf p)" "size_ok (p\<lparr>thePutSize := thePutSize p + n\<rparr>)"
  shows "\<exists>p'. postAppend alive n p = Inr p' \<and> pipe_ok alive p' \<and> theBuf p' = theBuf p \<and> theGetSize p' = theGetSize p \<and>
    thePutSize p' = thePutSize p + n \<and> (complete p' \<and> bodySizeKnown p \<longrightarrow> theProducer p' = None)"
proof -
  define p1 where "p1 = p\<lparr>thePutSize := thePutSize p + n\<rparr>"
  have told1: "ends_told alive p1" using assms(4) by (rule ends_told_mono) (simp_all add: p1_def)
  define p2 where "p2 = (if mustAutoConsume p1 \<and> \<not> job_valid alive (theConsumer p1) \<and> n > 0
    then p1\<lparr>theConsumer := Some BodySink, calls := calls p1 @ [noteMoreBodyDataAvailable BodySink]\<rparr> else p1)"
  have told2: "ends_told alive p2"
    using told1 by (auto simp: p2_def ends_told_def end_noted_def)
  define p3 where "p3 = p2\<lparr>calls := calls p2 @ data_note alive p2\<rparr>"
  have told3: "ends_told alive p3" using told2 by (rule ends_told_mono) (auto simp: p3_def)
  have size3: "size_ok p3" and same3: "same_data p1 p3" "theBodySize p3 = theBodySize p"
    using assms(6) by (auto simp: p3_def p2_def p1_def size_ok_def bodySizeKnown_def same_data_def)
  have run: "postAppend alive n p = (if int (thePutSize p3) < theBodySize p3 \<or> \<not> bodySizeKnown p3 then Inr p3 else clearProducer alive True p3)"
    using assms(3) mayNeedMoreData_ok [OF size3]
    by (auto simp: postAppend_def Let_def p1_def [symmetric] p2_def startAutoConsumption_ok scheduleData_eq p3_def)
  have ok: "pipe_ok alive p'" if "same_data p3 p'" "size_ok p'" "ends_told alive p'" for p'
    using that same3(1) assms(1-3,5) by (auto simp: pipe_ok_def same_data_def p1_def)
  show ?thesis
  proof (cases "int (thePutSize p3) < theBodySize p3 \<or> \<not> bodySizeKnown p3")
    case True
    then show ?thesis
      using run ok [of p3] size3 told3 same3
      by (intro exI [of _ p3]) (auto simp: same_data_def p1_def complete_def bodySizeKnown_def)
  next
    case False
    obtain p' where p': "clearProducer alive True p3 = Inr p'" "same_data p3 p'" "size_ok p'" "ends_told alive p'" "theProducer p' = None"
      using clearProducer_ok [OF size3 told3, of True] by auto
    then show ?thesis
      using run ok [of p'] False same3(1) by (intro exI [of _ p']) (auto simp: same_data_def p1_def)
  qed
qed

lemma putMoreData_ok:
  assumes ok: "pipe_ok alive p" and lim: "int (thePutSize p + length xs) \<le> int64_max"
  defines "n \<equiv> min (if bodySizeKnown p then min (length xs) (nat (theBodySize p - int (thePutSize p))) else length xs)
                  (potentialSpaceSize (theBuf p))"
  shows "\<exists>p'. putMoreData alive xs p = Inr (n, p') \<and> pipe_ok alive p' \<and> content (theBuf p') = content (theBuf p) @ take n xs \<and>
    theGetSize p' = theGetSize p"
proof -
  have sz: "size_ok p" and told: "ends_told alive p" and mb: "mem_buf_ok (theBuf p)" using ok by (auto simp: pipe_ok_def)
  have put: "putMoreData alive xs p = (if n \<noteq> 0 then
       bindE (mem_append (take n xs) (theBuf p)) (\<lambda>b. bindE (postAppend alive n (p\<lparr>theBuf := b\<rparr>)) (\<lambda>p'. Inr (n, p')))
     else Inr (0, p))"
    using sz by (simp add: putMoreData_def n_def unproducedSize_ok Let_def)
  show ?thesis
  proof (cases "n = 0")
    case True
    then show ?thesis using put ok by (intro exI [of _ p]) simp
  next
    case False
    have len: "length (take n xs) = n" by (simp add: n_def)
    obtain b where b: "mem_append (take n xs) (theBuf p) = Inr b" "mem_buf_ok b" "content b = content (theBuf p) @ take n xs"
      using mb.put_ok [OF mb, of "take n xs"] len by (auto simp: n_def)
    have cap: "max_capacity b = max_capacity (theBuf p)"
    proof -
      have "n \<le> max (spaceSize (theBuf p)) (potentialSpaceSize (theBuf p))" by (simp add: n_def le_max_iff_disj)
      then show ?thesis using append_ok [OF mb, of "take n xs"] b(1) unfolding len by auto
    qed
    let ?q = "p\<lparr>theBuf := b\<rparr>"
    have a: "size_ok (?q\<lparr>thePutSize := thePutSize ?q + n\<rparr>)"
    proof -
      have "n \<le> length xs" by (auto simp: n_def)
      moreover have "n \<le> nat (theBodySize p - int (thePutSize p))" if "bodySizeKnown p" using that by (simp add: n_def)
      ultimately show ?thesis using sz lim by (auto simp: size_ok_def bodySizeKnown_def)
    qed
    have c: "mem_buf_ok (theBuf ?q)" "max_capacity (theBuf ?q) = MaxCapacity" "\<not> isCheckedOut ?q" "ends_told alive ?q"
      using told ok b(2) cap by (simp_all add: ends_told_def end_noted_def pipe_ok_def)
    have "thePutSize ?q + n = theGetSize ?q + contentSize (theBuf ?q)"
      using ok b(3) len by (simp add: pipe_ok_def contentSize_def)
    from postAppend_ok [OF c this a] obtain p' where "postAppend alive n ?q = Inr p'" "pipe_ok alive p'" "theBuf p' = b" "theGetSize p' = theGetSize p"
      by auto
    then show ?thesis using put b False by auto
  qed
qed

lemma postConsume_ok:
  assumes "pipe_ok alive p" "n \<le> contentSize (theBuf p)"
  shows "\<exists>p'. postConsume n (p\<lparr>theBuf := (theBuf p)\<lparr>content := drop n (content (theBuf p))\<rparr>\<rparr>) = Inr p' \<and> pipe_ok alive p' \<and>
    content (theBuf p') = drop n (content (theBuf p)) \<and> theGetSize p' = theGetSize p + n"
proof -
  define q where "q = p\<lparr>theBuf := (theBuf p)\<lparr>content := drop n (content (theBuf p))\<rparr>, theGetSize := theGetSize p + n\<rparr>"
  have q: "pipe_ok alive q"
    using assms by (auto simp: q_def pipe_ok_def size_ok_def bodySizeKnown_def ends_told_def end_noted_def mem_buf_ok_def contentSize_def)
  have q': "pipe_ok alive (schedule_call c q)" if "c = noteMoreBodySpaceAvailable (theProducer q)" for c
    using q that by (auto simp: pipe_ok_def size_ok_def bodySizeKnown_def ends_told_def end_noted_def schedule_call_def)
  have "size_ok q" using q by (simp add: pipe_ok_def)
  then have "postConsume n (p\<lparr>theBuf := (theBuf p)\<lparr>content := drop n (content (theBuf p))\<rparr>\<rparr>) =
      Inr (if \<not> bodySizeKnown q \<or> int (thePutSize q) < theBodySize q
           then schedule_call (noteMoreBodySpaceAvailable (theProducer q)) q else q)"
    using assms(1) by (simp add: postConsume_def Let_def mayNeedMoreData_ok q_def pipe_ok_def)
  moreover have "content (theBuf q) = drop n (content (theBuf p))" "theGetSize q = theGetSize p + n" by (simp_all add: q_def)
  ultimately show ?thesis using q q' by (auto simp: schedule_call_def)
qed

lemma pipe_consume_ok:
  assumes "pipe_ok alive p" "n \<le> contentSize (theBuf p)"
  shows "\<exists>p'. pipe_consume n p = Inr p' \<and> pipe_ok alive p' \<and>
    content (theBuf p') = drop n (content (theBuf p)) \<and> theGetSize p' = theGetSize p + n"
  using postConsume_ok [OF assms] consume_ok [of "theBuf p" n] assms by (simp add: pipe_consume_def pipe_ok_def)

lemma getMoreData_ok:
  assumes "pipe_ok alive p" "mem_buf_ok mb"
  defines "n \<equiv> min (contentSize (theBuf p)) (potentialSpaceSize mb)"
  shows "\<exists>mb' p'. getMoreData mb p = Inr (n, mb', p') \<and> pipe_ok alive p' \<and> content mb' = content mb @ take n (content (theBuf p)) \<and>
    content (theBuf p') = drop n (content (theBuf p)) \<and> theGetSize p' = theGetSize p + n"
proof (cases "hasContent (theBuf p)")
  case False
  then have "n = 0" by (simp add: n_def hasContent_def)
  then show ?thesis using assms False by (simp add: getMoreData_def)
next
  case True
  have "isNull mb = Inr False" using assms(2) by (auto simp: isNull_def mem_buf_ok_def)
  moreover obtain mb' where "mem_append (take n (content (theBuf p))) mb = Inr mb'" "content mb' = content mb @ take n (content (theBuf p))"
    using mb.put_ok [OF assms(2), of "take n (content (theBuf p))"] by (auto simp: n_def contentSize_def)
  ultimately show ?thesis
    using True postConsume_ok [OF assms(1), of n] consume_ok [of "theBuf p" n] assms(1)
    by (auto simp: getMoreData_def n_def [symmetric] Let_def pipe_ok_def) (auto simp: n_def)
qed

lemma same_state_ok:
  "pipe_ok alive p \<Longrightarrow> same_data p p' \<Longrightarrow> theBodySize p' = theBodySize p \<Longrightarrow> theProducer p' = theProducer p \<Longrightarrow>
   theConsumer p' \<in> {theConsumer p, None, Some BodySink} \<Longrightarrow> set (calls p) \<subseteq> set (calls p') \<Longrightarrow> pipe_ok alive p'"
  by (rule pipe_ok_same_data) (auto simp: pipe_ok_def ends_told_def intro: end_noted_mono)

lemma exhausted_ok:
  "pipe_ok alive p \<Longrightarrow> \<exists>b. exhausted alive p = Inr b"
  by (auto simp: exhausted_def expectMoreAfter_def mayNeedMoreData_ok pipe_ok_def)

lemma expectNoConsumption_ok:
  assumes "pipe_ok alive p" "\<not> job_valid alive (theConsumer p)"
  shows "\<exists>p'. expectNoConsumption alive p = Inr p' \<and> pipe_ok alive p' \<and> same_data p p'"
proof -
  define p1 where "p1 = (schedule_call (noteBodyConsumerAborted (theProducer p)) p)\<lparr>abortedConsumption := True\<rparr>"
  have p1: "pipe_ok alive p1" "same_data p p1" "theConsumer p1 = theConsumer p"
    using same_state_ok [OF assms(1), of p1] by (auto simp: p1_def same_data_def schedule_call_def)
  define p2 where "p2 = p1\<lparr>theConsumer := Some BodySink, calls := calls p1 @ [noteMoreBodyDataAvailable BodySink]\<rparr>"
  have p2: "pipe_ok alive p2" "same_data p1 p2"
    using same_state_ok [OF p1(1), of p2] by (auto simp: p2_def same_data_def)
  obtain b where b: "exhausted alive p = Inr b" using exhausted_ok [OF assms(1)] by blast
  have "expectNoConsumption alive p =
      Inr (if abortedConsumption p \<or> b then p else if mustAutoConsume p1 then p2 else p1)"
    using assms(2) b p1(3)
    by (auto simp: expectNoConsumption_def p1_def [symmetric] Let_def startAutoConsumption_ok p2_def)
  then show ?thesis using assms(1) p1 p2 same_data_trans by auto
qed

lemma clearConsumer_ok:
  assumes "pipe_ok alive p"
  shows "\<exists>p'. clearConsumer alive p = Inr p' \<and> pipe_ok alive p' \<and> same_data p p'"
proof -
  have "pipe_ok alive (p\<lparr>theConsumer := None\<rparr>)" "same_data p (p\<lparr>theConsumer := None\<rparr>)"
    using same_state_ok [OF assms, of "p\<lparr>theConsumer := None\<rparr>"] by (auto simp: same_data_def)
  then show ?thesis
    using expectNoConsumption_ok [of alive "p\<lparr>theConsumer := None\<rparr>"] assms
    by (auto simp: clearConsumer_def Let_def intro: same_data_trans)
qed

lemma enableAutoConsumption_ok:
  assumes "pipe_ok alive p"
  shows "\<exists>p'. enableAutoConsumption alive p = Inr p' \<and> pipe_ok alive p' \<and> same_data p p'"
proof -
  define p1 where "p1 = p\<lparr>mustAutoConsume := True\<rparr>"
  define p2 where "p2 = p1\<lparr>theConsumer := Some BodySink, calls := calls p1 @ [noteMoreBodyDataAvailable BodySink]\<rparr>"
  have "pipe_ok alive p1" "same_data p p1" "pipe_ok alive p2" "same_data p p2"
    using same_state_ok [OF assms, of p1] same_state_ok [OF assms, of p2] by (auto simp: p1_def p2_def same_data_def)
  moreover have "enableAutoConsumption alive p = Inr p1 \<or> enableAutoConsumption alive p = Inr p2"
    by (auto simp: enableAutoConsumption_def p1_def p2_def Let_def startAutoConsumption_ok)
  ultimately show ?thesis by auto
qed

lemma setConsumerIfNotLate_ok:
  assumes "pipe_ok alive p" "\<not> job_valid alive (theConsumer p)" "theGetSize p = 0 \<longrightarrow> \<not> abortedConsumption p"
    and "0 < theGetSize p \<longrightarrow> mustAutoConsume p"
  shows "\<exists>b p'. setConsumerIfNotLate alive c p = Inr (b, p') \<and> pipe_ok alive p' \<and> same_data p p'"
proof (cases "0 < theGetSize p")
  case True
  then show ?thesis using assms by (auto simp: setConsumerIfNotLate_def)
next
  case False
  define p1 where "p1 = p\<lparr>theConsumer := Some (Job c)\<rparr>"
  define p2 where "p2 = (if hasContent (theBuf p1) then scheduleBodyDataNotification alive p1 else p1)"
  define p3 where "p3 = (if producer_valid alive p2 then p2 else p2\<lparr>calls := calls p2 @ end_note alive p2\<rparr>)"
  have "setConsumerIfNotLate alive c p = Inr (True, p3)"
    using assms False by (simp add: setConsumerIfNotLate_def p1_def [symmetric] Let_def p2_def [symmetric] p3_def scheduleEnd_eq)
  moreover have same: "same_data p p3" "theBodySize p3 = theBodySize p" "theConsumer p3 = Some (Job c)"
    by (auto simp: same_data_def p3_def p2_def p1_def scheduleData_eq)
  moreover have "ends_told alive p3"
    by (auto simp: ends_told_def p3_def p2_def p1_def scheduleData_eq producer_valid_def end_noted_def end_note_def job_valid_def split: option.splits)
  ultimately show ?thesis using pipe_ok_same_data [OF assms(1)] by blast
qed

lemma setBodySize_ok:
  assumes "pipe_ok alive p" "\<not> bodySizeKnown p" "thePutSize p \<le> n" "int n \<le> int64_max" "\<not> job_valid alive (theConsumer p)"
  shows "\<exists>p'. setBodySize alive n p = Inr p' \<and> pipe_ok alive p' \<and> same_data p p' \<and> theBodySize p' = int n"
proof -
  have "wrap64 (int n) = int n" using assms(4) by (intro wrap64_id) (auto simp: int64_min_def)
  with assms show ?thesis
    by (auto simp: setBodySize_def pipe_ok_def size_ok_def bodySizeKnown_def same_data_def ends_told_def end_noted_def)
qed

lemma clearProducer_pipe_ok:
  assumes "pipe_ok alive p" "theProducer p \<noteq> None \<Longrightarrow> atEof \<or> \<not> complete p"
  shows "\<exists>p'. clearProducer alive atEof p = Inr p' \<and> pipe_ok alive p' \<and> same_data p p' \<and> theProducer p' = None"
proof -
  have "size_ok p" "ends_told alive p" using assms(1) by (auto simp: pipe_ok_def)
  from clearProducer_ok [OF this assms(2)] obtain p' where
    "clearProducer alive atEof p = Inr p'" "same_data p p'" "size_ok p'" "ends_told alive p'" "theProducer p' = None" by blast
  then show ?thesis using assms(1) by (auto simp: pipe_ok_def same_data_def)
qed

text \<open>A producer that writes into the checked-out buffer, and a consumer that takes data out of it.\<close>

lemma checkout_append_ok:
  assumes "pipe_ok alive p" "length xs \<le> potentialSpaceSize (theBuf p)" "int (thePutSize p + length xs) \<le> int64_max"
    and "bodySizeKnown p \<longrightarrow> int (thePutSize p + length xs) \<le> theBodySize p"
  shows "\<exists>co p1 b p'. checkOut p = Inr (co, p1) \<and> mem_append xs (theBuf p1) = Inr b \<and> checkIn alive co (p1\<lparr>theBuf := b\<rparr>) = Inr p' \<and>
    pipe_ok alive p' \<and> content (theBuf p') = content (theBuf p) @ xs \<and> theGetSize p' = theGetSize p"
proof -
  have mb: "mem_buf_ok (theBuf p)" "\<not> isCheckedOut p" using assms(1) by (auto simp: pipe_ok_def)
  obtain cap where b: "mem_append xs (theBuf p) = Inr ((theBuf p)\<lparr>content := content (theBuf p) @ xs, capacity := cap\<rparr>)"
      "contentSize (theBuf p) + length xs < cap"
    using append_ok [OF mb(1) le_trans [OF assms(2) max.cobounded2]] by blast
  define bb where "bb = (theBuf p)\<lparr>content := content (theBuf p) @ xs, capacity := cap\<rparr>"
  have bb: "mem_buf_ok bb" "max_capacity bb = MaxCapacity" "content bb = content (theBuf p) @ xs"
    using assms(1) b(2) by (auto simp: bb_def pipe_ok_def mem_buf_ok_def contentSize_def)
  let ?co = "\<lparr>co_offset = theGetSize p, checkedOutSize = contentSize (theBuf p)\<rparr>"
  let ?q = "p\<lparr>theBuf := bb\<rparr>"
  have in_eq: "checkIn alive ?co (p\<lparr>isCheckedOut := True, theBuf := bb\<rparr>) = (if xs = [] then Inr ?q else postAppend alive (length xs) ?q)"
  proof -
    have "p\<lparr>theBuf := bb, isCheckedOut := False\<rparr> = ?q" using mb(2) by (cases p) simp
    then show ?thesis using bb(3) by (auto simp: checkIn_def Let_def contentSize_def)
  qed
  have q: "ends_told alive ?q" "size_ok (?q\<lparr>thePutSize := thePutSize ?q + length xs\<rparr>)"
    "thePutSize ?q + length xs = theGetSize ?q + contentSize (theBuf ?q)"
    using assms bb by (auto simp: pipe_ok_def ends_told_def end_noted_def size_ok_def bodySizeKnown_def contentSize_def)
  have "\<exists>p'. checkIn alive ?co (p\<lparr>isCheckedOut := True, theBuf := bb\<rparr>) = Inr p' \<and> pipe_ok alive p' \<and>
      content (theBuf p') = content (theBuf p) @ xs \<and> theGetSize p' = theGetSize p"
  proof (cases "xs = []")
    case True
    then have "pipe_ok alive ?q" using assms(1) bb q by (auto simp: pipe_ok_def contentSize_def size_ok_def bodySizeKnown_def)
    then show ?thesis using in_eq True bb by auto
  next
    case False
    then show ?thesis using in_eq postAppend_ok [of ?q alive "length xs"] bb mb(2) q by auto
  qed
  then show ?thesis using b(1) mb(2) by (auto simp: checkOut_def bb_def)
qed

section \<open>All uses of a pipe\<close>

text \<open>
  A pipe with its history: the jobs that are still valid, the bytes accepted from the producer and
  the bytes handed to the consumer so far.
\<close>

record pipe_sys =
  pipe :: body_pipe
  live :: "nat set"
  sent :: string
  got :: string

datatype pipe_op =
    SetSize nat
  | ExpectEndAfter nat
  | Put string
  | PutDirect string
  | ClearProducer bool
  | SetConsumer nat
  | ClearConsumer
  | NoConsumption
  | Get mem_buf
  | Consume nat
  | AutoConsume
  | SinkData
  | SinkStop
  | Die nat

definition on_pipe :: "pipe_sys \<Rightarrow> body_pipe outcome \<Rightarrow> pipe_sys outcome" where
  "on_pipe s r = bindE r (\<lambda>p. Inr (s\<lparr>pipe := p\<rparr>))"

definition taken :: "nat \<Rightarrow> pipe_sys \<Rightarrow> string" where
  "taken n s = got s @ take n (content (theBuf (pipe s)))"

fun pipe_do :: "pipe_op \<Rightarrow> pipe_sys \<Rightarrow> pipe_sys outcome" where
  "pipe_do (SetSize n) s = on_pipe s (setBodySize (live s) n (pipe s))"
| "pipe_do (ExpectEndAfter n) s = on_pipe s (expectProductionEndAfter n (pipe s))"
| "pipe_do (Put xs) s =
     bindE (putMoreData (live s) xs (pipe s)) (\<lambda>(n, p). Inr (s\<lparr>pipe := p, sent := sent s @ take n xs\<rparr>))"
| "pipe_do (PutDirect xs) s =
     bindE (checkOut (pipe s)) (\<lambda>(co, p1).
     bindE (mem_append xs (theBuf p1)) (\<lambda>b.
     bindE (checkIn (live s) co (p1\<lparr>theBuf := b\<rparr>)) (\<lambda>p. Inr (s\<lparr>pipe := p, sent := sent s @ xs\<rparr>))))"
| "pipe_do (ClearProducer atEof) s = on_pipe s (clearProducer (live s) atEof (pipe s))"
| "pipe_do (SetConsumer c) s = on_pipe s (bindE (setConsumerIfNotLate (live s) c (pipe s)) (\<lambda>(_, p). Inr p))"
| "pipe_do ClearConsumer s = on_pipe s (clearConsumer (live s) (pipe s))"
| "pipe_do NoConsumption s = on_pipe s (expectNoConsumption (live s) (pipe s))"
| "pipe_do (Get mb) s =
     bindE (getMoreData mb (pipe s)) (\<lambda>(n, _, p). Inr (s\<lparr>pipe := p, got := taken n s\<rparr>))"
| "pipe_do (Consume n) s = bindE (pipe_consume n (pipe s)) (\<lambda>p. Inr (s\<lparr>pipe := p, got := taken n s\<rparr>))"
| "pipe_do AutoConsume s = on_pipe s (enableAutoConsumption (live s) (pipe s))"
| "pipe_do SinkData s =
     bindE (sink_noteMoreBodyDataAvailable (pipe s)) (\<lambda>p. Inr (s\<lparr>pipe := p, got := taken (contentSize (theBuf (pipe s))) s\<rparr>))"
| "pipe_do SinkStop s = on_pipe s (sink_stopConsuming (live s) (pipe s))"
| "pipe_do (Die j) s = Inr (s\<lparr>live := live s - {j}\<rparr>)"

text \<open>
  What the callers owe the pipe, as the assertions and comments of the source state it: sizes are set once
  and respected, a finished body is not aborted, a consumer joins only when there is none and no
  byte was lost.
\<close>

fun pipe_allowed :: "pipe_op \<Rightarrow> pipe_sys \<Rightarrow> bool" where
  "pipe_allowed (SetSize n) s =
     (\<not> bodySizeKnown (pipe s) \<and> thePutSize (pipe s) \<le> n \<and> int n \<le> int64_max \<and> \<not> job_valid (live s) (theConsumer (pipe s)))"
| "pipe_allowed (ExpectEndAfter n) s =
     (int (thePutSize (pipe s) + n) \<le> int64_max \<and>
      (bodySizeKnown (pipe s) \<longrightarrow> theBodySize (pipe s) = int (thePutSize (pipe s) + n)))"
| "pipe_allowed (Put xs) s = (int (thePutSize (pipe s) + length xs) \<le> int64_max)"
| "pipe_allowed (PutDirect xs) s =
     (length xs \<le> potentialSpaceSize (theBuf (pipe s)) \<and> int (thePutSize (pipe s) + length xs) \<le> int64_max \<and>
      (bodySizeKnown (pipe s) \<longrightarrow> int (thePutSize (pipe s) + length xs) \<le> theBodySize (pipe s)))"
| "pipe_allowed (ClearProducer atEof) s = (theProducer (pipe s) \<noteq> None \<longrightarrow> atEof \<or> \<not> complete (pipe s))"
| "pipe_allowed (SetConsumer c) s =
     (\<not> job_valid (live s) (theConsumer (pipe s)) \<and>
      (if theGetSize (pipe s) = 0 then \<not> abortedConsumption (pipe s) else mustAutoConsume (pipe s)))"
| "pipe_allowed ClearConsumer s = True"
| "pipe_allowed NoConsumption s = (\<not> job_valid (live s) (theConsumer (pipe s)))"
| "pipe_allowed (Get mb) s = mem_buf_ok mb"
| "pipe_allowed (Consume n) s = (n \<le> contentSize (theBuf (pipe s)))"
| "pipe_allowed AutoConsume s = True"
| "pipe_allowed SinkData s = True"
| "pipe_allowed SinkStop s = True"
| "pipe_allowed (Die j) s = True"

definition pipe_start :: "pipe_sys \<Rightarrow> bool" where
  "pipe_start s \<longleftrightarrow> (\<exists>j. new_body_pipe j = Inr (pipe s)) \<and> sent s = [] \<and> got s = []"

inductive pipe_step :: "pipe_sys \<Rightarrow> pipe_sys \<Rightarrow> bool" where
  doing: "pipe_allowed op s \<Longrightarrow> pipe_do op s = Inr t \<Longrightarrow> pipe_step s t"

definition pipe_inv :: "pipe_sys \<Rightarrow> bool" where
  "pipe_inv s \<longleftrightarrow> pipe_ok (live s) (pipe s) \<and> sent s = got s @ content (theBuf (pipe s)) \<and> length (got s) = theGetSize (pipe s)"

lemma on_pipe_inv:
  assumes "pipe_inv s" "\<exists>p'. r = Inr p' \<and> pipe_ok (live s) p' \<and> same_data (pipe s) p'"
  shows "\<exists>t. on_pipe s r = Inr t \<and> pipe_inv t"
  using assms by (auto simp: on_pipe_def pipe_inv_def same_data_def)

lemma taking_inv:
  assumes "pipe_inv s" "n \<le> contentSize (theBuf (pipe s))" "pipe_ok (live s) p'"
    "content (theBuf p') = drop n (content (theBuf (pipe s)))" "theGetSize p' = theGetSize (pipe s) + n"
  shows "pipe_inv (s\<lparr>pipe := p', got := taken n s\<rparr>)"
  using assms by (auto simp: pipe_inv_def taken_def contentSize_def)

lemma giving_inv:
  assumes "pipe_inv s" "pipe_ok (live s) p'" "content (theBuf p') = content (theBuf (pipe s)) @ ys" "theGetSize p' = theGetSize (pipe s)"
  shows "pipe_inv (s\<lparr>pipe := p', sent := sent s @ ys\<rparr>)"
  using assms by (auto simp: pipe_inv_def)

lemma expectProductionEndAfter_ok:
  assumes "pipe_ok alive p" "int (thePutSize p + n) \<le> int64_max" "bodySizeKnown p \<longrightarrow> theBodySize p = int (thePutSize p + n)"
  shows "\<exists>p'. expectProductionEndAfter n p = Inr p' \<and> pipe_ok alive p' \<and> same_data p p'"
proof (cases "bodySizeKnown p")
  case True
  then have "nat (theBodySize p) = thePutSize p + n" using assms(3) by auto
  then show ?thesis using True assms(1) by (auto simp: expectProductionEndAfter_def Let_def bodySize_def)
next
  case False
  have w: "wrap64 (int (thePutSize p + n)) = int (thePutSize p + n)" using assms(2) by (intro wrap64_id) (auto simp: int64_min_def)
  let ?q = "p\<lparr>theBodySize := int (thePutSize p + n)\<rparr>"
  have "pipe_ok alive ?q"
    using assms(1,2) unfolding pipe_ok_def size_ok_def bodySizeKnown_def ends_told_def end_noted_def by simp
  then show ?thesis using False w by (auto simp: expectProductionEndAfter_def Let_def same_data_def)
qed

lemma pipe_do_ok:
  assumes "pipe_inv s" "pipe_allowed op s"
  shows "\<exists>t. pipe_do op s = Inr t \<and> pipe_inv t"
proof (cases op)
  case (SetSize n)
  then show ?thesis using on_pipe_inv [OF assms(1)] setBodySize_ok [of "live s" "pipe s" n] assms by (auto simp: pipe_inv_def)
next
  case (ExpectEndAfter n)
  then show ?thesis using on_pipe_inv [OF assms(1)] expectProductionEndAfter_ok [of "live s" "pipe s" n] assms by (auto simp: pipe_inv_def)
next
  case (Put xs)
  then show ?thesis
    using putMoreData_ok [of "live s" "pipe s" xs] giving_inv [OF assms(1)] assms by (fastforce simp: pipe_inv_def)
next
  case (PutDirect xs)
  then show ?thesis
    using checkout_append_ok [of "live s" "pipe s" xs] giving_inv [OF assms(1)] assms by (fastforce simp: pipe_inv_def)
next
  case (ClearProducer atEof)
  then show ?thesis using on_pipe_inv [OF assms(1)] clearProducer_pipe_ok [of "live s" "pipe s" atEof] assms by (auto simp: pipe_inv_def)
next
  case (SetConsumer c)
  then show ?thesis
    using on_pipe_inv [OF assms(1)] setConsumerIfNotLate_ok [of "live s" "pipe s" c] assms by (auto simp: pipe_inv_def split: if_splits)
next
  case ClearConsumer
  then show ?thesis using on_pipe_inv [OF assms(1)] clearConsumer_ok [of "live s" "pipe s"] assms by (auto simp: pipe_inv_def)
next
  case NoConsumption
  then show ?thesis using on_pipe_inv [OF assms(1)] expectNoConsumption_ok [of "live s" "pipe s"] assms by (auto simp: pipe_inv_def)
next
  case (Get mb)
  then show ?thesis
    using getMoreData_ok [of "live s" "pipe s" mb] taking_inv [OF assms(1)] assms by (fastforce simp: pipe_inv_def)
next
  case (Consume n)
  then show ?thesis
    using pipe_consume_ok [of "live s" "pipe s" n] taking_inv [OF assms(1)] assms by (auto simp: pipe_inv_def)
next
  case AutoConsume
  then show ?thesis using on_pipe_inv [OF assms(1)] enableAutoConsumption_ok [of "live s" "pipe s"] assms by (auto simp: pipe_inv_def)
next
  case SinkData
  then show ?thesis
    using pipe_consume_ok [of "live s" "pipe s" "contentSize (theBuf (pipe s))"] taking_inv [OF assms(1)] assms
    by (auto simp: pipe_inv_def sink_noteMoreBodyDataAvailable_def)
next
  case SinkStop
  then show ?thesis
    using on_pipe_inv [OF assms(1)] clearConsumer_ok [of "live s" "pipe s"] assms by (auto simp: pipe_inv_def sink_stopConsuming_def)
next
  case (Die j)
  then show ?thesis using assms(1) by (auto simp: pipe_inv_def pipe_ok_def ends_told_def)
qed

lemma pipe_start_inv:
  assumes "pipe_start s" shows "pipe_inv s"
proof -
  obtain b where b: "init_sizes (2 * 1024) MaxCapacity new_mem_buf = Inr b" "mem_buf_ok b" "content b = []" "max_capacity b = MaxCapacity"
    using init_sizes_ok [of "2 * 1024" MaxCapacity new_mem_buf] by (auto simp: MaxCapacity_def)
  then obtain j where p: "pipe s = \<lparr>theBodySize = - 1, theProducer = Some j, theConsumer = None, thePutSize = 0, theGetSize = 0,
      theBuf = b, mustAutoConsume = False, abortedConsumption = False, isCheckedOut = False, calls = []\<rparr>" "sent s = []" "got s = []"
    using assms by (auto simp: pipe_start_def new_body_pipe_def dest: sym)
  then show ?thesis
    using b by (simp add: pipe_inv_def pipe_ok_def size_ok_def bodySizeKnown_def ends_told_def contentSize_def int64_max_def)
qed

interpretation bp: invariant_system pipe_start pipe_step pipe_inv
  by unfold_locales (auto simp: pipe_start_inv elim!: pipe_step.cases dest: pipe_do_ok)



section \<open>A sink that starts after the end of production\<close>

text \<open>
  When auto-consumption starts on a pipe whose producer is gone, the sink is told about the data but not
  about the end: after it has drained the pipe it stays the consumer, no call that could make it stop has been
  scheduled, and destroying the pipe would fail an assertion.
\<close>
theorem body_sink_never_stops:
  assumes "pipe_ok alive p" "theProducer p = None" "\<not> job_valid alive (theConsumer p)" "hasContent (theBuf p)"
    and "\<not> end_noted BodySink p"
  shows "\<exists>p1 p2. enableAutoConsumption alive p = Inr p1 \<and> calls p1 = calls p @ [noteMoreBodyDataAvailable BodySink] \<and>
    sink_noteMoreBodyDataAvailable p1 = Inr p2 \<and> \<not> hasContent (theBuf p2) \<and> theConsumer p2 = Some BodySink \<and>
    \<not> end_noted BodySink p2 \<and> destroy alive p2 = Inl AssertFault"
proof -
  define p1 where "p1 = p\<lparr>mustAutoConsume := True, theConsumer := Some BodySink, calls := calls p @ [noteMoreBodyDataAvailable BodySink]\<rparr>"
  have auto: "enableAutoConsumption alive p = Inr p1"
    using assms by (simp add: enableAutoConsumption_def Let_def startAutoConsumption_ok p1_def)
  have ok1: "pipe_ok alive p1"
    using same_state_ok [OF assms(1), of p1] by (auto simp: p1_def same_data_def)
  define q where "q = p1\<lparr>theBuf := (theBuf p1)\<lparr>content := []\<rparr>, theGetSize := theGetSize p1 + contentSize (theBuf p1)\<rparr>"
  have "size_ok q" using ok1 by (auto simp: pipe_ok_def size_ok_def q_def bodySizeKnown_def)
  then have "sink_noteMoreBodyDataAvailable p1 = Inr (if \<not> bodySizeKnown q \<or> int (thePutSize q) < theBodySize q
      then schedule_call (noteMoreBodySpaceAvailable (theProducer q)) q else q)"
    using ok1 by (simp add: sink_noteMoreBodyDataAvailable_def pipe_consume_def pipe_ok_def consume_ok postConsume_def Let_def
        contentSize_def q_def mayNeedMoreData_ok)
  then obtain p2 where p2: "sink_noteMoreBodyDataAvailable p1 = Inr p2" "theBuf p2 = theBuf q" "theConsumer p2 = theConsumer q"
    "theProducer p2 = theProducer q" "set (calls p2) \<subseteq> insert (noteMoreBodySpaceAvailable (theProducer q)) (set (calls q))"
    by (auto simp: schedule_call_def split: if_splits)
  moreover have "\<not> end_noted BodySink p2"
    using assms(5) p2(5) by (auto simp: end_noted_def q_def p1_def)
  moreover have "destroy alive p2 = Inl AssertFault"
    using p2(3,4) assms(2) by (simp add: destroy_def q_def p1_def producer_valid_def)
  ultimately show ?thesis
    using auto by (intro exI [of _ p1] exI [of _ p2]) (simp add: p1_def q_def hasContent_def contentSize_def)
qed

theorem body_sink_never_stops_witness:
  "\<exists>p1 p2. enableAutoConsumption {}
      \<lparr>theBodySize = 2, theProducer = None, theConsumer = None, thePutSize = 2, theGetSize = 0,
       theBuf = \<lparr>content = ''ab'', max_capacity = MaxCapacity, capacity = 10, stolen = False\<rparr>,
       mustAutoConsume = False, abortedConsumption = False, isCheckedOut = False, calls = []\<rparr> = Inr p1 \<and>
    sink_noteMoreBodyDataAvailable p1 = Inr p2 \<and> destroy {} p2 = Inl AssertFault"
proof -
  let ?p = "\<lparr>theBodySize = 2, theProducer = None, theConsumer = None, thePutSize = 2, theGetSize = 0,
       theBuf = \<lparr>content = ''ab'', max_capacity = MaxCapacity, capacity = 10, stolen = False\<rparr>,
       mustAutoConsume = False, abortedConsumption = False, isCheckedOut = False, calls = []\<rparr>"
  have "pipe_ok {} ?p"
    by (simp add: pipe_ok_def mem_buf_ok_def contentSize_def size_ok_def bodySizeKnown_def int64_max_def ends_told_def MaxCapacity_def)
  then show ?thesis
    using body_sink_never_stops [of "{}" ?p] by (auto simp: hasContent_def contentSize_def end_noted_def)
qed

end
