(* ===== verification/Delay_Pools.thy ===== *)
theory Delay_Pools
  imports Squid_Prelude Splay_Tree
begin

text \<open>
  Delay pools, which limit the rate at which clients receive data: \<^verbatim>\<open>src/DelayBucket.cc\<close>, \<^verbatim>\<open>src/delay_pools.cc\<close>,
  \<^verbatim>\<open>src/DelayVector.cc\<close>, \<^verbatim>\<open>src/DelayUser.cc\<close>, \<^verbatim>\<open>src/DelayTagged.cc\<close> and \<^verbatim>\<open>src/DelayId.cc\<close>.  A bucket is its level, a
  32-bit \<^verbatim>\<open>int\<close> whose arithmetic is written with its wrap-around (undefined in C++, two's complement in practice).  The objects behind a client's delay
  identifier are addressed by their position in the pool.  Reads that wait for a pool are not part of the
  model.
\<close>

section \<open>Buckets\<close>

definition int_max :: int where
  "int_max = 2147483647"

definition int_min :: int where
  "int_min = - 2147483648"

definition wrap32 :: "int \<Rightarrow> int" where
  "wrap32 x = (x + 2147483648) mod 4294967296 - 2147483648"

record delay_spec =
  restore_bps :: int
  max_bytes :: int

definition new_spec :: delay_spec where
  "new_spec = \<lparr>restore_bps = - 1, max_bytes = - 1\<rparr>"

definition bucket_update :: "delay_spec \<Rightarrow> int \<Rightarrow> int \<Rightarrow> int" where
  "bucket_update rate incr level =
     (if restore_bps rate \<noteq> - 1 then
        let level' = wrap32 (level + wrap32 (restore_bps rate * incr))
        in if level' > max_bytes rate then wrap32 (max_bytes rate) else level'
      else level)"

definition bucket_bytesWanted :: "int \<Rightarrow> int \<Rightarrow> int \<Rightarrow> int" where
  "bucket_bytesWanted minimum maximum level = max minimum (min maximum level)"

definition bucket_bytesIn :: "int \<Rightarrow> int \<Rightarrow> int" where
  "bucket_bytesIn qty level = wrap32 (level - qty)"

text \<open>
  The initial level: a percentage of the maximum, computed in floating point (exact below \<open>2^53\<close>) and
  truncated towards zero.
\<close>

definition bucket_init :: "int \<Rightarrow> delay_spec \<Rightarrow> int" where
  "bucket_init initial rate =
     (let x = max_bytes rate * initial in if 0 \<le> x then x div 100 else - ((- x) div 100))"

section \<open>Maps from key bytes to buckets\<close>

text \<open>The used part of the two arrays of 256 entries, in order of insertion.\<close>

type_synonym 'v vector_map = "(8 word \<times> 'v) list"

definition IND_MAP_SZ :: nat where
  "IND_MAP_SZ = 256"

definition vm_size :: "'v vector_map \<Rightarrow> nat" where
  "vm_size vm = length vm"

definition indexUsed :: "8 word \<Rightarrow> 'v vector_map \<Rightarrow> bool" where
  "indexUsed index vm = (unat index < vm_size vm)"

text \<open>The position of a key, or the position to allocate: an \<^verbatim>\<open>unsigned char\<close>.\<close>

definition findKeyIndex :: "8 word \<Rightarrow> 'v vector_map \<Rightarrow> 8 word" where
  "findKeyIndex key vm = of_nat (length (takeWhile (\<lambda>kv. fst kv \<noteq> key) vm))"

definition vm_insert :: "8 word \<Rightarrow> 'v \<Rightarrow> 'v vector_map \<Rightarrow> (8 word \<times> 'v vector_map) outcome" where
  "vm_insert key v vm =
     (let index = findKeyIndex key vm
      in guardE (\<not> indexUsed index vm) AssertFault
           (guardE (unat index < IND_MAP_SZ) OutOfBounds (Inr (index, vm @ [(key, v)]))))"

definition vm_set :: "nat \<Rightarrow> 'v \<Rightarrow> 'v vector_map \<Rightarrow> 'v vector_map" where
  "vm_set i v vm = vm[i := (fst (vm ! i), v)]"

section \<open>Pool nodes\<close>

datatype vector_kind = IndividualPool | ClassCNetPool
datatype named_kind = DelayUser | DelayTagged

record class_c_bucket =
  net :: int
  individuals :: "int vector_map"

datatype pool_node =
    Aggregate delay_spec int
  | VectorPool vector_kind delay_spec "int vector_map"
  | ClassCHostPool delay_spec "class_c_bucket vector_map"
  | NamedPool named_kind delay_spec "(string \<times> int) tree"

text \<open>What is known of a client: its IPv4 address if it has one, its user name and its tag.\<close>

record selection_details =
  src_addr :: "32 word option"
  user_name :: "string option"
  tag :: string

datatype delay_id =
    NullDelayId
  | AggregateId
  | VectorId nat
  | HostId nat nat
  | NamedId string

definition makeKey :: "vector_kind \<Rightarrow> 32 word option \<Rightarrow> 8 word" where
  "makeKey kind a =
     (case a of
        None \<Rightarrow> 1
      | Some w \<Rightarrow> (case kind of IndividualPool \<Rightarrow> ucast w | ClassCNetPool \<Rightarrow> ucast (drop_bit 8 w)))"

definition host_net_key :: "32 word option \<Rightarrow> 8 word" where
  "host_net_key a = (case a of None \<Rightarrow> 1 | Some w \<Rightarrow> ucast (drop_bit 8 w))"

definition makeHostKey :: "32 word option \<Rightarrow> 8 word" where
  "makeHostKey a = (case a of None \<Rightarrow> 1 | Some w \<Rightarrow> ucast w)"

definition lower_char :: "char \<Rightarrow> nat" where
  "lower_char c = (let n = of_char c in if 65 \<le> n \<and> n \<le> 90 then n + 32 else n)"

fun strcasecmp :: "string \<Rightarrow> string \<Rightarrow> int" where
  "strcasecmp [] [] = 0"
| "strcasecmp [] (b # bs) = - 1"
| "strcasecmp (a # as) [] = 1"
| "strcasecmp (a # as) (b # bs) =
     (if lower_char a = lower_char b then strcasecmp as bs
      else if lower_char a < lower_char b then - 1 else 1)"

definition named_cmp :: "string \<Rightarrow> (string \<times> int) \<Rightarrow> int" where
  "named_cmp name b = strcasecmp name (fst b)"

definition vector_id :: "int \<Rightarrow> vector_kind \<Rightarrow> delay_spec \<Rightarrow> int vector_map \<Rightarrow> selection_details \<Rightarrow> (delay_id \<times> int vector_map) outcome" where
  "vector_id initial kind spec vm details =
     (if restore_bps spec = - 1 \<or> src_addr details = None then Inr (NullDelayId, vm)
      else let key = makeKey kind (src_addr details); index = findKeyIndex key vm
           in if indexUsed index vm then Inr (VectorId (unat index), vm)
              else bindE (vm_insert key (bucket_init initial spec) vm) (\<lambda>(i, vm'). Inr (VectorId (unat i), vm')))"

definition hostPosition :: "int \<Rightarrow> delay_spec \<Rightarrow> 8 word \<Rightarrow> class_c_bucket \<Rightarrow> (8 word \<times> class_c_bucket) outcome" where
  "hostPosition initial spec host b =
     (let result = findKeyIndex host (individuals b)
      in if indexUsed result (individuals b) then Inr (result, b)
         else guardE (\<not> indexUsed result (individuals b)) AssertFault
           (bindE (vm_insert host (bucket_init initial spec) (individuals b)) (\<lambda>(_, vm').
              Inr (result, b\<lparr>individuals := vm'\<rparr>))))"

definition host_id :: "int \<Rightarrow> delay_spec \<Rightarrow> class_c_bucket vector_map \<Rightarrow> selection_details \<Rightarrow>
    (delay_id \<times> class_c_bucket vector_map) outcome" where
  "host_id initial spec vm details =
     (if restore_bps spec = - 1 \<or> src_addr details = None then Inr (NullDelayId, vm)
      else let key = host_net_key (src_addr details); host = makeHostKey (src_addr details); index = findKeyIndex key vm
           in bindE (if indexUsed index vm then Inr (index, vm)
                     else vm_insert key \<lparr>net = 0, individuals = []\<rparr> vm) (\<lambda>(netIndex, vm1).
              bindE (hostPosition initial spec host (snd (vm1 ! unat netIndex))) (\<lambda>(hostIndex, b).
                Inr (HostId (unat netIndex) (unat hostIndex), vm_set (unat netIndex) b vm1))))"

text \<open>The users and tags of a pool are kept in a splay tree, which the search rearranges.\<close>

definition named_id :: "int \<Rightarrow> delay_spec \<Rightarrow> (string \<times> int) tree \<Rightarrow> string \<Rightarrow> (delay_id \<times> (string \<times> int) tree)" where
  "named_id initial spec t name =
     (let (t', res) = splay (named_cmp name) t
      in case (if res \<noteq> 0 then None else node_data t') of
           Some b \<Rightarrow> (NamedId (fst b), t')
         | None \<Rightarrow> (NamedId name, fst (node_insert (named_cmp name) (name, bucket_init initial spec) t')))"

fun node_id :: "int \<Rightarrow> selection_details \<Rightarrow> pool_node \<Rightarrow> (delay_id \<times> pool_node) outcome" where
  "node_id initial details (Aggregate spec level) =
     Inr (if restore_bps spec \<noteq> - 1 then AggregateId else NullDelayId, Aggregate spec level)"
| "node_id initial details (VectorPool kind spec vm) =
     bindE (vector_id initial kind spec vm details) (\<lambda>(i, vm'). Inr (i, VectorPool kind spec vm'))"
| "node_id initial details (ClassCHostPool spec vm) =
     bindE (host_id initial spec vm details) (\<lambda>(i, vm'). Inr (i, ClassCHostPool spec vm'))"
| "node_id initial details (NamedPool kind spec t) =
     (let name = (case kind of DelayUser \<Rightarrow> user_name details
                  | DelayTagged \<Rightarrow> if tag details = [] then None else Some (tag details))
      in case name of
           None \<Rightarrow> Inr (NullDelayId, NamedPool kind spec t)
         | Some s \<Rightarrow> let (i, t') = named_id initial spec t s in Inr (i, NamedPool kind spec t'))"

fun node_update :: "int \<Rightarrow> pool_node \<Rightarrow> pool_node outcome" where
  "node_update incr (Aggregate spec level) = Inr (Aggregate spec (bucket_update spec incr level))"
| "node_update incr (VectorPool kind spec vm) =
     Inr (VectorPool kind spec
       (if restore_bps spec = - 1 then vm else map (\<lambda>(k, l). (k, bucket_update spec incr l)) vm))"
| "node_update incr (ClassCHostPool spec vm) =
     (if restore_bps spec = - 1 then Inr (ClassCHostPool spec vm)
      else guardE (vm = [] \<or> restore_bps spec \<noteq> - 1) AssertFault
        (Inr (ClassCHostPool spec
          (map (\<lambda>(k, b). (k, b\<lparr>individuals := map (\<lambda>(h, l). (h, bucket_update spec incr l)) (individuals b)\<rparr>)) vm))))"
| "node_update incr (NamedPool kind spec t) =
     Inr (NamedPool kind spec (map_tree (\<lambda>(n, l). (n, bucket_update spec incr l)) t))"

text \<open>The level of the bucket that an identifier stands for, and the node with that bucket changed.\<close>

fun bucket_level :: "delay_id \<Rightarrow> pool_node \<Rightarrow> int option" where
  "bucket_level AggregateId (Aggregate spec level) = Some level"
| "bucket_level (VectorId i) (VectorPool kind spec vm) = (if i < length vm then Some (snd (vm ! i)) else None)"
| "bucket_level (HostId n h) (ClassCHostPool spec vm) =
     (if n < length vm \<and> h < length (individuals (snd (vm ! n))) then Some (snd (individuals (snd (vm ! n)) ! h)) else None)"
| "bucket_level (NamedId name) (NamedPool kind spec t) = map_of (inorder t) name"
| "bucket_level _ _ = None"

fun with_level :: "delay_id \<Rightarrow> (int \<Rightarrow> int) \<Rightarrow> pool_node \<Rightarrow> pool_node" where
  "with_level AggregateId f (Aggregate spec level) = Aggregate spec (f level)"
| "with_level (VectorId i) f (VectorPool kind spec vm) =
     VectorPool kind spec (if i < length vm then vm_set i (f (snd (vm ! i))) vm else vm)"
| "with_level (HostId n h) f (ClassCHostPool spec vm) =
     ClassCHostPool spec
       (if n < length vm \<and> h < length (individuals (snd (vm ! n)))
        then let b = snd (vm ! n) in vm_set n (b\<lparr>individuals := vm_set h (f (snd (individuals b ! h))) (individuals b)\<rparr>) vm
        else vm)"
| "with_level (NamedId name) f (NamedPool kind spec t) =
     NamedPool kind spec (map_tree (\<lambda>(n, l). (n, if n = name then f l else l)) t)"
| "with_level _ f node = node"

definition node_bytesWanted :: "delay_id \<Rightarrow> int \<Rightarrow> int \<Rightarrow> pool_node \<Rightarrow> int" where
  "node_bytesWanted i minimum maximum node =
     (case bucket_level i node of
        None \<Rightarrow> max minimum maximum
      | Some l \<Rightarrow> bucket_bytesWanted minimum maximum l)"

definition node_bytesIn :: "delay_id \<Rightarrow> int \<Rightarrow> pool_node \<Rightarrow> pool_node" where
  "node_bytesIn i qty node = with_level i (bucket_bytesIn qty) node"

section \<open>Pools\<close>

text \<open>
  The nodes of a pool: a vector for the classes 2 to 4, a single node for 1 and 5.  \<open>None\<close> is the pool
  without a class.
\<close>

datatype delay_pool = SinglePool pool_node | DelayVector "pool_node list"

definition new_aggregate :: "int \<Rightarrow> pool_node" where
  "new_aggregate initial = Aggregate new_spec (bucket_init initial new_spec)"

definition Factory :: "int \<Rightarrow> bool \<Rightarrow> nat \<Rightarrow> delay_pool option outcome" where
  "Factory initial use_auth c =
     (if c = 0 then Inr None
      else if c = 1 then Inr (Some (SinglePool (new_aggregate initial)))
      else if c = 2 then Inr (Some (DelayVector [new_aggregate initial, VectorPool IndividualPool new_spec []]))
      else if c = 3 then Inr (Some (DelayVector [new_aggregate initial, VectorPool ClassCNetPool new_spec [], ClassCHostPool new_spec []]))
      else if c = 4 then Inr (Some (DelayVector ([new_aggregate initial, VectorPool ClassCNetPool new_spec [], ClassCHostPool new_spec []] @
             (if use_auth then [NamedPool DelayUser new_spec Leaf] else []))))
      else if c = 5 then Inr (Some (SinglePool (NamedPool DelayTagged new_spec Leaf)))
      else Inl FatalFault)"

text \<open>The rates read from the configuration, one for each node.\<close>

fun node_parse :: "delay_spec \<Rightarrow> pool_node \<Rightarrow> pool_node" where
  "node_parse spec (Aggregate _ level) = Aggregate spec level"
| "node_parse spec (VectorPool kind _ vm) = VectorPool kind spec vm"
| "node_parse spec (ClassCHostPool _ vm) = ClassCHostPool spec vm"
| "node_parse spec (NamedPool kind _ t) = NamedPool kind spec t"

definition vector_parse :: "delay_spec list \<Rightarrow> pool_node list \<Rightarrow> pool_node list" where
  "vector_parse specs ns = map2 node_parse specs ns"

fun assign_ids :: "int \<Rightarrow> selection_details \<Rightarrow> pool_node list \<Rightarrow> (delay_id list \<times> pool_node list) outcome" where
  "assign_ids initial details [] = Inr ([], [])"
| "assign_ids initial details (n # ns) =
     bindE (node_id initial details n) (\<lambda>(i, n').
     bindE (assign_ids initial details ns) (\<lambda>(is, ns'). Inr (i # is, n' # ns')))"

fun vector_bytesWanted :: "int \<Rightarrow> int \<Rightarrow> delay_id list \<Rightarrow> pool_node list \<Rightarrow> int" where
  "vector_bytesWanted minimum nbytes (i # is) (n # ns) =
     vector_bytesWanted minimum (min nbytes (node_bytesWanted i minimum nbytes n)) is ns"
| "vector_bytesWanted minimum nbytes _ _ = max minimum nbytes"

definition vector_bytesIn :: "int \<Rightarrow> delay_id list \<Rightarrow> pool_node list \<Rightarrow> pool_node list" where
  "vector_bytesIn qty is ns = map2 (\<lambda>i n. node_bytesIn i qty n) is ns"

text \<open>A client's identifier: the number of its pool, 0 for none, and the identifiers within the pool.\<close>

record client_delay =
  pool_number :: nat
  composite :: "delay_id list option"
  markedAsNoDelay :: bool

definition limited :: "client_delay \<Rightarrow> bool" where
  "limited d = ((pool_number d \<noteq> 0 \<or> composite d \<noteq> None) \<and> \<not> markedAsNoDelay d)"

definition client_bytesWanted :: "int \<Rightarrow> int \<Rightarrow> client_delay \<Rightarrow> delay_pool \<Rightarrow> int" where
  "client_bytesWanted minimum maximum d pool =
     (if \<not> limited d then max minimum maximum
      else let nbytes = max minimum maximum
           in case (composite d, pool) of
                (None, _) \<Rightarrow> nbytes
              | (Some is, DelayVector ns) \<Rightarrow> vector_bytesWanted minimum nbytes is ns
              | (Some is, SinglePool n) \<Rightarrow> (case is of [] \<Rightarrow> nbytes | i # _ \<Rightarrow> node_bytesWanted i minimum nbytes n))"

definition client_bytesIn :: "int \<Rightarrow> client_delay \<Rightarrow> delay_pool \<Rightarrow> delay_pool outcome" where
  "client_bytesIn qty d pool =
     (if \<not> limited d then Inr pool
      else guardE (pool_number d \<noteq> 0) AssertFault
        (Inr (case (composite d, pool) of
                (None, _) \<Rightarrow> pool
              | (Some is, DelayVector ns) \<Rightarrow> DelayVector (vector_bytesIn qty is ns)
              | (Some is, SinglePool n) \<Rightarrow> (case is of [] \<Rightarrow> pool | i # _ \<Rightarrow> SinglePool (node_bytesIn i qty n)))))"

definition composite_id :: "int \<Rightarrow> selection_details \<Rightarrow> delay_pool \<Rightarrow> (delay_id list \<times> delay_pool) outcome" where
  "composite_id initial details pool =
     (case pool of
        DelayVector ns \<Rightarrow> bindE (assign_ids initial details ns) (\<lambda>(is, ns'). Inr (is, DelayVector ns'))
      | SinglePool n \<Rightarrow> bindE (node_id initial details n) (\<lambda>(i, n'). Inr ([i], SinglePool n')))"

definition no_delay_id :: client_delay where
  "no_delay_id = \<lparr>pool_number = 0, composite = None, markedAsNoDelay = False\<rparr>"

text \<open>
  The first pool whose access list allows the client.  The answers of the access lists are a parameter: no list
  is \<open>None\<close>.
\<close>

fun client_pool_loop :: "int \<Rightarrow> selection_details \<Rightarrow> nat \<Rightarrow> bool option list \<Rightarrow> delay_pool option list \<Rightarrow>
    (client_delay \<times> delay_pool option list) outcome" where
  "client_pool_loop initial details k (a # as) (p # ps) =
     (case (a, p) of
        (Some True, Some pool) \<Rightarrow>
          bindE (composite_id initial details pool) (\<lambda>(is, pool').
            Inr (\<lparr>pool_number = k + 1, composite = Some is, markedAsNoDelay = False\<rparr>, Some pool' # ps))
      | _ \<Rightarrow> bindE (client_pool_loop initial details (k + 1) as ps) (\<lambda>(c, ps'). Inr (c, p # ps')))"
| "client_pool_loop initial details k _ ps = Inr (no_delay_id, ps)"

definition DelayClient :: "int \<Rightarrow> bool \<Rightarrow> selection_details \<Rightarrow> bool option list \<Rightarrow> delay_pool option list \<Rightarrow>
    (client_delay \<times> delay_pool option list) outcome" where
  "DelayClient initial no_addr details access delay_data =
     (if no_addr then Inr (no_delay_id, delay_data) else client_pool_loop initial details 0 access delay_data)"

fun update_all :: "int \<Rightarrow> pool_node list \<Rightarrow> pool_node list outcome" where
  "update_all incr [] = Inr []"
| "update_all incr (n # ns) = bindE (node_update incr n) (\<lambda>n'. bindE (update_all incr ns) (\<lambda>ns'. Inr (n' # ns')))"

text \<open>The periodic update of the pools; the time of the last update is part of the state.\<close>

fun update_pools :: "int \<Rightarrow> delay_pool option list \<Rightarrow> delay_pool option list outcome" where
  "update_pools incr [] = Inr []"
| "update_pools incr (p # ps) =
     bindE (case p of
              None \<Rightarrow> Inr None
            | Some (DelayVector ns) \<Rightarrow> bindE (update_all incr ns) (\<lambda>ns'. Inr (Some (DelayVector ns')))
            | Some (SinglePool n) \<Rightarrow> bindE (node_update incr n) (\<lambda>n'. Inr (Some (SinglePool n')))) (\<lambda>p'.
     bindE (update_pools incr ps) (\<lambda>ps'. Inr (p' # ps')))"

definition pools_Update :: "int \<Rightarrow> int \<times> delay_pool option list \<Rightarrow> (int \<times> delay_pool option list) outcome" where
  "pools_Update squid_curtime s =
     (let (LastUpdate, ps) = s; incr = squid_curtime - LastUpdate
      in if ps = [] then Inr s
         else if incr < 1 then Inr s
         else bindE (update_pools incr ps) (\<lambda>ps'. Inr (squid_curtime, ps')))"

section \<open>One bucket over time\<close>

fun node_spec :: "pool_node \<Rightarrow> delay_spec" where
  "node_spec (Aggregate spec _) = spec"
| "node_spec (VectorPool _ spec _) = spec"
| "node_spec (ClassCHostPool spec _) = spec"
| "node_spec (NamedPool _ spec _) = spec"

definition unnamed :: "delay_id \<Rightarrow> bool" where
  "unnamed b \<longleftrightarrow> (\<forall>n. b \<noteq> NamedId n)"

lemma wrap32_id [simp]: "int_min \<le> x \<Longrightarrow> x \<le> int_max \<Longrightarrow> wrap32 x = x"
  by (simp add: wrap32_def int_min_def int_max_def)

lemma vm_insert_Inr: "vm_insert key v vm = Inr (i, vm') \<Longrightarrow> vm' = vm @ [(key, v)]"
  by (auto simp: vm_insert_def Let_def outcome_simps)

lemma hostPosition_Inr: "hostPosition initial spec host b = Inr (i, b') \<Longrightarrow> \<exists>ys. individuals b' = individuals b @ ys"
  by (auto simp: hostPosition_def Let_def outcome_simps dest!: vm_insert_Inr split: if_splits)

lemma host_id_level:
  assumes "host_id initial spec vm d = Inr (i, vm')" "bucket_level (HostId n h) (ClassCHostPool spec vm) = Some l"
  shows "bucket_level (HostId n h) (ClassCHostPool spec vm') = Some l"
proof (cases "restore_bps spec = - 1 \<or> src_addr d = None")
  case True
  then show ?thesis using assms by (simp add: host_id_def)
next
  case False
  then obtain netIndex vm1 hostIndex b where s:
    "(if indexUsed (findKeyIndex (host_net_key (src_addr d)) vm) vm then Inr (findKeyIndex (host_net_key (src_addr d)) vm, vm)
      else vm_insert (host_net_key (src_addr d)) \<lparr>net = 0, individuals = []\<rparr> vm) = Inr (netIndex, vm1)"
    "hostPosition initial spec (makeHostKey (src_addr d)) (snd (vm1 ! unat netIndex)) = Inr (hostIndex, b)"
    "vm' = vm_set (unat netIndex) b vm1"
    using assms(1) unfolding host_id_def Let_def if_not_P [OF False] bindE_Inr_iff by (force simp: outcome_simps)
  have app: "vm1 = vm \<or> (\<exists>x. vm1 = vm @ [x])" using s(1) by (auto split: if_splits dest!: vm_insert_Inr)
  obtain ys where ys: "individuals b = individuals (snd (vm1 ! unat netIndex)) @ ys" using hostPosition_Inr [OF s(2)] by blast
  have v: "n < length vm" "h < length (individuals (snd (vm ! n)))" "snd (individuals (snd (vm ! n)) ! h) = l"
    using assms(2) by (auto split: if_splits)
  then have v1: "n < length vm1" "vm1 ! n = vm ! n" using app by (auto simp: nth_append)
  show ?thesis
    using v v1 ys by (cases "n = unat netIndex") (auto simp: s(3) vm_set_def nth_append)
qed

lemma node_id_keeps:
  assumes "node_id initial d n = Inr (i, n')" "bucket_level b n = Some l" "unnamed b"
  shows "bucket_level b n' = Some l \<and> node_spec n' = node_spec n"
proof (cases n)
  case (VectorPool kind spec vm)
  then obtain j vm' where "vector_id initial kind spec vm d = Inr (j, vm')" "n' = VectorPool kind spec vm'"
    using assms(1) by (auto simp: outcome_simps)
  moreover from this have "\<exists>ys. vm' = vm @ ys"
    by (auto simp: vector_id_def Let_def outcome_simps split: if_splits dest!: vm_insert_Inr)
  ultimately show ?thesis
    using assms(2) VectorPool by (cases b) (auto simp: nth_append split: if_splits)
next
  case (ClassCHostPool spec vm)
  then obtain j vm' where v: "host_id initial spec vm d = Inr (j, vm')" "n' = ClassCHostPool spec vm'"
    using assms(1) by (auto simp: outcome_simps)
  obtain p h where "b = HostId p h" using assms(2) ClassCHostPool by (cases b) auto
  then show ?thesis using host_id_level [OF v(1)] v(2) assms(2) ClassCHostPool by simp
next
  case (NamedPool kind spec t)
  then show ?thesis using assms(2,3) by (cases b) (auto simp: unnamed_def)
qed (use assms in auto)

lemma node_update_level:
  assumes "node_update incr n = Inr n'" "bucket_level b n = Some l" "unnamed b"
  shows "bucket_level b n' = Some (bucket_update (node_spec n) incr l) \<and> node_spec n' = node_spec n"
proof (cases n)
  case (VectorPool kind spec vm)
  then show ?thesis using assms
    by (cases b) (auto simp: bucket_update_def case_prod_unfold split: if_splits)
next
  case (ClassCHostPool spec vm)
  then show ?thesis using assms
    by (cases b) (auto simp: bucket_update_def case_prod_unfold outcome_simps split: if_splits)
next
  case (NamedPool kind spec t)
  then show ?thesis using assms(2,3) by (cases b) (auto simp: unnamed_def)
next
  case (Aggregate spec level)
  then show ?thesis using assms by (cases b) auto
qed

lemma node_bytesIn_level:
  assumes "bucket_level b n = Some l" "unnamed b"
  shows "bucket_level b (node_bytesIn i qty n) = Some (if i = b then bucket_bytesIn qty l else l) \<and>
    node_spec (node_bytesIn i qty n) = node_spec n"
proof (cases n)
  case (VectorPool kind spec vm)
  then show ?thesis using assms
    by (cases b; cases i) (auto simp: node_bytesIn_def vm_set_def nth_list_update split: if_splits)
next
  case (ClassCHostPool spec vm)
  then show ?thesis using assms
    by (cases b; cases i) (auto simp: node_bytesIn_def vm_set_def nth_list_update Let_def split: if_splits)
next
  case (NamedPool kind spec t)
  then show ?thesis using assms by (cases b) (auto simp: unnamed_def)
next
  case (Aggregate spec level)
  then show ?thesis using assms by (cases b; cases i) (auto simp: node_bytesIn_def)
qed

section \<open>Runs of a pool\<close>

text \<open>
  What happens to a pool: a new client is given its identifiers, a read that took at most what \<^verbatim>\<open>bytesWanted\<close>
  allowed is charged, and the periodic update after some seconds.
\<close>

datatype pool_event =
    Assign selection_details
  | Read "delay_id list" int int int
  | Tick int

inductive pool_run :: "int \<Rightarrow> pool_node list \<Rightarrow> pool_event list \<Rightarrow> pool_node list \<Rightarrow> bool" for initial where
  run_done: "pool_run initial ns [] ns"
| run_assign: "assign_ids initial d ns = Inr (is, ns1) \<Longrightarrow> pool_run initial ns1 es ns' \<Longrightarrow> pool_run initial ns (Assign d # es) ns'"
| run_read: "length is = length ns \<Longrightarrow> 0 \<le> minimum \<Longrightarrow> 0 \<le> qty \<Longrightarrow> qty \<le> vector_bytesWanted minimum maximum is ns \<Longrightarrow>
    pool_run initial (vector_bytesIn qty is ns) es ns' \<Longrightarrow> pool_run initial ns (Read is minimum maximum qty # es) ns'"
| run_tick: "1 \<le> incr \<Longrightarrow> update_all incr ns = Inr ns1 \<Longrightarrow> pool_run initial ns1 es ns' \<Longrightarrow> pool_run initial ns (Tick incr # es) ns'"

text \<open>The bytes charged to bucket \<open>b\<close> of node \<open>k\<close>, the minima those reads were entitled to, and the time.\<close>

fun bytes_through :: "nat \<Rightarrow> delay_id \<Rightarrow> pool_event list \<Rightarrow> int" where
  "bytes_through k b (Read is minimum maximum qty # es) = (if is ! k = b then qty else 0) + bytes_through k b es"
| "bytes_through k b (_ # es) = bytes_through k b es"
| "bytes_through k b [] = 0"

fun minima_through :: "nat \<Rightarrow> delay_id \<Rightarrow> pool_event list \<Rightarrow> int" where
  "minima_through k b (Read is minimum maximum qty # es) = (if is ! k = b then minimum else 0) + minima_through k b es"
| "minima_through k b (_ # es) = minima_through k b es"
| "minima_through k b [] = 0"

fun elapsed :: "pool_event list \<Rightarrow> int" where
  "elapsed (Tick incr # es) = incr + elapsed es"
| "elapsed (_ # es) = elapsed es"
| "elapsed [] = 0"

lemma assign_ids_nth:
  "assign_ids initial d ns = Inr (is, ns') \<Longrightarrow>
     length is = length ns \<and> length ns' = length ns \<and> (\<forall>k < length ns. node_id initial d (ns ! k) = Inr (is ! k, ns' ! k))"
  by (induction ns arbitrary: "is" ns') (auto simp: outcome_simps nth_Cons split: nat.splits)

lemma update_all_nth:
  "update_all incr ns = Inr ns' \<Longrightarrow>
     length ns' = length ns \<and> (\<forall>k < length ns. node_update incr (ns ! k) = Inr (ns' ! k))"
  by (induction ns arbitrary: ns') (auto simp: outcome_simps nth_Cons split: nat.splits)

lemma vector_bytesWanted_le: "vector_bytesWanted minimum nbytes is ns \<le> max minimum nbytes"
  by (induction minimum nbytes "is" ns rule: vector_bytesWanted.induct) auto

lemma vector_bytesWanted_level:
  "length is = length ns \<Longrightarrow> k < length ns \<Longrightarrow> bucket_level (is ! k) (ns ! k) = Some l \<Longrightarrow>
     vector_bytesWanted minimum nbytes is ns \<le> max minimum l"
proof (induction minimum nbytes "is" ns arbitrary: k rule: vector_bytesWanted.induct)
  case (1 minimum nbytes i "is" n ns)
  show ?case
  proof (cases k)
    case 0
    then have "node_bytesWanted i minimum nbytes n \<le> max minimum l"
      using "1.prems"(3) by (simp add: node_bytesWanted_def bucket_bytesWanted_def)
    then show ?thesis
      using vector_bytesWanted_le [of minimum "min nbytes (node_bytesWanted i minimum nbytes n)" "is" ns] by simp
  next
    case (Suc j)
    then show ?thesis using "1.IH" [of j] "1.prems" by simp
  qed
qed auto

lemma elapsed_nonneg: "pool_run initial ns es ns' \<Longrightarrow> 0 \<le> elapsed es"
  by (induction rule: pool_run.induct) auto

lemma minima_nonneg: "pool_run initial ns es ns' \<Longrightarrow> 0 \<le> minima_through k b es"
  by (induction rule: pool_run.induct) auto

lemma bucket_update_exact:
  assumes "0 \<le> restore_bps spec" "0 \<le> incr" "int_min \<le> l" "l \<le> max_bytes spec"
    "max_bytes spec + restore_bps spec * incr \<le> int_max" "0 \<le> max_bytes spec"
  shows "bucket_update spec incr l = min (max_bytes spec) (l + restore_bps spec * incr)"
proof -
  have p: "0 \<le> restore_bps spec * incr" using assms(1,2) by simp
  then have "wrap32 (restore_bps spec * incr) = restore_bps spec * incr"
    "wrap32 (l + restore_bps spec * incr) = l + restore_bps spec * incr" "wrap32 (max_bytes spec) = max_bytes spec"
    using assms(3-6) by (auto intro!: wrap32_id simp: int_min_def)
  then show ?thesis using assms(1) by (auto simp: bucket_update_def Let_def)
qed

lemma pool_run_bucket:
  "pool_run initial ns es ns' \<Longrightarrow> k < length ns \<Longrightarrow> bucket_level b (ns ! k) = Some l \<Longrightarrow> unnamed b \<Longrightarrow>
   node_spec (ns ! k) = spec \<Longrightarrow> 0 \<le> restore_bps spec \<Longrightarrow> 0 \<le> max_bytes spec \<Longrightarrow> l \<le> max_bytes spec \<Longrightarrow>
   max_bytes spec + restore_bps spec * elapsed es \<le> int_max \<Longrightarrow> - int_max \<le> min 0 l - minima_through k b es \<Longrightarrow>
   \<exists>l'. bucket_level b (ns' ! k) = Some l' \<and> min 0 l - minima_through k b es \<le> l' \<and>
     bytes_through k b es + l' \<le> l + restore_bps spec * elapsed es"
proof (induction arbitrary: l rule: pool_run.induct)
  case (run_done ns)
  then show ?case by auto
next
  case (run_assign d ns "is" ns1 es ns')
  have a: "length ns1 = length ns" "node_id initial d (ns ! k) = Inr (is ! k, ns1 ! k)"
    using assign_ids_nth [OF run_assign.hyps(1)] run_assign.prems(1) by auto
  from node_id_keeps [OF a(2) run_assign.prems(2,3)] show ?case
    using run_assign.IH [of l] run_assign.prems a(1) by simp
next
  case (run_read "is" ns minimum qty maximum es ns')
  let ?l = "if is ! k = b then bucket_bytesIn qty l else l"
  have z: "length (vector_bytesIn qty is ns) = length ns"
    "vector_bytesIn qty is ns ! k = node_bytesIn (is ! k) qty (ns ! k)"
    using run_read.hyps(1) run_read.prems(1) by (simp_all add: vector_bytesIn_def)
  have m: "0 \<le> minima_through k b es" using minima_nonneg [OF run_read.hyps(5)] .
  have q: "is ! k = b \<Longrightarrow> qty \<le> max minimum l"
    using vector_bytesWanted_level [OF run_read.hyps(1) run_read.prems(1), of l minimum maximum] run_read.prems(2) run_read.hyps(4) by simp
  have up: "l \<le> int_max"
    using mult_nonneg_nonneg [OF run_read.prems(5) elapsed_nonneg [OF run_read.hyps(5)]] run_read.prems(7,8) by simp
  have w: "is ! k = b \<Longrightarrow> ?l = l - qty"
    using q m up run_read.hyps(2,3) run_read.prems(9) by (auto simp: bucket_bytesIn_def int_min_def int_max_def intro!: wrap32_id)
  have lo: "min 0 l - (if is ! k = b then minimum else 0) \<le> min 0 ?l" "?l \<le> l"
    using w q run_read.hyps(2,3) by (auto split: if_splits)
  have low: "- int_max \<le> min 0 ?l - minima_through k b es" 
    using lo(1) run_read.prems(9) unfolding minima_through.simps by linarith
  obtain l' where "bucket_level b (ns' ! k) = Some l'" "min 0 ?l - minima_through k b es \<le> l'"
    "bytes_through k b es + l' \<le> ?l + restore_bps spec * elapsed es"
    using low run_read.IH [of ?l] node_bytesIn_level [OF run_read.prems(2,3), of "is ! k" qty] run_read.prems z lo by auto
  then show ?case using lo w by auto
next
  case (run_tick incr ns ns1 es ns')
  have a: "length ns1 = length ns" "node_update incr (ns ! k) = Inr (ns1 ! k)"
    using update_all_nth [OF run_tick.hyps(2)] run_tick.prems(1) by auto
  let ?l = "bucket_update (node_spec (ns ! k)) incr l"
  have e: "0 \<le> restore_bps spec * elapsed es" "0 \<le> restore_bps spec * incr" "restore_bps spec * elapsed (Tick incr # es) = restore_bps spec * incr + restore_bps spec * elapsed es"
    using run_tick.prems(5) elapsed_nonneg [OF run_tick.hyps(3)] run_tick.hyps(1) by (simp_all add: distrib_left)
  have m: "0 \<le> minima_through k b es" using minima_nonneg [OF run_tick.hyps(3)] .
  have u: "?l = min (max_bytes spec) (l + restore_bps spec * incr)"
    using run_tick.prems(4-9) run_tick.hyps(1) e m by (auto intro!: bucket_update_exact simp: int_min_def int_max_def)
  have low: "- int_max \<le> min 0 ?l - minima_through k b es" "min 0 l \<le> min 0 ?l" "?l \<le> l + restore_bps spec * incr"
    using u e(2) run_tick.prems(6,9) unfolding minima_through.simps by linarith+
  obtain l' where "bucket_level b (ns' ! k) = Some l'" "min 0 ?l - minima_through k b es \<le> l'"
    "bytes_through k b es + l' \<le> ?l + restore_bps spec * elapsed es"
    using low(1) run_tick.IH [of ?l] node_update_level [OF a(2) run_tick.prems(2,3)] run_tick.prems a(1) e u by auto
  then show ?case using e low by auto
qed

section \<open>What a pool promises\<close>


definition sample_pool :: "pool_node list" where
  "sample_pool = [Aggregate \<lparr>restore_bps = 10, max_bytes = 50\<rparr> 20]"

lemma sample_pool_run:
  "pool_run 50 sample_pool [Read [AggregateId] 1 100 20, Tick 2, Read [AggregateId] 1 100 20, Read [AggregateId] 1 100 1]
     [Aggregate \<lparr>restore_bps = 10, max_bytes = 50\<rparr> (- 1)]"
  unfolding sample_pool_def
  by (intro run_read run_tick)
    (auto simp: pool_run.run_done node_bytesWanted_def bucket_bytesWanted_def vector_bytesIn_def node_bytesIn_def bucket_bytesIn_def bucket_update_def
      wrap32_def Let_def)


lemma disabled_bucket: "0 \<le> initial \<Longrightarrow> initial \<le> 100 \<Longrightarrow> bucket_init initial new_spec \<le> 0"
  by (auto simp: bucket_init_def new_spec_def Let_def pos_imp_zdiv_nonneg_iff)

lemma update_disabled: "bucket_update new_spec incr l = l"
  by (simp add: bucket_update_def new_spec_def)

text \<open>
  A disabled limit on tags stops tagged clients instead of leaving them alone.  In a pool of class 5 whose
  rate is \<open>- 1\<close>, which the configuration manual calls unlimited, the first client with a tag is given a bucket
  that starts empty, or below, and that no update ever fills: whatever time passes, each of its reads may only
  take the minimum.
\<close>

theorem delay_disabled_tag_stalls:
  assumes "0 \<le> initial" "initial \<le> 100" "tag d = s" "s \<noteq> []" "0 \<le> minimum"
    and "Factory initial use_auth 5 = Inr (Some pool)"
    and "DelayClient initial False d [Some True] [Some pool] = Inr (c, ps1)" "pools_Update now (t0, ps1) = Inr (t1, [Some pool2])"
  shows "client_bytesWanted minimum maximum c pool2 = minimum"
proof -
  have p: "pool = SinglePool (NamedPool DelayTagged new_spec Leaf)" using assms(6) by (simp add: Factory_def)
  have one: "ps1 = [Some (SinglePool (NamedPool DelayTagged new_spec \<langle>Leaf, (s, bucket_init initial new_spec), Leaf\<rangle>))]"
    "c = \<lparr>pool_number = 1, composite = Some [NamedId s], markedAsNoDelay = False\<rparr>"
    using assms(3,4,7) unfolding p by (auto simp: DelayClient_def composite_id_def named_id_def outcome_simps node_insert_def)
  have "[Some pool2] = ps1"
    using assms(8) unfolding one(1) by (auto simp: pools_Update_def Let_def outcome_simps update_disabled split: if_splits)
  then show ?thesis
    using disabled_bucket [OF assms(1,2)] assms(5)
    by (simp add: one client_bytesWanted_def limited_def node_bytesWanted_def bucket_bytesWanted_def)
qed

theorem delay_disabled_tag_stalls_witness:
  "\<exists>pool c ps1 pool2. Factory 50 False 5 = Inr (Some pool) \<and>
     DelayClient 50 False \<lparr>src_addr = None, user_name = None, tag = ''bulk''\<rparr> [Some True] [Some pool] = Inr (c, ps1) \<and>
     pools_Update 1000 (0, ps1) = Inr (1000, [Some pool2]) \<and> client_bytesWanted 1 65536 c pool2 = 1"
proof -
  let ?d = "\<lparr>src_addr = None, user_name = None, tag = ''bulk''\<rparr>"
  obtain pool c ps1 pool2 where r: "Factory 50 False 5 = Inr (Some pool)" "DelayClient 50 False ?d [Some True] [Some pool] = Inr (c, ps1)"
    "pools_Update 1000 (0, ps1) = Inr (1000, [Some pool2])"
    by (simp add: Factory_def DelayClient_def composite_id_def pools_Update_def named_id_def node_insert_def)
  then have "client_bytesWanted 1 65536 c pool2 = 1"
    by (intro delay_disabled_tag_stalls [OF _ _ refl _ _ r]) auto
  then show ?thesis using r by blast
qed

end
