(* ===== verification/Removal_Policy.thy ===== *)
theory Removal_Policy
  imports Squid_Prelude
begin

text \<open>
  What the removal policies share: the members of a store entry that they use (\<^verbatim>\<open>src/Store.h\<close>), the two policy nodes of an entry, and
  the interface of a policy (\<^verbatim>\<open>src/RemovalPolicy.h\<close>), which decides which cached entry goes next: what its users rely on when they
  add entries to it and remove them.
\<close>

section \<open>Entries and their policy nodes\<close>

datatype entry_type = TYPE_UNKNOWN | TYPE_STORE_ENTRY | TYPE_STORE_MEM

datatype policy_node = ReplNode | MemReplNode

text \<open>The members of a \<^verbatim>\<open>StoreEntry\<close> that matter here; \<open>mem_obj\<close> is the policy node of its memory object, if it
  has one.  The lock count is an \<^verbatim>\<open>unsigned short\<close> that the program assumes not to overflow.\<close>

record policy_entry =
  lock_count :: nat
  swapout_writing :: bool
  store_pending :: bool
  entry_special :: bool
  key_private :: bool
  entry_lastref :: int
  repl :: "addr option"
  mem_obj :: "addr option option"

definition locked :: "policy_entry \<Rightarrow> bool" where
  "locked e \<longleftrightarrow> lock_count e \<noteq> 0 \<or> swapout_writing e \<or> store_pending e \<or> (entry_special e \<and> \<not> key_private e)"

text \<open>The contents of the policy node that a caller passes.\<close>

definition policy_node_data :: "policy_entry \<Rightarrow> policy_node \<Rightarrow> addr option outcome" where
  "policy_node_data e node =
     (case node of
        ReplNode \<Rightarrow> Inr (repl e)
      | MemReplNode \<Rightarrow> (case mem_obj e of None \<Rightarrow> Inl OutOfBounds | Some r \<Rightarrow> Inr r))"

definition set_node_data :: "policy_node \<Rightarrow> addr option \<Rightarrow> policy_entry \<Rightarrow> policy_entry" where
  "set_node_data node v e = (case node of ReplNode \<Rightarrow> e\<lparr>repl := v\<rparr> | MemReplNode \<Rightarrow> e\<lparr>mem_obj := Some v\<rparr>)"

text \<open>The policy node that a policy of the given type uses.\<close>

definition entry_node :: "entry_type \<Rightarrow> policy_entry \<Rightarrow> addr option" where
  "entry_node ty e =
     (case ty of
        TYPE_STORE_ENTRY \<Rightarrow> repl e
      | TYPE_STORE_MEM \<Rightarrow> (case mem_obj e of None \<Rightarrow> None | Some r \<Rightarrow> r)
      | TYPE_UNKNOWN \<Rightarrow> None)"

definition node_type :: "policy_node \<Rightarrow> entry_type" where
  "node_type node = (case node of ReplNode \<Rightarrow> TYPE_STORE_ENTRY | MemReplNode \<Rightarrow> TYPE_STORE_MEM)"

lemma entry_node_set: "entry_node (node_type node) (set_node_data node v e) = v"
  by (cases node) (simp_all add: entry_node_def node_type_def set_node_data_def)

lemma node_data_entry_node: "policy_node_data e node = Inr v \<Longrightarrow> entry_node (node_type node) e = v"
  by (cases node) (auto simp: entry_node_def node_type_def policy_node_data_def split: option.splits)

lemma node_type_known [simp]: "node_type node \<noteq> TYPE_UNKNOWN"
  by (cases node) (simp_all add: node_type_def)

text \<open>The entry with the policy node of the given type cleared.\<close>

definition clear_node :: "entry_type \<Rightarrow> policy_entry \<Rightarrow> policy_entry" where
  "clear_node ty e = (case ty of TYPE_STORE_ENTRY \<Rightarrow> e\<lparr>repl := None\<rparr> | TYPE_STORE_MEM \<Rightarrow> e\<lparr>mem_obj := Some None\<rparr> | TYPE_UNKNOWN \<Rightarrow> e)"

lemma entry_node_clear: "entry_node ty (clear_node ty e) = None"
  by (simp add: entry_node_def clear_node_def split: entry_type.splits)

lemma locked_clear [simp]: "locked (clear_node ty e) = locked e"
  by (simp add: locked_def clear_node_def split: entry_type.splits)

section \<open>The interface\<close>

locale replacement_policy =
  fixes ok :: "'s \<Rightarrow> bool"
    and managed :: "'s \<Rightarrow> nat set"
    and can_add :: "nat \<Rightarrow> 's \<Rightarrow> bool"
    and add :: "nat \<Rightarrow> 's \<Rightarrow> 's outcome"
    and remove :: "nat \<Rightarrow> 's \<Rightarrow> 's outcome"
  assumes add_law: "ok s \<Longrightarrow> can_add e s \<Longrightarrow> \<exists>s'. add e s = Inr s' \<and> ok s' \<and> managed s' = insert e (managed s)"
    and remove_law: "ok s \<Longrightarrow> e \<in> managed s \<Longrightarrow> \<exists>s'. remove e s = Inr s' \<and> ok s' \<and> managed s' = managed s - {e} \<and> can_add e s'"
begin

lemma add_remove:
  assumes "ok s" "can_add e s" "e \<notin> managed s"
  shows "\<exists>s1 s2. add e s = Inr s1 \<and> remove e s1 = Inr s2 \<and> ok s2 \<and> managed s2 = managed s"
proof -
  obtain s1 where a: "add e s = Inr s1" "ok s1" "managed s1 = insert e (managed s)" using add_law [OF assms(1,2)] by blast
  obtain s2 where "remove e s1 = Inr s2" "ok s2" "managed s2 = managed s1 - {e}" using remove_law [OF a(2), of e] a(3) by blast
  then show ?thesis using a assms(3) by auto
qed

lemma remove_add:
  assumes "ok s" "e \<in> managed s"
  shows "\<exists>s1 s2. remove e s = Inr s1 \<and> add e s1 = Inr s2 \<and> ok s2 \<and> managed s2 = managed s"
proof -
  obtain s1 where a: "remove e s = Inr s1" "ok s1" "managed s1 = managed s - {e}" "can_add e s1" using remove_law [OF assms] by blast
  obtain s2 where "add e s1 = Inr s2" "ok s2" "managed s2 = insert e (managed s1)" using add_law [OF a(2,4)] by blast
  then show ?thesis using a assms(2) by auto
qed

end

end
