(* ===== verification/Priority_Heap.thy ===== *)
theory Priority_Heap
  imports Squid_Prelude
begin

text \<open>
  The binary heap of \<^verbatim>\<open>lib/heap.c\<close> that the heap removal policies keep their entries in.  The nodes live in an
  explicit memory, because the callers keep pointers to them and every node records its own position.  A pointer is
  an address; memory that the allocator returns is an argument.  Dereferencing memory that is not allocated is the
  fault \<open>OutOfBounds\<close>.  Keys are of any linearly ordered type (in the program \<^verbatim>\<open>double\<close> values, none of them a NaN), and
  the function that generates them is an argument.
\<close>

section \<open>The structure\<close>

record ('k, 'd) heap_node =
  nkey :: 'k
  nid :: nat
  ndata :: 'd

text \<open>The array of node pointers (its length is the member \<^verbatim>\<open>size\<close>), the number of nodes, the age and the memory.\<close>

record ('k, 'd) heap =
  hnodes :: "addr option list"
  hlast :: nat
  hage :: 'k
  hmem :: "addr \<rightharpoonup> ('k, 'd) heap_node"

definition Left :: "nat \<Rightarrow> nat" where
  "Left x = 2 * x + 1"

definition Right :: "nat \<Rightarrow> nat" where
  "Right x = 2 * x + 2"

text \<open>For 0 the division of \<open>- 1\<close> truncates to 0.\<close>

definition Parent :: "nat \<Rightarrow> nat" where
  "Parent x = (x - 1) div 2"

definition Threshold :: nat where
  "Threshold = 10000"

definition MinSize :: nat where
  "MinSize = 32"

definition new_heap :: "int \<Rightarrow> 'k \<Rightarrow> ('k, 'd) heap" where
  "new_heap initSize zero =
     \<lparr>hnodes = replicate (if initSize \<le> 0 then MinSize else nat initSize) None, hlast = 0, hage = zero, hmem = Map.empty\<rparr>"

definition deref :: "('k, 'd) heap \<Rightarrow> addr \<Rightarrow> ('k, 'd) heap_node outcome" where
  "deref hp a = (case hmem hp a of None \<Rightarrow> Inl OutOfBounds | Some n \<Rightarrow> Inr n)"

definition node_ptr :: "('k, 'd) heap \<Rightarrow> nat \<Rightarrow> addr outcome" where
  "node_ptr hp i =
     (if i < length (hnodes hp) then case hnodes hp ! i of None \<Rightarrow> Inl OutOfBounds | Some a \<Rightarrow> Inr a else Inl OutOfBounds)"

definition node_at :: "('k, 'd) heap \<Rightarrow> nat \<Rightarrow> ('k, 'd) heap_node outcome" where
  "node_at hp i = bindE (node_ptr hp i) (deref hp)"

definition set_id :: "addr \<Rightarrow> nat \<Rightarrow> ('k, 'd) heap \<Rightarrow> ('k, 'd) heap outcome" where
  "set_id a i hp = bindE (deref hp a) (\<lambda>n. Inr (hp\<lparr>hmem := (hmem hp)(a \<mapsto> n\<lparr>nid := i\<rparr>)\<rparr>))"

text \<open>\<^verbatim>\<open>hp->nodes[elm->id] = elm\<close>\<close>

definition place :: "addr \<Rightarrow> ('k, 'd) heap \<Rightarrow> ('k, 'd) heap outcome" where
  "place a hp = bindE (deref hp a) (\<lambda>n.
     guardE (nid n < length (hnodes hp)) OutOfBounds (Inr (hp\<lparr>hnodes := (hnodes hp)[nid n := Some a]\<rparr>)))"

definition heap_swap_element :: "addr \<Rightarrow> addr \<Rightarrow> ('k, 'd) heap \<Rightarrow> ('k, 'd) heap outcome" where
  "heap_swap_element elm1 elm2 hp =
     bindE (deref hp elm1) (\<lambda>n1. bindE (deref hp elm2) (\<lambda>n2.
     bindE (set_id elm1 (nid n2) hp) (\<lambda>hp1. bindE (set_id elm2 (nid n1) hp1) (\<lambda>hp2.
     bindE (place elm1 hp2) (place elm2)))))"

definition heap_node_exist :: "('k, 'd) heap \<Rightarrow> int \<Rightarrow> bool" where
  "heap_node_exist hp i \<longleftrightarrow> \<not> (i \<ge> int (hlast hp) \<or> i < 0) \<and> hnodes hp ! nat i \<noteq> None"

definition heap_should_grow :: "('k, 'd) heap \<Rightarrow> bool" where
  "heap_should_grow hp \<longleftrightarrow> length (hnodes hp) \<le> hlast hp"

definition heap_grow :: "('k, 'd) heap \<Rightarrow> ('k, 'd) heap" where
  "heap_grow hp =
     (let size = length (hnodes hp); newSize = (if size > Threshold then size * 3 div 2 else size * 2)
      in hp\<lparr>hnodes := hnodes hp @ replicate (newSize - size) None\<rparr>)"

text \<open>The two loops, with a bound on the number of rounds.\<close>

fun ify_up_loop :: "nat \<Rightarrow> addr \<Rightarrow> ('k::linorder, 'd) heap \<Rightarrow> ('k, 'd) heap outcome" where
  "ify_up_loop 0 elm hp = Inl LoopBound"
| "ify_up_loop (Suc f) elm hp =
     bindE (deref hp elm) (\<lambda>n.
       if nid n > 0 then
         bindE (node_ptr hp (Parent (nid n))) (\<lambda>parentNode. bindE (deref hp parentNode) (\<lambda>p.
           if nkey p \<le> nkey n then Inr hp
           else bindE (heap_swap_element parentNode elm hp) (ify_up_loop f elm)))
       else Inr hp)"

definition heap_ify_up :: "addr \<Rightarrow> ('k::linorder, 'd) heap \<Rightarrow> ('k, 'd) heap outcome" where
  "heap_ify_up elm hp = ify_up_loop (Suc (hlast hp)) elm hp"

definition smaller_kid :: "('k::linorder, 'd) heap \<Rightarrow> nat \<Rightarrow> nat \<Rightarrow> addr outcome" where
  "smaller_kid hp left right =
     (if \<not> heap_node_exist hp (int right) then node_ptr hp left
      else bindE (node_at hp right) (\<lambda>r. bindE (node_at hp left) (\<lambda>l.
        if nkey r < nkey l then node_ptr hp right else node_ptr hp left)))"

fun ify_down_loop :: "nat \<Rightarrow> addr \<Rightarrow> ('k::linorder, 'd) heap \<Rightarrow> ('k, 'd) heap outcome" where
  "ify_down_loop 0 elm hp = Inl LoopBound"
| "ify_down_loop (Suc f) elm hp =
     bindE (deref hp elm) (\<lambda>n.
       let left = Left (nid n); right = Right (nid n)
       in if \<not> heap_node_exist hp (int left) then guardE (\<not> heap_node_exist hp (int right)) AssertFault (Inr hp)
          else bindE (smaller_kid hp left right) (\<lambda>kid. bindE (deref hp kid) (\<lambda>k.
            if nkey n \<le> nkey k then Inr hp
            else bindE (heap_swap_element kid elm hp) (ify_down_loop f elm))))"

definition heap_ify_down :: "addr \<Rightarrow> ('k::linorder, 'd) heap \<Rightarrow> ('k, 'd) heap outcome" where
  "heap_ify_down elm hp = ify_down_loop (Suc (hlast hp)) elm hp"

section \<open>The operations\<close>

definition heap_insert :: "('d \<Rightarrow> 'k \<Rightarrow> 'k) \<Rightarrow> addr \<Rightarrow> 'd \<Rightarrow> ('k::linorder, 'd) heap \<Rightarrow> ('k, 'd) heap outcome" where
  "heap_insert gen_key elm dat hp =
     (let n = \<lparr>nkey = gen_key dat (hage hp), nid = 0, ndata = dat\<rparr>;
          hp1 = (if heap_should_grow hp then heap_grow hp else hp)
      in guardE (hlast hp1 < length (hnodes hp1)) OutOfBounds
           (heap_ify_up elm (hp1\<lparr>hnodes := (hnodes hp1)[hlast hp1 := Some elm],
              hmem := (hmem hp1)(elm \<mapsto> n\<lparr>nid := hlast hp1\<rparr>), hlast := hlast hp1 + 1\<rparr>)))"

definition heap_extractlast :: "('k, 'd) heap \<Rightarrow> ('d \<times> ('k, 'd) heap) outcome" where
  "heap_extractlast hp =
     guardE (heap_node_exist hp (int (hlast hp) - 1)) AssertFault
       (let l = hlast hp - 1
        in bindE (node_ptr hp l) (\<lambda>a. bindE (deref hp a) (\<lambda>n. Inr (ndata n, hp\<lparr>hlast := l, hmem := (hmem hp)(a := None)\<rparr>))))"

text \<open>The order above and below a node whose key or position changed is restored.\<close>

definition heap_restore :: "addr \<Rightarrow> ('k::linorder, 'd) heap \<Rightarrow> ('k, 'd) heap outcome" where
  "heap_restore elm hp =
     bindE (deref hp elm) (\<lambda>n. bindE (node_at hp (Parent (nid n))) (\<lambda>p.
     bindE (if nkey n < nkey p then heap_ify_up elm hp else Inr hp) (heap_ify_down elm)))"

definition heap_delete :: "addr \<Rightarrow> ('k::linorder, 'd) heap \<Rightarrow> ('d \<times> ('k, 'd) heap) outcome" where
  "heap_delete elm hp =
     bindE (deref hp elm) (\<lambda>n.
     guardE (heap_node_exist hp (int (hlast hp) - 1)) AssertFault
       (bindE (node_ptr hp (hlast hp - 1)) (\<lambda>lastNode.
        bindE (heap_swap_element lastNode elm hp) (\<lambda>hp1.
        bindE (heap_extractlast hp1) (\<lambda>(_, hp2).
          if elm = lastNode then Inr (ndata n, hp2)
          else if hlast hp2 > 0 then bindE (heap_restore lastNode hp2) (\<lambda>hp3. Inr (ndata n, hp3))
          else Inr (ndata n, hp2))))))"

definition heap_extractmin :: "('k::linorder, 'd) heap \<Rightarrow> ('d option \<times> ('k, 'd) heap) outcome" where
  "heap_extractmin hp =
     (if hlast hp = 0 then Inr (None, hp)
      else bindE (node_ptr hp 0) (\<lambda>a. bindE (deref hp a) (\<lambda>n.
        bindE (heap_delete a hp) (\<lambda>(_, hp'). Inr (Some (ndata n), hp')))))"

definition heap_update :: "('d \<Rightarrow> 'k \<Rightarrow> 'k) \<Rightarrow> addr \<Rightarrow> 'd \<Rightarrow> ('k::linorder, 'd) heap \<Rightarrow> ('d \<times> ('k, 'd) heap) outcome" where
  "heap_update gen_key elm dat hp =
     bindE (deref hp elm) (\<lambda>n.
     bindE (heap_restore elm (hp\<lparr>hmem := (hmem hp)(elm \<mapsto> n\<lparr>nkey := gen_key dat (hage hp), ndata := dat\<rparr>)\<rparr>)) (\<lambda>hp'.
       Inr (ndata n, hp')))"

definition heap_peepkey :: "('k, 'd) heap \<Rightarrow> int \<Rightarrow> 'k outcome" where
  "heap_peepkey hp i = guardE (heap_node_exist hp i) AssertFault (bindE (node_at hp (nat i)) (\<lambda>n. Inr (nkey n)))"

definition heap_peep :: "('k, 'd) heap \<Rightarrow> int \<Rightarrow> 'd outcome" where
  "heap_peep hp i = guardE (heap_node_exist hp i) AssertFault (bindE (node_at hp (nat i)) (\<lambda>n. Inr (ndata n)))"

definition heap_peepminkey :: "('k, 'd) heap \<Rightarrow> 'k outcome" where
  "heap_peepminkey hp = heap_peepkey hp 0"

definition heap_peepmin :: "('k, 'd) heap \<Rightarrow> 'd outcome" where
  "heap_peepmin hp = heap_peep hp 0"

definition heap_empty :: "('k, 'd) heap \<Rightarrow> bool" where
  "heap_empty hp \<longleftrightarrow> hlast hp = 0"

text \<open>The self-check: the parents from the root on, stopping at the first violation.\<close>

definition kid_in_order :: "('k::linorder, 'd) heap \<Rightarrow> nat \<Rightarrow> nat \<Rightarrow> bool outcome" where
  "kid_in_order hp i c =
     (if heap_node_exist hp (int c)
      then bindE (node_at hp i) (\<lambda>p. bindE (node_at hp c) (\<lambda>k. Inr (\<not> nkey p > nkey k)))
      else Inr True)"

fun verify_loop :: "('k::linorder, 'd) heap \<Rightarrow> nat list \<Rightarrow> bool outcome" where
  "verify_loop hp [] = Inr True"
| "verify_loop hp (i # is) =
     bindE (kid_in_order hp i (Left i)) (\<lambda>cl. bindE (kid_in_order hp i (Right i)) (\<lambda>cr.
       if cl \<and> cr then verify_loop hp is else Inr False))"

definition verify_heap_property :: "('k::linorder, 'd) heap \<Rightarrow> bool outcome" where
  "verify_heap_property hp = verify_loop hp [0..<hlast hp div 2]"

section \<open>Keys in heap order\<close>

text \<open>The order of an array of \<open>n\<close> keys, and the order except around one position.\<close>

definition ordered_keys :: "nat \<Rightarrow> (nat \<Rightarrow> 'k::linorder) \<Rightarrow> bool" where
  "ordered_keys n k \<longleftrightarrow> (\<forall>i. 0 < i \<and> i < n \<longrightarrow> k (Parent i) \<le> k i)"

definition ordered_but :: "nat \<Rightarrow> nat \<Rightarrow> (nat \<Rightarrow> 'k::linorder) \<Rightarrow> bool" where
  "ordered_but n e k \<longleftrightarrow>
     (\<forall>i. 0 < i \<and> i < n \<and> i \<noteq> e \<and> Parent i \<noteq> e \<longrightarrow> k (Parent i) \<le> k i) \<and>
     (\<forall>c. 0 < c \<and> c < n \<and> Parent c = e \<and> 0 < e \<longrightarrow> k (Parent e) \<le> k c)"

definition above_ok :: "nat \<Rightarrow> (nat \<Rightarrow> 'k::linorder) \<Rightarrow> bool" where
  "above_ok e k \<longleftrightarrow> 0 < e \<longrightarrow> k (Parent e) \<le> k e"

definition below_ok :: "nat \<Rightarrow> nat \<Rightarrow> (nat \<Rightarrow> 'k::linorder) \<Rightarrow> bool" where
  "below_ok n e k \<longleftrightarrow> (\<forall>c. 0 < c \<and> c < n \<and> Parent c = e \<longrightarrow> k e \<le> k c)"

definition exchange :: "nat \<Rightarrow> nat \<Rightarrow> (nat \<Rightarrow> 'k) \<Rightarrow> nat \<Rightarrow> 'k" where
  "exchange i j k = k(i := k j, j := k i)"

lemma Parent_less [simp]: "0 < i \<Longrightarrow> Parent i < i"
  by (simp add: Parent_def)

lemma Parent_kid_iff: "0 < c \<Longrightarrow> Parent c = e \<longleftrightarrow> c = Left e \<or> c = Right e"
  by (auto simp: Parent_def Left_def Right_def)

lemma ordered_but_all: "ordered_but n e k \<Longrightarrow> above_ok e k \<Longrightarrow> below_ok n e k \<Longrightarrow> ordered_keys n k"
  unfolding ordered_but_def above_ok_def below_ok_def ordered_keys_def by (metis not_gr_zero)

lemma ordered_keys_but: "ordered_keys n k \<Longrightarrow> ordered_but n e k \<and> above_ok e k \<and> below_ok n e k" if "e < n"
  using that by (auto simp: ordered_but_def above_ok_def below_ok_def ordered_keys_def)
    (metis Parent_less order.strict_trans order.trans)

lemma exchange_up:
  assumes "ordered_but n e k" "below_ok n e k" "0 < e" "e < n" "k e < k (Parent e)"
  shows "ordered_but n (Parent e) (exchange (Parent e) e k)" "below_ok n (Parent e) (exchange (Parent e) e k)"
proof -
  let ?p = "Parent e"
  have p: "?p < e" using assms(3) by simp
  have ord: "\<And>i. 0 < i \<Longrightarrow> i < n \<Longrightarrow> i \<noteq> e \<Longrightarrow> Parent i \<noteq> e \<Longrightarrow> k (Parent i) \<le> k i"
    and kids: "\<And>c. 0 < c \<Longrightarrow> c < n \<Longrightarrow> Parent c = e \<Longrightarrow> k ?p \<le> k c"
    using assms(1,3) by (auto simp: ordered_but_def)
  have up: "0 < ?p \<Longrightarrow> k (Parent ?p) \<le> k ?p" 
    using ord [of ?p] p assms(4) Parent_less [of ?p] less_trans by (metis less_irrefl)
  have sib: "\<And>c. 0 < c \<Longrightarrow> c < n \<Longrightarrow> c \<noteq> e \<Longrightarrow> Parent c = ?p \<Longrightarrow> k ?p \<le> k c"
    using ord p by (metis less_irrefl)
  show "below_ok n ?p (exchange ?p e k)"
    unfolding below_ok_def
  proof (intro allI impI)
    fix c assume c: "0 < c \<and> c < n \<and> Parent c = ?p"
    then have "c \<noteq> ?p" using Parent_less [of c] by (metis less_irrefl)
    then show "exchange ?p e k ?p \<le> exchange ?p e k c"
      using sib [of c] c assms(5) p by (cases "c = e") (simp_all add: exchange_def)
  qed
  show "ordered_but n ?p (exchange ?p e k)"
    unfolding ordered_but_def
  proof (intro conjI allI impI)
    fix i assume i: "0 < i \<and> i < n \<and> i \<noteq> ?p \<and> Parent i \<noteq> ?p"
    then show "exchange ?p e k (Parent i) \<le> exchange ?p e k i"
      using ord [of i] kids [of i] by (auto simp: exchange_def)
  next
    fix c assume c: "0 < c \<and> c < n \<and> Parent c = ?p \<and> 0 < ?p"
    then have "Parent ?p \<noteq> ?p" "Parent ?p \<noteq> e" "k (Parent ?p) \<le> k ?p"
      using up p Parent_less [of ?p] by (metis less_irrefl less_trans)+
    then show "exchange ?p e k (Parent ?p) \<le> exchange ?p e k c"
      using sib [of c] c p by (cases "c = e") (auto simp: exchange_def)
  qed
qed

lemma exchange_down:
  assumes "ordered_but n e k" "above_ok e k" "0 < c" "c < n" "Parent c = e" "k c < k e"
    and least: "\<And>d. 0 < d \<Longrightarrow> d < n \<Longrightarrow> Parent d = e \<Longrightarrow> k c \<le> k d"
  shows "ordered_but n c (exchange c e k)" "above_ok c (exchange c e k)"
proof -
  have p: "e < c" using assms(3,5) Parent_less by blast
  have ord: "\<And>i. 0 < i \<Longrightarrow> i < n \<Longrightarrow> i \<noteq> e \<Longrightarrow> Parent i \<noteq> e \<Longrightarrow> k (Parent i) \<le> k i"
    and kids: "\<And>d. 0 < d \<Longrightarrow> d < n \<Longrightarrow> Parent d = e \<Longrightarrow> 0 < e \<Longrightarrow> k (Parent e) \<le> k d"
    using assms(1) by (auto simp: ordered_but_def)
  show "above_ok c (exchange c e k)" using assms(5,6) p by (simp add: above_ok_def exchange_def)
  show "ordered_but n c (exchange c e k)"
    unfolding ordered_but_def
  proof (intro conjI allI impI)
    fix i assume i: "0 < i \<and> i < n \<and> i \<noteq> c \<and> Parent i \<noteq> c"
    show "exchange c e k (Parent i) \<le> exchange c e k i"
    proof (cases "i = e")
      case True
      then have "Parent e < e" using i by simp
      then show ?thesis using True i p kids [of c] assms(3-5) by (auto simp: exchange_def)
    next
      case False
      then show ?thesis using i p ord [of i] least [of i] by (auto simp: exchange_def)
    qed
  next
    fix d assume d: "0 < d \<and> d < n \<and> Parent d = c \<and> 0 < c"
    then have "c < d" using Parent_less by blast
    then have "k c \<le> k d" using ord [of d] d p by auto
    then show "exchange c e k (Parent c) \<le> exchange c e k d"
      using assms(5) p \<open>c < d\<close> by (auto simp: exchange_def)
  qed
qed

text \<open>The root has the least key.\<close>

lemma ordered_keys_root: "ordered_keys n k \<Longrightarrow> i < n \<Longrightarrow> k 0 \<le> k i"
proof (induction i rule: less_induct)
  case (less i)
  show ?case
  proof (cases "i = 0")
    case False
    then have "k 0 \<le> k (Parent i)" using less by (auto intro: order.strict_trans)
    also have "\<dots> \<le> k i" using less.prems False by (simp add: ordered_keys_def)
    finally show ?thesis .
  qed simp
qed

section \<open>Nodes and their positions\<close>

text \<open>
  Every position below \<open>hlast\<close> points to a node that knows its position, and every node of the memory is found at
  its position.
\<close>

definition node_in :: "('k, 'd) heap \<Rightarrow> nat \<Rightarrow> addr \<Rightarrow> ('k, 'd) heap_node \<Rightarrow> bool" where
  "node_in hp i a n \<longleftrightarrow> hnodes hp ! i = Some a \<and> hmem hp a = Some n \<and> nid n = i"

definition heap_wf :: "('k, 'd) heap \<Rightarrow> bool" where
  "heap_wf hp \<longleftrightarrow> 0 < length (hnodes hp) \<and> hlast hp \<le> length (hnodes hp) \<and>
     (\<forall>i < hlast hp. \<exists>a n. node_in hp i a n) \<and>
     (\<forall>a n. hmem hp a = Some n \<longrightarrow> nid n < hlast hp \<and> hnodes hp ! nid n = Some a)"

definition pk :: "('k, 'd) heap \<Rightarrow> nat \<Rightarrow> 'k" where
  "pk hp i = nkey (the (hmem hp (the (hnodes hp ! i))))"

text \<open>What the heap holds: for each node its key and its data.\<close>

definition heap_items :: "('k, 'd) heap \<Rightarrow> addr \<rightharpoonup> 'k \<times> 'd" where
  "heap_items hp = (\<lambda>a. map_option (\<lambda>n. (nkey n, ndata n)) (hmem hp a))"

definition heap_ok :: "('k::linorder, 'd) heap \<Rightarrow> bool" where
  "heap_ok hp \<longleftrightarrow> heap_wf hp \<and> ordered_keys (hlast hp) (pk hp)"

lemma node_inD:
  assumes "heap_wf hp" "hmem hp a = Some n"
  shows "nid n < hlast hp" "nid n < length (hnodes hp)" "hnodes hp ! nid n = Some a" "pk hp (nid n) = nkey n"
proof -
  show *: "nid n < hlast hp" "hnodes hp ! nid n = Some a" using assms by (auto simp: heap_wf_def)
  then show "nid n < length (hnodes hp)" using assms(1) by (simp add: heap_wf_def)
  show "pk hp (nid n) = nkey n" using * assms(2) by (simp add: pk_def)
qed

lemma node_at_pos:
  assumes "heap_wf hp" "i < hlast hp"
  obtains a n where "hnodes hp ! i = Some a" "hmem hp a = Some n" "nid n = i" "pk hp i = nkey n"
    "node_ptr hp i = Inr a" "deref hp a = Inr n" "node_at hp i = Inr n"
proof -
  obtain a n where "hnodes hp ! i = Some a" "hmem hp a = Some n" "nid n = i"
    using assms by (auto simp: heap_wf_def node_in_def)
  moreover have "i < length (hnodes hp)" using assms by (simp add: heap_wf_def)
  ultimately show ?thesis
    using that [of a n] by (simp add: pk_def node_ptr_def deref_def node_at_def)
qed

lemma heap_node_exist_iff: "heap_wf hp \<Longrightarrow> heap_node_exist hp (int i) \<longleftrightarrow> i < hlast hp"
  by (auto simp: heap_node_exist_def elim: node_at_pos)

text \<open>What a repair keeps: everything but the positions.\<close>

definition same_items :: "('k, 'd) heap \<Rightarrow> ('k, 'd) heap \<Rightarrow> bool" where
  "same_items hp hp' \<longleftrightarrow> heap_items hp' = heap_items hp \<and> hlast hp' = hlast hp \<and> hage hp' = hage hp \<and>
     length (hnodes hp') = length (hnodes hp)"

lemma same_items_refl [simp]: "same_items hp hp"
  by (simp add: same_items_def)

lemma same_items_trans: "same_items hp hp' \<Longrightarrow> same_items hp' hp'' \<Longrightarrow> same_items hp hp''"
  by (simp add: same_items_def)

lemma heap_swap_element:
  assumes "heap_wf hp" "hmem hp a = Some n" "hmem hp b = Some m"
  obtains hp' where "heap_swap_element a b hp = Inr hp'" "heap_wf hp'" "same_items hp hp'" "hlast hp' = hlast hp"
    "hmem hp' b = Some (m\<lparr>nid := nid n\<rparr>)" "hmem hp' a = Some (n\<lparr>nid := nid m\<rparr>)"
    "pk hp' = exchange (nid n) (nid m) (pk hp)" "hnodes hp' = (hnodes hp)[nid m := Some a, nid n := Some b]"
proof -
  note A = node_inD [OF assms(1,2)] and B = node_inD [OF assms(1,3)]
  let ?hp = "hp\<lparr>hmem := (hmem hp)(a \<mapsto> n\<lparr>nid := nid m\<rparr>, b \<mapsto> m\<lparr>nid := nid n\<rparr>),
    hnodes := (hnodes hp)[nid m := Some a, nid n := Some b]\<rparr>"
  have ab: "a = b \<longleftrightarrow> nid n = nid m" using A B assms by auto
  have r: "heap_swap_element a b hp = Inr ?hp"
    using assms(2,3) A(2) B(2) ab by (cases "a = b") (auto simp: heap_swap_element_def set_id_def place_def deref_def)
  have w: "heap_wf ?hp"
    unfolding heap_wf_def
  proof (intro conjI allI impI)
    fix i assume i: "i < hlast ?hp"
    then obtain c x where "hnodes hp ! i = Some c" "hmem hp c = Some x" "nid x = i"
      using assms(1) by (auto elim: node_at_pos)
    then show "\<exists>c x. node_in ?hp i c x"
      using A B ab assms by (cases "i = nid n"; cases "i = nid m") (simp_all add: node_in_def, auto)
  next
    fix c x assume c: "hmem ?hp c = Some x"
    consider "c = b" "x = m\<lparr>nid := nid n\<rparr>" | "c \<noteq> b" "c = a" "x = n\<lparr>nid := nid m\<rparr>" | "c \<noteq> b" "c \<noteq> a" "hmem hp c = Some x"
      using c by (auto split: if_splits)
    then have "nid x < hlast ?hp \<and> hnodes ?hp ! nid x = Some c"
    proof cases
      case 1
      then show ?thesis using A by simp
    next
      case 2
      then show ?thesis using B ab by simp
    next
      case 3
      note C = node_inD [OF assms(1) 3(3)]
      have "nid x \<noteq> nid n" "nid x \<noteq> nid m" using C(3) A(3) B(3) 3 by auto
      then show ?thesis using C by simp
    qed
    then show "nid x < hlast ?hp" "hnodes ?hp ! nid x = Some c" by blast+
  next
    show "0 < length (hnodes ?hp)" "hlast ?hp \<le> length (hnodes ?hp)" using assms(1) by (auto simp: heap_wf_def)
  qed
  have k: "pk ?hp = exchange (nid n) (nid m) (pk hp)"
  proof
    fix i
    have nm: "nid n = nid m \<Longrightarrow> nkey n = nkey m" using ab assms(2,3) by auto
    have key: "nkey (the (hmem ?hp q)) = nkey (the (hmem hp q))" for q using assms(2,3) by simp
    have "hnodes ?hp ! i = (if i = nid n then Some b else if i = nid m then Some a else hnodes hp ! i)"
      using A(2) B(2) by simp
    then show "pk ?hp i = exchange (nid n) (nid m) (pk hp) i"
      using A(4) B(4) assms(2,3) nm unfolding pk_def key by (simp add: exchange_def)
  qed
  have i: "heap_items ?hp = heap_items hp" using assms(2,3) by (simp add: heap_items_def fun_eq_iff)
  have same: "same_items hp ?hp" unfolding same_items_def i by simp
  have ma: "hmem ?hp a = Some (n\<lparr>nid := nid m\<rparr>)" using ab assms(2,3) by (cases "a = b") simp_all
  show ?thesis by (rule that [OF r w same _ _ ma k]) simp_all
qed

section \<open>Sifting\<close>

lemma exchange_commute: "exchange i j k = exchange j i k"
  by (auto simp: exchange_def fun_eq_iff)

lemma ify_up_loop:
  assumes "heap_wf hp" "hmem hp e = Some n" "nid n < f" "ordered_but (hlast hp) (nid n) (pk hp)" "below_ok (hlast hp) (nid n) (pk hp)"
  shows "\<exists>hp'. ify_up_loop f e hp = Inr hp' \<and> heap_ok hp' \<and> same_items hp hp'"
  using assms
proof (induction f arbitrary: hp n)
  case (Suc f)
  note N = node_inD [OF Suc.prems(1,2)]
  show ?case
  proof (cases "nid n = 0 \<or> pk hp (Parent (nid n)) \<le> pk hp (nid n)")
    case True
    then have "heap_ok hp"
      using ordered_but_all [OF Suc.prems(4) _ Suc.prems(5)] Suc.prems(1) by (auto simp: heap_ok_def above_ok_def)
    moreover have "ify_up_loop (Suc f) e hp = Inr hp"
    proof (cases "nid n = 0")
      case False
      then have "Parent (nid n) < hlast hp" using N(1) Parent_less by (metis gr0I less_trans)
      then show ?thesis using Suc.prems(1,2) False True N(4) by (elim node_at_pos) (auto simp: deref_def)
    qed (use Suc.prems(2) in \<open>simp add: deref_def\<close>)
    ultimately show ?thesis by auto
  next
    case False
    then have pos: "0 < nid n" and less: "pk hp (nid n) < pk hp (Parent (nid n))" by auto
    have P: "Parent (nid n) < hlast hp" using N(1) pos Parent_less less_trans by blast
    obtain q m where q: "hmem hp q = Some m" "nid m = Parent (nid n)" "node_ptr hp (Parent (nid n)) = Inr q" "deref hp q = Inr m"
      "pk hp (Parent (nid n)) = nkey m"
      using node_at_pos [OF Suc.prems(1) P] by metis
    obtain hp1 where h: "heap_swap_element q e hp = Inr hp1" "heap_wf hp1" "same_items hp hp1" "hlast hp1 = hlast hp"
      "hmem hp1 e = Some (n\<lparr>nid := nid m\<rparr>)" "pk hp1 = exchange (nid m) (nid n) (pk hp)"
      using heap_swap_element [OF Suc.prems(1) q(1) Suc.prems(2)] by metis
    note X = exchange_up [OF Suc.prems(4,5) pos N(1) less]
    have "\<exists>hp'. ify_up_loop f e hp1 = Inr hp' \<and> heap_ok hp' \<and> same_items hp1 hp'"
      using X h(4,6) q(2) pos Suc.prems(3) Parent_less [OF pos] by (intro Suc.IH [OF h(2,5)]) auto
    then show ?thesis
      using Suc.prems(2) pos q less h(1,3) N(4) same_items_trans by (auto simp: deref_def)
  qed
qed simp

lemma smaller_kid:
  assumes "heap_wf hp" "Left i < hlast hp"
  obtains q m where "smaller_kid hp (Left i) (Right i) = Inr q" "hmem hp q = Some m" "deref hp q = Inr m" "pk hp (nid m) = nkey m"
    "Parent (nid m) = i" "0 < nid m" "nid m < hlast hp"
    "\<And>d. 0 < d \<Longrightarrow> d < hlast hp \<Longrightarrow> Parent d = i \<Longrightarrow> nkey m \<le> pk hp d"
proof -
  have pl: "Parent (Left i) = i" "Parent (Right i) = i" "0 < Left i" "0 < Right i" by (simp_all add: Parent_def Left_def Right_def)
  have kids: "\<And>d. 0 < d \<Longrightarrow> Parent d = i \<Longrightarrow> d = Left i \<or> d = Right i" using Parent_kid_iff by blast
  obtain a n where l: "hmem hp a = Some n" "nid n = Left i" "pk hp (Left i) = nkey n" "node_ptr hp (Left i) = Inr a"
    "deref hp a = Inr n" "node_at hp (Left i) = Inr n"
    using node_at_pos [OF assms] by metis
  show ?thesis
  proof (cases "Right i < hlast hp")
    case False
    then have "smaller_kid hp (Left i) (Right i) = Inr a" using assms(1) l by (simp add: smaller_kid_def heap_node_exist_iff)
    moreover have "nkey n \<le> pk hp d" if "0 < d" "d < hlast hp" "Parent d = i" for d using kids [OF that(1,3)] False that(2) l(3) by auto
    ultimately show ?thesis using that [of a n] l pl assms(2) by simp
  next
    case True
    obtain b m where r: "hmem hp b = Some m" "nid m = Right i" "pk hp (Right i) = nkey m" "node_ptr hp (Right i) = Inr b"
      "deref hp b = Inr m" "node_at hp (Right i) = Inr m"
      using node_at_pos [OF assms(1) True] by metis
    have k: "smaller_kid hp (Left i) (Right i) = Inr (if nkey m < nkey n then b else a)"
      using assms(1) True l r by (simp add: smaller_kid_def heap_node_exist_iff)
    show ?thesis
    proof (cases "nkey m < nkey n")
      case less: True
      have "nkey m \<le> pk hp d" if "0 < d" "d < hlast hp" "Parent d = i" for d
        using kids [OF that(1,3)] l(3) r(3) less by auto
      then show ?thesis using that [of b m] k r pl True less by simp
    next
      case geq: False
      have "nkey n \<le> pk hp d" if "0 < d" "d < hlast hp" "Parent d = i" for d
        using kids [OF that(1,3)] l(3) r(3) geq by auto
      then show ?thesis using that [of a n] k l pl assms(2) geq by simp
    qed
  qed
qed

lemma ify_down_loop:
  assumes "heap_wf hp" "hmem hp e = Some n" "hlast hp < nid n + f" "ordered_but (hlast hp) (nid n) (pk hp)" "above_ok (nid n) (pk hp)"
  shows "\<exists>hp'. ify_down_loop f e hp = Inr hp' \<and> heap_ok hp' \<and> same_items hp hp'"
  using assms
proof (induction f arbitrary: hp n)
  case 0
  then show ?case using node_inD(1) by fastforce
next
  case (Suc f)
  note N = node_inD [OF Suc.prems(1,2)]
  have done_ok: "below_ok (hlast hp) (nid n) (pk hp) \<Longrightarrow> heap_ok hp"
    using ordered_but_all [OF Suc.prems(4,5)] Suc.prems(1) by (simp add: heap_ok_def)
  have ex: "heap_node_exist hp (int (Left (nid n))) \<longleftrightarrow> Left (nid n) < hlast hp"
    "heap_node_exist hp (int (Right (nid n))) \<longleftrightarrow> Right (nid n) < hlast hp"
    using heap_node_exist_iff [OF Suc.prems(1)] by blast+
  show ?case
  proof (cases "Left (nid n) < hlast hp")
    case False
    then have "below_ok (hlast hp) (nid n) (pk hp)" using Parent_kid_iff by (fastforce simp: below_ok_def Left_def Right_def)
    moreover have "ify_down_loop (Suc f) e hp = Inr hp"
      using False Suc.prems(2) ex by (simp add: deref_def Left_def Right_def)
    ultimately show ?thesis using done_ok by auto
  next
    case True
    obtain q m where q: "smaller_kid hp (Left (nid n)) (Right (nid n)) = Inr q" "hmem hp q = Some m" "deref hp q = Inr m" "pk hp (nid m) = nkey m"
      "Parent (nid m) = nid n" "0 < nid m" "nid m < hlast hp"
      and least: "\<And>d. 0 < d \<Longrightarrow> d < hlast hp \<Longrightarrow> Parent d = nid n \<Longrightarrow> nkey m \<le> pk hp d"
      using smaller_kid [OF Suc.prems(1) True] by metis
    show ?thesis
    proof (cases "nkey n \<le> nkey m")
      case True
      then have "below_ok (hlast hp) (nid n) (pk hp)" using least N(4) by (auto simp: below_ok_def intro: order.trans)
      moreover have "ify_down_loop (Suc f) e hp = Inr hp"
        using \<open>Left (nid n) < hlast hp\<close> True Suc.prems(2) ex q by (simp add: deref_def Let_def)
      ultimately show ?thesis using done_ok by auto
    next
      case False
      obtain hp1 where h: "heap_swap_element q e hp = Inr hp1" "heap_wf hp1" "same_items hp hp1" "hlast hp1 = hlast hp"
        "hmem hp1 e = Some (n\<lparr>nid := nid m\<rparr>)" "pk hp1 = exchange (nid m) (nid n) (pk hp)"
        using heap_swap_element [OF Suc.prems(1) q(2) Suc.prems(2)] by metis
      note X = exchange_down [OF Suc.prems(4,5) q(6,7,5)]
      have "nid n < nid m" using q(5,6) Parent_less by metis
      then have "\<exists>hp'. ify_down_loop f e hp1 = Inr hp' \<and> heap_ok hp' \<and> same_items hp1 hp'"
        using X h(4,6) q(4) least N(4) False Suc.prems(3) by (intro Suc.IH [OF h(2,5)]) auto
      then show ?thesis
        using \<open>Left (nid n) < hlast hp\<close> False Suc.prems(2) ex q h(1,3) same_items_trans by (auto simp: deref_def Let_def)
    qed
  qed
qed

section \<open>The operations keep the order and the contents\<close>

lemma ordered_but_cong:
  assumes "ordered_keys n k" "e < n" "\<And>i. i < n \<Longrightarrow> i \<noteq> e \<Longrightarrow> k' i = k i"
  shows "ordered_but n e k'"
proof -
  note O = ordered_keys_but [OF assms(2,1)]
  have "k' (Parent i) \<le> k' i" if "0 < i" "i < n" "i \<noteq> e" "Parent i \<noteq> e" for i
    using assms(1,3) that Parent_less [OF that(1)] by (auto simp: ordered_keys_def)
  moreover have "k' (Parent e) \<le> k' c" if c: "0 < c" "c < n" "Parent c = e" "0 < e" for c
  proof -
    have "Parent c < c" "Parent e < e" using Parent_less [OF c(1)] Parent_less [OF c(4)] .
    then have "c \<noteq> e" "Parent e \<noteq> e" "Parent e < n" using c by linarith+
    then show ?thesis using O c assms(3) by (auto simp: ordered_but_def)
  qed
  ultimately show ?thesis by (simp add: ordered_but_def)
qed

lemma ordered_keys_cong: "ordered_keys n k \<Longrightarrow> m \<le> n \<Longrightarrow> (\<And>i. i < m \<Longrightarrow> k' i = k i) \<Longrightarrow> ordered_keys m k'"
  unfolding ordered_keys_def by (metis Parent_less less_trans order.strict_trans2)

lemma same_items_node: "same_items hp hp' \<Longrightarrow> hmem hp a = Some n \<Longrightarrow> \<exists>n'. hmem hp' a = Some n'"
  by (cases "hmem hp' a") (auto simp: same_items_def heap_items_def dest: fun_cong [of _ _ a])

lemma heap_restore:
  assumes "heap_wf hp" "hmem hp e = Some n" "ordered_but (hlast hp) (nid n) (pk hp)"
  shows "\<exists>hp'. heap_restore e hp = Inr hp' \<and> heap_ok hp' \<and> same_items hp hp'"
proof -
  note N = node_inD [OF assms(1,2)]
  have P: "Parent (nid n) < hlast hp" using N(1) by (simp add: Parent_def)
  obtain m where m: "pk hp (Parent (nid n)) = nkey m" "node_at hp (Parent (nid n)) = Inr m"
    using node_at_pos [OF assms(1) P] by metis
  show ?thesis
  proof (cases "nkey n < nkey m")
    case True
    then have pos: "0 < nid n" using m(1) N(4) by (cases "nid n") (auto simp: Parent_def)
    have "below_ok (hlast hp) (nid n) (pk hp)"
      using assms(3) True m(1) N(4) pos unfolding ordered_but_def below_ok_def by (metis less_imp_le order.trans)
    then obtain hp1 where h: "heap_ify_up e hp = Inr hp1" "heap_ok hp1" "same_items hp hp1"
      using ify_up_loop [OF assms(1,2) _ assms(3)] N(1) unfolding heap_ify_up_def by (metis less_SucI)
    obtain n1 where n1: "hmem hp1 e = Some n1" using same_items_node [OF h(3) assms(2)] by blast
    have "heap_wf hp1" "ordered_keys (hlast hp1) (pk hp1)" using h(2) by (simp_all add: heap_ok_def)
    then have "\<exists>hp'. heap_ify_down e hp1 = Inr hp' \<and> heap_ok hp' \<and> same_items hp1 hp'"
      using ordered_keys_but [of "nid n1" "hlast hp1" "pk hp1"] node_inD(1) [OF _ n1] ify_down_loop [OF _ n1, of "Suc (hlast hp1)"]
      by (simp add: heap_ify_down_def)
    then show ?thesis
      using h True m assms(2) same_items_trans by (auto simp: heap_restore_def deref_def)
  next
    case False
    then have "above_ok (nid n) (pk hp)" using m(1) N(4) by (simp add: above_ok_def not_less)
    then have "\<exists>hp'. heap_ify_down e hp = Inr hp' \<and> heap_ok hp' \<and> same_items hp hp'"
      using ify_down_loop [OF assms(1,2) _ assms(3), of "Suc (hlast hp)"] by (simp add: heap_ify_down_def)
    then show ?thesis using False m assms(2) by (auto simp: heap_restore_def deref_def)
  qed
qed

lemma heap_grow_wf:
  assumes "heap_wf hp"
  shows "heap_wf (heap_grow hp)" "hlast (heap_grow hp) < length (hnodes (heap_grow hp))" "hlast (heap_grow hp) = hlast hp"
    "hmem (heap_grow hp) = hmem hp" "hage (heap_grow hp) = hage hp" "\<And>i. i < hlast hp \<Longrightarrow> pk (heap_grow hp) i = pk hp i"
proof -
  have l: "0 < length (hnodes hp)" "hlast hp \<le> length (hnodes hp)" using assms by (auto simp: heap_wf_def)
  show g: "hlast (heap_grow hp) = hlast hp" "hmem (heap_grow hp) = hmem hp" "hage (heap_grow hp) = hage hp"
    by (simp_all add: heap_grow_def Let_def)
  show gl: "hlast (heap_grow hp) < length (hnodes (heap_grow hp))"
  proof -
    have "hlast hp < length (hnodes hp) * 2" "length (hnodes hp) > 10000 \<Longrightarrow> hlast hp < length (hnodes hp) * 3 div 2"
      using l by linarith+
    then show ?thesis by (auto simp: heap_grow_def Let_def Threshold_def)
  qed
  have n: "hnodes (heap_grow hp) ! i = hnodes hp ! i" if "i < hlast hp" for i
    using l(2) that by (simp add: heap_grow_def Let_def nth_append)
  show "heap_wf (heap_grow hp)"
    using assms gl n unfolding heap_wf_def g node_in_def by auto
  show "pk (heap_grow hp) i = pk hp i" if "i < hlast hp" for i using that by (simp add: pk_def g n)
qed

lemma heap_push:
  assumes "heap_ok hp" "hmem hp a = None" "hlast hp < length (hnodes hp)" "nid n = hlast hp"
  defines "hp1 \<equiv> hp\<lparr>hnodes := (hnodes hp)[hlast hp := Some a], hmem := (hmem hp)(a \<mapsto> n), hlast := hlast hp + 1\<rparr>"
  shows "\<exists>hp'. heap_ify_up a hp1 = Inr hp' \<and> heap_ok hp' \<and> same_items hp1 hp'"
proof -
  have wf: "heap_wf hp" and o: "ordered_keys (hlast hp) (pk hp)" using assms(1) by (simp_all add: heap_ok_def)
  have other: "hnodes hp ! i \<noteq> Some a" if "i < hlast hp" for i
    using node_at_pos [OF wf that] assms(2) by (metis option.distinct(1) option.inject)
  have w1: "heap_wf hp1"
    unfolding heap_wf_def
  proof (intro conjI)
    show "\<forall>i < hlast hp1. \<exists>b m. node_in hp1 i b m"
    proof (intro allI impI)
      fix i assume "i < hlast hp1"
      then consider "i = hlast hp" | "i < hlast hp" by (fastforce simp: hp1_def less_Suc_eq)
      then show "\<exists>b m. node_in hp1 i b m"
      proof cases
        case 1
        then show ?thesis using assms(3,4) by (auto simp: node_in_def hp1_def)
      next
        case 2
        then obtain b m where b: "hnodes hp ! i = Some b" "hmem hp b = Some m" "nid m = i" using node_at_pos [OF wf] by metis
        then have "node_in hp1 i b m" using other [OF 2] 2 by (simp add: node_in_def hp1_def)
        then show ?thesis by blast
      qed
    qed
    show "\<forall>b m. hmem hp1 b = Some m \<longrightarrow> nid m < hlast hp1 \<and> hnodes hp1 ! nid m = Some b"
      using assms(3,4) node_inD(1,3) [OF wf] by (auto simp: hp1_def less_Suc_eq) (metis less_irrefl nth_list_update_neq)
  qed (use assms(3) in \<open>auto simp: hp1_def\<close>)
  have m1: "hmem hp1 a = Some n" "hlast hp1 = Suc (hlast hp)" by (simp_all add: hp1_def)
  have "pk hp1 i = pk hp i" if "i < hlast hp" for i
  proof -
    obtain b m where "hnodes hp ! i = Some b" "hmem hp b = Some m" using node_at_pos [OF wf \<open>i < hlast hp\<close>] by metis
    then show ?thesis using other [OF that] that by (simp add: pk_def hp1_def)
  qed
  then have "pk hp1 (Parent i) \<le> pk hp1 i" if "0 < i" "i < hlast hp" for i
    using o that less_trans [OF Parent_less [OF that(1)] that(2)] by (simp add: ordered_keys_def)
  moreover have nokid: "Parent c \<noteq> hlast hp" if "0 < c" "c < Suc (hlast hp)" for c
    using Parent_less [OF that(1)] that(2) by linarith
  ultimately have ob: "ordered_but (hlast hp1) (nid n) (pk hp1)"
    unfolding ordered_but_def m1(2) assms(4) by (metis less_Suc_eq)
  have bo: "below_ok (hlast hp1) (nid n) (pk hp1)"
    unfolding below_ok_def m1(2) assms(4) using nokid by blast
  have "nid n < Suc (hlast hp1)" using m1(2) assms(4) by simp
  then show ?thesis unfolding heap_ify_up_def by (rule ify_up_loop [OF w1 m1(1) _ ob bo])
qed

lemma heap_insert_ok:
  assumes "heap_ok hp" "hmem hp a = None"
  shows "\<exists>hp'. heap_insert g a d hp = Inr hp' \<and> heap_ok hp' \<and> heap_items hp' = (heap_items hp)(a \<mapsto> (g d (hage hp), d)) \<and>
    hage hp' = hage hp \<and> hlast hp' = hlast hp + 1"
proof -
  let ?hp = "if heap_should_grow hp then heap_grow hp else hp"
  have wf: "heap_wf hp" and o: "ordered_keys (hlast hp) (pk hp)" using assms(1) by (simp_all add: heap_ok_def)
  have g: "heap_ok ?hp" "hlast ?hp < length (hnodes ?hp)" "hlast ?hp = hlast hp" "hmem ?hp = hmem hp" "hage ?hp = hage hp"
    using heap_grow_wf [OF wf] assms(1) ordered_keys_cong [OF o order.refl, of "pk (heap_grow hp)"]
    by (auto simp: heap_ok_def heap_should_grow_def)
  let ?n = "\<lparr>nkey = g d (hage hp), nid = hlast hp, ndata = d\<rparr>"
  obtain hp' where h: "heap_ify_up a (?hp\<lparr>hnodes := (hnodes ?hp)[hlast ?hp := Some a], hmem := (hmem ?hp)(a \<mapsto> ?n), hlast := hlast ?hp + 1\<rparr>) = Inr hp'"
    "heap_ok hp'" "same_items (?hp\<lparr>hnodes := (hnodes ?hp)[hlast ?hp := Some a], hmem := (hmem ?hp)(a \<mapsto> ?n), hlast := hlast ?hp + 1\<rparr>) hp'"
    using heap_push [OF g(1) _ g(2), of a ?n] g(3,4) assms(2) by auto
  then have "heap_insert g a d hp = Inr hp'"
    using g by (simp add: heap_insert_def Let_def)
  moreover have "heap_items hp' = (heap_items hp)(a \<mapsto> (g d (hage hp), d))" "hage hp' = hage hp" "hlast hp' = hlast hp + 1"
    using h(3) g by (auto simp: same_items_def heap_items_def fun_eq_iff)
  ultimately show ?thesis using h(2) by blast
qed

lemma heap_extractlast_wf:
  assumes "heap_wf hp" "hmem hp a = Some n" "Suc (nid n) = hlast hp"
  defines "hp' \<equiv> hp\<lparr>hlast := nid n, hmem := (hmem hp)(a := None)\<rparr>"
  shows "heap_extractlast hp = Inr (ndata n, hp')" "heap_wf hp'" "\<And>i. i < nid n \<Longrightarrow> pk hp' i = pk hp i"
    "heap_items hp' = (heap_items hp)(a := None)"
proof -
  note N = node_inD [OF assms(1,2)]
  have l: "hlast hp - 1 = nid n" "int (hlast hp) - 1 = int (nid n)" using assms(3) by simp_all
  have ex: "heap_node_exist hp (int (nid n))" using heap_node_exist_iff [OF assms(1)] N(1) by simp
  have np: "node_ptr hp (nid n) = Inr a" using N(2,3) by (simp add: node_ptr_def)
  show "heap_extractlast hp = Inr (ndata n, hp')"
    unfolding heap_extractlast_def l using ex np assms(2) by (simp add: deref_def hp'_def Let_def)
  have other: "hnodes hp ! i \<noteq> Some a" if "i < nid n" for i
    using that assms(2) node_at_pos [OF assms(1), of i] N(1) by (metis less_irrefl less_trans option.inject)
  have keep: "\<exists>b m. hnodes hp ! i = Some b \<and> hmem hp b = Some m \<and> nid m = i \<and> b \<noteq> a" if "i < nid n" for i
    using other [OF that] node_at_pos [OF assms(1) less_trans [OF that N(1)]] by metis
  show "heap_wf hp'"
    unfolding heap_wf_def
  proof (intro conjI)
    show "\<forall>i<hlast hp'. \<exists>b m. node_in hp' i b m" using keep by (fastforce simp: hp'_def node_in_def)
    show "\<forall>b m. hmem hp' b = Some m \<longrightarrow> nid m < hlast hp' \<and> hnodes hp' ! nid m = Some b"
    proof (intro allI impI)
      fix b m assume b: "hmem hp' b = Some m"
      then have "b \<noteq> a" "hmem hp b = Some m" by (auto simp: hp'_def split: if_splits)
      moreover from this have "nid m \<noteq> nid n" using N(3) node_inD(3) [OF assms(1)] by (metis option.inject)
      ultimately show "nid m < hlast hp' \<and> hnodes hp' ! nid m = Some b"
        using node_inD(1,3) [OF assms(1), of b m] assms(3) by (simp add: hp'_def)
    qed
  qed (use assms(1) N in \<open>auto simp: heap_wf_def hp'_def\<close>)
  show "pk hp' i = pk hp i" if "i < nid n" for i
    using keep [OF that] by (auto simp: pk_def hp'_def)
  show "heap_items hp' = (heap_items hp)(a := None)" by (simp add: heap_items_def hp'_def fun_eq_iff)
qed

lemma heap_delete_ok:
  assumes "heap_ok hp" "hmem hp e = Some n"
  shows "\<exists>hp'. heap_delete e hp = Inr (ndata n, hp') \<and> heap_ok hp' \<and> heap_items hp' = (heap_items hp)(e := None) \<and>
    hage hp' = hage hp \<and> hlast hp' = hlast hp - 1"
proof -
  have wf: "heap_wf hp" and o: "ordered_keys (hlast hp) (pk hp)" using assms(1) by (simp_all add: heap_ok_def)
  note N = node_inD [OF wf assms(2)]
  have last_in: "hlast hp - 1 < hlast hp" and ex: "heap_node_exist hp (int (hlast hp) - 1)"
    using N(1) heap_node_exist_iff [OF wf, of "hlast hp - 1"] by (simp_all add: of_nat_diff)
  obtain q m where q: "hmem hp q = Some m" "nid m = hlast hp - 1" "node_ptr hp (hlast hp - 1) = Inr q"
    "hnodes hp ! (hlast hp - 1) = Some q"
    using node_at_pos [OF wf last_in] by metis
  obtain hp1 where h1: "heap_swap_element q e hp = Inr hp1" "heap_wf hp1" "same_items hp hp1" "hlast hp1 = hlast hp"
    "hmem hp1 e = Some (n\<lparr>nid := nid m\<rparr>)" "hmem hp1 q = Some (m\<lparr>nid := nid n\<rparr>)" "pk hp1 = exchange (nid m) (nid n) (pk hp)"
    using heap_swap_element [OF wf q(1) assms(2)] by metis
  have last1: "Suc (nid (n\<lparr>nid := nid m\<rparr>)) = hlast hp1" using q(2) h1(4) N(1) by simp
  let ?hp2 = "hp1\<lparr>hlast := nid m, hmem := (hmem hp1)(e := None)\<rparr>"
  note E = heap_extractlast_wf [OF h1(2,5) last1, simplified]
  have del: "heap_delete e hp = (if e = q then Inr (ndata n, ?hp2)
      else if nid m > 0 then bindE (heap_restore q ?hp2) (\<lambda>hp3. Inr (ndata n, hp3)) else Inr (ndata n, ?hp2))"
    using ex q(3) h1(1) E(1) assms(2) by (simp add: heap_delete_def deref_def)
  have it: "heap_items ?hp2 = (heap_items hp)(e := None)" "hage ?hp2 = hage hp" using E(4) h1(3) by (simp_all add: same_items_def)
  show ?thesis
  proof (cases "e = q")
    case True
    then have "nid m = nid n" using assms(2) q(1) by simp
    then have "\<And>i. i < nid m \<Longrightarrow> pk ?hp2 i = pk hp i" using E(3) h1(7) by (simp add: exchange_def)
    then have "heap_ok ?hp2"
      using ordered_keys_cong [OF o, of "nid m" "pk ?hp2"] E(2) q(2) by (simp add: heap_ok_def)
    then show ?thesis using True del it q(2) by simp
  next
    case False
    then have ne: "nid m \<noteq> nid n" using N(3) q(2,4) by auto
    then have lt: "nid n < nid m" using N(1) q(2) by linarith
    have "\<And>i. i < nid m \<Longrightarrow> i \<noteq> nid n \<Longrightarrow> pk ?hp2 i = pk hp i" using E(3) h1(7) by (simp add: exchange_def)
    then have "ordered_but (nid m) (nid n) (pk ?hp2)"
      using ordered_but_cong [OF ordered_keys_cong [OF o, of "nid m" "pk hp"] lt] q(2) by simp
    then obtain hp3 where r: "heap_restore q ?hp2 = Inr hp3" "heap_ok hp3" "same_items ?hp2 hp3"
      using heap_restore [OF E(2), of q "m\<lparr>nid := nid n\<rparr>"] h1(6) False by auto
    then have "heap_delete e hp = Inr (ndata n, hp3)" using False lt unfolding del by simp
    then show ?thesis using r(2,3) it q(2) by (simp add: same_items_def)
  qed
qed

lemma heap_update_ok:
  assumes "heap_ok hp" "hmem hp e = Some n"
  shows "\<exists>hp'. heap_update g e d hp = Inr (ndata n, hp') \<and> heap_ok hp' \<and> heap_items hp' = (heap_items hp)(e \<mapsto> (g d (hage hp), d)) \<and>
    hage hp' = hage hp \<and> hlast hp' = hlast hp"
proof -
  have wf: "heap_wf hp" and o: "ordered_keys (hlast hp) (pk hp)" using assms(1) by (simp_all add: heap_ok_def)
  note N = node_inD [OF wf assms(2)]
  let ?n = "n\<lparr>nkey := g d (hage hp), ndata := d\<rparr>"
  let ?hp = "hp\<lparr>hmem := (hmem hp)(e \<mapsto> ?n)\<rparr>"
  have w: "heap_wf ?hp"
    unfolding heap_wf_def
  proof (intro conjI)
    show "\<forall>i<hlast ?hp. \<exists>a m. node_in ?hp i a m"
    proof (intro allI impI)
      fix i assume "i < hlast ?hp"
      then have "i < hlast hp" by simp
      then obtain a m where "hnodes hp ! i = Some a" "hmem hp a = Some m" "nid m = i" using node_at_pos [OF wf] by metis
      then have "node_in ?hp i a (if a = e then ?n else m)" using assms(2) by (auto simp: node_in_def)
      then show "\<exists>a m. node_in ?hp i a m" by blast
    qed
    show "\<forall>a m. hmem ?hp a = Some m \<longrightarrow> nid m < hlast ?hp \<and> hnodes ?hp ! nid m = Some a"
      using N(1,3) node_inD(1,3) [OF wf] by simp
  qed (use wf in \<open>simp_all add: heap_wf_def\<close>)
  have "pk ?hp i = pk hp i" if i: "i < hlast hp" "i \<noteq> nid n" for i
  proof -
    obtain b m where "hnodes hp ! i = Some b" "hmem hp b = Some m" "nid m = i" using node_at_pos [OF wf i(1)] by metis
    then show ?thesis using i(2) assms(2) by (auto simp: pk_def)
  qed
  then have "ordered_but (hlast ?hp) (nid ?n) (pk ?hp)" using ordered_but_cong [OF o N(1), of "pk ?hp"] by simp
  then obtain hp' where "heap_restore e ?hp = Inr hp'" "heap_ok hp'" "same_items ?hp hp'"
    using heap_restore [OF w, of e ?n] by auto
  then show ?thesis using assms(2)
    by (auto simp: heap_update_def deref_def same_items_def heap_items_def fun_eq_iff)
qed

section \<open>A queue of keyed items, as an interface\<close>

text \<open>Taking items out until none is left, at most \<open>n\<close> times.\<close>

fun drain :: "('s \<Rightarrow> ('d option \<times> 's) outcome) \<Rightarrow> nat \<Rightarrow> 's \<Rightarrow> ('d list \<times> 's) outcome" where
  "drain pop 0 s = Inr ([], s)"
| "drain pop (Suc n) s =
     bindE (pop s) (\<lambda>(r, s'). case r of
         None \<Rightarrow> Inr ([], s')
       | Some d \<Rightarrow> bindE (drain pop n s') (\<lambda>(ds, s''). Inr (d # ds, s'')))"

definition least_item :: "('h \<rightharpoonup> 'k::linorder \<times> 'd) \<Rightarrow> 'h \<Rightarrow> bool" where
  "least_item m h \<longleftrightarrow> m h \<noteq> None \<and> (\<forall>h'. m h' \<noteq> None \<longrightarrow> fst (the (m h)) \<le> fst (the (m h')))"

locale keyed_queue =
  fixes ok :: "'s \<Rightarrow> bool"
    and items :: "'s \<Rightarrow> 'h \<rightharpoonup> 'k::linorder \<times> 'd"
    and pop :: "'s \<Rightarrow> ('d option \<times> 's) outcome"
  assumes finite_items: "ok s \<Longrightarrow> finite (dom (items s))"
    and extract_empty: "ok s \<Longrightarrow> items s = Map.empty \<Longrightarrow> pop s = Inr (None, s)"
    and extract_least: "ok s \<Longrightarrow> items s \<noteq> Map.empty \<Longrightarrow>
      \<exists>h s'. least_item (items s) h \<and> pop s = Inr (Some (snd (the (items s h))), s') \<and> ok s' \<and> items s' = (items s)(h := None)"
begin

lemma drain_all:
  "ok s \<Longrightarrow> card (dom (items s)) = n \<Longrightarrow>
     \<exists>hs s'. drain pop n s = Inr (map (\<lambda>h. snd (the (items s h))) hs, s') \<and> distinct hs \<and> set hs = dom (items s) \<and>
       sorted (map (\<lambda>h. fst (the (items s h))) hs) \<and> ok s' \<and> items s' = Map.empty"
proof (induction n arbitrary: s)
  case 0
  then show ?case using finite_items by auto
next
  case (Suc n)
  then have ne: "items s \<noteq> Map.empty" by auto
  obtain h s1 where e: "least_item (items s) h" "pop s = Inr (Some (snd (the (items s h))), s1)" "ok s1"
    "items s1 = (items s)(h := None)"
    using extract_least [OF Suc.prems(1) ne] by blast
  have h: "h \<in> dom (items s)" using e(1) by (auto simp: least_item_def)
  have d: "dom (items s1) = dom (items s) - {h}" by (simp add: e(4))
  then have "card (dom (items s1)) = n" using Suc.prems h finite_items [OF Suc.prems(1)] by (simp del: e(4))
  then obtain hs s' where r: "drain pop n s1 = Inr (map (\<lambda>h. snd (the (items s1 h))) hs, s')" "distinct hs" "set hs = dom (items s1)"
    "sorted (map (\<lambda>h. fst (the (items s1 h))) hs)" "ok s'" "items s' = Map.empty"
    using Suc.IH [OF e(3)] by blast
  have sub: "\<forall>x \<in> set hs. items s x \<noteq> None" and nh: "h \<notin> set hs" using r(3) d by auto
  then have low: "\<forall>x \<in> set hs. fst (the (items s h)) \<le> fst (the (items s x))"
    using e(1) unfolding least_item_def by blast
  have m: "map (\<lambda>h. f (the (items s1 h))) hs = map (\<lambda>h. f (the (items s h))) hs" for f :: "'k \<times> 'd \<Rightarrow> 'b"
    using nh by (auto simp: e(4))
  have "drain pop (Suc n) s = Inr (map (\<lambda>h. snd (the (items s h))) (h # hs), s')"
    using e(2) r(1) m [of snd] by simp
  moreover have "sorted (map (\<lambda>h. fst (the (items s h))) (h # hs))" using r(4) low m [of fst] by simp
  ultimately show ?case using r nh d h by (intro exI [of _ "h # hs"] exI [of _ s']) auto
qed

end

lemma dom_heap_items: "dom (heap_items hp) = dom (hmem hp)"
  by (auto simp: heap_items_def)

lemma heap_nodes_count:
  assumes "heap_wf hp"
  shows "finite (dom (hmem hp))" "card (dom (hmem hp)) = hlast hp"
proof -
  let ?f = "\<lambda>i. the (hnodes hp ! i)"
  have "dom (hmem hp) \<subseteq> ?f ` {..<hlast hp}"
  proof
    fix a assume "a \<in> dom (hmem hp)"
    then obtain n where "hmem hp a = Some n" by auto
    then show "a \<in> ?f ` {..<hlast hp}" using node_inD(1,3) [OF assms] by (intro image_eqI [of _ _ "nid n"]) simp_all
  qed
  moreover have "?f i \<in> dom (hmem hp)" if "i < hlast hp" for i
    using node_at_pos [OF assms that] by (metis domI option.sel)
  ultimately have im: "dom (hmem hp) = ?f ` {..<hlast hp}" by auto
  have "inj_on ?f {..<hlast hp}"
  proof (rule inj_onI)
    fix i j assume ij: "i \<in> {..<hlast hp}" "j \<in> {..<hlast hp}" "?f i = ?f j"
    then show "i = j" using node_at_pos [OF assms, of i] node_at_pos [OF assms, of j] by (metis lessThan_iff option.sel)
  qed
  then show "finite (dom (hmem hp))" "card (dom (hmem hp)) = hlast hp" using im by (simp_all add: card_image)
qed

lemma heap_min_node:
  assumes "heap_ok hp" "0 < hlast hp"
  obtains a n where "node_ptr hp 0 = Inr a" "deref hp a = Inr n" "hmem hp a = Some n" "node_at hp 0 = Inr n" "least_item (heap_items hp) a"
proof -
  have wf: "heap_wf hp" using assms(1) by (simp add: heap_ok_def)
  obtain a n where a: "node_ptr hp 0 = Inr a" "deref hp a = Inr n" "hmem hp a = Some n" "node_at hp 0 = Inr n" "pk hp 0 = nkey n"
    using node_at_pos [OF wf assms(2)] by metis
  have "nkey n \<le> nkey m" if "hmem hp b = Some m" for b m
    using ordered_keys_root [of "hlast hp" "pk hp" "nid m"] node_inD(1,4) [OF wf that] assms(1) a(5) by (simp add: heap_ok_def)
  then have "least_item (heap_items hp) a" using a(3) by (auto simp: least_item_def heap_items_def)
  then show ?thesis using that a by blast
qed

interpretation hq: keyed_queue heap_ok heap_items heap_extractmin
proof
  fix hp :: "('k::linorder, 'd) heap"
  assume ok: "heap_ok hp"
  then have wf: "heap_wf hp" by (simp add: heap_ok_def)
  show "finite (dom (heap_items hp))" using heap_nodes_count(1) [OF wf] by (simp add: dom_heap_items)
  have e: "heap_items hp = Map.empty \<longleftrightarrow> hlast hp = 0"
    using heap_nodes_count [OF wf] dom_heap_items [of hp] by (metis card_0_eq dom_eq_empty_conv)
  show "heap_items hp = Map.empty \<Longrightarrow> heap_extractmin hp = Inr (None, hp)" using e by (simp add: heap_extractmin_def)
  assume "heap_items hp \<noteq> Map.empty"
  then have pos: "0 < hlast hp" using e by simp
  obtain a n where a: "node_ptr hp 0 = Inr a" "deref hp a = Inr n" "hmem hp a = Some n" "least_item (heap_items hp) a"
    using heap_min_node [OF ok pos] by metis
  obtain hp' where d: "heap_delete a hp = Inr (ndata n, hp')" "heap_ok hp'" "heap_items hp' = (heap_items hp)(a := None)"
    using heap_delete_ok [OF ok a(3)] by blast
  have "heap_extractmin hp = Inr (Some (ndata n), hp')" using pos a d(1) by (simp add: heap_extractmin_def)
  then show "\<exists>h s'. least_item (heap_items hp) h \<and> heap_extractmin hp = Inr (Some (snd (the (heap_items hp h))), s') \<and>
      heap_ok s' \<and> heap_items s' = (heap_items hp)(h := None)"
    using a(3,4) d(2,3) by (intro exI [of _ a] exI [of _ hp']) (simp add: heap_items_def)
qed

section \<open>Properties of the heap\<close>

lemma new_heap_ok: "heap_ok (new_heap sz z)" "heap_items (new_heap sz z) = Map.empty"
  by (auto simp: heap_ok_def heap_wf_def ordered_keys_def new_heap_def MinSize_def heap_items_def)

lemma heap_extractmin_ok:
  assumes "heap_ok hp" "heap_items hp \<noteq> Map.empty"
  shows "\<exists>h ky y hp'. heap_items hp h = Some (ky, y) \<and> least_item (heap_items hp) h \<and> heap_peepminkey hp = Inr ky \<and>
    heap_extractmin hp = Inr (Some y, hp') \<and> heap_ok hp' \<and> heap_items hp' = (heap_items hp)(h := None)"
proof -
  obtain h hp' where e: "least_item (heap_items hp) h" "heap_extractmin hp = Inr (Some (snd (the (heap_items hp h))), hp')"
    "heap_ok hp'" "heap_items hp' = (heap_items hp)(h := None)"
    using hq.extract_least [OF assms] by blast
  have wf: "heap_wf hp" using assms(1) by (simp add: heap_ok_def)
  have pos: "0 < hlast hp" using assms(2) heap_nodes_count [OF wf] dom_heap_items [of hp] by (metis card_gt_0_iff dom_eq_empty_conv)
  obtain b m where b: "hmem hp b = Some m" "node_at hp 0 = Inr m" "least_item (heap_items hp) b"
    using heap_min_node [OF assms(1) pos] by metis
  have pe: "heap_peepminkey hp = Inr (nkey m)"
    using b(2) heap_node_exist_iff [OF wf, of 0] pos by (simp add: heap_peepminkey_def heap_peepkey_def)
  have "heap_items hp b = Some (nkey m, ndata m)" using b(1) by (simp add: heap_items_def)
  then have "fst (the (heap_items hp h)) = nkey m"
    using e(1) b(3) unfolding least_item_def by (metis fst_conv option.sel option.distinct(1) order.antisym)
  moreover obtain ky y where "heap_items hp h = Some (ky, y)" using e(1) by (auto simp: least_item_def)
  ultimately show ?thesis using e pe by auto
qed

lemma heap_extractmin_age:
  assumes "heap_ok hp" "heap_extractmin hp = Inr (r, hp')"
  shows "hage hp' = hage hp"
proof (cases "hlast hp = 0")
  case False
  then obtain a n where a: "node_ptr hp 0 = Inr a" "deref hp a = Inr n" "hmem hp a = Some n"
    using heap_min_node [OF assms(1)] by (metis gr0I)
  from heap_delete_ok [OF assms(1) a(3)] show ?thesis
    using assms(2) a False by (auto simp: heap_extractmin_def)
qed (use assms(2) in \<open>simp add: heap_extractmin_def\<close>)

lemma kid_in_order_eq:
  assumes "heap_wf hp" "i < hlast hp"
  shows "kid_in_order hp i c = Inr (c < hlast hp \<longrightarrow> pk hp i \<le> pk hp c)"
proof (cases "c < hlast hp")
  case True
  obtain n where n: "node_at hp i = Inr n" "pk hp i = nkey n" using node_at_pos [OF assms] by metis
  obtain m where m: "node_at hp c = Inr m" "pk hp c = nkey m" using node_at_pos [OF assms(1) True] by metis
  show ?thesis using True n m heap_node_exist_iff [OF assms(1), of c] by (auto simp: kid_in_order_def not_less)
qed (use heap_node_exist_iff [OF assms(1), of c] in \<open>simp add: kid_in_order_def\<close>)

lemma verify_loop_eq:
  assumes "heap_wf hp" "\<forall>i \<in> set is. i < hlast hp"
  shows "verify_loop hp is = Inr (\<forall>i \<in> set is. \<forall>c \<in> {Left i, Right i}. c < hlast hp \<longrightarrow> pk hp i \<le> pk hp c)"
  using assms(2) by (induction "is") (auto simp: kid_in_order_eq [OF assms(1)])


definition sample_heap :: "(int, string) heap" where
  "sample_heap = \<lparr>hnodes = [Some 10, Some 11], hlast = 2, hage = 0,
     hmem = [10 \<mapsto> \<lparr>nkey = 3, nid = 0, ndata = ''a''\<rparr>, 11 \<mapsto> \<lparr>nkey = 5, nid = 1, ndata = ''b''\<rparr>]\<rparr>"

lemma sample_heap_ok: "heap_ok sample_heap"
  by (auto simp: heap_ok_def heap_wf_def ordered_keys_def sample_heap_def node_in_def pk_def less_Suc_eq Parent_def numeral_2_eq_2
    split: if_splits)

lemma sample_heap_items: "heap_items sample_heap = [10 \<mapsto> (3, ''a''), 11 \<mapsto> (5, ''b'')]"
  by (auto simp: heap_items_def sample_heap_def fun_eq_iff)


text \<open>
  Taking the minimum until the heap is empty yields the data of every node exactly once, in the order of the keys.
\<close>

theorem heap_drain_sorted:
  assumes "heap_ok hp"
  shows "\<exists>hs hp'. drain heap_extractmin (hlast hp) hp = Inr (map (\<lambda>h. snd (the (heap_items hp h))) hs, hp') \<and>
    distinct hs \<and> set hs = dom (heap_items hp) \<and> sorted (map (\<lambda>h. fst (the (heap_items hp h))) hs) \<and> heap_items hp' = Map.empty"
proof -
  have "card (dom (heap_items hp)) = hlast hp"
    using heap_nodes_count(2) [of hp] assms by (simp add: dom_heap_items heap_ok_def)
  from hq.drain_all [OF assms this] show ?thesis by blast
qed

theorem heap_drain_sorted_witness:
  "\<exists>hs hp'. drain heap_extractmin 2 sample_heap = Inr (map (\<lambda>h. snd (the (heap_items sample_heap h))) hs, hp') \<and> set hs = {10, 11} \<and>
     sorted (map (\<lambda>h. fst (the (heap_items sample_heap h))) hs)"
proof -
  have "hlast sample_heap = 2" "dom (heap_items sample_heap) = {10, 11}" by (auto simp: sample_heap_items) (simp add: sample_heap_def)
  with heap_drain_sorted [OF sample_heap_ok] show ?thesis by auto
qed

text \<open>
  The self-check answers exactly whether the keys are in heap order, on every heap whose nodes are at the positions
  they record.
\<close>

theorem verify_heap_property_exact:
  assumes "heap_wf hp"
  shows "verify_heap_property hp = Inr (ordered_keys (hlast hp) (pk hp))"
proof -
  have "(\<forall>i \<in> set [0..<hlast hp div 2]. \<forall>c \<in> {Left i, Right i}. c < hlast hp \<longrightarrow> pk hp i \<le> pk hp c) \<longleftrightarrow> ordered_keys (hlast hp) (pk hp)"
    (is "?l \<longleftrightarrow> ?r")
  proof
    assume l: ?l
    show ?r
      unfolding ordered_keys_def
    proof (intro allI impI)
      fix c assume c: "0 < c \<and> c < hlast hp"
      then have "Parent c \<in> set [0..<hlast hp div 2]" "c \<in> {Left (Parent c), Right (Parent c)}"
        using Parent_kid_iff [of c "Parent c"] by (auto simp: Parent_def)
      then show "pk hp (Parent c) \<le> pk hp c" using l c by blast
    qed
  next
    assume r: ?r
    show ?l
    proof (intro ballI impI)
      fix i c assume "c \<in> {Left i, Right i}" "c < hlast hp"
      then have "0 < c" "Parent c = i" by (auto simp: Left_def Right_def Parent_def)
      then show "pk hp i \<le> pk hp c" using r \<open>c < hlast hp\<close> by (auto simp: ordered_keys_def)
    qed
  qed
  moreover have "\<forall>i \<in> set [0..<hlast hp div 2]. i < hlast hp" by auto
  ultimately show ?thesis
    using verify_loop_eq [OF assms, of "[0..<hlast hp div 2]"] by (simp add: verify_heap_property_def)
qed

theorem verify_heap_property_exact_witness: "verify_heap_property sample_heap = Inr True"
  using verify_heap_property_exact [of sample_heap] sample_heap_ok by (simp add: heap_ok_def)

end
