(* ===== verification/Heap_Policy.thy ===== *)
theory Heap_Policy
  imports Priority_Heap Removal_Policy
begin

text \<open>
  The heap removal policy of \<^verbatim>\<open>src/repl/heap/store_repl_heap.cc\<close>: which cached object to remove next.  The policy keeps
  the heap of \<open>Priority_Heap\<close>, whose data are the addresses of store entries; an entry points back to its heap node
  from one of its two policy nodes.  The key function of the policy (floating-point arithmetic on the age, the reference count
  and the time) and the aging of the heap are parameters, as are the memory allocator and what the store does with
  an entry whose last lock goes away.  Locking an entry also tells the store, which does not call back this policy: its
  member \<^verbatim>\<open>Referenced\<close> is NULL.
\<close>

section \<open>Entries and the policy\<close>

record 'k heap_policy =
  theHeap :: "('k, nat) heap"
  policy_count :: int
  nwalkers :: int
  policy_type :: entry_type
  entries :: "nat \<Rightarrow> policy_entry"

text \<open>The key function that the arguments of the policy select; unknown names are reported and mean LRU.\<close>

datatype heap_keyfunc = HeapKeyGen_StoreEntry_GDSF | HeapKeyGen_StoreEntry_LFUDA | HeapKeyGen_StoreEntry_LRU

definition select_keyfunc :: "string list \<Rightarrow> heap_keyfunc" where
  "select_keyfunc args =
     (let keytype = (case args of k # _ \<Rightarrow> k | [] \<Rightarrow> ''LRU'')
      in if keytype = ''GDSF'' then HeapKeyGen_StoreEntry_GDSF
         else if keytype = ''LFUDA'' then HeapKeyGen_StoreEntry_LFUDA
         else HeapKeyGen_StoreEntry_LRU)"

definition createRemovalPolicy_heap :: "'k \<Rightarrow> 'k \<Rightarrow> (nat \<Rightarrow> policy_entry) \<Rightarrow> 'k heap_policy" where
  "createRemovalPolicy_heap zero one es =
     \<lparr>theHeap = (new_heap 1000 zero)\<lparr>hage := one\<rparr>, policy_count = 0, nwalkers = 0, policy_type = TYPE_UNKNOWN, entries = es\<rparr>"

definition heap_guessType :: "policy_entry \<Rightarrow> policy_node \<Rightarrow> entry_type outcome" where
  "heap_guessType e node =
     (case node of
        ReplNode \<Rightarrow> Inr TYPE_STORE_ENTRY
      | MemReplNode \<Rightarrow> if mem_obj e \<noteq> None then Inr TYPE_STORE_MEM else Inl FatalFault)"

definition setPolicyNode :: "nat \<Rightarrow> addr option \<Rightarrow> 'k heap_policy \<Rightarrow> 'k heap_policy outcome" where
  "setPolicyNode e v p =
     (case policy_type p of
        TYPE_STORE_ENTRY \<Rightarrow> Inr (p\<lparr>entries := (entries p)(e := (entries p e)\<lparr>repl := v\<rparr>)\<rparr>)
      | TYPE_STORE_MEM \<Rightarrow>
          (if mem_obj (entries p e) = None then Inl OutOfBounds
           else Inr (p\<lparr>entries := (entries p)(e := (entries p e)\<lparr>mem_obj := Some v\<rparr>)\<rparr>))
      | TYPE_UNKNOWN \<Rightarrow> Inr p)"

section \<open>Operations\<close>

definition heap_add :: "(policy_entry \<Rightarrow> 'k \<Rightarrow> 'k) \<Rightarrow> ('k \<Rightarrow> 'k) \<Rightarrow> (('k, nat) heap \<Rightarrow> addr) \<Rightarrow> nat \<Rightarrow> policy_node \<Rightarrow>
    'k::linorder heap_policy \<Rightarrow> 'k heap_policy outcome" where
  "heap_add keyfunc ageing alloc e node p =
     bindE (policy_node_data (entries p e) node) (\<lambda>nd.
     guardE (nd = None) AssertFault
       (if entry_special (entries p e) then Inr p
        else let a = alloc (theHeap p)
             in bindE (heap_insert (\<lambda>x. keyfunc (entries p x)) a e (theHeap p)) (\<lambda>hp.
                bindE (if policy_type p = TYPE_UNKNOWN then heap_guessType (entries p e) node else Inr (policy_type p)) (\<lambda>ty.
                  Inr (p\<lparr>theHeap := hp\<lparr>hage := ageing (hage hp)\<rparr>, policy_count := policy_count p + 1, policy_type := ty,
                    entries := (entries p)(e := set_node_data node (Some a) (entries p e))\<rparr>)))))"

definition heap_remove :: "nat \<Rightarrow> policy_node \<Rightarrow> 'k::linorder heap_policy \<Rightarrow> 'k heap_policy outcome" where
  "heap_remove e node p =
     bindE (policy_node_data (entries p e) node) (\<lambda>nd.
       case nd of
         None \<Rightarrow> Inr p
       | Some hnode \<Rightarrow> bindE (heap_delete hnode (theHeap p)) (\<lambda>(_, hp).
           Inr (p\<lparr>theHeap := hp, entries := (entries p)(e := set_node_data node None (entries p e)),
             policy_count := policy_count p - 1\<rparr>)))"

definition heap_referenced :: "(policy_entry \<Rightarrow> 'k \<Rightarrow> 'k) \<Rightarrow> nat \<Rightarrow> policy_node \<Rightarrow> 'k::linorder heap_policy \<Rightarrow> 'k heap_policy outcome" where
  "heap_referenced keyfunc e node p =
     bindE (policy_node_data (entries p e) node) (\<lambda>nd.
       case nd of
         None \<Rightarrow> Inr p
       | Some hnode \<Rightarrow> bindE (heap_update (\<lambda>x. keyfunc (entries p x)) hnode e (theHeap p)) (\<lambda>(_, hp). Inr (p\<lparr>theHeap := hp\<rparr>)))"

text \<open>Walking over the entries.\<close>

definition heap_walkInit :: "'k heap_policy \<Rightarrow> nat \<times> 'k heap_policy" where
  "heap_walkInit p = (0, p\<lparr>nwalkers := nwalkers p + 1\<rparr>)"

definition heap_walkNext :: "nat \<Rightarrow> 'k heap_policy \<Rightarrow> (nat option \<times> nat) outcome" where
  "heap_walkNext current p =
     (if current \<ge> hlast (theHeap p) then Inr (None, current)
      else bindE (heap_peep (theHeap p) (int current)) (\<lambda>e. Inr (Some e, current + 1)))"

definition heap_walkDone :: "'k heap_policy \<Rightarrow> 'k heap_policy outcome" where
  "heap_walkDone p = guardE (nwalkers p > 0) AssertFault (Inr (p\<lparr>nwalkers := nwalkers p - 1\<rparr>))"

section \<open>Purging\<close>

record 'k purge_walker =
  locked_entries :: "nat list"
  min_age :: 'k

definition heap_purgeInit :: "'k \<Rightarrow> 'k heap_policy \<Rightarrow> 'k purge_walker \<times> 'k heap_policy" where
  "heap_purgeInit zero p = (\<lparr>locked_entries = [], min_age = zero\<rparr>, p\<lparr>nwalkers := nwalkers p + 1\<rparr>)"

definition entry_lock :: "int \<Rightarrow> nat \<Rightarrow> 'k heap_policy \<Rightarrow> 'k heap_policy" where
  "entry_lock now e p =
     p\<lparr>entries := (entries p)(e := (entries p e)\<lparr>lock_count := lock_count (entries p e) + 1, entry_lastref := now\<rparr>)\<rparr>"

definition entry_unlock :: "(nat \<Rightarrow> 'k heap_policy \<Rightarrow> 'k heap_policy outcome) \<Rightarrow> nat \<Rightarrow> 'k heap_policy \<Rightarrow> 'k heap_policy outcome" where
  "entry_unlock on_idle e p =
     (let p1 = p\<lparr>entries := (entries p)(e := (entries p e)\<lparr>lock_count := lock_count (entries p e) - 1\<rparr>)\<rparr>
      in if lock_count (entries p1 e) \<noteq> 0 then Inr p1 else on_idle e p1)"

text \<open>The loop that looks for an unlocked entry, with a bound on the number of rounds.\<close>

fun purge_loop :: "nat \<Rightarrow> int \<Rightarrow> 'k::linorder purge_walker \<Rightarrow> 'k heap_policy \<Rightarrow>
    (nat option \<times> 'k purge_walker \<times> 'k heap_policy) outcome" where
  "purge_loop 0 now wk p = Inl LoopBound"
| "purge_loop (Suc f) now wk p =
     (if \<not> hlast (theHeap p) > 0 then Inr (None, wk, p)
      else bindE (heap_peepminkey (theHeap p)) (\<lambda>k. bindE (heap_extractmin (theHeap p)) (\<lambda>(d, hp).
        case d of
          None \<Rightarrow> Inl OutOfBounds
        | Some e \<Rightarrow>
            let p1 = p\<lparr>theHeap := hp\<rparr>
            in if locked (entries p1 e)
               then purge_loop f now (wk\<lparr>locked_entries := locked_entries wk @ [e]\<rparr>) (entry_lock now e p1)
               else bindE (setPolicyNode e None p1) (\<lambda>p2. Inr (Some e, wk\<lparr>min_age := k\<rparr>, p2)))))"

definition heap_purgeNext :: "int \<Rightarrow> 'k::linorder purge_walker \<Rightarrow> 'k heap_policy \<Rightarrow> (nat option \<times> 'k purge_walker \<times> 'k heap_policy) outcome" where
  "heap_purgeNext now wk p = purge_loop (Suc (hlast (theHeap p))) now wk p"

fun reinsert_loop :: "(policy_entry \<Rightarrow> 'k \<Rightarrow> 'k) \<Rightarrow> (('k, nat) heap \<Rightarrow> addr) \<Rightarrow> (nat \<Rightarrow> 'k heap_policy \<Rightarrow> 'k heap_policy outcome) \<Rightarrow>
    nat list \<Rightarrow> 'k::linorder heap_policy \<Rightarrow> 'k heap_policy outcome" where
  "reinsert_loop keyfunc alloc on_idle [] p = Inr p"
| "reinsert_loop keyfunc alloc on_idle (e # es) p =
     (let a = alloc (theHeap p)
      in bindE (heap_insert (\<lambda>x. keyfunc (entries p x)) a e (theHeap p)) (\<lambda>hp.
         bindE (setPolicyNode e (Some a) (p\<lparr>theHeap := hp\<rparr>)) (\<lambda>p1.
         bindE (entry_unlock on_idle e p1) (reinsert_loop keyfunc alloc on_idle es))))"

definition heap_purgeDone :: "'k \<Rightarrow> (policy_entry \<Rightarrow> 'k \<Rightarrow> 'k) \<Rightarrow> (('k, nat) heap \<Rightarrow> addr) \<Rightarrow> (nat \<Rightarrow> 'k heap_policy \<Rightarrow> 'k heap_policy outcome) \<Rightarrow>
    'k::linorder purge_walker \<Rightarrow> 'k heap_policy \<Rightarrow> 'k heap_policy outcome" where
  "heap_purgeDone zero keyfunc alloc on_idle wk p =
     guardE (nwalkers p > 0) AssertFault
       (let p1 = p\<lparr>nwalkers := nwalkers p - 1\<rparr>;
            p2 = (if min_age wk > zero then p1\<lparr>theHeap := (theHeap p1)\<lparr>hage := min_age wk\<rparr>\<rparr> else p1)
        in reinsert_loop keyfunc alloc on_idle (locked_entries wk) p2)"

definition heap_free :: "'k heap_policy \<Rightarrow> unit outcome" where
  "heap_free p = guardE (nwalkers p \<noteq> 0) AssertFault (guardE (policy_count p \<noteq> 0) AssertFault (Inr ()))"

section \<open>The policy invariant\<close>

abbreviation node_of :: "'k heap_policy \<Rightarrow> nat \<Rightarrow> addr option" where
  "node_of p e \<equiv> entry_node (policy_type p) (entries p e)"

abbreviation kept :: "'k heap_policy \<Rightarrow> addr \<rightharpoonup> 'k \<times> nat" where
  "kept p \<equiv> heap_items (theHeap p)"

text \<open>
  The heap is in order, and its nodes and the entries' policy nodes point to each other, but for the entries \<open>L\<close> that a
  purge has set aside.
\<close>

definition policy_inv :: "'k::linorder heap_policy \<Rightarrow> nat list \<Rightarrow> bool" where
  "policy_inv p L \<longleftrightarrow> heap_ok (theHeap p) \<and> distinct L \<and>
     (\<forall>a k e. kept p a = Some (k, e) \<longrightarrow> node_of p e = Some a \<and> e \<notin> set L) \<and>
     (\<forall>e \<in> set L. node_of p e \<noteq> None) \<and>
     (\<forall>e a. node_of p e = Some a \<longrightarrow> e \<in> set L \<or> (\<exists>k. kept p a = Some (k, e)))"

definition members :: "'k heap_policy \<Rightarrow> nat set" where
  "members p = {e. \<exists>a k. kept p a = Some (k, e)}"

definition without :: "nat set \<Rightarrow> (addr \<rightharpoonup> 'k \<times> nat) \<Rightarrow> addr \<rightharpoonup> 'k \<times> nat" where
  "without X m = (\<lambda>a. case m a of None \<Rightarrow> None | Some (k, e) \<Rightarrow> if e \<in> X then None else Some (k, e))"

lemma heap_ok_age [simp]:
  "heap_ok (hp\<lparr>hage := x\<rparr>) = heap_ok hp" "heap_items (hp\<lparr>hage := x\<rparr>) = heap_items hp"
  by (simp_all add: heap_ok_def heap_wf_def node_in_def pk_def [abs_def] heap_items_def)

lemma without_Some [simp]: "without X m a = Some (k, e) \<longleftrightarrow> m a = Some (k, e) \<and> e \<notin> X"
  by (auto simp: without_def split: option.splits)

lemma without_without: "without Y (without X m) = without (X \<union> Y) m"
  by (auto simp: without_def fun_eq_iff split: option.splits)

lemma without_empty [simp]: "without {} m = m"
  by (auto simp: without_def fun_eq_iff split: option.splits)

lemma without_one:
  assumes "policy_inv p L" "kept p h = Some (k, e)"
  shows "(kept p)(h := None) = without {e} (kept p)"
proof
  fix a
  have only: "x \<noteq> e" if "kept p a = Some (k', x)" "a \<noteq> h" for k' x
    using assms that unfolding policy_inv_def by (metis option.inject)
  show "((kept p)(h := None)) a = without {e} (kept p) a"
  proof (cases "a = h")
    case False
    then show ?thesis using only by (cases "kept p a") (auto simp: without_def)
  qed (use assms(2) in \<open>simp add: without_def\<close>)
qed

text \<open>What one call of the purge walker did: it set the entries \<open>N\<close> aside and returned \<open>r\<close>.\<close>

definition lock_entry :: "int \<Rightarrow> policy_entry \<Rightarrow> policy_entry" where
  "lock_entry now e = e\<lparr>lock_count := lock_count e + 1, entry_lastref := now\<rparr>"

definition purged :: "int \<Rightarrow> 'k::linorder heap_policy \<Rightarrow> nat list \<Rightarrow> nat option \<Rightarrow> 'k heap_policy \<Rightarrow> bool" where
  "purged now p N r p' \<longleftrightarrow>
     (\<forall>x \<in> set N. locked (entries p x) \<and> x \<in> members p) \<and>
     kept p' = without (set N \<union> set_option r) (kept p) \<and>
     policy_type p' = policy_type p \<and> policy_count p' = policy_count p \<and> nwalkers p' = nwalkers p \<and> hage (theHeap p') = hage (theHeap p) \<and>
     (\<forall>x. entries p' x = (if x \<in> set N then lock_entry now (entries p x)
        else if r = Some x then clear_node (policy_type p) (entries p x) else entries p x))"

lemma entry_node_lock [simp]: "entry_node ty (lock_entry now e) = entry_node ty e"
  by (simp add: entry_node_def lock_entry_def split: entry_type.splits)

lemma setPolicyNode_clear:
  assumes "node_of p e = Some a"
  shows "setPolicyNode e None p = Inr (p\<lparr>entries := (entries p)(e := clear_node (policy_type p) (entries p e))\<rparr>)"
  using assms by (auto simp: setPolicyNode_def entry_node_def clear_node_def split: entry_type.splits option.splits)

lemma extract_member:
  assumes "policy_inv p L" "0 < hlast (theHeap p)"
  obtains k e hp where "heap_peepminkey (theHeap p) = Inr k" "heap_extractmin (theHeap p) = Inr (Some e, hp)" "heap_ok hp"
    "heap_items hp = without {e} (kept p)" "hlast hp < hlast (theHeap p)" "hage hp = hage (theHeap p)" "e \<in> members p" "e \<notin> set L"
    "node_of p e \<noteq> None" "\<exists>a. kept p a = Some (k, e)" "\<And>a k' x. kept p a = Some (k', x) \<Longrightarrow> k \<le> k'"
proof -
  let ?hp = "theHeap p"
  have ok: "heap_ok ?hp" and wf: "heap_wf ?hp" using assms(1) by (auto simp: policy_inv_def heap_ok_def)
  have ne: "kept p \<noteq> Map.empty"
    using assms(2) heap_nodes_count(2) [OF wf] dom_heap_items [of ?hp] by (metis card.empty dom_empty less_irrefl)
  obtain h k e hp where x: "kept p h = Some (k, e)" "least_item (kept p) h" "heap_peepminkey ?hp = Inr k"
    "heap_extractmin ?hp = Inr (Some e, hp)" "heap_ok hp" "heap_items hp = (kept p)(h := None)"
    using heap_extractmin_ok [OF ok ne] by blast
  have "hmem ?hp h \<noteq> None" using x(1) by (auto simp: heap_items_def)
  then obtain n where n: "hmem ?hp h = Some n" by auto
  have "dom (hmem hp) = dom (hmem ?hp) - {h}" using x(6) dom_heap_items by (metis dom_fun_upd)
  then have "hlast hp < hlast ?hp"
    using n heap_nodes_count [OF wf] heap_nodes_count(2) [of hp] x(5) by (metis DiffE card_Diff1_less domI heap_ok_def)
  moreover have "hage hp = hage ?hp" using x(4) heap_extractmin_age [OF ok] by blast
  moreover have "k \<le> k'" if "kept p a = Some (k', x)" for a k' x
    using x(1,2) that unfolding least_item_def by (metis fst_conv option.distinct(1) option.sel)
  ultimately show ?thesis
    using that [OF x(3,4,5)] x(1,6) without_one [OF assms(1) x(1)] assms(1) by (auto simp: members_def policy_inv_def)
qed

lemma policy_inv_set_aside:
  assumes "policy_inv p L" "e \<in> members p" "heap_ok hp" "heap_items hp = without {e} (kept p)"
  shows "policy_inv (entry_lock now e (p\<lparr>theHeap := hp\<rparr>)) (L @ [e])"
proof -
  let ?p = "entry_lock now e (p\<lparr>theHeap := hp\<rparr>)"
  have n: "node_of ?p x = node_of p x" for x
    by (simp add: entry_lock_def entry_node_def split: entry_type.splits)
  have k: "kept ?p = without {e} (kept p)" "heap_ok (theHeap ?p)" using assms(3,4) by (simp_all add: entry_lock_def)
  have "e \<notin> set L" "node_of p e \<noteq> None" using assms(1,2) unfolding policy_inv_def members_def by blast+
  then show ?thesis
    using assms(1) k(2) unfolding policy_inv_def n k(1) by auto
qed

lemma policy_inv_evict:
  assumes "policy_inv p L" "e \<in> members p" "heap_ok hp" "heap_items hp = without {e} (kept p)"
  shows "policy_inv (p\<lparr>theHeap := hp, entries := (entries p)(e := clear_node (policy_type p) (entries p e))\<rparr>) L"
proof -
  let ?p = "p\<lparr>theHeap := hp, entries := (entries p)(e := clear_node (policy_type p) (entries p e))\<rparr>"
  have n: "node_of ?p x = (if x = e then None else node_of p x)" for x by (simp add: entry_node_clear)
  have k: "kept ?p = without {e} (kept p)" "heap_ok (theHeap ?p)" using assms(3,4) by simp_all
  have "e \<notin> set L" using assms(1,2) unfolding policy_inv_def members_def by blast
  then show ?thesis
    using assms(1) k(2) unfolding policy_inv_def n k(1) by auto
qed

lemma purge_loop_ok:
  assumes "policy_inv p (locked_entries wk)" "hlast (theHeap p) < f"
  shows "\<exists>r N wk' p'. purge_loop f now wk p = Inr (r, wk', p') \<and> locked_entries wk' = locked_entries wk @ N \<and> purged now p N r p' \<and>
    policy_inv p' (locked_entries wk') \<and>
    (case r of
       None \<Rightarrow> set N = members p \<and> min_age wk' = min_age wk
     | Some e \<Rightarrow> e \<in> members p \<and> \<not> locked (entries p e) \<and> (\<exists>a. kept p a = Some (min_age wk', e)) \<and>
         (\<forall>a k x. kept p a = Some (k, x) \<and> \<not> locked (entries p x) \<longrightarrow> min_age wk' \<le> k))"
  using assms
proof (induction f arbitrary: wk p)
  case (Suc f)
  show ?case
  proof (cases "0 < hlast (theHeap p)")
    case False
    have "heap_wf (theHeap p)" using Suc.prems(1) by (simp add: policy_inv_def heap_ok_def)
    then have "kept p = Map.empty"
      using False heap_nodes_count [of "theHeap p"] dom_heap_items [of "theHeap p"] by (metis card_0_eq dom_eq_empty_conv gr0I)
    then have "members p = {}" by (simp add: members_def)
    then show ?thesis using False Suc.prems(1) by (intro exI [of _ None] exI [of _ "[]"] exI [of _ wk] exI [of _ p]) (simp add: purged_def)
  next
    case True
    obtain k e hp where x: "heap_peepminkey (theHeap p) = Inr k" "heap_extractmin (theHeap p) = Inr (Some e, hp)" "heap_ok hp"
      "heap_items hp = without {e} (kept p)" "hlast hp < hlast (theHeap p)" "hage hp = hage (theHeap p)" "e \<in> members p"
      "e \<notin> set (locked_entries wk)" "node_of p e \<noteq> None" "\<exists>a. kept p a = Some (k, e)"
      and least: "\<And>a k' x. kept p a = Some (k', x) \<Longrightarrow> k \<le> k'"
      using extract_member [OF Suc.prems(1) True] by metis
    show ?thesis
    proof (cases "locked (entries p e)")
      case False
      let ?p = "p\<lparr>theHeap := hp, entries := (entries p)(e := clear_node (policy_type p) (entries p e))\<rparr>"
      obtain a where "node_of p e = Some a" using x(9) by auto
      then have "purge_loop (Suc f) now wk p = Inr (Some e, wk\<lparr>min_age := k\<rparr>, ?p)"
        using True x(1,2) False setPolicyNode_clear [of "p\<lparr>theHeap := hp\<rparr>" e a] by (simp add: Let_def)
      moreover have "purged now p [] (Some e) ?p" using x(4,6) by (simp add: purged_def)
      ultimately show ?thesis
        using policy_inv_evict [OF Suc.prems(1) x(7,3,4)] x(7,10) least False
        by (intro exI [of _ "Some e"] exI [of _ "[]"] exI [of _ "wk\<lparr>min_age := k\<rparr>"] exI [of _ ?p]) auto
    next
      case locked: True
      let ?p = "entry_lock now e (p\<lparr>theHeap := hp\<rparr>)" and ?wk = "wk\<lparr>locked_entries := locked_entries wk @ [e]\<rparr>"
      have inv: "policy_inv ?p (locked_entries ?wk)" using policy_inv_set_aside [OF Suc.prems(1) x(7,3,4)] by simp
      have "hlast (theHeap ?p) < f" using x(5) Suc.prems(2) by (simp add: entry_lock_def)
      from Suc.IH [OF inv this] obtain r N wk' p' where r: "purge_loop f now ?wk ?p = Inr (r, wk', p')"
        "locked_entries wk' = locked_entries ?wk @ N" "purged now ?p N r p'" "policy_inv p' (locked_entries wk')"
        "case r of None \<Rightarrow> set N = members ?p \<and> min_age wk' = min_age ?wk
         | Some e \<Rightarrow> e \<in> members ?p \<and> \<not> locked (entries ?p e) \<and> (\<exists>a. kept ?p a = Some (min_age wk', e)) \<and>
             (\<forall>a k x. kept ?p a = Some (k, x) \<and> \<not> locked (entries ?p x) \<longrightarrow> min_age wk' \<le> k)"
        by blast
      have k: "kept ?p = without {e} (kept p)" using x(4) by (simp add: entry_lock_def)
      have m: "members ?p = members p - {e}" unfolding members_def k by auto
      have en: "entries ?p y = (if y = e then lock_entry now (entries p e) else entries p y)" for y
        by (simp add: entry_lock_def lock_entry_def)
      have nN: "e \<notin> set N" "r \<noteq> Some e" using r(3,5) m by (auto simp: purged_def split: option.splits)
      have "purged now p (e # N) r p'"
        using r(3) nN x(6,7) locked unfolding purged_def k en m
        by (auto simp: without_without entry_lock_def insert_commute Un_commute)
      moreover have "purge_loop (Suc f) now wk p = Inr (r, wk', p')" using True x(1,2) locked r(1) by (simp add: Let_def)
      moreover have "case r of None \<Rightarrow> set (e # N) = members p \<and> min_age wk' = min_age wk
         | Some y \<Rightarrow> y \<in> members p \<and> \<not> locked (entries p y) \<and> (\<exists>a. kept p a = Some (min_age wk', y)) \<and>
             (\<forall>a k x. kept p a = Some (k, x) \<and> \<not> locked (entries p x) \<longrightarrow> min_age wk' \<le> k)"
      proof (cases r)
        case None
        then show ?thesis using r(5) m x(7) by auto
      next
        case (Some y)
        have "min_age wk' \<le> k'" if z: "kept p a = Some (k', z)" "\<not> locked (entries p z)" for a k' z
        proof -
          have "z \<noteq> e" using z(2) locked by blast
          then have "kept ?p a = Some (k', z)" "entries ?p z = entries p z" using z(1) k en by simp_all
          moreover have "\<forall>a k x. kept ?p a = Some (k, x) \<and> \<not> locked (entries ?p x) \<longrightarrow> min_age wk' \<le> k" using r(5) Some by simp
          ultimately show ?thesis using z(2) by metis
        qed
        moreover have "y \<noteq> e" "y \<in> members ?p" using r(5) Some m by auto
        ultimately show ?thesis using r(5) Some m k en [of y] by auto
      qed
      ultimately show ?thesis using r(2,4) by (intro exI [of _ r] exI [of _ "e # N"] exI [of _ wk'] exI [of _ p']) simp
    qed
  qed
qed simp

section \<open>A purge from start to end\<close>

text \<open>At most \<open>n\<close> calls of the purge walker, with the entries it returned.\<close>

fun purge_some :: "nat \<Rightarrow> int \<Rightarrow> 'k::linorder purge_walker \<Rightarrow> 'k heap_policy \<Rightarrow> (nat list \<times> 'k purge_walker \<times> 'k heap_policy) outcome" where
  "purge_some 0 now wk p = Inr ([], wk, p)"
| "purge_some (Suc n) now wk p =
     bindE (heap_purgeNext now wk p) (\<lambda>(r, wk', p').
       case r of
         None \<Rightarrow> Inr ([], wk', p')
       | Some e \<Rightarrow> bindE (purge_some n now wk' p') (\<lambda>(es, wk'', p''). Inr (e # es, wk'', p'')))"

definition key_in :: "'k heap_policy \<Rightarrow> nat \<Rightarrow> 'k" where
  "key_in p e = fst (the (kept p (the (node_of p e))))"

lemma key_in_kept: "policy_inv p L \<Longrightarrow> kept p a = Some (k, e) \<Longrightarrow> key_in p e = k"
  by (auto simp: policy_inv_def key_in_def)

lemma member_kept: "policy_inv p L \<Longrightarrow> e \<in> members p \<Longrightarrow> \<exists>a. kept p a = Some (key_in p e, e)"
  by (auto simp: members_def dest: key_in_kept)

text \<open>What several calls did: the entries in \<open>N\<close> are set aside, those in \<open>R\<close> were returned.\<close>

definition purged_all :: "int \<Rightarrow> 'k::linorder heap_policy \<Rightarrow> nat list \<Rightarrow> nat list \<Rightarrow> 'k heap_policy \<Rightarrow> bool" where
  "purged_all now p N R p' \<longleftrightarrow>
     (\<forall>x \<in> set N. locked (entries p x) \<and> x \<in> members p) \<and> (\<forall>x \<in> set R. \<not> locked (entries p x) \<and> x \<in> members p) \<and>
     kept p' = without (set N \<union> set R) (kept p) \<and>
     policy_type p' = policy_type p \<and> policy_count p' = policy_count p \<and> nwalkers p' = nwalkers p \<and> hage (theHeap p') = hage (theHeap p) \<and>
     (\<forall>x. entries p' x = (if x \<in> set N then lock_entry now (entries p x)
        else if x \<in> set R then clear_node (policy_type p) (entries p x) else entries p x))"

lemma members_without: "kept p' = without X (kept p) \<Longrightarrow> members p' = members p - X"
  by (auto simp: members_def)

lemma key_in_without:
  assumes "policy_inv p L" "policy_inv p' L'" "kept p' = without X (kept p)" "x \<in> members p'"
  shows "key_in p' x = key_in p x"
proof -
  obtain a where "kept p' a = Some (key_in p' x, x)" using member_kept [OF assms(2,4)] by blast
  then have "kept p a = Some (key_in p' x, x)" using assms(3) by simp
  then show ?thesis using key_in_kept [OF assms(1)] by auto
qed

lemma purged_cons:
  assumes "purged now p N (Some e) p1" "purged_all now p1 N' R p'" "e \<in> members p" "\<not> locked (entries p e)"
  shows "purged_all now p (N @ N') (e # R) p'"
proof -
  have m: "members p1 = members p - (set N \<union> {e})" using assms(1) members_without by (auto simp: purged_def)
  have new: "set N' \<inter> (set N \<union> {e}) = {}" "set R \<inter> (set N \<union> {e}) = {}" using assms(2) m by (auto simp: purged_all_def)
  have en: "entries p1 x = entries p x" if "x \<in> set N' \<union> set R" for x using assms(1) new that by (auto simp: purged_def)
  have eN: "e \<notin> set N" using assms(1,4) by (auto simp: purged_def)
  have "kept p' = without (set (N @ N') \<union> set (e # R)) (kept p)"
    using assms(1,2) by (simp add: purged_def purged_all_def without_without Un_ac)
  moreover have "entries p' x = (if x \<in> set (N @ N') then lock_entry now (entries p x)
        else if x \<in> set (e # R) then clear_node (policy_type p) (entries p x) else entries p x)" for x
    using assms(1,2) new eN by (auto simp: purged_def purged_all_def)
  ultimately show ?thesis
    using assms m en unfolding purged_all_def by (auto simp: purged_def)
qed

lemma purge_some_ok:
  assumes "policy_inv p (locked_entries wk)"
  shows "\<exists>R N wk' p'. purge_some n now wk p = Inr (R, wk', p') \<and> locked_entries wk' = locked_entries wk @ N \<and> purged_all now p N R p' \<and>
    policy_inv p' (locked_entries wk') \<and> distinct R \<and> sorted (map (key_in p) R) \<and> length R \<le> n \<and>
    (length R < n \<longrightarrow> members p' = {}) \<and>
    (\<forall>x \<in> members p' - set R. \<not> locked (entries p x) \<longrightarrow> (\<forall>e \<in> set R. key_in p e \<le> key_in p x))"
  using assms
proof (induction n arbitrary: wk p)
  case 0
  then show ?case by (intro exI [of _ "[]"] exI [of _ wk] exI [of _ p]) (simp add: purged_all_def)
next
  case (Suc n)
  have "\<exists>r N wk' p'. heap_purgeNext now wk p = Inr (r, wk', p') \<and> locked_entries wk' = locked_entries wk @ N \<and> purged now p N r p' \<and>
    policy_inv p' (locked_entries wk') \<and>
    (case r of
       None \<Rightarrow> set N = members p \<and> min_age wk' = min_age wk
     | Some e \<Rightarrow> e \<in> members p \<and> \<not> locked (entries p e) \<and> (\<exists>a. kept p a = Some (min_age wk', e)) \<and>
         (\<forall>a k x. kept p a = Some (k, x) \<and> \<not> locked (entries p x) \<longrightarrow> min_age wk' \<le> k))"
    unfolding heap_purgeNext_def by (rule purge_loop_ok [OF Suc.prems]) simp
  then obtain r N wk1 p1 where a: "heap_purgeNext now wk p = Inr (r, wk1, p1)" "locked_entries wk1 = locked_entries wk @ N"
    "purged now p N r p1" "policy_inv p1 (locked_entries wk1)"
    and c: "case r of None \<Rightarrow> set N = members p \<and> min_age wk1 = min_age wk
      | Some e \<Rightarrow> e \<in> members p \<and> \<not> locked (entries p e) \<and> (\<exists>a. kept p a = Some (min_age wk1, e)) \<and>
         (\<forall>a k x. kept p a = Some (k, x) \<and> \<not> locked (entries p x) \<longrightarrow> min_age wk1 \<le> k)"
    by blast
  show ?case
  proof (cases r)
    case None
    then have "purged_all now p N [] p1" using a(3) by (simp add: purged_def purged_all_def)
    moreover have "members p1 = {}" using a(3) c None members_without [of p1 "set N" p] by (simp add: purged_def)
    ultimately show ?thesis
      using a None by (intro exI [of _ "[]"] exI [of _ N] exI [of _ wk1] exI [of _ p1]) simp
  next
    case (Some e)
    obtain R N' wk2 p2 where b: "purge_some n now wk1 p1 = Inr (R, wk2, p2)" "locked_entries wk2 = locked_entries wk1 @ N'"
      "purged_all now p1 N' R p2" "policy_inv p2 (locked_entries wk2)" "distinct R" "sorted (map (key_in p1) R)" "length R \<le> n"
      "length R < n \<longrightarrow> members p2 = {}" "\<forall>x \<in> members p2 - set R. \<not> locked (entries p1 x) \<longrightarrow> (\<forall>e \<in> set R. key_in p1 e \<le> key_in p1 x)"
      using Suc.IH [OF a(4)] by blast
    have e3: "e \<in> members p" "\<not> locked (entries p e)" "key_in p e = min_age wk1"
      "\<forall>a k x. kept p a = Some (k, x) \<and> \<not> locked (entries p x) \<longrightarrow> min_age wk1 \<le> k"
      using c Some key_in_kept [OF Suc.prems] by auto
    then have e4: "\<And>x. x \<in> members p \<Longrightarrow> \<not> locked (entries p x) \<Longrightarrow> key_in p e \<le> key_in p x"
      using member_kept [OF Suc.prems] by metis
    note e = e3(1-3) e4
    have k1: "kept p1 = without (set N \<union> {e}) (kept p)" and m1: "members p1 = members p - (set N \<union> {e})"
      using a(3) Some members_without [of p1 _ p] by (auto simp: purged_def)
    have R: "set R \<subseteq> members p1" "members p2 \<subseteq> members p1" using b(3) members_without [of p2 _ p1] by (auto simp: purged_all_def)
    have key: "key_in p1 x = key_in p x" if "x \<in> members p1" for x using key_in_without [OF Suc.prems a(4) k1 that] .
    have un: "\<not> locked (entries p1 x) \<longleftrightarrow> \<not> locked (entries p x)" if "x \<in> members p1" for x
      using a(3) m1 that Some by (auto simp: purged_def)
    have all: "purged_all now p (N @ N') (e # R) p2" using purged_cons [OF _ b(3) e(1,2)] a(3) Some by simp
    have "sorted (map (key_in p) (e # R))"
      using b(3,6) R key un e(4) m1 by (auto simp: purged_all_def subset_iff cong: map_cong)
    moreover have "\<forall>x \<in> members p2 - set (e # R). \<not> locked (entries p x) \<longrightarrow> (\<forall>y \<in> set (e # R). key_in p y \<le> key_in p x)"
      using b(9) R key un e(4) m1 by (auto simp: subset_iff)
    ultimately show ?thesis
      using a b Some all R m1 by (intro exI [of _ "e # R"] exI [of _ "N @ N'"] exI [of _ wk2] exI [of _ p2]) auto
  qed
qed

text \<open>What the allocator promises: memory that is not in use.\<close>

definition fresh_alloc :: "(('k, nat) heap \<Rightarrow> addr) \<Rightarrow> bool" where
  "fresh_alloc alloc \<longleftrightarrow> (\<forall>hp. finite (dom (hmem hp)) \<longrightarrow> hmem hp (alloc hp) = None)"

lemma setPolicyNode_Some:
  assumes "node_of p e \<noteq> None"
  obtains en where "setPolicyNode e (Some a) p = Inr (p\<lparr>entries := (entries p)(e := en)\<rparr>)" "entry_node (policy_type p) en = Some a"
    "lock_count en = lock_count (entries p e)"
  using assms that by (auto simp: setPolicyNode_def entry_node_def split: entry_type.splits option.splits)

lemma reinsert_step:
  assumes "policy_inv p (e # es)" "1 < lock_count (entries p e)" "fresh_alloc alloc"
  shows "\<exists>hp p1 p2. heap_insert (\<lambda>x. keyfunc (entries p x)) (alloc (theHeap p)) e (theHeap p) = Inr hp \<and>
    setPolicyNode e (Some (alloc (theHeap p))) (p\<lparr>theHeap := hp\<rparr>) = Inr p1 \<and> entry_unlock on_idle e p1 = Inr p2 \<and> policy_inv p2 es \<and>
    members p2 = insert e (members p) \<and> lock_count (entries p2 e) = lock_count (entries p e) - 1 \<and>
    (\<forall>x. x \<noteq> e \<longrightarrow> entries p2 x = entries p x) \<and> policy_type p2 = policy_type p \<and> policy_count p2 = policy_count p \<and>
    nwalkers p2 = nwalkers p \<and> hage (theHeap p2) = hage (theHeap p)"
proof -
  let ?a = "alloc (theHeap p)"
  have ok: "heap_ok (theHeap p)" and ne: "node_of p e \<noteq> None" using assms(1) by (auto simp: policy_inv_def)
  have fr: "hmem (theHeap p) ?a = None"
    using assms(3) heap_nodes_count(1) [of "theHeap p"] ok by (simp add: fresh_alloc_def heap_ok_def)
  then have free: "kept p ?a = None" by (simp add: heap_items_def)
  obtain hp where h: "heap_insert (\<lambda>x. keyfunc (entries p x)) ?a e (theHeap p) = Inr hp" "heap_ok hp"
    "heap_items hp = (kept p)(?a \<mapsto> (keyfunc (entries p e) (hage (theHeap p)), e))" "hage hp = hage (theHeap p)"
    using heap_insert_ok [OF ok fr] by blast
  obtain en where s: "setPolicyNode e (Some ?a) (p\<lparr>theHeap := hp\<rparr>) = Inr (p\<lparr>theHeap := hp, entries := (entries p)(e := en)\<rparr>)"
    "entry_node (policy_type p) en = Some ?a" "lock_count en = lock_count (entries p e)"
    using setPolicyNode_Some [of "p\<lparr>theHeap := hp\<rparr>" e ?a] ne by auto
  let ?en = "en\<lparr>lock_count := lock_count en - 1\<rparr>"
  let ?p = "p\<lparr>theHeap := hp, entries := (entries p)(e := ?en)\<rparr>"
  have u: "entry_unlock on_idle e (p\<lparr>theHeap := hp, entries := (entries p)(e := en)\<rparr>) = Inr ?p"
    using s(3) assms(2) by (simp add: entry_unlock_def Let_def)
  have "entry_node (policy_type p) ?en = Some ?a" using s(2) by (simp add: entry_node_def split: entry_type.splits option.splits)
  then have n: "node_of ?p x = (if x = e then Some ?a else node_of p x)" for x by simp
  have k: "kept ?p = (kept p)(?a \<mapsto> (keyfunc (entries p e) (hage (theHeap p)), e))" using h(3) by simp
  have "policy_inv ?p es"
    using assms(1) h(2) free unfolding policy_inv_def n k
    by (auto split: if_splits) (metis option.distinct(1))
  moreover have "members ?p = insert e (members p)"
    using free unfolding members_def k by auto (metis option.distinct(1))
  ultimately show ?thesis using h s u by (intro exI [of _ hp] exI [of _ ?p] exI) auto
qed

lemma reinsert_ok:
  assumes "policy_inv p L" "\<forall>x \<in> set L. 1 < lock_count (entries p x)" "fresh_alloc alloc"
  shows "\<exists>p'. reinsert_loop keyfunc alloc on_idle L p = Inr p' \<and> policy_inv p' [] \<and> members p' = members p \<union> set L \<and>
    (\<forall>x. lock_count (entries p' x) = (if x \<in> set L then lock_count (entries p x) - 1 else lock_count (entries p x))) \<and>
    policy_type p' = policy_type p \<and> policy_count p' = policy_count p \<and> nwalkers p' = nwalkers p \<and> hage (theHeap p') = hage (theHeap p)"
  using assms(1,2)
proof (induction L arbitrary: p)
  case Nil
  then show ?case by simp
next
  case (Cons e es)
  obtain hp p1 p2 where a: "heap_insert (\<lambda>x. keyfunc (entries p x)) (alloc (theHeap p)) e (theHeap p) = Inr hp"
    "setPolicyNode e (Some (alloc (theHeap p))) (p\<lparr>theHeap := hp\<rparr>) = Inr p1" "entry_unlock on_idle e p1 = Inr p2" "policy_inv p2 es"
    "members p2 = insert e (members p)" "lock_count (entries p2 e) = lock_count (entries p e) - 1"
    "\<forall>x. x \<noteq> e \<longrightarrow> entries p2 x = entries p x" "policy_type p2 = policy_type p" "policy_count p2 = policy_count p"
    "nwalkers p2 = nwalkers p" "hage (theHeap p2) = hage (theHeap p)"
    using reinsert_step [OF Cons.prems(1) _ assms(3), of keyfunc on_idle] Cons.prems(2) by auto
  have ne: "e \<notin> set es" using Cons.prems(1) by (simp add: policy_inv_def)
  have locks: "\<forall>x \<in> set es. 1 < lock_count (entries p2 x)" using Cons.prems(2) a(7) ne by auto
  have "\<forall>x \<in> set es. entries p2 x = entries p x" using a(7) ne by auto
  then show ?case using Cons.IH [OF a(4) locks] a ne by auto
qed

section \<open>Adding, removing and updating entries\<close>

lemma guess_node_type: "policy_node_data e node = Inr v \<Longrightarrow> heap_guessType e node = Inr (node_type node)"
  by (cases node) (auto simp: heap_guessType_def node_type_def policy_node_data_def split: option.splits)

lemma heap_add_ok:
  assumes "policy_inv p []" "fresh_alloc alloc" "policy_node_data (entries p e) node = Inr None" "\<not> entry_special (entries p e)"
    and ty: "policy_type p = node_type node \<or> policy_type p = TYPE_UNKNOWN \<and> (\<forall>x. entry_node (node_type node) (entries p x) = None)"
  shows "\<exists>p'. heap_add keyfunc ageing alloc e node p = Inr p' \<and> policy_inv p' [] \<and> members p' = insert e (members p) \<and>
    policy_type p' = node_type node \<and> policy_count p' = policy_count p + 1 \<and> (\<forall>x. x \<noteq> e \<longrightarrow> entries p' x = entries p x)"
proof -
  let ?a = "alloc (theHeap p)" and ?k = "keyfunc (entries p e) (hage (theHeap p))"
  have ok: "heap_ok (theHeap p)" using assms(1) by (simp add: policy_inv_def)
  have fr: "hmem (theHeap p) ?a = None"
    using assms(2) heap_nodes_count(1) [of "theHeap p"] ok by (simp add: fresh_alloc_def heap_ok_def)
  then have free: "kept p ?a = None" by (simp add: heap_items_def)
  obtain hp where h: "heap_insert (\<lambda>x. keyfunc (entries p x)) ?a e (theHeap p) = Inr hp" "heap_ok hp"
    "heap_items hp = (kept p)(?a \<mapsto> (?k, e))"
    using heap_insert_ok [OF ok fr, of "\<lambda>x. keyfunc (entries p x)" e] by blast
  let ?p = "p\<lparr>theHeap := hp\<lparr>hage := ageing (hage hp)\<rparr>, policy_count := policy_count p + 1, policy_type := node_type node,
    entries := (entries p)(e := set_node_data node (Some ?a) (entries p e))\<rparr>"
  have r: "heap_add keyfunc ageing alloc e node p = Inr ?p"
    using assms(3,4) ty h(1) guess_node_type [OF assms(3)] by (auto simp: heap_add_def Let_def)
  have k: "kept ?p = (kept p)(?a \<mapsto> (?k, e))" "heap_ok (theHeap ?p)" using h(2,3) by simp_all
  have n: "node_of ?p x = (if x = e then Some ?a else entry_node (node_type node) (entries p x))" for x
    by (simp add: entry_node_set)
  have ne: "entry_node (node_type node) (entries p e) = None" using node_data_entry_node [OF assms(3)] .
  have inv: "policy_inv ?p []"
  proof (cases "policy_type p = node_type node")
    case True
    then show ?thesis
      using assms(1) k(2) free ne unfolding policy_inv_def n k(1) by (auto split: if_splits) (metis option.distinct(1))+
  next
    case False
    then have "entry_node (node_type node) (entries p x) = None" "node_of p x = None" for x using ty by (auto simp: entry_node_def)
    then show ?thesis
      using assms(1) k(2) free unfolding policy_inv_def n k(1) by (auto split: if_splits)
  qed
  have "members ?p = insert e (members p)" using free unfolding members_def k(1) by auto (metis option.distinct(1))
  then show ?thesis using r inv by auto
qed

lemma policy_node_kept:
  assumes "policy_inv p []" "policy_type p = node_type node" "policy_node_data (entries p e) node = Inr (Some a)"
  shows "\<exists>k n. kept p a = Some (k, e) \<and> hmem (theHeap p) a = Some n \<and> ndata n = e"
proof -
  have "node_of p e = Some a" using node_data_entry_node [OF assms(3)] assms(2) by simp
  then obtain k where "kept p a = Some (k, e)" using assms(1) unfolding policy_inv_def by (metis empty_iff list.set(1))
  then show ?thesis by (auto simp: heap_items_def)
qed

lemma heap_remove_ok:
  assumes "policy_inv p []" "policy_type p = node_type node" "policy_node_data (entries p e) node = Inr (Some a)"
  shows "\<exists>p'. heap_remove e node p = Inr p' \<and> policy_inv p' [] \<and> members p' = members p - {e} \<and> policy_type p' = policy_type p \<and>
    policy_count p' = policy_count p - 1 \<and> policy_node_data (entries p' e) node = Inr None \<and> (\<forall>x. x \<noteq> e \<longrightarrow> entries p' x = entries p x)"
proof -
  have ok: "heap_ok (theHeap p)" using assms(1) by (simp add: policy_inv_def)
  obtain k n where kn: "kept p a = Some (k, e)" "hmem (theHeap p) a = Some n" "ndata n = e" using policy_node_kept [OF assms] by blast
  obtain hp where h: "heap_delete a (theHeap p) = Inr (e, hp)" "heap_ok hp" "heap_items hp = (kept p)(a := None)"
    using heap_delete_ok [OF ok kn(2)] kn(3) by blast
  let ?p = "p\<lparr>theHeap := hp, entries := (entries p)(e := set_node_data node None (entries p e)), policy_count := policy_count p - 1\<rparr>"
  have r: "heap_remove e node p = Inr ?p" using assms(3) h(1) by (simp add: heap_remove_def)
  have k: "kept ?p = without {e} (kept p)" using h(3) without_one [OF assms(1) kn(1)] by simp
  have n: "node_of ?p x = (if x = e then None else node_of p x)" for x using assms(2) by (simp add: entry_node_set)
  have "policy_inv ?p []" using assms(1) h(2) unfolding policy_inv_def n k by auto
  moreover have "members ?p = members p - {e}" by (rule members_without [OF k])
  moreover have "policy_node_data (set_node_data node None (entries p e)) node = Inr None"
    by (cases node) (simp_all add: policy_node_data_def set_node_data_def)
  ultimately show ?thesis using r by auto
qed

lemma heap_referenced_ok:
  assumes "policy_inv p []" "policy_type p = node_type node" "policy_node_data (entries p e) node = Inr (Some a)"
  shows "\<exists>p'. heap_referenced keyfunc e node p = Inr p' \<and> policy_inv p' [] \<and> members p' = members p \<and> entries p' = entries p \<and>
    key_in p' e = keyfunc (entries p e) (hage (theHeap p)) \<and> (\<forall>x \<in> members p. x \<noteq> e \<longrightarrow> key_in p' x = key_in p x)"
proof -
  have ok: "heap_ok (theHeap p)" using assms(1) by (simp add: policy_inv_def)
  let ?k = "keyfunc (entries p e) (hage (theHeap p))"
  obtain k n where kn: "kept p a = Some (k, e)" "hmem (theHeap p) a = Some n" "ndata n = e" using policy_node_kept [OF assms] by blast
  obtain hp where h: "heap_update (\<lambda>x. keyfunc (entries p x)) a e (theHeap p) = Inr (e, hp)" "heap_ok hp" "heap_items hp = (kept p)(a \<mapsto> (?k, e))"
    using heap_update_ok [OF ok kn(2), of "\<lambda>x. keyfunc (entries p x)" e] kn(3) by blast
  let ?p = "p\<lparr>theHeap := hp\<rparr>"
  have r: "heap_referenced keyfunc e node p = Inr ?p" using assms(3) h(1) by (simp add: heap_referenced_def)
  have kp: "kept ?p = (kept p)(a \<mapsto> (?k, e))" using h(3) by simp
  have node: "node_of p e = Some a" using assms(1) kn(1) by (auto simp: policy_inv_def)
  have inv: "policy_inv ?p []"
    using assms(1) h(2) kn(1) node unfolding policy_inv_def kp
    by (auto split: if_splits) (metis option.inject prod.inject)
  have "members ?p = members p" using kn(1) unfolding members_def kp by auto (metis option.inject prod.inject)
  moreover have "key_in ?p x = key_in p x" if x: "x \<in> members p" "x \<noteq> e" for x
  proof -
    obtain b where "kept p b = Some (key_in p x, x)" using member_kept [OF assms(1) x(1)] by blast
    then have "kept ?p b = Some (key_in p x, x)" using kn(1) x(2) unfolding kp by auto
    then show ?thesis using key_in_kept [OF inv] by blast
  qed
  moreover have "key_in ?p e = ?k" using key_in_kept [OF inv, of a ?k e] kp by simp
  ultimately show ?thesis using r inv by auto
qed

text \<open>With the policy node of the entry itself, the heap policy is a replacement policy.\<close>

lemma members_node:
  assumes "policy_inv p []" "e \<in> members p"
  shows "\<exists>a. node_of p e = Some a"
  using assms by (auto simp: policy_inv_def members_def)

lemma heap_remove_special: "heap_remove e ReplNode p = Inr p' \<Longrightarrow> entry_special (entries p' e) = entry_special (entries p e)"
  by (auto simp: heap_remove_def policy_node_data_def set_node_data_def outcome_simps split: option.splits)

definition heap_repl_ok :: "(('k, nat) heap \<Rightarrow> addr) \<Rightarrow> 'k::linorder heap_policy \<Rightarrow> bool" where
  "heap_repl_ok alloc p \<longleftrightarrow> policy_inv p [] \<and> fresh_alloc alloc \<and> policy_type p = TYPE_STORE_ENTRY \<and>
     (\<forall>e \<in> members p. \<not> entry_special (entries p e))"

interpretation hpol: replacement_policy "heap_repl_ok alloc" members
  "\<lambda>e p. repl (entries p e) = None \<and> \<not> entry_special (entries p e)" "\<lambda>e. heap_add keyfunc ageing alloc e ReplNode" "\<lambda>e. heap_remove e ReplNode"
proof
  fix e s
  assume ok: "heap_repl_ok alloc s"
  have t: "policy_type s = node_type ReplNode" using ok by (simp add: heap_repl_ok_def node_type_def)
  show "\<exists>s'. heap_add keyfunc ageing alloc e ReplNode s = Inr s' \<and> heap_repl_ok alloc s' \<and> members s' = insert e (members s)"
    if c: "repl (entries s e) = None \<and> \<not> entry_special (entries s e)"
  proof -
    obtain s' where a: "heap_add keyfunc ageing alloc e ReplNode s = Inr s'" "policy_inv s' []" "members s' = insert e (members s)"
      "policy_type s' = node_type ReplNode" "\<forall>x. x \<noteq> e \<longrightarrow> entries s' x = entries s x"
      using heap_add_ok [of s alloc e ReplNode keyfunc ageing] ok c t by (auto simp: heap_repl_ok_def policy_node_data_def)
    moreover have "entry_special (entries s' e) = entry_special (entries s e)"
      using a(1) c by (auto simp: heap_add_def policy_node_data_def set_node_data_def outcome_simps Let_def split: if_splits)
    ultimately show ?thesis using ok c t by (auto simp: heap_repl_ok_def)
  qed
  show "\<exists>s'. heap_remove e ReplNode s = Inr s' \<and> heap_repl_ok alloc s' \<and> members s' = members s - {e} \<and>
      (repl (entries s' e) = None \<and> \<not> entry_special (entries s' e))" if m: "e \<in> members s"
  proof -
    obtain a where "node_of s e = Some a" using members_node [OF _ m] ok by (auto simp: heap_repl_ok_def)
    then have "policy_node_data (entries s e) ReplNode = Inr (Some a)" using ok by (simp add: heap_repl_ok_def entry_node_def policy_node_data_def)
    then obtain s' where r: "heap_remove e ReplNode s = Inr s'" "policy_inv s' []" "members s' = members s - {e}" "policy_type s' = policy_type s"
      "policy_node_data (entries s' e) ReplNode = Inr None" "\<forall>x. x \<noteq> e \<longrightarrow> entries s' x = entries s x"
      using heap_remove_ok [of s ReplNode e a] ok t by (auto simp: heap_repl_ok_def)
    then show ?thesis using ok m heap_remove_special [OF r(1)] by (auto simp: heap_repl_ok_def policy_node_data_def)
  qed
qed

section \<open>Properties of the policy\<close>

text \<open>
  C19: A purge of the heap policy removes the right entries and nothing else.  From a state in which the heap is in order and
  its nodes and the entries point to each other, any number of calls of the purge walker followed by its end succeed, provided
  the allocator returns unused memory and an entry that counts as locked has a lock holder.  The entries returned are distinct, were
  unlocked, come in the order of their keys, and no unlocked entry that stays has a smaller key than one of them; if
  fewer are returned than asked for, no unlocked entry is left.  Afterwards the heap and the entries are consistent again, the policy
  keeps exactly the other entries, and all lock counts are as before.  The policy's own counter, though, still includes the
  removed entries.
\<close>

theorem heap_purge_session:
  assumes "policy_inv p []" "fresh_alloc alloc" "\<forall>x. locked (entries p x) \<longrightarrow> 0 < lock_count (entries p x)" "0 \<le> nwalkers p"
    and init: "heap_purgeInit zero p = (wk0, p0)"
  shows "\<exists>R wk p1 p2. purge_some n now wk0 p0 = Inr (R, wk, p1) \<and> heap_purgeDone zero keyfunc alloc on_idle wk p1 = Inr p2 \<and>
    distinct R \<and> set R \<subseteq> members p \<and> (\<forall>e \<in> set R. \<not> locked (entries p e)) \<and> sorted (map (key_in p) R) \<and>
    (\<forall>x \<in> members p2. \<not> locked (entries p x) \<longrightarrow> length R = n \<and> (\<forall>e \<in> set R. key_in p e \<le> key_in p x)) \<and>
    policy_inv p2 [] \<and> members p2 = members p - set R \<and> (\<forall>x. lock_count (entries p2 x) = lock_count (entries p x)) \<and>
    policy_count p2 = policy_count p"
proof -
  have w0: "locked_entries wk0 = []" and e0: "entries p0 = entries p" "kept p0 = kept p" "policy_type p0 = policy_type p"
    "policy_count p0 = policy_count p" "nwalkers p0 = nwalkers p + 1"
    using init by (auto simp: heap_purgeInit_def)
  have inv0: "policy_inv p0 (locked_entries wk0)" using assms(1) w0 init by (auto simp: policy_inv_def heap_purgeInit_def)
  have same: "members p0 = members p" "key_in p0 = key_in p" by (simp_all add: members_def key_in_def [abs_def] e0)
  obtain R N wk p1 where a: "purge_some n now wk0 p0 = Inr (R, wk, p1)" "locked_entries wk = N" "purged_all now p0 N R p1"
    "policy_inv p1 N" "distinct R" "sorted (map (key_in p) R)" "length R \<le> n" "length R < n \<longrightarrow> members p1 = {}"
    "\<forall>x \<in> members p1 - set R. \<not> locked (entries p x) \<longrightarrow> (\<forall>e \<in> set R. key_in p e \<le> key_in p x)"
    using purge_some_ok [OF inv0, of n now] w0 e0(1) same(2) by auto
  have pa: "set N \<subseteq> members p" "set R \<subseteq> members p" "\<forall>x \<in> set N. locked (entries p x)" "\<forall>x \<in> set R. \<not> locked (entries p x)"
    "members p1 = members p - (set N \<union> set R)" "nwalkers p1 = nwalkers p + 1" "policy_count p1 = policy_count p"
    "\<And>x. lock_count (entries p1 x) = (if x \<in> set N then lock_count (entries p x) + 1 else lock_count (entries p x))"
    using a(3) e0 same members_without [of p1 "set N \<union> set R" p0]
    by (auto simp: purged_all_def lock_entry_def clear_node_def split: entry_type.splits)
  let ?q = "p1\<lparr>nwalkers := nwalkers p1 - 1\<rparr>"
  let ?p = "if min_age wk > zero then ?q\<lparr>theHeap := (theHeap ?q)\<lparr>hage := min_age wk\<rparr>\<rparr> else ?q"
  have "policy_inv ?p N" using a(4) by (simp add: policy_inv_def)
  moreover have "\<forall>x \<in> set N. 1 < lock_count (entries ?p x)" using pa(3,8) assms(3) by auto
  ultimately obtain p2 where d: "reinsert_loop keyfunc alloc on_idle N ?p = Inr p2" "policy_inv p2 []" "members p2 = members ?p \<union> set N"
    "\<forall>x. lock_count (entries p2 x) = (if x \<in> set N then lock_count (entries ?p x) - 1 else lock_count (entries ?p x))"
    "policy_count p2 = policy_count ?p"
    using reinsert_ok [OF _ _ assms(2)] by blast
  have m: "members ?p = members p1" "entries ?p = entries p1" "policy_count ?p = policy_count p1" by (simp_all add: members_def)
  have "heap_purgeDone zero keyfunc alloc on_idle wk p1 = Inr p2"
  proof -
    have "0 < nwalkers p1" using pa(6) assms(4) by simp
    then show ?thesis unfolding heap_purgeDone_def Let_def by (simp only: guardE_True a(2) d(1))
  qed
  moreover have mem: "members p2 = members p - set R" using d(3) m(1) pa(1,3,4,5) by auto
  moreover have "length R = n \<and> (\<forall>e \<in> set R. key_in p e \<le> key_in p x)" if "x \<in> members p2" "\<not> locked (entries p x)" for x
  proof -
    have "x \<in> members p1 - set R" using that pa(3,5) mem by auto
    then show ?thesis using a(7,8,9) that(2) by auto
  qed
  moreover have "lock_count (entries p2 x) = lock_count (entries p x)" for x using d(4) m(2) pa(8) by simp
  ultimately show ?thesis using a(1,5,6) pa(2,4,7) d(2,5) m(3) by auto
qed

text \<open>A policy with a locked and an unlocked entry, and an allocator.\<close>

definition sample_entry :: "nat \<Rightarrow> addr option \<Rightarrow> policy_entry" where
  "sample_entry locks a = \<lparr>lock_count = locks, swapout_writing = False, store_pending = False, entry_special = False, key_private = False,
     entry_lastref = 7, repl = a, mem_obj = None\<rparr>"

definition sample_policy :: "int heap_policy" where
  "sample_policy = \<lparr>theHeap = \<lparr>hnodes = [Some 10, Some 11], hlast = 2, hage = 1,
       hmem = [10 \<mapsto> \<lparr>nkey = 3, nid = 0, ndata = 1\<rparr>, 11 \<mapsto> \<lparr>nkey = 5, nid = 1, ndata = 2\<rparr>]\<rparr>,
     policy_count = 2, nwalkers = 0, policy_type = TYPE_STORE_ENTRY,
     entries = (\<lambda>x. if x = 1 then sample_entry 1 (Some 10) else if x = 2 then sample_entry 0 (Some 11) else sample_entry 0 None)\<rparr>"

definition next_free :: "('k, nat) heap \<Rightarrow> addr" where
  "next_free hp = Suc (Max (insert 0 (dom (hmem hp))))"

lemma next_free: "fresh_alloc next_free"
  unfolding fresh_alloc_def
proof (intro allI impI)
  fix hp :: "('k, nat) heap"
  assume f: "finite (dom (hmem hp))"
  have "next_free hp \<notin> dom (hmem hp)"
  proof
    assume "next_free hp \<in> dom (hmem hp)"
    then have "next_free hp \<le> Max (insert 0 (dom (hmem hp)))" using f by (intro Max_ge) auto
    then show False by (simp add: next_free_def)
  qed
  then show "hmem hp (next_free hp) = None" by auto
qed

lemma sample_policy_kept: "kept sample_policy = [10 \<mapsto> (3, 1), 11 \<mapsto> (5, 2)]"
  by (auto simp: heap_items_def sample_policy_def fun_eq_iff)

lemma sample_policy_inv: "policy_inv sample_policy []"
proof -
  have "heap_ok (theHeap sample_policy)"
    by (auto simp: heap_ok_def heap_wf_def ordered_keys_def sample_policy_def node_in_def pk_def less_Suc_eq Parent_def numeral_2_eq_2
      split: if_splits)
  moreover have "node_of sample_policy e = (if e = 1 then Some 10 else if e = 2 then Some 11 else None)" for e
    by (simp add: sample_policy_def sample_entry_def entry_node_def)
  ultimately show ?thesis unfolding policy_inv_def sample_policy_kept by (auto split: if_splits)
qed

lemma sample_policy_members: "members sample_policy = {1, 2}"
  unfolding members_def sample_policy_kept by auto (metis n_not_Suc_n numeral_eq_iff semiring_norm(88))+

theorem heap_purge_session_witness:
  "\<exists>R wk p1 p2. purge_some 1 9 (fst (heap_purgeInit 0 sample_policy)) (snd (heap_purgeInit 0 sample_policy)) = Inr (R, wk, p1) \<and>
     heap_purgeDone 0 (\<lambda>e age. age) next_free (\<lambda>e. Inr) wk p1 = Inr p2 \<and> set R \<subseteq> {2} \<and> 1 \<in> members p2 \<and> policy_count p2 = 2"
proof -
  have l: "locked (entries sample_policy x) \<longleftrightarrow> x = 1" "lock_count (entries sample_policy 1) = 1" for x
    by (auto simp: sample_policy_def sample_entry_def locked_def)
  have n: "0 \<le> nwalkers sample_policy" "policy_count sample_policy = 2" by (simp_all add: sample_policy_def)
  have h: "\<forall>x. locked (entries sample_policy x) \<longrightarrow> 0 < lock_count (entries sample_policy x)" using l by simp
  have i: "heap_purgeInit 0 sample_policy = (fst (heap_purgeInit 0 sample_policy), snd (heap_purgeInit 0 sample_policy))" by simp
  from heap_purge_session [OF sample_policy_inv next_free h n(1) i, of 1 9 "\<lambda>e age. age" "\<lambda>e. Inr"] show ?thesis
  proof (elim exE conjE)
    fix R wk p1 p2
    assume "purge_some 1 9 (fst (heap_purgeInit 0 sample_policy)) (snd (heap_purgeInit 0 sample_policy)) = Inr (R, wk, p1)"
      "heap_purgeDone 0 (\<lambda>e age. age) next_free (\<lambda>e. Inr) wk p1 = Inr p2" "policy_count p2 = policy_count sample_policy"
      and r: "set R \<subseteq> members sample_policy" "\<forall>e \<in> set R. \<not> locked (entries sample_policy e)" "members p2 = members sample_policy - set R"
    moreover have "set R \<subseteq> {2}" "1 \<in> members p2" using r l unfolding sample_policy_members by auto
    ultimately show ?thesis using n(2) by auto
  qed
qed

text \<open>
  Adding, removing and dereferencing entries keep the heap policy consistent.  In a state in which the heap is in order and its
  nodes and the entries point to each other: an entry that is not special and has no policy node is added, by the first addition
  if no entry has one, and the policy then manages it too; removing a managed entry takes out exactly that entry and clears its policy
  node; and a dereferenced entry gets exactly the key that the key function gives it now, every other entry keeping its key.
\<close>

theorem heap_policy_operations:
  assumes "policy_inv p []" "fresh_alloc alloc"
  shows "(policy_node_data (entries p e) node = Inr None \<and> \<not> entry_special (entries p e) \<and>
      (policy_type p = node_type node \<or> policy_type p = TYPE_UNKNOWN \<and> (\<forall>x. entry_node (node_type node) (entries p x) = None)) \<longrightarrow>
      (\<exists>p'. heap_add keyfunc ageing alloc e node p = Inr p' \<and> policy_inv p' [] \<and> members p' = insert e (members p) \<and>
        policy_count p' = policy_count p + 1)) \<and>
    (policy_node_data (entries p e) node = Inr (Some a) \<and> policy_type p = node_type node \<longrightarrow>
      (\<exists>p'. heap_remove e node p = Inr p' \<and> policy_inv p' [] \<and> members p' = members p - {e} \<and> policy_node_data (entries p' e) node = Inr None \<and>
        policy_count p' = policy_count p - 1) \<and>
      (\<exists>p'. heap_referenced keyfunc e node p = Inr p' \<and> policy_inv p' [] \<and> members p' = members p \<and>
        key_in p' e = keyfunc (entries p e) (hage (theHeap p)) \<and> (\<forall>x \<in> members p. x \<noteq> e \<longrightarrow> key_in p' x = key_in p x)))"
proof (intro conjI impI; elim conjE)
  assume "policy_node_data (entries p e) node = Inr None" "\<not> entry_special (entries p e)"
    "policy_type p = node_type node \<or> policy_type p = TYPE_UNKNOWN \<and> (\<forall>x. entry_node (node_type node) (entries p x) = None)"
  from heap_add_ok [OF assms this]
  show "\<exists>p'. heap_add keyfunc ageing alloc e node p = Inr p' \<and> policy_inv p' [] \<and> members p' = insert e (members p) \<and>
      policy_count p' = policy_count p + 1" by blast
next
  assume "policy_node_data (entries p e) node = Inr (Some a)" "policy_type p = node_type node"
  from heap_remove_ok [OF assms(1) this(2,1)]
  show "\<exists>p'. heap_remove e node p = Inr p' \<and> policy_inv p' [] \<and> members p' = members p - {e} \<and> policy_node_data (entries p' e) node = Inr None \<and>
      policy_count p' = policy_count p - 1" by blast
next
  assume "policy_node_data (entries p e) node = Inr (Some a)" "policy_type p = node_type node"
  from heap_referenced_ok [OF assms(1) this(2,1), of keyfunc]
  show "\<exists>p'. heap_referenced keyfunc e node p = Inr p' \<and> policy_inv p' [] \<and> members p' = members p \<and>
      key_in p' e = keyfunc (entries p e) (hage (theHeap p)) \<and> (\<forall>x \<in> members p. x \<noteq> e \<longrightarrow> key_in p' x = key_in p x)" by blast
qed

theorem heap_policy_operations_witness:
  "\<exists>p'. heap_remove 2 ReplNode sample_policy = Inr p' \<and> members p' = {1} \<and> policy_count p' = 1"
proof -
  have "policy_node_data (entries sample_policy 2) ReplNode = Inr (Some 11)" "policy_type sample_policy = node_type ReplNode" "policy_count sample_policy = 2"
    by (simp_all add: policy_node_data_def sample_policy_def sample_entry_def node_type_def)
  then have "\<exists>p'. heap_remove 2 ReplNode sample_policy = Inr p' \<and> policy_inv p' [] \<and> members p' = members sample_policy - {2} \<and>
      policy_node_data (entries p' 2) ReplNode = Inr None \<and> policy_count p' = policy_count sample_policy - 1"
    using heap_policy_operations [OF sample_policy_inv next_free, of 2 ReplNode "\<lambda>e age. age" id 11] by blast
  moreover have "policy_count sample_policy = 2" by (simp add: sample_policy_def)
  ultimately show ?thesis unfolding sample_policy_members by auto
qed

end
