(* ===== verification/Dlink_List.thy ===== *)
theory Dlink_List
  imports Squid_Prelude
begin

text \<open>
  Doubly linked lists with a head and a tail pointer: \<^verbatim>\<open>src/dlink.cc\<close>.  The nodes live in an explicit memory, since
  they are parts of other objects; a list of addresses with the data stored there is what a list stands for.
\<close>

section \<open>Nodes and operations\<close>

record 'd dlink_node =
  dl_data :: "'d option"
  dl_prev :: "addr option"
  dl_next :: "addr option"

record 'd dlink_list =
  dl_mem :: "addr \<rightharpoonup> 'd dlink_node"
  dl_head :: "addr option"
  dl_tail :: "addr option"

definition dl_empty :: "'d dlink_list" where
  "dl_empty = \<lparr>dl_mem = Map.empty, dl_head = None, dl_tail = None\<rparr>"

definition dl_deref :: "addr \<Rightarrow> 'd dlink_list \<Rightarrow> 'd dlink_node outcome" where
  "dl_deref a s = (case dl_mem s a of None \<Rightarrow> Inl OutOfBounds | Some n \<Rightarrow> Inr n)"

definition dl_write :: "addr \<Rightarrow> ('d dlink_node \<Rightarrow> 'd dlink_node) \<Rightarrow> 'd dlink_list \<Rightarrow> 'd dlink_list outcome" where
  "dl_write a f s = bindE (dl_deref a s) (\<lambda>n. Inr (s\<lparr>dl_mem := (dl_mem s)(a \<mapsto> f n)\<rparr>))"

text \<open>A write through a pointer that may be NULL and is then skipped.\<close>

definition dl_write_opt :: "addr option \<Rightarrow> ('d dlink_node \<Rightarrow> 'd dlink_node) \<Rightarrow> 'd dlink_list \<Rightarrow> 'd dlink_list outcome" where
  "dl_write_opt p f s = (case p of None \<Rightarrow> Inr s | Some a \<Rightarrow> dl_write a f s)"

definition dlinkAdd :: "'d \<Rightarrow> addr \<Rightarrow> 'd dlink_list \<Rightarrow> 'd dlink_list outcome" where
  "dlinkAdd data m s =
     bindE (dl_write m (\<lambda>n. n\<lparr>dl_data := Some data, dl_prev := None, dl_next := dl_head s\<rparr>) s) (\<lambda>s1.
     bindE (dl_write_opt (dl_head s1) (\<lambda>n. n\<lparr>dl_prev := Some m\<rparr>) s1) (\<lambda>s2.
       let s3 = s2\<lparr>dl_head := Some m\<rparr> in Inr (if dl_tail s3 = None then s3\<lparr>dl_tail := Some m\<rparr> else s3)))"

definition dlinkAddAfter :: "'d \<Rightarrow> addr \<Rightarrow> addr \<Rightarrow> 'd dlink_list \<Rightarrow> 'd dlink_list outcome" where
  "dlinkAddAfter data m n s =
     bindE (dl_deref n s) (\<lambda>nn.
     bindE (dl_write m (\<lambda>x. x\<lparr>dl_data := Some data, dl_prev := Some n, dl_next := dl_next nn\<rparr>) s) (\<lambda>s1.
     bindE (case dl_next nn of
              Some x \<Rightarrow> dl_write x (\<lambda>y. y\<lparr>dl_prev := Some m\<rparr>) s1
            | None \<Rightarrow> guardE (dl_tail s1 = Some n) AssertFault (Inr (s1\<lparr>dl_tail := Some m\<rparr>))) (\<lambda>s2.
       dl_write n (\<lambda>y. y\<lparr>dl_next := Some m\<rparr>) s2)))"

definition dlinkAddTail :: "'d \<Rightarrow> addr \<Rightarrow> 'd dlink_list \<Rightarrow> 'd dlink_list outcome" where
  "dlinkAddTail data m s =
     bindE (dl_write m (\<lambda>n. n\<lparr>dl_data := Some data, dl_next := None, dl_prev := dl_tail s\<rparr>) s) (\<lambda>s1.
     bindE (dl_write_opt (dl_tail s1) (\<lambda>n. n\<lparr>dl_next := Some m\<rparr>) s1) (\<lambda>s2.
       let s3 = s2\<lparr>dl_tail := Some m\<rparr> in Inr (if dl_head s3 = None then s3\<lparr>dl_head := Some m\<rparr> else s3)))"

definition dlinkDelete :: "addr \<Rightarrow> 'd dlink_list \<Rightarrow> 'd dlink_list outcome" where
  "dlinkDelete m s =
     bindE (dl_deref m s) (\<lambda>n.
     bindE (dl_write_opt (dl_next n) (\<lambda>x. x\<lparr>dl_prev := dl_prev n\<rparr>) s) (\<lambda>s1.
     bindE (dl_write_opt (dl_prev n) (\<lambda>x. x\<lparr>dl_next := dl_next n\<rparr>) s1) (\<lambda>s2.
       let s3 = (if Some m = dl_head s2 then s2\<lparr>dl_head := dl_next n\<rparr> else s2);
           s4 = (if Some m = dl_tail s3 then s3\<lparr>dl_tail := dl_prev n\<rparr> else s3)
       in dl_write m (\<lambda>x. x\<lparr>dl_next := None, dl_prev := None\<rparr>) s4)))"

section \<open>What a list stands for\<close>

definition first :: "(addr \<times> 'd) list \<Rightarrow> addr option \<Rightarrow> addr option" where
  "first xs q = (case xs of [] \<Rightarrow> q | x # _ \<Rightarrow> Some (fst x))"

definition final :: "(addr \<times> 'd) list \<Rightarrow> addr option \<Rightarrow> addr option" where
  "final xs p = (if xs = [] then p else Some (fst (List.last xs)))"

fun linked :: "(addr \<rightharpoonup> 'd dlink_node) \<Rightarrow> addr option \<Rightarrow> (addr \<times> 'd) list \<Rightarrow> addr option \<Rightarrow> bool" where
  "linked m p [] q = True"
| "linked m p ((a, d) # xs) q = (m a = Some \<lparr>dl_data = Some d, dl_prev = p, dl_next = first xs q\<rparr> \<and> linked m (Some a) xs q)"

definition dl_repr :: "'d dlink_list \<Rightarrow> (addr \<times> 'd) list \<Rightarrow> bool" where
  "dl_repr s xs \<longleftrightarrow> distinct (map fst xs) \<and> linked (dl_mem s) None xs None \<and> dl_head s = first xs None \<and> dl_tail s = final xs None"

lemma first_simps [simp]: "first [] q = q" "first (x # xs) q = Some (fst x)" "first (xs @ ys) q = first xs (first ys q)"
  by (simp_all add: first_def split: list.splits)

lemma first_None [simp]: "first xs None = None \<longleftrightarrow> xs = []"
  by (simp add: first_def split: list.splits)

lemma first_cong: "xs \<noteq> [] \<Longrightarrow> first xs q = first xs q'"
  by (cases xs) simp_all

lemma final_simps [simp]: "final [] p = p" "final (xs @ [x]) p = Some (fst x)" "final (x # xs) p = final xs (Some (fst x))"
  "final (xs @ ys) p = final ys (final xs p)"
  by (auto simp: final_def)

lemma linked_append: "linked m p (xs @ ys) q \<longleftrightarrow> linked m p xs (first ys q) \<and> linked m (final xs p) ys q"
  by (induction m p xs q rule: linked.induct) auto

lemma linked_cong: "(\<And>a. a \<in> fst ` set xs \<Longrightarrow> m' a = m a) \<Longrightarrow> linked m' p xs q = linked m p xs q"
  by (induction m p xs q rule: linked.induct) auto

lemma linked_upd [simp]: "a \<notin> fst ` set xs \<Longrightarrow> linked (m(a := v)) p xs q = linked m p xs q"
  by (rule linked_cong) auto

lemma linked_mem: "linked m p xs q \<Longrightarrow> (a, d) \<in> set xs \<Longrightarrow> \<exists>n. m a = Some n \<and> dl_data n = Some d"
  by (induction m p xs q rule: linked.induct) auto

text \<open>Changing the link at the end of a segment, or at its start.\<close>

lemma linked_new_end:
  assumes "linked m p (xs @ [(a, d)]) q" "distinct (map fst (xs @ [(a, d)]))"
  shows "linked (m(a \<mapsto> (the (m a))\<lparr>dl_next := q'\<rparr>)) p (xs @ [(a, d)]) q'"
  using assms by (auto simp: linked_append)

lemma linked_new_start:
  assumes "linked m p ((a, d) # xs) q" "distinct (map fst ((a, d) # xs))"
  shows "linked (m(a \<mapsto> (the (m a))\<lparr>dl_prev := p'\<rparr>)) p' ((a, d) # xs) q"
  using assms by auto

section \<open>What the operations do\<close>

lemma dlinkAddTail_ok:
  assumes "dl_repr s xs" "dl_mem s m = Some n" "m \<notin> fst ` set xs"
  shows "\<exists>s'. dlinkAddTail d m s = Inr s' \<and> dl_repr s' (xs @ [(m, d)]) \<and> dom (dl_mem s') = dom (dl_mem s) \<and>
    (\<forall>b. b \<notin> insert m (fst ` set xs) \<longrightarrow> dl_mem s' b = dl_mem s b)"
proof (cases xs rule: rev_cases)
  case Nil
  then show ?thesis
    using assms by (auto simp: dlinkAddTail_def dl_repr_def dl_write_def dl_write_opt_def dl_deref_def Let_def)
next
  case (snoc ys y)
  obtain t e where y: "y = (t, e)" by (cases y)
  have r: "linked (dl_mem s) None (ys @ [(t, e)]) None" "distinct (map fst (ys @ [(t, e)]))" "dl_tail s = Some t" "dl_head s = first xs None"
    using assms(1) snoc y by (simp_all add: dl_repr_def)
  obtain nt where nt: "dl_mem s t = Some nt" using linked_mem [OF r(1), of t e] by auto
  have mt: "m \<noteq> t" using assms(3) snoc y by auto
  let ?m = "(dl_mem s)(m \<mapsto> n\<lparr>dl_data := Some d, dl_next := None, dl_prev := Some t\<rparr>, t \<mapsto> nt\<lparr>dl_next := Some m\<rparr>)"
  have "linked ((dl_mem s)(t \<mapsto> nt\<lparr>dl_next := Some m\<rparr>)) None (ys @ [(t, e)]) (Some m)"
    using linked_new_end [OF r(1,2), of "Some m"] nt by simp
  then have "linked ?m None (ys @ [(t, e)]) (Some m)"
    using assms(3) snoc y mt fun_upd_twist [OF mt, of "dl_mem s"] by simp
  then have "linked ?m None (xs @ [(m, d)]) None"
    using snoc y mt unfolding linked_append [of _ _ xs] by simp
  moreover have "dlinkAddTail d m s = Inr (s\<lparr>dl_mem := ?m, dl_tail := Some m\<rparr>)"
  proof -
    have "dl_head s \<noteq> None" using r(4) snoc by (cases ys) simp_all
    then show ?thesis
      using assms(2) nt mt r(3) by (simp add: dlinkAddTail_def dl_write_def dl_write_opt_def dl_deref_def Let_def)
  qed
  moreover have "first (xs @ [(m, d)]) None = dl_head s" using r(4) snoc by (cases ys) simp_all
  moreover have "distinct (map fst (xs @ [(m, d)]))" using assms(1,3) by (simp add: dl_repr_def)
  moreover have "dom ?m = dom (dl_mem s)" using assms(2) nt by auto
  moreover have "\<forall>b. b \<notin> insert m (fst ` set xs) \<longrightarrow> ?m b = dl_mem s b" using snoc y by auto
  ultimately show ?thesis unfolding dl_repr_def by (intro exI [of _ "s\<lparr>dl_mem := ?m, dl_tail := Some m\<rparr>"]) simp
qed

lemma dlinkDelete_ok:
  assumes "dl_repr s (xs @ (m, d) # ys)"
  shows "\<exists>s'. dlinkDelete m s = Inr s' \<and> dl_repr s' (xs @ ys) \<and> dl_mem s' m = Some \<lparr>dl_data = Some d, dl_prev = None, dl_next = None\<rparr> \<and>
    dom (dl_mem s') = dom (dl_mem s) \<and> (\<forall>b. b \<notin> fst ` set (xs @ (m, d) # ys) \<longrightarrow> dl_mem s' b = dl_mem s b)"
proof -
  let ?p = "final xs None" and ?q = "first ys None"
  have L: "linked (dl_mem s) None xs (Some m)" "linked (dl_mem s) (Some m) ys None"
    and n: "dl_mem s m = Some \<lparr>dl_data = Some d, dl_prev = ?p, dl_next = ?q\<rparr>"
    and D: "distinct (map fst (xs @ (m, d) # ys))" and ht: "dl_head s = first xs (Some m)" "dl_tail s = final ys (Some m)"
    using assms by (auto simp: dl_repr_def linked_append)
  define m1 where "m1 = (case ys of [] \<Rightarrow> dl_mem s | y # _ \<Rightarrow> (dl_mem s)(fst y \<mapsto> (the (dl_mem s (fst y)))\<lparr>dl_prev := ?p\<rparr>))"
  define m2 where "m2 = (if xs = [] then m1 else m1(fst (List.last xs) \<mapsto> (the (m1 (fst (List.last xs))))\<lparr>dl_next := ?q\<rparr>))"
  define m3 where "m3 = m2(m \<mapsto> \<lparr>dl_data = Some d, dl_prev = None, dl_next = None\<rparr>)"
  have ly: "linked m1 ?p ys None" "linked m1 None xs (Some m)" "m1 m = dl_mem s m" "dom m1 = dom (dl_mem s)"
  proof -
    show "linked m1 ?p ys None" using L(2) D linked_new_start [of "dl_mem s" "Some m" _ _ _ None ?p] by (cases ys) (auto simp: m1_def)
    show "linked m1 None xs (Some m)" using L(1) D by (cases ys) (auto simp: m1_def)
    show "m1 m = dl_mem s m" using D by (cases ys) (auto simp: m1_def)
    show "dom m1 = dom (dl_mem s)" using L(2) by (cases ys) (auto simp: m1_def)
  qed
  have lx: "linked m2 None xs ?q" "linked m2 ?p ys None" "m2 m = dl_mem s m" "dom m2 = dom (dl_mem s)"
  proof -
    have "linked m2 None xs ?q \<and> linked m2 ?p ys None \<and> m2 m = dl_mem s m \<and> dom m2 = dom m1"
    proof (cases xs rule: rev_cases)
      case Nil
      then show ?thesis using ly by (simp add: m2_def)
    next
      case (snoc zs z)
      obtain a e where z: "z = (a, e)" by (cases z)
      have m2: "m2 = m1(a \<mapsto> (the (m1 a))\<lparr>dl_next := ?q\<rparr>)" using snoc z by (simp add: m2_def)
      have "linked m2 None xs ?q" using linked_new_end [of m1 None zs a e "Some m" ?q] ly(2) D snoc z m2 by simp
      moreover have "linked m2 ?p ys None" using ly(1) D snoc z m2 by simp
      moreover have "m2 m = dl_mem s m" using ly(3) D snoc z m2 by simp
      moreover have "dom m2 = dom m1" using linked_mem [OF ly(2), of a e] snoc z m2 by auto
      ultimately show ?thesis by blast
    qed
    then show "linked m2 None xs ?q" "linked m2 ?p ys None" "m2 m = dl_mem s m" "dom m2 = dom (dl_mem s)" using ly(4) by auto
  qed
  let ?s = "s\<lparr>dl_mem := m3, dl_head := first xs ?q, dl_tail := final ys ?p\<rparr>"
  have w1: "dl_write_opt ?q (\<lambda>x. x\<lparr>dl_prev := ?p\<rparr>) s = Inr (s\<lparr>dl_mem := m1\<rparr>)"
    using L(2) by (cases ys) (auto simp: dl_write_opt_def dl_write_def dl_deref_def m1_def)
  have w2: "dl_write_opt ?p (\<lambda>x. x\<lparr>dl_next := ?q\<rparr>) (s\<lparr>dl_mem := m1\<rparr>) = Inr (s\<lparr>dl_mem := m2\<rparr>)"
  proof (cases xs rule: rev_cases)
    case (snoc zs z)
    then obtain k where "m1 (fst z) = Some k" using linked_mem [OF ly(2), of "fst z" "snd z"] by auto
    then show ?thesis using snoc by (simp add: dl_write_opt_def dl_write_def dl_deref_def m2_def)
  qed (simp add: dl_write_opt_def m2_def)
  have hd: "(if Some m = dl_head s then ?q else dl_head s) = first xs ?q" using ht(1) D by (cases xs) auto
  have tl: "(if Some m = dl_tail s then ?p else dl_tail s) = final ys ?p" using ht(2) D by (cases ys rule: rev_cases) auto
  have "dlinkDelete m s = Inr ?s"
    unfolding dlinkDelete_def hd [symmetric] tl [symmetric]
    using n w1 w2 lx(3) by (simp add: dl_deref_def dl_write_def Let_def m3_def)
  moreover have "linked m3 None xs ?q" "linked m3 ?p ys None" using lx D by (simp_all add: m3_def)
  then have "dl_repr ?s (xs @ ys)" using D by (auto simp: dl_repr_def linked_append)
  moreover have "dom m3 = dom (dl_mem s)" using lx(3,4) n by (auto simp: m3_def)
  moreover have "\<forall>b. b \<notin> fst ` set (xs @ (m, d) # ys) \<longrightarrow> m3 b = dl_mem s b"
    by (cases ys) (auto simp: m3_def m2_def m1_def)
  ultimately show ?thesis by (intro exI [of _ ?s]) (simp add: m3_def)
qed

lemma dlinkAdd_ok:
  assumes "dl_repr s xs" "dl_mem s m = Some n" "m \<notin> fst ` set xs"
  shows "\<exists>s'. dlinkAdd d m s = Inr s' \<and> dl_repr s' ((m, d) # xs)"
proof (cases xs)
  case Nil
  then show ?thesis
    using assms by (auto simp: dlinkAdd_def dl_repr_def dl_write_def dl_write_opt_def dl_deref_def Let_def)
next
  case (Cons y ys)
  obtain h e where y: "y = (h, e)" by (cases y)
  have r: "linked (dl_mem s) None ((h, e) # ys) None" "distinct (map fst ((h, e) # ys))" "dl_head s = Some h"
    "dl_tail s = final ys (Some h)"
    using assms(1) Cons y by (simp_all add: dl_repr_def)
  have mh: "m \<noteq> h" "m \<notin> fst ` set ys" using assms(3) Cons y by auto
  let ?nh = "(the (dl_mem s h))\<lparr>dl_prev := Some m\<rparr>"
  let ?m = "(dl_mem s)(m \<mapsto> n\<lparr>dl_data := Some d, dl_prev := None, dl_next := Some h\<rparr>, h \<mapsto> ?nh)"
  have "linked ((dl_mem s)(h \<mapsto> ?nh)) (Some m) ((h, e) # ys) None" by (rule linked_new_start [OF r(1,2)])
  then have l: "linked ?m (Some m) ((h, e) # ys) None" using mh r(2) by (simp add: fun_upd_twist)
  have "dl_tail s \<noteq> None" using r(4) by (cases ys rule: rev_cases) simp_all
  then have "dlinkAdd d m s = Inr (s\<lparr>dl_mem := ?m, dl_head := Some m\<rparr>)"
    using assms(2) r(1,3) mh by (auto simp: dlinkAdd_def dl_write_def dl_write_opt_def dl_deref_def Let_def)
  moreover have "dl_repr (s\<lparr>dl_mem := ?m, dl_head := Some m\<rparr>) ((m, d) # xs)"
    using l mh r Cons y by (simp add: dl_repr_def)
  ultimately show ?thesis by blast
qed

lemma dlinkAddAfter_ok:
  assumes "dl_repr s (xs @ (a, e) # ys)" "dl_mem s m = Some n" "m \<notin> fst ` set (xs @ (a, e) # ys)"
  shows "\<exists>s'. dlinkAddAfter d m a s = Inr s' \<and> dl_repr s' (xs @ (a, e) # (m, d) # ys)"
proof -
  let ?p = "final xs None" and ?q = "first ys None"
  have L: "linked (dl_mem s) None xs (Some a)" "linked (dl_mem s) (Some a) ys None"
    and na: "dl_mem s a = Some \<lparr>dl_data = Some e, dl_prev = ?p, dl_next = ?q\<rparr>"
    and D: "distinct (map fst (xs @ (a, e) # ys))" and ht: "dl_head s = first xs (Some a)" "dl_tail s = final ys (Some a)"
    using assms(1) by (auto simp: dl_repr_def linked_append)
  have fr: "m \<noteq> a" "m \<notin> fst ` set xs" "m \<notin> fst ` set ys" using assms(3) by auto
  let ?nm = "n\<lparr>dl_data := Some d, dl_prev := Some a, dl_next := ?q\<rparr>"
  define m1 where "m1 = (case ys of [] \<Rightarrow> dl_mem s | y # _ \<Rightarrow> (dl_mem s)(fst y \<mapsto> (the (dl_mem s (fst y)))\<lparr>dl_prev := Some m\<rparr>))"
  let ?m = "m1(m \<mapsto> ?nm, a \<mapsto> \<lparr>dl_data = Some e, dl_prev = ?p, dl_next = Some m\<rparr>)"
  let ?s = "s\<lparr>dl_mem := ?m, dl_tail := final ys (Some m)\<rparr>"
  have ly: "linked m1 (Some m) ys None" "linked m1 None xs (Some a)"
  proof -
    show "linked m1 (Some m) ys None" using L(2) D linked_new_start [of "dl_mem s" "Some a" _ _ _ None "Some m"] by (cases ys) (auto simp: m1_def)
    show "linked m1 None xs (Some a)" using L(1) D by (cases ys) (auto simp: m1_def)
  qed
  have "dlinkAddAfter d m a s = Inr ?s"
  proof (cases ys)
    case Nil
    then show ?thesis using assms(2) na ht(2) fr by (simp add: dlinkAddAfter_def dl_write_def dl_deref_def m1_def)
  next
    case (Cons y zs)
    obtain b f where y: "y = (b, f)" by (cases y)
    have "b \<noteq> m" "b \<noteq> a" using fr D Cons y by auto
    then show ?thesis
      using assms(2) na ht(2) L(2) fr Cons y by (auto simp: dlinkAddAfter_def dl_write_def dl_deref_def m1_def fun_upd_twist)
  qed
  moreover have "dl_repr ?s (xs @ (a, e) # (m, d) # ys)"
    using ly fr D ht by (auto simp: dl_repr_def linked_append)
  ultimately show ?thesis by blast
qed

end
