(* ===== verification/Lru_Policy.thy ===== *)
theory Lru_Policy
  imports Dlink_List Removal_Policy
begin

text \<open>
  The LRU removal policy of \<^verbatim>\<open>src/repl/lru/store_repl_lru.cc\<close>.  The policy keeps a doubly linked list of the entries, the least
  recently used first; an entry points to its list node from one of its two policy nodes.  The memory pool of the nodes is a
  parameter that returns unused memory.  The counters of a purge walker start at zero, since the memory it is allocated in is
  zeroed.
\<close>

section \<open>The policy\<close>

record lru_policy =
  lru_list :: "nat dlink_list"
  lru_count :: int
  lru_nwalkers :: int
  lru_type :: entry_type
  lru_entries :: "nat \<Rightarrow> policy_entry"

definition createRemovalPolicy_lru :: "(nat \<Rightarrow> policy_entry) \<Rightarrow> lru_policy" where
  "createRemovalPolicy_lru es =
     \<lparr>lru_list = dl_empty, lru_count = 0, lru_nwalkers = 0, lru_type = TYPE_UNKNOWN, lru_entries = es\<rparr>"

definition repl_guessType :: "policy_entry \<Rightarrow> policy_node \<Rightarrow> entry_type outcome" where
  "repl_guessType e node =
     (case node of
        ReplNode \<Rightarrow> Inr TYPE_STORE_ENTRY
      | MemReplNode \<Rightarrow> if mem_obj e \<noteq> None then Inr TYPE_STORE_MEM else Inl FatalFault)"

definition lru_setPolicyNode :: "nat \<Rightarrow> addr option \<Rightarrow> lru_policy \<Rightarrow> lru_policy outcome" where
  "lru_setPolicyNode e v p =
     (case lru_type p of
        TYPE_STORE_ENTRY \<Rightarrow> Inr (p\<lparr>lru_entries := (lru_entries p)(e := (lru_entries p e)\<lparr>repl := v\<rparr>)\<rparr>)
      | TYPE_STORE_MEM \<Rightarrow>
          (if mem_obj (lru_entries p e) = None then Inl OutOfBounds
           else Inr (p\<lparr>lru_entries := (lru_entries p)(e := (lru_entries p e)\<lparr>mem_obj := Some v\<rparr>)\<rparr>))
      | TYPE_UNKNOWN \<Rightarrow> Inr p)"

text \<open>Memory from the node pool is zeroed; \<open>pool_free\<close> gives it back.\<close>

definition pool_alloc :: "addr \<Rightarrow> nat dlink_list \<Rightarrow> nat dlink_list" where
  "pool_alloc a s = s\<lparr>dl_mem := (dl_mem s)(a \<mapsto> \<lparr>dl_data = None, dl_prev = None, dl_next = None\<rparr>)\<rparr>"

definition pool_free :: "addr \<Rightarrow> nat dlink_list \<Rightarrow> nat dlink_list" where
  "pool_free a s = s\<lparr>dl_mem := (dl_mem s)(a := None)\<rparr>"

section \<open>Operations\<close>

definition lru_add :: "(nat dlink_list \<Rightarrow> addr) \<Rightarrow> nat \<Rightarrow> policy_node \<Rightarrow> lru_policy \<Rightarrow> lru_policy outcome" where
  "lru_add alloc e node p =
     bindE (policy_node_data (lru_entries p e) node) (\<lambda>nd.
     guardE (nd = None) AssertFault
       (let a = alloc (lru_list p)
        in bindE (dlinkAddTail e a (pool_alloc a (lru_list p))) (\<lambda>l.
           bindE (if lru_type p = TYPE_UNKNOWN then repl_guessType (lru_entries p e) node else Inr (lru_type p)) (\<lambda>ty.
             Inr (p\<lparr>lru_list := l, lru_count := lru_count p + 1, lru_type := ty,
               lru_entries := (lru_entries p)(e := set_node_data node (Some a) (lru_entries p e))\<rparr>)))))"

definition lru_remove :: "nat \<Rightarrow> policy_node \<Rightarrow> lru_policy \<Rightarrow> lru_policy outcome" where
  "lru_remove e node p =
     bindE (policy_node_data (lru_entries p e) node) (\<lambda>nd.
       case nd of
         None \<Rightarrow> Inr p
       | Some lru_node \<Rightarrow>
           bindE (dl_deref lru_node (lru_list p)) (\<lambda>n.
             if dl_data n = None then Inr p
             else guardE (dl_data n = Some e) AssertFault
               (bindE (dlinkDelete lru_node (lru_list p)) (\<lambda>l.
                 Inr (p\<lparr>lru_entries := (lru_entries p)(e := set_node_data node None (lru_entries p e)),
                   lru_list := pool_free lru_node l, lru_count := lru_count p - 1\<rparr>)))))"

definition lru_referenced :: "nat \<Rightarrow> policy_node \<Rightarrow> lru_policy \<Rightarrow> lru_policy outcome" where
  "lru_referenced e node p =
     bindE (policy_node_data (lru_entries p e) node) (\<lambda>nd.
       case nd of
         None \<Rightarrow> Inr p
       | Some lru_node \<Rightarrow>
           bindE (dlinkDelete lru_node (lru_list p)) (\<lambda>l.
           bindE (dlinkAddTail e lru_node l) (\<lambda>l'. Inr (p\<lparr>lru_list := l'\<rparr>))))"

text \<open>Walking over the entries: the walker is the node it looks at next.\<close>

definition lru_walkInit :: "lru_policy \<Rightarrow> addr option \<times> lru_policy" where
  "lru_walkInit p = (dl_head (lru_list p), p\<lparr>lru_nwalkers := lru_nwalkers p + 1\<rparr>)"

definition lru_walkNext :: "addr option \<Rightarrow> lru_policy \<Rightarrow> (nat option \<times> addr option) outcome" where
  "lru_walkNext current p =
     (case current of
        None \<Rightarrow> Inr (None, None)
      | Some a \<Rightarrow> bindE (dl_deref a (lru_list p)) (\<lambda>n. Inr (dl_data n, dl_next n)))"

definition lru_walkDone :: "lru_policy \<Rightarrow> lru_policy outcome" where
  "lru_walkDone p = guardE (lru_nwalkers p > 0) AssertFault (Inr (p\<lparr>lru_nwalkers := lru_nwalkers p - 1\<rparr>))"

section \<open>Purging\<close>

record lru_purge =
  pw_current :: "addr option"
  pw_start :: "addr option"
  pw_scanned :: int
  pw_max_scan :: int
  pw_locked :: int

definition lru_purgeInit :: "int \<Rightarrow> lru_policy \<Rightarrow> lru_purge \<times> lru_policy" where
  "lru_purgeInit max_scan p =
     (\<lparr>pw_current = dl_head (lru_list p), pw_start = dl_head (lru_list p), pw_scanned = 0, pw_max_scan = max_scan, pw_locked = 0\<rparr>,
      p\<lparr>lru_nwalkers := lru_nwalkers p + 1\<rparr>)"

text \<open>One round of the walker's loop, up to the decision whether to go on.\<close>

datatype round_result = Ended | Skipped lru_purge lru_policy | Found nat lru_purge lru_policy

definition purge_round :: "lru_purge \<Rightarrow> lru_policy \<Rightarrow> round_result outcome" where
  "purge_round wk p =
     (case pw_current wk of
        None \<Rightarrow> Inr Ended
      | Some lru_node \<Rightarrow>
          if pw_scanned wk \<ge> pw_max_scan wk then Inr Ended
          else bindE (dl_deref lru_node (lru_list p)) (\<lambda>n.
            let current = (if dl_next n = pw_start wk then None else dl_next n);
                wk1 = wk\<lparr>pw_scanned := pw_scanned wk + 1, pw_current := current\<rparr>
            in case dl_data n of
                 None \<Rightarrow> Inl OutOfBounds
               | Some e \<Rightarrow>
                   bindE (dlinkDelete lru_node (lru_list p)) (\<lambda>l.
                     if locked (lru_entries p e) then
                       bindE (dlinkAddTail e lru_node l) (\<lambda>l'. Inr (Skipped (wk1\<lparr>pw_locked := pw_locked wk + 1\<rparr>) (p\<lparr>lru_list := l'\<rparr>)))
                     else
                       bindE (lru_setPolicyNode e None (p\<lparr>lru_list := pool_free lru_node l, lru_count := lru_count p - 1\<rparr>)) (\<lambda>p'.
                         Inr (Found e wk1 p')))))"

lemma purge_round_scans:
  assumes "purge_round wk p = Inr (Skipped wk' p')"
  shows "nat (pw_max_scan wk' - pw_scanned wk') < nat (pw_max_scan wk - pw_scanned wk)"
  using assms by (auto simp: purge_round_def Let_def outcome_simps split: option.splits if_splits)

function lru_purgeNext :: "lru_purge \<Rightarrow> lru_policy \<Rightarrow> (nat option \<times> lru_purge \<times> lru_policy) outcome" where
  "lru_purgeNext wk p =
     (case purge_round wk p of
        Inl f \<Rightarrow> Inl f
      | Inr Ended \<Rightarrow> Inr (None, wk, p)
      | Inr (Skipped wk' p') \<Rightarrow> lru_purgeNext wk' p'
      | Inr (Found e wk' p') \<Rightarrow> Inr (Some e, wk', p'))"
  by pat_completeness auto
termination
  by (relation "measure (\<lambda>(wk, p). nat (pw_max_scan wk - pw_scanned wk))") (auto dest: purge_round_scans)

declare lru_purgeNext.simps [simp del]

definition lru_purgeDone :: "lru_policy \<Rightarrow> lru_policy outcome" where
  "lru_purgeDone p = guardE (lru_nwalkers p > 0) AssertFault (Inr (p\<lparr>lru_nwalkers := lru_nwalkers p - 1\<rparr>))"

definition lru_free :: "lru_policy \<Rightarrow> unit outcome" where
  "lru_free p = guardE (lru_nwalkers p \<noteq> 0) AssertFault (guardE (lru_count p \<noteq> 0) AssertFault (Inr ()))"

section \<open>The policy invariant\<close>

abbreviation lnode :: "lru_policy \<Rightarrow> nat \<Rightarrow> addr option" where
  "lnode p e \<equiv> entry_node (lru_type p) (lru_entries p e)"

text \<open>The list holds the nodes and entries \<open>xs\<close>, and nodes and entries point to each other.\<close>

definition lru_inv :: "lru_policy \<Rightarrow> (addr \<times> nat) list \<Rightarrow> bool" where
  "lru_inv p xs \<longleftrightarrow> dl_repr (lru_list p) xs \<and> dom (dl_mem (lru_list p)) = fst ` set xs \<and>
     (\<forall>a e. lnode p e = Some a \<longleftrightarrow> (a, e) \<in> set xs) \<and> lru_count p = int (length xs)"

definition lru_fresh :: "(nat dlink_list \<Rightarrow> addr) \<Rightarrow> bool" where
  "lru_fresh alloc \<longleftrightarrow> (\<forall>s. finite (dom (dl_mem s)) \<longrightarrow> dl_mem s (alloc s) = None)"

lemma lru_guess_node_type: "policy_node_data e node = Inr v \<Longrightarrow> repl_guessType e node = Inr (node_type node)"
  by (cases node) (auto simp: repl_guessType_def node_type_def policy_node_data_def split: option.splits)

lemma lru_inv_distinct: "lru_inv p xs \<Longrightarrow> distinct (map fst xs) \<and> distinct (map snd xs)"
proof
  assume i: "lru_inv p xs"
  then show d: "distinct (map fst xs)" by (simp add: lru_inv_def dl_repr_def)
  have "a = b" if "(a, e) \<in> set xs" "(b, e) \<in> set xs" for a b e
  proof -
    have "lnode p e = Some a" "lnode p e = Some b" using i that unfolding lru_inv_def by blast+
    then show ?thesis by simp
  qed
  then have "inj_on snd (set xs)" by (auto simp: inj_on_def)
  then show "distinct (map snd xs)" using d by (simp add: distinct_map)
qed

lemma lru_inv_node: "lru_inv p xs \<Longrightarrow> (a, e) \<in> set xs \<Longrightarrow> \<exists>n. dl_mem (lru_list p) a = Some n \<and> dl_data n = Some e"
  unfolding lru_inv_def dl_repr_def using linked_mem by metis

lemma dl_repr_free:
  assumes "dl_repr s xs" "a \<notin> fst ` set xs"
  shows "dl_repr (pool_free a s) xs"
  using assms by (simp add: dl_repr_def pool_free_def)

lemma dl_repr_alloc:
  assumes "dl_repr s xs" "a \<notin> fst ` set xs"
  shows "dl_repr (pool_alloc a s) xs"
  using assms by (simp add: dl_repr_def pool_alloc_def)

lemma lru_add_ok:
  assumes "lru_inv p xs" "lru_fresh alloc" "policy_node_data (lru_entries p e) node = Inr None"
    and ty: "lru_type p = node_type node \<or> lru_type p = TYPE_UNKNOWN \<and> (\<forall>x. entry_node (node_type node) (lru_entries p x) = None)"
  shows "\<exists>p' a. lru_add alloc e node p = Inr p' \<and> lru_inv p' (xs @ [(a, e)]) \<and> lru_type p' = node_type node \<and>
    (\<forall>x. x \<noteq> e \<longrightarrow> lru_entries p' x = lru_entries p x) \<and> policy_node_data (lru_entries p' e) node = Inr (Some a)"
proof -
  let ?a = "alloc (lru_list p)"
  have R: "dl_repr (lru_list p) xs" and dm: "dom (dl_mem (lru_list p)) = fst ` set xs" and c: "lru_count p = int (length xs)"
    and nd: "\<And>x b. lnode p x = Some b \<longleftrightarrow> (b, x) \<in> set xs"
    using assms(1) by (auto simp: lru_inv_def)
  have "dl_mem (lru_list p) ?a = None" using assms(2) dm by (simp add: lru_fresh_def)
  then have fr: "?a \<notin> fst ` set xs" using dm by (metis domIff)
  have "dl_mem (pool_alloc ?a (lru_list p)) ?a = Some \<lparr>dl_data = None, dl_prev = None, dl_next = None\<rparr>" by (simp add: pool_alloc_def)
  from dlinkAddTail_ok [OF dl_repr_alloc [OF R fr] this fr]
  obtain l where l: "dlinkAddTail e ?a (pool_alloc ?a (lru_list p)) = Inr l" "dl_repr l (xs @ [(?a, e)])"
    "dom (dl_mem l) = dom (dl_mem (pool_alloc ?a (lru_list p)))" by blast
  let ?p = "p\<lparr>lru_list := l, lru_count := lru_count p + 1, lru_type := node_type node,
    lru_entries := (lru_entries p)(e := set_node_data node (Some ?a) (lru_entries p e))\<rparr>"
  have r: "lru_add alloc e node p = Inr ?p"
    using assms(3) ty l(1) lru_guess_node_type [OF assms(3)] by (auto simp: lru_add_def Let_def)
  have ne: "entry_node (node_type node) (lru_entries p e) = None" using node_data_entry_node [OF assms(3)] .
  have old: "entry_node (node_type node) (lru_entries p x) = Some b \<longleftrightarrow> (b, x) \<in> set xs" for x b
  proof (cases "lru_type p = node_type node")
    case False
    then have "lru_type p = TYPE_UNKNOWN" "\<forall>x. entry_node (node_type node) (lru_entries p x) = None" using ty by blast+
    then show ?thesis using nd [of x b] by (simp add: entry_node_def)
  qed (use nd [of x b] in simp)
  have "lnode ?p x = Some b \<longleftrightarrow> (b, x) \<in> set (xs @ [(?a, e)])" for x b
    using old [of x b] old [of e b] ne by (auto simp: entry_node_set)
  moreover have "dom (dl_mem l) = fst ` set (xs @ [(?a, e)])" using l(3) dm by (auto simp: pool_alloc_def)
  ultimately have "lru_inv ?p (xs @ [(?a, e)])" using l(2) c by (simp add: lru_inv_def)
  moreover have "policy_node_data (set_node_data node (Some ?a) (lru_entries p e)) node = Inr (Some ?a)"
    by (cases node) (simp_all add: policy_node_data_def set_node_data_def)
  ultimately show ?thesis using r by (intro exI [of _ ?p] exI [of _ ?a]) simp
qed

text \<open>Taking the node of an entry out of the list, for good or to the tail.\<close>

lemma lru_unlink:
  assumes "lru_inv p (xs @ (a, e) # ys)"
  shows "\<exists>l. dlinkDelete a (lru_list p) = Inr l \<and> dl_repr l (xs @ ys) \<and> dl_repr (pool_free a l) (xs @ ys) \<and>
    dom (dl_mem (pool_free a l)) = fst ` set (xs @ ys) \<and>
    (\<exists>l'. dlinkAddTail e a l = Inr l' \<and> lru_inv (p\<lparr>lru_list := l'\<rparr>) (xs @ ys @ [(a, e)]))"
proof -
  have D: "distinct (map fst (xs @ (a, e) # ys))" using lru_inv_distinct [OF assms] by blast
  then have na: "a \<notin> fst ` set (xs @ ys)" by auto
  have R: "dl_repr (lru_list p) (xs @ (a, e) # ys)" and dm: "dom (dl_mem (lru_list p)) = fst ` set (xs @ (a, e) # ys)"
    using assms by (simp_all add: lru_inv_def)
  obtain l where l: "dlinkDelete a (lru_list p) = Inr l" "dl_repr l (xs @ ys)" "dl_mem l a = Some \<lparr>dl_data = Some e, dl_prev = None, dl_next = None\<rparr>"
    "dom (dl_mem l) = dom (dl_mem (lru_list p))"
    using dlinkDelete_ok [OF R] by blast
  obtain l' where l': "dlinkAddTail e a l = Inr l'" "dl_repr l' ((xs @ ys) @ [(a, e)])" "dom (dl_mem l') = dom (dl_mem l)"
    using dlinkAddTail_ok [OF l(2,3) na, of e] by blast
  have "lru_inv (p\<lparr>lru_list := l'\<rparr>) (xs @ ys @ [(a, e)])"
    using assms l' l(4) dm by (auto simp: lru_inv_def)
  moreover have "dom (dl_mem (pool_free a l)) = fst ` set (xs @ ys)" using l(4) dm na by (auto simp: pool_free_def)
  ultimately show ?thesis using l l'(1) dl_repr_free [OF l(2) na] by blast
qed

lemma lru_inv_dropped:
  assumes "lru_inv p (xs @ (a, e) # ys)" "dl_repr l (xs @ ys)" "dom (dl_mem l) = fst ` set (xs @ ys)" "entry_node (lru_type p) en = None"
  shows "lru_inv (p\<lparr>lru_list := l, lru_count := lru_count p - 1, lru_entries := (lru_entries p)(e := en)\<rparr>) (xs @ ys)"
proof -
  have D: "distinct (map snd (xs @ (a, e) # ys))" using lru_inv_distinct [OF assms(1)] by blast
  then have "(b, e) \<notin> set (xs @ ys)" for b by force
  then show ?thesis using assms by (auto simp: lru_inv_def)
qed

lemma lru_remove_ok:
  assumes "lru_inv p (xs @ (a, e) # ys)" "lru_type p = node_type node" "policy_node_data (lru_entries p e) node = Inr (Some a)"
  shows "\<exists>p'. lru_remove e node p = Inr p' \<and> lru_inv p' (xs @ ys) \<and> lru_type p' = lru_type p \<and>
    policy_node_data (lru_entries p' e) node = Inr None \<and> (\<forall>x. x \<noteq> e \<longrightarrow> lru_entries p' x = lru_entries p x)"
proof -
  obtain n where n: "dl_mem (lru_list p) a = Some n" "dl_data n = Some e" using lru_inv_node [OF assms(1)] by fastforce
  obtain l where l: "dlinkDelete a (lru_list p) = Inr l" "dl_repr (pool_free a l) (xs @ ys)" "dom (dl_mem (pool_free a l)) = fst ` set (xs @ ys)"
    using lru_unlink [OF assms(1)] by blast
  let ?p = "p\<lparr>lru_list := pool_free a l, lru_count := lru_count p - 1,
    lru_entries := (lru_entries p)(e := set_node_data node None (lru_entries p e))\<rparr>"
  have "lru_remove e node p = Inr ?p" using assms(3) n l(1) by (simp add: lru_remove_def dl_deref_def)
  moreover have "lru_inv ?p (xs @ ys)"
    using lru_inv_dropped [OF assms(1) l(2,3)] assms(2) by (simp add: entry_node_set)
  moreover have "policy_node_data (set_node_data node None (lru_entries p e)) node = Inr None"
    by (cases node) (simp_all add: policy_node_data_def set_node_data_def)
  ultimately show ?thesis by (intro exI [of _ ?p]) simp
qed

lemma lru_referenced_ok:
  assumes "lru_inv p (xs @ (a, e) # ys)" "policy_node_data (lru_entries p e) node = Inr (Some a)"
  shows "\<exists>p'. lru_referenced e node p = Inr p' \<and> lru_inv p' (xs @ ys @ [(a, e)]) \<and> lru_entries p' = lru_entries p \<and> lru_type p' = lru_type p"
proof -
  obtain l l' where "dlinkDelete a (lru_list p) = Inr l" "dlinkAddTail e a l = Inr l'" "lru_inv (p\<lparr>lru_list := l'\<rparr>) (xs @ ys @ [(a, e)])"
    using lru_unlink [OF assms(1)] by blast
  then show ?thesis using assms(2) by (simp add: lru_referenced_def)
qed

section \<open>One round of a purge\<close>

text \<open>
  The walker has moved the locked entries \<open>M\<close> to the tail and has not seen the entries \<open>U\<close> yet; it stops where it started if
  that node is still there.
\<close>

definition walk_inv :: "lru_policy \<Rightarrow> lru_purge \<Rightarrow> (addr \<times> nat) list \<Rightarrow> (addr \<times> nat) list \<Rightarrow> bool" where
  "walk_inv p wk U M \<longleftrightarrow> lru_inv p (U @ M) \<and> (\<forall>x \<in> set M. locked (lru_entries p (snd x))) \<and>
     (case pw_current wk of
        None \<Rightarrow> \<forall>x \<in> set U. locked (lru_entries p (snd x))
      | Some a \<Rightarrow> first (U @ M) None = Some a \<and>
          (pw_start wk \<in> Some ` fst ` set (U @ M) \<longrightarrow> U \<noteq> [] \<and> pw_start wk = (if M = [] then first U None else first M None)))"

definition unlocked_of :: "(nat \<Rightarrow> policy_entry) \<Rightarrow> (addr \<times> nat) list \<Rightarrow> nat list" where
  "unlocked_of en xs = filter (\<lambda>e. \<not> locked (en e)) (map snd xs)"

definition next_current :: "lru_purge \<Rightarrow> (addr \<times> nat) list \<Rightarrow> addr option" where
  "next_current wk xs = (if first xs None = pw_start wk then None else first xs None)"

lemma first_in: "first xs None = Some a \<Longrightarrow> a \<in> fst ` set xs"
  by (cases xs) auto

lemma next_current_cases:
  assumes "walk_inv p wk (x # U) M" "pw_current wk \<noteq> None"
  shows "next_current wk (U @ M) = None \<Longrightarrow> U = []"
    and "next_current wk (U @ M) \<noteq> None \<Longrightarrow> pw_start wk \<in> Some ` fst ` set (U @ M) \<Longrightarrow> U \<noteq> [] \<and> M \<noteq> [] \<and> pw_start wk = first M None"
    and "next_current wk (U @ M) \<noteq> None \<Longrightarrow> pw_start wk = Some (fst x) \<Longrightarrow> U \<noteq> [] \<and> M = []"
proof -
  have D: "distinct (map fst ((x # U) @ M))" using assms(1) lru_inv_distinct [of p "(x # U) @ M"] by (simp add: walk_inv_def)
  have A: "pw_start wk \<in> Some ` fst ` set ((x # U) @ M) \<Longrightarrow> pw_start wk = (if M = [] then Some (fst x) else first M None)"
    using assms unfolding walk_inv_def by (cases "pw_current wk") (simp_all only: option.simps first_simps, blast+)
  have sep: "first U None \<noteq> first M None" if "U \<noteq> []" "M \<noteq> []" using D that by (cases U; cases M) auto
  have xU: "first (U @ M) None \<noteq> Some (fst x)" using D by (cases U; cases M) auto
  have st: "U = []" if f: "first (U @ M) None = pw_start wk" "first (U @ M) None \<noteq> None"
  proof (rule ccontr)
    assume U: "U \<noteq> []"
    obtain b where b: "first (U @ M) None = Some b" using f(2) by auto
    then have "pw_start wk = Some b" "b \<in> fst ` set ((x # U) @ M)" using f(1) first_in [OF b] by auto
    then have "pw_start wk \<in> Some ` fst ` set ((x # U) @ M)" by (simp only: image_eqI)
    then have "pw_start wk = (if M = [] then Some (fst x) else first M None)" using A by blast
    then show False using f(1) U xU sep first_cong [OF U, of "first M None" None] by (auto split: if_splits)
  qed
  show "U = []" if c: "next_current wk (U @ M) = None"
  proof (cases "first (U @ M) None = pw_start wk \<and> first (U @ M) None \<noteq> None")
    case True
    then show ?thesis using st by blast
  next
    case False
    then have "first (U @ M) None = None" using c by (auto simp: next_current_def split: if_splits)
    then show ?thesis by (cases U) simp_all
  qed
  show "U \<noteq> [] \<and> M \<noteq> [] \<and> pw_start wk = first M None"
    if c: "next_current wk (U @ M) \<noteq> None" and s: "pw_start wk \<in> Some ` fst ` set (U @ M)"
  proof -
    have "fst x \<notin> fst ` set (U @ M)" using D by auto
    then have "pw_start wk \<noteq> Some (fst x)" using s by (metis imageE option.inject)
    moreover have "pw_start wk = (if M = [] then Some (fst x) else first M None)" using A s by auto
    ultimately have M: "M \<noteq> []" "pw_start wk = first M None" by (auto split: if_splits)
    then show ?thesis using c by (auto simp: next_current_def)
  qed
  show "U \<noteq> [] \<and> M = []" if c: "next_current wk (U @ M) \<noteq> None" and s: "pw_start wk = Some (fst x)"
  proof -
    have "pw_start wk = (if M = [] then Some (fst x) else first M None)" using A s by auto
    moreover have "first M None \<noteq> Some (fst x)" using D by (cases M) auto
    ultimately have "M = []" using s by (auto split: if_splits)
    then show ?thesis using c by (auto simp: next_current_def split: if_splits)
  qed
qed

lemma lru_setPolicyNode_clear:
  assumes "lnode p e = Some a"
  shows "lru_setPolicyNode e None p = Inr (p\<lparr>lru_entries := (lru_entries p)(e := clear_node (lru_type p) (lru_entries p e))\<rparr>)"
  using assms by (auto simp: lru_setPolicyNode_def entry_node_def clear_node_def split: entry_type.splits option.splits)

lemma purge_round_head:
  assumes "lru_inv p ((a, e) # xs)" "pw_current wk = Some a" "pw_scanned wk < pw_max_scan wk"
  defines "wk1 \<equiv> wk\<lparr>pw_scanned := pw_scanned wk + 1, pw_current := next_current wk xs\<rparr>"
  shows "locked (lru_entries p e) \<Longrightarrow> \<exists>l. purge_round wk p = Inr (Skipped (wk1\<lparr>pw_locked := pw_locked wk + 1\<rparr>) (p\<lparr>lru_list := l\<rparr>)) \<and>
      lru_inv (p\<lparr>lru_list := l\<rparr>) (xs @ [(a, e)])"
    and "\<not> locked (lru_entries p e) \<Longrightarrow> \<exists>p'. purge_round wk p = Inr (Found e wk1 p') \<and> lru_inv p' xs \<and> lru_type p' = lru_type p \<and>
      lru_nwalkers p' = lru_nwalkers p \<and> lru_entries p' = (lru_entries p)(e := clear_node (lru_type p) (lru_entries p e))"
proof -
  have inv: "lru_inv p ([] @ (a, e) # xs)" using assms(1) by simp
  obtain n where n: "dl_deref a (lru_list p) = Inr n" "dl_data n = Some e" "dl_next n = first xs None"
    using assms(1) by (auto simp: lru_inv_def dl_repr_def dl_deref_def)
  obtain l l' where l: "dlinkDelete a (lru_list p) = Inr l" "dl_repr (pool_free a l) xs" "dom (dl_mem (pool_free a l)) = fst ` set xs"
    "dlinkAddTail e a l = Inr l'" "lru_inv (p\<lparr>lru_list := l'\<rparr>) (xs @ [(a, e)])"
    using lru_unlink [OF inv] by auto
  have cur: "wk1 = wk\<lparr>pw_scanned := pw_scanned wk + 1, pw_current := if dl_next n = pw_start wk then None else dl_next n\<rparr>"
    by (simp add: wk1_def next_current_def n(3))
  show "\<exists>l. purge_round wk p = Inr (Skipped (wk1\<lparr>pw_locked := pw_locked wk + 1\<rparr>) (p\<lparr>lru_list := l\<rparr>)) \<and>
      lru_inv (p\<lparr>lru_list := l\<rparr>) (xs @ [(a, e)])" if "locked (lru_entries p e)"
    using assms(2,3) n(1,2) l(1,4,5) that unfolding cur by (intro exI [of _ l']) (simp add: purge_round_def Let_def)
  let ?p = "p\<lparr>lru_list := pool_free a l, lru_count := lru_count p - 1\<rparr>"
  have "lnode ?p e = Some a" using assms(1) by (simp add: lru_inv_def)
  then have c: "lru_setPolicyNode e None ?p = Inr (?p\<lparr>lru_entries := (lru_entries p)(e := clear_node (lru_type p) (lru_entries p e))\<rparr>)"
    using lru_setPolicyNode_clear [of ?p e a] by simp
  have "lru_inv (?p\<lparr>lru_entries := (lru_entries p)(e := clear_node (lru_type p) (lru_entries p e))\<rparr>) xs"
    using lru_inv_dropped [OF inv, of "pool_free a l"] l(2,3) by (simp add: entry_node_clear)
  then show "\<exists>p'. purge_round wk p = Inr (Found e wk1 p') \<and> lru_inv p' xs \<and> lru_type p' = lru_type p \<and>
      lru_nwalkers p' = lru_nwalkers p \<and> lru_entries p' = (lru_entries p)(e := clear_node (lru_type p) (lru_entries p e))"
    if "\<not> locked (lru_entries p e)"
    using assms(2,3) n(1,2) l(1) c that unfolding cur by (simp add: purge_round_def Let_def)
qed

lemma purge_round_skips:
  assumes "walk_inv p wk U M" "pw_current wk \<noteq> None" "pw_scanned wk < pw_max_scan wk" "U @ M = (a, e) # xs" "locked (lru_entries p e)"
  obtains wk' p' U' M' where "purge_round wk p = Inr (Skipped wk' p')" "walk_inv p' wk' U' M'" "lru_entries p' = lru_entries p"
    "lru_type p' = lru_type p" "lru_nwalkers p' = lru_nwalkers p" "unlocked_of (lru_entries p) U' = unlocked_of (lru_entries p) U"
    "set (U' @ M') = set (U @ M)" "pw_scanned wk' = pw_scanned wk + 1" "pw_max_scan wk' = pw_max_scan wk"
proof -
  have inv: "lru_inv p ((a, e) # xs)" using assms(1,4) by (simp add: walk_inv_def)
  have cur: "pw_current wk = Some a" using assms(1,2,4) by (auto simp: walk_inv_def)
  let ?wk = "wk\<lparr>pw_scanned := pw_scanned wk + 1, pw_current := next_current wk xs, pw_locked := pw_locked wk + 1\<rparr>"
  obtain l where l: "purge_round wk p = Inr (Skipped ?wk (p\<lparr>lru_list := l\<rparr>))" "lru_inv (p\<lparr>lru_list := l\<rparr>) (xs @ [(a, e)])"
    using purge_round_head(1) [OF inv cur assms(3,5)] by auto
  show ?thesis
  proof (cases U)
    case Nil
    then have M: "M = (a, e) # xs" using assms(4) by simp
    have dead: "pw_start wk \<notin> Some ` fst ` set M" using assms(1) cur Nil by (auto simp: walk_inv_def)
    then have nc: "next_current wk xs = first xs None" using M first_in [of xs] by (cases xs) (auto simp: next_current_def)
    have "walk_inv (p\<lparr>lru_list := l\<rparr>) ?wk [] (xs @ [(a, e)])"
      using l(2) assms(1) dead M nc by (cases xs) (auto simp: walk_inv_def)
    then show ?thesis by (rule that [OF l(1)]) (use Nil M in \<open>auto simp: unlocked_of_def\<close>)
  next
    case (Cons x V)
    then have x: "x = (a, e)" "xs = V @ M" using assms(4) by auto
    note N = next_current_cases [of p wk x V M, folded x(2)]
    have st: "pw_start wk \<in> Some ` fst ` set (V @ M @ [x]) \<longrightarrow> V \<noteq> [] \<and> pw_start wk = first (M @ [x]) None" if "next_current wk xs \<noteq> None"
    proof
      assume "pw_start wk \<in> Some ` fst ` set (V @ M @ [x])"
      then consider "pw_start wk \<in> Some ` fst ` set (V @ M)" | "pw_start wk = Some (fst x)" by auto
      then show "V \<noteq> [] \<and> pw_start wk = first (M @ [x]) None"
      proof cases
        case 1
        then have "V \<noteq> [] \<and> M \<noteq> [] \<and> pw_start wk = first M None" using N(2) assms(1,2) Cons that x(2) by simp
        then show ?thesis using first_cong [of M "first [x] None" None] by simp
      next
        case 2
        then show ?thesis using N(3) assms(1,2) Cons that by simp
      qed
    qed
    have "walk_inv (p\<lparr>lru_list := l\<rparr>) ?wk V (M @ [x])"
    proof (cases "next_current wk xs")
      case None
      then show ?thesis using N(1) l(2) assms(1,2,5) Cons x by (auto simp: walk_inv_def)
    next
      case (Some b)
      then have "first xs None = Some b" by (auto simp: next_current_def split: if_splits)
      then have "first (V @ M @ [x]) None = Some b" using x(2) by (cases V; cases M) auto
      then show ?thesis using l(2) assms(1,5) Cons x Some st by (auto simp: walk_inv_def)
    qed
    then show ?thesis by (rule that [OF l(1)]) (use Cons x assms(5) in \<open>auto simp: unlocked_of_def\<close>)
  qed
qed

lemma purge_round_finds:
  assumes "walk_inv p wk (x # U) M" "pw_current wk \<noteq> None" "pw_scanned wk < pw_max_scan wk" "\<not> locked (lru_entries p (snd x))"
  obtains wk' p' where "purge_round wk p = Inr (Found (snd x) wk' p')" "walk_inv p' wk' U M"
    "lru_entries p' = (lru_entries p)(snd x := clear_node (lru_type p) (lru_entries p (snd x)))"
    "lru_type p' = lru_type p" "lru_nwalkers p' = lru_nwalkers p" "pw_scanned wk' = pw_scanned wk + 1" "pw_max_scan wk' = pw_max_scan wk"
proof -
  obtain a e where x: "x = (a, e)" by (cases x)
  have inv: "lru_inv p ((a, e) # U @ M)" and cur: "pw_current wk = Some a" using assms(1,2) x by (auto simp: walk_inv_def)
  let ?wk = "wk\<lparr>pw_scanned := pw_scanned wk + 1, pw_current := next_current wk (U @ M)\<rparr>"
  obtain p' where p': "purge_round wk p = Inr (Found e ?wk p')" "lru_inv p' (U @ M)" "lru_type p' = lru_type p" "lru_nwalkers p' = lru_nwalkers p"
    "lru_entries p' = (lru_entries p)(e := clear_node (lru_type p) (lru_entries p e))"
    using purge_round_head(2) [OF inv cur assms(3)] assms(4) x by auto
  have lk: "locked (lru_entries p' y) = locked (lru_entries p y)" for y using p'(5) by simp
  note N = next_current_cases [OF assms(1,2)]
  have "walk_inv p' ?wk U M"
  proof (cases "next_current wk (U @ M)")
    case None
    then show ?thesis using N(1) p'(2) assms(1) lk by (auto simp: walk_inv_def)
  next
    case (Some b)
    then have "first (U @ M) None = Some b" by (auto simp: next_current_def split: if_splits)
    then show ?thesis using N(2) p'(2) assms(1) lk Some by (auto simp: walk_inv_def)
  qed
  then show ?thesis using that [of ?wk p'] p' x by simp
qed

section \<open>A purge from start to end\<close>

lemma unlocked_of_cong: "(\<And>x. x \<in> set U \<Longrightarrow> locked (en' (snd x)) = locked (en (snd x))) \<Longrightarrow> unlocked_of en' U = unlocked_of en U"
  by (induction U) (auto simp: unlocked_of_def)

lemma lru_purgeNext_ok:
  assumes "walk_inv p wk U M"
  shows "\<exists>r wk' p' U' M'. lru_purgeNext wk p = Inr (r, wk', p') \<and> walk_inv p' wk' U' M' \<and> lru_type p' = lru_type p \<and>
    lru_nwalkers p' = lru_nwalkers p \<and> pw_scanned wk \<le> pw_scanned wk' \<and> pw_max_scan wk' = pw_max_scan wk \<and>
    (\<forall>x. locked (lru_entries p' x) = locked (lru_entries p x)) \<and>
    (case r of
       None \<Rightarrow> unlocked_of (lru_entries p) U' = unlocked_of (lru_entries p) U \<and> set (U' @ M') = set (U @ M) \<and>
         (pw_scanned wk' < pw_max_scan wk' \<longrightarrow> unlocked_of (lru_entries p) U = [])
     | Some e \<Rightarrow> unlocked_of (lru_entries p) U = e # unlocked_of (lru_entries p) U' \<and>
         snd ` set (U' @ M') = snd ` set (U @ M) - {e})"
  using assms
proof (induction "nat (pw_max_scan wk - pw_scanned wk)" arbitrary: wk p U M rule: less_induct)
  case less
  show ?case
  proof (cases "pw_current wk = None \<or> pw_max_scan wk \<le> pw_scanned wk")
    case True
    then have "lru_purgeNext wk p = Inr (None, wk, p)"
      by (subst lru_purgeNext.simps) (auto simp: purge_round_def split: option.splits)
    moreover have "unlocked_of (lru_entries p) U = []" if "pw_scanned wk < pw_max_scan wk"
      using True that less.prems by (auto simp: walk_inv_def unlocked_of_def filter_empty_conv)
    ultimately show ?thesis using less.prems by (intro exI [of _ None] exI [of _ wk] exI [of _ p] exI [of _ U] exI [of _ M]) simp
  next
    case False
    then have cur: "pw_current wk \<noteq> None" and sc: "pw_scanned wk < pw_max_scan wk" by auto
    then have "U @ M \<noteq> []" using less.prems by (cases "U @ M") (auto simp: walk_inv_def)
    then obtain a e xs where hd: "U @ M = (a, e) # xs" by (metis neq_Nil_conv surj_pair)
    show ?thesis
    proof (cases "locked (lru_entries p e)")
      case True
      obtain wk1 p1 U1 M1 where s: "purge_round wk p = Inr (Skipped wk1 p1)" "walk_inv p1 wk1 U1 M1" "lru_entries p1 = lru_entries p"
        "lru_type p1 = lru_type p" "lru_nwalkers p1 = lru_nwalkers p" "unlocked_of (lru_entries p) U1 = unlocked_of (lru_entries p) U"
        "set (U1 @ M1) = set (U @ M)" "pw_scanned wk1 = pw_scanned wk + 1" "pw_max_scan wk1 = pw_max_scan wk"
        using purge_round_skips [OF less.prems cur sc hd True] by blast
      have "nat (pw_max_scan wk1 - pw_scanned wk1) < nat (pw_max_scan wk - pw_scanned wk)" using purge_round_scans [OF s(1)] .
      note IH = less.hyps [OF this s(2)]
      have "lru_purgeNext wk p = lru_purgeNext wk1 p1" using s(1) by (subst lru_purgeNext.simps) simp
      then show ?thesis using IH unfolding s(3-7,9) s(8) by (elim exE conjE) (rule exI conjI | assumption | simp)+
    next
      case unl: False
      then obtain V where U: "U = (a, e) # V" using hd less.prems by (cases U) (auto simp: walk_inv_def)
      obtain wk1 p1 where f: "purge_round wk p = Inr (Found e wk1 p1)" "walk_inv p1 wk1 V M"
        "lru_entries p1 = (lru_entries p)(e := clear_node (lru_type p) (lru_entries p e))" "lru_type p1 = lru_type p"
        "lru_nwalkers p1 = lru_nwalkers p" "pw_scanned wk1 = pw_scanned wk + 1" "pw_max_scan wk1 = pw_max_scan wk"
        using purge_round_finds [of p wk "(a, e)" V M] less.prems cur sc unl U by auto
      have "distinct (map snd (U @ M))" using lru_inv_distinct [of p "U @ M"] less.prems by (simp add: walk_inv_def)
      then have "snd ` set (V @ M) = snd ` set (U @ M) - {e}" using U by auto
      moreover have "lru_purgeNext wk p = Inr (Some e, wk1, p1)" using f(1) by (subst lru_purgeNext.simps) simp
      moreover have "unlocked_of (lru_entries p) U = e # unlocked_of (lru_entries p) V" using U unl by (simp add: unlocked_of_def)
      ultimately show ?thesis
        using f by (intro exI [of _ "Some e"] exI [of _ wk1] exI [of _ p1] exI [of _ V] exI [of _ M]) simp
    qed
  qed
qed

text \<open>At most \<open>n\<close> calls of the purge walker, with the entries it returned.\<close>

fun lru_purge_some :: "nat \<Rightarrow> lru_purge \<Rightarrow> lru_policy \<Rightarrow> (nat list \<times> lru_purge \<times> lru_policy) outcome" where
  "lru_purge_some 0 wk p = Inr ([], wk, p)"
| "lru_purge_some (Suc n) wk p =
     bindE (lru_purgeNext wk p) (\<lambda>(r, wk', p').
       case r of
         None \<Rightarrow> Inr ([], wk', p')
       | Some e \<Rightarrow> bindE (lru_purge_some n wk' p') (\<lambda>(es, wk'', p''). Inr (e # es, wk'', p'')))"

lemma lru_purge_some_ok:
  assumes "walk_inv p wk U M"
  shows "\<exists>R wk' p' ys. lru_purge_some n wk p = Inr (R, wk', p') \<and> lru_inv p' ys \<and> lru_nwalkers p' = lru_nwalkers p \<and>
    pw_max_scan wk' = pw_max_scan wk \<and> length R \<le> n \<and> R = take (length R) (unlocked_of (lru_entries p) U) \<and>
    (length R < n \<and> pw_scanned wk' < pw_max_scan wk' \<longrightarrow> R = unlocked_of (lru_entries p) U) \<and>
    snd ` set ys = snd ` set (U @ M) - set R"
  using assms
proof (induction n arbitrary: wk p U M)
  case 0
  then show ?case by (intro exI [of _ "[]"] exI [of _ wk] exI [of _ p] exI [of _ "U @ M"]) (simp add: walk_inv_def)
next
  case (Suc n)
  from lru_purgeNext_ok [OF Suc.prems] obtain r wk1 p1 U1 M1 where a: "lru_purgeNext wk p = Inr (r, wk1, p1)" "walk_inv p1 wk1 U1 M1"
    "lru_nwalkers p1 = lru_nwalkers p" "pw_max_scan wk1 = pw_max_scan wk" "\<forall>x. locked (lru_entries p1 x) = locked (lru_entries p x)"
    and c: "case r of
       None \<Rightarrow> unlocked_of (lru_entries p) U1 = unlocked_of (lru_entries p) U \<and> set (U1 @ M1) = set (U @ M) \<and>
         (pw_scanned wk1 < pw_max_scan wk1 \<longrightarrow> unlocked_of (lru_entries p) U = [])
     | Some e \<Rightarrow> unlocked_of (lru_entries p) U = e # unlocked_of (lru_entries p) U1 \<and>
         snd ` set (U1 @ M1) = snd ` set (U @ M) - {e}"
    by blast
  show ?case
  proof (cases r)
    case None
    then have "snd ` set (U1 @ M1) = snd ` set (U @ M)" using c by simp
    then show ?thesis
      using a c None by (intro exI [of _ "[]"] exI [of _ wk1] exI [of _ p1] exI [of _ "U1 @ M1"]) (simp add: walk_inv_def)
  next
    case (Some e)
    have un: "unlocked_of (lru_entries p1) U1 = unlocked_of (lru_entries p) U1" using a(5) by (intro unlocked_of_cong) simp
    obtain R wk2 p2 ys where b: "lru_purge_some n wk1 p1 = Inr (R, wk2, p2)" "lru_inv p2 ys" "lru_nwalkers p2 = lru_nwalkers p1"
      "pw_max_scan wk2 = pw_max_scan wk1" "length R \<le> n" "R = take (length R) (unlocked_of (lru_entries p) U1)"
      "length R < n \<and> pw_scanned wk2 < pw_max_scan wk2 \<longrightarrow> R = unlocked_of (lru_entries p) U1" "snd ` set ys = snd ` set (U1 @ M1) - set R"
      using Suc.IH [OF a(2)] unfolding un by blast
    have "snd ` set ys = snd ` set (U @ M) - set (e # R)" using b(8) c Some by auto
    then show ?thesis
      using a b c Some by (intro exI [of _ "e # R"] exI [of _ wk2] exI [of _ p2] exI [of _ ys]) simp
  qed
qed

section \<open>The LRU policy as a replacement policy\<close>

definition lru_managed :: "lru_policy \<Rightarrow> nat set" where
  "lru_managed p = {e. lnode p e \<noteq> None}"

lemma lru_managed_list: "lru_inv p xs \<Longrightarrow> lru_managed p = snd ` set xs"
  by (force simp: lru_managed_def lru_inv_def)

definition lru_repl_ok :: "(nat dlink_list \<Rightarrow> addr) \<Rightarrow> lru_policy \<Rightarrow> bool" where
  "lru_repl_ok alloc p \<longleftrightarrow> (\<exists>xs. lru_inv p xs) \<and> lru_fresh alloc \<and> lru_type p = TYPE_STORE_ENTRY"

interpretation lpol: replacement_policy "lru_repl_ok alloc" lru_managed "\<lambda>e p. repl (lru_entries p e) = None"
  "\<lambda>e. lru_add alloc e ReplNode" "\<lambda>e. lru_remove e ReplNode"
proof
  fix e s
  assume ok: "lru_repl_ok alloc s"
  then obtain xs where xs: "lru_inv s xs" "lru_fresh alloc" and t: "lru_type s = node_type ReplNode"
    by (auto simp: lru_repl_ok_def node_type_def)
  show "\<exists>s'. lru_add alloc e ReplNode s = Inr s' \<and> lru_repl_ok alloc s' \<and> lru_managed s' = insert e (lru_managed s)"
    if "repl (lru_entries s e) = None"
  proof -
    have "policy_node_data (lru_entries s e) ReplNode = Inr None" using that by (simp add: policy_node_data_def)
    then obtain s' a where a: "lru_add alloc e ReplNode s = Inr s'" "lru_inv s' (xs @ [(a, e)])" "lru_type s' = node_type ReplNode"
      using lru_add_ok [OF xs] t by blast
    then show ?thesis using xs(2) lru_managed_list [OF xs(1)] lru_managed_list [OF a(2)] by (auto simp: lru_repl_ok_def node_type_def)
  qed
  show "\<exists>s'. lru_remove e ReplNode s = Inr s' \<and> lru_repl_ok alloc s' \<and> lru_managed s' = lru_managed s - {e} \<and> repl (lru_entries s' e) = None"
    if m: "e \<in> lru_managed s"
  proof -
    obtain a where a: "(a, e) \<in> set xs" "lnode s e = Some a" using m xs(1) by (auto simp: lru_managed_def lru_inv_def)
    then obtain us vs where uv: "xs = us @ (a, e) # vs" by (meson split_list)
    have nd: "policy_node_data (lru_entries s e) ReplNode = Inr (Some a)" using a(2) t by (simp add: policy_node_data_def entry_node_def node_type_def)
    obtain s' where r: "lru_remove e ReplNode s = Inr s'" "lru_inv s' (us @ vs)" "lru_type s' = lru_type s" "policy_node_data (lru_entries s' e) ReplNode = Inr None"
      using lru_remove_ok [of s us a e vs ReplNode] xs(1) t nd uv by auto
    have "distinct (map snd xs)" using lru_inv_distinct [OF xs(1)] by blast
    then have "snd ` set (us @ vs) = snd ` set xs - {e}" using uv by auto
    then show ?thesis
      using r xs(2) t lru_managed_list [OF xs(1)] lru_managed_list [OF r(2)] by (auto simp: lru_repl_ok_def policy_node_data_def node_type_def)
  qed
qed

section \<open>Properties of the policy\<close>

text \<open>
  A purge of the LRU policy evicts the least recently used entries.  Any number of calls of the purge walker, within its limit
  of scanned entries, return a prefix of the unlocked entries in the order of the list, least recently used first, and all of
  them if fewer were returned than asked for before the limit was reached; no call fails.  Afterwards the policy holds exactly
  the other entries, its list and the entries' policy nodes agree and its counter is exact.
\<close>

theorem lru_purge_session:
  assumes "lru_inv p xs" "0 \<le> lru_nwalkers p" "lru_purgeInit max_scan p = (wk0, p0)"
  shows "\<exists>R wk p1 p2 ys. lru_purge_some n wk0 p0 = Inr (R, wk, p1) \<and> lru_purgeDone p1 = Inr p2 \<and> length R \<le> n \<and>
    R = take (length R) (unlocked_of (lru_entries p) xs) \<and>
    (length R < n \<and> pw_scanned wk < max_scan \<longrightarrow> R = unlocked_of (lru_entries p) xs) \<and>
    lru_inv p2 ys \<and> snd ` set ys = snd ` set xs - set R"
proof -
  have p0: "p0 = p\<lparr>lru_nwalkers := lru_nwalkers p + 1\<rparr>" and wk: "pw_current wk0 = first xs None" "pw_start wk0 = first xs None" "pw_max_scan wk0 = max_scan"
    using assms(1,3) by (auto simp: lru_purgeInit_def lru_inv_def dl_repr_def)
  have "walk_inv p0 wk0 xs []"
    using assms(1) wk(1,2) by (cases xs) (auto simp: walk_inv_def lru_inv_def p0)
  moreover have e: "lru_entries p0 = lru_entries p" "lru_nwalkers p0 = lru_nwalkers p + 1" by (simp_all add: p0)
  ultimately obtain R wk p1 ys where a: "lru_purge_some n wk0 p0 = Inr (R, wk, p1)" "lru_inv p1 ys"
    "lru_nwalkers p1 = lru_nwalkers p + 1" "pw_max_scan wk = max_scan" "length R \<le> n" "R = take (length R) (unlocked_of (lru_entries p) xs)"
    "length R < n \<and> pw_scanned wk < pw_max_scan wk \<longrightarrow> R = unlocked_of (lru_entries p) xs" "snd ` set ys = snd ` set (xs @ []) - set R"
    using lru_purge_some_ok [of p0 wk0 xs "[]" n] unfolding e wk(3) by blast
  let ?p = "p1\<lparr>lru_nwalkers := lru_nwalkers p1 - 1\<rparr>"
  have "lru_purgeDone p1 = Inr ?p" using a(3) assms(2) by (simp add: lru_purgeDone_def)
  moreover have "lru_inv ?p ys" using a(2) by (simp add: lru_inv_def)
  ultimately show ?thesis
    using a(1,5-8) unfolding a(4) append_Nil2
    by (intro exI [of _ R] exI [of _ wk] exI [of _ p1] exI [of _ ?p] exI [of _ ys] conjI)
qed

text \<open>A policy with an unlocked, a locked and an unlocked entry.\<close>

definition lru_entry :: "nat \<Rightarrow> addr option \<Rightarrow> policy_entry" where
  "lru_entry locks a = \<lparr>lock_count = locks, swapout_writing = False, store_pending = False, entry_special = False, key_private = False,
     entry_lastref = 7, repl = a, mem_obj = None\<rparr>"

definition sample_lru :: lru_policy where
  "sample_lru = \<lparr>lru_list = \<lparr>dl_mem = [10 \<mapsto> \<lparr>dl_data = Some 1, dl_prev = None, dl_next = Some 11\<rparr>,
         11 \<mapsto> \<lparr>dl_data = Some 2, dl_prev = Some 10, dl_next = Some 12\<rparr>, 12 \<mapsto> \<lparr>dl_data = Some 3, dl_prev = Some 11, dl_next = None\<rparr>],
       dl_head = Some 10, dl_tail = Some 12\<rparr>,
     lru_count = 3, lru_nwalkers = 0, lru_type = TYPE_STORE_ENTRY,
     lru_entries = (\<lambda>x. if x = 1 then lru_entry 0 (Some 10) else if x = 2 then lru_entry 1 (Some 11) else if x = 3 then lru_entry 0 (Some 12)
       else lru_entry 0 None)\<rparr>"

lemma sample_lru_inv: "lru_inv sample_lru [(10, 1), (11, 2), (12, 3)]"
  by (auto simp: lru_inv_def dl_repr_def sample_lru_def lru_entry_def entry_node_def final_def split: if_splits)

theorem lru_purge_session_witness:
  "\<exists>R wk p1 p2 ys. lru_purge_some 2 (fst (lru_purgeInit 100 sample_lru)) (snd (lru_purgeInit 100 sample_lru)) = Inr (R, wk, p1) \<and>
     lru_purgeDone p1 = Inr p2 \<and> R = take (length R) [1, 3] \<and> lru_inv p2 ys \<and> 2 \<in> snd ` set ys"
proof -
  have i: "lru_purgeInit 100 sample_lru = (fst (lru_purgeInit 100 sample_lru), snd (lru_purgeInit 100 sample_lru))" by simp
  have n: "0 \<le> lru_nwalkers sample_lru" by (simp add: sample_lru_def)
  have u: "unlocked_of (lru_entries sample_lru) [(10, 1), (11, 2), (12, 3)] = [1, 3]"
    by (simp add: unlocked_of_def sample_lru_def lru_entry_def locked_def)
  from lru_purge_session [OF sample_lru_inv n i, of 2] show ?thesis
    unfolding u
  proof (elim exE conjE)
    fix R wk p1 p2 ys
    assume "lru_purge_some 2 (fst (lru_purgeInit 100 sample_lru)) (snd (lru_purgeInit 100 sample_lru)) = Inr (R, wk, p1)"
      "lru_purgeDone p1 = Inr p2" "lru_inv p2 ys" and r: "R = take (length R) [1, 3]" "snd ` set ys = snd ` set [(10, 1), (11, 2), (12, 3)] - set R"
    moreover have "set R \<subseteq> set [1, 3]" by (subst r(1)) (rule set_take_subset)
    then have "2 \<in> snd ` set ys" using r(2) by auto
    ultimately show ?thesis by blast
  qed
qed

text \<open>
  The operations of the LRU policy keep its list and the entries consistent, and keep the order of use: an added entry and
  a referenced one become the last of the list, that is the most recently used, the others keeping their order; removing an
  entry takes out exactly its node, clears its policy node and gives the node's memory back.
\<close>

theorem lru_policy_operations:
  assumes "lru_fresh alloc"
  shows "(lru_inv p xs \<and> policy_node_data (lru_entries p e) node = Inr None \<and>
      (lru_type p = node_type node \<or> lru_type p = TYPE_UNKNOWN \<and> (\<forall>x. entry_node (node_type node) (lru_entries p x) = None)) \<longrightarrow>
      (\<exists>p' a. lru_add alloc e node p = Inr p' \<and> lru_inv p' (xs @ [(a, e)]))) \<and>
    (lru_inv p (xs @ (a, e) # ys) \<and> lru_type p = node_type node \<and> policy_node_data (lru_entries p e) node = Inr (Some a) \<longrightarrow>
      (\<exists>p'. lru_referenced e node p = Inr p' \<and> lru_inv p' (xs @ ys @ [(a, e)])) \<and>
      (\<exists>p'. lru_remove e node p = Inr p' \<and> lru_inv p' (xs @ ys) \<and> policy_node_data (lru_entries p' e) node = Inr None))"
proof (intro conjI impI; elim conjE)
  assume "lru_inv p xs" "policy_node_data (lru_entries p e) node = Inr None"
    "lru_type p = node_type node \<or> lru_type p = TYPE_UNKNOWN \<and> (\<forall>x. entry_node (node_type node) (lru_entries p x) = None)"
  from lru_add_ok [OF this(1) assms this(2,3)]
  show "\<exists>p' a. lru_add alloc e node p = Inr p' \<and> lru_inv p' (xs @ [(a, e)])" by blast
next
  assume i: "lru_inv p (xs @ (a, e) # ys)" "lru_type p = node_type node" "policy_node_data (lru_entries p e) node = Inr (Some a)"
  from lru_referenced_ok [OF i(1,3)] show "\<exists>p'. lru_referenced e node p = Inr p' \<and> lru_inv p' (xs @ ys @ [(a, e)])" by blast
  from lru_remove_ok [OF i]
  show "\<exists>p'. lru_remove e node p = Inr p' \<and> lru_inv p' (xs @ ys) \<and> policy_node_data (lru_entries p' e) node = Inr None" by blast
qed

theorem lru_policy_operations_witness:
  "\<exists>p'. lru_referenced 1 ReplNode sample_lru = Inr p' \<and> lru_inv p' [(11, 2), (12, 3), (10, 1)]"
proof -
  have i: "lru_inv sample_lru ([] @ (10, 1) # [(11, 2), (12, 3)])" using sample_lru_inv by simp
  have t: "lru_type sample_lru = node_type ReplNode" "policy_node_data (lru_entries sample_lru 1) ReplNode = Inr (Some 10)"
    by (simp_all add: sample_lru_def node_type_def policy_node_data_def lru_entry_def)
  have f: "lru_fresh (\<lambda>s. Suc (Max (insert 0 (dom (dl_mem s)))))"
    unfolding lru_fresh_def
  proof (intro allI impI)
    fix s :: "nat dlink_list"
    let ?a = "Suc (Max (insert 0 (dom (dl_mem s))))"
    assume "finite (dom (dl_mem s))"
    then have "?a \<le> Max (insert 0 (dom (dl_mem s)))" if "?a \<in> dom (dl_mem s)" using that by (intro Max_ge) auto
    then show "dl_mem s ?a = None" by fastforce
  qed
  from lru_policy_operations [OF f, of sample_lru "[]" 1 ReplNode 10 "[(11, 2), (12, 3)]"] i t show ?thesis by auto
qed

text \<open>
  Once the node at which a purge started has been evicted, the walker no longer recognises the end of the list: it scans the
  locked entries again and again until its limit: here it makes four scans of the two locked entries that follow the evicted one.
\<close>

lemma lru_purge_rescans:
  defines "p \<equiv> sample_lru\<lparr>lru_entries := (lru_entries sample_lru)(3 := lru_entry 1 (Some 12))\<rparr>"
  shows "\<exists>p'. lru_purge_some 2 (fst (lru_purgeInit 5 p)) (snd (lru_purgeInit 5 p)) =
    Inr ([1], \<lparr>pw_current = Some 11, pw_start = Some 10, pw_scanned = 5, pw_max_scan = 5, pw_locked = 4\<rparr>, p')"
  unfolding p_def
  by (simp add: numeral_2_eq_2 lru_purgeInit_def sample_lru_def lru_purgeNext.simps purge_round_def dl_deref_def dlinkDelete_def dlinkAddTail_def
    dl_write_opt_def dl_write_def Let_def locked_def lru_entry_def lru_setPolicyNode_def pool_free_def)

end
