(* ===== verification/Dns_Codec.thy ===== *)
theory Dns_Codec
  imports Squid_Prelude
begin

unbundle bit_operations_syntax

text \<open>
  The DNS message codec: \<^verbatim>\<open>lib/rfc1035.c\<close> with its extensions \<^verbatim>\<open>lib/rfc2671.c\<close> (the EDNS record) and
  \<^verbatim>\<open>lib/rfc3596.c\<close> (the queries Squid sends).  A \<^verbatim>\<open>char\<close> array is a list of octets of its allocated size, which may
  exceed the size \<open>sz\<close> that is passed with it; reads and writes outside the allocation are the fault
  \<open>OutOfBounds\<close>.  A C string is a list of octets without the terminating zero.  Offsets and sizes are
  mathematical: a message has at most 64 KB, and the subtractions of the source are guarded by its assertions.
  Memory from \<^verbatim>\<open>xmalloc()\<close> has unspecified content: it is the parameter \<open>garbage\<close>.
\<close>

declare bindE_cong [fundef_cong] guardE_cong [fundef_cong]

section \<open>Byte order and strings\<close>

definition htons :: "16 word \<Rightarrow> bytes" where
  "htons s = [ucast (drop_bit 8 s), ucast s]"

definition ntohs :: "bytes \<Rightarrow> 16 word" where
  "ntohs v = push_bit 8 (ucast (v ! 0)) OR ucast (v ! 1)"

definition htonl :: "32 word \<Rightarrow> bytes" where
  "htonl s = [ucast (drop_bit 24 s), ucast (drop_bit 16 s), ucast (drop_bit 8 s), ucast s]"

definition ntohl :: "bytes \<Rightarrow> 32 word" where
  "ntohl v = push_bit 24 (ucast (v ! 0)) OR push_bit 16 (ucast (v ! 1)) OR push_bit 8 (ucast (v ! 2)) OR ucast (v ! 3)"

definition read16 :: "bytes \<Rightarrow> nat \<Rightarrow> 16 word outcome" where
  "read16 buf off = bindE (read_octets buf off 2) (\<lambda>v. Inr (ntohs v))"

definition read32 :: "bytes \<Rightarrow> nat \<Rightarrow> 32 word outcome" where
  "read32 buf off = bindE (read_octets buf off 4) (\<lambda>v. Inr (ntohl v))"

text \<open>The string in a zero-terminated array.\<close>

definition c_str :: "bytes \<Rightarrow> bytes" where
  "c_str a = takeWhile (\<lambda>c. c \<noteq> 0) a"

function strtok_all :: "byte \<Rightarrow> bytes \<Rightarrow> bytes list" where
  "strtok_all d s =
     (let t = dropWhile (\<lambda>c. c = d) s
      in if t = [] then [] else takeWhile (\<lambda>c. c \<noteq> d) t # strtok_all d (dropWhile (\<lambda>c. c \<noteq> d) t))"
  by pat_completeness auto

termination
proof (relation "measure (\<lambda>(d, s). length s)")
  fix d :: byte and s t :: bytes
  assume t: "t = dropWhile (\<lambda>c. c = d) s" "t \<noteq> []"
  then have "hd t \<noteq> d" using hd_dropWhile [of "\<lambda>c. c = d" s] by simp
  then have "length (dropWhile (\<lambda>c. c \<noteq> d) t) < length t"
    using t(2) length_dropWhile_le [of _ "tl t"] by (cases t) (simp_all add: le_imp_less_Suc)
  moreover have "length t \<le> length s" unfolding t(1) by (rule length_dropWhile_le)
  ultimately show "((d, dropWhile (\<lambda>c. c \<noteq> d) t), (d, s)) \<in> measure (\<lambda>(d, s). length s)" by simp
qed simp

declare strtok_all.simps [simp del]

definition xstrncpy :: "bytes \<Rightarrow> bytes \<Rightarrow> nat \<Rightarrow> bytes outcome" where
  "xstrncpy dst src n = (if n = 0 then Inr dst else write_octets dst 0 (take (n - 1) src @ [0]))"

abbreviation dot :: byte where
  "dot \<equiv> 46"

section \<open>Messages\<close>

definition RFC1035_MAXLABELSZ :: nat where
  "RFC1035_MAXLABELSZ = 63"

definition RFC1035_MAXHOSTNAMESZ :: nat where
  "RFC1035_MAXHOSTNAMESZ = 256"

definition rfc1035_unpack_error :: int where
  "rfc1035_unpack_error = 15"

definition RFC1035_TYPE_A :: "16 word" where "RFC1035_TYPE_A = 1"

definition RFC1035_TYPE_PTR :: "16 word" where "RFC1035_TYPE_PTR = 12"

definition RFC1035_TYPE_AAAA :: "16 word" where "RFC1035_TYPE_AAAA = 28"

definition RFC1035_TYPE_OPT :: "16 word" where "RFC1035_TYPE_OPT = 41"

definition RFC1035_CLASS_IN :: "16 word" where "RFC1035_CLASS_IN = 1"

record rfc1035_rr =
  rr_name :: bytes
  rr_type :: "16 word"
  rr_class :: "16 word"
  rr_ttl :: "32 word"
  rr_rdlength :: "16 word"
  rr_rdata :: "bytes option"

record rfc1035_query =
  q_name :: bytes
  q_type :: "16 word"
  q_class :: "16 word"

record rfc1035_message =
  msg_id :: "16 word"
  msg_qr :: "1 word"
  msg_opcode :: "4 word"
  msg_aa :: "1 word"
  msg_tc :: "1 word"
  msg_rd :: "1 word"
  msg_ra :: "1 word"
  msg_rcode :: "4 word"
  msg_qdcount :: "16 word"
  msg_ancount :: "16 word"
  msg_nscount :: "16 word"
  msg_arcount :: "16 word"
  msg_query :: "rfc1035_query list option"
  msg_answer :: "rfc1035_rr list option"

text \<open>Structures filled with zeros, as \<^verbatim>\<open>memset()\<close> and \<^verbatim>\<open>xcalloc()\<close> leave them.\<close>

definition zero_rr :: rfc1035_rr where
  "zero_rr = \<lparr>rr_name = replicate RFC1035_MAXHOSTNAMESZ 0, rr_type = 0, rr_class = 0, rr_ttl = 0, rr_rdlength = 0, rr_rdata = None\<rparr>"

definition zero_query :: rfc1035_query where
  "zero_query = \<lparr>q_name = replicate RFC1035_MAXHOSTNAMESZ 0, q_type = 0, q_class = 0\<rparr>"

definition zero_message :: rfc1035_message where
  "zero_message = \<lparr>msg_id = 0, msg_qr = 0, msg_opcode = 0, msg_aa = 0, msg_tc = 0, msg_rd = 0, msg_ra = 0, msg_rcode = 0,
     msg_qdcount = 0, msg_ancount = 0, msg_nscount = 0, msg_arcount = 0, msg_query = None, msg_answer = None\<rparr>"

section \<open>Packing\<close>

text \<open>The packing routines write at \<open>buf + pos\<close>, where \<open>sz\<close> octets are left; they return the buffer and the number of octets packed.\<close>

definition rfc1035HeaderPack :: "bytes \<Rightarrow> nat \<Rightarrow> nat \<Rightarrow> rfc1035_message \<Rightarrow> (bytes \<times> nat) outcome" where
  "rfc1035HeaderPack buf pos sz hdr =
     guardE (sz \<ge> 12) AssertFault
       (let t = push_bit 15 (ucast (msg_qr hdr)) OR push_bit 11 (ucast (msg_opcode hdr)) OR push_bit 10 (ucast (msg_aa hdr)) OR
                push_bit 9 (ucast (msg_tc hdr)) OR push_bit 8 (ucast (msg_rd hdr)) OR push_bit 7 (ucast (msg_ra hdr)) OR
                ucast (msg_rcode hdr)
        in bindE (write_all buf pos [htons (msg_id hdr), htons t, htons (msg_qdcount hdr), htons (msg_ancount hdr),
                                     htons (msg_nscount hdr), htons (msg_arcount hdr)])
             (\<lambda>buf. Inr (buf, 12)))"

definition rfc1035LabelPack :: "bytes \<Rightarrow> nat \<Rightarrow> nat \<Rightarrow> bytes option \<Rightarrow> (bytes \<times> nat) outcome" where
  "rfc1035LabelPack buf pos sz label =
     (let l = (case label of None \<Rightarrow> [] | Some s \<Rightarrow> s)
      in guardE (dot \<notin> set l) AssertFault
           (let len = (if length l > RFC1035_MAXLABELSZ then RFC1035_MAXLABELSZ else length l)
            in guardE (sz \<ge> len + 1) AssertFault
                 (bindE (write_all buf pos [[of_nat len], take len l]) (\<lambda>buf. Inr (buf, len + 1)))))"

fun pack_labels :: "bytes \<Rightarrow> nat \<Rightarrow> nat \<Rightarrow> nat \<Rightarrow> bytes list \<Rightarrow> (bytes \<times> nat) outcome" where
  "pack_labels buf pos sz off [] = Inr (buf, off)"
| "pack_labels buf pos sz off (t # ts) =
     bindE (rfc1035LabelPack buf (pos + off) (sz - off) (Some t)) (\<lambda>(buf, n). pack_labels buf pos sz (off + n) ts)"

definition rfc1035NamePack :: "bytes \<Rightarrow> nat \<Rightarrow> nat \<Rightarrow> bytes \<Rightarrow> (bytes \<times> nat) outcome" where
  "rfc1035NamePack buf pos sz name =
     bindE (pack_labels buf pos sz 0 (strtok_all dot name)) (\<lambda>(buf, off).
     bindE (rfc1035LabelPack buf (pos + off) (sz - off) None) (\<lambda>(buf, n).
     guardE (off + n \<le> sz) AssertFault (Inr (buf, off + n))))"

definition rfc1035QuestionPack :: "bytes \<Rightarrow> nat \<Rightarrow> nat \<Rightarrow> bytes \<Rightarrow> 16 word \<Rightarrow> 16 word \<Rightarrow> (bytes \<times> nat) outcome" where
  "rfc1035QuestionPack buf pos sz name ty cl =
     bindE (rfc1035NamePack buf pos sz name) (\<lambda>(buf, off).
     bindE (write_all buf (pos + off) [htons ty, htons cl]) (\<lambda>buf.
     guardE (off + 4 \<le> sz) AssertFault (Inr (buf, off + 4))))"

text \<open>\<open>rdata_octets\<close> are the octets that the member \<^verbatim>\<open>rdata\<close> itself occupies, up to the end of the structure: the
  source copies from the address of the pointer.\<close>

definition rfc1035RRPack :: "bytes \<Rightarrow> bytes \<Rightarrow> nat \<Rightarrow> nat \<Rightarrow> rfc1035_rr \<Rightarrow> (bytes \<times> nat) outcome" where
  "rfc1035RRPack rdata_octets buf pos sz RR =
     bindE (rfc1035NamePack buf pos sz (c_str (rr_name RR))) (\<lambda>(buf, off).
     if off + 10 + unat (rr_rdlength RR) > sz then Inr (buf, 0)
     else
       bindE (write_all buf (pos + off) [htons (rr_type RR), htons (rr_class RR), htonl (rr_ttl RR), htons (rr_rdlength RR)]) (\<lambda>buf.
       bindE (read_octets rdata_octets 0 (unat (rr_rdlength RR))) (\<lambda>v.
       bindE (write_octets buf (pos + off + 10) v) (\<lambda>buf.
       guardE (off + 10 + unat (rr_rdlength RR) \<le> sz) AssertFault (Inr (buf, off + 10 + unat (rr_rdlength RR)))))))"

text \<open>\<open>rcvbuf\<close> is the configured \<^verbatim>\<open>SQUID_UDP_SO_RCVBUF\<close>.\<close>

definition rfc2671RROptPack :: "int \<Rightarrow> bytes \<Rightarrow> bytes \<Rightarrow> nat \<Rightarrow> nat \<Rightarrow> int \<Rightarrow> (bytes \<times> nat) outcome" where
  "rfc2671RROptPack rcvbuf rdata_octets buf pos sz edns_sz =
     rfc1035RRPack rdata_octets buf pos sz
       \<lparr>rr_name = dot # replicate (RFC1035_MAXHOSTNAMESZ - 1) 0, rr_type = RFC1035_TYPE_OPT, rr_class = of_int (min edns_sz (rcvbuf - 1)), rr_ttl = 0,
        rr_rdlength = 0, rr_rdata = None\<rparr>"

section \<open>Queries\<close>

definition query_header :: "16 word \<Rightarrow> int \<Rightarrow> rfc1035_message" where
  "query_header qid edns_sz =
     zero_message\<lparr>msg_id := qid, msg_qr := 0, msg_rd := 1, msg_opcode := 0, msg_qdcount := 1,
       msg_arcount := (if edns_sz > 0 then 1 else 0)\<rparr>"

definition rfc3596BuildHostQuery ::
  "int \<Rightarrow> bytes \<Rightarrow> bytes \<Rightarrow> bytes \<Rightarrow> nat \<Rightarrow> 16 word \<Rightarrow> rfc1035_query option \<Rightarrow> 16 word \<Rightarrow> int \<Rightarrow>
   (bytes \<times> rfc1035_query option \<times> nat) outcome" where
  "rfc3596BuildHostQuery rcvbuf rdata_octets hostname buf sz qid query qtype edns_sz =
     bindE (rfc1035HeaderPack buf 0 sz (query_header qid edns_sz)) (\<lambda>(buf, offset0).
     bindE (rfc1035QuestionPack buf offset0 (sz - offset0) hostname qtype RFC1035_CLASS_IN) (\<lambda>(buf, n).
     let offset1 = offset0 + n in
     bindE (if edns_sz > 0 then rfc2671RROptPack rcvbuf rdata_octets buf offset1 (sz - offset1) edns_sz else Inr (buf, 0)) (\<lambda>(buf, k).
     let offset2 = offset1 + k in
     bindE (case query of
              None \<Rightarrow> Inr None
            | Some q \<Rightarrow> bindE (xstrncpy (q_name q) hostname RFC1035_MAXHOSTNAMESZ) (\<lambda>nm.
                Inr (Some (q\<lparr>q_type := qtype, q_class := RFC1035_CLASS_IN, q_name := nm\<rparr>)))) (\<lambda>query.
     guardE (offset2 \<le> sz) AssertFault (Inr (buf, query, offset2))))))"

definition rfc3596BuildAQuery where
  "rfc3596BuildAQuery rcvbuf rdata_octets hostname buf sz qid query edns_sz =
     rfc3596BuildHostQuery rcvbuf rdata_octets hostname buf sz qid query RFC1035_TYPE_A edns_sz"

definition rfc3596BuildAAAAQuery where
  "rfc3596BuildAAAAQuery rcvbuf rdata_octets hostname buf sz qid query edns_sz =
     rfc3596BuildHostQuery rcvbuf rdata_octets hostname buf sz qid query RFC1035_TYPE_AAAA edns_sz"

definition octets_of :: "string \<Rightarrow> bytes" where
  "octets_of s = map (\<lambda>c. of_nat (of_char c)) s"

text \<open>The name of an IPv4 address in the reverse tree; \<open>i\<close> is the address in host order.\<close>

definition rev_name4 :: "32 word \<Rightarrow> bytes" where
  "rev_name4 i =
     octets_of (decimal (unat (i AND 255)) @ ''.'' @ decimal (unat (drop_bit 8 i AND 255)) @ ''.'' @
                decimal (unat (drop_bit 16 i AND 255)) @ ''.'' @ decimal (unat (drop_bit 24 i AND 255)) @ ''.in-addr.arpa.'')"

definition rfc3596BuildPTRQuery4 where
  "rfc3596BuildPTRQuery4 rcvbuf rdata_octets addr buf sz qid query edns_sz =
     rfc3596BuildHostQuery rcvbuf rdata_octets (rev_name4 addr) buf sz qid query RFC1035_TYPE_PTR edns_sz"

text \<open>The octets of an IPv6 address, last first, as two hexadecimal digits each, low digit first.\<close>

definition hex_digit :: "byte \<Rightarrow> byte" where
  "hex_digit n = (if n < 10 then 48 + n else 87 + n)"

fun rev_nibbles :: "bytes \<Rightarrow> nat \<Rightarrow> bytes" where
  "rev_nibbles r 0 = []"
| "rev_nibbles r (Suc i) = [hex_digit (r ! i AND 0xF), dot, hex_digit (drop_bit 4 (r ! i) AND 0xF), dot] @ rev_nibbles r i"

definition rev_name6 :: "bytes \<Rightarrow> bytes" where
  "rev_name6 addr = rev_nibbles addr 16 @ octets_of ''ip6.arpa.''"

definition rfc3596BuildPTRQuery6 where
  "rfc3596BuildPTRQuery6 rcvbuf rdata_octets addr buf sz qid query edns_sz =
     rfc3596BuildHostQuery rcvbuf rdata_octets (rev_name6 addr) buf sz qid query RFC1035_TYPE_PTR edns_sz"

text \<open>The queries of \<^verbatim>\<open>lib/rfc1035.c\<close> itself, which Squid no longer sends.\<close>

definition rfc1035BuildAQuery where
  "rfc1035BuildAQuery rcvbuf rdata_octets hostname buf sz qid query edns_sz =
     rfc3596BuildHostQuery rcvbuf rdata_octets hostname buf sz qid query RFC1035_TYPE_A edns_sz"

definition rfc1035BuildPTRQuery where
  "rfc1035BuildPTRQuery rcvbuf rdata_octets addr buf sz qid query edns_sz =
     rfc3596BuildHostQuery rcvbuf rdata_octets (rev_name4 addr) buf sz qid query RFC1035_TYPE_PTR edns_sz"

definition rfc1035SetQueryID :: "bytes \<Rightarrow> 16 word \<Rightarrow> bytes outcome" where
  "rfc1035SetQueryID buf qid = write_octets buf 0 (htons qid)"

section \<open>Unpacking\<close>

text \<open>The result of an unpacking routine holds 0 for success and 1 for an error, as in the source, and the new offset.\<close>

definition rfc1035HeaderUnpack :: "bytes \<Rightarrow> nat \<Rightarrow> nat \<Rightarrow> rfc1035_message \<Rightarrow> (nat \<times> nat \<times> rfc1035_message) outcome" where
  "rfc1035HeaderUnpack buf sz off h =
     guardE (off = 0) AssertFault
       (if sz < 12 then Inr (1, off, h)
        else
          bindE (read16 buf off) (\<lambda>s0. bindE (read16 buf (off + 2)) (\<lambda>t. bindE (read16 buf (off + 4)) (\<lambda>s2.
          bindE (read16 buf (off + 6)) (\<lambda>s3. bindE (read16 buf (off + 8)) (\<lambda>s4. bindE (read16 buf (off + 10)) (\<lambda>s5.
          Inr (0, off + 12,
            h\<lparr>msg_id := s0, msg_qr := ucast (drop_bit 15 t AND 1), msg_opcode := ucast (drop_bit 11 t AND 0xF),
              msg_aa := ucast (drop_bit 10 t AND 1), msg_tc := ucast (drop_bit 9 t AND 1), msg_rd := ucast (drop_bit 8 t AND 1),
              msg_ra := ucast (drop_bit 7 t AND 1), msg_rcode := ucast (t AND 0xF), msg_qdcount := s2, msg_ancount := s3,
              msg_nscount := s4, msg_arcount := s5\<rparr>))))))))"

text \<open>The end of a name: the last dot, or the first octet of an empty name, becomes the terminator.\<close>

definition end_name :: "nat \<Rightarrow> 16 word option \<Rightarrow> bytes \<Rightarrow> nat \<Rightarrow> nat \<Rightarrow> nat \<Rightarrow> (nat \<times> nat \<times> 16 word option \<times> bytes) outcome" where
  "end_name off rdl name base ns no =
     bindE (write_octets name (if no \<noteq> 0 then base + no - 1 else base) [0]) (\<lambda>name.
     guardE (no \<le> ns) AssertFault (Inr (0, off, rdl, name)))"

text \<open>
  The loop of \<^verbatim>\<open>rfc1035NameUnpack()\<close>, which calls itself for a compression pointer.  The caller's array is \<open>name\<close>, the
  position the routine was given in it is \<open>base\<close>; \<open>rdl\<close> is the counter \<^verbatim>\<open>*rdlength\<close>, if there is one.
\<close>

function name_loop ::
  "bytes \<Rightarrow> nat \<Rightarrow> nat \<Rightarrow> nat \<Rightarrow> 16 word option \<Rightarrow> bytes \<Rightarrow> nat \<Rightarrow> nat \<Rightarrow> nat \<Rightarrow> (nat \<times> nat \<times> 16 word option \<times> bytes) outcome" where
  "name_loop buf sz rdepth off rdl name base ns no =
     (if off \<ge> sz then Inr (1, off, rdl, name)
      else bindE (read_octets buf off 1) (\<lambda>v. let c = unat (v ! 0) in
        if c > 191 then
          (if rdepth > 64 then Inr (1, off, rdl, name)
           else bindE (read16 buf off) (\<lambda>s.
             if off + 2 > sz then Inr (1, off + 2, rdl, name)
             else let ptr = unat (s AND 0x3FFF) in
               if ptr \<ge> sz then Inr (1, off + 2, rdl, name)
               else guardE (ns - no > 0) AssertFault
                 (bindE (name_loop buf sz (rdepth + 1) ptr rdl name (base + no) (ns - no) 0)
                   (\<lambda>(r, off', rdl, name). Inr (r, off + 2, rdl, name)))))
        else if c > RFC1035_MAXLABELSZ then Inr (1, off, rdl, name)
        else let off = off + 1; len = c in
          if len = 0 then end_name off rdl name base ns no
          else if len > ns - no - 1 then Inr (1, off, rdl, name)
          else if off + len \<ge> sz then Inr (1, off, rdl, name)
          else bindE (read_octets buf off len) (\<lambda>v. bindE (write_all name (base + no) [v, [dot]]) (\<lambda>name.
            let off = off + len; no = no + len + 1; rdl = map_option (\<lambda>r. r + of_nat (len + 1)) rdl in
            if no < ns then name_loop buf sz rdepth off rdl name base ns no else end_name off rdl name base ns no))))"
  by pat_completeness auto

termination
  by (relation "measures [\<lambda>(buf, sz, rdepth, off, rdl, name, base, ns, no). 65 - rdepth,
    \<lambda>(buf, sz, rdepth, off, rdl, name, base, ns, no). sz - off]") auto

declare name_loop.simps [simp del]

definition rfc1035NameUnpack ::
  "bytes \<Rightarrow> nat \<Rightarrow> nat \<Rightarrow> 16 word option \<Rightarrow> bytes \<Rightarrow> nat \<Rightarrow> (nat \<times> nat \<times> 16 word option \<times> bytes) outcome" where
  "rfc1035NameUnpack buf sz off rdlength name ns =
     guardE (ns > 0) AssertFault (name_loop buf sz 0 off rdlength name 0 ns 0)"

definition rfc1035QueryUnpack :: "bytes \<Rightarrow> nat \<Rightarrow> nat \<Rightarrow> rfc1035_query \<Rightarrow> (nat \<times> nat \<times> rfc1035_query) outcome" where
  "rfc1035QueryUnpack buf sz off query =
     bindE (rfc1035NameUnpack buf sz off None (q_name query) RFC1035_MAXHOSTNAMESZ) (\<lambda>(r, off, rdl, nm).
     if r \<noteq> 0 then Inr (1, off, zero_query)
     else if off + 4 > sz then Inr (1, off, zero_query)
     else bindE (read16 buf off) (\<lambda>ty. bindE (read16 buf (off + 2)) (\<lambda>cl.
       Inr (0, off + 4, query\<lparr>q_name := nm, q_type := ty, q_class := cl\<rparr>))))"

text \<open>The name in the data of a PTR record, unpacked into a new array.\<close>

definition unpack_ptr :: "(nat \<Rightarrow> bytes) \<Rightarrow> bytes \<Rightarrow> nat \<Rightarrow> nat \<Rightarrow> nat \<Rightarrow> rfc1035_rr \<Rightarrow> (nat \<times> rfc1035_rr) outcome" where
  "unpack_ptr garbage buf sz off rdlength RR =
     bindE (rfc1035NameUnpack buf sz off (Some 0) (garbage RFC1035_MAXHOSTNAMESZ) RFC1035_MAXHOSTNAMESZ) (\<lambda>(r, rdata_off, rdl, nm).
     let RR = RR\<lparr>rr_rdata := Some nm, rr_rdlength := (case rdl of Some l \<Rightarrow> l | None \<Rightarrow> 0)\<rparr> in
     if r \<noteq> 0 then Inr (1, RR)
     else if rdata_off > off + rdlength then Inr (1, zero_rr)
     else Inr (0, RR))"

definition rfc1035RRUnpack :: "(nat \<Rightarrow> bytes) \<Rightarrow> bytes \<Rightarrow> nat \<Rightarrow> nat \<Rightarrow> rfc1035_rr \<Rightarrow> (nat \<times> nat \<times> rfc1035_rr) outcome" where
  "rfc1035RRUnpack garbage buf sz off RR =
     bindE (rfc1035NameUnpack buf sz off None (rr_name RR) RFC1035_MAXHOSTNAMESZ) (\<lambda>(r, off, rdl, nm).
     if r \<noteq> 0 then Inr (1, off, zero_rr)
     else if off + 10 > sz then Inr (1, off, zero_rr)
     else bindE (read16 buf off) (\<lambda>ty. bindE (read16 buf (off + 2)) (\<lambda>cl. bindE (read32 buf (off + 4)) (\<lambda>ttl.
       bindE (read16 buf (off + 8)) (\<lambda>rdl.
       let off = off + 10; rdlength = unat rdl in
       if off + rdlength > sz then Inr (1, off, zero_rr)
       else
         let RR = RR\<lparr>rr_name := nm, rr_type := ty, rr_class := cl, rr_ttl := ttl, rr_rdlength := rdl\<rparr> in
         bindE (if ty = RFC1035_TYPE_PTR then unpack_ptr garbage buf sz off rdlength RR
                else bindE (read_octets buf off rdlength) (\<lambda>v. Inr (0, RR\<lparr>rr_rdata := Some v\<rparr>))) (\<lambda>(r, RR).
         if r \<noteq> 0 then Inr (1, off, RR)
         else guardE (off + rdlength \<le> sz) AssertFault (Inr (0, off + rdlength, RR))))))))"

text \<open>The loop over the answers: \<open>n\<close> are left to unpack and \<open>recs\<close> is the array, of which the first \<open>j\<close> are filled.\<close>

fun answer_loop :: "(nat \<Rightarrow> bytes) \<Rightarrow> bytes \<Rightarrow> nat \<Rightarrow> nat \<Rightarrow> nat \<Rightarrow> nat \<Rightarrow> rfc1035_rr list \<Rightarrow> (nat \<times> rfc1035_rr list) outcome" where
  "answer_loop garbage buf sz off 0 j recs = Inr (j, recs)"
| "answer_loop garbage buf sz off (Suc n) j recs =
     (if off \<ge> sz then Inr (j, recs)
      else bindE (rfc1035RRUnpack garbage buf sz off (recs ! j)) (\<lambda>(r, off, RR).
        if r \<noteq> 0 then Inr (j, recs[j := RR]) else answer_loop garbage buf sz off n (j + 1) (recs[j := RR])))"

text \<open>The result is the returned number and what \<^verbatim>\<open>*answer\<close> holds afterwards, null if nothing was stored.\<close>

definition rfc1035MessageUnpack :: "(nat \<Rightarrow> bytes) \<Rightarrow> bytes \<Rightarrow> nat \<Rightarrow> (int \<times> rfc1035_message option) outcome" where
  "rfc1035MessageUnpack garbage buf sz =
     bindE (rfc1035HeaderUnpack buf sz 0 zero_message) (\<lambda>(r, off, msg).
     if r \<noteq> 0 then Inr (- rfc1035_unpack_error, None)
     else if msg_qdcount msg \<noteq> 1 then Inr (- rfc1035_unpack_error, None)
     else bindE (rfc1035QueryUnpack buf sz off zero_query) (\<lambda>(r, off, q).
       if r \<noteq> 0 then Inr (- rfc1035_unpack_error, None)
       else
         let msg = msg\<lparr>msg_query := Some [q]\<rparr> in
         if msg_rcode msg \<noteq> 0 then Inr (- uint (msg_rcode msg), Some msg)
         else if msg_ancount msg = 0 then Inr (0, Some msg)
         else bindE (answer_loop garbage buf sz off (unat (msg_ancount msg)) 0 (replicate (unat (msg_ancount msg)) zero_rr)) (\<lambda>(nr, recs).
           if nr = 0 then Inr (- rfc1035_unpack_error, None)
           else Inr (int nr, Some (msg\<lparr>msg_answer := Some recs\<rparr>)))))"

section \<open>Comparing questions\<close>

definition to_lower :: "byte \<Rightarrow> byte" where
  "to_lower c = (if 65 \<le> c \<and> c \<le> 90 then c + 32 else c)"

text \<open>\<^verbatim>\<open>strncasecmp()\<close> in the C locale: the difference at the first place where the strings differ, up to their ends and
  at most \<open>n\<close> octets.\<close>

fun strncasecmp :: "bytes \<Rightarrow> bytes \<Rightarrow> nat \<Rightarrow> int" where
  "strncasecmp a b 0 = 0"
| "strncasecmp [] [] (Suc n) = 0"
| "strncasecmp [] (y # b) (Suc n) = - uint (to_lower y)"
| "strncasecmp (x # a) [] (Suc n) = uint (to_lower x)"
| "strncasecmp (x # a) (y # b) (Suc n) =
     (if to_lower x \<noteq> to_lower y then uint (to_lower x) - uint (to_lower y) else strncasecmp a b n)"

text \<open>The length of a name without its trailing dots.\<close>

fun trim_dots :: "bytes \<Rightarrow> nat \<Rightarrow> nat" where
  "trim_dots a 0 = 0"
| "trim_dots a (Suc la) = (if a ! la = dot then trim_dots a la else Suc la)"

definition rfc1035QueryCompare :: "rfc1035_query \<Rightarrow> rfc1035_query \<Rightarrow> int" where
  "rfc1035QueryCompare a b =
     (if q_type a \<noteq> q_type b then 1
      else if q_class a \<noteq> q_class b then 1
      else let na = c_str (q_name a); nb = c_str (q_name b);
               la = (if length na \<noteq> length nb then trim_dots na (length na) else length na);
               lb = (if length na \<noteq> length nb then trim_dots nb (length nb) else length nb)
        in if la \<noteq> lb then 1 else strncasecmp na nb la)"

end
