(* ===== verification/Dns_Messages.thy ===== *)
theory Dns_Messages
  imports Dns_Codec
begin

text \<open>
  Correctness of the DNS codec.  The names of a message are specified by the relation \<open>name_at\<close>, which reads labels and
  follows compression pointers; the unpacking routine is compared with it.  Then: unpacking any message is free of faults
  and fills its structures consistently, and what a query packs is what unpacking a reply to it finds.
\<close>

section \<open>Octets\<close>

lemma ntohs_htons [simp]: "ntohs (htons s) = s"
  unfolding ntohs_def htons_def
  by (rule bit_word_eqI) (auto simp: bit_simps not_less le_Suc_ex dest: bit_imp_le_length)

lemma length_htons [simp]: "length (htons s) = 2" "length (htonl l) = 4"
  by (simp_all add: htons_def htonl_def)

section \<open>The names of a message\<close>

text \<open>
  \<open>name_at buf sz off d ls e\<close>: at offset \<open>off\<close> of the message of \<open>sz\<close> octets stands a name with the labels \<open>ls\<close>, read through
  \<open>d\<close> compression pointers; the octets after the name start at \<open>e\<close>.
\<close>

inductive name_at :: "bytes \<Rightarrow> nat \<Rightarrow> nat \<Rightarrow> nat \<Rightarrow> bytes list \<Rightarrow> nat \<Rightarrow> bool" for buf :: bytes and sz :: nat where
  root: "off < sz \<Longrightarrow> buf ! off = 0 \<Longrightarrow> name_at buf sz off 0 [] (off + 1)"
| label: "unat (buf ! off) = len \<Longrightarrow> 0 < len \<Longrightarrow> len \<le> 63 \<Longrightarrow> off + 1 + len < sz \<Longrightarrow>
    name_at buf sz (off + 1 + len) d ls e \<Longrightarrow> name_at buf sz off d (bytes_at buf (off + 1) len # ls) e"
| pointer: "unat (buf ! off) > 191 \<Longrightarrow> off + 2 \<le> sz \<Longrightarrow> p = unat (ntohs (bytes_at buf off 2) AND 0x3FFF) \<Longrightarrow> p < sz \<Longrightarrow>
    name_at buf sz p d ls e \<Longrightarrow> name_at buf sz off (Suc d) ls (off + 2)"

definition dotted :: "bytes list \<Rightarrow> bytes" where
  "dotted ls = concat (map (\<lambda>l. l @ [dot]) ls)"

lemma dotted_simps [simp]: "dotted [] = []" "dotted (l # ls) = l @ dot # dotted ls"
  by (simp_all add: dotted_def)

text \<open>The array holds the text, with the terminator in the place of the last dot or after it.\<close>

definition ended :: "bytes \<Rightarrow> bytes \<Rightarrow> bool" where
  "ended a t \<longleftrightarrow> take (length t) a = butlast t @ [0] \<or> take (length t + 1) a = t @ [0]"

lemma ended_terminated: "ended a t \<Longrightarrow> 0 \<in> set a"
  unfolding ended_def by (metis in_set_conv_decomp in_set_takeD)

text \<open>One step of the unpacking loop where no access is out of bounds.\<close>

lemma name_loop_step:
  assumes "sz \<le> length buf" "no < ns" "base + ns \<le> length name"
    and over: "off < sz \<Longrightarrow> unat (buf ! off) > 191 \<Longrightarrow> rdepth \<le> 64 \<Longrightarrow> off + 2 \<le> length buf"
    and c: "c = unat (buf ! off)" and p: "p = unat (ntohs (bytes_at buf off 2) AND 0x3FFF)"
    and name1: "name1 = memcpy_at name (base + no) (bytes_at buf (off + 1) c @ [dot])"
  shows "name_loop buf sz rdepth off rdl name base ns no =
    (if sz \<le> off then Inr (1, off, rdl, name)
     else if 191 < c then
       (if 64 < rdepth then Inr (1, off, rdl, name)
        else if off + 2 > sz \<or> p \<ge> sz then Inr (1, off + 2, rdl, name)
        else bindE (name_loop buf sz (rdepth + 1) p rdl name (base + no) (ns - no) 0) (\<lambda>(r, off', rdl, name). Inr (r, off + 2, rdl, name)))
     else if 63 < c then Inr (1, off, rdl, name)
     else if c = 0 then Inr (0, off + 1, rdl, memcpy_at name (if no \<noteq> 0 then base + no - 1 else base) [0])
     else if ns - no - 1 < c \<or> sz \<le> off + 1 + c then Inr (1, off + 1, rdl, name)
     else if no + c + 1 < ns then
       name_loop buf sz rdepth (off + 1 + c) (map_option (\<lambda>r. r + of_nat (c + 1)) rdl) name1 base ns (no + c + 1)
     else Inr (0, off + 1 + c, map_option (\<lambda>r. r + of_nat (c + 1)) rdl, memcpy_at name1 (base + no + c) [0]))"
proof -
  have e: "end_name o' r nm base ns k = Inr (0, o', r, memcpy_at nm (if k \<noteq> 0 then base + k - 1 else base) [0])"
    if "k \<le> ns" "length nm = length name" for o' r nm k
    using that assms(2,3) by (auto simp: end_name_def write_octets_def)
  show ?thesis
  proof (cases "sz \<le> off")
    case True
    then show ?thesis by (subst name_loop.simps) simp
  next
    case False
    then have r: "read_octets buf off 1 = Inr [buf ! off]"
      using assms(1) by (simp add: read_octets_def bytes_at_1)
    consider "191 < c" | "63 < c" "c \<le> 191" | "c = 0" | "0 < c" "c \<le> 63" by linarith
    then show ?thesis
    proof cases
      case 1
      then have "read16 buf off = Inr (ntohs (bytes_at buf off 2))" if "rdepth \<le> 64"
        using over False that c by (simp add: read16_def read_octets_def)
      then show ?thesis
        using 1 False r c p assms(2) by (subst name_loop.simps) (auto simp: Let_def)
    next
      case 2
      then show ?thesis using False r c by (subst name_loop.simps) (simp add: Let_def RFC1035_MAXLABELSZ_def)
    next
      case 3
      then show ?thesis using False r c e [of no name "off + 1" rdl] assms(2)
        by (subst name_loop.simps) (simp add: Let_def RFC1035_MAXLABELSZ_def)
    next
      case 4
      show ?thesis
      proof (cases "ns - no - 1 < c \<or> sz \<le> off + 1 + c")
        case True
        then show ?thesis using 4 False r c by (subst name_loop.simps) (auto simp: Let_def RFC1035_MAXLABELSZ_def)
      next
        case fits: False
        then have rd: "read_octets buf (off + 1) c = Inr (bytes_at buf (off + 1) c)" "length (bytes_at buf (off + 1) c) = c"
          using assms(1) by (auto simp: read_octets_def min_def)
        have w: "write_all name (base + no) [bytes_at buf (off + 1) c, [dot]] = Inr name1" "length name1 = length name"
          using fits assms(2,3) rd(2) write_all_memcpy [of "base + no" "[bytes_at buf (off + 1) c, [dot]]" name]
          by (auto simp: name1 simp del: write_all.simps)
        have e1: "end_name o' r name1 base ns (no + c + 1) = Inr (0, o', r, memcpy_at name1 (base + no + c) [0])" for o' r
        proof -
          have "no + c + 1 \<le> ns" using fits assms(2) by linarith
          then show ?thesis using e [of "no + c + 1" name1, OF _ w(2)] by (simp add: add.assoc)
        qed
        show ?thesis using 4 False r c fits rd w(1) e1
          by (subst name_loop.simps) (auto simp: Let_def RFC1035_MAXLABELSZ_def add.assoc)
      qed
    qed
  qed
qed

lemma label_copied:
  assumes "off + 1 + c < sz" "sz \<le> length buf" "pos + c + 1 \<le> length name"
    and name1: "name1 = memcpy_at name pos (bytes_at buf (off + 1) c @ [dot])"
  shows "length (bytes_at buf (off + 1) c) = c" "length name1 = length name"
    "take (pos + c + 1) name1 = take pos name @ bytes_at buf (off + 1) c @ [dot]"
proof -
  show l: "length (bytes_at buf (off + 1) c) = c" using assms(1,2) by simp
  show "length name1 = length name" "take (pos + c + 1) name1 = take pos name @ bytes_at buf (off + 1) c @ [dot]"
    using assms(3) l take_memcpy_at [of pos "bytes_at buf (off + 1) c @ [dot]" name] by (simp_all add: name1 add.assoc)
qed

text \<open>Where a name stands, the loop reads it.\<close>

lemma name_loop_reads:
  assumes "name_at buf sz off d ls e" "sz \<le> length buf" "rdepth + d \<le> 65" "no + length (dotted ls) < ns" "base + ns \<le> length name"
  shows "\<exists>rdl' name'. name_loop buf sz rdepth off rdl name base ns no = Inr (0, e, rdl', name') \<and>
    length name' = length name \<and> ended name' (take (base + no) name @ dotted ls) \<and>
    (d = 0 \<and> (no \<noteq> 0 \<or> ls \<noteq> []) \<longrightarrow>
       take (base + no + length (dotted ls)) name' = butlast (take (base + no) name @ dotted ls) @ [0])"
  using assms
proof (induction arbitrary: rdepth rdl name base ns no rule: name_at.induct)
  case (root off)
  then have st: "name_loop buf sz rdepth off rdl name base ns no =
    Inr (0, off + 1, rdl, memcpy_at name (if no \<noteq> 0 then base + no - 1 else base) [0])"
    by (subst name_loop_step [OF _ _ _ _ refl refl refl]) auto
  show ?case
  proof (cases no)
    case 0
    then have "take (base + 1) (memcpy_at name base [0]) = take base name @ [0]"
      using root.prems take_memcpy_at [of base "[0]" name] by simp
    then show ?thesis using 0 st root.prems by (simp add: ended_def)
  next
    case (Suc k)
    then have "take (base + no) (memcpy_at name (base + k) [0]) = take (base + k) name @ [0]"
      using root.prems take_memcpy_at [of "base + k" "[0]" name] by simp
    moreover have "butlast (take (base + no) name) = take (base + k) name" using Suc root.prems by (simp add: butlast_take)
    ultimately show ?thesis using Suc st root.prems by (simp add: ended_def min_def)
  qed
next
  case (label off len d ls e)
  define name1 where "name1 = memcpy_at name (base + no) (bytes_at buf (off + 1) len @ [dot])"
  have "off + 1 + len < sz" "sz \<le> length buf" "base + no + len + 1 \<le> length name"
    using label.prems label.hyps by simp_all
  note lb = label_copied [OF this name1_def]
  have st: "name_loop buf sz rdepth off rdl name base ns no =
    name_loop buf sz rdepth (off + 1 + len) (map_option (\<lambda>r. r + of_nat (len + 1)) rdl) name1 base ns (no + len + 1)"
    using label.prems label.hyps lb(1)
    by (subst name_loop_step [OF _ _ _ _ label.hyps(1) [symmetric] refl name1_def]) auto
  show ?case
    using label.IH [of rdepth "no + len + 1" ns base name1 "map_option (\<lambda>r. r + of_nat (len + 1)) rdl"] label.prems lb st
    by (auto simp: add.assoc)
next
  case (pointer off p d ls e)
  obtain rdl' name' where r: "name_loop buf sz (rdepth + 1) p rdl name (base + no) (ns - no) 0 = Inr (0, e, rdl', name')"
    "length name' = length name" "ended name' (take (base + no) name @ dotted ls)"
  proof -
    have "length (dotted ls) < ns - no" using pointer.prems by linarith
    then show thesis using pointer.IH [of "rdepth + 1" 0 "ns - no" "base + no" name rdl] pointer.prems that by auto
  qed
  have "name_loop buf sz rdepth off rdl name base ns no =
    bindE (name_loop buf sz (rdepth + 1) p rdl name (base + no) (ns - no) 0) (\<lambda>(r, off', rdl, name). Inr (r, off + 2, rdl, name))"
    using pointer.prems pointer.hyps by (subst name_loop_step [OF _ _ _ _ refl pointer.hyps(3) refl]) auto
  then show ?case using r by simp
qed

text \<open>The loop always returns; if it succeeds, it has read a name or filled the array.\<close>

definition name_found :: "bytes \<Rightarrow> nat \<Rightarrow> nat \<Rightarrow> nat \<Rightarrow> bytes \<Rightarrow> nat \<Rightarrow> nat \<Rightarrow> nat \<Rightarrow> nat \<Rightarrow> nat \<Rightarrow> bytes \<Rightarrow> bool" where
  "name_found buf sz rdepth off name base ns no r off' name' \<longleftrightarrow> length name' = length name \<and>
     (r = 0 \<longrightarrow> off < off' \<and> off' \<le> sz \<and> (\<exists>ls. ended name' (take (base + no) name @ dotted ls) \<and>
       (no + length (dotted ls) = ns \<or> (\<exists>d. rdepth + d \<le> 65 \<and> name_at buf sz off d ls off'))))"

lemma name_found_pointer:
  assumes "name_found buf sz (rdepth + 1) p name (base + no) (ns - no) 0 r o' name'" "off + 2 \<le> sz" "191 < unat (buf ! off)"
    "p = unat (ntohs (bytes_at buf off 2) AND 0x3FFF)" "p < sz" "no < ns"
  shows "name_found buf sz rdepth off name base ns no r (off + 2) name'"
proof -
  have "name_at buf sz off (Suc d) ls (off + 2)" if "name_at buf sz p d ls o'" for d ls
    using name_at.pointer [OF assms(3,2,4,5) that] .
  then show ?thesis using assms(1,2,6) unfolding name_found_def by fastforce
qed

lemma name_found_label:
  assumes "name_found buf sz rdepth (off + 1 + c) name1 base ns (no + c + 1) r o' name'"
    and c: "c = unat (buf ! off)" "off + 1 + c < sz" "0 < c" "c \<le> 63"
    and n1: "length (bytes_at buf (off + 1) c) = c" "length name1 = length name"
      "take (base + no + c + 1) name1 = take (base + no) name @ bytes_at buf (off + 1) c @ [dot]"
  shows "name_found buf sz rdepth off name base ns no r o' name'"
  unfolding name_found_def
proof (intro conjI impI)
  show "length name' = length name" using assms(1) n1(2) by (simp add: name_found_def)
  assume "r = 0"
  then obtain ls where f: "off + 1 + c < o'" "o' \<le> sz" "ended name' (take (base + (no + c + 1)) name1 @ dotted ls)"
    "no + c + 1 + length (dotted ls) = ns \<or> (\<exists>d. rdepth + d \<le> 65 \<and> name_at buf sz (off + 1 + c) d ls o')"
    using assms(1) unfolding name_found_def by blast
  show "off < o'" "o' \<le> sz" using f by simp_all
  have "take (base + (no + c + 1)) name1 @ dotted ls = take (base + no) name @ dotted (bytes_at buf (off + 1) c # ls)"
    using n1(3) by (simp add: add.assoc)
  moreover have "name_at buf sz off d (bytes_at buf (off + 1) c # ls) o'" if "name_at buf sz (off + 1 + c) d ls o'" for d
    using name_at.label [OF c(1) [symmetric] c(3,4,2) that] .
  ultimately show "\<exists>ls. ended name' (take (base + no) name @ dotted ls) \<and>
      (no + length (dotted ls) = ns \<or> (\<exists>d. rdepth + d \<le> 65 \<and> name_at buf sz off d ls o'))"
    using f(3,4) n1(1) by (intro exI [of _ "bytes_at buf (off + 1) c # ls"]) auto
qed

lemma name_found_full:
  assumes "off + 1 + c < sz" "no + c + 1 = ns"
    and n1: "length (bytes_at buf (off + 1) c) = c" "length name1 = length name"
      "take (base + no + c + 1) name1 = take (base + no) name @ bytes_at buf (off + 1) c @ [dot]"
    and "base + ns \<le> length name"
  shows "name_found buf sz rdepth off name base ns no 0 (off + 1 + c) (memcpy_at name1 (base + no + c) [0])" (is "name_found _ _ _ _ _ _ _ _ _ _ ?n")
proof -
  have "take (base + no + c) name1 = take (base + no) name @ bytes_at buf (off + 1) c"
    using arg_cong [OF n1(3), of "take (base + no + c)"] n1(1) assms(2,6) by (simp add: min_def)
  then have t: "take (base + no + c + 1) ?n = take (base + no) name @ bytes_at buf (off + 1) c @ [0]" "length ?n = length name"
    using assms(2,6) n1(2) take_memcpy_at [of "base + no + c" "[0]" name1] by simp_all
  then have "ended ?n (take (base + no) name @ dotted [bytes_at buf (off + 1) c])"
    using n1(1) assms(2,6) by (simp add: ended_def butlast_append add.assoc)
  then show ?thesis
    using t(2) assms(1,2) n1(1) unfolding name_found_def by (auto intro!: exI [of _ "[bytes_at buf (off + 1) c]"])
qed

lemma name_loop_total:
  assumes "sz < length buf" "no < ns" "base + ns \<le> length name" "rdepth \<le> 65"
  shows "\<exists>r off' rdl' name'. name_loop buf sz rdepth off rdl name base ns no = Inr (r, off', rdl', name') \<and>
    name_found buf sz rdepth off name base ns no r off' name'"
  using assms
proof (induction buf sz rdepth off rdl name base ns no rule: name_loop.induct)
  case (1 buf sz rdepth off rdl name base ns no)
  define c p where "c = unat (buf ! off)" and "p = unat (ntohs (bytes_at buf off 2) AND 0x3FFF)"
  define name1 where "name1 = memcpy_at name (base + no) (bytes_at buf (off + 1) c @ [dot])"
  define rdl1 where "rdl1 = map_option (\<lambda>r. r + of_nat (c + 1)) rdl"
  note step = name_loop_step [of sz buf no ns base name off rdepth c p name1 rdl, OF _ "1.prems"(2,3) _ c_def p_def name1_def, folded rdl1_def]
  have rd: "read_octets buf off 1 = Inr [buf ! off]" if "off < sz" using that "1.prems" by (simp add: read_octets_def bytes_at_1)
  consider (err) o' where "name_loop buf sz rdepth off rdl name base ns no = Inr (1, o', rdl, name)"
    | (ptr) "off + 2 \<le> sz" "191 < c" "rdepth \<le> 64" "p < sz"
    | (root) "off < sz" "c = 0"
    | (full) "off + 1 + c < sz" "0 < c" "c \<le> 63" "no + c + 1 = ns"
    | (label) "off + 1 + c < sz" "0 < c" "c \<le> 63" "no + c + 1 < ns"
    using "1.prems" step by (auto simp: not_le not_less split: if_splits)
  then show ?case
  proof cases
    case err
    then show ?thesis by (simp add: name_found_def)
  next
    case ptr
    then have "read16 buf off = Inr (ntohs (bytes_at buf off 2))" using "1.prems" by (simp add: read16_def read_octets_def)
    then obtain r o' rdl' name' where r: "name_loop buf sz (rdepth + 1) p rdl name (base + no) (ns - no) 0 = Inr (r, o', rdl', name')"
      "name_found buf sz (rdepth + 1) p name (base + no) (ns - no) 0 r o' name'"
      using "1.IH"(1) [of "[buf ! off]" c _ p] ptr rd "1.prems" by (auto simp: c_def p_def)
    have "name_loop buf sz rdepth off rdl name base ns no = Inr (r, off + 2, rdl', name')"
      using step ptr "1.prems" r(1) by simp
    moreover have "name_found buf sz rdepth off name base ns no r (off + 2) name'"
      using name_found_pointer [OF r(2)] ptr "1.prems"(2) by (simp add: c_def p_def)
    ultimately show ?thesis by blast
  next
    case root
    then have n: "name_at buf sz off 0 [] (off + 1)" by (intro name_at.root) (simp_all add: c_def unat_eq_0)
    then obtain rdl' name' where r: "name_loop buf sz rdepth off rdl name base ns no = Inr (0, off + 1, rdl', name')"
      "length name' = length name" "ended name' (take (base + no) name @ dotted [])"
      using name_loop_reads [OF n, of rdepth no ns base name rdl] "1.prems" by auto
    moreover have "rdepth + 0 \<le> 65" using "1.prems"(4) by simp
    ultimately have "name_found buf sz rdepth off name base ns no 0 (off + 1) name'"
      using n root(1) unfolding name_found_def by force
    then show ?thesis using r(1) by blast
  next
    case full
    have "off + 1 + c < sz" "sz \<le> length buf" "base + no + c + 1 \<le> length name" using full "1.prems" by simp_all
    note n1 = label_copied [OF this name1_def]
    then show ?thesis using step full "1.prems" name_found_full [OF full(1,4) n1] by auto
  next
    case label
    have "off + 1 + c < sz" "sz \<le> length buf" "base + no + c + 1 \<le> length name" using label "1.prems" by simp_all
    note n1 = label_copied [OF this name1_def]
    have "read_octets buf (off + 1) c = Inr (bytes_at buf (off + 1) c)" using label "1.prems" by (simp add: read_octets_def)
    moreover have "write_all name (base + no) [bytes_at buf (off + 1) c, [dot]] = Inr name1"
      using label "1.prems" n1(1) write_all_memcpy [of "base + no" "[bytes_at buf (off + 1) c, [dot]]" name]
      by (simp add: name1_def del: write_all.simps)
    moreover have fits: "\<not> ns - no - 1 < c" using label(4) by linarith
    ultimately obtain r o' rdl' name' where r: "name_loop buf sz rdepth (off + 1 + c) rdl1 name1 base ns (no + c + 1) = Inr (r, o', rdl', name')"
      "name_found buf sz rdepth (off + 1 + c) name1 base ns (no + c + 1) r o' name'"
      using "1.IH"(2) [of "[buf ! off]" c "off + 1" c "bytes_at buf (off + 1) c" name1 "off + 1 + c" "no + c + 1" rdl1] label rd "1.prems" n1(2)
      by (auto simp: c_def rdl1_def RFC1035_MAXLABELSZ_def simp del: write_all.simps)
    have "name_loop buf sz rdepth off rdl name base ns no = Inr (r, o', rdl', name')" using step label fits "1.prems" r(1) by simp
    moreover have "name_found buf sz rdepth off name base ns no r o' name'" using name_found_label [OF r(2) c_def label(1-3) n1] .
    ultimately show ?thesis by blast
  qed
qed

section \<open>Unpacking any message\<close>

lemma NameUnpack_total:
  assumes "sz < length buf" "length name = RFC1035_MAXHOSTNAMESZ"
  shows "\<exists>r off' rdl' name'. rfc1035NameUnpack buf sz off rdl name RFC1035_MAXHOSTNAMESZ = Inr (r, off', rdl', name') \<and>
    length name' = RFC1035_MAXHOSTNAMESZ \<and> (r = 0 \<longrightarrow> off < off' \<and> off' \<le> sz \<and> 0 \<in> set name')"
  using name_loop_total [of sz buf 0 RFC1035_MAXHOSTNAMESZ 0 name 0 off rdl] assms ended_terminated
  by (fastforce simp: rfc1035NameUnpack_def name_found_def RFC1035_MAXHOSTNAMESZ_def)

lemma read_short: "off + 2 \<le> length buf \<Longrightarrow> read16 buf off = Inr (ntohs (bytes_at buf off 2))"
  by (simp add: read16_def read_octets_def)

lemma QueryUnpack_total:
  assumes "sz < length buf" "length (q_name q) = RFC1035_MAXHOSTNAMESZ"
  shows "\<exists>r off' q'. rfc1035QueryUnpack buf sz off q = Inr (r, off', q') \<and>
    (r = 0 \<longrightarrow> off < off' \<and> off' \<le> sz \<and> length (q_name q') = RFC1035_MAXHOSTNAMESZ \<and> 0 \<in> set (q_name q'))"
proof -
  obtain r o' rdl' nm where "rfc1035NameUnpack buf sz off None (q_name q) RFC1035_MAXHOSTNAMESZ = Inr (r, o', rdl', nm)"
    "length nm = RFC1035_MAXHOSTNAMESZ" "r = 0 \<longrightarrow> off < o' \<and> o' \<le> sz \<and> 0 \<in> set nm"
    using NameUnpack_total [OF assms] by blast
  then show ?thesis using assms(1) by (auto simp: rfc1035QueryUnpack_def read_short)
qed

text \<open>A record that was unpacked: its name is a string, and its data is either a string (for a pointer record) or as many octets of the
  message as its length says.\<close>

definition rr_ok :: "bytes \<Rightarrow> nat \<Rightarrow> rfc1035_rr \<Rightarrow> bool" where
  "rr_ok buf sz RR \<longleftrightarrow> 0 \<in> set (rr_name RR) \<and>
     (\<exists>d. rr_rdata RR = Some d \<and>
       (if rr_type RR = RFC1035_TYPE_PTR then length d = RFC1035_MAXHOSTNAMESZ \<and> 0 \<in> set d
        else length d = unat (rr_rdlength RR) \<and> (\<exists>off. off + length d \<le> sz \<and> d = bytes_at buf off (length d))))"

lemma unpack_ptr_total:
  assumes "sz < length buf" "\<forall>n. length (garbage n) = n" "length (rr_name RR) = RFC1035_MAXHOSTNAMESZ"
  shows "\<exists>r RR'. unpack_ptr garbage buf sz off rdlength RR = Inr (r, RR') \<and> length (rr_name RR') = RFC1035_MAXHOSTNAMESZ \<and>
    (r = 0 \<longrightarrow> rr_name RR' = rr_name RR \<and> rr_type RR' = rr_type RR \<and>
      (\<exists>d. rr_rdata RR' = Some d \<and> length d = RFC1035_MAXHOSTNAMESZ \<and> 0 \<in> set d))"
proof -
  obtain r o' rdl' nm where "rfc1035NameUnpack buf sz off (Some 0) (garbage RFC1035_MAXHOSTNAMESZ) RFC1035_MAXHOSTNAMESZ = Inr (r, o', rdl', nm)"
    "length nm = RFC1035_MAXHOSTNAMESZ" "r = 0 \<longrightarrow> off < o' \<and> o' \<le> sz \<and> 0 \<in> set nm"
    using NameUnpack_total [OF assms(1) assms(2) [rule_format]] by blast
  then show ?thesis using assms(3) by (auto simp: unpack_ptr_def zero_rr_def Let_def)
qed

lemma RRUnpack_total:
  assumes "sz < length buf" "\<forall>n. length (garbage n) = n" "length (rr_name RR) = RFC1035_MAXHOSTNAMESZ"
  shows "\<exists>r off' RR'. rfc1035RRUnpack garbage buf sz off RR = Inr (r, off', RR') \<and> length (rr_name RR') = RFC1035_MAXHOSTNAMESZ \<and>
    (r = 0 \<longrightarrow> off < off' \<and> off' \<le> sz \<and> rr_ok buf sz RR')"
proof -
  obtain r o' rdl' nm where n: "rfc1035NameUnpack buf sz off None (rr_name RR) RFC1035_MAXHOSTNAMESZ = Inr (r, o', rdl', nm)"
    "length nm = RFC1035_MAXHOSTNAMESZ" "r = 0 \<longrightarrow> off < o' \<and> o' \<le> sz \<and> 0 \<in> set nm"
    using NameUnpack_total [OF assms(1,3)] by blast
  have z: "length (rr_name zero_rr) = RFC1035_MAXHOSTNAMESZ" by (simp add: zero_rr_def)
  show ?thesis
  proof (cases "r = 0 \<and> o' + 10 \<le> sz")
    case False
    then show ?thesis using n z by (auto simp: rfc1035RRUnpack_def)
  next
    case True
    define ty cl ttl rdl where "ty = ntohs (bytes_at buf o' 2)" and "cl = ntohs (bytes_at buf (o' + 2) 2)"
      and "ttl = ntohl (bytes_at buf (o' + 4) 4)" and "rdl = ntohs (bytes_at buf (o' + 8) 2)"
    define RR1 where "RR1 = RR\<lparr>rr_name := nm, rr_type := ty, rr_class := cl, rr_ttl := ttl, rr_rdlength := rdl\<rparr>"
    have rd: "read16 buf o' = Inr ty" "read16 buf (o' + 2) = Inr cl" "read32 buf (o' + 4) = Inr ttl" "read16 buf (o' + 8) = Inr rdl"
      using True assms(1) by (simp_all add: ty_def cl_def ttl_def rdl_def read_short read32_def read_octets_def)
    note e = n(1) rd RR1_def [symmetric]
    show ?thesis
    proof (cases "o' + 10 + unat rdl \<le> sz")
      case False
      then show ?thesis using True z e by (auto simp: rfc1035RRUnpack_def Let_def)
    next
      case fits: True
      have l1: "length (rr_name RR1) = RFC1035_MAXHOSTNAMESZ" using n(2) by (simp add: RR1_def)
      show ?thesis
      proof (cases "ty = RFC1035_TYPE_PTR")
        case ptr: True
        obtain r2 RR2 where p: "unpack_ptr garbage buf sz (o' + 10) (unat rdl) RR1 = Inr (r2, RR2)" "length (rr_name RR2) = RFC1035_MAXHOSTNAMESZ"
          "r2 = 0 \<longrightarrow> rr_name RR2 = rr_name RR1 \<and> rr_type RR2 = rr_type RR1 \<and>
            (\<exists>d. rr_rdata RR2 = Some d \<and> length d = RFC1035_MAXHOSTNAMESZ \<and> 0 \<in> set d)"
          using unpack_ptr_total [OF assms(1,2) l1] by blast
        have "rfc1035RRUnpack garbage buf sz off RR = (if r2 \<noteq> 0 then Inr (1, o' + 10, RR2) else Inr (0, o' + 10 + unat rdl, RR2))"
          using True fits e ptr p(1) by (simp add: rfc1035RRUnpack_def Let_def)
        then show ?thesis using p(2,3) n(3) True fits ptr by (auto simp: rr_ok_def RR1_def)
      next
        case other: False
        have "rfc1035RRUnpack garbage buf sz off RR = Inr (0, o' + 10 + unat rdl, RR1\<lparr>rr_rdata := Some (bytes_at buf (o' + 10) (unat rdl))\<rparr>)"
          using True fits e other assms(1) by (simp add: rfc1035RRUnpack_def Let_def read_octets_def)
        moreover have "length (bytes_at buf (o' + 10) (unat rdl)) = unat rdl" using fits assms(1) by simp
        ultimately show ?thesis using n(2,3) True fits other by (auto simp: rr_ok_def RR1_def)
      qed
    qed
  qed
qed

lemma answer_loop_total:
  assumes "sz < length buf" "\<forall>n. length (garbage n) = n"
    and "j + n \<le> length recs" "\<forall>RR \<in> set recs. length (rr_name RR) = RFC1035_MAXHOSTNAMESZ" "\<forall>i < j. rr_ok buf sz (recs ! i)"
  shows "\<exists>k recs'. answer_loop garbage buf sz off n j recs = Inr (k, recs') \<and> k \<le> j + n \<and> length recs' = length recs \<and>
    (\<forall>i < k. rr_ok buf sz (recs' ! i))"
  using assms(3-5)
proof (induction n arbitrary: off j recs)
  case (Suc n)
  obtain r o' RR where r: "rfc1035RRUnpack garbage buf sz off (recs ! j) = Inr (r, o', RR)" "length (rr_name RR) = RFC1035_MAXHOSTNAMESZ"
    "r = 0 \<longrightarrow> rr_ok buf sz RR"
    using RRUnpack_total [OF assms(1,2), of "recs ! j" off] Suc.prems by auto
  have a: "\<forall>RR \<in> set (recs[j := RR]). length (rr_name RR) = RFC1035_MAXHOSTNAMESZ"
    using Suc.prems(2) r(2) set_update_subset_insert [of recs j RR] by auto
  consider "sz \<le> off" | "off < sz" "r \<noteq> 0" | "off < sz" "r = 0" by linarith
  then show ?case
  proof cases
    case 3
    then have "\<forall>i < j + 1. rr_ok buf sz (recs[j := RR] ! i)" using Suc.prems r(3) by (auto simp: less_Suc_eq)
    then show ?thesis using Suc.IH [of "j + 1" "recs[j := RR]" o'] Suc.prems a r(1) 3 by auto
  qed (use Suc.prems r(1) in auto)
qed simp

lemma HeaderUnpack_long:
  assumes "12 \<le> sz" "sz \<le> length buf"
  shows "\<exists>h. rfc1035HeaderUnpack buf sz 0 zero_message = Inr (0, 12, h) \<and> msg_id h = ntohs (bytes_at buf 0 2) \<and>
    msg_qdcount h = ntohs (bytes_at buf 4 2) \<and> msg_ancount h = ntohs (bytes_at buf 6 2) \<and> msg_arcount h = ntohs (bytes_at buf 10 2) \<and>
    msg_rd h = ucast (drop_bit 8 (ntohs (bytes_at buf 2 2)) AND 1) \<and> msg_qr h = ucast (drop_bit 15 (ntohs (bytes_at buf 2 2)) AND 1) \<and>
    msg_rcode h = ucast (ntohs (bytes_at buf 2 2) AND 0xF)"
  using assms by (simp add: rfc1035HeaderUnpack_def read_short flip: numeral_2_eq_2)

section \<open>Packing names\<close>

lemma strtok_tokens: "t \<in> set (strtok_all d s) \<Longrightarrow> t \<noteq> [] \<and> d \<notin> set t \<and> set t \<subseteq> set s"
proof (induction d s rule: strtok_all.induct)
  case (1 d s)
  define u where "u = dropWhile (\<lambda>c. c = d) s"
  show ?case
  proof (cases "u = []")
    case True
    then show ?thesis using 1 by (subst (asm) strtok_all.simps) (simp add: u_def)
  next
    case False
    then have hd: "hd u \<noteq> d" using hd_dropWhile [of "\<lambda>c. c = d" s] by (simp add: u_def)
    have sub: "set (dropWhile (\<lambda>c. c \<noteq> d) u) \<subseteq> set s" "set u \<subseteq> set s"
      unfolding u_def by (auto dest!: set_dropWhileD)
    have "strtok_all d s = takeWhile (\<lambda>c. c \<noteq> d) u # strtok_all d (dropWhile (\<lambda>c. c \<noteq> d) u)"
      using False by (subst strtok_all.simps) (simp add: u_def [symmetric])
    then consider "t = takeWhile (\<lambda>c. c \<noteq> d) u" | "t \<in> set (strtok_all d (dropWhile (\<lambda>c. c \<noteq> d) u))"
      using "1.prems" by auto
    then show ?thesis
    proof cases
      case 1
      moreover have "takeWhile (\<lambda>c. c \<noteq> d) u \<noteq> []" using False hd by (cases u) simp_all
      ultimately show ?thesis using sub(2) by (auto dest: set_takeWhileD)
    next
      case 2
      then show ?thesis using "1.IH" [OF u_def False] sub(1) by blast
    qed
  qed
qed

definition encode_label :: "bytes \<Rightarrow> bytes" where
  "encode_label l = of_nat (length l) # l"

definition encode_labels :: "bytes list \<Rightarrow> bytes" where
  "encode_labels ls = concat (map encode_label ls)"

text \<open>The labels of a name as they are packed, and their encoding.\<close>

definition name_labels :: "bytes \<Rightarrow> bytes list" where
  "name_labels name = map (take RFC1035_MAXLABELSZ) (strtok_all dot name)"

definition wire_name :: "bytes \<Rightarrow> bytes" where
  "wire_name name = encode_labels (name_labels name) @ [0]"

lemma memcpy_at_Nil [simp]: "memcpy_at buf pos [] = buf"
  by (simp add: memcpy_at_def)

lemma LabelPack_ok:
  assumes "dot \<notin> set l" "length (encode_label (take RFC1035_MAXLABELSZ l)) \<le> sz" "pos + sz \<le> length buf"
  shows "rfc1035LabelPack buf pos sz (Some l) =
    Inr (memcpy_at buf pos (encode_label (take RFC1035_MAXLABELSZ l)), length (encode_label (take RFC1035_MAXLABELSZ l)))"
proof -
  define k where "k = (if length l > RFC1035_MAXLABELSZ then RFC1035_MAXLABELSZ else length l)"
  have k: "take RFC1035_MAXLABELSZ l = take k l" "length (take k l) = k" by (auto simp: k_def)
  then have "write_all buf pos [[of_nat k], take k l] = Inr (memcpy_at buf pos (encode_label (take k l)))"
    using assms(2,3) write_all_memcpy [of pos "[[of_nat k], take k l]" buf] by (simp add: encode_label_def del: write_all.simps)
  then show ?thesis using assms k by (simp add: rfc1035LabelPack_def Let_def encode_label_def k_def [symmetric] del: write_all.simps)
qed

lemma LabelPack_root:
  "1 \<le> sz \<Longrightarrow> pos + sz \<le> length buf \<Longrightarrow> rfc1035LabelPack buf pos sz None = Inr (memcpy_at buf pos [0], 1)"
  by (simp add: rfc1035LabelPack_def write_octets_def)

lemma pack_labels_ok:
  assumes "\<forall>t \<in> set ts. dot \<notin> set t" "off + length (encode_labels (map (take RFC1035_MAXLABELSZ) ts)) \<le> sz" "pos + sz \<le> length buf"
  shows "pack_labels buf pos sz off ts =
    Inr (memcpy_at buf (pos + off) (encode_labels (map (take RFC1035_MAXLABELSZ) ts)), off + length (encode_labels (map (take RFC1035_MAXLABELSZ) ts)))"
  using assms
proof (induction ts arbitrary: buf off)
  case Nil
  then show ?case by (simp add: encode_labels_def)
next
  case (Cons t ts)
  define e where "e = encode_label (take RFC1035_MAXLABELSZ t)"
  have e: "encode_labels (map (take RFC1035_MAXLABELSZ) (t # ts)) = e @ encode_labels (map (take RFC1035_MAXLABELSZ) ts)"
    by (simp add: encode_labels_def e_def)
  have sz: "off + length e + length (encode_labels (map (take RFC1035_MAXLABELSZ) ts)) \<le> sz" using Cons.prems(2) unfolding e by simp
  then have "rfc1035LabelPack buf (pos + off) (sz - off) (Some t) = Inr (memcpy_at buf (pos + off) e, length e)"
    using LabelPack_ok [of t "sz - off" "pos + off" buf] Cons.prems(1,3) by (simp add: e_def [symmetric])
  then show ?case
    using Cons.IH [of "off + length e" "memcpy_at buf (pos + off) e"] Cons.prems(1,3) sz
      memcpy_at_twice [of "pos + off" e "encode_labels (map (take RFC1035_MAXLABELSZ) ts)" buf]
    unfolding e by (simp add: add.assoc)
qed

lemma NamePack_ok:
  assumes "length (wire_name name) \<le> sz" "pos + sz \<le> length buf"
  shows "rfc1035NamePack buf pos sz name = Inr (memcpy_at buf pos (wire_name name), length (wire_name name))"
proof -
  define e where "e = encode_labels (name_labels name)"
  have w: "wire_name name = e @ [0]" by (simp add: wire_name_def e_def)
  have "pack_labels buf pos sz 0 (strtok_all dot name) = Inr (memcpy_at buf pos e, length e)"
    using pack_labels_ok [of "strtok_all dot name" 0 sz pos buf] assms strtok_tokens [of _ dot name]
    by (auto simp: e_def name_labels_def w)
  moreover have "rfc1035LabelPack (memcpy_at buf pos e) (pos + length e) (sz - length e) None = Inr (memcpy_at buf pos (e @ [0]), 1)"
    using assms LabelPack_root [of "sz - length e" "pos + length e" "memcpy_at buf pos e"] memcpy_at_twice [of pos e "[0]" buf] by (simp add: w)
  ultimately show ?thesis using assms(1) by (simp add: rfc1035NamePack_def w)
qed

lemma QuestionPack_ok:
  assumes "length (wire_name name) + 4 \<le> sz" "pos + sz \<le> length buf"
  shows "rfc1035QuestionPack buf pos sz name ty cl =
    Inr (memcpy_at buf pos (wire_name name @ htons ty @ htons cl), length (wire_name name) + 4)"
proof -
  have "write_all (memcpy_at buf pos (wire_name name)) (pos + length (wire_name name)) [htons ty, htons cl] =
    Inr (memcpy_at buf pos (wire_name name @ htons ty @ htons cl))"
    using assms write_all_memcpy [of "pos + length (wire_name name)" "[htons ty, htons cl]" "memcpy_at buf pos (wire_name name)"]
      memcpy_at_twice [of pos "wire_name name" "htons ty @ htons cl" buf] by (simp del: write_all.simps)
  then show ?thesis using assms NamePack_ok [of name sz pos buf] by (simp add: rfc1035QuestionPack_def del: write_all.simps)
qed

lemma wire_name_root: "wire_name [dot] = [0]"
  by (simp add: wire_name_def name_labels_def encode_labels_def strtok_all.simps)

lemma RROptPack_ok:
  assumes "11 \<le> sz" "pos + sz \<le> length buf"
  shows "\<exists>v. length v = 11 \<and> rfc2671RROptPack rcvbuf rdo buf pos sz edns_sz = Inr (memcpy_at buf pos v, 11)"
proof -
  define cl where "cl = (of_int (min edns_sz (rcvbuf - 1)) :: 16 word)"
  define v where "v = [0] @ htons RFC1035_TYPE_OPT @ htons cl @ htonl 0 @ htons 0"
  have n: "c_str (dot # replicate (RFC1035_MAXHOSTNAMESZ - 1) 0) = [dot]" by (simp add: c_str_def takeWhile_replicate RFC1035_MAXHOSTNAMESZ_def)
  have "write_all (memcpy_at buf pos [0]) (pos + 1) [htons RFC1035_TYPE_OPT, htons cl, htonl 0, htons 0] = Inr (memcpy_at buf pos v)"
    using assms write_all_memcpy [of "pos + 1" "[htons RFC1035_TYPE_OPT, htons cl, htonl 0, htons 0]" "memcpy_at buf pos [0]"]
      memcpy_at_twice [of pos "[0]" "htons RFC1035_TYPE_OPT @ htons cl @ htonl 0 @ htons 0" buf] by (simp add: v_def del: write_all.simps)
  moreover have "length v = 11" by (simp add: v_def)
  ultimately show ?thesis using assms NamePack_ok [of "[dot]" sz pos buf] n
    by (auto simp: rfc2671RROptPack_def rfc1035RRPack_def wire_name_root cl_def [symmetric] read_octets_def bytes_at_def write_octets_def simp del: write_all.simps)
qed

section \<open>Queries and their replies\<close>

lemma name_at_encoded:
  assumes "bytes_at buf off (length (encode_labels ls @ [0])) = encode_labels ls @ [0]" "off + length (encode_labels ls @ [0]) \<le> sz"
    "sz \<le> length buf" "\<forall>l \<in> set ls. l \<noteq> [] \<and> length l \<le> 63"
  shows "name_at buf sz off 0 ls (off + length (encode_labels ls @ [0]))"
  using assms
proof (induction ls arbitrary: off)
  case Nil
  then have "[buf ! off] = [0]" using bytes_at_1 [of off buf] by (simp add: encode_labels_def)
  then show ?case using Nil name_at.root [of off sz buf] by (simp add: encode_labels_def)
next
  case (Cons l ls)
  define w where "w = encode_labels ls @ [0]"
  have e: "encode_labels (l # ls) @ [0] = of_nat (length l) # l @ w" by (simp add: encode_labels_def encode_label_def w_def)
  have sz: "off + 1 + length l + length w \<le> sz" "0 < length w" using Cons.prems(2) unfolding e by (simp_all add: w_def)
  have "bytes_at buf off (1 + (length l + length w)) = of_nat (length l) # l @ w" using Cons.prems(1) unfolding e by simp
  then have s: "buf ! off = of_nat (length l)" "bytes_at buf (off + 1) (length l) @ bytes_at buf (off + 1 + length l) (length w) = l @ w"
    using bytes_at_1 [of off buf] sz Cons.prems(3) unfolding bytes_at_append by simp_all
  moreover have "length (bytes_at buf (off + 1) (length l)) = length l" using sz Cons.prems(3) by simp
  ultimately have b: "bytes_at buf (off + 1) (length l) = l" "bytes_at buf (off + 1 + length l) (length w) = w" by auto
  have "unat (buf ! off) = length l" using s(1) Cons.prems(4) by (simp add: unat_of_nat)
  moreover have "name_at buf sz (off + 1 + length l) 0 ls (off + 1 + length l + length w)"
    using Cons.IH [of "off + 1 + length l"] b(2) sz Cons.prems(3,4) by (simp add: w_def)
  ultimately have "name_at buf sz off 0 (bytes_at buf (off + 1) (length l) # ls) (off + 1 + length l + length w)"
  proof (intro name_at.label)
    show "off + 1 + length l < sz" using sz by linarith
  qed (use Cons.prems(4) in auto)
  then show ?case unfolding e b(1) by (simp add: add.assoc)
qed

text \<open>The labels with dots between them, as a string.\<close>

definition join_labels :: "bytes list \<Rightarrow> bytes" where
  "join_labels ls = butlast (dotted ls)"

lemma dotted_join: "ls \<noteq> [] \<Longrightarrow> dotted ls = join_labels ls @ [dot]"
proof -
  assume "ls \<noteq> []"
  then have "dotted ls \<noteq> []" "last (dotted ls) = dot" by (induction ls rule: rev_induct) (simp_all add: dotted_def)
  then show ?thesis unfolding join_labels_def by (metis append_butlast_last_id)
qed

lemma set_dotted: "set (dotted ls) \<subseteq> insert dot (\<Union> (set ` set ls))"
  by (induction ls) auto

text \<open>A host name that Squid can look up: the labels are not too long and not empty, but for a dot at the end.\<close>

definition host_ok :: "bytes \<Rightarrow> bool" where
  "host_ok host \<longleftrightarrow> strtok_all dot host \<noteq> [] \<and> list_all (\<lambda>l. length l \<le> 63) (strtok_all dot host) \<and> 0 \<notin> set host \<and> length host \<le> 254 \<and>
     (host = join_labels (strtok_all dot host) \<or> host = join_labels (strtok_all dot host) @ [dot])"

lemma name_labels_ok:
  assumes "0 \<notin> set host" and l: "l \<in> set (name_labels host)"
  shows "l \<noteq> [] \<and> length l \<le> 63 \<and> 0 \<notin> set l"
proof -
  obtain t where t: "t \<in> set (strtok_all dot host)" "l = take 63 t" using l by (auto simp: name_labels_def RFC1035_MAXLABELSZ_def)
  then show ?thesis using strtok_tokens [OF t(1)] assms(1) in_set_takeD [of 0 63 t] by auto
qed

text \<open>A question as it was packed is unpacked to the name with its labels.\<close>

lemma QueryUnpack_packed:
  assumes pk: "bytes_at buf off (length (wire_name host) + 4) = wire_name host @ htons ty @ htons cl"
    and sz: "off + length (wire_name host) + 4 \<le> sz" "sz \<le> length buf"
    and host: "0 \<notin> set host" "name_labels host \<noteq> []" "length (dotted (name_labels host)) \<le> 255"
  shows "\<exists>q. rfc1035QueryUnpack buf sz off zero_query = Inr (0, off + length (wire_name host) + 4, q) \<and>
    c_str (q_name q) = join_labels (name_labels host) \<and> q_type q = ty \<and> q_class q = cl"
proof -
  define ls w where "ls = name_labels host" and "w = length (wire_name host)"
  have wl: "wire_name host = encode_labels ls @ [0]" by (simp add: wire_name_def ls_def)
  have b: "bytes_at buf off w = wire_name host" "bytes_at buf (off + w) 2 = htons ty" "bytes_at buf (off + w + 2) 2 = htons cl"
  proof -
    have "bytes_at buf off w @ bytes_at buf (off + w) (2 + 2) = wire_name host @ htons ty @ htons cl"
      using pk bytes_at_append [of buf off w 4] by (simp add: w_def)
    moreover have "length (bytes_at buf off w) = w" using sz by (simp add: w_def)
    ultimately have "bytes_at buf off w = wire_name host" "bytes_at buf (off + w) (2 + 2) = htons ty @ htons cl"
      using w_def by (metis append_eq_append_conv)+
    moreover have "length (bytes_at buf (off + w) 2) = 2" using sz by (simp add: w_def)
    ultimately show "bytes_at buf off w = wire_name host" "bytes_at buf (off + w) 2 = htons ty" "bytes_at buf (off + w + 2) 2 = htons cl"
      unfolding bytes_at_append by simp_all
  qed
  have n: "name_at buf sz off 0 ls (off + w)"
    using name_at_encoded [of buf off ls sz] b(1) sz name_labels_ok [OF host(1)] by (simp add: wl w_def ls_def)
  define z where "z = (replicate RFC1035_MAXHOSTNAMESZ 0 :: bytes)"
  have z: "length z = RFC1035_MAXHOSTNAMESZ" and pos: "0 < RFC1035_MAXHOSTNAMESZ" by (simp_all add: z_def RFC1035_MAXHOSTNAMESZ_def)
  obtain rdl nm where r: "name_loop buf sz 0 off None z 0 RFC1035_MAXHOSTNAMESZ 0 = Inr (0, off + w, rdl, nm)"
    "take (length (dotted ls)) nm = join_labels ls @ [0]"
    using name_loop_reads [OF n sz(2), of 0 0 RFC1035_MAXHOSTNAMESZ 0 z None] host(2,3) z
    by (auto simp: RFC1035_MAXHOSTNAMESZ_def ls_def join_labels_def)
  have "0 \<notin> set (join_labels ls)"
    using set_dotted [of ls] name_labels_ok [OF host(1)] in_set_butlastD [of 0 "dotted ls"] by (fastforce simp: ls_def join_labels_def)
  moreover have "nm = join_labels ls @ [0] @ drop (length (dotted ls)) nm" using r(2) append_take_drop_id [of "length (dotted ls)" nm] by simp
  ultimately have "c_str nm = join_labels ls" unfolding c_str_def by (metis (mono_tags, lifting) append_Cons takeWhile_tail takeWhile_eq_all_conv)
  moreover have "rfc1035QueryUnpack buf sz off zero_query = Inr (0, off + w + 4, zero_query\<lparr>q_name := nm, q_type := ty, q_class := cl\<rparr>)"
    using r(1) b(2,3) sz pos by (simp add: rfc1035QueryUnpack_def rfc1035NameUnpack_def zero_query_def z_def [symmetric] read_short w_def)
  ultimately show ?thesis by (simp add: w_def ls_def)
qed

lemma trim_dots_append: "n \<le> length a \<Longrightarrow> trim_dots (a @ x) n = trim_dots a n"
  by (induction n) (auto simp: nth_append)

lemma trim_dots_le: "trim_dots a n \<le> n"
  by (induction n) auto

lemma strncasecmp_prefix: "n \<le> length a \<Longrightarrow> strncasecmp (a @ x) (a @ y) n = 0"
proof (induction a arbitrary: n)
  case (Cons c a)
  then show ?case by (cases n) auto
qed simp

lemma QueryCompare_trailing_dot:
  assumes "q_type a = q_type b" "q_class a = q_class b" "c_str (q_name a) = c_str (q_name b) \<or> c_str (q_name a) = c_str (q_name b) @ [dot]"
  shows "rfc1035QueryCompare a b = 0"
proof -
  define s where "s = c_str (q_name b)"
  show ?thesis
  proof (cases "c_str (q_name a) = s")
    case True
    then show ?thesis
      using assms(1,2) strncasecmp_prefix [of "length s" s "[]" "[]"] by (simp add: rfc1035QueryCompare_def s_def [symmetric])
  next
    case False
    then have "c_str (q_name a) = s @ [dot]" using assms(3) by (simp add: s_def)
    moreover have "trim_dots (s @ [dot]) (length (s @ [dot])) = trim_dots s (length s)" by (simp add: nth_append trim_dots_append)
    ultimately show ?thesis
      using assms(1,2) strncasecmp_prefix [of "trim_dots s (length s)" s "[dot]" "[]"] trim_dots_le [of s "length s"]
      by (simp add: rfc1035QueryCompare_def s_def [symmetric])
  qed
qed

lemma bytes_at_memcpy_mid:
  "pos + length (xs @ ys @ zs) \<le> length buf \<Longrightarrow> bytes_at (memcpy_at buf pos (xs @ ys @ zs)) (pos + length xs) (length ys) = ys"
  by (simp add: bytes_at_def memcpy_at_def)

text \<open>The octets of the header of a query.\<close>

definition header_octets :: "16 word \<Rightarrow> int \<Rightarrow> bytes" where
  "header_octets qid edns_sz = htons qid @ htons 256 @ htons 1 @ htons 0 @ htons 0 @ htons (if edns_sz > 0 then 1 else 0)"

lemma HeaderPack_query:
  assumes "12 \<le> sz" "sz \<le> length buf"
  shows "rfc1035HeaderPack buf 0 sz (query_header qid edns_sz) = Inr (memcpy_at buf 0 (header_octets qid edns_sz), 12)"
  using assms write_all_memcpy [of 0 "[htons qid, htons 256, htons 1, htons 0, htons 0, htons (if edns_sz > 0 then 1 else 0)]" buf]
  by (simp add: rfc1035HeaderPack_def query_header_def zero_message_def header_octets_def push_bit_of_1 del: write_all.simps)

lemma c_str_xstrncpy:
  assumes "length dst = RFC1035_MAXHOSTNAMESZ" "0 \<notin> set host" "length host \<le> 255"
  shows "\<exists>nm. xstrncpy dst host RFC1035_MAXHOSTNAMESZ = Inr nm \<and> c_str nm = host"
proof -
  have "c_str (host @ 0 # r) = host" for r using assms(2) by (auto simp: c_str_def takeWhile_append)
  then show ?thesis using assms by (simp add: xstrncpy_def write_octets_def memcpy_at_def RFC1035_MAXHOSTNAMESZ_def)
qed

lemma BuildHostQuery_ok:
  assumes "length (wire_name host) + 16 + (if 0 < edns_sz then 11 else 0) \<le> sz" "sz \<le> length buf"
    "length (q_name q) = RFC1035_MAXHOSTNAMESZ" "0 \<notin> set host" "length host \<le> 255"
  shows "\<exists>v nm. length v = (if 0 < edns_sz then 11 else 0) \<and> c_str nm = host \<and>
    rfc3596BuildHostQuery rcvbuf rdo host buf sz qid (Some q) qtype edns_sz =
      Inr (memcpy_at buf 0 (header_octets qid edns_sz @ (wire_name host @ htons qtype @ htons RFC1035_CLASS_IN) @ v),
           Some (q\<lparr>q_type := qtype, q_class := RFC1035_CLASS_IN, q_name := nm\<rparr>), length (wire_name host) + 16 + length v)"
proof -
  define H Q where "H = header_octets qid edns_sz" and "Q = wire_name host @ htons qtype @ htons RFC1035_CLASS_IN"
  have l: "length H = 12" "length Q = length (wire_name host) + 4" by (simp_all add: H_def Q_def header_octets_def)
  have h: "rfc1035HeaderPack buf 0 sz (query_header qid edns_sz) = Inr (memcpy_at buf 0 H, 12)"
    using HeaderPack_query [of sz buf] assms(1,2) by (simp add: H_def)
  have q: "rfc1035QuestionPack (memcpy_at buf 0 H) 12 (sz - 12) host qtype RFC1035_CLASS_IN = Inr (memcpy_at buf 0 (H @ Q), length Q)"
    using QuestionPack_ok [of host "sz - 12" 12 "memcpy_at buf 0 H" qtype RFC1035_CLASS_IN] assms(1,2) l memcpy_at_twice [of 0 H Q buf]
    by (simp add: Q_def)
  obtain v where v: "length v = (if 0 < edns_sz then 11 else 0)"
    "(if 0 < edns_sz then rfc2671RROptPack rcvbuf rdo (memcpy_at buf 0 (H @ Q)) (12 + length Q) (sz - (12 + length Q)) edns_sz
      else Inr (memcpy_at buf 0 (H @ Q), 0)) = Inr (memcpy_at buf 0 (H @ Q @ v), length v)"
  proof (cases "0 < edns_sz")
    case True
    then have room: "11 \<le> sz - (12 + length Q)" using assms(1) l by simp
    then obtain v where "length v = 11" "rfc2671RROptPack rcvbuf rdo (memcpy_at buf 0 (H @ Q)) (12 + length Q) (sz - (12 + length Q)) edns_sz =
      Inr (memcpy_at (memcpy_at buf 0 (H @ Q)) (12 + length Q) v, 11)"
      using RROptPack_ok [of "sz - (12 + length Q)" "12 + length Q" "memcpy_at buf 0 (H @ Q)" rcvbuf rdo edns_sz] assms(1,2) l by auto
    then show thesis using True room that [of v] assms(1,2) l memcpy_at_twice [of 0 "H @ Q" v buf] by simp
  qed (use that [of "[]"] in simp)
  obtain nm where n: "xstrncpy (q_name q) host RFC1035_MAXHOSTNAMESZ = Inr nm" "c_str nm = host"
    using c_str_xstrncpy [OF assms(3-5)] by blast
  have "rfc3596BuildHostQuery rcvbuf rdo host buf sz qid (Some q) qtype edns_sz =
      Inr (memcpy_at buf 0 (H @ Q @ v), Some (q\<lparr>q_type := qtype, q_class := RFC1035_CLASS_IN, q_name := nm\<rparr>), 12 + length Q + length v)"
    unfolding rfc3596BuildHostQuery_def h bindE.simps prod.case q Let_def v(2) option.case n(1) using assms(1) l v(1) by simp
  then show ?thesis using v(1) n(2) l unfolding H_def Q_def by (intro exI [of _ v] exI [of _ nm]) (simp add: ac_simps)
qed

lemma MessageUnpack_cases:
  assumes "rfc1035HeaderUnpack buf sz 0 zero_message = Inr (0, 12, h)" "rfc1035QueryUnpack buf sz 12 zero_query = Inr (r, off, q)"
  shows "rfc1035MessageUnpack garbage buf sz =
    (if msg_qdcount h \<noteq> 1 \<or> r \<noteq> 0 then Inr (-15, None)
     else if msg_rcode h \<noteq> 0 then Inr (- uint (msg_rcode h), Some (h\<lparr>msg_query := Some [q]\<rparr>))
     else if msg_ancount h = 0 then Inr (0, Some (h\<lparr>msg_query := Some [q]\<rparr>))
     else bindE (answer_loop garbage buf sz off (unat (msg_ancount h)) 0 (replicate (unat (msg_ancount h)) zero_rr)) (\<lambda>(nr, recs).
       if nr = 0 then Inr (-15, None) else Inr (int nr, Some (h\<lparr>msg_query := Some [q], msg_answer := Some recs\<rparr>))))"
  using assms unfolding rfc1035MessageUnpack_def Let_def rfc1035_unpack_error_def by simp

lemma query_header_unpacked:
  assumes "12 + length r \<le> n" "n \<le> length buf" "b = memcpy_at buf 0 (header_octets qid edns_sz @ r)"
  shows "\<exists>h. rfc1035HeaderUnpack b n 0 zero_message = Inr (0, 12, h) \<and> msg_id h = qid \<and> msg_qdcount h = 1 \<and> msg_ancount h = 0 \<and>
    msg_rd h = 1 \<and> msg_qr h = 0 \<and> msg_rcode h = 0"
proof -
  have l: "12 + length r \<le> length buf" using assms(1,2) by simp
  define c where "c = htons (if edns_sz > 0 then 1 else 0)"
  have "bytes_at b 0 2 = htons qid" "bytes_at b 2 2 = htons 256" "bytes_at b 4 2 = htons 1" "bytes_at b 6 2 = htons 0"
    using bytes_at_memcpy_mid [of 0 "[]" "htons qid" "htons 256 @ htons 1 @ htons 0 @ htons 0 @ c @ r" buf]
      bytes_at_memcpy_mid [of 0 "htons qid" "htons 256" "htons 1 @ htons 0 @ htons 0 @ c @ r" buf]
      bytes_at_memcpy_mid [of 0 "htons qid @ htons 256" "htons 1" "htons 0 @ htons 0 @ c @ r" buf]
      bytes_at_memcpy_mid [of 0 "htons qid @ htons 256 @ htons 1" "htons 0" "htons 0 @ c @ r" buf] l
    by (simp_all add: assms(3) header_octets_def c_def [symmetric] flip: numeral_2_eq_2) (simp_all add: c_def)
  moreover have "n \<le> length b" using assms l by (simp add: header_octets_def)
  ultimately show ?thesis using HeaderUnpack_long [of n b] assms(1) by auto
qed

lemma echoed_question:
  assumes "host_ok host" and q: "c_str (q_name q') = host" "q_type q' = ty" "q_class q' = cl"
    and rb: "length (wire_name host) + 16 \<le> rsz" "rsz \<le> length rbuf" "bytes_at rbuf 12 (length (wire_name host) + 4) = wire_name host @ htons ty @ htons cl"
  shows "\<exists>q2 o'. rfc1035QueryUnpack rbuf rsz 12 zero_query = Inr (0, o', q2) \<and> rfc1035QueryCompare q' q2 = 0"
proof -
  define ls where "ls = strtok_all dot host"
  have ls: "name_labels host = ls" "ls \<noteq> []" "0 \<notin> set host" "length host \<le> 254" "host = join_labels ls \<or> host = join_labels ls @ [dot]"
    using assms(1) unfolding host_ok_def ls_def name_labels_def RFC1035_MAXLABELSZ_def by (auto simp: list_all_iff map_idI)
  have "length (join_labels ls) \<le> length host" by (rule disjE [OF ls(5)], metis order_refl, metis length_append le_add1)
  then have "length (dotted ls) \<le> 255" using ls(2,4) by (simp add: dotted_join)
  then obtain q2 where q2: "rfc1035QueryUnpack rbuf rsz 12 zero_query = Inr (0, 12 + length (wire_name host) + 4, q2)" "c_str (q_name q2) = join_labels ls"
    "q_type q2 = ty" "q_class q2 = cl"
    using QueryUnpack_packed [of rbuf 12 host ty cl rsz] rb ls(1-3) by auto
  moreover have "rfc1035QueryCompare q' q2 = 0" using QueryCompare_trailing_dot [of q' q2] q2 ls(5) q by simp
  ultimately show ?thesis by blast
qed

section \<open>Properties\<close>

text \<open>
  C20: The names of a DNS message are decoded exactly.  Where the message holds a name, read along at most 65 compression pointers and
  of at most 255 octets with its dots, the unpacking routine succeeds, stores the labels of the name with dots between them and
  a terminating zero (in the place of the last dot or after it), and moves the offset behind the name.  Conversely, when the routine
  succeeds, it has read such a name, unless the labels have filled the array of 256 octets, where it stops without having seen the end of
  the name.  The array is never overrun, for any octets of the message.
\<close>

theorem dns_name_unpack_exact:
  assumes "sz < length buf" "length name = RFC1035_MAXHOSTNAMESZ"
  shows "(\<forall>d ls e. name_at buf sz off d ls e \<and> d \<le> 65 \<and> length (dotted ls) \<le> 255 \<longrightarrow>
      (\<exists>rdl' name'. rfc1035NameUnpack buf sz off rdl name RFC1035_MAXHOSTNAMESZ = Inr (0, e, rdl', name') \<and> ended name' (dotted ls))) \<and>
    (\<exists>r off' rdl' name'. rfc1035NameUnpack buf sz off rdl name RFC1035_MAXHOSTNAMESZ = Inr (r, off', rdl', name') \<and>
      length name' = RFC1035_MAXHOSTNAMESZ \<and>
      (r = 0 \<longrightarrow> (\<exists>ls. ended name' (dotted ls) \<and>
        (length (dotted ls) = RFC1035_MAXHOSTNAMESZ \<or> (\<exists>d. d \<le> 65 \<and> name_at buf sz off d ls off')))))"
proof (intro conjI allI impI)
  fix d ls e
  assume "name_at buf sz off d ls e \<and> d \<le> 65 \<and> length (dotted ls) \<le> 255"
  then show "\<exists>rdl' name'. rfc1035NameUnpack buf sz off rdl name RFC1035_MAXHOSTNAMESZ = Inr (0, e, rdl', name') \<and> ended name' (dotted ls)"
    using name_loop_reads [of buf sz off d ls e 0 0 RFC1035_MAXHOSTNAMESZ 0 name rdl] assms
    by (auto simp: rfc1035NameUnpack_def RFC1035_MAXHOSTNAMESZ_def)
next
  show "\<exists>r off' rdl' name'. rfc1035NameUnpack buf sz off rdl name RFC1035_MAXHOSTNAMESZ = Inr (r, off', rdl', name') \<and>
      length name' = RFC1035_MAXHOSTNAMESZ \<and>
      (r = 0 \<longrightarrow> (\<exists>ls. ended name' (dotted ls) \<and>
        (length (dotted ls) = RFC1035_MAXHOSTNAMESZ \<or> (\<exists>d. d \<le> 65 \<and> name_at buf sz off d ls off'))))"
    using name_loop_total [of sz buf 0 RFC1035_MAXHOSTNAMESZ 0 name 0 off rdl] assms
    by (fastforce simp: rfc1035NameUnpack_def name_found_def RFC1035_MAXHOSTNAMESZ_def)
qed

text \<open>The message \<open>1 a 0 1 b 192 0\<close> holds the name \<open>b.a\<close> at offset 3, through a pointer.\<close>

definition pointer_message :: bytes where
  "pointer_message = [1, 97, 0, 1, 98, 192, 0, 0]"

theorem dns_name_unpack_exact_witness:
  "\<exists>rdl' name'. rfc1035NameUnpack pointer_message 7 3 None (replicate RFC1035_MAXHOSTNAMESZ 0) RFC1035_MAXHOSTNAMESZ = Inr (0, 7, rdl', name') \<and>
     ended name' [98, dot, 97, dot]"
proof -
  have b: "bytes_at pointer_message (0 + 1) 1 = [97]" "bytes_at pointer_message (3 + 1) 1 = [98]" "bytes_at pointer_message 5 2 = [192, 0]"
    by (simp_all add: pointer_message_def bytes_at_def)
  have "name_at pointer_message 7 0 0 [[97]] 3"
    using name_at.label [of pointer_message 0 1 7 0 "[]" 3] name_at.root [of 2 7 pointer_message] b(1) by (simp add: pointer_message_def numeral_2_eq_2 numeral_3_eq_3)
  then have "name_at pointer_message 7 5 1 [[97]] 7"
    using name_at.pointer [of pointer_message 5 7 0 0 "[[97]]" 3] b(3) by (simp add: pointer_message_def ntohs_def)
  then have "name_at pointer_message 7 3 1 [[98], [97]] 7"
    using name_at.label [of pointer_message 3 1 7 1 "[[97]]" 7] b(2) by (simp add: pointer_message_def)
  moreover have "7 < length pointer_message" "length (replicate RFC1035_MAXHOSTNAMESZ (0 :: byte)) = RFC1035_MAXHOSTNAMESZ"
    by (simp_all add: pointer_message_def)
  ultimately show ?thesis
    using dns_name_unpack_exact [of 7 pointer_message "replicate RFC1035_MAXHOSTNAMESZ 0" 3 None] by fastforce
qed


lemma garbage_ok: "\<forall>n. length (replicate n (170 :: byte)) = n"
  by simp

text \<open>A reply to a question for \<open>a\<close>, with one address.\<close>

definition sample_reply :: bytes where
  "sample_reply = [0, 7, 0x81, 0x80, 0, 1, 0, 1, 0, 0, 0, 0] @ [1, 97, 0, 0, 1, 0, 1] @ [192, 12, 0, 1, 0, 1, 0, 0, 0, 60, 0, 4, 127, 0, 0, 1]"

lemma sample_reply_unpacked: "map_sum id fst (rfc1035MessageUnpack (\<lambda>n. replicate n 170) (sample_reply @ [0]) 35) = Inr 1"
  by code_simp


text \<open>
  C22: A query survives the codec, and its replies are recognised.  For a host name with non-empty labels of at most 63 octets, with or without a
  final dot, building a query in a large enough buffer succeeds; the message, unpacked, is a query with the given identifier that asks for
  recursion.  Whatever else a reply contains, if it repeats the question of the query and can be unpacked, then the question found in it
  compares equal to the one that was remembered with the query, and its identifier is the first two octets.
\<close>

theorem dns_query_reply:
  assumes "host_ok host" "length (wire_name host) + 16 + (if 0 < edns_sz then 11 else 0) \<le> sz" "sz \<le> length buf"
    "length (q_name q) = RFC1035_MAXHOSTNAMESZ"
  shows "\<exists>buf' q' n. rfc3596BuildHostQuery rcvbuf rdo host buf sz qid (Some q) qtype edns_sz = Inr (buf', Some q', n) \<and> n \<le> sz \<and>
    (\<exists>m. rfc1035MessageUnpack garbage buf' n = Inr (0, Some m) \<and> msg_id m = qid \<and> msg_rd m = 1 \<and> msg_qr m = 0) \<and>
    (\<forall>rbuf rsz k m.
      length (wire_name host) + 16 \<le> rsz \<and> rsz \<le> length rbuf \<and>
      bytes_at rbuf 12 (length (wire_name host) + 4) = bytes_at buf' 12 (length (wire_name host) + 4) \<and>
      rfc1035MessageUnpack garbage rbuf rsz = Inr (k, Some m) \<longrightarrow>
      msg_id m = ntohs (bytes_at rbuf 0 2) \<and> (\<exists>q2. msg_query m = Some [q2] \<and> rfc1035QueryCompare q' q2 = 0))"
proof -
  define W where "W = wire_name host"
  obtain v nm where v: "length v = (if 0 < edns_sz then 11 else 0)" "c_str nm = host"
    "rfc3596BuildHostQuery rcvbuf rdo host buf sz qid (Some q) qtype edns_sz =
      Inr (memcpy_at buf 0 (header_octets qid edns_sz @ (W @ htons qtype @ htons RFC1035_CLASS_IN) @ v),
           Some (q\<lparr>q_type := qtype, q_class := RFC1035_CLASS_IN, q_name := nm\<rparr>), length W + 16 + length v)"
    using BuildHostQuery_ok [OF assms(2,3,4)] assms(1) unfolding W_def host_ok_def by fastforce
  define H Q where "H = header_octets qid edns_sz" and "Q = W @ htons qtype @ htons RFC1035_CLASS_IN"
  define b' q' where "b' = memcpy_at buf 0 (H @ Q @ v)" and "q' = q\<lparr>q_type := qtype, q_class := RFC1035_CLASS_IN, q_name := nm\<rparr>"
  have l: "length H = 12" "length Q = length W + 4" by (simp_all add: H_def Q_def header_octets_def)
  have n: "length W + 16 + length v \<le> sz" using assms(2) v(1) by (simp add: W_def)
  have q: "bytes_at b' 12 (length W + 4) = Q" using bytes_at_memcpy_mid [of 0 H Q v buf] n assms(3) l by (simp add: b'_def)
  note echo = echoed_question [OF assms(1), of q' qtype RFC1035_CLASS_IN, folded W_def, folded Q_def]
  have lb: "length b' = length buf" using n assms(3) l by (simp add: b'_def)
  obtain h where h: "rfc1035HeaderUnpack b' (length W + 16 + length v) 0 zero_message = Inr (0, 12, h)" "msg_id h = qid" "msg_qdcount h = 1"
    "msg_ancount h = 0" "msg_rd h = 1" "msg_qr h = 0" "msg_rcode h = 0"
    using query_header_unpacked [of "Q @ v" "length W + 16 + length v" buf b' qid edns_sz] n assms(3) l by (auto simp: b'_def H_def)
  obtain q0 o0 where q0: "rfc1035QueryUnpack b' (length W + 16 + length v) 12 zero_query = Inr (0, o0, q0)"
    using echo [of "length W + 16 + length v" b'] q n assms(3) lb v(2) by (auto simp: q'_def)
  have "\<exists>m. rfc1035MessageUnpack garbage b' (length W + 16 + length v) = Inr (0, Some m) \<and> msg_id m = qid \<and> msg_rd m = 1 \<and> msg_qr m = 0"
    using MessageUnpack_cases [OF h(1) q0, of garbage] h(2-) by simp
  moreover have "msg_id m = ntohs (bytes_at rbuf 0 2) \<and> (\<exists>q2. msg_query m = Some [q2] \<and> rfc1035QueryCompare q' q2 = 0)"
    if rb: "length W + 16 \<le> rsz" "rsz \<le> length rbuf" "bytes_at rbuf 12 (length W + 4) = Q" "rfc1035MessageUnpack garbage rbuf rsz = Inr (k, Some m)"
    for rbuf rsz k m
  proof -
    obtain g where g: "rfc1035HeaderUnpack rbuf rsz 0 zero_message = Inr (0, 12, g)" "msg_id g = ntohs (bytes_at rbuf 0 2)"
      using HeaderUnpack_long [of rsz rbuf] rb(1,2) by auto
    obtain q2 o2 where q2: "rfc1035QueryUnpack rbuf rsz 12 zero_query = Inr (0, o2, q2)" "rfc1035QueryCompare q' q2 = 0"
      using echo [OF _ _ _ rb(1-3)] v(2) by (auto simp: q'_def)
    have "msg_id m = msg_id g \<and> msg_query m = Some [q2]"
      using rb(4) unfolding MessageUnpack_cases [OF g(1) q2(1)] by (auto simp: outcome_simps split: if_splits)
    then show ?thesis using g(2) q2(2) by simp
  qed
  ultimately show ?thesis using v(3) n q unfolding H_def [symmetric] Q_def [symmetric] b'_def [symmetric] q'_def [symmetric] W_def [symmetric]
    by (intro exI [of _ b'] exI [of _ q'] exI [of _ "length W + 16 + length v"]) auto
qed

definition sample_host :: bytes where
  "sample_host = [119, 46, 97]"

lemma sample_host_ok: "host_ok sample_host" "wire_name sample_host = [1, 119, 1, 97, 0]"
  by (simp_all add: host_ok_def sample_host_def strtok_all.simps join_labels_def wire_name_def name_labels_def encode_labels_def encode_label_def
    RFC1035_MAXLABELSZ_def)

theorem dns_query_reply_witness:
  "\<exists>buf' q' n m. rfc3596BuildHostQuery 16384 [] sample_host (replicate 512 0) 512 7 (Some zero_query) RFC1035_TYPE_A 0 = Inr (buf', Some q', n) \<and>
     rfc1035MessageUnpack (\<lambda>n. replicate n 170) buf' n = Inr (0, Some m) \<and> msg_id m = 7"
proof -
  have "length (wire_name sample_host) + 16 + (if 0 < (0 :: int) then 11 else 0) \<le> 512" "512 \<le> length (replicate 512 (0 :: byte))"
    "length (q_name zero_query) = RFC1035_MAXHOSTNAMESZ" by (simp_all add: sample_host_ok(2) zero_query_def)
  from dns_query_reply [OF sample_host_ok(1) this, of 16384 "[]" 7 RFC1035_TYPE_A "\<lambda>n. replicate n 170"] show ?thesis by blast
qed

section \<open>The reverse names, and two limits of the code\<close>

lemma takeWhile_label: "dot \<notin> set l \<Longrightarrow> takeWhile (\<lambda>c. c \<noteq> dot) (l @ dot # r) = l \<and> dropWhile (\<lambda>c. c \<noteq> dot) (l @ dot # r) = dot # r"
  by (induction l) auto

lemma strtok_dotted: "\<forall>l \<in> set ls. l \<noteq> [] \<and> dot \<notin> set l \<Longrightarrow> strtok_all dot (dotted ls) = ls \<and> strtok_all dot (dot # dotted ls) = ls"
proof (induction ls)
  case (Cons l ls)
  then obtain c l' where l: "l = c # l'" "c \<noteq> dot" by (cases l) auto
  have "strtok_all dot (dotted (l # ls)) = l # strtok_all dot (dot # dotted ls)"
    using takeWhile_label [of l "dotted ls"] Cons.prems l by (subst strtok_all.simps) (auto simp: Let_def)
  moreover have "strtok_all dot (dot # dotted (l # ls)) = strtok_all dot (dotted (l # ls))"
    by (subst strtok_all.simps, subst (2) strtok_all.simps) simp
  ultimately show ?case using Cons by simp
qed (simp add: strtok_all.simps)

lemma host_ok_dotted:
  assumes "ls \<noteq> []" "\<forall>l \<in> set ls. l \<noteq> [] \<and> length l \<le> 63 \<and> dot \<notin> set l \<and> 0 \<notin> set l" "length (dotted ls) \<le> 254"
  shows "host_ok (dotted ls)"
proof -
  have "strtok_all dot (dotted ls) = ls" using strtok_dotted assms(2) by blast
  moreover have "0 \<notin> set (dotted ls)" using set_dotted [of ls] assms(2) by fastforce
  ultimately show ?thesis using assms dotted_join [OF assms(1)] by (simp add: host_ok_def list_all_iff)
qed

lemma hex_digit_plain: "hex_digit (n AND 0xF) \<noteq> dot \<and> hex_digit (n AND 0xF) \<noteq> 0"
proof -
  have "\<forall>k \<in> set [0..<16]. hex_digit (of_nat k) \<noteq> dot \<and> hex_digit (of_nat k) \<noteq> 0" by (simp add: hex_digit_def upt_rec)
  moreover have "n AND 0xF = of_nat (unat (n AND 0xF))" by simp
  moreover have "unat (n AND 0xF) < 16" using word_and_le1 [of n "0xF"] by (simp add: word_le_nat_alt)
  ultimately show ?thesis by (metis atLeastLessThan_iff le0 set_upt)
qed

lemma length_decimal: "n < 1000 \<Longrightarrow> length (decimal n) \<le> 3"
proof -
  have one: "length (decimal k) = 1" if "k < 10" for k using that by (subst decimal.simps) simp
  have two: "length (decimal k) \<le> 2" if "k < 100" for k using that one [of "k div 10"] one [of k] by (subst decimal.simps) auto
  show "n < 1000 \<Longrightarrow> ?thesis" using two [of "n div 10"] by (subst decimal.simps) auto
qed

lemma decimal_label:
  assumes "n < 256" "l = octets_of (decimal n)"
  shows "l \<noteq> [] \<and> length l \<le> 3 \<and> dot \<notin> set l \<and> 0 \<notin> set l"
proof -
  have "\<forall>k \<in> {48..<58}. of_nat k \<noteq> dot \<and> of_nat k \<noteq> (0 :: byte)" unfolding set_upt [symmetric] by (simp add: upt_rec)
  then have "of_nat (of_char c) \<noteq> dot \<and> of_nat (of_char c) \<noteq> (0 :: byte)" if "is_digit c" for c
    using that by (simp add: is_digit_def)
  then show ?thesis using decimal_digits [of n] length_decimal [of n] assms by (auto simp: octets_of_def list_all_iff)
qed

lemma unat_octet: "unat (i AND 255) < 256" for i :: "32 word"
  using word_and_le1 [of i 255] by (simp add: word_le_nat_alt)

lemma rev_name4_host_ok: "host_ok (rev_name4 i)"
proof -
  define ls where "ls = [octets_of (decimal (unat (i AND 255))), octets_of (decimal (unat (drop_bit 8 i AND 255))),
    octets_of (decimal (unat (drop_bit 16 i AND 255))), octets_of (decimal (unat (drop_bit 24 i AND 255))), octets_of ''in-addr'', octets_of ''arpa'']"
  note d = decimal_label [OF unat_octet refl]
  have "rev_name4 i = dotted ls" by (simp add: rev_name4_def ls_def octets_of_def)
  moreover have "\<forall>l \<in> set ls. l \<noteq> [] \<and> length l \<le> 63 \<and> dot \<notin> set l \<and> 0 \<notin> set l"
    using d [of i] d [of "drop_bit 8 i"] d [of "drop_bit 16 i"] d [of "drop_bit 24 i"] unfolding ls_def by (auto simp: octets_of_def)
  moreover have "length (dotted ls) \<le> 254"
    using d [of i] d [of "drop_bit 8 i"] d [of "drop_bit 16 i"] d [of "drop_bit 24 i"] unfolding ls_def by (simp add: octets_of_def)
  ultimately show ?thesis using host_ok_dotted [of ls] by (simp add: ls_def)
qed

fun nibble_labels :: "bytes \<Rightarrow> nat \<Rightarrow> bytes list" where
  "nibble_labels r 0 = []"
| "nibble_labels r (Suc i) = [hex_digit (r ! i AND 0xF)] # [hex_digit (drop_bit 4 (r ! i) AND 0xF)] # nibble_labels r i"

lemma nibble_labels_dotted: "rev_nibbles r n = dotted (nibble_labels r n)" "length (dotted (nibble_labels r n)) = 4 * n"
  "l \<in> set (nibble_labels r n) \<Longrightarrow> length l = 1 \<and> dot \<notin> set l \<and> 0 \<notin> set l"
  by (induction n) (auto simp: hex_digit_plain)

lemma rev_name6_host_ok: "host_ok (rev_name6 addr)"
proof -
  define ls where "ls = nibble_labels addr 16 @ [octets_of ''ip6'', octets_of ''arpa'']"
  have "rev_name6 addr = dotted ls" "length (dotted ls) = 73"
    using nibble_labels_dotted(2) [of addr 16] by (simp_all add: rev_name6_def ls_def nibble_labels_dotted(1) octets_of_def dotted_def)
  moreover have "\<forall>l \<in> set ls. l \<noteq> [] \<and> length l \<le> 63 \<and> dot \<notin> set l \<and> 0 \<notin> set l"
    using nibble_labels_dotted(3) [of _ addr 16] unfolding ls_def by (fastforce simp: octets_of_def)
  ultimately show ?thesis using host_ok_dotted [of ls] by (simp add: ls_def)
qed

text \<open>The octets of a compression pointer are read before the bounds are checked: a message that ends in the first of them is read past its end.\<close>

lemma dns_pointer_overread: "rfc1035NameUnpack [192] 1 0 None (replicate RFC1035_MAXHOSTNAMESZ 0) RFC1035_MAXHOSTNAMESZ = Inl OutOfBounds"
  by (simp add: rfc1035NameUnpack_def name_loop.simps read_octets_def bytes_at_def read16_def RFC1035_MAXHOSTNAMESZ_def)

text \<open>The packed name of \<open>a..b\<close>, which the comment in the source calls valid, has two labels; the question in the reply then differs from the remembered
  name, so that every reply is taken for the answer to another query.\<close>

lemma dns_empty_label_mismatch:
  "wire_name [97, dot, dot, 98] = [1, 97, 1, 98, 0]"
  "rfc1035QueryCompare \<lparr>q_name = [97, dot, dot, 98, 0], q_type = t, q_class = c\<rparr> \<lparr>q_name = [97, dot, 98, 0], q_type = t, q_class = c\<rparr> = 1"
  by (simp_all add: wire_name_def name_labels_def encode_labels_def encode_label_def RFC1035_MAXLABELSZ_def strtok_all.simps
    rfc1035QueryCompare_def c_str_def)

end
