(* ===== verification/Shared_Pages.thy ===== *)
theory Shared_Pages
  imports Page_Stack
begin

text \<open>
  The pages of shared memory as their users see them: \<^verbatim>\<open>src/ipc/mem/Pages.cc\<close> over one page pool, with the limits
  for each purpose and the memory of the pages.  The calls here run without interference (the interleavings
  inside the pool are the matter of \<open>Page_Stack\<close>), and the loops of the pool run at most as often as it has pages.
  The locale \<open>page_lender\<close> is what the owner of a page relies on.
\<close>

section \<open>State and routines\<close>

definition PageSize :: nat where
  "PageSize = 32 * 1024"

record shared_pages =
  ThePagePool :: "page_pool option"
  TheLimits :: "purpose \<Rightarrow> int"
  storage :: bytes

definition with_pool :: "fault \<Rightarrow> shared_pages \<Rightarrow> (page_pool \<Rightarrow> 'a outcome) \<Rightarrow> 'a outcome" where
  "with_pool f s k = (case ThePagePool s of None \<Rightarrow> Inl f | Some pl \<Rightarrow> k pl)"

text \<open>A loop that is not over after its bound.\<close>

definition bounded :: "'a outcome option \<Rightarrow> 'a outcome" where
  "bounded r = (case r of None \<Rightarrow> Inl LoopBound | Some x \<Rightarrow> x)"

text \<open>The array of limits has no place for \<^verbatim>\<open>maxPurpose\<close>, which the check in the source lets pass.\<close>

definition PageLimit :: "purpose \<Rightarrow> shared_pages \<Rightarrow> int outcome" where
  "PageLimit u s = guardE (u \<noteq> maxPurpose) OutOfBounds (Inr (TheLimits s u))"

definition PageLimit_all :: "shared_pages \<Rightarrow> int" where
  "PageLimit_all s = TheLimits s cachePage + TheLimits s ioPage"

definition NotePageNeed :: "purpose \<Rightarrow> int \<Rightarrow> shared_pages \<Rightarrow> shared_pages outcome" where
  "NotePageNeed u n s =
     guardE (n \<ge> 0) MustFault
       (guardE (u \<noteq> maxPurpose) OutOfBounds (Inr (s\<lparr>TheLimits := (TheLimits s)(u := TheLimits s u + n)\<rparr>)))"

definition PageLevel :: "purpose \<Rightarrow> shared_pages \<Rightarrow> int outcome" where
  "PageLevel u s = (case ThePagePool s of None \<Rightarrow> Inr 0 | Some pl \<Rightarrow> pool_level u pl)"

definition PageLevel_all :: "shared_pages \<Rightarrow> int" where
  "PageLevel_all s = (case ThePagePool s of None \<Rightarrow> 0 | Some pl \<Rightarrow> int (theCapacity (pageIndex pl)) - ps_size (pageIndex pl))"

text \<open>The difference is computed in \<^verbatim>\<open>size_t\<close>.\<close>

definition PagesAvailable :: "purpose \<Rightarrow> shared_pages \<Rightarrow> 64 word outcome" where
  "PagesAvailable u s =
     bindE (PageLimit u s) (\<lambda>lim. bindE (PageLevel u s) (\<lambda>lev. Inr (of_int lim - of_int lev)))"

definition GetPage :: "purpose \<Rightarrow> page_id \<Rightarrow> shared_pages \<Rightarrow> (bool \<times> page_id \<times> shared_pages) outcome" where
  "GetPage u p s =
     (case ThePagePool s of
        None \<Rightarrow> Inr (False, p, s)
      | Some pl \<Rightarrow>
          bindE (PagesAvailable u s) (\<lambda>n.
            if n > 0 then
              bindE (bounded (pool_get (theCapacity (pageIndex pl)) u p pl)) (\<lambda>(ok, p', pl').
                Inr (ok, p', s\<lparr>ThePagePool := Some pl'\<rparr>))
            else Inr (False, p, s)))"

definition PutPage :: "page_id \<Rightarrow> shared_pages \<Rightarrow> (page_id \<times> shared_pages) outcome" where
  "PutPage p s =
     with_pool MustFault s (\<lambda>pl.
       bindE (bounded (pool_put (theCapacity (pageIndex pl)) p pl)) (\<lambda>(p', pl'). Inr (p', s\<lparr>ThePagePool := Some pl'\<rparr>)))"

definition PagePointer :: "page_id \<Rightarrow> shared_pages \<Rightarrow> nat outcome" where
  "PagePointer p s = with_pool MustFault s (pagePointer p)"

text \<open>At start: \<^verbatim>\<open>SharedMemPagesRr\<close> makes the pool when any pages were asked for; the segment starts as zeros.\<close>

definition no_pages :: shared_pages where
  "no_pages = \<lparr>ThePagePool = None, TheLimits = (\<lambda>u. 0), storage = []\<rparr>"

definition pool_init :: "nat \<Rightarrow> nat \<Rightarrow> nat \<Rightarrow> page_pool" where
  "pool_init i cap sz = \<lparr>poolId = i, pageSize = sz, pageIndex = new_stack cap, theLevels = (\<lambda>u. 0)\<rparr>"

definition SharedMemPagesRr_run :: "shared_pages \<Rightarrow> shared_pages outcome" where
  "SharedMemPagesRr_run s =
     (if PageLimit_all s \<le> 0 then Inr s
      else guardE (ThePagePool s = None) MustFault
        (let cap = nat (PageLimit_all s)
         in Inr (s\<lparr>ThePagePool := Some (pool_init 1 cap PageSize), storage := replicate (PageSize * cap) 0\<rparr>)))"

section \<open>The pool as a lender of pages\<close>

text \<open>The numbers of the free pages, in the order of the slots of the stack.\<close>

definition in_stock :: "page_stack \<Rightarrow> nat list" where
  "in_stock s = filter (\<lambda>v. v \<noteq> 0) (theItems s)"

definition free_pages :: "page_pool \<Rightarrow> nat set" where
  "free_pages pl = set (in_stock (pageIndex pl))"

definition pool_ok :: "nat \<Rightarrow> page_pool \<Rightarrow> bool" where
  "pool_ok cap pl \<longleftrightarrow> stack_ok cap (pageIndex pl) \<and> poolId pl \<noteq> 0 \<and> free_pages pl \<subseteq> {1..cap} \<and>
     theSize (pageIndex pl) = int (length (in_stock (pageIndex pl))) \<and> distinct (in_stock (pageIndex pl))"

lemma in_stock_split:
  assumes "i < length (theItems s)" "theItems t = (theItems s)[i := y]"
  obtains A B where "in_stock t = A @ (if y \<noteq> 0 then [y] else []) @ B"
    "in_stock s = A @ (if theItems s ! i \<noteq> 0 then [theItems s ! i] else []) @ B"
proof
  let ?A = "filter (\<lambda>v. v \<noteq> 0) (take i (theItems s))" and ?B = "filter (\<lambda>v. v \<noteq> 0) (drop (Suc i) (theItems s))"
  show "in_stock t = ?A @ (if y \<noteq> 0 then [y] else []) @ ?B"
    using assms by (simp add: in_stock_def upd_conv_take_nth_drop)
  have "filter (\<lambda>v. v \<noteq> 0) (take i (theItems s) @ theItems s ! i # drop (Suc i) (theItems s)) =
    ?A @ (if theItems s ! i \<noteq> 0 then [theItems s ! i] else []) @ ?B" by simp
  then show "in_stock s = ?A @ (if theItems s ! i \<noteq> 0 then [theItems s ! i] else []) @ ?B"
    unfolding in_stock_def using id_take_nth_drop [OF assms(1)] by simp
qed

lemma pool_ok_pop:
  assumes "pool_ok cap pl" "theSize (pageIndex pl) > 0"
  shows "\<exists>v s. ps_pop cap (pageIndex pl) = Some (Some v, s) \<and> v \<in> free_pages pl \<and>
    pool_ok cap (pl\<lparr>pageIndex := s, theLevels := L\<rparr>) \<and> free_pages (pl\<lparr>pageIndex := s, theLevels := L\<rparr>) = free_pages pl - {v}"
proof -
  let ?s = "pageIndex pl"
  have ok: "stack_ok cap ?s" "theSize ?s = int (length (in_stock ?s))" "distinct (in_stock ?s)"
    using assms(1) by (auto simp: pool_ok_def)
  have "filter (\<lambda>v. v \<noteq> 0) (theItems ?s) \<noteq> []" using assms(2) ok(2) unfolding in_stock_def by auto
  then obtain t where t: "t < cap" "theItems ?s ! t \<noteq> 0"
    using ok(1) by (auto simp: filter_empty_conv in_set_conv_nth stack_ok_def)
  obtain d where d: "d < cap" "(prev_idx cap ^^ d) (theLastReadable ?s) = t"
    using prev_reaches [OF _ t(1)] ok(1) by (auto simp: stack_ok_def)
  have "stack_ok cap (?s\<lparr>theSize := theSize ?s - 1\<rparr>)" using ok(1) by (simp add: stack_ok_def)
  from pop_loop_finds [OF this, of d cap] d t(2) assms(2)
  obtain v s1 i where pop: "ps_pop cap ?s = Some (Some v, s1)" "v \<noteq> 0" "theSize s1 = theSize ?s - 1"
      "stack_ok cap s1" "i < cap" "theItems ?s ! i = v" "theItems s1 = (theItems ?s)[i := 0]"
    by (auto simp: ps_pop_def)
  have i: "i < length (theItems ?s)" using pop(5) ok(1) by (simp add: stack_ok_def)
  obtain A B where f: "in_stock s1 = A @ B" "in_stock ?s = A @ v # B"
    using in_stock_split [OF i pop(7)] pop(2,6) by auto
  have "free_pages (pl\<lparr>pageIndex := s1, theLevels := L\<rparr>) = free_pages pl - {v}" "v \<in> free_pages pl"
    using ok(3) by (auto simp: free_pages_def f)
  moreover have "pool_ok cap (pl\<lparr>pageIndex := s1, theLevels := L\<rparr>)"
    using assms(1) pop(3,4) ok(2,3) calculation(1) unfolding pool_ok_def by (auto simp: f)
  ultimately show ?thesis using pop(1) by blast
qed

lemma pool_ok_push:
  assumes "pool_ok cap pl" "v \<in> {1..cap}" "v \<notin> free_pages pl"
  shows "\<exists>s. ps_push cap (poolId pl) (poolId pl) v (pageIndex pl) = Some (Inr s) \<and>
    pool_ok cap (pl\<lparr>pageIndex := s, theLevels := L\<rparr>) \<and> free_pages (pl\<lparr>pageIndex := s, theLevels := L\<rparr>) = insert v (free_pages pl)"
proof -
  let ?s = "pageIndex pl"
  have ok: "stack_ok cap ?s" "theSize ?s = int (length (in_stock ?s))" "distinct (in_stock ?s)"
    using assms(1) by (auto simp: pool_ok_def)
  have "card (free_pages pl) < card {1..cap}" using assms by (intro psubset_card_mono) (auto simp: pool_ok_def)
  then have room: "length (in_stock ?s) < cap" using distinct_card [OF ok(3)] by (simp add: free_pages_def)
  obtain t where t: "t < cap" "theItems ?s ! t = 0" using some_writable [OF ok(1)] room by (auto simp: in_stock_def)
  obtain e where "e < cap" "(next_idx cap ^^ e) (theFirstWritable ?s) = t"
    using next_reaches [OF _ t(1)] ok(1) by (auto simp: stack_ok_def)
  with push_loop_finds [OF ok(1), of e cap v] t(2) room ok(2)
  obtain s2 j where push: "push_loop cap v ?s = Some (Inr s2)" "theSize s2 = theSize ?s + 1" "stack_ok cap s2"
      "j < cap" "theItems ?s ! j = 0" "theItems s2 = (theItems ?s)[j := v]" by auto
  have j: "j < length (theItems ?s)" using push(4) ok(1) by (simp add: stack_ok_def)
  obtain A B where f: "in_stock s2 = A @ v # B" "in_stock ?s = A @ B"
    using in_stock_split [OF j push(6)] push(5) assms(2) by auto
  have "free_pages (pl\<lparr>pageIndex := s2, theLevels := L\<rparr>) = insert v (free_pages pl)" by (auto simp: free_pages_def f)
  moreover have "pool_ok cap (pl\<lparr>pageIndex := s2, theLevels := L\<rparr>)"
    using assms push(2,3) ok(2,3) calculation unfolding pool_ok_def by (auto simp: f free_pages_def)
  moreover have "ps_push cap (poolId pl) (poolId pl) v ?s = Some (Inr s2)"
    using push(1) assms(1,2) ok(1) by (auto simp: ps_push_def pageIdIsValid_def pool_ok_def stack_ok_def)
  ultimately show ?thesis by blast
qed

text \<open>
  What a user of pages relies on: a page it takes was free and is its own from then on, and it can always give back
  a page of its own.
\<close>

locale page_lender =
  fixes ok :: "'s \<Rightarrow> bool" and stock :: "'s \<Rightarrow> nat set" and all_pages :: "nat set"
    and take_page :: "'s \<Rightarrow> (nat option \<times> 's) outcome" and give_page :: "nat \<Rightarrow> 's \<Rightarrow> 's outcome"
  assumes stock_pages: "ok s \<Longrightarrow> stock s \<subseteq> all_pages"
    and take_empty: "ok s \<Longrightarrow> stock s = {} \<Longrightarrow> take_page s = Inr (None, s)"
    and take_some: "ok s \<Longrightarrow> stock s \<noteq> {} \<Longrightarrow>
      \<exists>v s'. take_page s = Inr (Some v, s') \<and> v \<in> stock s \<and> ok s' \<and> stock s' = stock s - {v}"
    and give_back: "ok s \<Longrightarrow> v \<in> all_pages - stock s \<Longrightarrow> \<exists>s'. give_page v s = Inr s' \<and> ok s' \<and> stock s' = insert v (stock s)"
begin

lemma take_cases:
  assumes "ok s"
  obtains (none) "stock s = {}" "take_page s = Inr (None, s)"
  | (some) v s' where "take_page s = Inr (Some v, s')" "v \<in> stock s" "v \<in> all_pages" "ok s'" "stock s' = stock s - {v}"
  using take_empty [OF assms] take_some [OF assms] stock_pages [OF assms] by blast

lemma take_give:
  assumes "ok s" "take_page s = Inr (Some v, s1)"
  shows "\<exists>s2. give_page v s1 = Inr s2 \<and> ok s2 \<and> stock s2 = stock s"
  using assms(1)
proof (cases rule: take_cases)
  case (some w s')
  then show ?thesis using assms(2) give_back [of s' v] by (auto simp: insert_absorb)
qed (use assms(2) in simp)

end

text \<open>The pool lends pages for one purpose; the level of that purpose is counted.\<close>

definition lend :: "purpose \<Rightarrow> page_pool \<Rightarrow> (nat option \<times> page_pool) outcome" where
  "lend u pl = bindE (bounded (pool_get (theCapacity (pageIndex pl)) u no_page pl)) (\<lambda>(r, p, pl').
     Inr (if r then Some (page_number p) else None, pl'))"

definition own_page :: "purpose \<Rightarrow> page_pool \<Rightarrow> nat \<Rightarrow> page_id" where
  "own_page u pl v = \<lparr>page_pool_id = poolId pl, page_number = v, page_purpose = u\<rparr>"

definition take_back :: "purpose \<Rightarrow> nat \<Rightarrow> page_pool \<Rightarrow> page_pool outcome" where
  "take_back u v pl = bindE (bounded (pool_put (theCapacity (pageIndex pl)) (own_page u pl v) pl)) (\<lambda>(p, pl'). Inr pl')"

lemma pool_get_page:
  assumes "pool_ok cap pl" "u \<noteq> maxPurpose"
  shows "if free_pages pl = {} then pool_get cap u no_page pl = Some (Inr (False, no_page, pl))
    else \<exists>v s. let pl' = pl\<lparr>pageIndex := s, theLevels := (theLevels pl)(u := theLevels pl u + 1)\<rparr> in
      pool_get cap u no_page pl = Some (Inr (True, own_page u pl v, pl')) \<and> v \<in> free_pages pl \<and> pool_ok cap pl' \<and> free_pages pl' = free_pages pl - {v}"
proof (cases "free_pages pl = {}")
  case True
  then have "theSize (pageIndex pl) = 0" "0 < cap" using assms(1) by (auto simp: pool_ok_def free_pages_def stack_ok_def)
  then have "ps_pop cap (pageIndex pl) = Some (None, pageIndex pl)" by (cases cap) (simp_all add: ps_pop_def)
  then show ?thesis using True assms(2) by (simp add: pool_get_def page_set_def no_page_def)
next
  case False
  then have "theSize (pageIndex pl) > 0" using assms(1) by (auto simp: pool_ok_def free_pages_def)
  from pool_ok_pop [OF assms(1) this, of "(theLevels pl)(u := theLevels pl u + 1)"] obtain v t where
    "ps_pop cap (pageIndex pl) = Some (Some v, t)" "v \<in> free_pages pl"
    "pool_ok cap (pl\<lparr>pageIndex := t, theLevels := (theLevels pl)(u := theLevels pl u + 1)\<rparr>)"
    "free_pages (pl\<lparr>pageIndex := t, theLevels := (theLevels pl)(u := theLevels pl u + 1)\<rparr>) = free_pages pl - {v}" by blast
  then show ?thesis
    using False assms(2) by (simp add: pool_get_def page_set_def no_page_def own_page_def Let_def) blast
qed

lemma pool_put_page:
  assumes "pool_ok cap pl" "u \<noteq> maxPurpose" "v \<in> {1..cap}" "v \<notin> free_pages pl"
  shows "\<exists>s. let pl' = pl\<lparr>pageIndex := s, theLevels := (theLevels pl)(u := theLevels pl u - 1)\<rparr> in
    pool_put cap (own_page u pl v) pl = Some (Inr (no_page, pl')) \<and> pool_ok cap pl' \<and> free_pages pl' = insert v (free_pages pl)"
  using pool_ok_push [OF assms(1,3,4), of "(theLevels pl)(u := theLevels pl u - 1)"] assms
  by (auto simp: pool_put_def page_set_def own_page_def pool_ok_def Let_def)

lemma pool_ok_capacity: "pool_ok cap pl \<Longrightarrow> theCapacity (pageIndex pl) = cap"
  by (simp add: pool_ok_def stack_ok_def)

lemma pool_ok_init: "0 < cap \<Longrightarrow> i \<noteq> 0 \<Longrightarrow> pool_ok cap (pool_init i cap sz) \<and> free_pages (pool_init i cap sz) = {1..cap}"
proof -
  assume "0 < cap" "i \<noteq> 0"
  have "in_stock (new_stack cap) = map Suc [0..<cap]" by (simp add: in_stock_def new_stack_def comp_def)
  moreover have "stack_ok cap (new_stack cap)"
    using \<open>0 < cap\<close> by (simp add: stack_ok_def new_stack_def next_idx_def prev_idx_def)
  moreover have "set (map Suc [0..<cap]) = {1..cap}" by (simp only: map_Suc_upt set_upt atLeastLessThanSuc_atLeastAtMost) simp
  ultimately show ?thesis
    using \<open>i \<noteq> 0\<close> by (simp add: pool_ok_def pool_init_def free_pages_def new_stack_def distinct_map)
qed

interpretation cache_lender: page_lender "pool_ok cap" free_pages "{1..cap}" "lend cachePage" "take_back cachePage"
proof
  fix s v
  assume ok: "pool_ok cap s"
  note g = pool_get_page [OF ok, of cachePage] and c = pool_ok_capacity [OF ok]
  show "free_pages s \<subseteq> {1..cap}" using ok by (simp add: pool_ok_def)
  show "lend cachePage s = Inr (None, s)" if "free_pages s = {}" using g c that by (simp add: lend_def bounded_def)
  show "\<exists>v s'. lend cachePage s = Inr (Some v, s') \<and> v \<in> free_pages s \<and> pool_ok cap s' \<and> free_pages s' = free_pages s - {v}"
    if "free_pages s \<noteq> {}" using g c that by (auto simp: lend_def bounded_def own_page_def Let_def)
  show "\<exists>s'. take_back cachePage v s = Inr s' \<and> pool_ok cap s' \<and> free_pages s' = insert v (free_pages s)" if "v \<in> {1..cap} - free_pages s"
    using pool_put_page [OF ok, of cachePage v] c that by (auto simp: take_back_def bounded_def Let_def)
qed

end
