(* ===== verification/Mem_Store.thy ===== *)
theory Mem_Store
  imports Store_Map Shared_Pages Mem_Hdr
begin

unbundle bit_operations_syntax

text \<open>
  The shared memory cache: \<^verbatim>\<open>src/MemStore.cc\<close>, which puts three components together: the store map as the
  index of cached objects, the pages of shared memory for their content, and the in-memory data of the entries that a worker
  copies from and to.  Each call of the class runs without interference here; what may happen between the
  instructions of the map's lock, of the page stack and of the map is the subject of their theories.  The
  parser of the stored headers is a parameter (\<open>parse\<close>).
\<close>

section \<open>State\<close>

record map_extras =
  ex_page :: page_id
  storedSize :: int

text \<open>The shared structures, and the member \<^verbatim>\<open>theCurrentSize\<close> of the \<^verbatim>\<open>MemStore\<close> object of each process.\<close>

record mem_store =
  has_map :: bool
  ms_map :: store_map
  ms_extras :: "map_extras list"
  ms_shm :: shared_pages
  theCurrentSize :: "nat \<Rightarrow> 64 word"

text \<open>The members of an entry and its memory object that matter here; \<open>mo_reply_size\<close> is the size that the reply headers
  announce, or -1.\<close>

record mem_object =
  data_hdr :: mem_hdr
  inmem_lo :: int
  object_sz :: int
  mo_reply_size :: int

record cached_entry =
  ce_key :: cache_key
  ce_basics :: slot_basics
  store_ok :: bool
  swapout_done :: bool
  mem_obj :: "mem_object option"
  hidden_mem_obj :: "mem_object option"

record mem_config =
  maxInMemObjSize :: int
  memory_cache_first :: bool
  memShared :: bool
  memMaxSize :: int

section \<open>Decisions\<close>

definition expectedReplySize :: "mem_object \<Rightarrow> int" where
  "expectedReplySize mo = (if object_sz mo \<ge> 0 then object_sz mo else if mo_reply_size mo \<ge> 0 then mo_reply_size mo else -1)"

definition memoryCachable :: "mem_config \<Rightarrow> cached_entry \<Rightarrow> bool" where
  "memoryCachable cfg e =
     (case mem_obj e of
        None \<Rightarrow> False
      | Some mo \<Rightarrow>
          if splay_size (nodes (data_hdr mo)) = 0 then False
          else if inmem_lo mo \<noteq> 0 then False
          else if \<not> memory_cache_first cfg \<and> swapout_done e \<and> refcount (ce_basics e) = 1 then False
          else True)"

definition willFit :: "int \<Rightarrow> bool" where
  "willFit need \<longleftrightarrow> need \<le> int PageSize"

definition keepInLocalMemory :: "mem_config \<Rightarrow> cached_entry \<Rightarrow> bool outcome" where
  "keepInLocalMemory cfg e =
     (if \<not> memoryCachable cfg e then Inr False
      else case mem_obj e of
        None \<Rightarrow> Inl AssertFault
      | Some mo \<Rightarrow>
          bindE (endOffset (data_hdr mo)) (\<lambda>loadedSize.
            let ramSize = max loadedSize (expectedReplySize mo)
            in if ramSize > maxInMemObjSize cfg then Inr False else Inr (willFit ramSize)))"

definition EntryLimit :: "mem_config \<Rightarrow> int" where
  "EntryLimit cfg = (if \<not> memShared cfg \<or> memMaxSize cfg = 0 then 0 else memMaxSize cfg div int PageSize)"

definition currentCount :: "mem_store \<Rightarrow> int" where
  "currentCount s = (if has_map s then entryCount (ms_map s) else 0)"

section \<open>Copying and cleaning\<close>

definition extras_at :: "mem_store \<Rightarrow> int \<Rightarrow> map_extras outcome" where
  "extras_at s f = guardE (valid (ms_map s) f) AssertFault (Inr (ms_extras s ! nat f))"

definition set_extras :: "mem_store \<Rightarrow> int \<Rightarrow> map_extras \<Rightarrow> mem_store" where
  "set_extras s f x = s\<lparr>ms_extras := (ms_extras s)[nat f := x]\<rparr>"

definition cleanReadable :: "nat \<Rightarrow> int \<Rightarrow> mem_store \<Rightarrow> mem_store outcome" where
  "cleanReadable p f s =
     bindE (extras_at s f) (\<lambda>x.
     bindE (PutPage (ex_page x) (ms_shm s)) (\<lambda>(page, shm).
     Inr ((set_extras s f (x\<lparr>ex_page := page\<rparr>))\<lparr>ms_shm := shm,
       theCurrentSize := (theCurrentSize s)(p := theCurrentSize s p - of_nat PageSize)\<rparr>)))"

fun clean_all :: "nat \<Rightarrow> int list \<Rightarrow> mem_store \<Rightarrow> mem_store outcome" where
  "clean_all p [] s = Inr s"
| "clean_all p (f # fs) s = bindE (cleanReadable p f s) (clean_all p fs)"

text \<open>
  A call of the map by process \<open>p\<close>.  The map records its calls of the cleaner; they are carried out here.  The cleaner changes
  neither slots nor counters of the map, so that this is the same as calling it from inside the map.
\<close>

definition map_call :: "nat \<Rightarrow> (store_map \<Rightarrow> ('a \<times> store_map) outcome) \<Rightarrow> mem_store \<Rightarrow> ('a \<times> mem_store) outcome" where
  "map_call p call s =
     bindE (call ((ms_map s)\<lparr>cleaned := []\<rparr>)) (\<lambda>(r, m).
     bindE (clean_all p (cleaned m) (s\<lparr>ms_map := m\<lparr>cleaned := []\<rparr>\<rparr>)) (\<lambda>s'. Inr (r, s')))"

definition no_result :: "store_map outcome \<Rightarrow> (unit \<times> store_map) outcome" where
  "no_result r = bindE r (\<lambda>m. Inr ((), m))"

definition copyToShm :: "nat \<Rightarrow> mem_object \<Rightarrow> int \<Rightarrow> mem_store \<Rightarrow> (bool \<times> mem_object \<times> mem_store) outcome" where
  "copyToShm p mo f s =
     bindE (GetPage cachePage no_page (ms_shm s)) (\<lambda>(got, page, shm).
     if \<not> got then Inr (False, mo, s\<lparr>ms_shm := shm\<rparr>)
     else
       bindE (endOffset (data_hdr mo)) (\<lambda>eSize.
       bindE (PagePointer page shm) (\<lambda>base.
       bindE (mem_copy 0 PageSize (data_hdr mo)) (\<lambda>(bs, h).
       guardE (base + length bs \<le> length (storage shm)) OutOfBounds
         (let shm = shm\<lparr>storage := memcpy_at (storage shm) base bs\<rparr>; mo = mo\<lparr>data_hdr := h\<rparr>
          in if eSize \<noteq> int (length bs)
             then bindE (PutPage page shm) (\<lambda>(page, shm). Inr (False, mo, s\<lparr>ms_shm := shm\<rparr>))
             else Inr (True, mo, (set_extras s f \<lparr>ex_page = page, storedSize = int (length bs)\<rparr>)
               \<lparr>ms_shm := shm, theCurrentSize := (theCurrentSize s)(p := theCurrentSize s p + of_nat PageSize)\<rparr>))))))"

definition keep_entry :: "nat \<Rightarrow> cached_entry \<Rightarrow> mem_store \<Rightarrow> (cached_entry \<times> mem_store) outcome" where
  "keep_entry p e s =
     (if \<not> has_map s then Inr (e, s)
      else bindE (map_call p (\<lambda>m. openForWriting m (ce_key e)) s) (\<lambda>(slot, s).
        case slot of
          None \<Rightarrow> Inr (e, s)
        | Some f \<Rightarrow>
            (case mem_obj e of
               None \<Rightarrow> Inl OutOfBounds
             | Some mo \<Rightarrow>
                 bindE (copyToShm p mo f s) (\<lambda>(copied, mo, s).
                 let e = e\<lparr>mem_obj := Some mo\<rparr> in
                 if copied then
                   let m = ms_map s; m = put_slot m f (slot_set \<lparr>se_key = ce_key e, se_basics = ce_basics e\<rparr> (slot_at m f))
                   in bindE (map_call p (\<lambda>m. no_result (closeForWriting m f False)) (s\<lparr>ms_map := m\<rparr>)) (\<lambda>(u, s). Inr (e, s))
                 else bindE (map_call p (\<lambda>m. no_result (abortIo m f)) s) (\<lambda>(u, s). Inr (e, s))))))"

definition considerKeeping :: "mem_config \<Rightarrow> nat \<Rightarrow> cached_entry \<Rightarrow> mem_store \<Rightarrow> (cached_entry \<times> mem_store) outcome" where
  "considerKeeping cfg p e s =
     bindE (keepInLocalMemory cfg e) (\<lambda>wanted.
       if \<not> wanted then Inr (e, s)
       else if \<not> store_ok e then Inr (e, s)
       else case mem_obj e of
         None \<Rightarrow> Inl AssertFault
       | Some mo \<Rightarrow>
           bindE (endOffset (data_hdr mo)) (\<lambda>loadedSize.
             if expectedReplySize mo < 0 then Inr (e, s)
             else if loadedSize \<noteq> expectedReplySize mo then Inr (e, s)
             else keep_entry p e s))"

section \<open>Loading\<close>

definition RELEASE_REQUEST :: nat where "RELEASE_REQUEST = 3"

definition ENTRY_CACHABLE :: nat where "ENTRY_CACHABLE = 5"

definition KEY_PRIVATE :: nat where "KEY_PRIVATE = 7"

definition ENTRY_VALIDATED :: nat where "ENTRY_VALIDATED = 10"

definition loaded_flags :: "16 word \<Rightarrow> 16 word" where
  "loaded_flags fl = set_bit ENTRY_VALIDATED (unset_bit KEY_PRIVATE (unset_bit RELEASE_REQUEST (set_bit ENTRY_CACHABLE fl)))"

definition new_mem_object :: mem_object where
  "new_mem_object = \<lparr>data_hdr = new_mem_hdr, inmem_lo = 0, object_sz = -1, mo_reply_size = -1\<rparr>"

definition copyFromShm :: "(bytes \<Rightarrow> bool) \<Rightarrow> map_extras \<Rightarrow> shared_pages \<Rightarrow> mem_object option outcome" where
  "copyFromShm parse x shm =
     bindE (PagePointer (ex_page x) shm) (\<lambda>base.
     guardE (base + nat (storedSize x) \<le> length (storage shm)) OutOfBounds
       (let source = bytes_at (storage shm) base (nat (storedSize x))
        in if \<not> parse source then Inr None
           else bindE (bounded (mem_write 0 source new_mem_hdr)) (\<lambda>h.
             bindE (endOffset h) (\<lambda>written.
             guardE (written \<ge> 0 \<and> written = int (length source)) AssertFault
               (Inr (Some (new_mem_object\<lparr>object_sz := int (length source), data_hdr := h\<rparr>)))))))"

definition get_entry :: "(bytes \<Rightarrow> bool) \<Rightarrow> nat \<Rightarrow> cache_key \<Rightarrow> mem_store \<Rightarrow> (cached_entry option \<times> mem_store) outcome" where
  "get_entry parse p k s =
     (if \<not> has_map s then Inr (None, s)
      else bindE (map_call p (\<lambda>m. openForReading m k) s) (\<lambda>(slot, s).
        case slot of
          None \<Rightarrow> Inr (None, s)
        | Some f \<Rightarrow>
            let b = basics (slot_at (ms_map s) f) in
            bindE (extras_at s f) (\<lambda>x.
            bindE (copyFromShm parse x (ms_shm s)) (\<lambda>mo.
            bindE (map_call p (\<lambda>m. no_result (closeForReading m f)) s) (\<lambda>(u, s).
            case mo of
              Some mo \<Rightarrow> Inr (Some \<lparr>ce_key = k, ce_basics = b\<lparr>flags := loaded_flags (flags b)\<rparr>, store_ok = True,
                swapout_done = False, mem_obj = None, hidden_mem_obj = Some mo\<rparr>, s)
            | None \<Rightarrow> bindE (map_call p (\<lambda>m. no_result (free m f)) s) (\<lambda>(u, s). Inr (None, s)))))))"

section \<open>Starting\<close>

text \<open>
  \<^verbatim>\<open>MemStoreRr::create()\<close> makes the map and its extras in shared memory; \<^verbatim>\<open>MemStore::init()\<close> of a
  process attaches to it and registers the process as cleaner.
\<close>

definition init_store :: "mem_config \<Rightarrow> shared_pages \<Rightarrow> mem_store outcome" where
  "init_store cfg shm =
     (if EntryLimit cfg \<le> 0
      then Inr \<lparr>has_map = False, ms_map = \<lparr>limit = 0, count = 0, slots = [], cleaner = False, cleaned = []\<rparr>, ms_extras = [],
        ms_shm = shm, theCurrentSize = (\<lambda>p. 0)\<rparr>
      else bindE (new_map (EntryLimit cfg) True) (\<lambda>m.
        Inr \<lparr>has_map = True, ms_map = m, ms_extras = replicate (nat (EntryLimit cfg)) \<lparr>ex_page = no_page, storedSize = 0\<rparr>,
          ms_shm = shm, theCurrentSize = (\<lambda>p. 0)\<rparr>))"

text \<open>The whole start: the needs of the cache and of the disk processes (\<open>io\<close> pages) are noted, then the pool and the map are made.\<close>

definition start_up :: "mem_config \<Rightarrow> int \<Rightarrow> mem_store outcome" where
  "start_up cfg io =
     bindE (NotePageNeed cachePage (EntryLimit cfg) no_pages) (\<lambda>shm.
     bindE (NotePageNeed ioPage io shm) (\<lambda>shm.
     bindE (SharedMemPagesRr_run shm) (init_store cfg)))"

end
