(* ===== verification/Cache_Contract.thy ===== *)
theory Cache_Contract
  imports Squid_Prelude
begin

text \<open>
  What the users of a cache rely on, whatever its replacement policy: an entry may disappear at any time, but a key that is
  found has the content that was kept last under it.  The locale \<open>lossy_cache\<close> states the laws of the operations;
  its lemma follows sequences of operations of any length.
\<close>

datatype ('e, 'k) cache_op = Keep 'e | Look 'k

fun run_ops :: "('e \<Rightarrow> 's \<Rightarrow> ('a \<times> 's) outcome) \<Rightarrow> ('k \<Rightarrow> 's \<Rightarrow> ('b \<times> 's) outcome) \<Rightarrow> ('e, 'k) cache_op list \<Rightarrow> 's \<Rightarrow> 's outcome" where
  "run_ops keep look [] s = Inr s"
| "run_ops keep look (Keep e # ops) s = bindE (keep e s) (\<lambda>(r, s'). run_ops keep look ops s')"
| "run_ops keep look (Look k # ops) s = bindE (look k s) (\<lambda>(r, s'). run_ops keep look ops s')"

text \<open>The content that was kept last under a key, \<open>v\<close> if there was no attempt.\<close>

fun latest :: "('e \<Rightarrow> 'k) \<Rightarrow> ('e \<Rightarrow> 'v option option) \<Rightarrow> 'k \<Rightarrow> ('e, 'q) cache_op list \<Rightarrow> 'v option \<Rightarrow> 'v option" where
  "latest key_of off k [] v = v"
| "latest key_of off k (Look q # ops) v = latest key_of off k ops v"
| "latest key_of off k (Keep e # ops) v =
     latest key_of off k ops (if key_of e = k then (case off e of None \<Rightarrow> v | Some w \<Rightarrow> w) else v)"

definition op_ok :: "('e \<Rightarrow> bool) \<Rightarrow> ('e, 'q) cache_op \<Rightarrow> bool" where
  "op_ok okE x = (case x of Keep e \<Rightarrow> okE e | Look q \<Rightarrow> True)"

locale lossy_cache =
  fixes ok :: "'s \<Rightarrow> bool" and view :: "'s \<Rightarrow> 'k \<Rightarrow> 'v option" and okE :: "'e \<Rightarrow> bool"
    and key_of :: "'e \<Rightarrow> 'k" and off :: "'e \<Rightarrow> 'v option option"
    and keep :: "'e \<Rightarrow> 's \<Rightarrow> ('a \<times> 's) outcome" and look :: "'q \<Rightarrow> 's \<Rightarrow> ('b \<times> 's) outcome"
  assumes keep_law: "ok s \<Longrightarrow> okE e \<Longrightarrow> \<exists>r s'. keep e s = Inr (r, s') \<and> ok s' \<and>
      (\<forall>k. if key_of e = k \<and> off e \<noteq> None then view s' k = the (off e) else view s' k \<in> {None, view s k})"
    and look_law: "ok s \<Longrightarrow> \<exists>r s'. look q s = Inr (r, s') \<and> ok s' \<and> (\<forall>k. view s' k \<in> {None, view s k})"
begin

lemma never_stale:
  assumes "ok s" "list_all (op_ok okE) ops" "view s k \<in> {None, v}"
  shows "\<exists>s'. run_ops keep look ops s = Inr s' \<and> ok s' \<and> view s' k \<in> {None, latest key_of off k ops v}"
  using assms
proof (induction ops arbitrary: s v)
  case (Cons x ops)
  show ?case
  proof (cases x)
    case (Keep e)
    then obtain r s1 where s1: "keep e s = Inr (r, s1)" "ok s1"
      "if key_of e = k \<and> off e \<noteq> None then view s1 k = the (off e) else view s1 k \<in> {None, view s k}"
      using keep_law [OF Cons.prems(1), of e] Cons.prems(2) by (auto simp: op_ok_def)
    have "view s1 k \<in> {None, if key_of e = k then (case off e of None \<Rightarrow> v | Some w \<Rightarrow> w) else v}"
      using s1(3) Cons.prems(3) by (auto split: if_splits option.splits)
    from Cons.IH [OF s1(2) _ this] show ?thesis using s1(1) Cons.prems(2) Keep by simp
  next
    case (Look q)
    then obtain r s1 where s1: "look q s = Inr (r, s1)" "ok s1" "view s1 k \<in> {None, view s k}"
      using look_law [OF Cons.prems(1), of q] by auto
    then have "view s1 k \<in> {None, v}" using Cons.prems(3) by auto
    from Cons.IH [OF s1(2) _ this] show ?thesis using s1(1) Cons.prems(2) Look by simp
  qed
qed simp

end

end
