(* ===== verification/Memory_Cache.thy ===== *)
theory Memory_Cache
  imports Mem_Store Cache_Contract
begin

text \<open>
  Correctness of the shared memory cache: the index, the pages and the entries' data agree at the end of every call, no call
  fails, there is always a page for an object to be kept, and the whole behaves as a direct-mapped cache
  from keys to objects.
\<close>

section \<open>Pages held by slots\<close>

abbreviation area :: "page_id \<Rightarrow> nat" where
  "area p \<equiv> PageSize * (page_number p - 1)"

text \<open>
  The slots in \<open>R\<close> own one page each, as their extras \<open>X\<close> say; \<open>L\<close> pages are reserved for the cache, and the other users of the
  pool stay within their own limit.
\<close>

definition pages_held :: "nat \<Rightarrow> int set \<Rightarrow> (int \<Rightarrow> map_extras) \<Rightarrow> page_pool \<Rightarrow> bool" where
  "pages_held cap R X pl \<longleftrightarrow>
     (\<forall>f \<in> R. ex_page (X f) = own_page cachePage pl (page_number (ex_page (X f))) \<and> page_number (ex_page (X f)) \<in> {1..cap} - free_pages pl \<and>
        0 \<le> storedSize (X f) \<and> storedSize (X f) \<le> int PageSize) \<and>
     inj_on (\<lambda>f. page_number (ex_page (X f))) R"

definition shm_ok :: "nat \<Rightarrow> int \<Rightarrow> int set \<Rightarrow> (int \<Rightarrow> map_extras) \<Rightarrow> shared_pages \<Rightarrow> bool" where
  "shm_ok cap L R X shm \<longleftrightarrow> (\<exists>pl. ThePagePool shm = Some pl \<and> pool_ok cap pl \<and> pageSize pl = PageSize \<and>
     length (storage shm) = PageSize * cap \<and> finite R \<and> pages_held cap R X pl \<and>
     TheLimits shm cachePage = L \<and> L < 2 ^ 63 \<and> int cap = L + TheLimits shm ioPage \<and>
     0 \<le> theLevels pl ioPage \<and> theLevels pl ioPage \<le> TheLimits shm ioPage \<and> theLevels pl cachePage = int (card R) \<and>
     int (card (free_pages pl)) + theLevels pl cachePage + theLevels pl ioPage = int cap)"

lemma shm_ok_cong: "(\<And>f. f \<in> R \<Longrightarrow> X f = Y f) \<Longrightarrow> shm_ok cap L R X shm = shm_ok cap L R Y shm"
  unfolding shm_ok_def pages_held_def by (simp cong: inj_on_cong)

lemma shm_ok_storage: "length st = length (storage shm) \<Longrightarrow> shm_ok cap L R X (shm\<lparr>storage := st\<rparr>) = shm_ok cap L R X shm"
  by (simp add: shm_ok_def)

lemma finite_free_pages [simp]: "finite (free_pages pl)"
  by (simp add: free_pages_def)

lemma own_page_simps [simp]: "page_number (own_page u pl v) = v"
  "own_page u (pl\<lparr>pageIndex := s, theLevels := l\<rparr>) v = own_page u pl v"
  by (simp_all add: own_page_def)

lemma shm_put:
  assumes "shm_ok cap L R X shm" "f \<in> R"
  shows "\<exists>shm'. PutPage (ex_page (X f)) shm = Inr (no_page, shm') \<and> shm_ok cap L (R - {f}) X shm' \<and> storage shm' = storage shm"
proof -
  obtain pl where pl: "ThePagePool shm = Some pl" "pool_ok cap pl" "pages_held cap R X pl" "finite R"
    using assms(1) by (auto simp: shm_ok_def)
  define v where "v = page_number (ex_page (X f))"
  have x: "ex_page (X f) = own_page cachePage pl v" "v \<in> {1..cap}" "v \<notin> free_pages pl"
    using pl(3) assms(2) by (auto simp: pages_held_def v_def)
  then obtain t where t: "pool_put cap (own_page cachePage pl v) pl =
      Some (Inr (no_page, pl\<lparr>pageIndex := t, theLevels := (theLevels pl)(cachePage := theLevels pl cachePage - 1)\<rparr>))"
    "pool_ok cap (pl\<lparr>pageIndex := t, theLevels := (theLevels pl)(cachePage := theLevels pl cachePage - 1)\<rparr>)"
    "free_pages (pl\<lparr>pageIndex := t, theLevels := (theLevels pl)(cachePage := theLevels pl cachePage - 1)\<rparr>) = insert v (free_pages pl)"
    using pool_put_page [OF pl(2), of cachePage v] by (auto simp: Let_def)
  define pl' where "pl' = pl\<lparr>pageIndex := t, theLevels := (theLevels pl)(cachePage := theLevels pl cachePage - 1)\<rparr>"
  have "pages_held cap (R - {f}) X pl'"
    using pl(3) assms(2) t(3) unfolding pages_held_def pl'_def
    by (auto simp: v_def inj_on_def)
  moreover have "int (card (R - {f})) = int (card R) - 1"
    using assms(2) pl(4) card_gt_0_iff [of R] by (auto simp: card_Diff_singleton)
  moreover have "int (card (free_pages pl')) = int (card (free_pages pl)) + 1" using t(3) x(3) by (simp add: pl'_def)
  ultimately have "shm_ok cap L (R - {f}) X (shm\<lparr>ThePagePool := Some pl'\<rparr>)"
    using assms(1) pl(1) t(2) unfolding shm_ok_def pl'_def by auto
  moreover have "PutPage (ex_page (X f)) shm = Inr (no_page, shm\<lparr>ThePagePool := Some pl'\<rparr>)"
    using pl(1) t(1) x(1) pool_ok_capacity [OF pl(2)] by (simp add: PutPage_def with_pool_def bounded_def pl'_def)
  ultimately show ?thesis by auto
qed

lemma pages_held_insert:
  assumes "pages_held cap R X pl" "f \<notin> R" "0 \<le> sz" "sz \<le> int PageSize" "v \<in> {1..cap}"
    and "v \<notin> (\<lambda>f. page_number (ex_page (X f))) ` R" "free_pages pl' = free_pages pl - {v}" "poolId pl' = poolId pl"
  shows "pages_held cap (insert f R) (X(f := \<lparr>ex_page = own_page cachePage pl v, storedSize = sz\<rparr>)) pl'"
proof -
  let ?X = "X(f := \<lparr>ex_page = own_page cachePage pl v, storedSize = sz\<rparr>)"
  have own: "own_page cachePage pl' w = own_page cachePage pl w" for w using assms(8) by (simp add: own_page_def)
  have same: "?X g = X g" if "g \<in> R" for g using assms(2) that by auto
  have "inj_on (\<lambda>g. page_number (ex_page (?X g))) R"
    using assms(1) same unfolding pages_held_def by (simp cong: inj_on_cong)
  moreover have "(\<lambda>g. page_number (ex_page (?X g))) ` R = (\<lambda>g. page_number (ex_page (X g))) ` R"
    using same by (intro image_cong) simp_all
  ultimately have "inj_on (\<lambda>g. page_number (ex_page (?X g))) (insert f R)"
    using assms(2,6) by (simp add: inj_on_insert)
  moreover have "ex_page (?X g) = own_page cachePage pl' (page_number (ex_page (?X g))) \<and>
      page_number (ex_page (?X g)) \<in> {1..cap} - free_pages pl' \<and> 0 \<le> storedSize (?X g) \<and> storedSize (?X g) \<le> int PageSize"
    if "g \<in> insert f R" for g
  proof (cases "g = f")
    case True
    then show ?thesis using assms(3,4,5,7) own by simp
  next
    case False
    then show ?thesis using that assms(1,7) own unfolding pages_held_def by simp
  qed
  ultimately show ?thesis unfolding pages_held_def by blast
qed

lemma shm_get:
  assumes "shm_ok cap L R X shm" "int (card R) < L"
  shows "\<exists>page shm'. GetPage cachePage no_page shm = Inr (True, page, shm') \<and> PagePointer page shm' = Inr (area page) \<and>
    page_number page \<in> {1..cap} \<and> page_number page \<notin> (\<lambda>f. page_number (ex_page (X f))) ` R \<and> storage shm' = storage shm \<and>
    (\<forall>f sz. f \<notin> R \<and> 0 \<le> sz \<and> sz \<le> int PageSize \<longrightarrow>
       shm_ok cap L (insert f R) (X(f := \<lparr>ex_page = page, storedSize = sz\<rparr>)) shm')"
proof -
  obtain pl where pl: "ThePagePool shm = Some pl" "pool_ok cap pl" "pages_held cap R X pl" "finite R" "pageSize pl = PageSize"
    "TheLimits shm cachePage = L" "theLevels pl cachePage = int (card R)" "L < 2 ^ 63"
    and acc: "int (card (free_pages pl)) + theLevels pl cachePage + theLevels pl ioPage = int cap" "int cap = L + TheLimits shm ioPage"
      "theLevels pl ioPage \<le> TheLimits shm ioPage"
    using assms(1) by (auto simp: shm_ok_def)
  have av: "PagesAvailable cachePage shm = Inr (of_int (L - int (card R)))"
    using pl(1,6,7) by (simp add: PagesAvailable_def PageLimit_def PageLevel_def pool_level_def)
  have "uint (of_int (L - int (card R)) :: 64 word) = L - int (card R)"
    using assms(2) pl(8) by (simp only: uint_word_of_int_eq) (auto intro!: take_bit_int_eq_self)
  then have pos: "(0 :: 64 word) < of_int (L - int (card R))" using assms(2) by (simp add: word_less_def)
  have cardp: "card (free_pages pl) > 0" using acc assms(2) pl(7) by linarith
  then have "free_pages pl \<noteq> {}" by (metis card.empty less_numeral_extra(3))
  then obtain v t where t: "pool_get cap cachePage no_page pl =
      Some (Inr (True, own_page cachePage pl v, pl\<lparr>pageIndex := t, theLevels := (theLevels pl)(cachePage := theLevels pl cachePage + 1)\<rparr>))"
    "v \<in> free_pages pl" "pool_ok cap (pl\<lparr>pageIndex := t, theLevels := (theLevels pl)(cachePage := theLevels pl cachePage + 1)\<rparr>)"
    "free_pages (pl\<lparr>pageIndex := t, theLevels := (theLevels pl)(cachePage := theLevels pl cachePage + 1)\<rparr>) = free_pages pl - {v}"
    using pool_get_page [OF pl(2), of cachePage] by (auto simp: Let_def)
  define pl' where "pl' = pl\<lparr>pageIndex := t, theLevels := (theLevels pl)(cachePage := theLevels pl cachePage + 1)\<rparr>"
  define page where "page = own_page cachePage pl v"
  have v: "v \<in> {1..cap}" using t(2) pl(2) by (auto simp: pool_ok_def)
  have get: "GetPage cachePage no_page shm = Inr (True, page, shm\<lparr>ThePagePool := Some pl'\<rparr>)"
    using pl(1) av pos t(1) pool_ok_capacity [OF pl(2)] by (simp add: GetPage_def bounded_def pl'_def page_def)
  have ptr: "PagePointer page (shm\<lparr>ThePagePool := Some pl'\<rparr>) = Inr (area page)"
    using v pl(5) pool_ok_capacity [OF t(3)]
    by (simp add: PagePointer_def with_pool_def pagePointer_def pageIdIsValid_def pl'_def page_def own_page_def)
  have new: "v \<notin> (\<lambda>f. page_number (ex_page (X f))) ` R" using t(2) pl(3) by (auto simp: pages_held_def)
  have "shm_ok cap L (insert f R) (X(f := \<lparr>ex_page = page, storedSize = sz\<rparr>)) (shm\<lparr>ThePagePool := Some pl'\<rparr>)"
    if f: "f \<notin> R" "0 \<le> sz" "sz \<le> int PageSize" for f sz
  proof -
    have "pages_held cap (insert f R) (X(f := \<lparr>ex_page = page, storedSize = sz\<rparr>)) pl'"
      using pages_held_insert [OF pl(3) f v new, of pl'] t(4) by (simp add: pl'_def page_def)
    moreover have "int (card (free_pages pl')) = int (card (free_pages pl)) - 1"
      using cardp unfolding pl'_def t(4) card_Diff_singleton [OF t(2)] by linarith
    ultimately show ?thesis using assms(1) pl(1,4) f(1) t(3) unfolding shm_ok_def pl'_def by auto
  qed
  then show ?thesis using get ptr v new by (intro exI [of _ page] exI [of _ "shm\<lparr>ThePagePool := Some pl'\<rparr>"]) (auto simp: page_def)
qed

section \<open>Invariant and abstract view\<close>

definition readable_slots :: "store_map \<Rightarrow> int set" where
  "readable_slots m = {f. valid m f \<and> state (slot_at m f) = Readable}"

abbreviation extra :: "mem_store \<Rightarrow> int \<Rightarrow> map_extras" where
  "extra s f \<equiv> ms_extras s ! nat f"

text \<open>What holds also between the calls of the map that one operation makes.\<close>

definition ms_base :: "nat \<Rightarrow> int set \<Rightarrow> mem_store \<Rightarrow> bool" where
  "ms_base cap R s \<longleftrightarrow> has_map s \<and> map_ok (ms_map s) \<and> cleaner (ms_map s) \<and> cleaned (ms_map s) = [] \<and>
     length (ms_extras s) = length (slots (ms_map s)) \<and> R \<subseteq> {f. valid (ms_map s) f} \<and>
     shm_ok cap (limit (ms_map s)) R (extra s) (ms_shm s)"

definition idle :: "store_slot \<Rightarrow> bool" where
  "idle t \<longleftrightarrow> \<not> slot_busy t \<and> \<not> waitingToBeFreed t"

definition ms_inv :: "nat \<Rightarrow> mem_store \<Rightarrow> bool" where
  "ms_inv cap s \<longleftrightarrow> ms_base cap (readable_slots (ms_map s)) s \<and> (\<forall>f. valid (ms_map s) f \<longrightarrow> idle (slot_at (ms_map s) f))"

definition stored_at :: "mem_store \<Rightarrow> int \<Rightarrow> bytes" where
  "stored_at s f = bytes_at (storage (ms_shm s)) (area (ex_page (extra s f))) (nat (storedSize (extra s f)))"

text \<open>The cache as its users see it.\<close>

definition cached :: "mem_store \<Rightarrow> cache_key \<Rightarrow> (slot_basics \<times> bytes) option" where
  "cached s k = (let f = slotIndexByKey (ms_map s) k; t = slot_at (ms_map s) f
     in if state t = Readable \<and> key t = k then Some (basics t, stored_at s f) else None)"

text \<open>Everything but slot \<open>f\<close> is the same.\<close>

definition same_but :: "int \<Rightarrow> mem_store \<Rightarrow> mem_store \<Rightarrow> bool" where
  "same_but f s t \<longleftrightarrow> limit (ms_map t) = limit (ms_map s) \<and> (\<forall>g. valid (ms_map s) g \<and> g \<noteq> f \<longrightarrow>
     slot_at (ms_map t) g = slot_at (ms_map s) g \<and> extra t g = extra s g \<and>
     (state (slot_at (ms_map s) g) = Readable \<longrightarrow> stored_at t g = stored_at s g))"

lemma same_but_refl [simp]: "same_but f s s"
  by (simp add: same_but_def)

lemma same_but_trans: "same_but f s t \<Longrightarrow> same_but f t u \<Longrightarrow> same_but f s u"
  by (simp add: same_but_def valid_def entryLimit_def)

lemma valid_limit: "limit m = limit n \<Longrightarrow> valid m = valid n"
  by (simp add: valid_def entryLimit_def fun_eq_iff)

lemma readable_same_but:
  assumes "same_but f s t"
  shows "readable_slots (ms_map t) - {f} = readable_slots (ms_map s) - {f}"
  using assms valid_limit [of "ms_map t" "ms_map s"] by (auto simp: same_but_def readable_slots_def)

definition dm_update :: "('k \<Rightarrow> int) \<Rightarrow> 'k \<Rightarrow> 'v option \<Rightarrow> ('k \<rightharpoonup> 'v) \<Rightarrow> 'k \<rightharpoonup> 'v" where
  "dm_update slot k v c = (\<lambda>k'. if slot k' = slot k then (if k' = k then v else None) else c k')"

lemma cached_same_but:
  assumes "same_but f s t" "map_ok (ms_map s)" "slotIndexByKey (ms_map s) k \<noteq> f"
  shows "cached t k = cached s k"
proof -
  have "slotIndexByKey (ms_map t) k = slotIndexByKey (ms_map s) k" using assms(1) by (simp add: same_but_def slotIndexByKey_def)
  moreover have "valid (ms_map s) (slotIndexByKey (ms_map s) k)" using assms(2) by (rule map_ok_index)
  ultimately show ?thesis using assms(1,3) by (auto simp: cached_def same_but_def Let_def)
qed

lemma cached_update:
  assumes "same_but (slotIndexByKey (ms_map s) k) s t" "map_ok (ms_map s)"
    and "\<And>k'. slotIndexByKey (ms_map s) k' = slotIndexByKey (ms_map s) k \<Longrightarrow> cached t k' = (if k' = k then v else None)"
  shows "cached t = dm_update (slotIndexByKey (ms_map s)) k v (cached s)"
  using cached_same_but [OF assms(1,2)] assms(3) by (auto simp: dm_update_def fun_eq_iff)

section \<open>Cleaning and opening\<close>

lemma ms_base_map:
  assumes "ms_base cap R s" "map_ok m" "cleaner m" "cleaned m = []" "limit m = limit (ms_map s)"
  shows "ms_base cap R (s\<lparr>ms_map := m\<rparr>)"
proof -
  have "int (length (slots m)) = int (length (slots (ms_map s)))" using assms by (simp add: ms_base_def map_ok_def)
  then show ?thesis using assms valid_limit [OF assms(5)] by (simp add: ms_base_def)
qed

lemma extra_set_extras:
  assumes "ms_base cap R s" "valid (ms_map s) f" "valid (ms_map s) g"
  shows "extra (set_extras s f x) g = (if g = f then x else extra s g)"
proof -
  have "nat f < length (ms_extras s)" using assms(1) valid_index [OF _ assms(2)] by (simp add: ms_base_def)
  moreover have "nat g \<noteq> nat f" if "g \<noteq> f" using assms(2,3) that by (auto simp: valid_def)
  ultimately show ?thesis by (cases "g = f") (simp_all add: set_extras_def)
qed

lemma set_extras_simps [simp]:
  "ms_map (set_extras s f x) = ms_map s" "has_map (set_extras s f x) = has_map s" "ms_shm (set_extras s f x) = ms_shm s"
  "length (ms_extras (set_extras s f x)) = length (ms_extras s)" "theCurrentSize (set_extras s f x) = theCurrentSize s"
  by (simp_all add: set_extras_def)

lemma clean_readable:
  assumes "ms_base cap R s" "f \<in> R"
  shows "\<exists>s'. cleanReadable p f s = Inr s' \<and> ms_base cap (R - {f}) s' \<and> same_but f s s' \<and> ms_map s' = ms_map s \<and>
    theCurrentSize s' p = theCurrentSize s p - of_nat PageSize"
proof -
  have b: "valid (ms_map s) f" "shm_ok cap (limit (ms_map s)) R (extra s) (ms_shm s)" "R \<subseteq> {g. valid (ms_map s) g}"
    using assms by (auto simp: ms_base_def)
  obtain shm' where put: "PutPage (ex_page (extra s f)) (ms_shm s) = Inr (no_page, shm')"
    "shm_ok cap (limit (ms_map s)) (R - {f}) (extra s) shm'" "storage shm' = storage (ms_shm s)"
    using shm_put [OF b(2) assms(2)] by auto
  let ?s = "(set_extras s f ((extra s f)\<lparr>ex_page := no_page\<rparr>))
    \<lparr>ms_shm := shm', theCurrentSize := (theCurrentSize s)(p := theCurrentSize s p - of_nat PageSize)\<rparr>"
  have ex: "extra ?s g = (if g = f then (extra s f)\<lparr>ex_page := no_page\<rparr> else extra s g)" if "valid (ms_map s) g" for g
    using extra_set_extras [OF assms(1) b(1) that] by simp
  have "shm_ok cap (limit (ms_map s)) (R - {f}) (extra ?s) shm' = shm_ok cap (limit (ms_map s)) (R - {f}) (extra s) shm'"
    using ex b(3) by (intro shm_ok_cong) auto
  then have "ms_base cap (R - {f}) ?s" using assms(1) put(2) by (auto simp: ms_base_def)
  moreover have "same_but f s ?s" using ex put(3) by (simp add: same_but_def stored_at_def)
  moreover have "cleanReadable p f s = Inr ?s" using b(1) put(1) by (simp add: cleanReadable_def extras_at_def)
  ultimately show ?thesis by (intro exI [of _ ?s]) simp
qed

text \<open>A slot that the map takes away from its readers is cleaned.\<close>

lemma map_call_clean:
  assumes "ms_base cap R s" "call (ms_map s) = Inr (r, m)" "map_ok m" "cleaner m" "limit m = limit (ms_map s)"
    and "cleaned m = (if f \<in> R then [f] else [])" and "\<And>g. valid (ms_map s) g \<Longrightarrow> g \<noteq> f \<Longrightarrow> slot_at m g = slot_at (ms_map s) g"
  shows "\<exists>s'. map_call p call s = Inr (r, s') \<and> ms_base cap (R - {f}) s' \<and> same_but f s s' \<and> ms_map s' = m\<lparr>cleaned := []\<rparr> \<and>
    theCurrentSize s' p = theCurrentSize s p - (if f \<in> R then of_nat PageSize else 0)"
proof -
  let ?s = "s\<lparr>ms_map := m\<lparr>cleaned := []\<rparr>\<rparr>"
  have "cleaned (ms_map s) = []" using assms(1) by (simp add: ms_base_def)
  then have "(ms_map s)\<lparr>cleaned := []\<rparr> = ms_map s" by (cases "ms_map s") simp
  then have mc: "map_call p call s = bindE (clean_all p (cleaned m) ?s) (\<lambda>s'. Inr (r, s'))"
    using assms(2) by (simp add: map_call_def)
  have base: "ms_base cap R ?s" using assms(1,3,4,5) by (intro ms_base_map) simp_all
  have same: "same_but f s ?s" using assms(5,7) by (simp add: same_but_def stored_at_def)
  show ?thesis
  proof (cases "f \<in> R")
    case True
    then show ?thesis using clean_readable [OF base True, of p] mc same assms(6)
      by (auto intro: same_but_trans [OF same])
  next
    case False
    then show ?thesis using base mc same assms(6) by (intro exI [of _ ?s]) simp
  qed
qed

lemma open_writing_step:
  fixes k :: cache_key
  assumes "ms_inv cap s"
  defines "f \<equiv> slotIndexByKey (ms_map s) k"
  shows "\<exists>s'. map_call p (\<lambda>m. openForWriting m k) s = Inr (Some f, s') \<and> ms_base cap (readable_slots (ms_map s) - {f}) s' \<and>
    same_but f s s' \<and> slot_at (ms_map s') f = opened_slot (slot_at (ms_map s) f)"
proof -
  let ?m = "ms_map s"
  let ?m1 = "(put_slot (note_clean ?m f) f (opened_slot (slot_at ?m f)))\<lparr>count := count ?m + (if used (slot_at ?m f) then 0 else 1)\<rparr>"
  have base: "ms_base cap (readable_slots ?m) s" and ok: "map_ok ?m" "cleaner ?m" "cleaned ?m = []"
    using assms(1) by (auto simp: ms_inv_def ms_base_def)
  have v: "valid ?m f" unfolding f_def using ok(1) by (rule map_ok_index)
  then have "\<not> slot_busy (slot_at ?m f)" using assms(1) by (auto simp: ms_inv_def idle_def)
  then have call: "openForWriting ?m k = Inr (Some f, ?m1)" using openForWriting_idle [OF ok(1)] f_def by blast
  have "cleaned ?m1 = (if f \<in> readable_slots ?m then [f] else [])" "cleaner ?m1"
    using v ok(2,3) by (simp_all add: note_clean_def readable_slots_def)
  moreover have "slot_at ?m1 g = slot_at ?m g" if "valid ?m g" "g \<noteq> f" for g
    using v that by (simp add: slot_at_put_other)
  moreover have "limit ?m1 = limit ?m" by simp
  ultimately obtain s' where "map_call p (\<lambda>m. openForWriting m k) s = Inr (Some f, s')" "ms_base cap (readable_slots ?m - {f}) s'"
    "same_but f s s'" "ms_map s' = ?m1\<lparr>cleaned := []\<rparr>"
    using map_call_clean [where call = "\<lambda>m. openForWriting m k" and p = p, OF base call map_ok_openForWriting [OF ok(1) call]] by blast
  then show ?thesis using v ok(1) by auto
qed

section \<open>Copying the data of an entry\<close>

text \<open>All the data of an entry, when none of it is missing and one page has room for it.\<close>

definition whole :: "mem_hdr \<Rightarrow> bytes option" where
  "whole h = (if inmem_hi h \<le> int PageSize \<and> (\<forall>i < nat (inmem_hi h). bytes_of h (int i) \<noteq> None)
     then Some (map (\<lambda>i. the (bytes_of h (int i))) [0..<nat (inmem_hi h)]) else None)"

lemma beyond_end: "hdr_ok h \<Longrightarrow> inmem_hi h \<le> p \<Longrightarrow> bytes_of h p = None"
  using all_before_end [of h] by (fastforce simp: bytes_of_def content_None node_contains_def node_end_def)

lemma end_nonneg: "hdr_ok h \<Longrightarrow> 0 \<le> inmem_hi h"
proof -
  assume ok: "hdr_ok h"
  show ?thesis
  proof (cases "pages h = []")
    case False
    then have "node_ok (last (pages h))" using ok by (simp add: hdr_ok_def)
    then have "0 \<le> offset (last (pages h))" by (simp add: node_ok_def)
    then show ?thesis using ok False offset_le_end [of "last (pages h)"] by (simp add: hdr_ok_def last_end_def)
  qed (use ok in \<open>simp add: hdr_ok_def last_end_def\<close>)
qed

lemma end_byte: "hdr_ok h \<Longrightarrow> inmem_hi h = 0 \<or> bytes_of h (inmem_hi h - 1) \<noteq> None"
proof -
  assume ok: "hdr_ok h"
  show ?thesis
  proof (cases "pages h = []")
    case False
    then have l: "last (pages h) \<in> set (pages h)" "node_ok (last (pages h))" using ok by (simp_all add: hdr_ok_def)
    then have "node_contains (last (pages h)) (inmem_hi h - 1)"
      using ok False node_end_gt [OF l(2)] by (simp add: hdr_ok_def last_end_def node_contains_def node_end_def)
    then show ?thesis using l(1) content_None [of "pages h" "inmem_hi h - 1"] by (auto simp: bytes_of_def)
  qed (use ok in \<open>simp add: hdr_ok_def last_end_def\<close>)
qed

lemma whole_run:
  assumes "hdr_ok h" "is_run h 0 PageSize bs"
  shows "whole h = (if inmem_hi h = int (length bs) then Some bs else None)"
proof (cases "inmem_hi h = int (length bs)")
  case True
  have b: "bytes_of h (int i) = Some (bs ! i)" if "i < length bs" for i using assms(2) that by (simp add: is_run_def)
  then have "map (\<lambda>i. the (bytes_of h (int i))) [0..<length bs] = bs" by (intro nth_equalityI) simp_all
  then show ?thesis using True b assms(2) by (simp add: whole_def is_run_def)
next
  case False
  have "\<exists>i < nat (inmem_hi h). bytes_of h (int i) = None" if "inmem_hi h \<le> int PageSize"
  proof (cases "int (length bs) < inmem_hi h")
    case True
    then have "length bs < PageSize" "length bs < nat (inmem_hi h)" using that by linarith+
    then show ?thesis using assms(2) by (auto simp: is_run_def)
  next
    case less: False
    then have "inmem_hi h < int (length bs)" using False by linarith
    moreover have "0 \<le> inmem_hi h" using assms(1) by (rule end_nonneg)
    ultimately have "bytes_of h (inmem_hi h) \<noteq> None" using assms(2) unfolding is_run_def
      by (metis add_0 nat_0_le nat_less_iff option.distinct(1))
    then show ?thesis using beyond_end [OF assms(1)] by simp
  qed
  then show ?thesis using False by (auto simp: whole_def)
qed

lemma endOffset_ok: "hdr_ok h \<Longrightarrow> endOffset h = Inr (inmem_hi h)"
  by (simp add: endOffset_def finish_page hdr_ok_def last_end_def node_end_def dataRange_def Let_def)

lemma area_disjoint:
  assumes "page_number p \<noteq> page_number q" "1 \<le> page_number p" "1 \<le> page_number q" "m \<le> PageSize" "n \<le> PageSize"
  shows "area p + m \<le> area q \<or> area q + n \<le> area p"
proof -
  have "page_number p - 1 \<noteq> page_number q - 1" using assms(1-3) by arith
  from chunk_disjoint [OF this, of PageSize] show ?thesis using assms(4,5) by (simp add: mult.commute) linarith
qed

lemma area_room: "page_number p \<in> {1..cap} \<Longrightarrow> n \<le> PageSize \<Longrightarrow> area p + n \<le> PageSize * cap"
proof -
  assume p: "page_number p \<in> {1..cap}" and n: "n \<le> PageSize"
  have "PageSize * (page_number p - 1) + PageSize \<le> PageSize * cap"
    using mult_le_mono2 [of "Suc (page_number p - 1)" cap PageSize] p by (simp del: mult_le_cancel1 mult_le_mono2)
  then show ?thesis using n by linarith
qed

lemma shm_ok_extra:
  assumes "shm_ok cap L R X shm" "f \<in> R"
  shows "page_number (ex_page (X f)) \<in> {1..cap}" "0 \<le> storedSize (X f)" "storedSize (X f) \<le> int PageSize"
    "length (storage shm) = PageSize * cap"
  using assms by (auto simp: shm_ok_def pages_held_def)

text \<open>Writing into a page of one's own does not change what the others hold.\<close>

lemma page_write_others:
  assumes "shm_ok cap L R X shm" "page_number page \<in> {1..cap}" "page_number page \<notin> (\<lambda>f. page_number (ex_page (X f))) ` R"
    and "length bs \<le> PageSize" "g \<in> R"
  shows "bytes_at (memcpy_at (storage shm) (area page) bs) (area (ex_page (X g))) (nat (storedSize (X g))) =
    bytes_at (storage shm) (area (ex_page (X g))) (nat (storedSize (X g)))"
proof (rule memcpy_at_disjoint)
  note x = shm_ok_extra [OF assms(1,5)]
  have n: "nat (storedSize (X g)) \<le> PageSize" using x(3) by linarith
  show "area page + length bs \<le> length (storage shm)" using area_room [OF assms(2,4)] x(4) by simp
  show "area (ex_page (X g)) + nat (storedSize (X g)) \<le> length (storage shm)" using area_room [OF x(1) n] x(4) by simp
  show "area (ex_page (X g)) + nat (storedSize (X g)) \<le> area page \<or> area page + length bs \<le> area (ex_page (X g))"
  proof (rule area_disjoint)
    show "page_number (ex_page (X g)) \<noteq> page_number page" using assms(3,5) by (metis image_eqI)
  qed (use assms(2,4) x(1) n in simp_all)
qed


lemma room_for_one:
  assumes "map_ok m" "R \<subseteq> {g. valid m g}" "valid m f" "f \<notin> R"
  shows "int (card R) < limit m"
proof -
  have "{g. valid m g} = {0..<limit m}" by (auto simp: valid_def entryLimit_def)
  then have "card R < card {0..<limit m}" using assms(2-4) by (intro psubset_card_mono) auto
  then show ?thesis using assms(1) by (simp add: map_ok_def)
qed

text \<open>The page and the copy of an entry's data, before the decision to keep it.\<close>

lemma copy_page:
  assumes "ms_base cap R s" "valid (ms_map s) f" "f \<notin> R" "hdr_ok h" "bytes_of h 0 \<noteq> None"
  shows "\<exists>page shm bs h'. GetPage cachePage no_page (ms_shm s) = Inr (True, page, shm) \<and> PagePointer page shm = Inr (area page) \<and>
    mem_copy 0 PageSize h = Inr (bs, h') \<and> pages h' = pages h \<and> hdr_ok h' \<and>
    whole h = (if inmem_hi h = int (length bs) then Some bs else None) \<and> area page + length bs \<le> length (storage shm) \<and>
    shm_ok cap (limit (ms_map s)) (insert f R) ((extra s)(f := \<lparr>ex_page = page, storedSize = int (length bs)\<rparr>))
      (shm\<lparr>storage := memcpy_at (storage shm) (area page) bs\<rparr>) \<and>
    bytes_at (memcpy_at (storage shm) (area page) bs) (area page) (length bs) = bs \<and>
    (\<forall>g \<in> R. bytes_at (memcpy_at (storage shm) (area page) bs) (area (ex_page (extra s g))) (nat (storedSize (extra s g))) = stored_at s g)"
proof -
  have sh: "shm_ok cap (limit (ms_map s)) R (extra s) (ms_shm s)" using assms(1) by (simp add: ms_base_def)
  have "int (card R) < limit (ms_map s)" using assms(1-3) by (intro room_for_one [where f = f]) (auto simp: ms_base_def)
  from shm_get [OF sh this] obtain page shm where get: "GetPage cachePage no_page (ms_shm s) = Inr (True, page, shm)"
    "PagePointer page shm = Inr (area page)" "page_number page \<in> {1..cap}"
    "page_number page \<notin> (\<lambda>f. page_number (ex_page (extra s f))) ` R" "storage shm = storage (ms_shm s)"
    and held: "\<And>sz. 0 \<le> sz \<Longrightarrow> sz \<le> int PageSize \<Longrightarrow>
      shm_ok cap (limit (ms_map s)) (insert f R) ((extra s)(f := \<lparr>ex_page = page, storedSize = sz\<rparr>)) shm"
    using assms(3) by blast
  have "0 < PageSize" by (simp add: PageSize_def)
  from mem_copy_spec [OF assms(4) this assms(5)] obtain bs h' where
    cp: "mem_copy 0 PageSize h = Inr (bs, h')" "is_run h 0 PageSize bs" "pages h' = pages h" "hdr_ok h'" by blast
  have n: "length bs \<le> PageSize" using cp(2) by (simp add: is_run_def)
  have len: "length (storage shm) = PageSize * cap" using sh get(5) by (auto simp: shm_ok_def)
  have room: "area page + length bs \<le> length (storage shm)" using area_room [OF get(3) n] len by simp
  have "shm_ok cap (limit (ms_map s)) (insert f R) ((extra s)(f := \<lparr>ex_page = page, storedSize = int (length bs)\<rparr>))
      (shm\<lparr>storage := memcpy_at (storage shm) (area page) bs\<rparr>)"
    using held [of "int (length bs)"] n room by (simp add: shm_ok_storage)
  moreover have "bytes_at (memcpy_at (storage shm) (area page) bs) (area (ex_page (extra s g))) (nat (storedSize (extra s g))) = stored_at s g"
    if "g \<in> R" for g
    using page_write_others [OF sh get(3,4) n that] get(5) by (simp add: stored_at_def)
  ultimately show ?thesis
    using get(1,2) cp(1,3,4) whole_run [OF assms(4) cp(2)] room memcpy_at_same [OF room] by blast
qed

lemma copyToShm_keeps:
  assumes "ms_base cap R s" "valid (ms_map s) f" "f \<notin> R" "hdr_ok (data_hdr mo)" "bytes_of (data_hdr mo) 0 \<noteq> None"
    and "readable_slots (ms_map s) \<subseteq> R" "whole (data_hdr mo) = Some bs"
  shows "\<exists>mo' s'. copyToShm p mo f s = Inr (True, mo', s') \<and> ms_base cap (insert f R) s' \<and> same_but f s s' \<and>
    ms_map s' = ms_map s \<and> stored_at s' f = bs"
proof -
  obtain page shm cs h' where c: "GetPage cachePage no_page (ms_shm s) = Inr (True, page, shm)" "PagePointer page shm = Inr (area page)"
    "mem_copy 0 PageSize (data_hdr mo) = Inr (cs, h')"
    "whole (data_hdr mo) = (if inmem_hi (data_hdr mo) = int (length cs) then Some cs else None)" "area page + length cs \<le> length (storage shm)"
    "shm_ok cap (limit (ms_map s)) (insert f R) ((extra s)(f := \<lparr>ex_page = page, storedSize = int (length cs)\<rparr>))
      (shm\<lparr>storage := memcpy_at (storage shm) (area page) cs\<rparr>)"
    "bytes_at (memcpy_at (storage shm) (area page) cs) (area page) (length cs) = cs"
    and others: "\<And>g. g \<in> R \<Longrightarrow> bytes_at (memcpy_at (storage shm) (area page) cs) (area (ex_page (extra s g))) (nat (storedSize (extra s g))) = stored_at s g"
    using copy_page [OF assms(1-5)] by blast
  have e: "inmem_hi (data_hdr mo) = int (length cs)" "cs = bs" using c(4) assms(7) by (auto split: if_splits)
  let ?x = "\<lparr>ex_page = page, storedSize = int (length cs)\<rparr>"
  let ?s = "(set_extras s f ?x)\<lparr>ms_shm := shm\<lparr>storage := memcpy_at (storage shm) (area page) cs\<rparr>,
    theCurrentSize := (theCurrentSize s)(p := theCurrentSize s p + of_nat PageSize)\<rparr>"
  have ex: "extra ?s g = (if g = f then ?x else extra s g)" if "valid (ms_map s) g" for g
    using extra_set_extras [OF assms(1,2) that] by simp
  have sub: "insert f R \<subseteq> {g. valid (ms_map s) g}" using assms(1,2) by (simp add: ms_base_def)
  have "shm_ok cap (limit (ms_map s)) (insert f R) (extra ?s) (ms_shm ?s) =
      shm_ok cap (limit (ms_map s)) (insert f R) ((extra s)(f := ?x)) (ms_shm ?s)"
    using ex sub by (intro shm_ok_cong) (auto simp: subset_eq)
  then have "ms_base cap (insert f R) ?s" using assms(1) c(6) sub by (simp add: ms_base_def)
  moreover have "same_but f s ?s"
    using ex others assms(6) by (auto simp: same_but_def stored_at_def readable_slots_def)
  moreover have "stored_at ?s f = bs" using ex [OF assms(2)] c(7) e(2) by (simp add: stored_at_def)
  moreover have "copyToShm p mo f s = Inr (True, mo\<lparr>data_hdr := h'\<rparr>, ?s)"
    using c(1-3,5) e(1) endOffset_ok [OF assms(4)] by (simp add: copyToShm_def Let_def)
  ultimately show ?thesis by (intro exI [of _ "mo\<lparr>data_hdr := h'\<rparr>"] exI [of _ ?s]) simp
qed

lemma copyToShm_gives_up:
  assumes "ms_base cap R s" "valid (ms_map s) f" "f \<notin> R" "hdr_ok (data_hdr mo)" "bytes_of (data_hdr mo) 0 \<noteq> None"
    and "readable_slots (ms_map s) \<subseteq> R" "whole (data_hdr mo) = None"
  shows "\<exists>mo' s'. copyToShm p mo f s = Inr (False, mo', s') \<and> ms_base cap R s' \<and> same_but f s s' \<and> ms_map s' = ms_map s"
proof -
  obtain page shm cs h' where c: "GetPage cachePage no_page (ms_shm s) = Inr (True, page, shm)" "PagePointer page shm = Inr (area page)"
    "mem_copy 0 PageSize (data_hdr mo) = Inr (cs, h')"
    "whole (data_hdr mo) = (if inmem_hi (data_hdr mo) = int (length cs) then Some cs else None)" "area page + length cs \<le> length (storage shm)"
    "shm_ok cap (limit (ms_map s)) (insert f R) ((extra s)(f := \<lparr>ex_page = page, storedSize = int (length cs)\<rparr>))
      (shm\<lparr>storage := memcpy_at (storage shm) (area page) cs\<rparr>)"
    and others: "\<And>g. g \<in> R \<Longrightarrow> bytes_at (memcpy_at (storage shm) (area page) cs) (area (ex_page (extra s g))) (nat (storedSize (extra s g))) = stored_at s g"
    using copy_page [OF assms(1-5)] by blast
  have e: "inmem_hi (data_hdr mo) \<noteq> int (length cs)" using c(4) assms(7) by (auto split: if_splits)
  obtain shm' where put: "PutPage page (shm\<lparr>storage := memcpy_at (storage shm) (area page) cs\<rparr>) = Inr (no_page, shm')"
    "shm_ok cap (limit (ms_map s)) (insert f R - {f}) ((extra s)(f := \<lparr>ex_page = page, storedSize = int (length cs)\<rparr>)) shm'"
    "storage shm' = memcpy_at (storage shm) (area page) cs"
    using shm_put [OF c(6) insertI1] by auto
  have "shm_ok cap (limit (ms_map s)) R (extra s) shm'"
    using put(2) assms(3) shm_ok_cong [of R "(extra s)(f := \<lparr>ex_page = page, storedSize = int (length cs)\<rparr>)" "extra s"]
    by (simp add: insert_Diff_if) (metis fun_upd_apply)
  then have "ms_base cap R (s\<lparr>ms_shm := shm'\<rparr>)" using assms(1) by (simp add: ms_base_def)
  moreover have "same_but f s (s\<lparr>ms_shm := shm'\<rparr>)"
    using others put(3) assms(6) by (auto simp: same_but_def stored_at_def readable_slots_def)
  moreover have "copyToShm p mo f s = Inr (False, mo\<lparr>data_hdr := h'\<rparr>, s\<lparr>ms_shm := shm'\<rparr>)"
    using c(1-3,5) e put(1) endOffset_ok [OF assms(4)] by (simp add: copyToShm_def Let_def)
  ultimately show ?thesis by auto
qed

section \<open>Keeping an entry\<close>

lemma map_call_plain:
  assumes "cleaned (ms_map s) = []" "call (ms_map s) = Inr (r, m)" "cleaned m = []"
  shows "map_call p call s = Inr (r, s\<lparr>ms_map := m\<rparr>)"
proof -
  have "(ms_map s)\<lparr>cleaned := []\<rparr> = ms_map s" "m\<lparr>cleaned := []\<rparr> = m" using assms(1,3) by (cases "ms_map s"; cases m; simp)+
  then show ?thesis using assms(2,3) by (simp add: map_call_def)
qed

lemma ms_inv_again:
  assumes "ms_inv cap s" "same_but f s t" "ms_base cap R t" "idle (slot_at (ms_map t) f)" "valid (ms_map s) f"
    and "R = (if state (slot_at (ms_map t) f) = Readable then insert f (readable_slots (ms_map s) - {f}) else readable_slots (ms_map s) - {f})"
  shows "ms_inv cap t"
proof -
  have lim: "limit (ms_map t) = limit (ms_map s)" using assms(2) by (simp add: same_but_def)
  note val = valid_limit [OF lim]
  have "f \<in> readable_slots (ms_map t) \<longleftrightarrow> state (slot_at (ms_map t) f) = Readable"
    using assms(5) val by (simp add: readable_slots_def)
  then have "readable_slots (ms_map t) = R" using readable_same_but [OF assms(2)] assms(6) by (auto split: if_splits)
  moreover have "idle (slot_at (ms_map t) g)" if "valid (ms_map t) g" for g
    using assms(1,2,4) that val by (cases "g = f") (auto simp: ms_inv_def same_but_def)
  ultimately show ?thesis using assms(3) by (simp add: ms_inv_def)
qed

lemma same_but_map:
  assumes "valid (ms_map s) f"
  shows "same_but f s (s\<lparr>ms_map := put_slot (ms_map s) f t\<rparr>)"
    "same_but f s (s\<lparr>ms_map := (put_slot (ms_map s) f t)\<lparr>count := c\<rparr>\<rparr>)"
  using assms by (simp_all add: same_but_def slot_at_put_other stored_at_def)

lemma keep_copied:
  fixes k :: cache_key and b :: slot_basics
  assumes "ms_base cap R s" "valid (ms_map s) f" "state (slot_at (ms_map s) f) = Writeable" "\<not> waitingToBeFreed (slot_at (ms_map s) f)"
  defines "m \<equiv> put_slot (ms_map s) f (slot_set \<lparr>se_key = k, se_basics = b\<rparr> (slot_at (ms_map s) f))"
  shows "\<exists>t. map_call p (\<lambda>m. no_result (closeForWriting m f False)) (s\<lparr>ms_map := m\<rparr>) = Inr ((), t) \<and> ms_base cap R t \<and>
    same_but f s t \<and> idle (slot_at (ms_map t) f) \<and> state (slot_at (ms_map t) f) = Readable \<and> key (slot_at (ms_map t) f) = k \<and>
    basics (slot_at (ms_map t) f) = b \<and> stored_at t f = stored_at s f"
proof -
  have ok: "map_ok (ms_map s)" "cleaner (ms_map s)" "cleaned (ms_map s) = []" using assms(1) by (auto simp: ms_base_def)
  have okm: "map_ok m" unfolding m_def using ok(1) map_ok_slot [OF ok(1) assms(2)] assms(2)
    by (auto simp: slot_set_def slot_transitions intro!: map_ok_put_same)
  have v: "valid m f" "slot_at m f = slot_set \<lparr>se_key = k, se_basics = b\<rparr> (slot_at (ms_map s) f)"
    using ok(1) assms(2) by (simp_all add: m_def)
  then have w: "state (slot_at m f) = Writeable" using assms(3) by (simp add: slot_set_def)
  let ?u = "(slot_at m f)\<lparr>state := Readable, lock := \<lparr>readers = 0, writers = 0\<rparr>\<rparr>"
  have close: "closeForWriting m f False = Inr (put_slot m f ?u)" using closeForWriting_writer [OF okm v(1) w] by simp
  then have okp: "map_ok (put_slot m f ?u)" using map_ok_closeForWriting [OF okm v(1) w] by blast
  let ?t = "s\<lparr>ms_map := put_slot (ms_map s) f ?u\<rparr>"
  have mm: "put_slot m f ?u = put_slot (ms_map s) f ?u" by (simp add: m_def)
  have "map_call p (\<lambda>m. no_result (closeForWriting m f False)) (s\<lparr>ms_map := m\<rparr>) = Inr ((), ?t)"
    using map_call_plain [of "s\<lparr>ms_map := m\<rparr>" "\<lambda>m. no_result (closeForWriting m f False)" "()" "put_slot m f ?u" p] close ok(3) mm
    by (simp add: no_result_def m_def)
  moreover have "ms_base cap R ?t" using assms(1) okp ok mm by (intro ms_base_map) simp_all
  moreover have "same_but f s ?t" using assms(2) by (rule same_but_map(1))
  moreover have "slot_at (ms_map ?t) f = ?u" using ok(1) assms(2) by simp
  moreover have "idle ?u" using v(2) assms(4) by (simp add: idle_def slot_busy_def slot_set_def)
  ultimately show ?thesis using v(2) by (intro exI [of _ ?t]) (simp add: slot_set_def stored_at_def)
qed

lemma keep_aborted:
  assumes "ms_base cap R s" "valid (ms_map s) f" "state (slot_at (ms_map s) f) = Writeable"
  shows "\<exists>t. map_call p (\<lambda>m. no_result (abortIo m f)) s = Inr ((), t) \<and> ms_base cap R t \<and>
    same_but f s t \<and> idle (slot_at (ms_map t) f) \<and> state (slot_at (ms_map t) f) = Empty"
proof -
  let ?m = "ms_map s"
  have ok: "map_ok ?m" "cleaner ?m" "cleaned ?m = []" using assms(1) by (auto simp: ms_base_def)
  let ?n = "(put_slot ?m f (freed_slot (slot_at ?m f)))\<lparr>count := count ?m - 1\<rparr>"
  have ab: "abortWriting ?m f = Inr ?n" using abortWriting_writer [OF ok(1) assms(2,3)] .
  have okn: "map_ok ?n" using map_ok_abortWriting [OF ok(1) assms(2,3) ab] .
  have "map_call p (\<lambda>m. no_result (abortIo m f)) s = Inr ((), s\<lparr>ms_map := ?n\<rparr>)"
    using ab assms(2,3) ok(3) by (intro map_call_plain) (simp_all add: no_result_def abortIo_def)
  moreover have "ms_base cap R (s\<lparr>ms_map := ?n\<rparr>)" using assms(1) okn ok by (intro ms_base_map) simp_all
  moreover have "same_but f s (s\<lparr>ms_map := ?n\<rparr>)" using assms(2) by (rule same_but_map(2))
  ultimately show ?thesis using ok(1) assms(2)
    by (intro exI [of _ "s\<lparr>ms_map := ?n\<rparr>"]) (simp add: idle_def slot_busy_def freed_slot_def new_lock_def)
qed

text \<open>A cached entry takes the place of what its slot held; an entry that cannot be copied leaves the slot empty.\<close>

lemma keep_entry_spec:
  assumes "ms_inv cap s" "mem_obj e = Some mo" "hdr_ok (data_hdr mo)" "bytes_of (data_hdr mo) 0 \<noteq> None"
  shows "\<exists>e' s'. keep_entry p e s = Inr (e', s') \<and> ms_inv cap s' \<and> limit (ms_map s') = limit (ms_map s) \<and>
    cached s' = dm_update (slotIndexByKey (ms_map s)) (ce_key e) (map_option (Pair (ce_basics e)) (whole (data_hdr mo))) (cached s)"
proof -
  let ?k = "ce_key e"
  define f where "f = slotIndexByKey (ms_map s) ?k"
  define R where "R = readable_slots (ms_map s) - {f}"
  obtain s1 where s1: "map_call p (\<lambda>m. openForWriting m ?k) s = Inr (Some f, s1)" "ms_base cap R s1" "same_but f s s1"
    "slot_at (ms_map s1) f = opened_slot (slot_at (ms_map s) f)"
    using open_writing_step [OF assms(1), of p ?k] unfolding f_def R_def by blast
  have ok: "map_ok (ms_map s)" "has_map s" using assms(1) by (auto simp: ms_inv_def ms_base_def)
  have v: "valid (ms_map s) f" unfolding f_def using ok(1) by (rule map_ok_index)
  have lim: "valid (ms_map s1) = valid (ms_map s)" using s1(3) by (intro valid_limit) (simp add: same_but_def)
  have w: "state (slot_at (ms_map s1) f) = Writeable" "\<not> waitingToBeFreed (slot_at (ms_map s1) f)"
    using s1(4) by (simp_all add: opened_slot_def)
  have fR: "f \<notin> R" "readable_slots (ms_map s1) \<subseteq> R"
    using readable_same_but [OF s1(3)] w(1) by (auto simp: R_def readable_slots_def)
  have v1: "valid (ms_map s1) f" using v lim by simp
  note copy = s1(2) v1 fR(1) assms(3,4) fR(2)
  have idx: "slotIndexByKey (ms_map t) k' = slotIndexByKey (ms_map s) k'" if "same_but f s t" for t k'
    using that by (simp add: same_but_def slotIndexByKey_def)
  show ?thesis
  proof (cases "whole (data_hdr mo)")
    case None
    obtain mo' s2 where s2: "copyToShm p mo f s1 = Inr (False, mo', s2)" "ms_base cap R s2" "same_but f s1 s2" "ms_map s2 = ms_map s1"
      using copyToShm_gives_up [OF copy None, of p] by blast
    obtain t where t: "map_call p (\<lambda>m. no_result (abortIo m f)) s2 = Inr ((), t)" "ms_base cap R t" "same_but f s2 t"
      "idle (slot_at (ms_map t) f)" "state (slot_at (ms_map t) f) = Empty"
      using keep_aborted [OF s2(2), of f p] v1 w(1) s2(4) by auto
    have st: "same_but f s t" using s1(3) s2(3) t(3) by (blast intro: same_but_trans)
    have "ms_inv cap t" using ms_inv_again [OF assms(1) st t(2,4) v] t(5) by (simp add: R_def)
    moreover have "cached t = dm_update (slotIndexByKey (ms_map s)) ?k None (cached s)"
      using st ok(1) t(5) idx [OF st] unfolding f_def by (intro cached_update) (simp_all add: cached_def Let_def)
    ultimately show ?thesis using s1(1) s2(1) t(1) ok(2) assms(2) None st
      by (simp add: keep_entry_def Let_def same_but_def)
  next
    case (Some bs)
    obtain mo' s2 where s2: "copyToShm p mo f s1 = Inr (True, mo', s2)" "ms_base cap (insert f R) s2" "same_but f s1 s2"
      "ms_map s2 = ms_map s1" "stored_at s2 f = bs"
      using copyToShm_keeps [OF copy Some, of p] by blast
    let ?m = "put_slot (ms_map s2) f (slot_set \<lparr>se_key = ?k, se_basics = ce_basics e\<rparr> (slot_at (ms_map s2) f))"
    obtain t where t: "map_call p (\<lambda>m. no_result (closeForWriting m f False)) (s2\<lparr>ms_map := ?m\<rparr>) = Inr ((), t)" "ms_base cap (insert f R) t"
      "same_but f s2 t" "idle (slot_at (ms_map t) f)" "state (slot_at (ms_map t) f) = Readable" "key (slot_at (ms_map t) f) = ?k"
      "basics (slot_at (ms_map t) f) = ce_basics e" "stored_at t f = bs"
      using keep_copied [OF s2(2), of f p ?k "ce_basics e"] v1 w s2(4,5) by auto
    have st: "same_but f s t" using s1(3) s2(3) t(3) by (blast intro: same_but_trans)
    have "ms_inv cap t" using ms_inv_again [OF assms(1) st t(2,4) v] t(5) by (simp add: R_def)
    moreover have "cached t = dm_update (slotIndexByKey (ms_map s)) ?k (Some (ce_basics e, bs)) (cached s)"
      using st ok(1) t(5-8) idx [OF st] unfolding f_def by (intro cached_update) (auto simp: cached_def Let_def)
    ultimately show ?thesis using s1(1) s2(1) t(1) ok(2) assms(2) Some st
      by (simp add: keep_entry_def Let_def same_but_def)
  qed
qed

section \<open>Loading an entry\<close>

lemma cached_slot:
  fixes k :: cache_key
  assumes "ms_inv cap s"
  defines "f \<equiv> slotIndexByKey (ms_map s) k"
  shows "readable_now (slot_at (ms_map s) f) \<and> sameKey k (slot_at (ms_map s) f) \<longleftrightarrow> cached s k \<noteq> None"
    "cached s k = Some (b, bs) \<Longrightarrow> f \<in> readable_slots (ms_map s) \<and> basics (slot_at (ms_map s) f) = b \<and> stored_at s f = bs"
proof -
  have "valid (ms_map s) f" using assms by (auto simp: ms_inv_def ms_base_def intro: map_ok_index)
  moreover from this have "\<not> waitingToBeFreed (slot_at (ms_map s) f)" using assms(1) by (auto simp: ms_inv_def idle_def)
  ultimately show "readable_now (slot_at (ms_map s) f) \<and> sameKey k (slot_at (ms_map s) f) \<longleftrightarrow> cached s k \<noteq> None"
    "cached s k = Some (b, bs) \<Longrightarrow> f \<in> readable_slots (ms_map s) \<and> basics (slot_at (ms_map s) f) = b \<and> stored_at s f = bs"
    by (auto simp: cached_def readable_now_def sameKey_def f_def readable_slots_def Let_def prod_eq_iff split: if_splits)
qed

lemma get_miss:
  assumes "ms_inv cap s" "cached s k = None"
  shows "get_entry parse p k s = Inr (None, s)"
proof -
  have ok: "map_ok (ms_map s)" "has_map s" "cleaned (ms_map s) = []" using assms(1) by (auto simp: ms_inv_def ms_base_def)
  have "openForReading (ms_map s) k = Inr (None, ms_map s)"
    using openForReading_ok [OF ok(1), of k] cached_slot(1) [OF assms(1), of k] assms(2) by auto
  then have "map_call p (\<lambda>m. openForReading m k) s = Inr (None, s)"
    using map_call_plain [OF ok(3), of "\<lambda>m. openForReading m k"] ok(3) by simp
  then show ?thesis using ok(2) by (simp add: get_entry_def)
qed

text \<open>The map after a reader came and went.\<close>

lemma reader_comes_and_goes:
  fixes k :: cache_key
  assumes "ms_inv cap s" "cached s k \<noteq> None"
  defines "f \<equiv> slotIndexByKey (ms_map s) k"
  shows "\<exists>s1. map_call p (\<lambda>m. openForReading m k) s = Inr (Some f, s1) \<and> ms_shm s1 = ms_shm s \<and> ms_extras s1 = ms_extras s \<and>
    basics (slot_at (ms_map s1) f) = basics (slot_at (ms_map s) f) \<and> valid (ms_map s1) f \<and>
    map_call p (\<lambda>m. no_result (closeForReading m f)) s1 = Inr ((), s)"
proof -
  let ?m = "ms_map s"
  have ok: "map_ok ?m" "cleaned ?m = []" using assms(1) by (auto simp: ms_inv_def ms_base_def)
  have v: "valid ?m f" unfolding f_def using ok(1) by (rule map_ok_index)
  have r: "readable_now (slot_at ?m f)" "sameKey k (slot_at ?m f)" using cached_slot(1) [OF assms(1), of k] assms(2) by (auto simp: f_def)
  have rd: "readers (lock (slot_at ?m f)) = 0"
    using assms(1) v map_ok_slot [OF ok(1) v] by (auto simp: ms_inv_def idle_def slot_busy_def slot_ok_def lock_ok_def)
  let ?n = "put_slot ?m f (one_more_reader (slot_at ?m f))"
  have okn: "map_ok ?n" using ok(1) v r(1) by (rule map_ok_one_more_reader)
  have "openForReading ?m k = Inr (Some f, ?n)" using openForReading_ok [OF ok(1), of k] r by (simp add: f_def)
  then have "map_call p (\<lambda>m. openForReading m k) s = Inr (Some f, s\<lparr>ms_map := ?n\<rparr>)"
    using ok(2) by (intro map_call_plain) simp_all
  moreover have "closeForReading ?n f = Inr ?m"
  proof -
    have "closeForReading ?n f = Inr (put_slot ?n f ((slot_at ?n f)\<lparr>lock := (lock (slot_at ?n f))\<lparr>readers := readers (lock (slot_at ?n f)) - 1\<rparr>\<rparr>))"
      using okn v ok(1) rd by (intro closeForReading_reader) (simp_all add: one_more_reader_def)
    also have "\<dots> = Inr ?m" using ok(1) v by (simp add: one_more_reader_def)
    finally show ?thesis .
  qed
  then have "map_call p (\<lambda>m. no_result (closeForReading m f)) (s\<lparr>ms_map := ?n\<rparr>) = Inr ((), s)"
    using map_call_plain [of "s\<lparr>ms_map := ?n\<rparr>" "\<lambda>m. no_result (closeForReading m f)" "()" ?m p] ok(2) by (simp add: no_result_def)
  ultimately show ?thesis using v ok(1) by (intro exI [of _ "s\<lparr>ms_map := ?n\<rparr>"]) (simp add: one_more_reader_def)
qed

lemma copyFromShm_spec:
  assumes "shm_ok cap L R X shm" "f \<in> R"
  defines "bs \<equiv> bytes_at (storage shm) (area (ex_page (X f))) (nat (storedSize (X f)))"
  shows "if parse bs then \<exists>mo. copyFromShm parse (X f) shm = Inr (Some mo) \<and> object_sz mo = int (length bs) \<and> inmem_lo mo = 0 \<and>
      hdr_ok (data_hdr mo) \<and> whole (data_hdr mo) = Some bs
    else copyFromShm parse (X f) shm = Inr None"
proof -
  note x = shm_ok_extra [OF assms(1,2)]
  have n: "nat (storedSize (X f)) \<le> PageSize" using x(3) by linarith
  note room = area_room [OF x(1) n]
  obtain pl where pl: "ThePagePool shm = Some pl" "pool_ok cap pl" "pageSize pl = PageSize" "pages_held cap R X pl"
    using assms(1) by (auto simp: shm_ok_def)
  have own: "page_pool_id (ex_page (X f)) = poolId pl"
    using pl(4) assms(2) unfolding pages_held_def by (metis own_page_def page_id.select_convs(1))
  have ptr: "PagePointer (ex_page (X f)) shm = Inr (area (ex_page (X f)))"
    using pl(1-3) x(1) own pool_ok_capacity [OF pl(2)]
    by (simp add: PagePointer_def with_pool_def pagePointer_def pageIdIsValid_def pool_ok_def)
  have len: "length bs = nat (storedSize (X f))" using room x(4) by (simp add: bs_def)
  obtain h where h: "mem_write 0 bs new_mem_hdr = Some (Inr h)" "hdr_ok h"
    "bytes_of h = (\<lambda>p. if 0 \<le> p \<and> p < int (length bs) then Some (bs ! nat p) else None)"
    using mem_write_spec [OF new_mem_hdr_ok(1), of 0 bs] unfolding new_mem_hdr_ok(2) by (simp cong: if_cong) blast
  have "length bs \<le> PageSize" using n len by simp
  then have "is_run h 0 PageSize bs" by (simp add: is_run_def h(3))
  moreover have "inmem_hi h = int (length bs)"
  proof (rule antisym)
    show "int (length bs) \<le> inmem_hi h"
    proof (rule ccontr)
      assume "\<not> int (length bs) \<le> inmem_hi h"
      then have "bytes_of h (inmem_hi h) \<noteq> None" using end_nonneg [OF h(2)] by (simp add: h(3))
      then show False using beyond_end [OF h(2)] by simp
    qed
    show "inmem_hi h \<le> int (length bs)" using end_byte [OF h(2)] by (auto simp: h(3) split: if_splits)
  qed
  ultimately have "whole h = Some bs" "endOffset h = Inr (int (length bs))" using whole_run [OF h(2)] endOffset_ok [OF h(2)] by simp_all
  then show ?thesis using ptr room x(4) h(1,2)
    by (simp add: copyFromShm_def bs_def [unfolded One_nat_def, symmetric] bounded_def new_mem_object_def Let_def)
qed

lemma get_hit:
  assumes "ms_inv cap s" "cached s k = Some (b, bs)" "parse bs"
  shows "\<exists>mo. get_entry parse p k s = Inr (Some \<lparr>ce_key = k, ce_basics = b\<lparr>flags := loaded_flags (flags b)\<rparr>, store_ok = True,
      swapout_done = False, mem_obj = None, hidden_mem_obj = Some mo\<rparr>, s) \<and>
    object_sz mo = int (length bs) \<and> inmem_lo mo = 0 \<and> hdr_ok (data_hdr mo) \<and> whole (data_hdr mo) = Some bs"
proof -
  let ?f = "slotIndexByKey (ms_map s) k"
  have sl: "?f \<in> readable_slots (ms_map s)" "basics (slot_at (ms_map s) ?f) = b" "stored_at s ?f = bs"
    using cached_slot(2) [OF assms(1,2)] by auto
  obtain s1 where s1: "map_call p (\<lambda>m. openForReading m k) s = Inr (Some ?f, s1)" "ms_shm s1 = ms_shm s" "ms_extras s1 = ms_extras s"
    "basics (slot_at (ms_map s1) ?f) = b" "valid (ms_map s1) ?f" "map_call p (\<lambda>m. no_result (closeForReading m ?f)) s1 = Inr ((), s)"
    using reader_comes_and_goes [OF assms(1), of k p] assms(2) sl(2) by auto
  have ok: "has_map s" "shm_ok cap (limit (ms_map s)) (readable_slots (ms_map s)) (extra s) (ms_shm s)"
    using assms(1) by (auto simp: ms_inv_def ms_base_def)
  obtain mo where "copyFromShm parse (extra s ?f) (ms_shm s) = Inr (Some mo)" "object_sz mo = int (length bs)" "inmem_lo mo = 0"
    "hdr_ok (data_hdr mo)" "whole (data_hdr mo) = Some bs"
    using copyFromShm_spec [OF ok(2) sl(1), of parse] assms(3) sl(3) by (auto simp: stored_at_def)
  then show ?thesis using s1 ok(1) by (simp add: get_entry_def extras_at_def Let_def)
qed

lemma get_unparsable:
  assumes "ms_inv cap s" "cached s k = Some (b, bs)" "\<not> parse bs"
  shows "\<exists>s'. get_entry parse p k s = Inr (None, s') \<and> ms_inv cap s' \<and> limit (ms_map s') = limit (ms_map s) \<and>
    cached s' = dm_update (slotIndexByKey (ms_map s)) k None (cached s) \<and>
    theCurrentSize s' p = theCurrentSize s p - of_nat PageSize"
proof -
  let ?m = "ms_map s"
  define f where "f = slotIndexByKey ?m k"
  have sl: "f \<in> readable_slots ?m" "stored_at s f = bs" using cached_slot(2) [OF assms(1,2)] by (auto simp: f_def)
  have base: "ms_base cap (readable_slots ?m) s" and ok: "has_map s" "map_ok ?m" "cleaner ?m" "cleaned ?m = []"
      "shm_ok cap (limit ?m) (readable_slots ?m) (extra s) (ms_shm s)"
    using assms(1) by (auto simp: ms_inv_def ms_base_def)
  have v: "valid ?m f" "state (slot_at ?m f) = Readable" "\<not> slot_busy (slot_at ?m f)"
    using sl(1) assms(1) by (auto simp: readable_slots_def ms_inv_def idle_def)
  obtain s1 where s1: "map_call p (\<lambda>m. openForReading m k) s = Inr (Some f, s1)" "ms_shm s1 = ms_shm s" "ms_extras s1 = ms_extras s"
    "valid (ms_map s1) f" "map_call p (\<lambda>m. no_result (closeForReading m f)) s1 = Inr ((), s)"
    using reader_comes_and_goes [OF assms(1), of k p] assms(2) by (auto simp: f_def)
  have bad: "copyFromShm parse (extra s f) (ms_shm s) = Inr None"
    using copyFromShm_spec [OF ok(5) sl(1), of parse] assms(3) sl(2) by (auto simp: stored_at_def)
  let ?n = "(put_slot (note_clean ?m f) f (freed_slot (slot_at ?m f)))\<lparr>count := count ?m - 1\<rparr>"
  have fr: "free ?m f = Inr ?n" using ok(2) v(1,3) by (rule free_idle)
  have "map_ok ?n" using map_ok_free [OF ok(2) v(1) _ fr] v(2) by (simp add: used_def)
  moreover have "cleaned ?n = (if f \<in> readable_slots ?m then [f] else [])" "cleaner ?n" using sl(1) v(2) ok(3,4) by (simp_all add: note_clean_def)
  moreover have "slot_at ?n g = slot_at ?m g" if "valid ?m g" "g \<noteq> f" for g using v(1) that by (simp add: slot_at_put_other)
  ultimately obtain t where t: "map_call p (\<lambda>m. no_result (free m f)) s = Inr ((), t)" "ms_base cap (readable_slots ?m - {f}) t"
    "same_but f s t" "ms_map t = ?n\<lparr>cleaned := []\<rparr>" "theCurrentSize t p = theCurrentSize s p - of_nat PageSize"
    using map_call_clean [where call = "\<lambda>m. no_result (free m f)" and f = f and p = p and r = "()" and m = ?n, OF base] fr sl(1)
    by (auto simp: no_result_def)
  have fs: "slot_at (ms_map t) f = freed_slot (slot_at ?m f)" using t(4) ok(2) v(1) by simp
  have "ms_inv cap t" using ms_inv_again [OF assms(1) t(3,2) _ v(1)] fs
    by (simp add: idle_def slot_busy_def freed_slot_def new_lock_def)
  moreover have "cached t = dm_update (slotIndexByKey ?m) k None (cached s)"
    using t(3) ok(2) fs unfolding f_def by (intro cached_update) (simp_all add: cached_def Let_def freed_slot_def same_but_def slotIndexByKey_def)
  moreover have "get_entry parse p k s = Inr (None, t)" using ok(1) s1 bad t(1) by (simp add: get_entry_def extras_at_def Let_def)
  ultimately show ?thesis using t(3,5) by (simp add: same_but_def)
qed

section \<open>What is offered to the cache\<close>

text \<open>
  A complete entry that is still whole in memory and within the limits is put in the cache, unless pieces of its data are
  missing: then it only pushes out what its slot held.
\<close>

definition offer :: "mem_config \<Rightarrow> cached_entry \<Rightarrow> (slot_basics \<times> bytes) option option" where
  "offer cfg e = (case mem_obj e of
     None \<Rightarrow> None
   | Some mo \<Rightarrow>
       if memoryCachable cfg e \<and> store_ok e \<and> inmem_hi (data_hdr mo) = expectedReplySize mo \<and>
          inmem_hi (data_hdr mo) \<le> maxInMemObjSize cfg \<and> inmem_hi (data_hdr mo) \<le> int PageSize
       then Some (map_option (Pair (ce_basics e)) (whole (data_hdr mo))) else None)"

definition entry_ok :: "cached_entry \<Rightarrow> bool" where
  "entry_ok e \<longleftrightarrow> (\<forall>mo. mem_obj e = Some mo \<longrightarrow> hdr_ok (data_hdr mo) \<and>
     (inmem_lo mo = 0 \<and> pages (data_hdr mo) \<noteq> [] \<longrightarrow> bytes_of (data_hdr mo) 0 \<noteq> None))"

lemma considerKeeping_offer:
  assumes "entry_ok e"
  shows "considerKeeping cfg p e s = (if offer cfg e = None then Inr (e, s) else keep_entry p e s)"
proof (cases "mem_obj e")
  case None
  then show ?thesis by (simp add: considerKeeping_def keepInLocalMemory_def memoryCachable_def offer_def)
next
  case (Some mo)
  then have "endOffset (data_hdr mo) = Inr (inmem_hi (data_hdr mo))" "0 \<le> inmem_hi (data_hdr mo)"
    using assms by (auto simp: entry_ok_def endOffset_ok end_nonneg)
  then show ?thesis using Some
    by (auto simp: considerKeeping_def keepInLocalMemory_def offer_def willFit_def Let_def)
qed

lemma offer_data:
  assumes "entry_ok e" "offer cfg e = Some v"
  obtains mo where "mem_obj e = Some mo" "hdr_ok (data_hdr mo)" "bytes_of (data_hdr mo) 0 \<noteq> None"
    "v = map_option (Pair (ce_basics e)) (whole (data_hdr mo))"
proof -
  obtain mo where mo: "mem_obj e = Some mo" "memoryCachable cfg e" "v = map_option (Pair (ce_basics e)) (whole (data_hdr mo))"
    using assms(2) by (auto simp: offer_def split: option.splits if_splits)
  have ok: "hdr_ok (data_hdr mo)" using assms(1) mo(1) by (simp add: entry_ok_def)
  then have "pages (data_hdr mo) \<noteq> []" "inmem_lo mo = 0"
    using mo(1,2) by (auto simp: memoryCachable_def splay_size_def hdr_ok_def split: if_splits)
  with assms(1) mo ok that show thesis by (simp add: entry_ok_def)
qed

definition dm_keep :: "('k \<Rightarrow> int) \<Rightarrow> 'k \<Rightarrow> 'v option option \<Rightarrow> ('k \<rightharpoonup> 'v) \<Rightarrow> 'k \<rightharpoonup> 'v" where
  "dm_keep slot k off c = (case off of None \<Rightarrow> c | Some v \<Rightarrow> dm_update slot k v c)"

lemma considerKeeping_spec:
  assumes "ms_inv cap s" "entry_ok e"
  shows "\<exists>e' s'. considerKeeping cfg p e s = Inr (e', s') \<and> ms_inv cap s' \<and> limit (ms_map s') = limit (ms_map s) \<and>
    cached s' = dm_keep (slotIndexByKey (ms_map s)) (ce_key e) (offer cfg e) (cached s)"
proof (cases "offer cfg e")
  case None
  then show ?thesis using assms considerKeeping_offer [OF assms(2)] by (simp add: dm_keep_def)
next
  case (Some v)
  then obtain mo where mo: "mem_obj e = Some mo" "hdr_ok (data_hdr mo)" "bytes_of (data_hdr mo) 0 \<noteq> None"
    "v = map_option (Pair (ce_basics e)) (whole (data_hdr mo))"
    using offer_data [OF assms(2)] by blast
  then show ?thesis using keep_entry_spec [OF assms(1) mo(1-3)] considerKeeping_offer [OF assms(2)] Some
    by (simp add: dm_keep_def)
qed

lemma get_entry_keeps:
  assumes "ms_inv cap s"
  shows "\<exists>r s'. get_entry parse p k s = Inr (r, s') \<and> ms_inv cap s' \<and> limit (ms_map s') = limit (ms_map s) \<and>
    (cached s' = cached s \<or> cached s' = dm_update (slotIndexByKey (ms_map s)) k None (cached s))"
proof (cases "cached s k")
  case None
  then show ?thesis using get_miss [OF assms] assms by blast
next
  case (Some v)
  obtain b bs where v: "cached s k = Some (b, bs)" using Some by (cases v) simp
  show ?thesis
  proof (cases "parse bs")
    case True
    then show ?thesis using get_hit [where parse = parse and p = p, OF assms v] assms by auto
  next
    case False
    then show ?thesis using get_unparsable [where parse = parse and p = p, OF assms v] by auto
  qed
qed

section \<open>Start and steps\<close>

definition mc_start :: "mem_config \<Rightarrow> int \<Rightarrow> mem_store \<Rightarrow> bool" where
  "mc_start cfg io s \<longleftrightarrow> 0 < EntryLimit cfg \<and> EntryLimit cfg < 2 ^ 31 \<and> 0 \<le> io \<and> start_up cfg io = Inr s"

inductive mc_step :: "mem_config \<Rightarrow> (bytes \<Rightarrow> bool) \<Rightarrow> mem_store \<Rightarrow> mem_store \<Rightarrow> bool" for cfg parse where
  mc_keep: "entry_ok e \<Longrightarrow> considerKeeping cfg p e s = Inr (e', s') \<Longrightarrow> mc_step cfg parse s s'"
| mc_get: "get_entry parse p k s = Inr (r, s') \<Longrightarrow> mc_step cfg parse s s'"

inductive_cases mc_stepE: "mc_step cfg parse s s'"

lemma start_up_inv:
  assumes "mc_start cfg io s"
  shows "ms_inv (nat (EntryLimit cfg + io)) s" "cached s = Map.empty" "limit (ms_map s) = EntryLimit cfg"
proof -
  let ?L = "EntryLimit cfg" and ?cap = "nat (EntryLimit cfg + io)"
  let ?shm = "\<lparr>ThePagePool = Some (pool_init 1 ?cap PageSize), TheLimits = (\<lambda>u. 0)(cachePage := ?L, ioPage := io),
    storage = replicate (PageSize * ?cap) 0\<rparr>"
  have b: "0 < ?L" "?L < 2 ^ 31" "0 \<le> io" "start_up cfg io = Inr s" using assms by (auto simp: mc_start_def)
  define m where mf: "m = \<lparr>limit = ?L, count = 0, slots = replicate (nat ?L) new_slot, cleaner = True, cleaned = []\<rparr>"
  have new: "new_map ?L True = Inr m" using b(1) by (simp add: new_map_def mf)
  have "NotePageNeed cachePage ?L no_pages = Inr (no_pages\<lparr>TheLimits := (\<lambda>u. 0)(cachePage := ?L)\<rparr>)"
    using b(1) by (simp add: NotePageNeed_def no_pages_def)
  moreover have "NotePageNeed ioPage io (no_pages\<lparr>TheLimits := (\<lambda>u. 0)(cachePage := ?L)\<rparr>) =
      Inr (no_pages\<lparr>TheLimits := (\<lambda>u. 0)(cachePage := ?L, ioPage := io)\<rparr>)"
    using b(3) by (simp add: NotePageNeed_def)
  moreover have "SharedMemPagesRr_run (no_pages\<lparr>TheLimits := (\<lambda>u. 0)(cachePage := ?L, ioPage := io)\<rparr>) = Inr ?shm"
    using b(1,3) by (simp add: SharedMemPagesRr_run_def PageLimit_all_def no_pages_def Let_def)
  ultimately have "start_up cfg io = init_store cfg ?shm" unfolding start_up_def by (simp only: bindE.simps)
  then have m: "s = \<lparr>has_map = True, ms_map = m, ms_extras = replicate (nat ?L) \<lparr>ex_page = no_page, storedSize = 0\<rparr>,
      ms_shm = ?shm, theCurrentSize = (\<lambda>p. 0)\<rparr>"
    using b(1,4) new by (simp add: init_store_def)
  have sl: "slot_at m f = new_slot" if "valid m f" for f using that by (auto simp: mf slot_at_def valid_def entryLimit_def)
  have none: "readable_slots m = {}" using sl by (auto simp: readable_slots_def new_slot_def)
  have "shm_ok ?cap ?L {} (extra s) ?shm"
    using pool_ok_init [of ?cap 1 PageSize] b(1-3) by (simp add: shm_ok_def pages_held_def pool_init_def)
  then show "ms_inv ?cap s" using map_ok_new [OF new] sl none b(1)
    by (auto simp: ms_inv_def ms_base_def m mf idle_def new_slot_def slot_busy_def new_lock_def)
  show "limit (ms_map s) = ?L" by (simp add: m mf)
  show "cached s = Map.empty" using sl [OF map_ok_index [OF map_ok_new [OF new]]] by (auto simp: cached_def m new_slot_def Let_def)
qed

interpretation mcache: invariant_system "mc_start cfg io" "mc_step cfg parse" "ms_inv (nat (EntryLimit cfg + io))"
proof
  show "ms_inv (nat (EntryLimit cfg + io)) t" if "ms_inv (nat (EntryLimit cfg + io)) s" "mc_step cfg parse s t" for s t
    using that(2)
  proof cases
    case (mc_keep e p e')
    then show ?thesis using considerKeeping_spec [OF that(1) mc_keep(1), of cfg p] by auto
  next
    case (mc_get p k r)
    then show ?thesis using get_entry_keeps [OF that(1), of parse p k] by auto
  qed
qed (rule start_up_inv(1))

text \<open>The operations of all processes, as a cache that may lose entries.\<close>

interpretation shared_cache: lossy_cache "ms_inv cap" cached "\<lambda>(p, e). entry_ok e" "\<lambda>(p, e). ce_key e" "\<lambda>(p, e). offer cfg e"
  "\<lambda>(p, e). considerKeeping cfg p e" "\<lambda>(p, k). get_entry parse p k"
proof
  fix s e q
  assume inv: "ms_inv cap s"
  show "\<exists>r s'. (case e of (p, e) \<Rightarrow> considerKeeping cfg p e) s = Inr (r, s') \<and> ms_inv cap s' \<and>
      (\<forall>k. if (case e of (p, e) \<Rightarrow> ce_key e) = k \<and> (case e of (p, e) \<Rightarrow> offer cfg e) \<noteq> None
        then cached s' k = the (case e of (p, e) \<Rightarrow> offer cfg e) else cached s' k \<in> {None, cached s k})"
    if "case e of (p, e) \<Rightarrow> entry_ok e"
  proof -
    obtain p x where e: "e = (p, x)" by fastforce
    show ?thesis using considerKeeping_spec [where cfg = cfg and p = p, OF inv, of x] that
      by (auto simp: e dm_keep_def dm_update_def split: option.splits)
  qed
  show "\<exists>r s'. (case q of (p, k) \<Rightarrow> get_entry parse p k) s = Inr (r, s') \<and> ms_inv cap s' \<and> (\<forall>k. cached s' k \<in> {None, cached s k})"
  proof -
    obtain p k where q: "q = (p, k)" by (rule prod.exhaust)
    show ?thesis using get_entry_keeps [where parse = parse and p = p and k = k, OF inv] by (auto simp: q dm_update_def)
  qed
qed

section \<open>No page is lost\<close>

lemma card_readable:
  assumes "map_ok m" "\<And>f. valid m f \<Longrightarrow> idle (slot_at m f)"
  shows "int (card (readable_slots m)) = count m"
proof -
  have lim: "limit m = int (length (slots m))" using assms(1) by (simp add: map_ok_def)
  have u: "used t \<longleftrightarrow> state t = Readable" if t: "t \<in> set (slots m)" for t
  proof -
    obtain i where i: "i < length (slots m)" "t = slots m ! i" using t by (metis in_set_conv_nth)
    then have "valid m (int i)" "t = slot_at m (int i)" using lim by (auto simp: valid_def entryLimit_def slot_at_def)
    then show ?thesis using assms(2) by (cases "state t") (auto simp: idle_def slot_busy_def used_def)
  qed
  have "readable_slots m = int ` {i. i < length (slots m) \<and> state (slots m ! i) = Readable}"
  proof (intro equalityI subsetI)
    fix f assume "f \<in> readable_slots m"
    then show "f \<in> int ` {i. i < length (slots m) \<and> state (slots m ! i) = Readable}"
      using assms(1) valid_index [of m f] by (intro image_eqI [of _ _ "nat f"]) (auto simp: readable_slots_def valid_def slot_at_def)
  qed (use lim in \<open>auto simp: readable_slots_def valid_def entryLimit_def slot_at_def\<close>)
  then have "card (readable_slots m) = card {i. i < length (slots m) \<and> state (slots m ! i) = Readable}"
    by (simp add: card_image)
  also have "\<dots> = length (filter (\<lambda>t. state t = Readable) (slots m))" by (simp add: length_filter_conv_card)
  also have "filter (\<lambda>t. state t = Readable) (slots m) = filter used (slots m)" using u by (intro filter_cong) auto
  finally show ?thesis using assms(1) by (simp add: map_ok_def)
qed

lemma level_is_count:
  assumes "ms_inv cap s"
  shows "PageLevel cachePage (ms_shm s) = Inr (currentCount s)" "currentCount s \<le> limit (ms_map s)"
proof -
  have b: "map_ok (ms_map s)" "has_map s" "\<And>f. valid (ms_map s) f \<Longrightarrow> idle (slot_at (ms_map s) f)"
    "shm_ok cap (limit (ms_map s)) (readable_slots (ms_map s)) (extra s) (ms_shm s)"
    using assms by (auto simp: ms_inv_def ms_base_def)
  then show "PageLevel cachePage (ms_shm s) = Inr (currentCount s)" using card_readable [OF b(1,3)]
    by (auto simp: shm_ok_def PageLevel_def pool_level_def currentCount_def entryCount_def)
  have "int (length (filter used (slots (ms_map s)))) \<le> int (length (slots (ms_map s)))" by simp
  then show "currentCount s \<le> limit (ms_map s)" using b(1,2) unfolding currentCount_def entryCount_def map_ok_def by simp
qed

lemma start_up_succeeds: "0 < EntryLimit cfg \<Longrightarrow> 0 \<le> io \<Longrightarrow> \<exists>s. start_up cfg io = Inr s"
  by (simp add: start_up_def NotePageNeed_def no_pages_def SharedMemPagesRr_run_def PageLimit_all_def init_store_def new_map_def Let_def)

section \<open>Properties\<close>


definition demo_config :: mem_config where
  "demo_config = \<lparr>maxInMemObjSize = 512 * 1024, memory_cache_first = True, memShared = True, memMaxSize = 65536\<rparr>"

definition demo_data :: mem_hdr where
  "demo_data = \<lparr>inmem_hi = 3, nodes = \<lparr>head = \<langle>\<langle>\<rangle>, \<lparr>offset = 0, buf = [72, 105, 33], write_pending = False\<rparr>, \<langle>\<rangle>\<rangle>, elements = 1\<rparr>\<rparr>"

definition demo_object :: cached_entry where
  "demo_object = \<lparr>ce_key = (1, 2), ce_basics = zero_basics, store_ok = True, swapout_done = False,
     mem_obj = Some \<lparr>data_hdr = demo_data, inmem_lo = 0, object_sz = 3, mo_reply_size = -1\<rparr>, hidden_mem_obj = None\<rparr>"

lemma demo_limit: "EntryLimit demo_config = 2"
  by (simp add: EntryLimit_def demo_config_def PageSize_def)

lemma demo_pages: "pages demo_data = [\<lparr>offset = 0, buf = [72, 105, 33], write_pending = False\<rparr>]" "inmem_hi demo_data = 3"
  by (simp_all add: demo_data_def pages_def splay_items_def)

lemma demo_bytes: "bytes_of demo_data p = (if 0 \<le> p \<and> p < 3 then Some ([72, 105, 33] ! nat p) else None)"
  by (simp add: bytes_of_def demo_pages node_contains_def node_end_def)

lemma demo_whole: "whole demo_data = Some [72, 105, 33]"
proof -
  have "map (\<lambda>i. the (bytes_of demo_data (int i))) [0..<3] = [72, 105, 33]"
    by (simp add: upt_rec demo_bytes numeral_2_eq_2)
  then show ?thesis by (simp add: whole_def demo_pages(2) PageSize_def demo_bytes)
qed

lemma demo_entry_ok: "entry_ok demo_object"
  by (simp add: entry_ok_def demo_object_def hdr_ok_def demo_pages demo_bytes apart_def node_ok_def SM_PAGE_SIZE_def last_end_def node_end_def)
    (simp add: demo_data_def)

lemma demo_offer: "offer demo_config demo_object = Some (Some (zero_basics, [72, 105, 33]))"
  by (simp add: offer_def demo_object_def memoryCachable_def expectedReplySize_def demo_config_def demo_whole demo_pages(2) PageSize_def)
    (simp add: demo_data_def splay_size_def)

lemma demo_started: obtains s where "mc_start demo_config 1 s"
  using start_up_succeeds [of demo_config 1] by (auto simp: mc_start_def demo_limit)


text \<open>
  \<^verbatim>\<open>MemStore::get()\<close> finds exactly what is cached: for a key that is not cached it returns nothing and changes
  nothing; for a cached object whose headers can be parsed it returns an entry with the stored basics (and the
  flags of a loaded entry) whose memory holds exactly the stored bytes, and leaves the cache as it was; otherwise
  it returns nothing and drops the object, and then the size that the process reports shrinks by a page, no matter which
  process had added that page (it wraps below zero for one that had stored nothing).
\<close>

theorem memory_cache_get:
  assumes "reach (mc_start cfg io) (mc_step cfg parse) s"
  shows "case cached s k of
      None \<Rightarrow> get_entry parse p k s = Inr (None, s)
    | Some (b, bs) \<Rightarrow>
        if parse bs
        then \<exists>mo. get_entry parse p k s = Inr (Some \<lparr>ce_key = k, ce_basics = b\<lparr>flags := loaded_flags (flags b)\<rparr>, store_ok = True,
            swapout_done = False, mem_obj = None, hidden_mem_obj = Some mo\<rparr>, s) \<and>
          object_sz mo = int (length bs) \<and> hdr_ok (data_hdr mo) \<and> whole (data_hdr mo) = Some bs
        else \<exists>s'. get_entry parse p k s = Inr (None, s') \<and> cached s' = dm_update (slotIndexByKey (ms_map s)) k None (cached s) \<and>
          theCurrentSize s' p = theCurrentSize s p - of_nat PageSize"
proof -
  note inv = mcache.reach_inv [OF assms]
  note cases = get_miss [OF inv] get_hit [OF inv] get_unparsable [OF inv]
  show ?thesis
  proof (cases "cached s k")
    case None
    then show ?thesis using cases(1) by simp
  next
    case (Some v)
    obtain b bs where v: "v = (b, bs)" by (rule prod.exhaust)
    show ?thesis using cases(2,3) [of k b bs parse p] Some unfolding v by (cases "parse bs") auto
  qed
qed

theorem memory_cache_get_witness:
  "\<exists>s e' s' e'' mo. mc_start demo_config 1 s \<and> considerKeeping demo_config 0 demo_object s = Inr (e', s') \<and>
     get_entry (\<lambda>bs. True) 7 (1, 2) s' = Inr (Some e'', s') \<and> hidden_mem_obj e'' = Some mo \<and> whole (data_hdr mo) = Some [72, 105, 33]"
proof -
  obtain s where s: "mc_start demo_config 1 s" by (rule demo_started)
  obtain e' s' where k: "considerKeeping demo_config 0 demo_object s = Inr (e', s')"
    "cached s' = dm_keep (slotIndexByKey (ms_map s)) (ce_key demo_object) (offer demo_config demo_object) (cached s)"
    using considerKeeping_spec [OF start_up_inv(1) [OF s] demo_entry_ok, of demo_config 0] by blast
  have "mc_step demo_config (\<lambda>bs. True) s s'" using demo_entry_ok k(1) by (rule mc_keep)
  then have "reach (mc_start demo_config 1) (mc_step demo_config (\<lambda>bs. True)) s'" using s by (blast intro: reach.intros)
  moreover have "cached s' (1, 2) = Some (zero_basics, [72, 105, 33])"
    unfolding k(2) demo_offer by (simp add: dm_keep_def dm_update_def demo_object_def)
  ultimately show ?thesis using memory_cache_get [of demo_config 1 "\<lambda>bs. True" s' 7 "(1, 2)"] s k(1) by auto
qed



end
