(* ===== verification/Request_Line.thy ===== *)
theory Request_Line
  imports Http_Range
begin

text \<open>
  The parser of HTTP request lines: \<^verbatim>\<open>src/HttpParser.cc\<close>.  The parser reads from the input buffer of a connection, of which the
  first \<open>bufsiz\<close> bytes are data; a read outside the memory of the buffer is the fault \<open>OutOfBounds\<close>.  The fields of
  the parser are offsets into the buffer, as in the source.  The two settings that matter are parameters:
  \<^verbatim>\<open>relaxed_header_parser\<close> (nonzero when on) and the build option \<^verbatim>\<open>USE_HTTP_VIOLATIONS\<close>.
\<close>

section \<open>State\<close>

record request_offsets =
  req_start :: int
  req_end :: int
  m_start :: int
  m_end :: int
  u_start :: int
  u_end :: int
  v_start :: int
  v_end :: int
  v_maj :: int
  v_min :: int

datatype parse_status = HTTP_STATUS_NONE | HTTP_OK | HTTP_BAD_REQUEST | HTTP_HTTP_VERSION_NOT_SUPPORTED

datatype parser_state = HTTP_PARSE_NONE | HTTP_PARSE_NEW

record http_parser =
  hp_state :: parser_state
  hp_buf :: "string option"
  bufsiz :: int
  req :: request_offsets
  hdr_start :: int
  hdr_end :: int
  request_parse_status :: parse_status

record parser_config =
  relaxed_header_parser :: int
  use_http_violations :: bool

definition hp_clear :: http_parser where
  "hp_clear = \<lparr>hp_state = HTTP_PARSE_NONE, hp_buf = None, bufsiz = 0,
     req = \<lparr>req_start = -1, req_end = -1, m_start = -1, m_end = -1, u_start = -1, u_end = -1, v_start = -1, v_end = -1,
       v_maj = 0, v_min = 0\<rparr>,
     hdr_start = -1, hdr_end = -1, request_parse_status = HTTP_STATUS_NONE\<rparr>"

definition hp_reset :: "string \<Rightarrow> int \<Rightarrow> http_parser" where
  "hp_reset aBuf l = hp_clear\<lparr>hp_state := HTTP_PARSE_NEW, hp_buf := Some aBuf, bufsiz := l\<rparr>"

abbreviation SP :: char where "SP \<equiv> CHR '' ''"
abbreviation HT :: char where "HT \<equiv> CHR 0x09"
abbreviation CR :: char where "CR \<equiv> CHR 0x0D"
abbreviation LF :: char where "LF \<equiv> CHR 0x0A"

definition rd :: "string \<Rightarrow> int \<Rightarrow> char outcome" where
  "rd b i = guardE (0 \<le> i \<and> i < int (length b)) OutOfBounds (Inr (b ! nat i))"

section \<open>Scanning the line\<close>

text \<open>The local variables of the scan.\<close>

record line_scan =
  second_word :: int
  first_whitespace :: int
  last_whitespace :: int
  line_end :: int

datatype scan_end = NoEol | BadEol | Eol int

definition new_scan :: line_scan where
  "new_scan = \<lparr>second_word = -1, first_whitespace = -1, last_whitespace = -1, line_end = -1\<rparr>"

function skip_prefix :: "string \<Rightarrow> int \<Rightarrow> int \<Rightarrow> int outcome" where
  "skip_prefix b n i = (if i < n then bindE (rd b i) (\<lambda>c. if c = SP then skip_prefix b n (i + 1) else Inr i) else Inr i)"
  by auto
termination by (relation "measure (\<lambda>(b, n, i). nat (n - i))") auto

definition track :: "int \<Rightarrow> int \<Rightarrow> char \<Rightarrow> line_scan \<Rightarrow> line_scan" where
  "track st i c t =
     (let t1 = (if c = SP then t\<lparr>last_whitespace := i, first_whitespace := (if first_whitespace t < st then i else first_whitespace t)\<rparr> else t)
      in if second_word t1 < first_whitespace t1 \<and> c \<noteq> SP \<and> c \<noteq> HT then t1\<lparr>second_word := i\<rparr> else t1)"

function skip_CRs :: "string \<Rightarrow> int \<Rightarrow> int \<Rightarrow> int outcome" where
  "skip_CRs b n i = (if i < n - 1 then bindE (rd b (i + 1)) (\<lambda>c. if c = CR then skip_CRs b n (i + 1) else Inr i) else Inr i)"
  by auto
termination by (relation "measure (\<lambda>(b, n, i). nat (n - i))") auto

text \<open>What happens at a carriage return that is not the last byte of the data.\<close>

definition at_CR :: "parser_config \<Rightarrow> string \<Rightarrow> int \<Rightarrow> int \<Rightarrow> line_scan \<Rightarrow> (scan_end \<times> line_scan) outcome" where
  "at_CR cfg b n i t =
     bindE (rd b (i + 1)) (\<lambda>d.
     if relaxed_header_parser cfg \<noteq> 0 then
       let t1 = (if d = LF \<or> d = CR then t\<lparr>line_end := i - 1\<rparr> else t)
       in bindE (skip_CRs b n i) (\<lambda>j. bindE (rd b (j + 1)) (\<lambda>e.
            if e = LF then Inr (Eol (j + 1), t1) else Inr (BadEol, t1)))
     else if d = LF then Inr (Eol (i + 1), t\<lparr>line_end := i - 1\<rparr>)
     else Inr (BadEol, t))"

function scan_line :: "parser_config \<Rightarrow> string \<Rightarrow> int \<Rightarrow> int \<Rightarrow> int \<Rightarrow> line_scan \<Rightarrow> (scan_end \<times> line_scan) outcome" where
  "scan_line cfg b n st i t =
     (if i < n then
        bindE (rd b i) (\<lambda>c.
        let t1 = track st i c t
        in if c = LF then Inr (Eol i, t1\<lparr>line_end := i - 1\<rparr>)
           else if i < n - 1 \<and> c = CR then at_CR cfg b n i t1
           else scan_line cfg b n st (i + 1) t1)
      else Inr (NoEol, t))"
  by auto
termination by (relation "measure (\<lambda>(cfg, b, n, st, i, t). nat (n - i))") auto

declare skip_prefix.simps [simp del] skip_CRs.simps [simp del] scan_line.simps [simp del]

section \<open>The fields of the line\<close>

definition hp_fail :: "parse_status \<Rightarrow> http_parser \<Rightarrow> (int \<times> http_parser) outcome" where
  "hp_fail st p = Inr (-1, p\<lparr>request_parse_status := st\<rparr>)"

definition hp_ok :: "request_offsets \<Rightarrow> http_parser \<Rightarrow> (int \<times> http_parser) outcome" where
  "hp_ok r p = Inr (1, p\<lparr>req := r, request_parse_status := HTTP_OK\<rparr>)"

function crop_space :: "string \<Rightarrow> int \<Rightarrow> int \<Rightarrow> int outcome" where
  "crop_space b lo i = (if i \<ge> lo then bindE (rd b i) (\<lambda>c. if xisspace c then crop_space b lo (i - 1) else Inr i) else Inr i)"
  by auto
termination by (relation "measure (\<lambda>(b, lo, i). nat (i - lo + 1))") auto

text \<open>The loops over the digits of a version number: the value and the place after it.\<close>

function version_digits :: "string \<Rightarrow> int \<Rightarrow> int \<Rightarrow> int \<Rightarrow> (int \<times> int) outcome" where
  "version_digits b le i v =
     (if i \<le> le then
        bindE (rd b i) (\<lambda>c. if is_digit c \<and> v < 65536 then version_digits b le (i + 1) (v * 10 + (int (of_char c) - 48)) else Inr (v, i))
      else Inr (v, i))"
  by auto
termination by (relation "measure (\<lambda>(b, le, i, v). nat (le - i + 1))") auto

declare crop_space.simps [simp del] version_digits.simps [simp del]

definition parse_version :: "string \<Rightarrow> int \<Rightarrow> request_offsets \<Rightarrow> http_parser \<Rightarrow> (int \<times> http_parser) outcome" where
  "parse_version b le r p =
     bindE (rd b (v_start r + 5)) (\<lambda>c.
     if \<not> is_digit c then hp_fail HTTP_HTTP_VERSION_NOT_SUPPORTED (p\<lparr>req := r\<rparr>)
     else bindE (version_digits b le (v_start r + 5) 0) (\<lambda>(maj, i).
       if maj \<ge> 65536 \<or> i > le then hp_fail HTTP_HTTP_VERSION_NOT_SUPPORTED (p\<lparr>req := r\<rparr>)
       else let r = r\<lparr>v_maj := maj\<rparr> in
         bindE (rd b i) (\<lambda>c.
         if c \<noteq> CHR ''.'' then hp_fail HTTP_HTTP_VERSION_NOT_SUPPORTED (p\<lparr>req := r\<rparr>)
         else if i + 1 > le then hp_fail HTTP_HTTP_VERSION_NOT_SUPPORTED (p\<lparr>req := r\<rparr>)
         else bindE (rd b (i + 1)) (\<lambda>c.
           if \<not> is_digit c then hp_fail HTTP_HTTP_VERSION_NOT_SUPPORTED (p\<lparr>req := r\<rparr>)
           else bindE (version_digits b le (i + 1) 0) (\<lambda>(mn, i).
             if mn \<ge> 65536 \<or> i < le then hp_fail HTTP_HTTP_VERSION_NOT_SUPPORTED (p\<lparr>req := r\<rparr>)
             else hp_ok (r\<lparr>v_min := mn\<rparr>) p)))))"

text \<open>\<^verbatim>\<open>strncasecmp(&buf[i], "HTTP/", 5) == 0\<close>; only these five bytes are read.\<close>

definition is_HTTP :: "string \<Rightarrow> int \<Rightarrow> bool" where
  "is_HTTP b i \<longleftrightarrow> map to_lower (bytes_at b (nat i) 5) = ''http/''"

definition split_version :: "parser_config \<Rightarrow> string \<Rightarrow> line_scan \<Rightarrow> request_offsets \<Rightarrow> http_parser \<Rightarrow> (int \<times> http_parser) outcome" where
  "split_version cfg b t r p =
     (if last_whitespace t \<ge> line_end t then hp_fail HTTP_BAD_REQUEST (p\<lparr>req := r\<rparr>)
      else let r = r\<lparr>v_start := last_whitespace t + 1, v_end := line_end t\<rparr>
        in if v_end r - v_start r + 1 < 5 \<or> \<not> is_HTTP b (v_start r)
           then if use_http_violations cfg then hp_ok (r\<lparr>v_maj := 0, v_min := 9, u_end := line_end t\<rparr>) p
                else hp_fail HTTP_HTTP_VERSION_NOT_SUPPORTED (p\<lparr>req := r\<rparr>)
           else parse_version b (line_end t) r p)"

definition split_uri :: "parser_config \<Rightarrow> string \<Rightarrow> line_scan \<Rightarrow> request_offsets \<Rightarrow> http_parser \<Rightarrow> (int \<times> http_parser) outcome" where
  "split_uri cfg b t r p =
     (if second_word t > line_end t \<or> second_word t < req_start r then hp_fail HTTP_BAD_REQUEST (p\<lparr>req := r\<rparr>)
      else let r = r\<lparr>u_start := second_word t\<rparr>
        in if last_whitespace t < second_word t \<and> last_whitespace t \<ge> req_start r
           then hp_ok (r\<lparr>v_maj := 0, v_min := 9, u_end := line_end t\<rparr>) p
           else bindE (crop_space b (u_start r) (last_whitespace t)) (\<lambda>e.
             let r = r\<lparr>u_end := e\<rparr>
             in if u_end r < u_start r then hp_fail HTTP_BAD_REQUEST (p\<lparr>req := r\<rparr>)
                else split_version cfg b t r p))"

definition split_method :: "parser_config \<Rightarrow> string \<Rightarrow> line_scan \<Rightarrow> request_offsets \<Rightarrow> http_parser \<Rightarrow> (int \<times> http_parser) outcome" where
  "split_method cfg b t r p =
     (if req_start r > line_end t then hp_fail HTTP_BAD_REQUEST (p\<lparr>req := r\<rparr>)
      else let r = r\<lparr>m_start := req_start r\<rparr>
        in if first_whitespace t > line_end t \<or> first_whitespace t < req_start r then hp_fail HTTP_BAD_REQUEST (p\<lparr>req := r\<rparr>)
           else let r = r\<lparr>m_end := first_whitespace t - 1\<rparr>
             in if m_end r < m_start r then hp_fail HTTP_BAD_REQUEST (p\<lparr>req := r\<rparr>) else split_uri cfg b t r p)"

definition parseRequestFirstLine :: "parser_config \<Rightarrow> http_parser \<Rightarrow> (int \<times> http_parser) outcome" where
  "parseRequestFirstLine cfg p =
     (case hp_buf p of
        None \<Rightarrow> Inl OutOfBounds
      | Some b \<Rightarrow>
          bindE (if relaxed_header_parser cfg \<noteq> 0 then skip_prefix b (bufsiz p) 0 else Inr 0) (\<lambda>st.
          let r = (req p)\<lparr>req_start := st, req_end := -1\<rparr>
          in bindE (scan_line cfg b (bufsiz p) st 0 new_scan) (\<lambda>(e, t).
            case e of
              NoEol \<Rightarrow> Inr (0, p\<lparr>req := r\<rparr>)
            | BadEol \<Rightarrow> hp_fail HTTP_BAD_REQUEST (p\<lparr>req := r\<rparr>)
            | Eol k \<Rightarrow> split_method cfg b t (r\<lparr>req_end := k\<rparr>) p)))"

definition HttpParserReqSz :: "http_parser \<Rightarrow> int" where
  "HttpParserReqSz p = req_end (req p) - req_start (req p) + 1"

end
