(* ===== verification/Request_Parsing.thy ===== *)
theory Request_Parsing
  imports Request_Line
begin

text \<open>
  What the parser of request lines computes: a reference definition on strings (\<open>request_spec\<close>) that splits the first line of
  the data into method, URI and version, the proof that the single-pass scanner with its offsets agrees with it on every input,
  and what follows for well-formed lines and for data that arrives in pieces.
\<close>

section \<open>The reference\<close>

text \<open>The first line, without its terminator: not there yet, malformed, or found.\<close>

datatype first_line = Incomplete | Malformed | Line string

definition line_of :: "bool \<Rightarrow> string \<Rightarrow> first_line" where
  "line_of relaxed data =
     (let l = takeWhile (\<lambda>c. c \<noteq> CR \<and> c \<noteq> LF) data; r = drop (length l) data
      in case r of
           [] \<Rightarrow> Incomplete
         | c # s \<Rightarrow>
             if c = LF then Line l
             else if s = [] then Incomplete
             else case (if relaxed then dropWhile (\<lambda>c. c = CR) s else s) of
                 [] \<Rightarrow> Malformed
               | d # u \<Rightarrow> if d = LF then Line l else Malformed)"

fun digits_upto :: "string \<Rightarrow> int \<Rightarrow> int \<times> string" where
  "digits_upto [] v = (v, [])"
| "digits_upto (c # cs) v = (if is_digit c \<and> v < 65536 then digits_upto cs (v * 10 + (int (of_char c) - 48)) else (v, c # cs))"

definition starts_digit :: "string \<Rightarrow> bool" where
  "starts_digit s = (case s of [] \<Rightarrow> False | c # cs \<Rightarrow> is_digit c)"

text \<open>Major and minor number after \<^verbatim>\<open>HTTP/\<close>; one more character after the minor number is ignored.\<close>

definition version_spec :: "string \<Rightarrow> (int \<times> int) option" where
  "version_spec s =
     (if \<not> starts_digit s then None
      else let (maj, r) = digits_upto s 0
        in if maj \<ge> 65536 then None
           else case r of
               [] \<Rightarrow> None
             | c # t \<Rightarrow>
                 if c \<noteq> CHR ''.'' \<or> \<not> starts_digit t then None
                 else let (mn, u) = digits_upto t 0
                   in if mn \<ge> 65536 \<or> length u \<ge> 2 then None else Some (maj, mn))"

definition rstrip :: "string \<Rightarrow> string" where
  "rstrip s = rev (dropWhile xisspace (rev s))"

text \<open>The text after the last space, and the text up to it.\<close>

definition last_word :: "string \<Rightarrow> string" where
  "last_word s = rev (takeWhile (\<lambda>c. c \<noteq> SP) (rev s))"

definition upto_last :: "string \<Rightarrow> string" where
  "upto_last s = rev (dropWhile (\<lambda>c. c \<noteq> SP) (rev s))"

definition uri_spec :: "parser_config \<Rightarrow> string \<Rightarrow> parse_status + (string \<times> int \<times> int)" where
  "uri_spec cfg r =
     (if SP \<notin> set r then Inr (r, 0, 9)
      else let v = last_word r; u = rstrip (upto_last r)
        in if u = [] \<or> v = [] then Inl HTTP_BAD_REQUEST
           else if map to_lower (take 5 v) \<noteq> ''http/''
             then if use_http_violations cfg then Inr (r, 0, 9) else Inl HTTP_HTTP_VERSION_NOT_SUPPORTED
           else case version_spec (drop 5 v) of
               None \<Rightarrow> Inl HTTP_HTTP_VERSION_NOT_SUPPORTED
             | Some (maj, mn) \<Rightarrow> Inr (u, maj, mn))"

definition line_spec :: "parser_config \<Rightarrow> string \<Rightarrow> parse_status + (string \<times> string \<times> int \<times> int)" where
  "line_spec cfg line =
     (let l = (if relaxed_header_parser cfg \<noteq> 0 then dropWhile (\<lambda>c. c = SP) line else line);
          m = takeWhile (\<lambda>c. c \<noteq> SP) l;
          r = dropWhile (\<lambda>c. c = SP \<or> c = HT) (drop (length m) l)
      in if m = [] \<or> r = [] then Inl HTTP_BAD_REQUEST
         else case uri_spec cfg r of Inl st \<Rightarrow> Inl st | Inr (u, v) \<Rightarrow> Inr (m, u, v))"

section \<open>The loops on strings\<close>

lemma rd_append [simp]: "rd (pre @ c # post) (int (length pre)) = Inr c"
  by (simp add: rd_def)

lemma rd_at: "b = pre @ c # post \<Longrightarrow> i = int (length pre) \<Longrightarrow> rd b i = Inr c"
  by simp

lemma crop_space_run:
  "crop_space (pre @ xs @ post) (int (length pre)) (int (length pre) + int (length xs) - 1) =
   Inr (int (length pre) + int (length (rstrip xs)) - 1)"
proof (induction xs arbitrary: post rule: rev_induct)
  case (snoc c xs)
  have rd: "rd (pre @ (xs @ [c]) @ post) (int (length pre) + int (length (xs @ [c])) - 1) = Inr c"
    by (rule rd_at [of _ "pre @ xs" _ post]) simp_all
  show ?case
  proof (cases "xisspace c")
    case True
    then show ?thesis using rd snoc.IH [of "c # post"] by (subst crop_space.simps) (simp add: rstrip_def)
  next
    case False
    then show ?thesis using rd by (subst crop_space.simps) (simp add: rstrip_def)
  qed
qed (simp add: rstrip_def crop_space.simps)

lemma digits_upto_length: "digits_upto s v = (w, r) \<Longrightarrow> \<exists>d. s = d @ r"
  by (induction s v rule: digits_upto.induct) (force split: if_splits)+

lemma version_digits_run:
  "le = int (length pre) + int (length xs) - 1 \<Longrightarrow> digits_upto xs v = (w, r) \<Longrightarrow>
   version_digits (pre @ xs @ post) le (int (length pre)) v = Inr (w, le + 1 - int (length r))"
proof (induction xs arbitrary: pre v)
  case Nil
  then show ?case by (subst version_digits.simps) simp
next
  case (Cons c xs)
  have rd: "rd (pre @ (c # xs) @ post) (int (length pre)) = Inr c" by simp
  show ?case
  proof (cases "is_digit c \<and> v < 65536")
    case True
    then have "version_digits ((pre @ [c]) @ xs @ post) le (int (length (pre @ [c]))) (v * 10 + (int (of_char c) - 48)) = Inr (w, le + 1 - int (length r))"
      using Cons.prems by (intro Cons.IH) simp_all
    then show ?thesis using True rd Cons.prems(1) by (subst version_digits.simps) (simp add: add.commute)
  next
    case False
    then show ?thesis using rd Cons.prems by (subst version_digits.simps) auto
  qed
qed

fun track_all :: "int \<Rightarrow> int \<Rightarrow> string \<Rightarrow> line_scan \<Rightarrow> line_scan" where
  "track_all st i [] t = t"
| "track_all st i (c # cs) t = track_all st (i + 1) cs (track st i c t)"

lemma track_all_append: "track_all st i (xs @ ys) t = track_all st (i + int (length xs)) ys (track_all st i xs t)"
  by (induction xs arbitrary: i t) (simp_all add: add.assoc)

lemma scan_run:
  "list_all (\<lambda>c. c \<noteq> CR \<and> c \<noteq> LF) xs \<Longrightarrow> int (length pre) + int (length xs) \<le> n \<Longrightarrow>
   scan_line cfg (pre @ xs @ post) n st (int (length pre)) t =
   scan_line cfg (pre @ xs @ post) n st (int (length pre) + int (length xs)) (track_all st (int (length pre)) xs t)"
proof (induction xs arbitrary: pre t)
  case (Cons c xs)
  have "scan_line cfg (pre @ (c # xs) @ post) n st (int (length pre)) t =
      scan_line cfg ((pre @ [c]) @ xs @ post) n st (int (length (pre @ [c]))) (track st (int (length pre)) c t)"
    using Cons.prems by (subst scan_line.simps) (simp add: Let_def add.commute)
  also have "\<dots> = scan_line cfg ((pre @ [c]) @ xs @ post) n st (int (length (pre @ [c])) + int (length xs))
      (track_all st (int (length (pre @ [c]))) xs (track st (int (length pre)) c t))"
    using Cons.prems by (intro Cons.IH) simp_all
  finally show ?case by (simp add: add.commute add.left_commute)
qed simp

lemma skip_prefix_run:
  "n = int (length pre) + int (length xs) \<Longrightarrow>
   skip_prefix (pre @ xs @ post) n (int (length pre)) = Inr (int (length pre) + int (length (takeWhile (\<lambda>c. c = SP) xs)))"
proof (induction xs arbitrary: pre)
  case (Cons c xs)
  have "skip_prefix ((pre @ [c]) @ xs @ post) n (int (length (pre @ [c]))) =
      Inr (int (length (pre @ [c])) + int (length (takeWhile (\<lambda>c. c = SP) xs)))"
    using Cons.prems by (intro Cons.IH) simp
  then show ?case using Cons.prems by (subst skip_prefix.simps) (auto simp: ac_simps)
qed (simp add: skip_prefix.simps)

lemma skip_CRs_run:
  "n = int (length pre) + 1 + int (length xs) \<Longrightarrow>
   skip_CRs (pre @ c # xs @ post) n (int (length pre)) = Inr (int (length pre) + int (length (takeWhile (\<lambda>c. c = CR) xs)))"
proof (induction xs arbitrary: pre c)
  case (Cons d xs)
  have rd: "rd (pre @ c # (d # xs) @ post) (int (length pre) + 1) = Inr d"
    by (rule rd_at [of _ "pre @ [c]" _ "xs @ post"]) simp_all
  have "skip_CRs ((pre @ [c]) @ d # xs @ post) n (int (length (pre @ [c]))) =
      Inr (int (length (pre @ [c])) + int (length (takeWhile (\<lambda>c. c = CR) xs)))"
    using Cons.prems by (intro Cons.IH) simp
  then show ?case using Cons.prems rd by (subst skip_CRs.simps) (auto simp: ac_simps)
qed (simp add: skip_CRs.simps)

section \<open>Finding the line\<close>

text \<open>The input buffer of a connection: the data, then a terminator, then whatever the memory holds.\<close>

abbreviation in_buf :: "string \<Rightarrow> string \<Rightarrow> string" where
  "in_buf data junk \<equiv> data @ CHR 0x00 # junk"

lemma at_CR_run:
  assumes "data = l @ CR # s" "s \<noteq> []"
  shows "\<exists>k t'. at_CR cfg (in_buf data junk) (int (length data)) (int (length l)) t =
      Inr (case (if relaxed_header_parser cfg \<noteq> 0 then dropWhile (\<lambda>c. c = CR) s else s) of
          [] \<Rightarrow> (BadEol, t')
        | d # u \<Rightarrow> if d = LF then (Eol k, t\<lparr>line_end := int (length l) - 1\<rparr>) else (BadEol, t'))"
proof -
  obtain d s' where s: "s = d # s'" using assms(2) by (cases s) auto
  have rd1: "rd (in_buf data junk) (int (length l) + 1) = Inr d"
    by (rule rd_at [of _ "l @ [CR]" _ "s' @ CHR 0x00 # junk"]) (simp_all add: assms(1) s)
  show ?thesis
  proof (cases "relaxed_header_parser cfg = 0")
    case True
    then show ?thesis using rd1 by (auto simp: at_CR_def s)
  next
    case False
    define w where "w = takeWhile (\<lambda>c. c = CR) s"
    define z where "z = dropWhile (\<lambda>c. c = CR) s"
    define e where "e = hd (z @ [CHR 0x00])"
    have skip: "skip_CRs (in_buf data junk) (int (length data)) (int (length l)) = Inr (int (length l) + int (length w))"
      using skip_CRs_run [of "int (length data)" l s CR "CHR 0x00 # junk"] by (simp add: assms(1) w_def)
    have b: "in_buf data junk = (l @ CR # w) @ z @ CHR 0x00 # junk" by (simp add: assms(1) w_def z_def)
    obtain post where "z @ CHR 0x00 # junk = e # post" unfolding e_def by (cases z; simp)
    then have rd2: "rd (in_buf data junk) (int (length l) + int (length w) + 1) = Inr e"
      unfolding b by (intro rd_at [of _ "l @ CR # w" _ post]) simp_all
    have d: "d = LF \<or> d = CR" if "z = LF # u" for u using that unfolding z_def s by (auto split: if_splits)
    show ?thesis unfolding z_def [symmetric] using False rd1 skip rd2 d
      by (cases z) (auto simp: at_CR_def Let_def e_def)
  qed
qed

lemma scan_first_line:
  fixes data junk :: string
  assumes "b = in_buf data junk"
  shows "case line_of (relaxed_header_parser cfg \<noteq> 0) data of
      Incomplete \<Rightarrow> \<exists>t. scan_line cfg b (int (length data)) st 0 new_scan = Inr (NoEol, t)
    | Malformed \<Rightarrow> \<exists>t. scan_line cfg b (int (length data)) st 0 new_scan = Inr (BadEol, t)
    | Line l \<Rightarrow> \<exists>k x post. scan_line cfg b (int (length data)) st 0 new_scan =
        Inr (Eol k, (track_all st 0 (l @ [x]) new_scan)\<lparr>line_end := int (length l) - 1\<rparr>) \<and>
        (x = CR \<or> x = LF) \<and> b = l @ x # post \<and> l = takeWhile (\<lambda>c. c \<noteq> CR \<and> c \<noteq> LF) data"
proof -
  define l where "l = takeWhile (\<lambda>c. c \<noteq> CR \<and> c \<noteq> LF) data"
  define r where "r = dropWhile (\<lambda>c. c \<noteq> CR \<and> c \<noteq> LF) data"
  have data: "data = l @ r" by (simp add: l_def r_def)
  have dr: "drop (length l) data = r" using data by simp
  have no: "list_all (\<lambda>c. c \<noteq> CR \<and> c \<noteq> LF) l" by (auto simp: l_def list_all_iff dest: set_takeWhileD)
  let ?n = "int (length data)"
  have run: "scan_line cfg b ?n st 0 new_scan = scan_line cfg b ?n st (int (length l)) (track_all st 0 l new_scan)"
    using scan_run [OF no, of "[]" ?n cfg "r @ CHR 0x00 # junk" st new_scan] by (simp add: assms data)
  show ?thesis
  proof (cases r)
    case Nil
    then have "scan_line cfg b ?n st 0 new_scan = Inr (NoEol, track_all st 0 l new_scan)"
      unfolding run by (subst scan_line.simps) (simp add: data)
    then show ?thesis using Nil by (simp add: line_of_def l_def [symmetric] dr Let_def)
  next
    case (Cons x s)
    have x: "x = CR \<or> x = LF" using hd_dropWhile [of "\<lambda>c. c \<noteq> CR \<and> c \<noteq> LF" data] unfolding r_def [symmetric] Cons by simp
    have b: "b = l @ x # s @ CHR 0x00 # junk" by (simp add: assms data Cons)
    have rd: "rd b (int (length l)) = Inr x" unfolding b by simp
    have tr: "track st (int (length l)) x (track_all st 0 l new_scan) = track_all st 0 (l @ [x]) new_scan"
      by (simp add: track_all_append)
    have lt: "int (length l) < ?n" by (simp add: data Cons)
    note step = scan_line.simps [of cfg b ?n st "int (length l)"]
    consider (lf) "x = LF" | (last) "x = CR" "s = []" | (more) "x = CR" "s \<noteq> []" using x by blast
    then show ?thesis
    proof cases
      case lf
      then show ?thesis unfolding run step using rd lt tr b
        by (auto simp: line_of_def l_def [symmetric] dr Cons Let_def)
    next
      case last
      have "line_of (relaxed_header_parser cfg \<noteq> 0) data = Incomplete" using last by (simp add: line_of_def l_def [symmetric] dr Cons Let_def)
      moreover have n: "?n = int (length l) + 1" using last by (simp add: data Cons)
      have "scan_line cfg b ?n st 0 new_scan = scan_line cfg b ?n st ?n (track_all st 0 (l @ [x]) new_scan)"
        unfolding run step using rd tr last by (simp add: n Let_def)
      ultimately show ?thesis by (simp add: scan_line.simps)
    next
      case more
      obtain k t' where "at_CR cfg b ?n (int (length l)) (track_all st 0 (l @ [x]) new_scan) =
        Inr (case (if relaxed_header_parser cfg \<noteq> 0 then dropWhile (\<lambda>c. c = CR) s else s) of
          [] \<Rightarrow> (BadEol, t') | d # u \<Rightarrow> if d = LF
            then (Eol k, (track_all st 0 (l @ [x]) new_scan)\<lparr>line_end := int (length l) - 1\<rparr>) else (BadEol, t'))"
        using at_CR_run [of data l s cfg junk "track_all st 0 (l @ [x]) new_scan"] more data Cons assms by auto
      moreover have "scan_line cfg b ?n st 0 new_scan = at_CR cfg b ?n (int (length l)) (track_all st 0 (l @ [x]) new_scan)"
        unfolding run step using rd lt tr more by (simp add: data Cons Let_def)
      moreover define z where "z = (if relaxed_header_parser cfg \<noteq> 0 then dropWhile (\<lambda>c. c = CR) s else s)"
      have "line_of (relaxed_header_parser cfg \<noteq> 0) data = (case z of [] \<Rightarrow> Malformed | d # u \<Rightarrow> if d = LF then Line l else Malformed)"
        using more by (simp add: line_of_def l_def [symmetric] dr Cons Let_def z_def)
      ultimately show ?thesis unfolding z_def [symmetric] l_def [symmetric] using more(1) b by (cases z) auto
    qed
  qed
qed

section \<open>The positions that the scan remembers\<close>

fun last_SP :: "int \<Rightarrow> string \<Rightarrow> int \<Rightarrow> int" where
  "last_SP i [] d = d"
| "last_SP i (c # cs) d = last_SP (i + 1) cs (if c = SP then i else d)"

lemma last_SP_none: "SP \<notin> set xs \<Longrightarrow> last_SP i xs d = d"
  by (induction xs arbitrary: i) auto

lemma last_SP_snoc: "c \<noteq> SP \<Longrightarrow> last_SP i (xs @ [c]) d = last_SP i xs d"
  by (induction xs arbitrary: i d) auto

lemma last_SP_last: "SP \<notin> set v \<Longrightarrow> last_SP i (a @ SP # v) d = i + int (length a)"
  by (induction a arbitrary: i d) (auto simp: last_SP_none)

lemma last_SP_range: "d < i \<Longrightarrow> lo \<le> d \<Longrightarrow> lo \<le> last_SP i xs d \<and> last_SP i xs d < i + int (length xs)"
proof (induction xs arbitrary: i d)
  case (Cons c xs)
  have "lo \<le> last_SP (i + 1) xs (if c = SP then i else d) \<and> last_SP (i + 1) xs (if c = SP then i else d) < i + 1 + int (length xs)"
    using Cons.prems by (intro Cons.IH) auto
  then show ?case by simp
qed simp

lemma track_before:
  "(\<And>j. j < length xs \<Longrightarrow> st \<le> i + int j \<Longrightarrow> xs ! j \<noteq> SP) \<Longrightarrow> first_whitespace t < st \<Longrightarrow> second_word t < i \<Longrightarrow>
   first_whitespace (track_all st i xs t) < st \<and> second_word (track_all st i xs t) < i + int (length xs)"
proof (induction xs arbitrary: i t)
  case (Cons c xs)
  have c: "c \<noteq> SP" if "st \<le> i" using Cons.prems(1) [of 0] that by simp
  have "xs ! j \<noteq> SP" if "j < length xs" "st \<le> i + 1 + int j" for j using Cons.prems(1) [of "Suc j"] that by simp
  moreover have "first_whitespace (track st i c t) < st" "second_word (track st i c t) < i + 1"
    using c Cons.prems(2,3) by (cases "st \<le> i"; auto simp: track_def Let_def)+
  ultimately have "first_whitespace (track_all st (i + 1) xs (track st i c t)) < st \<and>
      second_word (track_all st (i + 1) xs (track st i c t)) < i + 1 + int (length xs)" by (intro Cons.IH)
  then show ?case by simp
qed simp

lemma track_after:
  "st \<le> first_whitespace t \<Longrightarrow> first_whitespace t < second_word t \<or> set xs \<subseteq> {SP, HT} \<Longrightarrow>
   track_all st i xs t = t\<lparr>last_whitespace := last_SP i xs (last_whitespace t)\<rparr>"
proof (induction xs arbitrary: i t)
  case (Cons c xs)
  have "track st i c t = t\<lparr>last_whitespace := (if c = SP then i else last_whitespace t)\<rparr>"
    using Cons.prems by (cases t) (auto simp: track_def Let_def)
  then show ?case using Cons.prems Cons.IH [of "track st i c t" "i + 1"] by auto
qed simp

lemma track_line:
  assumes "st = int (length P)" "SP \<notin> set m" "set w \<subseteq> {SP, HT}" "r = [] \<or> hd r \<noteq> SP \<and> hd r \<noteq> HT" "x = CR \<or> x = LF"
  defines "t \<equiv> track_all st 0 ((P @ m @ SP # w @ r) @ [x]) new_scan" and "f \<equiv> st + int (length m)"
  shows "first_whitespace t = f" "second_word t = f + 1 + int (length w)"
    "last_whitespace t = last_SP (f + 1 + int (length w)) r (last_SP (f + 1) w f)"
proof -
  define t1 where "t1 = track_all st 0 (P @ m) new_scan"
  have t1: "first_whitespace t1 < st" "second_word t1 < f"
    using track_before [of "P @ m" st 0 new_scan] assms(1,2)
    by (auto simp: t1_def f_def new_scan_def nth_append in_set_conv_nth split: if_splits)
  define t2 where "t2 = t1\<lparr>last_whitespace := last_SP (f + 1) w f, first_whitespace := f\<rparr>"
  have "track_all st 0 (P @ m @ SP # w) new_scan = track_all st (f + 1) w (track st f SP t1)"
    using assms(1) track_all_append [of st 0 "P @ m" "SP # w" new_scan] by (simp add: t1_def f_def)
  also have "track st f SP t1 = t1\<lparr>last_whitespace := f, first_whitespace := f\<rparr>" using t1 by (simp add: track_def)
  also have "track_all st (f + 1) w \<dots> = t2"
    using track_after [of st "t1\<lparr>last_whitespace := f, first_whitespace := f\<rparr>" w "f + 1"] assms(3) by (simp add: t2_def f_def)
  finally have t2: "track_all st 0 (P @ m @ SP # w) new_scan = t2" .
  obtain c y where ry: "r @ [x] = c # y" "c \<noteq> SP" "c \<noteq> HT" using assms(4,5) by (cases r) auto
  define g where "g = f + 1 + int (length w)"
  have "t = track_all st g (r @ [x]) t2"
    using t2 assms(1) track_all_append [of st 0 "P @ m @ SP # w" "r @ [x]" new_scan] by (simp add: t_def g_def f_def ac_simps)
  also have "\<dots> = track_all st (g + 1) y (t2\<lparr>second_word := g\<rparr>)"
    using ry t1(2) by (simp add: track_def Let_def t2_def)
  also have "\<dots> = t2\<lparr>second_word := g, last_whitespace := last_SP (g + 1) y (last_whitespace t2)\<rparr>"
    using track_after [of st "t2\<lparr>second_word := g\<rparr>" y "g + 1"] by (simp add: t2_def g_def f_def)
  also have "last_SP (g + 1) y (last_whitespace t2) = last_SP g (r @ [x]) (last_whitespace t2)" using ry by simp
  also have "\<dots> = last_SP g r (last_whitespace t2)" using assms(5) by (auto simp: last_SP_snoc)
  finally show "first_whitespace t = f" "second_word t = f + 1 + int (length w)"
    "last_whitespace t = last_SP (f + 1 + int (length w)) r (last_SP (f + 1) w f)"
    by (simp_all add: t2_def g_def)
qed

section \<open>Splitting the line\<close>

definition field_text :: "string \<Rightarrow> int \<Rightarrow> int \<Rightarrow> string" where
  "field_text b lo hi = bytes_at b (nat lo) (nat (hi - lo + 1))"

lemma field_text_mid: "b = pre @ xs @ post \<Longrightarrow> lo = int (length pre) \<Longrightarrow> hi = lo + int (length xs) - 1 \<Longrightarrow> field_text b lo hi = xs"
  by (simp add: field_text_def bytes_at_def)

lemma is_HTTP_at: "b = pre @ v @ post \<Longrightarrow> i = int (length pre) \<Longrightarrow> 5 \<le> length v \<Longrightarrow> is_HTTP b i \<longleftrightarrow> map to_lower (take 5 v) = ''http/''"
  by (simp add: is_HTTP_def bytes_at_def)

lemma starts_digit_rd:
  assumes "b = pre @ s @ x # post" "i = int (length pre)" "\<not> is_digit x"
  obtains c where "rd b i = Inr c" "is_digit c \<longleftrightarrow> starts_digit s" "\<And>d t. s = d # t \<Longrightarrow> c = d"
proof (cases s)
  case Nil
  then have "rd b i = Inr x" using assms by (intro rd_at [of _ pre _ post]) simp_all
  with that Nil assms(3) show thesis by (simp add: starts_digit_def)
next
  case (Cons d t)
  then have "rd b i = Inr d" using assms by (intro rd_at [of _ pre _ "t @ x # post"]) simp_all
  with that Cons show thesis by (simp add: starts_digit_def)
qed

lemma parse_version_spec:
  assumes "b = pre @ s @ x # post" "v_start r + 5 = int (length pre)" "le = int (length pre) + int (length s) - 1" "\<not> is_digit x"
  shows "\<exists>q. parse_version b le r p = (case version_spec s of
      None \<Rightarrow> hp_fail HTTP_HTTP_VERSION_NOT_SUPPORTED q
    | Some (maj, mn) \<Rightarrow> hp_ok (r\<lparr>v_maj := maj, v_min := mn\<rparr>) p)"
proof -
  obtain c where c: "rd b (v_start r + 5) = Inr c" "is_digit c \<longleftrightarrow> starts_digit s" using starts_digit_rd [OF assms(1,2,4)] by metis
  show ?thesis
  proof (cases "starts_digit s")
    case False
    then show ?thesis using c by (auto simp: parse_version_def version_spec_def)
  next
    case True
    obtain maj u where d: "digits_upto s 0 = (maj, u)" by fastforce
    obtain s1 where s1: "s = s1 @ u" using digits_upto_length [OF d] by blast
    have vd: "version_digits b le (v_start r + 5) 0 = Inr (maj, le + 1 - int (length u))"
      using version_digits_run [OF assms(3) d, of "x # post"] assms(1,2) by simp
    consider (bad) "65536 \<le> maj \<or> u = []" | (ok) c t where "maj < 65536" "u = c # t" by (metis list.exhaust not_le)
    then show ?thesis
    proof cases
      case bad
      then show ?thesis using c True d vd by (auto simp: parse_version_def version_spec_def)
    next
      case (ok c' t)
      let ?i = "le + 1 - int (length u)"
      have rd: "rd b ?i = Inr c'" by (rule rd_at [of _ "pre @ s1" _ "t @ x # post"]) (simp_all add: assms(1,3) s1 ok)
      have b2: "b = (pre @ s1 @ [c']) @ t @ x # post" "?i + 1 = int (length (pre @ s1 @ [c']))" by (simp_all add: assms(1,3) s1 ok)
      obtain e where e: "rd b (?i + 1) = Inr e" "is_digit e \<longleftrightarrow> starts_digit t" using starts_digit_rd [OF b2 assms(4)] by metis
      obtain mn u2 where d2: "digits_upto t 0 = (mn, u2)" by fastforce
      have le2: "le = int (length (pre @ s1 @ [c'])) + int (length t) - 1" by (simp add: assms(3) s1 ok)
      have vd2: "version_digits b le (?i + 1) 0 = Inr (mn, le + 1 - int (length u2))"
        using version_digits_run [OF le2 d2, of "x # post"] unfolding b2(2) b2(1) [symmetric] .
      have "?i \<le> le" using ok by simp
      moreover have "le < ?i + 1 \<longleftrightarrow> t = []" "t = [] \<Longrightarrow> \<not> starts_digit t" using ok by (auto simp: starts_digit_def)
      moreover have "le + 1 - int (length u2) < le \<longleftrightarrow> 2 \<le> length u2" by auto
      ultimately show ?thesis using c True d vd ok rd e d2 vd2
        by (cases "starts_digit t"; cases "c' = CHR ''.''"; cases "65536 \<le> mn"; cases "2 \<le> length u2") (auto simp: parse_version_def version_spec_def Let_def)
    qed
  qed
qed

lemma last_word_split:
  assumes "SP \<in> set r"
  obtains a where "r = a @ SP # last_word r" "upto_last r = a @ [SP]" "SP \<notin> set (last_word r)"
proof -
  let ?d = "dropWhile (\<lambda>c. c \<noteq> SP) (rev r)"
  have ne: "?d \<noteq> []" using assms by (metis (full_types) dropWhile_eq_Nil_conv set_rev)
  then have "?d = SP # tl ?d" using hd_dropWhile [OF ne] by (cases ?d) auto
  then have u: "upto_last r = rev (tl ?d) @ [SP]" unfolding upto_last_def by (metis rev.simps(2))
  have "rev r = takeWhile (\<lambda>c. c \<noteq> SP) (rev r) @ ?d" by simp
  then have "r = rev ?d @ rev (takeWhile (\<lambda>c. c \<noteq> SP) (rev r))" by (metis rev_append rev_rev_ident)
  then have "r = upto_last r @ last_word r" by (simp add: upto_last_def last_word_def)
  moreover have "SP \<notin> set (last_word r)" by (auto simp: last_word_def dest: set_takeWhileD)
  ultimately show thesis using that [of "rev (tl ?d)"] u by (metis append.assoc append_Cons append_Nil)
qed

lemma rstrip_prefix: "\<exists>z. s = rstrip s @ z"
proof -
  have "rev s = takeWhile xisspace (rev s) @ dropWhile xisspace (rev s)" by simp
  then have "s = rstrip s @ rev (takeWhile xisspace (rev s))" unfolding rstrip_def by (metis rev_append rev_rev_ident)
  then show ?thesis ..
qed

text \<open>The fields a successful parse sets besides the offsets of the method.\<close>

definition uri_fields :: "int \<Rightarrow> string \<times> int \<times> int \<Rightarrow> request_offsets \<Rightarrow> request_offsets \<Rightarrow> bool" where
  "uri_fields g uv r r' = (case uv of (u, maj, mn) \<Rightarrow> u_start r' = g \<and> u_end r' = g + int (length u) - 1 \<and> v_maj r' = maj \<and> v_min r' = mn \<and>
     req_start r' = req_start r \<and> req_end r' = req_end r \<and> m_start r' = m_start r \<and> m_end r' = m_end r)"

lemma split_version_spec:
  fixes cfg :: parser_config
  assumes b: "b = pre @ (a @ SP # v) @ x # post" and x: "x = CR \<or> x = LF" and g: "g = int (length pre)"
    and t: "line_end t = g + int (length a) + int (length v)" "last_whitespace t = g + int (length a)" and v: "v \<noteq> []"
    and r: "u_start r = g" "u_end r = g + int (length u) - 1"
  defines "S \<equiv> (if map to_lower (take 5 v) \<noteq> ''http/''
      then if use_http_violations cfg then Inr (a @ SP # v, 0, 9) else Inl HTTP_HTTP_VERSION_NOT_SUPPORTED
      else case version_spec (drop 5 v) of None \<Rightarrow> Inl HTTP_HTTP_VERSION_NOT_SUPPORTED | Some (maj, mn) \<Rightarrow> Inr (u, maj, mn))"
  shows "\<exists>q r'. split_version cfg b t r p = (case S of Inl st \<Rightarrow> hp_fail st q | Inr uv \<Rightarrow> hp_ok r' p) \<and>
    (\<forall>uv. S = Inr uv \<longrightarrow> uri_fields g uv r r')"
proof -
  let ?r = "r\<lparr>v_start := g + int (length a) + 1, v_end := line_end t\<rparr>"
  have b': "b = (pre @ a @ [SP]) @ v @ x # post" "g + int (length a) + 1 = int (length (pre @ a @ [SP]))" using b g by simp_all
  have http: "(int (length v) < 5 \<or> \<not> is_HTTP b (g + int (length a) + 1)) \<longleftrightarrow> map to_lower (take 5 v) \<noteq> ''http/''"
  proof (cases "length v < 5")
    case True
    then have "length (map to_lower (take 5 v)) \<noteq> length ''http/''" by simp
    then show ?thesis using True by auto
  next
    case False
    then show ?thesis using is_HTTP_at [OF b'] by auto
  qed
  have sv: "split_version cfg b t r p = (if map to_lower (take 5 v) \<noteq> ''http/''
      then if use_http_violations cfg then hp_ok (?r\<lparr>v_maj := 0, v_min := 9, u_end := line_end t\<rparr>) p
           else hp_fail HTTP_HTTP_VERSION_NOT_SUPPORTED (p\<lparr>req := ?r\<rparr>)
      else parse_version b (line_end t) ?r p)"
    using t v http by (simp add: split_version_def)
  show ?thesis
  proof (cases "map to_lower (take 5 v) = ''http/''")
    case False
    have "uri_fields g (a @ SP # v, 0, 9) r (?r\<lparr>v_maj := 0, v_min := 9, u_end := line_end t\<rparr>)"
      using r t by (simp add: uri_fields_def)
    then show ?thesis unfolding sv S_def using False
      by (intro exI [of _ "p\<lparr>req := ?r\<rparr>"] exI [of _ "?r\<lparr>v_maj := 0, v_min := 9, u_end := line_end t\<rparr>"]) simp
  next
    case True
    have "length (map to_lower (take 5 v)) = length ''http/''" by (simp only: True)
    then have len: "5 \<le> length v" by (simp only: length_map length_take) simp
    have "b = (pre @ a @ SP # take 5 v) @ drop 5 v @ x # post" using b by simp
    moreover have "\<not> is_digit x" using x by (auto simp: is_digit_def)
    ultimately obtain q where q: "parse_version b (line_end t) ?r p = (case version_spec (drop 5 v) of
        None \<Rightarrow> hp_fail HTTP_HTTP_VERSION_NOT_SUPPORTED q
      | Some (maj, mn) \<Rightarrow> hp_ok (?r\<lparr>v_maj := maj, v_min := mn\<rparr>) p)"
      using parse_version_spec [of b "pre @ a @ SP # take 5 v" "drop 5 v" x post ?r "line_end t" p] g t(1) len by auto
    show ?thesis
    proof (cases "version_spec (drop 5 v)")
      case None
      then show ?thesis unfolding sv q S_def using True by auto
    next
      case (Some vv)
      obtain maj mn where vv: "vv = (maj, mn)" by fastforce
      have "uri_fields g (u, maj, mn) r (?r\<lparr>v_maj := maj, v_min := mn\<rparr>)" using r by (simp add: uri_fields_def)
      then show ?thesis unfolding sv q S_def using True Some vv by (intro exI [of _ q] exI [of _ "?r\<lparr>v_maj := maj, v_min := mn\<rparr>"]) simp
    qed
  qed
qed

lemma split_uri_spec:
  assumes b: "b = pre @ r @ x # post" and x: "x = CR \<or> x = LF" and g: "g = int (length pre)" and r: "r \<noteq> []"
    and t: "line_end t = g + int (length r) - 1" "second_word t = g" "last_whitespace t = last_SP g r d"
    and o: "req_start ro \<le> d" "d < g"
  shows "\<exists>q r'. split_uri cfg b t ro p = (case uri_spec cfg r of Inl st \<Rightarrow> hp_fail st q | Inr uv \<Rightarrow> hp_ok r' p) \<and>
    (\<forall>uv. uri_spec cfg r = Inr uv \<longrightarrow> uri_fields g uv ro r')"
proof -
  have g1: "\<not> g > line_end t" "\<not> g < req_start ro" using t(1) r o by (cases r; simp)+
  show ?thesis
  proof (cases "SP \<in> set r")
    case False
    then have "last_whitespace t = d" using t(3) last_SP_none by simp
    moreover have "uri_fields g (r, 0, 9) ro (ro\<lparr>u_start := g, v_maj := 0, v_min := 9, u_end := line_end t\<rparr>)"
      using t(1) by (simp add: uri_fields_def)
    ultimately show ?thesis using False g1 t(2) o
      by (intro exI [of _ p] exI [of _ "ro\<lparr>u_start := g, v_maj := 0, v_min := 9, u_end := line_end t\<rparr>"])
        (simp add: split_uri_def uri_spec_def)
  next
    case True
    obtain a where a: "r = a @ SP # last_word r" "upto_last r = a @ [SP]" "SP \<notin> set (last_word r)" by (rule last_word_split [OF True])
    define v u where "v = last_word r" and "u = rstrip (a @ [SP])"
    have rv: "r = a @ SP # v" using a(1) by (simp add: v_def)
    have lw: "last_whitespace t = g + int (length a)" using t(3) last_SP_last a(3) rv by (metis v_def)
    have cr: "crop_space b g (last_whitespace t) = Inr (g + int (length u) - 1)"
      using crop_space_run [of pre "a @ [SP]" "v @ x # post"] lw by (simp add: b rv g u_def)
    let ?r = "ro\<lparr>u_start := g, u_end := g + int (length u) - 1\<rparr>"
    have su: "split_uri cfg b t ro p = (if u = [] then hp_fail HTTP_BAD_REQUEST (p\<lparr>req := ?r\<rparr>) else split_version cfg b t ?r p)"
      using g1 t(2) lw cr by (auto simp: split_uri_def Let_def)
    have us: "uri_spec cfg r = (if u = [] \<or> v = [] then Inl HTTP_BAD_REQUEST
        else if map to_lower (take 5 v) \<noteq> ''http/'' then if use_http_violations cfg then Inr (r, 0, 9) else Inl HTTP_HTTP_VERSION_NOT_SUPPORTED
        else case version_spec (drop 5 v) of None \<Rightarrow> Inl HTTP_HTTP_VERSION_NOT_SUPPORTED | Some (maj, mn) \<Rightarrow> Inr (u, maj, mn))"
      unfolding uri_spec_def Let_def a(2) v_def u_def using True by simp
    consider (bad) "u = []" | (empty) "u \<noteq> []" "v = []" | (ok) "u \<noteq> []" "v \<noteq> []" by blast
    then show ?thesis
    proof cases
      case bad
      then show ?thesis unfolding su us by auto
    next
      case empty
      then have "split_version cfg b t ?r p = hp_fail HTTP_BAD_REQUEST (p\<lparr>req := ?r\<rparr>)"
        using lw t(1) rv by (simp add: split_version_def)
      then show ?thesis unfolding su us using empty by auto
    next
      case ok
      have le: "line_end t = g + int (length a) + int (length v)" using t(1) rv by simp
      have f: "uri_fields g uv ?r r' = uri_fields g uv ro r'" for uv r' by (simp add: uri_fields_def)
      have b': "b = pre @ (a @ SP # v) @ x # post" using b rv by simp
      show ?thesis using split_version_spec [OF b' x g le lw ok(2), of ?r u cfg p] ok
        unfolding su us f rv [symmetric] by simp
    qed
  qed
qed

text \<open>The result of a parse, compared with the reference.\<close>

definition parsed :: "string \<Rightarrow> (parse_status + (string \<times> string \<times> int \<times> int)) \<Rightarrow> (int \<times> http_parser) outcome \<Rightarrow> bool" where
  "parsed b res r = (case res of
     Inl st \<Rightarrow> \<exists>p. r = Inr (-1, p) \<and> request_parse_status p = st
   | Inr (m, u, maj, mn) \<Rightarrow> \<exists>p. r = Inr (1, p) \<and> request_parse_status p = HTTP_OK \<and>
       field_text b (m_start (req p)) (m_end (req p)) = m \<and> field_text b (u_start (req p)) (u_end (req p)) = u \<and>
       v_maj (req p) = maj \<and> v_min (req p) = mn)"

lemma uri_spec_prefix: "uri_spec cfg r = Inr (u, v) \<Longrightarrow> \<exists>z. r = u @ z"
proof -
  assume "uri_spec cfg r = Inr (u, v)"
  then consider "u = r" | "SP \<in> set r" "u = rstrip (upto_last r)"
    by (cases "SP \<in> set r") (auto simp: uri_spec_def Let_def split: if_splits option.splits)
  then show ?thesis
  proof cases
    case 2
    obtain a where "r = a @ SP # last_word r" "upto_last r = a @ [SP]" by (rule last_word_split [OF 2(1)])
    then have "r = upto_last r @ last_word r" by simp
    moreover obtain z where "upto_last r = u @ z" using rstrip_prefix [of "upto_last r"] 2(2) by blast
    ultimately show ?thesis by auto
  qed simp
qed

lemma split_line_spec:
  assumes b: "b = l @ x # post" and x: "x = CR \<or> x = LF" and P: "l = P @ l'" "st = int (length P)" "req_start ro = st"
    and t: "t = (track_all st 0 (l @ [x]) new_scan)\<lparr>line_end := int (length l) - 1\<rparr>"
  defines "m \<equiv> takeWhile (\<lambda>c. c \<noteq> SP) l'"
  defines "r \<equiv> dropWhile (\<lambda>c. c = SP \<or> c = HT) (drop (length m) l')"
  shows "parsed b (if m = [] \<or> r = [] then Inl HTTP_BAD_REQUEST
    else case uri_spec cfg r of Inl s \<Rightarrow> Inl s | Inr (u, v) \<Rightarrow> Inr (m, u, v)) (split_method cfg b t ro p)"
proof (cases "SP \<in> set l'")
  case False
  then have "m = l'" unfolding m_def takeWhile_eq_all_conv by auto
  then have ml: "m = l'" "r = []" by (simp_all add: r_def)
  have "first_whitespace t < st"
    using track_before [of "l @ [x]" st 0 new_scan] False x P t
    by (fastforce simp: new_scan_def nth_append in_set_conv_nth split: if_splits)
  then show ?thesis using ml P(3) by (auto simp: parsed_def split_method_def hp_fail_def Let_def)
next
  case True
  define w where "w = takeWhile (\<lambda>c. c = SP \<or> c = HT) (tl (drop (length m) l'))"
  have mn: "SP \<notin> set m" by (auto simp: m_def dest: set_takeWhileD)
  have "drop (length m) l' = dropWhile (\<lambda>c. c \<noteq> SP) l'" unfolding m_def by (metis dropWhile_eq_drop)
  moreover have "dropWhile (\<lambda>c. c \<noteq> SP) l' \<noteq> []" using True unfolding dropWhile_eq_Nil_conv by auto
  ultimately obtain y where y: "drop (length m) l' = SP # y" using hd_dropWhile [of "\<lambda>c. c \<noteq> SP" l'] by (metis list.collapse)
  have l': "l' = m @ SP # w @ r"
  proof -
    have "l' = m @ drop (length m) l'" unfolding m_def by (metis append_eq_conv_conj takeWhile_dropWhile_id)
    moreover have "y = w @ r" unfolding w_def r_def y by simp
    ultimately show ?thesis using y by simp
  qed
  have w: "set w \<subseteq> {SP, HT}" by (auto simp: w_def dest: set_takeWhileD)
  have rh: "r = [] \<or> hd r \<noteq> SP \<and> hd r \<noteq> HT" using hd_dropWhile [of "\<lambda>c. c = SP \<or> c = HT" "drop (length m) l'"] unfolding r_def by blast
  define f where "f = st + int (length m)"
  define g where "g = f + 1 + int (length w)"
  note tl = track_line [OF P(2) mn w rh x, unfolded l' [symmetric] P(1) [symmetric]]
  have t1: "first_whitespace t = f" "second_word t = g" "last_whitespace t = last_SP g r (last_SP (f + 1) w f)"
    "line_end t = int (length l) - 1"
    using tl by (simp_all add: t f_def g_def)
  have len: "int (length l) = g + int (length r)" using P(1,2) l' by (simp add: f_def g_def)
  show ?thesis
  proof (cases "m = [] \<or> r = []")
    case True
    then show ?thesis using t1 P(3) len w
      by (auto simp: parsed_def split_method_def split_uri_def hp_fail_def f_def g_def Let_def)
  next
    case False
    let ?o = "ro\<lparr>m_start := st, m_end := f - 1\<rparr>"
    have sm: "split_method cfg b t ro p = split_uri cfg b t ?o p"
      using t1 P(3) len False by (auto simp: split_method_def f_def g_def Let_def)
    have rng: "f \<le> last_SP (f + 1) w f" "last_SP (f + 1) w f < g"
      using last_SP_range [of f "f + 1" f w] by (simp_all add: g_def)
    have b2: "b = (P @ m @ SP # w) @ r @ x # post" using b P(1) l' by simp
    have g2: "g = int (length (P @ m @ SP # w))" using P(2) by (simp add: f_def g_def)
    obtain q r' where res: "split_uri cfg b t ?o p = (case uri_spec cfg r of Inl s \<Rightarrow> hp_fail s q | Inr uv \<Rightarrow> hp_ok r' p)"
      and uf: "\<And>uv. uri_spec cfg r = Inr uv \<Longrightarrow> uri_fields g uv ?o r'"
      using split_uri_spec [OF b2 x g2 _ _ t1(2,3), of ?o cfg p] False rng t1(4) len P(3) by (auto simp: f_def)
    show ?thesis
    proof (cases "uri_spec cfg r")
      case (Inl s)
      then show ?thesis using False by (simp add: sm res parsed_def hp_fail_def)
    next
      case (Inr uv)
      obtain u maj mn where uv: "uv = (u, maj, mn)" by (cases uv) auto
      obtain z where z: "r = u @ z" using uri_spec_prefix Inr uv by blast
      have "field_text b st (f - 1) = m" using P(2) by (intro field_text_mid [of _ P _ "SP # w @ r @ x # post"]) (simp_all add: b2 f_def)
      moreover have "field_text b g (g + int (length u) - 1) = u"
        using g2 by (intro field_text_mid [of _ "P @ m @ SP # w" _ "z @ x # post"]) (simp_all add: b2 z)
      ultimately show ?thesis using False Inr uf [OF Inr] by (simp add: sm res parsed_def hp_ok_def uri_fields_def uv)
    qed
  qed
qed

section \<open>The parser and its reference\<close>

abbreviation parse_data :: "parser_config \<Rightarrow> string \<Rightarrow> string \<Rightarrow> (int \<times> http_parser) outcome" where
  "parse_data cfg data junk \<equiv> parseRequestFirstLine cfg (hp_reset (in_buf data junk) (int (length data)))"

lemma takeWhile_SP_line: "takeWhile (\<lambda>c. c = SP) (takeWhile (\<lambda>c. c \<noteq> CR \<and> c \<noteq> LF) data) = takeWhile (\<lambda>c. c = SP) data"
  by (induction data) auto

text \<open>Where the method starts, and what the prefix of the line before it is.\<close>

lemma prefix_start:
  fixes data junk :: string and cfg :: parser_config
  defines "l \<equiv> takeWhile (\<lambda>c. c \<noteq> CR \<and> c \<noteq> LF) data"
  obtains P where "l = P @ (if relaxed_header_parser cfg \<noteq> 0 then dropWhile (\<lambda>c. c = SP) l else l)"
    "(if relaxed_header_parser cfg \<noteq> 0 then skip_prefix (in_buf data junk) (int (length data)) 0 else Inr 0) = Inr (int (length P))"
proof (cases "relaxed_header_parser cfg = 0")
  case False
  have "skip_prefix (in_buf data junk) (int (length data)) 0 = Inr (int (length (takeWhile (\<lambda>c. c = SP) l)))"
    using skip_prefix_run [of "int (length data)" "[]" data "CHR 0x00 # junk"] by (simp add: l_def takeWhile_SP_line)
  with that [of "takeWhile (\<lambda>c. c = SP) l"] False show thesis by simp
qed (use that [of "[]"] in simp)

lemma parse_data_spec:
  "case line_of (relaxed_header_parser cfg \<noteq> 0) data of
     Incomplete \<Rightarrow> \<exists>p. parse_data cfg data junk = Inr (0, p)
   | Malformed \<Rightarrow> parsed (in_buf data junk) (Inl HTTP_BAD_REQUEST) (parse_data cfg data junk)
   | Line l \<Rightarrow> parsed (in_buf data junk) (line_spec cfg l) (parse_data cfg data junk)"
proof -
  let ?b = "in_buf data junk" and ?p = "hp_reset (in_buf data junk) (int (length data))"
  let ?l = "takeWhile (\<lambda>c. c \<noteq> CR \<and> c \<noteq> LF) data"
  let ?l' = "if relaxed_header_parser cfg \<noteq> 0 then dropWhile (\<lambda>c. c = SP) ?l else ?l"
  obtain P where P: "?l = P @ ?l'"
    "(if relaxed_header_parser cfg \<noteq> 0 then skip_prefix ?b (int (length data)) 0 else Inr 0) = Inr (int (length P))"
    using prefix_start [of data cfg junk] by blast
  define st where "st = int (length P)"
  let ?r = "(req ?p)\<lparr>req_start := st, req_end := -1\<rparr>"
  have pd: "parse_data cfg data junk = bindE (scan_line cfg ?b (int (length data)) st 0 new_scan) (\<lambda>(e, t). case e of
      NoEol \<Rightarrow> Inr (0, ?p\<lparr>req := ?r\<rparr>)
    | BadEol \<Rightarrow> hp_fail HTTP_BAD_REQUEST (?p\<lparr>req := ?r\<rparr>)
    | Eol k \<Rightarrow> split_method cfg ?b t (?r\<lparr>req_end := k\<rparr>) ?p)"
  proof -
    have "hp_buf ?p = Some ?b" "bufsiz ?p = int (length data)" by (simp_all add: hp_reset_def)
    then show ?thesis unfolding parseRequestFirstLine_def st_def by (simp only: option.case P(2) bindE.simps Let_def)
  qed
  have scan: "case line_of (relaxed_header_parser cfg \<noteq> 0) data of
      Incomplete \<Rightarrow> \<exists>t. scan_line cfg ?b (int (length data)) st 0 new_scan = Inr (NoEol, t)
    | Malformed \<Rightarrow> \<exists>t. scan_line cfg ?b (int (length data)) st 0 new_scan = Inr (BadEol, t)
    | Line l \<Rightarrow> \<exists>k x post. scan_line cfg ?b (int (length data)) st 0 new_scan =
        Inr (Eol k, (track_all st 0 (l @ [x]) new_scan)\<lparr>line_end := int (length l) - 1\<rparr>) \<and>
        (x = CR \<or> x = LF) \<and> ?b = l @ x # post \<and> l = ?l" by (rule scan_first_line [OF refl])
  show ?thesis
  proof (cases "line_of (relaxed_header_parser cfg \<noteq> 0) data")
    case Incomplete
    then show ?thesis using scan unfolding pd by auto
  next
    case Malformed
    then show ?thesis using scan unfolding pd by (auto simp: parsed_def hp_fail_def)
  next
    case (Line l)
    then obtain k x post where sc: "scan_line cfg ?b (int (length data)) st 0 new_scan =
        Inr (Eol k, (track_all st 0 (l @ [x]) new_scan)\<lparr>line_end := int (length l) - 1\<rparr>)"
      "x = CR \<or> x = LF" "?b = l @ x # post" "l = ?l" using scan by auto
    let ?t = "(track_all st 0 (l @ [x]) new_scan)\<lparr>line_end := int (length l) - 1\<rparr>"
    have "parse_data cfg data junk = split_method cfg ?b ?t (?r\<lparr>req_end := k\<rparr>) ?p" unfolding pd sc(1) by simp
    moreover have "parsed ?b (line_spec cfg l) (split_method cfg ?b ?t (?r\<lparr>req_end := k\<rparr>) ?p)"
      unfolding line_spec_def Let_def
      by (rule split_line_spec [OF sc(3,2) P(1) [folded sc(4)] st_def _ refl]) simp
    ultimately show ?thesis using Line by simp
  qed
qed

section \<open>Well-formed lines, and data in pieces\<close>

lemma digit_val: "m < 10 \<Longrightarrow> is_digit (char_of (48 + m)) \<and> int (of_char (char_of (48 + m :: nat) :: char)) - 48 = int m"
  by (simp add: is_digit_def of_char_of)

lemma digits_upto_append:
  "list_all is_digit xs \<Longrightarrow> digits_upto xs v = (w, []) \<Longrightarrow> w < 65536 \<Longrightarrow> 0 \<le> v \<Longrightarrow> digits_upto (xs @ ys) v = digits_upto ys w"
  by (induction xs v rule: digits_upto.induct) (auto simp: is_digit_def split: if_splits)

lemma digits_upto_decimal: "n < 65536 \<Longrightarrow> digits_upto (decimal n) 0 = (int n, [])"
proof (induction n rule: decimal.induct)
  case (1 n)
  show ?case
  proof (cases "n < 10")
    case True
    then show ?thesis using digit_val [of n] by (subst decimal.simps) simp
  next
    case False
    have "n div 10 < 65536" using 1(2) by (meson div_le_dividend le_less_trans)
    then have "digits_upto (decimal (n div 10)) 0 = (int (n div 10), [])" using 1(1) False by blast
    then have "digits_upto (decimal (n div 10) @ [char_of (48 + n mod 10)]) 0 = digits_upto [char_of (48 + n mod 10)] (int (n div 10))"
      using decimal_digits \<open>n div 10 < 65536\<close> by (intro digits_upto_append) simp_all
    also have "\<dots> = (int n, [])"
    proof -
      have "int (n div 10) * 10 + int (n mod 10) = int n" by (simp add: zdiv_int zmod_int)
      then show ?thesis using digit_val [of "n mod 10"] \<open>n div 10 < 65536\<close> by (simp del: of_char_of)
    qed
    finally show ?thesis using False by (subst decimal.simps) simp
  qed
qed

lemma digits_upto_stop:
  assumes "n < 65536" "\<not> starts_digit r"
  shows "digits_upto (decimal n @ r) 0 = (int n, r)"
proof -
  have "digits_upto (decimal n @ r) 0 = digits_upto r (int n)"
    using assms(1) digits_upto_decimal [OF assms(1)] decimal_digits by (intro digits_upto_append) simp_all
  then show ?thesis using assms(2) by (cases r) (auto simp: starts_digit_def)
qed

lemma starts_digit_decimal: "starts_digit (decimal n @ r)"
  using decimal_digits [of n] decimal_not_Nil [of n] by (cases "decimal n") (auto simp: starts_digit_def)

definition version_text :: "nat \<Rightarrow> nat \<Rightarrow> string" where
  "version_text maj mn = ''HTTP/'' @ decimal maj @ ''.'' @ decimal mn"

lemma version_spec_text:
  assumes "maj < 65536" "mn < 65536" "length z \<le> 1" "\<not> starts_digit z"
  shows "version_spec (decimal maj @ CHR ''.'' # decimal mn @ z) = Some (int maj, int mn)"
proof -
  have "digits_upto (decimal maj @ CHR ''.'' # decimal mn @ z) 0 = (int maj, CHR ''.'' # decimal mn @ z)"
    using assms(1) by (intro digits_upto_stop) (simp_all add: starts_digit_def is_digit_def)
  moreover have "digits_upto (decimal mn @ z) 0 = (int mn, z)" using assms(2,4) by (intro digits_upto_stop)
  ultimately show ?thesis using assms(1-3) by (simp add: version_spec_def starts_digit_decimal)
qed

lemma decimal_no_space: "c \<in> set (decimal n) \<Longrightarrow> c \<noteq> SP \<and> c \<noteq> CR \<and> c \<noteq> LF"
  using decimal_digits [of n] by (auto simp: list_all_iff is_digit_def)

lemma last_word_at: "SP \<notin> set v \<Longrightarrow> last_word (a @ SP # v) = v \<and> upto_last (a @ SP # v) = a @ [SP]"
proof -
  assume v: "SP \<notin> set v"
  then have "takeWhile (\<lambda>c. c \<noteq> SP) (rev v @ SP # rev a) = rev v" "dropWhile (\<lambda>c. c \<noteq> SP) (rev v @ SP # rev a) = SP # rev a"
    by (subst takeWhile_append2 dropWhile_append2; auto)+
  then show ?thesis by (simp add: last_word_def upto_last_def)
qed

text \<open>What the URI of a request line may be for it to be found again: it neither starts nor ends with a space, but may contain some.\<close>

definition uri_ok :: "string \<Rightarrow> bool" where
  "uri_ok u \<longleftrightarrow> u \<noteq> [] \<and> CR \<notin> set u \<and> LF \<notin> set u \<and> hd u \<noteq> SP \<and> hd u \<noteq> HT \<and> \<not> xisspace (last u)"

definition method_ok :: "string \<Rightarrow> bool" where
  "method_ok m \<longleftrightarrow> m \<noteq> [] \<and> SP \<notin> set m \<and> CR \<notin> set m \<and> LF \<notin> set m"

lemma lower_HTTP: "map to_lower ''HTTP/'' = ''http/''"
  by code_simp

lemma uri_spec_text:
  assumes "uri_ok u" "maj < 65536" "mn < 65536" "length z \<le> 1" "\<not> starts_digit z" "SP \<notin> set z"
  shows "uri_spec cfg (u @ SP # version_text maj mn @ z) = Inr (u, int maj, int mn)"
proof -
  let ?v = "version_text maj mn @ z"
  have "SP \<notin> set ?v" using decimal_no_space assms(6) by (auto simp: version_text_def)
  then have lw: "last_word (u @ SP # ?v) = ?v" "upto_last (u @ SP # ?v) = u @ [SP]" using last_word_at by blast+
  have "rstrip (u @ [SP]) = u"
    using assms(1) by (cases u rule: rev_cases) (auto simp: rstrip_def uri_ok_def xisspace_def)
  moreover have "map to_lower (take 5 ?v) = ''http/''" "drop 5 ?v = decimal maj @ CHR ''.'' # decimal mn @ z"
    using lower_HTTP by (simp_all add: version_text_def)
  ultimately show ?thesis using lw version_spec_text [OF assms(2-5)] assms(1)
    by (simp add: uri_spec_def uri_ok_def version_text_def)
qed

lemma line_spec_text:
  assumes "method_ok m" "uri_ok u" "maj < 65536" "mn < 65536" "length z \<le> 1" "\<not> starts_digit z" "SP \<notin> set z"
  shows "line_spec cfg (m @ SP # u @ SP # version_text maj mn @ z) = Inr (m, u, int maj, int mn)"
proof -
  let ?l = "m @ SP # u @ SP # version_text maj mn @ z"
  have "dropWhile (\<lambda>c. c = SP) ?l = ?l" using assms(1) by (cases m) (auto simp: method_ok_def)
  moreover have "takeWhile (\<lambda>c. c \<noteq> SP) ?l = m" using assms(1) by (subst takeWhile_append2) (auto simp: method_ok_def)
  moreover have "dropWhile (\<lambda>c. c = SP \<or> c = HT) (SP # u @ SP # version_text maj mn @ z) = u @ SP # version_text maj mn @ z"
    using assms(2) by (cases u) (auto simp: uri_ok_def)
  ultimately show ?thesis using assms(1,2) uri_spec_text [OF assms(2-7)]
    by (simp add: line_spec_def Let_def method_ok_def uri_ok_def del: dropWhile_eq_Nil_conv)
qed

lemma line_of_text: "CR \<notin> set l \<Longrightarrow> LF \<notin> set l \<Longrightarrow> line_of relaxed (l @ CR # LF # rest) = Line l"
proof -
  assume "CR \<notin> set l" "LF \<notin> set l"
  then have "takeWhile (\<lambda>c. c \<noteq> CR \<and> c \<noteq> LF) (l @ CR # LF # rest) = l" by (subst takeWhile_append2) auto
  then show ?thesis by (simp add: line_of_def)
qed

text \<open>With the strict parser, more data does not change a first line once it was found or refused.\<close>

lemma line_of_strict:
  assumes "line_of False data \<noteq> Incomplete"
  shows "line_of False (data @ extra) = line_of False data"
proof -
  define l where "l = takeWhile (\<lambda>c. c \<noteq> CR \<and> c \<noteq> LF) data"
  define r where "r = drop (length l) data"
  have rd: "r = dropWhile (\<lambda>c. c \<noteq> CR \<and> c \<noteq> LF) data" unfolding r_def l_def by (simp add: dropWhile_eq_drop)
  then have data: "data = l @ r" by (simp add: l_def)
  let ?rest = "\<lambda>r. case r of [] \<Rightarrow> Incomplete | c # s \<Rightarrow> if c = LF then Line l else if s = [] then Incomplete
    else case s of [] \<Rightarrow> Malformed | d # u \<Rightarrow> if d = LF then Line l else Malformed"
  have lo: "line_of False data = ?rest r" unfolding line_of_def Let_def l_def [symmetric] r_def [symmetric] if_False ..
  then obtain c s where c: "r = c # s" using assms by (cases r) auto
  have "dropWhile (\<lambda>c. c \<noteq> CR \<and> c \<noteq> LF) data = c # s" using c rd by simp
  then have "c = CR \<or> c = LF" using hd_dropWhile [of "\<lambda>c. c \<noteq> CR \<and> c \<noteq> LF" data] by fastforce
  moreover have "\<forall>x \<in> set l. x \<noteq> CR \<and> x \<noteq> LF" by (auto simp: l_def dest: set_takeWhileD)
  ultimately have tw: "takeWhile (\<lambda>c. c \<noteq> CR \<and> c \<noteq> LF) (l @ c # s @ extra) = l" by (subst takeWhile_append2) auto
  have "line_of False (l @ c # s @ extra) = ?rest (c # s @ extra)" unfolding line_of_def Let_def tw by simp
  moreover have "data @ extra = l @ c # s @ extra" using data c by simp
  ultimately show ?thesis using assms unfolding lo c by (cases s) (auto split: if_splits)
qed

section \<open>Properties\<close>


text \<open>
  A well-formed request line is taken apart as it was put together, whatever follows it in the buffer: method, URI
  (which may have spaces inside) and version of \<^verbatim>\<open>method SP uri SP HTTP/major.minor CRLF\<close> come back unchanged.
\<close>

theorem request_line_roundtrip:
  assumes "method_ok m" "uri_ok u" "maj < 65536" "mn < 65536"
  shows "parsed (in_buf (m @ '' '' @ u @ '' '' @ version_text maj mn @ [CR, LF] @ rest) junk) (Inr (m, u, int maj, int mn))
    (parse_data cfg (m @ '' '' @ u @ '' '' @ version_text maj mn @ [CR, LF] @ rest) junk)"
proof -
  let ?l = "m @ SP # u @ SP # version_text maj mn"
  have "CR \<notin> set ?l" "LF \<notin> set ?l"
    using assms(1,2) decimal_no_space by (auto simp: method_ok_def uri_ok_def version_text_def)
  then have "line_of relaxed (?l @ CR # LF # rest) = Line ?l" for relaxed by (rule line_of_text)
  moreover have "line_spec cfg ?l = Inr (m, u, int maj, int mn)"
    using line_spec_text [OF assms, of "[]" cfg] by (simp add: starts_digit_def)
  ultimately show ?thesis using parse_data_spec [of cfg "?l @ CR # LF # rest" junk] by simp
qed

theorem request_line_roundtrip_witness:
  "\<exists>p. parse_data \<lparr>relaxed_header_parser = 1, use_http_violations = True\<rparr>
      (''GET'' @ '' '' @ ''http://a/b c'' @ '' '' @ version_text 1 1 @ [CR, LF] @ ''Host: a'') ''x'' = Inr (1, p) \<and> v_min (req p) = 1"
proof -
  have "method_ok ''GET''" "uri_ok ''http://a/b c''" by (simp_all add: method_ok_def uri_ok_def xisspace_def)
  then show ?thesis
    using request_line_roundtrip [of "''GET''" "''http://a/b c''" 1 1 "''Host: a''" "''x''"
        "\<lparr>relaxed_header_parser = 1, use_http_violations = True\<rparr>"] unfolding parsed_def by auto
qed

text \<open>
  With the strict parser the way the input arrives does not matter: once a part of the data was parsed or refused,
  the same data with more bytes after it gives the same result.
\<close>

theorem request_line_incremental:
  assumes "relaxed_header_parser cfg = 0" and "parse_data cfg data junk = Inr (rc, p)" "rc \<noteq> 0"
  shows "\<exists>res. parsed (in_buf data junk) res (parse_data cfg data junk) \<and>
    parsed (in_buf (data @ extra) junk') res (parse_data cfg (data @ extra) junk')"
proof -
  have s: "(relaxed_header_parser cfg \<noteq> 0) = False" using assms(1) by simp
  have "line_of False data \<noteq> Incomplete" using parse_data_spec [of cfg data junk] assms by auto
  then have "line_of False (data @ extra) = line_of False data" by (rule line_of_strict)
  then show ?thesis
    using parse_data_spec [of cfg data junk] parse_data_spec [of cfg "data @ extra" junk'] \<open>line_of False data \<noteq> Incomplete\<close>
    unfolding s by (cases "line_of False data") auto
qed

theorem request_line_incremental_witness:
  "\<exists>res. parsed (in_buf [CR, SP] []) res (parse_data \<lparr>relaxed_header_parser = 0, use_http_violations = True\<rparr> [CR, SP] []) \<and>
    parsed (in_buf ([CR, SP] @ ''xyz'') []) res (parse_data \<lparr>relaxed_header_parser = 0, use_http_violations = True\<rparr> ([CR, SP] @ ''xyz'') [])"
proof -
  have "parsed (in_buf [CR, SP] []) (Inl HTTP_BAD_REQUEST) (parse_data \<lparr>relaxed_header_parser = 0, use_http_violations = True\<rparr> [CR, SP] [])"
    using parse_data_spec [of "\<lparr>relaxed_header_parser = 0, use_http_violations = True\<rparr>" "[CR, SP]" "[]"] by (simp add: line_of_def)
  then obtain p where "parse_data \<lparr>relaxed_header_parser = 0, use_http_violations = True\<rparr> [CR, SP] [] = Inr (-1, p)" by (auto simp: parsed_def)
  then show ?thesis
    using request_line_incremental [of "\<lparr>relaxed_header_parser = 0, use_http_violations = True\<rparr>" "[CR, SP]" "[]" "-1" p "''xyz''" "[]"] by simp
qed

text \<open>
  The relaxed parser, which tolerates several carriage returns before the line feed, is not like that: when the data ends
  between two of them it answers 400 at once, although the complete line would have been accepted.
\<close>

lemma relaxed_split_CRs:
  fixes cfg :: parser_config
  assumes "relaxed_header_parser cfg \<noteq> 0" "method_ok m" "uri_ok u" "maj < 65536" "mn < 65536"
  defines "l \<equiv> m @ '' '' @ u @ '' '' @ version_text maj mn"
  shows "parsed (in_buf (l @ [CR, CR]) junk) (Inl HTTP_BAD_REQUEST) (parse_data cfg (l @ [CR, CR]) junk) \<and>
    parsed (in_buf (l @ [CR, CR, LF]) junk) (Inr (m, u, int maj, int mn)) (parse_data cfg (l @ [CR, CR, LF]) junk)"
proof -
  have "CR \<notin> set l" "LF \<notin> set l"
    using assms(2,3) decimal_no_space by (auto simp: l_def method_ok_def uri_ok_def version_text_def)
  then have "takeWhile (\<lambda>c. c \<noteq> CR \<and> c \<noteq> LF) (l @ CR # s) = l" for s by (subst takeWhile_append2) auto
  then have "line_of True (l @ [CR, CR]) = Malformed" "line_of True (l @ [CR, CR, LF]) = Line l" by (simp_all add: line_of_def)
  moreover have "line_spec cfg l = Inr (m, u, int maj, int mn)"
    using line_spec_text [OF assms(2-5), of "[]" cfg] by (simp add: starts_digit_def l_def)
  ultimately show ?thesis
    using parse_data_spec [of cfg "l @ [CR, CR]" junk] parse_data_spec [of cfg "l @ [CR, CR, LF]" junk] assms(1) by simp
qed

text \<open>One character of garbage after the version is accepted, in spite of the check that is meant to catch it.\<close>

lemma trailing_garbage_accepted:
  assumes "method_ok m" "uri_ok u" "maj < 65536" "mn < 65536" "\<not> is_digit c" "c \<noteq> SP" "c \<noteq> CR" "c \<noteq> LF"
  shows "parsed (in_buf (m @ '' '' @ u @ '' '' @ version_text maj mn @ [c, CR, LF]) junk) (Inr (m, u, int maj, int mn))
    (parse_data cfg (m @ '' '' @ u @ '' '' @ version_text maj mn @ [c, CR, LF]) junk)"
proof -
  let ?l = "m @ SP # u @ SP # version_text maj mn @ [c]"
  have "CR \<notin> set ?l" "LF \<notin> set ?l"
    using assms decimal_no_space by (auto simp: method_ok_def uri_ok_def version_text_def)
  then have "line_of relaxed (?l @ CR # LF # []) = Line ?l" for relaxed by (rule line_of_text)
  moreover have "line_spec cfg ?l = Inr (m, u, int maj, int mn)"
    using line_spec_text [OF assms(1-4), of "[c]" cfg] assms(5,6) by (simp add: starts_digit_def)
  ultimately show ?thesis using parse_data_spec [of cfg "?l @ CR # LF # []" junk] by simp
qed

end
