(* ===== verification/Url_Escape.thy ===== *)
theory Url_Escape
  imports Http_Range
begin

text \<open>
  Escaping and unescaping of URLs: \<^verbatim>\<open>lib/rfc1738.c\<close>.  A C string is the list of its characters before the terminator; \<^verbatim>\<open>char\<close> is
  signed, as on the platforms the code is built for.  The escaping routine writes to a buffer that it keeps between calls;
  its size is the state, and writing outside it is a fault.
\<close>

section \<open>Escaping\<close>

record escape_flags =
  esc_ctrls :: bool
  esc_unsafe :: bool
  esc_reserved :: bool
  esc_nospace :: bool
  esc_nopercent :: bool

definition rfc1738_escape_flags :: escape_flags where
  "rfc1738_escape_flags = \<lparr>esc_ctrls = True, esc_unsafe = True, esc_reserved = False, esc_nospace = False, esc_nopercent = False\<rparr>"

definition rfc1738_escape_part_flags :: escape_flags where
  "rfc1738_escape_part_flags = \<lparr>esc_ctrls = True, esc_unsafe = True, esc_reserved = True, esc_nospace = False, esc_nopercent = False\<rparr>"

definition rfc1738_escape_unescaped_flags :: escape_flags where
  "rfc1738_escape_unescaped_flags = \<lparr>esc_ctrls = True, esc_unsafe = True, esc_reserved = False, esc_nospace = False, esc_nopercent = True\<rparr>"

definition code :: "char \<Rightarrow> nat" where
  "code c = of_char c"

definition schar :: "char \<Rightarrow> int" where
  "schar c = (if code c < 128 then int (code c) else int (code c) - 256)"

definition rfc1738_unsafe_chars :: string where
  "rfc1738_unsafe_chars = [CHR 0x3C, CHR 0x3E, CHR 0x22, CHR 0x23, CHR 0x7B, CHR 0x7D, CHR 0x7C, CHR 0x5C, CHR 0x5E, CHR 0x7E,
     CHR 0x5B, CHR 0x5D, CHR 0x60, CHR 0x27]"

definition rfc1738_reserved_chars :: string where
  "rfc1738_reserved_chars = [CHR 0x3B, CHR 0x2F, CHR 0x3F, CHR 0x3A, CHR 0x40, CHR 0x3D, CHR 0x26]"

definition alnum_char :: "char \<Rightarrow> bool" where
  "alnum_char c \<longleftrightarrow> 97 \<le> code c \<and> code c \<le> 122 \<or> 65 \<le> code c \<and> code c \<le> 90 \<or> 48 \<le> code c \<and> code c \<le> 57"

definition do_escape :: "escape_flags \<Rightarrow> char \<Rightarrow> bool" where
  "do_escape fl c =
     (let e = (if esc_unsafe fl then
                 let e = (c \<in> set rfc1738_unsafe_chars)
                 in if \<not> esc_nopercent fl \<and> c = CHR ''%'' then True
                    else if \<not> esc_nospace fl \<and> schar c \<le> 32 then True
                    else e
               else False);
          e = (if esc_reserved fl \<and> \<not> e then c \<in> set rfc1738_reserved_chars else e)
      in if esc_ctrls fl \<and> \<not> e
         then if code c \<le> 0x1F then True
              else if code c = 0x7F then True
              else if code c \<ge> 0x80 then True
              else e
         else e)"

definition hex_upper :: "nat \<Rightarrow> char" where
  "hex_upper n = char_of (if n < 10 then 48 + n else 55 + n)"

definition escape_char :: "escape_flags \<Rightarrow> char \<Rightarrow> string" where
  "escape_char fl c =
     (if alnum_char c then [c]
      else if do_escape fl c then [CHR ''%'', hex_upper (code c div 16), hex_upper (code c mod 16)]
      else [c])"

text \<open>
  The loop over the source, with the position in the buffer: it ends at the end of the source or when only the place of the
  terminator is left.  \<^verbatim>\<open>snprintf()\<close> writes as much of the triplet as there is room for, with a terminator, and the position
  advances by three all the same.
\<close>

fun escape_loop :: "escape_flags \<Rightarrow> nat \<Rightarrow> string \<Rightarrow> nat \<Rightarrow> string outcome" where
  "escape_loop fl bufsize [] dst = guardE (dst < bufsize) OutOfBounds (Inr [])"
| "escape_loop fl bufsize (c # cs) dst =
     (if dst < bufsize - 1
      then bindE (escape_loop fl bufsize cs (dst + length (escape_char fl c)))
             (\<lambda>r. Inr (take (bufsize - dst - 1) (escape_char fl c) @ r))
      else guardE (dst < bufsize) OutOfBounds (Inr []))"

text \<open>The size of the buffer kept from earlier calls, 0 before the first.\<close>

definition rfc1738_do_escape :: "escape_flags \<Rightarrow> string \<Rightarrow> nat \<Rightarrow> (string \<times> nat) outcome" where
  "rfc1738_do_escape fl url bufsize =
     (let bufsize = (if bufsize = 0 \<or> length url * 3 > bufsize then length url * 3 + 1 else bufsize)
      in bindE (escape_loop fl bufsize url 0) (\<lambda>s. Inr (s, bufsize)))"

section \<open>Unescaping\<close>

definition fromhex :: "char \<Rightarrow> int" where
  "fromhex ch =
     (if 48 \<le> code ch \<and> code ch \<le> 57 then int (code ch) - 48
      else if 97 \<le> code ch \<and> code ch \<le> 102 then int (code ch) - 97 + 10
      else if 65 \<le> code ch \<and> code ch \<le> 70 then int (code ch) - 65 + 10
      else -1)"

text \<open>The routine works in place; the result never gets ahead of the place that is read.  A missing character reads as the
  terminator, which is no hexadecimal digit.\<close>

fun rfc1738_unescape :: "string \<Rightarrow> string" where
  "rfc1738_unescape [] = []"
| "rfc1738_unescape (c # cs) =
     (if c \<noteq> CHR ''%'' then c # rfc1738_unescape cs
      else case cs of
          [] \<Rightarrow> [c]
        | d # ds \<Rightarrow>
            if d = CHR ''%'' then c # rfc1738_unescape ds
            else let v1 = fromhex d in
              if v1 < 0 then c # rfc1738_unescape cs
              else case ds of
                  [] \<Rightarrow> c # rfc1738_unescape cs
                | e # es \<Rightarrow>
                    let v2 = fromhex e in
                    if v2 < 0 then c # rfc1738_unescape cs
                    else let x = v1 * 16 + v2 in
                      if x > 0 \<and> x \<le> 255 then char_of (nat x) # rfc1738_unescape es
                      else c # rfc1738_unescape cs)"

section \<open>Properties\<close>

text \<open>Every size the buffer ever has leaves room for any string that is not refused it.\<close>

definition escape_buf_ok :: "nat \<Rightarrow> bool" where
  "escape_buf_ok n \<longleftrightarrow> n = 0 \<or> n mod 3 = 1"

definition escaped :: "escape_flags \<Rightarrow> string \<Rightarrow> string" where
  "escaped fl s = concat (map (escape_char fl) s)"

lemma length_escape_char: "length (escape_char fl c) \<le> 3" "escape_char fl c \<noteq> []"
  by (auto simp: escape_char_def)

lemma escape_loop_run: "dst + 3 * length cs < bufsize \<Longrightarrow> escape_loop fl bufsize cs dst = Inr (escaped fl cs)"
proof (induction cs arbitrary: dst)
  case (Cons c cs)
  have "length (escape_char fl c) \<le> bufsize - dst - 1" using length_escape_char(1) [of fl c] Cons.prems by simp
  moreover have "escape_loop fl bufsize cs (dst + length (escape_char fl c)) = Inr (escaped fl cs)"
    using length_escape_char(1) [of fl c] Cons.prems by (intro Cons.IH) simp
  moreover have "dst < bufsize - 1" using Cons.prems by simp
  ultimately show ?case by (simp add: escaped_def)
qed (simp add: escaped_def)

lemma do_escape_run:
  assumes "escape_buf_ok n"
  shows "\<exists>n'. rfc1738_do_escape fl s n = Inr (escaped fl s, n') \<and> escape_buf_ok n'"
proof (cases "n = 0 \<or> length s * 3 > n")
  case True
  then have "rfc1738_do_escape fl s n = Inr (escaped fl s, length s * 3 + 1)"
    using escape_loop_run [of 0 s "length s * 3 + 1" fl] by (simp add: rfc1738_do_escape_def)
  moreover have "(length s * 3 + 1) mod 3 = 1" by presburger
  ultimately show ?thesis unfolding escape_buf_ok_def by blast
next
  case False
  then have "length s * 3 \<noteq> n" using assms by (auto simp: escape_buf_ok_def)
  then have "escape_loop fl n s 0 = Inr (escaped fl s)" using False by (intro escape_loop_run) simp
  then show ?thesis using False assms by (simp add: rfc1738_do_escape_def)
qed

lemma code_lt: "code c < 256"
  by (simp add: code_def)

lemma code_hex_upper: "n < 16 \<Longrightarrow> code (hex_upper n) = (if n < 10 then 48 + n else 55 + n)"
  by (simp add: code_def hex_upper_def of_char_of)

lemma fromhex_hex_upper: "n < 16 \<Longrightarrow> fromhex (hex_upper n) = int n" "n < 16 \<Longrightarrow> hex_upper n \<noteq> CHR ''%''"
proof -
  assume n: "n < 16"
  show "fromhex (hex_upper n) = int n" using code_hex_upper [OF n] n by (simp add: fromhex_def)
  have "code (hex_upper n) \<noteq> code (CHR ''%'')" using code_hex_upper [OF n] n by (simp add: code_def)
  then show "hex_upper n \<noteq> CHR ''%''" by auto
qed

text \<open>When the percent sign is escaped too, unescaping gives back the string.\<close>

lemma unescape_escaped:
  assumes "esc_unsafe fl" "\<not> esc_nopercent fl"
  shows "CHR 0x00 \<notin> set s \<Longrightarrow> rfc1738_unescape (escaped fl s) = s"
proof (induction s)
  case (Cons c s)
  have IH: "rfc1738_unescape (escaped fl s) = s" using Cons by simp
  have pc: "escape_char fl (CHR ''%'') = [CHR ''%'', hex_upper (code (CHR ''%'') div 16), hex_upper (code (CHR ''%'') mod 16)]"
    using assms by (simp add: escape_char_def alnum_char_def do_escape_def Let_def code_def)
  show ?case
  proof (cases "escape_char fl c = [c]")
    case True
    moreover from this pc have "c \<noteq> CHR ''%''" by auto
    ultimately show ?thesis using IH by (simp add: escaped_def)
  next
    case False
    then have e: "escape_char fl c = [CHR ''%'', hex_upper (code c div 16), hex_upper (code c mod 16)]"
      by (auto simp: escape_char_def split: if_splits)
    have h: "code c div 16 < 16" "code c mod 16 < 16" using code_lt [of c] by auto
    have "code (CHR 0x00) = 0" by (simp add: code_def)
    then have "code c = 0 \<Longrightarrow> c = CHR 0x00" unfolding code_def by (metis char_of_char)
    then have "code c \<noteq> 0" using Cons.prems by auto
    moreover have "char_of (code c) = c" by (simp add: code_def)
    moreover have "int (code c div 16) * 16 + int (code c mod 16) = int (code c)" by (simp add: zdiv_int zmod_int)
    ultimately show ?thesis using IH fromhex_hex_upper [OF h(1)] fromhex_hex_upper [OF h(2)] code_lt [of c]
      by (simp add: escaped_def e Let_def)
  qed
qed (simp add: escaped_def)

end
