(* ===== verification/Request_Method.thy ===== *)
theory Request_Method
  imports Url_Escape
begin

text \<open>
  Request methods: \<^verbatim>\<open>src/HttpRequestMethod.cc\<close> and \<^verbatim>\<open>HttpRequestMethod.h\<close>.  A method is one of the enumeration, in its order, or
  \<^verbatim>\<open>METHOD_OTHER\<close> with its text, which is empty for a method made from the enumeration alone.  The range of characters a method
  is made of is given by the string it starts in and, when the caller knows its end, its length.
\<close>

section \<open>The enumeration\<close>

datatype http_method = METHOD_NONE | METHOD_GET | METHOD_POST | METHOD_PUT | METHOD_HEAD | METHOD_CONNECT | METHOD_TRACE | METHOD_PURGE
  | METHOD_OPTIONS | METHOD_DELETE | METHOD_PROPFIND | METHOD_PROPPATCH | METHOD_MKCOL | METHOD_COPY | METHOD_MOVE | METHOD_LOCK
  | METHOD_UNLOCK | METHOD_BMOVE | METHOD_BDELETE | METHOD_BPROPFIND | METHOD_BPROPPATCH | METHOD_BCOPY | METHOD_SEARCH
  | METHOD_SUBSCRIBE | METHOD_UNSUBSCRIBE | METHOD_POLL | METHOD_REPORT | METHOD_MKACTIVITY | METHOD_CHECKOUT | METHOD_MERGE
  | METHOD_OTHER string

text \<open>The table of names, from the first method after \<^verbatim>\<open>METHOD_NONE\<close> on.  The last name belongs to \<^verbatim>\<open>METHOD_OTHER\<close>, which the
  search in the table can therefore find, without a text.\<close>

definition RequestMethodStr :: "(http_method \<times> string) list" where
  "RequestMethodStr =
    [(METHOD_GET, ''GET''), (METHOD_POST, ''POST''), (METHOD_PUT, ''PUT''), (METHOD_HEAD, ''HEAD''), (METHOD_CONNECT, ''CONNECT''),
     (METHOD_TRACE, ''TRACE''), (METHOD_PURGE, ''PURGE''), (METHOD_OPTIONS, ''OPTIONS''), (METHOD_DELETE, ''DELETE''),
     (METHOD_PROPFIND, ''PROPFIND''), (METHOD_PROPPATCH, ''PROPPATCH''), (METHOD_MKCOL, ''MKCOL''), (METHOD_COPY, ''COPY''),
     (METHOD_MOVE, ''MOVE''), (METHOD_LOCK, ''LOCK''), (METHOD_UNLOCK, ''UNLOCK''), (METHOD_BMOVE, ''BMOVE''),
     (METHOD_BDELETE, ''BDELETE''), (METHOD_BPROPFIND, ''BPROPFIND''), (METHOD_BPROPPATCH, ''BPROPPATCH''), (METHOD_BCOPY, ''BCOPY''),
     (METHOD_SEARCH, ''SEARCH''), (METHOD_SUBSCRIBE, ''SUBSCRIBE''), (METHOD_UNSUBSCRIBE, ''UNSUBSCRIBE''), (METHOD_POLL, ''POLL''),
     (METHOD_REPORT, ''REPORT''), (METHOD_MKACTIVITY, ''MKACTIVITY''), (METHOD_CHECKOUT, ''CHECKOUT''), (METHOD_MERGE, ''MERGE''),
     (METHOD_OTHER [], ''ERROR'')]"

section \<open>The C library\<close>

definition w_space :: "char \<Rightarrow> bool" where
  "w_space c \<longleftrightarrow> c \<in> {CHR 0x20, CHR 0x09, CHR 0x0A, CHR 0x0D}"

text \<open>\<^verbatim>\<open>strncasecmp(a, b, n) == 0\<close>.\<close>

definition same_prefix :: "string \<Rightarrow> string \<Rightarrow> nat \<Rightarrow> bool" where
  "same_prefix a b n \<longleftrightarrow> map to_lower (take n a) = map to_lower (take n b)"

section \<open>Operations\<close>

fun find_method :: "(http_method \<times> string) list \<Rightarrow> string \<Rightarrow> nat \<Rightarrow> http_method option" where
  "find_method [] b n = None"
| "find_method ((m, name) # ms) b n = (if same_prefix b name n then Some m else find_method ms b n)"

definition HttpRequestMethod :: "string option \<Rightarrow> nat option \<Rightarrow> http_method" where
  "HttpRequestMethod begn sz =
     (case begn of
        None \<Rightarrow> METHOD_NONE
      | Some b \<Rightarrow>
          if b \<noteq> [] \<and> hd b = CHR ''%'' then METHOD_NONE
          else let n = (case sz of None \<Rightarrow> length (takeWhile (\<lambda>c. \<not> w_space c) b) | Some k \<Rightarrow> k)
            in if n = 0 then METHOD_NONE
               else (case find_method RequestMethodStr b n of Some m \<Rightarrow> m | None \<Rightarrow> METHOD_OTHER (take n b)))"

definition method_image :: "http_method \<Rightarrow> string" where
  "method_image m =
     (case m of
        METHOD_NONE \<Rightarrow> ''NONE''
      | METHOD_OTHER s \<Rightarrow> if s \<noteq> [] then s else ''METHOD_OTHER''
      | _ \<Rightarrow> (case map_of RequestMethodStr m of Some s \<Rightarrow> s | None \<Rightarrow> []))"

definition isCacheble :: "http_method \<Rightarrow> bool" where
  "isCacheble m =
     (case m of METHOD_CONNECT \<Rightarrow> False | METHOD_TRACE \<Rightarrow> False | METHOD_PUT \<Rightarrow> False | METHOD_POST \<Rightarrow> False | METHOD_OTHER s \<Rightarrow> False
      | _ \<Rightarrow> True)"

definition purgesOthers :: "http_method \<Rightarrow> bool" where
  "purgesOthers m \<longleftrightarrow> m \<notin> {METHOD_GET, METHOD_HEAD, METHOD_NONE, METHOD_CONNECT, METHOD_TRACE, METHOD_OPTIONS, METHOD_PROPFIND,
     METHOD_BPROPFIND, METHOD_COPY, METHOD_BCOPY, METHOD_LOCK, METHOD_UNLOCK, METHOD_SEARCH}"

section \<open>Names and methods\<close>

text \<open>A method found for a text is the first in the table whose name starts with the text, regardless of case.\<close>

lemma find_method_None: "find_method ms b n = None \<longleftrightarrow> (\<forall>(m, name) \<in> set ms. \<not> same_prefix b name n)"
  by (induction ms) (auto split: if_splits)

lemma find_method_Some:
  assumes "find_method ms b n = Some m"
  shows "\<exists>name. (m, name) \<in> set ms \<and> same_prefix b name n"
  using assms by (induction ms b n rule: find_method.induct) (auto split: if_splits)

text \<open>Among capital letters the comparison is equality.\<close>

definition capital :: "char \<Rightarrow> bool" where
  "capital c \<longleftrightarrow> 65 \<le> code c \<and> code c \<le> 90"

lemma to_lower_capital: "capital c \<Longrightarrow> capital d \<Longrightarrow> to_lower c = to_lower d \<longleftrightarrow> c = d"
proof -
  have "of_char (to_lower c) = code c + 32" if "capital c" for c using that by (simp add: to_lower_def capital_def code_def)
  then show "capital c \<Longrightarrow> capital d \<Longrightarrow> to_lower c = to_lower d \<longleftrightarrow> c = d" by (metis add_right_cancel code_def char_of_char)
qed

lemma same_prefix_capital: "list_all capital a \<Longrightarrow> list_all capital b \<Longrightarrow> same_prefix a b n \<longleftrightarrow> take n a = take n b"
proof -
  assume ab: "list_all capital a" "list_all capital b"
  have "inj_on to_lower (set (take n a) \<union> set (take n b))"
    using ab by (auto simp: inj_on_def list_all_iff to_lower_capital dest!: in_set_takeD)
  then show ?thesis unfolding same_prefix_def by (rule inj_on_map_eq_map)
qed

fun find_exact :: "(http_method \<times> string) list \<Rightarrow> string \<Rightarrow> nat \<Rightarrow> http_method option" where
  "find_exact [] b n = None"
| "find_exact ((m, name) # ms) b n = (if take n b = take n name then Some m else find_exact ms b n)"

lemma find_method_capital: "list_all capital b \<Longrightarrow> list_all (\<lambda>(m, name). list_all capital name) ms \<Longrightarrow> find_method ms b n = find_exact ms b n"
  by (induction ms) (auto simp: same_prefix_capital)

lemma method_names: "list_all (\<lambda>(m, name). list_all capital name) RequestMethodStr"
  unfolding RequestMethodStr_def by code_simp

lemma capital_word: "capital c \<Longrightarrow> \<not> w_space c \<and> c \<noteq> CHR ''%''"
  by (auto simp: w_space_def capital_def code_def)

lemma takeWhile_word: "list_all P s \<Longrightarrow> takeWhile P s = s"
  by (induction s) auto

lemma method_of_name:
  assumes "list_all capital s" "s \<noteq> []"
  shows "HttpRequestMethod (Some s) None = (case find_exact RequestMethodStr s (length s) of Some m \<Rightarrow> m | None \<Rightarrow> METHOD_OTHER s)"
proof -
  have "list_all (\<lambda>c. \<not> w_space c) s" using assms(1) capital_word by (auto simp: list_all_iff)
  then have tw: "takeWhile (\<lambda>c. \<not> w_space c) s = s" by (rule takeWhile_word)
  have "hd s \<noteq> CHR ''%''" using assms capital_word by (cases s) auto
  then show ?thesis using assms find_method_capital [OF assms(1) method_names, of "length s"]
    unfolding HttpRequestMethod_def Let_def tw option.case by (simp split: option.split)
qed

lemma image_method_table: "list_all (\<lambda>(m, name). m = METHOD_OTHER [] \<or> method_image m = name \<and> HttpRequestMethod (Some name) None = m) RequestMethodStr"
proof -
  have "list_all (\<lambda>(m, name). name \<noteq> [] \<and> (m = METHOD_OTHER [] \<or> method_image m = name \<and> find_exact RequestMethodStr name (length name) = Some m)) RequestMethodStr"
    by code_simp
  then show ?thesis using method_names method_of_name by (fastforce simp: list_all_iff)
qed

text \<open>Methods of their own: no name of the table starts with the text, and the text is a word.\<close>

definition extension_method :: "string \<Rightarrow> bool" where
  "extension_method s \<longleftrightarrow> s \<noteq> [] \<and> hd s \<noteq> CHR ''%'' \<and> list_all (\<lambda>c. \<not> w_space c) s \<and>
     list_all (\<lambda>(m, name). \<not> same_prefix s name (length s)) RequestMethodStr"

lemma extension_parse: "extension_method s \<Longrightarrow> HttpRequestMethod (Some s) None = METHOD_OTHER s"
proof -
  assume s: "extension_method s"
  then have tw: "takeWhile (\<lambda>c. \<not> w_space c) s = s" by (intro takeWhile_word) (simp add: extension_method_def)
  have "find_method RequestMethodStr s (length s) = None"
    using s by (auto simp: find_method_None extension_method_def list_all_iff)
  then show ?thesis using s by (simp add: HttpRequestMethod_def tw extension_method_def Let_def del: takeWhile_eq_all_conv)
qed

text \<open>
  Methods and their names correspond.  For every method the program knows and for every word that is not the beginning
  of a known name, reading the image of the method gives the method back.
\<close>

theorem method_image_roundtrip:
  assumes "m \<in> set (map fst RequestMethodStr) \<and> m \<noteq> METHOD_OTHER [] \<or> (\<exists>s. m = METHOD_OTHER s \<and> extension_method s)"
  shows "HttpRequestMethod (Some (method_image m)) None = m"
proof -
  consider (table) name where "(m, name) \<in> set RequestMethodStr" "m \<noteq> METHOD_OTHER []" | (ext) s where "m = METHOD_OTHER s" "extension_method s"
    using assms by auto
  then show ?thesis
  proof cases
    case table
    then show ?thesis using image_method_table by (auto simp: list_all_iff)
  next
    case ext
    moreover from ext have "method_image m = s" by (simp add: method_image_def extension_method_def)
    ultimately show ?thesis using extension_parse by simp
  qed
qed

theorem method_image_roundtrip_witness:
  "HttpRequestMethod (Some (method_image METHOD_MKCOL)) None = METHOD_MKCOL \<and> HttpRequestMethod (Some (method_image (METHOD_OTHER ''PATCH''))) None = METHOD_OTHER ''PATCH''"
proof
  have "METHOD_MKCOL \<in> set (map fst RequestMethodStr)" "METHOD_MKCOL \<noteq> METHOD_OTHER []" by code_simp+
  then show "HttpRequestMethod (Some (method_image METHOD_MKCOL)) None = METHOD_MKCOL" by (intro method_image_roundtrip) blast
  have "extension_method ''PATCH''" by code_simp
  then show "HttpRequestMethod (Some (method_image (METHOD_OTHER ''PATCH''))) None = METHOD_OTHER ''PATCH''" by (intro method_image_roundtrip) blast
qed

text \<open>The beginning of a name is taken for the name, and the name of the last entry is taken for a method without a text.\<close>

lemma method_prefix_accepted: "HttpRequestMethod (Some ''G'') None = METHOD_GET" "HttpRequestMethod (Some ''DEL'') None = METHOD_DELETE"
  "method_image (HttpRequestMethod (Some ''ERROR'') None) = ''METHOD_OTHER''"
proof -
  have "list_all capital ''G''" "list_all capital ''DEL''" "list_all capital ''ERROR''" by code_simp+
  moreover have "find_exact RequestMethodStr ''G'' (length ''G'') = Some METHOD_GET" "find_exact RequestMethodStr ''DEL'' (length ''DEL'') = Some METHOD_DELETE"
    "find_exact RequestMethodStr ''ERROR'' (length ''ERROR'') = Some (METHOD_OTHER [])" by code_simp+
  ultimately have "HttpRequestMethod (Some ''G'') None = METHOD_GET" "HttpRequestMethod (Some ''DEL'') None = METHOD_DELETE"
    "HttpRequestMethod (Some ''ERROR'') None = METHOD_OTHER []"
    using method_of_name [of "''G''"] method_of_name [of "''DEL''"] method_of_name [of "''ERROR''"] by simp_all
  then show "HttpRequestMethod (Some ''G'') None = METHOD_GET" "HttpRequestMethod (Some ''DEL'') None = METHOD_DELETE"
    "method_image (HttpRequestMethod (Some ''ERROR'') None) = ''METHOD_OTHER''" by (simp_all add: method_image_def)
qed

end
