(* ===== verification/Url.thy ===== *)
theory Url
  imports Request_Method "HOL-Library.Sublist"
begin

text \<open>
  URLs of requests: \<^verbatim>\<open>src/url.cc\<close> and \<^verbatim>\<open>src/URLScheme.cc\<close>.  C strings are lists of characters; putting a string
  into one of the arrays of \<^verbatim>\<open>MAX_URL\<close> bytes is the fault \<open>OutOfBounds\<close> when it does not fit with its terminator.  The
  recognition of numeric addresses (\<open>ip\<close>: the text of the address a host name stands for, if it is one) is
  a parameter.
\<close>

section \<open>Data\<close>

datatype protocol = PROTO_NONE | PROTO_HTTP | PROTO_FTP | PROTO_HTTPS | PROTO_COAP | PROTO_COAPS | PROTO_GOPHER | PROTO_WAIS
  | PROTO_CACHE_OBJECT | PROTO_ICP | PROTO_HTCP | PROTO_URN | PROTO_WHOIS | PROTO_INTERNAL | PROTO_ICY | PROTO_UNKNOWN

fun ProtocolType_str :: "protocol \<Rightarrow> string" where
  "ProtocolType_str PROTO_NONE = ''NONE''"
| "ProtocolType_str PROTO_HTTP = ''HTTP''"
| "ProtocolType_str PROTO_FTP = ''FTP''"
| "ProtocolType_str PROTO_HTTPS = ''HTTPS''"
| "ProtocolType_str PROTO_COAP = ''COAP''"
| "ProtocolType_str PROTO_COAPS = ''COAPS''"
| "ProtocolType_str PROTO_GOPHER = ''GOPHER''"
| "ProtocolType_str PROTO_WAIS = ''WAIS''"
| "ProtocolType_str PROTO_CACHE_OBJECT = ''CACHE_OBJECT''"
| "ProtocolType_str PROTO_ICP = ''ICP''"
| "ProtocolType_str PROTO_HTCP = ''HTCP''"
| "ProtocolType_str PROTO_URN = ''URN''"
| "ProtocolType_str PROTO_WHOIS = ''WHOIS''"
| "ProtocolType_str PROTO_INTERNAL = ''INTERNAL''"
| "ProtocolType_str PROTO_ICY = ''ICY''"
| "ProtocolType_str PROTO_UNKNOWN = ''UNKNOWN''"

definition const_str :: "protocol \<Rightarrow> string" where
  "const_str p =
     (if p = PROTO_UNKNOWN then ''(unknown)''
      else if p = PROTO_NONE then []
      else map to_lower (ProtocolType_str p))"

datatype uri_whitespace = URI_WHITESPACE_STRIP | URI_WHITESPACE_ALLOW | URI_WHITESPACE_ENCODE | URI_WHITESPACE_CHOP | URI_WHITESPACE_DENY

record url_config =
  appendDomain :: "string option"
  check_hostnames :: bool
  allow_underscore :: bool
  uri_whitespace_mode :: uri_whitespace
  hardcode_deny_ports :: bool
  strip_query_terms :: bool

definition appendDomainLen :: "url_config \<Rightarrow> nat" where
  "appendDomainLen cfg = (case appendDomain cfg of None \<Rightarrow> 0 | Some d \<Rightarrow> length d)"

record url_request =
  ur_method :: http_method
  ur_protocol :: protocol
  urlpath :: string
  ur_host :: string
  ur_login :: string
  ur_port :: "16 word"
  canonical :: "string option"

definition MAX_URL :: nat where "MAX_URL = 8192"

definition MAX_LOGIN_SZ :: nat where "MAX_LOGIN_SZ = 128"

definition SQUIDHOSTNAMELEN :: nat where "SQUIDHOSTNAMELEN = 256"

definition CACHE_HTTP_PORT :: int where "CACHE_HTTP_PORT = 3128"

definition CONNECT_PORT :: int where "CONNECT_PORT = 443"

section \<open>The C library\<close>

definition into_array :: "string \<Rightarrow> string outcome" where
  "into_array s = guardE (length s < MAX_URL) OutOfBounds (Inr s)"

definition str_xstrncpy :: "string \<Rightarrow> nat \<Rightarrow> string" where
  "str_xstrncpy s n = take (n - 1) s"

definition stringHasWhitespace :: "string \<Rightarrow> bool" where
  "stringHasWhitespace s = list_ex w_space s"

definition stringHasCntl :: "string \<Rightarrow> bool" where
  "stringHasCntl s = list_ex (\<lambda>c. code c \<le> 0x1F \<or> 0x7F \<le> code c \<and> code c \<le> 0x9F) s"

text \<open>\<^verbatim>\<open>strtol()\<close> to base ten, which saturates at the limits of \<^verbatim>\<open>long\<close>: the value, if there are any digits.  \<^verbatim>\<open>atoi()\<close> and the
  conversion \<open>%d\<close> store it as an \<^verbatim>\<open>int\<close>.\<close>

definition strtol10 :: "string \<Rightarrow> int option" where
  "strtol10 s =
     (let t = dropWhile xisspace s;
          neg = (t \<noteq> [] \<and> hd t = CHR ''-'');
          u = (if t \<noteq> [] \<and> (hd t = CHR ''-'' \<or> hd t = CHR ''+'') then tl t else t);
          ds = takeWhile is_digit u
      in if ds = [] then None
         else Some (if neg then max (- (2 ^ 63)) (- digits_value ds) else min (2 ^ 63 - 1) (digits_value ds)))"

definition as_int :: "int \<Rightarrow> int" where
  "as_int v = sint (of_int v :: 32 word)"

definition atoi :: "string \<Rightarrow> int" where
  "atoi s = (case strtol10 s of None \<Rightarrow> 0 | Some v \<Rightarrow> as_int v)"

text \<open>The parts of a string before and after the last \<open>c\<close> in it.\<close>

definition before_last :: "char \<Rightarrow> string \<Rightarrow> string" where
  "before_last c s = rev (tl (dropWhile (\<lambda>x. x \<noteq> c) (rev s)))"

definition after_last :: "char \<Rightarrow> string \<Rightarrow> string" where
  "after_last c s = rev (takeWhile (\<lambda>x. x \<noteq> c) (rev s))"

section \<open>Protocols and ports\<close>

definition urlParseProtocol :: "string \<Rightarrow> protocol" where
  "urlParseProtocol b =
     (let n = length (takeWhile (\<lambda>c. c \<noteq> CHR '':'') b)
      in if same_prefix b ''http'' n then PROTO_HTTP
         else if same_prefix b ''ftp'' n then PROTO_FTP
         else if same_prefix b ''https'' n then PROTO_HTTPS
         else if same_prefix b ''file'' n then PROTO_FTP
         else if same_prefix b ''coap'' n then PROTO_COAP
         else if same_prefix b ''coaps'' n then PROTO_COAPS
         else if same_prefix b ''gopher'' n then PROTO_GOPHER
         else if same_prefix b ''wais'' n then PROTO_WAIS
         else if same_prefix b ''cache_object'' n then PROTO_CACHE_OBJECT
         else if same_prefix b ''urn'' n then PROTO_URN
         else if same_prefix b ''whois'' n then PROTO_WHOIS
         else if same_prefix b ''internal'' n then PROTO_INTERNAL
         else PROTO_NONE)"

fun urlDefaultPort :: "protocol \<Rightarrow> int" where
  "urlDefaultPort PROTO_HTTP = 80"
| "urlDefaultPort PROTO_HTTPS = 443"
| "urlDefaultPort PROTO_FTP = 21"
| "urlDefaultPort PROTO_COAP = 5683"
| "urlDefaultPort PROTO_COAPS = 5683"
| "urlDefaultPort PROTO_GOPHER = 70"
| "urlDefaultPort PROTO_WAIS = 210"
| "urlDefaultPort PROTO_CACHE_OBJECT = CACHE_HTTP_PORT"
| "urlDefaultPort PROTO_INTERNAL = CACHE_HTTP_PORT"
| "urlDefaultPort PROTO_WHOIS = 43"
| "urlDefaultPort p = 0"

section \<open>Parsing\<close>

definition SetHost :: "(string \<Rightarrow> string option) \<Rightarrow> string \<Rightarrow> url_request \<Rightarrow> url_request" where
  "SetHost ip src r = r\<lparr>ur_host := str_xstrncpy (case ip src of None \<Rightarrow> src | Some t \<Rightarrow> t) SQUIDHOSTNAMELEN, canonical := None\<rparr>"

definition urlParseFinish :: "(string \<Rightarrow> string option) \<Rightarrow> http_method \<Rightarrow> protocol \<Rightarrow> string \<Rightarrow> string \<Rightarrow> string \<Rightarrow> int \<Rightarrow> url_request" where
  "urlParseFinish ip m pr path host login port =
     (SetHost ip host \<lparr>ur_method = m, ur_protocol = pr, urlpath = path, ur_host = [], ur_login = [], ur_port = 0, canonical = None\<rparr>)
       \<lparr>ur_login := str_xstrncpy login MAX_LOGIN_SZ, ur_port := of_int port\<rparr>"

definition urnParse :: "http_method \<Rightarrow> string \<Rightarrow> url_request" where
  "urnParse m urn = \<lparr>ur_method = m, ur_protocol = PROTO_URN, urlpath = drop 4 urn, ur_host = [], ur_login = [], ur_port = 0, canonical = None\<rparr>"

text \<open>The two \<^verbatim>\<open>sscanf()\<close> calls for \<^verbatim>\<open>CONNECT\<close>: host, and port when it is there.\<close>

definition scan_connect :: "string \<Rightarrow> (string \<times> int) option" where
  "scan_connect url =
     (let port_after = (\<lambda>s. case strtol10 s of None \<Rightarrow> CONNECT_PORT | Some v \<Rightarrow> as_int v);
          b = takeWhile (\<lambda>c. c \<noteq> CHR '']'') (tl url);
          br = drop (length b) (tl url);
          h = takeWhile (\<lambda>c. c \<noteq> CHR '':'') url;
          hr = drop (length h) url
      in if url \<noteq> [] \<and> hd url = CHR ''['' \<and> b \<noteq> []
         then Some (b, if prefix '']:'' br then port_after (drop 2 br) else CONNECT_PORT)
         else if h \<noteq> [] then Some (h, if hr \<noteq> [] then port_after (tl hr) else CONNECT_PORT)
         else None)"

record url_parts =
  up_protocol :: protocol
  up_path :: string
  up_host :: string
  up_login :: string
  up_port :: int

text \<open>The split of the authority into login, host and port.\<close>

definition split_login :: "string \<Rightarrow> string \<times> string" where
  "split_login h = (if CHR ''@'' \<in> set h then (before_last (CHR ''@'') h, after_last (CHR ''@'') h) else ([], h))"

text \<open>The host, and the text from the place where the port is looked for.  Inside brackets the host is moved in its array,
  and the search goes on behind it in what the array held before.\<close>

definition split_host :: "string \<Rightarrow> string \<times> string" where
  "split_host h =
     (if h \<noteq> [] \<and> hd h = CHR ''['' then
        let a = takeWhile (\<lambda>c. c \<noteq> CHR '']'') (tl h)
        in (a, dropWhile (\<lambda>c. c \<noteq> CHR '':'') (drop (length a + 1) h))
      else if length (filter (\<lambda>c. c = CHR '':'') h) = 1
      then (takeWhile (\<lambda>c. c \<noteq> CHR '':'') h, dropWhile (\<lambda>c. c \<noteq> CHR '':'') h)
      else (h, []))"

definition split_url :: "string \<Rightarrow> url_parts option outcome" where
  "split_url url =
     (let proto = takeWhile (\<lambda>c. c \<noteq> CHR '':'') url; r = drop (length proto) url
      in bindE (into_array proto) (\<lambda>proto.
         if r = [] \<or> \<not> prefix ''://'' r then Inr None
         else
           let s = drop 3 r;
               stop = (\<lambda>c. c = CHR ''/'' \<or> c = CHR ''?'' \<or> c = CHR ''#'' \<or> xisspace c);
               h0 = takeWhile (\<lambda>c. \<not> stop c) s; s = drop (length h0) s;
               pre = (if s = [] \<or> hd s = CHR ''?'' \<or> hd s = CHR ''#'' then ''/'' else []);
               body = takeWhile (\<lambda>c. c \<noteq> CHR 0x0D \<and> c \<noteq> CHR 0x0A) s;
               path = (if pre @ body = [] then ''/'' else pre @ body);
               pr = urlParseProtocol proto
           in bindE (into_array h0) (\<lambda>h0. bindE (into_array path) (\<lambda>path.
             let (login, h1) = split_login h0; (h, t) = split_host h1
             in if pr \<noteq> PROTO_NONE \<and> (if h1 \<noteq> [] \<and> hd h1 = CHR ''['' then h else h1) = [] then Inr None
                else Inr (Some \<lparr>up_protocol = pr, up_path = path, up_host = h, up_login = login,
                  up_port = (if t \<noteq> [] then atoi (tl t) else urlDefaultPort pr)\<rparr>)))))"

definition valid_hostname_char :: "bool \<Rightarrow> char \<Rightarrow> bool" where
  "valid_hostname_char underscore c \<longleftrightarrow> alnum_char c \<or> c \<in> {CHR ''-'', CHR ''.'', CHR ''['', CHR '':'', CHR '']''} \<or> underscore \<and> c = CHR ''_''"

text \<open>The room \<^verbatim>\<open>strncat()\<close> is told about is an unsigned difference.\<close>

definition append_domain :: "url_config \<Rightarrow> string \<Rightarrow> string outcome" where
  "append_domain cfg h =
     (case appendDomain cfg of
        None \<Rightarrow> Inr h
      | Some d \<Rightarrow>
          if CHR ''.'' \<notin> set h \<and> CHR '':'' \<notin> set h
          then into_array (h @ take (unat (of_nat SQUIDHOSTNAMELEN - of_nat (length h) - 1 :: 64 word)) d)
          else Inr h)"

definition trim_trailing_dots :: "string \<Rightarrow> string" where
  "trim_trailing_dots h = rev (dropWhile (\<lambda>c. c = CHR ''.'') (rev h))"

definition bad_dots :: "string \<Rightarrow> bool" where
  "bad_dots h \<longleftrightarrow> sublist ''..'' h \<or> h \<noteq> [] \<and> hd h = CHR ''.''"

text \<open>What becomes of a path with whitespace; \<open>nb\<close> is the buffer of the escaping routine.\<close>

definition clean_path :: "url_config \<Rightarrow> string \<Rightarrow> nat \<Rightarrow> (string option \<times> nat) outcome" where
  "clean_path cfg path nb =
     (if \<not> stringHasWhitespace path then Inr (Some path, nb)
      else case uri_whitespace_mode cfg of
          URI_WHITESPACE_DENY \<Rightarrow> Inr (None, nb)
        | URI_WHITESPACE_ALLOW \<Rightarrow> Inr (Some path, nb)
        | URI_WHITESPACE_ENCODE \<Rightarrow>
            bindE (rfc1738_do_escape rfc1738_escape_unescaped_flags path nb) (\<lambda>(t, nb). Inr (Some (str_xstrncpy t MAX_URL), nb))
        | URI_WHITESPACE_CHOP \<Rightarrow> Inr (Some (takeWhile (\<lambda>c. \<not> w_space c) path), nb)
        | URI_WHITESPACE_STRIP \<Rightarrow> Inr (Some (filter (\<lambda>c. \<not> xisspace c) path), nb))"

definition check_parts :: "url_config \<Rightarrow> (string \<Rightarrow> string option) \<Rightarrow> http_method \<Rightarrow> url_parts \<Rightarrow> nat \<Rightarrow> (url_request option \<times> nat) outcome" where
  "check_parts cfg ip m u nb =
     (let h = map to_lower (up_host u);
          h = (if stringHasWhitespace h \<and> uri_whitespace_mode cfg = URI_WHITESPACE_STRIP then filter (\<lambda>c. \<not> xisspace c) h else h)
      in if check_hostnames cfg \<and> \<not> list_all (valid_hostname_char (allow_underscore cfg)) h then Inr (None, nb)
         else bindE (append_domain cfg h) (\<lambda>h.
           let h = trim_trailing_dots h
           in if bad_dots h then Inr (None, nb)
              else if up_port u < 1 \<or> up_port u > 65535 then Inr (None, nb)
              else if hardcode_deny_ports cfg \<and> up_port u \<in> {7, 9, 19} then Inr (None, nb)
              else bindE (clean_path cfg (up_path u) nb) (\<lambda>(path, nb).
                case path of
                  None \<Rightarrow> Inr (None, nb)
                | Some path \<Rightarrow> Inr (Some (urlParseFinish ip m (up_protocol u) path h (up_login u) (up_port u)), nb))))"

text \<open>The whole routine: the request, the URL (which is cut when it is too long) and the escaping buffer.\<close>

definition urlParse :: "url_config \<Rightarrow> (string \<Rightarrow> string option) \<Rightarrow> http_method \<Rightarrow> string \<Rightarrow> nat \<Rightarrow> (url_request option \<times> string \<times> nat) outcome" where
  "urlParse cfg ip m url nb =
     (if length url + appendDomainLen cfg > MAX_URL - 1
      then guardE (MAX_URL div 2 \<le> length url) OutOfBounds (Inr (None, take (MAX_URL div 2) url, nb))
      else if m = METHOD_CONNECT
      then case scan_connect url of
          None \<Rightarrow> Inr (None, url, nb)
        | Some (h, port) \<Rightarrow>
            bindE (into_array h) (\<lambda>h.
            bindE (check_parts cfg ip m \<lparr>up_protocol = PROTO_NONE, up_path = [], up_host = h, up_login = [], up_port = port\<rparr> nb)
              (\<lambda>(r, nb). Inr (r, url, nb)))
      else if (m = METHOD_OPTIONS \<or> m = METHOD_TRACE) \<and> url = ''*''
      then Inr (Some (urlParseFinish ip m PROTO_HTTP url [] [] (urlDefaultPort PROTO_HTTP)), url, nb)
      else if prefix ''urn:'' url then Inr (Some (urnParse m url), url, nb)
      else bindE (split_url url) (\<lambda>u.
        case u of
          None \<Rightarrow> Inr (None, url, nb)
        | Some u \<Rightarrow> bindE (check_parts cfg ip m u nb) (\<lambda>(r, nb). Inr (r, url, nb))))"

section \<open>Printing\<close>

definition port_text :: "url_request \<Rightarrow> string" where
  "port_text r = (if uint (ur_port r) \<noteq> urlDefaultPort (ur_protocol r) then '':'' @ decimal (unat (ur_port r)) else [])"

text \<open>\<^verbatim>\<open>snprintf()\<close> into an array of \<^verbatim>\<open>MAX_URL\<close> bytes.\<close>

definition urlbuf_print :: "string \<Rightarrow> string" where
  "urlbuf_print s = take (MAX_URL - 1) s"

definition urlCanonical :: "url_request \<Rightarrow> string \<times> url_request" where
  "urlCanonical r =
     (case canonical r of
        Some c \<Rightarrow> (c, r)
      | None \<Rightarrow>
          let c = urlbuf_print
            (if ur_protocol r = PROTO_URN then ''urn:'' @ urlpath r
             else if ur_method r = METHOD_CONNECT then ur_host r @ '':'' @ decimal (unat (ur_port r))
             else const_str (ur_protocol r) @ ''://'' @ ur_login r @ (if ur_login r \<noteq> [] then ''@'' else []) @ ur_host r @ port_text r @ urlpath r)
          in (c, r\<lparr>canonical := Some c\<rparr>))"

definition urlCanonicalClean :: "url_config \<Rightarrow> url_request \<Rightarrow> nat \<Rightarrow> (string \<times> nat) outcome" where
  "urlCanonicalClean cfg r nb =
     (let login = (if ur_login r \<noteq> [] then takeWhile (\<lambda>c. c \<noteq> CHR '':'') (ur_login r) @ ''@'' else []);
          b = urlbuf_print
            (if ur_protocol r = PROTO_URN then ''urn:'' @ urlpath r
             else if ur_method r = METHOD_CONNECT then ur_host r @ '':'' @ decimal (unat (ur_port r))
             else const_str (ur_protocol r) @ ''://'' @ login @ ur_host r @ port_text r @ urlpath r);
          b = (if ur_protocol r \<noteq> PROTO_URN \<and> ur_method r \<noteq> METHOD_CONNECT \<and> strip_query_terms cfg \<and> CHR ''?'' \<in> set b
               then takeWhile (\<lambda>c. c \<noteq> CHR ''?'') b @ ''?'' else b)
      in if stringHasCntl b
         then bindE (rfc1738_do_escape rfc1738_escape_unescaped_flags b nb) (\<lambda>(t, nb). Inr (str_xstrncpy t MAX_URL, nb))
         else Inr (b, nb))"

definition urlCanonicalFakeHttps :: "url_config \<Rightarrow> url_request \<Rightarrow> nat \<Rightarrow> (string \<times> nat) outcome" where
  "urlCanonicalFakeHttps cfg r nb =
     (if ur_method r = METHOD_CONNECT \<and> ur_port r = 443 then Inr (urlbuf_print (''https://'' @ ur_host r @ ''/*''), nb)
      else urlCanonicalClean cfg r nb)"

section \<open>Relative URLs\<close>

definition urlIsRelative :: "string option \<Rightarrow> bool" where
  "urlIsRelative url =
     (case url of
        None \<Rightarrow> False
      | Some [] \<Rightarrow> False
      | Some u \<Rightarrow>
          (case dropWhile (\<lambda>c. c \<noteq> CHR '':'' \<and> c \<noteq> CHR ''/'') u of [] \<Rightarrow> True | c # cs \<Rightarrow> c \<noteq> CHR '':''))"

text \<open>The text in the new buffer and whether it has a terminator: \<^verbatim>\<open>strncpy()\<close> writes none when the source is too long.\<close>

definition urlMakeAbsolute :: "url_request \<Rightarrow> string \<Rightarrow> (string \<times> bool) option" where
  "urlMakeAbsolute r rel =
     (if ur_method r = METHOD_CONNECT then None
      else if ur_protocol r = PROTO_URN then Some (urlbuf_print (''urn:'' @ urlpath r), True)
      else
        let base = urlbuf_print (const_str (ur_protocol r) @ ''://'' @ ur_login r @ (if ur_login r \<noteq> [] then ''@'' else []) @ ur_host r @ port_text r);
            add = (\<lambda>b s. let n = MAX_URL - length b - 1 in (b @ take n s, length s < n))
        in if rel \<noteq> [] \<and> hd rel = CHR ''/'' then Some (add base rel)
           else if CHR ''/'' \<notin> set (urlpath r) then Some (add (base @ ''/'') rel)
           else let b = base @ take (MAX_URL - length base - 1) (before_last (CHR ''/'') (urlpath r) @ ''/'')
             in if length b + 1 < MAX_URL then Some (add b rel) else Some (b, False))"

section \<open>Domain names\<close>

function match_loop :: "string \<Rightarrow> string \<Rightarrow> nat \<Rightarrow> nat \<Rightarrow> int outcome" where
  "match_loop h d hl dl =
     (if hl = 0 \<or> dl = 0 then Inl OutOfBounds
      else let hl = hl - 1; dl = dl - 1 in
        if to_lower (h ! hl) = to_lower (d ! dl) then
          if hl = 0 \<and> dl = 0 then Inr 0
          else if hl = 0 then Inr (if dl = 1 \<and> d ! 0 = CHR ''.'' then 0 else -1)
          else if dl = 0 then Inr (if d ! 0 = CHR ''.'' then 0 else 1)
          else match_loop h d hl dl
        else if d ! dl = CHR ''.'' then Inr 1
        else if h ! hl = CHR ''.'' then Inr (-1)
        else Inr (int (code (to_lower (h ! hl))) - int (code (to_lower (d ! dl)))))"
  by auto
termination by (relation "measure (\<lambda>(h, d, hl, dl). hl)") auto

declare match_loop.simps [simp del]

definition matchDomainName :: "string \<Rightarrow> string \<Rightarrow> int outcome" where
  "matchDomainName h d = (let h = dropWhile (\<lambda>c. c = CHR ''.'') h in match_loop h d (length h) (length d))"

text \<open>The assertions at the start of the program.\<close>

fun assert_matches :: "(string \<times> string \<times> (int \<Rightarrow> bool)) list \<Rightarrow> unit outcome" where
  "assert_matches [] = Inr ()"
| "assert_matches ((h, d, P) # ts) = bindE (matchDomainName h d) (\<lambda>v. guardE (P v) AssertFault (assert_matches ts))"

definition urlInitialize :: "unit outcome" where
  "urlInitialize = assert_matches
    [(''foo.com'', ''foo.com'', (\<lambda>v. v = 0)),
     (''.foo.com'', ''foo.com'', (\<lambda>v. v = 0)),
     (''foo.com'', ''.foo.com'', (\<lambda>v. v = 0)),
     (''.foo.com'', ''.foo.com'', (\<lambda>v. v = 0)),
     (''x.foo.com'', ''.foo.com'', (\<lambda>v. v = 0)),
     (''x.foo.com'', ''foo.com'', (\<lambda>v. v \<noteq> 0)),
     (''foo.com'', ''x.foo.com'', (\<lambda>v. v \<noteq> 0)),
     (''bar.com'', ''foo.com'', (\<lambda>v. v \<noteq> 0)),
     (''.bar.com'', ''foo.com'', (\<lambda>v. v \<noteq> 0)),
     (''.bar.com'', ''.foo.com'', (\<lambda>v. v \<noteq> 0)),
     (''bar.com'', ''.foo.com'', (\<lambda>v. v \<noteq> 0)),
     (''zzz.com'', ''foo.com'', (\<lambda>v. v > 0)),
     (''aaa.com'', ''foo.com'', (\<lambda>v. v < 0)),
     (''FOO.com'', ''foo.COM'', (\<lambda>v. v = 0)),
     (''bfoo.com'', ''afoo.com'', (\<lambda>v. v > 0)),
     (''afoo.com'', ''bfoo.com'', (\<lambda>v. v < 0)),
     (''x-foo.com'', ''.foo.com'', (\<lambda>v. v > 0))]"

section \<open>Requests and host names\<close>

text \<open>\<open>mf\<close>: the value of the Max-Forwards header; \<open>ssl\<close>: the build option \<^verbatim>\<open>USE_SSL\<close>.\<close>

definition urlCheckRequest :: "bool \<Rightarrow> int \<Rightarrow> url_request \<Rightarrow> bool" where
  "urlCheckRequest ssl mf r =
     (if ur_method r = METHOD_CONNECT then True
      else if ur_method r = METHOD_OPTIONS \<or> ur_method r = METHOD_TRACE then mf = 0 \<or> urlpath r \<noteq> ''*''
      else if ur_method r = METHOD_PURGE then True
      else case ur_protocol r of
          PROTO_URN \<Rightarrow> True
        | PROTO_HTTP \<Rightarrow> True
        | PROTO_CACHE_OBJECT \<Rightarrow> True
        | PROTO_FTP \<Rightarrow> ur_method r = METHOD_PUT \<or> ur_method r = METHOD_GET \<or> ur_method r = METHOD_HEAD
        | PROTO_GOPHER \<Rightarrow> ur_method r = METHOD_GET \<or> ur_method r = METHOD_HEAD
        | PROTO_WAIS \<Rightarrow> ur_method r = METHOD_GET \<or> ur_method r = METHOD_HEAD
        | PROTO_WHOIS \<Rightarrow> ur_method r = METHOD_GET \<or> ur_method r = METHOD_HEAD
        | PROTO_HTTPS \<Rightarrow> ssl
        | _ \<Rightarrow> False)"

definition findHostStart :: "string \<Rightarrow> string option" where
  "findHostStart url =
     (case dropWhile (\<lambda>c. c \<noteq> CHR '':'') url of
        [] \<Rightarrow> None
      | c # s \<Rightarrow> let s = dropWhile (\<lambda>c. c = CHR ''/'') s in Some (if s \<noteq> [] \<and> hd s = CHR '']'' then tl s else s))"

definition trimTrailingChars :: "string \<Rightarrow> string" where
  "trimTrailingChars h =
     (let h = takeWhile (\<lambda>c. c \<noteq> CHR ''/'') h;
          h = (if CHR '':'' \<in> set h then before_last (CHR '':'') h else h)
      in takeWhile (\<lambda>c. c \<noteq> CHR '']'') h)"

definition trimAuth :: "string \<Rightarrow> string" where
  "trimAuth h = after_last (CHR ''@'') h"

definition urlHostname :: "string \<Rightarrow> string option" where
  "urlHostname url = (case findHostStart url of None \<Rightarrow> None | Some s \<Rightarrow> Some (trimAuth (trimTrailingChars (str_xstrncpy s SQUIDHOSTNAMELEN))))"

end
