(* ===== verification/Url_Parsing.thy ===== *)
theory Url_Parsing
  imports Url
begin

text \<open>
  Properties of the URL routines: parsing never leaves its arrays and returns only well-formed requests, a canonical URL is
  parsed back to the request it was made of, and domain names are compared as documented.
\<close>

section \<open>Domain names\<close>

abbreviation lower :: "string \<Rightarrow> string" where
  "lower s \<equiv> map to_lower s"

text \<open>A host is in a domain: it is the domain, or the domain starts with a dot and the host ends with it or is the rest of it.\<close>

definition in_domain :: "string \<Rightarrow> string \<Rightarrow> bool" where
  "in_domain h d \<longleftrightarrow> lower h = lower d \<or> (d \<noteq> [] \<and> hd d = CHR ''.'' \<and> (lower h = lower (tl d) \<or> suffix (lower d) (lower h)))"

lemma in_domain_snoc:
  "to_lower x \<noteq> to_lower y \<Longrightarrow> \<not> in_domain (A @ [x]) (B @ [y])"
  "to_lower x = to_lower y \<Longrightarrow> in_domain ([] @ [x]) ([] @ [y])"
  "to_lower x = to_lower y \<Longrightarrow> B \<noteq> [] \<Longrightarrow> in_domain ([] @ [x]) (B @ [y]) \<longleftrightarrow> length B = 1 \<and> hd B = CHR ''.''"
  "to_lower x = to_lower y \<Longrightarrow> A \<noteq> [] \<Longrightarrow> in_domain (A @ [x]) ([] @ [y]) \<longleftrightarrow> y = CHR ''.''"
  "to_lower x = to_lower y \<Longrightarrow> A \<noteq> [] \<Longrightarrow> B \<noteq> [] \<Longrightarrow> in_domain (A @ [x]) (B @ [y]) \<longleftrightarrow> in_domain A B"
proof -
  show "\<not> in_domain (A @ [x]) (B @ [y])" if "to_lower x \<noteq> to_lower y"
    using that by (cases B) (auto simp: in_domain_def suffix_def)
  show "in_domain ([] @ [x]) ([] @ [y])" if "to_lower x = to_lower y" using that by (simp add: in_domain_def)
  show "in_domain ([] @ [x]) (B @ [y]) \<longleftrightarrow> length B = 1 \<and> hd B = CHR ''.''" if "to_lower x = to_lower y" "B \<noteq> []"
    using that by (cases B) (auto simp: in_domain_def suffix_def dest: arg_cong [of _ _ length])
  show "in_domain (A @ [x]) ([] @ [y]) \<longleftrightarrow> y = CHR ''.''" if "to_lower x = to_lower y" "A \<noteq> []"
    using that by (auto simp: in_domain_def suffix_def)
  show "in_domain (A @ [x]) (B @ [y]) \<longleftrightarrow> in_domain A B" if "to_lower x = to_lower y" "A \<noteq> []" "B \<noteq> []"
    using that by (auto simp: in_domain_def)
qed

lemma match_loop_spec:
  assumes "hl \<le> length h" "dl \<le> length d" "0 < hl" "0 < dl"
  shows "\<exists>v. match_loop h d hl dl = Inr v \<and> (v = 0 \<longleftrightarrow> in_domain (take hl h) (take dl d))"
  using assms
proof (induction h d hl dl rule: match_loop.induct)
  case (1 h d hl dl)
  define a b where "a = hl - 1" and "b = dl - 1"
  have ab: "hl = Suc a" "dl = Suc b" "a < length h" "b < length d" using 1(2-5) by (auto simp: a_def b_def)
  have th: "take hl h = take a h @ [h ! a]" and td: "take dl d = take b d @ [d ! b]"
    using ab by (simp_all add: take_Suc_conv_app_nth)
  have d0: "hd (take b d) = d ! 0" if "0 < b" using that ab by (cases d) (auto simp: hd_conv_nth take_Cons')
  have unf: "match_loop h d hl dl = (if to_lower (h ! a) = to_lower (d ! b) then
      if a = 0 \<and> b = 0 then Inr 0 else if a = 0 then Inr (if b = 1 \<and> d ! 0 = CHR ''.'' then 0 else -1)
      else if b = 0 then Inr (if d ! 0 = CHR ''.'' then 0 else 1) else match_loop h d a b
    else if d ! b = CHR ''.'' then Inr 1 else if h ! a = CHR ''.'' then Inr (-1)
    else Inr (int (code (to_lower (h ! a))) - int (code (to_lower (d ! b)))))"
    using ab by (subst match_loop.simps) (simp add: Let_def)
  show ?case
  proof (cases "to_lower (h ! a) = to_lower (d ! b)")
    case False
    have "int (code (to_lower (h ! a))) - int (code (to_lower (d ! b))) \<noteq> 0"
      using False by (metis code_def char_of_char eq_iff_diff_eq_0 of_nat_eq_iff)
    then show ?thesis using False in_domain_snoc(1) [OF False] unfolding th td unf by simp
  next
    case True
    consider "a = 0" "b = 0" | "a = 0" "0 < b" | "0 < a" "b = 0" | "0 < a" "0 < b" by blast
    then show ?thesis
    proof cases
      case 1
      then show ?thesis using True in_domain_snoc(2) [OF True] unfolding th td unf by simp
    next
      case 2
      then have "take b d \<noteq> []" using ab by auto
      then show ?thesis using 2 True ab d0 in_domain_snoc(3) [OF True, of "take b d"] unfolding th td unf by auto
    next
      case 3
      then have "take a h \<noteq> []" using ab by auto
      then show ?thesis using 3 True ab in_domain_snoc(4) [OF True, of "take a h"] unfolding th td unf by auto
    next
      case 4
      then have "\<exists>v. match_loop h d a b = Inr v \<and> (v = 0 \<longleftrightarrow> in_domain (take a h) (take b d))"
        using ab True by (intro 1(1) [OF _ a_def b_def]) simp_all
      moreover have "take a h \<noteq> []" "take b d \<noteq> []" using 4 ab by auto
      ultimately show ?thesis using True 4 ab in_domain_snoc(5) [OF True, of "take a h" "take b d"] unfolding th td unf by auto
    qed
  qed
qed

text \<open>Inputs without characters make the routine read in front of the string.\<close>

lemma matchDomainName_spec:
  "if list_all (\<lambda>c. c = CHR ''.'') h \<or> d = [] then matchDomainName h d = Inl OutOfBounds
   else \<exists>v. matchDomainName h d = Inr v \<and> (v = 0 \<longleftrightarrow> in_domain (dropWhile (\<lambda>c. c = CHR ''.'') h) d)"
proof (cases "list_all (\<lambda>c. c = CHR ''.'') h \<or> d = []")
  case True
  then have "dropWhile (\<lambda>c. c = CHR ''.'') h = [] \<or> d = []" by (auto simp: list_all_iff)
  then show ?thesis using True by (auto simp: matchDomainName_def Let_def match_loop.simps)
next
  case False
  then have "dropWhile (\<lambda>c. c = CHR ''.'') h \<noteq> []" "d \<noteq> []" by (auto simp: list_all_iff)
  then show ?thesis using False match_loop_spec [of "length (dropWhile (\<lambda>c. c = CHR ''.'') h)" "dropWhile (\<lambda>c. c = CHR ''.'') h" "length d" d]
    by (simp add: matchDomainName_def Let_def)
qed

lemma urlInitialize_ok: "urlInitialize = Inr ()"
  by code_simp

section \<open>Lengths\<close>

lemma length_before_last: "length (before_last c s) \<le> length s"
  using length_dropWhile_le [of "\<lambda>x. x \<noteq> c" "rev s"] by (simp add: before_last_def)

lemma length_after_last: "length (after_last c s) \<le> length s"
  using length_takeWhile_le [of "\<lambda>x. x \<noteq> c" "rev s"] by (simp add: after_last_def)

lemma split_login_length: "split_login h = (l, h') \<Longrightarrow> length h' \<le> length h"
  by (auto simp: split_login_def length_after_last split: if_splits)

lemma split_host_length: "split_host h = (h', t) \<Longrightarrow> length h' \<le> length h"
  using length_takeWhile_le [of "\<lambda>c. c \<noteq> CHR '']''" "tl h"] length_takeWhile_le [of "\<lambda>c. c \<noteq> CHR '':''" h]
  by (auto simp: split_host_def Let_def split: if_splits)

lemma split_url_spec:
  assumes "length url < MAX_URL"
  shows "\<exists>u. split_url url = Inr u \<and> (\<forall>q. u = Some q \<longrightarrow> length (up_host q) \<le> length url \<and> length (up_path q) < MAX_URL)"
proof -
  define proto where "proto = takeWhile (\<lambda>c. c \<noteq> CHR '':'') url"
  define r where "r = drop (length proto) url"
  define h0 where "h0 = takeWhile (\<lambda>c. \<not> (c = CHR ''/'' \<or> c = CHR ''?'' \<or> c = CHR ''#'' \<or> xisspace c)) (drop 3 r)"
  define s where "s = drop (length h0) (drop 3 r)"
  define pre where "pre = (if s = [] \<or> hd s = CHR ''?'' \<or> hd s = CHR ''#'' then ''/'' else [])"
  define body where "body = takeWhile (\<lambda>c. c \<noteq> CHR 0x0D \<and> c \<noteq> CHR 0x0A) s"
  define path where "path = (if pre @ body = [] then ''/'' else pre @ body)"
  define pr where "pr = urlParseProtocol proto"
  have lp: "length proto \<le> length url" by (simp add: proto_def length_takeWhile_le)
  have unf: "split_url url = bindE (into_array proto) (\<lambda>proto.
      if r = [] \<or> \<not> prefix ''://'' r then Inr None
      else bindE (into_array h0) (\<lambda>h0. bindE (into_array path) (\<lambda>path.
        let (login, h1) = split_login h0; (h, t) = split_host h1
        in if pr \<noteq> PROTO_NONE \<and> (if h1 \<noteq> [] \<and> hd h1 = CHR ''['' then h else h1) = [] then Inr None
           else Inr (Some \<lparr>up_protocol = pr, up_path = path, up_host = h, up_login = login,
             up_port = (if t \<noteq> [] then atoi (tl t) else urlDefaultPort pr)\<rparr>))))"
    unfolding split_url_def Let_def proto_def [symmetric] r_def [symmetric] h0_def [symmetric] s_def [symmetric] pre_def [symmetric]
      body_def [symmetric] path_def [symmetric]
    unfolding into_array_def guardE_def pr_def using assms lp by simp
  show ?thesis
  proof (cases "r = [] \<or> \<not> prefix ''://'' r")
    case True
    then show ?thesis unfolding unf using assms lp by (simp add: into_array_def guardE_def)
  next
    case False
    then have "prefix ''://'' r" by blast
    then have "3 \<le> length r" using prefix_length_le [of "''://''" r] by simp
    moreover have "length r \<le> length url" by (simp add: r_def)
    moreover have lh: "length h0 \<le> length r - 3" unfolding h0_def by (metis length_drop length_takeWhile_le)
    moreover have ls: "length s = length r - 3 - length h0" by (simp add: s_def)
    moreover have "length body \<le> length s" by (simp add: body_def length_takeWhile_le)
    moreover have "length pre \<le> 1" by (simp add: pre_def)
    ultimately have lens: "length h0 < MAX_URL" "length path < MAX_URL" "length h0 \<le> length url"
      using assms by (auto simp: path_def)
    obtain login h1 where l: "split_login h0 = (login, h1)" by fastforce
    obtain h t where h: "split_host h1 = (h, t)" by fastforce
    have "length h \<le> length url" using split_login_length [OF l] split_host_length [OF h] lens(3) by linarith
    then show ?thesis unfolding unf using False assms lp lens l h by (simp add: into_array_def guardE_def)
  qed
qed

lemma scan_connect_length: "scan_connect url = Some (h, port) \<Longrightarrow> length h \<le> length url"
  using length_takeWhile_le [of "\<lambda>c. c \<noteq> CHR '']''" "tl url"] length_takeWhile_le [of "\<lambda>c. c \<noteq> CHR '':''" url]
  by (auto simp: scan_connect_def Let_def split: if_splits)

section \<open>The checks\<close>

lemma append_domain_spec:
  assumes "length h + appendDomainLen cfg < MAX_URL"
  shows "\<exists>h'. append_domain cfg h = Inr h'"
proof (cases "appendDomain cfg")
  case (Some d)
  have "length (h @ take n d) < MAX_URL" for n using assms by (simp add: appendDomainLen_def Some)
  then show ?thesis by (auto simp: append_domain_def Some into_array_def guardE_def)
qed (simp add: append_domain_def)

lemma clean_path_spec:
  assumes "escape_buf_ok nb" "length path < MAX_URL"
  shows "\<exists>p' nb'. clean_path cfg path nb = Inr (p', nb') \<and> escape_buf_ok nb' \<and> (\<forall>q. p' = Some q \<longrightarrow> length q < MAX_URL)"
proof -
  obtain nb' where "rfc1738_do_escape rfc1738_escape_unescaped_flags path nb = Inr (escaped rfc1738_escape_unescaped_flags path, nb')" "escape_buf_ok nb'"
    using do_escape_run [OF assms(1)] by blast
  moreover have "length (str_xstrncpy x MAX_URL) < MAX_URL" for x by (simp add: str_xstrncpy_def MAX_URL_def)
  moreover have "length (takeWhile P path) < MAX_URL" "length (filter P path) < MAX_URL" for P
    using assms(2) length_takeWhile_le [of P path] length_filter_le [of P path] by linarith+
  ultimately show ?thesis using assms by (cases "uri_whitespace_mode cfg") (auto simp: clean_path_def)
qed

definition request_ok :: "url_request \<Rightarrow> bool" where
  "request_ok q \<longleftrightarrow> length (ur_host q) < SQUIDHOSTNAMELEN \<and> length (ur_login q) < MAX_LOGIN_SZ \<and> length (urlpath q) < MAX_URL \<and>
     \<not> bad_dots (ur_host q) \<and> (ur_protocol q \<noteq> PROTO_URN \<longrightarrow> 1 \<le> uint (ur_port q))"

lemma bad_dots_take: "\<not> bad_dots h \<Longrightarrow> \<not> bad_dots (take n h)"
proof -
  assume h: "\<not> bad_dots h"
  have "sublist (take n h) h" by (simp add: sublist_order.order.trans take_is_prefix)
  then have "\<not> sublist ''..'' (take n h)" using h sublist_order.order.trans by (auto simp: bad_dots_def)
  moreover have "take n h = [] \<or> hd (take n h) = hd h" by (cases n; cases h) auto
  ultimately show ?thesis using h by (auto simp: bad_dots_def)
qed

text \<open>The names that numeric addresses are printed as.\<close>

definition ip_names :: "(string \<Rightarrow> string option) \<Rightarrow> bool" where
  "ip_names ip \<longleftrightarrow> (\<forall>s t. ip s = Some t \<longrightarrow> \<not> bad_dots t)"

lemma urlParseFinish_ok:
  assumes "ip_names ip" "\<not> bad_dots h" "length path < MAX_URL" "1 \<le> port" "port \<le> 65535"
  shows "request_ok (urlParseFinish ip m pr path h login port)"
proof -
  have "uint (of_int port :: 16 word) = port" using assms(4,5) by (simp add: uint_word_of_int_eq take_bit_int_eq_self)
  moreover have "\<not> bad_dots (case ip h of None \<Rightarrow> h | Some t \<Rightarrow> t)" using assms(1,2) by (auto simp: ip_names_def split: option.splits)
  ultimately show ?thesis using assms(3,4)
    by (simp add: request_ok_def urlParseFinish_def SetHost_def str_xstrncpy_def bad_dots_take MAX_LOGIN_SZ_def SQUIDHOSTNAMELEN_def min_less_iff_disj)
qed

lemma check_parts_spec:
  assumes "ip_names ip" "escape_buf_ok nb" "length (up_host u) + appendDomainLen cfg < MAX_URL" "length (up_path u) < MAX_URL"
  shows "\<exists>r nb'. check_parts cfg ip m u nb = Inr (r, nb') \<and> escape_buf_ok nb' \<and> (\<forall>q. r = Some q \<longrightarrow> request_ok q)"
proof -
  define h where "h = (if stringHasWhitespace (lower (up_host u)) \<and> uri_whitespace_mode cfg = URI_WHITESPACE_STRIP
    then filter (\<lambda>c. \<not> xisspace c) (lower (up_host u)) else lower (up_host u))"
  have "length h \<le> length (up_host u)" using length_filter_le [of "\<lambda>c. \<not> xisspace c" "lower (up_host u)"] by (auto simp: h_def)
  then obtain h' where h': "append_domain cfg h = Inr h'" using append_domain_spec [of h cfg] assms(3) by auto
  obtain p' nb' where p': "clean_path cfg (up_path u) nb = Inr (p', nb')" "escape_buf_ok nb'" "\<And>q. p' = Some q \<Longrightarrow> length q < MAX_URL"
    using clean_path_spec [OF assms(2,4), of cfg] by blast
  have fin: "request_ok (urlParseFinish ip m (up_protocol u) q (trim_trailing_dots h') (up_login u) (up_port u))"
    if "p' = Some q" "\<not> bad_dots (trim_trailing_dots h')" "1 \<le> up_port u" "up_port u \<le> 65535" for q
    using that assms(1) p'(3) by (intro urlParseFinish_ok) simp_all
  show ?thesis unfolding check_parts_def Let_def h_def [symmetric]
    using h' p'(1,2) assms(2) fin by (cases p') (auto simp: not_less)
qed

lemma urlParse_spec:
  assumes "ip_names ip" "escape_buf_ok nb" "appendDomainLen cfg < MAX_URL div 2"
  shows "\<exists>r url' nb'. urlParse cfg ip m url nb = Inr (r, url', nb') \<and> escape_buf_ok nb' \<and> length url' < MAX_URL \<and> (\<forall>q. r = Some q \<longrightarrow> request_ok q)"
proof (cases "length url + appendDomainLen cfg > MAX_URL - 1")
  case True
  then have "MAX_URL div 2 \<le> length url" using assms(3) by (simp add: MAX_URL_def)
  then show ?thesis using True assms(2) by (simp add: urlParse_def MAX_URL_def)
next
  case False
  then have len: "length url < MAX_URL" "length url + appendDomainLen cfg < MAX_URL" by (auto simp: MAX_URL_def)
  have urn: "request_ok (urnParse m url)" using len(1) by (simp add: request_ok_def urnParse_def SQUIDHOSTNAMELEN_def MAX_LOGIN_SZ_def bad_dots_def)
  have star: "request_ok (urlParseFinish ip m PROTO_HTTP ''*'' [] [] (urlDefaultPort PROTO_HTTP))"
    using assms(1) by (intro urlParseFinish_ok) (simp_all add: bad_dots_def MAX_URL_def)
  consider (connect) "m = METHOD_CONNECT"
    | (star) "m \<noteq> METHOD_CONNECT" "(m = METHOD_OPTIONS \<or> m = METHOD_TRACE) \<and> url = ''*''"
    | (urn) "m \<noteq> METHOD_CONNECT" "\<not> ((m = METHOD_OPTIONS \<or> m = METHOD_TRACE) \<and> url = ''*'')" "prefix ''urn:'' url"
    | (other) "m \<noteq> METHOD_CONNECT" "\<not> ((m = METHOD_OPTIONS \<or> m = METHOD_TRACE) \<and> url = ''*'')" "\<not> prefix ''urn:'' url" by blast
  then show ?thesis
  proof cases
    case connect
    show ?thesis
    proof (cases "scan_connect url")
      case None
      then show ?thesis using False connect assms(2) len by (simp add: urlParse_def)
    next
      case (Some hp)
      obtain h port where hp: "hp = (h, port)" by fastforce
      let ?u = "\<lparr>up_protocol = PROTO_NONE, up_path = [], up_host = h, up_login = [], up_port = port\<rparr>"
      have lh: "length h \<le> length url" using scan_connect_length Some hp by blast
      then have "length h + appendDomainLen cfg < MAX_URL" "length h < MAX_URL" "0 < MAX_URL" using len by linarith+
      then show ?thesis using False connect Some hp len check_parts_spec [OF assms(1,2), of ?u cfg m]
        by (auto simp: urlParse_def into_array_def guardE_def)
    qed
  next
    case star
    then show ?thesis using False assms(2) len \<open>request_ok (urlParseFinish ip m PROTO_HTTP ''*'' [] [] (urlDefaultPort PROTO_HTTP))\<close>
      by (auto simp: urlParse_def)
  next
    case urn
    then show ?thesis using False assms(2) len \<open>request_ok (urnParse m url)\<close> by (auto simp: urlParse_def)
  next
    case other
    obtain u where u: "split_url url = Inr u" "\<And>q. u = Some q \<Longrightarrow> length (up_host q) \<le> length url \<and> length (up_path q) < MAX_URL"
      using split_url_spec [OF len(1)] by blast
    have eq: "urlParse cfg ip m url nb = bindE (split_url url) (\<lambda>u. case u of None \<Rightarrow> Inr (None, url, nb)
        | Some u \<Rightarrow> bindE (check_parts cfg ip m u nb) (\<lambda>(r, nb). Inr (r, url, nb)))"
      unfolding urlParse_def using False other by auto
    show ?thesis
    proof (cases u)
      case None
      then show ?thesis unfolding eq u(1) using assms(2) len by simp
    next
      case (Some q)
      then have "length (up_host q) + appendDomainLen cfg < MAX_URL" "length (up_path q) < MAX_URL" using u(2) len(2) by (metis add_le_mono1 le_less_trans)+
      then show ?thesis unfolding eq u(1) using Some len check_parts_spec [OF assms(1,2), of q cfg m] by auto
    qed
  qed
qed

section \<open>Canonical URLs\<close>

definition url_scheme :: "protocol \<Rightarrow> bool" where
  "url_scheme p \<longleftrightarrow> p \<in> {PROTO_HTTP, PROTO_FTP, PROTO_HTTPS, PROTO_COAP, PROTO_COAPS, PROTO_GOPHER, PROTO_WAIS, PROTO_CACHE_OBJECT,
     PROTO_WHOIS, PROTO_INTERNAL}"

definition authority_char :: "char \<Rightarrow> bool" where
  "authority_char c \<longleftrightarrow> c \<noteq> CHR ''/'' \<and> c \<noteq> CHR ''?'' \<and> c \<noteq> CHR ''#'' \<and> \<not> xisspace c"

definition host_char :: "char \<Rightarrow> bool" where
  "host_char c \<longleftrightarrow> authority_char c \<and> c \<noteq> CHR ''@'' \<and> c \<noteq> CHR '':'' \<and> c \<noteq> CHR ''['' \<and> to_lower c = c"

text \<open>Requests whose parts can be told apart again in their URL.\<close>

definition url_wf :: "url_config \<Rightarrow> (string \<Rightarrow> string option) \<Rightarrow> url_request \<Rightarrow> bool" where
  "url_wf cfg ip r \<longleftrightarrow> ur_method r \<noteq> METHOD_CONNECT \<and> url_scheme (ur_protocol r) \<and> canonical r = None \<and>
     list_all host_char (ur_host r) \<and> ur_host r \<noteq> [] \<and> \<not> bad_dots (ur_host r) \<and> last (ur_host r) \<noteq> CHR ''.'' \<and>
     length (ur_host r) < SQUIDHOSTNAMELEN \<and> ip (ur_host r) = None \<and>
     (check_hostnames cfg \<longrightarrow> list_all (valid_hostname_char (allow_underscore cfg)) (ur_host r)) \<and>
     (appendDomain cfg = None \<or> CHR ''.'' \<in> set (ur_host r)) \<and>
     list_all authority_char (ur_login r) \<and> length (ur_login r) < MAX_LOGIN_SZ \<and>
     urlpath r \<noteq> [] \<and> hd (urlpath r) = CHR ''/'' \<and> \<not> stringHasWhitespace (urlpath r) \<and>
     1 \<le> uint (ur_port r) \<and> (hardcode_deny_ports cfg \<longrightarrow> uint (ur_port r) \<notin> {7, 9, 19})"

lemma url_wfD:
  assumes "url_wf cfg ip r"
  shows "ur_method r \<noteq> METHOD_CONNECT" "url_scheme (ur_protocol r)" "canonical r = None" "list_all host_char (ur_host r)" "ur_host r \<noteq> []"
    "\<not> bad_dots (ur_host r)" "last (ur_host r) \<noteq> CHR ''.''" "length (ur_host r) < SQUIDHOSTNAMELEN" "ip (ur_host r) = None"
    "check_hostnames cfg \<Longrightarrow> list_all (valid_hostname_char (allow_underscore cfg)) (ur_host r)"
    "appendDomain cfg = None \<or> CHR ''.'' \<in> set (ur_host r)"
    "list_all authority_char (ur_login r)" "length (ur_login r) < MAX_LOGIN_SZ" "urlpath r \<noteq> []" "hd (urlpath r) = CHR ''/''"
    "\<not> stringHasWhitespace (urlpath r)" "1 \<le> uint (ur_port r)" "hardcode_deny_ports cfg \<Longrightarrow> uint (ur_port r) \<notin> {7, 9, 19}"
  using assms unfolding url_wf_def by blast+

definition authority :: "url_request \<Rightarrow> string" where
  "authority r = ur_login r @ (if ur_login r \<noteq> [] then ''@'' else []) @ ur_host r @ port_text r"

lemma scheme_names: "const_str PROTO_HTTP = ''http''" "const_str PROTO_FTP = ''ftp''" "const_str PROTO_HTTPS = ''https''"
    "const_str PROTO_COAP = ''coap''" "const_str PROTO_COAPS = ''coaps''" "const_str PROTO_GOPHER = ''gopher''" "const_str PROTO_WAIS = ''wais''"
    "const_str PROTO_CACHE_OBJECT = ''cache_object''" "const_str PROTO_WHOIS = ''whois''" "const_str PROTO_INTERNAL = ''internal''"
  by code_simp+

lemma scheme_cases:
  assumes "url_scheme p"
  obtains "p = PROTO_HTTP" | "p = PROTO_FTP" | "p = PROTO_HTTPS" | "p = PROTO_COAP" | "p = PROTO_COAPS" | "p = PROTO_GOPHER" | "p = PROTO_WAIS"
    | "p = PROTO_CACHE_OBJECT" | "p = PROTO_WHOIS" | "p = PROTO_INTERNAL"
  using assms unfolding url_scheme_def by blast

lemma scheme_parse:
  assumes "url_scheme p"
  shows "urlParseProtocol (const_str p) = p"
proof -
  have "urlParseProtocol ''http'' = PROTO_HTTP" "urlParseProtocol ''ftp'' = PROTO_FTP" "urlParseProtocol ''https'' = PROTO_HTTPS"
    "urlParseProtocol ''coap'' = PROTO_COAP" "urlParseProtocol ''coaps'' = PROTO_COAPS" "urlParseProtocol ''gopher'' = PROTO_GOPHER"
    "urlParseProtocol ''wais'' = PROTO_WAIS" "urlParseProtocol ''cache_object'' = PROTO_CACHE_OBJECT"
    "urlParseProtocol ''whois'' = PROTO_WHOIS" "urlParseProtocol ''internal'' = PROTO_INTERNAL"
    by code_simp+
  then show ?thesis using assms by (elim scheme_cases) (simp_all only: scheme_names)
qed

lemma scheme_chars:
  assumes "url_scheme p"
  shows "CHR '':'' \<notin> set (const_str p)" "const_str p \<noteq> []" "hd (const_str p) \<noteq> CHR ''u''" "hd (const_str p) \<noteq> CHR ''*''"
  using assms by (elim scheme_cases; simp add: scheme_names)+

text \<open>White space among the characters of URLs.\<close>

lemma not_space [simp]: "\<not> xisspace (CHR '':'')" "\<not> xisspace (CHR ''@'')" "\<not> xisspace (CHR ''/'')"
  by code_simp+

lemma w_space_xisspace: "w_space c \<Longrightarrow> xisspace c"
  by (auto simp: w_space_def xisspace_def)

lemma decimal_chars: "c \<in> set (decimal n) \<Longrightarrow> authority_char c \<and> c \<noteq> CHR ''@'' \<and> c \<noteq> CHR '':''"
proof -
  assume "c \<in> set (decimal n)"
  then have d: "is_digit c" using decimal_digits [of n] by (auto simp: list_all_iff)
  then show ?thesis using digit_plain [OF d] by (auto simp: is_digit_def authority_char_def)
qed

lemma atoi_decimal: "n < 65536 \<Longrightarrow> atoi (decimal n) = int n"
proof -
  assume n: "n < 65536"
  have hd: "\<not> xisspace (hd (decimal n))" "hd (decimal n) \<noteq> CHR ''-''" "hd (decimal n) \<noteq> CHR ''+''"
    using digit_plain [OF hd_decimal] by auto
  have ne: "decimal n \<noteq> []" using hd_decimal [of n] by simp
  have dw: "dropWhile xisspace (decimal n) = decimal n" using hd(1) by (cases "decimal n") auto
  have tw: "takeWhile is_digit (decimal n) = decimal n" using takeWhile_decimal [of "[]" n] by simp
  have sg: "sint (word_of_int (int n) :: 32 word) = int n" using n by (simp add: signed_of_int signed_take_bit_int_eq_self del: of_int_of_nat_eq)
  have "strtol10 (decimal n) = Some (min (2 ^ 63 - 1) (digits_value (decimal n)))"
    unfolding strtol10_def Let_def dw using hd ne by (simp only: tw if_False simp_thms)
  then have "strtol10 (decimal n) = Some (int n)" using n by simp
  then show ?thesis unfolding atoi_def as_int_def using sg by simp
qed

lemma takeWhile_stop: "list_all P xs \<Longrightarrow> \<not> P (hd (y # ys)) \<Longrightarrow> takeWhile P (xs @ y # ys) = xs"
  by (induction xs) auto

lemma after_last_append: "c \<notin> set h \<Longrightarrow> after_last c (l @ c # h) = h"
proof -
  assume "c \<notin> set h"
  then have "takeWhile (\<lambda>x. x \<noteq> c) (rev h @ c # rev l) = rev h" by (intro takeWhile_stop) (auto simp: list_all_iff)
  then show ?thesis by (simp add: after_last_def)
qed

lemma before_last_append: "c \<notin> set h \<Longrightarrow> before_last c (l @ c # h) = l"
proof -
  assume "c \<notin> set h"
  then have "dropWhile (\<lambda>x. x \<noteq> c) (rev h @ c # rev l) = c # rev l" by (subst dropWhile_append2) auto
  then show ?thesis by (simp add: before_last_def)
qed

lemma port_text_chars: "c \<in> set (port_text r) \<Longrightarrow> authority_char c \<and> c \<noteq> CHR ''@''"
  using decimal_chars [of c "unat (ur_port r)"] by (auto simp: port_text_def authority_char_def split: if_splits)

lemma split_login_authority:
  assumes "list_all host_char h"
  shows "split_login (login @ (if login \<noteq> [] then ''@'' else []) @ h @ port_text r) = (login, h @ port_text r)"
proof -
  have "CHR ''@'' \<notin> set (h @ port_text r)" using assms port_text_chars by (auto simp: list_all_iff host_char_def)
  then show ?thesis using after_last_append [of _ "h @ port_text r" login] before_last_append [of _ "h @ port_text r" login]
    by (auto simp: split_login_def)
qed

lemma split_host_authority:
  assumes "list_all host_char h" "h \<noteq> []"
  shows "split_host (h @ port_text r) = (h, port_text r)"
proof -
  have h: "hd (h @ x) \<noteq> CHR ''[''" for x using assms by (cases h) (auto simp: host_char_def)
  have c: "filter (\<lambda>c. c = CHR '':'') h = []" "list_all (\<lambda>c. c \<noteq> CHR '':'') h"
    using assms(1) by (auto simp: filter_empty_conv list_all_iff host_char_def)
  have d: "filter (\<lambda>c. c = CHR '':'') (decimal n) = []" for n using decimal_chars by (auto simp: filter_empty_conv)
  have tw: "takeWhile (\<lambda>c. c \<noteq> CHR '':'') (h @ CHR '':'' # x) = h" for x by (rule takeWhile_stop [OF c(2)]) simp
  have dw: "dropWhile (\<lambda>c. c \<noteq> CHR '':'') (h @ CHR '':'' # x) = CHR '':'' # x" for x
    using c(2) by (subst dropWhile_append2) (auto simp: list_all_iff)
  show ?thesis using h [of "port_text r"] h [of "[]"] c(1) d tw dw by (auto simp: split_host_def port_text_def)
qed

lemma trim_trailing_dots_id: "h \<noteq> [] \<Longrightarrow> last h \<noteq> CHR ''.'' \<Longrightarrow> trim_trailing_dots h = h"
  by (cases h rule: rev_cases) (auto simp: trim_trailing_dots_def)

lemma authority_chars:
  assumes "url_wf cfg ip r" "c \<in> set (authority r)"
  shows "authority_char c"
proof -
  have "authority_char (CHR ''@'')" by (simp add: authority_char_def)
  moreover have "c \<in> set (ur_login r) \<or> c = CHR ''@'' \<or> c \<in> set (ur_host r) \<or> c \<in> set (port_text r)"
    using assms(2) by (auto simp: authority_def split: if_splits)
  ultimately show ?thesis using url_wfD(4,12) [OF assms(1)] port_text_chars [of c r] unfolding list_all_iff host_char_def by blast
qed

lemma path_line: "\<not> stringHasWhitespace p \<Longrightarrow> takeWhile (\<lambda>c. c \<noteq> CHR 0x0D \<and> c \<noteq> CHR 0x0A) p = p"
  by (induction p) (auto simp: stringHasWhitespace_def w_space_def)

lemma split_url_canonical:
  assumes wf: "url_wf cfg ip r" and len: "length url < MAX_URL" and url: "url = const_str (ur_protocol r) @ ''://'' @ authority r @ urlpath r"
  shows "split_url url = Inr (Some \<lparr>up_protocol = ur_protocol r, up_path = urlpath r, up_host = ur_host r, up_login = ur_login r, up_port = uint (ur_port r)\<rparr>)"
proof -
  let ?p = "ur_protocol r"
  obtain ps where path: "urlpath r = CHR ''/'' # ps" using url_wfD(14,15) [OF wf] by (cases "urlpath r") auto
  have sch: "urlParseProtocol (const_str ?p) = ?p" "list_all (\<lambda>c. c \<noteq> CHR '':'') (const_str ?p)" "const_str ?p \<noteq> []"
    using scheme_parse [of ?p] scheme_chars [of ?p] url_wfD(2) [OF wf] by (auto simp: list_all_iff)
  have proto: "takeWhile (\<lambda>c. c \<noteq> CHR '':'') url = const_str ?p"
    using takeWhile_stop [OF sch(2), of "CHR '':''" "''//'' @ authority r @ urlpath r"] by (simp add: url)
  have h0: "takeWhile (\<lambda>c. \<not> (c = CHR ''/'' \<or> c = CHR ''?'' \<or> c = CHR ''#'' \<or> xisspace c)) (authority r @ CHR ''/'' # ps) = authority r"
    using authority_chars [OF wf] by (intro takeWhile_stop) (auto simp: list_all_iff authority_char_def)
  have body: "takeWhile (\<lambda>c. c \<noteq> CHR 0x0D \<and> c \<noteq> CHR 0x0A) (CHR ''/'' # ps) = CHR ''/'' # ps"
    using path_line [OF url_wfD(16) [OF wf]] unfolding path .
  have host: "list_all host_char (ur_host r)" "ur_host r \<noteq> []" using url_wfD(4,5) [OF wf] by auto
  have login: "split_login (authority r) = (ur_login r, ur_host r @ port_text r)"
    unfolding authority_def by (rule split_login_authority [OF host(1)])
  have hd: "hd (ur_host r @ x) \<noteq> CHR ''[''" for x using host by (cases "ur_host r") (auto simp: host_char_def)
  have port: "(if port_text r \<noteq> [] then atoi (tl (port_text r)) else urlDefaultPort ?p) = uint (ur_port r)"
    using atoi_decimal [of "unat (ur_port r)"] unsigned_less [of "ur_port r"] by (auto simp: port_text_def)
  have fits: "length (const_str ?p) < MAX_URL" "length (authority r) < MAX_URL" "length (CHR ''/'' # ps) < MAX_URL"
    using len by (auto simp: url path)
  have d1: "drop (length (const_str ?p)) url = ''://'' @ authority r @ CHR ''/'' # ps" by (simp add: url path)
  have d2: "drop (length (authority r)) (authority r @ CHR ''/'' # ps) = CHR ''/'' # ps" by simp
  have d3: "drop 3 (''://'' @ x) = x" for x :: string by simp
  show ?thesis unfolding split_url_def Let_def proto d1 d3 h0 d2 body
    using fits sch(1) host hd port login split_host_authority [OF host, of r]
    by (cases "port_text r = []") (simp_all add: into_array_def guardE_def path)
qed

lemma check_parts_wf:
  assumes "url_wf cfg ip r"
  shows "check_parts cfg ip (ur_method r) \<lparr>up_protocol = ur_protocol r, up_path = urlpath r, up_host = ur_host r, up_login = ur_login r,
    up_port = uint (ur_port r)\<rparr> nb = Inr (Some r, nb)"
proof -
  note wf = url_wfD [OF assms]
  have lower: "map to_lower (ur_host r) = ur_host r" using wf(4) by (auto simp: list_all_iff host_char_def intro: map_idI)
  have ws: "\<not> stringHasWhitespace (ur_host r)"
    using wf(4) w_space_xisspace by (auto simp: list_all_iff host_char_def authority_char_def stringHasWhitespace_def list_ex_iff)
  have dom: "append_domain cfg (ur_host r) = Inr (ur_host r)" using wf(11) by (auto simp: append_domain_def split: option.splits)
  have port: "uint (ur_port r) \<le> 65535" using uint_lt2p [of "ur_port r"] by simp
  have path: "clean_path cfg (urlpath r) nb = Inr (Some (urlpath r), nb)" using wf(16) by (simp add: clean_path_def)
  have fin: "urlParseFinish ip (ur_method r) (ur_protocol r) (urlpath r) (ur_host r) (ur_login r) (uint (ur_port r)) = r"
    using wf(3,8,9,13) by (simp add: urlParseFinish_def SetHost_def str_xstrncpy_def MAX_LOGIN_SZ_def SQUIDHOSTNAMELEN_def)
  show ?thesis unfolding check_parts_def Let_def using wf(10,18)
    by (simp add: lower ws dom trim_trailing_dots_id [OF wf(5,7)] wf(6,17) not_less port path fin)
qed

definition canonical_text :: "url_request \<Rightarrow> string" where
  "canonical_text r = const_str (ur_protocol r) @ ''://'' @ authority r @ urlpath r"

lemma urlCanonical_text:
  assumes "url_wf cfg ip r" "length (canonical_text r) < MAX_URL"
  shows "fst (urlCanonical r) = canonical_text r"
proof -
  have "ur_protocol r \<noteq> PROTO_URN" using url_wfD(2) [OF assms(1)] by (auto simp: url_scheme_def)
  then show ?thesis using url_wfD(1,3) [OF assms(1)] assms(2)
    by (auto simp: urlCanonical_def Let_def urlbuf_print_def canonical_text_def authority_def)
qed

lemma parse_canonical:
  assumes wf: "url_wf cfg ip r" and len: "length (canonical_text r) + appendDomainLen cfg < MAX_URL"
  shows "urlParse cfg ip (ur_method r) (canonical_text r) nb = Inr (Some r, canonical_text r, nb)"
proof -
  have sch: "const_str (ur_protocol r) \<noteq> []" "hd (const_str (ur_protocol r)) \<noteq> CHR ''u''" "hd (const_str (ur_protocol r)) \<noteq> CHR ''*''"
    using scheme_chars [OF url_wfD(2) [OF wf]] by auto
  have "hd (canonical_text r) = hd (const_str (ur_protocol r))" using sch(1) by (simp add: canonical_text_def)
  then have "canonical_text r \<noteq> ''*''" "\<not> prefix ''urn:'' (canonical_text r)" using sch by (auto simp: prefix_def)
  moreover have "\<not> MAX_URL - 1 < length (canonical_text r) + appendDomainLen cfg" "length (canonical_text r) < MAX_URL" using len by linarith+
  ultimately show ?thesis
    using url_wfD(1) [OF wf] split_url_canonical [OF wf _ canonical_text_def] check_parts_wf [OF wf]
    unfolding urlParse_def by simp
qed


definition demo_cfg :: url_config where
  "demo_cfg = \<lparr>appendDomain = Some ''.example.com'', check_hostnames = True, allow_underscore = True, uri_whitespace_mode = URI_WHITESPACE_STRIP,
     hardcode_deny_ports = False, strip_query_terms = True\<rparr>"



definition demo_request :: url_request where
  "demo_request = \<lparr>ur_method = METHOD_GET, ur_protocol = PROTO_FTP, urlpath = ''/pub/x?y'', ur_host = ''ftp.example.com'', ur_login = ''me:pw'',
     ur_port = 2121, canonical = None\<rparr>"


text \<open>
  Host names are compared with domain names as documented.  \<^verbatim>\<open>matchDomainName()\<close> answers 0 exactly when the host, without
  leading dots and regardless of case, is the domain, or the domain starts with a dot and the host ends with it or is the
  rest of it.  It reads in front of its argument exactly when the host has no character but dots or the domain is empty.
\<close>

theorem match_domain_exact:
  "(matchDomainName h d = Inl OutOfBounds \<longleftrightarrow> list_all (\<lambda>c. c = CHR ''.'') h \<or> d = []) \<and>
   (matchDomainName h d = Inr 0 \<longleftrightarrow> \<not> list_all (\<lambda>c. c = CHR ''.'') h \<and> d \<noteq> [] \<and> in_domain (dropWhile (\<lambda>c. c = CHR ''.'') h) d)"
proof (cases "list_all (\<lambda>c. c = CHR ''.'') h \<or> d = []")
  case True
  then have "matchDomainName h d = Inl OutOfBounds" using matchDomainName_spec [of h d] by simp
  then show ?thesis using True by auto
next
  case False
  then obtain v where "matchDomainName h d = Inr v" "v = 0 \<longleftrightarrow> in_domain (dropWhile (\<lambda>c. c = CHR ''.'') h) d"
    using matchDomainName_spec [of h d] by auto
  then show ?thesis using False by auto
qed

section \<open>Escaping\<close>

definition visible :: "char \<Rightarrow> bool" where
  "visible c \<longleftrightarrow> 0x21 \<le> code c \<and> code c \<le> 0x7E"

lemma escape_char_visible:
  assumes "esc_ctrls fl" "esc_unsafe fl" "\<not> esc_nospace fl"
  shows "list_all visible (escape_char fl c)"
proof -
  have "visible (hex_upper n)" if "n < 16" for n using that by (simp add: visible_def code_hex_upper)
  moreover have "code c div 16 < 16" "code c mod 16 < 16" using code_lt [of c] by auto
  moreover have "visible (CHR ''%'')" by code_simp
  moreover have "visible c" if "alnum_char c" using that by (auto simp: visible_def alnum_char_def)
  moreover have "visible c" if "\<not> do_escape fl c"
    using that assms code_lt [of c] by (auto simp: visible_def do_escape_def Let_def schar_def split: if_splits)
  ultimately show ?thesis by (simp add: escape_char_def)
qed

text \<open>
  Escaping loses nothing and hides nothing.  Whatever the size of the buffer left by earlier calls, \<^verbatim>\<open>rfc1738_escape()\<close> and
  \<^verbatim>\<open>rfc1738_escape_part()\<close> write inside it; the result has only visible ASCII characters, and \<^verbatim>\<open>rfc1738_unescape()\<close> gives the
  original string back.
\<close>

theorem rfc1738_roundtrip:
  assumes "escape_buf_ok n" "CHR 0x00 \<notin> set s" "fl = rfc1738_escape_flags \<or> fl = rfc1738_escape_part_flags"
  shows "\<exists>t n'. rfc1738_do_escape fl s n = Inr (t, n') \<and> escape_buf_ok n' \<and> list_all visible t \<and> rfc1738_unescape t = s"
proof -
  have fl: "esc_ctrls fl" "esc_unsafe fl" "\<not> esc_nospace fl" "\<not> esc_nopercent fl"
    using assms(3) by (auto simp: rfc1738_escape_flags_def rfc1738_escape_part_flags_def)
  have "list_all visible (escaped fl s)" using escape_char_visible [OF fl(1-3)] by (auto simp: escaped_def list_all_iff)
  then show ?thesis using do_escape_run [OF assms(1), of fl s] unescape_escaped [OF fl(2,4) assms(2)] by blast
qed

theorem rfc1738_roundtrip_witness:
  "\<exists>t n'. rfc1738_do_escape rfc1738_escape_part_flags ''50% of a/b?'' 4 = Inr (t, n') \<and> escape_buf_ok n' \<and> list_all visible t \<and>
     rfc1738_unescape t = ''50% of a/b?''"
  using rfc1738_roundtrip [of 4 "''50% of a/b?''" rfc1738_escape_part_flags] by (simp add: escape_buf_ok_def)

section \<open>What the routines accept\<close>

text \<open>Any beginning of the name of a scheme is taken for the scheme, the empty one included.\<close>

lemma scheme_prefix_accepted:
  assumes "prefix b ''http''"
  shows "urlParseProtocol b = PROTO_HTTP"
proof -
  have tk: "take (length b) ''http'' = b" using assms by (auto simp: prefix_def)
  have "list_all (\<lambda>c. c \<noteq> CHR '':'') b" using set_mono_prefix [OF assms] by (auto simp: list_all_iff)
  then have tw: "takeWhile (\<lambda>c. c \<noteq> CHR '':'') b = b" by (induction b) auto
  show ?thesis unfolding urlParseProtocol_def tw Let_def by (simp add: same_prefix_def tk)
qed

text \<open>A URL with a port but no host passes the check for empty host names, which looks at host and port.\<close>

lemma empty_host_accepted:
  "urlParse (demo_cfg\<lparr>appendDomain := None\<rparr>) (\<lambda>_. None) METHOD_GET ''http://:80/'' 0 =
     Inr (Some \<lparr>ur_method = METHOD_GET, ur_protocol = PROTO_HTTP, urlpath = ''/'', ur_host = [], ur_login = [], ur_port = 80, canonical = None\<rparr>,
       ''http://:80/'', 0)"
  by code_simp

text \<open>With white space stripped, what follows the host without a slash becomes part of the host in the canonical URL.\<close>

lemma stripped_path_joins_host:
  "case urlParse demo_cfg (\<lambda>_. None) METHOD_GET ''http://www.a.com b.com/'' 0 of
     Inr (Some r, _) \<Rightarrow> ur_host r = ''www.a.com'' \<and> fst (urlCanonical r) = ''http://www.a.comb.com/''
   | _ \<Rightarrow> False"
  by code_simp

text \<open>A port beyond the range of \<^verbatim>\<open>int\<close> wraps around into it.\<close>

lemma port_wraps: "scan_connect ''h:4294967376'' = Some (''h'', 80)"
  by code_simp

text \<open>\<^verbatim>\<open>urlHostname()\<close> keeps the bracket of a numeric IPv6 host and cuts the address at its last colon.\<close>

lemma hostname_bracket: "urlHostname ''http://[2001:db8::1]/'' = Some ''[2001:db8:''"
  by code_simp

end
