(* ===== verification/Header_Ids.thy ===== *)
theory Header_Ids
  imports Main
begin

text \<open>
  The header fields the program knows: the enumeration \<^verbatim>\<open>http_hdr_type\<close> of \<^verbatim>\<open>src/HttpHeader.h\<close> in its order, with the fields of
  all build options, and the tables of \<^verbatim>\<open>src/HttpHeader.cc\<close>.  \<^verbatim>\<open>HDR_BAD_HDR\<close> is the value \<open>None\<close> where it can occur.
\<close>

section \<open>Fields\<close>

datatype (plugins only: code) http_hdr_type = HDR_ACCEPT | HDR_ACCEPT_CHARSET | HDR_ACCEPT_ENCODING | HDR_ACCEPT_LANGUAGE | HDR_ACCEPT_RANGES | HDR_AGE |
  HDR_ALLOW | HDR_AUTHORIZATION | HDR_CACHE_CONTROL | HDR_CONNECTION | HDR_CONTENT_BASE | HDR_CONTENT_DISPOSITION | HDR_CONTENT_ENCODING |
  HDR_CONTENT_LANGUAGE | HDR_CONTENT_LENGTH | HDR_CONTENT_LOCATION | HDR_CONTENT_MD5 | HDR_CONTENT_RANGE | HDR_CONTENT_TYPE | HDR_COOKIE |
  HDR_COOKIE2 | HDR_DATE | HDR_ETAG | HDR_EXPECT | HDR_EXPIRES | HDR_FROM | HDR_HOST | HDR_IF_MATCH | HDR_IF_MODIFIED_SINCE |
  HDR_IF_NONE_MATCH | HDR_IF_RANGE | HDR_KEEP_ALIVE | HDR_LAST_MODIFIED | HDR_LINK | HDR_LOCATION | HDR_MAX_FORWARDS | HDR_MIME_VERSION |
  HDR_NEGOTIATE | HDR_ORIGIN | HDR_PRAGMA | HDR_PROXY_AUTHENTICATE | HDR_PROXY_AUTHENTICATION_INFO | HDR_PROXY_AUTHORIZATION |
  HDR_PROXY_CONNECTION | HDR_PROXY_SUPPORT | HDR_PUBLIC | HDR_RANGE | HDR_REFERER | HDR_REQUEST_RANGE | HDR_RETRY_AFTER | HDR_SERVER |
  HDR_SET_COOKIE | HDR_SET_COOKIE2 | HDR_TE | HDR_TITLE | HDR_TRAILER | HDR_TRANSFER_ENCODING | HDR_TRANSLATE | HDR_UNLESS_MODIFIED_SINCE |
  HDR_UPGRADE | HDR_USER_AGENT | HDR_VARY | HDR_VIA | HDR_WARNING | HDR_WWW_AUTHENTICATE | HDR_AUTHENTICATION_INFO | HDR_X_CACHE |
  HDR_X_CACHE_LOOKUP | HDR_X_FORWARDED_FOR | HDR_X_REQUEST_URI | HDR_X_SQUID_ERROR | HDR_X_ACCELERATOR_VARY | HDR_X_NEXT_SERVICES |
  HDR_SURROGATE_CAPABILITY | HDR_SURROGATE_CONTROL | HDR_FRONT_END_HTTPS | HDR_OTHER

datatype field_type = ftInt | ftInt64 | ftStr | ftDate_1123 | ftETag | ftPCc | ftPContRange | ftPRange | ftPSc | ftDate_1123_or_ETag

section \<open>Tables\<close>

text \<open>For every field its name and the type of its value.  No header field is named like the last entry, whose name
  contains a colon.\<close>

definition HeadersAttrs :: "(http_hdr_type \<times> string \<times> field_type) list" where
  "HeadersAttrs =
    [(HDR_ACCEPT, ''Accept'', ftStr),
     (HDR_ACCEPT_CHARSET, ''Accept-Charset'', ftStr),
     (HDR_ACCEPT_ENCODING, ''Accept-Encoding'', ftStr),
     (HDR_ACCEPT_LANGUAGE, ''Accept-Language'', ftStr),
     (HDR_ACCEPT_RANGES, ''Accept-Ranges'', ftStr),
     (HDR_AGE, ''Age'', ftInt),
     (HDR_ALLOW, ''Allow'', ftStr),
     (HDR_AUTHORIZATION, ''Authorization'', ftStr),
     (HDR_CACHE_CONTROL, ''Cache-Control'', ftPCc),
     (HDR_CONNECTION, ''Connection'', ftStr),
     (HDR_CONTENT_BASE, ''Content-Base'', ftStr),
     (HDR_CONTENT_DISPOSITION, ''Content-Disposition'', ftStr),
     (HDR_CONTENT_ENCODING, ''Content-Encoding'', ftStr),
     (HDR_CONTENT_LANGUAGE, ''Content-Language'', ftStr),
     (HDR_CONTENT_LENGTH, ''Content-Length'', ftInt64),
     (HDR_CONTENT_LOCATION, ''Content-Location'', ftStr),
     (HDR_CONTENT_MD5, ''Content-MD5'', ftStr),
     (HDR_CONTENT_RANGE, ''Content-Range'', ftPContRange),
     (HDR_CONTENT_TYPE, ''Content-Type'', ftStr),
     (HDR_COOKIE, ''Cookie'', ftStr),
     (HDR_COOKIE2, ''Cookie2'', ftStr),
     (HDR_DATE, ''Date'', ftDate_1123),
     (HDR_ETAG, ''ETag'', ftETag),
     (HDR_EXPECT, ''Expect'', ftStr),
     (HDR_EXPIRES, ''Expires'', ftDate_1123),
     (HDR_FROM, ''From'', ftStr),
     (HDR_HOST, ''Host'', ftStr),
     (HDR_IF_MATCH, ''If-Match'', ftStr),
     (HDR_IF_MODIFIED_SINCE, ''If-Modified-Since'', ftDate_1123),
     (HDR_IF_NONE_MATCH, ''If-None-Match'', ftStr),
     (HDR_IF_RANGE, ''If-Range'', ftDate_1123_or_ETag),
     (HDR_KEEP_ALIVE, ''Keep-Alive'', ftStr),
     (HDR_LAST_MODIFIED, ''Last-Modified'', ftDate_1123),
     (HDR_LINK, ''Link'', ftStr),
     (HDR_LOCATION, ''Location'', ftStr),
     (HDR_MAX_FORWARDS, ''Max-Forwards'', ftInt64),
     (HDR_MIME_VERSION, ''Mime-Version'', ftStr),
     (HDR_NEGOTIATE, ''Negotiate'', ftStr),
     (HDR_ORIGIN, ''Origin'', ftStr),
     (HDR_PRAGMA, ''Pragma'', ftStr),
     (HDR_PROXY_AUTHENTICATE, ''Proxy-Authenticate'', ftStr),
     (HDR_PROXY_AUTHENTICATION_INFO, ''Proxy-Authentication-Info'', ftStr),
     (HDR_PROXY_AUTHORIZATION, ''Proxy-Authorization'', ftStr),
     (HDR_PROXY_CONNECTION, ''Proxy-Connection'', ftStr),
     (HDR_PROXY_SUPPORT, ''Proxy-support'', ftStr),
     (HDR_PUBLIC, ''Public'', ftStr),
     (HDR_RANGE, ''Range'', ftPRange),
     (HDR_REFERER, ''Referer'', ftStr),
     (HDR_REQUEST_RANGE, ''Request-Range'', ftPRange),
     (HDR_RETRY_AFTER, ''Retry-After'', ftStr),
     (HDR_SERVER, ''Server'', ftStr),
     (HDR_SET_COOKIE, ''Set-Cookie'', ftStr),
     (HDR_SET_COOKIE2, ''Set-Cookie2'', ftStr),
     (HDR_TE, ''TE'', ftStr),
     (HDR_TITLE, ''Title'', ftStr),
     (HDR_TRAILER, ''Trailer'', ftStr),
     (HDR_TRANSFER_ENCODING, ''Transfer-Encoding'', ftStr),
     (HDR_TRANSLATE, ''Translate'', ftStr),
     (HDR_UNLESS_MODIFIED_SINCE, ''Unless-Modified-Since'', ftStr),
     (HDR_UPGRADE, ''Upgrade'', ftStr),
     (HDR_USER_AGENT, ''User-Agent'', ftStr),
     (HDR_VARY, ''Vary'', ftStr),
     (HDR_VIA, ''Via'', ftStr),
     (HDR_WARNING, ''Warning'', ftStr),
     (HDR_WWW_AUTHENTICATE, ''WWW-Authenticate'', ftStr),
     (HDR_AUTHENTICATION_INFO, ''Authentication-Info'', ftStr),
     (HDR_X_CACHE, ''X-Cache'', ftStr),
     (HDR_X_CACHE_LOOKUP, ''X-Cache-Lookup'', ftStr),
     (HDR_X_FORWARDED_FOR, ''X-Forwarded-For'', ftStr),
     (HDR_X_REQUEST_URI, ''X-Request-URI'', ftStr),
     (HDR_X_SQUID_ERROR, ''X-Squid-Error'', ftStr),
     (HDR_X_ACCELERATOR_VARY, ''X-Accelerator-Vary'', ftStr),
     (HDR_X_NEXT_SERVICES, ''X-Next-Services'', ftStr),
     (HDR_SURROGATE_CAPABILITY, ''Surrogate-Capability'', ftStr),
     (HDR_SURROGATE_CONTROL, ''Surrogate-Control'', ftPSc),
     (HDR_FRONT_END_HTTPS, ''Front-End-Https'', ftStr),
     (HDR_OTHER, ''Other:'', ftStr)]"

text \<open>The fields whose values are lists, and those that concern one connection only.\<close>

definition ListHeadersArr :: "http_hdr_type list" where
  "ListHeadersArr =
    [HDR_ACCEPT, HDR_ACCEPT_CHARSET, HDR_ACCEPT_ENCODING, HDR_ACCEPT_LANGUAGE, HDR_ACCEPT_RANGES, HDR_ALLOW, HDR_CACHE_CONTROL,
     HDR_CONTENT_ENCODING, HDR_CONTENT_LANGUAGE, HDR_CONNECTION, HDR_EXPECT, HDR_IF_MATCH, HDR_IF_NONE_MATCH, HDR_LINK, HDR_PRAGMA,
     HDR_PROXY_CONNECTION, HDR_PROXY_SUPPORT, HDR_TRANSFER_ENCODING, HDR_UPGRADE, HDR_VARY, HDR_VIA, HDR_WARNING, HDR_WWW_AUTHENTICATE,
     HDR_AUTHENTICATION_INFO, HDR_PROXY_AUTHENTICATION_INFO, HDR_X_ACCELERATOR_VARY, HDR_X_NEXT_SERVICES, HDR_SURROGATE_CAPABILITY,
     HDR_SURROGATE_CONTROL, HDR_X_FORWARDED_FOR]"

definition HopByHopHeadersArr :: "http_hdr_type list" where
  "HopByHopHeadersArr =
    [HDR_CONNECTION, HDR_KEEP_ALIVE, HDR_PROXY_AUTHORIZATION, HDR_TE, HDR_TRAILER, HDR_TRANSFER_ENCODING, HDR_UPGRADE, HDR_PROXY_CONNECTION]"

end
