(* ===== verification/Http_Header.thy ===== *)
theory Http_Header
  imports Url Header_Ids
begin

text \<open>
  The header fields of HTTP messages: the container \<^verbatim>\<open>HttpHeader\<close> of \<^verbatim>\<open>src/HttpHeader.cc\<close> and the list routines of
  \<^verbatim>\<open>src/StrList.cc\<close> it uses.  A null pointer among the entries is \<open>None\<close>; the bit mask is the set of the fields whose bit is set;
  strings are lists of characters, and a string of 65535 characters or more fails the assertion of \<^verbatim>\<open>String::setBuffer()\<close>.  Statistics
  are left out.  The parameter \<open>einval\<close> of the routines that read a number is that of the Range header.
\<close>

section \<open>Strings\<close>

definition new_string :: "string \<Rightarrow> string outcome" where
  "new_string s = guardE (length s + 1 < 65536) AssertFault (Inr s)"

definition str_append :: "string \<Rightarrow> string \<Rightarrow> string outcome" where
  "str_append s t = guardE (length s + length t + 1 < 65536) AssertFault (Inr (s @ t))"

definition strListAdd :: "string \<Rightarrow> string \<Rightarrow> char \<Rightarrow> string outcome" where
  "strListAdd s item del = bindE (if s \<noteq> [] then str_append s [del, CHR '' ''] else Inr s) (\<lambda>s. str_append s item)"

text \<open>The loops over the items of a list; a test gets the text from the item on and the length of the item.\<close>

function find_item :: "(string \<Rightarrow> nat \<Rightarrow> bool) \<Rightarrow> char \<Rightarrow> string \<Rightarrow> (string \<times> nat) option" where
  "find_item P del pos =
     (case strListGetItem del pos of
        (found, item, ilen, pos') \<Rightarrow> if \<not> found then None else if P item ilen then Some (item, ilen) else find_item P del pos')"
  by auto
termination by (relation "measure (\<lambda>(P, del, pos). length pos)") (auto dest!: strListGetItem_progress [OF sym])

declare find_item.simps [simp del]

definition strListIsMember :: "string \<Rightarrow> string \<Rightarrow> char \<Rightarrow> bool" where
  "strListIsMember l m del \<longleftrightarrow> find_item (\<lambda>item ilen. length m = ilen \<and> same_prefix item m ilen) del l \<noteq> None"

section \<open>Entries\<close>

record header_entry =
  he_id :: http_hdr_type
  he_name :: string
  he_value :: string

definition field_name :: "http_hdr_type \<Rightarrow> string" where
  "field_name i = (case map_of HeadersAttrs i of Some (n, t) \<Rightarrow> n | None \<Rightarrow> [])"

definition field_type_of :: "http_hdr_type \<Rightarrow> field_type" where
  "field_type_of i = (case map_of HeadersAttrs i of Some (n, t) \<Rightarrow> t | None \<Rightarrow> ftStr)"

fun find_id :: "(http_hdr_type \<times> string \<times> field_type) list \<Rightarrow> string \<Rightarrow> http_hdr_type option" where
  "find_id [] nm = None"
| "find_id ((i, n, t) # as) nm = (if length nm = length n \<and> same_prefix nm n (length nm) then Some i else find_id as nm)"

definition httpHeaderIdByName :: "string \<Rightarrow> http_hdr_type option" where
  "httpHeaderIdByName nm = (if nm \<noteq> [] then find_id HeadersAttrs nm else None)"

definition new_entry :: "http_hdr_type \<Rightarrow> string \<Rightarrow> string \<Rightarrow> header_entry outcome" where
  "new_entry i nm v =
     bindE (new_string (if i \<noteq> HDR_OTHER then field_name i else nm)) (\<lambda>nm.
     bindE (new_string v) (\<lambda>v. Inr \<lparr>he_id = i, he_name = nm, he_value = v\<rparr>))"

definition entry_clone :: "header_entry \<Rightarrow> header_entry outcome" where
  "entry_clone e = new_entry (he_id e) (he_name e) (he_value e)"

definition entry_packInto :: "header_entry \<Rightarrow> string" where
  "entry_packInto e = he_name e @ '': '' @ he_value e @ [CHR 0x0D, CHR 0x0A]"

definition rtrim :: "string \<Rightarrow> string" where
  "rtrim s = rev (dropWhile xisspace (rev s))"

definition entry_parse :: "int \<Rightarrow> string \<Rightarrow> header_entry option outcome" where
  "entry_parse relaxed field =
     (let nm0 = (if CHR '':'' \<in> set field then takeWhile (\<lambda>c. c \<noteq> CHR '':'') field else [])
      in if nm0 = [] then Inr None
         else if length nm0 > 65534 then Inr None
         else
           let nm = (if relaxed \<noteq> 0 \<and> xisspace (last nm0) then rtrim nm0 else nm0)
           in if nm = [] then Inr None
              else
                let i = (case httpHeaderIdByName nm of None \<Rightarrow> HDR_OTHER | Some i \<Rightarrow> i)
                in bindE (new_string (if i = HDR_OTHER then nm else field_name i)) (\<lambda>name.
                   let value = rtrim (dropWhile xisspace (drop (length nm0 + 1) field))
                   in if length value > 65534 then Inr None
                      else bindE (new_string value) (\<lambda>value. bindE (new_entry i name value) (\<lambda>e. Inr (Some e)))))"

section \<open>The container\<close>

datatype hdr_owner = hoNone | hoHtcpReply | hoRequest | hoReply | hoErrorDetail

record http_header =
  hh_owner :: hdr_owner
  hh_entries :: "header_entry option list"
  hh_mask :: "http_hdr_type set"
  hh_len :: int

definition new_header :: "hdr_owner \<Rightarrow> http_header outcome" where
  "new_header owner = guardE (owner \<noteq> hoNone) AssertFault (Inr \<lparr>hh_owner = owner, hh_entries = [], hh_mask = {}, hh_len = 0\<rparr>)"

text \<open>The position after which \<^verbatim>\<open>getEntry()\<close> looks for the next entry, and the position it leaves.\<close>

function next_entry :: "header_entry option list \<Rightarrow> nat \<Rightarrow> header_entry option \<times> int" where
  "next_entry items i =
     (if i < length items then case items ! i of Some e \<Rightarrow> (Some e, int i) | None \<Rightarrow> next_entry items (i + 1) else (None, int i))"
  by auto
termination by (relation "measure (\<lambda>(items, i). length items - i)") auto

declare next_entry.simps [simp del]

definition getEntry :: "http_header \<Rightarrow> int \<Rightarrow> (header_entry option \<times> int) outcome" where
  "getEntry h pos = guardE (-1 \<le> pos \<and> pos < int (length (hh_entries h))) AssertFault (Inr (next_entry (hh_entries h) (nat (pos + 1))))"

lemma next_entry_pos: "next_entry items i = (Some e, p) \<Longrightarrow> int i \<le> p \<and> p < int (length items)"
proof (induction items i rule: next_entry.induct)
  case (1 items i)
  then show ?case by (subst (asm) (2) next_entry.simps) (fastforce split: if_splits option.splits)
qed

lemma getEntry_pos: "getEntry h pos = Inr (Some e, p) \<Longrightarrow> pos < p \<and> p < int (length (hh_entries h))"
  by (auto simp: getEntry_def outcome_simps dest!: next_entry_pos)

text \<open>\<^verbatim>\<open>while ((e = getEntry(&pos))) ...\<close> with a body that changes other things than the container.\<close>

function for_entries :: "http_header \<Rightarrow> ('s \<Rightarrow> header_entry \<Rightarrow> 's outcome) \<Rightarrow> int \<Rightarrow> 's \<Rightarrow> 's outcome" where
  "for_entries h body pos s =
     (case getEntry h pos of
        Inl f \<Rightarrow> Inl f
      | Inr (None, p) \<Rightarrow> Inr s
      | Inr (Some e, p) \<Rightarrow> (case body s e of Inl f \<Rightarrow> Inl f | Inr s' \<Rightarrow> for_entries h body p s'))"
  by auto
termination by (relation "measure (\<lambda>(h, body, pos, s). nat (int (length (hh_entries h)) - pos))") (auto dest!: getEntry_pos)

declare for_entries.simps [simp del]

text \<open>The same loop when it ends at the first entry with the given field.\<close>

function find_from :: "http_header \<Rightarrow> http_hdr_type \<Rightarrow> int \<Rightarrow> header_entry option outcome" where
  "find_from h i pos =
     (case getEntry h pos of
        Inl f \<Rightarrow> Inl f
      | Inr (None, p) \<Rightarrow> Inr None
      | Inr (Some e, p) \<Rightarrow> if he_id e = i then Inr (Some e) else find_from h i p)"
  by auto
termination by (relation "measure (\<lambda>(h, i, pos). nat (int (length (hh_entries h)) - pos))") (auto dest!: getEntry_pos)

declare find_from.simps [simp del]

definition entry_size :: "header_entry \<Rightarrow> int" where
  "entry_size e = int (length (he_name e)) + 2 + int (length (he_value e)) + 2"

definition delAt :: "int \<Rightarrow> int \<Rightarrow> http_header \<Rightarrow> (http_header \<times> int) outcome" where
  "delAt pos n h =
     guardE (-1 \<le> pos \<and> pos < int (length (hh_entries h))) AssertFault
       (guardE (0 \<le> pos) OutOfBounds
         (case hh_entries h ! nat pos of
            None \<Rightarrow> Inl OutOfBounds
          | Some e \<Rightarrow>
              let l = hh_len h - entry_size e
              in guardE (0 \<le> l) AssertFault (Inr (h\<lparr>hh_entries := (hh_entries h)[nat pos := None], hh_len := l\<rparr>, n + 1))))"

lemma delAt_length: "delAt pos n h = Inr (h', n') \<Longrightarrow> length (hh_entries h') = length (hh_entries h)"
  by (auto simp: delAt_def outcome_simps Let_def split: option.splits)

text \<open>The loops that delete the entries with a property while they go on, with what they do to the mask for an entry that is
  deleted or kept.\<close>

function del_loop :: "(header_entry \<Rightarrow> bool) \<Rightarrow> (header_entry \<Rightarrow> http_hdr_type set \<Rightarrow> http_hdr_type set) \<Rightarrow>
    (header_entry \<Rightarrow> http_hdr_type set \<Rightarrow> http_hdr_type set) \<Rightarrow> int \<Rightarrow> int \<Rightarrow> http_header \<Rightarrow> (http_header \<times> int) outcome" where
  "del_loop P gone kept pos n h =
     (case getEntry h pos of
        Inl f \<Rightarrow> Inl f
      | Inr (None, p) \<Rightarrow> Inr (h, n)
      | Inr (Some e, p) \<Rightarrow>
          if P e then
            (case delAt p n h of Inl f \<Rightarrow> Inl f | Inr (h', n') \<Rightarrow> del_loop P gone kept p n' (h'\<lparr>hh_mask := gone e (hh_mask h')\<rparr>))
          else del_loop P gone kept p n (h\<lparr>hh_mask := kept e (hh_mask h)\<rparr>))"
  by auto
termination by (relation "measure (\<lambda>(P, gone, kept, pos, n, h). nat (int (length (hh_entries h)) - pos))")
  (auto dest!: getEntry_pos delAt_length [OF sym] delAt_length)

declare del_loop.simps [simp del]

definition is_list_header :: "http_hdr_type \<Rightarrow> bool" where
  "is_list_header i \<longleftrightarrow> i \<in> set ListHeadersArr"

section \<open>Operations\<close>

definition hh_clean :: "http_header \<Rightarrow> http_header outcome" where
  "hh_clean h = guardE (hh_owner h \<noteq> hoNone) AssertFault (Inr (h\<lparr>hh_entries := [], hh_mask := {}, hh_len := 0\<rparr>))"

definition addEntry :: "header_entry \<Rightarrow> http_header \<Rightarrow> http_header outcome" where
  "addEntry e h =
     guardE (he_name e \<noteq> []) AssertFault
       (Inr (h\<lparr>hh_mask := insert (he_id e) (hh_mask h), hh_entries := hh_entries h @ [Some e], hh_len := hh_len h + entry_size e\<rparr>))"

definition insertEntry :: "header_entry \<Rightarrow> http_header \<Rightarrow> http_header outcome" where
  "insertEntry e h =
     Inr (h\<lparr>hh_mask := insert (he_id e) (hh_mask h), hh_entries := Some e # hh_entries h, hh_len := hh_len h + entry_size e\<rparr>)"

definition findEntry :: "http_hdr_type \<Rightarrow> http_header \<Rightarrow> header_entry option outcome" where
  "findEntry i h =
     guardE (\<not> is_list_header i) AssertFault
       (if i \<notin> hh_mask h then Inr None
        else bindE (find_from h i (-1)) (\<lambda>r. case r of Some e \<Rightarrow> Inr (Some e) | None \<Rightarrow> Inl AssertFault))"

definition findLastEntry :: "http_hdr_type \<Rightarrow> http_header \<Rightarrow> header_entry option outcome" where
  "findLastEntry i h =
     guardE (\<not> is_list_header i) AssertFault
       (if i \<notin> hh_mask h then Inr None
        else bindE (for_entries h (\<lambda>r e. Inr (if he_id e = i then Some e else r)) (-1) None)
          (\<lambda>r. guardE (r \<noteq> None) AssertFault (Inr r)))"

text \<open>\<^verbatim>\<open>String::caseCmp() == 0\<close>.\<close>

definition same_name :: "string \<Rightarrow> string \<Rightarrow> bool" where
  "same_name a b \<longleftrightarrow> map to_lower a = map to_lower b"

definition delByName :: "string \<Rightarrow> http_header \<Rightarrow> (http_header \<times> int) outcome" where
  "delByName nm h = del_loop (\<lambda>e. same_name (he_name e) nm) (\<lambda>e m. m) (\<lambda>e m. insert (he_id e) m) (-1) 0 (h\<lparr>hh_mask := {}\<rparr>)"

definition delById :: "http_hdr_type \<Rightarrow> http_header \<Rightarrow> (http_header \<times> int) outcome" where
  "delById i h =
     guardE (i \<noteq> HDR_OTHER) AssertFault
       (if i \<notin> hh_mask h then Inr (h, 0)
        else bindE (del_loop (\<lambda>e. he_id e = i) (\<lambda>e m. m) (\<lambda>e m. m) (-1) 0 h) (\<lambda>(h, n).
          guardE (n \<noteq> 0) AssertFault (Inr (h\<lparr>hh_mask := hh_mask h - {i}\<rparr>, n))))"

definition compact :: "http_header \<Rightarrow> http_header" where
  "compact h = h\<lparr>hh_entries := filter (\<lambda>x. x \<noteq> None) (hh_entries h)\<rparr>"

definition refreshMask :: "http_header \<Rightarrow> http_header outcome" where
  "refreshMask h = bindE (for_entries h (\<lambda>m e. Inr (insert (he_id e) m)) (-1) {}) (\<lambda>m. Inr (h\<lparr>hh_mask := m\<rparr>))"

definition add_clone :: "header_entry \<Rightarrow> http_header \<Rightarrow> http_header outcome" where
  "add_clone e h = bindE (entry_clone e) (\<lambda>c. addEntry c h)"

definition hh_append :: "http_header \<Rightarrow> http_header \<Rightarrow> http_header outcome" where
  "hh_append src h = for_entries src (\<lambda>h e. add_clone e h) (-1) h"

definition denied :: "http_hdr_type set option \<Rightarrow> header_entry \<Rightarrow> bool" where
  "denied d e = (case d of None \<Rightarrow> False | Some m \<Rightarrow> he_id e \<in> m)"

definition hh_update :: "http_header \<Rightarrow> http_hdr_type set option \<Rightarrow> http_header \<Rightarrow> http_header outcome" where
  "hh_update fresh d h =
     bindE (for_entries fresh (\<lambda>h e.
         if denied d e then Inr h
         else bindE (if he_id e \<noteq> HDR_OTHER then delById (he_id e) h else delByName (he_name e) h) (\<lambda>(h, n). Inr h)) (-1) h)
     (\<lambda>h. for_entries fresh (\<lambda>h e. if denied d e then Inr h else add_clone e h) (-1) h)"

definition hh_copy :: "http_header \<Rightarrow> http_header outcome" where
  "hh_copy other = hh_update other None \<lparr>hh_owner = hh_owner other, hh_entries = [], hh_mask = {}, hh_len = hh_len other\<rparr>"

definition hh_assign :: "http_header \<Rightarrow> http_header \<Rightarrow> http_header outcome" where
  "hh_assign other h =
     guardE (hh_owner h = hh_owner other) AssertFault
       (bindE (hh_clean h) (\<lambda>h. bindE (hh_update other None h) (\<lambda>h. Inr (h\<lparr>hh_len := hh_len other\<rparr>))))"

definition hh_packInto :: "bool \<Rightarrow> http_header \<Rightarrow> string outcome" where
  "hh_packInto mask_sensitive_info h =
     for_entries h (\<lambda>out e.
       Inr (out @ (if mask_sensitive_info \<and> (he_id e = HDR_AUTHORIZATION \<or> he_id e = HDR_PROXY_AUTHORIZATION)
                   then he_name e @ '': ** NOT DISPLAYED **'' @ [CHR 0x0D, CHR 0x0A] else entry_packInto e))) (-1) []"

section \<open>Reading values\<close>

definition has_field :: "http_hdr_type \<Rightarrow> http_header \<Rightarrow> bool outcome" where
  "has_field i h = guardE (i \<noteq> HDR_OTHER) AssertFault (Inr (i \<in> hh_mask h))"

text \<open>The joined values of a list field; \<open>None\<close> when the field is not there.\<close>

definition getList :: "http_hdr_type \<Rightarrow> http_header \<Rightarrow> string option outcome" where
  "getList i h =
     guardE (is_list_header i) AssertFault
       (if i \<notin> hh_mask h then Inr None
        else bindE (for_entries h (\<lambda>s e. if he_id e = i then strListAdd s (he_value e) (CHR '','') else Inr s) (-1) [])
          (\<lambda>s. Inr (Some s)))"

definition getStrOrList :: "http_hdr_type \<Rightarrow> http_header \<Rightarrow> string outcome" where
  "getStrOrList i h =
     (if is_list_header i then bindE (getList i h) (\<lambda>s. Inr (case s of None \<Rightarrow> [] | Some s \<Rightarrow> s))
      else bindE (findEntry i h) (\<lambda>e. Inr (case e of None \<Rightarrow> [] | Some e \<Rightarrow> he_value e)))"

definition getByNameIfPresent :: "string \<Rightarrow> http_header \<Rightarrow> string option outcome" where
  "getByNameIfPresent nm h =
     (case httpHeaderIdByName nm of
        Some i \<Rightarrow> bindE (has_field i h) (\<lambda>b. if \<not> b then Inr None else bindE (getStrOrList i h) (\<lambda>s. Inr (Some s)))
      | None \<Rightarrow>
          for_entries h (\<lambda>r e.
            if he_id e = HDR_OTHER \<and> same_name (he_name e) nm
            then bindE (strListAdd (case r of None \<Rightarrow> [] | Some s \<Rightarrow> s) (he_value e) (CHR '','')) (\<lambda>s. Inr (Some s))
            else Inr r) (-1) None)"

definition getByName :: "string \<Rightarrow> http_header \<Rightarrow> string outcome" where
  "getByName nm h = bindE (getByNameIfPresent nm h) (\<lambda>r. Inr (case r of None \<Rightarrow> [] | Some s \<Rightarrow> s))"

definition member_ends :: "char \<Rightarrow> string \<Rightarrow> nat \<Rightarrow> bool" where
  "member_ends sep item mlen \<longleftrightarrow> drop mlen item = [] \<or> hd (drop mlen item) \<in> {CHR ''='', sep, CHR '';''}"

definition is_member :: "string \<Rightarrow> string \<Rightarrow> char \<Rightarrow> bool" where
  "is_member header member sep \<longleftrightarrow>
     find_item (\<lambda>item ilen. same_prefix item member (length member) \<and> member_ends sep item (length member)) sep header \<noteq> None"

definition hasListMember :: "http_hdr_type \<Rightarrow> string \<Rightarrow> char \<Rightarrow> http_header \<Rightarrow> bool outcome" where
  "hasListMember i member sep h = bindE (getStrOrList i h) (\<lambda>s. Inr (is_member s member sep))"

definition hasByNameListMember :: "string \<Rightarrow> string \<Rightarrow> char \<Rightarrow> http_header \<Rightarrow> bool outcome" where
  "hasByNameListMember nm member sep h = bindE (getByName nm h) (\<lambda>s. Inr (is_member s member sep))"

text \<open>The value of the first item \<open>member=value\<close>.\<close>

definition member_value :: "string \<Rightarrow> string \<Rightarrow> char \<Rightarrow> string outcome" where
  "member_value header member sep =
     (case find_item (\<lambda>item ilen. prefix member item \<and> drop (length member) item \<noteq> [] \<and> hd (drop (length member) item) = CHR ''='') sep header of
        None \<Rightarrow> Inr []
      | Some (item, ilen) \<Rightarrow>
          guardE (length member + 1 \<le> ilen) AssertFault (Inr (take (ilen - length member - 1) (drop (length member + 1) item))))"

definition getListMember :: "http_hdr_type \<Rightarrow> string \<Rightarrow> char \<Rightarrow> http_header \<Rightarrow> string outcome" where
  "getListMember i member sep h = bindE (getStrOrList i h) (\<lambda>s. member_value s member sep)"

definition getByNameListMember :: "string \<Rightarrow> string \<Rightarrow> char \<Rightarrow> http_header \<Rightarrow> string outcome" where
  "getByNameListMember nm member sep h = bindE (getByName nm h) (\<lambda>s. member_value s member sep)"

definition getStr :: "http_hdr_type \<Rightarrow> http_header \<Rightarrow> string option outcome" where
  "getStr i h = guardE (field_type_of i = ftStr) AssertFault (bindE (findEntry i h) (\<lambda>e. Inr (map_option he_value e)))"

definition getLastStr :: "http_hdr_type \<Rightarrow> http_header \<Rightarrow> string option outcome" where
  "getLastStr i h = guardE (field_type_of i = ftStr) AssertFault (bindE (findLastEntry i h) (\<lambda>e. Inr (map_option he_value e)))"

definition getInt :: "http_hdr_type \<Rightarrow> http_header \<Rightarrow> int outcome" where
  "getInt i h = guardE (field_type_of i = ftInt) AssertFault
     (bindE (findEntry i h) (\<lambda>e. Inr (case e of None \<Rightarrow> -1 | Some e \<Rightarrow> atoi (he_value e))))"

definition getInt64 :: "bool \<Rightarrow> http_hdr_type \<Rightarrow> http_header \<Rightarrow> int outcome" where
  "getInt64 einval i h = guardE (field_type_of i = ftInt64) AssertFault
     (bindE (findEntry i h) (\<lambda>e. Inr (case e of None \<Rightarrow> -1
        | Some e \<Rightarrow> (case httpHeaderParseOffset einval (he_value e) of None \<Rightarrow> -1 | Some v \<Rightarrow> v))))"

definition chunked :: "http_header \<Rightarrow> bool outcome" where
  "chunked h = bindE (has_field HDR_TRANSFER_ENCODING h) (\<lambda>b.
     if b then hasListMember HDR_TRANSFER_ENCODING ''chunked'' (CHR '','') h else Inr False)"

definition getRange :: "bool \<Rightarrow> http_header \<Rightarrow> range_spec list option outcome" where
  "getRange einval h =
     bindE (findEntry HDR_RANGE h) (\<lambda>e.
     bindE (if e = None then findEntry HDR_REQUEST_RANGE h else Inr e) (\<lambda>e.
     Inr (case e of None \<Rightarrow> None | Some e \<Rightarrow> ParseCreate einval (he_value e))))"

section \<open>Adding values\<close>

definition putInt :: "http_hdr_type \<Rightarrow> int \<Rightarrow> http_header \<Rightarrow> http_header outcome" where
  "putInt i n h = guardE (field_type_of i = ftInt) AssertFault (guardE (0 \<le> n) AssertFault
     (bindE (new_entry i [] (decimal (nat n))) (\<lambda>e. addEntry e h)))"

definition putInt64 :: "http_hdr_type \<Rightarrow> int \<Rightarrow> http_header \<Rightarrow> http_header outcome" where
  "putInt64 i n h = guardE (field_type_of i = ftInt64) AssertFault (guardE (0 \<le> n) AssertFault
     (bindE (new_entry i [] (decimal (nat n))) (\<lambda>e. addEntry e h)))"

definition putStr :: "http_hdr_type \<Rightarrow> string \<Rightarrow> http_header \<Rightarrow> http_header outcome" where
  "putStr i s h = guardE (field_type_of i = ftStr) AssertFault (bindE (new_entry i [] s) (\<lambda>e. addEntry e h))"

definition putAuth :: "string \<Rightarrow> string \<Rightarrow> http_header \<Rightarrow> http_header outcome" where
  "putAuth auth_scheme realm h = putStr HDR_WWW_AUTHENTICATE (auth_scheme @ '' realm='' @ [CHR 0x22] @ realm @ [CHR 0x22]) h"

definition putExt :: "string \<Rightarrow> string \<Rightarrow> http_header \<Rightarrow> http_header outcome" where
  "putExt nm v h = bindE (new_entry HDR_OTHER nm v) (\<lambda>e. addEntry e h)"

definition putRange :: "range_spec list \<Rightarrow> http_header \<Rightarrow> http_header outcome" where
  "putRange r h = bindE (delById HDR_RANGE h) (\<lambda>(h, n). bindE (new_entry HDR_RANGE [] (packInto r)) (\<lambda>e. addEntry e h))"

text \<open>The printed forms of dates (\<open>mkrfc1123\<close>) and of the values with a class of their own (\<open>packed\<close>) are parameters.\<close>

definition putTime :: "(int \<Rightarrow> string) \<Rightarrow> http_hdr_type \<Rightarrow> int \<Rightarrow> http_header \<Rightarrow> http_header outcome" where
  "putTime mkrfc1123 i t h = guardE (field_type_of i = ftDate_1123) AssertFault (guardE (0 \<le> t) AssertFault
     (bindE (new_entry i [] (mkrfc1123 t)) (\<lambda>e. addEntry e h)))"

definition insertTime :: "(int \<Rightarrow> string) \<Rightarrow> http_hdr_type \<Rightarrow> int \<Rightarrow> http_header \<Rightarrow> http_header outcome" where
  "insertTime mkrfc1123 i t h = guardE (field_type_of i = ftDate_1123) AssertFault (guardE (0 \<le> t) AssertFault
     (bindE (new_entry i [] (mkrfc1123 t)) (\<lambda>e. insertEntry e h)))"

definition putCc :: "string \<Rightarrow> http_header \<Rightarrow> http_header outcome" where
  "putCc packed h = bindE (delById HDR_CACHE_CONTROL h) (\<lambda>(h, n). bindE (new_entry HDR_CACHE_CONTROL [] packed) (\<lambda>e. addEntry e h))"

definition putContRange :: "string \<Rightarrow> http_header \<Rightarrow> http_header outcome" where
  "putContRange packed h = bindE (delById HDR_CONTENT_RANGE h) (\<lambda>(h, n). bindE (new_entry HDR_CONTENT_RANGE [] packed) (\<lambda>e. addEntry e h))"

definition putSc :: "string \<Rightarrow> http_header \<Rightarrow> http_header outcome" where
  "putSc packed h = bindE (delById HDR_SURROGATE_CONTROL h) (\<lambda>(h, n). bindE (new_entry HDR_SURROGATE_CONTROL [] packed) (\<lambda>e. addEntry e h))"

definition putWarning :: "string \<Rightarrow> int \<Rightarrow> string \<Rightarrow> http_header \<Rightarrow> http_header outcome" where
  "putWarning visible_appname_string wcode text h =
     putStr HDR_WARNING (take 511 (print_int64 wcode @ '' '' @ visible_appname_string @ '' '' @ [CHR 0x22] @ text @ [CHR 0x22])) h"

section \<open>Connection fields\<close>

definition removeConnectionHeaderEntries :: "http_header \<Rightarrow> http_header outcome" where
  "removeConnectionHeaderEntries h =
     bindE (has_field HDR_CONNECTION h) (\<lambda>b.
     if b then
       bindE (getList HDR_CONNECTION h) (\<lambda>s.
       let conn = (case s of None \<Rightarrow> [] | Some s \<Rightarrow> s)
       in bindE (del_loop (\<lambda>e. strListIsMember conn (he_name e) (CHR '','')) (\<lambda>e m. m) (\<lambda>e m. m) (-1) 0 h) (\<lambda>(h, n).
          if n \<noteq> 0 then refreshMask h else Inr h))
     else Inr h)"

definition removeHopByHopEntries :: "http_header \<Rightarrow> http_header outcome" where
  "removeHopByHopEntries h =
     bindE (removeConnectionHeaderEntries h) (\<lambda>h.
     bindE (del_loop (\<lambda>e. he_id e \<in> set HopByHopHeadersArr) (\<lambda>e m. m - {he_id e}) (\<lambda>e m. m) (-1) 0 h) (\<lambda>(h, n). Inr h))"

definition httpHeaderHasConnDir :: "bool \<Rightarrow> string \<Rightarrow> http_header \<Rightarrow> bool outcome" where
  "httpHeaderHasConnDir violations directive h =
     bindE (if violations then has_field HDR_PROXY_CONNECTION h else Inr False) (\<lambda>p.
     bindE (has_field HDR_CONNECTION h) (\<lambda>c.
     if p \<or> c then
       bindE (getList (if p then HDR_PROXY_CONNECTION else HDR_CONNECTION) h) (\<lambda>s.
         Inr (strListIsMember (case s of None \<Rightarrow> [] | Some s \<Rightarrow> s) directive (CHR '','')))
     else Inr False))"

end
