(* ===== verification/Header_Parser.thy ===== *)
theory Header_Parser
  imports Http_Header
begin

text \<open>
  The parser of header blocks: \<^verbatim>\<open>HttpHeader::parse()\<close> of \<^verbatim>\<open>src/HttpHeader.cc\<close>.  The text that is left is the list of the characters
  from the pointer of the loop up to the end of the block; \<open>relaxed\<close> is the setting \<^verbatim>\<open>relaxed_header_parser\<close>.
\<close>

section \<open>Lines and fields\<close>

text \<open>
  One line of a field, from its start up to the line feed: its characters (stray carriage returns have become spaces), its
  terminator, and the text behind it.  \<open>None\<close> stands for the jump to \<^verbatim>\<open>reset\<close>; \<open>cont\<close> says that it is a continuation line.
\<close>

definition take_line :: "hdr_owner \<Rightarrow> int \<Rightarrow> bool \<Rightarrow> string \<Rightarrow> (string \<times> string \<times> string) option" where
  "take_line owner relaxed cont rest =
     (if CHR 0x0A \<notin> set rest then None
      else
        let line = takeWhile (\<lambda>c. c \<noteq> CHR 0x0A) rest;
            rest' = tl (dropWhile (\<lambda>c. c \<noteq> CHR 0x0A) rest);
            cr = (line \<noteq> [] \<and> last line = CHR 0x0D);
            body = (if cr then butlast line else line)
        in if cr \<and> owner = hoRequest \<and> body \<noteq> [] \<and> list_all (\<lambda>c. c = CHR 0x0D) body then None
           else if CHR 0x0D \<in> set body \<and> relaxed = 0 then None
           else if cont \<and> length body = 1 then None
           else Some (map (\<lambda>c. if c = CHR 0x0D then CHR '' '' else c) body, (if cr then [CHR 0x0D] else []) @ [CHR 0x0A], rest'))"

lemma take_line_progress: "take_line owner relaxed cont rest = Some (b, eol, rest') \<Longrightarrow> length rest' < length rest"
proof -
  assume t: "take_line owner relaxed cont rest = Some (b, eol, rest')"
  then have "CHR 0x0A \<in> set rest" "rest' = tl (dropWhile (\<lambda>c. c \<noteq> CHR 0x0A) rest)"
    by (auto simp: take_line_def Let_def split: if_splits)
  moreover from this(1) have "dropWhile (\<lambda>c. c \<noteq> CHR 0x0A) rest \<noteq> []" by simp
  ultimately show ?thesis using length_dropWhile_le [of "\<lambda>c. c \<noteq> CHR 0x0A" rest] by (metis diff_less le_less_trans length_greater_0_conv
    length_tl less_le_trans zero_less_one)
qed

text \<open>The lines of one field; the terminators of all but the last one stay in its text.\<close>

function take_field :: "hdr_owner \<Rightarrow> int \<Rightarrow> string \<Rightarrow> string \<Rightarrow> (string \<times> string) option" where
  "take_field owner relaxed acc rest =
     (case take_line owner relaxed (acc \<noteq> []) rest of
        None \<Rightarrow> None
      | Some (body, eol, rest') \<Rightarrow>
          if rest' \<noteq> [] \<and> (hd rest' = CHR '' '' \<or> hd rest' = CHR 0x09) then take_field owner relaxed (acc @ body @ eol) rest'
          else Some (acc @ body, rest'))"
  by auto
termination by (relation "measure (\<lambda>(owner, relaxed, acc, rest). length rest)") (auto dest!: take_line_progress)

declare take_field.simps [simp del]

lemma take_field_progress: "take_field owner relaxed acc rest = Some (f, rest') \<Longrightarrow> length rest' < length rest"
proof (induction owner relaxed acc rest rule: take_field.induct)
  case (1 owner relaxed acc rest)
  from 1(2) obtain body eol r where t: "take_line owner relaxed (acc \<noteq> []) rest = Some (body, eol, r)"
    by (subst (asm) take_field.simps) (auto split: option.splits)
  note p = take_line_progress [OF t]
  show ?case
  proof (cases "r \<noteq> [] \<and> (hd r = CHR '' '' \<or> hd r = CHR 0x09)")
    case True
    then have "take_field owner relaxed (acc @ body @ eol) r = Some (f, rest')" using 1(2) t by (subst (asm) take_field.simps) simp
    then show ?thesis using 1(1) [OF t refl refl True] p by simp
  next
    case False
    then show ?thesis using 1(2) t p by (subst (asm) take_field.simps) auto
  qed
qed

section \<open>Content-Length\<close>

datatype field_verdict = Keep http_header | Skip | Reset

definition check_content_length :: "bool \<Rightarrow> int \<Rightarrow> header_entry \<Rightarrow> http_header \<Rightarrow> field_verdict outcome" where
  "check_content_length einval relaxed e h =
     (if he_id e \<noteq> HDR_CONTENT_LENGTH then Inr (Keep h)
      else bindE (findEntry HDR_CONTENT_LENGTH h) (\<lambda>r.
        case r of
          None \<Rightarrow> Inr (Keep h)
        | Some e2 \<Rightarrow>
            if he_value e \<noteq> he_value e2 then
              if relaxed = 0 then Inr Reset
              else (case httpHeaderParseOffset einval (he_value e) of
                  None \<Rightarrow> Inr Skip
                | Some l1 \<Rightarrow>
                    (case httpHeaderParseOffset einval (he_value e2) of
                       None \<Rightarrow> bindE (delById HDR_CONTENT_LENGTH h) (\<lambda>(h, n). Inr (Keep h))
                     | Some l2 \<Rightarrow>
                         if l1 > l2 then bindE (delById HDR_CONTENT_LENGTH h) (\<lambda>(h, n). Inr (Keep h)) else Inr Skip))
            else if relaxed \<noteq> 0 then Inr Skip else Inr Reset))"

section \<open>The block\<close>

text \<open>The loop over the fields; \<open>False\<close> stands for the jump to \<^verbatim>\<open>reset\<close>.\<close>

function parse_fields :: "bool \<Rightarrow> int \<Rightarrow> string \<Rightarrow> http_header \<Rightarrow> (bool \<times> http_header) outcome" where
  "parse_fields einval relaxed rest h =
     (if rest = [] then Inr (True, h)
      else case take_field (hh_owner h) relaxed [] rest of
          None \<Rightarrow> Inr (False, h)
        | Some (field, rest') \<Rightarrow>
            if field = [] then Inr (rest' = [], h)
            else (case entry_parse relaxed field of
                Inl f \<Rightarrow> Inl f
              | Inr None \<Rightarrow> if relaxed \<noteq> 0 then parse_fields einval relaxed rest' h else Inr (False, h)
              | Inr (Some e) \<Rightarrow>
                  (case check_content_length einval relaxed e h of
                     Inl f \<Rightarrow> Inl f
                   | Inr Reset \<Rightarrow> Inr (False, h)
                   | Inr Skip \<Rightarrow> parse_fields einval relaxed rest' h
                   | Inr (Keep h) \<Rightarrow>
                       if he_id e = HDR_OTHER \<and> stringHasWhitespace (he_name e) \<and> relaxed = 0 then Inr (False, h)
                       else (case addEntry e h of Inl f \<Rightarrow> Inl f | Inr h \<Rightarrow> parse_fields einval relaxed rest' h))))"
  by pat_completeness auto
termination by (relation "measure (\<lambda>(einval, relaxed, rest, h). length rest)") (auto dest!: take_field_progress)

declare parse_fields.simps [simp del]

definition hh_reset :: "http_header \<Rightarrow> (bool \<times> http_header) outcome" where
  "hh_reset h = bindE (hh_clean h) (\<lambda>h. Inr (False, h))"

definition hh_parse :: "bool \<Rightarrow> int \<Rightarrow> string \<Rightarrow> http_header \<Rightarrow> (bool \<times> http_header) outcome" where
  "hh_parse einval relaxed block h =
     (if CHR 0x00 \<in> set block then hh_reset h
      else bindE (parse_fields einval relaxed block h) (\<lambda>(ok, h).
        if \<not> ok then hh_reset h
        else bindE (chunked h) (\<lambda>c.
          bindE (if c then delById HDR_CONTENT_LENGTH h else Inr (h, 0)) (\<lambda>(h, n). Inr (True, h)))))"

end
