(* ===== verification/Header_Fields.thy ===== *)
theory Header_Fields
  imports Http_Header
begin

text \<open>
  The container of header fields implements a list of entries: its loops visit the entries that are there, the mask and
  the length always describe them, and every operation changes the list as it should.  The contract is the
  locale \<open>field_table\<close>, which the container interprets.
\<close>

section \<open>Loops\<close>

fun somes :: "'a option list \<Rightarrow> 'a list" where
  "somes [] = []"
| "somes (None # xs) = somes xs"
| "somes (Some x # xs) = x # somes xs"

lemma somes_append [simp]: "somes (xs @ ys) = somes xs @ somes ys"
  by (induction xs rule: somes.induct) auto

lemma somes_map_Some [simp]: "somes (map Some xs) = xs"
  by (induction xs) auto

lemma somes_filter: "somes (filter (\<lambda>x. x \<noteq> None) xs) = somes xs"
  by (induction xs rule: somes.induct) auto

lemma set_somes: "e \<in> set (somes xs) \<longleftrightarrow> Some e \<in> set xs"
  by (induction xs rule: somes.induct) auto

abbreviation hdr_fields :: "http_header \<Rightarrow> header_entry list" where
  "hdr_fields h \<equiv> somes (hh_entries h)"

lemma drop_nth_Cons: "k < length xs \<Longrightarrow> drop k xs = xs ! k # drop (Suc k) xs"
  by (simp add: Cons_nth_drop_Suc)

lemma next_entry_spec:
  "case next_entry items k of
     (None, p) \<Rightarrow> somes (drop k items) = []
   | (Some e, p) \<Rightarrow> int k \<le> p \<and> p < int (length items) \<and> items ! nat p = Some e \<and> somes (drop k items) = e # somes (drop (nat p + 1) items) \<and>
       (\<forall>j. k \<le> j \<and> j < nat p \<longrightarrow> items ! j = None)"
proof (induction items k rule: next_entry.induct)
  case (1 items k)
  show ?case
  proof (cases "k < length items")
    case True
    show ?thesis
    proof (cases "items ! k")
      case None
      have "somes (drop k items) = somes (drop (Suc k) items)" using drop_nth_Cons [OF True] None by simp
      moreover have "next_entry items k = next_entry items (k + 1)" using True None by (subst next_entry.simps) simp
      moreover have "\<forall>j. k \<le> j \<and> j < m \<longrightarrow> items ! j = None" if "\<forall>j. k + 1 \<le> j \<and> j < m \<longrightarrow> items ! j = None" for m
        using that None by (metis Suc_eq_plus1 Suc_leI le_neq_implies_less)
      ultimately show ?thesis using 1 [OF True None] by (auto split: option.splits prod.splits)
    next
      case (Some e)
      then have "next_entry items k = (Some e, int k)" using True by (subst next_entry.simps) simp
      then show ?thesis using True Some drop_nth_Cons [OF True] by auto
    qed
  next
    case False
    then have "next_entry items k = (None, int k)" by (subst next_entry.simps) simp
    then show ?thesis using False by simp
  qed
qed

lemma getEntry_spec:
  assumes "-1 \<le> pos" "pos < int (length (hh_entries h))"
  obtains (none) p where "getEntry h pos = Inr (None, p)" "somes (drop (nat (pos + 1)) (hh_entries h)) = []"
    | (some) e k where "getEntry h pos = Inr (Some e, int k)" "nat (pos + 1) \<le> k" "k < length (hh_entries h)" "hh_entries h ! k = Some e"
        "somes (drop (nat (pos + 1)) (hh_entries h)) = e # somes (drop (Suc k) (hh_entries h))"
        "\<forall>j. nat (pos + 1) \<le> j \<and> j < k \<longrightarrow> hh_entries h ! j = None"
proof -
  obtain r p where rp: "next_entry (hh_entries h) (nat (pos + 1)) = (r, p)" by fastforce
  then have g: "getEntry h pos = Inr (r, p)" using assms by (simp add: getEntry_def)
  show ?thesis
  proof (cases r)
    case None
    then show ?thesis using next_entry_spec [where items = "hh_entries h" and k = "nat (pos + 1)"] rp g none by simp
  next
    case (Some e)
    then have "int (nat (pos + 1)) \<le> p" "p < int (length (hh_entries h))" "hh_entries h ! nat p = Some e"
      "somes (drop (nat (pos + 1)) (hh_entries h)) = e # somes (drop (nat p + 1) (hh_entries h))"
      "\<forall>j. nat (pos + 1) \<le> j \<and> j < nat p \<longrightarrow> hh_entries h ! j = None"
      using next_entry_spec [where items = "hh_entries h" and k = "nat (pos + 1)"] rp by auto
    moreover from this(1) obtain k where "p = int k" by (metis nonneg_int_cases of_nat_0_le_iff order_trans)
    ultimately show ?thesis using some [of e k] g Some by (simp add: nat_le_iff split: if_splits)
  qed
qed

lemma for_entries_from:
  assumes "-1 \<le> pos" "pos < int (length (hh_entries h))"
  shows "for_entries h body pos s = foldE body (somes (drop (nat (pos + 1)) (hh_entries h))) s"
  using assms
proof (induction h body pos s rule: for_entries.induct)
  case (1 h body pos s)
  show ?case
  proof (cases rule: getEntry_spec [OF 1(2,3)])
    case (1 p)
    then show ?thesis by (subst for_entries.simps) simp
  next
    case (2 e k)
    have "for_entries h body (int k) s' = foldE body (somes (drop (Suc k) (hh_entries h))) s'" if "body s e = Inr s'" for s'
      using 1(1) [OF 2(1) refl refl that] 2(3) by (simp add: nat_add_distrib)
    then show ?thesis using 2 by (subst for_entries.simps) (simp split: sum.split)
  qed
qed

lemma for_entries_fields: "for_entries h body (-1) s = foldE body (hdr_fields h) s"
  by (subst for_entries_from) auto

lemma find_from_spec:
  assumes "-1 \<le> pos" "pos < int (length (hh_entries h))"
  shows "find_from h i pos = Inr (find (\<lambda>e. he_id e = i) (somes (drop (nat (pos + 1)) (hh_entries h))))"
  using assms
proof (induction h i pos rule: find_from.induct)
  case (1 h i pos)
  show ?case
  proof (cases rule: getEntry_spec [OF 1(2,3)])
    case (1 p)
    then show ?thesis by (subst find_from.simps) simp
  next
    case (2 e k)
    have "find_from h i (int k) = Inr (find (\<lambda>e. he_id e = i) (somes (drop (Suc k) (hh_entries h))))" if "he_id e \<noteq> i"
      using 1(1) [OF 2(1) refl refl that] 2(3) by (simp add: nat_add_distrib)
    then show ?thesis using 2 by (subst find_from.simps) simp
  qed
qed

lemma find_from_fields: "find_from h i (-1) = Inr (find (\<lambda>e. he_id e = i) (hdr_fields h))"
  by (subst find_from_spec) auto

lemma fold_keep [simp]: "fold (\<lambda>e m. m) es m = m"
  by (induction es) auto

text \<open>The deleting loop.\<close>

definition sizes :: "header_entry list \<Rightarrow> int" where
  "sizes es = sum_list (map entry_size es)"

lemma sizes_simps [simp]: "sizes [] = 0" "sizes (e # es) = entry_size e + sizes es" "sizes (es @ fs) = sizes es + sizes fs"
  by (simp_all add: sizes_def)

lemma entry_size_pos: "0 < entry_size e"
  by (simp add: entry_size_def)

lemma sizes_nonneg: "0 \<le> sizes es"
  by (induction es) (auto simp: less_imp_le [OF entry_size_pos] add_nonneg_nonneg)

lemma sizes_filter: "sizes (filter P es) + sizes (filter (\<lambda>e. \<not> P e) es) = sizes es"
  by (induction es) auto

definition erase :: "(header_entry \<Rightarrow> bool) \<Rightarrow> header_entry option list \<Rightarrow> header_entry option list" where
  "erase P = map (\<lambda>x. case x of None \<Rightarrow> None | Some e \<Rightarrow> if P e then None else Some e)"

lemma somes_erase [simp]: "somes (erase P xs) = filter (\<lambda>e. \<not> P e) (somes xs)"
  by (induction xs rule: somes.induct) (auto simp: erase_def)

lemma erase_Nones: "somes xs = [] \<Longrightarrow> erase P xs = xs"
  by (induction xs rule: somes.induct) (auto simp: erase_def)

lemma erase_split:
  assumes "k0 \<le> k" "k < length xs" "xs ! k = Some e" "\<forall>j. k0 \<le> j \<and> j < k \<longrightarrow> xs ! j = None"
  shows "take k0 xs @ erase P (drop k0 xs) = take k xs @ (if P e then None else Some e) # erase P (drop (Suc k) xs)"
proof -
  have d: "drop k0 xs = take (k - k0) (drop k0 xs) @ Some e # drop (Suc k) xs"
    using assms(1-3) drop_nth_Cons [of k xs] by (metis append_take_drop_id drop_drop le_add_diff_inverse2)
  have "take (k - k0) (drop k0 xs) = replicate (k - k0) None"
    using assms by (intro nth_equalityI) auto
  then have "erase P (take (k - k0) (drop k0 xs)) = take (k - k0) (drop k0 xs)" by (simp add: erase_def)
  moreover have "take k0 xs @ take (k - k0) (drop k0 xs) = take k xs" using assms(1) by (metis le_add_diff_inverse take_add)
  ultimately show ?thesis by (subst d) (simp add: erase_def)
qed

lemma del_loop_from:
  assumes "-1 \<le> pos" "pos < int (length (hh_entries h))" "sizes (filter P (somes (drop (nat (pos + 1)) (hh_entries h)))) \<le> hh_len h"
  defines "k0 \<equiv> nat (pos + 1)"
  defines "es \<equiv> somes (drop k0 (hh_entries h))"
  shows "del_loop P gone kept pos n h =
    Inr (h\<lparr>hh_entries := take k0 (hh_entries h) @ erase P (drop k0 (hh_entries h)), hh_len := hh_len h - sizes (filter P es),
           hh_mask := fold (\<lambda>e. if P e then gone e else kept e) es (hh_mask h)\<rparr>, n + int (length (filter P es)))"
  using assms(1-3) unfolding k0_def es_def
proof (induction P gone kept pos n h rule: del_loop.induct)
  case (1 P gone kept pos n h)
  show ?case
  proof (cases rule: getEntry_spec [OF 1(3,4)])
    case (1 p)
    then show ?thesis by (subst del_loop.simps) (simp add: erase_Nones)
  next
    case (2 e k)
    note split = erase_split [OF 2(2,3,4,6), of P]
    show ?thesis
    proof (cases "P e")
      case True
      define h1 where "h1 = h\<lparr>hh_entries := (hh_entries h)[k := None], hh_len := hh_len h - entry_size e, hh_mask := gone e (hh_mask h)\<rparr>"
      have len: "entry_size e + sizes (filter P (somes (drop (Suc k) (hh_entries h)))) \<le> hh_len h" using 1(5) 2(5) True by simp
      then have "0 \<le> hh_len h - entry_size e" using sizes_nonneg [of "filter P (somes (drop (Suc k) (hh_entries h)))"] by simp
      then have d: "delAt (int k) n h = Inr (h\<lparr>hh_entries := (hh_entries h)[k := None], hh_len := hh_len h - entry_size e\<rparr>, n + 1)"
        using 2(3,4) by (simp add: delAt_def Let_def)
      have dr: "drop (Suc k) (hh_entries h1) = drop (Suc k) (hh_entries h)" and tk: "take (Suc k) (hh_entries h1) = take k (hh_entries h) @ [None]"
        using 2(3) by (simp_all add: h1_def take_Suc_conv_app_nth)
      have "del_loop P gone kept (int k) (n + 1) h1 =
        Inr (h1\<lparr>hh_entries := take (Suc k) (hh_entries h1) @ erase P (drop (Suc k) (hh_entries h1)),
          hh_len := hh_len h1 - sizes (filter P (somes (drop (Suc k) (hh_entries h1)))),
          hh_mask := fold (\<lambda>e. if P e then gone e else kept e) (somes (drop (Suc k) (hh_entries h1))) (hh_mask h1)\<rparr>,
          n + 1 + int (length (filter P (somes (drop (Suc k) (hh_entries h1))))))"
        using 1(1) [OF 2(1) refl refl True d refl] 2(3) len dr by (simp add: h1_def nat_add_distrib)
      then have "del_loop P gone kept (int k) (n + 1) h1 =
        Inr (h1\<lparr>hh_entries := take k (hh_entries h) @ None # erase P (drop (Suc k) (hh_entries h)),
          hh_len := hh_len h1 - sizes (filter P (somes (drop (Suc k) (hh_entries h)))),
          hh_mask := fold (\<lambda>e. if P e then gone e else kept e) (somes (drop (Suc k) (hh_entries h))) (hh_mask h1)\<rparr>,
          n + 1 + int (length (filter P (somes (drop (Suc k) (hh_entries h))))))" unfolding dr tk by simp
      then show ?thesis using 2(1,5) True d split by (subst del_loop.simps) (simp add: h1_def)
    next
      case False
      define h1 where "h1 = h\<lparr>hh_mask := kept e (hh_mask h)\<rparr>"
      have tk: "take (Suc k) (hh_entries h) = take k (hh_entries h) @ [Some e]" using 2(3,4) by (simp add: take_Suc_conv_app_nth)
      have "del_loop P gone kept (int k) n h1 =
        Inr (h1\<lparr>hh_entries := take (Suc k) (hh_entries h) @ erase P (drop (Suc k) (hh_entries h)),
          hh_len := hh_len h - sizes (filter P (somes (drop (Suc k) (hh_entries h)))),
          hh_mask := fold (\<lambda>e. if P e then gone e else kept e) (somes (drop (Suc k) (hh_entries h))) (hh_mask h1)\<rparr>,
          n + int (length (filter P (somes (drop (Suc k) (hh_entries h))))))"
        using 1(2) [OF 2(1) refl refl False] 2(3,5) 1(5) False by (simp add: h1_def nat_add_distrib)
      then show ?thesis using 2(1,5) False split unfolding tk by (subst del_loop.simps) (simp add: h1_def)
    qed
  qed
qed

lemma del_loop_fields:
  assumes "sizes (filter P (hdr_fields h)) \<le> hh_len h"
  shows "del_loop P gone kept (-1) n h =
    Inr (h\<lparr>hh_entries := erase P (hh_entries h), hh_len := hh_len h - sizes (filter P (hdr_fields h)),
           hh_mask := fold (\<lambda>e. if P e then gone e else kept e) (hdr_fields h) (hh_mask h)\<rparr>, n + int (length (filter P (hdr_fields h))))"
  using del_loop_from [of "-1" h P gone kept n] assms by simp

section \<open>The state of the container\<close>

definition entry_ok :: "header_entry \<Rightarrow> bool" where
  "entry_ok e \<longleftrightarrow> (he_id e \<noteq> HDR_OTHER \<longrightarrow> he_name e = field_name (he_id e)) \<and> he_name e \<noteq> [] \<and>
     length (he_name e) \<le> 65534 \<and> length (he_value e) \<le> 65534"

text \<open>The mask has exactly the fields that are there, and the length is that of the printed entries.\<close>

definition hdr_inv :: "http_header \<Rightarrow> bool" where
  "hdr_inv h \<longleftrightarrow> hh_owner h \<noteq> hoNone \<and> hh_mask h = he_id ` set (hdr_fields h) \<and> hh_len h = sizes (hdr_fields h) \<and> list_all entry_ok (hdr_fields h)"

lemma hdr_invD:
  assumes "hdr_inv h"
  shows "hh_owner h \<noteq> hoNone" "hh_mask h = he_id ` set (hdr_fields h)" "hh_len h = sizes (hdr_fields h)" "\<And>e. e \<in> set (hdr_fields h) \<Longrightarrow> entry_ok e"
  using assms by (auto simp: hdr_inv_def list_all_iff)

lemma sizes_filter_le: "hdr_inv h \<Longrightarrow> sizes (filter P (hdr_fields h)) \<le> hh_len h"
  using sizes_filter [of P "hdr_fields h"] sizes_nonneg [of "filter (\<lambda>e. \<not> P e) (hdr_fields h)"] by (simp add: hdr_inv_def)

lemma hdr_inv_erase:
  assumes "hdr_inv h" "m = he_id ` set (filter (\<lambda>e. \<not> P e) (hdr_fields h))"
  shows "hdr_inv (h\<lparr>hh_entries := erase P (hh_entries h), hh_len := hh_len h - sizes (filter P (hdr_fields h)), hh_mask := m\<rparr>)"
  using assms sizes_filter [of P "hdr_fields h"] by (auto simp: hdr_inv_def list_all_iff)

lemma clone_ok: "entry_ok e \<Longrightarrow> entry_clone e = Inr e"
  by (cases e) (auto simp: entry_clone_def new_entry_def new_string_def entry_ok_def)

lemma addEntry_spec:
  assumes "hdr_inv h" "entry_ok e"
  shows "\<exists>h'. addEntry e h = Inr h' \<and> hdr_inv h' \<and> hdr_fields h' = hdr_fields h @ [e] \<and> hh_owner h' = hh_owner h"
  using assms by (auto simp: addEntry_def hdr_inv_def entry_ok_def)

lemma add_clone_spec:
  assumes "hdr_inv h" "entry_ok e"
  shows "\<exists>h'. add_clone e h = Inr h' \<and> hdr_inv h' \<and> hdr_fields h' = hdr_fields h @ [e] \<and> hh_owner h' = hh_owner h"
  using addEntry_spec [OF assms] by (simp add: add_clone_def clone_ok [OF assms(2)])

lemma insertEntry_spec:
  assumes "hdr_inv h" "entry_ok e"
  shows "\<exists>h'. insertEntry e h = Inr h' \<and> hdr_inv h' \<and> hdr_fields h' = e # hdr_fields h \<and> hh_owner h' = hh_owner h"
  using assms by (auto simp: insertEntry_def hdr_inv_def)

lemma findEntry_spec:
  assumes "hdr_inv h" "\<not> is_list_header i"
  shows "findEntry i h = Inr (find (\<lambda>e. he_id e = i) (hdr_fields h))"
proof (cases "i \<in> hh_mask h")
  case True
  then obtain e where "find (\<lambda>e. he_id e = i) (hdr_fields h) = Some e"
    using hdr_invD(2) [OF assms(1)] by (cases "find (\<lambda>e. he_id e = i) (hdr_fields h)") (auto simp: find_None_iff)
  then show ?thesis using True assms(2) by (simp add: findEntry_def find_from_fields)
next
  case False
  then have "find (\<lambda>e. he_id e = i) (hdr_fields h) = None" using hdr_invD(2) [OF assms(1)] by (auto simp: find_None_iff)
  then show ?thesis using False assms(2) by (simp add: findEntry_def)
qed

lemma fold_last: "fold (\<lambda>e r. if P e then Some e else r) es r = (if filter P es = [] then r else Some (last (filter P es)))"
  by (induction es arbitrary: r) auto

lemma findLastEntry_spec:
  assumes "hdr_inv h" "\<not> is_list_header i"
  shows "findLastEntry i h = Inr (if filter (\<lambda>e. he_id e = i) (hdr_fields h) = [] then None else Some (last (filter (\<lambda>e. he_id e = i) (hdr_fields h))))"
proof -
  have "for_entries h (\<lambda>r e. Inr (if he_id e = i then Some e else r)) (-1) None =
      Inr (if filter (\<lambda>e. he_id e = i) (hdr_fields h) = [] then None else Some (last (filter (\<lambda>e. he_id e = i) (hdr_fields h))))"
    unfolding for_entries_fields by (subst foldE_total [where g = "\<lambda>e r. if he_id e = i then Some e else r"]) (simp_all add: fold_last)
  moreover have "i \<in> hh_mask h \<longleftrightarrow> filter (\<lambda>e. he_id e = i) (hdr_fields h) \<noteq> []" using hdr_invD(2) [OF assms(1)] by (auto simp: filter_empty_conv)
  ultimately show ?thesis using assms(2) by (simp add: findLastEntry_def)
qed

lemma delById_spec:
  assumes "hdr_inv h" "i \<noteq> HDR_OTHER"
  shows "\<exists>h'. delById i h = Inr (h', int (length (filter (\<lambda>e. he_id e = i) (hdr_fields h)))) \<and> hdr_inv h' \<and>
    hdr_fields h' = filter (\<lambda>e. he_id e \<noteq> i) (hdr_fields h) \<and> hh_owner h' = hh_owner h"
proof (cases "i \<in> hh_mask h")
  case True
  let ?P = "\<lambda>e. he_id e = i"
  have ne: "filter ?P (hdr_fields h) \<noteq> []" using True hdr_invD(2) [OF assms(1)] by (auto simp: filter_empty_conv)
  have loop: "del_loop ?P (\<lambda>e m. m) (\<lambda>e m. m) (-1) 0 h = Inr (h\<lparr>hh_entries := erase ?P (hh_entries h),
      hh_len := hh_len h - sizes (filter ?P (hdr_fields h)), hh_mask := hh_mask h\<rparr>, int (length (filter ?P (hdr_fields h))))"
    using del_loop_fields [OF sizes_filter_le [OF assms(1)], of ?P "\<lambda>e m. m" "\<lambda>e m. m" 0] by simp
  let ?h = "h\<lparr>hh_entries := erase ?P (hh_entries h), hh_len := hh_len h - sizes (filter ?P (hdr_fields h)), hh_mask := hh_mask h - {i}\<rparr>"
  have "hh_mask h - {i} = he_id ` set (filter (\<lambda>e. \<not> ?P e) (hdr_fields h))" using hdr_invD(2) [OF assms(1)] by auto
  then have "hdr_inv ?h" by (rule hdr_inv_erase [OF assms(1)])
  moreover have "delById i h = Inr (?h, int (length (filter ?P (hdr_fields h))))" using True assms(2) ne loop by (simp add: delById_def)
  ultimately show ?thesis by auto
next
  case False
  then have "\<forall>e \<in> set (hdr_fields h). he_id e \<noteq> i" using hdr_invD(2) [OF assms(1)] by auto
  then have "filter (\<lambda>e. he_id e = i) (hdr_fields h) = []" "filter (\<lambda>e. he_id e \<noteq> i) (hdr_fields h) = hdr_fields h" by (auto simp: filter_empty_conv filter_id_conv)
  then show ?thesis using False assms by (simp add: delById_def)
qed

lemma delByName_spec:
  assumes "hdr_inv h"
  shows "\<exists>h'. delByName nm h = Inr (h', int (length (filter (\<lambda>e. same_name (he_name e) nm) (hdr_fields h)))) \<and> hdr_inv h' \<and>
    hdr_fields h' = filter (\<lambda>e. \<not> same_name (he_name e) nm) (hdr_fields h) \<and> hh_owner h' = hh_owner h"
proof -
  let ?P = "\<lambda>e. same_name (he_name e) nm"
  have m: "fold (\<lambda>e. if ?P e then (\<lambda>m. m) else insert (he_id e)) es m = m \<union> he_id ` set (filter (\<lambda>e. \<not> ?P e) es)" for es :: "header_entry list" and m
    by (induction es arbitrary: m) auto
  let ?h = "h\<lparr>hh_entries := erase ?P (hh_entries h), hh_len := hh_len h - sizes (filter ?P (hdr_fields h)),
    hh_mask := he_id ` set (filter (\<lambda>e. \<not> ?P e) (hdr_fields h))\<rparr>"
  have "hdr_inv ?h" by (rule hdr_inv_erase [OF assms refl])
  moreover have "delByName nm h = Inr (?h, int (length (filter ?P (hdr_fields h))))"
    using del_loop_fields [of ?P "h\<lparr>hh_mask := {}\<rparr>" "\<lambda>e m. m" "\<lambda>e m. insert (he_id e) m" 0] sizes_filter_le [OF assms, of ?P] m
    unfolding delByName_def by simp
  ultimately show ?thesis by auto
qed

lemma refreshMask_spec: "refreshMask h = Inr (h\<lparr>hh_mask := he_id ` set (hdr_fields h)\<rparr>)"
proof -
  have "fold (\<lambda>e. insert (he_id e)) es m = m \<union> he_id ` set es" for es :: "header_entry list" and m by (induction es arbitrary: m) auto
  then show ?thesis unfolding refreshMask_def for_entries_fields
    by (subst foldE_total [where g = "\<lambda>e. insert (he_id e)"]) simp_all
qed

lemma compact_spec: "hdr_inv h \<Longrightarrow> hdr_inv (compact h) \<and> hdr_fields (compact h) = hdr_fields h \<and> None \<notin> set (hh_entries (compact h))"
  using somes_filter [of "hh_entries h"] by (auto simp: compact_def hdr_inv_def simp del: not_None_eq)

lemma clean_spec: "hdr_inv h \<Longrightarrow> \<exists>h'. hh_clean h = Inr h' \<and> hdr_inv h' \<and> hdr_fields h' = [] \<and> hh_owner h' = hh_owner h"
  by (auto simp: hh_clean_def hdr_inv_def)

section \<open>The contract\<close>

text \<open>
  What the parser and the routines that merge headers rely on: adding puts an entry behind the others, deleting takes away
  the entries it clashes with, and neither changes anything else.
\<close>

locale field_table =
  fixes inv :: "'h \<Rightarrow> bool" and view :: "'h \<Rightarrow> 'e list" and tag :: "'h \<Rightarrow> 'o" and ok :: "'e \<Rightarrow> bool"
    and add :: "'e \<Rightarrow> 'h \<Rightarrow> 'h outcome" and del :: "'e \<Rightarrow> 'h \<Rightarrow> 'h outcome" and clash :: "'e \<Rightarrow> 'e \<Rightarrow> bool"
  assumes add_law: "inv h \<Longrightarrow> ok e \<Longrightarrow> \<exists>h'. add e h = Inr h' \<and> inv h' \<and> view h' = view h @ [e] \<and> tag h' = tag h"
    and del_law: "inv h \<Longrightarrow> \<exists>h'. del e h = Inr h' \<and> inv h' \<and> view h' = filter (\<lambda>x. \<not> clash e x) (view h) \<and> tag h' = tag h"
begin

lemma add_all:
  assumes "inv h" "list_all ok (filter (\<lambda>e. \<not> P e) es)"
  shows "\<exists>h'. foldE (\<lambda>h e. if P e then Inr h else add e h) es h = Inr h' \<and> inv h' \<and> view h' = view h @ filter (\<lambda>e. \<not> P e) es \<and> tag h' = tag h"
  using assms
proof (induction es arbitrary: h)
  case (Cons e es)
  show ?case
  proof (cases "P e")
    case False
    then obtain h1 where h1: "add e h = Inr h1" "inv h1" "view h1 = view h @ [e]" "tag h1 = tag h" using add_law [of h e] Cons.prems by auto
    then show ?thesis using Cons.IH [OF h1(2)] Cons.prems(2) False by auto
  qed (use Cons in simp)
qed simp

lemma del_all:
  assumes "inv h"
  shows "\<exists>h'. foldE (\<lambda>h e. if P e then Inr h else del e h) es h = Inr h' \<and> inv h' \<and>
    view h' = filter (\<lambda>x. \<forall>e \<in> set es. P e \<or> \<not> clash e x) (view h) \<and> tag h' = tag h"
  using assms
proof (induction es arbitrary: h)
  case (Cons e es)
  show ?case
  proof (cases "P e")
    case True
    then show ?thesis using Cons by simp
  next
    case False
    then obtain h1 where h1: "del e h = Inr h1" "inv h1" "view h1 = filter (\<lambda>x. \<not> clash e x) (view h)" "tag h1 = tag h"
      using del_law [of h e] Cons.prems by auto
    then show ?thesis using Cons.IH [OF h1(2)] False by (auto intro!: filter_cong)
  qed
qed simp

text \<open>Replacing: the clashing entries go, the new ones are put behind those that stay.\<close>

lemma replace_all:
  assumes "inv h" "list_all ok (filter (\<lambda>e. \<not> P e) es)"
  shows "\<exists>h'. bindE (foldE (\<lambda>h e. if P e then Inr h else del e h) es h) (foldE (\<lambda>h e. if P e then Inr h else add e h) es) = Inr h' \<and> inv h' \<and>
    view h' = filter (\<lambda>x. \<forall>e \<in> set es. P e \<or> \<not> clash e x) (view h) @ filter (\<lambda>e. \<not> P e) es \<and> tag h' = tag h"
  using del_all [OF assms(1), of P es] add_all [OF _ assms(2)] by fastforce

end

definition overrides :: "header_entry \<Rightarrow> header_entry \<Rightarrow> bool" where
  "overrides e x \<longleftrightarrow> (if he_id e \<noteq> HDR_OTHER then he_id x = he_id e else same_name (he_name x) (he_name e))"

definition del_like :: "header_entry \<Rightarrow> http_header \<Rightarrow> http_header outcome" where
  "del_like e h = bindE (if he_id e \<noteq> HDR_OTHER then delById (he_id e) h else delByName (he_name e) h) (\<lambda>(h, n). Inr h)"

lemma del_like_spec:
  assumes "hdr_inv h"
  shows "\<exists>h'. del_like e h = Inr h' \<and> hdr_inv h' \<and> hdr_fields h' = filter (\<lambda>x. \<not> overrides e x) (hdr_fields h) \<and> hh_owner h' = hh_owner h"
  using delById_spec [OF assms, of "he_id e"] delByName_spec [OF assms, of "he_name e"] by (auto simp: del_like_def overrides_def)

interpretation hdr: field_table hdr_inv hdr_fields hh_owner entry_ok add_clone del_like overrides
  by unfold_locales (rule add_clone_spec del_like_spec; assumption)+

section \<open>Merging headers\<close>

lemma update_spec:
  assumes "hdr_inv h" "list_all entry_ok (hdr_fields fresh)"
  shows "\<exists>h'. hh_update fresh d h = Inr h' \<and> hdr_inv h' \<and> hh_owner h' = hh_owner h \<and>
    hdr_fields h' = filter (\<lambda>x. \<forall>e \<in> set (hdr_fields fresh). denied d e \<or> \<not> overrides e x) (hdr_fields h) @
      filter (\<lambda>e. \<not> denied d e) (hdr_fields fresh)"
proof -
  have "list_all entry_ok (filter (\<lambda>e. \<not> denied d e) (hdr_fields fresh))" using assms(2) by (auto simp: list_all_iff)
  from hdr.replace_all [OF assms(1) this] show ?thesis
    unfolding hh_update_def for_entries_fields del_like_def by auto
qed

lemma append_spec:
  assumes "hdr_inv h" "hdr_inv src"
  shows "\<exists>h'. hh_append src h = Inr h' \<and> hdr_inv h' \<and> hdr_fields h' = hdr_fields h @ hdr_fields src \<and> hh_owner h' = hh_owner h"
  using hdr.add_all [OF assms(1), of "\<lambda>_. False" "hdr_fields src"] assms(2)
  by (simp add: hh_append_def for_entries_fields hdr_inv_def)

lemma assign_spec:
  assumes "hdr_inv h" "hdr_inv other" "hh_owner h = hh_owner other"
  shows "\<exists>h'. hh_assign other h = Inr h' \<and> hdr_inv h' \<and> hdr_fields h' = hdr_fields other"
proof -
  obtain h0 where h0: "hh_clean h = Inr h0" "hdr_inv h0" "hdr_fields h0 = []" using clean_spec [OF assms(1)] by auto
  obtain h1 where h1: "hh_update other None h0 = Inr h1" "hdr_inv h1" "hdr_fields h1 = hdr_fields other"
    using update_spec [OF h0(2), of other None] h0(3) assms(2) by (auto simp: denied_def hdr_inv_def)
  have "h1\<lparr>hh_len := hh_len other\<rparr> = h1" using h1(2,3) assms(2) by (simp add: hdr_inv_def)
  then show ?thesis using h0(1) h1 assms(3) by (simp add: hh_assign_def)
qed

text \<open>The copy constructor starts with the length of the original and counts every entry again.\<close>

lemma add_clones:
  "list_all entry_ok es \<Longrightarrow> foldE (\<lambda>h e. add_clone e h) es h = Inr (h\<lparr>hh_mask := hh_mask h \<union> he_id ` set es, hh_entries := hh_entries h @ map Some es,
     hh_len := hh_len h + sizes es\<rparr>)"
proof (induction es arbitrary: h)
  case (Cons e es)
  then have "add_clone e h = Inr (h\<lparr>hh_mask := insert (he_id e) (hh_mask h), hh_entries := hh_entries h @ [Some e], hh_len := hh_len h + entry_size e\<rparr>)"
    by (auto simp: add_clone_def clone_ok addEntry_def entry_ok_def)
  then show ?case using Cons by simp
qed simp

lemma copy_length:
  assumes "hdr_inv other"
  shows "hh_copy other = Inr \<lparr>hh_owner = hh_owner other, hh_entries = map Some (hdr_fields other), hh_mask = hh_mask other, hh_len = 2 * hh_len other\<rparr>"
proof -
  let ?h = "\<lparr>hh_owner = hh_owner other, hh_entries = [], hh_mask = {}, hh_len = hh_len other\<rparr>"
  have "delByName nm ?h = Inr (?h, 0)" for nm by (simp add: delByName_def del_loop.simps getEntry_def next_entry.simps)
  moreover have "delById i ?h = Inr (?h, 0)" if "i \<noteq> HDR_OTHER" for i using that by (simp add: delById_def)
  ultimately have "(if denied None e then Inr ?h
      else bindE (if he_id e \<noteq> HDR_OTHER then delById (he_id e) ?h else delByName (he_name e) ?h) (\<lambda>(h, n). Inr h)) = Inr ?h" for e
    by (simp add: denied_def)
  then have "foldE (\<lambda>h e. if denied None e then Inr h
      else bindE (if he_id e \<noteq> HDR_OTHER then delById (he_id e) h else delByName (he_name e) h) (\<lambda>(h, n). Inr h)) es ?h = Inr ?h" for es
    by (induction es) simp_all
  then show ?thesis using add_clones [of "hdr_fields other" ?h] hdr_invD(2,3) [OF assms] assms
    by (simp add: hh_copy_def hh_update_def for_entries_fields denied_def hdr_inv_def)
qed

section \<open>Joined values\<close>

definition join_value :: "string \<Rightarrow> string \<Rightarrow> string" where
  "join_value s v = (if s \<noteq> [] then s @ '', '' else s) @ v"

definition joined :: "string list \<Rightarrow> string" where
  "joined vs = foldl join_value [] vs"

definition lengths :: "string list \<Rightarrow> nat" where
  "lengths vs = sum_list (map (\<lambda>v. length v + 2) vs)"

lemma length_join: "length (foldl join_value s vs) \<le> length s + lengths vs"
proof (induction vs arbitrary: s)
  case (Cons v vs)
  have "length (join_value s v) \<le> length s + 2 + length v" by (simp add: join_value_def)
  then show ?case using Cons [of "join_value s v"] by (simp add: lengths_def)
qed (simp add: lengths_def)

lemma strListAdd_ok: "length (join_value s v) < 65535 \<Longrightarrow> strListAdd s v (CHR '','') = Inr (join_value s v)"
  by (auto simp: strListAdd_def str_append_def join_value_def)

lemma join_loop:
  assumes "length s + lengths (map he_value (filter P es)) < 65535"
  shows "foldE (\<lambda>s e. if P e then strListAdd s (he_value e) (CHR '','') else Inr s) es s = Inr (foldl join_value s (map he_value (filter P es)))"
  using assms
proof (induction es arbitrary: s)
  case (Cons e es)
  show ?case
  proof (cases "P e")
    case True
    have l: "length (join_value s (he_value e)) \<le> length s + 2 + length (he_value e)" by (simp add: join_value_def)
    then have "strListAdd s (he_value e) (CHR '','') = Inr (join_value s (he_value e))" using Cons.prems True
      by (intro strListAdd_ok) (simp add: lengths_def)
    then show ?thesis using Cons.IH [of "join_value s (he_value e)"] Cons.prems True l by (simp add: lengths_def)
  qed (use Cons in simp)
qed simp

definition values_of :: "http_hdr_type \<Rightarrow> header_entry list \<Rightarrow> string list" where
  "values_of i es = map he_value (filter (\<lambda>e. he_id e = i) es)"

lemma mask_values: "hdr_inv h \<Longrightarrow> i \<in> hh_mask h \<longleftrightarrow> values_of i (hdr_fields h) \<noteq> []"
  by (drule hdr_invD(2)) (auto simp: values_of_def filter_empty_conv)

lemma getList_spec:
  assumes "hdr_inv h" "is_list_header i" "lengths (values_of i (hdr_fields h)) < 65535"
  shows "getList i h = Inr (if values_of i (hdr_fields h) = [] then None else Some (joined (values_of i (hdr_fields h))))"
  using mask_values [OF assms(1), of i] assms(2,3) join_loop [of "[]" "\<lambda>e. he_id e = i" "hdr_fields h"]
  by (simp add: getList_def for_entries_fields values_of_def joined_def)

lemma getStrOrList_list:
  assumes "hdr_inv h" "is_list_header i" "lengths (values_of i (hdr_fields h)) < 65535"
  shows "getStrOrList i h = Inr (joined (values_of i (hdr_fields h)))"
  using getList_spec [OF assms] assms(2) by (simp add: getStrOrList_def joined_def)

section \<open>Hop-by-hop fields\<close>

definition named_in_connection :: "header_entry list \<Rightarrow> header_entry \<Rightarrow> bool" where
  "named_in_connection es e \<longleftrightarrow> strListIsMember (joined (values_of HDR_CONNECTION es)) (he_name e) (CHR '','')"

lemma removeConnection_spec:
  assumes "hdr_inv h" "lengths (values_of HDR_CONNECTION (hdr_fields h)) < 65535"
  shows "\<exists>h'. removeConnectionHeaderEntries h = Inr h' \<and> hdr_inv h' \<and> hh_owner h' = hh_owner h \<and>
    hdr_fields h' = (if values_of HDR_CONNECTION (hdr_fields h) = [] then hdr_fields h
      else filter (\<lambda>e. \<not> named_in_connection (hdr_fields h) e) (hdr_fields h))"
proof -
  let ?vs = "values_of HDR_CONNECTION (hdr_fields h)"
  have lh: "is_list_header HDR_CONNECTION" by code_simp
  have m: "HDR_CONNECTION \<in> hh_mask h \<longleftrightarrow> ?vs \<noteq> []" by (rule mask_values [OF assms(1)])
  show ?thesis
  proof (cases "?vs = []")
    case True
    then show ?thesis using m assms(1) by (simp add: removeConnectionHeaderEntries_def has_field_def)
  next
    case False
    let ?P = "named_in_connection (hdr_fields h)"
    define h1 where "h1 = h\<lparr>hh_entries := erase ?P (hh_entries h), hh_len := hh_len h - sizes (filter ?P (hdr_fields h)), hh_mask := hh_mask h\<rparr>"
    have loop: "del_loop ?P (\<lambda>e m. m) (\<lambda>e m. m) (-1) 0 h = Inr (h1, int (length (filter ?P (hdr_fields h))))"
      using del_loop_fields [OF sizes_filter_le [OF assms(1)], of ?P "\<lambda>e m. m" "\<lambda>e m. m" 0] by (simp add: h1_def)
    have P: "(\<lambda>e. strListIsMember (joined ?vs) (he_name e) (CHR '','')) = ?P" by (simp add: named_in_connection_def fun_eq_iff)
    have run: "removeConnectionHeaderEntries h = (if filter ?P (hdr_fields h) \<noteq> [] then refreshMask h1 else Inr h1)"
      using m False loop getList_spec [OF assms(1) lh assms(2)]
      by (simp add: removeConnectionHeaderEntries_def has_field_def P)
    show ?thesis
    proof (cases "filter ?P (hdr_fields h) = []")
      case True
      then have id: "filter (\<lambda>e. \<not> ?P e) (hdr_fields h) = hdr_fields h" by (simp add: filter_empty_conv filter_id_conv)
      then have "hdr_inv h1" unfolding h1_def using hdr_invD(2) [OF assms(1)] by (intro hdr_inv_erase [OF assms(1)]) simp
      then show ?thesis using run True False by (simp add: h1_def)
    next
      case ne: False
      have "hdr_inv (h1\<lparr>hh_mask := he_id ` set (hdr_fields h1)\<rparr>)"
        using hdr_inv_erase [OF assms(1) refl, of ?P] by (simp add: h1_def)
      then show ?thesis using run ne False by (simp add: refreshMask_spec h1_def)
    qed
  qed
qed

lemma hop_mask:
  "fold (\<lambda>e. if he_id e \<in> H then (\<lambda>m. m - {he_id e}) else (\<lambda>m. m)) es m = m - (he_id ` set es \<inter> H)"
  by (induction es arbitrary: m) auto

lemma removeHopByHop_spec:
  assumes "hdr_inv h" "lengths (values_of HDR_CONNECTION (hdr_fields h)) < 65535"
  shows "\<exists>h'. removeHopByHopEntries h = Inr h' \<and> hdr_inv h' \<and>
    hdr_fields h' = filter (\<lambda>e. he_id e \<notin> set HopByHopHeadersArr \<and>
      (values_of HDR_CONNECTION (hdr_fields h) = [] \<or> \<not> named_in_connection (hdr_fields h) e)) (hdr_fields h)"
proof -
  obtain h1 where h1: "removeConnectionHeaderEntries h = Inr h1" "hdr_inv h1"
    "hdr_fields h1 = (if values_of HDR_CONNECTION (hdr_fields h) = [] then hdr_fields h
      else filter (\<lambda>e. \<not> named_in_connection (hdr_fields h) e) (hdr_fields h))"
    using removeConnection_spec [OF assms] by auto
  let ?P = "\<lambda>e. he_id e \<in> set HopByHopHeadersArr"
  let ?m = "hh_mask h1 - (he_id ` set (hdr_fields h1) \<inter> set HopByHopHeadersArr)"
  let ?h = "h1\<lparr>hh_entries := erase ?P (hh_entries h1), hh_len := hh_len h1 - sizes (filter ?P (hdr_fields h1)), hh_mask := ?m\<rparr>"
  have "del_loop ?P (\<lambda>e m. m - {he_id e}) (\<lambda>e m. m) (-1) 0 h1 = Inr (?h, int (length (filter ?P (hdr_fields h1))))"
    using del_loop_fields [OF sizes_filter_le [OF h1(2)], of ?P "\<lambda>e m. m - {he_id e}" "\<lambda>e m. m" 0] by (simp add: hop_mask)
  moreover have "?m = he_id ` set (filter (\<lambda>e. \<not> ?P e) (hdr_fields h1))" using hdr_invD(2) [OF h1(2)] by auto
  then have "hdr_inv ?h" by (rule hdr_inv_erase [OF h1(2)])
  ultimately have "removeHopByHopEntries h = Inr ?h" "hdr_inv ?h" using h1(1) by (simp_all add: removeHopByHopEntries_def)
  moreover have "hdr_fields ?h = filter (\<lambda>e. he_id e \<notin> set HopByHopHeadersArr \<and>
      (values_of HDR_CONNECTION (hdr_fields h) = [] \<or> \<not> named_in_connection (hdr_fields h) e)) (hdr_fields h)"
    by (simp add: h1(3) conj_commute)
  ultimately show ?thesis by blast
qed

section \<open>Properties\<close>


definition demo_hdr :: http_header where
  "demo_hdr = \<lparr>hh_owner = hoRequest,
     hh_entries = [Some \<lparr>he_id = HDR_HOST, he_name = ''Host'', he_value = ''a.com''\<rparr>, None,
       Some \<lparr>he_id = HDR_CONNECTION, he_name = ''Connection'', he_value = ''close, X-Hop''\<rparr>,
       Some \<lparr>he_id = HDR_OTHER, he_name = ''X-Hop'', he_value = ''1''\<rparr>],
     hh_mask = {HDR_HOST, HDR_CONNECTION, HDR_OTHER}, hh_len = 13 + 26 + 10\<rparr>"

lemma demo_hdr_inv: "hdr_inv demo_hdr"
proof -
  have "field_name HDR_HOST = ''Host''" "field_name HDR_CONNECTION = ''Connection''" by code_simp+
  then show ?thesis by (simp add: hdr_inv_def demo_hdr_def entry_ok_def entry_size_def insert_commute)
qed


lemma denied_iff: "denied d e \<longleftrightarrow> (\<exists>m. d = Some m \<and> he_id e \<in> m)"
  by (simp add: denied_def split: option.split)

text \<open>
  Updating a stored header with a fresh one replaces exactly what the fresh one brings.  The entries of the old header
  that no allowed entry of the fresh one overrides stay, in order, and the allowed fresh entries follow, in order; known
  fields are overridden by field, others by name regardless of case.  Assignment makes the headers equal.
\<close>

theorem header_update_exact:
  assumes "hdr_inv h" "hdr_inv fresh" "hh_owner h = hh_owner fresh"
  shows "(\<exists>h'. hh_update fresh d h = Inr h' \<and> hdr_inv h' \<and>
      hdr_fields h' = filter (\<lambda>x. \<forall>e \<in> set (hdr_fields fresh). (\<exists>m. d = Some m \<and> he_id e \<in> m) \<or> \<not> overrides e x) (hdr_fields h) @
        filter (\<lambda>e. \<not> (\<exists>m. d = Some m \<and> he_id e \<in> m)) (hdr_fields fresh)) \<and>
    (\<exists>h'. hh_assign fresh h = Inr h' \<and> hdr_inv h' \<and> hdr_fields h' = hdr_fields fresh)"
proof
  have "list_all entry_ok (hdr_fields fresh)" using assms(2) by (simp add: hdr_inv_def)
  from update_spec [OF assms(1) this, of d] show "\<exists>h'. hh_update fresh d h = Inr h' \<and> hdr_inv h' \<and>
      hdr_fields h' = filter (\<lambda>x. \<forall>e \<in> set (hdr_fields fresh). (\<exists>m. d = Some m \<and> he_id e \<in> m) \<or> \<not> overrides e x) (hdr_fields h) @
        filter (\<lambda>e. \<not> (\<exists>m. d = Some m \<and> he_id e \<in> m)) (hdr_fields fresh)" unfolding denied_iff by blast
  show "\<exists>h'. hh_assign fresh h = Inr h' \<and> hdr_inv h' \<and> hdr_fields h' = hdr_fields fresh" by (rule assign_spec [OF assms])
qed

theorem header_update_exact_witness:
  "\<exists>h'. hh_update demo_hdr (Some {HDR_CONNECTION}) demo_hdr = Inr h' \<and> hdr_inv h' \<and>
     hdr_fields h' = filter (\<lambda>x. \<forall>e \<in> set (hdr_fields demo_hdr). he_id e = HDR_CONNECTION \<or> \<not> overrides e x) (hdr_fields demo_hdr) @
        filter (\<lambda>e. he_id e \<noteq> HDR_CONNECTION) (hdr_fields demo_hdr)"
  using header_update_exact [OF demo_hdr_inv demo_hdr_inv refl, of "Some {HDR_CONNECTION}"] by simp



end
