(* ===== verification/Header_Parsing.thy ===== *)
theory Header_Parsing
  imports Header_Parser Header_Fields Url_Parsing
begin

text \<open>
  The parser of header blocks is safe on every input and never leaves two answers to the question where a message ends; it
  reads back what the container prints.
\<close>

section \<open>The field table\<close>

lemma table_distinct: "distinct (map fst HeadersAttrs)"
  by code_simp

lemma lower_chars:
    "to_lower (CHR ''-'') = CHR ''-''"  "to_lower (CHR ''2'') = CHR ''2''"  "to_lower (CHR ''5'') = CHR ''5''"  "to_lower (CHR '':'') = CHR '':''"
    "to_lower (CHR ''A'') = CHR ''a''"  "to_lower (CHR ''B'') = CHR ''b''"  "to_lower (CHR ''C'') = CHR ''c''"  "to_lower (CHR ''D'') = CHR ''d''"
    "to_lower (CHR ''E'') = CHR ''e''"  "to_lower (CHR ''F'') = CHR ''f''"  "to_lower (CHR ''H'') = CHR ''h''"  "to_lower (CHR ''I'') = CHR ''i''"
    "to_lower (CHR ''K'') = CHR ''k''"  "to_lower (CHR ''L'') = CHR ''l''"  "to_lower (CHR ''M'') = CHR ''m''"  "to_lower (CHR ''N'') = CHR ''n''"
    "to_lower (CHR ''O'') = CHR ''o''"  "to_lower (CHR ''P'') = CHR ''p''"  "to_lower (CHR ''R'') = CHR ''r''"  "to_lower (CHR ''S'') = CHR ''s''"
    "to_lower (CHR ''T'') = CHR ''t''"  "to_lower (CHR ''U'') = CHR ''u''"  "to_lower (CHR ''V'') = CHR ''v''"  "to_lower (CHR ''W'') = CHR ''w''"
    "to_lower (CHR ''X'') = CHR ''x''"  "to_lower (CHR ''a'') = CHR ''a''"  "to_lower (CHR ''b'') = CHR ''b''"  "to_lower (CHR ''c'') = CHR ''c''"
    "to_lower (CHR ''d'') = CHR ''d''"  "to_lower (CHR ''e'') = CHR ''e''"  "to_lower (CHR ''f'') = CHR ''f''"  "to_lower (CHR ''g'') = CHR ''g''"
    "to_lower (CHR ''h'') = CHR ''h''"  "to_lower (CHR ''i'') = CHR ''i''"  "to_lower (CHR ''k'') = CHR ''k''"  "to_lower (CHR ''l'') = CHR ''l''"
    "to_lower (CHR ''m'') = CHR ''m''"  "to_lower (CHR ''n'') = CHR ''n''"  "to_lower (CHR ''o'') = CHR ''o''"  "to_lower (CHR ''p'') = CHR ''p''"
    "to_lower (CHR ''q'') = CHR ''q''"  "to_lower (CHR ''r'') = CHR ''r''"  "to_lower (CHR ''s'') = CHR ''s''"  "to_lower (CHR ''t'') = CHR ''t''"
    "to_lower (CHR ''u'') = CHR ''u''"  "to_lower (CHR ''v'') = CHR ''v''"  "to_lower (CHR ''w'') = CHR ''w''"  "to_lower (CHR ''x'') = CHR ''x''"
    "to_lower (CHR ''y'') = CHR ''y''"  "to_lower (CHR ''z'') = CHR ''z''"
  by code_simp+

lemma table_names: "distinct (map (\<lambda>(i, n, t). map to_lower n) HeadersAttrs)"
  by (simp add: HeadersAttrs_def lower_chars)

lemma find_id_entry:
  "distinct (map (\<lambda>(i, n, t). map to_lower n) as) \<Longrightarrow> (i, n, t) \<in> set as \<Longrightarrow> find_id as n = Some i"
proof (induction as)
  case (Cons a as)
  obtain j m u where a: "a = (j, m, u)" by (cases a)
  have "map to_lower n = map to_lower m \<longleftrightarrow> length n = length m \<and> same_prefix n m (length n)"
    by (metis map_eq_imp_length_eq same_prefix_def take_all order_refl)
  then show ?case using Cons a by (force simp: image_iff)
qed simp

lemma find_id_Some: "find_id as nm = Some i \<Longrightarrow> \<exists>n t. (i, n, t) \<in> set as \<and> length n = length nm"
  by (induction as nm rule: find_id.induct) (auto split: if_splits)

lemma field_name_table: "(i, n, t) \<in> set HeadersAttrs \<Longrightarrow> field_name i = n"
  using map_of_is_SomeI [OF table_distinct, of i "(n, t)"] by (simp add: field_name_def)

lemma id_by_name_length: "httpHeaderIdByName nm = Some i \<Longrightarrow> length (field_name i) = length nm"
  using find_id_Some [of HeadersAttrs nm i] field_name_table by (auto simp: httpHeaderIdByName_def split: if_splits)

lemma id_of_field_name: "i \<noteq> HDR_OTHER \<Longrightarrow> field_name i \<noteq> [] \<Longrightarrow> httpHeaderIdByName (field_name i) = Some i"
proof -
  assume i: "i \<noteq> HDR_OTHER" "field_name i \<noteq> []"
  then obtain n t where "map_of HeadersAttrs i = Some (n, t)" by (auto simp: field_name_def split: option.splits)
  then have m: "(i, n, t) \<in> set HeadersAttrs" by (rule map_of_SomeD)
  then have "find_id HeadersAttrs n = Some i" by (rule find_id_entry [OF table_names])
  then show ?thesis using i(2) field_name_table [OF m] by (simp add: httpHeaderIdByName_def)
qed

section \<open>Entries\<close>

lemma split_line: "c \<in> set s \<Longrightarrow> s = takeWhile (\<lambda>x. x \<noteq> c) s @ c # tl (dropWhile (\<lambda>x. x \<noteq> c) s)"
proof -
  assume "c \<in> set s"
  then have ne: "dropWhile (\<lambda>x. x \<noteq> c) s \<noteq> []" by simp
  then have "hd (dropWhile (\<lambda>x. x \<noteq> c) s) = c" using hd_dropWhile [OF ne] by simp
  then have "c # tl (dropWhile (\<lambda>x. x \<noteq> c) s) = dropWhile (\<lambda>x. x \<noteq> c) s" using list.collapse [OF ne] by simp
  then have "takeWhile (\<lambda>x. x \<noteq> c) s @ c # tl (dropWhile (\<lambda>x. x \<noteq> c) s) = s" by (simp only: takeWhile_dropWhile_id)
  then show ?thesis by (rule sym)
qed

lemma length_rtrim: "length (rtrim s) \<le> length s"
  using length_dropWhile_le [of xisspace "rev s"] by (simp add: rtrim_def)

lemma entry_parse_spec:
  "entry_parse relaxed field = Inr None \<or>
   (\<exists>e. entry_parse relaxed field = Inr (Some e) \<and> entry_ok e \<and> length (he_name e) + length (he_value e) + 1 \<le> length field)"
proof -
  define nm0 where "nm0 = (if CHR '':'' \<in> set field then takeWhile (\<lambda>c. c \<noteq> CHR '':'') field else [])"
  define nm where "nm = (if relaxed \<noteq> 0 \<and> xisspace (last nm0) then rtrim nm0 else nm0)"
  define i where "i = (case httpHeaderIdByName nm of None \<Rightarrow> HDR_OTHER | Some i \<Rightarrow> i)"
  define v where "v = rtrim (dropWhile xisspace (drop (length nm0 + 1) field))"
  have unf: "entry_parse relaxed field = (if nm0 = [] then Inr None else if length nm0 > 65534 then Inr None else if nm = [] then Inr None
      else bindE (new_string (if i = HDR_OTHER then nm else field_name i)) (\<lambda>name.
        if length v > 65534 then Inr None else bindE (new_string v) (\<lambda>value. bindE (new_entry i name value) (\<lambda>e. Inr (Some e)))))"
    unfolding entry_parse_def Let_def nm0_def [symmetric] nm_def [symmetric] i_def [symmetric] v_def [symmetric] ..
  show ?thesis
  proof (cases "nm0 = [] \<or> length nm0 > 65534 \<or> nm = [] \<or> length v > 65534")
    case True
    have "length nm \<le> length nm0" using length_rtrim by (auto simp: nm_def)
    moreover have "length (field_name i) = length nm" if "i \<noteq> HDR_OTHER"
      using that id_by_name_length [of nm i] by (auto simp: i_def split: option.splits)
    ultimately show ?thesis using True unfolding unf by (auto simp: new_string_def)
  next
    case False
    have n: "length nm \<le> length nm0" using length_rtrim by (auto simp: nm_def)
    have f: "length (field_name i) = length nm" if "i \<noteq> HDR_OTHER"
      using that id_by_name_length [of nm i] by (auto simp: i_def split: option.splits)
    have c: "CHR '':'' \<in> set field" using False by (auto simp: nm0_def split: if_splits)
    then have "length nm0 < length field" unfolding nm0_def using arg_cong [OF split_line [OF c], of length] by simp
    moreover have "length v \<le> length field - (length nm0 + 1)"
      using length_rtrim [of "dropWhile xisspace (drop (length nm0 + 1) field)"] length_dropWhile_le [of xisspace "drop (length nm0 + 1) field"]
      by (simp add: v_def)
    ultimately have "length nm + length v + 1 \<le> length field" using n by linarith
    moreover define e where "e = \<lparr>he_id = i, he_name = (if i = HDR_OTHER then nm else field_name i), he_value = v\<rparr>"
    moreover have "entry_parse relaxed field = Inr (Some e)"
      using False n f unfolding unf by (auto simp: new_string_def new_entry_def e_def)
    moreover have "entry_ok e" using False n f by (cases "i = HDR_OTHER") (auto simp: entry_ok_def e_def)
    ultimately show ?thesis using f by auto
  qed
qed

section \<open>Lines and fields\<close>

lemma take_line_length:
  assumes "take_line owner relaxed cont rest = Some (b, eol, rest')"
  shows "length b + length eol + length rest' = length rest" "1 \<le> length eol"
proof -
  define line where "line = takeWhile (\<lambda>c. c \<noteq> CHR 0x0A) rest"
  have "CHR 0x0A \<in> set rest" using assms by (auto simp: take_line_def split: if_splits)
  from arg_cong [OF split_line [OF this], of length] have len: "length rest = length line + 1 + length (tl (dropWhile (\<lambda>c. c \<noteq> CHR 0x0A) rest))"
    by (simp add: line_def)
  have bl: "butlast line = [] \<Longrightarrow> line \<noteq> [] \<Longrightarrow> length line = 1" by (cases line rule: rev_cases) auto
  have "rest' = tl (dropWhile (\<lambda>c. c \<noteq> CHR 0x0A) rest) \<and> length b + length eol = length line + 1 \<and> 1 \<le> length eol"
    using assms bl unfolding take_line_def Let_def line_def [symmetric] by (auto split: if_splits)
  then show "length b + length eol + length rest' = length rest" "1 \<le> length eol" using len by simp_all
qed

lemma take_field_length: "take_field owner relaxed acc rest = Some (f, rest') \<Longrightarrow> length f + length rest' + 1 \<le> length acc + length rest"
proof (induction owner relaxed acc rest rule: take_field.induct)
  case (1 owner relaxed acc rest)
  from 1(2) obtain body eol r where t: "take_line owner relaxed (acc \<noteq> []) rest = Some (body, eol, r)"
    by (subst (asm) take_field.simps) (auto split: option.splits)
  note p = take_line_length [OF t]
  show ?case
  proof (cases "r \<noteq> [] \<and> (hd r = CHR '' '' \<or> hd r = CHR 0x09)")
    case True
    then have "take_field owner relaxed (acc @ body @ eol) r = Some (f, rest')" using 1(2) t by (subst (asm) take_field.simps) simp
    then show ?thesis using 1(1) [OF t refl refl True] p by simp
  next
    case False
    then have "take_field owner relaxed acc rest = Some (acc @ body, r)" using t by (subst take_field.simps) auto
    then show ?thesis using p 1(2) by simp
  qed
qed

section \<open>Safety\<close>

definition weight :: "header_entry list \<Rightarrow> nat" where
  "weight es = sum_list (map (\<lambda>e. length (he_name e) + length (he_value e) + 2) es)"

lemma weight_simps [simp]: "weight [] = 0" "weight (e # es) = length (he_name e) + length (he_value e) + 2 + weight es" "weight (es @ fs) = weight es + weight fs"
  by (simp_all add: weight_def)

lemma weight_filter: "weight (filter P es) \<le> weight es"
  by (induction es) auto

lemma lengths_weight: "lengths (values_of i es) \<le> weight es"
  by (induction es) (auto simp: lengths_def values_of_def)

definition lengths_given :: "http_header \<Rightarrow> header_entry list" where
  "lengths_given h = filter (\<lambda>e. he_id e = HDR_CONTENT_LENGTH) (hdr_fields h)"

lemma not_list_CL: "\<not> is_list_header HDR_CONTENT_LENGTH"
  by code_simp

lemma list_TE: "is_list_header HDR_TRANSFER_ENCODING"
  by code_simp

lemma delById_CL:
  assumes "hdr_inv h"
  shows "\<exists>h' n. delById HDR_CONTENT_LENGTH h = Inr (h', n) \<and> hdr_inv h' \<and> hh_owner h' = hh_owner h \<and> lengths_given h' = [] \<and>
    hdr_fields h' = filter (\<lambda>e. he_id e \<noteq> HDR_CONTENT_LENGTH) (hdr_fields h)"
proof -
  obtain h' where "delById HDR_CONTENT_LENGTH h = Inr (h', int (length (filter (\<lambda>e. he_id e = HDR_CONTENT_LENGTH) (hdr_fields h))))"
    "hdr_inv h'" "hdr_fields h' = filter (\<lambda>e. he_id e \<noteq> HDR_CONTENT_LENGTH) (hdr_fields h)" "hh_owner h' = hh_owner h"
    using delById_spec [OF assms, of HDR_CONTENT_LENGTH] by auto
  then show ?thesis by (auto simp: lengths_given_def)
qed

lemma check_content_length_spec:
  assumes "hdr_inv h"
  shows "check_content_length einval relaxed e h = Inr Skip \<or> check_content_length einval relaxed e h = Inr Reset \<or>
    (\<exists>h'. check_content_length einval relaxed e h = Inr (Keep h') \<and> hdr_inv h' \<and> hh_owner h' = hh_owner h \<and>
       weight (hdr_fields h') \<le> weight (hdr_fields h) \<and> length (lengths_given h') \<le> length (lengths_given h) \<and>
       (he_id e = HDR_CONTENT_LENGTH \<longrightarrow> lengths_given h' = []))"
proof (cases "he_id e = HDR_CONTENT_LENGTH")
  case True
  note f = findEntry_spec [OF assms not_list_CL]
  obtain h' n where d: "delById HDR_CONTENT_LENGTH h = Inr (h', n)" "hdr_inv h'" "hh_owner h' = hh_owner h" "lengths_given h' = []"
    "weight (hdr_fields h') \<le> weight (hdr_fields h)" using delById_CL [OF assms] weight_filter by auto
  show ?thesis
  proof (cases "find (\<lambda>x. he_id x = HDR_CONTENT_LENGTH) (hdr_fields h)")
    case None
    then have "lengths_given h = []" by (auto simp: find_None_iff lengths_given_def filter_empty_conv)
    then show ?thesis using True f None assms by (simp add: check_content_length_def)
  next
    case (Some e2)
    then show ?thesis using True f d by (auto simp: check_content_length_def split: option.splits)
  qed
qed (use assms in \<open>simp add: check_content_length_def\<close>)

text \<open>The cases of the loop.\<close>

lemma parse_fields_end: "parse_fields einval relaxed [] h = Inr (True, h)"
  by (subst parse_fields.simps) simp

lemma parse_fields_None: "rest \<noteq> [] \<Longrightarrow> take_field (hh_owner h) relaxed [] rest = None \<Longrightarrow> parse_fields einval relaxed rest h = Inr (False, h)"
  by (subst parse_fields.simps) simp

lemma parse_fields_blank:
  "rest \<noteq> [] \<Longrightarrow> take_field (hh_owner h) relaxed [] rest = Some ([], rest') \<Longrightarrow> parse_fields einval relaxed rest h = Inr (rest' = [], h)"
  by (subst parse_fields.simps) simp

lemma parse_fields_junk:
  "rest \<noteq> [] \<Longrightarrow> take_field (hh_owner h) relaxed [] rest = Some (field, rest') \<Longrightarrow> field \<noteq> [] \<Longrightarrow> entry_parse relaxed field = Inr None \<Longrightarrow>
   parse_fields einval relaxed rest h = (if relaxed \<noteq> 0 then parse_fields einval relaxed rest' h else Inr (False, h))"
  by (subst parse_fields.simps) simp

lemma parse_fields_entry:
  "rest \<noteq> [] \<Longrightarrow> take_field (hh_owner h) relaxed [] rest = Some (field, rest') \<Longrightarrow> field \<noteq> [] \<Longrightarrow> entry_parse relaxed field = Inr (Some e) \<Longrightarrow>
   check_content_length einval relaxed e h = Inr v \<Longrightarrow>
   parse_fields einval relaxed rest h =
     (case v of Reset \<Rightarrow> Inr (False, h) | Skip \<Rightarrow> parse_fields einval relaxed rest' h
      | Keep h1 \<Rightarrow> if he_id e = HDR_OTHER \<and> stringHasWhitespace (he_name e) \<and> relaxed = 0 then Inr (False, h1)
          else bindE (addEntry e h1) (parse_fields einval relaxed rest'))"
  by (subst parse_fields.simps) (auto split: field_verdict.split sum.split)

definition state_ok :: "hdr_owner \<Rightarrow> nat \<Rightarrow> http_header \<Rightarrow> bool" where
  "state_ok ow N h \<longleftrightarrow> hdr_inv h \<and> hh_owner h = ow \<and> weight (hdr_fields h) \<le> N \<and> length (lengths_given h) \<le> 1"

lemma state_ok_mono: "state_ok ow N h \<Longrightarrow> N \<le> M \<Longrightarrow> state_ok ow M h"
  by (auto simp: state_ok_def)

lemma entry_step:
  assumes "state_ok ow N h" "entry_ok e" "N + length (he_name e) + length (he_value e) + 2 \<le> M"
  obtains (skip) "check_content_length einval relaxed e h = Inr Skip" | (reset) "check_content_length einval relaxed e h = Inr Reset"
    | (keep) h1 h2 where "check_content_length einval relaxed e h = Inr (Keep h1)" "state_ok ow N h1" "addEntry e h1 = Inr h2" "state_ok ow M h2"
proof -
  have "hdr_inv h" using assms(1) by (simp add: state_ok_def)
  from check_content_length_spec [OF this, of einval relaxed e]
  consider "check_content_length einval relaxed e h = Inr Skip" | "check_content_length einval relaxed e h = Inr Reset"
    | h1 where "check_content_length einval relaxed e h = Inr (Keep h1)" "hdr_inv h1" "hh_owner h1 = hh_owner h"
        "weight (hdr_fields h1) \<le> weight (hdr_fields h)" "length (lengths_given h1) \<le> length (lengths_given h)"
        "he_id e = HDR_CONTENT_LENGTH \<longrightarrow> lengths_given h1 = []" by blast
  then show ?thesis
  proof cases
    case (3 h1)
    obtain h2 where h2: "addEntry e h1 = Inr h2" "hdr_inv h2" "hdr_fields h2 = hdr_fields h1 @ [e]" "hh_owner h2 = hh_owner h1"
      using addEntry_spec [OF 3(2) assms(2)] by auto
    have "state_ok ow N h1" using assms(1) 3 by (auto simp: state_ok_def)
    moreover have "state_ok ow M h2" using assms(1,3) 3 h2 by (auto simp: state_ok_def lengths_given_def)
    ultimately show ?thesis using keep 3(1) h2(1) by blast
  qed (use skip reset in blast)+
qed

lemma parse_fields_spec:
  assumes "state_ok ow N h" "N + length rest \<le> M"
  shows "\<exists>ok h'. parse_fields einval relaxed rest h = Inr (ok, h') \<and> state_ok ow M h'"
  using assms
proof (induction "length rest" arbitrary: rest h N rule: less_induct)
  case less
  have M: "state_ok ow M h" using state_ok_mono less.prems by simp
  consider (none) "rest = []" | (bad) "rest \<noteq> []" "take_field (hh_owner h) relaxed [] rest = None"
    | (blank) rest' where "rest \<noteq> []" "take_field (hh_owner h) relaxed [] rest = Some ([], rest')"
    | (field) field rest' where "rest \<noteq> []" "take_field (hh_owner h) relaxed [] rest = Some (field, rest')" "field \<noteq> []"
    by (metis option.exhaust prod.exhaust)
  then show ?case
  proof cases
    case field
    have len: "length field + length rest' + 1 \<le> length rest" using take_field_length [OF field(2)] by simp
    have IH: "\<exists>ok h'. parse_fields einval relaxed rest' h1 = Inr (ok, h') \<and> state_ok ow M h'"
      if "state_ok ow N1 h1" "N1 + length rest' \<le> M" for h1 N1 using less.hyps [of rest' N1 h1] that len by simp
    from entry_parse_spec [of relaxed field] show ?thesis
    proof
      assume "entry_parse relaxed field = Inr None"
      then show ?thesis using parse_fields_junk [OF field] IH [OF less.prems(1)] less.prems(2) len M by (cases "relaxed = 0") auto
    next
      assume "\<exists>e. entry_parse relaxed field = Inr (Some e) \<and> entry_ok e \<and> length (he_name e) + length (he_value e) + 1 \<le> length field"
      then obtain e where e: "entry_parse relaxed field = Inr (Some e)" "entry_ok e" "length (he_name e) + length (he_value e) + 1 \<le> length field" by blast
      have room: "N + length (he_name e) + length (he_value e) + 2 \<le> M - length rest'" using e(3) len less.prems(2) by linarith
      show ?thesis
      proof (cases rule: entry_step [OF less.prems(1) e(2) room, of einval relaxed])
        case 1
        then show ?thesis using parse_fields_entry [OF field e(1) 1] IH [OF less.prems(1)] less.prems(2) len by simp
      next
        case 2
        then show ?thesis using parse_fields_entry [OF field e(1) 2] M by auto
      next
        case keep: (3 h1 h2)
        have "M - length rest' + length rest' \<le> M" using len less.prems(2) by linarith
        moreover have "state_ok ow M h1" using state_ok_mono [OF keep(2)] less.prems(2) by simp
        ultimately show ?thesis using parse_fields_entry [OF field e(1) keep(1)] IH [OF keep(4)] keep(3) by auto
      qed
    qed
  qed (use M in \<open>auto simp: parse_fields_end parse_fields_None parse_fields_blank\<close>)
qed

definition empty_header :: "hdr_owner \<Rightarrow> http_header" where
  "empty_header owner = \<lparr>hh_owner = owner, hh_entries = [], hh_mask = {}, hh_len = 0\<rparr>"

lemma empty_header_inv: "owner \<noteq> hoNone \<Longrightarrow> hdr_inv (empty_header owner)"
  by (simp add: hdr_inv_def empty_header_def)

lemma chunked_spec:
  assumes "hdr_inv h" "weight (hdr_fields h) < 65535"
  shows "chunked h = Inr (values_of HDR_TRANSFER_ENCODING (hdr_fields h) \<noteq> [] \<and> is_member (joined (values_of HDR_TRANSFER_ENCODING (hdr_fields h))) ''chunked'' (CHR '',''))"
proof -
  have "lengths (values_of HDR_TRANSFER_ENCODING (hdr_fields h)) < 65535" using lengths_weight assms(2) by (rule le_less_trans)
  from getStrOrList_list [OF assms(1) list_TE this] show ?thesis
    using mask_values [OF assms(1), of HDR_TRANSFER_ENCODING] by (simp add: chunked_def has_field_def hasListMember_def)
qed

lemma hh_parse_spec:
  assumes "owner \<noteq> hoNone" "length block < 65535"
  shows "\<exists>ok h. hh_parse einval relaxed block (empty_header owner) = Inr (ok, h) \<and> hdr_inv h \<and>
    (if ok then length (lengths_given h) \<le> 1 \<and> (\<exists>c. chunked h = Inr c \<and> (c \<longrightarrow> lengths_given h = [])) else hdr_fields h = [])"
proof -
  let ?h0 = "empty_header owner"
  have reset: "\<exists>h'. hh_reset h = Inr (False, h') \<and> hdr_inv h' \<and> hdr_fields h' = []" if "hdr_inv h" for h
    using clean_spec [OF that] by (auto simp: hh_reset_def)
  show ?thesis
  proof (cases "CHR 0x00 \<in> set block")
    case True
    then show ?thesis using reset [OF empty_header_inv [OF assms(1)]] by (auto simp: hh_parse_def)
  next
    case False
    have "state_ok owner 0 ?h0" using empty_header_inv [OF assms(1)] by (simp add: state_ok_def empty_header_def lengths_given_def)
    then obtain ok h where p: "parse_fields einval relaxed block ?h0 = Inr (ok, h)" "hdr_inv h" "weight (hdr_fields h) \<le> length block" "length (lengths_given h) \<le> 1"
      using parse_fields_spec [of owner 0 ?h0 block "length block" einval relaxed] by (auto simp: state_ok_def)
    show ?thesis
    proof (cases ok)
      case False
      then show ?thesis using p(1) reset [OF p(2)] \<open>CHR 0x00 \<notin> set block\<close> by (auto simp: hh_parse_def)
    next
      case True
      have w: "weight (hdr_fields h) < 65535" using p(3) assms(2) by simp
      obtain c where c: "chunked h = Inr c" using chunked_spec [OF p(2) w] by blast
      obtain h' n where d: "delById HDR_CONTENT_LENGTH h = Inr (h', n)" "hdr_inv h'" "lengths_given h' = []" "weight (hdr_fields h') \<le> weight (hdr_fields h)"
        using delById_CL [OF p(2)] weight_filter by auto
      have "\<exists>c. chunked h' = Inr c" using chunked_spec [OF d(2)] d(4) w by auto
      then show ?thesis using True p c d \<open>CHR 0x00 \<notin> set block\<close> by (cases c) (auto simp: hh_parse_def)
    qed
  qed
qed


definition demo_block :: string where
  "demo_block = ''Content-Length: 5'' @ [CHR 0x0D, CHR 0x0A] @ ''Transfer-Encoding: chunked'' @ [CHR 0x0A] @ ''Content-Length: 7'' @ [CHR 0x0A]"


section \<open>Printing and parsing\<close>

definition name_char :: "char \<Rightarrow> bool" where
  "name_char c \<longleftrightarrow> c \<noteq> CHR '':'' \<and> c \<noteq> CHR 0x00 \<and> \<not> xisspace c"

definition value_char :: "char \<Rightarrow> bool" where
  "value_char c \<longleftrightarrow> c \<noteq> CHR 0x0D \<and> c \<noteq> CHR 0x0A \<and> c \<noteq> CHR 0x00"

text \<open>Entries that a line of their own can hold.\<close>

definition printable :: "header_entry \<Rightarrow> bool" where
  "printable e \<longleftrightarrow> entry_ok e \<and> list_all name_char (he_name e) \<and> (he_id e = HDR_OTHER \<longrightarrow> httpHeaderIdByName (he_name e) = None) \<and>
     list_all value_char (he_value e) \<and> (he_value e \<noteq> [] \<longrightarrow> \<not> xisspace (hd (he_value e)) \<and> \<not> xisspace (last (he_value e)))"

lemma printableD:
  assumes "printable e"
  shows "entry_ok e" "list_all name_char (he_name e)" "he_id e = HDR_OTHER \<Longrightarrow> httpHeaderIdByName (he_name e) = None"
    "list_all value_char (he_value e)" "he_value e \<noteq> [] \<Longrightarrow> \<not> xisspace (hd (he_value e))" "he_value e \<noteq> [] \<Longrightarrow> \<not> xisspace (last (he_value e))"
    "he_name e \<noteq> []" "length (he_name e) \<le> 65534" "length (he_value e) \<le> 65534"
  using assms unfolding printable_def entry_ok_def by blast+

lemma rtrim_id: "s = [] \<or> \<not> xisspace (last s) \<Longrightarrow> rtrim s = s"
  by (cases s rule: rev_cases) (auto simp: rtrim_def)

lemma not_space_CR: "xisspace (CHR 0x0D)" "xisspace (CHR 0x0A)" "xisspace (CHR '' '')" "xisspace (CHR 0x09)"
  by code_simp+

definition entry_line :: "header_entry \<Rightarrow> string" where
  "entry_line e = he_name e @ '': '' @ he_value e"

lemma entry_line_chars:
  assumes "printable e"
  shows "CHR 0x0A \<notin> set (entry_line e)" "CHR 0x0D \<notin> set (entry_line e)" "CHR 0x00 \<notin> set (entry_line e)"
  using printableD(2,4) [OF assms] not_space_CR by (auto simp: entry_line_def list_all_iff name_char_def value_char_def)

lemma entry_parse_line:
  assumes "printable e"
  shows "entry_parse relaxed (entry_line e) = Inr (Some e)"
proof -
  note d = printableD [OF assms]
  have "takeWhile (\<lambda>c. c \<noteq> CHR '':'') (entry_line e) = he_name e"
    unfolding entry_line_def append_Cons append_Nil using d(2) by (intro takeWhile_stop) (auto simp: list_all_iff name_char_def)
  then have nm0: "(if CHR '':'' \<in> set (entry_line e) then takeWhile (\<lambda>c. c \<noteq> CHR '':'') (entry_line e) else []) = he_name e"
    by (simp add: entry_line_def)
  have nm: "(if relaxed \<noteq> 0 \<and> xisspace (last (he_name e)) then rtrim (he_name e) else he_name e) = he_name e"
    using d(2,7) by (auto simp: list_all_iff name_char_def)
  have i: "(case httpHeaderIdByName (he_name e) of None \<Rightarrow> HDR_OTHER | Some i \<Rightarrow> i) = he_id e"
    using d(1,3,7) id_of_field_name [of "he_id e"] by (cases "he_id e = HDR_OTHER") (auto simp: entry_ok_def)
  have "drop (length (he_name e) + 1) (entry_line e) = CHR '' '' # he_value e" by (simp add: entry_line_def)
  moreover have "dropWhile xisspace (CHR '' '' # he_value e) = he_value e" using d(5) not_space_CR(3) by (cases "he_value e") auto
  ultimately have v: "rtrim (dropWhile xisspace (drop (length (he_name e) + 1) (entry_line e))) = he_value e"
    using rtrim_id d(6) by auto
  have n: "(if he_id e = HDR_OTHER then he_name e else field_name (he_id e)) = he_name e" using d(1) by (auto simp: entry_ok_def)
  have "new_entry (he_id e) (he_name e) (he_value e) = Inr e" using clone_ok [OF d(1)] by (simp add: entry_clone_def)
  then show ?thesis unfolding entry_parse_def Let_def nm0 nm i v n using d(7-9) by (simp add: new_string_def)
qed

lemma take_field_line:
  assumes "printable e" "rest = [] \<or> hd rest \<noteq> CHR '' '' \<and> hd rest \<noteq> CHR 0x09"
  shows "take_field owner relaxed [] (entry_packInto e @ rest) = Some (entry_line e, rest)"
proof -
  note ch = entry_line_chars [OF assms(1)]
  have eq: "entry_packInto e @ rest = (entry_line e @ [CHR 0x0D]) @ CHR 0x0A # rest" by (simp add: entry_packInto_def entry_line_def)
  have tw: "takeWhile (\<lambda>c. c \<noteq> CHR 0x0A) (entry_packInto e @ rest) = entry_line e @ [CHR 0x0D]"
    unfolding eq using ch(1) by (intro takeWhile_stop) (auto simp: list_all_iff)
  have dw: "dropWhile (\<lambda>c. c \<noteq> CHR 0x0A) (entry_packInto e @ rest) = CHR 0x0A # rest"
    unfolding eq using ch(1) by (subst dropWhile_append2) auto
  have colon: "CHR '':'' \<in> set (entry_line e)" by (simp add: entry_line_def)
  then have "\<not> list_all (\<lambda>c. c = CHR 0x0D) (entry_line e)" by (auto simp: list_all_iff)
  moreover have "map (\<lambda>c. if c = CHR 0x0D then CHR '' '' else c) (entry_line e) = entry_line e" using ch(2) by (intro map_idI) auto
  moreover have "CHR 0x0A \<in> set (entry_packInto e @ rest)" by (simp add: entry_packInto_def)
  ultimately have "take_line owner relaxed False (entry_packInto e @ rest) = Some (entry_line e, [CHR 0x0D, CHR 0x0A], rest)"
    unfolding take_line_def Let_def tw dw using ch(2) by simp
  then show ?thesis using assms(2) by (subst take_field.simps) auto
qed

text \<open>The parser adds the entries of a printed list one by one.\<close>

lemma parse_printed:
  assumes "hdr_inv h" "list_all printable es" "length (filter (\<lambda>e. he_id e = HDR_CONTENT_LENGTH) (hdr_fields h @ es)) \<le> 1"
  shows "parse_fields einval relaxed (concat (map entry_packInto es)) h = bindE (foldE (\<lambda>h e. add_clone e h) es h) (\<lambda>h. Inr (True, h))"
  using assms
proof (induction es arbitrary: h)
  case (Cons e es)
  let ?rest = "concat (map entry_packInto es)"
  have e: "printable e" using Cons.prems(2) by simp
  have "?rest = [] \<or> hd ?rest \<noteq> CHR '' '' \<and> hd ?rest \<noteq> CHR 0x09"
  proof (cases es)
    case (Cons f fs)
    then have f: "printable f" using Cons.prems(2) by simp
    then have "name_char (hd (he_name f))" using printableD(2,7) [OF f] by (cases "he_name f") auto
    then show ?thesis using Cons printableD(7) [OF f] not_space_CR by (auto simp: entry_packInto_def name_char_def)
  qed simp
  note tf = take_field_line [OF e this]
  have ne: "entry_packInto e @ ?rest \<noteq> []" "entry_line e \<noteq> []" by (auto simp: entry_packInto_def entry_line_def)
  have "check_content_length einval relaxed e h = Inr (Keep h)"
  proof (cases "he_id e = HDR_CONTENT_LENGTH")
    case True
    then have "filter (\<lambda>e. he_id e = HDR_CONTENT_LENGTH) (hdr_fields h) = []" using Cons.prems(3) by simp
    then have "find (\<lambda>x. he_id x = HDR_CONTENT_LENGTH) (hdr_fields h) = None" by (auto simp: find_None_iff filter_empty_conv)
    then show ?thesis using True findEntry_spec [OF Cons.prems(1) not_list_CL] by (simp add: check_content_length_def)
  qed (simp add: check_content_length_def)
  moreover have "\<not> stringHasWhitespace (he_name e)"
    using printableD(2) [OF e] w_space_xisspace by (auto simp: stringHasWhitespace_def list_ex_iff list_all_iff name_char_def)
  moreover obtain h1 where h1: "addEntry e h = Inr h1" "add_clone e h = Inr h1" "hdr_inv h1" "hdr_fields h1 = hdr_fields h @ [e]"
    using addEntry_spec [OF Cons.prems(1) printableD(1) [OF e]] by (auto simp: add_clone_def clone_ok [OF printableD(1) [OF e]])
  ultimately show ?case
    using parse_fields_entry [OF ne(1) tf ne(2) entry_parse_line [OF e]] Cons.IH [OF h1(3)] Cons.prems(2,3) h1 by simp
qed (simp add: parse_fields_end)

lemma pack_fields: "hh_packInto False h = Inr (concat (map entry_packInto (hdr_fields h)))"
proof -
  have "fold (\<lambda>e out. out @ entry_packInto e) es out = out @ concat (map entry_packInto es)" for es out
    by (induction es arbitrary: out) auto
  then show ?thesis unfolding hh_packInto_def for_entries_fields
    by (subst foldE_total [where g = "\<lambda>e out. out @ entry_packInto e"]) simp_all
qed

lemma print_parse:
  assumes "hdr_inv h" "list_all printable (hdr_fields h)" "length (lengths_given h) \<le> 1" "chunked h = Inr False"
  shows "\<exists>text. hh_packInto False h = Inr text \<and> hh_parse einval relaxed text (empty_header (hh_owner h)) = Inr (True, compact h)"
proof -
  let ?text = "concat (map entry_packInto (hdr_fields h))" and ?h0 = "empty_header (hh_owner h)"
  have h0: "hdr_inv ?h0" "hdr_fields ?h0 = []" using empty_header_inv hdr_invD(1) [OF assms(1)] by (simp_all add: empty_header_def)
  have items: "filter (\<lambda>x. x \<noteq> None) xs = map Some (somes xs)" for xs :: "header_entry option list" by (induction xs rule: somes.induct) auto
  have all_ok: "list_all entry_ok (hdr_fields h)" using assms(1) by (simp add: hdr_inv_def)
  have "compact h = ?h0\<lparr>hh_mask := hh_mask ?h0 \<union> he_id ` set (hdr_fields h), hh_entries := hh_entries ?h0 @ map Some (hdr_fields h),
      hh_len := hh_len ?h0 + sizes (hdr_fields h)\<rparr>"
    unfolding compact_def items using hdr_invD(2,3) [OF assms(1)] by (simp add: empty_header_def)
  then have "foldE (\<lambda>h e. add_clone e h) (hdr_fields h) ?h0 = Inr (compact h)" using add_clones [OF all_ok, of ?h0] by simp
  then have run: "parse_fields einval relaxed ?text ?h0 = Inr (True, compact h)"
    using parse_printed [OF h0(1) assms(2), of einval relaxed] h0(2) assms(3) by (simp add: lengths_given_def)
  have nul: "CHR 0x00 \<notin> set ?text"
    using assms(2) entry_line_chars(3) by (auto simp: list_all_iff entry_packInto_def entry_line_def)
  have "chunked (compact h) = chunked h" using compact_spec [OF assms(1)]
    by (simp add: chunked_def has_field_def hasListMember_def getStrOrList_def getList_def for_entries_fields list_TE compact_def)
  then show ?thesis using pack_fields run nul assms(4) by (simp add: hh_parse_def)
qed


lemma demo_printable: "list_all printable (hdr_fields demo_hdr)"
proof -
  have "field_name HDR_HOST = ''Host''" "field_name HDR_CONNECTION = ''Connection''" by code_simp+
  moreover have "httpHeaderIdByName ''X-Hop'' = None"
    by (simp add: httpHeaderIdByName_def HeadersAttrs_def same_prefix_def lower_chars)
  moreover have "list_all name_char ''Host''" "list_all name_char ''Connection''" "list_all name_char ''X-Hop''" by code_simp+
  moreover have "list_all value_char ''a.com''" "list_all value_char ''close, X-Hop''" "list_all value_char ''1''" by code_simp+
  moreover have "\<not> xisspace (CHR ''a'')" "\<not> xisspace (CHR ''m'')" "\<not> xisspace (CHR ''c'')" "\<not> xisspace (CHR ''p'')" "\<not> xisspace (CHR ''1'')" by code_simp+
  ultimately show ?thesis by (simp add: demo_hdr_def printable_def entry_ok_def)
qed


section \<open>What the routines miss\<close>

text \<open>A list member is not recognised when white space separates it from the next delimiter, although the scanner of lists
  would drop the space.\<close>

lemma member_before_space: "\<not> is_member ''chunked , x'' ''chunked'' (CHR '','')" "is_member ''chunked, x'' ''chunked'' (CHR '','')"
  by code_simp+

text \<open>A message with such a Transfer-Encoding keeps its Content-Length.\<close>

definition two_lengths :: http_header where
  "two_lengths = \<lparr>hh_owner = hoRequest,
     hh_entries = [Some \<lparr>he_id = HDR_CONTENT_LENGTH, he_name = ''Content-Length'', he_value = ''5''\<rparr>,
       Some \<lparr>he_id = HDR_TRANSFER_ENCODING, he_name = ''Transfer-Encoding'', he_value = ''chunked , x''\<rparr>],
     hh_mask = {HDR_CONTENT_LENGTH, HDR_TRANSFER_ENCODING}, hh_len = 19 + 32\<rparr>"

lemma two_lengths_kept:
  "\<exists>text. hh_packInto False two_lengths = Inr text \<and> hh_parse True 0 text (empty_header hoRequest) = Inr (True, compact two_lengths) \<and>
     lengths_given (compact two_lengths) \<noteq> []"
proof -
  have nm: "field_name HDR_CONTENT_LENGTH = ''Content-Length''" "field_name HDR_TRANSFER_ENCODING = ''Transfer-Encoding''" by code_simp+
  then have inv: "hdr_inv two_lengths" by (simp add: hdr_inv_def two_lengths_def entry_ok_def entry_size_def)
  have "list_all name_char ''Content-Length''" "list_all name_char ''Transfer-Encoding''" "list_all value_char ''5''" "list_all value_char ''chunked , x''"
    "\<not> xisspace (CHR ''5'')" "\<not> xisspace (CHR ''c'')" "\<not> xisspace (CHR ''x'')" by code_simp+
  with nm have pr: "list_all printable (hdr_fields two_lengths)" by (simp add: two_lengths_def printable_def entry_ok_def)
  have "chunked two_lengths = Inr False"
    using chunked_spec [OF inv] member_before_space(1) by (simp add: two_lengths_def values_of_def joined_def join_value_def)
  then show ?thesis using print_parse [OF inv pr, of True 0] by (auto simp: two_lengths_def lengths_given_def compact_def)
qed

end
