(* ===== verification/Swap_Meta.thy ===== *)
theory Swap_Meta
  imports Dns_Codec
begin

text \<open>
  The meta data in front of a cached object on disk: \<^verbatim>\<open>src/StoreMeta.cc\<close> and its classes, the packing in
  \<^verbatim>\<open>src/store_swapmeta.cc\<close>, the unpacker \<^verbatim>\<open>src/StoreMetaUnpacker.cc\<close>, and the two readers of unpacked meta data:
  \<^verbatim>\<open>storeRebuildParseEntry()\<close> of \<^verbatim>\<open>src/store_rebuild.cc\<close>, which indexes the files of a cache directory, and
  \<^verbatim>\<open>store_client::unpackHeader()\<close> of \<^verbatim>\<open>src/store_client.cc\<close>, which serves a hit.  The format is native: an
  \<^verbatim>\<open>int\<close> has 32 bits, \<^verbatim>\<open>time_t\<close> and \<^verbatim>\<open>size_t\<close> have 64, the octets of a number are stored the lowest first.
  An \<^verbatim>\<open>int\<close> is a 32-bit word that is compared as a signed number and whose additions wrap around.  A linked list of
  \<^verbatim>\<open>StoreMeta\<close> is a list, with \<^verbatim>\<open>NULL\<close> for the empty one.  Reads outside an allocation are the fault \<open>OutOfBounds\<close>.  The
  unpacking loop may fail to end: it is a partial function, and \<open>None\<close> stands for a call that does not return.
\<close>

section \<open>Numbers in memory\<close>

fun le_octets :: "nat \<Rightarrow> nat \<Rightarrow> bytes" where
  "le_octets 0 x = []"
| "le_octets (Suc n) x = of_nat x # le_octets n (x div 256)"

fun le_value :: "bytes \<Rightarrow> nat" where
  "le_value [] = 0"
| "le_value (b # bs) = unat b + 256 * le_value bs"

definition int_octets :: "32 word \<Rightarrow> bytes" where
  "int_octets w = le_octets 4 (unat w)"

definition octets_int :: "bytes \<Rightarrow> 32 word" where
  "octets_int v = of_nat (le_value v)"

definition read_at :: "bytes \<Rightarrow> int \<Rightarrow> nat \<Rightarrow> bytes outcome" where
  "read_at buf off n = (if off < 0 then Inl OutOfBounds else read_octets buf (nat off) n)"

section \<open>Meta data records\<close>

abbreviation STORE_META_OK :: byte where "STORE_META_OK \<equiv> 3"
abbreviation STORE_META_VOID :: byte where "STORE_META_VOID \<equiv> 0"
abbreviation STORE_META_KEY_URL :: byte where "STORE_META_KEY_URL \<equiv> 1"
abbreviation STORE_META_KEY_SHA :: byte where "STORE_META_KEY_SHA \<equiv> 2"
abbreviation STORE_META_KEY :: byte where "STORE_META_KEY \<equiv> 3"
abbreviation STORE_META_URL :: byte where "STORE_META_URL \<equiv> 4"
abbreviation STORE_META_STD :: byte where "STORE_META_STD \<equiv> 5"
abbreviation STORE_META_HITMETERING :: byte where "STORE_META_HITMETERING \<equiv> 6"
abbreviation STORE_META_VALID :: byte where "STORE_META_VALID \<equiv> 7"
abbreviation STORE_META_VARY_HEADERS :: byte where "STORE_META_VARY_HEADERS \<equiv> 8"
abbreviation STORE_META_STD_LFS :: byte where "STORE_META_STD_LFS \<equiv> 9"
abbreviation STORE_META_OBJSIZE :: byte where "STORE_META_OBJSIZE \<equiv> 10"
abbreviation STORE_META_STOREURL :: byte where "STORE_META_STOREURL \<equiv> 11"
abbreviation STORE_META_VARY_ID :: byte where "STORE_META_VARY_ID \<equiv> 12"
abbreviation STORE_META_END :: byte where "STORE_META_END \<equiv> 13"

abbreviation SQUID_MD5_DIGEST_LENGTH :: nat where "SQUID_MD5_DIGEST_LENGTH \<equiv> 16"
abbreviation STORE_HDR_METASIZE :: nat where "STORE_HDR_METASIZE \<equiv> 44"
abbreviation STORE_HDR_METASIZE_OLD :: nat where "STORE_HDR_METASIZE_OLD \<equiv> 44"

datatype meta_class = StoreMetaMD5 | StoreMetaURL | StoreMetaSTD | StoreMetaSTDLFS | StoreMetaObjSize | StoreMetaVary

record store_meta =
  sm_class :: meta_class
  sm_length :: "32 word"
  sm_value :: bytes

fun getType :: "meta_class \<Rightarrow> byte" where
  "getType StoreMetaMD5 = STORE_META_KEY"
| "getType StoreMetaURL = STORE_META_URL"
| "getType StoreMetaSTD = STORE_META_STD"
| "getType StoreMetaSTDLFS = STORE_META_STD_LFS"
| "getType StoreMetaObjSize = STORE_META_OBJSIZE"
| "getType StoreMetaVary = STORE_META_VARY_HEADERS"

definition validType :: "byte \<Rightarrow> bool" where
  "validType type =
     (if sint type \<le> sint STORE_META_VOID \<or> sint type \<ge> sint STORE_META_END + 10 then False
      else if sint type \<ge> sint STORE_META_END \<or> type = STORE_META_STOREURL \<or> type = STORE_META_VARY_ID then False
      else if type = STORE_META_KEY_URL \<or> type = STORE_META_KEY_SHA \<or> type = STORE_META_HITMETERING \<or> type = STORE_META_VALID then False
      else True)"

definition int_range_includes :: "int \<Rightarrow> int \<Rightarrow> int \<Rightarrow> bool" where
  "int_range_includes minimum maximum n =
     (let (lo, hi) = (if minimum > maximum then (maximum, minimum) else (minimum, maximum)) in \<not> (n < lo \<or> n > hi))"

definition MinimumTLVLength :: int where
  "MinimumTLVLength = 0"

definition MaximumTLVLength :: int where
  "MaximumTLVLength = 65536"

fun validLength :: "meta_class \<Rightarrow> 32 word \<Rightarrow> bool" where
  "validLength StoreMetaMD5 len = (sint len = int SQUID_MD5_DIGEST_LENGTH)"
| "validLength StoreMetaSTD len = (sint len = int STORE_HDR_METASIZE_OLD)"
| "validLength StoreMetaSTDLFS len = (sint len = int STORE_HDR_METASIZE)"
| "validLength c len = int_range_includes MinimumTLVLength MaximumTLVLength (sint len)"

definition meta_class_of :: "byte \<Rightarrow> meta_class option" where
  "meta_class_of type =
     (if type = STORE_META_KEY then Some StoreMetaMD5
      else if type = STORE_META_URL then Some StoreMetaURL
      else if type = STORE_META_STD then Some StoreMetaSTD
      else if type = STORE_META_STD_LFS then Some StoreMetaSTDLFS
      else if type = STORE_META_OBJSIZE then Some StoreMetaObjSize
      else if type = STORE_META_VARY_HEADERS then Some StoreMetaVary
      else None)"

text \<open>The value is the memory at offset \<open>off\<close> of the allocation \<open>mem\<close>; \<^verbatim>\<open>len\<close> is a \<^verbatim>\<open>size_t\<close>.\<close>

definition meta_Factory :: "byte \<Rightarrow> 64 word \<Rightarrow> bytes \<Rightarrow> int \<Rightarrow> store_meta option outcome" where
  "meta_Factory type len mem off =
     (if \<not> validType type then Inr None
      else case meta_class_of type of
        None \<Rightarrow> Inr None
      | Some c \<Rightarrow>
          if \<not> validLength c (ucast len) then Inr None
          else bindE (read_at mem off (unat len)) (\<lambda>v. Inr (Some \<lparr>sm_class = c, sm_length = ucast len, sm_value = v\<rparr>)))"

section \<open>Unpacking\<close>

record unpacker =
  um_buf :: bytes
  um_buflen :: int
  um_hdr_len :: "32 word"
  um_position :: "32 word"
  um_type :: byte
  um_length :: "32 word"
  um_tlv :: "store_meta list"

text \<open>The type and the length of a record are uninitialized until the first record is read.\<close>

definition new_unpacker :: "bytes \<Rightarrow> int \<Rightarrow> 32 word \<Rightarrow> unpacker" where
  "new_unpacker aBuffer aLen anInt =
     \<lparr>um_buf = aBuffer, um_buflen = aLen, um_hdr_len = anInt, um_position = 5, um_type = 0, um_length = 0, um_tlv = []\<rparr>"

definition MinimumBufferLength :: "32 word" where
  "MinimumBufferLength = 5"

function zero_from :: "bytes \<Rightarrow> nat \<Rightarrow> nat \<Rightarrow> bool outcome" where
  "zero_from buf i depth =
     (if i < depth then bindE (read_octets buf i 1) (\<lambda>v. if v ! 0 \<noteq> 0 then Inr False else zero_from buf (Suc i) depth) else Inr True)"
  by pat_completeness auto

termination by (relation "measure (\<lambda>(buf, i, depth). depth - i)") auto

declare zero_from.simps [simp del]

definition isBufferZero :: "unpacker \<Rightarrow> bool outcome" where
  "isBufferZero u = (if um_buflen u < 10 then Inr False else zero_from (um_buf u) 0 10)"

definition getBufferLength :: "unpacker \<Rightarrow> unpacker outcome" where
  "getBufferLength u = bindE (read_octets (um_buf u) 1 4) (\<lambda>v. Inr (u\<lparr>um_hdr_len := octets_int v\<rparr>))"

definition isBufferSane :: "unpacker \<Rightarrow> (bool \<times> unpacker) outcome" where
  "isBufferSane u =
     bindE (read_octets (um_buf u) 0 1) (\<lambda>v.
       if v ! 0 \<noteq> STORE_META_OK then Inr (False, u)
       else bindE (getBufferLength u) (\<lambda>u.
         if sint (um_hdr_len u) < sint MinimumBufferLength then Inr (False, u)
         else if sint (um_hdr_len u) > um_buflen u then Inr (False, u)
         else Inr (True, u)))"

definition get_type :: "unpacker \<Rightarrow> unpacker outcome" where
  "get_type u = bindE (read_at (um_buf u) (sint (um_position u)) 1) (\<lambda>v.
     Inr (u\<lparr>um_type := v ! 0, um_position := um_position u + 1\<rparr>))"

definition getLength :: "unpacker \<Rightarrow> unpacker outcome" where
  "getLength u = bindE (read_at (um_buf u) (sint (um_position u)) 4) (\<lambda>v.
     Inr (u\<lparr>um_length := octets_int v, um_position := um_position u + 4\<rparr>))"

definition add_node :: "store_meta option \<Rightarrow> unpacker \<Rightarrow> unpacker" where
  "add_node newNode u = (case newNode of None \<Rightarrow> u | Some n \<Rightarrow> u\<lparr>um_tlv := um_tlv u @ [n]\<rparr>)"

definition doOneEntry :: "unpacker \<Rightarrow> (bool \<times> unpacker) outcome" where
  "doOneEntry u =
     bindE (get_type u) (\<lambda>u. bindE (getLength u) (\<lambda>u.
       if sint (um_position u + um_length u) > sint (um_hdr_len u) then Inr (False, u)
       else bindE (meta_Factory (um_type u) (scast (um_length u)) (um_buf u) (sint (um_position u))) (\<lambda>newNode.
         Inr (True, (add_node newNode u)\<lparr>um_position := um_position u + um_length u\<rparr>))))"

definition moreToProcess :: "unpacker \<Rightarrow> bool" where
  "moreToProcess u = (0 \<le> sint (um_hdr_len u - um_position u - MinimumBufferLength))"

partial_function (option) entries_loop :: "unpacker \<Rightarrow> unpacker outcome option" where
  "entries_loop u =
     (if moreToProcess u then
        case doOneEntry u of
          Inl e \<Rightarrow> Some (Inl e)
        | Inr (ok, u') \<Rightarrow> if ok then entries_loop u' else Some (Inr u')
      else Some (Inr u))"

declare entries_loop.simps [code]

definition createStoreMeta :: "unpacker \<Rightarrow> (store_meta list \<times> unpacker) outcome option" where
  "createStoreMeta u =
     (case isBufferSane u of
        Inl e \<Rightarrow> Some (Inl e)
      | Inr (sane, u) \<Rightarrow>
          if \<not> sane then Some (Inr ([], u))
          else (case getBufferLength u of
             Inl e \<Rightarrow> Some (Inl e)
           | Inr u \<Rightarrow>
               if um_position u \<noteq> 5 then Some (Inl AssertFault)
               else map_option (\<lambda>r. bindE r (\<lambda>u. Inr (um_tlv u, u))) (entries_loop (u\<lparr>um_tlv := []\<rparr>))))"

section \<open>Packing\<close>

text \<open>The part of a \<^verbatim>\<open>StoreEntry\<close> that is written to disk, and what the readers use of its \<^verbatim>\<open>MemObject\<close>.\<close>

record disk_entry =
  de_key :: bytes
  de_timestamp :: "64 word"
  de_lastref :: "64 word"
  de_expires :: "64 word"
  de_lastmod :: "64 word"
  de_swap_file_sz :: "64 word"
  de_refcount :: "16 word"
  de_flags :: "16 word"

record disk_object =
  do_url :: "bytes option"
  do_vary_headers :: "bytes option"
  do_swap_hdr_sz :: "64 word"
  do_object_sz :: "64 word"

definition KEY_PRIVATE_bit :: nat where
  "KEY_PRIVATE_bit = 7"

text \<open>The memory from \<^verbatim>\<open>timestamp\<close> to \<^verbatim>\<open>flags\<close> of an entry.\<close>

definition std_octets :: "disk_entry \<Rightarrow> bytes" where
  "std_octets e = le_octets 8 (unat (de_timestamp e)) @ le_octets 8 (unat (de_lastref e)) @ le_octets 8 (unat (de_expires e)) @
     le_octets 8 (unat (de_lastmod e)) @ le_octets 8 (unat (de_swap_file_sz e)) @
     le_octets 2 (unat (de_refcount e)) @ le_octets 2 (unat (de_flags e))"

definition set_std :: "bytes \<Rightarrow> disk_entry \<Rightarrow> disk_entry" where
  "set_std v e = e\<lparr>de_timestamp := of_nat (le_value (bytes_at v 0 8)), de_lastref := of_nat (le_value (bytes_at v 8 8)),
     de_expires := of_nat (le_value (bytes_at v 16 8)), de_lastmod := of_nat (le_value (bytes_at v 24 8)),
     de_swap_file_sz := of_nat (le_value (bytes_at v 32 8)), de_refcount := of_nat (le_value (bytes_at v 40 2)),
     de_flags := of_nat (le_value (bytes_at v 42 2))\<rparr>"

text \<open>
  A step of \<^verbatim>\<open>storeSwapMetaBuild()\<close>: a record that cannot be made frees the list, and \<^verbatim>\<open>NULL\<close> is returned.
\<close>

definition build_step :: "byte \<Rightarrow> nat \<Rightarrow> bytes \<Rightarrow> store_meta list option outcome \<Rightarrow> store_meta list option outcome" where
  "build_step type n v r = bindE r (\<lambda>r. case r of None \<Rightarrow> Inr None | Some l \<Rightarrow>
     bindE (meta_Factory type (of_nat n) v 0) (\<lambda>t. Inr (case t of None \<Rightarrow> None | Some t \<Rightarrow> Some (l @ [t]))))"

definition storeSwapMetaBuild :: "bool \<Rightarrow> 64 word \<Rightarrow> disk_entry \<Rightarrow> disk_object option \<Rightarrow> store_meta list option outcome" where
  "storeSwapMetaBuild swapout_writing objsize e mem_obj =
     (case mem_obj of
        None \<Rightarrow> Inl AssertFault
      | Some m \<Rightarrow> guardE swapout_writing AssertFault
          (case do_url m of
             None \<Rightarrow> Inl OutOfBounds
           | Some url \<Rightarrow>
               let r = build_step STORE_META_URL (length url + 1) (url @ [0]) (build_step STORE_META_STD_LFS STORE_HDR_METASIZE (std_octets e)
                         (build_step STORE_META_KEY SQUID_MD5_DIGEST_LENGTH (de_key e) (Inr (Some []))));
                   r = (if 0 \<le> sint objsize then build_step STORE_META_OBJSIZE 8 (le_octets 8 (unat objsize)) r else r)
               in (case do_vary_headers m of None \<Rightarrow> r | Some vary \<Rightarrow> build_step STORE_META_VARY_HEADERS (length vary + 1) (vary @ [0]) r)))"

fun pack_loop :: "store_meta list \<Rightarrow> bytes \<Rightarrow> nat \<Rightarrow> (bytes \<times> nat) outcome" where
  "pack_loop [] buf j = Inr (buf, j)"
| "pack_loop (t # ts) buf j =
     bindE (write_octets buf j [getType (sm_class t)]) (\<lambda>buf.
     bindE (write_octets buf (j + 1) (int_octets (sm_length t))) (\<lambda>buf.
     bindE (read_octets (sm_value t) 0 (unat (sm_length t))) (\<lambda>v.
     bindE (write_octets buf (j + 5) v) (\<lambda>buf. pack_loop ts buf (j + 5 + unat (sm_length t))))))"

text \<open>\<open>garbage n\<close> is the content of a fresh allocation of \<open>n\<close> octets.\<close>

definition storeSwapMetaPack :: "(nat \<Rightarrow> bytes) \<Rightarrow> store_meta list \<Rightarrow> (bytes \<times> 32 word) outcome" where
  "storeSwapMetaPack garbage tlv_list =
     (let buflen = foldl (\<lambda>n t. n + (1 + 4 + sm_length t)) 5 tlv_list; buf = garbage (unat buflen)
      in bindE (write_octets buf 0 [STORE_META_OK]) (\<lambda>buf.
         bindE (write_octets buf 1 (int_octets buflen)) (\<lambda>buf.
         bindE (pack_loop tlv_list buf 5) (\<lambda>(buf, j).
         guardE (int j = sint buflen) AssertFault (Inr (buf, buflen))))))"

section \<open>Reading the meta data while the index is rebuilt\<close>

definition init_store_entry :: "store_meta \<Rightarrow> disk_entry \<times> bytes \<Rightarrow> (disk_entry \<times> bytes) outcome" where
  "init_store_entry x = (\<lambda>(what, index).
     if getType (sm_class x) = STORE_META_KEY then
       guardE (sint (sm_length x) = int SQUID_MD5_DIGEST_LENGTH) AssertFault
         (bindE (read_octets (sm_value x) 0 SQUID_MD5_DIGEST_LENGTH) (\<lambda>v. Inr (what, v)))
     else if getType (sm_class x) = STORE_META_STD then
       guardE (sint (sm_length x) = int STORE_HDR_METASIZE_OLD) AssertFault
         (bindE (read_octets (sm_value x) 0 STORE_HDR_METASIZE_OLD) (\<lambda>v. Inr (set_std v what, index)))
     else if getType (sm_class x) = STORE_META_STD_LFS then
       guardE (sint (sm_length x) = int STORE_HDR_METASIZE) AssertFault
         (bindE (read_octets (sm_value x) 0 STORE_HDR_METASIZE) (\<lambda>v. Inr (set_std v what, index)))
     else Inr (what, index))"

fun visit_all :: "store_meta list \<Rightarrow> disk_entry \<times> bytes \<Rightarrow> (disk_entry \<times> bytes) outcome" where
  "visit_all [] s = Inr s"
| "visit_all (x # xs) s = bindE (init_store_entry x s) (visit_all xs)"

definition storeKeyNull :: "bytes \<Rightarrow> bool" where
  "storeKeyNull k = (take SQUID_MD5_DIGEST_LENGTH k = replicate SQUID_MD5_DIGEST_LENGTH 0)"

text \<open>The size test: \<open>None\<close> rejects the entry.\<close>

definition check_sizes :: "64 word \<Rightarrow> 32 word \<Rightarrow> 64 word \<Rightarrow> 64 word option" where
  "check_sizes expectedSize swap_hdr_len sz =
     (if expectedSize > 0 then
        (if sz = 0 then Some expectedSize
         else if sz = expectedSize - scast swap_hdr_len then Some expectedSize
         else if sz \<noteq> expectedSize then None
         else Some sz)
      else if sz \<le> 0 then None else Some sz)"

text \<open>
  The result is the returned flag, the entry and the counter \<^verbatim>\<open>counts.badflags\<close>; the allocation of \<^verbatim>\<open>buf\<close> may exceed its
  content.
\<close>

definition storeRebuildParseEntry ::
  "bytes \<Rightarrow> nat \<Rightarrow> disk_entry \<Rightarrow> 64 word \<Rightarrow> int \<Rightarrow> (bool \<times> disk_entry \<times> int) outcome option" where
  "storeRebuildParseEntry buf contentSize tmpe expectedSize badflags =
     (let u = new_unpacker buf (int contentSize) 0 in
      case bindE (isBufferZero u) (\<lambda>zero. if zero then Inr None else bindE (isBufferSane u) (\<lambda>(sane, u). Inr (if sane then Some u else None))) of
        Inl e \<Rightarrow> Some (Inl e)
      | Inr None \<Rightarrow> Some (Inr (False, tmpe, badflags))
      | Inr (Some u) \<Rightarrow> map_option (\<lambda>r. bindE r (\<lambda>(tlv_list, u).
          if tlv_list = [] then Inr (False, tmpe, badflags)
          else bindE (visit_all tlv_list (tmpe, replicate SQUID_MD5_DIGEST_LENGTH 0)) (\<lambda>(tmpe, key).
            if storeKeyNull key then Inr (False, tmpe, badflags)
            else (let tmpe = tmpe\<lparr>de_key := key\<rparr> in
              case check_sizes expectedSize (um_hdr_len u) (de_swap_file_sz tmpe) of
                None \<Rightarrow> Inr (False, tmpe, badflags)
              | Some sz \<Rightarrow> (let tmpe = tmpe\<lparr>de_swap_file_sz := sz\<rparr> in
                  if bit (de_flags tmpe) KEY_PRIVATE_bit then Inr (False, tmpe, badflags + 1) else Inr (True, tmpe, badflags)))))) (createStoreMeta u))"

text \<open>
  \<^verbatim>\<open>storeRebuildKeepEntry()\<close>: the entry that the store finds under the key, if any.  The result is the returned flag, whether
  the entry that was found is released, and \<^verbatim>\<open>counts.dupcount\<close>.
\<close>

definition storeRebuildKeepEntry :: "disk_entry option \<Rightarrow> disk_entry \<Rightarrow> int \<Rightarrow> bool \<times> bool \<times> int" where
  "storeRebuildKeepEntry found tmpe dupcount =
     (case found of
        None \<Rightarrow> (True, False, dupcount)
      | Some e \<Rightarrow> if sint (de_lastref e) \<ge> sint (de_lastref tmpe) then (False, False, dupcount + 1) else (True, True, dupcount + 1))"

section \<open>Reading the meta data of a hit\<close>

text \<open>
  \<^verbatim>\<open>strcasecmp()\<close> and \<^verbatim>\<open>strcmp()\<close> of a string with the memory of a value, which ends with its allocation: whether they are equal.
\<close>

fun same_c_string :: "(byte \<Rightarrow> byte) \<Rightarrow> bytes \<Rightarrow> bytes \<Rightarrow> bool outcome" where
  "same_c_string f s [] = Inl OutOfBounds"
| "same_c_string f [] (v # vs) = Inr (v = 0)"
| "same_c_string f (c # s) (v # vs) = (if f c \<noteq> f v then Inr False else same_c_string f s vs)"

text \<open>\<^verbatim>\<open>xstrdup()\<close> of the memory of a value.\<close>

definition xstrdup :: "bytes \<Rightarrow> bytes outcome" where
  "xstrdup v = (if 0 \<in> set v then Inr (c_str v) else Inl OutOfBounds)"

fun checkConsistency :: "store_meta \<Rightarrow> disk_entry \<Rightarrow> disk_object \<times> int \<Rightarrow> (bool \<times> disk_object \<times> int) outcome" where
  "checkConsistency x e (m, md5_mismatches) =
     (case sm_class x of
        StoreMetaMD5 \<Rightarrow>
          guardE (sint (sm_length x) = int SQUID_MD5_DIGEST_LENGTH) AssertFault
            (if bit (de_flags e) KEY_PRIVATE_bit then Inr (True, m, md5_mismatches)
             else bindE (read_octets (sm_value x) 0 SQUID_MD5_DIGEST_LENGTH) (\<lambda>v.
               if v \<noteq> de_key e then Inr (False, m, md5_mismatches + 1) else Inr (True, m, md5_mismatches)))
      | StoreMetaURL \<Rightarrow>
          (case do_url m of
             None \<Rightarrow> Inr (True, m, md5_mismatches)
           | Some url \<Rightarrow> bindE (same_c_string to_lower url (sm_value x)) (\<lambda>same. Inr (same, m, md5_mismatches)))
      | StoreMetaVary \<Rightarrow>
          (case do_vary_headers m of
             None \<Rightarrow> bindE (xstrdup (sm_value x)) (\<lambda>v. Inr (True, m\<lparr>do_vary_headers := Some v\<rparr>, md5_mismatches))
           | Some vary \<Rightarrow> bindE (same_c_string id vary (sm_value x)) (\<lambda>same. Inr (same, m, md5_mismatches)))
      | _ \<Rightarrow> Inr (True, m, md5_mismatches))"

fun check_all :: "store_meta list \<Rightarrow> disk_entry \<Rightarrow> disk_object \<times> int \<Rightarrow> (bool \<times> disk_object \<times> int) outcome" where
  "check_all [] e (m, n) = Inr (True, m, n)"
| "check_all (x # xs) e (m, n) = bindE (checkConsistency x e (m, n)) (\<lambda>(ok, m, n). if ok then check_all xs e (m, n) else Inr (False, m, n))"

text \<open>The flag of the result is false where the source calls \<^verbatim>\<open>fail()\<close>.\<close>

definition unpackHeader :: "bytes \<Rightarrow> int \<Rightarrow> disk_entry \<Rightarrow> disk_object \<times> int \<Rightarrow> (bool \<times> disk_object \<times> int) outcome option" where
  "unpackHeader buf len e s =
     (if len < 0 then Some (Inr (False, s))
      else case isBufferSane (new_unpacker buf len 0) of
        Inl x \<Rightarrow> Some (Inl x)
      | Inr (sane, u) \<Rightarrow>
          if \<not> sane then Some (Inr (False, s))
          else map_option (\<lambda>r. bindE r (\<lambda>(tlv_list, u).
            if tlv_list = [] then Inr (False, s)
            else bindE (check_all tlv_list e s) (\<lambda>(ok, m, n).
              if \<not> ok then Inr (False, m, n)
              else guardE (0 \<le> sint (um_hdr_len u)) AssertFault
                (guardE (de_swap_file_sz e > 0) AssertFault
                (guardE (de_swap_file_sz e \<ge> scast (um_hdr_len u)) AssertFault
                (Inr (True, m\<lparr>do_swap_hdr_sz := scast (um_hdr_len u), do_object_sz := de_swap_file_sz e - scast (um_hdr_len u)\<rparr>, n))))))) (createStoreMeta u))"

end
