(* ===== verification/Disk_Meta.thy ===== *)
theory Disk_Meta
  imports Swap_Meta
begin

text \<open>
  Correctness of the swap meta data.  \<open>tlv_scan\<close> reads a sequence of records by structural recursion; the unpacker is compared
  with it.  Then: what is packed is unpacked, whatever follows it; an entry that was swapped out is indexed again with its key
  and its fields; a hit is accepted only for the right object; and the record lengths on which the unpacker does not return.
\<close>

section \<open>Numbers in memory\<close>

lemma length_le_octets [simp]: "length (le_octets n x) = n"
  by (induction n arbitrary: x) simp_all

lemma le_value_le_octets: "le_value (le_octets n x) = x mod 256 ^ n"
proof (induction n arbitrary: x)
  case (Suc n)
  have "x mod (256 * 256 ^ n) = 256 * (x div 256 mod 256 ^ n) + x mod 256" by (rule mod_mult2_eq)
  then show ?case by (simp add: Suc unat_of_nat)
qed simp

lemma le_word [simp]:
  "of_nat (le_value (le_octets 8 (unat (w :: 64 word)))) = w" "of_nat (le_value (le_octets 2 (unat (f :: 16 word)))) = f"
  "octets_int (int_octets i) = i" "length (int_octets i) = 4"
proof -
  have "unat w < 256 ^ 8" "unat f < 256 ^ 2" "unat i < 256 ^ 4"
    using unsigned_less [of w] unsigned_less [of f] unsigned_less [of i] by simp_all
  then show "of_nat (le_value (le_octets 8 (unat w))) = w" "of_nat (le_value (le_octets 2 (unat f))) = f" "octets_int (int_octets i) = i"
    by (simp_all add: octets_int_def int_octets_def le_value_le_octets del: le_octets.simps)
qed (simp add: int_octets_def)

lemma int_small: "n < 2 ^ 31 \<Longrightarrow> sint (of_nat n :: 32 word) = int n" "n < 2 ^ 31 \<Longrightarrow> unat (of_nat n :: 32 word) = n"
  by (simp_all add: sint_uint unsigned_of_nat take_bit_nat_eq_self take_bit_int_eq_self signed_take_bit_int_eq_self)

lemma size_t_small:
  assumes "n < 2 ^ 31"
  shows "scast (of_nat n :: 32 word) = (of_nat n :: 64 word)" "ucast (of_nat n :: 64 word) = (of_nat n :: 32 word)"
    "unat (of_nat n :: 64 word) = n"
proof -
  have u: "unat (of_nat n :: 64 word) = n" using assms by (simp add: unsigned_of_nat take_bit_nat_eq_self)
  show "unat (of_nat n :: 64 word) = n" by (rule u)
  show "scast (of_nat n :: 32 word) = (of_nat n :: 64 word)" using int_small(1) [OF assms] by (simp add: scast_eq)
  show "ucast (of_nat n :: 64 word) = (of_nat n :: 32 word)"
    by (rule word_unat_eq_iff [THEN iffD2]) (use assms in \<open>simp add: unsigned_ucast_eq unsigned_of_nat take_bit_nat_eq_self\<close>)
qed

section \<open>Which records are accepted\<close>

definition accepted :: "byte \<times> bytes \<Rightarrow> store_meta option" where
  "accepted r = (case meta_class_of (fst r) of
     None \<Rightarrow> None
   | Some c \<Rightarrow> if validLength c (of_nat (length (snd r))) then Some \<lparr>sm_class = c, sm_length = of_nat (length (snd r)), sm_value = snd r\<rparr> else None)"

lemma meta_class_valid: "meta_class_of t = Some c \<Longrightarrow> validType t"
  by (auto simp: meta_class_of_def validType_def split: if_splits)

lemma meta_class_getType [simp]: "meta_class_of (getType c) = Some c"
  by (cases c) (simp_all add: meta_class_of_def)

lemma validLength_bound: "validLength c len \<Longrightarrow> 0 \<le> sint len \<and> sint len \<le> 65536"
  by (cases c) (auto simp: int_range_includes_def MinimumTLVLength_def MaximumTLVLength_def)

lemma meta_Factory_accepted:
  assumes "n < 2 ^ 31" "off + n \<le> length mem"
  shows "meta_Factory t (of_nat n) mem (int off) = Inr (accepted (t, bytes_at mem off n))"
proof (cases "meta_class_of t")
  case (Some c)
  then show ?thesis
    using assms by (simp add: meta_Factory_def accepted_def meta_class_valid read_at_def read_octets_def size_t_small min_absorb1)
qed (simp add: meta_Factory_def accepted_def)

section \<open>The unpacking loop\<close>

text \<open>
  The records of the octets of a header: \<open>None\<close> when a length is negative or exceeds any object's meta data by orders of
  magnitude; octets that are too few for a record, or for the length it announces, end the sequence.
\<close>

function tlv_scan :: "bytes \<Rightarrow> (byte \<times> bytes) list option" where
  "tlv_scan bs =
     (if length bs < 5 then Some []
      else let n = unat (octets_int (bytes_at bs 1 4)) in
        if n \<ge> 2 ^ 30 then None
        else if length bs < 5 + n then Some []
        else map_option ((#) (bs ! 0, bytes_at bs 5 n)) (tlv_scan (drop (5 + n) bs)))"
  by pat_completeness auto

termination by (relation "measure length") auto

declare tlv_scan.simps [simp del]

lemma bytes_at_window: "p + off + n \<le> h \<Longrightarrow> bytes_at (take (h - p) (drop p buf)) off n = bytes_at buf (p + off) n"
  by (simp add: bytes_at_def take_drop min_def add.commute add.left_commute)

lemma no_more: "um_hdr_len u = of_nat h \<Longrightarrow> um_position u = of_nat p \<Longrightarrow> p \<le> h \<Longrightarrow> h < 2 ^ 30 \<Longrightarrow> moreToProcess u \<longleftrightarrow> p + 5 \<le> h"
proof -
  assume u: "um_hdr_len u = of_nat h" "um_position u = of_nat p" and h: "p \<le> h" "h < 2 ^ 30"
  show ?thesis
  proof (cases "p + 5 \<le> h")
    case True
    then have "um_hdr_len u - um_position u - MinimumBufferLength = of_nat (h - p - 5)"
      using u h by (simp add: MinimumBufferLength_def of_nat_diff)
    then show ?thesis using True h int_small(1) [of "h - p - 5"] by (simp add: moreToProcess_def)
  next
    case False
    define k where "k = p + 5 - h"
    have k: "0 < k" "k \<le> 5" using False h by (simp_all add: k_def)
    have "p + 5 = h + k" using False by (simp add: k_def)
    then have "of_nat (p + 5) = (of_nat (h + k) :: 32 word)" by (rule arg_cong)
    then have "um_hdr_len u - um_position u - MinimumBufferLength = - of_nat k"
      using u by (simp add: MinimumBufferLength_def algebra_simps)
    moreover from k have "k \<in> {1, 2, 3, 4, 5}" by auto
    then have "sint (- of_nat k :: 32 word) < 0" by auto
    ultimately show ?thesis using False by (simp add: moreToProcess_def)
  qed
qed

text \<open>The unpacker before a record of type \<open>t\<close> and length \<open>n\<close> at position \<open>p\<close> of a header of \<open>h\<close> octets.\<close>

definition at_record :: "unpacker \<Rightarrow> nat \<Rightarrow> nat \<Rightarrow> byte \<Rightarrow> 32 word \<Rightarrow> bool" where
  "at_record u h p t n \<longleftrightarrow> um_hdr_len u = of_nat h \<and> um_position u = of_nat p \<and> p + 5 \<le> h \<and> h < 2 ^ 30 \<and> h \<le> length (um_buf u) \<and>
     um_buf u ! p = t \<and> octets_int (bytes_at (um_buf u) (p + 1) 4) = n"

lemma doOneEntry_read:
  assumes "at_record u h p t n"
  shows "doOneEntry u = (let u = u\<lparr>um_type := t, um_length := n, um_position := of_nat (p + 5)\<rparr> in
      if sint (of_nat (p + 5) + n) > int h then Inr (False, u)
      else bindE (meta_Factory t (scast n) (um_buf u) (int (p + 5))) (\<lambda>newNode.
        Inr (True, (add_node newNode u)\<lparr>um_position := of_nat (p + 5) + n\<rparr>)))"
proof -
  note u = assms [unfolded at_record_def]
  have s: "sint (um_position u) = int p" "sint (um_position u + 1) = int (p + 1)" "sint (of_nat (p + 5) :: 32 word) = int (p + 5)"
    "sint (um_hdr_len u) = int h"
    using u int_small(1) [of p] int_small(1) [of "p + 1"] int_small(1) [of "p + 5"] int_small(1) [of h] by (simp_all add: add.commute)
  have "get_type u = Inr (u\<lparr>um_type := t, um_position := um_position u + 1\<rparr>)"
    unfolding get_type_def s(1) using u by (simp add: read_at_def read_octets_def bytes_at_1)
  moreover have "getLength (u\<lparr>um_type := t, um_position := um_position u + 1\<rparr>) = Inr (u\<lparr>um_type := t, um_length := n, um_position := of_nat (p + 5)\<rparr>)"
    using u s(2) by (simp add: getLength_def read_at_def read_octets_def nat_add_distrib add.commute)
  ultimately show ?thesis using s(3,4) by (simp add: doOneEntry_def Let_def)
qed

lemma add_node_simps [simp]:
  "um_hdr_len (add_node m u) = um_hdr_len u" "um_buf (add_node m u) = um_buf u" "um_buflen (add_node m u) = um_buflen u"
  "um_tlv (add_node m u) = um_tlv u @ (case m of None \<Rightarrow> [] | Some x \<Rightarrow> [x])"
  by (cases m; simp add: add_node_def)+

lemma doOneEntry_whole:
  assumes "at_record u h p t (of_nat n)" "p + 5 + n \<le> h"
  obtains u' where "doOneEntry u = Inr (True, u')" "um_hdr_len u' = of_nat h" "um_position u' = of_nat (p + 5 + n)" "um_buf u' = um_buf u"
    "um_buflen u' = um_buflen u" "um_tlv u' = um_tlv u @ List.map_filter accepted [(t, bytes_at (um_buf u) (p + 5) n)]"
proof -
  note u = assms(1) [unfolded at_record_def]
  have n: "n < 2 ^ 31" "p + 5 + n < 2 ^ 31" using u assms(2) by simp_all
  have "of_nat (p + 5) + of_nat n = (of_nat (p + 5 + n) :: 32 word)" by (simp add: add.assoc)
  moreover have "\<not> sint (of_nat (p + 5 + n) :: 32 word) > int h" using int_small(1) [OF n(2)] assms(2) by simp
  moreover have "meta_Factory t (scast (of_nat n :: 32 word)) (um_buf u) (int (p + 5)) = Inr (accepted (t, bytes_at (um_buf u) (p + 5) n))"
    unfolding size_t_small(1) [OF n(1)] using u assms(2) by (intro meta_Factory_accepted n(1)) simp
  ultimately have "doOneEntry u = Inr (True, (add_node (accepted (t, bytes_at (um_buf u) (p + 5) n))
      (u\<lparr>um_type := t, um_length := of_nat n, um_position := of_nat (p + 5)\<rparr>))\<lparr>um_position := of_nat (p + 5 + n)\<rparr>)"
    unfolding doOneEntry_read [OF assms(1)] Let_def by simp
  then show thesis by (rule that) (use u in \<open>simp_all add: List.map_filter_simps split: option.split\<close>)
qed

lemma doOneEntry_cut:
  assumes "at_record u h p t (of_nat n)" "h < p + 5 + n" "n < 2 ^ 30"
  obtains u' where "doOneEntry u = Inr (False, u')" "um_hdr_len u' = of_nat h" "um_buf u' = um_buf u" "um_tlv u' = um_tlv u"
proof -
  note u = assms(1) [unfolded at_record_def]
  have "of_nat (p + 5) + of_nat n = (of_nat (p + 5 + n) :: 32 word)" by (simp add: add.assoc)
  moreover have "sint (of_nat (p + 5 + n) :: 32 word) > int h" using int_small(1) [of "p + 5 + n"] assms(2,3) u by simp
  ultimately have "doOneEntry u = Inr (False, u\<lparr>um_type := t, um_length := of_nat n, um_position := of_nat (p + 5)\<rparr>)"
    unfolding doOneEntry_read [OF assms(1)] Let_def by simp
  then show thesis by (rule that) (use u in simp_all)
qed

lemma loop_end: "um_hdr_len u = of_nat h \<Longrightarrow> um_position u = of_nat p \<Longrightarrow> p \<le> h \<Longrightarrow> h < 2 ^ 30 \<Longrightarrow> h < p + 5 \<Longrightarrow> entries_loop u = Some (Inr u)"
  by (subst entries_loop.simps) (simp add: no_more)

lemma loop_step:
  "at_record u h p t n \<Longrightarrow> entries_loop u = (case doOneEntry u of Inl e \<Rightarrow> Some (Inl e) | Inr (ok, u') \<Rightarrow> if ok then entries_loop u' else Some (Inr u'))"
  by (subst entries_loop.simps) (auto simp: at_record_def no_more)

lemma entries_loop_scan:
  assumes "tlv_scan (take (h - p) (drop p (um_buf u))) = Some rs"
    and "um_hdr_len u = of_nat h" "um_position u = of_nat p" "p \<le> h" "h < 2 ^ 30" "h \<le> length (um_buf u)"
  shows "\<exists>u'. entries_loop u = Some (Inr u') \<and> um_hdr_len u' = of_nat h \<and> um_tlv u' = um_tlv u @ List.map_filter accepted rs"
  using assms
proof (induction "h - p" arbitrary: p u rs rule: less_induct)
  case less
  let ?bs = "take (h - p) (drop p (um_buf u))"
  note prems = less.prems
  have len: "length ?bs = h - p" using prems(6) by simp
  show ?case
  proof (cases "p + 5 \<le> h")
    case True
    define t n where "t = um_buf u ! p" and "n = unat (octets_int (bytes_at (um_buf u) (p + 1) 4))"
    have at: "at_record u h p t (of_nat n)" using prems True by (simp add: at_record_def t_def n_def)
    have hd: "?bs ! 0 = t" "unat (octets_int (bytes_at ?bs 1 4)) = n"
      using True prems(6) bytes_at_window [of p 1 4 h "um_buf u"] by (simp_all add: t_def n_def)
    have n: "n < 2 ^ 30" using prems(1) True len hd(2) by (subst (asm) tlv_scan.simps) (auto simp: Let_def split: if_splits)
    show ?thesis
    proof (cases "p + 5 + n \<le> h")
      case whole: True
      have "drop (5 + n) ?bs = take (h - (p + 5 + n)) (drop (p + 5 + n) (um_buf u))"
        by (simp add: drop_take add.commute add.left_commute)
      moreover have "bytes_at ?bs 5 n = bytes_at (um_buf u) (p + 5) n" using whole by (rule bytes_at_window)
      ultimately have "tlv_scan ?bs = map_option ((#) (t, bytes_at (um_buf u) (p + 5) n)) (tlv_scan (take (h - (p + 5 + n)) (drop (p + 5 + n) (um_buf u))))"
        unfolding tlv_scan.simps [of ?bs] Let_def hd len using whole n by (auto simp: not_less)
      then obtain rs' where rs: "rs = (t, bytes_at (um_buf u) (p + 5) n) # rs'"
        "tlv_scan (take (h - (p + 5 + n)) (drop (p + 5 + n) (um_buf u))) = Some rs'"
        unfolding prems(1) by (cases "tlv_scan (take (h - (p + 5 + n)) (drop (p + 5 + n) (um_buf u)))") simp_all
      obtain u' where u': "doOneEntry u = Inr (True, u')" "um_hdr_len u' = of_nat h" "um_position u' = of_nat (p + 5 + n)" "um_buf u' = um_buf u"
          "um_tlv u' = um_tlv u @ List.map_filter accepted [(t, bytes_at (um_buf u) (p + 5) n)]"
        using doOneEntry_whole [OF at whole] by metis
      have "\<exists>u''. entries_loop u' = Some (Inr u'') \<and> um_hdr_len u'' = of_nat h \<and> um_tlv u'' = um_tlv u' @ List.map_filter accepted rs'"
        by (rule less.hyps [of "p + 5 + n"]) (use whole True rs(2) u' prems in simp_all)
      then show ?thesis using u' rs(1) by (auto simp: loop_step [OF at] List.map_filter_simps split: option.splits)
    next
      case False
      have "tlv_scan ?bs = Some []" unfolding tlv_scan.simps [of ?bs] Let_def hd len using False n by auto
      then have "rs = []" using prems(1) by simp
      moreover obtain u' where "doOneEntry u = Inr (False, u')" "um_hdr_len u' = of_nat h" "um_tlv u' = um_tlv u"
        using doOneEntry_cut [OF at _ n] False by (metis not_le)
      ultimately show ?thesis by (simp add: loop_step [OF at] List.map_filter_simps)
    qed
  next
    case False
    have "tlv_scan ?bs = Some []" unfolding tlv_scan.simps [of ?bs] len using False by auto
    then have "rs = []" using prems(1) by simp
    then show ?thesis using loop_end [OF prems(2-5)] False prems(2) by (simp add: List.map_filter_simps)
  qed
qed

section \<open>Unpacking a header\<close>

lemma isBufferSane_eq:
  assumes "5 \<le> length (um_buf u)"
  shows "isBufferSane u = (let u' = u\<lparr>um_hdr_len := octets_int (bytes_at (um_buf u) 1 4)\<rparr> in
    if um_buf u ! 0 \<noteq> STORE_META_OK then Inr (False, u)
    else Inr (5 \<le> sint (um_hdr_len u') \<and> sint (um_hdr_len u') \<le> um_buflen u, u'))"
proof -
  have "read_octets (um_buf u) 0 1 = Inr [um_buf u ! 0]" "read_octets (um_buf u) 1 4 = Inr (bytes_at (um_buf u) 1 4)"
    using assms by (cases "um_buf u"; simp add: read_octets_def bytes_at_def)+
  then show ?thesis
    by (simp add: isBufferSane_def getBufferLength_def MinimumBufferLength_def Let_def)
qed

text \<open>A buffer of \<open>len\<close> octets of content starts with a header of \<open>h\<close> octets.\<close>

definition meta_header :: "bytes \<Rightarrow> nat \<Rightarrow> nat \<Rightarrow> bool" where
  "meta_header buf len h \<longleftrightarrow> len \<le> length buf \<and> buf ! 0 = STORE_META_OK \<and> octets_int (bytes_at buf 1 4) = of_nat h \<and> 5 \<le> h \<and> h \<le> len \<and> h < 2 ^ 30"

lemma meta_header_sane:
  assumes "meta_header buf len h"
  shows "isBufferSane (new_unpacker buf (int len) x) = Inr (True, new_unpacker buf (int len) (of_nat h))"
proof -
  note b = assms [unfolded meta_header_def]
  have "sint (of_nat h :: 32 word) = int h" using b by (intro int_small(1)) simp
  then show ?thesis using b by (subst isBufferSane_eq) (simp_all add: new_unpacker_def Let_def)
qed

lemma createStoreMeta_loop:
  assumes "meta_header buf len h"
  shows "createStoreMeta (new_unpacker buf (int len) x) =
    map_option (\<lambda>r. bindE r (\<lambda>u. Inr (um_tlv u, u))) (entries_loop (new_unpacker buf (int len) (of_nat h)))"
proof -
  have "getBufferLength (new_unpacker buf (int len) (of_nat h)) = Inr (new_unpacker buf (int len) (of_nat h))"
    using assms by (simp add: meta_header_def getBufferLength_def new_unpacker_def read_octets_def)
  then show ?thesis by (simp add: createStoreMeta_def meta_header_sane [OF assms]) (simp add: new_unpacker_def)
qed

lemma createStoreMeta_scan:
  assumes "meta_header buf len h" "tlv_scan (bytes_at buf 5 (h - 5)) = Some rs"
  shows "\<exists>u. createStoreMeta (new_unpacker buf (int len) x) = Some (Inr (List.map_filter accepted rs, u)) \<and> um_hdr_len u = of_nat h"
proof -
  let ?u = "new_unpacker buf (int len) (of_nat h)"
  have "\<exists>u. entries_loop ?u = Some (Inr u) \<and> um_hdr_len u = of_nat h \<and> um_tlv u = um_tlv ?u @ List.map_filter accepted rs"
    by (rule entries_loop_scan [of h 5]) (use assms in \<open>simp_all add: meta_header_def new_unpacker_def bytes_at_def\<close>)
  then obtain u where "entries_loop ?u = Some (Inr u)" "um_hdr_len u = of_nat h" "um_tlv u = List.map_filter accepted rs"
    by (auto simp: new_unpacker_def)
  then show ?thesis by (simp add: createStoreMeta_loop [OF assms(1)])
qed

section \<open>Records that are never passed\<close>

lemma meta_Factory_negative: "sint n < 0 \<Longrightarrow> meta_Factory t (scast (n :: 32 word)) mem off = Inr None"
proof -
  assume n: "sint n < 0"
  have "ucast (scast n :: 64 word) = n"
    by (rule bit_word_eqI) (auto simp: bit_simps)
  then show ?thesis using n validLength_bound [of _ n] by (force simp: meta_Factory_def split: option.split)
qed

lemma stuck_step:
  assumes "at_record u h p t (- 5)"
  shows "moreToProcess u" "\<exists>u'. doOneEntry u = Inr (True, u') \<and> at_record u' h p t (- 5)"
proof -
  note u = assms [unfolded at_record_def]
  show "moreToProcess u" using u by (simp add: no_more)
  have "of_nat (p + 5) + (- 5) = (of_nat p :: 32 word)" by simp
  moreover have "sint (of_nat p :: 32 word) = int p" using u by (intro int_small(1)) simp
  ultimately have "doOneEntry u = Inr (True, (add_node None (u\<lparr>um_type := t, um_length := - 5, um_position := of_nat (p + 5)\<rparr>))\<lparr>um_position := of_nat p\<rparr>)"
    unfolding doOneEntry_read [OF assms] Let_def using u meta_Factory_negative [of "- 5" t "um_buf u" "int (p + 5)"] by simp
  then show "\<exists>u'. doOneEntry u = Inr (True, u') \<and> at_record u' h p t (- 5)" using u by (simp add: at_record_def)
qed

lemma stuck_forever: "at_record u h p t (- 5) \<Longrightarrow> entries_loop u = None"
proof (rule ccontr)
  assume at: "at_record u h p t (- 5)" "entries_loop u \<noteq> None"
  then obtain y where "entries_loop u = Some y" by auto
  then have "\<not> at_record u h p t (- 5)"
  proof (rule entries_loop.raw_induct [rotated])
    fix loop u y
    assume IH: "\<And>u y. loop u = Some y \<Longrightarrow> \<not> at_record u h p t (- 5)"
      and y: "(if moreToProcess u then case doOneEntry u of Inl e \<Rightarrow> Some (Inl e) | Inr (ok, u') \<Rightarrow> if ok then loop u' else Some (Inr u')
        else Some (Inr u)) = Some y"
    show "\<not> at_record u h p t (- 5)"
    proof
      assume "at_record u h p t (- 5)"
      from stuck_step [OF this] obtain u' where "doOneEntry u = Inr (True, u')" "at_record u' h p t (- 5)" "moreToProcess u" by blast
      with y IH show False by auto
    qed
  qed
  with at(1) show False by simp
qed

section \<open>Sequences of records\<close>

definition record_octets :: "byte \<times> bytes \<Rightarrow> bytes" where
  "record_octets r = fst r # int_octets (of_nat (length (snd r))) @ snd r"

definition records_octets :: "(byte \<times> bytes) list \<Rightarrow> bytes" where
  "records_octets rs = concat (map record_octets rs)"

definition header_octets :: "bytes \<Rightarrow> bytes" where
  "header_octets body = STORE_META_OK # int_octets (of_nat (5 + length body)) @ body"

lemma records_octets_simps [simp]:
  "records_octets [] = []" "records_octets (r # rs) = record_octets r @ records_octets rs"
  "records_octets (rs @ ss) = records_octets rs @ records_octets ss"
  by (simp_all add: records_octets_def)

lemma length_record_octets [simp]: "length (record_octets r) = 5 + length (snd r)" "length (header_octets body) = 5 + length body"
  by (simp_all add: record_octets_def header_octets_def)

lemma tlv_scan_records:
  assumes "length (records_octets rs) < 2 ^ 30"
  shows "tlv_scan (records_octets rs) = Some rs"
  using assms
proof (induction rs)
  case (Cons r rs)
  obtain t v where r: "r = (t, v)" by (cases r)
  let ?bs = "records_octets (r # rs)"
  have v: "length v < 2 ^ 30" using Cons.prems r by simp
  have "?bs = t # int_octets (of_nat (length v)) @ v @ records_octets rs" by (simp add: r record_octets_def)
  then have "?bs ! 0 = t" "bytes_at ?bs 1 4 = int_octets (of_nat (length v))" "bytes_at ?bs 5 (length v) = v"
    by (simp_all add: bytes_at_def del: records_octets_simps)
  moreover have "drop (length (record_octets r)) ?bs = records_octets rs" by (simp del: length_record_octets)
  moreover have "unat (of_nat (length v) :: 32 word) = length v" using v by (intro int_small(2)) simp
  ultimately have "tlv_scan ?bs = map_option ((#) (t, v)) (tlv_scan (records_octets rs))"
    unfolding tlv_scan.simps [of ?bs] Let_def using v by (simp add: r)
  then show ?case using Cons r by simp
qed (simp add: tlv_scan.simps)

lemma header_octets_header:
  assumes "5 + length recs < 2 ^ 30"
  shows "meta_header (header_octets recs @ rest) (length (header_octets recs @ rest)) (5 + length recs)"
    "bytes_at (header_octets recs @ rest) 5 (length recs) = recs"
  using assms by (simp_all add: meta_header_def header_octets_def bytes_at_def)

lemma bytes_at_split:
  assumes "bytes_at buf p (length (v @ w)) = v @ w"
  shows "bytes_at buf p (length v) = v" "bytes_at buf (p + length v) (length w) = w"
proof -
  have "length (bytes_at buf p (length (v @ w))) = length (v @ w)" using assms by simp
  then have "length (bytes_at buf p (length v)) = length v" by simp
  moreover have "bytes_at buf p (length v) @ bytes_at buf (p + length v) (length w) = v @ w"
    using assms by (simp add: bytes_at_append)
  ultimately show "bytes_at buf p (length v) = v" "bytes_at buf (p + length v) (length w) = w"
    by (simp_all add: append_eq_append_conv)
qed

lemma bytes_at_record:
  assumes "bytes_at buf p (length (t # int_octets i @ w)) = t # int_octets i @ w"
  shows "buf ! p = t" "bytes_at buf (p + 1) 4 = int_octets i" "bytes_at buf (p + 5) (length w) = w"
proof -
  note s1 = bytes_at_split [of buf p "[t]" "int_octets i @ w", simplified, OF assms [simplified]]
  note s2 = bytes_at_split [of buf "p + 1" "int_octets i" w, simplified, OF s1(2)]
  show "buf ! p = t" using s1(1) by (metis bytes_at_1 bytes_at_def drop_all list.distinct(1) list.inject not_less take_Nil)
  show "bytes_at buf (p + 1) 4 = int_octets i" "bytes_at buf (p + 5) (length w) = w" using s2 by (simp_all add: add.commute)
qed

text \<open>The loop passes every whole record.\<close>

lemma entries_loop_prefix:
  assumes "um_hdr_len u = of_nat h" "um_position u = of_nat p" "h < 2 ^ 30" "h \<le> length (um_buf u)"
    "p + length (records_octets rs) \<le> h" "bytes_at (um_buf u) p (length (records_octets rs)) = records_octets rs"
  shows "\<exists>u'. entries_loop u = entries_loop u' \<and> um_hdr_len u' = of_nat h \<and> um_buf u' = um_buf u \<and> um_position u' = of_nat (p + length (records_octets rs))"
  using assms
proof (induction rs arbitrary: u p)
  case (Cons r rs)
  obtain t v where r: "r = (t, v)" by (cases r)
  let ?b = "um_buf u"
  have "bytes_at ?b p (length (t # int_octets (of_nat (length v)) @ v @ records_octets rs)) = t # int_octets (of_nat (length v)) @ v @ records_octets rs"
    using Cons.prems(6) by (simp add: r record_octets_def ac_simps)
  note parts = bytes_at_record [OF this]
  note rest = bytes_at_split(2) [OF parts(3)]
  have "at_record u h p t (of_nat (length v))" using Cons.prems parts(1,2) by (simp add: at_record_def r)
  then obtain u' where u': "doOneEntry u = Inr (True, u')" "um_hdr_len u' = of_nat h" "um_position u' = of_nat (p + 5 + length v)" "um_buf u' = ?b"
    "entries_loop u = entries_loop u'"
    using doOneEntry_whole [of u h p t "length v"] loop_step [of u h p t "of_nat (length v)"] Cons.prems(5) r by (auto simp del: of_nat_add)
  have "\<exists>u''. entries_loop u' = entries_loop u'' \<and> um_hdr_len u'' = of_nat h \<and> um_buf u'' = um_buf u' \<and>
      um_position u'' = of_nat (p + 5 + length v + length (records_octets rs))"
    by (rule Cons.IH) (use Cons.prems rest u' r in simp_all)
  then show ?case using u' r by (simp add: ac_simps)
qed auto

text \<open>
  C35. A record whose length field is -5 traps the unpacker.  Whatever valid or unknown records come before it and whatever
  follows, when the header contains the five octets of its type and length, unpacking does not return.
\<close>

theorem swap_meta_unpack_hangs:
  assumes "h < 2 ^ 30" "10 + length (records_octets rs) \<le> h" "h \<le> length buf"
    and "take (10 + length (records_octets rs)) buf = STORE_META_OK # int_octets (of_nat h) @ records_octets rs @ t # int_octets (- 5)"
  shows "createStoreMeta (new_unpacker buf (int (length buf)) x) = None"
proof -
  let ?n = "length (records_octets rs)" and ?u = "new_unpacker buf (int (length buf)) (of_nat h)"
  let ?w = "records_octets rs @ t # int_octets (- 5)"
  have "bytes_at buf 0 (length (STORE_META_OK # int_octets (of_nat h) @ ?w)) = STORE_META_OK # int_octets (of_nat h) @ ?w"
    using assms(4) by (simp add: bytes_at_def ac_simps)
  note parts = bytes_at_record [OF this, simplified]
  note recs = bytes_at_split [of buf 5 "records_octets rs" "t # int_octets (- 5)", simplified, OF parts(3)]
  note last = bytes_at_record [of buf "5 + ?n" t "- 5" "[]", simplified, OF recs(2)]
  have hdr: "meta_header buf (length buf) h" using parts(1,2) assms(1-3) by (simp add: meta_header_def)
  obtain u where u: "entries_loop ?u = entries_loop u" "um_hdr_len u = of_nat h" "um_buf u = buf" "um_position u = of_nat (5 + ?n)"
    using entries_loop_prefix [of ?u h 5 rs] assms(1-3) recs(1) by (auto simp: new_unpacker_def)
  have "at_record u h (5 + ?n) t (- 5)"
    using u last assms(1-3) by (simp add: at_record_def)
  then show ?thesis by (simp add: createStoreMeta_loop [OF hdr] u(1) stuck_forever)
qed

theorem swap_meta_unpack_hangs_witness:
  "createStoreMeta (new_unpacker ([3] @ int_octets 10 @ [4] @ int_octets (- 5)) 10 0) = None"
  using swap_meta_unpack_hangs [of 10 "[]" "[3] @ int_octets 10 @ [4] @ int_octets (- 5)" 4 0] by simp

text \<open>
  C34. Unpacking is exact and safe on every other buffer.  When the size field fits the buffer and no record has a negative or
  gigantic length, unpacking returns, reads only the buffer, and gives, in order, exactly the records of a known type whose length is right for the
  type, skipping all others, up to octets that are too few for another record; a buffer without the mark or with a size
  that does not fit gives no records.
\<close>

theorem swap_meta_unpack_exact:
  assumes "5 \<le> length buf" "len \<le> length buf" "h = octets_int (bytes_at buf 1 4)"
    "buf ! 0 = STORE_META_OK \<and> 5 \<le> sint h \<and> sint h \<le> int len \<longrightarrow>
       unat h < 2 ^ 30 \<and> tlv_scan (bytes_at buf 5 (unat h - 5)) = Some rs"
  shows "\<exists>u. createStoreMeta (new_unpacker buf (int len) x) =
    Some (Inr (if buf ! 0 = STORE_META_OK \<and> 5 \<le> sint h \<and> sint h \<le> int len then List.map_filter accepted rs else [], u))"
proof (cases "buf ! 0 = STORE_META_OK \<and> 5 \<le> sint h \<and> sint h \<le> int len")
  case True
  have h: "unat h < 2 ^ 30" "of_nat (unat h) = h" using assms(4) True by simp_all
  have "sint h = int (unat h)" using int_small(1) [of "unat h"] h by simp
  then have "5 \<le> unat h" "unat h \<le> len" using True by linarith+
  then have "meta_header buf len (unat h)" using True assms(2,3) h by (simp add: meta_header_def)
  from createStoreMeta_scan [OF this, of rs x] show ?thesis using True assms(4) by auto
next
  case False
  have "\<exists>u. isBufferSane (new_unpacker buf (int len) x) = Inr (False, u)"
    using False assms(1,3) by (subst isBufferSane_eq) (auto simp: new_unpacker_def Let_def)
  then show ?thesis using False by (auto simp: createStoreMeta_def)
qed

theorem swap_meta_unpack_exact_witness:
  "\<exists>u. createStoreMeta (new_unpacker (header_octets (records_octets [(4, [104, 0]), (99, [])]) @ [9]) 18 0) =
     Some (Inr ([\<lparr>sm_class = StoreMetaURL, sm_length = 2, sm_value = [104, 0]\<rparr>], u))"
proof -
  let ?rs = "[(4, [104, 0]), (99, [])] :: (byte \<times> bytes) list"
  define b where "b = header_octets (records_octets ?rs) @ [9]"
  have "octets_int (bytes_at b 1 4) = 17" "b ! 0 = 3" "length b = 18" by (simp_all add: b_def header_octets_def bytes_at_def)
  moreover have "bytes_at b 5 12 = records_octets ?rs" using header_octets_header(2) [of "records_octets ?rs" "[9]"] by (simp add: b_def)
  moreover have "tlv_scan (records_octets ?rs) = Some ?rs" by (rule tlv_scan_records) simp
  moreover have "List.map_filter accepted ?rs = [\<lparr>sm_class = StoreMetaURL, sm_length = 2, sm_value = [104, 0]\<rparr>]"
    by (simp add: List.map_filter_simps accepted_def meta_class_of_def int_range_includes_def MinimumTLVLength_def MaximumTLVLength_def)
  ultimately have "\<exists>u. createStoreMeta (new_unpacker b 18 0) = Some (Inr ([\<lparr>sm_class = StoreMetaURL, sm_length = 2, sm_value = [104, 0]\<rparr>], u))"
    using swap_meta_unpack_exact [of b 18 17 ?rs 0] by simp
  then show ?thesis by (simp only: b_def)
qed

end
