(* ===== verification/Disk_Entries.thy ===== *)
theory Disk_Entries
  imports Disk_Meta
begin

text \<open>
  Entries on disk: the meta data that a swapped-out entry carries, packed and unpacked again, and what the two readers make of
  it.  An entry whose file is read while the index is rebuilt gets its key and its fields back; a hit is served only when key,
  URL and Vary headers of the file are those of the entry.
\<close>

section \<open>Packing\<close>

definition meta_of :: "meta_class \<Rightarrow> bytes \<Rightarrow> store_meta" where
  "meta_of c v = \<lparr>sm_class = c, sm_length = of_nat (length v), sm_value = v\<rparr>"

definition as_record :: "store_meta \<Rightarrow> byte \<times> bytes" where
  "as_record t = (getType (sm_class t), sm_value t)"

lemma as_record_simps [simp]: "fst (as_record t) = getType (sm_class t)" "snd (as_record t) = sm_value t"
  by (simp_all add: as_record_def)

definition meta_ok :: "store_meta \<Rightarrow> bool" where
  "meta_ok t \<longleftrightarrow> t = meta_of (sm_class t) (sm_value t) \<and> length (sm_value t) < 2 ^ 30 \<and> validLength (sm_class t) (sm_length t)"

abbreviation metas_octets :: "store_meta list \<Rightarrow> bytes" where
  "metas_octets ts \<equiv> records_octets (map as_record ts)"

lemma meta_okD: "meta_ok t \<Longrightarrow> sm_length t = of_nat (length (sm_value t))" "meta_ok t \<Longrightarrow> unat (sm_length t) = length (sm_value t)"
proof -
  assume ok: "meta_ok t"
  show l: "sm_length t = of_nat (length (sm_value t))" using ok unfolding meta_ok_def meta_of_def by (metis store_meta.select_convs(2))
  show "unat (sm_length t) = length (sm_value t)" unfolding l using ok by (intro int_small(2)) (simp add: meta_ok_def)
qed

lemma accepted_as_record: "meta_ok t \<Longrightarrow> accepted (as_record t) = Some t"
  by (cases t) (auto simp: accepted_def as_record_def meta_ok_def meta_of_def)

lemma accepted_metas: "list_all meta_ok ts \<Longrightarrow> List.map_filter accepted (map as_record ts) = ts"
  by (induction ts) (simp_all add: List.map_filter_simps accepted_as_record)

lemma pack_loop_memcpy:
  "list_all meta_ok ts \<Longrightarrow> j + length (metas_octets ts) \<le> length buf \<Longrightarrow>
   pack_loop ts buf j = Inr (memcpy_at buf j (metas_octets ts), j + length (metas_octets ts))"
proof (induction ts arbitrary: buf j)
  case Nil
  then show ?case by (simp add: memcpy_at_def)
next
  case (Cons t ts)
  let ?v = "sm_value t"
  have v: "unat (sm_length t) = length ?v" "sm_length t = of_nat (length ?v)" using Cons.prems(1) meta_okD by auto
  have len: "j + (5 + length ?v) + length (metas_octets ts) \<le> length buf" using Cons.prems(2) by (simp add: ac_simps)
  have rec: "record_octets (as_record t) = [getType (sm_class t)] @ int_octets (sm_length t) @ ?v"
    by (simp add: record_octets_def v(2))
  have w: "memcpy_at (memcpy_at (memcpy_at buf j [getType (sm_class t)]) (j + 1) (int_octets (sm_length t))) (j + 5) ?v =
      memcpy_at buf j (record_octets (as_record t))"
    using len memcpy_at_twice [of j "[getType (sm_class t)]" "int_octets (sm_length t)" buf]
      memcpy_at_twice [of j "[getType (sm_class t)] @ int_octets (sm_length t)" ?v buf] by (simp add: rec ac_simps)
  have "pack_loop (t # ts) buf j = pack_loop ts (memcpy_at buf j (record_octets (as_record t))) (j + 5 + length ?v)"
    using len v(1) w by (simp add: write_octets_def read_octets_def bytes_at_def)
  also have "\<dots> = Inr (memcpy_at (memcpy_at buf j (record_octets (as_record t))) (j + 5 + length ?v) (metas_octets ts),
      j + 5 + length ?v + length (metas_octets ts))"
    using Cons.prems(1) len by (intro Cons.IH) simp_all
  also have "memcpy_at (memcpy_at buf j (record_octets (as_record t))) (j + 5 + length ?v) (metas_octets ts) = memcpy_at buf j (metas_octets (t # ts))"
    using memcpy_at_twice [of j "record_octets (as_record t)" "metas_octets ts" buf] len by (simp add: ac_simps)
  finally show ?case by (simp add: ac_simps)
qed

lemma pack_size:
  "list_all meta_ok ts \<Longrightarrow> foldl (\<lambda>n t. n + (1 + 4 + sm_length t)) (of_nat k) ts = of_nat (k + length (metas_octets ts))"
proof (induction ts arbitrary: k)
  case (Cons t ts)
  have "of_nat k + (1 + 4 + sm_length t) = of_nat (k + (5 + length (sm_value t)))" using Cons.prems meta_okD(1) [of t] by simp
  then show ?case using Cons.IH [of "k + (5 + length (sm_value t))"] Cons.prems by (simp add: ac_simps)
qed simp

lemma pack_metas:
  assumes "list_all meta_ok ts" "5 + length (metas_octets ts) < 2 ^ 30" "\<And>n. length (garbage n) = n"
  shows "storeSwapMetaPack garbage ts = Inr (header_octets (metas_octets ts), of_nat (5 + length (metas_octets ts)))"
proof -
  let ?r = "metas_octets ts" let ?n = "5 + length ?r" let ?g = "garbage ?n" and ?i = "int_octets (of_nat ?n)"
  have size: "foldl (\<lambda>n t. n + (1 + 4 + sm_length t)) 5 ts = of_nat ?n" using pack_size [OF assms(1), of 5] by simp
  have n: "unat (of_nat ?n :: 32 word) = ?n" "sint (of_nat ?n :: 32 word) = int ?n" using assms(2) int_small [of ?n] by simp_all
  have g: "length ?g = ?n" by (rule assms(3))
  have "pack_loop ts (memcpy_at (memcpy_at ?g 0 [STORE_META_OK]) 1 ?i) 5 =
      Inr (memcpy_at (memcpy_at (memcpy_at ?g 0 [STORE_META_OK]) 1 ?i) 5 ?r, ?n)"
    using g by (intro pack_loop_memcpy assms(1)) simp
  also have "memcpy_at (memcpy_at (memcpy_at ?g 0 [STORE_META_OK]) 1 ?i) 5 ?r = memcpy_at ?g 0 (header_octets ?r)"
    using g memcpy_at_twice [of 0 "[STORE_META_OK]" ?i ?g] memcpy_at_twice [of 0 "STORE_META_OK # ?i" ?r ?g] by (simp add: header_octets_def)
  also have "\<dots> = header_octets ?r" using g by (simp add: memcpy_at_def)
  finally have "pack_loop ts (memcpy_at (memcpy_at ?g 0 [STORE_META_OK]) 1 ?i) 5 = Inr (header_octets ?r, ?n)" .
  then show ?thesis unfolding storeSwapMetaPack_def Let_def size n using g n(2) by (simp add: write_octets_def del: of_nat_add)
qed

section \<open>The meta data of an entry\<close>

definition entry_metas :: "64 word \<Rightarrow> disk_entry \<Rightarrow> bytes \<Rightarrow> bytes option \<Rightarrow> store_meta list" where
  "entry_metas objsize e url vary =
     [meta_of StoreMetaMD5 (de_key e), meta_of StoreMetaSTDLFS (std_octets e), meta_of StoreMetaURL (url @ [0])] @
     (if 0 \<le> sint objsize then [meta_of StoreMetaObjSize (le_octets 8 (unat objsize))] else []) @
     (case vary of None \<Rightarrow> [] | Some v \<Rightarrow> [meta_of StoreMetaVary (v @ [0])])"

text \<open>A key has 16 octets, and URL and Vary headers are C strings that fit into a record.\<close>

definition entry_fits :: "disk_entry \<Rightarrow> bytes \<Rightarrow> bytes option \<Rightarrow> bool" where
  "entry_fits e url vary \<longleftrightarrow> length (de_key e) = 16 \<and> length url < 65536 \<and> 0 \<notin> set url \<and>
     (case vary of None \<Rightarrow> True | Some v \<Rightarrow> length v < 65536 \<and> 0 \<notin> set v)"

lemma length_std_octets [simp]: "length (std_octets e) = 44"
  by (simp add: std_octets_def)

lemma valid_small: "n \<le> 65536 \<Longrightarrow> c \<in> {StoreMetaURL, StoreMetaObjSize, StoreMetaVary} \<Longrightarrow> validLength c (of_nat n)"
  using int_small(1) [of n] by (auto simp: int_range_includes_def MinimumTLVLength_def MaximumTLVLength_def)

lemma meta_ok_of:
  "length v = 16 \<Longrightarrow> meta_ok (meta_of StoreMetaMD5 v)" "length v = 44 \<Longrightarrow> meta_ok (meta_of StoreMetaSTDLFS v)"
  "length v \<le> 65536 \<Longrightarrow> c \<in> {StoreMetaURL, StoreMetaObjSize, StoreMetaVary} \<Longrightarrow> meta_ok (meta_of c v)"
  using valid_small [of "length v" c] by (auto simp: meta_ok_def meta_of_def)

lemma build_step_ok:
  assumes "meta_class_of t = Some c" "validLength c (of_nat (length v))" "length v \<le> 65536" "n = length v"
  shows "build_step t n v (Inr (Some l)) = Inr (Some (l @ [meta_of c v]))"
  using assms meta_Factory_accepted [of "length v" 0 v t] by (simp add: build_step_def accepted_def meta_of_def bytes_at_def)

lemma entry_metas_ok: "entry_fits e url vary \<Longrightarrow> list_all meta_ok (entry_metas objsize e url vary)"
  by (auto simp: entry_metas_def entry_fits_def intro!: meta_ok_of split: option.splits)

lemma build_metas:
  assumes "entry_fits e url (do_vary_headers m)" "do_url m = Some url"
  shows "storeSwapMetaBuild True objsize e (Some m) = Inr (Some (entry_metas objsize e url (do_vary_headers m)))"
proof -
  have fits: "length (de_key e) = 16" "length url < 65536" using assms(1) by (simp_all add: entry_fits_def)
  have "build_step STORE_META_KEY 16 (de_key e) (Inr (Some l)) = Inr (Some (l @ [meta_of StoreMetaMD5 (de_key e)]))" for l
    using fits by (intro build_step_ok) (simp_all add: meta_class_of_def)
  moreover have "build_step STORE_META_STD_LFS 44 (std_octets e) (Inr (Some l)) = Inr (Some (l @ [meta_of StoreMetaSTDLFS (std_octets e)]))" for l
    by (intro build_step_ok) (simp_all add: meta_class_of_def)
  moreover have "build_step STORE_META_URL (Suc (length url)) (url @ [0]) (Inr (Some l)) = Inr (Some (l @ [meta_of StoreMetaURL (url @ [0])]))" for l
    using fits by (intro build_step_ok valid_small) (simp_all add: meta_class_of_def)
  moreover have "build_step STORE_META_OBJSIZE 8 (le_octets 8 (unat objsize)) (Inr (Some l)) =
      Inr (Some (l @ [meta_of StoreMetaObjSize (le_octets 8 (unat objsize))]))" for l
    by (intro build_step_ok valid_small) (simp_all add: meta_class_of_def)
  moreover have "build_step STORE_META_VARY_HEADERS (Suc (length v)) (v @ [0]) (Inr (Some l)) = Inr (Some (l @ [meta_of StoreMetaVary (v @ [0])]))"
    if "do_vary_headers m = Some v" for l v
    using assms(1) that by (intro build_step_ok valid_small) (simp_all add: meta_class_of_def entry_fits_def)
  ultimately show ?thesis using assms(2) by (auto simp: storeSwapMetaBuild_def entry_metas_def split: option.split)
qed

lemma entry_metas_size: "entry_fits e url vary \<Longrightarrow> 5 + length (metas_octets (entry_metas objsize e url vary)) < 2 ^ 30"
  by (auto simp: entry_metas_def entry_fits_def meta_of_def split: option.splits)

text \<open>The octets in front of the object of a swapped-out entry.\<close>

definition swapped_out :: "(nat \<Rightarrow> bytes) \<Rightarrow> 64 word \<Rightarrow> disk_entry \<Rightarrow> disk_object \<Rightarrow> bytes \<Rightarrow> bool" where
  "swapped_out garbage objsize e m hdr \<longleftrightarrow> (\<exists>ts n. storeSwapMetaBuild True objsize e (Some m) = Inr (Some ts) \<and>
     storeSwapMetaPack garbage ts = Inr (hdr, n))"

lemma swapped_out_hdr:
  assumes "entry_fits e url (do_vary_headers m)" "do_url m = Some url" "\<And>n. length (garbage n) = n"
  shows "swapped_out garbage objsize e m hdr \<longleftrightarrow> hdr = header_octets (metas_octets (entry_metas objsize e url (do_vary_headers m)))"
  using pack_metas [OF entry_metas_ok [OF assms(1)] entry_metas_size [OF assms(1)] assms(3)]
  by (auto simp: swapped_out_def build_metas [OF assms(1,2)])

lemma written_header:
  assumes "entry_fits e url vary" "hdr = header_octets (metas_octets (entry_metas objsize e url vary))"
    "length hdr \<le> len" "len \<le> length (hdr @ body)"
  shows "meta_header (hdr @ body) len (length hdr)" "length hdr < 2 ^ 30"
    "\<exists>u. createStoreMeta (new_unpacker (hdr @ body) (int len) x) = Some (Inr (entry_metas objsize e url vary, u)) \<and> um_hdr_len u = of_nat (length hdr)"
proof -
  let ?ts = "entry_metas objsize e url vary"
  have size: "5 + length (metas_octets ?ts) < 2 ^ 30" by (rule entry_metas_size [OF assms(1)])
  then show "length hdr < 2 ^ 30" using assms(2) by simp
  note h = header_octets_header [OF size, of body, folded assms(2)]
  show m: "meta_header (hdr @ body) len (length hdr)" using h(1) assms(2-4) by (simp add: meta_header_def)
  have "tlv_scan (bytes_at (hdr @ body) 5 (length hdr - 5)) = Some (map as_record ?ts)"
    using h(2) assms(2) size by (simp add: tlv_scan_records)
  from createStoreMeta_scan [OF m this, of x]
  show "\<exists>u. createStoreMeta (new_unpacker (hdr @ body) (int len) x) = Some (Inr (?ts, u)) \<and> um_hdr_len u = of_nat (length hdr)"
    by (simp add: accepted_metas [OF entry_metas_ok [OF assms(1)]])
qed

section \<open>Rebuilding the index\<close>

lemma set_std_octets: "set_std (std_octets e) t = e\<lparr>de_key := de_key t\<rparr>"
  by (simp add: set_std_def std_octets_def bytes_at_def del: le_octets.simps)

lemma visit_entry:
  assumes "entry_fits e url vary"
  shows "visit_all (entry_metas objsize e url vary) (t, k) = Inr (e\<lparr>de_key := de_key t\<rparr>, de_key e)"
  using assms
  by (auto simp: entry_metas_def entry_fits_def init_store_entry_def meta_of_def read_octets_def bytes_at_def set_std_octets split: option.split)

lemma not_zero: "buf ! 0 \<noteq> 0 \<Longrightarrow> buf \<noteq> [] \<Longrightarrow> um_buf u = buf \<Longrightarrow> isBufferZero u = Inr False"
  by (cases buf) (auto simp: isBufferZero_def zero_from.simps [of _ 0] read_octets_def bytes_at_def)

lemma check_sizes_eq:
  assumes "n < 2 ^ 30" "0 < expected"
  shows "check_sizes expected (of_nat n) sz = (if sz = 0 \<or> sz = expected - of_nat n \<or> sz = expected then Some expected else None)"
  using assms size_t_small(1) [of n] by (auto simp: check_sizes_def)

lemma rebuild_entry:
  assumes "entry_fits e url vary" "hdr = header_octets (metas_octets (entry_metas objsize e url vary))"
    "length hdr \<le> len" "len \<le> length (hdr @ body)" "\<not> storeKeyNull (de_key e)"
  shows "storeRebuildParseEntry (hdr @ body) len tmpe expected bad = Some (Inr
    (case check_sizes expected (of_nat (length hdr)) (de_swap_file_sz e) of
       None \<Rightarrow> (False, e, bad)
     | Some sz \<Rightarrow> if bit (de_flags e) KEY_PRIVATE_bit then (False, e\<lparr>de_swap_file_sz := sz\<rparr>, bad + 1) else (True, e\<lparr>de_swap_file_sz := sz\<rparr>, bad)))"
proof -
  note w = written_header [OF assms(1-4)]
  obtain u where u: "createStoreMeta (new_unpacker (hdr @ body) (int len) (of_nat (length hdr))) = Some (Inr (entry_metas objsize e url vary, u))"
    "um_hdr_len u = of_nat (length hdr)" using w(3) by blast
  have "(hdr @ body) ! 0 \<noteq> 0" "hdr @ body \<noteq> []" using assms(2) by (simp_all add: header_octets_def)
  then have "isBufferZero (new_unpacker (hdr @ body) (int len) 0) = Inr False" by (rule not_zero) (simp add: new_unpacker_def)
  moreover have "entry_metas objsize e url vary \<noteq> []" by (simp add: entry_metas_def)
  ultimately show ?thesis
    using assms(5) by (simp add: storeRebuildParseEntry_def Let_def meta_header_sane [OF w(1)] u visit_entry [OF assms(1)] split: option.split)
qed

section \<open>Serving a hit\<close>

lemma same_c_string_eq:
  assumes "\<And>c. f c = 0 \<longleftrightarrow> c = 0" "0 \<notin> set s" "0 \<notin> set v"
  shows "same_c_string f s (v @ [0]) = Inr (map f s = map f v)"
  using assms(2,3)
proof (induction s arbitrary: v)
  case Nil
  then show ?case by (cases v) auto
next
  case (Cons c s)
  then show ?case using assms(1) [of c] assms(1) [of 0] by (cases v) auto
qed

lemma c_str_terminated: "0 \<notin> set v \<Longrightarrow> c_str (v @ [0]) = v"
  by (induction v) (auto simp: c_str_def)

lemma to_lower_zero: "to_lower c = 0 \<longleftrightarrow> c = 0"
proof -
  have "c + 32 \<noteq> 0" if "65 \<le> c" "c \<le> 90"
    using that by (simp add: word_le_nat_alt unat_word_ariths word_unat_eq_iff)
  then show ?thesis by (auto simp: to_lower_def)
qed

text \<open>
  The object that a file was written for: its key unless the entry that is looked for has a private one, its URL regardless
  of case, its Vary headers.  What the entry or the file does not say matches.
\<close>

definition same_object :: "disk_entry \<Rightarrow> bytes \<Rightarrow> bytes option \<Rightarrow> disk_entry \<Rightarrow> disk_object \<Rightarrow> bool" where
  "same_object e url vary e' m' \<longleftrightarrow> (bit (de_flags e') KEY_PRIVATE_bit \<or> de_key e' = de_key e) \<and>
     (case do_url m' of None \<Rightarrow> True | Some url' \<Rightarrow> map to_lower url' = map to_lower url) \<and>
     (case (vary, do_vary_headers m') of (Some v, Some v') \<Rightarrow> v' = v | _ \<Rightarrow> True)"

definition c_strings :: "disk_object \<Rightarrow> bool" where
  "c_strings m \<longleftrightarrow> (case do_url m of None \<Rightarrow> True | Some s \<Rightarrow> 0 \<notin> set s) \<and> (case do_vary_headers m of None \<Rightarrow> True | Some s \<Rightarrow> 0 \<notin> set s)"

lemma check_entry:
  assumes "entry_fits e url vary" "c_strings m'"
  shows "\<exists>m'' k. check_all (entry_metas objsize e url vary) e' (m', n) = Inr (same_object e url vary e' m', m'', k) \<and>
    (same_object e url vary e' m' \<longrightarrow> k = n \<and> m'' = m'\<lparr>do_vary_headers := (case do_vary_headers m' of None \<Rightarrow> vary | Some v \<Rightarrow> Some v)\<rparr>)"
proof -
  have fits: "length (de_key e) = 16" "0 \<notin> set url" "vary = Some v \<Longrightarrow> 0 \<notin> set v" for v
    using assms(1) by (simp_all add: entry_fits_def)
  have md5: "checkConsistency (meta_of StoreMetaMD5 (de_key e)) e' (m', n) =
      Inr (bit (de_flags e') KEY_PRIVATE_bit \<or> de_key e' = de_key e, m', if bit (de_flags e') KEY_PRIVATE_bit \<or> de_key e' = de_key e then n else n + 1)"
    using fits(1) by (auto simp: meta_of_def read_octets_def bytes_at_def)
  have url: "checkConsistency (meta_of StoreMetaURL (url @ [0])) e' (m', n) =
      Inr (case do_url m' of None \<Rightarrow> True | Some url' \<Rightarrow> map to_lower url' = map to_lower url, m', n)"
    using assms(2) fits(2) by (auto simp: meta_of_def c_strings_def same_c_string_eq to_lower_zero split: option.splits)
  have vary: "checkConsistency (meta_of StoreMetaVary (v @ [0])) e' (m', n) =
      Inr (case do_vary_headers m' of None \<Rightarrow> (True, m'\<lparr>do_vary_headers := Some v\<rparr>, n) | Some v' \<Rightarrow> (v' = v, m', n))" if "vary = Some v" for v
    using assms(2) fits(3) [OF that]
    by (auto simp: meta_of_def c_strings_def same_c_string_eq xstrdup_def c_str_terminated split: option.splits)
  have rest: "checkConsistency (meta_of c v) e' (m', n) = Inr (True, m', n)" if "c = StoreMetaSTDLFS \<or> c = StoreMetaObjSize" for c v
    using that by (auto simp: meta_of_def)
  show ?thesis
    using vary by (auto simp: entry_metas_def md5 url rest same_object_def simp del: checkConsistency.simps split: option.splits)
qed

text \<open>
  What is packed is unpacked.  The meta data of an entry whose URL and Vary headers fit is packed into a header, and
  unpacking the file, whatever object follows the header and however much of it was read, gives back exactly the packed
  records and the size of the header.
\<close>

lemma swap_meta_roundtrip:
  assumes "entry_fits e url (do_vary_headers m)" "do_url m = Some url" "\<And>n. length (garbage n) = n"
  shows "\<exists>ts hdr n. storeSwapMetaBuild True objsize e (Some m) = Inr (Some ts) \<and> storeSwapMetaPack garbage ts = Inr (hdr, n) \<and>
    sint n = int (length hdr) \<and>
    (\<forall>body len x. length hdr \<le> len \<and> len \<le> length (hdr @ body) \<longrightarrow>
      (\<exists>u. createStoreMeta (new_unpacker (hdr @ body) (int len) x) = Some (Inr (ts, u)) \<and> um_hdr_len u = n))"
proof -
  let ?ts = "entry_metas objsize e url (do_vary_headers m)"
  let ?hdr = "header_octets (metas_octets ?ts)"
  have pack: "storeSwapMetaPack garbage ?ts = Inr (?hdr, of_nat (length ?hdr))"
    using pack_metas [OF entry_metas_ok [OF assms(1)] entry_metas_size [OF assms(1)] assms(3)] by simp
  moreover have "length ?hdr < 2 ^ 31" using entry_metas_size [OF assms(1), of objsize] by simp
  then have "sint (of_nat (length ?hdr) :: 32 word) = int (length ?hdr)" by (rule int_small(1))
  ultimately show ?thesis
    using build_metas [OF assms(1,2)] written_header(3) [OF assms(1) refl] by blast
qed

text \<open>An entry for the witnesses below.\<close>

definition demo_disk_entry :: disk_entry where
  "demo_disk_entry = \<lparr>de_key = replicate 16 1, de_timestamp = 7, de_lastref = 8, de_expires = - 1, de_lastmod = - 1, de_swap_file_sz = 0,
     de_refcount = 1, de_flags = 0\<rparr>"

definition demo_disk_object :: disk_object where
  "demo_disk_object = \<lparr>do_url = Some [104], do_vary_headers = None, do_swap_hdr_sz = 0, do_object_sz = 0\<rparr>"

definition demo_hdr_octets :: bytes where
  "demo_hdr_octets = header_octets (metas_octets (entry_metas 2 demo_disk_entry [104] None))"

lemma demo_disk:
  "entry_fits demo_disk_entry [104] (do_vary_headers demo_disk_object)" "do_url demo_disk_object = Some [104]"
  "swapped_out (\<lambda>n. replicate n 0) 2 demo_disk_entry demo_disk_object demo_hdr_octets" "length demo_hdr_octets = 95"
  "\<not> storeKeyNull (de_key demo_disk_entry)" "c_strings demo_disk_object"
proof -
  show fits: "entry_fits demo_disk_entry [104] (do_vary_headers demo_disk_object)" and url: "do_url demo_disk_object = Some [104]"
    by (simp_all add: entry_fits_def demo_disk_entry_def demo_disk_object_def)
  show "swapped_out (\<lambda>n. replicate n 0) 2 demo_disk_entry demo_disk_object demo_hdr_octets"
    using swapped_out_hdr [OF fits url, of "\<lambda>n. replicate n 0" 2] by (simp add: demo_hdr_octets_def demo_disk_object_def)
  show "length demo_hdr_octets = 95" by (simp add: demo_hdr_octets_def entry_metas_def meta_of_def demo_disk_entry_def)
  show "\<not> storeKeyNull (de_key demo_disk_entry)" "c_strings demo_disk_object"
    by (simp_all add: storeKeyNull_def demo_disk_entry_def c_strings_def demo_disk_object_def)
qed

text \<open>
  A URL record without a terminating zero: the comparison with a URL that it begins with runs past the end of the value.
\<close>

lemma unterminated_url:
  "checkConsistency \<lparr>sm_class = StoreMetaURL, sm_length = 1, sm_value = [104]\<rparr> e (demo_disk_object, n) = Inl OutOfBounds"
  by (simp add: demo_disk_object_def)

section \<open>Properties\<close>

text \<open>
  C32. An object that was swapped out is indexed again.  While the index is rebuilt, reading its file restores key, times,
  reference count and flags exactly; the size is the expected one when the stored size is unset, counts the object alone or
  agrees, and otherwise the file is rejected; and an entry with a private key is counted and rejected.
\<close>

theorem rebuild_restores_entry:
  assumes "entry_fits e url (do_vary_headers m)" "do_url m = Some url" "\<And>n. length (garbage n) = n"
    "swapped_out garbage objsize e m hdr" "length hdr \<le> len" "len \<le> length (hdr @ body)" "\<not> storeKeyNull (de_key e)" "0 < expected"
  shows "storeRebuildParseEntry (hdr @ body) len tmpe expected bad = Some (Inr
    (if de_swap_file_sz e = 0 \<or> de_swap_file_sz e = expected - of_nat (length hdr) \<or> de_swap_file_sz e = expected
     then if bit (de_flags e) KEY_PRIVATE_bit then (False, e\<lparr>de_swap_file_sz := expected\<rparr>, bad + 1)
       else (True, e\<lparr>de_swap_file_sz := expected\<rparr>, bad)
     else (False, e, bad)))"
proof -
  have hdr: "hdr = header_octets (metas_octets (entry_metas objsize e url (do_vary_headers m)))"
    using assms(4) swapped_out_hdr [OF assms(1-3)] by simp
  from rebuild_entry [OF assms(1) this assms(5-7)] check_sizes_eq [OF written_header(2) [OF assms(1) hdr assms(5,6)] assms(8)]
  show ?thesis by simp
qed

theorem rebuild_restores_entry_witness:
  "storeRebuildParseEntry (demo_hdr_octets @ [1, 2]) 97 demo_disk_entry 97 0 = Some (Inr (True, demo_disk_entry\<lparr>de_swap_file_sz := 97\<rparr>, 0))"
proof -
  have "de_swap_file_sz demo_disk_entry = 0" "\<not> bit (de_flags demo_disk_entry) KEY_PRIVATE_bit" by (simp_all add: demo_disk_entry_def)
  then show ?thesis
    using rebuild_restores_entry [OF demo_disk(1,2) _ demo_disk(3), of 97 "[1, 2]" 97 demo_disk_entry 0] demo_disk(4,5) by simp
qed



end
