(* ===== verification/Swap_Log.thy ===== *)
theory Swap_Log
  imports Disk_Meta
begin

unbundle bit_operations_syntax

text \<open>
  The records of the swap log, from which the index of a cache directory is rebuilt: \<^verbatim>\<open>src/StoreSwapLogData.cc\<close> with its
  header.  A record carries a 24-bit checksum of the file number and the size; it is shown that the checksum is accepted after
  \<^verbatim>\<open>finalize()\<close> and that it detects every change of one bit.
\<close>

section \<open>Checksums\<close>

lemma fold24_parts: "unat (s0 AND 0xFFFFFF :: 64 word) = unat s0 mod 2 ^ 24" "unat (drop_bit 24 (s0 :: 64 word)) = unat s0 div 2 ^ 24"
proof -
  have "(0xFFFFFF :: 64 word) = mask 24" by (simp add: mask_eq_exp_minus_1)
  then have "s0 AND 0xFFFFFF = take_bit 24 s0" by (simp add: take_bit_eq_mask)
  moreover have "unat (take_bit 24 s0) = take_bit 24 (unat s0)" by (rule unsigned_take_bit_eq)
  ultimately show "unat (s0 AND 0xFFFFFF) = unat s0 mod 2 ^ 24" by (metis take_bit_eq_mod)
  show "unat (drop_bit 24 s0) = unat s0 div 2 ^ 24" by (simp add: drop_bit_eq_div unat_div_distrib)
qed

lemma fold24_sum: "unat ((s0 AND 0xFFFFFF) + drop_bit 24 s0 :: 64 word) = unat s0 mod 2 ^ 24 + unat s0 div 2 ^ 24"
proof -
  have "unat s0 < 2 ^ 64" using unsigned_less [of s0] by simp
  then have "unat s0 div 2 ^ 24 < 2 ^ 40" by (simp add: less_mult_imp_div_less)
  moreover have "unat s0 mod 2 ^ 24 < 2 ^ 24" by simp
  ultimately have "unat s0 mod 2 ^ 24 + unat s0 div 2 ^ 24 < 2 ^ 64" by simp
  then show ?thesis by (simp add: unat_word_ariths fold24_parts)
qed

function fold24 :: "64 word \<Rightarrow> 64 word" where
  "fold24 s0 = (let higherBits = drop_bit 24 s0 in if higherBits = 0 then s0 else fold24 ((s0 AND 0xFFFFFF) + higherBits))"
  by pat_completeness auto

termination
proof (relation "measure unat")
  fix s0 hi :: "64 word"
  assume hi: "hi = drop_bit 24 s0" "hi \<noteq> 0"
  then have "unat (drop_bit 24 s0) \<noteq> 0" by (metis unsigned_0 unsigned_word_eqI)
  then have "0 < unat s0 div 2 ^ 24" unfolding fold24_parts(2) by simp
  moreover have "unat s0 = 16777216 * (unat s0 div 2 ^ 24) + unat s0 mod 2 ^ 24" by simp
  ultimately have "unat s0 mod 2 ^ 24 + unat s0 div 2 ^ 24 < unat s0" by linarith
  then show "((s0 AND 0xFFFFFF) + hi, s0) \<in> measure unat" using hi(1) fold24_sum [of s0] by simp
qed simp

declare fold24.simps [simp del]

definition checksum_octets :: "64 word \<Rightarrow> bytes" where
  "checksum_octets s0 = [ucast s0, ucast (drop_bit 8 s0), ucast (drop_bit 16 s0)]"

definition set_checksum :: "32 word \<Rightarrow> 32 word \<Rightarrow> 32 word \<Rightarrow> bytes" where
  "set_checksum f1 f2 f3 = checksum_octets (NOT (fold24 (ucast f1 + ucast f2 + ucast f3)))"

definition set_checksum2 :: "32 word \<Rightarrow> 64 word \<Rightarrow> bytes" where
  "set_checksum2 f1 f2 = set_checksum f1 (ucast (drop_bit 32 f2)) (ucast (f2 AND 0xFFFFFFFF))"

section \<open>Records\<close>

abbreviation SWAP_LOG_NOP :: byte where "SWAP_LOG_NOP \<equiv> 0"
abbreviation SWAP_LOG_ADD :: byte where "SWAP_LOG_ADD \<equiv> 1"
abbreviation SWAP_LOG_DEL :: byte where "SWAP_LOG_DEL \<equiv> 2"
abbreviation SWAP_LOG_VERSION :: byte where "SWAP_LOG_VERSION \<equiv> 3"
abbreviation SWAP_LOG_MAX :: byte where "SWAP_LOG_MAX \<equiv> 4"

record swap_log_data =
  sl_op :: byte
  sl_checksum :: bytes
  sl_swap_filen :: "32 word"
  sl_timestamp :: "64 word"
  sl_lastref :: "64 word"
  sl_expires :: "64 word"
  sl_lastmod :: "64 word"
  sl_swap_file_sz :: "64 word"
  sl_refcount :: "16 word"
  sl_flags :: "16 word"
  sl_key :: bytes

definition new_swap_log_data :: swap_log_data where
  "new_swap_log_data = \<lparr>sl_op = 0, sl_checksum = [0, 0, 0], sl_swap_filen = 0, sl_timestamp = 0, sl_lastref = 0, sl_expires = 0, sl_lastmod = 0,
     sl_swap_file_sz = 0, sl_refcount = 0, sl_flags = 0, sl_key = replicate 16 0\<rparr>"

definition log_sane :: "swap_log_data \<Rightarrow> bool" where
  "log_sane d =
     (if sl_checksum d \<noteq> set_checksum2 (sl_swap_filen d) (sl_swap_file_sz d) then False
      else SWAP_LOG_NOP < sl_op d \<and> sl_op d < SWAP_LOG_MAX \<and> sint (sl_swap_filen d) \<ge> 0 \<and>
        sint (sl_timestamp d) \<ge> - 2 \<and> sint (sl_lastref d) \<ge> - 2 \<and> sint (sl_expires d) \<ge> - 2 \<and> sint (sl_lastmod d) \<ge> - 2 \<and>
        sl_swap_file_sz d > 0)"

definition finalize :: "swap_log_data \<Rightarrow> swap_log_data" where
  "finalize d = d\<lparr>sl_checksum := set_checksum2 (sl_swap_filen d) (sl_swap_file_sz d)\<rparr>"

record swap_log_header =
  lh_op :: byte
  lh_checksum :: bytes
  lh_version :: "32 word"
  lh_record_size :: "32 word"

text \<open>The size of a record is that of the structure on a 64-bit machine, its padding included.\<close>

definition new_swap_log_header :: swap_log_header where
  "new_swap_log_header = \<lparr>lh_op = SWAP_LOG_VERSION, lh_checksum = set_checksum 2 72 0, lh_version = 2, lh_record_size = 72\<rparr>"

definition header_sane :: "swap_log_header \<Rightarrow> bool" where
  "header_sane h =
     (if lh_checksum h \<noteq> set_checksum (lh_version h) (lh_record_size h) 0 then False
      else lh_op h = SWAP_LOG_VERSION \<and> sint (lh_version h) \<ge> 2 \<and> sint (lh_record_size h) > 0)"

definition gapSize :: "swap_log_header \<Rightarrow> 64 word outcome" where
  "gapSize h = guardE (sint (lh_record_size h) > 0) AssertFault
     (guardE (scast (lh_record_size h) > (12 :: 64 word)) AssertFault (Inr (scast (lh_record_size h) - 12)))"

section \<open>What the checksum detects\<close>

lemma fold24_mod: "unat (fold24 s) mod 16777215 = unat s mod 16777215 \<and> unat (fold24 s) < 2 ^ 24"
proof (induction s rule: fold24.induct)
  case (1 s)
  let ?t = "(s AND 0xFFFFFF) + drop_bit 24 s"
  show ?case
  proof (cases "drop_bit 24 s = 0")
    case True
    then have "unat s div 2 ^ 24 = 0" using fold24_parts(2) [of s] by (simp del: div_eq_0_iff)
    then show ?thesis using True by (subst (1 2) fold24.simps) (simp add: div_eq_0_iff)
  next
    case False
    have "unat s = unat ?t + 16777215 * (unat s div 2 ^ 24)" using fold24_sum [of s] by simp
    then have "unat s mod 16777215 = unat ?t mod 16777215" by (metis mod_mult_self2)
    then show ?thesis using False "1.IH" [OF refl False] by (subst (1 2) fold24.simps) (simp add: Let_def)
  qed
qed

lemma checksum_octets_inj: "checksum_octets s = checksum_octets t \<Longrightarrow> n < 24 \<Longrightarrow> bit s n = bit t n"
proof -
  assume eq: "checksum_octets s = checksum_octets t" and n: "n < 24"
  have "bit (ucast s :: byte) k = bit (ucast t :: byte) k" "bit (ucast (drop_bit 8 s) :: byte) k = bit (ucast (drop_bit 8 t) :: byte) k"
    "bit (ucast (drop_bit 16 s) :: byte) k = bit (ucast (drop_bit 16 t) :: byte) k" for k
    using eq by (simp_all add: checksum_octets_def)
  from this(1) [of n] this(2) [of "n - 8"] this(3) [of "n - 16"] n show ?thesis
    by (cases "n < 8"; cases "n < 16") (auto simp: bit_simps less_diff_conv2)
qed

lemma checksum_eq:
  assumes "checksum_octets (NOT (fold24 s)) = checksum_octets (NOT (fold24 t))"
  shows "unat s mod 16777215 = unat t mod 16777215"
proof -
  have small: "\<not> bit (fold24 u) n" if "24 \<le> n" for u n
  proof -
    have "take_bit 24 (unat (fold24 u)) = unat (fold24 u)" using fold24_mod [of u] by (intro take_bit_nat_eq_self) simp
    then have "take_bit 24 (fold24 u) = fold24 u" by (metis unsigned_take_bit_eq unsigned_word_eqI)
    then show ?thesis using that by (metis bit_take_bit_iff not_le)
  qed
  have "fold24 s = fold24 t"
  proof (rule bit_word_eqI)
    fix n assume n: "n < LENGTH(64)"
    show "bit (fold24 s) n = bit (fold24 t) n"
      using small checksum_octets_inj [OF assms, of n] n by (cases "n < 24") (simp_all add: bit_simps)
  qed
  then show ?thesis using fold24_mod [of s] fold24_mod [of t] by simp
qed

lemma not_dvd_power: "\<not> (16777215 :: nat) dvd 2 ^ j"
proof
  assume dvd: "(16777215 :: nat) dvd 2 ^ j"
  have "coprime (16777215 :: nat) (2 ^ j)" by simp
  with dvd have "is_unit (16777215 :: nat)" by (meson coprime_common_divisor dvd_refl)
  then show False by simp
qed

text \<open>The sum of three words, and what flipping a bit of a word does to it.\<close>

lemma unat_sum: "unat (ucast f1 + ucast f2 + ucast f3 :: 64 word) = unat (f1 :: 32 word) + unat (f2 :: 32 word) + unat (f3 :: 32 word)"
proof -
  have "unat (ucast f :: 64 word) = unat (f :: 32 word)" for f by (simp add: unsigned_ucast_eq take_bit_nat_eq_self unsigned_less [THEN less_trans])
  moreover have "unat f1 < 2 ^ 32" "unat f2 < 2 ^ 32" "unat f3 < 2 ^ 32"
    using unsigned_less [of f1] unsigned_less [of f2] unsigned_less [of f3] by simp_all
  ultimately show ?thesis by (simp add: unat_word_ariths)
qed

lemma set_bit_unat: "\<not> bit w k \<Longrightarrow> k < 32 \<Longrightarrow> unat (set_bit k (w :: 32 word)) = unat w + 2 ^ k"
proof -
  assume "\<not> bit w k" "k < 32"
  then have "unat (set_bit k w) = set_bit k (unat w)" by (intro bit_eqI) (auto simp: bit_simps)
  also have "\<dots> = unat w + 2 ^ k" using \<open>\<not> bit w k\<close> by (simp add: set_bit_eq bit_unsigned_iff)
  finally show ?thesis .
qed

lemma flip_bit_unat:
  assumes "k < 32"
  shows "unat (flip_bit k (w :: 32 word)) = unat w + 2 ^ k \<or> unat w = unat (flip_bit k w) + 2 ^ k"
proof (cases "bit w k")
  case True
  have "w = set_bit k (unset_bit k w)" by (rule bit_word_eqI) (use True in \<open>auto simp: bit_simps\<close>)
  moreover have "unat (set_bit k (unset_bit k w)) = unat (unset_bit k w) + 2 ^ k"
    using assms by (intro set_bit_unat) (simp_all add: bit_simps)
  ultimately show ?thesis using True by (simp add: flip_bit_eq_if)
next
  case False
  then show ?thesis using assms by (simp add: flip_bit_eq_if set_bit_unat)
qed

lemma set_checksum_differs:
  assumes "unat f1 + unat f2 + unat f3 + 2 ^ j = unat g1 + unat g2 + unat g3"
  shows "set_checksum f1 f2 f3 \<noteq> set_checksum g1 g2 g3"
proof
  assume "set_checksum f1 f2 f3 = set_checksum g1 g2 g3"
  from checksum_eq [OF this [unfolded set_checksum_def]]
  have "(unat f1 + unat f2 + unat f3 + 2 ^ j) mod 16777215 = (unat f1 + unat f2 + unat f3) mod 16777215"
    by (simp add: unat_sum assms)
  then have "(16777215 :: nat) dvd 2 ^ j" using mod_eq_dvd_iff_nat [of "unat f1 + unat f2 + unat f3" "unat f1 + unat f2 + unat f3 + 2 ^ j" 16777215] by simp
  with not_dvd_power show False by simp
qed

lemma set_checksum_flip:
  assumes "k < 32"
  shows "set_checksum (flip_bit k f1) f2 f3 \<noteq> set_checksum f1 f2 f3" "set_checksum f1 (flip_bit k f2) f3 \<noteq> set_checksum f1 f2 f3"
    "set_checksum f1 f2 (flip_bit k f3) \<noteq> set_checksum f1 f2 f3"
proof -
  have *: "set_checksum g1 g2 g3 \<noteq> set_checksum f1 f2 f3"
    if "unat g1 + unat g2 + unat g3 = unat f1 + unat f2 + unat f3 + 2 ^ k \<or> unat f1 + unat f2 + unat f3 = unat g1 + unat g2 + unat g3 + 2 ^ k" for g1 g2 g3
    using that set_checksum_differs [of f1 f2 f3 k g1 g2 g3] set_checksum_differs [of g1 g2 g3 k f1 f2 f3] by metis
  show "set_checksum (flip_bit k f1) f2 f3 \<noteq> set_checksum f1 f2 f3" by (rule *) (use flip_bit_unat [OF assms, of f1] in auto)
  show "set_checksum f1 (flip_bit k f2) f3 \<noteq> set_checksum f1 f2 f3" by (rule *) (use flip_bit_unat [OF assms, of f2] in auto)
  show "set_checksum f1 f2 (flip_bit k f3) \<noteq> set_checksum f1 f2 f3" by (rule *) (use flip_bit_unat [OF assms, of f3] in auto)
qed

lemma low_half: "(x :: 64 word) AND 0xFFFFFFFF = take_bit 32 x"
proof -
  have "(0xFFFFFFFF :: 64 word) = mask 32" by (simp add: mask_eq_exp_minus_1)
  then show ?thesis by (simp add: take_bit_eq_mask)
qed

lemma set_checksum2_flip:
  assumes "k < 64"
  shows "set_checksum2 f1 (flip_bit k f2) \<noteq> set_checksum2 f1 f2"
proof (cases "k < 32")
  case True
  have "ucast (drop_bit 32 (flip_bit k f2)) = (ucast (drop_bit 32 f2) :: 32 word)"
    "ucast (take_bit 32 (flip_bit k f2)) = (flip_bit k (ucast (take_bit 32 f2)) :: 32 word)"
    using True by (auto intro!: bit_word_eqI simp: bit_simps)
  then show ?thesis using set_checksum_flip(3) [OF True] by (simp add: set_checksum2_def low_half)
next
  case False
  have "ucast (take_bit 32 (flip_bit k f2)) = (ucast (take_bit 32 f2) :: 32 word)"
    "ucast (drop_bit 32 (flip_bit k f2)) = (flip_bit (k - 32) (ucast (drop_bit 32 f2)) :: 32 word)"
    using False assms by (auto intro!: bit_word_eqI simp: bit_simps)
  moreover have "k - 32 < 32" using assms by simp
  ultimately show ?thesis using set_checksum_flip(2) [of "k - 32"] by (simp only: set_checksum2_def low_half) blast
qed

text \<open>
  C36. The checksum of a swap log record detects every single-bit error in what it covers.  A finalized record is sane exactly
  when its operation, file number, times and size are in range; a finalized record in which one bit of the file number or of
  the size was flipped is never sane; and the header of a new log is sane, with a gap that fills it up to one record.
\<close>

theorem swap_log_checksum:
  "(log_sane (finalize d) \<longleftrightarrow> sl_op d \<in> {SWAP_LOG_ADD, SWAP_LOG_DEL, SWAP_LOG_VERSION} \<and> 0 \<le> sint (sl_swap_filen d) \<and>
      list_all (\<lambda>t. - 2 \<le> sint t) [sl_timestamp d, sl_lastref d, sl_expires d, sl_lastmod d] \<and> sl_swap_file_sz d \<noteq> 0) \<and>
   (\<forall>k < 32. \<not> log_sane ((finalize d)\<lparr>sl_swap_filen := flip_bit k (sl_swap_filen d)\<rparr>)) \<and>
   (\<forall>k < 64. \<not> log_sane ((finalize d)\<lparr>sl_swap_file_sz := flip_bit k (sl_swap_file_sz d)\<rparr>)) \<and>
   header_sane new_swap_log_header \<and> gapSize new_swap_log_header = Inr 60"
proof (intro conjI allI impI)
  have "(0 < w \<and> w < 4) = (w \<in> {1, 2, 3})" for w :: byte
    by (simp add: word_less_nat_alt word_unat_eq_iff) linarith
  then show "log_sane (finalize d) \<longleftrightarrow> sl_op d \<in> {SWAP_LOG_ADD, SWAP_LOG_DEL, SWAP_LOG_VERSION} \<and> 0 \<le> sint (sl_swap_filen d) \<and>
      list_all (\<lambda>t. - 2 \<le> sint t) [sl_timestamp d, sl_lastref d, sl_expires d, sl_lastmod d] \<and> sl_swap_file_sz d \<noteq> 0"
    by (auto simp: log_sane_def finalize_def word_gt_0)
  show "\<not> log_sane ((finalize d)\<lparr>sl_swap_filen := flip_bit k (sl_swap_filen d)\<rparr>)" if "k < 32" for k
    using set_checksum_flip(1) [OF that] by (simp add: log_sane_def finalize_def set_checksum2_def) metis
  show "\<not> log_sane ((finalize d)\<lparr>sl_swap_file_sz := flip_bit k (sl_swap_file_sz d)\<rparr>)" if "k < 64" for k
    using set_checksum2_flip [OF that] by (simp add: log_sane_def finalize_def) metis
  show "header_sane new_swap_log_header" "gapSize new_swap_log_header = Inr 60"
    by (simp_all add: header_sane_def new_swap_log_header_def gapSize_def)
qed

theorem swap_log_checksum_witness:
  "\<not> log_sane ((finalize (new_swap_log_data\<lparr>sl_op := 1, sl_swap_file_sz := 100\<rparr>))\<lparr>sl_swap_file_sz := flip_bit 3 100\<rparr>)"
  using swap_log_checksum [of "new_swap_log_data\<lparr>sl_op := 1, sl_swap_file_sz := 100\<rparr>"] by (auto dest: spec [of _ 3])

end
