(* ===== verification/Cache_Digest.thy ===== *)
theory Cache_Digest
  imports Disk_Meta
begin

unbundle bit_operations_syntax

text \<open>
  Cache digests, \<^verbatim>\<open>src/CacheDigest.cc\<close>: a Bloom filter of the keys of a cache, which peers exchange to learn what the others hold.
  The mask is an allocation of octets.  An \<^verbatim>\<open>int\<close> is a 32-bit word that is read as a signed number; the products that size the
  mask wrap around.  A failed allocation and a division by zero end the process (\<open>FatalFault\<close>).  The statistics that
  divide with floating-point numbers are left out, except that the percentage itself is a parameter where the program decides by it.
\<close>

section \<open>Bits of a mask\<close>

definition cbit_test :: "bytes \<Rightarrow> nat \<Rightarrow> bool outcome" where
  "cbit_test msk b = bindE (read_octets msk (b div 8) 1) (\<lambda>v. Inr (bit (v ! 0) (b mod 8)))"

definition cbit_set :: "bytes \<Rightarrow> nat \<Rightarrow> bytes outcome" where
  "cbit_set msk b = bindE (read_octets msk (b div 8) 1) (\<lambda>v. write_octets msk (b div 8) [v ! 0 OR push_bit (b mod 8) 1])"

section \<open>Digests\<close>

record cache_digest =
  cd_mask :: "bytes option"
  cd_mask_size :: "32 word"
  cd_capacity :: "32 word"
  cd_bits_per_entry :: "32 word"
  cd_count :: "32 word"
  cd_del_count :: "32 word"

definition cacheDigestCalcMaskSize :: "32 word \<Rightarrow> 32 word \<Rightarrow> 64 word" where
  "cacheDigestCalcMaskSize cap bpe = scast (cap * bpe + 7) div 8"

definition xcalloc :: "32 word \<Rightarrow> bytes outcome" where
  "xcalloc n = (if sint n < 0 then Inl FatalFault else Inr (replicate (max 1 (unat n)) 0))"

definition cacheDigestInit :: "32 word \<Rightarrow> 32 word \<Rightarrow> cache_digest \<Rightarrow> cache_digest outcome" where
  "cacheDigestInit capacity bpe cd =
     (let mask_size = cacheDigestCalcMaskSize capacity bpe in
      guardE (sint capacity > 0 \<and> sint bpe > 0) AssertFault
      (guardE (mask_size > 0) AssertFault
      (bindE (xcalloc (ucast mask_size)) (\<lambda>m.
         Inr (cd\<lparr>cd_capacity := capacity, cd_bits_per_entry := bpe, cd_mask_size := ucast mask_size, cd_mask := Some m\<rparr>)))))"

text \<open>The memory pool hands out cleared objects.\<close>

definition cacheDigestCreate :: "32 word \<Rightarrow> 32 word \<Rightarrow> cache_digest outcome" where
  "cacheDigestCreate capacity bpe = cacheDigestInit capacity bpe
     \<lparr>cd_mask = None, cd_mask_size = 0, cd_capacity = 0, cd_bits_per_entry = 0, cd_count = 0, cd_del_count = 0\<rparr>"

definition cacheDigestClean :: "cache_digest \<Rightarrow> cache_digest" where
  "cacheDigestClean cd = cd\<lparr>cd_mask := None\<rparr>"

definition with_mask :: "cache_digest \<Rightarrow> (bytes \<Rightarrow> 'a outcome) \<Rightarrow> 'a outcome" where
  "with_mask cd k = (case cd_mask cd of None \<Rightarrow> Inl OutOfBounds | Some m \<Rightarrow> k m)"

definition cacheDigestClone :: "cache_digest \<Rightarrow> cache_digest outcome" where
  "cacheDigestClone cd =
     bindE (cacheDigestCreate (cd_capacity cd) (cd_bits_per_entry cd)) (\<lambda>clone.
     let clone = clone\<lparr>cd_count := cd_count cd, cd_del_count := cd_del_count cd\<rparr> in
     guardE (cd_mask_size cd = cd_mask_size clone) AssertFault
     (with_mask cd (\<lambda>m. bindE (read_octets m 0 (unat (cd_mask_size cd))) (\<lambda>v.
      with_mask clone (\<lambda>m'. bindE (write_octets m' 0 v) (\<lambda>m'. Inr (clone\<lparr>cd_mask := Some m'\<rparr>)))))))"

definition cacheDigestClear :: "cache_digest \<Rightarrow> cache_digest outcome" where
  "cacheDigestClear cd = with_mask cd (\<lambda>m. bindE (write_octets m 0 (replicate (unat (cd_mask_size cd)) 0)) (\<lambda>m.
     Inr (cd\<lparr>cd_count := 0, cd_del_count := 0, cd_mask := Some m\<rparr>)))"

definition cacheDigestChangeCap :: "32 word \<Rightarrow> cache_digest \<Rightarrow> cache_digest outcome" where
  "cacheDigestChangeCap new_cap cd = cacheDigestInit new_cap (cd_bits_per_entry cd) (cacheDigestClean cd)"

text \<open>The four words of a key, in network byte order, are reduced to the bits of the mask.\<close>

definition cacheDigestHashKey :: "cache_digest \<Rightarrow> bytes \<Rightarrow> nat list outcome" where
  "cacheDigestHashKey cd key =
     (let bit_count = cd_mask_size cd * 8 in
      bindE (read_octets key 0 16) (\<lambda>v.
        guardE (bit_count \<noteq> 0) FatalFault
          (Inr (map (\<lambda>i. unat (ntohl (int_octets (octets_int (bytes_at v (4 * i) 4))) mod bit_count)) [0, 1, 2, 3]))))"

fun test_bits :: "bytes \<Rightarrow> nat list \<Rightarrow> bool outcome" where
  "test_bits msk [] = Inr True"
| "test_bits msk (h # hs) = bindE (cbit_test msk h) (\<lambda>on. if on then test_bits msk hs else Inr False)"

definition cacheDigestTest :: "cache_digest \<Rightarrow> bytes \<Rightarrow> bool outcome" where
  "cacheDigestTest cd key = bindE (cacheDigestHashKey cd key) (\<lambda>hs. with_mask cd (\<lambda>m. test_bits m hs))"

text \<open>The second result is the number of bits that were turned on, which the source counts in a histogram.\<close>

fun set_bits :: "bytes \<Rightarrow> nat list \<Rightarrow> nat \<Rightarrow> (bytes \<times> nat) outcome" where
  "set_bits msk [] on_xition_cnt = Inr (msk, on_xition_cnt)"
| "set_bits msk (h # hs) on_xition_cnt = bindE (cbit_test msk h) (\<lambda>on.
     if \<not> on then bindE (cbit_set msk h) (\<lambda>msk. set_bits msk hs (on_xition_cnt + 1)) else set_bits msk hs on_xition_cnt)"

definition cacheDigestAdd :: "bytes \<Rightarrow> cache_digest \<Rightarrow> (cache_digest \<times> nat) outcome" where
  "cacheDigestAdd key cd = bindE (cacheDigestHashKey cd key) (\<lambda>hs. with_mask cd (\<lambda>m.
     bindE (set_bits m hs 0) (\<lambda>(m, n). Inr (cd\<lparr>cd_mask := Some m, cd_count := cd_count cd + 1\<rparr>, n))))"

definition cacheDigestDel :: "bytes \<Rightarrow> cache_digest \<Rightarrow> cache_digest" where
  "cacheDigestDel key cd = cd\<lparr>cd_del_count := cd_del_count cd + 1\<rparr>"

section \<open>Statistics\<close>

record digest_stats =
  st_bit_count :: int
  st_bit_on_count :: int
  st_bseq_len_sum :: int
  st_bseq_count :: int

fun stats_loop :: "bytes \<Rightarrow> nat \<Rightarrow> int \<Rightarrow> int \<Rightarrow> int \<Rightarrow> int \<Rightarrow> bool \<Rightarrow> (int \<times> int \<times> int) outcome" where
  "stats_loop msk 0 on_count seq_len_sum seq_count cur_seq_len cur_seq_type = Inr (on_count, seq_len_sum, seq_count)"
| "stats_loop msk (Suc pos) on_count seq_len_sum seq_count cur_seq_len cur_seq_type =
     bindE (cbit_test msk pos) (\<lambda>is_on.
       let on_count = (if is_on then on_count + 1 else on_count) in
       if is_on \<noteq> cur_seq_type \<or> pos = 0
       then stats_loop msk pos on_count (seq_len_sum + cur_seq_len) (seq_count + 1) 1 is_on
       else stats_loop msk pos on_count seq_len_sum seq_count (cur_seq_len + 1) cur_seq_type)"

definition cacheDigestStats :: "cache_digest \<Rightarrow> digest_stats outcome" where
  "cacheDigestStats cd = with_mask cd (\<lambda>m.
     bindE (stats_loop m (nat (sint (cd_mask_size cd * 8))) 0 0 0 0 True) (\<lambda>(on_count, seq_len_sum, seq_count).
       Inr \<lparr>st_bit_count = sint (cd_mask_size cd * 8), st_bit_on_count = on_count, st_bseq_len_sum = seq_len_sum, st_bseq_count = seq_count\<rparr>))"

definition cacheDigestBitUtil :: "(int \<Rightarrow> int \<Rightarrow> int) \<Rightarrow> cache_digest \<Rightarrow> int outcome" where
  "cacheDigestBitUtil xpercentInt cd = bindE (cacheDigestStats cd) (\<lambda>s. Inr (xpercentInt (st_bit_on_count s) (st_bit_count s)))"

record guess_stats =
  trueHits :: int
  falseHits :: int
  trueMisses :: int
  falseMisses :: int

definition cacheDigestGuessStatsUpdate :: "bool \<Rightarrow> bool \<Rightarrow> guess_stats \<Rightarrow> guess_stats" where
  "cacheDigestGuessStatsUpdate real_hit guess_hit s =
     (if real_hit then if guess_hit then s\<lparr>trueHits := trueHits s + 1\<rparr> else s\<lparr>falseMisses := falseMisses s + 1\<rparr>
      else if guess_hit then s\<lparr>falseHits := falseHits s + 1\<rparr> else s\<lparr>trueMisses := trueMisses s + 1\<rparr>)"

section \<open>The digest as a set of bits\<close>

text \<open>
  A digest in use: its mask has as many octets as it says, and its capacity and bits per entry give that size without
  overflow; the bits of the mask can be counted with an \<^verbatim>\<open>int\<close>.
\<close>

definition sizes_ok :: "32 word \<Rightarrow> 32 word \<Rightarrow> bool" where
  "sizes_ok cap bpe \<longleftrightarrow> 0 < sint cap \<and> 0 < sint bpe \<and> unat cap * unat bpe < 2 ^ 31 - 7"

definition digest_ok :: "cache_digest \<Rightarrow> bool" where
  "digest_ok cd \<longleftrightarrow> sizes_ok (cd_capacity cd) (cd_bits_per_entry cd) \<and>
     unat (cd_mask_size cd) = (unat (cd_capacity cd) * unat (cd_bits_per_entry cd) + 7) div 8 \<and>
     (\<exists>m. cd_mask cd = Some m \<and> length m = unat (cd_mask_size cd))"

definition mask_bits :: "bytes \<Rightarrow> nat set" where
  "mask_bits m = {b. b div 8 < length m \<and> bit (m ! (b div 8)) (b mod 8)}"

definition digest_bits :: "cache_digest \<Rightarrow> nat set" where
  "digest_bits cd = (case cd_mask cd of None \<Rightarrow> {} | Some m \<Rightarrow> mask_bits m)"

text \<open>The bits of a key in a mask of \<open>n\<close> octets.\<close>

definition key_bits :: "nat \<Rightarrow> bytes \<Rightarrow> nat set" where
  "key_bits n key = (\<lambda>i. unat (ntohl (bytes_at key (4 * i) 4)) mod (8 * n)) ` {0, 1, 2, 3}"

end
