(* ===== verification/Digest_Filter.thy ===== *)
theory Digest_Filter
  imports Cache_Digest
begin

unbundle bit_operations_syntax

text \<open>
  A cache digest is a set of bits: adding a key adds its bits, and a key is found exactly when all its bits are there.  The
  locale \<open>bloom_filter\<close> is what the users of a digest rely on; the digest interprets it.
\<close>

section \<open>The contract of a filter\<close>

locale bloom_filter =
  fixes inv :: "'s \<Rightarrow> bool" and key_ok :: "'k \<Rightarrow> bool" and add :: "'s \<Rightarrow> 'k \<Rightarrow> 's outcome" and test :: "'s \<Rightarrow> 'k \<Rightarrow> bool outcome"
    and rep :: "'s \<Rightarrow> 'b set" and sig :: "'s \<Rightarrow> 'k \<Rightarrow> 'b set"
  assumes add_spec: "inv s \<Longrightarrow> key_ok k \<Longrightarrow> \<exists>s'. add s k = Inr s' \<and> inv s' \<and> rep s' = rep s \<union> sig s k \<and> sig s' = sig s"
    and test_spec: "inv s \<Longrightarrow> key_ok k \<Longrightarrow> test s k = Inr (sig s k \<subseteq> rep s)"
begin

lemma add_all_spec:
  "inv s \<Longrightarrow> list_all key_ok ks \<Longrightarrow> \<exists>s'. foldE add ks s = Inr s' \<and> inv s' \<and> rep s' = rep s \<union> (\<Union>k\<in>set ks. sig s k) \<and> sig s' = sig s"
proof (induction ks arbitrary: s)
  case (Cons k ks)
  then obtain s1 where s1: "add s k = Inr s1" "inv s1" "rep s1 = rep s \<union> sig s k" "sig s1 = sig s" using add_spec [of s k] by auto
  from Cons.IH [OF s1(2)] Cons.prems obtain s2 where "foldE add ks s1 = Inr s2" "inv s2" "rep s2 = rep s1 \<union> (\<Union>k\<in>set ks. sig s k)" "sig s2 = sig s"
    using s1(4) by auto
  then show ?case using s1 by auto
qed simp

lemma no_false_negatives:
  assumes "inv s" "list_all key_ok ks"
  shows "\<exists>s'. foldE add ks s = Inr s' \<and> inv s' \<and>
    (\<forall>k. key_ok k \<longrightarrow> test s' k = Inr (sig s k \<subseteq> rep s \<union> (\<Union>j\<in>set ks. sig s j)) \<and> (k \<in> set ks \<longrightarrow> test s' k = Inr True))"
proof -
  obtain s' where s': "foldE add ks s = Inr s'" "inv s'" "rep s' = rep s \<union> (\<Union>k\<in>set ks. sig s k)" "sig s' = sig s"
    using add_all_spec [OF assms] by blast
  then show ?thesis using test_spec [OF s'(2)] by auto
qed

end

section \<open>Numbers\<close>

lemma le_value_bound: "le_value v < 256 ^ length v"
proof (induction v)
  case (Cons b v)
  have "unat b < 256" using unsigned_less [of b] by simp
  then have "unat b + 256 * le_value v < 256 * (le_value v + 1)" by simp
  also have "\<dots> \<le> 256 * 256 ^ length v" using Cons by (intro mult_le_mono2) simp
  finally show ?case by simp
qed simp

lemma le_octets_value: "le_octets (length v) (le_value v) = v"
proof (induction v)
  case (Cons b v)
  have "unat b < 256" using unsigned_less [of b] by simp
  then have "(unat b + 256 * le_value v) div 256 = le_value v" by simp
  moreover have "(of_nat (unat b + 256 * le_value v) :: byte) = b"
    using \<open>unat b < 256\<close> by (simp add: word_unat_eq_iff unat_word_ariths unat_of_nat)
  ultimately show ?case using Cons by simp
qed simp

lemma int_octets_int: "length v = 4 \<Longrightarrow> int_octets (octets_int v) = v"
proof -
  assume v: "length v = 4"
  then have "unat (octets_int v) = le_value v" using le_value_bound [of v] by (simp add: octets_int_def unsigned_of_nat take_bit_nat_eq_self)
  then show ?thesis using le_octets_value [of v] v by (simp add: int_octets_def)
qed

lemma sizes_ok_nat:
  assumes "sizes_ok cap bpe"
  shows "unat cap * unat bpe + 7 < 2 ^ 31" "0 < unat cap * unat bpe"
    "cacheDigestCalcMaskSize cap bpe = of_nat ((unat cap * unat bpe + 7) div 8)"
    "ucast (cacheDigestCalcMaskSize cap bpe) = (of_nat ((unat cap * unat bpe + 7) div 8) :: 32 word)"
    "0 < (unat cap * unat bpe + 7) div 8" "8 * ((unat cap * unat bpe + 7) div 8) < 2 ^ 31"
proof -
  let ?n = "unat cap * unat bpe + 7"
  show b: "?n < 2 ^ 31" using assms by (simp add: sizes_ok_def)
  have "cap \<noteq> 0" "bpe \<noteq> 0" using assms by (auto simp: sizes_ok_def)
  then have "0 < unat cap" "0 < unat bpe" by (simp_all add: unat_gt_0)
  then show p: "0 < unat cap * unat bpe" by simp
  have "cap * bpe + 7 = of_nat ?n" by simp
  then have "scast (cap * bpe + 7) = (of_nat ?n :: 64 word)" using size_t_small(1) [OF b] by simp
  then have c: "cacheDigestCalcMaskSize cap bpe = of_nat ?n div 8" by (simp add: cacheDigestCalcMaskSize_def)
  also have "\<dots> = of_nat (?n div 8)"
    using b size_t_small(3) [OF b] size_t_small(3) [of "?n div 8"] by (simp add: word_unat_eq_iff unat_div_distrib del: of_nat_add of_nat_mult)
  finally show c: "cacheDigestCalcMaskSize cap bpe = of_nat (?n div 8)" .
  show "ucast (cacheDigestCalcMaskSize cap bpe) = (of_nat (?n div 8) :: 32 word)" unfolding c using b by (intro size_t_small(2)) simp
  have "8 \<le> ?n" using p by linarith
  then show "0 < ?n div 8" by (simp add: div_greater_zero_iff del: mult_pos_pos)
  show "8 * (?n div 8) < 2 ^ 31" using b by (metis div_times_less_eq_dividend le_less_trans mult.commute)
qed

section \<open>Bits\<close>

lemma mask_bits_bound: "b \<in> mask_bits m \<Longrightarrow> b < 8 * length m"
  by (auto simp: mask_bits_def)

lemma mask_bits_zero [simp]: "mask_bits (replicate n 0) = {}"
  by (auto simp: mask_bits_def)

lemma cbit_test_spec: "b < 8 * length m \<Longrightarrow> cbit_test m b = Inr (b \<in> mask_bits m)"
proof -
  assume "b < 8 * length m"
  then have "b div 8 < length m" by (simp add: less_mult_imp_div_less mult.commute)
  then show ?thesis by (simp add: cbit_test_def read_octets_def bytes_at_1 mask_bits_def)
qed

lemma cbit_set_spec:
  assumes "b < 8 * length m"
  shows "\<exists>m'. cbit_set m b = Inr m' \<and> length m' = length m \<and> mask_bits m' = insert b (mask_bits m)"
proof -
  let ?i = "b div 8" and ?v = "m ! (b div 8) OR push_bit (b mod 8) 1"
  have i: "?i < length m" using assms by (simp add: less_mult_imp_div_less mult.commute)
  then have "cbit_set m b = Inr (m[?i := ?v])"
    by (simp add: cbit_set_def read_octets_def write_octets_def bytes_at_1 memcpy_at_def upd_conv_take_nth_drop)
  moreover have "mask_bits (m[?i := ?v]) = insert b (mask_bits m)"
  proof (rule set_eqI)
    fix c
    have "c = b \<longleftrightarrow> c div 8 = b div 8 \<and> c mod 8 = b mod 8" by (metis div_mult_mod_eq)
    moreover have "c mod 8 < 8" by simp
    ultimately show "c \<in> mask_bits (m[?i := ?v]) \<longleftrightarrow> c \<in> insert b (mask_bits m)"
      using i by (auto simp: mask_bits_def nth_list_update bit_simps)
  qed
  ultimately show ?thesis by simp
qed

lemma test_bits_spec: "\<forall>b \<in> set hs. b < 8 * length m \<Longrightarrow> test_bits m hs = Inr (set hs \<subseteq> mask_bits m)"
  by (induction hs) (auto simp: cbit_test_spec)

lemma set_bits_spec:
  "\<forall>b \<in> set hs. b < 8 * length m \<Longrightarrow> \<exists>m' k. set_bits m hs n = Inr (m', k) \<and> length m' = length m \<and> mask_bits m' = mask_bits m \<union> set hs"
proof (induction hs arbitrary: m n)
  case (Cons h hs)
  show ?case
  proof (cases "h \<in> mask_bits m")
    case True
    with Cons.IH [of m n] Cons.prems show ?thesis by (auto simp: cbit_test_spec)
  next
    case False
    obtain m1 where m1: "cbit_set m h = Inr m1" "length m1 = length m" "mask_bits m1 = insert h (mask_bits m)"
      using cbit_set_spec [of h m] Cons.prems by auto
    with Cons.IH [of m1 "n + 1"] Cons.prems False show ?thesis by (auto simp: cbit_test_spec)
  qed
qed simp

section \<open>The operations of a digest\<close>

abbreviation digest_octets :: "cache_digest \<Rightarrow> nat" where
  "digest_octets cd \<equiv> unat (cd_mask_size cd)"

lemma digest_okD:
  assumes "digest_ok cd"
  obtains m where "cd_mask cd = Some m" "length m = digest_octets cd" "0 < digest_octets cd" "8 * digest_octets cd < 2 ^ 31"
    "sizes_ok (cd_capacity cd) (cd_bits_per_entry cd)"
  using assms sizes_ok_nat(5,6) [of "cd_capacity cd" "cd_bits_per_entry cd"] unfolding digest_ok_def by auto

lemma init_spec:
  assumes "sizes_ok cap bpe"
  shows "\<exists>cd'. cacheDigestInit cap bpe cd = Inr cd' \<and> digest_ok cd' \<and> digest_bits cd' = {} \<and> cd_capacity cd' = cap \<and> cd_bits_per_entry cd' = bpe \<and>
    cd_count cd' = cd_count cd \<and> cd_del_count cd' = cd_del_count cd"
proof -
  let ?n = "(unat cap * unat bpe + 7) div 8"
  note sz = sizes_ok_nat [OF assms]
  have n: "?n < 2 ^ 31" using sz(1) by simp
  have "sint (of_nat ?n :: 32 word) = int ?n" "unat (of_nat ?n :: 32 word) = ?n" using int_small [OF n] by simp_all
  then have "xcalloc (of_nat ?n) = Inr (replicate ?n 0)" using sz(5) by (simp add: xcalloc_def max_def)
  moreover have "0 < cacheDigestCalcMaskSize cap bpe" using sz(5) size_t_small(3) [OF n] by (simp add: sz(3) word_less_nat_alt)
  ultimately show ?thesis
    using assms sz(4) \<open>unat (of_nat ?n :: 32 word) = ?n\<close> unfolding cacheDigestInit_def sz(4) Let_def
    by (auto simp: digest_ok_def digest_bits_def sizes_ok_def)
qed

lemma hash_spec:
  assumes "digest_ok cd" "16 \<le> length key"
  shows "\<exists>hs. cacheDigestHashKey cd key = Inr hs \<and> set hs = key_bits (digest_octets cd) key \<and> (\<forall>b \<in> set hs. b < 8 * digest_octets cd)"
proof -
  let ?n = "digest_octets cd"
  obtain m where n: "0 < ?n" "8 * ?n < 2 ^ 31" by (rule digest_okD [OF assms(1)])
  have "unat (cd_mask_size cd * 8) = 8 * ?n" using n(2) by (simp add: unat_word_ariths)
  then have bc: "unat (cd_mask_size cd * 8) = 8 * ?n" "cd_mask_size cd * 8 \<noteq> 0" using n(1) by auto
  have eq: "unat (ntohl (int_octets (octets_int (bytes_at (bytes_at key 0 16) (4 * i) 4))) mod (cd_mask_size cd * 8)) =
      unat (ntohl (bytes_at key (4 * i) 4)) mod (8 * ?n)" if "i < 4" for i
  proof -
    have "bytes_at (bytes_at key 0 16) (4 * i) 4 = bytes_at key (4 * i) 4" using that by (simp add: bytes_at_def take_drop min_def)
    moreover have "length (bytes_at key (4 * i) 4) = 4" using assms(2) that by simp
    ultimately show ?thesis by (simp add: int_octets_int unat_mod_distrib bc(1))
  qed
  have "map (\<lambda>i. unat (ntohl (int_octets (octets_int (bytes_at (bytes_at key 0 16) (4 * i) 4))) mod (cd_mask_size cd * 8))) [0, 1, 2, 3] =
      map (\<lambda>i. unat (ntohl (bytes_at key (4 * i) 4)) mod (8 * ?n)) [0, 1, 2, 3]"
    by (rule list.map_cong [OF refl]) (rule eq, auto)
  then have "cacheDigestHashKey cd key = Inr (map (\<lambda>i. unat (ntohl (bytes_at key (4 * i) 4)) mod (8 * ?n)) [0, 1, 2, 3])"
    unfolding cacheDigestHashKey_def Let_def using assms(2) bc(2) by (simp add: read_octets_def)
  moreover have "x mod (8 * ?n) < 8 * ?n" for x using n(1) by simp
  ultimately show ?thesis by (auto simp: key_bits_def)
qed

lemma test_spec:
  assumes "digest_ok cd" "16 \<le> length key"
  shows "cacheDigestTest cd key = Inr (key_bits (digest_octets cd) key \<subseteq> digest_bits cd)"
proof -
  obtain m where "cd_mask cd = Some m" "length m = digest_octets cd" by (rule digest_okD [OF assms(1)])
  then show ?thesis
    using hash_spec [OF assms] test_bits_spec [of _ m] by (auto simp: cacheDigestTest_def with_mask_def digest_bits_def)
qed

lemma add_spec:
  assumes "digest_ok cd" "16 \<le> length key"
  shows "\<exists>cd' n. cacheDigestAdd key cd = Inr (cd', n) \<and> digest_ok cd' \<and> digest_bits cd' = digest_bits cd \<union> key_bits (digest_octets cd) key \<and>
    cd_mask_size cd' = cd_mask_size cd \<and> cd_capacity cd' = cd_capacity cd \<and> cd_bits_per_entry cd' = cd_bits_per_entry cd \<and> cd_count cd' = cd_count cd + 1"
proof -
  obtain m where m: "cd_mask cd = Some m" "length m = digest_octets cd" by (rule digest_okD [OF assms(1)])
  obtain hs where hs: "cacheDigestHashKey cd key = Inr hs" "set hs = key_bits (digest_octets cd) key" "\<forall>b \<in> set hs. b < 8 * length m"
    using hash_spec [OF assms] m(2) by auto
  obtain m' k where "set_bits m hs 0 = Inr (m', k)" "length m' = length m" "mask_bits m' = mask_bits m \<union> set hs"
    using set_bits_spec [OF hs(3)] by blast
  then show ?thesis
    using m hs(1,2) assms(1) by (auto simp: cacheDigestAdd_def with_mask_def digest_bits_def digest_ok_def)
qed

lemma clear_spec:
  assumes "digest_ok cd"
  shows "\<exists>cd'. cacheDigestClear cd = Inr cd' \<and> digest_ok cd' \<and> digest_bits cd' = {} \<and> cd_mask_size cd' = cd_mask_size cd \<and>
    cd_capacity cd' = cd_capacity cd \<and> cd_bits_per_entry cd' = cd_bits_per_entry cd \<and> cd_count cd' = 0"
proof -
  obtain m where m: "cd_mask cd = Some m" "length m = digest_octets cd" by (rule digest_okD [OF assms])
  then show ?thesis using assms
    by (auto simp: cacheDigestClear_def with_mask_def write_octets_def memcpy_at_def digest_ok_def digest_bits_def)
qed

lemma clone_spec: "digest_ok cd \<Longrightarrow> cacheDigestClone cd = Inr cd"
proof -
  assume ok: "digest_ok cd"
  obtain m where m: "cd_mask cd = Some m" "length m = digest_octets cd" "sizes_ok (cd_capacity cd) (cd_bits_per_entry cd)"
    by (rule digest_okD [OF ok])
  obtain c where c: "cacheDigestCreate (cd_capacity cd) (cd_bits_per_entry cd) = Inr c" "digest_ok c" "cd_capacity c = cd_capacity cd"
    "cd_bits_per_entry c = cd_bits_per_entry cd"
    using init_spec [OF m(3)] unfolding cacheDigestCreate_def by blast
  then have sz: "cd_mask_size c = cd_mask_size cd" using ok by (simp add: digest_ok_def word_unat_eq_iff)
  obtain m' where m': "cd_mask c = Some m'" "length m' = digest_octets cd" using digest_okD [OF c(2)] sz by metis
  have "read_octets m 0 (digest_octets cd) = Inr m" using m(2) by (simp add: read_octets_def bytes_at_def)
  moreover have "write_octets m' 0 m = Inr m" using m(2) m'(2) by (simp add: write_octets_def memcpy_at_def)
  ultimately show ?thesis using c sz m(1) m'(1) by (simp add: cacheDigestClone_def with_mask_def)
qed

definition digest_add :: "cache_digest \<Rightarrow> bytes \<Rightarrow> cache_digest outcome" where
  "digest_add cd key = bindE (cacheDigestAdd key cd) (\<lambda>(cd, n). Inr cd)"

interpretation dg: bloom_filter digest_ok "\<lambda>k. 16 \<le> length k" digest_add cacheDigestTest digest_bits "\<lambda>cd. key_bits (digest_octets cd)"
proof
  show "\<exists>s'. digest_add s k = Inr s' \<and> digest_ok s' \<and> digest_bits s' = digest_bits s \<union> key_bits (digest_octets s) k \<and>
      key_bits (digest_octets s') = key_bits (digest_octets s)" if "digest_ok s" "16 \<le> length k" for s k
    using add_spec [OF that] by (auto simp: digest_add_def)
qed (rule test_spec)

section \<open>Counting the bits\<close>

lemma stats_loop_spec:
  "pos \<le> 8 * length m \<Longrightarrow> \<exists>s c. stats_loop m pos on l k n t = Inr (on + int (card (mask_bits m \<inter> {..<pos})), s, c)"
proof (induction pos arbitrary: on l k n t)
  case (Suc pos)
  have "mask_bits m \<inter> {..<Suc pos} = (if pos \<in> mask_bits m then insert pos (mask_bits m \<inter> {..<pos}) else mask_bits m \<inter> {..<pos})"
    by (auto simp: less_Suc_eq)
  then have card: "int (card (mask_bits m \<inter> {..<Suc pos})) = int (card (mask_bits m \<inter> {..<pos})) + (if pos \<in> mask_bits m then 1 else 0)"
    by (simp add: finite_Int)
  have "cbit_test m pos = Inr (pos \<in> mask_bits m)" using Suc.prems by (intro cbit_test_spec) simp
  then show ?case
    using Suc.IH [of "if pos \<in> mask_bits m then on + 1 else on" "l + n" "k + 1" 1 "pos \<in> mask_bits m"]
      Suc.IH [of "if pos \<in> mask_bits m then on + 1 else on" l k "n + 1" t] Suc.prems card
    by (auto simp: Let_def)
qed simp

lemma stats_spec:
  assumes "digest_ok cd"
  shows "\<exists>s. cacheDigestStats cd = Inr s \<and> st_bit_on_count s = int (card (digest_bits cd)) \<and> st_bit_count s = int (8 * digest_octets cd)"
proof -
  let ?n = "digest_octets cd"
  obtain m where m: "cd_mask cd = Some m" "length m = ?n" "8 * ?n < 2 ^ 31" by (rule digest_okD [OF assms])
  have "cd_mask_size cd * 8 = of_nat (8 * ?n)" by simp
  then have sz: "sint (cd_mask_size cd * 8) = int (8 * ?n)" by (simp only: int_small(1) [OF m(3)])
  have "mask_bits m \<inter> {..<8 * ?n} = mask_bits m" using mask_bits_bound [of _ m] m(2) by auto
  then obtain s c where "stats_loop m (8 * ?n) 0 0 0 0 True = Inr (int (card (mask_bits m)), s, c)"
    using stats_loop_spec [of "8 * ?n" m 0 0 0 0 True] m(2) by auto
  then show ?thesis unfolding cacheDigestStats_def with_mask_def m(1) sz nat_int by (simp add: digest_bits_def m(1))
qed

text \<open>
  C37. A cache digest never denies a key that it was given.  For every capacity whose mask can be addressed, a new digest takes
  any list of keys without a fault; then a key is found exactly when its four bits are among those of the keys, in particular
  every key of the list is found; the number of bits that are on is exact; and a clone is equal to its original.
\<close>

theorem digest_no_false_negatives:
  assumes "sizes_ok cap bpe" "list_all (\<lambda>k. length k = 16) ks"
  shows "\<exists>cd0 cd s. cacheDigestCreate cap bpe = Inr cd0 \<and> foldE digest_add ks cd0 = Inr cd \<and>
    (\<forall>k. length k = 16 \<longrightarrow>
       cacheDigestTest cd k = Inr (key_bits (digest_octets cd0) k \<subseteq> (\<Union>j\<in>set ks. key_bits (digest_octets cd0) j)) \<and>
       (k \<in> set ks \<longrightarrow> cacheDigestTest cd k = Inr True)) \<and>
    cacheDigestStats cd = Inr s \<and> st_bit_on_count s = int (card (\<Union>j\<in>set ks. key_bits (digest_octets cd0) j)) \<and>
    cacheDigestClone cd = Inr cd"
proof -
  obtain cd0 where c: "cacheDigestCreate cap bpe = Inr cd0" "digest_ok cd0" "digest_bits cd0 = {}"
    using init_spec [OF assms(1)] unfolding cacheDigestCreate_def by blast
  have ks: "list_all (\<lambda>k. 16 \<le> length k) ks" using assms(2) by (auto simp: list_all_iff)
  obtain cd where cd: "foldE digest_add ks cd0 = Inr cd" "digest_ok cd" "digest_bits cd = (\<Union>j\<in>set ks. key_bits (digest_octets cd0) j)"
    using dg.add_all_spec [OF c(2) ks] c(3) by auto
  have "\<forall>k. 16 \<le> length k \<longrightarrow>
      cacheDigestTest cd k = Inr (key_bits (digest_octets cd0) k \<subseteq> (\<Union>j\<in>set ks. key_bits (digest_octets cd0) j)) \<and>
      (k \<in> set ks \<longrightarrow> cacheDigestTest cd k = Inr True)"
    using dg.no_false_negatives [OF c(2) ks] cd(1) c(3) by auto
  then show ?thesis using c(1) cd stats_spec [OF cd(2)] clone_spec [OF cd(2)] by auto
qed

theorem digest_no_false_negatives_witness:
  "\<exists>cd0 cd. cacheDigestCreate 10 5 = Inr cd0 \<and> foldE digest_add [replicate 16 7, replicate 16 200] cd0 = Inr cd \<and>
     cacheDigestTest cd (replicate 16 200) = Inr True"
proof -
  have "sizes_ok 10 5" by (simp add: sizes_ok_def)
  from digest_no_false_negatives [OF this, of "[replicate 16 7, replicate 16 200]"] show ?thesis by fastforce
qed

end
