(* ===== verification/Store_Digest.thy ===== *)
theory Store_Digest
  imports Digest_Filter
begin

text \<open>
  The digest of the own cache, \<^verbatim>\<open>src/store_digest.cc\<close>: it is rebuilt from the store index and written into a store entry, from
  which peers fetch it, each a few steps at a time, driven by timed events.  A state holds the digest, the two locks,
  the search over the index that a rebuild works through, the body of the entry that is being written, and the events that
  are scheduled; any scheduled event may be the next one, whatever its time.  What comes from outside (the entries the search
  finds, the estimated capacity, how many entries a step checks) is an argument of the handlers.  Creating, flushing and
  completing the store entry are left out: only the octets of its body are modelled.  \<open>sd_keys\<close> and the second components of
  \<open>sd_published\<close> record history for the properties and are never read by the model.
\<close>

section \<open>Entries\<close>

record digest_entry =
  dn_key :: bytes
  dn_flags :: "16 word"
  dn_store_ok :: bool
  dn_swap_file_sz :: "64 word"
  dn_expires_soon :: bool

text \<open>\<open>dn_expires_soon\<close> is the answer of \<^verbatim>\<open>refreshCheckDigest()\<close> for the rebuild period.\<close>

definition storeDigestAddable :: "64 word \<Rightarrow> digest_entry \<Rightarrow> bool" where
  "storeDigestAddable maxObjectSize e =
     (if \<not> bit (dn_flags e) 5 then False
      else if bit (dn_flags e) 7 then False
      else if bit (dn_flags e) 9 then False
      else if bit (dn_flags e) 3 then False
      else if dn_store_ok e \<and> bit (dn_flags e) 11 then False
      else if dn_swap_file_sz e > maxObjectSize then False
      else if dn_expires_soon e then False
      else True)"

record sd_statistics =
  ss_del_count :: int
  ss_del_lost_count :: int
  ss_add_count :: int
  ss_add_coll_count :: int
  ss_rej_count :: int
  ss_rej_coll_count :: int

definition no_statistics :: sd_statistics where
  "no_statistics = \<lparr>ss_del_count = 0, ss_del_lost_count = 0, ss_add_count = 0, ss_add_coll_count = 0, ss_rej_count = 0, ss_rej_coll_count = 0\<rparr>"

definition storeDigestAdd :: "64 word \<Rightarrow> digest_entry \<Rightarrow> cache_digest \<times> sd_statistics \<Rightarrow> (cache_digest \<times> sd_statistics) outcome" where
  "storeDigestAdd maxObjectSize e = (\<lambda>(cd, st).
     if storeDigestAddable maxObjectSize e then
       bindE (cacheDigestTest cd (dn_key e)) (\<lambda>hit.
       bindE (digest_add cd (dn_key e)) (\<lambda>cd.
         Inr (cd, st\<lparr>ss_add_count := ss_add_count st + 1, ss_add_coll_count := ss_add_coll_count st + (if hit then 1 else 0)\<rparr>)))
     else
       bindE (cacheDigestTest cd (dn_key e)) (\<lambda>hit.
         Inr (cd, st\<lparr>ss_rej_count := ss_rej_count st + 1, ss_rej_coll_count := ss_rej_coll_count st + (if hit then 1 else 0)\<rparr>)))"

definition storeDigestDel :: "digest_entry \<Rightarrow> cache_digest \<times> sd_statistics \<Rightarrow> (cache_digest \<times> sd_statistics) outcome" where
  "storeDigestDel e = (\<lambda>(cd, st).
     if \<not> bit (dn_flags e) 7 then
       bindE (cacheDigestTest cd (dn_key e)) (\<lambda>hit.
         if \<not> hit then Inr (cd, st\<lparr>ss_del_lost_count := ss_del_lost_count st + 1\<rparr>)
         else Inr (cacheDigestDel (dn_key e) cd, st\<lparr>ss_del_count := ss_del_count st + 1\<rparr>))
     else Inr (cd, st))"

section \<open>The size of the digest\<close>

definition storeDigestCalcCap :: "int \<Rightarrow> int \<Rightarrow> int \<Rightarrow> int \<Rightarrow> int" where
  "storeDigestCalcCap maxSize currentSize avgObjectSize inUseCount =
     (let hi_cap = maxSize div avgObjectSize; lo_cap = 1 + currentSize div avgObjectSize;
          cap = (if inUseCount \<noteq> 0 then inUseCount else hi_cap)
      in if cap < lo_cap then lo_cap else cap)"

text \<open>Whether the digest was resized, and the digest.\<close>

definition storeDigestResize :: "32 word \<Rightarrow> cache_digest \<Rightarrow> (bool \<times> cache_digest) outcome" where
  "storeDigestResize cap cd =
     (let diff = \<bar>sint (cap - cd_capacity cd)\<bar> in
      if diff \<le> sint (cd_capacity cd) div 10 then Inr (False, cd)
      else bindE (cacheDigestChangeCap cap cd) (\<lambda>cd. Inr (True, cd)))"

section \<open>The control block\<close>

definition CacheDigestVer_current :: "16 word" where
  "CacheDigestVer_current = 5"

definition CacheDigestVer_required :: "16 word" where
  "CacheDigestVer_required = 3"

definition CacheDigestHashFuncCount :: byte where
  "CacheDigestHashFuncCount = 4"

definition cblock_octets :: "32 word \<Rightarrow> cache_digest \<Rightarrow> bytes" where
  "cblock_octets config_bits_per_entry cd = htons CacheDigestVer_current @ htons CacheDigestVer_required @ htonl (cd_capacity cd) @ htonl (cd_count cd) @
     htonl (cd_del_count cd) @ htonl (cd_mask_size cd) @ [ucast config_bits_per_entry, CacheDigestHashFuncCount] @ replicate 106 0"

section \<open>Rebuilding and rewriting\<close>

datatype digest_event = RebuildStart | RebuildStep | RewriteStart | SwapOutStep

record digest_config =
  dc_maxObjectSize :: "64 word"
  dc_bits_per_entry :: "32 word"
  dc_swapout_chunk_size :: "32 word"

text \<open>What a handler gets from outside.\<close>

record digest_input =
  di_search :: "digest_entry list"
  di_cap :: "32 word"
  di_count :: nat

record sd_sys =
  sd_digest :: cache_digest
  sd_stats :: sd_statistics
  sd_rebuild_lock :: bool
  sd_rewrite_lock :: bool
  sd_search :: "digest_entry list"
  sd_rewrite_offset :: "32 word"
  sd_rebuild_count :: int
  sd_rewrite_count :: int
  sd_body :: bytes
  sd_events :: "digest_event list"
  sd_keys :: "bytes list"
  sd_published :: "(bytes \<times> bytes list) list"

definition eventAdd :: "digest_event \<Rightarrow> sd_sys \<Rightarrow> sd_sys" where
  "eventAdd ev s = s\<lparr>sd_events := sd_events s @ [ev]\<rparr>"

definition storeDigestRebuildResume :: "digest_input \<Rightarrow> sd_sys \<Rightarrow> sd_sys outcome" where
  "storeDigestRebuildResume inp s =
     guardE (sd_rebuild_lock s) AssertFault (guardE (\<not> sd_rewrite_lock s) AssertFault
     (bindE (storeDigestResize (di_cap inp) (sd_digest s)) (\<lambda>(resized, cd).
      bindE (if \<not> resized then cacheDigestClear cd else Inr cd) (\<lambda>cd.
      Inr (eventAdd RebuildStep (s\<lparr>sd_search := di_search inp, sd_digest := cd, sd_stats := no_statistics, sd_keys := []\<rparr>))))))"

definition storeDigestRebuildStart :: "digest_input \<Rightarrow> sd_sys \<Rightarrow> sd_sys outcome" where
  "storeDigestRebuildStart inp s =
     (if sd_rebuild_lock s then Inr s
      else let s = s\<lparr>sd_rebuild_lock := True\<rparr> in
        if sd_rewrite_lock s then Inr s else storeDigestRebuildResume inp s)"

definition storeDigestCBlockSwapOut :: "digest_config \<Rightarrow> sd_sys \<Rightarrow> sd_sys" where
  "storeDigestCBlockSwapOut cfg s = s\<lparr>sd_body := sd_body s @ cblock_octets (dc_bits_per_entry cfg) (sd_digest s)\<rparr>"

definition storeDigestRewriteResume :: "digest_config \<Rightarrow> sd_sys \<Rightarrow> sd_sys outcome" where
  "storeDigestRewriteResume cfg s =
     guardE (sd_rewrite_lock s) AssertFault (guardE (\<not> sd_rebuild_lock s) AssertFault
     (Inr (eventAdd SwapOutStep (storeDigestCBlockSwapOut cfg (s\<lparr>sd_rewrite_offset := 0\<rparr>)))))"

definition storeDigestRewriteStart :: "digest_config \<Rightarrow> sd_sys \<Rightarrow> sd_sys outcome" where
  "storeDigestRewriteStart cfg s =
     (if sd_rewrite_lock s then Inr s
      else let s = s\<lparr>sd_rewrite_lock := True, sd_body := []\<rparr> in
        if sd_rebuild_lock s then Inr s else storeDigestRewriteResume cfg s)"

definition storeDigestRebuildFinish :: "digest_config \<Rightarrow> sd_sys \<Rightarrow> sd_sys outcome" where
  "storeDigestRebuildFinish cfg s =
     guardE (sd_rebuild_lock s) AssertFault
     (let s = eventAdd RebuildStart (s\<lparr>sd_rebuild_lock := False, sd_rebuild_count := sd_rebuild_count s + 1\<rparr>) in
      if sd_rewrite_lock s then storeDigestRewriteResume cfg s else Inr s)"

fun rebuild_some :: "digest_config \<Rightarrow> nat \<Rightarrow> sd_sys \<Rightarrow> sd_sys outcome" where
  "rebuild_some cfg 0 s = Inr s"
| "rebuild_some cfg (Suc count) s =
     (case sd_search s of
        [] \<Rightarrow> Inr s
      | e # es \<Rightarrow> bindE (storeDigestAdd (dc_maxObjectSize cfg) e (sd_digest s, sd_stats s)) (\<lambda>(cd, st).
          rebuild_some cfg count (s\<lparr>sd_search := es, sd_digest := cd, sd_stats := st,
            sd_keys := (if storeDigestAddable (dc_maxObjectSize cfg) e then dn_key e # sd_keys s else sd_keys s)\<rparr>)))"

definition storeDigestRebuildStep :: "digest_config \<Rightarrow> digest_input \<Rightarrow> sd_sys \<Rightarrow> sd_sys outcome" where
  "storeDigestRebuildStep cfg inp s =
     guardE (sd_rebuild_lock s) AssertFault
     (bindE (rebuild_some cfg (di_count inp) s) (\<lambda>s.
        if sd_search s = [] then storeDigestRebuildFinish cfg s else Inr (eventAdd RebuildStep s)))"

definition storeDigestRewriteFinish :: "digest_input \<Rightarrow> sd_sys \<Rightarrow> sd_sys outcome" where
  "storeDigestRewriteFinish inp s =
     (let s = eventAdd RewriteStart (s\<lparr>sd_published := sd_published s @ [(sd_body s, sd_keys s)], sd_rewrite_lock := False,
                sd_rewrite_count := sd_rewrite_count s + 1\<rparr>) in
      if sd_rebuild_lock s then storeDigestRebuildResume inp s else Inr s)"

definition storeDigestSwapOutStep :: "digest_config \<Rightarrow> digest_input \<Rightarrow> sd_sys \<Rightarrow> sd_sys outcome" where
  "storeDigestSwapOutStep cfg inp s =
     guardE (sd_rewrite_lock s) AssertFault
     (let chunk_size = (if sint (sd_rewrite_offset s + dc_swapout_chunk_size cfg) > sint (cd_mask_size (sd_digest s))
                        then cd_mask_size (sd_digest s) - sd_rewrite_offset s else dc_swapout_chunk_size cfg) in
      with_mask (sd_digest s) (\<lambda>m. bindE (read_octets m (unat (sd_rewrite_offset s)) (unat chunk_size)) (\<lambda>v.
        let s = s\<lparr>sd_body := sd_body s @ v, sd_rewrite_offset := sd_rewrite_offset s + chunk_size\<rparr> in
        if sint (sd_rewrite_offset s) \<ge> sint (cd_mask_size (sd_digest s)) then storeDigestRewriteFinish inp s
        else Inr (eventAdd SwapOutStep s))))"

definition storeDigestNoteStoreReady :: "digest_config \<Rightarrow> digest_input \<Rightarrow> sd_sys \<Rightarrow> sd_sys outcome" where
  "storeDigestNoteStoreReady cfg inp s = bindE (storeDigestRebuildStart inp s) (storeDigestRewriteStart cfg)"

fun handle_event :: "digest_config \<Rightarrow> digest_input \<Rightarrow> digest_event \<Rightarrow> sd_sys \<Rightarrow> sd_sys outcome" where
  "handle_event cfg inp RebuildStart s = storeDigestRebuildStart inp s"
| "handle_event cfg inp RebuildStep s = storeDigestRebuildStep cfg inp s"
| "handle_event cfg inp RewriteStart s = storeDigestRewriteStart cfg s"
| "handle_event cfg inp SwapOutStep s = storeDigestSwapOutStep cfg inp s"

definition storeDigestInit :: "digest_config \<Rightarrow> 32 word \<Rightarrow> sd_sys outcome" where
  "storeDigestInit cfg cap = bindE (cacheDigestCreate cap (dc_bits_per_entry cfg)) (\<lambda>cd.
     Inr \<lparr>sd_digest = cd, sd_stats = no_statistics, sd_rebuild_lock = False, sd_rewrite_lock = False, sd_search = [], sd_rewrite_offset = 0,
       sd_rebuild_count = 0, sd_rewrite_count = 0, sd_body = [], sd_events = [], sd_keys = [], sd_published = []\<rparr>)"

section \<open>Runs\<close>

text \<open>Keys have 16 octets, and the estimated capacity gives a mask whose bits can be counted with an \<^verbatim>\<open>int\<close>.\<close>

definition input_ok :: "digest_config \<Rightarrow> digest_input \<Rightarrow> bool" where
  "input_ok cfg inp \<longleftrightarrow> list_all (\<lambda>e. length (dn_key e) = 16) (di_search inp) \<and> sizes_ok (di_cap inp) (dc_bits_per_entry cfg)"

definition config_ok :: "digest_config \<Rightarrow> bool" where
  "config_ok cfg \<longleftrightarrow> 0 < sint (dc_swapout_chunk_size cfg) \<and> unat (dc_swapout_chunk_size cfg) < 2 ^ 30"

inductive sd_start :: "digest_config \<Rightarrow> sd_sys \<Rightarrow> bool" for cfg :: digest_config where
  "sizes_ok cap (dc_bits_per_entry cfg) \<Longrightarrow> input_ok cfg inp \<Longrightarrow> storeDigestInit cfg cap = Inr s \<Longrightarrow>
   storeDigestNoteStoreReady cfg inp s = Inr t \<Longrightarrow> sd_start cfg t"

inductive sd_step :: "digest_config \<Rightarrow> sd_sys \<Rightarrow> sd_sys \<Rightarrow> bool" for cfg :: digest_config where
  "sd_events s = es @ ev # fs \<Longrightarrow> input_ok cfg inp \<Longrightarrow> handle_event cfg inp ev (s\<lparr>sd_events := es @ fs\<rparr>) = Inr t \<Longrightarrow> sd_step cfg s t"

end
