(* ===== verification/Digest_Rebuild.thy ===== *)
theory Digest_Rebuild
  imports Store_Digest "HOL-Library.Multiset"
begin

text \<open>
  The digest of the own cache is rebuilt and rewritten in turns.  An inductive invariant over all orders of the scheduled
  events shows that no assertion fails, that a digest is never changed while it is written, and that every
  published digest is a whole one: it contains all keys that its rebuild accepted.
\<close>

section \<open>The invariant\<close>

datatype phase = Idle | Active | Waiting

fun rebuild_events :: "phase \<Rightarrow> digest_event multiset" where
  "rebuild_events Idle = {#RebuildStart#}"
| "rebuild_events Active = {#RebuildStep#}"
| "rebuild_events Waiting = {#}"

fun rewrite_events :: "phase \<Rightarrow> digest_event multiset" where
  "rewrite_events Idle = {#RewriteStart#}"
| "rewrite_events Active = {#SwapOutStep#}"
| "rewrite_events Waiting = {#}"

text \<open>A process waits only for the other one to finish.\<close>

definition turns :: "phase \<Rightarrow> phase \<Rightarrow> bool" where
  "turns a b \<longleftrightarrow> (a, b) \<in> {(Idle, Idle), (Idle, Active), (Active, Idle), (Active, Waiting), (Waiting, Active)}"

text \<open>A digest holds exactly the bits of the keys.\<close>

definition holds_keys :: "digest_config \<Rightarrow> cache_digest \<Rightarrow> bytes list \<Rightarrow> bool" where
  "holds_keys cfg cd ks \<longleftrightarrow> digest_ok cd \<and> cd_bits_per_entry cd = dc_bits_per_entry cfg \<and> list_all (\<lambda>k. length k = 16) ks \<and>
     digest_bits cd = (\<Union>k\<in>set ks. key_bits (digest_octets cd) k)"

definition whole_body :: "digest_config \<Rightarrow> bytes \<Rightarrow> bytes list \<Rightarrow> bool" where
  "whole_body cfg body ks \<longleftrightarrow> (\<exists>cd. holds_keys cfg cd ks \<and> body = cblock_octets (dc_bits_per_entry cfg) cd @ the (cd_mask cd))"

definition part_body :: "digest_config \<Rightarrow> sd_sys \<Rightarrow> bool" where
  "part_body cfg s \<longleftrightarrow> unat (sd_rewrite_offset s) < digest_octets (sd_digest s) \<and>
     sd_body s = cblock_octets (dc_bits_per_entry cfg) (sd_digest s) @ take (unat (sd_rewrite_offset s)) (the (cd_mask (sd_digest s)))"

definition sd_core :: "digest_config \<Rightarrow> sd_sys \<Rightarrow> bool" where
  "sd_core cfg s \<longleftrightarrow> holds_keys cfg (sd_digest s) (sd_keys s) \<and> list_all (\<lambda>e. length (dn_key e) = 16) (sd_search s) \<and>
     list_all (\<lambda>(body, ks). whole_body cfg body ks) (sd_published s)"

definition sd_phases :: "digest_config \<Rightarrow> phase \<Rightarrow> phase \<Rightarrow> sd_sys \<Rightarrow> bool" where
  "sd_phases cfg a b s \<longleftrightarrow> sd_core cfg s \<and> sd_rebuild_lock s = (a \<noteq> Idle) \<and> sd_rewrite_lock s = (b \<noteq> Idle) \<and>
     (b = Waiting \<longrightarrow> sd_body s = []) \<and> (b = Active \<longrightarrow> part_body cfg s)"

definition sd_inv :: "digest_config \<Rightarrow> sd_sys \<Rightarrow> bool" where
  "sd_inv cfg s \<longleftrightarrow> (\<exists>a b. turns a b \<and> mset (sd_events s) = rebuild_events a + rewrite_events b \<and> sd_phases cfg a b s)"

lemma sd_invI: "turns a b \<Longrightarrow> mset (sd_events s) = rebuild_events a + rewrite_events b \<Longrightarrow> sd_phases cfg a b s \<Longrightarrow> sd_inv cfg s"
  unfolding sd_inv_def by blast

lemma sd_phases_events [simp]: "sd_phases cfg a b (s\<lparr>sd_events := es\<rparr>) = sd_phases cfg a b s"
  by (simp add: sd_phases_def sd_core_def part_body_def)

section \<open>Resuming\<close>

lemma resize_spec:
  assumes "holds_keys cfg cd ks" "sizes_ok cap (dc_bits_per_entry cfg)"
  shows "\<exists>cd'. bindE (storeDigestResize cap cd) (\<lambda>(resized, cd). if \<not> resized then cacheDigestClear cd else Inr cd) = Inr cd' \<and> holds_keys cfg cd' []"
proof (cases "\<bar>sint (cap - cd_capacity cd)\<bar> \<le> sint (cd_capacity cd) div 10")
  case True
  then show ?thesis
    using clear_spec [of cd] assms(1) by (auto simp: storeDigestResize_def holds_keys_def Let_def)
next
  case False
  have "\<exists>cd'. cacheDigestChangeCap cap cd = Inr cd' \<and> holds_keys cfg cd' []"
    using init_spec [OF assms(2), of "cacheDigestClean cd"] assms(1) by (auto simp: cacheDigestChangeCap_def holds_keys_def)
  then show ?thesis using False by (auto simp: storeDigestResize_def Let_def)
qed

lemma rebuild_resume:
  assumes "sd_core cfg s" "sd_rebuild_lock s" "\<not> sd_rewrite_lock s" "input_ok cfg inp"
  shows "\<exists>t. storeDigestRebuildResume inp s = Inr t \<and> sd_phases cfg Active Idle t \<and> sd_events t = sd_events s @ [RebuildStep]"
proof -
  obtain cd' where "bindE (storeDigestResize (di_cap inp) (sd_digest s)) (\<lambda>(resized, cd). if \<not> resized then cacheDigestClear cd else Inr cd) = Inr cd'"
    and cd': "holds_keys cfg cd' []"
    using resize_spec [of cfg "sd_digest s" "sd_keys s" "di_cap inp"] assms(1,4) unfolding sd_core_def input_ok_def by blast
  then have "storeDigestRebuildResume inp s =
      Inr (eventAdd RebuildStep (s\<lparr>sd_search := di_search inp, sd_digest := cd', sd_stats := no_statistics, sd_keys := []\<rparr>))"
    using assms(2,3) by (cases "storeDigestResize (di_cap inp) (sd_digest s)") (auto simp: storeDigestRebuildResume_def)
  then show ?thesis using assms cd' by (simp add: eventAdd_def sd_phases_def sd_core_def input_ok_def)
qed

lemma rewrite_resume:
  assumes "sd_core cfg s" "sd_rewrite_lock s" "\<not> sd_rebuild_lock s" "sd_body s = []"
  shows "\<exists>t. storeDigestRewriteResume cfg s = Inr t \<and> sd_phases cfg Idle Active t \<and> sd_events t = sd_events s @ [SwapOutStep]"
proof -
  have "0 < digest_octets (sd_digest s)" using assms(1) digest_okD unfolding sd_core_def holds_keys_def by metis
  then show ?thesis using assms
    by (simp add: storeDigestRewriteResume_def eventAdd_def storeDigestCBlockSwapOut_def sd_phases_def sd_core_def part_body_def)
qed

section \<open>Handlers\<close>

lemma storeDigestAdd_spec:
  assumes "holds_keys cfg cd ks" "length (dn_key e) = 16"
  shows "\<exists>cd' st'. storeDigestAdd mx e (cd, st) = Inr (cd', st') \<and> holds_keys cfg cd' (if storeDigestAddable mx e then dn_key e # ks else ks)"
proof -
  note h = assms(1) [unfolded holds_keys_def]
  have t: "\<exists>hit. cacheDigestTest cd (dn_key e) = Inr hit" using test_spec [of cd "dn_key e"] h assms(2) by simp
  obtain cd' n where "cacheDigestAdd (dn_key e) cd = Inr (cd', n)" "digest_ok cd'" "digest_bits cd' = digest_bits cd \<union> key_bits (digest_octets cd) (dn_key e)"
    "cd_mask_size cd' = cd_mask_size cd" "cd_bits_per_entry cd' = cd_bits_per_entry cd"
    using add_spec [of cd "dn_key e"] h assms(2) by auto
  then show ?thesis using t h assms(2) by (auto simp: storeDigestAdd_def digest_add_def holds_keys_def Un_commute)
qed

lemma rebuild_some_spec:
  "sd_core cfg s \<Longrightarrow> \<exists>t. rebuild_some cfg n s = Inr t \<and> sd_core cfg t \<and> sd_rebuild_lock t = sd_rebuild_lock s \<and>
     sd_rewrite_lock t = sd_rewrite_lock s \<and> sd_body t = sd_body s \<and> sd_events t = sd_events s"
proof (induction n arbitrary: s)
  case (Suc n)
  show ?case
  proof (cases "sd_search s")
    case (Cons e es)
    obtain cd' st' where "storeDigestAdd (dc_maxObjectSize cfg) e (sd_digest s, sd_stats s) = Inr (cd', st')"
      "holds_keys cfg cd' (if storeDigestAddable (dc_maxObjectSize cfg) e then dn_key e # sd_keys s else sd_keys s)"
      using storeDigestAdd_spec [of cfg "sd_digest s" "sd_keys s" e] Suc.prems Cons unfolding sd_core_def by fastforce
    moreover have "sd_core cfg (s\<lparr>sd_search := es, sd_digest := cd', sd_stats := st',
        sd_keys := (if storeDigestAddable (dc_maxObjectSize cfg) e then dn_key e # sd_keys s else sd_keys s)\<rparr>)"
      using Suc.prems Cons calculation(2) by (simp add: sd_core_def)
    ultimately show ?thesis using Suc.IH Cons by fastforce
  qed (use Suc.prems in simp)
qed simp

lemma handle_rebuild_start:
  assumes "sd_phases cfg Idle b s" "b \<noteq> Waiting" "input_ok cfg inp"
  shows "\<exists>t a. storeDigestRebuildStart inp s = Inr t \<and> turns a b \<and> sd_phases cfg a b t \<and> mset (sd_events t) = mset (sd_events s) + rebuild_events a"
proof (cases "b = Idle")
  case True
  have "sd_core cfg (s\<lparr>sd_rebuild_lock := True\<rparr>)" using assms(1) by (simp add: sd_phases_def sd_core_def)
  from rebuild_resume [OF this _ _ assms(3)] obtain t where "storeDigestRebuildResume inp (s\<lparr>sd_rebuild_lock := True\<rparr>) = Inr t"
    "sd_phases cfg Active Idle t" "sd_events t = sd_events s @ [RebuildStep]" using assms(1) True by (auto simp: sd_phases_def)
  then show ?thesis
    using assms(1) True by (intro exI [of _ t] exI [of _ Active]) (simp add: storeDigestRebuildStart_def sd_phases_def turns_def)
next
  case False
  then have "b = Active" using assms(2) by (cases b) auto
  then show ?thesis using assms(1)
    by (intro exI [of _ "s\<lparr>sd_rebuild_lock := True\<rparr>"] exI [of _ Waiting])
      (simp add: storeDigestRebuildStart_def sd_phases_def turns_def sd_core_def part_body_def)
qed

lemma handle_rewrite_start:
  assumes "sd_phases cfg a Idle s" "a \<noteq> Waiting"
  shows "\<exists>t b. storeDigestRewriteStart cfg s = Inr t \<and> turns a b \<and> sd_phases cfg a b t \<and> mset (sd_events t) = mset (sd_events s) + rewrite_events b"
proof (cases "a = Idle")
  case True
  let ?s = "s\<lparr>sd_rewrite_lock := True, sd_body := []\<rparr>"
  have "sd_core cfg ?s" using assms(1) by (simp add: sd_phases_def sd_core_def)
  from rewrite_resume [OF this] obtain t where "storeDigestRewriteResume cfg ?s = Inr t"
    "sd_phases cfg Idle Active t" "sd_events t = sd_events s @ [SwapOutStep]" using assms(1) True by (auto simp: sd_phases_def)
  then show ?thesis
    using assms(1) True by (intro exI [of _ t] exI [of _ Active]) (simp add: storeDigestRewriteStart_def sd_phases_def turns_def)
next
  case False
  then have "a = Active" using assms(2) by (cases a) auto
  then show ?thesis using assms(1)
    by (intro exI [of _ "s\<lparr>sd_rewrite_lock := True, sd_body := []\<rparr>"] exI [of _ Waiting])
      (simp add: storeDigestRewriteStart_def sd_phases_def turns_def sd_core_def)
qed

lemma handle_rebuild_step:
  assumes "sd_phases cfg Active b s" "b \<noteq> Active"
  shows "\<exists>t a' b'. storeDigestRebuildStep cfg inp s = Inr t \<and> turns a' b' \<and> sd_phases cfg a' b' t \<and>
    mset (sd_events t) + rewrite_events b = mset (sd_events s) + rebuild_events a' + rewrite_events b'"
proof -
  obtain s1 where s1: "rebuild_some cfg (di_count inp) s = Inr s1" "sd_core cfg s1" "sd_rebuild_lock s1" "sd_rewrite_lock s1 = (b \<noteq> Idle)"
    "sd_body s1 = sd_body s" "sd_events s1 = sd_events s"
    using rebuild_some_spec [of cfg s "di_count inp"] assms(1) by (auto simp: sd_phases_def)
  let ?f = "eventAdd RebuildStart (s1\<lparr>sd_rebuild_lock := False, sd_rebuild_count := sd_rebuild_count s1 + 1\<rparr>)"
  have f: "sd_core cfg ?f" "\<not> sd_rebuild_lock ?f" "sd_rewrite_lock ?f = (b \<noteq> Idle)" "sd_body ?f = sd_body s" "sd_events ?f = sd_events s @ [RebuildStart]"
    using s1 by (simp_all add: eventAdd_def sd_core_def)
  show ?thesis
  proof (cases "sd_search s1 = []")
    case False
    then show ?thesis using s1 assms
      by (intro exI [of _ "eventAdd RebuildStep s1"] exI [of _ Active] exI [of _ b])
        (cases b; simp add: storeDigestRebuildStep_def sd_phases_def sd_core_def turns_def eventAdd_def)
  next
    case fin: True
    show ?thesis
    proof (cases b)
      case Idle
      then show ?thesis using s1 f assms(1) fin
        by (intro exI [of _ ?f] exI [of _ Idle]) (simp add: storeDigestRebuildStep_def storeDigestRebuildFinish_def sd_phases_def turns_def)
    next
      case Waiting
      obtain t where t: "storeDigestRewriteResume cfg ?f = Inr t" "sd_phases cfg Idle Active t" "sd_events t = sd_events ?f @ [SwapOutStep]"
        using rewrite_resume [of cfg ?f] f Waiting assms(1) by (auto simp: sd_phases_def)
      then show ?thesis using s1 f assms(1) fin Waiting
        by (intro exI [of _ t] exI [of _ Idle] exI [of _ Active]) (simp add: storeDigestRebuildStep_def storeDigestRebuildFinish_def sd_phases_def turns_def)
    qed (use assms(2) in simp)
  qed
qed

lemma swap_chunk:
  fixes off size chunk :: "32 word"
  assumes "unat off < unat size" "unat size < 2 ^ 30" "0 < unat chunk" "unat chunk < 2 ^ 30"
  defines "k \<equiv> min (unat chunk) (unat size - unat off)"
  shows "(if sint (off + chunk) > sint size then size - off else chunk) = of_nat k" "unat (of_nat k :: 32 word) = k" "0 < k"
    "unat (off + of_nat k) = unat off + k" "sint (off + of_nat k) \<ge> sint size \<longleftrightarrow> unat off + k = unat size"
proof -
  have k: "k < 2 ^ 30" "unat off + k \<le> unat size" "0 < k" using assms by (auto simp: k_def min_def)
  show "unat (of_nat k :: 32 word) = k" using k by (intro int_small(2)) simp
  show "0 < k" by (rule k(3))
  have add: "off + chunk = of_nat (unat off + unat chunk)" "off + of_nat k = of_nat (unat off + k)" by simp_all
  have s: "sint (off + chunk) = int (unat off + unat chunk)" "sint size = int (unat size)" "sint (off + of_nat k) = int (unat off + k)"
    unfolding add using int_small(1) [of "unat off + unat chunk"] int_small(1) [of "unat size"] int_small(1) [of "unat off + k"] assms k by simp_all
  show "unat (off + of_nat k) = unat off + k" unfolding add using assms k by (intro int_small(2)) simp
  show "sint (off + of_nat k) \<ge> sint size \<longleftrightarrow> unat off + k = unat size" unfolding s using k by linarith
  have "size - off = of_nat (unat size - unat off)" using assms(1) by (simp add: of_nat_diff)
  moreover have "sint (off + chunk) > sint size \<longleftrightarrow> unat size - unat off < unat chunk" unfolding s using assms(1) by linarith
  ultimately show "(if sint (off + chunk) > sint size then size - off else chunk) = of_nat k" by (simp add: k_def min_def)
qed

lemma handle_swap_out:
  assumes "sd_phases cfg a Active s" "a \<noteq> Active" "input_ok cfg inp" "config_ok cfg"
  shows "\<exists>t a' b'. storeDigestSwapOutStep cfg inp s = Inr t \<and> turns a' b' \<and> sd_phases cfg a' b' t \<and>
    mset (sd_events t) + rebuild_events a = mset (sd_events s) + rebuild_events a' + rewrite_events b'"
proof -
  let ?cd = "sd_digest s" let ?off = "sd_rewrite_offset s" and ?n = "digest_octets ?cd"
  have core: "sd_core cfg s" and part: "part_body cfg s" and locks: "sd_rebuild_lock s = (a \<noteq> Idle)" "sd_rewrite_lock s"
    using assms(1) by (simp_all add: sd_phases_def)
  obtain m where m: "cd_mask ?cd = Some m" "length m = ?n" "8 * ?n < 2 ^ 31"
    using core digest_okD unfolding sd_core_def holds_keys_def by metis
  define k where "k = min (unat (dc_swapout_chunk_size cfg)) (?n - unat ?off)"
  have c: "0 < unat (dc_swapout_chunk_size cfg)" "unat (dc_swapout_chunk_size cfg) < 2 ^ 30"
    using assms(4) by (auto simp: config_ok_def unat_gt_0)
  have off: "unat ?off < ?n" using part by (simp add: part_body_def)
  have "?n < 2 ^ 30" using m(3) by simp
  note ch = swap_chunk [OF off this c, folded k_def]
  let ?s = "s\<lparr>sd_body := sd_body s @ bytes_at m (unat ?off) k, sd_rewrite_offset := ?off + of_nat k\<rparr>"
  have k: "unat ?off + k \<le> ?n" using off unfolding k_def by linarith
  then have "storeDigestSwapOutStep cfg inp s = (if unat ?off + k = ?n then storeDigestRewriteFinish inp ?s else Inr (eventAdd SwapOutStep ?s))"
    unfolding storeDigestSwapOutStep_def ch(1) using locks(2) m ch(2,5) by (simp add: with_mask_def read_octets_def)
  moreover have body: "sd_body ?s = cblock_octets (dc_bits_per_entry cfg) ?cd @ take (unat ?off + k) m"
    using part m(1) by (simp add: part_body_def bytes_at_def take_add)
  show ?thesis
  proof (cases "unat ?off + k = ?n")
    case False
    then have "storeDigestSwapOutStep cfg inp s = Inr (eventAdd SwapOutStep ?s)" using calculation by simp
    moreover have "part_body cfg (eventAdd SwapOutStep ?s)"
      using body False k m(1) ch(4) by (simp add: part_body_def eventAdd_def)
    ultimately show ?thesis using core locks assms(2)
      by (intro exI [of _ "eventAdd SwapOutStep ?s"] exI [of _ a] exI [of _ Active])
        (cases a; simp add: sd_phases_def sd_core_def turns_def eventAdd_def)
  next
    case True
    let ?t = "eventAdd RewriteStart (?s\<lparr>sd_published := sd_published s @ [(sd_body ?s, sd_keys s)], sd_rewrite_lock := False,
      sd_rewrite_count := sd_rewrite_count s + 1\<rparr>)"
    have "whole_body cfg (sd_body ?s) (sd_keys s)"
      using core body True m(1,2) by (auto simp: whole_body_def sd_core_def intro!: exI [of _ ?cd])
    then have t: "sd_core cfg ?t" "sd_rebuild_lock ?t = (a \<noteq> Idle)" "\<not> sd_rewrite_lock ?t" "sd_events ?t = sd_events s @ [RewriteStart]"
      using core locks(1) by (simp_all add: sd_core_def eventAdd_def)
    have fin: "storeDigestSwapOutStep cfg inp s = (if sd_rebuild_lock ?t then storeDigestRebuildResume inp ?t else Inr ?t)"
      using calculation True by (simp add: storeDigestRewriteFinish_def Let_def)
    show ?thesis
    proof (cases a)
      case Idle
      then show ?thesis using fin t by (intro exI [of _ ?t] exI [of _ Idle]) (simp add: sd_phases_def turns_def)
    next
      case Waiting
      from rebuild_resume [OF t(1) _ t(3) assms(3)] t(2) Waiting
      obtain t' where "storeDigestRebuildResume inp ?t = Inr t'" "sd_phases cfg Active Idle t'" "sd_events t' = sd_events ?t @ [RebuildStep]" by auto
      then show ?thesis using fin t Waiting
        by (intro exI [of _ t'] exI [of _ Active] exI [of _ Idle]) (simp add: turns_def)
    qed (use assms(2) in simp)
  qed
qed

section \<open>All runs\<close>

lemma handle_event_spec:
  assumes "sd_inv cfg s" "sd_events s = es @ ev # fs" "input_ok cfg inp" "config_ok cfg"
  shows "\<exists>t. handle_event cfg inp ev (s\<lparr>sd_events := es @ fs\<rparr>) = Inr t \<and> sd_inv cfg t"
proof -
  let ?s = "s\<lparr>sd_events := es @ fs\<rparr>"
  obtain a b where ab: "turns a b" "mset (sd_events s) = rebuild_events a + rewrite_events b" "sd_phases cfg a b ?s"
    using assms(1) unfolding sd_inv_def by auto
  have ev: "add_mset ev (mset (es @ fs)) = rebuild_events a + rewrite_events b" using ab(2) assms(2) by simp
  show ?thesis
  proof (cases ev)
    case RebuildStart
    then have "a = Idle" "mset (es @ fs) = rewrite_events b" "b \<noteq> Waiting" using ev ab(1) by (cases a; cases b; auto simp: turns_def add_eq_conv_ex)+
    then obtain t a' where "storeDigestRebuildStart inp ?s = Inr t" "turns a' b" "sd_phases cfg a' b t" "mset (sd_events t) = rewrite_events b + rebuild_events a'"
      using handle_rebuild_start [of cfg b ?s inp] ab(3) assms(3) by auto
    then show ?thesis using RebuildStart by (auto intro!: sd_invI simp: add.commute)
  next
    case RebuildStep
    then have "a = Active" "mset (es @ fs) = rewrite_events b" "b \<noteq> Active" using ev ab(1) by (cases a; cases b; auto simp: turns_def add_eq_conv_ex)+
    then obtain t a' b' where "storeDigestRebuildStep cfg inp ?s = Inr t" "turns a' b'" "sd_phases cfg a' b' t"
      "mset (sd_events t) = rebuild_events a' + rewrite_events b'"
      using handle_rebuild_step [of cfg b ?s inp] ab(3) by (auto simp: ac_simps)
    then show ?thesis using RebuildStep by (auto intro!: sd_invI)
  next
    case RewriteStart
    then have "b = Idle" "mset (es @ fs) = rebuild_events a" "a \<noteq> Waiting" using ev ab(1) by (cases a; cases b; auto simp: turns_def add_eq_conv_ex)+
    then obtain t b' where "storeDigestRewriteStart cfg ?s = Inr t" "turns a b'" "sd_phases cfg a b' t" "mset (sd_events t) = rebuild_events a + rewrite_events b'"
      using handle_rewrite_start [of cfg a ?s] ab(3) by auto
    then show ?thesis using RewriteStart by (auto intro!: sd_invI)
  next
    case SwapOutStep
    then have "b = Active" "mset (es @ fs) = rebuild_events a" "a \<noteq> Active" using ev ab(1) by (cases a; cases b; auto simp: turns_def add_eq_conv_ex)+
    then obtain t a' b' where "storeDigestSwapOutStep cfg inp ?s = Inr t" "turns a' b'" "sd_phases cfg a' b' t"
      "mset (sd_events t) = rebuild_events a' + rewrite_events b'"
      using handle_swap_out [of cfg a ?s inp] ab(3) assms(3,4) by (auto simp: ac_simps)
    then show ?thesis using SwapOutStep by (auto intro!: sd_invI)
  qed
qed

lemma start_spec:
  assumes "sizes_ok cap (dc_bits_per_entry cfg)" "input_ok cfg inp"
  shows "\<exists>s t. storeDigestInit cfg cap = Inr s \<and> storeDigestNoteStoreReady cfg inp s = Inr t \<and> sd_inv cfg t"
proof -
  obtain cd where "cacheDigestCreate cap (dc_bits_per_entry cfg) = Inr cd" "holds_keys cfg cd []"
    using init_spec [OF assms(1)] unfolding cacheDigestCreate_def holds_keys_def by auto
  then obtain s where s: "storeDigestInit cfg cap = Inr s" "sd_phases cfg Idle Idle s" "sd_events s = []"
    by (auto simp: storeDigestInit_def sd_phases_def sd_core_def)
  then obtain t1 a where t1: "storeDigestRebuildStart inp s = Inr t1" "turns a Idle" "sd_phases cfg a Idle t1" "mset (sd_events t1) = rebuild_events a"
    using handle_rebuild_start [of cfg Idle s inp] assms(2) by auto
  then have "a \<noteq> Waiting" by (auto simp: turns_def)
  from handle_rewrite_start [OF t1(3) this] obtain t b where "storeDigestRewriteStart cfg t1 = Inr t" "turns a b" "sd_phases cfg a b t"
    "mset (sd_events t) = rebuild_events a + rewrite_events b" using t1(4) by auto
  then show ?thesis using s(1) t1(1) by (auto simp: storeDigestNoteStoreReady_def intro!: sd_invI)
qed

interpretation sd: invariant_system "\<lambda>s. config_ok cfg \<and> sd_start cfg s" "sd_step cfg" "\<lambda>s. config_ok cfg \<and> sd_inv cfg s" for cfg
proof
  show "config_ok cfg \<and> sd_start cfg s \<Longrightarrow> config_ok cfg \<and> sd_inv cfg s" for s
    by (auto elim!: sd_start.cases dest!: start_spec)
  show "config_ok cfg \<and> sd_inv cfg s \<Longrightarrow> sd_step cfg s t \<Longrightarrow> config_ok cfg \<and> sd_inv cfg t" for s t
    using handle_event_spec by (fastforce elim!: sd_step.cases)
qed

lemma whole_body_finds:
  assumes "whole_body cfg body ks"
  shows "\<exists>cd. digest_ok cd \<and> cd_bits_per_entry cd = dc_bits_per_entry cfg \<and> body = cblock_octets (dc_bits_per_entry cfg) cd @ the (cd_mask cd) \<and>
    (\<forall>k \<in> set ks. cacheDigestTest cd k = Inr True)"
proof -
  obtain cd where cd: "holds_keys cfg cd ks" "body = cblock_octets (dc_bits_per_entry cfg) cd @ the (cd_mask cd)"
    using assms unfolding whole_body_def by blast
  then have "cacheDigestTest cd k = Inr True" if "k \<in> set ks" for k
    using that test_spec [of cd k] by (auto simp: holds_keys_def list_all_iff)
  then show ?thesis using cd unfolding holds_keys_def by blast
qed

text \<open>
  C38. The digest of the cache is rebuilt and written in turns.  In every state that the events reach, in whatever
  order they are handled, no scheduled event fails an assertion, no digest is rebuilt while it is written, and every published
  body is the control block and the mask of one digest in which all keys that its rebuild accepted are found.
\<close>

theorem store_digest_turns:
  assumes "reach (\<lambda>s. config_ok cfg \<and> sd_start cfg s) (sd_step cfg) s"
  shows "(\<forall>ev \<in> set (sd_events s). \<forall>inp. input_ok cfg inp \<longrightarrow>
      (\<exists>t. handle_event cfg inp ev (s\<lparr>sd_events := remove1 ev (sd_events s)\<rparr>) = Inr t)) \<and>
    \<not> (RebuildStep \<in> set (sd_events s) \<and> SwapOutStep \<in> set (sd_events s)) \<and>
    (\<forall>(body, ks) \<in> set (sd_published s). \<exists>cd. digest_ok cd \<and> body = cblock_octets (dc_bits_per_entry cfg) cd @ the (cd_mask cd) \<and>
      (\<forall>k \<in> set ks. cacheDigestTest cd k = Inr True))"
proof (intro conjI ballI allI impI)
  have inv: "config_ok cfg" "sd_inv cfg s" using sd.reach_inv [OF assms] by simp_all
  show "\<exists>t. handle_event cfg inp ev (s\<lparr>sd_events := remove1 ev (sd_events s)\<rparr>) = Inr t"
    if "ev \<in> set (sd_events s)" "input_ok cfg inp" for ev inp
  proof -
    from split_list_first [OF that(1)] obtain es fs where "sd_events s = es @ ev # fs" "ev \<notin> set es" by blast
    then show ?thesis using handle_event_spec [OF inv(2) _ that(2) inv(1), of es ev fs] by (auto simp: remove1_append)
  qed
  obtain a b where ab: "turns a b" "mset (sd_events s) = rebuild_events a + rewrite_events b" "sd_phases cfg a b s"
    using inv(2) unfolding sd_inv_def by blast
  have "set (sd_events s) = set_mset (rebuild_events a + rewrite_events b)" by (metis ab(2) set_mset_mset)
  then show "\<not> (RebuildStep \<in> set (sd_events s) \<and> SwapOutStep \<in> set (sd_events s))"
    using ab(1) by (cases a; cases b; simp add: turns_def)
  show "case p of (body, ks) \<Rightarrow> \<exists>cd. digest_ok cd \<and> body = cblock_octets (dc_bits_per_entry cfg) cd @ the (cd_mask cd) \<and>
      (\<forall>k \<in> set ks. cacheDigestTest cd k = Inr True)" if "p \<in> set (sd_published s)" for p
    using that ab(3) whole_body_finds by (fastforce simp: sd_phases_def sd_core_def list_all_iff)
qed

definition demo_digest_config :: digest_config where
  "demo_digest_config = \<lparr>dc_maxObjectSize = 1000, dc_bits_per_entry = 5, dc_swapout_chunk_size = 4096\<rparr>"

definition demo_digest_input :: digest_input where
  "demo_digest_input = \<lparr>di_search = [], di_cap = 10, di_count = 3\<rparr>"

theorem store_digest_turns_witness:
  "\<exists>s. reach (\<lambda>s. config_ok demo_digest_config \<and> sd_start demo_digest_config s) (sd_step demo_digest_config) s \<and>
     \<not> (RebuildStep \<in> set (sd_events s) \<and> SwapOutStep \<in> set (sd_events s))"
proof -
  have cfg: "config_ok demo_digest_config" by (simp add: config_ok_def demo_digest_config_def)
  have sz: "sizes_ok 10 (dc_bits_per_entry demo_digest_config)" by (simp add: sizes_ok_def demo_digest_config_def)
  have inp: "input_ok demo_digest_config demo_digest_input"
    using sz by (simp add: input_ok_def demo_digest_input_def)
  obtain s t where "storeDigestInit demo_digest_config 10 = Inr s" "storeDigestNoteStoreReady demo_digest_config demo_digest_input s = Inr t"
    using start_spec [OF sz inp] by blast
  then have "reach (\<lambda>s. config_ok demo_digest_config \<and> sd_start demo_digest_config s) (sd_step demo_digest_config) t"
    using cfg sz inp by (auto intro!: reach_start sd_start.intros)
  then show ?thesis using store_digest_turns by blast
qed

text \<open>
  Resizing the digest does not reset its counters, and a rebuild that resizes it does not clear them: the count that is
  published with a resized digest includes the entries of the previous one.
\<close>

lemma resize_keeps_count:
  assumes "storeDigestResize cap cd = Inr (True, cd')"
  shows "cd_count cd' = cd_count cd"
  using assms by (auto simp: storeDigestResize_def cacheDigestChangeCap_def cacheDigestInit_def cacheDigestClean_def Let_def outcome_simps split: if_splits)

end
