(* ===== verification/Peer_Digest.thy ===== *)
theory Peer_Digest
  imports Digest_Rebuild
begin

text \<open>
  Fetching the digest of a peer, \<^verbatim>\<open>src/peer_digest.cc\<close>: the handler that receives the reply piece by piece and passes it to the
  routine for the current state of the transfer: reply line, headers, control block, mask.  The transfer has a buffer of
  one page.  A fetch that was finished is freed; here it is marked.  The status codes of the fetched and the old store entry are
  part of the state; locks, timers and transfer statistics are left out, as is what happens to a digest whose peer was
  removed.  The percentage that decides whether a digest is useful is computed with floating-point numbers and is a parameter.
\<close>

section \<open>State\<close>

datatype digest_read_state = DIGEST_READ_NONE | DIGEST_READ_REPLY | DIGEST_READ_HEADERS | DIGEST_READ_CBLOCK | DIGEST_READ_MASK | DIGEST_READ_DONE

record peer_digest =
  pd_cd :: "cache_digest option"
  pd_usable :: bool
  pd_requested :: bool
  pd_req_result :: string

record digest_fetch =
  df_pd :: peer_digest
  df_status :: nat
  df_old_status :: "nat option"
  df_offset :: nat
  df_mask_offset :: nat
  df_buf :: bytes
  df_bufofs :: nat
  df_state :: digest_read_state
  df_peer_valid :: bool
  df_aborted :: bool
  df_finished :: bool

abbreviation SM_PAGE_SIZE :: nat where "SM_PAGE_SIZE \<equiv> 4096"
abbreviation HTTP_OK :: nat where "HTTP_OK \<equiv> 200"
abbreviation HTTP_NOT_MODIFIED :: nat where "HTTP_NOT_MODIFIED \<equiv> 304"
abbreviation StoreDigestCBlockSize :: nat where "StoreDigestCBlockSize \<equiv> 128"

section \<open>Finishing\<close>

definition peerDigestPDFinish :: "bool \<Rightarrow> peer_digest \<Rightarrow> peer_digest" where
  "peerDigestPDFinish err pd = (if err then pd\<lparr>pd_cd := None, pd_usable := False\<rparr> else pd\<lparr>pd_usable := True\<rparr>)"

definition peerDigestReqFinish :: "string \<Rightarrow> bool \<Rightarrow> digest_fetch \<Rightarrow> digest_fetch" where
  "peerDigestReqFinish reason err f =
     f\<lparr>df_pd := peerDigestPDFinish err ((df_pd f)\<lparr>pd_requested := False, pd_req_result := reason\<rparr>), df_old_status := None, df_finished := True\<rparr>"

definition peerDigestFetchStop :: "string \<Rightarrow> digest_fetch \<Rightarrow> digest_fetch" where
  "peerDigestFetchStop reason f = peerDigestReqFinish reason False f"

definition peerDigestFetchAbort :: "string \<Rightarrow> digest_fetch \<Rightarrow> digest_fetch" where
  "peerDigestFetchAbort reason f = peerDigestReqFinish reason True f"

definition peerDigestUseful :: "(int \<Rightarrow> int \<Rightarrow> int) \<Rightarrow> cache_digest \<Rightarrow> bool outcome" where
  "peerDigestUseful xpercentInt cd = bindE (cacheDigestBitUtil xpercentInt cd) (\<lambda>bit_util. Inr (\<not> bit_util > 65))"

text \<open>The reason to stop after data of the given size, if any, and whether it is a success.\<close>

definition stop_reason :: "(int \<Rightarrow> int \<Rightarrow> int) \<Rightarrow> digest_fetch \<Rightarrow> nat \<Rightarrow> (string \<times> bool) option outcome" where
  "stop_reason xpercentInt f sz =
     (if \<not> df_peer_valid f then Inr (Some (''peer disappeared'', False))
      else if df_aborted f then Inr (Some (''swap aborted'', False))
      else if sz \<noteq> 0 then Inr None
      else case pd_cd (df_pd f) of
        None \<Rightarrow> Inr (Some (''null digest?!'', False))
      | Some cd \<Rightarrow>
          if int (df_mask_offset f) \<noteq> sint (cd_mask_size cd) then Inr (Some (''premature end of digest?!'', False))
          else bindE (peerDigestUseful xpercentInt cd) (\<lambda>useful.
            if \<not> useful then Inr (Some (''useless digest'', False)) else Inr (Some (''success'', True))))"

definition peerDigestFetchedEnough :: "(int \<Rightarrow> int \<Rightarrow> int) \<Rightarrow> digest_fetch \<Rightarrow> nat \<Rightarrow> (bool \<times> digest_fetch) outcome" where
  "peerDigestFetchedEnough xpercentInt f sz =
     bindE (stop_reason xpercentInt f sz) (\<lambda>r. case r of
        None \<Rightarrow> Inr (False, f)
      | Some (reason, no_bug) \<Rightarrow> Inr (True, peerDigestReqFinish reason (\<not> no_bug) f))"

section \<open>The control block\<close>

definition peerDigestSetCBlock :: "bytes \<Rightarrow> peer_digest \<Rightarrow> (bool \<times> peer_digest) outcome" where
  "peerDigestSetCBlock buf pd =
     bindE (read_octets buf 0 StoreDigestCBlockSize) (\<lambda>v.
       let current = ntohs (bytes_at v 0 2); required = ntohs (bytes_at v 2 2);
           capacity = ntohl (bytes_at v 4 4); count = ntohl (bytes_at v 8 4); del_count = ntohl (bytes_at v 12 4); mask_size = ntohl (bytes_at v 16 4);
           bits_per_entry = v ! 20; hash_func_count = v ! 21 in
       if sint required > sint CacheDigestVer_current then Inr (False, pd)
       else if sint current < sint CacheDigestVer_required then Inr (False, pd)
       else if sint required > sint current \<or> sint mask_size \<le> 0 \<or> sint capacity \<le> 0 \<or> bits_per_entry = 0 \<or> hash_func_count = 0 then Inr (False, pd)
       else if scast mask_size \<noteq> cacheDigestCalcMaskSize capacity (ucast bits_per_entry) then Inr (False, pd)
       else if hash_func_count \<noteq> CacheDigestHashFuncCount then Inr (False, pd)
       else bindE (case pd_cd pd of
                     Some cd \<Rightarrow> if mask_size \<noteq> cd_mask_size cd then cacheDigestCreate capacity (ucast bits_per_entry) else Inr cd
                   | None \<Rightarrow> cacheDigestCreate capacity (ucast bits_per_entry)) (\<lambda>cd.
         Inr (True, pd\<lparr>pd_cd := Some (cd\<lparr>cd_count := count, cd_del_count := del_count\<rparr>)\<rparr>)))"

section \<open>The steps of the transfer\<close>

text \<open>The end of the headers: the octets up to an empty line, 0 when there is none.\<close>

fun headers_loop :: "bytes \<Rightarrow> nat \<Rightarrow> nat \<Rightarrow> nat" where
  "headers_loop [] e state = (if state = 3 then e else 0)"
| "headers_loop (c # cs) e state =
     (if state < 3 then
        headers_loop cs (e + 1)
          (if state = 0 then (if c = 10 then 1 else 0)
           else if state = 1 then (if c = 13 then 2 else if c = 10 then 3 else 0)
           else (if c = 10 then 3 else 0))
      else e)"

definition headersEnd :: "bytes \<Rightarrow> nat" where
  "headersEnd mime = headers_loop mime 0 1"

text \<open>The steps return how much of the buffer was used, or \<open>None\<close> for -1.\<close>

definition peerDigestFetchReply :: "(int \<Rightarrow> int \<Rightarrow> int) \<Rightarrow> digest_fetch \<Rightarrow> (nat option \<times> digest_fetch) outcome" where
  "peerDigestFetchReply xpercentInt f =
     guardE (df_offset f = 0) AssertFault
     (bindE (peerDigestFetchedEnough xpercentInt f (df_bufofs f)) (\<lambda>(stop, f).
        if stop then Inr (None, f)
        else if headersEnd (take (df_bufofs f) (df_buf f)) \<noteq> 0 then
          (let status = df_status f in
           guardE (status \<noteq> 0) AssertFault
           (if status = HTTP_NOT_MODIFIED then
              (case df_old_status f of
                 None \<Rightarrow> Inl AssertFault
               | Some old \<Rightarrow>
                   let f = f\<lparr>df_status := old, df_old_status := None\<rparr> in
                   if pd_cd (df_pd f) \<noteq> None then Inr (Some 0, (peerDigestFetchStop ''Not modified'' f)\<lparr>df_state := DIGEST_READ_DONE\<rparr>)
                   else Inr (Some 0, f\<lparr>df_state := DIGEST_READ_HEADERS\<rparr>))
            else if status = HTTP_OK then Inr (Some 0, f\<lparr>df_old_status := None, df_state := DIGEST_READ_HEADERS\<rparr>)
            else Inr (None, peerDigestFetchAbort ''status'' f)))
        else if df_bufofs f \<ge> SM_PAGE_SIZE then Inr (Some 0, peerDigestFetchAbort ''reply header too big'' f)
        else Inr (Some 0, f)))"

definition peerDigestSwapInHeaders :: "(int \<Rightarrow> int \<Rightarrow> int) \<Rightarrow> digest_fetch \<Rightarrow> (nat option \<times> digest_fetch) outcome" where
  "peerDigestSwapInHeaders xpercentInt f =
     bindE (peerDigestFetchedEnough xpercentInt f (df_bufofs f)) (\<lambda>(stop, f).
        if stop then Inr (None, f)
        else guardE (df_offset f = 0) AssertFault
          (let hdr_size = headersEnd (take (df_bufofs f) (df_buf f)) in
           if hdr_size \<noteq> 0 then
             guardE (df_status f \<noteq> 0) AssertFault
             (if df_status f \<noteq> HTTP_OK then Inr (None, peerDigestFetchAbort ''internal status error'' f)
              else Inr (Some hdr_size, f\<lparr>df_state := DIGEST_READ_CBLOCK\<rparr>))
           else if df_bufofs f \<ge> SM_PAGE_SIZE then Inr (None, peerDigestFetchAbort ''stored header too big'' f)
           else Inr (Some 0, f)))"

definition peerDigestSwapInCBlock :: "(int \<Rightarrow> int \<Rightarrow> int) \<Rightarrow> digest_fetch \<Rightarrow> (nat option \<times> digest_fetch) outcome" where
  "peerDigestSwapInCBlock xpercentInt f =
     bindE (peerDigestFetchedEnough xpercentInt f (df_bufofs f)) (\<lambda>(stop, f).
        if stop then Inr (None, f)
        else if df_bufofs f \<ge> StoreDigestCBlockSize then
          bindE (peerDigestSetCBlock (df_buf f) (df_pd f)) (\<lambda>(ok, pd).
            if ok then Inr (Some StoreDigestCBlockSize, f\<lparr>df_pd := pd, df_state := DIGEST_READ_MASK\<rparr>)
            else Inr (None, peerDigestFetchAbort ''invalid digest cblock'' (f\<lparr>df_pd := pd\<rparr>)))
        else if df_bufofs f \<ge> SM_PAGE_SIZE then Inr (None, peerDigestFetchAbort ''digest cblock too big'' f)
        else Inr (Some 0, f))"

definition peerDigestSwapInMask :: "(int \<Rightarrow> int \<Rightarrow> int) \<Rightarrow> digest_fetch \<Rightarrow> (nat option \<times> digest_fetch) outcome" where
  "peerDigestSwapInMask xpercentInt f =
     (let sz = df_bufofs f in
      case pd_cd (df_pd f) of
        None \<Rightarrow> Inl AssertFault
      | Some cd \<Rightarrow> (case cd_mask cd of
          None \<Rightarrow> Inl AssertFault
        | Some m \<Rightarrow>
            bindE (write_octets m (df_mask_offset f) (take sz (df_buf f))) (\<lambda>m.
            let f = f\<lparr>df_pd := (df_pd f)\<lparr>pd_cd := Some (cd\<lparr>cd_mask := Some m\<rparr>)\<rparr>\<rparr> in
            bindE (peerDigestFetchedEnough xpercentInt f sz) (\<lambda>(stop, f).
              if stop then Inr (None, f)
              else let f = f\<lparr>df_mask_offset := df_mask_offset f + sz\<rparr> in
                if int (df_mask_offset f) \<ge> sint (cd_mask_size cd) then
                  guardE (int (df_mask_offset f) = sint (cd_mask_size cd)) AssertFault
                  (bindE (peerDigestFetchedEnough xpercentInt f 0) (\<lambda>(stop, f). guardE stop AssertFault (Inr (None, f))))
                else Inr (Some sz, f)))))"

section \<open>The handler\<close>

fun transfer_step :: "(int \<Rightarrow> int \<Rightarrow> int) \<Rightarrow> digest_read_state \<Rightarrow> digest_fetch \<Rightarrow> (nat option \<times> digest_fetch) outcome" where
  "transfer_step xpercentInt DIGEST_READ_REPLY f = peerDigestFetchReply xpercentInt f"
| "transfer_step xpercentInt DIGEST_READ_HEADERS f = peerDigestSwapInHeaders xpercentInt f"
| "transfer_step xpercentInt DIGEST_READ_CBLOCK f = peerDigestSwapInCBlock xpercentInt f"
| "transfer_step xpercentInt DIGEST_READ_MASK f = peerDigestSwapInMask xpercentInt f"
| "transfer_step xpercentInt DIGEST_READ_NONE f = Inr (None, f)"
| "transfer_step xpercentInt DIGEST_READ_DONE f = Inr (None, f)"

text \<open>
  The loop goes on only when the state has changed and data is left, and states only advance: five rounds are more than enough.
  The flag of the result tells whether the loop ran to its end, after which another copy is scheduled.
\<close>

fun transfer_loop :: "(int \<Rightarrow> int \<Rightarrow> int) \<Rightarrow> nat \<Rightarrow> digest_fetch \<Rightarrow> (bool \<times> digest_fetch) outcome" where
  "transfer_loop xpercentInt 0 f = Inl LoopBound"
| "transfer_loop xpercentInt (Suc n) f =
     (let prevstate = df_state f in
      bindE (transfer_step xpercentInt prevstate f) (\<lambda>(retsize, f). case retsize of
          None \<Rightarrow> Inr (False, f)
        | Some retsize \<Rightarrow>
            let newsize = df_bufofs f - retsize in
            bindE (read_octets (df_buf f) retsize (df_bufofs f - newsize)) (\<lambda>v.
            let f = f\<lparr>df_buf := memcpy_at (df_buf f) 0 v, df_bufofs := newsize\<rparr> in
            if \<not> df_finished f \<and> prevstate \<noteq> df_state f \<and> df_bufofs f > 0 then transfer_loop xpercentInt n f else Inr (True, f))))"

text \<open>The received data stands in the buffer behind what is left of the previous piece.\<close>

definition peerDigestHandleReply :: "(int \<Rightarrow> int \<Rightarrow> int) \<Rightarrow> bytes \<Rightarrow> digest_fetch \<Rightarrow> digest_fetch outcome" where
  "peerDigestHandleReply xpercentInt receivedData f =
     bindE (write_octets (df_buf f) (df_bufofs f) receivedData) (\<lambda>buf.
     let f = f\<lparr>df_buf := buf, df_bufofs := df_bufofs f + length receivedData\<rparr> in
     guardE (df_bufofs f \<le> SM_PAGE_SIZE) AssertFault
     (bindE (peerDigestFetchedEnough xpercentInt f (df_bufofs f)) (\<lambda>(stop, f).
        if stop then Inr f
        else bindE (transfer_loop xpercentInt 5 f) (\<lambda>(ended, f).
          Inr (if ended then f\<lparr>df_offset := df_offset f + length receivedData\<rparr> else f)))))"

text \<open>Pieces that arrive one after the other, until the transfer is finished.\<close>

fun receive :: "(int \<Rightarrow> int \<Rightarrow> int) \<Rightarrow> bytes list \<Rightarrow> digest_fetch \<Rightarrow> digest_fetch outcome" where
  "receive xpercentInt [] f = Inr f"
| "receive xpercentInt (p # ps) f =
     (if df_finished f then Inr f else bindE (peerDigestHandleReply xpercentInt p f) (receive xpercentInt ps))"

end
