(* ===== verification/Digest_Exchange.thy ===== *)
theory Digest_Exchange
  imports Peer_Digest Dns_Messages
begin

text \<open>
  From one cache to another: the body that a cache publishes, received by a peer.  When the pieces of the transfer are small enough, the
  peer ends with the digest of the sender and so finds all its keys.  Larger pieces run into the way the handler
  moves the rest of its buffer, and pieces that are longer than the announced mask are written past its end.
\<close>

section \<open>Control blocks\<close>

lemma ntohl_htonl [simp]: "ntohl (htonl s) = s"
proof (rule bit_word_eqI)
  fix n :: nat
  consider "n < 8" | "8 \<le> n" "n < 16" | "16 \<le> n" "n < 24" | "24 \<le> n" by linarith
  then show "bit (ntohl (htonl s)) n = bit s n" if "n < LENGTH(32)"
    using that by cases (auto simp: ntohl_def htonl_def bit_simps)
qed

lemma length_cblock [simp]: "length (cblock_octets bpe cd) = 128" "cblock_octets bpe cd \<noteq> []"
  by (simp_all add: cblock_octets_def)

lemma cblock_fields:
  "ntohs (bytes_at (cblock_octets bpe cd) 0 2) = 5" "ntohs (bytes_at (cblock_octets bpe cd) 2 2) = 3"
  "ntohl (bytes_at (cblock_octets bpe cd) 4 4) = cd_capacity cd" "ntohl (bytes_at (cblock_octets bpe cd) 8 4) = cd_count cd"
  "ntohl (bytes_at (cblock_octets bpe cd) 12 4) = cd_del_count cd" "ntohl (bytes_at (cblock_octets bpe cd) 16 4) = cd_mask_size cd"
  "cblock_octets bpe cd ! 20 = ucast bpe" "cblock_octets bpe cd ! 21 = 4"
  by (simp_all add: cblock_octets_def bytes_at_def nth_append CacheDigestVer_current_def CacheDigestVer_required_def CacheDigestHashFuncCount_def)

text \<open>The digest of a peer, if there is one, is in order.\<close>

definition peer_ok :: "peer_digest \<Rightarrow> bool" where
  "peer_ok pd \<longleftrightarrow> (case pd_cd pd of None \<Rightarrow> True | Some cd \<Rightarrow> digest_ok cd)"

lemma set_cblock:
  assumes "digest_ok cd" "unat (cd_bits_per_entry cd) < 256" "peer_ok pd" "take 128 buf = cblock_octets (cd_bits_per_entry cd) cd"
  shows "\<exists>c. peerDigestSetCBlock buf pd = Inr (True, pd\<lparr>pd_cd := Some c\<rparr>) \<and> digest_ok c \<and> cd_mask_size c = cd_mask_size cd"
proof -
  let ?n = "digest_octets cd" and ?bpe = "cd_bits_per_entry cd"
  obtain m where n: "0 < ?n" "8 * ?n < 2 ^ 31" and sz: "sizes_ok (cd_capacity cd) ?bpe" by (rule digest_okD [OF assms(1)])
  have "128 \<le> length buf" using arg_cong [OF assms(4), of length] by simp
  then have rd: "read_octets buf 0 128 = Inr (cblock_octets ?bpe cd)" using assms(4) by (simp add: read_octets_def bytes_at_def)
  have b: "ucast (ucast ?bpe :: byte) = ?bpe" "(ucast ?bpe :: byte) \<noteq> 0"
  proof -
    have u: "unat (ucast ?bpe :: byte) = unat ?bpe" using assms(2) by (simp add: unsigned_ucast_eq take_bit_nat_eq_self)
    then show "ucast (ucast ?bpe :: byte) = ?bpe" by (simp add: word_unat_eq_iff unsigned_ucast_eq unsigned_take_bit_eq)
    have "0 < unat ?bpe" using sz by (auto simp: sizes_ok_def unat_gt_0)
    then show "(ucast ?bpe :: byte) \<noteq> 0" using u by auto
  qed
  have ms: "cd_mask_size cd = of_nat ?n" "sint (of_nat ?n :: 32 word) = int ?n" "scast (of_nat ?n :: 32 word) = (of_nat ?n :: 64 word)"
    using n int_small(1) [of ?n] size_t_small(1) [of ?n] by simp_all
  have sc: "scast (cd_mask_size cd) = (of_nat ?n :: 64 word)" using ms by simp
  have "?n = (unat (cd_capacity cd) * unat ?bpe + 7) div 8" using assms(1) by (simp add: digest_ok_def)
  then have calc: "scast (cd_mask_size cd) = cacheDigestCalcMaskSize (cd_capacity cd) ?bpe"
    unfolding sc sizes_ok_nat(3) [OF sz] by (simp only:)
  have "sint (cd_mask_size cd) = int ?n" using ms by simp
  then have pos: "0 < sint (cd_mask_size cd)" "0 < sint (cd_capacity cd)" using n(1) sz by (simp_all only: of_nat_0_less_iff sizes_ok_def)
  obtain c0 where c0: "cacheDigestCreate (cd_capacity cd) ?bpe = Inr c0" "digest_ok c0" "cd_capacity c0 = cd_capacity cd" "cd_bits_per_entry c0 = ?bpe"
    using init_spec [OF sz] unfolding cacheDigestCreate_def by blast
  then have c0s: "cd_mask_size c0 = cd_mask_size cd" using assms(1) by (simp add: digest_ok_def word_unat_eq_iff)
  have keep: "digest_ok (c\<lparr>cd_count := x, cd_del_count := y\<rparr>) = digest_ok c" for c x y by (simp add: digest_ok_def)
  have "peerDigestSetCBlock buf pd = bindE (case pd_cd pd of
        Some c \<Rightarrow> if cd_mask_size cd \<noteq> cd_mask_size c then cacheDigestCreate (cd_capacity cd) ?bpe else Inr c
      | None \<Rightarrow> cacheDigestCreate (cd_capacity cd) ?bpe)
      (\<lambda>c. Inr (True, pd\<lparr>pd_cd := Some (c\<lparr>cd_count := cd_count cd, cd_del_count := cd_del_count cd\<rparr>)\<rparr>))"
    using b pos calc unfolding peerDigestSetCBlock_def rd
    by (cases "pd_cd pd") (simp_all add: cblock_fields CacheDigestVer_current_def CacheDigestVer_required_def CacheDigestHashFuncCount_def Let_def)
  then show ?thesis using c0(1,2) c0s assms(3) keep by (cases "pd_cd pd") (auto simp: peer_ok_def)
qed

section \<open>Pieces of the mask\<close>

definition fetching :: "digest_read_state \<Rightarrow> digest_fetch \<Rightarrow> bool" where
  "fetching st f \<longleftrightarrow> df_state f = st \<and> df_bufofs f = 0 \<and> length (df_buf f) = 4096 \<and> df_peer_valid f \<and> \<not> df_aborted f \<and> \<not> df_finished f"

lemma not_enough: "df_peer_valid f \<Longrightarrow> \<not> df_aborted f \<Longrightarrow> sz \<noteq> 0 \<Longrightarrow> peerDigestFetchedEnough xp f sz = Inr (False, f)"
  by (simp add: peerDigestFetchedEnough_def stop_reason_def)

text \<open>The end of a transfer: the digest is used or, when too many of its bits are on, thrown away.\<close>

definition used_percent :: "(int \<Rightarrow> int \<Rightarrow> int) \<Rightarrow> cache_digest \<Rightarrow> int" where
  "used_percent xp cd = xp (int (card (digest_bits cd))) (int (8 * digest_octets cd))"

lemma mask_complete:
  assumes "df_peer_valid f" "\<not> df_aborted f" "pd_cd (df_pd f) = Some cd" "digest_ok cd" "df_mask_offset f = digest_octets cd"
  shows "\<exists>f'. peerDigestFetchedEnough xp f 0 = Inr (True, f') \<and> df_finished f' \<and>
    pd_cd (df_pd f') = (if used_percent xp cd \<le> 65 then Some cd else None) \<and> pd_usable (df_pd f') = (used_percent xp cd \<le> 65)"
proof -
  obtain s where s: "cacheDigestStats cd = Inr s" "st_bit_on_count s = int (card (digest_bits cd))" "st_bit_count s = int (8 * digest_octets cd)"
    using stats_spec [OF assms(4)] by blast
  have "8 * digest_octets cd < 2 ^ 31" by (rule digest_okD [OF assms(4)])
  then have "sint (cd_mask_size cd) = int (digest_octets cd)" using int_small(1) [of "digest_octets cd"] by simp
  moreover have "peerDigestUseful xp cd = Inr (used_percent xp cd \<le> 65)"
    using s by (simp add: peerDigestUseful_def cacheDigestBitUtil_def used_percent_def not_less)
  ultimately show ?thesis
    using assms by (simp add: peerDigestFetchedEnough_def stop_reason_def peerDigestReqFinish_def peerDigestPDFinish_def)
qed

lemma mask_step:
  assumes "df_peer_valid f" "\<not> df_aborted f" "pd_cd (df_pd f) = Some c" "digest_ok c" "cd_mask c = Some mm"
    "0 < df_bufofs f" "df_bufofs f \<le> length (df_buf f)" "df_mask_offset f + df_bufofs f \<le> digest_octets c"
  defines "g \<equiv> f\<lparr>df_pd := (df_pd f)\<lparr>pd_cd := Some (c\<lparr>cd_mask := Some (memcpy_at mm (df_mask_offset f) (take (df_bufofs f) (df_buf f)))\<rparr>)\<rparr>,
      df_mask_offset := df_mask_offset f + df_bufofs f\<rparr>"
  shows "peerDigestSwapInMask xp f =
    (if df_mask_offset f + df_bufofs f < digest_octets c then Inr (Some (df_bufofs f), g)
     else bindE (peerDigestFetchedEnough xp g 0) (\<lambda>(stop, f). guardE stop AssertFault (Inr (None, f))))"
proof -
  have mm: "length mm = digest_octets c" "8 * digest_octets c < 2 ^ 31" using digest_okD [OF assms(4)] assms(5) by auto
  then have sz: "sint (cd_mask_size c) = int (digest_octets c)" using int_small(1) [of "digest_octets c"] by simp
  have le: "sint (cd_mask_size c) \<le> int x \<longleftrightarrow> digest_octets c \<le> x" "int x = sint (cd_mask_size c) \<longleftrightarrow> x = digest_octets c" for x
    by (simp_all only: sz of_nat_le_iff of_nat_eq_iff)
  have "uint (cd_mask_size c) = sint (cd_mask_size c)" using sz by simp
  then show ?thesis
    using assms(1-3,5-8) mm(1) not_enough [of "f\<lparr>df_pd := pd\<rparr>" "df_bufofs f" xp for pd]
    by (auto simp: peerDigestSwapInMask_def g_def write_octets_def Let_def le simp del: of_nat_add)
qed

section \<open>A transfer\<close>

text \<open>
  The first \<open>j\<close> octets of the mask have arrived; \<open>complete\<close> is the end: the peer has the mask of the sender, unless
  too many bits are on.
\<close>

definition received :: "cache_digest \<Rightarrow> bytes \<Rightarrow> nat \<Rightarrow> digest_fetch \<Rightarrow> bool" where
  "received cd m j f \<longleftrightarrow> fetching DIGEST_READ_MASK f \<and> df_mask_offset f = j \<and> j < digest_octets cd \<and>
     (\<exists>c mm. pd_cd (df_pd f) = Some c \<and> digest_ok c \<and> cd_mask_size c = cd_mask_size cd \<and> cd_mask c = Some mm \<and> take j mm = take j m)"

definition complete :: "(int \<Rightarrow> int \<Rightarrow> int) \<Rightarrow> cache_digest \<Rightarrow> digest_fetch \<Rightarrow> bool" where
  "complete xp cd f \<longleftrightarrow> df_finished f \<and> pd_usable (df_pd f) = (used_percent xp cd \<le> 65) \<and>
     (if used_percent xp cd \<le> 65 then \<exists>c. pd_cd (df_pd f) = Some c \<and> cd_mask_size c = cd_mask_size cd \<and> cd_mask c = cd_mask cd
      else pd_cd (df_pd f) = None)"

text \<open>One round in the state of reading the mask, on a buffer that starts with the next octets of the mask.\<close>

lemma mask_round:
  assumes "df_state f = DIGEST_READ_MASK" "length (df_buf f) = 4096" "df_peer_valid f" "\<not> df_aborted f" "\<not> df_finished f"
    and c: "pd_cd (df_pd f) = Some c" "digest_ok c" "cd_mask_size c = cd_mask_size cd" "cd_mask c = Some mm"
    and m: "digest_ok cd" "cd_mask cd = Some m" "take (df_mask_offset f) mm = take (df_mask_offset f) m"
    and p: "take (length p) (df_buf f) = p" "df_bufofs f = length p" "p \<noteq> []" "p = bytes_at m (df_mask_offset f) (length p)"
      "df_mask_offset f + length p < digest_octets cd \<Longrightarrow> length p \<le> 2048"
      "df_mask_offset f + length p \<le> digest_octets cd"
  shows "\<exists>e f'. transfer_loop xp (Suc n) f = Inr (e, f') \<and>
    (if df_mask_offset f + length p < digest_octets cd then e \<and> received cd m (df_mask_offset f + length p) f' else \<not> e \<and> complete xp cd f')"
proof -
  let ?j = "df_mask_offset f" and ?n = "digest_octets cd"
  let ?c = "c\<lparr>cd_mask := Some (memcpy_at mm ?j p)\<rparr>"
  let ?g = "f\<lparr>df_pd := (df_pd f)\<lparr>pd_cd := Some ?c\<rparr>, df_mask_offset := ?j + length p\<rparr>"
  have len: "length mm = ?n" "length m = ?n" using c(2-4) m(1,2) by (auto simp: digest_ok_def)
  have "length p \<le> 4096" using arg_cong [OF p(1), of length] assms(2) by simp
  then have step: "peerDigestSwapInMask xp f = (if ?j + length p < ?n then Inr (Some (length p), ?g)
     else bindE (peerDigestFetchedEnough xp ?g 0) (\<lambda>(stop, f). guardE stop AssertFault (Inr (None, f))))"
    using mask_step [of f c mm xp] assms(2-4) c p(1-3,6) by simp
  have ok: "digest_ok ?c" using c(2-4) len(1) p(6) by (simp add: digest_ok_def)
  have tk: "take (?j + length p) (memcpy_at mm ?j p) = take (?j + length p) m"
    using take_memcpy_at [of ?j p mm] m(3) p(4,6) len by (simp add: bytes_at_def take_add [of ?j "length p" m])
  show ?thesis
  proof (cases "?j + length p < ?n")
    case True
    then have "read_octets (df_buf f) (length p) (length p) = Inr (bytes_at (df_buf f) (length p) (length p))"
      using p(5) assms(2) by (simp add: read_octets_def)
    then have "transfer_loop xp (Suc n) f = Inr (True, ?g\<lparr>df_buf := memcpy_at (df_buf f) 0 (bytes_at (df_buf f) (length p) (length p)), df_bufofs := 0\<rparr>)"
      using True step assms(1) p(2) by (simp add: Let_def)
    then show ?thesis using True ok tk assms c(3) p(5) by (auto simp: received_def fetching_def)
  next
    case False
    then have n: "?j + length p = ?n" using p(6) by simp
    then have mm: "memcpy_at mm ?j p = m" using tk len by (simp add: memcpy_at_def)
    have up: "used_percent xp ?c = used_percent xp cd" using mm m(2) c(3) by (simp add: used_percent_def digest_bits_def)
    obtain f' where "peerDigestFetchedEnough xp ?g 0 = Inr (True, f')" "df_finished f'"
      "pd_cd (df_pd f') = (if used_percent xp ?c \<le> 65 then Some ?c else None)" "pd_usable (df_pd f') = (used_percent xp ?c \<le> 65)"
      using mask_complete [of ?g ?c xp] assms(3,4) ok n c(3) by auto
    then show ?thesis using False step assms(1) up mm m(2) c(3) by (auto simp: complete_def Let_def)
  qed
qed

lemma loop_round:
  assumes "transfer_step xp (df_state f) f = Inr (Some r, g)" "r \<le> df_bufofs g" "read_octets (df_buf g) r r = Inr v"
  shows "transfer_loop xp (Suc n) f =
    (if \<not> df_finished g \<and> df_state f \<noteq> df_state g \<and> r < df_bufofs g
     then transfer_loop xp n (g\<lparr>df_buf := memcpy_at (df_buf g) 0 v, df_bufofs := df_bufofs g - r\<rparr>)
     else Inr (True, g\<lparr>df_buf := memcpy_at (df_buf g) 0 v, df_bufofs := df_bufofs g - r\<rparr>))"
  using assms by (simp add: Let_def)

lemma loop_fault:
  "transfer_step xp (df_state f) f = Inl e \<Longrightarrow> transfer_loop xp (Suc n) f = Inl e"
  "transfer_step xp (df_state f) f = Inr (Some r, g) \<Longrightarrow> r \<le> df_bufofs g \<Longrightarrow> read_octets (df_buf g) r r = Inl e \<Longrightarrow> transfer_loop xp (Suc n) f = Inl e"
  by (simp_all add: Let_def)

lemma handle_piece:
  assumes "fetching st f" "p \<noteq> []" "length p \<le> 4096"
  shows "peerDigestHandleReply xp p f =
    bindE (transfer_loop xp 5 (f\<lparr>df_buf := memcpy_at (df_buf f) 0 p, df_bufofs := length p\<rparr>))
      (\<lambda>(ended, f). Inr (if ended then f\<lparr>df_offset := df_offset f + length p\<rparr> else f))"
  using assms not_enough [of "f\<lparr>df_buf := b, df_bufofs := n\<rparr>" "length p" xp for b n]
  by (simp add: peerDigestHandleReply_def fetching_def write_octets_def)

lemma received_offset [simp]: "received cd m j (f\<lparr>df_offset := k\<rparr>) = received cd m j f"
  by (simp add: received_def fetching_def)

lemma handle_mask:
  assumes "received cd m j f" "digest_ok cd" "cd_mask cd = Some m" "p \<noteq> []" "p = bytes_at m j (length p)"
    "length p \<le> 2048" "j + length p \<le> digest_octets cd"
  shows "\<exists>f'. peerDigestHandleReply xp p f = Inr f' \<and>
    (if j + length p < digest_octets cd then received cd m (j + length p) f' else complete xp cd f')"
proof -
  let ?g = "f\<lparr>df_buf := memcpy_at (df_buf f) 0 p, df_bufofs := length p\<rparr>"
  obtain c mm where f: "fetching DIGEST_READ_MASK f" "df_mask_offset f = j" "pd_cd (df_pd f) = Some c" "digest_ok c" "cd_mask_size c = cd_mask_size cd"
    "cd_mask c = Some mm" "take j mm = take j m" using assms(1) unfolding received_def by blast
  have "take (length p) (df_buf ?g) = p" by (simp add: memcpy_at_def)
  then have "\<exists>e f'. transfer_loop xp 5 ?g = Inr (e, f') \<and>
      (if j + length p < digest_octets cd then e \<and> received cd m (j + length p) f' else \<not> e \<and> complete xp cd f')"
    using mask_round [of ?g c cd mm m p xp 4] f assms(2-7) unfolding fetching_def by (simp del: transfer_loop.simps split del: if_split cong: if_cong)
  then obtain e f' where "transfer_loop xp 5 ?g = Inr (e, f')"
    "if j + length p < digest_octets cd then e \<and> received cd m (j + length p) f' else \<not> e \<and> complete xp cd f'" by blast
  then show ?thesis
    using handle_piece [OF f(1) assms(4), of xp] assms(6) by (cases "j + length p < digest_octets cd") simp_all
qed

lemma receive_mask:
  assumes "received cd m j f" "digest_ok cd" "cd_mask cd = Some m" "drop j m = concat ps" "\<forall>p \<in> set ps. p \<noteq> [] \<and> length p \<le> 2048"
  shows "\<exists>f'. receive xp ps f = Inr f' \<and> complete xp cd f'"
  using assms
proof (induction ps arbitrary: j f)
  case Nil
  then show ?case by (auto simp: received_def digest_ok_def)
next
  case (Cons p ps)
  have n: "length m = digest_octets cd" using Cons.prems(2,3) by (auto simp: digest_ok_def)
  have "length p \<le> length m - j" "j < digest_octets cd" using arg_cong [OF Cons.prems(4), of length] Cons.prems(1) by (simp_all add: received_def)
  then have p: "p = bytes_at m j (length p)" "j + length p \<le> digest_octets cd" using Cons.prems(4) n by (simp_all add: bytes_at_def)
  have fin: "\<not> df_finished f" using Cons.prems(1) by (simp add: received_def fetching_def)
  obtain f' where f': "peerDigestHandleReply xp p f = Inr f'"
    "if j + length p < digest_octets cd then received cd m (j + length p) f' else complete xp cd f'"
    using handle_mask [OF Cons.prems(1-3) _ p(1) _ p(2)] Cons.prems(5) by auto
  have rest: "drop (j + length p) m = concat ps" using Cons.prems(4) by (metis append_eq_conv_conj concat.simps(2) drop_drop add.commute)
  show ?case
  proof (cases "j + length p < digest_octets cd")
    case True
    then show ?thesis using Cons.IH [OF _ Cons.prems(2,3) rest] f' fin Cons.prems(5) by auto
  next
    case False
    then have "concat ps = []" using rest n by simp
    then have "ps = []" using Cons.prems(5) by (cases ps) auto
    then show ?thesis using f' fin False by simp
  qed
qed

text \<open>The reply line and the headers, in a piece of their own.\<close>

definition reply_headers :: "bytes \<Rightarrow> bool" where
  "reply_headers hdrs \<longleftrightarrow> hdrs \<noteq> [] \<and> headersEnd hdrs = length hdrs \<and> length hdrs \<le> 2048"

definition fetch_start :: "digest_fetch \<Rightarrow> bool" where
  "fetch_start f \<longleftrightarrow> fetching DIGEST_READ_REPLY f \<and> df_offset f = 0 \<and> df_mask_offset f = 0 \<and> df_status f = HTTP_OK \<and> peer_ok (df_pd f)"

lemma handle_headers:
  assumes "fetch_start f" "reply_headers hdrs"
  shows "\<exists>f'. peerDigestHandleReply xp hdrs f = Inr f' \<and> fetching DIGEST_READ_CBLOCK f' \<and> df_mask_offset f' = 0 \<and> df_pd f' = df_pd f"
proof -
  let ?b = "memcpy_at (df_buf f) 0 hdrs"
  let ?g = "f\<lparr>df_buf := ?b, df_bufofs := length hdrs\<rparr>"
  let ?h = "f\<lparr>df_old_status := None, df_state := DIGEST_READ_HEADERS, df_buf := ?b, df_bufofs := length hdrs\<rparr>"
  have f: "fetching DIGEST_READ_REPLY f" "df_offset f = 0" "df_mask_offset f = 0" "df_status f = 200" using assms(1) by (simp_all add: fetch_start_def)
  have h: "hdrs \<noteq> []" "headersEnd hdrs = length hdrs" "length hdrs \<le> 2048" using assms(2) by (simp_all add: reply_headers_def)
  have b: "take (length hdrs) ?b = hdrs" "length ?b = 4096" using f(1) h(3) by (simp_all add: memcpy_at_def fetching_def)
  have v: "df_peer_valid f" "\<not> df_aborted f" "\<not> df_finished f" "df_state f = DIGEST_READ_REPLY" using f(1) by (simp_all add: fetching_def)
  have "transfer_step xp (df_state ?g) ?g = Inr (Some 0, ?h)"
    using v f(2,4) h b not_enough [of ?g "length hdrs" xp] by (simp add: peerDigestFetchReply_def Let_def)
  moreover have "read_octets ?b 0 0 = Inr []" "memcpy_at ?b 0 [] = ?b" by (simp_all add: read_octets_def bytes_at_def memcpy_at_def)
  ultimately have r1: "transfer_loop xp (Suc (Suc 3)) ?g = transfer_loop xp (Suc 3) ?h"
    using loop_round [of xp ?g 0 ?h "[]" "Suc 3"] v h(1) by (simp del: transfer_loop.simps)
  have "transfer_step xp (df_state ?h) ?h = Inr (Some (length hdrs), ?h\<lparr>df_state := DIGEST_READ_CBLOCK\<rparr>)"
    using v f(2,4) h b not_enough [of ?h "length hdrs" xp] by (simp add: peerDigestSwapInHeaders_def Let_def)
  moreover have "read_octets ?b (length hdrs) (length hdrs) = Inr (bytes_at ?b (length hdrs) (length hdrs))"
    using b(2) h(3) by (simp add: read_octets_def)
  ultimately have "transfer_loop xp (Suc 3) ?h =
      Inr (True, ?h\<lparr>df_state := DIGEST_READ_CBLOCK, df_buf := memcpy_at ?b 0 (bytes_at ?b (length hdrs) (length hdrs)), df_bufofs := 0\<rparr>)"
    using loop_round [of xp ?h "length hdrs" "?h\<lparr>df_state := DIGEST_READ_CBLOCK\<rparr>" "bytes_at ?b (length hdrs) (length hdrs)" 3] by (simp del: transfer_loop.simps)
  then show ?thesis
    using handle_piece [OF f(1) h(1), of xp] h(3) v f(3) b(2) r1 by (simp add: fetching_def del: transfer_loop.simps)
qed

text \<open>The control block, with the first octets of the mask.\<close>

text \<open>
  The move of the rest of the buffer is as long as what was used, not as what is left: of the octets behind the control
  block the first 128 move to the front, the others stay where they were.
\<close>

lemma cblock_round:
  assumes "fetching DIGEST_READ_CBLOCK f" "peer_ok (df_pd f)" "digest_ok cd" "unat (cd_bits_per_entry cd) < 256" "length m0 \<le> 3968"
  shows "\<exists>c b. digest_ok c \<and> cd_mask_size c = cd_mask_size cd \<and> length b = 4096 \<and>
    take (length m0) b = take 128 m0 @ take (length m0 - 128) m0 \<and>
    (let h = f\<lparr>df_pd := (df_pd f)\<lparr>pd_cd := Some c\<rparr>, df_state := DIGEST_READ_MASK, df_buf := b, df_bufofs := length m0\<rparr> in
     peerDigestHandleReply xp (cblock_octets (cd_bits_per_entry cd) cd @ m0) f =
     bindE (if m0 \<noteq> [] then transfer_loop xp 4 h else Inr (True, h))
       (\<lambda>(ended, f). Inr (if ended then f\<lparr>df_offset := df_offset f + (128 + length m0)\<rparr> else f)))"
proof -
  let ?p = "cblock_octets (cd_bits_per_entry cd) cd @ m0"
  let ?b = "memcpy_at (df_buf f) 0 ?p"
  let ?g = "f\<lparr>df_buf := ?b, df_bufofs := 128 + length m0\<rparr>"
  let ?b' = "memcpy_at ?b 0 (bytes_at ?b 128 128)"
  have v: "df_peer_valid f" "\<not> df_aborted f" "\<not> df_finished f" "df_state f = DIGEST_READ_CBLOCK" "length (df_buf f) = 4096"
    using assms(1) by (simp_all add: fetching_def)
  have b: "length ?b = 4096" "take 128 ?b = cblock_octets (cd_bits_per_entry cd) cd" using v(5) assms(5) by (simp_all add: memcpy_at_def)
  obtain c where c: "peerDigestSetCBlock ?b (df_pd f) = Inr (True, (df_pd f)\<lparr>pd_cd := Some c\<rparr>)" "digest_ok c" "cd_mask_size c = cd_mask_size cd"
    using set_cblock [OF assms(3,4,2) b(2)] by blast
  let ?k = "f\<lparr>df_pd := (df_pd f)\<lparr>pd_cd := Some c\<rparr>, df_state := DIGEST_READ_MASK, df_buf := ?b, df_bufofs := 128 + length m0\<rparr>"
  let ?h = "?k\<lparr>df_buf := ?b', df_bufofs := length m0\<rparr>"
  have "transfer_step xp (df_state ?g) ?g = Inr (Some 128, ?k)"
    using v c(1) not_enough [of ?g "128 + length m0" xp] by (simp add: peerDigestSwapInCBlock_def)
  moreover have "read_octets ?b 128 128 = Inr (bytes_at ?b 128 128)" using b(1) by (simp add: read_octets_def)
  ultimately have "transfer_loop xp (Suc 4) ?g = (if m0 \<noteq> [] then transfer_loop xp 4 ?h else Inr (True, ?h))"
    using loop_round [of xp ?g 128 ?k "bytes_at ?b 128 128" 4] v by (simp del: transfer_loop.simps)
  moreover have "peerDigestHandleReply xp ?p f = bindE (transfer_loop xp (Suc 4) ?g)
      (\<lambda>(ended, f). Inr (if ended then f\<lparr>df_offset := df_offset f + (128 + length m0)\<rparr> else f))"
    using handle_piece [OF assms(1), of ?p xp] assms(5) by (simp del: transfer_loop.simps cong: if_cong)
  moreover have "take (length m0) ?b' = take 128 m0 @ take (length m0 - 128) m0" "length ?b' = 4096"
    using v(5) assms(5) by (cases "length m0 \<le> 128"; simp add: memcpy_at_def bytes_at_def)+
  ultimately show ?thesis using c(2,3) unfolding Let_def by (intro exI [of _ c] exI [of _ ?b']) simp
qed

lemma handle_cblock:
  assumes "fetching DIGEST_READ_CBLOCK f" "df_mask_offset f = 0" "peer_ok (df_pd f)" "digest_ok cd" "unat (cd_bits_per_entry cd) < 256"
    "cd_mask cd = Some m" "m = m0 @ concat ps" "length m0 \<le> 128"
  shows "\<exists>f'. peerDigestHandleReply xp (cblock_octets (cd_bits_per_entry cd) cd @ m0) f = Inr f' \<and>
    (if length m0 < digest_octets cd then received cd m (length m0) f' else complete xp cd f')"
proof -
  have "length m0 \<le> 3968" using assms(8) by simp
  from cblock_round [OF assms(1,3-5) this] obtain c b where c: "digest_ok c" "cd_mask_size c = cd_mask_size cd" "length b = 4096"
    "take (length m0) b = take 128 m0 @ take (length m0 - 128) m0"
    "let h = f\<lparr>df_pd := (df_pd f)\<lparr>pd_cd := Some c\<rparr>, df_state := DIGEST_READ_MASK, df_buf := b, df_bufofs := length m0\<rparr> in
     peerDigestHandleReply xp (cblock_octets (cd_bits_per_entry cd) cd @ m0) f =
     bindE (if m0 \<noteq> [] then transfer_loop xp 4 h else Inr (True, h))
       (\<lambda>(ended, f). Inr (if ended then f\<lparr>df_offset := df_offset f + (128 + length m0)\<rparr> else f))" by blast
  let ?h = "f\<lparr>df_pd := (df_pd f)\<lparr>pd_cd := Some c\<rparr>, df_state := DIGEST_READ_MASK, df_buf := b, df_bufofs := length m0\<rparr>"
  have v: "df_peer_valid f" "\<not> df_aborted f" "\<not> df_finished f" using assms(1) by (simp_all add: fetching_def)
  have n: "length m = digest_octets cd" "0 < digest_octets cd" using assms(4,6) sizes_ok_nat(5) by (auto simp: digest_ok_def)
  obtain mm where mm: "cd_mask c = Some mm" using c(1) by (auto simp: digest_ok_def)
  have "\<exists>e f'. (if m0 \<noteq> [] then transfer_loop xp 4 ?h else Inr (True, ?h)) = Inr (e, f') \<and>
      (if length m0 < digest_octets cd then e \<and> received cd m (length m0) f' else \<not> e \<and> complete xp cd f')"
  proof (cases "m0 = []")
    case True
    then show ?thesis using v c(1-3) mm n(2) assms(2) by (auto simp: received_def fetching_def)
  next
    case False
    then show ?thesis
      using mask_round [of ?h c cd mm m m0 xp 3] v c(1-4) mm n assms(2,4,6-8)
      by (simp add: bytes_at_def del: transfer_loop.simps split del: if_split cong: if_cong)
  qed
  then obtain e f' where "(if m0 \<noteq> [] then transfer_loop xp 4 ?h else Inr (True, ?h)) = Inr (e, f')"
    "if length m0 < digest_octets cd then e \<and> received cd m (length m0) f' else \<not> e \<and> complete xp cd f'" by blast
  then show ?thesis using c(5) unfolding Let_def by (cases "length m0 < digest_octets cd") simp_all
qed

lemma fetch_digest:
  assumes "fetch_start f" "reply_headers hdrs" "digest_ok cd" "unat (cd_bits_per_entry cd) < 256" "cd_mask cd = Some m"
    "m = m0 @ concat ps" "length m0 \<le> 128" "\<forall>q \<in> set ps. q \<noteq> [] \<and> length q \<le> 2048"
  shows "\<exists>f'. receive xp (hdrs # (cblock_octets (cd_bits_per_entry cd) cd @ m0) # ps) f = Inr f' \<and> complete xp cd f'"
proof -
  have fin: "\<not> df_finished f" "peer_ok (df_pd f)" using assms(1) by (simp_all add: fetch_start_def fetching_def)
  obtain f1 where f1: "peerDigestHandleReply xp hdrs f = Inr f1" "fetching DIGEST_READ_CBLOCK f1" "df_mask_offset f1 = 0" "df_pd f1 = df_pd f"
    using handle_headers [OF assms(1,2)] by blast
  obtain f2 where f2: "peerDigestHandleReply xp (cblock_octets (cd_bits_per_entry cd) cd @ m0) f1 = Inr f2"
    "if length m0 < digest_octets cd then received cd m (length m0) f2 else complete xp cd f2"
    using handle_cblock [OF f1(2,3) _ assms(3-7)] f1(4) fin(2) by auto
  have "\<exists>f'. receive xp ps f2 = Inr f' \<and> complete xp cd f'"
  proof (cases "length m0 < digest_octets cd")
    case True
    then show ?thesis using receive_mask [OF _ assms(3,5) _ assms(8)] f2(2) assms(6) by simp
  next
    case False
    have "length m = digest_octets cd" using assms(3,5) by (auto simp: digest_ok_def)
    then have "concat ps = []" using False assms(6) by (simp flip: length_0_conv)
    then have "ps = []" using assms(8) by (cases ps) auto
    then show ?thesis using f2(2) False by simp
  qed
  then show ?thesis using f1(1,2) f2(1) fin by (simp add: fetching_def)
qed

lemma complete_test: "complete xp cd f \<Longrightarrow> pd_cd (df_pd f) = Some c \<Longrightarrow> cacheDigestTest c k = cacheDigestTest cd k"
  by (auto simp: complete_def cacheDigestTest_def cacheDigestHashKey_def with_mask_def split: if_splits)


definition demo_entry :: digest_entry where
  "demo_entry = \<lparr>dn_key = replicate 16 0, dn_flags = 32, dn_store_ok = True, dn_swap_file_sz = 500, dn_expires_soon = False\<rparr>"

definition demo_entries :: digest_input where
  "demo_entries = \<lparr>di_search = [demo_entry], di_cap = 10, di_count = 3\<rparr>"

definition demo_events :: "sd_sys \<Rightarrow> digest_event list \<Rightarrow> digest_event \<Rightarrow> sd_sys outcome" where
  "demo_events s rest ev = handle_event demo_digest_config demo_entries ev (s\<lparr>sd_events := rest\<rparr>)"

definition demo_ready :: sd_sys where
  "demo_ready = projr (bindE (storeDigestInit demo_digest_config 10) (storeDigestNoteStoreReady demo_digest_config demo_entries))"

definition demo_rebuilt :: sd_sys where
  "demo_rebuilt = projr (demo_events demo_ready [] RebuildStep)"

definition demo_written :: sd_sys where
  "demo_written = projr (demo_events demo_rebuilt [RebuildStart] SwapOutStep)"

definition demo_body :: bytes where
  "demo_body = fst (hd (sd_published demo_written))"

definition demo_fetch :: digest_fetch where
  "demo_fetch = \<lparr>df_pd = \<lparr>pd_cd = None, pd_usable = False, pd_requested = True, pd_req_result = []\<rparr>, df_status = 200, df_old_status = None, df_offset = 0,
     df_mask_offset = 0, df_buf = replicate 4096 0, df_bufofs = 0, df_state = DIGEST_READ_REPLY, df_peer_valid = True, df_aborted = False, df_finished = False\<rparr>"

definition demo_headers :: bytes where
  "demo_headers = [72, 84, 84, 80, 13, 10, 13, 10]"

lemma demo_ready_run:
  "bindE (storeDigestInit demo_digest_config 10) (storeDigestNoteStoreReady demo_digest_config demo_entries) = Inr demo_ready"
  "sd_events demo_ready = [RebuildStep]"
  by code_simp+

lemma demo_rebuilt_run: "demo_events demo_ready [] RebuildStep = Inr demo_rebuilt"
  by code_simp

lemma demo_rebuilt_events: "sd_events demo_rebuilt = [RebuildStart, SwapOutStep]"
  by code_simp

lemma demo_written_run: "demo_events demo_rebuilt [RebuildStart] SwapOutStep = Inr demo_written"
  by code_simp

lemma demo_published: "sd_published demo_written = [(demo_body, [replicate 16 0])]"
  by code_simp

lemma length_demo_body: "length demo_body = 135"
  by code_simp

lemma demo_reach:
  "reach (\<lambda>s. config_ok demo_digest_config \<and> sd_start demo_digest_config s) (sd_step demo_digest_config) demo_written"
proof -
  have cfg: "config_ok demo_digest_config" by (simp add: config_ok_def demo_digest_config_def)
  have inp: "sizes_ok 10 (dc_bits_per_entry demo_digest_config)" "input_ok demo_digest_config demo_entries"
    by (simp_all add: sizes_ok_def input_ok_def demo_digest_config_def demo_entries_def demo_entry_def)
  have "sd_start demo_digest_config demo_ready" using demo_ready_run(1) inp by (auto simp: outcome_simps intro: sd_start.intros)
  moreover have "sd_step demo_digest_config demo_ready demo_rebuilt"
    using demo_ready_run(2) demo_rebuilt_run inp(2) by (intro sd_step.intros [of demo_ready "[]" RebuildStep "[]"]) (simp_all add: demo_events_def)
  moreover have "sd_step demo_digest_config demo_rebuilt demo_written"
    using demo_rebuilt_events demo_written_run inp(2) by (intro sd_step.intros [of demo_rebuilt "[RebuildStart]" SwapOutStep "[]"]) (simp_all add: demo_events_def)
  ultimately show ?thesis using cfg by (blast intro: reach_start reach_step)
qed

lemma demo_transfer: "fetch_start demo_fetch" "reply_headers demo_headers"
  by (simp_all add: fetch_start_def fetching_def peer_ok_def demo_fetch_def reply_headers_def headersEnd_def demo_headers_def)


section \<open>Larger pieces\<close>

lemma mask_too_long:
  assumes "fetching DIGEST_READ_MASK f" "pd_cd (df_pd f) = Some c" "digest_ok c" "length p \<le> 4096" "digest_octets c < df_mask_offset f + length p" "p \<noteq> []"
  shows "peerDigestHandleReply xp p f = Inl OutOfBounds"
proof -
  let ?g = "f\<lparr>df_buf := memcpy_at (df_buf f) 0 p, df_bufofs := length p\<rparr>"
  obtain mm where "cd_mask c = Some mm" "length mm = digest_octets c" by (rule digest_okD [OF assms(3)])
  then have "transfer_step xp (df_state ?g) ?g = Inl OutOfBounds"
    using assms by (simp add: fetching_def peerDigestSwapInMask_def write_octets_def memcpy_at_def)
  then have "transfer_loop xp (Suc 4) ?g = Inl OutOfBounds" by (rule loop_fault(1))
  then show ?thesis using handle_piece [OF assms(1,6,4), of xp] by (simp del: transfer_loop.simps)
qed

lemma mask_too_large:
  assumes "fetching DIGEST_READ_MASK f" "pd_cd (df_pd f) = Some c" "digest_ok c" "2048 < length p" "length p \<le> 4096"
    "df_mask_offset f + length p < digest_octets c"
  shows "peerDigestHandleReply xp p f = Inl OutOfBounds"
proof -
  let ?g = "f\<lparr>df_buf := memcpy_at (df_buf f) 0 p, df_bufofs := length p\<rparr>"
  obtain mm where mm: "cd_mask c = Some mm" by (rule digest_okD [OF assms(3)])
  have "p \<noteq> []" using assms(4) by auto
  then obtain h where "peerDigestSwapInMask xp ?g = Inr (Some (length p), h)" "df_buf h = df_buf ?g" "df_bufofs h = length p"
    using mask_step [of ?g c mm xp] assms mm by (simp add: fetching_def)
  moreover have "read_octets (df_buf ?g) (length p) (length p) = Inl OutOfBounds"
    using assms(1,4,5) by (simp add: read_octets_def fetching_def)
  ultimately have "transfer_loop xp (Suc 4) ?g = Inl OutOfBounds"
    using assms(1) by (intro loop_fault(2) [of _ _ "length p" h]) (simp_all add: fetching_def)
  then show ?thesis using handle_piece [OF assms(1) \<open>p \<noteq> []\<close> assms(5), of xp] by (simp del: transfer_loop.simps)
qed

lemma cblock_garbles:
  assumes "fetching DIGEST_READ_CBLOCK f" "df_mask_offset f = 0" "peer_ok (df_pd f)" "digest_ok cd" "unat (cd_bits_per_entry cd) < 256"
    "128 < length m0" "length m0 \<le> 2048" "length m0 < digest_octets cd"
  shows "\<exists>f' c mm. peerDigestHandleReply xp (cblock_octets (cd_bits_per_entry cd) cd @ m0) f = Inr f' \<and> \<not> df_finished f' \<and>
    df_mask_offset f' = length m0 \<and> pd_cd (df_pd f') = Some c \<and> cd_mask c = Some mm \<and> take (length m0) mm = take 128 m0 @ take (length m0 - 128) m0"
proof -
  have "length m0 \<le> 3968" "m0 \<noteq> []" using assms(6,7) by auto
  with cblock_round [OF assms(1,3-5), of m0 xp] obtain c b where c: "digest_ok c" "cd_mask_size c = cd_mask_size cd" "length b = 4096"
    "take (length m0) b = take 128 m0 @ take (length m0 - 128) m0"
    "let h = f\<lparr>df_pd := (df_pd f)\<lparr>pd_cd := Some c\<rparr>, df_state := DIGEST_READ_MASK, df_buf := b, df_bufofs := length m0\<rparr> in
     peerDigestHandleReply xp (cblock_octets (cd_bits_per_entry cd) cd @ m0) f =
     bindE (transfer_loop xp 4 h) (\<lambda>(ended, f). Inr (if ended then f\<lparr>df_offset := df_offset f + (128 + length m0)\<rparr> else f))" by auto
  let ?h = "f\<lparr>df_pd := (df_pd f)\<lparr>pd_cd := Some c\<rparr>, df_state := DIGEST_READ_MASK, df_buf := b, df_bufofs := length m0\<rparr>"
  obtain mm where mm: "cd_mask c = Some mm" "length mm = digest_octets c" by (rule digest_okD [OF c(1)])
  let ?m = "memcpy_at mm 0 (take (length m0) b)"
  let ?k = "?h\<lparr>df_pd := (df_pd f)\<lparr>pd_cd := Some (c\<lparr>cd_mask := Some ?m\<rparr>)\<rparr>, df_mask_offset := length m0\<rparr>"
  have v: "df_peer_valid f" "\<not> df_aborted f" "\<not> df_finished f" using assms(1) by (simp_all add: fetching_def)
  have "transfer_step xp (df_state ?h) ?h = Inr (Some (length m0), ?k)"
    using mask_step [of ?h c mm xp] v c(1-3) mm assms(2,7,8) \<open>m0 \<noteq> []\<close> by simp
  moreover have "read_octets b (length m0) (length m0) = Inr (bytes_at b (length m0) (length m0))" using c(3) assms(7) by (simp add: read_octets_def)
  ultimately have "transfer_loop xp (Suc 3) ?h = Inr (True, ?k\<lparr>df_buf := memcpy_at b 0 (bytes_at b (length m0) (length m0)), df_bufofs := 0\<rparr>)"
    using loop_round [of xp ?h "length m0" ?k "bytes_at b (length m0) (length m0)" 3] by (simp del: transfer_loop.simps)
  moreover have "take (length m0) ?m = take (length m0) b" using c(3) assms(7) by (simp add: memcpy_at_def)
  ultimately show ?thesis using c(4,5) v unfolding Let_def by (auto simp del: transfer_loop.simps)
qed

text \<open>
  C40. The transfer goes wrong on larger pieces, for every digest that is large enough.  When more than 128 octets of the mask arrive
  together with the control block, the handler goes on with the first 128 and then the first ones again instead of those that
  follow.  A piece of more than 2048 octets that does not end the mask makes the move of the rest read past the
  buffer, and a piece that is longer than what the control block announced is written past the end of the mask.
\<close>

theorem digest_fetch_faults:
  assumes "fetch_start f" "reply_headers hdrs" "digest_ok cd" "unat (cd_bits_per_entry cd) < 256" "cd_mask cd = Some (m0 @ r)" "r \<noteq> []"
    "p = cblock_octets (cd_bits_per_entry cd) cd @ m0"
  shows "(128 < length m0 \<and> length m0 \<le> 2048 \<longrightarrow>
      (\<exists>f' c mm. receive xp [hdrs, p] f = Inr f' \<and> \<not> df_finished f' \<and> df_mask_offset f' = length m0 \<and> pd_cd (df_pd f') = Some c \<and>
         cd_mask c = Some mm \<and> take (length m0) mm = take 128 m0 @ take (length m0 - 128) m0)) \<and>
    (length m0 \<le> 128 \<longrightarrow> (\<forall>q. length q \<le> 4096 \<longrightarrow>
      2048 < length q \<and> length q < length r \<or> length r < length q \<longrightarrow> receive xp [hdrs, p, q] f = Inl OutOfBounds))"
proof -
  have fin: "\<not> df_finished f" "peer_ok (df_pd f)" using assms(1) by (simp_all add: fetch_start_def fetching_def)
  have n: "length m0 + length r = digest_octets cd" using assms(3,5) by (auto simp: digest_ok_def)
  moreover have "0 < length r" using assms(6) by simp
  ultimately have lt: "length m0 < digest_octets cd" by linarith
  obtain f1 where f1: "peerDigestHandleReply xp hdrs f = Inr f1" "fetching DIGEST_READ_CBLOCK f1" "df_mask_offset f1 = 0" "df_pd f1 = df_pd f"
    using handle_headers [OF assms(1,2)] by blast
  then have f1': "peer_ok (df_pd f1)" "\<not> df_finished f1" using fin by (simp_all add: fetching_def)
  have "receive xp [hdrs, p, q] f = Inl OutOfBounds"
    if "length m0 \<le> 128" "length q \<le> 4096" "2048 < length q \<and> length q < length r \<or> length r < length q" for q
  proof -
    have "\<exists>f2. peerDigestHandleReply xp p f1 = Inr f2 \<and> received cd (m0 @ r) (length m0) f2"
      using handle_cblock [OF f1(2,3) f1'(1) assms(3-5), of m0 "[r]" xp] that(1) lt assms(7) by simp
    then obtain f2 c where f2: "peerDigestHandleReply xp p f1 = Inr f2" "fetching DIGEST_READ_MASK f2" "df_mask_offset f2 = length m0"
      "pd_cd (df_pd f2) = Some c" "digest_ok c" "digest_octets c = digest_octets cd" by (auto simp: received_def)
    have "q \<noteq> []" using that(3) by auto
    then have "peerDigestHandleReply xp q f2 = Inl OutOfBounds"
      using that mask_too_large [OF f2(2,4,5) _ that(2)] mask_too_long [OF f2(2,4,5) that(2)] f2(3,6) n by auto
    then show ?thesis using f1(1) f1' f2(1,2) fin by (simp add: fetching_def)
  qed
  moreover have "\<exists>f' c mm. receive xp [hdrs, p] f = Inr f' \<and> \<not> df_finished f' \<and> df_mask_offset f' = length m0 \<and> pd_cd (df_pd f') = Some c \<and>
      cd_mask c = Some mm \<and> take (length m0) mm = take 128 m0 @ take (length m0 - 128) m0" if "128 < length m0" "length m0 \<le> 2048"
    using cblock_garbles [OF f1(2,3) f1'(1) assms(3,4) that lt, of xp] f1(1) f1' fin assms(7) by auto
  ultimately show ?thesis by blast
qed

definition demo_digest :: cache_digest where
  "demo_digest = \<lparr>cd_mask = Some (replicate 8 3), cd_mask_size = 8, cd_capacity = 16, cd_bits_per_entry = 4, cd_count = 5, cd_del_count = 0\<rparr>"

theorem digest_fetch_faults_witness:
  "receive (\<lambda>x y. 100 * x div y) [demo_headers, cblock_octets 4 demo_digest @ [3], replicate 8 3] demo_fetch = Inl OutOfBounds"
proof -
  have "digest_ok demo_digest" by (simp add: digest_ok_def demo_digest_def sizes_ok_def)
  moreover have "cd_mask demo_digest = Some ([3] @ replicate 7 3)" "cd_bits_per_entry demo_digest = 4"
    by (simp_all add: demo_digest_def eval_nat_numeral)
  ultimately show ?thesis
    using digest_fetch_faults [OF demo_transfer, of demo_digest "[3]" "replicate 7 3" "cblock_octets 4 demo_digest @ [3]" "\<lambda>x y. 100 * x div y"] by auto
qed

end
