(* ===== verification/Spec2Isabelle.thy ===== *)
theory Spec2Isabelle
  imports Squid_Prelude Read_Write_Lock Store_Map Ipc_Queue Page_Stack File_Map Event_Scheduler Splay_Tree Mem_Hdr Refresh Byte_Range Http_Range Mem_Buf Chunked_Parser Chunked_Decoding Body_Pipe Delay_Pools Removal_Policy Priority_Heap Heap_Policy Dlink_List Lru_Policy Dns_Codec Dns_Messages Shared_Pages Mem_Store Cache_Contract Memory_Cache Request_Line Request_Parsing Url_Escape Request_Method Url Url_Parsing Header_Ids Http_Header Header_Parser Header_Fields Header_Parsing Swap_Meta Disk_Meta Disk_Entries Swap_Log Cache_Digest Digest_Filter Store_Digest Digest_Rebuild Peer_Digest Digest_Exchange
begin

text \<open>
  A verification development for the Squid 3.3.5 caching proxy (\<^verbatim>\<open>squid-3.3.5/\<close>).

  \<^bold>\<open>The program.\<close>  Squid receives requests from clients, answers them from its caches when the freshness rules
  allow it, and otherwise fetches, stores and forwards objects.  In its multi-process mode the workers and the disk
  processes share caches and exchange requests through data structures in shared memory that use atomic
  instructions and no locks of the operating system.  The development models the parts that carry this core:
  the shared-memory structures, the in-memory and on-disk bookkeeping of objects, the decision whether a stored
  object may be used, the parts of HTTP that move bodies (ranges, chunked coding, body pipes, buffers), the event
  queue and the rate limits, the replacement policies, the DNS codec, the shared memory cache, the
  parsing of request lines, URLs and header fields, the meta data of objects on disk, and cache digests.

  \<^bold>\<open>Theories, in the order of their use, and the sources they translate.\<close>

  \<^item> \<open>Squid_Prelude\<close>: routines return an \<open>outcome\<close> (\<open>Inl\<close> a fault: failed assertion, failed \<^verbatim>\<open>Must()\<close>, access out of
    bounds, fatal error; \<open>Inr\<close> the result); the locale \<open>invariant_system\<close> of a step relation and
    an inductive invariant; counting lemmas for processes and for indexed updates; byte lists.
  \<^item> \<open>Read_Write_Lock\<close> (\<^verbatim>\<open>src/ipc/ReadWriteLock.cc\<close>): the lock routines, and every interleaving of their atomic
    instructions by any number of processes as the relation \<open>rw_step\<close>.  The locale \<open>shared_exclusive_lock\<close> is the
    contract its clients use.  Shown: mutual exclusion, exact counters, and that the routines are runs of the relation.
  \<^item> \<open>Store_Map\<close> (\<^verbatim>\<open>src/ipc/StoreMap.cc\<close>): the shared index of cached objects, built on the lock.  Shown: the
    consistency invariant under all calls, that the calls a process may make fail no assertion, that what a writer
    stores a reader finds, and how releasing an entry twice corrupts the count.
  \<^item> \<open>Ipc_Queue\<close> (\<^verbatim>\<open>src/ipc/Queue.cc\<close>, \<^verbatim>\<open>Queue.h\<close>): the one-writer one-reader ring buffer, sequentially (an instance
    of the locale \<open>bounded_fifo\<close>) and instruction by instruction with a concurrent reader and writer; the notification
    protocol with its lost wake-up; the two-group queue (addressing, round-robin pop).
  \<^item> \<open>Page_Stack\<close> (\<^verbatim>\<open>src/ipc/mem/PageStack.cc\<close>, \<^verbatim>\<open>PagePool.cc\<close>): the lock-free stack of free pages, for any number
    of concurrent processes, and the pool on top of it.
  \<^item> \<open>File_Map\<close> (\<^verbatim>\<open>src/filemap.cc\<close>, allocation in \<^verbatim>\<open>src/fs/ufs/UFSSwapDir.cc\<close>): the bitmap of swap file numbers on
    machine words; the locale \<open>number_allocator\<close>, interpreted by the cache directory.
  \<^item> \<open>Event_Scheduler\<close> (\<^verbatim>\<open>src/event.cc\<close>): the queue of timed events; order, dispatch and cancellation.
  \<^item> \<open>Splay_Tree\<close> (\<^verbatim>\<open>include/splay.h\<close>): top-down splaying and the container; refinement to a sorted list through
    the locale \<open>ordered_container\<close>; the iterator.
  \<^item> \<open>Byte_Range\<close>, \<open>Mem_Hdr\<close> (\<^verbatim>\<open>include/Range.h\<close>, \<^verbatim>\<open>src/stmem.cc\<close>, \<^verbatim>\<open>src/mem_node.cc\<close>): the data of an object in memory, as
    pages in a splay tree; writes, reads, frees and gaps against the bytes the store holds.
  \<^item> \<open>Refresh\<close> (\<^verbatim>\<open>src/refresh.cc\<close>): the freshness decision, its reasons, and when revalidation is enforced.
  \<^item> \<open>Http_Range\<close> (\<^verbatim>\<open>src/HttpHdrRange.cc\<close>, parts of \<^verbatim>\<open>StrList.cc\<close> and \<^verbatim>\<open>HttpHeaderTools.cc\<close>): the Range header
    with 64-bit wrap-around; parsing, printing, canonization and the offsets derived from it.
  \<^item> \<open>Mem_Buf\<close> (\<^verbatim>\<open>src/MemBuf.cc\<close>): growing buffers; the locale \<open>byte_sink\<close>.
  \<^item> \<open>Chunked_Parser\<close>, \<open>Chunked_Decoding\<close> (\<^verbatim>\<open>src/ChunkedCodingParser.cc\<close>): the incremental parser on \<open>Mem_Buf\<close>
    buffers; that it decodes every well-formed body, however the input is cut into segments, and where it departs
    from the grammar.
  \<^item> \<open>Body_Pipe\<close> (\<^verbatim>\<open>src/BodyPipe.cc\<close>): the pipe between the producer and the consumer of a body; an invariant over all
    uses with jobs that may die at any time.
  \<^item> \<open>Delay_Pools\<close> (\<^verbatim>\<open>src/delay_pools.cc\<close> and the \<^verbatim>\<open>Delay*.cc\<close> files): the rate limits; a bound on what a bucket lets
    through.
  \<^item> \<open>Priority_Heap\<close> (\<^verbatim>\<open>lib/heap.c\<close>): the binary heap on its array, over any linearly ordered keys, with the ageing
    function of the client as a parameter.  Its loops run on a bound (the fault \<open>LoopBound\<close> marks that it is used up)
    of the index of the last node, which the lemmas show to be enough; the locale \<open>keyed_queue\<close> states the
    contract in terms of the multiset of entries.
  \<^item> \<open>Removal_Policy\<close>, \<open>Heap_Policy\<close> (\<^verbatim>\<open>src/repl/heap/store_repl_heap.cc\<close>), \<open>Dlink_List\<close> (\<^verbatim>\<open>src/dlink.cc\<close>),
    \<open>Lru_Policy\<close> (\<^verbatim>\<open>src/repl/lru/store_repl_lru.cc\<close>): the two replacement policies and the structures below them.  The
    locale \<open>replacement_policy\<close> is what the store relies on; both policies interpret it.  Shown: the invariant under
    every operation, and that a purge session offers unlocked objects only, each at most once, in the order of the policy,
    and puts the locked ones back.  Key functions of the heap policy and idle handling are parameters.
  \<^item> \<open>Dns_Codec\<close>, \<open>Dns_Messages\<close> (\<^verbatim>\<open>lib/rfc1035.c\<close>, \<^verbatim>\<open>lib/rfc2671.c\<close>, \<^verbatim>\<open>lib/rfc3596.c\<close>): DNS messages on byte arrays.  The
    relation \<open>name_at\<close> specifies the names of a message with their compression pointers; the decoder is shown to read exactly these,
    unpacking to be safe on every input, and a query to be recognised in its replies.  The recursion of the decoder
    ends because the source bounds its depth; the model needs no bound of its own.
  \<^item> \<open>Shared_Pages\<close> (\<^verbatim>\<open>src/ipc/mem/Pages.cc\<close>), \<open>Mem_Store\<close> (\<^verbatim>\<open>src/MemStore.cc\<close>), \<open>Cache_Contract\<close>, \<open>Memory_Cache\<close>: the
    memory cache that the workers share, which puts the store map, the page pool and the in-memory data of entries
    together.  The locale \<open>page_lender\<close> is what an owner of pages relies on, \<open>lossy_cache\<close> what the users of a cache rely on.  Shown: from
    the start of the program on no call fails and no page is lost, keeping an entry updates a direct-mapped cache, loading
    returns the stored bytes, and a hit is never stale.  The calls run one after the other here; the loops of the pool
    have its number of pages as their bound, which is shown to be enough.
  \<^item> \<open>Request_Line\<close>, \<open>Request_Parsing\<close> (\<^verbatim>\<open>src/HttpParser.cc\<close>): the parser of request lines on the input buffer of a
    connection, in strict and relaxed mode.  Shown: it agrees on every input with a specification that splits the line into
    words, gives back the parts a line was printed from, never reads outside the buffer, and in strict mode never
    revises an answer when more data arrives.
  \<^item> \<open>Url_Escape\<close> (\<^verbatim>\<open>lib/rfc1738.c\<close>), \<open>Request_Method\<close> (\<^verbatim>\<open>src/HttpRequestMethod.cc\<close>), \<open>Url\<close>, \<open>Url_Parsing\<close> (\<^verbatim>\<open>src/url.cc\<close>,
    \<^verbatim>\<open>src/URLScheme.cc\<close>): escaping, methods, and URLs.  Shown: parsing any URL stays inside the fixed
    arrays and returns well-formed requests only, a canonical URL stands for its request, domain names are compared as
    documented, and escaping is safe and reversible.  Lemmas at the end show inputs the code accepts
    against its comments.
  \<^item> \<open>Header_Ids\<close>, \<open>Http_Header\<close>, \<open>Header_Parser\<close>, \<open>Header_Fields\<close>, \<open>Header_Parsing\<close> (\<^verbatim>\<open>src/HttpHeader.cc\<close>, parts of \<^verbatim>\<open>StrList.cc\<close> and
    \<^verbatim>\<open>String.cc\<close>): the header fields of messages, as an array of entries with gaps, a bit mask and a length, and the parser of header
    blocks.  The locale \<open>field_table\<close> is what merging and parsing rely on; the container interprets it.  Shown: mask and length
    are exact and every operation changes the list of fields as specified, updates replace exactly what they bring, no
    hop-by-hop field survives its removal, parsing is safe and never leaves a message with two lengths, and printed headers
    are read back.
  \<^item> \<open>Swap_Meta\<close>, \<open>Disk_Meta\<close>, \<open>Disk_Entries\<close>, \<open>Swap_Log\<close> (\<^verbatim>\<open>src/StoreMeta*.cc\<close>, \<^verbatim>\<open>src/store_swapmeta.cc\<close>, the readers in
    \<^verbatim>\<open>src/store_rebuild.cc\<close> and \<^verbatim>\<open>src/store_client.cc\<close>, \<^verbatim>\<open>src/StoreSwapLogData.cc\<close>): the meta data in front of an object on disk and the
    records of the swap log.  Shown: unpacking agrees with a structural reading and does not return on a record of length -5, a
    swapped-out entry is indexed again with its key and fields, a hit is served only from the file of its object, and the
    checksum of a log record detects every single-bit error.
  \<^item> \<open>Cache_Digest\<close>, \<open>Digest_Filter\<close>, \<open>Store_Digest\<close>, \<open>Digest_Rebuild\<close>, \<open>Peer_Digest\<close>, \<open>Digest_Exchange\<close> (\<^verbatim>\<open>src/CacheDigest.cc\<close>, \<^verbatim>\<open>src/store_digest.cc\<close>,
    \<^verbatim>\<open>src/peer_digest.cc\<close>): the summaries of caches that peers exchange.  The locale \<open>bloom_filter\<close> is what their users rely on; the
    digest interprets it as \<open>dg\<close>.  Shown: a key that was added is always found, and in every order of the timed events
    rebuilding and rewriting take turns, no assertion fails, and each published digest is whole; a peer that fetches it in small pieces answers as the sender does.
    Larger pieces are shown to garble the digest or to leave the buffers.

  \<^bold>\<open>How the code is read.\<close>  Objects are records with the names of the source's members; classes with subclasses are
  datatypes; a routine is a function from the state to an \<open>outcome\<close> of the new state.  Integers keep their width where
  the code can overflow (\<^verbatim>\<open>int64_t\<close> offsets in ranges, 32-bit bucket levels, the words of the bitmap, the counters of
  the shared structures); elsewhere they are mathematical, with the bound stated in the theory.  Atomic instructions are
  the steps of the relations: a process is a program counter with its local variables, and any process may take the
  next step, under sequential consistency, which the compiler's atomic built-ins used by \<^verbatim>\<open>ipc/AtomicWord.h\<close> document.
  Code outside the modelled files (access list answers, the time, regular expressions of refresh patterns) is a
  parameter.  Loops whose end is not evident from the data carry a termination proof; the loops of the page stack,
  which may spin while others interfere, are steps of the relation, and their termination without interference is shown.

  \<^bold>\<open>Not modelled.\<close>  Sockets, disk and process management, the callback-driven request processing on both sides,
  access lists, authentication, adaptation services, SSL, name resolution, configuration parsing, logging, management
  protocols, the bundled libraries and the helper programs: they are input and output, or glue over libraries, or
  are driven by components that are not modelled.  Within the modelled files, debugging output and statistics are left
  out.  Peer selection, and the life cycle of a store entry above the modelled
  structures, would be the next extensions.
\<close>

end
